(* ===== verification/Prelude.thy ===== *)
theory Prelude
  imports Main "HOL-Library.AList"
begin

text \<open>
  Shared vocabulary of the development: Rust strings as lists of Unicode scalar values with
  their UTF-8 length, the few string functions of the Rust standard library that the modelled
  code calls, and hash maps as association lists. No definition here models a file of the
  repository; the component theories do.
\<close>

section \<open>Collections of facts\<close>

named_theorems rust_defs \<open>definitions of standard library functions\<close>
named_theorems inv_intros \<open>invariant preservation rules\<close>

section \<open>Characters and strings\<close>

text \<open>
  A Rust \<open>char\<close> is its code point, a \<open>str\<close> the list of its characters. Lengths and offsets
  of the source count bytes of the UTF-8 encoding: \<open>blen\<close> is \<open>str::len\<close>.
\<close>

type_synonym rchar = nat
type_synonym rstring = "rchar list"

definition lit :: "string \<Rightarrow> rstring" where
  "lit s = map of_char s"

definition ch :: "char \<Rightarrow> rchar" where
  "ch c = of_char c"

definition utf8_len :: "rchar \<Rightarrow> nat" where
  "utf8_len c = (if c < 0x80 then 1 else if c < 0x800 then 2 else if c < 0x10000 then 3 else 4)"

definition blen :: "rstring \<Rightarrow> nat" where
  "blen s = sum_list (map utf8_len s)"

definition is_ascii :: "rchar \<Rightarrow> bool" where
  "is_ascii c \<longleftrightarrow> c < 0x80"

definition is_ascii_digit :: "rchar \<Rightarrow> bool" where
  "is_ascii_digit c \<longleftrightarrow> 0x30 \<le> c \<and> c \<le> 0x39"

definition is_ascii_upper :: "rchar \<Rightarrow> bool" where
  "is_ascii_upper c \<longleftrightarrow> 0x41 \<le> c \<and> c \<le> 0x5A"

definition is_ascii_lower :: "rchar \<Rightarrow> bool" where
  "is_ascii_lower c \<longleftrightarrow> 0x61 \<le> c \<and> c \<le> 0x7A"

definition is_ascii_alphabetic :: "rchar \<Rightarrow> bool" where
  "is_ascii_alphabetic c \<longleftrightarrow> is_ascii_upper c \<or> is_ascii_lower c"

definition is_ascii_graphic :: "rchar \<Rightarrow> bool" where
  "is_ascii_graphic c \<longleftrightarrow> 0x21 \<le> c \<and> c \<le> 0x7E"

text \<open>\<open>char::is_control\<close>: the general category Cc.\<close>

definition is_control :: "rchar \<Rightarrow> bool" where
  "is_control c \<longleftrightarrow> c < 0x20 \<or> (0x7F \<le> c \<and> c \<le> 0x9F)"

text \<open>\<open>char::is_whitespace\<close>: the property White_Space, twenty-five code points.\<close>

definition is_whitespace :: "rchar \<Rightarrow> bool" where
  "is_whitespace c \<longleftrightarrow> (0x09 \<le> c \<and> c \<le> 0x0D) \<or> c = 0x20 \<or> c = 0x85 \<or> c = 0xA0 \<or> c = 0x1680
     \<or> (0x2000 \<le> c \<and> c \<le> 0x200A) \<or> c = 0x2028 \<or> c = 0x2029 \<or> c = 0x202F \<or> c = 0x205F
     \<or> c = 0x3000"

definition to_ascii_lowercase :: "rchar \<Rightarrow> rchar" where
  "to_ascii_lowercase c = (if is_ascii_upper c then c + 0x20 else c)"

definition to_ascii_uppercase :: "rchar \<Rightarrow> rchar" where
  "to_ascii_uppercase c = (if is_ascii_lower c then c - 0x20 else c)"

definition eq_ignore_ascii_case :: "rstring \<Rightarrow> rstring \<Rightarrow> bool" where
  "eq_ignore_ascii_case s t \<longleftrightarrow> map to_ascii_lowercase s = map to_ascii_lowercase t"

lemmas char_class_defs = is_ascii_def is_ascii_digit_def is_ascii_upper_def is_ascii_lower_def
  is_ascii_alphabetic_def is_ascii_graphic_def is_control_def is_whitespace_def

lemma utf8_len_bounds: "1 \<le> utf8_len c" "utf8_len c \<le> 4"
  by (auto simp: utf8_len_def)

lemma utf8_len_ascii [simp]: "c < 0x80 \<Longrightarrow> utf8_len c = 1"
  by (simp add: utf8_len_def)

lemma blen_Nil [simp]: "blen [] = 0"
  by (simp add: blen_def)

lemma blen_Cons [simp]: "blen (c # s) = utf8_len c + blen s"
  by (simp add: blen_def)

lemma blen_append [simp]: "blen (s @ t) = blen s + blen t"
  by (simp add: blen_def)

lemma length_le_blen: "length s \<le> blen s"
proof (induction s)
  case (Cons c s)
  then show ?case using utf8_len_bounds(1) [of c] by simp
qed simp

lemma blen_le_4_length: "blen s \<le> 4 * length s"
proof (induction s)
  case (Cons c s)
  then show ?case using utf8_len_bounds(2) [of c] by simp
qed simp

lemma blen_eq_0_iff [simp]: "blen s = 0 \<longleftrightarrow> s = []"
  using length_le_blen [of s] by auto

lemma blen_ascii: "(\<And>c. c \<in> set s \<Longrightarrow> c < 0x80) \<Longrightarrow> blen s = length s"
  by (induction s) auto

lemma blen_map: "(\<And>c. utf8_len (f c) = utf8_len c) \<Longrightarrow> blen (map f s) = blen s"
  by (induction s) auto

lemma utf8_len_to_ascii_lowercase [simp]: "utf8_len (to_ascii_lowercase c) = utf8_len c"
  by (auto simp: to_ascii_lowercase_def is_ascii_upper_def utf8_len_def)

lemma to_ascii_lowercase_idem [simp]:
  "to_ascii_lowercase (to_ascii_lowercase c) = to_ascii_lowercase c"
  by (auto simp: to_ascii_lowercase_def is_ascii_upper_def)

lemma eq_ignore_ascii_case_refl [simp]: "eq_ignore_ascii_case s s"
  by (simp add: eq_ignore_ascii_case_def)

section \<open>Prefixes, suffixes and splitting\<close>

definition strip_prefix :: "'a list \<Rightarrow> 'a list \<Rightarrow> 'a list option" where
  "strip_prefix p s = (if take (length p) s = p then Some (drop (length p) s) else None)"

definition strip_suffix :: "'a list \<Rightarrow> 'a list \<Rightarrow> 'a list option" where
  "strip_suffix p s =
     (if length p \<le> length s \<and> drop (length s - length p) s = p
      then Some (take (length s - length p) s) else None)"

definition starts_with_any :: "'a list \<Rightarrow> 'a list \<Rightarrow> bool" where
  "starts_with_any cs s = (case s of [] \<Rightarrow> False | c # _ \<Rightarrow> c \<in> set cs)"

definition trim_start_matches :: "'a list \<Rightarrow> 'a list \<Rightarrow> 'a list" where
  "trim_start_matches cs s = dropWhile (\<lambda>c. c \<in> set cs) s"

definition trim :: "rstring \<Rightarrow> rstring" where
  "trim s = rev (dropWhile is_whitespace (rev (dropWhile is_whitespace s)))"

text \<open>\<open>split_once\<close>: the parts around the first separator.\<close>

fun split_once :: "'a \<Rightarrow> 'a list \<Rightarrow> ('a list \<times> 'a list) option" where
  "split_once d [] = None"
| "split_once d (c # s) =
     (if c = d then Some ([], s)
      else map_option (\<lambda>(a, b). (c # a, b)) (split_once d s))"

text \<open>\<open>split\<close> at every character with a property: never empty, one part more than separators.\<close>

fun split_by :: "('a \<Rightarrow> bool) \<Rightarrow> 'a list \<Rightarrow> 'a list list" where
  "split_by P [] = [[]]"
| "split_by P (c # s) =
     (case split_by P s of
        [] \<Rightarrow> [[]]
      | w # ws \<Rightarrow> (if P c then [] # w # ws else (c # w) # ws))"

definition split_whitespace :: "rstring \<Rightarrow> rstring list" where
  "split_whitespace s = filter (\<lambda>w. w \<noteq> []) (split_by is_whitespace s)"

lemma split_by_neq_Nil [simp]: "split_by P s \<noteq> []"
  by (induction s) (auto split: list.splits)

lemma strip_prefix_Some: "strip_prefix p s = Some r \<longleftrightarrow> s = p @ r"
  by (auto simp: strip_prefix_def) (metis append_take_drop_id)

lemma strip_suffix_Some: "strip_suffix p s = Some r \<longleftrightarrow> s = r @ p"
proof
  assume "strip_suffix p s = Some r"
  then show "s = r @ p"
    by (auto simp: strip_suffix_def split: if_splits) (metis append_take_drop_id)
qed (simp add: strip_suffix_def)

lemma split_once_Some: "split_once d s = Some (a, b) \<Longrightarrow> s = a @ d # b \<and> d \<notin> set a"
  by (induction s arbitrary: a b) (auto split: if_splits)

lemma split_once_None: "split_once d s = None \<longleftrightarrow> d \<notin> set s"
  by (induction s) auto

lemma split_by_free: "w \<in> set (split_by P s) \<Longrightarrow> c \<in> set w \<Longrightarrow> \<not> P c \<and> c \<in> set s"
proof (induction s arbitrary: w)
  case (Cons x s)
  obtain v vs where v: "split_by P s = v # vs"
    by (cases "split_by P s") auto
  with Cons.prems Cons.IH [of v] Cons.IH [of w] show ?case
    by (auto split: if_splits)
qed simp

lemma set_dropWhile_subset: "set (dropWhile P s) \<subseteq> set s"
  by (auto dest: set_dropWhileD)

lemma set_trim_subset: "set (trim s) \<subseteq> set s"
  unfolding trim_def set_rev
  by (metis (no_types) order_trans set_dropWhile_subset set_rev)

section \<open>Byte offsets\<close>

text \<open>
  \<open>is_char_boundary\<close>, the search backwards for a boundary that truncating code writes as a
  loop, and the slice \<open>s[..n]\<close> at a boundary.
\<close>

fun is_char_boundary :: "rstring \<Rightarrow> nat \<Rightarrow> bool" where
  "is_char_boundary s 0 = True"
| "is_char_boundary [] (Suc n) = False"
| "is_char_boundary (c # s) (Suc n) =
     (utf8_len c \<le> Suc n \<and> is_char_boundary s (Suc n - utf8_len c))"

fun floor_boundary :: "rstring \<Rightarrow> nat \<Rightarrow> nat" where
  "floor_boundary s n =
     (if is_char_boundary s n then n else case n of 0 \<Rightarrow> 0 | Suc m \<Rightarrow> floor_boundary s m)"

fun slice_to :: "rstring \<Rightarrow> nat \<Rightarrow> rstring" where
  "slice_to [] n = []"
| "slice_to (c # s) n = (if utf8_len c \<le> n then c # slice_to s (n - utf8_len c) else [])"

fun slice_from :: "rstring \<Rightarrow> nat \<Rightarrow> rstring" where
  "slice_from s 0 = s"
| "slice_from [] (Suc n) = []"
| "slice_from (c # s) (Suc n) = slice_from s (Suc n - utf8_len c)"

declare floor_boundary.simps [simp del]

lemma floor_boundary_le: "floor_boundary s n \<le> n"
  by (induction n) (simp_all add: floor_boundary.simps)

lemma floor_boundary_is: "is_char_boundary s (floor_boundary s n)"
  by (induction n) (simp_all add: floor_boundary.simps)

lemma blen_slice_to: "blen (slice_to s n) \<le> n"
  by (induction s n rule: slice_to.induct) auto

lemma slice_to_prefix: "\<exists>t. s = slice_to s n @ t"
  by (induction s n rule: slice_to.induct) auto

lemma slice_to_all: "blen s \<le> n \<Longrightarrow> slice_to s n = s"
  by (induction s n rule: slice_to.induct) auto

lemma blen_slice_to_boundary: "is_char_boundary s n \<Longrightarrow> blen (slice_to s n) = n"
proof (induction s n rule: is_char_boundary.induct)
  case (1 s)
  then show ?case using utf8_len_bounds(1) by (cases s) (auto simp: Suc_le_eq)
qed auto

lemma slice_boundary_append: "is_char_boundary s n \<Longrightarrow> slice_to s n @ slice_from s n = s"
proof (induction s n rule: is_char_boundary.induct)
  case (1 s)
  then show ?case using utf8_len_bounds(1) by (cases s) (auto simp: Suc_le_eq)
qed auto

lemma slice_from_blen [simp]: "slice_from (u @ v) (blen u) = v"
proof (induction u)
  case (Cons c u)
  obtain k where "utf8_len c + blen u = Suc k"
    using utf8_len_bounds(1) [of c] by (cases "utf8_len c + blen u") auto
  with Cons show ?case
    by (simp add: \<open>utf8_len c + blen u = Suc k\<close> [symmetric] del: slice_from.simps)
       (metis Cons.IH \<open>utf8_len c + blen u = Suc k\<close> add_diff_cancel_left' slice_from.simps(3))
qed simp

section \<open>UTF-8\<close>

definition utf8_char :: "rchar \<Rightarrow> nat list" where
  "utf8_char c =
     (if c < 0x80 then [c]
      else if c < 0x800 then [0xC0 + c div 0x40, 0x80 + c mod 0x40]
      else if c < 0x10000 then [0xE0 + c div 0x1000, 0x80 + c div 0x40 mod 0x40, 0x80 + c mod 0x40]
      else [0xF0 + c div 0x40000, 0x80 + c div 0x1000 mod 0x40, 0x80 + c div 0x40 mod 0x40,
            0x80 + c mod 0x40])"

text \<open>\<open>as_bytes\<close>.\<close>

definition utf8 :: "rstring \<Rightarrow> nat list" where
  "utf8 s = concat (map utf8_char s)"

lemma length_utf8 [simp]: "length (utf8 s) = blen s"
  by (induction s) (auto simp: utf8_def utf8_char_def utf8_len_def)

lemma utf8_ascii: "list_all (\<lambda>c. c < 0x80) s \<Longrightarrow> utf8 s = s"
  by (induction s) (auto simp: utf8_def utf8_char_def)

section \<open>Decimal numbers\<close>

fun digits_value :: "nat \<Rightarrow> rstring \<Rightarrow> nat" where
  "digits_value acc [] = acc"
| "digits_value acc (c # s) = digits_value (acc * 10 + (c - 0x30)) s"

text \<open>\<open>str::parse\<close> for an unsigned type whose largest value is \<open>bound\<close>: an optional plus sign,
  then at least one digit; an overflow is an error.\<close>

definition parse_unsigned :: "nat \<Rightarrow> rstring \<Rightarrow> nat option" where
  "parse_unsigned bound s =
     (let d = (case s of [] \<Rightarrow> [] | c # r \<Rightarrow> if c = 0x2B then r else s)
      in if d \<noteq> [] \<and> list_all is_ascii_digit d \<and> digits_value 0 d \<le> bound
         then Some (digits_value 0 d) else None)"

lemma parse_unsigned_le: "parse_unsigned bound s = Some n \<Longrightarrow> n \<le> bound"
  by (auto simp: parse_unsigned_def Let_def split: if_splits)

text \<open>\<open>to_string\<close> of an unsigned number.\<close>

fun decimal :: "nat \<Rightarrow> rstring" where
  "decimal n = (if n < 10 then [0x30 + n] else decimal (n div 10) @ [0x30 + n mod 10])"

declare decimal.simps [simp del]

lemma is_ascii_digit_add: "d < 10 \<Longrightarrow> is_ascii_digit (0x30 + d)"
  by (simp add: is_ascii_digit_def)

lemma decimal_digits: "list_all is_ascii_digit (decimal n)"
proof (induction n rule: decimal.induct)
  case (1 n)
  then show ?case
    by (subst decimal.simps) (simp add: is_ascii_digit_add)
qed

lemma decimal_neq_Nil [simp]: "decimal n \<noteq> []"
  by (subst decimal.simps) auto

lemma digits_value_append: "digits_value a (s @ t) = digits_value (digits_value a s) t"
  by (induction s arbitrary: a) auto

lemma digits_value_decimal: "digits_value 0 (decimal n) = n"
proof (induction n rule: decimal.induct)
  case (1 n)
  then show ?case
    by (subst decimal.simps) (auto simp: digits_value_append)
qed

lemma parse_decimal: "n \<le> bound \<Longrightarrow> parse_unsigned bound (decimal n) = Some n"
proof -
  assume n: "n \<le> bound"
  obtain c r where c: "decimal n = c # r"
    by (cases "decimal n") auto
  have "c \<noteq> 0x2B"
    using decimal_digits [of n] c by (auto simp: is_ascii_digit_def)
  with c n show ?thesis
    using decimal_digits [of n] digits_value_decimal [of n]
    by (simp add: parse_unsigned_def)
qed

section \<open>Hash maps\<close>

text \<open>
  A \<open>HashMap\<close> is an association list with one entry per key, read with \<open>map_of\<close> and changed
  with the library's \<open>AList.update\<close> and \<open>AList.delete\<close>. Iteration follows the list: the code
  iterates in an unspecified order, and since a statement about every list of entries covers
  every order, no theorem here depends on the one a program run happens to use.
\<close>

type_synonym ('k, 'v) hmap = "('k \<times> 'v) list"

definition keys_distinct :: "('k, 'v) hmap \<Rightarrow> bool" where
  "keys_distinct m \<longleftrightarrow> distinct (map fst m)"

lemma keys_distinct_Nil [simp, intro]: "keys_distinct []"
  by (simp add: keys_distinct_def)

lemma keys_distinct_update [simp, intro]: "keys_distinct m \<Longrightarrow> keys_distinct (AList.update k v m)"
  by (simp add: keys_distinct_def distinct_update)

lemma keys_distinct_delete [simp, intro]: "keys_distinct m \<Longrightarrow> keys_distinct (AList.delete k m)"
  by (simp add: keys_distinct_def distinct_delete)

lemma map_of_update [simp]: "map_of (AList.update k v m) = (map_of m)(k \<mapsto> v)"
  by (rule update_conv')

lemma map_of_delete [simp]: "map_of (AList.delete k m) = (map_of m)(k := None)"
  by (rule delete_conv')

lemma length_update:
  "length (AList.update k v m) = (if map_of m k = None then Suc (length m) else length m)"
  by (induction m) auto

lemma length_delete_le: "length (AList.delete k m) \<le> length m"
  by (simp add: AList.delete_eq)

lemma set_update_subset: "set (AList.update k v m) \<subseteq> insert (k, v) (set m)"
  by (induction m) auto

lemma set_delete_subset: "set (AList.delete k m) \<subseteq> set m"
  by (auto simp: AList.delete_eq)

lemma in_delete_iff: "(a, b) \<in> set (AList.delete k m) \<longleftrightarrow> (a, b) \<in> set m \<and> a \<noteq> k"
  by (auto simp: AList.delete_eq)

lemma map_of_in_iff: "keys_distinct m \<Longrightarrow> map_of m k = Some v \<longleftrightarrow> (k, v) \<in> set m"
  by (simp add: keys_distinct_def)

lemma length_eq_card_dom: "keys_distinct m \<Longrightarrow> length m = card (dom (map_of m))"
  by (metis dom_map_of_conv_image_fst distinct_card keys_distinct_def length_map set_map)

section \<open>The earliest instant\<close>

text \<open>\<open>Iterator::min\<close> of instants.\<close>

definition min_instant :: "nat list \<Rightarrow> nat option" where
  "min_instant ts = (case ts of [] \<Rightarrow> None | t # us \<Rightarrow> Some (foldl min t us))"

lemma foldl_min_in: "foldl min (t::nat) ts \<in> insert t (set ts)"
proof (induction ts arbitrary: t)
  case (Cons a ts)
  from Cons [of "min t a"] show ?case by (auto simp: min_def split: if_splits)
qed simp

lemma foldl_min_le: "foldl min (t::nat) ts \<le> t \<and> (\<forall>u \<in> set ts. foldl min t ts \<le> u)"
proof (induction ts arbitrary: t)
  case (Cons a ts)
  from Cons [of "min t a"] show ?case by auto
qed simp

lemma min_instant_iff:
  "min_instant ts = Some t \<longleftrightarrow> t \<in> set ts \<and> (\<forall>u \<in> set ts. t \<le> u)"
proof (cases ts)
  case (Cons x xs)
  have "foldl min x xs \<in> set (x # xs)" using foldl_min_in [of x xs] by simp
  then show ?thesis
    using foldl_min_le [of x xs] Cons by (auto simp: min_instant_def intro: le_antisym)
qed (simp add: min_instant_def)

lemma min_instant_None: "min_instant ts = None \<longleftrightarrow> ts = []"
  by (simp add: min_instant_def split: list.splits)

end
