(* ===== verification/Contracts.thy ===== *)
theory Contracts
  imports Prelude
begin

text \<open>
  The interfaces of the development. \<open>folding\<close> is what every table keyed by a nickname or a
  channel name relies on; \<open>sink_gate\<close> is the contract of the text gates in front of untrusted
  sinks; \<open>machine\<close> and \<open>bounded_machine\<close> are the contract of the per-connection state
  machines, whose operations keep an invariant and a bound. The component theories interpret
  them on the definitions translated from the code.
\<close>

section \<open>Names compared by folding\<close>

locale folding =
  fixes fold_name :: "rstring \<Rightarrow> rstring"
    and same :: "rstring \<Rightarrow> rstring \<Rightarrow> bool"
  assumes fold_idem [simp]: "fold_name (fold_name s) = fold_name s"
    and same_iff: "same s t \<longleftrightarrow> fold_name s = fold_name t"
    and blen_fold [simp]: "blen (fold_name s) = blen s"
begin

lemma same_refl [simp]: "same s s"
  by (simp add: same_iff)

lemma same_sym: "same s t \<Longrightarrow> same t s"
  by (simp add: same_iff)

lemma same_trans: "same s t \<Longrightarrow> same t u \<Longrightarrow> same s u"
  by (simp add: same_iff)

lemma equivp_same: "equivp same"
  by (rule equivpI) (auto intro!: reflpI sympI transpI simp: same_iff)

lemma same_fold [simp]: "same (fold_name s) s"
  by (simp add: same_iff)

lemma same_blen: "same s t \<Longrightarrow> blen s = blen t"
  by (metis blen_fold same_iff)

lemma lookup_same: "same s t \<Longrightarrow> map_of m (fold_name s) = map_of m (fold_name t)"
  by (simp add: same_iff)

lemma fold_eq_Nil_iff [simp]: "fold_name s = [] \<longleftrightarrow> s = []"
  by (metis blen_eq_0_iff blen_fold)

end

section \<open>Gates in front of sinks\<close>

text \<open>A gate makes any text safe and leaves safe text alone, so applying it twice is applying it
  once.\<close>

locale sink_gate =
  fixes gate :: "rstring \<Rightarrow> rstring"
    and safe :: "rstring \<Rightarrow> bool"
  assumes gate_safe: "safe (gate s)"
    and safe_gate: "safe s \<Longrightarrow> gate s = s"
begin

lemma gate_idem [simp]: "gate (gate s) = gate s"
  by (simp add: gate_safe safe_gate)

lemma gate_fixed_iff: "gate s = s \<longleftrightarrow> safe s"
  by (metis gate_safe safe_gate)

lemma range_gate: "range gate = {s. safe s}"
  by (auto simp: gate_safe) (metis rangeI safe_gate)

end

section \<open>State machines\<close>

text \<open>
  A component of a connection is driven by calls. \<open>step op s\<close> is the state after the call
  \<open>op\<close>, \<open>ok s op\<close> what the caller guarantees when it makes the call (\<open>True\<close> where any call is
  allowed). An invariant that every call keeps holds in every state a run reaches.
\<close>

locale machine =
  fixes step :: "'op \<Rightarrow> 's \<Rightarrow> 's"
    and ok :: "'s \<Rightarrow> 'op \<Rightarrow> bool"
    and init :: "'s \<Rightarrow> bool"
    and inv :: "'s \<Rightarrow> bool"
  assumes init_inv: "init s \<Longrightarrow> inv s"
    and step_inv: "inv s \<Longrightarrow> ok s op \<Longrightarrow> inv (step op s)"
begin

fun run_ok :: "'op list \<Rightarrow> 's \<Rightarrow> bool" where
  "run_ok [] s = True"
| "run_ok (op # ops) s = (ok s op \<and> run_ok ops (step op s))"

inductive reachable :: "'s \<Rightarrow> bool" where
  start: "init s \<Longrightarrow> reachable s"
| call: "reachable s \<Longrightarrow> ok s op \<Longrightarrow> reachable (step op s)"

lemma run_inv: "inv s \<Longrightarrow> run_ok ops s \<Longrightarrow> inv (fold step ops s)"
  by (induction ops arbitrary: s) (auto intro: step_inv)

lemma reachable_inv: "reachable s \<Longrightarrow> inv s"
  by (induction rule: reachable.induct) (auto intro: init_inv step_inv)

lemma run_reachable: "reachable s \<Longrightarrow> run_ok ops s \<Longrightarrow> reachable (fold step ops s)"
  by (induction ops arbitrary: s) (auto intro: reachable.call)

lemma run_init_inv: "init s \<Longrightarrow> run_ok ops s \<Longrightarrow> inv (fold step ops s)"
  by (intro run_inv init_inv)

lemma run_ok_total: "(\<And>s op. ok s op) \<Longrightarrow> run_ok ops s"
  by (induction ops arbitrary: s) auto

end

locale bounded_machine = machine +
  fixes load :: "'b \<Rightarrow> nat" and cap :: nat
  assumes inv_load: "inv s \<Longrightarrow> load s \<le> cap"
begin

lemma run_load: "init s \<Longrightarrow> run_ok ops s \<Longrightarrow> load (fold step ops s) \<le> cap"
  by (intro inv_load run_init_inv)

end

end
