(* ===== verification/Names.thy ===== *)
theory Names
  imports Contracts
begin

text \<open>
  \<open>crates/model/src/names.rs\<close>: when two nicknames or channel names are the same. The three case
  mappings a server may announce, folding a name to its key, and the comparison that avoids
  building the keys.
\<close>

section \<open>Definitions\<close>

datatype case_mapping = Ascii | Rfc1459Strict | Rfc1459

definition default_mapping :: case_mapping where
  "default_mapping = Rfc1459"

definition cm_parse :: "rstring \<Rightarrow> case_mapping" where
  "cm_parse value =
     (if eq_ignore_ascii_case value (lit ''rfc1459'') then Rfc1459
      else if eq_ignore_ascii_case value (lit ''rfc1459-strict'') then Rfc1459Strict
      else Ascii)"

text \<open>The arms of the source in their order: \<open>[\<close> \<open>]\<close> and the backslash are the uppercase forms
  of the braces and the bar unless the mapping is ASCII, the tilde of the caret only for RFC 1459.\<close>

definition cm_fold_char :: "case_mapping \<Rightarrow> rchar \<Rightarrow> rchar" where
  "cm_fold_char m c =
     (if m = Ascii then to_ascii_lowercase c
      else if c = 0x5B then 0x7B
      else if c = 0x5D then 0x7D
      else if c = 0x5C then 0x7C
      else if m = Rfc1459 \<and> c = 0x7E then 0x5E
      else to_ascii_lowercase c)"

definition cm_fold :: "case_mapping \<Rightarrow> rstring \<Rightarrow> rstring" where
  "cm_fold m name = map (cm_fold_char m) name"

definition cm_same :: "case_mapping \<Rightarrow> rstring \<Rightarrow> rstring \<Rightarrow> bool" where
  "cm_same m left right \<longleftrightarrow>
     blen left = blen right \<and> map (cm_fold_char m) left = map (cm_fold_char m) right"

definition fold_char :: "rchar \<Rightarrow> rchar" where
  "fold_char c = cm_fold_char Rfc1459 c"

definition names_fold :: "rstring \<Rightarrow> rstring" where
  "names_fold name = cm_fold Rfc1459 name"

definition names_same :: "rstring \<Rightarrow> rstring \<Rightarrow> bool" where
  "names_same left right \<longleftrightarrow> cm_same Rfc1459 left right"

section \<open>Folding\<close>

lemma utf8_len_cm_fold_char [simp]: "utf8_len (cm_fold_char m c) = utf8_len c"
  by (auto simp: cm_fold_char_def utf8_len_def to_ascii_lowercase_def is_ascii_upper_def)

lemma cm_fold_char_idem [simp]: "cm_fold_char m (cm_fold_char m c) = cm_fold_char m c"
  by (auto simp: cm_fold_char_def to_ascii_lowercase_def is_ascii_upper_def)

lemma blen_cm_fold [simp]: "blen (cm_fold m s) = blen s"
  by (simp add: cm_fold_def blen_map)

lemma length_cm_fold [simp]: "length (cm_fold m s) = length s"
  by (simp add: cm_fold_def)

lemma cm_fold_idem [simp]: "cm_fold m (cm_fold m s) = cm_fold m s"
  by (simp add: cm_fold_def)

lemma cm_same_fold: "cm_same m s t \<longleftrightarrow> cm_fold m s = cm_fold m t"
  unfolding cm_same_def cm_fold_def by (metis blen_map utf8_len_cm_fold_char)

interpretation cm: folding "cm_fold m" "cm_same m" for m
  by unfold_locales (auto simp: cm_same_fold)

interpretation nick: folding names_fold names_same
  by unfold_locales (auto simp: names_fold_def names_same_def cm_same_fold)

lemma is_char_boundary_map:
  "(\<And>c. utf8_len (f c) = utf8_len c) \<Longrightarrow> is_char_boundary (map f s) n = is_char_boundary s n"
  by (induction s n rule: is_char_boundary.induct) auto

text \<open>A coarser mapping factors through a finer one.\<close>

lemma cm_fold_factor:
  "cm_fold Rfc1459Strict (cm_fold Ascii s) = cm_fold Rfc1459Strict s"
  "cm_fold Rfc1459 (cm_fold Rfc1459Strict s) = cm_fold Rfc1459 s"
  by (auto simp: cm_fold_def cm_fold_char_def to_ascii_lowercase_def is_ascii_upper_def)

lemma cm_same_coarser:
  "cm_same Ascii s t \<Longrightarrow> cm_same Rfc1459Strict s t"
  "cm_same Rfc1459Strict s t \<Longrightarrow> cm_same Rfc1459 s t"
  by (metis cm_fold_factor cm_same_fold)+

section \<open>Properties\<close>

text \<open>The comparison that does not allocate agrees with comparing keys, for every mapping, so
  two names are the same exactly when a table keyed by the folded name cannot tell them apart; it
  is an equivalence relation.\<close>
theorem cm_same_iff_keys:
  "cm_same m s t = (cm_fold m s = cm_fold m t) \<and> equivp (cm_same m)"
  using cm.equivp_same by (simp add: cm_same_fold)

text \<open>Folding is idempotent and keeps every byte offset: the key has the same length in bytes
  and the same character boundaries as the name.\<close>
theorem cm_fold_keeps_offsets:
  "cm_fold m (cm_fold m s) = cm_fold m s \<and> blen (cm_fold m s) = blen s
   \<and> is_char_boundary (cm_fold m s) n = is_char_boundary s n"
  by (simp add: cm_fold_def is_char_boundary_map blen_map)

text \<open>The mappings merge names in the order ASCII, RFC 1459 strict, RFC 1459: a value the code
  does not know falls back to the one that merges the fewest names.\<close>
theorem unknown_mapping_merges_least:
  assumes "cm_parse value = Ascii" and "cm_same (cm_parse value) s t"
  shows "cm_same Rfc1459Strict s t \<and> cm_same Rfc1459 s t \<and> names_same s t"
  using assms cm_same_coarser by (simp add: names_same_def)

theorem unknown_mapping_merges_least_witness:
  "cm_same Rfc1459Strict (lit ''#Foo'') (lit ''#fOO'') \<and> cm_same Rfc1459 (lit ''#Foo'') (lit ''#fOO'')
   \<and> names_same (lit ''#Foo'') (lit ''#fOO'')"
proof (rule unknown_mapping_merges_least [of "lit ''rfc7613''"])
  show "cm_parse (lit ''rfc7613'') = Ascii"
    by code_simp
  show "cm_same (cm_parse (lit ''rfc7613'')) (lit ''#Foo'') (lit ''#fOO'')"
    by code_simp
qed

end
