(* ===== verification/Display.thy ===== *)
theory Display
  imports Contracts "HOL-Library.Sublist"
begin

text \<open>
  \<open>crates/model/src/display.rs\<close>: text of servers and other users made safe to show.
  Bidirectional controls, mIRC formatting codes, and the gate in front of every surface of the
  operating system (dialogs, notifications, window titles).
\<close>

section \<open>Bidirectional controls\<close>

definition is_bidi_control :: "rchar \<Rightarrow> bool" where
  "is_bidi_control c \<longleftrightarrow> (0x202A \<le> c \<and> c \<le> 0x202E) \<or> (0x2066 \<le> c \<and> c \<le> 0x2069)"

definition neutralize_bidi :: "rstring \<Rightarrow> rstring" where
  "neutralize_bidi text =
     (if list_ex is_bidi_control text
      then map (\<lambda>c. if is_bidi_control c then 0x200B else c) text
      else text)"

definition neutralize_bidi_owned :: "rstring \<Rightarrow> rstring" where
  "neutralize_bidi_owned text = neutralize_bidi text"

section \<open>Formatting codes\<close>

definition is_formatting_code :: "rchar \<Rightarrow> bool" where
  "is_formatting_code c \<longleftrightarrow>
     c \<in> {0x01, 0x02, 0x03, 0x0F, 0x11, 0x16, 0x1D, 0x1E, 0x1F}"

text \<open>The iterator of the source is the list of the offsets and characters still to come.\<close>

fun char_indices_from :: "nat \<Rightarrow> rstring \<Rightarrow> (nat \<times> rchar) list" where
  "char_indices_from off [] = []"
| "char_indices_from off (c # s) = (off, c) # char_indices_from (off + utf8_len c) s"

text \<open>The local function \<open>digits\<close>: at most \<open>n\<close> further digits are consumed and counted.\<close>

fun color_digits :: "nat \<Rightarrow> (nat \<times> rchar) list \<Rightarrow> nat \<times> (nat \<times> rchar) list" where
  "color_digits 0 chars = (0, chars)"
| "color_digits (Suc n) [] = (0, [])"
| "color_digits (Suc n) ((off, c) # chars) =
     (if is_ascii_digit c
      then (let (k, rest) = color_digits n chars in (Suc k, rest))
      else (0, (off, c) # chars))"

text \<open>What follows a color code: \<open>fg[,bg]\<close>, where the comma belongs to the code only before a digit.\<close>

definition skip_color :: "(nat \<times> rchar) list \<Rightarrow> (nat \<times> rchar) list" where
  "skip_color chars =
     (let (k, rest) = color_digits 2 chars
      in if 0 < k
         then (case rest of
                 (_, c) # ahead \<Rightarrow>
                   (if c = 0x2C
                    then (case ahead of
                            (_, d) # _ \<Rightarrow>
                              (if is_ascii_digit d then snd (color_digits 2 ahead) else rest)
                          | [] \<Rightarrow> rest)
                    else rest)
               | [] \<Rightarrow> rest)
         else rest)"

lemma color_digits_suffix: "suffix (snd (color_digits n chars)) chars"
  by (induction n chars rule: color_digits.induct)
    (auto split: prod.splits intro: suffix_ConsI)

lemma skip_color_cases:
  obtains "skip_color chars = snd (color_digits 2 chars)"
  | x ahead where "snd (color_digits 2 chars) = x # ahead"
      and "skip_color chars = snd (color_digits 2 ahead)"
proof (cases "snd (color_digits 2 chars)")
  case Nil
  then show thesis
    by (intro that(1)) (auto simp: skip_color_def split: prod.splits)
next
  case (Cons x ahead)
  moreover have "skip_color chars \<in> {x # ahead, snd (color_digits 2 ahead)}"
    using Cons by (cases x) (auto simp: skip_color_def split: prod.splits list.splits)
  ultimately show thesis
    using that by auto
qed

lemma skip_color_suffix: "suffix (skip_color chars) chars"
proof (cases rule: skip_color_cases [of chars])
  case 1
  then show ?thesis by (simp add: color_digits_suffix)
next
  case (2 x ahead)
  then have "suffix (x # ahead) chars"
    using color_digits_suffix [of 2 chars] by simp
  moreover have "suffix (snd (color_digits 2 ahead)) (x # ahead)"
    by (intro suffix_ConsI color_digits_suffix)
  ultimately show ?thesis
    using 2 by (simp add: suffix_order.trans)
qed

function each_plain :: "(nat \<times> rchar) list \<Rightarrow> (nat \<times> rchar) list" where
  "each_plain [] = []"
| "each_plain ((off, c) # chars) =
     (if c = 0x03 then each_plain (skip_color chars)
      else if is_formatting_code c then each_plain chars
      else (off, c) # each_plain chars)"
  by pat_completeness auto
termination
  by (relation "measure length") (auto simp: le_imp_less_Suc suffix_length_le skip_color_suffix)

text \<open>The calls of \<open>keep\<close> that \<open>each_plain_char\<close> makes, in order.\<close>

definition each_plain_char :: "rstring \<Rightarrow> (nat \<times> rchar) list" where
  "each_plain_char text = each_plain (char_indices_from 0 text)"

definition strip_formatting :: "rstring \<Rightarrow> rstring" where
  "strip_formatting text = map snd (each_plain_char text)"

section \<open>The gate in front of the operating system\<close>

definition OS_TITLE_LIMIT :: nat where "OS_TITLE_LIMIT = 200"

definition OS_BODY_LIMIT :: nat where "OS_BODY_LIMIT = 2000"

definition os_char :: "bool \<Rightarrow> rchar \<Rightarrow> rchar option" where
  "os_char multiline c =
     (if c = 0x0A \<and> multiline then Some 0x0A
      else if c = 0x0A \<or> c = 0x09 \<or> c = 0x2028 \<or> c = 0x2029 then Some 0x20
      else if is_control c then None
      else if is_bidi_control c then Some 0x200B
      else Some c)"

definition os_text :: "rstring \<Rightarrow> bool \<Rightarrow> nat \<Rightarrow> rstring" where
  "os_text text multiline limit =
     (let plain = List.map_filter (os_char multiline) (map snd (each_plain_char text))
      in if limit < length plain
         then take (limit - 1) plain @ [0x2026]
         else plain)"

definition os_title :: "rstring \<Rightarrow> rstring" where
  "os_title text = os_text text False OS_TITLE_LIMIT"

definition os_body :: "rstring \<Rightarrow> rstring" where
  "os_body text = os_text text True OS_BODY_LIMIT"

section \<open>What the gates make safe\<close>

definition no_bidi :: "rstring \<Rightarrow> bool" where
  "no_bidi s \<longleftrightarrow> list_all (\<lambda>c. \<not> is_bidi_control c) s"

definition no_formatting :: "rstring \<Rightarrow> bool" where
  "no_formatting s \<longleftrightarrow> list_all (\<lambda>c. \<not> is_formatting_code c) s"

definition os_safe_char :: "bool \<Rightarrow> rchar \<Rightarrow> bool" where
  "os_safe_char multiline c \<longleftrightarrow>
     (\<not> is_control c \<or> multiline \<and> c = 0x0A) \<and> \<not> is_bidi_control c \<and> c \<noteq> 0x2028 \<and> c \<noteq> 0x2029"

definition os_safe :: "bool \<Rightarrow> nat \<Rightarrow> rstring \<Rightarrow> bool" where
  "os_safe multiline limit s \<longleftrightarrow> length s \<le> limit \<and> list_all (os_safe_char multiline) s"

section \<open>Lemmas\<close>

lemma bidi_replacement [simp]: "\<not> is_bidi_control 0x200B"
  by (simp add: is_bidi_control_def)

lemma utf8_len_bidi: "is_bidi_control c \<Longrightarrow> utf8_len c = 3"
  by (auto simp: is_bidi_control_def utf8_len_def)

lemma formatting_is_control: "is_formatting_code c \<Longrightarrow> is_control c"
  by (auto simp: is_formatting_code_def is_control_def)

lemma neutralize_bidi_map:
  "neutralize_bidi text = map (\<lambda>c. if is_bidi_control c then 0x200B else c) text"
  unfolding neutralize_bidi_def by (auto simp: list_ex_iff intro!: map_idI [symmetric])

lemma utf8_len_neutral: "utf8_len (if is_bidi_control c then 0x200B else c) = utf8_len c"
  by (simp add: utf8_len_bidi) (simp add: utf8_len_def)

lemma map_snd_char_indices [simp]: "map snd (char_indices_from n s) = s"
  by (induction s arbitrary: n) auto

lemma each_plain_subseq: "subseq (each_plain chars) chars"
proof (induction chars rule: each_plain.induct)
  case (2 off c chars)
  have "subseq (skip_color chars) chars"
    by (rule suffix_imp_subseq) (rule skip_color_suffix)
  with 2 show ?case
    by (auto intro: subseq_order.trans)
qed simp

lemma each_plain_no_formatting: "(off, c) \<in> set (each_plain chars) \<Longrightarrow> \<not> is_formatting_code c"
  by (induction chars rule: each_plain.induct) (auto split: if_splits)

lemma each_plain_id:
  "list_all (\<lambda>(_, c). \<not> is_formatting_code c) chars \<Longrightarrow> each_plain chars = chars"
  by (induction chars rule: each_plain.induct) (auto simp: is_formatting_code_def)

lemma list_all_char_indices: "list_all (\<lambda>(_, c). P c) (char_indices_from n s) \<longleftrightarrow> list_all P s"
  by (induction s arbitrary: n) auto

lemma each_plain_char_id: "no_formatting s \<Longrightarrow> each_plain_char s = char_indices_from 0 s"
  unfolding each_plain_char_def no_formatting_def
  by (intro each_plain_id) (simp add: list_all_char_indices)

lemma os_char_safe: "os_char multiline c = Some d \<Longrightarrow> os_safe_char multiline d"
  by (auto simp: os_char_def os_safe_char_def is_control_def is_bidi_control_def split: if_splits)

lemma os_char_id: "os_safe_char multiline c \<Longrightarrow> os_char multiline c = Some c"
  by (auto simp: os_char_def os_safe_char_def is_control_def)

lemma os_safe_char_no_formatting: "os_safe_char multiline c \<Longrightarrow> \<not> is_formatting_code c"
  by (auto simp: os_safe_char_def is_formatting_code_def is_control_def)

lemma map_filter_Some_id: "list_all (\<lambda>c. f c = Some c) s \<Longrightarrow> List.map_filter f s = s"
  by (induction s) (auto simp: List.map_filter_def)

lemma set_map_filter: "d \<in> set (List.map_filter f s) \<Longrightarrow> \<exists>c \<in> set s. f c = Some d"
  by (auto simp: List.map_filter_def)

lemma os_safe_char_ellipsis [simp]: "os_safe_char multiline 0x2026"
  by (simp add: os_safe_char_def is_control_def is_bidi_control_def)

lemma os_text_safe:
  assumes "0 < limit"
  shows "os_safe multiline limit (os_text text multiline limit)"
proof -
  let ?plain = "List.map_filter (os_char multiline) (map snd (each_plain_char text))"
  have "list_all (os_safe_char multiline) ?plain"
    by (auto simp: list_all_iff dest!: set_map_filter intro: os_char_safe)
  then show ?thesis
    using assms by (auto simp: os_safe_def os_text_def Let_def list_all_iff dest: in_set_takeD)
qed

lemma os_text_id:
  assumes "os_safe multiline limit s"
  shows "os_text s multiline limit = s"
proof -
  have "no_formatting s"
    using assms os_safe_char_no_formatting by (auto simp: os_safe_def no_formatting_def list_all_iff)
  moreover have "List.map_filter (os_char multiline) s = s"
    using assms os_char_id
    by (intro map_filter_Some_id) (auto simp: os_safe_def list_all_iff)
  ultimately show ?thesis
    using assms by (simp add: os_text_def each_plain_char_id os_safe_def)
qed

section \<open>The gates of this file\<close>

interpretation bidi: sink_gate neutralize_bidi no_bidi
  by unfold_locales
    (auto simp: neutralize_bidi_map no_bidi_def list_all_iff intro!: map_idI)

lemma no_formatting_each_plain: "no_formatting (map snd (each_plain chars))"
  using each_plain_no_formatting by (force simp: no_formatting_def list_all_iff)

interpretation fmt: sink_gate strip_formatting no_formatting
  by unfold_locales
    (simp_all add: strip_formatting_def each_plain_char_id,
      simp add: each_plain_char_def no_formatting_each_plain)

interpretation title: sink_gate os_title "os_safe False OS_TITLE_LIMIT"
  by unfold_locales
    (auto simp: os_title_def os_text_id OS_TITLE_LIMIT_def intro!: os_text_safe)

interpretation body: sink_gate os_body "os_safe True OS_BODY_LIMIT"
  by unfold_locales
    (auto simp: os_body_def os_text_id OS_BODY_LIMIT_def intro!: os_text_safe)

section \<open>Properties\<close>

text \<open>Replacing bidirectional controls leaves none, keeps the length in bytes and every
  character boundary, so offsets computed on the result are offsets of the original, and does
  nothing the second time.\<close>
theorem neutralize_bidi_safe:
  "no_bidi (neutralize_bidi s) \<and> blen (neutralize_bidi s) = blen s
   \<and> is_char_boundary (neutralize_bidi s) n = is_char_boundary s n
   \<and> neutralize_bidi (neutralize_bidi s) = neutralize_bidi s"
proof -
  have "is_char_boundary (map f s) n = is_char_boundary s n"
    if "\<And>c. utf8_len (f c) = utf8_len c" for f
    using that by (induction s n rule: is_char_boundary.induct) auto
  then show ?thesis
    using bidi.gate_safe bidi.gate_idem utf8_len_neutral
    by (simp add: neutralize_bidi_map blen_map)
qed

text \<open>Stripping the formatting keeps a subsequence of the text, each character at its own byte
  offset, and no formatting code; text without codes is returned as it is.\<close>
theorem strip_formatting_spec:
  "no_formatting (strip_formatting s) \<and> subseq (strip_formatting s) s
   \<and> subseq (each_plain_char s) (char_indices_from 0 s)
   \<and> (strip_formatting s = s \<longleftrightarrow> no_formatting s)"
  using fmt.gate_safe fmt.gate_fixed_iff each_plain_subseq subseq_map [OF each_plain_subseq, of snd]
  by (simp add: strip_formatting_def each_plain_char_def)
     (metis map_snd_char_indices)

text \<open>Titles and bodies handed to the operating system have no control character (a body may
  have line breaks), no bidirectional control and no separator, are at most 200 and 2000 characters
  long, and are what the gate returns for them.\<close>
theorem os_gates:
  "os_safe False OS_TITLE_LIMIT (os_title s) \<and> os_safe True OS_BODY_LIMIT (os_body s)
   \<and> os_title (os_title s) = os_title s \<and> os_body (os_body s) = os_body s
   \<and> length (os_title s) \<le> 200 \<and> 0x0A \<notin> set (os_title s)"
  using title.gate_safe [of s] body.gate_safe [of s]
  by (auto simp: os_safe_def OS_TITLE_LIMIT_def list_all_iff os_safe_char_def is_control_def)

end
