(* ===== verification/Domain.thy ===== *)
theory Domain
  imports Prelude "HOL-Library.Word"
begin

text \<open>
  \<open>crates/model/src/lib.rs\<close>: the domain types shared by the application. Identifiers and times
  keep their machine width; a \<open>SystemTime\<close> is the number of nanoseconds since the Unix epoch,
  negative before it.
\<close>

section \<open>Identifiers and conversations\<close>

datatype network_id = NetworkId "32 word"
datatype conversation_id = ConversationId "32 word"

record network =
  nw_id :: network_id
  nw_name :: rstring

datatype conversation_kind = Channel | Private (conv_peer_key: rstring)

section \<open>Times\<close>

datatype time_of_day = TimeOfDay (minutes: "16 word")

definition time_of_day_new :: "8 word \<Rightarrow> 8 word \<Rightarrow> time_of_day" where
  "time_of_day_new hour minute =
     TimeOfDay (ucast (hour mod 24) * 60 + ucast (minute mod 60))"

definition two_digits :: "nat \<Rightarrow> rstring" where
  "two_digits n = (if n < 10 then 0x30 # decimal n else decimal n)"

definition time_of_day_display :: "time_of_day \<Rightarrow> rstring" where
  "time_of_day_display t =
     two_digits (unat (minutes t div 60)) @ [0x3A] @ two_digits (unat (minutes t mod 60))"

type_synonym system_time = int

datatype timestamp = Timestamp (as_millis: "64 word")

definition timestamp_from_millis :: "64 word \<Rightarrow> timestamp" where
  "timestamp_from_millis millis = Timestamp millis"

text \<open>\<open>None\<close> before 1970 (\<open>duration_since\<close> fails) and beyond 64 bits of milliseconds.\<close>

definition timestamp_from_system_time :: "system_time \<Rightarrow> timestamp option" where
  "timestamp_from_system_time time =
     (if time < 0 then None
      else (let millis = nat time div 1000000
            in if millis < 2 ^ 64 then Some (timestamp_from_millis (of_nat millis)) else None))"

definition timestamp_to_system_time :: "timestamp \<Rightarrow> system_time" where
  "timestamp_to_system_time t = int (unat (as_millis t)) * 1000000"

section \<open>Opaque identifiers of the source\<close>

definition NATIVE_ID_MAX_BYTES :: nat where "NATIVE_ID_MAX_BYTES = 128"

datatype native_message_id = NativeMessageId (native_id_str: rstring)

definition native_message_id_new :: "rstring \<Rightarrow> native_message_id option" where
  "native_message_id_new i =
     (if i \<noteq> [] \<and> blen i \<le> NATIVE_ID_MAX_BYTES \<and> list_all is_ascii_graphic i
      then Some (NativeMessageId i) else None)"

definition ACCOUNT_MAX_BYTES :: nat where "ACCOUNT_MAX_BYTES = 128"

datatype services_account = ServicesAccount (services_account_str: rstring)

definition services_account_new :: "rstring \<Rightarrow> services_account option" where
  "services_account_new name =
     (if name \<noteq> [] \<and> name \<noteq> [0x2A] \<and> blen name \<le> ACCOUNT_MAX_BYTES
         \<and> \<not> list_ex (\<lambda>c. is_whitespace c \<or> is_control c) name
      then Some (ServicesAccount name) else None)"

section \<open>Spans and messages\<close>

text \<open>An empty set of spans is stored as nothing.\<close>

datatype 'a spans = Spans "'a list option"

definition spans_new :: "'a list \<Rightarrow> 'a spans" where
  "spans_new xs = Spans (if xs \<noteq> [] then Some xs else None)"

fun spans_as_slice :: "'a spans \<Rightarrow> 'a list" where
  "spans_as_slice (Spans None) = []"
| "spans_as_slice (Spans (Some xs)) = xs"

fun spans_is_empty :: "'a spans \<Rightarrow> bool" where
  "spans_is_empty (Spans s) = (s = None)"

datatype provenance = Live | Replayed | Requested

definition provenance_is_history :: "provenance \<Rightarrow> bool" where
  "provenance_is_history p \<longleftrightarrow> p \<noteq> Live"

record chat_message =
  msg_time :: time_of_day
  msg_sequence :: "64 word"
  msg_timestamp :: "timestamp option"
  msg_native_id :: "native_message_id option"
  msg_account :: "services_account option"
  msg_sender :: rstring
  msg_text :: rstring
  msg_highlights :: "(nat \<times> nat) spans"
  msg_links :: "((nat \<times> nat) \<times> rstring) spans"
  msg_activity :: bool
  msg_alert :: bool
  msg_notice :: bool
  msg_action :: bool
  msg_provenance :: provenance
  msg_delivery_failed :: bool

definition message_is_history :: "chat_message \<Rightarrow> bool" where
  "message_is_history m \<longleftrightarrow> provenance_is_history (msg_provenance m)"

record conversation =
  conv_id :: conversation_id
  conv_network :: network_id
  conv_kind :: conversation_kind
  conv_name :: rstring
  conv_topic :: rstring
  conv_messages :: "chat_message list"
  conv_members :: "rstring list"
  conv_modes :: "rstring option"

definition conversation_is_private :: "conversation \<Rightarrow> bool" where
  "conversation_is_private c \<longleftrightarrow> (case conv_kind c of Private _ \<Rightarrow> True | Channel \<Rightarrow> False)"

definition conversation_peer_key :: "conversation \<Rightarrow> rstring option" where
  "conversation_peer_key c = (case conv_kind c of Private k \<Rightarrow> Some k | Channel \<Rightarrow> None)"

section \<open>Lemmas\<close>

lemma spans_roundtrip [simp]: "spans_as_slice (spans_new xs) = xs"
  by (simp add: spans_new_def)

lemma spans_is_empty_new [simp]: "spans_is_empty (spans_new xs) \<longleftrightarrow> xs = []"
  by (simp add: spans_new_def)

lemma conversation_peer_key_private:
  "conversation_is_private c \<longleftrightarrow> conversation_peer_key c \<noteq> None"
  by (simp add: conversation_is_private_def conversation_peer_key_def split: conversation_kind.splits)

lemma unat_time_of_day_new:
  "unat (minutes (time_of_day_new h m)) = unat h mod 24 * 60 + unat m mod 60"
proof -
  have "unat h mod 24 < 24" "unat m mod 60 < 60" by simp_all
  then have "unat h mod 24 * 60 + unat m mod 60 < 1440" by linarith
  then show ?thesis
    by (simp add: time_of_day_new_def unat_word_ariths unsigned_ucast_eq unat_mod take_bit_nat_eq_self)
qed

section \<open>Properties\<close>

text \<open>A source time survives the conversion to the millisecond: every timestamp comes back as
  itself, and an instant that converts comes back rounded down to its millisecond; instants before
  1970 and beyond 64 bits of milliseconds do not convert.\<close>
theorem timestamp_roundtrip:
  "timestamp_from_system_time (timestamp_to_system_time t) = Some t
   \<and> (timestamp_from_system_time time = Some u \<longrightarrow>
        timestamp_to_system_time u = time div 1000000 * 1000000)
   \<and> (timestamp_from_system_time time = None \<longleftrightarrow> time < 0 \<or> 2 ^ 64 \<le> time div 1000000)"
proof (intro conjI impI)
  show "timestamp_from_system_time (timestamp_to_system_time t) = Some t"
    using unsigned_less [of "as_millis t", where ?'a = nat]
    by (cases t) (simp add: Let_def timestamp_from_system_time_def timestamp_to_system_time_def
        timestamp_from_millis_def nat_mult_distrib)
  show "timestamp_from_system_time time = None \<longleftrightarrow> time < 0 \<or> 2 ^ 64 \<le> time div 1000000"
  proof (cases "time < 0")
    case False
    then have "nat time div 1000000 < 2 ^ 64 \<longleftrightarrow> time div 1000000 < 2 ^ 64"
    proof -
      have "nat time div 1000000 = nat (time div 1000000)" and "0 \<le> time div 1000000"
        using False by (simp_all add: nat_div_distrib)
      then show ?thesis
        by (simp only: nat_less_iff) simp
    qed
    with False show ?thesis
      by (simp add: timestamp_from_system_time_def Let_def not_less)
  qed (simp add: timestamp_from_system_time_def)
next
  assume "timestamp_from_system_time time = Some u"
  then have u: "0 \<le> time" "nat time div 1000000 < 2 ^ 64" "u = Timestamp (of_nat (nat time div 1000000))"
    by (auto simp: timestamp_from_system_time_def timestamp_from_millis_def Let_def split: if_splits)
  then have "unat (as_millis u) = nat time div 1000000"
    by (simp add: unsigned_of_nat take_bit_nat_eq_self)
  then show "timestamp_to_system_time u = time div 1000000 * 1000000"
    using u(1) by (simp add: timestamp_to_system_time_def zdiv_int)
qed

theorem timestamp_roundtrip_witness:
  "timestamp_to_system_time (Timestamp 1) = 1999999 div 1000000 * 1000000"
  by (rule timestamp_roundtrip [THEN conjunct2, THEN conjunct1, rule_format])
     (simp add: timestamp_from_system_time_def timestamp_from_millis_def)

end
