(* ===== verification/Attachment.thy ===== *)
theory Attachment
  imports Prelude "HOL-Library.Word"
begin

text \<open>
  \<open>crates/model/src/attachment.rs\<close>: images chosen for sending, recognized by their content. The
  text of sizes (\<open>format_size\<close>) is floating point formatting and is not modelled.
\<close>

section \<open>Definitions\<close>

type_synonym u8 = "8 word"

definition MAX_ATTACHMENT_BYTES :: nat where
  "MAX_ATTACHMENT_BYTES = 32 * 1024 * 1024"

datatype attachment_source = Clipboard | Drop | Chooser

datatype image_format = Png | Jpeg | Gif | Webp | Bmp | Tiff | Heic | Heif | Avif

fun media_type :: "image_format \<Rightarrow> rstring" where
  "media_type Png = lit ''image/png''"
| "media_type Jpeg = lit ''image/jpeg''"
| "media_type Gif = lit ''image/gif''"
| "media_type Webp = lit ''image/webp''"
| "media_type Bmp = lit ''image/bmp''"
| "media_type Tiff = lit ''image/tiff''"
| "media_type Heic = lit ''image/heic''"
| "media_type Heif = lit ''image/heif''"
| "media_type Avif = lit ''image/avif''"

fun extension :: "image_format \<Rightarrow> rstring" where
  "extension Png = lit ''png''"
| "extension Jpeg = lit ''jpg''"
| "extension Gif = lit ''gif''"
| "extension Webp = lit ''webp''"
| "extension Bmp = lit ''bmp''"
| "extension Tiff = lit ''tiff''"
| "extension Heic = lit ''heic''"
| "extension Heif = lit ''heif''"
| "extension Avif = lit ''avif''"

definition FILE_EXTENSIONS :: "rstring list" where
  "FILE_EXTENSIONS =
     map lit [''png'', ''jpg'', ''jpeg'', ''gif'', ''webp'', ''bmp'', ''tif'', ''tiff'', ''heic'',
              ''heif'', ''avif'']"

definition bytes_lit :: "string \<Rightarrow> u8 list" where
  "bytes_lit s = map (\<lambda>c. of_nat (of_char c)) s"

definition starts_with :: "u8 list \<Rightarrow> u8 list \<Rightarrow> bool" where
  "starts_with p bytes \<longleftrightarrow> take (length p) bytes = p"

fun chunks4 :: "u8 list \<Rightarrow> u8 list list" where
  "chunks4 (a # b # c # d # r) = [a, b, c, d] # chunks4 r"
| "chunks4 _ = []"

definition be_u32 :: "u8 list \<Rightarrow> nat" where
  "be_u32 bs = foldl (\<lambda>n b. n * 256 + unat b) 0 bs"

definition AVIF_BRANDS :: "u8 list list" where
  "AVIF_BRANDS = map bytes_lit [''avif'', ''avis'']"

definition HEIC_BRANDS :: "u8 list list" where
  "HEIC_BRANDS = map bytes_lit
     [''heic'', ''heix'', ''heim'', ''heis'', ''hevc'', ''hevx'', ''hevm'', ''hevs'']"

definition HEIF_BRANDS :: "u8 list list" where
  "HEIF_BRANDS = map bytes_lit [''mif1'', ''msf1'']"

text \<open>The loop over the brands with its flag \<open>heif\<close>.\<close>

fun brand_loop :: "bool \<Rightarrow> u8 list list \<Rightarrow> image_format option" where
  "brand_loop heif [] = (if heif then Some Heif else None)"
| "brand_loop heif (b # bs) =
     (if b \<in> set AVIF_BRANDS then Some Avif
      else if b \<in> set HEIC_BRANDS then Some Heic
      else if b \<in> set HEIF_BRANDS then brand_loop True bs
      else brand_loop heif bs)"

definition clamp :: "nat \<Rightarrow> nat \<Rightarrow> nat \<Rightarrow> nat" where
  "clamp lo hi x = (if x < lo then lo else if hi < x then hi else x)"

definition sniff_heif :: "u8 list \<Rightarrow> image_format option" where
  "sniff_heif bytes =
     (if length bytes < 16 \<or> take 4 (drop 4 bytes) \<noteq> bytes_lit ''ftyp'' then None
      else
        (let size = be_u32 (take 4 bytes);
             end = clamp 16 (min (length bytes) 256) size;
             compatible = chunks4 (drop 16 (take end bytes))
         in brand_loop False (take 4 (drop 8 bytes) # compatible)))"

definition sniff :: "u8 list \<Rightarrow> image_format option" where
  "sniff bytes =
     (if starts_with [0x89, 0x50, 0x4E, 0x47, 0x0D, 0x0A, 0x1A, 0x0A] bytes then Some Png
      else if starts_with [0xFF, 0xD8, 0xFF] bytes then Some Jpeg
      else if starts_with (bytes_lit ''GIF87a'') bytes \<or> starts_with (bytes_lit ''GIF89a'') bytes
           then Some Gif
      else if 12 \<le> length bytes \<and> take 4 bytes = bytes_lit ''RIFF''
              \<and> take 4 (drop 8 bytes) = bytes_lit ''WEBP'' then Some Webp
      else if starts_with (bytes_lit ''BM'') bytes \<and> 14 < length bytes then Some Bmp
      else if starts_with (bytes_lit ''II*'' @ [0]) bytes
              \<or> starts_with (bytes_lit ''MM'' @ [0] @ bytes_lit ''*'') bytes then Some Tiff
      else sniff_heif bytes)"

datatype attachment_error = NotAnImage | TooLarge nat

record attachment =
  att_name :: rstring
  att_format :: image_format
  att_bytes :: "u8 list"
  att_source :: attachment_source

definition attachment_image ::
  "rstring option \<Rightarrow> u8 list \<Rightarrow> attachment_source \<Rightarrow> attachment_error + attachment" where
  "attachment_image name bytes source =
     (if MAX_ATTACHMENT_BYTES < length bytes then Inl (TooLarge MAX_ATTACHMENT_BYTES)
      else
        (case sniff bytes of
           None \<Rightarrow> Inl NotAnImage
         | Some format \<Rightarrow>
             (let cleaned = map_option (filter (\<lambda>c. \<not> is_control c)) name;
                  kept = Option.bind cleaned (\<lambda>n. if trim n \<noteq> [] then Some n else None);
                  name = (case kept of Some n \<Rightarrow> n | None \<Rightarrow> lit ''image.'' @ extension format)
              in Inr \<lparr>att_name = name, att_format = format, att_bytes = bytes,
                      att_source = source\<rparr>)))"

section \<open>Lemmas\<close>

lemma extension_offered: "extension f \<in> set FILE_EXTENSIONS"
  by (cases f) (simp_all add: FILE_EXTENSIONS_def)

lemma lit_not_control: "list_all (\<lambda>c. \<not> is_control c) (lit ''image.'' @ extension f)"
  by (cases f) (simp_all add: lit_def is_control_def)

lemma trim_Nil [simp]: "trim [] = []"
  by (simp add: trim_def)

lemma brand_loop_formats: "brand_loop h bs = Some f \<Longrightarrow> f \<in> {Avif, Heic, Heif}"
  by (induction h bs rule: brand_loop.induct) (auto split: if_splits)

text \<open>A more specific brand wins over \<open>mif1\<close> and \<open>msf1\<close> wherever it stands.\<close>

lemma brand_loop_heif:
  "brand_loop h bs = Some Heif \<longleftrightarrow>
     set bs \<inter> (set AVIF_BRANDS \<union> set HEIC_BRANDS) = {} \<and> (h \<or> set bs \<inter> set HEIF_BRANDS \<noteq> {})"
  by (induction h bs rule: brand_loop.induct) auto

lemma brand_loop_None:
  "brand_loop h bs = None \<longleftrightarrow>
     \<not> h \<and> set bs \<inter> (set AVIF_BRANDS \<union> set HEIC_BRANDS \<union> set HEIF_BRANDS) = {}"
  by (induction h bs rule: brand_loop.induct) auto

section \<open>Properties\<close>

text \<open>An attachment is made only from at most 32 MiB of content that is recognized as the
  format it carries, unchanged; its name is never blank and holds no control character, and every
  other input is refused with the error that says why.\<close>
theorem attachment_image_spec:
  "case attachment_image name bytes source of
     Inl e \<Rightarrow> e = (if MAX_ATTACHMENT_BYTES < length bytes then TooLarge MAX_ATTACHMENT_BYTES else NotAnImage)
              \<and> (MAX_ATTACHMENT_BYTES < length bytes \<or> sniff bytes = None)
   | Inr a \<Rightarrow> length (att_bytes a) \<le> MAX_ATTACHMENT_BYTES \<and> att_bytes a = bytes
              \<and> sniff bytes = Some (att_format a) \<and> att_source a = source
              \<and> att_name a \<noteq> [] \<and> list_all (\<lambda>c. \<not> is_control c) (att_name a)"
proof -
  have "lit ''image.'' \<noteq> []" by (simp add: lit_def)
  then show ?thesis
    using lit_not_control
    by (auto simp: attachment_image_def Let_def list_all_iff split: option.splits bind_splits if_splits)
qed

end
