(* ===== verification/Text.thy ===== *)
theory Text
  imports Names Display
begin

text \<open>
  \<open>crates/irc-core/src/text.rs\<close>: ranges found in the plain text mapped back past formatting codes,
  the text of a CTCP ACTION, and whole-word mentions of a nickname.

  \<open>char::is_alphanumeric\<close> of the standard library reads Unicode tables; outside ASCII it is the
  parameter \<open>uni\<close> of the definitions below.
\<close>

section \<open>Definitions\<close>

type_synonym byte_range = "nat \<times> nat"

fun collect_option :: "'a option list \<Rightarrow> 'a list option" where
  "collect_option [] = Some []"
| "collect_option (x # xs) =
     (case x of None \<Rightarrow> None | Some a \<Rightarrow> map_option ((#) a) (collect_option xs))"

definition index_checked :: "'a list \<Rightarrow> nat \<Rightarrow> 'a option" where
  "index_checked xs i = (if i < length xs then Some (xs ! i) else None)"

text \<open>The offset in the text of each byte of the plain text.\<close>

definition plain_offsets :: "rstring \<Rightarrow> nat list" where
  "plain_offsets text = concat (map (\<lambda>(off, c). [off ..< off + utf8_len c]) (each_plain_char text))"

text \<open>\<open>None\<close> is the panic of an index out of bounds.\<close>

definition plain_ranges :: "rstring \<Rightarrow> (rstring \<Rightarrow> byte_range list) \<Rightarrow> byte_range list option" where
  "plain_ranges text finder =
     (if \<not> list_ex is_formatting_code text
      then Some (filter (\<lambda>(a, b). a < b) (finder text))
      else
        (let plain = map snd (each_plain_char text); offsets = plain_offsets text
         in collect_option
              (map (\<lambda>(a, b).
                      case (index_checked offsets a, index_checked offsets (b - 1)) of
                        (Some x, Some y) \<Rightarrow> Some (x, y + 1)
                      | _ \<Rightarrow> None)
                (filter (\<lambda>(a, b). a < b) (finder plain)))))"

definition action_text :: "rstring \<Rightarrow> rstring option" where
  "action_text text =
     map_option
       (\<lambda>action. case strip_suffix [0x01] action of Some a \<Rightarrow> a | None \<Rightarrow> action)
       (strip_prefix (0x01 # lit ''ACTION '') text)"

definition is_nick_char :: "(rchar \<Rightarrow> bool) \<Rightarrow> rchar \<Rightarrow> bool" where
  "is_nick_char uni c \<longleftrightarrow>
     is_ascii_alphabetic c \<or> is_ascii_digit c \<or> (0x80 \<le> c \<and> uni c)
     \<or> c \<in> {0x2D, 0x5F, 0x5B, 0x5D, 0x5C, 0x60, 0x5E, 0x7B, 0x7D, 0x7C}"

text \<open>\<open>match_indices\<close>: the disjoint occurrences from left to right, as byte offsets.\<close>

function match_indices :: "nat \<Rightarrow> rstring \<Rightarrow> rstring \<Rightarrow> nat list" where
  "match_indices off p [] = []"
| "match_indices off p (c # s) =
     (if p \<noteq> [] \<and> take (length p) (c # s) = p
      then off # match_indices (off + blen p) p (drop (length p) (c # s))
      else match_indices (off + utf8_len c) p s)"
  by pat_completeness auto
termination
  by (relation "measure (\<lambda>(off, p, s). length s)") auto

definition mention_ranges :: "(rchar \<Rightarrow> bool) \<Rightarrow> rstring \<Rightarrow> rstring \<Rightarrow> byte_range list" where
  "mention_ranges uni text nickname =
     (if nickname = [] then []
      else
        (let lower = names_fold text; nick = names_fold nickname
         in filter
              (\<lambda>(a, b).
                 (case slice_to lower a of [] \<Rightarrow> True | u \<Rightarrow> \<not> is_nick_char uni (last u))
                 \<and> (case slice_from lower b of [] \<Rightarrow> True | c # _ \<Rightarrow> \<not> is_nick_char uni c))
              (map (\<lambda>start. (start, start + blen nick)) (match_indices 0 nick lower))))"

definition same_nickname :: "rstring \<Rightarrow> rstring \<Rightarrow> bool" where
  "same_nickname left right \<longleftrightarrow> names_same left right"

definition nickname_key :: "rstring \<Rightarrow> rstring" where
  "nickname_key nickname = names_fold nickname"

interpretation nickname: folding nickname_key same_nickname
  by unfold_locales (auto simp: nickname_key_def same_nickname_def nick.same_iff)

section \<open>Slices\<close>

lemma slice_to_blen [simp]: "slice_to (u @ v) (blen u) = u"
proof (induction u)
  case Nil
  then show ?case using utf8_len_bounds(1) by (cases v) (auto simp: Suc_le_eq)
qed simp

section \<open>Matching\<close>

lemma match_indices_sound:
  "o' \<in> set (match_indices off p s) \<Longrightarrow> \<exists>u v. s = u @ p @ v \<and> o' = off + blen u"
proof (induction off p s rule: match_indices.induct)
  case (2 off p c s)
  show ?case
  proof (cases "p \<noteq> [] \<and> take (length p) (c # s) = p")
    case True
    then obtain r where r: "c # s = p @ r" "r = drop (length p) (c # s)"
      by (metis append_take_drop_id)
    from 2(3) True consider "o' = off" | "o' \<in> set (match_indices (off + blen p) p r)"
      using r(2) by auto
    then show ?thesis
    proof cases
      case 1
      then show ?thesis using r(1) by (intro exI [of _ "[]"] exI [of _ r]) simp
    next
      case 2
      then obtain u v where "r = u @ p @ v" "o' = off + blen p + blen u"
        using "2.IH"(1) True r(2) by blast
      then show ?thesis using r(1) by (intro exI [of _ "p @ u"] exI [of _ v]) simp
    qed
  next
    case False
    then obtain u v where "s = u @ p @ v" "o' = off + utf8_len c + blen u"
      using 2(2,3) by auto
    then show ?thesis by (intro exI [of _ "c # u"] exI [of _ v]) simp
  qed
qed simp

lemma match_indices_complete:
  assumes "p \<noteq> []" and "s = u @ p @ v" and "list_all N p" and "u = [] \<or> \<not> N (last u)"
  shows "off + blen u \<in> set (match_indices off p s)"
  using assms
proof (induction off p s arbitrary: u rule: match_indices.induct)
  case (2 off p c s)
  show ?case
  proof (cases "take (length p) (c # s) = p")
    case True
    show ?thesis
    proof (cases "u = []")
      case u: True
      show ?thesis using True "2.prems"(1) by (simp add: u)
    next
      case False
      have "length p \<le> length u"
      proof (rule ccontr)
        assume *: "\<not> length p \<le> length u"
        then have "p = u @ take (length p - length u) (p @ v)"
          using True "2.prems"(2) by simp
        then have "last u \<in> set p"
          using False by (metis UnCI last_in_set set_append)
        then show False using "2.prems"(3,4) False by (auto simp: list_all_iff)
      qed
      then have u: "u = p @ drop (length p) u"
        using True "2.prems"(2) by (metis append_take_drop_id take_append append_Nil2 diff_is_0_eq' take0)
      then have "drop (length p) (c # s) = drop (length p) u @ p @ v"
        using "2.prems"(2) by (metis append.assoc append_eq_conv_conj)
      moreover have "drop (length p) u = [] \<or> \<not> N (last (drop (length p) u))"
        using "2.prems"(4) False by (cases "drop (length p) u = []") (auto simp: last_drop)
      ultimately have "off + blen p + blen (drop (length p) u)
          \<in> set (match_indices (off + blen p) p (drop (length p) (c # s)))"
        using "2.IH"(1) True "2.prems"(1,3) by blast
      moreover have "blen u = blen p + blen (drop (length p) u)"
        by (subst u) simp
      ultimately show ?thesis using True "2.prems"(1) by (simp add: add.assoc)
    qed
  next
    case False
    then obtain u' where u: "u = c # u'"
      using "2.prems"(2) by (cases u) auto
    then have "s = u' @ p @ v" "u' = [] \<or> \<not> N (last u')"
      using "2.prems"(2,4) by auto
    then show ?thesis using False "2.IH"(2) "2.prems"(1,3) u by (auto simp: add.assoc)
  qed
qed simp

section \<open>Mentions\<close>

text \<open>The characters of a text, as written, that make a neighbouring name part of another word: letters, digits,
  \<open>-_[]\`^{}|\<close> and \<open>~\<close>. The last is not in the comment on \<open>mention_ranges\<close>; it counts since the neighbours
  are read after folding, which takes it to \<open>^\<close>.\<close>

definition joins_word :: "(rchar \<Rightarrow> bool) \<Rightarrow> rchar \<Rightarrow> bool" where
  "joins_word uni c \<longleftrightarrow>
     is_ascii_alphabetic c \<or> is_ascii_digit c \<or> (0x80 \<le> c \<and> uni c)
     \<or> c \<in> {0x2D, 0x5F, 0x5B, 0x5D, 0x5C, 0x60, 0x5E, 0x7B, 0x7D, 0x7C, 0x7E}"

text \<open>The occurrence of a name between \<open>u\<close> and \<open>v\<close> is a whole word.\<close>

definition whole_word :: "(rchar \<Rightarrow> bool) \<Rightarrow> rstring \<Rightarrow> rstring \<Rightarrow> bool" where
  "whole_word uni u v \<longleftrightarrow> (u = [] \<or> \<not> joins_word uni (last u)) \<and> (v = [] \<or> \<not> joins_word uni (hd v))"

lemma is_nick_char_fold: "is_nick_char uni (fold_char c) \<longleftrightarrow> joins_word uni c"
proof (cases "is_ascii_upper c")
  case True
  then show ?thesis
    by (auto simp: fold_char_def cm_fold_char_def to_ascii_lowercase_def is_nick_char_def joins_word_def
        is_ascii_alphabetic_def is_ascii_upper_def is_ascii_lower_def)
next
  case False
  then show ?thesis
    by (auto simp: fold_char_def cm_fold_char_def to_ascii_lowercase_def is_nick_char_def joins_word_def
        is_ascii_alphabetic_def is_ascii_upper_def is_ascii_lower_def is_ascii_digit_def)
qed

lemma is_nick_char_name: "list_all (is_nick_char uni) (names_fold s) \<longleftrightarrow> list_all (joins_word uni) s"
  by (simp add: names_fold_def cm_fold_def list_all_iff fold_char_def [symmetric] is_nick_char_fold)

lemma names_fold_append: "names_fold (s @ t) = names_fold s @ names_fold t"
  by (simp add: names_fold_def cm_fold_def)

lemma names_fold_split:
  assumes "names_fold s = a @ b"
  obtains x y where "s = x @ y" "names_fold x = a" "names_fold y = b"
  using assms that by (auto simp: names_fold_def cm_fold_def map_eq_append_conv)

lemma last_names_fold: "u \<noteq> [] \<Longrightarrow> last (names_fold u) = fold_char (last u)"
  by (simp add: names_fold_def cm_fold_def fold_char_def last_map)

lemma hd_names_fold: "u \<noteq> [] \<Longrightarrow> hd (names_fold u) = fold_char (hd u)"
  by (simp add: names_fold_def cm_fold_def fold_char_def hd_map)

lemma case_before:
  "(case names_fold u of [] \<Rightarrow> True | x # xs \<Rightarrow> \<not> P (last (x # xs))) \<longleftrightarrow> u = [] \<or> \<not> P (fold_char (last u))"
  by (cases u) (auto simp: names_fold_def cm_fold_def fold_char_def last_map)

lemma case_after:
  "(case names_fold v of [] \<Rightarrow> True | c # x \<Rightarrow> \<not> P c) \<longleftrightarrow> v = [] \<or> \<not> P (fold_char (hd v))"
  by (cases v) (auto simp: names_fold_def cm_fold_def fold_char_def)

lemma whole_word_slices:
  "(case slice_to (names_fold (u @ w @ v)) (blen u) of
      [] \<Rightarrow> True | x \<Rightarrow> \<not> is_nick_char uni (last x))
   \<and> (case slice_from (names_fold (u @ w @ v)) (blen u + blen w) of
      [] \<Rightarrow> True | c # _ \<Rightarrow> \<not> is_nick_char uni c)
   \<longleftrightarrow> whole_word uni u v"
proof -
  have "slice_to (names_fold (u @ w @ v)) (blen u) = names_fold u"
    using slice_to_blen [of "names_fold u"] by (simp add: names_fold_append)
  moreover have "slice_from (names_fold (u @ w @ v)) (blen u + blen w) = names_fold v"
    using slice_from_blen [of "names_fold u @ names_fold w"] by (simp add: names_fold_append)
  ultimately show ?thesis
    by (simp only: case_before case_after whole_word_def is_nick_char_fold)
qed

text \<open>Every range found is a whole-word occurrence of the nickname, at its byte offsets.\<close>

lemma mention_ranges_sound:
  assumes "(a, b) \<in> set (mention_ranges uni text nickname)"
  obtains u w v where "text = u @ w @ v" "a = blen u" "b = blen u + blen w"
    "names_same w nickname" "w \<noteq> []" "whole_word uni u v"
proof -
  from assms have ne: "nickname \<noteq> []"
    by (auto simp: mention_ranges_def split: if_splits)
  from assms ne have "a \<in> set (match_indices 0 (names_fold nickname) (names_fold text))"
    and b: "b = a + blen nickname"
    by (auto simp: mention_ranges_def Let_def)
  then obtain x y where xy: "names_fold text = x @ names_fold nickname @ y" "a = blen x"
    using match_indices_sound by fastforce
  then obtain u r where u: "text = u @ r" "names_fold u = x"
      "names_fold r = names_fold nickname @ y"
    using names_fold_split by metis
  then obtain w v where w: "r = w @ v" "names_fold w = names_fold nickname"
    using names_fold_split by metis
  then have "a = blen u" "b = blen u + blen w"
    using xy u b nick.blen_fold by (metis, metis)
  moreover have "w \<noteq> []"
    using w(2) ne nick.fold_eq_Nil_iff by metis
  ultimately show thesis
    using that [of u w v] u w ne assms whole_word_slices [where u = u and w = w and v = v and uni = uni]
    by (auto simp: mention_ranges_def Let_def nick.same_iff)
qed

text \<open>A nickname made of nickname characters is found wherever it stands as a whole word.\<close>

lemma mention_ranges_complete:
  assumes "names_same w nickname" and "w \<noteq> []" and "whole_word uni u v"
    and "list_all (joins_word uni) nickname"
  shows "(blen u, blen u + blen w) \<in> set (mention_ranges uni (u @ w @ v) nickname)"
proof -
  have ne: "nickname \<noteq> []" and bl: "blen w = blen nickname"
    using assms(1,2) nick.same_blen by (metis blen_eq_0_iff, blast)
  have "0 + blen (names_fold u) \<in> set (match_indices 0 (names_fold nickname) (names_fold (u @ w @ v)))"
    using assms ne last_names_fold [of u]
    by (intro match_indices_complete [where v = "names_fold v" and N = "is_nick_char uni"])
       (auto simp: names_fold_append nick.same_iff whole_word_def is_nick_char_name is_nick_char_fold
         hd_names_fold)
  then show ?thesis
    using ne bl assms(3) whole_word_slices [where u = u and w = w and v = v and uni = uni]
    by (auto simp: mention_ranges_def Let_def)
qed

section \<open>Properties\<close>

text \<open>C39. For a nickname of word characters (those that \<open>joins_word\<close> lists) the ranges found are exactly its
  whole-word occurrences: the places where it stands in the text, up to the case mapping, with no word character
  as written just before or just after it.\<close>
theorem mention_iff_whole_word:
  assumes "nickname \<noteq> []" and "list_all (joins_word uni) nickname"
  shows "(a, b) \<in> set (mention_ranges uni text nickname) \<longleftrightarrow>
    (\<exists>u w v. text = u @ w @ v \<and> a = blen u \<and> b = blen u + blen w \<and> names_same w nickname \<and> whole_word uni u v)"
proof
  assume "(a, b) \<in> set (mention_ranges uni text nickname)"
  then show "\<exists>u w v. text = u @ w @ v \<and> a = blen u \<and> b = blen u + blen w \<and> names_same w nickname \<and> whole_word uni u v"
    by (elim mention_ranges_sound) blast
next
  assume "\<exists>u w v. text = u @ w @ v \<and> a = blen u \<and> b = blen u + blen w \<and> names_same w nickname \<and> whole_word uni u v"
  then obtain u w v where t: "text = u @ w @ v" "a = blen u" "b = blen u + blen w" "names_same w nickname"
      "whole_word uni u v"
    by blast
  moreover have "w \<noteq> []"
    using t(4) assms(1) nick.same_blen by (metis blen_eq_0_iff)
  ultimately show "(a, b) \<in> set (mention_ranges uni text nickname)"
    using mention_ranges_complete assms(2) by blast
qed

theorem mention_iff_whole_word_witness:
  "(5, 8) \<in> set (mention_ranges (\<lambda>_. True) (lit ''hi, @Bob!'') (lit ''bob''))"
proof -
  have "lit ''bob'' \<noteq> []" and "list_all (joins_word (\<lambda>_. True)) (lit ''bob'')"
    by code_simp+
  moreover have "lit ''hi, @Bob!'' = lit ''hi, @'' @ lit ''Bob'' @ lit ''!''" "blen (lit ''hi, @'') = 5"
    "blen (lit ''hi, @'') + blen (lit ''Bob'') = 8"
    by (simp_all add: lit_def)
  moreover have "names_same (lit ''Bob'') (lit ''bob'')"
    and "whole_word (\<lambda>_. True) (lit ''hi, @'') (lit ''!'')"
    by code_simp+
  ultimately show ?thesis
    using mention_iff_whole_word by metis
qed

text \<open>With \<open>~\<close> before it, which the comment does not name, a nickname is no mention.\<close>

lemma tilde_hides_mention:
  "mention_ranges (\<lambda>_. False) (lit ''~bob'') (lit ''bob'') = []"
  "mention_ranges (\<lambda>_. False) (lit ''@bob'') (lit ''bob'') = [(1, 4)]"
  by code_simp+

end
