(* ===== verification/Wire.thy ===== *)
theory Wire
  imports Names
begin

text \<open>
  Parsed IRC messages, from the vendored \<open>irc-proto\<close> crate (\<open>vendor/irc-proto/src/message.rs\<close>,
  \<open>prefix.rs\<close>, \<open>line.rs\<close>) and the small readers of them that several components share. The
  commands are those a modelled component looks at; every other one is \<open>OtherCommand\<close>. A numeric
  reply the crate knows is \<open>Response\<close> with its number, any other is \<open>Raw\<close>. A channel mode is
  represented by the text \<open>to_string\<close> prints for it.
\<close>

section \<open>Messages\<close>

definition MAX_TAG_BYTES :: nat where "MAX_TAG_BYTES = 8191"

datatype tag = Tag (tag_name: rstring) (tag_content: "rstring option")

datatype prefix = ServerName rstring | Nickname rstring rstring rstring

datatype mode =
    Plus rstring "rstring option"
  | Minus rstring "rstring option"
  | NoPrefix rstring

datatype batch_sub = NETSPLIT | NETJOIN | CUSTOM rstring

datatype cap_sub = CapLS | CapLIST | CapREQ | CapACK | CapNAK | CapEND | CapNEW | CapDEL

text \<open>\<open>to_str\<close> of the vendored crate.\<close>

fun cap_sub_str :: "cap_sub \<Rightarrow> rstring" where
  "cap_sub_str CapLS = lit ''LS''"
| "cap_sub_str CapLIST = lit ''LIST''"
| "cap_sub_str CapREQ = lit ''REQ''"
| "cap_sub_str CapACK = lit ''ACK''"
| "cap_sub_str CapNAK = lit ''NAK''"
| "cap_sub_str CapEND = lit ''END''"
| "cap_sub_str CapNEW = lit ''NEW''"
| "cap_sub_str CapDEL = lit ''DEL''"

datatype command =
    NICK rstring
  | QUIT "rstring option"
  | JOIN rstring "rstring option" "rstring option"
  | PART rstring "rstring option"
  | ChannelMODE rstring "mode list"
  | TOPIC rstring "rstring option"
  | KICK rstring rstring "rstring option"
  | PRIVMSG rstring rstring
  | NOTICE rstring rstring
  | ACCOUNT rstring
  | CHGHOST rstring rstring
  | BATCH rstring "batch_sub option" "rstring list option"
  | CAP "rstring option" cap_sub "rstring option" "rstring option"
  | AUTHENTICATE rstring
  | Response nat "rstring list"
  | Raw rstring "rstring list"
  | OtherCommand

record message =
  m_tags :: "tag list option"
  m_prefix :: "prefix option"
  m_command :: command

definition RPL_ISUPPORT :: nat where "RPL_ISUPPORT = 5"

definition RPL_CHANNELMODEIS :: nat where "RPL_CHANNELMODEIS = 324"

definition source_nickname :: "message \<Rightarrow> rstring option" where
  "source_nickname m =
     (case m_prefix m of Some (Nickname name _ _) \<Rightarrow> Some name | _ \<Rightarrow> None)"

section \<open>Tag values on the wire\<close>

fun escape_tag_value :: "rstring \<Rightarrow> rstring" where
  "escape_tag_value [] = []"
| "escape_tag_value (c # s) =
     (if c = 0x3B then [0x5C, 0x3A]
      else if c = 0x20 then [0x5C, 0x73]
      else if c = 0x5C then [0x5C, 0x5C]
      else if c = 0x0D then [0x5C, 0x72]
      else if c = 0x0A then [0x5C, 0x6E]
      else [c]) @ escape_tag_value s"

definition unescape_char :: "rchar \<Rightarrow> rchar" where
  "unescape_char c =
     (if c = 0x3A then 0x3B else if c = 0x73 then 0x20 else if c = 0x5C then 0x5C
      else if c = 0x72 then 0x0D else if c = 0x6E then 0x0A else c)"

text \<open>An invalid escape keeps the character, a lone backslash at the end is dropped.\<close>

fun unescape_tag_value :: "rstring \<Rightarrow> rstring" where
  "unescape_tag_value [] = []"
| "unescape_tag_value [c] = (if c = 0x5C then [] else [c])"
| "unescape_tag_value (c # d # s) =
     (if c = 0x5C then unescape_char d # unescape_tag_value s
      else c # unescape_tag_value (d # s))"

section \<open>Prefixes\<close>

datatype active = Name | User | Host

text \<open>The loop over the characters, with the three buffers and the flag for a server name.\<close>

fun prefix_loop :: "active \<Rightarrow> bool \<Rightarrow> rstring \<Rightarrow> rstring \<Rightarrow> rstring \<Rightarrow> rstring \<Rightarrow> prefix" where
  "prefix_loop act server name user host [] =
     (if server then ServerName name else Nickname name user host)"
| "prefix_loop act server name user host (c # s) =
     (let server = (server \<or> c = 0x2E \<and> act = Name)
      in if c = 0x21 \<and> act = Name then prefix_loop User False name user host s
         else if c = 0x40 \<and> act \<noteq> Host then prefix_loop Host False name user host s
         else (case act of
                 Name \<Rightarrow> prefix_loop act server (name @ [c]) user host s
               | User \<Rightarrow> prefix_loop act server name (user @ [c]) host s
               | Host \<Rightarrow> prefix_loop act server name user (host @ [c]) s))"

definition prefix_new_from_str :: "rstring \<Rightarrow> prefix" where
  "prefix_new_from_str s = prefix_loop Name False [] [] [] s"

fun prefix_display :: "prefix \<Rightarrow> rstring" where
  "prefix_display (ServerName name) = name"
| "prefix_display (Nickname name user host) =
     (if name = [] \<and> user = [] \<and> host = [] then []
      else if user = [] \<and> host = [] then name
      else if host = [] then name @ [0x21] @ user
      else if user = [] then name @ [0x40] @ host
      else name @ [0x21] @ user @ [0x40] @ host)"

section \<open>One line per write\<close>

definition is_single_line :: "rstring \<Rightarrow> bool" where
  "is_single_line line =
     (let body = (case strip_suffix [0x0D, 0x0A] line of Some b \<Rightarrow> b | None \<Rightarrow> line)
      in \<not> list_ex (\<lambda>byte. byte = 0x0D \<or> byte = 0x0A \<or> byte = 0) (utf8 body))"

section \<open>Shared readers\<close>

text \<open>\<open>metadata::numeric\<close>: a numeric reply as its code and parameters.\<close>

definition numeric :: "message \<Rightarrow> (nat \<times> rstring list) option" where
  "numeric m =
     (case m_command m of
        Response code args \<Rightarrow> Some (code, args)
      | Raw cmd args \<Rightarrow>
          (if blen cmd = 3
           then map_option (\<lambda>code. (code, args)) (parse_unsigned 65535 cmd) else None)
      | _ \<Rightarrow> None)"

definition display_nickname :: "rstring \<Rightarrow> rstring" where
  "display_nickname member = trim_start_matches (lit ''~&@%+'') member"

text \<open>\<open>valid_channel\<close> of the crate's root.\<close>

definition valid_channel :: "rstring \<Rightarrow> bool" where
  "valid_channel value \<longleftrightarrow>
     starts_with_any (lit ''#&!'') value \<and> 1 < blen value
     \<and> \<not> list_ex (\<lambda>c. is_whitespace c \<or> is_control c \<or> c = 0x2C) value"

text \<open>The parameters of an \<open>RPL_ISUPPORT\<close> line after the nickname, split at whitespace.\<close>

definition isupport_tokens :: "rstring list \<Rightarrow> rstring list" where
  "isupport_tokens args = concat (map split_whitespace (drop 1 args))"

section \<open>Lemmas\<close>

lemma unescape_escape [simp]: "unescape_tag_value (escape_tag_value s) = s"
proof (induction s)
  case (Cons c s)
  moreover have "unescape_tag_value (c # escape_tag_value s) = c # s" if "c \<noteq> 0x5C"
    using that Cons by (cases "escape_tag_value s") auto
  ultimately show ?case
    by (auto simp: unescape_char_def)
qed simp

lemma escape_clean:
  "set (escape_tag_value s) \<inter> {0x3B, 0x20, 0x0D, 0x0A} = {}"
  by (induction s) auto

lemma prefix_loop_host:
  "prefix_loop Host False name user host s = Nickname name user (host @ s)"
  by (induction s arbitrary: host) auto

lemma prefix_loop_user:
  "0x40 \<notin> set u \<Longrightarrow> prefix_loop User False name user host (u @ s)
     = prefix_loop User False name (user @ u) host s"
  by (induction u arbitrary: user) auto

text \<open>With a user or a host the dots of the name do not make it a server.\<close>

lemma prefix_loop_name_dots:
  "0x21 \<notin> set n \<Longrightarrow> 0x40 \<notin> set n \<Longrightarrow>
     \<exists>b. prefix_loop Name server name user host (n @ s) = prefix_loop Name b (name @ n) user host s"
proof (induction n arbitrary: name server)
  case (Cons a n)
  then obtain b where "prefix_loop Name (server \<or> a = 0x2E) (name @ [a]) user host (n @ s)
      = prefix_loop Name b ((name @ [a]) @ n) user host s"
    by fastforce
  with Cons.prems show ?case
    by (intro exI [of _ b]) auto
qed auto

lemma set_display_nickname: "set (display_nickname s) \<subseteq> set s"
  unfolding display_nickname_def trim_start_matches_def by (rule set_dropWhile_subset)

lemma valid_channel_neq_Nil: "valid_channel s \<Longrightarrow> s \<noteq> []"
  by (auto simp: valid_channel_def)

section \<open>Properties\<close>

text \<open>C40. A tag value escaped for the wire is read back as it was, and the escaped form holds no
  semicolon, space or line break, so it ends where the tag section expects.\<close>
theorem tag_value_roundtrip:
  "unescape_tag_value (escape_tag_value s) = s
   \<and> set (escape_tag_value s) \<inter> {0x3B, 0x20, 0x0D, 0x0A} = {}"
  by (simp only: unescape_escape escape_clean)

text \<open>A nickname prefix that carries a user or a host is parsed back from its text, whatever
  dots the name has; the parts must not hold the separators that follow them.\<close>
theorem prefix_roundtrip:
  assumes "0x21 \<notin> set name" and "0x40 \<notin> set name" and "0x40 \<notin> set user"
    and "user \<noteq> [] \<or> host \<noteq> []"
  shows "prefix_new_from_str (prefix_display (Nickname name user host)) = Nickname name user host"
proof -
  have u: "prefix_loop Name False [] [] [] (name @ 0x21 # r) = prefix_loop User False name [] [] r" for r
    using prefix_loop_name_dots [OF assms(1,2), of False "[]" "[]" "[]" "0x21 # r"] by auto
  have h: "prefix_loop Name False [] [] [] (name @ 0x40 # r) = prefix_loop Host False name [] [] r" for r
    using prefix_loop_name_dots [OF assms(1,2), of False "[]" "[]" "[]" "0x40 # r"] by auto
  have "prefix_loop User False name [] [] user = Nickname name user []"
    using prefix_loop_user [OF assms(3), of name "[]" "[]" "[]"] by simp
  moreover have "prefix_loop User False name [] [] (user @ 0x40 # host) = Nickname name user host"
    using prefix_loop_user [OF assms(3), of name "[]" "[]" "0x40 # host"]
    by (simp add: prefix_loop_host)
  ultimately show ?thesis
    using assms(4) u h by (auto simp: prefix_new_from_str_def prefix_loop_host)
qed

theorem prefix_roundtrip_witness:
  "prefix_new_from_str (prefix_display (Nickname (lit ''a.b'') (lit ''u'') (lit ''h.example'')))
     = Nickname (lit ''a.b'') (lit ''u'') (lit ''h.example'')"
  by (rule prefix_roundtrip) (simp_all add: lit_def)

end
