(* ===== verification/Tags.thy ===== *)
theory Tags
  imports Wire Domain
begin

text \<open>
  \<open>crates/irc-core/src/tags.rs\<close>: IRCv3 message tags. Lookups (the last occurrence wins, an empty
  value counts as missing, oversized sections as absent), the size of a tag section, the
  shortening of tags in the transcript, and the parser of \<open>server-time\<close> with its calendar
  arithmetic. The text of a whole message (\<open>to_string\<close> of the library) is an argument where it is
  used; \<open>format_server_time\<close> is a call of the \<open>chrono\<close> crate and is not modelled.
\<close>

section \<open>Lookups\<close>

definition TRANSCRIPT_TAG_BYTES :: nat where "TRANSCRIPT_TAG_BYTES = 512"

definition MAX_BATCH_REFERENCE_BYTES :: nat where "MAX_BATCH_REFERENCE_BYTES = 64"

definition followed_batch :: "rstring \<Rightarrow> bool" where
  "followed_batch reference \<longleftrightarrow> reference \<noteq> [] \<and> blen reference \<le> MAX_BATCH_REFERENCE_BYTES"

definition escaped_len :: "rstring \<Rightarrow> nat" where
  "escaped_len v =
     sum_list (map (\<lambda>c. if c \<in> {0x3B, 0x20, 0x5C, 0x0D, 0x0A} then 2 else utf8_len c) v)"

definition tag_bytes :: "tag list \<Rightarrow> nat" where
  "tag_bytes tags =
     (if tags = [] then 0
      else
        (let separators = length tags - 1;
             body = sum_list
               (map (\<lambda>t. blen (tag_name t)
                       + (case tag_content t of
                            Some v \<Rightarrow> (if v \<noteq> [] then 1 + escaped_len v else 0)
                          | None \<Rightarrow> 0)) tags)
         in body + separators + 2))"

definition tag_value :: "message \<Rightarrow> rstring \<Rightarrow> rstring option" where
  "tag_value m key =
     (case m_tags m of
        None \<Rightarrow> None
      | Some tags \<Rightarrow>
          (if MAX_TAG_BYTES < tag_bytes tags then None
           else
             (case List.find (\<lambda>t. tag_name t = key) (rev tags) of
                None \<Rightarrow> None
              | Some t \<Rightarrow>
                  (case tag_content t of
                     Some v \<Rightarrow> (if v \<noteq> [] \<and> 0xFFFD \<notin> set v then Some v else None)
                   | None \<Rightarrow> None))))"

definition has_tag :: "message \<Rightarrow> rstring \<Rightarrow> bool" where
  "has_tag m key \<longleftrightarrow>
     (case m_tags m of
        None \<Rightarrow> False
      | Some tags \<Rightarrow> tag_bytes tags \<le> MAX_TAG_BYTES \<and> list_ex (\<lambda>t. tag_name t = key) tags)"

definition msgid :: "message \<Rightarrow> rstring option" where
  "msgid m = tag_value m (lit ''msgid'')"

definition account_tag :: "message \<Rightarrow> rstring option" where
  "account_tag m =
     (case tag_value m (lit ''account'') of
        Some v \<Rightarrow> (if v \<noteq> [0x2A] then Some v else None)
      | None \<Rightarrow> None)"

section \<open>The transcript\<close>

definition untagged_line :: "(command \<Rightarrow> rstring) \<Rightarrow> message \<Rightarrow> rstring" where
  "untagged_line show_command m =
     (case m_prefix m of
        Some p \<Rightarrow> [0x3A] @ prefix_display p @ [0x20] @ show_command (m_command m)
      | None \<Rightarrow> show_command (m_command m))"

text \<open>\<open>find(' ')\<close> as a byte offset.\<close>

fun find_byte :: "rchar \<Rightarrow> rstring \<Rightarrow> nat option" where
  "find_byte d [] = None"
| "find_byte d (c # s) =
     (if c = d then Some 0 else map_option (\<lambda>n. utf8_len c + n) (find_byte d s))"

definition transcript_line :: "rstring \<Rightarrow> tag list option \<Rightarrow> bool \<Rightarrow> rstring" where
  "transcript_line text tags full_tags =
     (let line = rev (dropWhile (\<lambda>c. c = 0x0D \<or> c = 0x0A) (rev text))
      in case tags of
           Some (t # ts) \<Rightarrow>
             (let tag_end = (case find_byte 0x20 line of Some n \<Rightarrow> n | None \<Rightarrow> blen line)
              in if full_tags \<or> tag_end \<le> TRANSCRIPT_TAG_BYTES then line
                 else
                   (let cut = floor_boundary line TRANSCRIPT_TAG_BYTES
                    in slice_to line cut @ [0x2026] @ lit ''['' @ decimal (tag_end - cut)
                       @ lit '' tag bytes omitted]'' @ slice_from line tag_end))
         | _ \<Rightarrow> line)"

section \<open>Server time\<close>

definition is_leap :: "nat \<Rightarrow> bool" where
  "is_leap year \<longleftrightarrow> (year mod 4 = 0 \<and> year mod 100 \<noteq> 0) \<or> year mod 400 = 0"

definition days_in_month :: "nat \<Rightarrow> nat \<Rightarrow> nat" where
  "days_in_month year month =
     (if month = 2 then (if is_leap year then 29 else 28)
      else if month \<in> {4, 6, 9, 11} then 30 else 31)"

definition days_from_civil :: "nat \<Rightarrow> nat \<Rightarrow> nat \<Rightarrow> nat" where
  "days_from_civil year month day =
     (let year = (if month \<le> 2 then year - 1 else year);
          era = year div 400;
          year_of_era = year - era * 400;
          month_index = (month + 9) mod 12;
          day_of_year = (153 * month_index + 2) div 5 + day - 1;
          day_of_era = year_of_era * 365 + year_of_era div 4 - year_of_era div 100 + day_of_year
      in era * 146097 + day_of_era - 719468)"

text \<open>The closure \<open>digits\<close>: the bytes of a range, all of them digits. A range is at most four
  bytes, so the value fits 32 bits.\<close>

definition time_digits :: "nat list \<Rightarrow> nat \<Rightarrow> nat \<Rightarrow> nat option" where
  "time_digits bytes from to =
     (if to \<le> length bytes
      then (let slice = take (to - from) (drop from bytes)
            in if slice = [] \<or> \<not> list_all is_ascii_digit slice then None
               else Some (digits_value 0 slice))
      else None)"

definition time_fraction :: "nat list \<Rightarrow> nat option" where
  "time_fraction rest =
     (case rest of
        [] \<Rightarrow> Some 0
      | b # fraction \<Rightarrow>
          (if b = 0x2E \<and> fraction \<noteq> [] \<and> list_all is_ascii_digit fraction
           then Some (digits_value 0 (take 3 (fraction @ [0x30, 0x30, 0x30])))
           else None))"

definition parse_server_time :: "rstring \<Rightarrow> system_time option" where
  "parse_server_time value =
     (let bytes = utf8 value
      in if length bytes < 20 \<or> bytes ! 4 \<noteq> 0x2D \<or> bytes ! 7 \<noteq> 0x2D \<or> bytes ! 10 \<noteq> 0x54
            \<or> bytes ! 13 \<noteq> 0x3A \<or> bytes ! 16 \<noteq> 0x3A \<or> last bytes \<noteq> 0x5A
         then None
         else
           Option.bind (time_digits bytes 0 4) (\<lambda>year.
           Option.bind (time_digits bytes 5 7) (\<lambda>month.
           Option.bind (time_digits bytes 8 10) (\<lambda>day.
           Option.bind (time_digits bytes 11 13) (\<lambda>hour.
           Option.bind (time_digits bytes 14 16) (\<lambda>minute.
           Option.bind (time_digits bytes 17 19) (\<lambda>second.
           Option.bind (time_fraction (take (length bytes - 20) (drop 19 bytes))) (\<lambda>millis.
             let second = min second 59
             in if year < 1970 \<or> month < 1 \<or> 12 < month \<or> day = 0 \<or> days_in_month year month < day
                   \<or> 23 < hour \<or> 59 < minute
                then None
                else
                  (let days = days_from_civil year month day;
                       seconds = days * 86400 + (hour * 3600 + minute * 60 + second)
                   in Some (int (seconds * 1000 + millis) * 1000000))))))))))"

definition server_time :: "message \<Rightarrow> bool \<Rightarrow> system_time option" where
  "server_time m enabled =
     (if \<not> enabled then None
      else Option.bind (tag_value m (lit ''time'')) parse_server_time)"

section \<open>Lemmas on lookups\<close>

lemma escaped_len_escape: "escaped_len v = blen (escape_tag_value v)"
  by (induction v) (auto simp: escaped_len_def)

text \<open>The tag section as \<open>Display\<close> writes it, without the escaped-empty values the size leaves out.\<close>

definition show_tag :: "tag \<Rightarrow> rstring" where
  "show_tag t =
     tag_name t @ (case tag_content t of
                     Some v \<Rightarrow> (if v \<noteq> [] then [0x3D] @ escape_tag_value v else [])
                   | None \<Rightarrow> [])"

fun join_semi :: "rstring list \<Rightarrow> rstring" where
  "join_semi [] = []"
| "join_semi [x] = x"
| "join_semi (x # y # xs) = x @ [0x3B] @ join_semi (y # xs)"

definition show_tags :: "tag list \<Rightarrow> rstring" where
  "show_tags tags = (if tags = [] then [] else [0x40] @ join_semi (map show_tag tags) @ [0x20])"

lemma blen_join_semi: "xs \<noteq> [] \<Longrightarrow> blen (join_semi xs) = sum_list (map blen xs) + (length xs - 1)"
  by (induction xs rule: join_semi.induct) auto

lemma blen_show_tag:
  "blen (show_tag t) = blen (tag_name t)
     + (case tag_content t of Some v \<Rightarrow> (if v \<noteq> [] then 1 + escaped_len v else 0) | None \<Rightarrow> 0)"
  by (simp add: show_tag_def escaped_len_escape split: option.split)

lemma tag_bytes_show: "tag_bytes tags = blen (show_tags tags)"
  by (simp add: tag_bytes_def show_tags_def blen_join_semi blen_show_tag comp_def)

lemma tag_value_neq_Nil: "tag_value m key = Some v \<Longrightarrow> v \<noteq> []"
  by (auto simp: tag_value_def split: option.splits if_splits)

lemma tag_value_has_tag: "tag_value m key = Some v \<Longrightarrow> has_tag m key"
  by (auto simp: tag_value_def has_tag_def list_ex_iff find_Some_iff split: option.splits if_splits)
     (metis in_set_conv_nth length_rev nth_mem set_rev)

section \<open>The calendar\<close>

text \<open>The reference: the days of the years, then of the months, before the date.\<close>

fun days_before_year :: "nat \<Rightarrow> nat" where
  "days_before_year 0 = 0"
| "days_before_year (Suc k) =
     days_before_year k + (if is_leap (1970 + k) then 366 else 365)"

fun days_before_month :: "nat \<Rightarrow> nat \<Rightarrow> nat" where
  "days_before_month year 0 = 0"
| "days_before_month year (Suc k) = days_before_month year k + days_in_month year (Suc k)"

definition civil_days :: "nat \<Rightarrow> nat \<Rightarrow> nat \<Rightarrow> nat" where
  "civil_days year month day =
     days_before_year (year - 1970) + days_before_month year (month - 1) + (day - 1)"

lemma leap_step:
  assumes "0 < (y::nat)"
  shows "y div 4 - y div 100 + y div 400 =
    (y - 1) div 4 - (y - 1) div 100 + (y - 1) div 400 + (if is_leap y then 1 else 0)"
proof -
  obtain x where y: "y = Suc x" using assms by (cases y) auto
  have s: "Suc x div k = x div k + (if Suc x mod k = 0 then 1 else 0)" if "k \<noteq> 0" for k
    using that by (simp add: div_Suc)
  have m: "Suc x mod 400 = 0 \<Longrightarrow> Suc x mod 100 = 0" "Suc x mod 100 = 0 \<Longrightarrow> Suc x mod 4 = 0"
    by presburger+
  have le: "x div 100 \<le> x div 4" by (simp add: div_le_mono2)
  show ?thesis
    using m le by (auto simp: y s is_leap_def)
qed

lemma days_before_year_closed:
  "days_before_year k + 477 + 365 * 1970 =
     365 * (1970 + k) + (1969 + k) div 4 - (1969 + k) div 100 + (1969 + k) div 400"
proof (induction k)
  case (Suc k)
  define a b c where abc: "a = (1969 + k) div 4" "b = (1969 + k) div 100" "c = (1969 + k) div 400"
  define a' b' c' where abc': "a' = (1970 + k) div 4" "b' = (1970 + k) div 100" "c' = (1970 + k) div 400"
  define l where "l = (if is_leap (1970 + k) then 1 else 0 :: nat)"
  have le: "b \<le> a" "b' \<le> a'"
    unfolding abc abc' by (simp_all add: div_le_mono2)
  have e: "1970 + k - 1 = 1969 + k" "(0::nat) < 1970" "0 \<le> k" by simp_all
  have step: "a' - b' + c' = a - b + c + l"
    using leap_step [of "1970 + k", OF add_pos_nonneg] e
    by (simp only: abc abc' l_def)
  have "days_before_year k + 477 + 365 * 1970 = 365 * (1970 + k) + a - b + c"
    using Suc by (simp only: abc)
  then have "days_before_year k + 365 + l + 477 + 365 * 1970 = 365 * (1971 + k) + a' - b' + c'"
    using le step by (auto simp: le_iff_add)
  moreover have "days_before_year (Suc k) = days_before_year k + 365 + l"
    by (simp add: l_def)
  ultimately show ?case
    by (simp add: abc')
qed simp

lemma days_before_month_numeral [simp]:
  "days_before_month y (numeral n) =
     days_before_month y (pred_numeral n) + days_in_month y (numeral n)"
  by (simp add: numeral_eq_Suc)

lemma day_of_year_shifted:
  assumes "1 \<le> m" and "m \<le> 12"
  shows "(153 * ((m + 9) mod 12) + 2) div 5 + (if m \<le> 2 then 0 else 59 + (if is_leap y then 1 else 0))
     = days_before_month y (m - 1) + (if m \<le> 2 then 306 else 0)"
proof -
  have "m = 1 \<or> m = 2 \<or> m = 3 \<or> m = 4 \<or> m = 5 \<or> m = 6 \<or> m = 7 \<or> m = 8 \<or> m = 9
      \<or> m = 10 \<or> m = 11 \<or> m = 12"
    using assms by presburger
  then show ?thesis
    by (elim disjE) (simp_all add: days_in_month_def)
qed

text \<open>The number of leap days before a year, on the years themselves.\<close>

definition leaps :: "nat \<Rightarrow> nat" where
  "leaps y = y div 4 - y div 100 + y div 400"

lemma leaps_step: "0 < y \<Longrightarrow> leaps y = leaps (y - 1) + (if is_leap y then 1 else 0)"
  unfolding leaps_def by (rule leap_step)

lemma era_days:
  "y div 400 * 146097
     + ((y - y div 400 * 400) * 365 + (y - y div 400 * 400) div 4 - (y - y div 400 * 400) div 100)
   = 365 * y + leaps y"
proof -
  define e r where er: "e = y div 400" "r = y mod 400"
  have y: "y = 400 * e + r" by (simp add: er)
  have "(400 * e + r) div 4 = 100 * e + r div 4"
    using div_mult_self1 [of 4 r "100 * e"] by (simp add: mult.commute add.commute)
  moreover have "(400 * e + r) div 100 = 4 * e + r div 100"
    using div_mult_self1 [of 100 r "4 * e"] by (simp add: mult.commute add.commute)
  moreover have "y div 400 = e" "y - y div 400 * 400 = r"
    by (simp_all add: er minus_div_mult_eq_mod)
  moreover have "r div 100 \<le> r div 4"
    by (simp add: div_le_mono2)
  ultimately show ?thesis
    unfolding leaps_def by (simp add: y mult.commute)
qed

lemma days_from_civil_alt:
  "days_from_civil y m d =
     (let y' = (if m \<le> 2 then y - 1 else y)
      in 365 * y' + leaps y' + ((153 * ((m + 9) mod 12) + 2) div 5 + d - 1) - 719468)"
  unfolding days_from_civil_def Let_def era_days [symmetric]
  by (simp add: add.assoc)

lemma days_before_year_leaps:
  assumes "1970 \<le> y"
  shows "days_before_year (y - 1970) + 719527 = 365 * y + leaps (y - 1)"
proof -
  obtain k where k: "y = 1970 + k" using assms le_Suc_ex by blast
  have "(1969 + k) div 100 \<le> (1969 + k) div 4"
    by (simp add: div_le_mono2)
  then show ?thesis
    using days_before_year_closed [of k] by (simp add: k leaps_def add.assoc)
qed

text \<open>The constant-time formula agrees with counting the days.\<close>

lemma days_from_civil_eq:
  assumes "1970 \<le> y" and "1 \<le> m" and "m \<le> 12" and "1 \<le> d"
  shows "days_from_civil y m d = civil_days y m d"
proof -
  define q where "q = (153 * ((m + 9) mod 12) + 2) div 5"
  define b where "b = days_before_month y (m - 1)"
  have q: "q + (if m \<le> 2 then 0 else 59 + (if is_leap y then 1 else 0)) = b + (if m \<le> 2 then 306 else 0)"
    using day_of_year_shifted [OF assms(2,3), of y] by (simp add: q_def b_def)
  have c: "civil_days y m d + 719527 = 365 * y + leaps (y - 1) + b + (d - 1)"
    using days_before_year_leaps [OF assms(1)] by (simp add: civil_days_def b_def)
  have l: "leaps y = leaps (y - 1) + (if is_leap y then 1 else 0)"
    using assms(1) by (intro leaps_step) simp
  have h: "days_from_civil y m d =
      (let y' = (if m \<le> 2 then y - 1 else y) in 365 * y' + leaps y' + (q + d - 1) - 719468)"
    by (simp add: days_from_civil_alt q_def)
  show ?thesis
  proof (cases "m \<le> 2")
    case True
    then have "days_from_civil y m d = 365 * (y - 1) + leaps (y - 1) + (q + d - 1) - 719468"
      using h by (simp add: Let_def)
    moreover have "365 * (y - 1) + 365 = 365 * y" using assms(1) by simp
    ultimately show ?thesis using True q c assms(4) by simp
  next
    case False
    then have "days_from_civil y m d = 365 * y + leaps y + (q + d - 1) - 719468"
      using h by simp
    then show ?thesis using False q c l assms(4) by (simp split: if_splits)
  qed
qed

section \<open>Properties\<close>

text \<open>The date arithmetic of server time is right: for every date from 1970 on, the closed
  formula is the number of days of all the years and months before it, leap years included.\<close>
theorem days_from_civil_counts_days:
  assumes "1970 \<le> year" and "1 \<le> month" and "month \<le> 12" and "1 \<le> day"
    and "day \<le> days_in_month year month"
  shows "days_from_civil year month day =
    days_before_year (year - 1970) + days_before_month year (month - 1) + (day - 1)"
  using days_from_civil_eq [OF assms(1-4)] by (simp add: civil_days_def)

theorem days_from_civil_counts_days_witness:
  "days_from_civil 2000 2 29 = days_before_year 30 + days_before_month 2000 1 + 28"
  using days_from_civil_counts_days [of 2000 2 29] by (simp add: days_in_month_def is_leap_def)

text \<open>The size of a tag section is the number of bytes it is written with (a tag with an empty
  value written as its name alone), and a value is read only from a section within the protocol's
  limit: a tag section over it has no value and no tag.\<close>
theorem tag_lookup_within_limit:
  "tag_bytes tags = blen (show_tags tags)
   \<and> (tag_value m key \<noteq> None \<longrightarrow>
        has_tag m key \<and> (\<exists>ts. m_tags m = Some ts \<and> blen (show_tags ts) \<le> MAX_TAG_BYTES))"
proof (intro conjI impI)
  show "tag_bytes tags = blen (show_tags tags)" by (rule tag_bytes_show)
next
  assume v: "tag_value m key \<noteq> None"
  then show "has_tag m key" using tag_value_has_tag by blast
  show "\<exists>ts. m_tags m = Some ts \<and> blen (show_tags ts) \<le> MAX_TAG_BYTES"
    using v by (auto simp: tag_value_def tag_bytes_show split: option.splits if_splits)
qed

theorem tag_lookup_within_limit_witness:
  "has_tag \<lparr>m_tags = Some [Tag (lit ''k'') (Some (lit ''v''))], m_prefix = None, m_command = OtherCommand\<rparr> (lit ''k'')"
  by (rule tag_lookup_within_limit [THEN conjunct2, rule_format, THEN conjunct1])
     (simp add: tag_value_def tag_bytes_def escaped_len_def lit_def MAX_TAG_BYTES_def)

end
