(* ===== verification/Modes.thy ===== *)
theory Modes
  imports Text Wire
begin

text \<open>
  \<open>crates/irc-core/src/modes.rs\<close>: privilege changes for several members at once, split into
  \<open>MODE\<close> lines the server accepts.
\<close>

section \<open>Definitions\<close>

definition DEFAULT_MODES_PER_LINE :: nat where "DEFAULT_MODES_PER_LINE = 3"
definition MAX_MODES_PER_LINE :: nat where "MAX_MODES_PER_LINE = 12"
definition MAX_PARAMETER_BYTES :: nat where "MAX_PARAMETER_BYTES = 350"

datatype member_mode = Op | Deop | Voice | Devoice

definition mode_sign :: "member_mode \<Rightarrow> rchar" where
  "mode_sign m = (case m of Op \<Rightarrow> 0x2B | Voice \<Rightarrow> 0x2B | Deop \<Rightarrow> 0x2D | Devoice \<Rightarrow> 0x2D)"

definition mode_flag :: "member_mode \<Rightarrow> rchar" where
  "mode_flag m = (case m of Op \<Rightarrow> 0x6F | Deop \<Rightarrow> 0x6F | Voice \<Rightarrow> 0x76 | Devoice \<Rightarrow> 0x76)"

text \<open>\<open>find_map\<close> over the tokens: a \<open>MODES\<close> without a usable number is passed over.\<close>

fun find_map :: "('a \<Rightarrow> 'b option) \<Rightarrow> 'a list \<Rightarrow> 'b option" where
  "find_map f [] = None"
| "find_map f (x # xs) = (case f x of Some y \<Rightarrow> Some y | None \<Rightarrow> find_map f xs)"

definition modes_token :: "rstring \<Rightarrow> nat option" where
  "modes_token token =
     (case split_once 0x3D token of
        None \<Rightarrow> None
      | Some (name, value) \<Rightarrow>
          (if eq_ignore_ascii_case name (lit ''MODES'')
           then (case parse_unsigned (2 ^ 64 - 1) value of
                   Some n \<Rightarrow> (if 0 < n then Some n else None)
                 | None \<Rightarrow> None)
           else None))"

definition announced_limit :: "message \<Rightarrow> nat option" where
  "announced_limit m =
     (case m_command m of
        Response code args \<Rightarrow>
          (if code = RPL_ISUPPORT then find_map modes_token (isupport_tokens args) else None)
      | _ \<Rightarrow> None)"

definition modes_observe :: "message \<Rightarrow> nat \<Rightarrow> nat" where
  "modes_observe m limit = (case announced_limit m of Some announced \<Rightarrow> announced | None \<Rightarrow> limit)"

definition effective_limit :: "nat \<Rightarrow> nat" where
  "effective_limit announced =
     (if announced = 0 then DEFAULT_MODES_PER_LINE else min announced MAX_MODES_PER_LINE)"

text \<open>The first loop: nicknames repeat at most once, their order is kept.\<close>

fun unique_nicks :: "rstring list \<Rightarrow> rstring list \<Rightarrow> rstring list" where
  "unique_nicks uniq [] = uniq"
| "unique_nicks uniq (n # ns) =
     (if list_ex (\<lambda>seen. same_nickname seen n) uniq then unique_nicks uniq ns
      else unique_nicks (uniq @ [n]) ns)"

definition mode_line :: "rstring \<Rightarrow> member_mode \<Rightarrow> rstring list \<Rightarrow> rstring list" where
  "mode_line channel mode grp =
     [channel, mode_sign mode # replicate (length grp) (mode_flag mode)] @ grp"

definition mode_flush ::
  "rstring \<Rightarrow> member_mode \<Rightarrow> rstring list \<Rightarrow> rstring list list \<Rightarrow> rstring list list" where
  "mode_flush channel mode grp lines =
     (if grp \<noteq> [] then lines @ [mode_line channel mode grp] else lines)"

text \<open>The second loop, with its variables \<open>group\<close>, \<open>bytes\<close> and \<open>lines\<close>.\<close>

fun mode_groups ::
  "rstring \<Rightarrow> member_mode \<Rightarrow> nat \<Rightarrow> rstring list \<Rightarrow> nat \<Rightarrow> rstring list list \<Rightarrow> rstring list
   \<Rightarrow> rstring list list" where
  "mode_groups channel mode per_line grp bytes lines [] = mode_flush channel mode grp lines"
| "mode_groups channel mode per_line grp bytes lines (n # ns) =
     (if length grp = per_line \<or> MAX_PARAMETER_BYTES < bytes + blen n + 1
      then mode_groups channel mode per_line [n] (blen n + 1) (mode_flush channel mode grp lines) ns
      else mode_groups channel mode per_line (grp @ [n]) (bytes + (blen n + 1)) lines ns)"

definition mode_lines ::
  "rstring \<Rightarrow> member_mode \<Rightarrow> rstring list \<Rightarrow> nat \<Rightarrow> rstring list list" where
  "mode_lines channel mode nicknames per_line =
     mode_groups channel mode (max per_line 1) [] 0 [] (unique_nicks [] nicknames)"

section \<open>Lemmas\<close>

lemma find_map_Some: "find_map f xs = Some y \<Longrightarrow> \<exists>x \<in> set xs. f x = Some y"
  by (induction xs) (auto split: option.splits)

lemma announced_limit_pos: "announced_limit m = Some n \<Longrightarrow> 0 < n \<and> n < 2 ^ 64"
  by (auto simp: announced_limit_def modes_token_def dest!: find_map_Some parse_unsigned_le
      split: command.splits option.splits if_splits)

lemma unique_nicks_prefix: "\<exists>xs. unique_nicks uniq ns = uniq @ xs \<and> set xs \<subseteq> set ns"
proof (induction ns arbitrary: uniq)
  case (Cons n ns)
  from Cons [of uniq] Cons [of "uniq @ [n]"] show ?case by fastforce
qed simp

lemma unique_nicks_pairwise:
  "sorted_wrt (\<lambda>a b. \<not> same_nickname a b) uniq \<Longrightarrow>
   sorted_wrt (\<lambda>a b. \<not> same_nickname a b) (unique_nicks uniq ns)"
  by (induction ns arbitrary: uniq) (auto simp: sorted_wrt_append list_ex_iff)

lemma unique_nicks_covers:
  "n \<in> set uniq \<union> set ns \<Longrightarrow> \<exists>u \<in> set (unique_nicks uniq ns). same_nickname u n"
proof (induction ns arbitrary: uniq)
  case Nil
  then show ?case by (auto intro: nickname.same_refl)
next
  case (Cons a ns)
  show ?case
  proof (cases "list_ex (\<lambda>seen. same_nickname seen a) uniq")
    case True
    then obtain seen where seen: "seen \<in> set uniq" "same_nickname seen a"
      by (auto simp: list_ex_iff)
    obtain xs where "unique_nicks uniq ns = uniq @ xs"
      using unique_nicks_prefix by blast
    then have "n = a \<Longrightarrow> ?thesis"
      using True seen by auto
    moreover have "n \<noteq> a \<Longrightarrow> ?thesis"
      using True Cons.prems Cons.IH [of uniq] by auto
    ultimately show ?thesis by blast
  next
    case False
    with Cons show ?thesis by simp
  qed
qed

definition params_bytes :: "rstring list \<Rightarrow> nat" where
  "params_bytes grp = sum_list (map (\<lambda>n. blen n + 1) grp)"

definition group_ok :: "nat \<Rightarrow> rstring list \<Rightarrow> bool" where
  "group_ok per_line grp \<longleftrightarrow>
     grp \<noteq> [] \<and> length grp \<le> per_line
     \<and> (params_bytes grp \<le> MAX_PARAMETER_BYTES \<or> length grp = 1)"

definition line_ok :: "rstring \<Rightarrow> member_mode \<Rightarrow> nat \<Rightarrow> rstring list \<Rightarrow> bool" where
  "line_ok channel mode per_line line \<longleftrightarrow>
     (\<exists>grp. line = mode_line channel mode grp \<and> group_ok per_line grp)"

lemma mode_flush_ok:
  assumes "grp = [] \<or> group_ok per_line grp" and "list_all (line_ok channel mode per_line) lines"
  shows "list_all (line_ok channel mode per_line) (mode_flush channel mode grp lines)"
proof -
  have "line_ok channel mode per_line (mode_line channel mode grp)" if "group_ok per_line grp"
    using that by (auto simp: line_ok_def)
  with assms show ?thesis by (auto simp: mode_flush_def)
qed

lemma mode_groups_ok:
  assumes "1 \<le> per_line" and "bytes = params_bytes grp" and "grp = [] \<or> group_ok per_line grp"
    and "list_all (line_ok channel mode per_line) lines"
  shows "list_all (line_ok channel mode per_line) (mode_groups channel mode per_line grp bytes lines ns)"
  using assms
proof (induction channel mode per_line grp bytes lines ns rule: mode_groups.induct)
  case (1 channel mode per_line grp bytes lines)
  then show ?case by (simp add: mode_flush_ok)
next
  case (2 channel mode per_line grp bytes lines n ns)
  show ?case
  proof (cases "length grp = per_line \<or> MAX_PARAMETER_BYTES < bytes + blen n + 1")
    case True
    have "list_all (line_ok channel mode per_line) (mode_flush channel mode grp lines)"
      using "2.prems"(3,4) by (rule mode_flush_ok)
    moreover have "group_ok per_line [n]"
      using "2.prems"(1) by (simp add: group_ok_def)
    ultimately show ?thesis
      using True "2.IH"(1) "2.prems"(1) by (simp add: params_bytes_def)
  next
    case False
    then have "group_ok per_line (grp @ [n])"
      using "2.prems" by (auto simp: group_ok_def params_bytes_def)
    then show ?thesis
      using False "2.IH"(2) "2.prems" by (simp add: params_bytes_def)
  qed
qed

lemma mode_groups_concat:
  "concat (map (drop 2) (mode_groups channel mode per_line grp bytes lines ns)) =
     concat (map (drop 2) lines) @ grp @ ns"
  by (induction channel mode per_line grp bytes lines ns rule: mode_groups.induct)
     (auto simp: mode_flush_def mode_line_def)

section \<open>Properties\<close>

text \<open>A privilege change reaches every member named exactly once, in order, in lines the server
  accepts: each line has between one and the allowed number of nicknames, as many flags as
  nicknames, and at most 350 bytes of them unless it holds a single one.\<close>
theorem mode_lines_correct:
  "list_all (line_ok channel mode (max per_line 1)) (mode_lines channel mode nicks per_line)
   \<and> concat (map (drop 2) (mode_lines channel mode nicks per_line)) = unique_nicks [] nicks
   \<and> sorted_wrt (\<lambda>a b. \<not> same_nickname a b) (unique_nicks [] nicks)
   \<and> set (unique_nicks [] nicks) \<subseteq> set nicks
   \<and> (\<forall>n. n \<in> set nicks \<longrightarrow> (\<exists>u \<in> set (unique_nicks [] nicks). same_nickname u n))"
proof (intro conjI allI impI)
  show "list_all (line_ok channel mode (max per_line 1)) (mode_lines channel mode nicks per_line)"
    unfolding mode_lines_def by (rule mode_groups_ok) (simp_all add: params_bytes_def)
  show "set (unique_nicks [] nicks) \<subseteq> set nicks"
    using unique_nicks_prefix [of "[]" nicks] by auto
  show "\<exists>u \<in> set (unique_nicks [] nicks). same_nickname u n" if "n \<in> set nicks" for n
    using unique_nicks_covers [of n "[]" nicks] that by simp
qed (simp_all add: mode_lines_def mode_groups_concat unique_nicks_pairwise)

theorem mode_lines_correct_witness:
  "\<exists>u \<in> set (unique_nicks [] [lit ''Al'', lit ''bo'', lit ''AL'']). same_nickname u (lit ''AL'')"
  by (rule mode_lines_correct [THEN conjunct2, THEN conjunct2, THEN conjunct2, THEN conjunct2,
        rule_format]) simp

end
