(* ===== verification/ChanModes.thy ===== *)
theory ChanModes
  imports Wire
begin

text \<open>
  \<open>crates/irc-core/src/chanmodes.rs\<close>: the mode letters set on each joined channel, and the queue
  of \<open>MODE\<close> queries that learns them, at most four of them unanswered. Instants and durations are
  milliseconds.
\<close>

section \<open>State\<close>

definition MAX_FLAGS :: nat where "MAX_FLAGS = 64"
definition MODES_MAX_TRACKED :: nat where "MODES_MAX_TRACKED = 512"
definition MAX_IN_FLIGHT :: nat where "MAX_IN_FLIGHT = 4"
definition QUERY_TIMEOUT :: nat where "QUERY_TIMEOUT = 10000"
definition DEFAULT_LIST_MODES :: rstring where "DEFAULT_LIST_MODES = lit ''beI''"
definition DEFAULT_PREFIX_MODES :: rstring where "DEFAULT_PREFIX_MODES = lit ''ov''"

type_synonym instant = nat

record chan_modes =
  list_modes :: rstring
  prefix_modes :: rstring
  not_flags :: "rchar set"
  cm_channels :: "(rstring, rstring \<times> rchar list option) hmap"
  cm_pending :: "rstring list"
  cm_in_flight :: "(rstring \<times> instant) list"
  cm_warned :: bool

definition chan_modes_default :: chan_modes where
  "chan_modes_default =
     \<lparr>list_modes = DEFAULT_LIST_MODES, prefix_modes = DEFAULT_PREFIX_MODES,
      not_flags = set (DEFAULT_LIST_MODES @ DEFAULT_PREFIX_MODES),
      cm_channels = [], cm_pending = [], cm_in_flight = [], cm_warned = False\<rparr>"

section \<open>Operations\<close>

text \<open>One token of an \<open>RPL_ISUPPORT\<close> line: the list modes, the membership modes, and whether
  one of them changed.\<close>

definition chanmodes_token :: "rstring \<Rightarrow> rstring \<times> rstring \<times> bool \<Rightarrow> rstring \<times> rstring \<times> bool" where
  "chanmodes_token token = (\<lambda>(lm, pm, changed).
     if eq_ignore_ascii_case token (lit ''-CHANMODES'') then (DEFAULT_LIST_MODES, pm, True)
     else if eq_ignore_ascii_case token (lit ''-PREFIX'') then (lm, DEFAULT_PREFIX_MODES, True)
     else (case split_once 0x3D token of
             None \<Rightarrow> (lm, pm, changed)
           | Some (name, value) \<Rightarrow>
               (if eq_ignore_ascii_case name (lit ''CHANMODES'')
                then (case split_by (\<lambda>c. c = 0x2C) value of [] \<Rightarrow> [] | first # _ \<Rightarrow> first, pm, True)
                else if eq_ignore_ascii_case name (lit ''PREFIX'')
                then (lm,
                      (case strip_prefix [0x28] value of
                         None \<Rightarrow> []
                       | Some rest \<Rightarrow>
                           (case split_once 0x29 rest of None \<Rightarrow> [] | Some (letters, _) \<Rightarrow> letters)),
                      True)
                else (lm, pm, changed))))"

definition chanmodes_isupport :: "message \<Rightarrow> chan_modes \<Rightarrow> chan_modes" where
  "chanmodes_isupport m s =
     (case m_command m of
        Response code args \<Rightarrow>
          (if code = RPL_ISUPPORT
           then (let (lm, pm, changed) =
                       fold chanmodes_token (isupport_tokens args) (list_modes s, prefix_modes s, False)
                 in if changed
                    then s\<lparr>list_modes := lm, prefix_modes := pm, not_flags := set (lm @ pm)\<rparr>
                    else s\<lparr>list_modes := lm, prefix_modes := pm\<rparr>)
           else s)
      | _ \<Rightarrow> s)"

definition set_flag :: "rchar set \<Rightarrow> bool \<Rightarrow> rchar \<Rightarrow> rchar list \<Rightarrow> rchar list" where
  "set_flag nf on letter flags =
     (if \<not> is_ascii_alphabetic letter \<or> letter \<in> nf then flags
      else if on
      then (if letter \<notin> set flags \<and> length flags < MAX_FLAGS then flags @ [letter] else flags)
      else filter (\<lambda>known. known \<noteq> letter) flags)"

fun apply_letters :: "rchar set \<Rightarrow> bool \<Rightarrow> rchar list \<Rightarrow> rchar list \<Rightarrow> rchar list" where
  "apply_letters nf on [] flags = flags"
| "apply_letters nf on (c # cs) flags =
     (if c = 0x2B then apply_letters nf True cs flags
      else if c = 0x2D then apply_letters nf False cs flags
      else apply_letters nf on cs (set_flag nf on c flags))"

definition apply_mode :: "rchar set \<Rightarrow> mode \<Rightarrow> rchar list \<Rightarrow> rchar list" where
  "apply_mode nf mode flags =
     (case mode of
        Plus name _ \<Rightarrow> (case name of [] \<Rightarrow> flags | letter # _ \<Rightarrow> set_flag nf True letter flags)
      | Minus name _ \<Rightarrow> (case name of [] \<Rightarrow> flags | letter # _ \<Rightarrow> set_flag nf False letter flags)
      | NoPrefix _ \<Rightarrow> flags)"

definition chanmodes_observe ::
  "message \<Rightarrow> case_mapping \<Rightarrow> bool \<Rightarrow> chan_modes \<Rightarrow> chan_modes \<times> (rstring \<times> rstring) option" where
  "chanmodes_observe m mapping replayed s =
     (if replayed then (s, None)
      else
        (case m_command m of
           Response code args \<Rightarrow>
             (if code = RPL_CHANNELMODEIS \<and> 1 < length args \<and> valid_channel (args ! 1)
              then
                (let channel = args ! 1;
                     key = cm_fold mapping channel;
                     s = s\<lparr>cm_in_flight :=
                             filter (\<lambda>(queried, _). cm_fold mapping queried \<noteq> key) (cm_in_flight s)\<rparr>
                 in case map_of (cm_channels s) key of
                      None \<Rightarrow> (s, None)
                    | Some (name, _) \<Rightarrow>
                        (let letters = (if 2 < length args then args ! 2 else []);
                             flags = apply_letters (not_flags s) True letters []
                         in (s\<lparr>cm_channels := AList.update key (name, Some flags) (cm_channels s)\<rparr>,
                             Some (channel, flags))))
              else (s, None))
         | ChannelMODE channel modes \<Rightarrow>
             (let key = cm_fold mapping channel
              in case map_of (cm_channels s) key of
                   Some (name, Some flags) \<Rightarrow>
                     (let updated = fold (apply_mode (not_flags s)) modes flags
                      in (s\<lparr>cm_channels := AList.update key (name, Some updated) (cm_channels s)\<rparr>,
                          Some (channel, updated)))
                 | _ \<Rightarrow> (s, None))
         | _ \<Rightarrow> (s, None)))"

definition limit_warning :: rstring where
  "limit_warning =
     lit ''Channel modes are not tracked beyond '' @ decimal MODES_MAX_TRACKED @ lit '' channels.''"

definition chanmodes_joined ::
  "rstring \<Rightarrow> case_mapping \<Rightarrow> chan_modes \<Rightarrow> chan_modes \<times> rstring option" where
  "chanmodes_joined channel mapping s =
     (let key = cm_fold mapping channel
      in if map_of (cm_channels s) key = None \<and> MODES_MAX_TRACKED \<le> length (cm_channels s)
         then (s\<lparr>cm_warned := True\<rparr>, if cm_warned s then None else Some limit_warning)
         else
           (s\<lparr>cm_pending :=
                filter (\<lambda>queued. cm_fold mapping queued \<noteq> key) (cm_pending s) @ [channel],
              cm_channels := AList.update key (channel, None) (cm_channels s)\<rparr>, None))"

definition chanmodes_flags :: "rstring \<Rightarrow> case_mapping \<Rightarrow> chan_modes \<Rightarrow> rstring option" where
  "chanmodes_flags channel mapping s =
     (case map_of (cm_channels s) (cm_fold mapping channel) of
        None \<Rightarrow> None | Some (_, flags) \<Rightarrow> flags)"

definition chanmodes_left :: "rstring \<Rightarrow> case_mapping \<Rightarrow> chan_modes \<Rightarrow> chan_modes" where
  "chanmodes_left channel mapping s =
     (let key = cm_fold mapping channel
      in s\<lparr>cm_channels := AList.delete key (cm_channels s),
           cm_pending := filter (\<lambda>queued. cm_fold mapping queued \<noteq> key) (cm_pending s),
           cm_in_flight :=
             filter (\<lambda>(queried, _). cm_fold mapping queried \<noteq> key) (cm_in_flight s)\<rparr>)"

definition take_queries :: "instant \<Rightarrow> chan_modes \<Rightarrow> chan_modes \<times> rstring list" where
  "take_queries now s =
     (let live = filter (\<lambda>(_, until). now < until) (cm_in_flight s);
          count = min (MAX_IN_FLIGHT - length live) (length (cm_pending s));
          queries = take count (cm_pending s)
      in (s\<lparr>cm_pending := drop count (cm_pending s),
            cm_in_flight := live @ map (\<lambda>name. (name, now + QUERY_TIMEOUT)) queries\<rparr>,
          queries))"

definition chanmodes_next_deadline :: "chan_modes \<Rightarrow> instant option" where
  "chanmodes_next_deadline s =
     (if cm_pending s = [] then None
      else min_instant (map snd (cm_in_flight s)))"

text \<open>Folding the names again: names that now collide keep one entry, with unknown modes.\<close>

definition rekey_entry ::
  "case_mapping \<Rightarrow> rstring \<times> rchar list option \<Rightarrow> (rstring, rstring \<times> rchar list option) hmap
   \<Rightarrow> (rstring, rstring \<times> rchar list option) hmap" where
  "rekey_entry mapping = (\<lambda>(name, flags) chans.
     (case map_of chans (cm_fold mapping name) of
        Some (own, _) \<Rightarrow> AList.update (cm_fold mapping name) (own, None) chans
      | None \<Rightarrow> AList.update (cm_fold mapping name) (name, flags) chans))"

definition tracked_name ::
  "case_mapping \<Rightarrow> (rstring, rstring \<times> rchar list option) hmap \<Rightarrow> rstring \<Rightarrow> bool" where
  "tracked_name mapping chans name \<longleftrightarrow>
     (case map_of chans (cm_fold mapping name) of Some (own, _) \<Rightarrow> own = name | None \<Rightarrow> False)"

definition chanmodes_set_casemapping :: "case_mapping \<Rightarrow> chan_modes \<Rightarrow> chan_modes" where
  "chanmodes_set_casemapping mapping s =
     (let chans = fold (rekey_entry mapping) (map snd (cm_channels s)) []
      in s\<lparr>cm_channels := chans,
           cm_pending := filter (tracked_name mapping chans) (cm_pending s),
           cm_in_flight := filter (\<lambda>(name, _). tracked_name mapping chans name) (cm_in_flight s)\<rparr>)"

section \<open>The invariant\<close>

definition flags_ok :: "rchar list \<Rightarrow> bool" where
  "flags_ok fl \<longleftrightarrow> distinct fl \<and> length fl \<le> MAX_FLAGS \<and> list_all is_ascii_alphabetic fl"

definition entry_ok :: "case_mapping \<Rightarrow> rstring \<Rightarrow> rstring \<times> rchar list option \<Rightarrow> bool" where
  "entry_ok m k e \<longleftrightarrow> k = cm_fold m (fst e) \<and> (case snd e of None \<Rightarrow> True | Some fl \<Rightarrow> flags_ok fl)"

definition table_ok :: "case_mapping \<Rightarrow> (rstring, rstring \<times> rchar list option) hmap \<Rightarrow> bool" where
  "table_ok m chans \<longleftrightarrow>
     keys_distinct chans \<and> (\<forall>k e. map_of chans k = Some e \<longrightarrow> entry_ok m k e)"

text \<open>The table holds at most 512 channels under their folded names; the queue holds each channel
  at most once and only channels of the table, under the name the table has; at most four queries
  are unanswered.\<close>

definition chanmodes_inv :: "case_mapping \<Rightarrow> chan_modes \<Rightarrow> bool" where
  "chanmodes_inv m s \<longleftrightarrow>
     table_ok m (cm_channels s) \<and> length (cm_channels s) \<le> MODES_MAX_TRACKED
     \<and> list_all (tracked_name m (cm_channels s)) (cm_pending s)
     \<and> distinct (map (cm_fold m) (cm_pending s))
     \<and> length (cm_in_flight s) \<le> MAX_IN_FLIGHT"

datatype chanmodes_op =
    CmIsupport message
  | CmObserve message bool
  | CmJoined rstring
  | CmLeft rstring
  | CmTake instant
  | CmSetMapping case_mapping

text \<open>The worker passes the server's current case mapping to every call.\<close>

fun chanmodes_step :: "chanmodes_op \<Rightarrow> case_mapping \<times> chan_modes \<Rightarrow> case_mapping \<times> chan_modes" where
  "chanmodes_step (CmIsupport msg) (m, s) = (m, chanmodes_isupport msg s)"
| "chanmodes_step (CmObserve msg replayed) (m, s) = (m, fst (chanmodes_observe msg m replayed s))"
| "chanmodes_step (CmJoined channel) (m, s) = (m, fst (chanmodes_joined channel m s))"
| "chanmodes_step (CmLeft channel) (m, s) = (m, chanmodes_left channel m s)"
| "chanmodes_step (CmTake now) (m, s) = (m, fst (take_queries now s))"
| "chanmodes_step (CmSetMapping m') (m, s) = (m', chanmodes_set_casemapping m' s)"

section \<open>Flags\<close>

lemma flags_ok_Nil [simp]: "flags_ok []"
  by (simp add: flags_ok_def)

lemma set_flag_ok: "flags_ok fl \<Longrightarrow> flags_ok (set_flag nf on c fl)"
  by (auto simp: flags_ok_def set_flag_def list_all_iff intro: order_trans [OF length_filter_le])

lemma apply_letters_ok: "flags_ok fl \<Longrightarrow> flags_ok (apply_letters nf on cs fl)"
  by (induction nf on cs fl rule: apply_letters.induct) (auto intro: set_flag_ok)

lemma apply_mode_ok: "flags_ok fl \<Longrightarrow> flags_ok (apply_mode nf md fl)"
  by (auto simp: apply_mode_def set_flag_ok split: mode.splits list.splits)

lemma fold_apply_mode_ok: "flags_ok fl \<Longrightarrow> flags_ok (fold (apply_mode nf) mds fl)"
  by (induction mds arbitrary: fl) (auto intro: apply_mode_ok)

lemma set_flag_not_flags: "set (set_flag nf on c fl) \<inter> nf \<subseteq> set fl"
  by (auto simp: set_flag_def)

lemma apply_letters_not_flags: "set (apply_letters nf on cs fl) \<inter> nf \<subseteq> set fl"
proof (induction nf on cs fl rule: apply_letters.induct)
  case (2 nf on c cs fl)
  then show ?case using set_flag_not_flags [of nf on c fl] by auto
qed simp

section \<open>The table\<close>

lemma table_ok_Nil [simp]: "table_ok m []"
  by (simp add: table_ok_def)

lemma table_ok_update: "table_ok m chans \<Longrightarrow> entry_ok m k e \<Longrightarrow> table_ok m (AList.update k e chans)"
  by (auto simp: table_ok_def)

lemma table_ok_delete: "table_ok m chans \<Longrightarrow> table_ok m (AList.delete k chans)"
  by (auto simp: table_ok_def)

lemma tracked_name_update:
  "tracked_name m (AList.update k (own, fl) chans) p \<longleftrightarrow>
     (if cm_fold m p = k then own = p else tracked_name m chans p)"
  by (simp add: tracked_name_def)

lemma tracked_name_delete:
  "tracked_name m (AList.delete k chans) p \<longleftrightarrow> cm_fold m p \<noteq> k \<and> tracked_name m chans p"
  by (simp add: tracked_name_def)

lemma tracked_name_same_entry:
  "map_of chans k = Some (own, fl) \<Longrightarrow>
     tracked_name m (AList.update k (own, fl') chans) p = tracked_name m chans p"
  by (auto simp: tracked_name_update) (auto simp: tracked_name_def)

lemma tracked_name_inj:
  "tracked_name m chans p \<Longrightarrow> tracked_name m chans q \<Longrightarrow> cm_fold m p = cm_fold m q \<Longrightarrow> p = q"
  by (auto simp: tracked_name_def split: option.splits)

lemma chanmodes_inv_default: "chanmodes_inv m chan_modes_default"
  by (simp add: chanmodes_inv_def chan_modes_default_def)

lemma chanmodes_inv_isupport: "chanmodes_inv m s \<Longrightarrow> chanmodes_inv m (chanmodes_isupport msg s)"
  by (auto simp: chanmodes_isupport_def chanmodes_inv_def split: command.splits prod.splits)

text \<open>Replacing the flags of an entry keeps the invariant.\<close>

lemma chanmodes_inv_flags:
  assumes "chanmodes_inv m s" and "map_of (cm_channels s) k = Some (own, fl)" and "flags_ok fl'"
  shows "chanmodes_inv m (s\<lparr>cm_channels := AList.update k (own, Some fl') (cm_channels s)\<rparr>)"
proof -
  have "k = cm_fold m own"
    using assms(1,2) by (auto simp: chanmodes_inv_def table_ok_def entry_ok_def)
  then have "table_ok m (AList.update k (own, Some fl') (cm_channels s))"
    using assms by (intro table_ok_update) (auto simp: chanmodes_inv_def entry_ok_def)
  moreover have "tracked_name m (AList.update k (own, Some fl') (cm_channels s)) = tracked_name m (cm_channels s)"
    using tracked_name_same_entry [OF assms(2)] by blast
  ultimately show ?thesis
    using assms by (simp add: chanmodes_inv_def length_update)
qed

lemma chanmodes_inv_in_flight:
  "chanmodes_inv m s \<Longrightarrow> chanmodes_inv m (s\<lparr>cm_in_flight := filter P (cm_in_flight s)\<rparr>)"
  by (auto simp: chanmodes_inv_def intro: order_trans [OF length_filter_le])

lemma chanmodes_inv_flags_ok:
  "chanmodes_inv m s \<Longrightarrow> map_of (cm_channels s) k = Some (own, Some fl) \<Longrightarrow> flags_ok fl"
  by (fastforce simp: chanmodes_inv_def table_ok_def entry_ok_def)

lemma chanmodes_inv_observe:
  "chanmodes_inv m s \<Longrightarrow> chanmodes_inv m (fst (chanmodes_observe msg m replayed s))"
  by (auto simp: chanmodes_observe_def Let_def
      intro!: chanmodes_inv_in_flight apply_letters_ok fold_apply_mode_ok
      intro: chanmodes_inv_flags [OF chanmodes_inv_in_flight, simplified] chanmodes_inv_flags
        chanmodes_inv_flags_ok
      split: command.splits option.splits)

lemma distinct_map_filter_key:
  "distinct (map f xs) \<Longrightarrow> distinct (map f (filter (\<lambda>x. f x \<noteq> k) xs)) \<and> k \<notin> f ` set (filter (\<lambda>x. f x \<noteq> k) xs)"
  by (induction xs) auto

lemma chanmodes_inv_joined: "chanmodes_inv m s \<Longrightarrow> chanmodes_inv m (fst (chanmodes_joined channel m s))"
proof -
  assume inv: "chanmodes_inv m s"
  let ?k = "cm_fold m channel"
  let ?chans = "AList.update ?k (channel, None) (cm_channels s)"
  let ?rest = "filter (\<lambda>queued. cm_fold m queued \<noteq> ?k) (cm_pending s)"
  have "table_ok m ?chans"
    using inv by (intro table_ok_update) (auto simp: chanmodes_inv_def entry_ok_def)
  moreover have "list_all (tracked_name m ?chans) (?rest @ [channel])"
    using inv by (auto simp: chanmodes_inv_def list_all_iff tracked_name_update)
  moreover have "distinct (map (cm_fold m) (?rest @ [channel]))"
    using inv distinct_map_filter_key [of "cm_fold m" "cm_pending s" ?k]
    by (simp add: chanmodes_inv_def)
  moreover have "length ?chans \<le> MODES_MAX_TRACKED"
    if "\<not> (map_of (cm_channels s) ?k = None \<and> MODES_MAX_TRACKED \<le> length (cm_channels s))"
    using inv that by (auto simp: chanmodes_inv_def length_update)
  ultimately show ?thesis
    using inv by (simp add: chanmodes_joined_def chanmodes_inv_def Let_def)
qed

lemma chanmodes_inv_left: "chanmodes_inv m s \<Longrightarrow> chanmodes_inv m (chanmodes_left channel m s)"
  using distinct_map_filter_key [of "cm_fold m" "cm_pending s" "cm_fold m channel"]
  by (auto simp: chanmodes_inv_def chanmodes_left_def Let_def table_ok_delete list_all_iff
      tracked_name_delete
      intro: order_trans [OF length_delete_le] order_trans [OF length_filter_le])

lemma chanmodes_inv_take: "chanmodes_inv m s \<Longrightarrow> chanmodes_inv m (fst (take_queries now s))"
proof -
  assume inv: "chanmodes_inv m s"
  let ?live = "filter (\<lambda>(_, until). now < until) (cm_in_flight s)"
  let ?n = "min (MAX_IN_FLIGHT - length ?live) (length (cm_pending s))"
  have "length ?live \<le> MAX_IN_FLIGHT"
    using inv by (auto simp: chanmodes_inv_def intro: order_trans [OF length_filter_le])
  then have "length ?live + length (take ?n (cm_pending s)) \<le> MAX_IN_FLIGHT"
    by simp
  moreover have "list_all (tracked_name m (cm_channels s)) (drop ?n (cm_pending s))"
    using inv by (auto simp: chanmodes_inv_def list_all_iff dest: in_set_dropD)
  moreover have "distinct (map (cm_fold m) (drop ?n (cm_pending s)))"
    using inv by (simp add: chanmodes_inv_def drop_map [symmetric])
  ultimately show ?thesis
    using inv by (simp add: take_queries_def chanmodes_inv_def Let_def)
qed

lemma rekey_fold_ok:
  assumes "\<And>n fl. (n, Some fl) \<in> set es \<Longrightarrow> flags_ok fl" and "table_ok m chans"
  shows "table_ok m (fold (rekey_entry m) es chans)
    \<and> length (fold (rekey_entry m) es chans) \<le> length chans + length es"
  using assms
proof (induction es arbitrary: chans)
  case (Cons e es)
  obtain n fl where e: "e = (n, fl)" by (cases e)
  have fl: "case fl of None \<Rightarrow> True | Some f \<Rightarrow> flags_ok f"
    using Cons.prems(1) e by (auto split: option.splits)
  have "table_ok m (rekey_entry m e chans)"
    using Cons.prems(2) fl
    by (auto simp: rekey_entry_def e entry_ok_def table_ok_def split: option.splits)
  moreover have "length (rekey_entry m e chans) \<le> Suc (length chans)"
    by (auto simp: rekey_entry_def e length_update split: option.splits)
  ultimately show ?case
    using Cons.IH [of "rekey_entry m e chans"] Cons.prems(1) by fastforce
qed simp

lemma chanmodes_inv_set_casemapping:
  assumes "chanmodes_inv m s"
  shows "chanmodes_inv m' (chanmodes_set_casemapping m' s)"
proof -
  let ?chans = "fold (rekey_entry m') (map snd (cm_channels s)) []"
  let ?pend = "filter (tracked_name m' ?chans) (cm_pending s)"
  have "flags_ok fl" if "(n, Some fl) \<in> set (map snd (cm_channels s))" for n fl
    using assms that map_of_in_iff [of "cm_channels s"] chanmodes_inv_flags_ok
    by (fastforce simp: chanmodes_inv_def table_ok_def)
  then have "table_ok m' ?chans" "length ?chans \<le> length (cm_channels s)"
    using rekey_fold_ok [of "map snd (cm_channels s)" m' "[]"] by auto
  moreover have "distinct (map (cm_fold m') ?pend)"
    using assms tracked_name_inj [of m' ?chans]
    by (auto simp: chanmodes_inv_def distinct_map inj_on_def)
  ultimately show ?thesis
    using assms
    by (auto simp: chanmodes_set_casemapping_def chanmodes_inv_def Let_def list_all_iff
        intro: order_trans [OF length_filter_le])
qed

lemma chanmodes_step_inv:
  "case_prod chanmodes_inv ms \<Longrightarrow> case_prod chanmodes_inv (chanmodes_step op ms)"
  by (cases ms; cases op)
     (auto intro: chanmodes_inv_isupport chanmodes_inv_observe chanmodes_inv_joined
       chanmodes_inv_left chanmodes_inv_take chanmodes_inv_set_casemapping)

text \<open>The queue never outgrows the table.\<close>

lemma chanmodes_pending_bound: "chanmodes_inv m s \<Longrightarrow> length (cm_pending s) \<le> length (cm_channels s)"
proof -
  assume inv: "chanmodes_inv m s"
  have "length (cm_pending s) = card (set (map (cm_fold m) (cm_pending s)))"
    using inv by (metis chanmodes_inv_def distinct_card length_map)
  also have "\<dots> \<le> card (dom (map_of (cm_channels s)))"
    using inv by (intro card_mono finite_dom_map_of)
      (auto simp: chanmodes_inv_def list_all_iff tracked_name_def split: option.splits)
  also have "\<dots> = length (cm_channels s)"
    using inv by (auto simp: chanmodes_inv_def table_ok_def length_eq_card_dom)
  finally show ?thesis .
qed

interpretation chan_machine: bounded_machine chanmodes_step "\<lambda>_ _. True"
    "\<lambda>(m, s). m = default_mapping \<and> s = chan_modes_default" "case_prod chanmodes_inv"
    "\<lambda>(m, s). length (cm_pending s)" MODES_MAX_TRACKED
proof unfold_locales
  show "case_prod chanmodes_inv (chanmodes_step op s)" if "case_prod chanmodes_inv s" for s op
    using that by (rule chanmodes_step_inv)
  show "(case s of (m, s) \<Rightarrow> length (cm_pending s)) \<le> MODES_MAX_TRACKED"
    if "case_prod chanmodes_inv s" for s
    using that chanmodes_pending_bound
    by (cases s) (force simp: chanmodes_inv_def)
qed (auto intro: chanmodes_inv_default)

section \<open>Arguments and queries\<close>

text \<open>A mode without its argument.\<close>

definition drop_arg :: "mode \<Rightarrow> mode" where
  "drop_arg md = (case md of Plus n _ \<Rightarrow> Plus n None | Minus n _ \<Rightarrow> Minus n None | NoPrefix n \<Rightarrow> NoPrefix n)"

definition drop_mode_args :: "command \<Rightarrow> command" where
  "drop_mode_args c =
     (case c of
        ChannelMODE channel modes \<Rightarrow> ChannelMODE channel (map drop_arg modes)
      | Response code args \<Rightarrow> Response code (if code = RPL_CHANNELMODEIS then take 3 args else args)
      | _ \<Rightarrow> c)"

lemma fold_apply_drop_arg:
  "fold (apply_mode nf) (map drop_arg mds) fl = fold (apply_mode nf) mds fl"
proof -
  have "apply_mode nf (drop_arg md) = apply_mode nf md" for md
    by (auto simp: apply_mode_def drop_arg_def fun_eq_iff split: mode.splits)
  then show ?thesis by (induction mds arbitrary: fl) auto
qed

section \<open>Properties\<close>

text \<open>Whatever the server sends and whenever channels are joined, left or refolded, at most 512
  channels are tracked, the queue of queries never outgrows them, at most four queries are
  unanswered, and the flags of a channel are distinct letters.\<close>
theorem chanmodes_bounded:
  assumes "fold chanmodes_step ops (default_mapping, chan_modes_default) = (m, s)"
  shows "length (cm_channels s) \<le> 512 \<and> length (cm_pending s) \<le> length (cm_channels s)
    \<and> length (cm_in_flight s) \<le> 4
    \<and> (\<forall>channel fl. chanmodes_flags channel m s = Some fl \<longrightarrow> distinct fl \<and> list_all is_ascii_alphabetic fl)"
proof -
  have "case_prod chanmodes_inv (fold chanmodes_step ops (default_mapping, chan_modes_default))"
    by (rule chan_machine.run_init_inv) (simp_all add: chan_machine.run_ok_total)
  then have inv: "chanmodes_inv m s" using assms by simp
  then have "distinct fl \<and> list_all is_ascii_alphabetic fl"
    if "chanmodes_flags channel m s = Some fl" for channel fl
    using that chanmodes_inv_flags_ok [OF inv]
    by (auto simp: chanmodes_flags_def flags_ok_def split: option.splits)
  then show ?thesis
    using inv chanmodes_pending_bound [OF inv]
    by (auto simp: chanmodes_inv_def MODES_MAX_TRACKED_def MAX_IN_FLIGHT_def)
qed

theorem chanmodes_bounded_witness:
  "length (cm_channels (snd (fold chanmodes_step [CmJoined (lit ''#a''), CmTake 0] (default_mapping, chan_modes_default)))) \<le> 512"
  using chanmodes_bounded [of "[CmJoined (lit ''#a''), CmTake 0]", OF prod.collapse [symmetric]] by blast

text \<open>Mode arguments never reach what is kept or shown: the state and the reported flags are
  those of the line without its arguments (a key, a limit, a ban mask, a nickname).\<close>
theorem chanmodes_ignore_arguments:
  "chanmodes_observe (msg\<lparr>m_command := drop_mode_args (m_command msg)\<rparr>) mapping replayed s
     = chanmodes_observe msg mapping replayed s"
proof (cases "m_command msg")
  case (Response code args)
  then show ?thesis
    by (auto simp: chanmodes_observe_def drop_mode_args_def Let_def min_def split: option.splits)
qed (auto simp: chanmodes_observe_def drop_mode_args_def Let_def fold_apply_drop_arg split: option.splits)

text \<open>C22. A waiting query always goes out: with a free place at once, otherwise when the deadline
  the component announces has passed, whatever else the server sends; and the queries go out in
  the order the channels were joined.\<close>
theorem take_queries_progress:
  assumes "cm_pending s \<noteq> []" and "length (cm_in_flight s) \<le> MAX_IN_FLIGHT"
    and "length (cm_in_flight s) < MAX_IN_FLIGHT \<or> (\<exists>t. chanmodes_next_deadline s = Some t \<and> t \<le> now)"
  shows "snd (take_queries now s) \<noteq> []
    \<and> snd (take_queries now s) @ cm_pending (fst (take_queries now s)) = cm_pending s"
proof -
  let ?P = "\<lambda>(_ :: rstring, until). now < until"
  let ?live = "filter ?P (cm_in_flight s)"
  have "length ?live < MAX_IN_FLIGHT"
  proof (cases "length (cm_in_flight s) < MAX_IN_FLIGHT")
    case True
    then show ?thesis by (rule le_less_trans [OF length_filter_le])
  next
    case False
    then obtain t where t: "chanmodes_next_deadline s = Some t" "t \<le> now"
      using assms(3) by blast
    then have "t \<in> snd ` set (cm_in_flight s)"
      by (auto simp: chanmodes_next_deadline_def min_instant_iff split: if_splits)
    then obtain name where "(name, t) \<in> set (cm_in_flight s)" by auto
    then have "length ?live < length (cm_in_flight s)"
      using t(2) by (intro length_filter_less) auto
    then show ?thesis using assms(2) by simp
  qed
  then show ?thesis
    using assms(1) by (auto simp: take_queries_def Let_def)
qed

theorem take_queries_progress_witness:
  "snd (take_queries 10000 (chan_modes_default\<lparr>cm_pending := [lit ''#e''],
     cm_in_flight := [(lit ''#a'', 10000), (lit ''#b'', 12000), (lit ''#c'', 12000), (lit ''#d'', 12000)]\<rparr>)) \<noteq> []"
  by (rule take_queries_progress [THEN conjunct1])
     (simp_all add: chanmodes_next_deadline_def min_instant_def MAX_IN_FLIGHT_def)

end
