(* ===== verification/Echo.thy ===== *)
theory Echo
  imports Tags Text Contracts "HOL-Library.Multiset"
begin

text \<open>
  \<open>crates/irc-core/src/echo.rs\<close>: server-confirmed sending. A message about to be sent is tracked,
  with a label when \<open>labeled-response\<close> is on, until the server's echo, acknowledgement or error
  settles it, until it is withdrawn or until it expires. Instants are milliseconds and an argument
  of the operations that read the clock; the counter of labels keeps its 64 bits.
\<close>

section \<open>State\<close>

definition MAX_PENDING :: nat where "MAX_PENDING = 32"
definition PENDING_TTL :: nat where "PENDING_TTL = 60000"
definition MAX_BATCHES :: nat where "MAX_BATCHES = 16"

type_synonym local_id = "64 word"

record pending =
  p_local_id :: local_id
  p_label :: "rstring option"
  p_target :: rstring
  p_notice :: bool
  p_text :: rstring
  p_keep_text :: bool
  p_sent :: nat

record echoes =
  ec_pending :: "pending list"
  ec_next_label :: "64 word"
  ec_batches :: "(rstring \<times> rstring) list"

definition echoes_default :: echoes where
  "echoes_default = \<lparr>ec_pending = [], ec_next_label = 0, ec_batches = []\<rparr>"

text \<open>The two events of \<open>crates/irc-core/src/lib.rs\<close> this component reports.\<close>

datatype sent_event =
    OutgoingConfirmed (event_id: local_id) (event_text: "rstring option")
      (event_action: "rstring option") (event_msgid: "rstring option")
      (event_server_time: "system_time option")
  | OutgoingFailed (event_id: local_id) (event_reason: rstring)

section \<open>Labels\<close>

definition from_digit36 :: "nat \<Rightarrow> rchar" where
  "from_digit36 d = (if d < 10 then 0x30 + d else 0x61 + (d - 10))"

fun label_digits :: "nat \<Rightarrow> rstring" where
  "label_digits n =
     from_digit36 (n mod 36) # (if n div 36 = 0 then [] else label_digits (n div 36))"

declare label_digits.simps [simp del]

definition label_for :: "64 word \<Rightarrow> rstring" where
  "label_for counter = rev (label_digits (unat counter) @ [0x63])"

section \<open>Operations\<close>

text \<open>\<open>None\<close>: not tracked; \<open>Some label\<close>: tracked, with the label to send.\<close>

definition echoes_track ::
  "local_id \<Rightarrow> rstring \<Rightarrow> bool \<Rightarrow> rstring \<Rightarrow> bool \<Rightarrow> bool \<Rightarrow> nat \<Rightarrow> echoes
   \<Rightarrow> echoes \<times> rstring option option" where
  "echoes_track i target notice text keep_text labeled now s =
     (if MAX_PENDING \<le> length (ec_pending s) then (s, None)
      else
        (let next = (if labeled then ec_next_label s + 1 else ec_next_label s);
             label = (if labeled then Some (label_for next) else None)
         in (s\<lparr>ec_next_label := next,
               ec_pending := ec_pending s @
                 [\<lparr>p_local_id = i, p_label = label, p_target = target, p_notice = notice,
                   p_text = text, p_keep_text = keep_text, p_sent = now\<rparr>]\<rparr>,
             Some label)))"

definition echoes_untrack :: "local_id \<Rightarrow> echoes \<Rightarrow> echoes" where
  "echoes_untrack i s = s\<lparr>ec_pending := filter (\<lambda>p. p_local_id p \<noteq> i) (ec_pending s)\<rparr>"

definition echoes_outstanding :: "echoes \<Rightarrow> local_id list" where
  "echoes_outstanding s = map p_local_id (ec_pending s)"

definition echoes_next_deadline :: "echoes \<Rightarrow> nat option" where
  "echoes_next_deadline s =
     (case ec_pending s of [] \<Rightarrow> None | p # _ \<Rightarrow> Some (p_sent p + PENDING_TTL))"

definition expired_reason :: rstring where
  "expired_reason = lit ''The server did not confirm the message.''"

text \<open>The \<open>while\<close> loop of \<open>expire\<close>: \<open>duration_since\<close> is zero for an earlier instant.\<close>

fun expire_loop :: "nat \<Rightarrow> pending list \<Rightarrow> pending list \<times> sent_event list" where
  "expire_loop now [] = ([], [])"
| "expire_loop now (p # ps) =
     (if PENDING_TTL \<le> now - p_sent p
      then (let (rest, events) = expire_loop now ps
            in (rest, OutgoingFailed (p_local_id p) expired_reason # events))
      else (p # ps, []))"

definition echoes_expire :: "nat \<Rightarrow> echoes \<Rightarrow> echoes \<times> sent_event list" where
  "echoes_expire now s =
     (let (rest, events) = expire_loop now (ec_pending s) in (s\<lparr>ec_pending := rest\<rparr>, events))"

definition withdrawn_reason :: rstring where
  "withdrawn_reason = lit ''The server stopped confirming messages.''"

definition echoes_reset :: "echoes \<Rightarrow> echoes \<times> sent_event list" where
  "echoes_reset s =
     (s\<lparr>ec_batches := [], ec_pending := []\<rparr>,
      map (\<lambda>p. OutgoingFailed (p_local_id p) withdrawn_reason) (ec_pending s))"

text \<open>\<open>position\<close> and \<open>remove\<close>: the first element that satisfies a test, and the others.\<close>

fun remove_first :: "('a \<Rightarrow> bool) \<Rightarrow> 'a list \<Rightarrow> ('a \<times> 'a list) option" where
  "remove_first P [] = None"
| "remove_first P (x # xs) =
     (if P x then Some (x, xs)
      else map_option (\<lambda>(y, ys). (y, x # ys)) (remove_first P xs))"

definition take_labeled :: "rstring \<Rightarrow> echoes \<Rightarrow> (pending \<times> echoes) option" where
  "take_labeled label s =
     map_option (\<lambda>(p, rest). (p, s\<lparr>ec_pending := rest\<rparr>))
       (remove_first (\<lambda>p. p_label p = Some label) (ec_pending s))"

definition echo_content :: "pending \<Rightarrow> message \<Rightarrow> rstring \<Rightarrow> sent_event" where
  "echo_content p m text =
     OutgoingConfirmed (p_local_id p)
       (if text \<noteq> p_text p \<and> \<not> p_keep_text p then Some text else None)
       (action_text text) (msgid m) (server_time m True)"

definition confirmed :: "pending \<Rightarrow> message option \<Rightarrow> sent_event" where
  "confirmed p message =
     (case message of
        None \<Rightarrow> OutgoingConfirmed (p_local_id p) None None None None
      | Some m \<Rightarrow>
          (case m_command m of
             PRIVMSG _ text \<Rightarrow> echo_content p m text
           | NOTICE _ text \<Rightarrow> echo_content p m text
           | _ \<Rightarrow> OutgoingConfirmed (p_local_id p) None None None None))"

definition is_error :: "nat \<Rightarrow> bool" where
  "is_error response \<longleftrightarrow> 400 \<le> response \<and> response < 600"

definition from_us :: "message \<Rightarrow> rstring \<Rightarrow> bool" where
  "from_us m current_nick \<longleftrightarrow>
     (case source_nickname m of Some nick \<Rightarrow> same_nickname nick current_nick | None \<Rightarrow> False)"

text \<open>The framing of a labeled batch.\<close>

definition observe_batch :: "message \<Rightarrow> rstring \<Rightarrow> echoes \<Rightarrow> echoes \<times> sent_event list option" where
  "observe_batch m reference s =
     (case strip_prefix [0x2B] reference of
        Some opened \<Rightarrow>
          (case tag_value m (lit ''label'') of
             None \<Rightarrow> (s, None)
           | Some label \<Rightarrow>
               (if list_ex (\<lambda>p. p_label p = Some label) (ec_pending s) \<and> followed_batch opened
                then
                  (let kept = (if MAX_BATCHES \<le> length (ec_batches s) then drop 1 (ec_batches s)
                               else ec_batches s)
                   in (s\<lparr>ec_batches := filter (\<lambda>(r, _). r \<noteq> opened) kept @ [(opened, label)]\<rparr>,
                       Some []))
                else (s, None)))
      | None \<Rightarrow>
          (case strip_prefix [0x2D] reference of
             None \<Rightarrow> (s, None)
           | Some closed \<Rightarrow>
               (case remove_first (\<lambda>(r, _). r = closed) (ec_batches s) of
                  None \<Rightarrow> (s, None)
                | Some (_, rest) \<Rightarrow> (s\<lparr>ec_batches := rest\<rparr>, Some []))))"

text \<open>The label naming a line: its own tag, or the one of its batch.\<close>

definition line_label :: "message \<Rightarrow> echoes \<Rightarrow> rstring option" where
  "line_label m s =
     (case tag_value m (lit ''label'') of
        Some label \<Rightarrow> Some label
      | None \<Rightarrow>
          Option.bind (tag_value m (lit ''batch''))
            (\<lambda>reference. map_option snd (List.find (\<lambda>(r, _). r = reference) (ec_batches s))))"

definition settle_labeled ::
  "rstring \<Rightarrow> (pending \<Rightarrow> sent_event) \<Rightarrow> echoes \<Rightarrow> echoes \<times> sent_event list option" where
  "settle_labeled label event s =
     (case take_labeled label s of
        None \<Rightarrow> (s, None)
      | Some (p, s') \<Rightarrow> (s', Some [event p]))"

definition last_or_empty :: "rstring list \<Rightarrow> rstring" where
  "last_or_empty args = (if args = [] then [] else last args)"

definition observe_labeled ::
  "message \<Rightarrow> rstring \<Rightarrow> rstring \<Rightarrow> echoes \<Rightarrow> echoes \<times> sent_event list option" where
  "observe_labeled m current_nick label s =
     (case m_command m of
        PRIVMSG _ _ \<Rightarrow>
          (if from_us m current_nick then settle_labeled label (\<lambda>p. confirmed p (Some m)) s
           else (s, None))
      | NOTICE _ _ \<Rightarrow>
          (if from_us m current_nick then settle_labeled label (\<lambda>p. confirmed p (Some m)) s
           else (s, None))
      | Raw verb args \<Rightarrow>
          (if eq_ignore_ascii_case verb (lit ''ACK'')
           then settle_labeled label (\<lambda>p. confirmed p None) s
           else if eq_ignore_ascii_case verb (lit ''FAIL'')
           then settle_labeled label (\<lambda>p. OutgoingFailed (p_local_id p) (last_or_empty args)) s
           else (s, None))
      | Response response args \<Rightarrow>
          (if is_error response
           then settle_labeled label (\<lambda>p. OutgoingFailed (p_local_id p) (last_or_empty args)) s
           else (s, None))
      | _ \<Rightarrow> (s, None))"

definition unlabeled_match :: "bool \<Rightarrow> bool \<Rightarrow> rstring \<Rightarrow> rstring \<Rightarrow> pending \<Rightarrow> bool" where
  "unlabeled_match labeled notice target text p \<longleftrightarrow>
     (p_label p = None \<or> \<not> labeled) \<and> p_notice p = notice
     \<and> same_nickname (p_target p) target \<and> p_text p = text"

definition observe_unlabeled ::
  "message \<Rightarrow> rstring \<Rightarrow> bool \<Rightarrow> bool \<Rightarrow> rstring \<Rightarrow> rstring \<Rightarrow> echoes
   \<Rightarrow> echoes \<times> sent_event list option" where
  "observe_unlabeled m current_nick labeled notice target text s =
     (if from_us m current_nick
      then (case remove_first (unlabeled_match labeled notice target text) (ec_pending s) of
              None \<Rightarrow> (s, None)
            | Some (p, rest) \<Rightarrow> (s\<lparr>ec_pending := rest\<rparr>, Some [confirmed p (Some m)]))
      else (s, None))"

definition echoes_observe ::
  "message \<Rightarrow> rstring \<Rightarrow> bool \<Rightarrow> echoes \<Rightarrow> echoes \<times> sent_event list option" where
  "echoes_observe m current_nick labeled s =
     (case m_command m of
        BATCH reference _ _ \<Rightarrow> observe_batch m reference s
      | command \<Rightarrow>
          (case line_label m s of
             Some label \<Rightarrow> observe_labeled m current_nick label s
           | None \<Rightarrow>
               (case command of
                  PRIVMSG target text \<Rightarrow>
                    observe_unlabeled m current_nick labeled False target text s
                | NOTICE target text \<Rightarrow>
                    observe_unlabeled m current_nick labeled True target text s
                | _ \<Rightarrow> (s, None))))"

definition with_label :: "message \<Rightarrow> rstring option \<Rightarrow> message" where
  "with_label m label =
     (case label of
        None \<Rightarrow> m
      | Some l \<Rightarrow> m\<lparr>m_tags := Some [Tag (lit ''label'') (Some l)]\<rparr>)"

section \<open>The machine\<close>

datatype echoes_op =
    EcTrack local_id rstring bool rstring bool bool nat
  | EcUntrack local_id
  | EcExpire nat
  | EcReset
  | EcObserve message rstring bool

text \<open>One call: the state after it and the events reported.\<close>

fun echoes_call :: "echoes_op \<Rightarrow> echoes \<Rightarrow> echoes \<times> sent_event list" where
  "echoes_call (EcTrack i target notice text keep labeled now) s =
     (fst (echoes_track i target notice text keep labeled now s), [])"
| "echoes_call (EcUntrack i) s = (echoes_untrack i s, [])"
| "echoes_call (EcExpire now) s = echoes_expire now s"
| "echoes_call EcReset s = echoes_reset s"
| "echoes_call (EcObserve m nick labeled) s =
     (let (s', events) = echoes_observe m nick labeled s
      in (s', case events of None \<Rightarrow> [] | Some es \<Rightarrow> es))"

definition echoes_step :: "echoes_op \<Rightarrow> echoes \<Rightarrow> echoes" where
  "echoes_step op s = fst (echoes_call op s)"

text \<open>What a caller guarantees: the clock does not go back, and the counter of labels has a next
  value.\<close>

fun echoes_ok :: "echoes \<Rightarrow> echoes_op \<Rightarrow> bool" where
  "echoes_ok s (EcTrack i target notice text keep labeled now) \<longleftrightarrow>
     list_all (\<lambda>p. p_sent p \<le> now) (ec_pending s) \<and> (labeled \<longrightarrow> ec_next_label s + 1 \<noteq> 0)"
| "echoes_ok s _ \<longleftrightarrow> True"

definition label_used :: "echoes \<Rightarrow> rstring \<Rightarrow> bool" where
  "label_used s l \<longleftrightarrow> (\<exists>k \<le> ec_next_label s. l = label_for k)"

definition pending_labels :: "pending list \<Rightarrow> rstring list" where
  "pending_labels ps = List.map_filter p_label ps"

text \<open>At most 32 messages wait, oldest first, under pairwise different labels handed out before; at
  most 16 batches are open, under pairwise different references.\<close>

definition echoes_inv :: "echoes \<Rightarrow> bool" where
  "echoes_inv s \<longleftrightarrow>
     length (ec_pending s) \<le> MAX_PENDING \<and> sorted (map p_sent (ec_pending s))
     \<and> distinct (pending_labels (ec_pending s))
     \<and> list_all (label_used s) (pending_labels (ec_pending s))
     \<and> length (ec_batches s) \<le> MAX_BATCHES \<and> distinct (map fst (ec_batches s))"

section \<open>Lemmas on labels\<close>

lemma from_digit36_inj: "a < 36 \<Longrightarrow> b < 36 \<Longrightarrow> from_digit36 a = from_digit36 b \<Longrightarrow> a = b"
  by (auto simp: from_digit36_def split: if_splits)

lemma label_digits_inj: "label_digits a = label_digits b \<Longrightarrow> a = b"
proof (induction a arbitrary: b rule: label_digits.induct)
  case (1 a)
  have unfold: "label_digits n = from_digit36 (n mod 36) # (if n div 36 = 0 then [] else label_digits (n div 36))" for n
    by (rule label_digits.simps)
  have m: "a mod 36 = b mod 36"
    using 1(2) from_digit36_inj [of "a mod 36" "b mod 36"] by (simp add: unfold [of a] unfold [of b])
  have tails: "(if a div 36 = 0 then [] else label_digits (a div 36))
      = (if b div 36 = 0 then [] else label_digits (b div 36))"
    using 1(2) by (simp add: unfold [of a] unfold [of b])
  have ne: "label_digits n \<noteq> []" for n by (simp add: unfold [of n])
  have "a div 36 = b div 36"
  proof (cases "a div 36 = 0")
    case True
    with tails ne show ?thesis by (metis)
  next
    case False
    with tails ne [of "a div 36"] have "label_digits (a div 36) = label_digits (b div 36)"
      by (metis)
    with 1(1) False show ?thesis by blast
  qed
  with m show ?case by (metis div_mult_mod_eq)
qed

lemma label_for_inj: "label_for a = label_for b \<longleftrightarrow> a = b"
  using label_digits_inj [of "unat a" "unat b"] by (auto simp: label_for_def word_unat_eq_iff)

lemma length_label_digits: "0 < k \<Longrightarrow> n < 36 ^ k \<Longrightarrow> length (label_digits n) \<le> k"
proof (induction k arbitrary: n)
  case (Suc k)
  show ?case
  proof (cases "n div 36 = 0")
    case True
    then show ?thesis by (subst label_digits.simps) simp
  next
    case False
    then have "0 < k" using Suc.prems by (cases k) auto
    moreover have "n div 36 < 36 ^ k" using Suc.prems by (simp add: less_mult_imp_div_less mult.commute)
    ultimately have "length (label_digits (n div 36)) \<le> k" by (rule Suc.IH)
    then show ?thesis by (subst label_digits.simps) simp
  qed
qed simp

lemma label_digits_ascii: "c \<in> set (label_digits n) \<Longrightarrow> is_ascii_digit c \<or> is_ascii_lower c"
proof (induction n rule: label_digits.induct)
  case (1 n)
  have "n mod 36 < 36" by simp
  then show ?case
    using 1 by (subst (asm) label_digits.simps)
      (auto simp: from_digit36_def is_ascii_digit_def is_ascii_lower_def split: if_splits)
qed


lemma label_for_bytes: "blen (label_for k) \<le> 64"
proof -
  have "utf8_len c = 1" if "c \<in> set (label_for k)" for c
    using that label_digits_ascii [of c "unat k"]
    by (auto simp: label_for_def utf8_len_def is_ascii_digit_def is_ascii_lower_def)
  then have "blen (label_for k) = (\<Sum>c\<leftarrow>label_for k. 1)"
    unfolding blen_def by (intro arg_cong [where f = sum_list] map_cong) auto
  then have "blen (label_for k) = Suc (length (label_digits (unat k)))"
    by (simp add: sum_list_triv label_for_def)
  moreover have "length (label_digits (unat k)) \<le> 13"
    using unsigned_less [of k, where ?'a = nat] by (intro length_label_digits) auto
  ultimately show ?thesis by simp
qed

section \<open>Lemmas on removal\<close>

lemma remove_first_Some:
  "remove_first P xs = Some (x, ys) \<Longrightarrow>
     \<exists>us vs. xs = us @ x # vs \<and> ys = us @ vs \<and> P x \<and> list_all (\<lambda>u. \<not> P u) us"
proof (induction xs arbitrary: ys)
  case (Cons z zs)
  show ?case
  proof (cases "P z")
    case True
    with Cons.prems show ?thesis by (intro exI [of _ "[]"] exI [of _ ys]) auto
  next
    case False
    with Cons.prems obtain ws where ws: "remove_first P zs = Some (x, ws)" "ys = z # ws" by auto
    from Cons.IH [OF ws(1)] obtain us vs where
      "zs = us @ x # vs \<and> ws = us @ vs \<and> P x \<and> list_all (\<lambda>u. \<not> P u) us" by blast
    with ws(2) False show ?thesis by (intro exI [of _ "z # us"] exI [of _ vs]) auto
  qed
qed simp

lemma remove_first_None [simp]: "remove_first P xs = None \<longleftrightarrow> \<not> list_ex P xs"
  by (induction xs) auto

lemma remove_first_mset:
  "remove_first P xs = Some (x, ys) \<Longrightarrow> mset xs = add_mset x (mset ys) \<and> P x"
  by (auto dest!: remove_first_Some)

lemma remove_first_set: "remove_first P xs = Some (x, ys) \<Longrightarrow> set ys \<subseteq> set xs"
  by (auto dest!: remove_first_Some)

lemma pending_labels_simps [simp]:
  "pending_labels [] = []"
  "pending_labels (ps @ qs) = pending_labels ps @ pending_labels qs"
  "pending_labels (p # qs) = (case p_label p of None \<Rightarrow> [] | Some l \<Rightarrow> [l]) @ pending_labels qs"
  by (auto simp: pending_labels_def map_filter_def split: option.splits)

lemma set_pending_labels: "l \<in> set (pending_labels ps) \<longleftrightarrow> (\<exists>p \<in> set ps. p_label p = Some l)"
  by (auto simp: pending_labels_def map_filter_def image_iff)

text \<open>What a settled message leaves behind.\<close>

definition pending_ok :: "echoes \<Rightarrow> pending list \<Rightarrow> bool" where
  "pending_ok s ps \<longleftrightarrow>
     length ps \<le> MAX_PENDING \<and> sorted (map p_sent ps) \<and> distinct (pending_labels ps)
     \<and> list_all (label_used s) (pending_labels ps)"

lemma echoes_inv_split:
  "echoes_inv s \<longleftrightarrow> pending_ok s (ec_pending s)
     \<and> length (ec_batches s) \<le> MAX_BATCHES \<and> distinct (map fst (ec_batches s))"
  by (auto simp: echoes_inv_def pending_ok_def)

lemma label_used_pending [simp]: "label_used (s\<lparr>ec_pending := ps\<rparr>) = label_used s"
  by (simp add: label_used_def fun_eq_iff)

lemma label_used_batches [simp]: "label_used (s\<lparr>ec_batches := bs\<rparr>) = label_used s"
  by (simp add: label_used_def fun_eq_iff)

lemma pending_ok_update [simp]:
  "pending_ok (s\<lparr>ec_pending := ps\<rparr>) = pending_ok s"
  "pending_ok (s\<lparr>ec_batches := bs\<rparr>) = pending_ok s"
  by (simp_all add: pending_ok_def fun_eq_iff)

lemma pending_ok_sub: "pending_ok s (us @ x # vs) \<Longrightarrow> pending_ok s (us @ vs)"
  by (auto simp: pending_ok_def sorted_append split: option.splits)

lemma pending_ok_drop: "pending_ok s (us @ vs) \<Longrightarrow> pending_ok s vs"
  by (auto simp: pending_ok_def sorted_append)

lemma pending_ok_filter: "pending_ok s ps \<Longrightarrow> pending_ok s (filter P ps)"
proof -
  assume ok: "pending_ok s ps"
  have "distinct (pending_labels ps) \<Longrightarrow> distinct (pending_labels (filter P ps))"
    by (induction ps) (auto split: option.splits simp: set_pending_labels)
  moreover have "set (pending_labels (filter P ps)) \<subseteq> set (pending_labels ps)"
    by (auto simp: set_pending_labels)
  ultimately show ?thesis
    using ok by (auto simp: pending_ok_def list_all_iff sorted_wrt_filter sorted_map
        intro: order_trans [OF length_filter_le])
qed

lemma pending_ok_remove_first:
  "pending_ok s ps \<Longrightarrow> remove_first P ps = Some (x, ys) \<Longrightarrow> pending_ok s ys"
  by (auto dest!: remove_first_Some intro: pending_ok_sub)

lemma expire_loop_split:
  "expire_loop now ps = (rest, events) \<Longrightarrow>
     \<exists>us. ps = us @ rest \<and> list_all (\<lambda>p. PENDING_TTL \<le> now - p_sent p) us
       \<and> events = map (\<lambda>p. OutgoingFailed (p_local_id p) expired_reason) us
       \<and> (case rest of [] \<Rightarrow> True | p # _ \<Rightarrow> now - p_sent p < PENDING_TTL)"
proof (induction ps arbitrary: rest events)
  case (Cons p ps)
  show ?case
  proof (cases "PENDING_TTL \<le> now - p_sent p")
    case True
    obtain r es where l: "expire_loop now ps = (r, es)" by fastforce
    from Cons.IH [OF l] obtain us where
      "ps = us @ r \<and> list_all (\<lambda>p. PENDING_TTL \<le> now - p_sent p) us
       \<and> es = map (\<lambda>p. OutgoingFailed (p_local_id p) expired_reason) us
       \<and> (case r of [] \<Rightarrow> True | p # _ \<Rightarrow> now - p_sent p < PENDING_TTL)" by blast
    with Cons.prems True l show ?thesis by (intro exI [of _ "p # us"]) auto
  next
    case False
    with Cons.prems show ?thesis by (intro exI [of _ "[]"]) auto
  qed
qed simp


section \<open>Preservation\<close>

lemma next_label_fresh:
  fixes n k :: "64 word"
  assumes "n + 1 \<noteq> 0" and "k \<le> n"
  shows "k \<le> n + 1 \<and> k \<noteq> n + 1"
proof -
  have "unat (n + 1) = Suc (unat n)"
    using assms(1) unatSuc [of n] by (simp add: add.commute)
  then show ?thesis
    using assms(2) by (auto simp: word_le_nat_alt word_unat_eq_iff)
qed

lemma echoes_inv_default: "echoes_inv echoes_default"
  by (simp add: echoes_inv_def echoes_default_def)

lemma echoes_inv_track:
  assumes "echoes_inv s" and "echoes_ok s (EcTrack i target notice text keep labeled now)"
  shows "echoes_inv (fst (echoes_track i target notice text keep labeled now s))"
proof (cases "labeled \<and> length (ec_pending s) < MAX_PENDING")
  case True
  then have nz: "ec_next_label s + 1 \<noteq> 0" using assms(2) by simp
  have fresh: "label_for (ec_next_label s + 1) \<notin> set (pending_labels (ec_pending s))"
  proof
    assume "label_for (ec_next_label s + 1) \<in> set (pending_labels (ec_pending s))"
    then obtain k where "k \<le> ec_next_label s" "label_for (ec_next_label s + 1) = label_for k"
      using assms(1) by (auto simp: echoes_inv_def list_all_iff label_used_def)
    then show False
      using next_label_fresh [OF nz, of k] by (simp add: label_for_inj)
  qed
  have used: "\<exists>k \<le> ec_next_label s. l = label_for k \<Longrightarrow> \<exists>k \<le> ec_next_label s + 1. l = label_for k" for l
    using next_label_fresh [OF nz] by auto
  show ?thesis
    using assms True fresh used
    by (auto simp: echoes_inv_def echoes_track_def Let_def sorted_append list_all_iff label_used_def)
next
  case False
  then show ?thesis
    using assms
    by (auto simp: echoes_inv_def echoes_track_def Let_def sorted_append list_all_iff label_used_def)
qed

lemma echoes_inv_expire: "echoes_inv s \<Longrightarrow> echoes_inv (fst (echoes_expire now s))"
  by (auto simp: echoes_inv_split echoes_expire_def Let_def split: prod.splits
      dest!: expire_loop_split intro: pending_ok_drop)

text \<open>Every outcome of \<open>observe\<close>: nothing, the framing of a batch, or one settled message.\<close>

inductive observed :: "echoes \<Rightarrow> echoes \<times> sent_event list option \<Rightarrow> bool" where
  not_ours: "observed s (s, None)"
| framing: "length bs \<le> max MAX_BATCHES (length (ec_batches s)) \<Longrightarrow>
    (distinct (map fst (ec_batches s)) \<Longrightarrow> distinct (map fst bs)) \<Longrightarrow>
    observed s (s\<lparr>ec_batches := bs\<rparr>, Some [])"
| settled: "remove_first P (ec_pending s) = Some (p, rest) \<Longrightarrow> event_id e = p_local_id p \<Longrightarrow>
    observed s (s\<lparr>ec_pending := rest\<rparr>, Some [e])"

lemma event_id_confirmed [simp]: "event_id (confirmed p m) = p_local_id p"
  by (auto simp: confirmed_def echo_content_def split: option.splits command.splits)

lemma distinct_map_fst_filter: "distinct (map fst xs) \<Longrightarrow> distinct (map fst (filter P xs))"
  by (metis distinct_map_filter)

lemma observed_batch: "observed s (observe_batch m reference s)"
proof -
  have opened: "observed s (s\<lparr>ec_batches := filter (\<lambda>(r, _). r \<noteq> opened) kept @ [(opened, label)]\<rparr>, Some [])"
    if "kept = (if MAX_BATCHES \<le> length (ec_batches s) then drop 1 (ec_batches s) else ec_batches s)"
    for kept opened label
  proof (rule observed.framing)
    have "length (filter (\<lambda>(r, _). r \<noteq> opened) kept @ [(opened, label)]) \<le> Suc (length kept)"
      by simp
    also have "\<dots> \<le> max MAX_BATCHES (length (ec_batches s))"
      using that by (auto simp: MAX_BATCHES_def)
    finally show "length (filter (\<lambda>(r, _). r \<noteq> opened) kept @ [(opened, label)])
        \<le> max MAX_BATCHES (length (ec_batches s))" .
    assume "distinct (map fst (ec_batches s))"
    with that have "distinct (map fst kept)"
      by (auto simp: drop_map [symmetric] split: if_splits)
    then show "distinct (map fst (filter (\<lambda>(r, _). r \<noteq> opened) kept @ [(opened, label)]))"
      by (auto simp: distinct_map_fst_filter)
  qed
  have closed: "observed s (s\<lparr>ec_batches := rest\<rparr>, Some [])"
    if "remove_first P (ec_batches s) = Some (b, rest)" for P b rest
    using remove_first_Some [OF that] by (intro observed.framing) auto
  show ?thesis
    by (auto simp: observe_batch_def Let_def split: option.splits prod.splits
        intro: observed.not_ours closed opened opened [simplified])
qed

lemma observed_settle:
  "(\<And>p. event_id (event p) = p_local_id p) \<Longrightarrow> observed s (settle_labeled label event s)"
  by (auto simp: settle_labeled_def take_labeled_def split: option.splits prod.splits
      intro: observed.intros)

lemma observed_observe: "observed s (echoes_observe m nick labeled s)"
proof -
  have "observed s (observe_labeled m nick label s)" for label
    by (auto simp: observe_labeled_def split: command.splits
        intro!: observed.not_ours observed_settle)
  moreover have "observed s (observe_unlabeled m nick labeled notice target body s)"
    for notice target body
    by (auto simp: observe_unlabeled_def split: option.splits
        intro!: observed.not_ours observed.settled)
  ultimately show ?thesis
    by (auto simp: echoes_observe_def split: command.splits option.splits
        intro: observed.not_ours observed_batch)
qed

lemma observed_inv: "observed s r \<Longrightarrow> echoes_inv s \<Longrightarrow> echoes_inv (fst r)"
  by (induction rule: observed.induct)
     (auto simp: echoes_inv_split intro: pending_ok_remove_first)

interpretation echo_machine: bounded_machine echoes_step echoes_ok
  "\<lambda>s. s = echoes_default" echoes_inv "\<lambda>s. length (ec_pending s)" MAX_PENDING
proof unfold_locales
  fix s op
  assume inv: "echoes_inv s" and ok: "echoes_ok s op"
  show "echoes_inv (echoes_step op s)"
  proof (cases op)
    case (EcObserve m nick labeled)
    then show ?thesis
      using observed_inv [OF observed_observe inv] by (auto simp: echoes_step_def split: prod.splits)
        (metis fst_conv)
  next
    case EcReset
    then show ?thesis
      using inv by (simp add: echoes_step_def echoes_reset_def echoes_inv_def)
  qed (use inv ok echoes_inv_track echoes_inv_expire in
      \<open>auto simp: echoes_step_def echoes_untrack_def echoes_inv_split intro: pending_ok_filter\<close>)
qed (simp add: echoes_inv_default, simp add: echoes_inv_def)


section \<open>Every tracked message is settled once\<close>

definition tracked_ids :: "echoes_op \<Rightarrow> echoes \<Rightarrow> local_id list" where
  "tracked_ids op s =
     (case op of
        EcTrack i target notice text keep labeled now \<Rightarrow>
          (if snd (echoes_track i target notice text keep labeled now s) = None then [] else [i])
      | _ \<Rightarrow> [])"

definition withdrawn_ids :: "echoes_op \<Rightarrow> echoes \<Rightarrow> local_id list" where
  "withdrawn_ids op s =
     (case op of EcUntrack i \<Rightarrow> filter (\<lambda>j. j = i) (echoes_outstanding s) | _ \<Rightarrow> [])"

text \<open>The ids accepted, the ids withdrawn and the events reported along a run.\<close>

fun echoes_log :: "echoes_op list \<Rightarrow> echoes \<Rightarrow> local_id list \<times> local_id list \<times> sent_event list" where
  "echoes_log [] s = ([], [], [])"
| "echoes_log (op # ops) s =
     (let (tracked, withdrawn, events) = echoes_log ops (echoes_step op s)
      in (tracked_ids op s @ tracked, withdrawn_ids op s @ withdrawn,
          snd (echoes_call op s) @ events))"

lemma observed_conserves:
  "observed s r \<Longrightarrow>
     mset (echoes_outstanding s)
     = mset (echoes_outstanding (fst r)) + mset (map event_id (case snd r of None \<Rightarrow> [] | Some es \<Rightarrow> es))"
  by (induction rule: observed.induct) (auto simp: echoes_outstanding_def dest!: remove_first_mset)

lemma filter_mset_split: "mset xs = mset (filter P xs) + mset (filter (\<lambda>x. \<not> P x) xs)"
  by (induction xs) auto

lemma expire_conserves:
  "mset (echoes_outstanding s)
   = mset (echoes_outstanding (fst (echoes_expire now s))) + mset (map event_id (snd (echoes_expire now s)))"
  by (auto simp: echoes_expire_def echoes_outstanding_def multiset.map_comp o_def split: prod.splits
      dest!: expire_loop_split)

lemma call_conserves:
  "mset (echoes_outstanding s) + mset (tracked_ids op s)
   = mset (echoes_outstanding (echoes_step op s)) + mset (withdrawn_ids op s)
     + mset (map event_id (snd (echoes_call op s)))"
proof (cases op)
  case (EcUntrack i)
  have "mset (map p_local_id ps)
      = mset (map p_local_id (filter (\<lambda>p. p_local_id p \<noteq> i) ps)) + mset (filter (\<lambda>j. j = i) (map p_local_id ps))"
    for ps by (induction ps) auto
  then show ?thesis
    using EcUntrack
    by (simp add: echoes_step_def tracked_ids_def withdrawn_ids_def echoes_untrack_def
        echoes_outstanding_def)
next
  case (EcObserve m nick labeled)
  then show ?thesis
    using observed_conserves [OF observed_observe [of s m nick labeled]]
    by (simp add: echoes_step_def tracked_ids_def withdrawn_ids_def split: prod.splits)
next
  case (EcExpire now)
  then show ?thesis
    using expire_conserves [of s now] by (simp add: echoes_step_def tracked_ids_def withdrawn_ids_def)
qed (auto simp: echoes_step_def tracked_ids_def withdrawn_ids_def echoes_track_def
    echoes_outstanding_def Let_def echoes_reset_def o_def)

lemma escaped_len_le: "escaped_len v \<le> 2 * blen v"
proof (induction v)
  case (Cons c v)
  have "1 \<le> utf8_len c" by (auto simp: utf8_len_def)
  with Cons show ?case by (auto simp: escaped_len_def blen_def)
qed (simp add: escaped_len_def blen_def)

lemma label_on_the_wire:
  assumes "l \<noteq> []" and "0xFFFD \<notin> set l" and "blen l \<le> 64"
  shows "tag_value (with_label m (Some l)) (lit ''label'') = Some l"
proof -
  have "blen (lit ''label'') = 5" by code_simp
  then have "tag_bytes [Tag (lit ''label'') (Some l)] \<le> MAX_TAG_BYTES"
    using assms(1,3) escaped_len_le [of l] by (simp add: tag_bytes_def Let_def MAX_TAG_BYTES_def)
  then show ?thesis
    using assms by (simp add: tag_value_def with_label_def)
qed

lemma label_for_plain: "label_for k \<noteq> [] \<and> 0xFFFD \<notin> set (label_for k)"
  using label_digits_ascii [of "0xFFFD" "unat k"]
  by (auto simp: label_for_def is_ascii_digit_def is_ascii_lower_def)

lemma distinct_labels_remove_first:
  assumes "distinct (pending_labels ps)" and "p \<in> set ps" and "p_label p = Some l"
  shows "remove_first (\<lambda>q. p_label q = Some l) ps = Some (p, remove1 p ps)"
  using assms by (induction ps) (auto simp: set_pending_labels split: option.splits)

lemma expire_loop_sorted:
  "sorted (map p_sent ps) \<Longrightarrow>
     expire_loop now ps =
       (filter (\<lambda>p. now - p_sent p < PENDING_TTL) ps,
        map (\<lambda>p. OutgoingFailed (p_local_id p) expired_reason)
          (filter (\<lambda>p. PENDING_TTL \<le> now - p_sent p) ps))"
proof (induction ps)
  case (Cons p ps)
  show ?case
  proof (cases "PENDING_TTL \<le> now - p_sent p")
    case True
    with Cons show ?thesis by simp
  next
    case False
    then have "\<forall>q \<in> set ps. now - p_sent q < PENDING_TTL"
      using Cons.prems by fastforce
    then have "filter (\<lambda>p. now - p_sent p < PENDING_TTL) ps = ps"
      and "filter (\<lambda>p. PENDING_TTL \<le> now - p_sent p) ps = []"
      by (auto simp: filter_id_conv filter_empty_conv)
    with False show ?thesis by simp
  qed
qed simp

lemma label_matching_cases:
  assumes "echoes_inv s" and "from_us m nick"
  shows "p \<in> set (ec_pending s) \<Longrightarrow> p_label p = Some l \<Longrightarrow> line_label m s = Some l \<Longrightarrow>
      m_command m = PRIVMSG target body \<or> m_command m = NOTICE target body \<Longrightarrow>
      echoes_observe m nick labeled s
        = (s\<lparr>ec_pending := remove1 p (ec_pending s)\<rparr>, Some [confirmed p (Some m)])"
    and "line_label m s = None \<Longrightarrow>
      filter (\<lambda>p. p_label p \<noteq> None) (ec_pending (fst (echoes_observe m nick True s)))
        = filter (\<lambda>p. p_label p \<noteq> None) (ec_pending s)"
proof -
  assume "p \<in> set (ec_pending s)" "p_label p = Some l" "line_label m s = Some l"
    "m_command m = PRIVMSG target body \<or> m_command m = NOTICE target body"
  moreover from this have "remove_first (\<lambda>q. p_label q = Some l) (ec_pending s) = Some (p, remove1 p (ec_pending s))"
    using assms(1) distinct_labels_remove_first by (auto simp: echoes_inv_def)
  ultimately show "echoes_observe m nick labeled s
        = (s\<lparr>ec_pending := remove1 p (ec_pending s)\<rparr>, Some [confirmed p (Some m)])"
    using assms(2)
    by (auto simp: echoes_observe_def observe_labeled_def settle_labeled_def take_labeled_def)
next
  assume none: "line_label m s = None"
  have "filter (\<lambda>p. p_label p \<noteq> None) ys = filter (\<lambda>p. p_label p \<noteq> None) (ec_pending s)"
    if "remove_first (unlabeled_match True notice target body) (ec_pending s) = Some (x, ys)"
    for notice target body x ys
    using remove_first_Some [OF that] by (auto simp: unlabeled_match_def)
  then show "filter (\<lambda>p. p_label p \<noteq> None) (ec_pending (fst (echoes_observe m nick True s)))
        = filter (\<lambda>p. p_label p \<noteq> None) (ec_pending s)"
    using none
    by (auto simp: echoes_observe_def observe_batch_def observe_unlabeled_def Let_def
        split: command.splits option.splits)
qed

section \<open>Properties\<close>

text \<open>C1. Along every run of calls, from any state, every message accepted for tracking is settled
  exactly once: it is reported confirmed or failed by one event, or withdrawn by the caller, or
  still waiting at the end; nothing else is ever reported.\<close>
theorem echoes_settle_once:
  "(let (tracked, withdrawn, events) = echoes_log ops s
    in mset (echoes_outstanding s) + mset tracked
       = mset (echoes_outstanding (fold echoes_step ops s)) + mset withdrawn + mset (map event_id events))"
proof (induction ops arbitrary: s)
  case (Cons op ops)
  show ?case
    using Cons.IH [of "echoes_step op s"] call_conserves [of s op]
    by (auto split: prod.splits simp: algebra_simps)
qed simp

text \<open>On a connection whose clock does not go back and whose label counter does not run out,
  at most 32 messages wait and at most 16 batches are open, the waiting messages carry pairwise
  different labels, and they stand in the order they were sent.\<close>
theorem echoes_bounded:
  assumes "echo_machine.run_ok ops echoes_default"
  shows "length (ec_pending (fold echoes_step ops echoes_default)) \<le> 32
    \<and> length (ec_batches (fold echoes_step ops echoes_default)) \<le> 16
    \<and> distinct (pending_labels (ec_pending (fold echoes_step ops echoes_default)))
    \<and> sorted (map p_sent (ec_pending (fold echoes_step ops echoes_default)))"
  using echo_machine.run_init_inv [OF refl assms]
  by (simp add: echoes_inv_def MAX_PENDING_def MAX_BATCHES_def)

theorem echoes_bounded_witness:
  "length (ec_pending (fold echoes_step
     [EcTrack 1 (lit ''#a'') False (lit ''x'') False True 5, EcExpire 60005] echoes_default)) \<le> 32"
  by (rule echoes_bounded [THEN conjunct1])
     (simp add: echoes_step_def echoes_track_def echoes_default_def)

text \<open>Labels never repeat while the counter does not, they fit the 64 bytes the specification
  allows, and the label put on a message is the one read back from its line.\<close>
theorem labels_unique:
  "(label_for a = label_for b \<longleftrightarrow> a = b) \<and> blen (label_for a) \<le> 64
   \<and> line_label (with_label m (Some (label_for a))) s = Some (label_for a)"
proof -
  have "tag_value (with_label m (Some (label_for a))) (lit ''label'') = Some (label_for a)"
    using label_for_plain [of a] label_for_bytes [of a] by (intro label_on_the_wire) auto
  then show ?thesis
    using label_for_inj label_for_bytes by (simp add: line_label_def)
qed

text \<open>C21. With labels, matching never looks at the text: our own echo that names a waiting message
  by its label, or by its batch's, confirms that message and only that one, whatever the server made
  of the target and the text. While the capability is on, a line that names no label never settles a
  message sent with one.\<close>
theorem label_matching:
  assumes "echoes_inv s" and "from_us m nick"
  shows "(p \<in> set (ec_pending s) \<and> p_label p = Some l \<and> line_label m s = Some l
      \<and> (m_command m = PRIVMSG target body \<or> m_command m = NOTICE target body) \<longrightarrow>
        echoes_observe m nick labeled s
          = (s\<lparr>ec_pending := remove1 p (ec_pending s)\<rparr>, Some [confirmed p (Some m)]))
    \<and> (line_label m s = None \<longrightarrow>
        filter (\<lambda>p. p_label p \<noteq> None) (ec_pending (fst (echoes_observe m nick True s)))
          = filter (\<lambda>p. p_label p \<noteq> None) (ec_pending s))"
  using label_matching_cases [OF assms] by blast

definition sample_pending :: pending where
  "sample_pending = \<lparr>p_local_id = 7, p_label = Some (lit ''c1''), p_target = lit ''#a'',
     p_notice = False, p_text = lit ''x'', p_keep_text = False, p_sent = 5\<rparr>"

definition sample_echo :: message where
  "sample_echo = \<lparr>m_tags = Some [Tag (lit ''label'') (Some (lit ''c1''))],
     m_prefix = Some (Nickname (lit ''me'') [] []), m_command = PRIVMSG (lit ''#a'') (lit ''y'')\<rparr>"

theorem label_matching_witness:
  "snd (echoes_observe sample_echo (lit ''Me'') True
     \<lparr>ec_pending = [sample_pending], ec_next_label = 1, ec_batches = []\<rparr>)
   = Some [confirmed sample_pending (Some sample_echo)]"
proof -
  let ?s = "\<lparr>ec_pending = [sample_pending], ec_next_label = 1, ec_batches = []\<rparr>"
  have l: "lit ''c1'' = label_for 1"
    by (simp add: label_for_def label_digits.simps from_digit36_def lit_def)
  have "echoes_inv ?s"
    by (auto simp: echoes_inv_def sample_pending_def MAX_PENDING_def label_used_def l)
  moreover have "from_us sample_echo (lit ''Me'')" by code_simp
  moreover have "line_label sample_echo ?s = Some (lit ''c1'')"
    using label_on_the_wire [of "lit ''c1''" sample_echo] label_for_plain [of 1] label_for_bytes [of 1]
    by (simp add: l line_label_def with_label_def sample_echo_def)
  moreover have "sample_pending \<in> set (ec_pending ?s)" "p_label sample_pending = Some (lit ''c1'')"
    by (simp_all add: sample_pending_def)
  moreover have "m_command sample_echo = PRIVMSG (lit ''#a'') (lit ''y'')"
    by (simp add: sample_echo_def)
  ultimately show ?thesis
    using label_matching [of ?s sample_echo "lit ''Me''" sample_pending "lit ''c1''" "lit ''#a''" "lit ''y''" True]
    by simp
qed

text \<open>Expiry is complete and exact: every message that has waited sixty seconds is reported
  failed, oldest first, every other one stays, and the next deadline, when there is one, lies in
  the future.\<close>
theorem expire_exact:
  assumes "echoes_inv s" and "echoes_expire now s = (s', events)"
  shows "ec_pending s' = filter (\<lambda>p. now < p_sent p + PENDING_TTL) (ec_pending s)
    \<and> events = map (\<lambda>p. OutgoingFailed (p_local_id p) expired_reason)
         (filter (\<lambda>p. p_sent p + PENDING_TTL \<le> now) (ec_pending s))
    \<and> (case echoes_next_deadline s' of None \<Rightarrow> ec_pending s' = [] | Some t \<Rightarrow> now < t)"
proof -
  have lt: "(now - x < PENDING_TTL) = (now < x + PENDING_TTL)"
    and le: "(PENDING_TTL \<le> now - x) = (x + PENDING_TTL \<le> now)" for x
    by (auto simp: PENDING_TTL_def)
  have pend: "ec_pending s' = filter (\<lambda>p. now < p_sent p + PENDING_TTL) (ec_pending s)"
    and ev: "events = map (\<lambda>p. OutgoingFailed (p_local_id p) expired_reason)
         (filter (\<lambda>p. p_sent p + PENDING_TTL \<le> now) (ec_pending s))"
    using assms expire_loop_sorted [of "ec_pending s" now]
    by (auto simp: echoes_inv_def echoes_expire_def lt le)
  have "now < p_sent p + PENDING_TTL" if "ec_pending s' = p # ps" for p ps
  proof -
    have "p \<in> set (ec_pending s')" using that by simp
    then show ?thesis using pend by simp
  qed
  then have "case echoes_next_deadline s' of None \<Rightarrow> ec_pending s' = [] | Some t \<Rightarrow> now < t"
    by (auto simp: echoes_next_deadline_def split: list.splits)
  with pend ev show ?thesis by blast
qed

theorem expire_exact_witness:
  "snd (echoes_expire 60005 \<lparr>ec_pending = [sample_pending], ec_next_label = 1, ec_batches = []\<rparr>)
   = [OutgoingFailed 7 expired_reason]"
proof -
  let ?s = "\<lparr>ec_pending = [sample_pending], ec_next_label = 1, ec_batches = []\<rparr>"
  have "lit ''c1'' = label_for 1"
    by (simp add: label_for_def label_digits.simps from_digit36_def lit_def)
  then have "echoes_inv ?s"
    by (auto simp: echoes_inv_def sample_pending_def MAX_PENDING_def label_used_def)
  from expire_exact [OF this surjective_pairing, of 60005] show ?thesis
    by (simp add: sample_pending_def PENDING_TTL_def)
qed

end
