(* ===== verification/Regain.thy ===== *)
theory Regain
  imports Wire Text Contracts
begin

text \<open>
  \<open>crates/irc-core/src/regain.rs\<close>: getting operator status back when we are alone in a channel
  without it, by parting and joining it again once. The state machine of a channel, the poll that
  acts on what has been waited for, and the cached deadline. Instants are milliseconds; the
  constants are those of a normal build.
\<close>

section \<open>State\<close>

definition STABLE :: nat where "STABLE = 5000"
definition ATTEMPT_TIMEOUT :: nat where "ATTEMPT_TIMEOUT = 30000"
definition RESTORE_WAIT :: nat where "RESTORE_WAIT = 5000"
definition MAX_REJOINS_PER_POLL :: nat where "MAX_REJOINS_PER_POLL = 4"
definition REJOIN_SPACING :: nat where "REJOIN_SPACING = 2000"
definition REGAIN_MAX_TRACKED :: nat where "REGAIN_MAX_TRACKED = 512"
definition MAX_TOPIC :: nat where "MAX_TOPIC = 400"
definition RESTORED_FLAGS :: rstring where "RESTORED_FLAGS = lit ''imnpst''"

definition privileged :: "rstring \<Rightarrow> bool" where
  "privileged entry \<longleftrightarrow> starts_with_any (lit ''~&@%'') entry"

datatype op_regain_status =
    Rejoining
  | Regained bool bool
  | RestoreFailed bool bool
  | TopicTooLong
  | NotRegained
  | RejoinFailed

datatype regain_action =
    Rejoin rstring
  | Join rstring
  | RestoreStep rstring rstring "rstring option"
  | Status rstring op_regain_status

datatype stage =
    Watching
  | Settling nat
  | Attempt (att_until: nat) (att_parted: bool) (att_joined: bool)
  | Restoring (rs_at: nat) (rs_flags: rstring) (rs_topic: "rstring option") (rs_topic_seen: bool)

record restore =
  re_flags :: rstring
  re_topic :: "rstring option"

record regain_channel =
  rc_name :: rstring
  rc_tried :: bool
  rc_in_channel :: bool
  rc_synced :: bool
  rc_op :: bool
  rc_alone :: bool
  rc_topic :: rstring
  rc_stage :: stage
  rc_restore :: "restore option"

definition regain_channel_new :: "rstring \<Rightarrow> regain_channel" where
  "regain_channel_new name =
     \<lparr>rc_name = name, rc_tried = False, rc_in_channel = False, rc_synced = False, rc_op = False,
      rc_alone = False, rc_topic = [], rc_stage = Watching, rc_restore = None\<rparr>"

record op_regain =
  rg_enabled :: bool
  rg_mapping :: case_mapping
  rg_channels :: "(rstring, regain_channel) hmap"
  rg_deadline :: "nat option"

definition op_regain_new :: "bool \<Rightarrow> op_regain" where
  "op_regain_new enabled =
     \<lparr>rg_enabled = enabled, rg_mapping = default_mapping, rg_channels = [], rg_deadline = None\<rparr>"

section \<open>Operations\<close>

fun stage_instant :: "stage \<Rightarrow> nat option" where
  "stage_instant Watching = None"
| "stage_instant (Settling at) = Some at"
| "stage_instant (Attempt until parted joined) = Some until"
| "stage_instant (Restoring at flags topic topic_seen) = Some at"

definition touch :: "op_regain \<Rightarrow> op_regain" where
  "touch s = s\<lparr>rg_deadline :=
     min_instant (List.map_filter (\<lambda>(_, chan). stage_instant (rc_stage chan)) (rg_channels s))\<rparr>"

definition or_insert :: "'k \<Rightarrow> 'v \<Rightarrow> ('k, 'v) hmap \<Rightarrow> ('k, 'v) hmap" where
  "or_insert k v m = (case map_of m k of Some _ \<Rightarrow> m | None \<Rightarrow> AList.update k v m)"

definition regain_set_casemapping :: "case_mapping \<Rightarrow> op_regain \<Rightarrow> op_regain" where
  "regain_set_casemapping mapping s =
     touch (s\<lparr>rg_mapping := mapping,
       rg_channels :=
         fold (\<lambda>(_, chan). or_insert (cm_fold mapping (rc_name chan)) chan) (rg_channels s) []\<rparr>)"

definition eligible :: "rstring \<Rightarrow> bool" where
  "eligible name \<longleftrightarrow> starts_with_any (lit ''#&'') name \<and> valid_channel name"

definition joined_channel :: "rstring \<Rightarrow> regain_channel \<Rightarrow> regain_channel" where
  "joined_channel name chan =
     chan\<lparr>rc_name := name, rc_in_channel := True, rc_synced := False, rc_op := False,
        rc_alone := False, rc_topic := [],
        rc_stage := (case rc_stage chan of
                       Attempt until True joined \<Rightarrow> Attempt until True True
                     | _ \<Rightarrow> Watching)\<rparr>"

definition regain_joined :: "rstring \<Rightarrow> op_regain \<Rightarrow> op_regain" where
  "regain_joined name s =
     (if \<not> rg_enabled s \<or> \<not> eligible name then s
      else
        (let key = cm_fold (rg_mapping s) name
         in if map_of (rg_channels s) key = None \<and> REGAIN_MAX_TRACKED \<le> length (rg_channels s)
            then s
            else
              (let chan = (case map_of (rg_channels s) key of
                           Some chan \<Rightarrow> chan | None \<Rightarrow> regain_channel_new name)
               in touch (s\<lparr>rg_channels :=
                    AList.update key (joined_channel name chan) (rg_channels s)\<rparr>))))"

definition regain_parted :: "rstring \<Rightarrow> op_regain \<Rightarrow> op_regain \<times> regain_action list" where
  "regain_parted name s =
     (let key = cm_fold (rg_mapping s) name
      in case map_of (rg_channels s) key of
           None \<Rightarrow> (s, [])
         | Some chan \<Rightarrow>
             (case rc_stage chan of
                Attempt until False False \<Rightarrow>
                  (touch (s\<lparr>rg_channels :=
                     AList.update key
                       (chan\<lparr>rc_stage := Attempt until True False, rc_in_channel := False\<rparr>)
                       (rg_channels s)\<rparr>),
                   [Join (rc_name chan)])
              | _ \<Rightarrow> (touch (s\<lparr>rg_channels := AList.delete key (rg_channels s)\<rparr>), [])))"

definition regain_leaving :: "rstring \<Rightarrow> op_regain \<Rightarrow> op_regain" where
  "regain_leaving name s =
     (let key = cm_fold (rg_mapping s) name
      in if map_of (rg_channels s) key = None then s
         else touch (s\<lparr>rg_channels := AList.delete key (rg_channels s)\<rparr>))"

definition topic_channel :: "rstring \<Rightarrow> regain_channel \<Rightarrow> regain_channel" where
  "topic_channel topic chan =
     chan\<lparr>rc_topic := topic,
        rc_stage := (case rc_stage chan of
                       Restoring at flags (Some expected) topic_seen \<Rightarrow>
                         Restoring at flags (Some expected) (topic_seen \<or> expected = topic)
                     | stage \<Rightarrow> stage)\<rparr>"

definition regain_topic :: "rstring \<Rightarrow> rstring \<Rightarrow> op_regain \<Rightarrow> op_regain" where
  "regain_topic name topic s =
     (let key = cm_fold (rg_mapping s) name
      in case map_of (rg_channels s) key of
           None \<Rightarrow> s
         | Some chan \<Rightarrow> s\<lparr>rg_channels := AList.update key (topic_channel topic chan) (rg_channels s)\<rparr>)"

definition regain_join_failed :: "rstring \<Rightarrow> op_regain \<Rightarrow> op_regain \<times> regain_action list" where
  "regain_join_failed name s =
     (let key = cm_fold (rg_mapping s) name
      in case map_of (rg_channels s) key of
           None \<Rightarrow> (touch s, [])
         | Some chan \<Rightarrow>
             (case rc_stage chan of
                Attempt until parted joined \<Rightarrow>
                  (touch (s\<lparr>rg_channels :=
                     AList.update key (chan\<lparr>rc_stage := Watching, rc_in_channel := False\<rparr>)
                       (rg_channels s)\<rparr>),
                   [Status (rc_name chan) RejoinFailed])
              | _ \<Rightarrow> (touch s, [])))"

text \<open>What a roster says: whether we are operator, and whether the roster holds only us.\<close>

definition roster_entries :: "rstring list \<Rightarrow> rstring list" where
  "roster_entries users = filter (\<lambda>user. display_nickname user \<noteq> []) users"

definition roster_own :: "rstring list \<Rightarrow> rstring \<Rightarrow> rstring option" where
  "roster_own users nick =
     List.find (\<lambda>entry. same_nickname (display_nickname entry) nick) (roster_entries users)"

definition roster_op :: "rstring list \<Rightarrow> rstring \<Rightarrow> bool" where
  "roster_op users nick \<longleftrightarrow>
     (case roster_own users nick of Some entry \<Rightarrow> privileged entry | None \<Rightarrow> False)"

definition roster_alone :: "rstring list \<Rightarrow> rstring \<Rightarrow> bool" where
  "roster_alone users nick \<longleftrightarrow> length (roster_entries users) = 1 \<and> roster_own users nick \<noteq> None"

text \<open>The stage after a roster.\<close>

definition roster_stage ::
  "bool \<Rightarrow> nat \<Rightarrow> regain_channel \<Rightarrow> regain_channel \<times> regain_action list" where
  "roster_stage complete now chan =
     (case rc_stage chan of
        Attempt until parted joined \<Rightarrow>
          (if joined \<and> complete
           then
             (let re = rc_restore chan;
                  chan = chan\<lparr>rc_restore := None, rc_stage := Watching\<rparr>
              in if \<not> rc_op chan then (chan, [Status (rc_name chan) NotRegained])
                 else
                   (let (flags, topic) =
                          (case re of Some r \<Rightarrow> (re_flags r, re_topic r) | None \<Rightarrow> ([], None))
                    in if flags = [] \<and> topic = None
                       then (chan, [Status (rc_name chan) (Regained False False)])
                       else (chan\<lparr>rc_stage := Restoring (now + RESTORE_WAIT) flags topic False\<rparr>,
                             [RestoreStep (rc_name chan) flags topic])))
           else (chan, []))
      | Restoring at flags topic topic_seen \<Rightarrow> (chan, [])
      | _ \<Rightarrow>
          (chan\<lparr>rc_stage :=
             (if \<not> rc_tried chan \<and> rc_alone chan \<and> \<not> rc_op chan
              then (case rc_stage chan of Settling at \<Rightarrow> Settling at | _ \<Rightarrow> Settling (now + STABLE))
              else Watching)\<rparr>, []))"

definition roster_channel ::
  "rstring list \<Rightarrow> rstring \<Rightarrow> bool \<Rightarrow> nat \<Rightarrow> regain_channel \<Rightarrow> regain_channel \<times> regain_action list" where
  "roster_channel users nick complete now chan =
     (if \<not> rc_in_channel chan then (chan, [])
      else
        (let chan = (if complete then chan\<lparr>rc_synced := True\<rparr> else chan)
         in if \<not> rc_synced chan then (chan, [])
            else
              roster_stage complete now
                (chan\<lparr>rc_op := roster_op users nick, rc_alone := roster_alone users nick,
                    rc_tried := rc_tried chan \<and> \<not> roster_op users nick\<rparr>)))"

definition regain_roster ::
  "rstring \<Rightarrow> rstring list \<Rightarrow> rstring \<Rightarrow> bool \<Rightarrow> nat \<Rightarrow> op_regain
   \<Rightarrow> op_regain \<times> regain_action list" where
  "regain_roster name users nick complete now s =
     (let key = cm_fold (rg_mapping s) name
      in case map_of (rg_channels s) key of
           None \<Rightarrow> (touch s, [])
         | Some chan \<Rightarrow>
             (let (chan', steps) = roster_channel users nick complete now chan
              in (touch (s\<lparr>rg_channels := AList.update key chan' (rg_channels s)\<rparr>), steps)))"

text \<open>The condition of an attempt, and what it puts back.\<close>

definition qualifies :: "regain_channel \<Rightarrow> bool" where
  "qualifies chan \<longleftrightarrow>
     \<not> rc_tried chan \<and> rc_alone chan \<and> \<not> rc_op chan \<and> rc_synced chan \<and> rc_in_channel chan"

definition restore_of :: "rstring \<Rightarrow> regain_channel \<Rightarrow> restore" where
  "restore_of flags chan =
     \<lparr>re_flags = filter (\<lambda>letter. letter \<in> set RESTORED_FLAGS) flags,
      re_topic = (if rc_topic chan \<noteq> [] then Some (rc_topic chan) else None)\<rparr>"

text \<open>One channel of the poll: the channel, what to do, and the rejoins counted so far.\<close>

definition poll_channel ::
  "nat \<Rightarrow> bool \<Rightarrow> (rstring \<Rightarrow> rstring option) \<Rightarrow> nat \<Rightarrow> regain_channel
   \<Rightarrow> regain_channel \<times> regain_action list \<times> nat" where
  "poll_channel now ready flags_of rejoins chan =
     (case rc_stage chan of
        Watching \<Rightarrow> (chan, [], rejoins)
      | Settling at \<Rightarrow>
          (if now < at then (chan, [], rejoins)
           else
             (case flags_of (rc_name chan) of
                None \<Rightarrow> (chan\<lparr>rc_stage := Settling (now + STABLE)\<rparr>, [], rejoins)
              | Some flags \<Rightarrow>
                  (if \<not> ready then (chan\<lparr>rc_stage := Settling (now + STABLE)\<rparr>, [], rejoins)
                   else if \<not> qualifies chan then (chan\<lparr>rc_stage := Watching\<rparr>, [], rejoins)
                   else if MAX_TOPIC < blen (rc_topic chan)
                   then (chan\<lparr>rc_tried := True, rc_stage := Watching\<rparr>,
                         [Status (rc_name chan) TopicTooLong], rejoins)
                   else if MAX_REJOINS_PER_POLL \<le> rejoins
                   then (chan\<lparr>rc_stage := Settling (now + REJOIN_SPACING)\<rparr>, [], rejoins)
                   else (chan\<lparr>rc_restore := Some (restore_of flags chan), rc_tried := True,
                            rc_stage := Attempt (now + ATTEMPT_TIMEOUT) False False\<rparr>,
                         [Rejoin (rc_name chan), Status (rc_name chan) Rejoining], rejoins + 1))))
      | Attempt until parted joined \<Rightarrow>
          (if now < until then (chan, [], rejoins)
           else (chan\<lparr>rc_stage := Watching, rc_restore := None\<rparr>,
                 [Status (rc_name chan) (if rc_in_channel chan then NotRegained else RejoinFailed)],
                 rejoins))
      | Restoring at flags topic topic_seen \<Rightarrow>
          (if now < at then (chan, [], rejoins)
           else
             (let known = (case flags_of (rc_name chan) of Some k \<Rightarrow> k | None \<Rightarrow> []);
                  modes_failed = list_ex (\<lambda>letter. letter \<notin> set known) flags;
                  topic_failed = (topic \<noteq> None \<and> \<not> topic_seen)
              in (chan\<lparr>rc_stage := (if qualifies chan then Settling (now + STABLE) else Watching)\<rparr>,
                  [Status (rc_name chan)
                     (if modes_failed \<or> topic_failed then RestoreFailed modes_failed topic_failed
                      else Regained (flags \<noteq> []) (topic \<noteq> None))],
                  rejoins))))"

fun poll_channels ::
  "nat \<Rightarrow> bool \<Rightarrow> (rstring \<Rightarrow> rstring option) \<Rightarrow> nat \<Rightarrow> (rstring, regain_channel) hmap
   \<Rightarrow> (rstring, regain_channel) hmap \<times> regain_action list" where
  "poll_channels now ready flags_of rejoins [] = ([], [])"
| "poll_channels now ready flags_of rejoins ((key, chan) # chans) =
     (let (chan', steps, rejoins') = poll_channel now ready flags_of rejoins chan;
          (chans', more) = poll_channels now ready flags_of rejoins' chans
      in ((key, chan') # chans', steps @ more))"

definition regain_poll ::
  "nat \<Rightarrow> bool \<Rightarrow> (rstring \<Rightarrow> rstring option) \<Rightarrow> op_regain \<Rightarrow> op_regain \<times> regain_action list" where
  "regain_poll now ready flags_of s =
     (let (chans, steps) = poll_channels now ready flags_of 0 (rg_channels s)
      in (touch (s\<lparr>rg_channels := chans\<rparr>), steps))"

definition regain_next_deadline :: "op_regain \<Rightarrow> nat option" where
  "regain_next_deadline s = rg_deadline s"

section \<open>The machine\<close>

datatype regain_op =
    RgSetMapping case_mapping
  | RgJoined rstring
  | RgParted rstring
  | RgLeaving rstring
  | RgTopic rstring rstring
  | RgJoinFailed rstring
  | RgRoster rstring "rstring list" rstring bool nat
  | RgPoll nat bool "rstring \<Rightarrow> rstring option"

fun regain_call :: "regain_op \<Rightarrow> op_regain \<Rightarrow> op_regain \<times> regain_action list" where
  "regain_call (RgSetMapping mapping) s = (regain_set_casemapping mapping s, [])"
| "regain_call (RgJoined name) s = (regain_joined name s, [])"
| "regain_call (RgParted name) s = regain_parted name s"
| "regain_call (RgLeaving name) s = (regain_leaving name s, [])"
| "regain_call (RgTopic name topic) s = (regain_topic name topic s, [])"
| "regain_call (RgJoinFailed name) s = regain_join_failed name s"
| "regain_call (RgRoster name users nick complete now) s = regain_roster name users nick complete now s"
| "regain_call (RgPoll now ready flags_of) s = regain_poll now ready flags_of s"

definition regain_step :: "regain_op \<Rightarrow> op_regain \<Rightarrow> op_regain" where
  "regain_step op s = fst (regain_call op s)"

text \<open>What is put back is at most plain flags and a topic a line can carry.\<close>

definition restore_ok :: "rstring \<Rightarrow> rstring option \<Rightarrow> bool" where
  "restore_ok flags topic \<longleftrightarrow>
     set flags \<subseteq> set RESTORED_FLAGS
     \<and> (case topic of None \<Rightarrow> True | Some t \<Rightarrow> t \<noteq> [] \<and> blen t \<le> MAX_TOPIC)"

text \<open>A channel waits only while it qualifies; an attempt remembers what to put back, and its \<open>JOIN\<close>
  follows its \<open>PART\<close>.\<close>

definition regain_channel_ok :: "regain_channel \<Rightarrow> bool" where
  "regain_channel_ok chan \<longleftrightarrow>
     (case rc_stage chan of
        Watching \<Rightarrow> True
      | Settling at \<Rightarrow> qualifies chan
      | Attempt until parted joined \<Rightarrow>
          rc_restore chan \<noteq> None \<and> (joined \<longrightarrow> parted) \<and> (rc_in_channel chan \<longleftrightarrow> (parted \<longrightarrow> joined))
      | Restoring at flags topic topic_seen \<Rightarrow>
          restore_ok flags topic \<and> (flags \<noteq> [] \<or> topic \<noteq> None))
     \<and> (case rc_restore chan of None \<Rightarrow> True | Some re \<Rightarrow> restore_ok (re_flags re) (re_topic re))"

definition regain_inv :: "op_regain \<Rightarrow> bool" where
  "regain_inv s \<longleftrightarrow>
     keys_distinct (rg_channels s) \<and> length (rg_channels s) \<le> REGAIN_MAX_TRACKED
     \<and> (\<forall>key chan. map_of (rg_channels s) key = Some chan \<longrightarrow>
          key = cm_fold (rg_mapping s) (rc_name chan) \<and> eligible (rc_name chan) \<and> regain_channel_ok chan)
     \<and> rg_deadline s = rg_deadline (touch s)
     \<and> (\<not> rg_enabled s \<longrightarrow> rg_channels s = [])"

section \<open>Preservation, channel by channel\<close>

lemma qualifies_simps [simp]:
  "qualifies (chan\<lparr>rc_stage := st\<rparr>) = qualifies chan"
  "qualifies (chan\<lparr>rc_restore := re\<rparr>) = qualifies chan"
  "qualifies (chan\<lparr>rc_topic := t\<rparr>) = qualifies chan"
  "\<not> qualifies (chan\<lparr>rc_tried := True\<rparr>)"
  by (simp_all add: qualifies_def)

lemma channel_ok_new [simp]: "regain_channel_ok (regain_channel_new name)"
  by (simp add: regain_channel_ok_def regain_channel_new_def)

lemma channel_ok_joined: "regain_channel_ok chan \<Longrightarrow> regain_channel_ok (joined_channel name chan)"
  by (auto simp: regain_channel_ok_def joined_channel_def split: stage.splits bool.splits)

lemma channel_ok_topic: "regain_channel_ok chan \<Longrightarrow> regain_channel_ok (topic_channel topic chan)"
  by (auto simp: regain_channel_ok_def topic_channel_def split: stage.splits option.splits)

lemma channel_ok_parted:
  "regain_channel_ok chan \<Longrightarrow> rc_stage chan = Attempt until False False \<Longrightarrow>
     regain_channel_ok (chan\<lparr>rc_stage := Attempt until True False, rc_in_channel := False\<rparr>)"
  by (auto simp: regain_channel_ok_def)

lemma channel_ok_join_failed:
  "regain_channel_ok chan \<Longrightarrow> regain_channel_ok (chan\<lparr>rc_stage := Watching, rc_in_channel := False\<rparr>)"
  by (auto simp: regain_channel_ok_def)

lemma channel_ok_roster:
  "regain_channel_ok chan \<Longrightarrow> regain_channel_ok (fst (roster_channel users nick complete now chan))"
  unfolding regain_channel_ok_def roster_channel_def roster_stage_def Let_def
  by (auto simp: qualifies_def split: stage.splits option.splits if_splits prod.splits)

lemma restore_ok_restore_of:
  "blen (rc_topic chan) \<le> MAX_TOPIC \<Longrightarrow>
     restore_ok (re_flags (restore_of flags chan)) (re_topic (restore_of flags chan))"
  by (auto simp: restore_ok_def restore_of_def)

lemma channel_ok_poll:
  "regain_channel_ok chan \<Longrightarrow> regain_channel_ok (fst (poll_channel now ready flags_of r chan))"
  using restore_ok_restore_of [of chan]
  unfolding poll_channel_def Let_def
  by (auto simp: regain_channel_ok_def qualifies_def split: stage.splits option.splits)

lemma roster_name [simp]: "rc_name (fst (roster_channel users nick complete now chan)) = rc_name chan"
  by (auto simp: roster_channel_def roster_stage_def Let_def split: stage.splits option.splits)

lemma poll_name [simp]: "rc_name (fst (poll_channel now ready flags_of r chan)) = rc_name chan"
  by (auto simp: poll_channel_def Let_def split: stage.splits option.splits)

lemma topic_instant [simp]: "stage_instant (rc_stage (topic_channel topic chan)) = stage_instant (rc_stage chan)"
  by (auto simp: topic_channel_def split: stage.splits option.splits)

section \<open>Preservation of the table\<close>

definition channels_ok :: "case_mapping \<Rightarrow> (rstring, regain_channel) hmap \<Rightarrow> bool" where
  "channels_ok mapping chans \<longleftrightarrow>
     keys_distinct chans \<and> length chans \<le> REGAIN_MAX_TRACKED
     \<and> (\<forall>key chan. map_of chans key = Some chan \<longrightarrow>
          key = cm_fold mapping (rc_name chan) \<and> eligible (rc_name chan) \<and> regain_channel_ok chan)"

lemma regain_inv_split:
  "regain_inv s \<longleftrightarrow> channels_ok (rg_mapping s) (rg_channels s)
     \<and> rg_deadline s = rg_deadline (touch s) \<and> (\<not> rg_enabled s \<longrightarrow> rg_channels s = [])"
  by (auto simp: regain_inv_def channels_ok_def)

lemma touch_simps [simp]:
  "rg_enabled (touch s) = rg_enabled s" "rg_mapping (touch s) = rg_mapping s"
  "rg_channels (touch s) = rg_channels s" "touch (touch s) = touch s"
  by (simp_all add: touch_def)

lemma regain_inv_touch:
  "channels_ok (rg_mapping s) (rg_channels s) \<Longrightarrow> (\<not> rg_enabled s \<longrightarrow> rg_channels s = []) \<Longrightarrow>
     regain_inv (touch s)"
  by (simp add: regain_inv_split)

lemma channels_ok_update:
  assumes "channels_ok m chans" and "map_of chans key = Some chan" and "regain_channel_ok chan'"
    and "rc_name chan' = rc_name chan"
  shows "channels_ok m (AList.update key chan' chans)"
  using assms by (auto simp: channels_ok_def length_update)

lemma channels_ok_delete: "channels_ok m chans \<Longrightarrow> channels_ok m (AList.delete key chans)"
  by (auto simp: channels_ok_def intro: order_trans [OF length_delete_le])

lemma channels_ok_get: "channels_ok m chans \<Longrightarrow> map_of chans key = Some chan \<Longrightarrow> regain_channel_ok chan"
  by (auto simp: channels_ok_def)

lemma delete_Nil_iff: "chans = [] \<Longrightarrow> AList.delete key chans = []"
  by simp

lemma regain_inv_joined: "regain_inv s \<Longrightarrow> regain_inv (regain_joined name s)"
proof -
  assume inv: "regain_inv s"
  let ?k = "cm_fold (rg_mapping s) name"
  let ?c = "case map_of (rg_channels s) ?k of Some chan \<Rightarrow> chan | None \<Rightarrow> regain_channel_new name"
  have "regain_channel_ok ?c"
    using inv channels_ok_get by (auto simp: regain_inv_split split: option.splits)
  then have "regain_channel_ok (joined_channel name ?c)" by (rule channel_ok_joined)
  then have "channels_ok (rg_mapping s) (AList.update ?k (joined_channel name ?c) (rg_channels s))"
    if "eligible name" "\<not> (map_of (rg_channels s) ?k = None \<and> REGAIN_MAX_TRACKED \<le> length (rg_channels s))"
    using inv that
    by (auto simp: regain_inv_split channels_ok_def length_update joined_channel_def)
  then show ?thesis
    using inv by (auto simp: regain_joined_def Let_def intro!: regain_inv_touch)
qed

lemma regain_inv_update:
  "regain_inv s \<Longrightarrow> map_of (rg_channels s) key = Some chan \<Longrightarrow> regain_channel_ok chan' \<Longrightarrow>
     rc_name chan' = rc_name chan \<Longrightarrow>
     regain_inv (touch (s\<lparr>rg_channels := AList.update key chan' (rg_channels s)\<rparr>))"
  using channels_ok_update by (fastforce simp: regain_inv_split)

lemma regain_inv_delete:
  "regain_inv s \<Longrightarrow> regain_inv (touch (s\<lparr>rg_channels := AList.delete key (rg_channels s)\<rparr>))"
  by (auto simp: regain_inv_split intro: channels_ok_delete)

lemma regain_inv_get: "regain_inv s \<Longrightarrow> map_of (rg_channels s) key = Some chan \<Longrightarrow> regain_channel_ok chan"
  using channels_ok_get by (auto simp: regain_inv_split)

lemma regain_inv_touched: "regain_inv s \<Longrightarrow> regain_inv (touch s)"
  by (simp add: regain_inv_split)

lemma regain_inv_parted:
  assumes inv: "regain_inv s"
  shows "regain_inv (fst (regain_parted name s))"
proof (cases "map_of (rg_channels s) (cm_fold (rg_mapping s) name)")
  case (Some chan)
  show ?thesis
  proof (cases "\<exists>until. rc_stage chan = Attempt until False False")
    case True
    then obtain until where "rc_stage chan = Attempt until False False" by blast
    then show ?thesis
      using regain_inv_update [OF inv Some channel_ok_parted [OF regain_inv_get [OF inv Some]]]
      by (simp add: regain_parted_def Let_def Some)
  next
    case False
    then show ?thesis
      using regain_inv_delete [OF inv]
      by (auto simp: regain_parted_def Let_def Some split: stage.splits bool.splits)
  qed
qed (simp add: regain_parted_def Let_def inv)

lemma regain_inv_leaving: "regain_inv s \<Longrightarrow> regain_inv (regain_leaving name s)"
  by (auto simp: regain_leaving_def Let_def regain_inv_split intro: channels_ok_delete)

lemma map_filter_update:
  "map_of chans key = Some chan \<Longrightarrow> f chan' = f chan \<Longrightarrow>
     List.map_filter (\<lambda>(_, c). f c) (AList.update key chan' chans) = List.map_filter (\<lambda>(_, c). f c) chans"
  by (induction chans) (auto simp: List.map_filter_def split: if_splits)

lemma regain_inv_topic: "regain_inv s \<Longrightarrow> regain_inv (regain_topic name topic s)"
proof (cases "map_of (rg_channels s) (cm_fold (rg_mapping s) name)")
  case (Some chan)
  assume inv: "regain_inv s"
  have "rg_deadline (touch s) = rg_deadline (touch (s\<lparr>rg_channels :=
      AList.update (cm_fold (rg_mapping s) name) (topic_channel topic chan) (rg_channels s)\<rparr>))"
    using map_filter_update [OF Some, of "\<lambda>c. stage_instant (rc_stage c)" "topic_channel topic chan"]
    by (simp add: touch_def)
  moreover have "rc_name (topic_channel topic chan) = rc_name chan" by (simp add: topic_channel_def)
  ultimately show ?thesis
    using inv Some channels_ok_update [OF _ Some, of _ "topic_channel topic chan"]
      channel_ok_topic [of chan topic] channels_ok_get [OF _ Some]
    by (auto simp: regain_topic_def Let_def regain_inv_split)
qed (simp add: regain_topic_def)

lemma regain_inv_join_failed:
  assumes inv: "regain_inv s"
  shows "regain_inv (fst (regain_join_failed name s))"
proof (cases "map_of (rg_channels s) (cm_fold (rg_mapping s) name)")
  case (Some chan)
  show ?thesis
    using regain_inv_update [OF inv Some channel_ok_join_failed [OF regain_inv_get [OF inv Some]]]
      regain_inv_touched [OF inv]
    by (auto simp: regain_join_failed_def Let_def Some split: stage.splits)
qed (simp add: regain_join_failed_def Let_def regain_inv_touched inv)

lemma regain_inv_roster:
  assumes inv: "regain_inv s"
  shows "regain_inv (fst (regain_roster name users nick complete now s))"
proof (cases "map_of (rg_channels s) (cm_fold (rg_mapping s) name)")
  case (Some chan)
  show ?thesis
    using regain_inv_update [OF inv Some channel_ok_roster [OF regain_inv_get [OF inv Some]]]
    by (simp add: regain_roster_def Let_def Some split_beta)
qed (simp add: regain_roster_def Let_def regain_inv_touched inv)

lemma or_insert_map_of [simp]:
  "map_of (or_insert k v m) = (case map_of m k of Some _ \<Rightarrow> map_of m | None \<Rightarrow> (map_of m)(k \<mapsto> v))"
  by (auto simp: or_insert_def split: option.splits)

lemma fold_or_insert_ok:
  assumes "\<And>k c. (k, c) \<in> set es \<Longrightarrow> eligible (rc_name c) \<and> regain_channel_ok c"
    and "channels_ok m chans" and "length es + length chans \<le> REGAIN_MAX_TRACKED"
  shows "channels_ok m (fold (\<lambda>(_, c). or_insert (cm_fold m (rc_name c)) c) es chans)"
  using assms
proof (induction es arbitrary: chans)
  case (Cons e es)
  obtain k c where e: "e = (k, c)" by (cases e)
  have ok: "eligible (rc_name c) \<and> regain_channel_ok c" using Cons.prems(1) e by auto
  let ?n = "or_insert (cm_fold m (rc_name c)) c chans"
  have "length ?n \<le> Suc (length chans)"
    by (auto simp: or_insert_def length_update split: option.splits)
  moreover have "channels_ok m ?n"
    using ok Cons.prems(2,3)
    by (auto simp: or_insert_def channels_ok_def length_update split: option.splits)
  ultimately show ?case
    using Cons.IH [of ?n] Cons.prems(1,3) e by auto
qed simp

lemma regain_inv_set_casemapping: "regain_inv s \<Longrightarrow> regain_inv (regain_set_casemapping mapping s)"
proof -
  assume inv: "regain_inv s"
  have "eligible (rc_name c) \<and> regain_channel_ok c" if "(k, c) \<in> set (rg_channels s)" for k c
    using inv that map_of_in_iff [of "rg_channels s" k c] by (auto simp: regain_inv_split channels_ok_def)
  then have "channels_ok mapping
      (fold (\<lambda>(_, c). or_insert (cm_fold mapping (rc_name c)) c) (rg_channels s) [])"
    using inv by (intro fold_or_insert_ok) (auto simp: regain_inv_split channels_ok_def)
  then show ?thesis
    using inv unfolding regain_set_casemapping_def
    by (intro regain_inv_touch) (auto simp: regain_inv_split)
qed

lemma poll_channels_Cons:
  "poll_channels now ready flags_of r ((key, chan) # chans) =
     (let one = poll_channel now ready flags_of r chan;
          more = poll_channels now ready flags_of (snd (snd one)) chans
      in ((key, fst one) # fst more, fst (snd one) @ snd more))"
  by (simp add: split_beta Let_def)

declare poll_channels.simps(2) [simp del]

lemma poll_channels_map_of:
  "map_of (fst (poll_channels now ready flags_of r chans)) key = Some chan' \<Longrightarrow>
     \<exists>chan r'. map_of chans key = Some chan \<and> chan' = fst (poll_channel now ready flags_of r' chan)"
proof (induction chans arbitrary: r)
  case (Cons e chans)
  obtain k chan where e: "e = (k, chan)" by (cases e)
  show ?case
  proof (cases "k = key")
    case True
    with Cons.prems e show ?thesis by (auto simp: poll_channels_Cons Let_def)
  next
    case False
    with Cons.prems Cons.IH e show ?thesis by (auto simp: poll_channels_Cons Let_def)
  qed
qed simp

lemma poll_channels_keys: "map fst (fst (poll_channels now ready flags_of r chans)) = map fst chans"
  by (induction chans arbitrary: r) (auto simp: poll_channels_Cons Let_def)

lemma regain_inv_poll: "regain_inv s \<Longrightarrow> regain_inv (fst (regain_poll now ready flags_of s))"
proof -
  assume inv: "regain_inv s"
  let ?c = "fst (poll_channels now ready flags_of 0 (rg_channels s))"
  have "length ?c = length (rg_channels s)"
    by (metis length_map poll_channels_keys)
  moreover have "key = cm_fold (rg_mapping s) (rc_name chan') \<and> eligible (rc_name chan') \<and> regain_channel_ok chan'"
    if "map_of ?c key = Some chan'" for key chan'
    using poll_channels_map_of [OF that] inv channel_ok_poll
    by (auto simp: regain_inv_split channels_ok_def)
  ultimately have "channels_ok (rg_mapping s) ?c"
    using inv by (auto simp: regain_inv_split channels_ok_def keys_distinct_def poll_channels_keys)
  then show ?thesis
    using inv unfolding regain_poll_def
    by (auto simp: regain_inv_split split: prod.splits)
qed

interpretation regain_machine: bounded_machine regain_step "\<lambda>s op. True"
  "\<lambda>s. \<exists>enabled. s = op_regain_new enabled" regain_inv "\<lambda>s. length (rg_channels s)" REGAIN_MAX_TRACKED
proof unfold_locales
  fix s op
  assume "regain_inv s"
  then show "regain_inv (regain_step op s)"
    by (cases op) (auto simp: regain_step_def regain_inv_set_casemapping regain_inv_joined
        regain_inv_parted regain_inv_leaving regain_inv_topic regain_inv_join_failed
        regain_inv_roster regain_inv_poll)
qed (auto simp: regain_inv_def op_regain_new_def touch_def List.map_filter_def min_instant_def)

section \<open>Attempts and joins counted\<close>

definition rejoins_of :: "case_mapping \<Rightarrow> rstring \<Rightarrow> regain_action list \<Rightarrow> nat" where
  "rejoins_of m key acts =
     length (filter (\<lambda>a. case a of Rejoin name \<Rightarrow> cm_fold m name = key | _ \<Rightarrow> False) acts)"

definition joins_of :: "case_mapping \<Rightarrow> rstring \<Rightarrow> regain_action list \<Rightarrow> nat" where
  "joins_of m key acts =
     length (filter (\<lambda>a. case a of Join name \<Rightarrow> cm_fold m name = key | _ \<Rightarrow> False) acts)"

text \<open>Whether a channel has its attempt left, and whether its \<open>JOIN\<close> is still owed.\<close>

definition tried_cost :: "regain_channel \<Rightarrow> nat" where
  "tried_cost chan = (if rc_tried chan then 0 else 1)"

definition owed_cost :: "regain_channel \<Rightarrow> nat" where
  "owed_cost chan = (case rc_stage chan of Attempt until False False \<Rightarrow> 1 | _ \<Rightarrow> 0)"

definition attempt_left :: "(rstring, regain_channel) hmap \<Rightarrow> rstring \<Rightarrow> nat" where
  "attempt_left chans key = (case map_of chans key of Some chan \<Rightarrow> tried_cost chan | None \<Rightarrow> 1)"

definition join_owed :: "(rstring, regain_channel) hmap \<Rightarrow> rstring \<Rightarrow> nat" where
  "join_owed chans key = (case map_of chans key of Some chan \<Rightarrow> owed_cost chan | None \<Rightarrow> 0)"

text \<open>A new chance: a roster of the channel that shows us as operator, or the channel forgotten.\<close>

definition new_chance :: "rstring \<Rightarrow> regain_op \<Rightarrow> op_regain \<Rightarrow> bool" where
  "new_chance key op s \<longleftrightarrow>
     (case op of
        RgRoster name users nick complete now \<Rightarrow> cm_fold (rg_mapping s) name = key \<and> roster_op users nick
      | _ \<Rightarrow> False)
     \<or> map_of (rg_channels s) key \<noteq> None \<and> map_of (rg_channels (regain_step op s)) key = None"

fun regain_actions :: "regain_op list \<Rightarrow> op_regain \<Rightarrow> regain_action list" where
  "regain_actions [] s = []"
| "regain_actions (op # ops) s = snd (regain_call op s) @ regain_actions ops (regain_step op s)"

fun chances :: "rstring \<Rightarrow> regain_op list \<Rightarrow> op_regain \<Rightarrow> nat" where
  "chances key [] s = 0"
| "chances key (op # ops) s =
     (if new_chance key op s then 1 else 0) + chances key ops (regain_step op s)"

fun is_remap :: "regain_op \<Rightarrow> bool" where
  "is_remap (RgSetMapping m) = True"
| "is_remap _ = False"

lemma count_simps [simp]:
  "rejoins_of m key [] = 0" "joins_of m key [] = 0"
  "rejoins_of m key (a @ b) = rejoins_of m key a + rejoins_of m key b"
  "joins_of m key (a @ b) = joins_of m key a + joins_of m key b"
  "rejoins_of m key (Status n st # b) = rejoins_of m key b"
  "rejoins_of m key (Join n # b) = rejoins_of m key b"
  "rejoins_of m key (RestoreStep n f t # b) = rejoins_of m key b"
  "rejoins_of m key (Rejoin n # b) = (if cm_fold m n = key then 1 else 0) + rejoins_of m key b"
  "joins_of m key (Status n st # b) = joins_of m key b"
  "joins_of m key (Rejoin n # b) = joins_of m key b"
  "joins_of m key (RestoreStep n f t # b) = joins_of m key b"
  "joins_of m key (Join n # b) = (if cm_fold m n = key then 1 else 0) + joins_of m key b"
  by (simp_all add: rejoins_of_def joins_of_def)

lemma poll_channel_counts:
  assumes ok: "regain_channel_ok chan" and poll: "poll_channel now ready flags_of r chan = (chan', acts, r')"
  shows "rejoins_of m key acts + tried_cost chan' \<le> tried_cost chan"
    and "joins_of m key acts = 0"
    and "cm_fold m (rc_name chan) = key \<Longrightarrow> owed_cost chan' \<le> owed_cost chan + rejoins_of m key acts"
    and "cm_fold m (rc_name chan) \<noteq> key \<Longrightarrow> rejoins_of m key acts = 0"
proof -
  have "rejoins_of m key acts + tried_cost chan' \<le> tried_cost chan \<and> joins_of m key acts = 0
    \<and> (cm_fold m (rc_name chan) = key \<longrightarrow> owed_cost chan' \<le> owed_cost chan + rejoins_of m key acts)
    \<and> (cm_fold m (rc_name chan) \<noteq> key \<longrightarrow> rejoins_of m key acts = 0)"
  proof (cases "rc_stage chan")
    case Watching
    then show ?thesis using poll by (auto simp: poll_channel_def)
  next
    case (Settling at)
    have "\<not> rc_tried chan" using ok Settling by (simp add: regain_channel_ok_def qualifies_def)
    then show ?thesis
      using poll Settling
      by (auto simp: poll_channel_def tried_cost_def owed_cost_def split: option.splits if_splits)
  next
    case (Attempt until parted joined)
    then show ?thesis
      using poll by (cases "now < until") (auto simp: poll_channel_def tried_cost_def owed_cost_def)
  next
    case (Restoring at flags topic topic_seen)
    show ?thesis
    proof (cases "now < at")
      case True
      then show ?thesis using poll Restoring by (auto simp: poll_channel_def)
    next
      case False
      have "\<exists>st. acts = [Status (rc_name chan) st]"
        and "chan' = chan\<lparr>rc_stage := (if qualifies chan then Settling (now + STABLE) else Watching)\<rparr>"
        using poll Restoring False by (auto simp: poll_channel_def Let_def)
      then show ?thesis by (auto simp: tried_cost_def owed_cost_def)
    qed
  qed
  then show "rejoins_of m key acts + tried_cost chan' \<le> tried_cost chan"
    and "joins_of m key acts = 0"
    and "cm_fold m (rc_name chan) = key \<Longrightarrow> owed_cost chan' \<le> owed_cost chan + rejoins_of m key acts"
    and "cm_fold m (rc_name chan) \<noteq> key \<Longrightarrow> rejoins_of m key acts = 0"
    by blast+
qed

text \<open>The poll of a whole table.\<close>

lemma poll_channels_counts:
  assumes "\<And>k c. (k, c) \<in> set chans \<Longrightarrow> k = cm_fold m (rc_name c) \<and> regain_channel_ok c"
    and "keys_distinct chans"
  shows "rejoins_of m key (snd (poll_channels now ready flags_of r chans))
        + attempt_left (fst (poll_channels now ready flags_of r chans)) key \<le> attempt_left chans key
    \<and> joins_of m key (snd (poll_channels now ready flags_of r chans)) = 0
    \<and> join_owed (fst (poll_channels now ready flags_of r chans)) key
        \<le> join_owed chans key + rejoins_of m key (snd (poll_channels now ready flags_of r chans))
    \<and> (key \<notin> fst ` set chans \<longrightarrow> rejoins_of m key (snd (poll_channels now ready flags_of r chans)) = 0)"
  using assms
proof (induction chans arbitrary: r)
  case (Cons e chans)
  obtain k c where e: "e = (k, c)" by (cases e)
  obtain c' acts r' where one: "poll_channel now ready flags_of r c = (c', acts, r')"
    by (metis prod_cases3)
  have k: "k = cm_fold m (rc_name c)" and ok: "regain_channel_ok c"
    using Cons.prems(1) e by auto
  have "keys_distinct chans" and fresh: "k \<notin> fst ` set chans"
    using Cons.prems(2) e by (auto simp: keys_distinct_def)
  then have IH: "rejoins_of m key (snd (poll_channels now ready flags_of r' chans))
        + attempt_left (fst (poll_channels now ready flags_of r' chans)) key \<le> attempt_left chans key"
    "joins_of m key (snd (poll_channels now ready flags_of r' chans)) = 0"
    "join_owed (fst (poll_channels now ready flags_of r' chans)) key
        \<le> join_owed chans key + rejoins_of m key (snd (poll_channels now ready flags_of r' chans))"
    "key \<notin> fst ` set chans \<Longrightarrow> rejoins_of m key (snd (poll_channels now ready flags_of r' chans)) = 0"
    using Cons.IH [of r'] Cons.prems(1) by auto
  show ?case
  proof (cases "k = key")
    case True
    then have "rejoins_of m key (snd (poll_channels now ready flags_of r' chans)) = 0"
      using IH(4) fresh by blast
    then show ?thesis
      using True IH(2) poll_channel_counts(1,2) [OF ok one, of m key]
        poll_channel_counts(3) [OF ok one, of m key] k
      by (simp add: e one poll_channels_Cons Let_def attempt_left_def join_owed_def)
  next
    case False
    then show ?thesis
      using IH poll_channel_counts(2) [OF ok one, of m key] poll_channel_counts(4) [OF ok one, of m key] k
      by (simp add: e one poll_channels_Cons Let_def attempt_left_def join_owed_def)
  qed
qed simp

lemma roster_channel_counts:
  assumes "roster_channel users nick complete now chan = (chan', acts)"
  shows "rejoins_of m key acts = 0 \<and> joins_of m key acts = 0 \<and> owed_cost chan' \<le> owed_cost chan
    \<and> (\<not> roster_op users nick \<longrightarrow> tried_cost chan' \<le> tried_cost chan)"
  using assms unfolding roster_channel_def roster_stage_def Let_def tried_cost_def owed_cost_def
  by (auto split: stage.splits option.splits if_splits bool.splits prod.splits)

lemma joined_channel_costs:
  "tried_cost (joined_channel name chan) = tried_cost chan"
  "owed_cost (joined_channel name chan) = 0"
  "tried_cost (regain_channel_new name) = 1"
  by (auto simp: tried_cost_def owed_cost_def joined_channel_def regain_channel_new_def
      split: stage.splits bool.splits)

lemma topic_channel_costs:
  "tried_cost (topic_channel topic chan) = tried_cost chan"
  "owed_cost (topic_channel topic chan) = owed_cost chan"
  by (auto simp: tried_cost_def owed_cost_def topic_channel_def split: stage.splits option.splits)

lemma joined_counts:
  "attempt_left (rg_channels (regain_joined name s)) key \<le> attempt_left (rg_channels s) key
   \<and> join_owed (rg_channels (regain_joined name s)) key \<le> join_owed (rg_channels s) key"
proof -
  let ?k = "cm_fold (rg_mapping s) name"
  let ?c = "case map_of (rg_channels s) ?k of Some chan \<Rightarrow> chan | None \<Rightarrow> regain_channel_new name"
  have "rg_channels (regain_joined name s) = rg_channels s
    \<or> rg_channels (regain_joined name s) = AList.update ?k (joined_channel name ?c) (rg_channels s)"
    by (simp add: regain_joined_def Let_def)
  then show ?thesis
    by (elim disjE) (auto simp: attempt_left_def join_owed_def joined_channel_costs split: option.split)
qed

lemma topic_counts:
  "attempt_left (rg_channels (regain_topic name topic s)) key = attempt_left (rg_channels s) key
   \<and> join_owed (rg_channels (regain_topic name topic s)) key = join_owed (rg_channels s) key
   \<and> rg_mapping (regain_topic name topic s) = rg_mapping s"
  by (cases "map_of (rg_channels s) (cm_fold (rg_mapping s) name)")
     (simp_all add: regain_topic_def Let_def attempt_left_def join_owed_def topic_channel_costs)

lemma join_failed_counts:
  "rejoins_of m key (snd (regain_join_failed name s)) = 0
   \<and> joins_of m key (snd (regain_join_failed name s)) = 0
   \<and> attempt_left (rg_channels (fst (regain_join_failed name s))) key = attempt_left (rg_channels s) key
   \<and> join_owed (rg_channels (fst (regain_join_failed name s))) key \<le> join_owed (rg_channels s) key
   \<and> rg_mapping (fst (regain_join_failed name s)) = rg_mapping s"
proof (cases "map_of (rg_channels s) (cm_fold (rg_mapping s) name)")
  case (Some chan)
  then show ?thesis
    by (cases "rc_stage chan")
       (simp_all add: regain_join_failed_def Let_def attempt_left_def join_owed_def tried_cost_def
         owed_cost_def)
qed (simp add: regain_join_failed_def Let_def)

lemma tried_cost_le: "tried_cost chan \<le> Suc n"
  by (simp add: tried_cost_def)

text \<open>One call of the machine.\<close>

lemma regain_call_counts:
  assumes inv: "regain_inv s" and "\<not> is_remap op" and call: "regain_call op s = (s', acts)"
  shows "rejoins_of (rg_mapping s) key acts + attempt_left (rg_channels s') key
      \<le> attempt_left (rg_channels s) key + (if new_chance key op s then 1 else 0)
    \<and> joins_of (rg_mapping s) key acts + join_owed (rg_channels s') key
      \<le> join_owed (rg_channels s) key + rejoins_of (rg_mapping s) key acts
    \<and> rg_mapping s' = rg_mapping s"
proof -
  have named: "key' = cm_fold (rg_mapping s) (rc_name c)" if "map_of (rg_channels s) key' = Some c" for key' c
    using inv that by (auto simp: regain_inv_def)
  have s': "s' = regain_step op s" using call by (simp add: regain_step_def)
  show ?thesis
  proof (cases op)
    case (RgSetMapping m)
    with assms(2) show ?thesis by simp
  next
    case (RgJoined name)
    have "acts = []" "rg_mapping s' = rg_mapping s"
      using call RgJoined by (auto simp: regain_joined_def Let_def)
    moreover have "s' = regain_joined name s" using call RgJoined by simp
    ultimately show ?thesis
      using joined_counts [of name s key] by simp
  next
    case (RgParted name)
    let ?k = "cm_fold (rg_mapping s) name"
    show ?thesis
    proof (cases "map_of (rg_channels s) ?k")
      case None
      then show ?thesis using call RgParted by (auto simp: regain_parted_def Let_def)
    next
      case (Some chan)
      show ?thesis
      proof (cases "\<exists>until. rc_stage chan = Attempt until False False")
        case True
        then show ?thesis
          using call RgParted Some named [OF Some]
          by (auto simp: regain_parted_def Let_def attempt_left_def join_owed_def tried_cost_def
              owed_cost_def)
      next
        case False
        then have "acts = []" and "rg_channels s' = AList.delete ?k (rg_channels s)"
          and "rg_mapping s' = rg_mapping s"
          using call RgParted Some
          by (auto simp: regain_parted_def Let_def split: stage.splits bool.splits)
        then show ?thesis
          using Some by (auto simp: s' [symmetric] new_chance_def attempt_left_def join_owed_def
              split: option.splits)
      qed
    qed
  next
    case (RgLeaving name)
    then show ?thesis
      using call
      by (auto simp: s' new_chance_def regain_step_def regain_leaving_def Let_def attempt_left_def
          join_owed_def split: option.splits)
  next
    case (RgTopic name topic)
    then have "s' = regain_topic name topic s" "acts = []" using call by simp_all
    then show ?thesis
      using topic_counts [of name topic s key] by simp
  next
    case (RgJoinFailed name)
    then have "s' = fst (regain_join_failed name s)" "acts = snd (regain_join_failed name s)"
      using call by simp_all
    then show ?thesis
      using join_failed_counts [of "rg_mapping s" key name s] by simp
  next
    case (RgRoster name users nick complete now)
    show ?thesis
    proof (cases "map_of (rg_channels s) (cm_fold (rg_mapping s) name)")
      case None
      then show ?thesis using call RgRoster by (auto simp: regain_roster_def Let_def)
    next
      case (Some chan)
      obtain chan' as where r: "roster_channel users nick complete now chan = (chan', as)" by fastforce
      have "acts = as" and upd: "rg_channels s' = AList.update (cm_fold (rg_mapping s) name) chan' (rg_channels s)"
        and "rg_mapping s' = rg_mapping s"
        using call RgRoster Some r by (auto simp: regain_roster_def Let_def)
      then show ?thesis
        using roster_channel_counts [OF r, of "rg_mapping s" key] Some RgRoster
        by (auto simp: attempt_left_def join_owed_def new_chance_def tried_cost_le)
    qed
  next
    case (RgPoll now ready flags_of)
    have "k = cm_fold (rg_mapping s) (rc_name c) \<and> regain_channel_ok c" if "(k, c) \<in> set (rg_channels s)" for k c
      using inv that map_of_in_iff [of "rg_channels s" k c] by (auto simp: regain_inv_def)
    moreover have "keys_distinct (rg_channels s)" using inv by (simp add: regain_inv_def)
    ultimately show ?thesis
      using poll_channels_counts [of "rg_channels s" "rg_mapping s" key now ready flags_of 0] call RgPoll
      by (auto simp: regain_poll_def split: prod.splits)
  qed
qed

lemma regain_run_counts:
  assumes "regain_inv s" and "list_all (\<lambda>op. \<not> is_remap op) ops"
  shows "rejoins_of (rg_mapping s) key (regain_actions ops s)
        + attempt_left (rg_channels (fold regain_step ops s)) key
      \<le> attempt_left (rg_channels s) key + chances key ops s
    \<and> joins_of (rg_mapping s) key (regain_actions ops s)
        + join_owed (rg_channels (fold regain_step ops s)) key
      \<le> join_owed (rg_channels s) key + rejoins_of (rg_mapping s) key (regain_actions ops s)"
  using assms
proof (induction ops arbitrary: s)
  case (Cons op ops)
  obtain s' acts where call: "regain_call op s = (s', acts)" by fastforce
  have s': "s' = regain_step op s" using call by (simp add: regain_step_def)
  have inv': "regain_inv s'" using regain_machine.step_inv Cons.prems(1) s' by blast
  show ?case
    using Cons.IH [OF inv'] Cons.prems(2) regain_call_counts [OF Cons.prems(1) _ call, of key]
    by (auto simp: call s' [symmetric])
qed simp

section \<open>The poll\<close>

lemma poll_channel_future:
  "stage_instant (rc_stage (fst (poll_channel now ready flags_of r chan))) = Some t \<Longrightarrow> now < t"
  unfolding poll_channel_def Let_def STABLE_def REJOIN_SPACING_def ATTEMPT_TIMEOUT_def
  by (auto split: stage.splits option.splits if_splits)

lemma set_map_filter_stage:
  "keys_distinct chans \<Longrightarrow>
     t \<in> set (List.map_filter (\<lambda>(_, c). stage_instant (rc_stage c)) chans)
     \<longleftrightarrow> (\<exists>key c. map_of chans key = Some c \<and> stage_instant (rc_stage c) = Some t)"
  by (auto simp: List.map_filter_def map_of_in_iff image_iff split: prod.splits) (metis option.sel)+

lemma rejoin_needs:
  assumes "regain_channel_ok chan" and "poll_channel now ready flags_of r chan = (chan', acts, r')"
  shows "(Rejoin name \<in> set acts \<longrightarrow> rc_name chan = name \<and> ready \<and> flags_of name \<noteq> None
      \<and> qualifies chan \<and> blen (rc_topic chan) \<le> MAX_TOPIC \<and> (\<exists>at \<le> now. rc_stage chan = Settling at))
    \<and> length (filter (\<lambda>a. \<exists>n. a = Rejoin n) acts) + r = r'
    \<and> (r \<le> MAX_REJOINS_PER_POLL \<longrightarrow> r' \<le> MAX_REJOINS_PER_POLL)"
  using assms(2,1) unfolding poll_channel_def Let_def
  by (auto simp: regain_channel_ok_def split: stage.splits option.splits if_splits)

lemma poll_channels_needs:
  assumes "\<And>k c. (k, c) \<in> set chans \<Longrightarrow> regain_channel_ok c" and "r \<le> MAX_REJOINS_PER_POLL"
  shows "(Rejoin name \<in> set (snd (poll_channels now ready flags_of r chans)) \<longrightarrow>
      (\<exists>(k, chan) \<in> set chans. rc_name chan = name \<and> ready \<and> flags_of name \<noteq> None
        \<and> qualifies chan \<and> blen (rc_topic chan) \<le> MAX_TOPIC \<and> (\<exists>at \<le> now. rc_stage chan = Settling at)))
    \<and> length (filter (\<lambda>a. \<exists>n. a = Rejoin n) (snd (poll_channels now ready flags_of r chans))) + r
        \<le> MAX_REJOINS_PER_POLL"
  using assms
proof (induction chans arbitrary: r)
  case (Cons e chans)
  obtain k c where e: "e = (k, c)" by (cases e)
  obtain c' acts r' where one: "poll_channel now ready flags_of r c = (c', acts, r')"
    by (metis prod_cases3)
  have "regain_channel_ok c" using Cons.prems(1) e by auto
  note needs = rejoin_needs [OF this one, of name]
  have "r' \<le> MAX_REJOINS_PER_POLL" using needs Cons.prems(2) by blast
  then have IH: "Rejoin name \<in> set (snd (poll_channels now ready flags_of r' chans)) \<longrightarrow>
      (\<exists>(k, chan) \<in> set chans. rc_name chan = name \<and> ready \<and> flags_of name \<noteq> None
        \<and> qualifies chan \<and> blen (rc_topic chan) \<le> MAX_TOPIC \<and> (\<exists>at \<le> now. rc_stage chan = Settling at))"
    "length (filter (\<lambda>a. \<exists>n. a = Rejoin n) (snd (poll_channels now ready flags_of r' chans))) + r'
        \<le> MAX_REJOINS_PER_POLL"
    using Cons.IH [of r'] Cons.prems(1) by auto
  have "length (filter (\<lambda>a. \<exists>n. a = Rejoin n)
      (snd (poll_channels now ready flags_of r (e # chans)))) + r \<le> MAX_REJOINS_PER_POLL"
    using IH(2) needs by (auto simp: e one poll_channels_Cons Let_def)
  moreover have "Rejoin name \<in> set (snd (poll_channels now ready flags_of r (e # chans))) \<longleftrightarrow>
      Rejoin name \<in> set acts \<or> Rejoin name \<in> set (snd (poll_channels now ready flags_of r' chans))"
    by (simp add: e one poll_channels_Cons Let_def)
  ultimately show ?case
    using IH(1) needs by (simp add: e)
qed simp

section \<open>Properties\<close>

text \<open>C2. A channel is parted and joined again at most once, plus once more for every time a roster
  showed us as operator in it and every time it was forgotten because we left; and every \<open>JOIN\<close>
  answers one such attempt.\<close>
theorem regain_one_attempt:
  assumes "regain_machine.reachable s" and "list_all (\<lambda>op. \<not> is_remap op) ops"
  shows "rejoins_of (rg_mapping s) key (regain_actions ops s) \<le> 1 + chances key ops s
    \<and> joins_of (rg_mapping s) key (regain_actions ops s)
        + join_owed (rg_channels (fold regain_step ops s)) key
        \<le> join_owed (rg_channels s) key + rejoins_of (rg_mapping s) key (regain_actions ops s)"
proof -
  have "attempt_left (rg_channels s) key \<le> 1" by (simp add: attempt_left_def tried_cost_def split: option.splits)
  then show ?thesis
    using regain_run_counts [OF regain_machine.reachable_inv [OF assms(1)] assms(2), of key] by linarith
qed

theorem regain_one_attempt_witness:
  "rejoins_of default_mapping (lit ''#a'')
     (regain_actions [RgJoined (lit ''#a''), RgRoster (lit ''#a'') [lit ''me''] (lit ''me'') True 0]
        (op_regain_new True))
   \<le> 1 + chances (lit ''#a'') [RgJoined (lit ''#a''), RgRoster (lit ''#a'') [lit ''me''] (lit ''me'') True 0]
        (op_regain_new True)"
proof -
  have r: "regain_machine.reachable (op_regain_new True)"
    by (rule regain_machine.reachable.start) blast
  have l: "list_all (\<lambda>op. \<not> is_remap op)
      [RgJoined (lit ''#a''), RgRoster (lit ''#a'') [lit ''me''] (lit ''me'') True 0]"
    by simp
  have m: "rg_mapping (op_regain_new True) = default_mapping"
    by (simp add: op_regain_new_def)
  show ?thesis
    using regain_one_attempt [OF r l, of "lit ''#a''", unfolded m] by (rule conjunct1)
qed

text \<open>C23. A poll parts a channel only when the connection is ready, its flags are known, its wait is
  over, we are alone in it without operator status and its topic can be put back; at most four
  channels at once; and afterwards the next deadline lies in the future.\<close>
theorem regain_poll_safe:
  assumes "regain_inv s" and "regain_poll now ready flags_of s = (s', acts)"
  shows "(\<forall>name. Rejoin name \<in> set acts \<longrightarrow> ready \<and> flags_of name \<noteq> None
      \<and> (\<exists>chan. map_of (rg_channels s) (cm_fold (rg_mapping s) name) = Some chan
           \<and> rc_alone chan \<and> \<not> rc_op chan \<and> rc_in_channel chan \<and> \<not> rc_tried chan
           \<and> blen (rc_topic chan) \<le> 400 \<and> (\<exists>at \<le> now. rc_stage chan = Settling at)))
    \<and> length (filter (\<lambda>a. \<exists>n. a = Rejoin n) acts) \<le> 4
    \<and> (\<forall>t. regain_next_deadline s' = Some t \<longrightarrow> now < t)"
proof (intro conjI allI impI)
  have entry: "k = cm_fold (rg_mapping s) (rc_name c) \<and> regain_channel_ok c
      \<and> map_of (rg_channels s) k = Some c"
    if "(k, c) \<in> set (rg_channels s)" for k c
    using assms(1) that map_of_in_iff [of "rg_channels s" k c] by (auto simp: regain_inv_def)
  have acts: "acts = snd (poll_channels now ready flags_of 0 (rg_channels s))"
    and s': "s' = touch (s\<lparr>rg_channels := fst (poll_channels now ready flags_of 0 (rg_channels s))\<rparr>)"
    using assms(2) by (auto simp: regain_poll_def split: prod.splits)
  have needs: "(Rejoin name \<in> set acts \<longrightarrow>
      (\<exists>(k, chan) \<in> set (rg_channels s). rc_name chan = name \<and> ready \<and> flags_of name \<noteq> None
        \<and> qualifies chan \<and> blen (rc_topic chan) \<le> MAX_TOPIC \<and> (\<exists>at \<le> now. rc_stage chan = Settling at)))
    \<and> length (filter (\<lambda>a. \<exists>n. a = Rejoin n) acts) + 0 \<le> MAX_REJOINS_PER_POLL" for name
    unfolding acts by (rule poll_channels_needs) (use entry in blast, simp)
  show "length (filter (\<lambda>a. \<exists>n. a = Rejoin n) acts) \<le> 4"
    using needs by (simp add: MAX_REJOINS_PER_POLL_def)
  fix name assume "Rejoin name \<in> set acts"
  then obtain k chan where "(k, chan) \<in> set (rg_channels s)" "rc_name chan = name" "ready"
    "flags_of name \<noteq> None" "qualifies chan" "blen (rc_topic chan) \<le> MAX_TOPIC"
    "\<exists>at \<le> now. rc_stage chan = Settling at"
    using needs [of name] by blast
  then show "ready" "flags_of name \<noteq> None"
    "\<exists>chan. map_of (rg_channels s) (cm_fold (rg_mapping s) name) = Some chan
           \<and> rc_alone chan \<and> \<not> rc_op chan \<and> rc_in_channel chan \<and> \<not> rc_tried chan
           \<and> blen (rc_topic chan) \<le> 400 \<and> (\<exists>at \<le> now. rc_stage chan = Settling at)"
    using entry by (auto simp: qualifies_def MAX_TOPIC_def)
next
  fix t assume "regain_next_deadline s' = Some t"
  then have "t \<in> set (List.map_filter (\<lambda>(_, c). stage_instant (rc_stage c))
      (fst (poll_channels now ready flags_of 0 (rg_channels s))))"
    using assms(2) by (auto simp: regain_next_deadline_def regain_poll_def touch_def min_instant_iff split: prod.splits)
  moreover have "keys_distinct (fst (poll_channels now ready flags_of 0 (rg_channels s)))"
    using assms(1) by (simp add: regain_inv_def keys_distinct_def poll_channels_keys)
  ultimately obtain key c where "map_of (fst (poll_channels now ready flags_of 0 (rg_channels s))) key = Some c"
    "stage_instant (rc_stage c) = Some t"
    by (auto simp: set_map_filter_stage)
  then show "now < t"
    using poll_channels_map_of poll_channel_future by metis
qed

theorem regain_poll_safe_witness:
  "length (filter (\<lambda>a. \<exists>n. a = Rejoin n) (snd (regain_poll 6000 True (\<lambda>_. Some (lit ''nt''))
     (fold regain_step [RgJoined (lit ''#a''), RgRoster (lit ''#a'') [lit ''me''] (lit ''me'') True 0]
        (op_regain_new True))))) \<le> 4"
proof -
  have "regain_inv (fold regain_step
      [RgJoined (lit ''#a''), RgRoster (lit ''#a'') [lit ''me''] (lit ''me'') True 0] (op_regain_new True))"
    by (rule regain_machine.run_init_inv) (blast, simp_all only: regain_machine.run_ok_total)
  from regain_poll_safe [OF this surjective_pairing] show ?thesis by blast
qed

text \<open>On every run, at most 512 channels are tracked, each under its folded name; a channel
  waits for its attempt only while we are alone in it without operator status and no attempt was
  made; what an attempt will put back is made of the flags \<open>imnpst\<close> and a topic of at most 400
  bytes; and the cached deadline is the earliest instant any channel waits for.\<close>
theorem regain_bounded:
  assumes "regain_machine.reachable s"
  shows "length (rg_channels s) \<le> 512
    \<and> (\<forall>key chan. map_of (rg_channels s) key = Some chan \<longrightarrow>
         key = cm_fold (rg_mapping s) (rc_name chan)
         \<and> (\<forall>at. rc_stage chan = Settling at \<longrightarrow> rc_alone chan \<and> \<not> rc_op chan \<and> \<not> rc_tried chan)
         \<and> (\<forall>re. rc_restore chan = Some re \<longrightarrow> set (re_flags re) \<subseteq> set (lit ''imnpst'')
              \<and> (\<forall>topic. re_topic re = Some topic \<longrightarrow> blen topic \<le> 400)))
    \<and> (case regain_next_deadline s of
         None \<Rightarrow> (\<forall>key chan. map_of (rg_channels s) key = Some chan \<longrightarrow> rc_stage chan = Watching)
       | Some t \<Rightarrow>
           (\<exists>key chan. map_of (rg_channels s) key = Some chan \<and> stage_instant (rc_stage chan) = Some t)
           \<and> (\<forall>key chan u. map_of (rg_channels s) key = Some chan
                \<and> stage_instant (rc_stage chan) = Some u \<longrightarrow> t \<le> u))"
proof (intro conjI)
  have inv: "regain_inv s" using regain_machine.reachable_inv [OF assms] .
  show "length (rg_channels s) \<le> 512" using inv by (simp add: regain_inv_def REGAIN_MAX_TRACKED_def)
  show "\<forall>key chan. map_of (rg_channels s) key = Some chan \<longrightarrow>
         key = cm_fold (rg_mapping s) (rc_name chan)
         \<and> (\<forall>at. rc_stage chan = Settling at \<longrightarrow> rc_alone chan \<and> \<not> rc_op chan \<and> \<not> rc_tried chan)
         \<and> (\<forall>re. rc_restore chan = Some re \<longrightarrow> set (re_flags re) \<subseteq> set (lit ''imnpst'')
              \<and> (\<forall>topic. re_topic re = Some topic \<longrightarrow> blen topic \<le> 400))"
  proof (intro allI impI)
    fix key chan assume "map_of (rg_channels s) key = Some chan"
    then have "key = cm_fold (rg_mapping s) (rc_name chan)" and "regain_channel_ok chan"
      using inv by (auto simp: regain_inv_def)
    then show "key = cm_fold (rg_mapping s) (rc_name chan)
         \<and> (\<forall>at. rc_stage chan = Settling at \<longrightarrow> rc_alone chan \<and> \<not> rc_op chan \<and> \<not> rc_tried chan)
         \<and> (\<forall>re. rc_restore chan = Some re \<longrightarrow> set (re_flags re) \<subseteq> set (lit ''imnpst'')
              \<and> (\<forall>topic. re_topic re = Some topic \<longrightarrow> blen topic \<le> 400))"
      by (auto simp: regain_channel_ok_def qualifies_def restore_ok_def RESTORED_FLAGS_def MAX_TOPIC_def)
  qed
  let ?ts = "List.map_filter (\<lambda>(_, c). stage_instant (rc_stage c)) (rg_channels s)"
  have ts: "\<And>t. t \<in> set ?ts \<longleftrightarrow> (\<exists>key c. map_of (rg_channels s) key = Some c \<and> stage_instant (rc_stage c) = Some t)"
    using inv by (intro set_map_filter_stage) (simp add: regain_inv_def)
  have d: "regain_next_deadline s = min_instant ?ts"
    using inv by (simp add: regain_inv_def regain_next_deadline_def touch_def)
  have watching: "stage_instant st = None \<longleftrightarrow> st = Watching" for st by (cases st) auto
  show "case regain_next_deadline s of
         None \<Rightarrow> (\<forall>key chan. map_of (rg_channels s) key = Some chan \<longrightarrow> rc_stage chan = Watching)
       | Some t \<Rightarrow>
           (\<exists>key chan. map_of (rg_channels s) key = Some chan \<and> stage_instant (rc_stage chan) = Some t)
           \<and> (\<forall>key chan u. map_of (rg_channels s) key = Some chan
                \<and> stage_instant (rc_stage chan) = Some u \<longrightarrow> t \<le> u)"
  proof (cases "min_instant ?ts")
    case None
    then have "?ts = []" by (simp only: min_instant_None)
    then have "stage_instant (rc_stage c) = None" if "map_of (rg_channels s) key = Some c" for key c
      using ts that by (metis list.set(1) empty_iff not_None_eq)
    then show ?thesis using None by (simp add: d watching)
  next
    case (Some t)
    then have "t \<in> set ?ts" "\<And>u. u \<in> set ?ts \<Longrightarrow> t \<le> u" by (auto simp: min_instant_iff)
    then show ?thesis unfolding d Some option.case using ts by blast
  qed
qed

theorem regain_bounded_witness:
  "length (rg_channels (regain_step (RgJoined (lit ''#a'')) (op_regain_new True))) \<le> 512"
  by (rule regain_bounded [THEN conjunct1])
     (blast intro: regain_machine.reachable.start regain_machine.reachable.call)

end
