(* ===== verification/Presence.thy ===== *)
theory Presence
  imports Wire Text Contracts "HOL-Library.List_Lexorder"
begin

text \<open>
  \<open>crates/irc-core/src/presence.rs\<close>: who is present in which joined channel, indexed both ways, with
  one identity per presence. A set of users is the list of its members; user identities are natural
  numbers (the 64-bit counter cannot run out on a connection). Strings are sorted by their
  characters, which is the order of their UTF-8 bytes.
\<close>

section \<open>State\<close>

type_synonym user_id = nat

record presence =
  pr_key :: rstring
  pr_nick :: rstring
  pr_channels :: "rstring list"

record members =
  mb_key :: rstring
  mb_name :: rstring
  mb_users :: "user_id list"

definition members_default :: members where
  "members_default = \<lparr>mb_key = [], mb_name = [], mb_users = []\<rparr>"

record presence_index =
  px_next :: nat
  px_by_nick :: "(rstring, user_id) hmap"
  px_users :: "(user_id, presence) hmap"
  px_channels :: "(rstring, members) hmap"
  px_casemapping :: case_mapping

definition presence_default :: presence_index where
  "presence_default =
     \<lparr>px_next = 0, px_by_nick = [], px_users = [], px_channels = [],
      px_casemapping = default_mapping\<rparr>"

section \<open>Operations\<close>

definition channel_key :: "presence_index \<Rightarrow> rstring \<Rightarrow> rstring" where
  "channel_key px channel = cm_fold (px_casemapping px) channel"

text \<open>One channel moved to its new key, with the map from old keys to new ones.\<close>

definition rekey_members ::
  "case_mapping \<Rightarrow> members \<Rightarrow> (rstring, rstring) hmap \<times> (rstring, members) hmap
   \<Rightarrow> (rstring, rstring) hmap \<times> (rstring, members) hmap" where
  "rekey_members mapping mb = (\<lambda>(moved, channels).
     (let key = cm_fold mapping (mb_name mb);
          merged = (case map_of channels key of Some old \<Rightarrow> old | None \<Rightarrow> members_default);
          merged = (if mb_key merged = [] then merged\<lparr>mb_key := key, mb_name := mb_name mb\<rparr>
                    else merged);
          moved = AList.update (mb_key mb) (mb_key merged) moved;
          merged = merged\<lparr>mb_users := fold List.insert (mb_users mb) (mb_users merged)\<rparr>
      in (moved, AList.update key merged channels)))"

text \<open>The channels of a presence under their new keys, each once.\<close>

fun moved_channels :: "(rstring, rstring) hmap \<Rightarrow> rstring list \<Rightarrow> rstring list \<Rightarrow> rstring list" where
  "moved_channels moved kept [] = kept"
| "moved_channels moved kept (old # olds) =
     (case map_of moved old of
        Some new \<Rightarrow> moved_channels moved (if new \<in> set kept then kept else kept @ [new]) olds
      | None \<Rightarrow> moved_channels moved kept olds)"

definition presence_set_casemapping :: "case_mapping \<Rightarrow> presence_index \<Rightarrow> presence_index" where
  "presence_set_casemapping mapping px =
     (if px_casemapping px = mapping then px
      else
        (let (moved, channels) = fold (rekey_members mapping) (map snd (px_channels px)) ([], [])
         in px\<lparr>px_casemapping := mapping, px_channels := channels,
               px_users := map (\<lambda>(i, p). (i, p\<lparr>pr_channels := moved_channels moved [] (pr_channels p)\<rparr>))
                             (px_users px)\<rparr>))"

definition presence_user :: "presence_index \<Rightarrow> rstring \<Rightarrow> user_id option" where
  "presence_user px nickname = map_of (px_by_nick px) (nickname_key nickname)"

definition in_channel :: "presence_index \<Rightarrow> rstring \<Rightarrow> rstring \<Rightarrow> bool" where
  "in_channel px channel nickname \<longleftrightarrow>
     (case presence_user px nickname of
        None \<Rightarrow> False
      | Some i \<Rightarrow>
          (case map_of (px_channels px) (channel_key px channel) of
             None \<Rightarrow> False
           | Some mb \<Rightarrow> i \<in> set (mb_users mb)))"

definition presence_of :: "presence_index \<Rightarrow> rstring \<Rightarrow> presence option" where
  "presence_of px nickname = Option.bind (presence_user px nickname) (map_of (px_users px))"

definition channel_keys_of :: "presence_index \<Rightarrow> rstring \<Rightarrow> rstring list" where
  "channel_keys_of px nickname =
     (case presence_of px nickname of None \<Rightarrow> [] | Some p \<Rightarrow> pr_channels p)"

definition only_in :: "presence_index \<Rightarrow> rstring \<Rightarrow> rstring list" where
  "only_in px channel =
     (case map_of (px_channels px) (channel_key px channel) of
        None \<Rightarrow> []
      | Some mb \<Rightarrow>
          sort (map pr_nick (filter (\<lambda>p. length (pr_channels p) = 1)
                  (List.map_filter (map_of (px_users px)) (mb_users mb)))))"

definition shares :: "presence_index \<Rightarrow> rstring \<Rightarrow> rstring option \<Rightarrow> bool" where
  "shares px nickname except \<longleftrightarrow>
     (let except = map_option (channel_key px) except
      in case presence_of px nickname of
           None \<Rightarrow> False
         | Some p \<Rightarrow> list_ex (\<lambda>channel. Some channel \<noteq> except) (pr_channels p))"

definition departed_from ::
  "presence_index \<Rightarrow> (rstring \<Rightarrow> bool) \<Rightarrow> rstring \<Rightarrow> rstring \<Rightarrow> rstring list" where
  "departed_from px ours channel leaving =
     (if ours leaving then filter (\<lambda>nick. \<not> ours nick) (only_in px channel)
      else if shares px leaving (Some channel) then []
      else [leaving])"

definition departed :: "presence_index \<Rightarrow> message \<Rightarrow> rstring \<Rightarrow> (rstring \<Rightarrow> bool) \<Rightarrow> rstring list" where
  "departed px m actor ours =
     (case m_command m of
        QUIT _ \<Rightarrow> (if ours actor then [] else [actor])
      | PART channel _ \<Rightarrow> departed_from px ours channel actor
      | KICK channel nickname _ \<Rightarrow> departed_from px ours channel nickname
      | _ \<Rightarrow> [])"

definition forget_in :: "user_id \<Rightarrow> rstring \<Rightarrow> (rstring, members) hmap \<Rightarrow> (rstring, members) hmap" where
  "forget_in i channel channels =
     (case map_of channels channel of
        None \<Rightarrow> channels
      | Some mb \<Rightarrow> AList.update channel (mb\<lparr>mb_users := removeAll i (mb_users mb)\<rparr>) channels)"

definition forget :: "user_id \<Rightarrow> presence_index \<Rightarrow> presence_index" where
  "forget i px =
     (case map_of (px_users px) i of
        None \<Rightarrow> px
      | Some p \<Rightarrow>
          px\<lparr>px_users := AList.delete i (px_users px),
             px_by_nick := AList.delete (pr_key p) (px_by_nick px),
             px_channels := fold (forget_in i) (pr_channels p) (px_channels px)\<rparr>)"

definition leave :: "rstring \<Rightarrow> user_id \<Rightarrow> presence_index \<Rightarrow> presence_index" where
  "leave key i px =
     (case map_of (px_users px) i of
        None \<Rightarrow> px
      | Some p \<Rightarrow>
          (let kept = filter (\<lambda>channel. channel \<noteq> key) (pr_channels p);
               px = px\<lparr>px_users := AList.update i (p\<lparr>pr_channels := kept\<rparr>) (px_users px)\<rparr>
           in if kept = [] then forget i px else px))"

text \<open>One member of a roster: its identity, made when the nickname is not known.\<close>

definition enter_member ::
  "rstring \<Rightarrow> presence_index \<times> user_id list \<Rightarrow> presence_index \<times> user_id list" where
  "enter_member member = (\<lambda>(px, present).
     (let nickname = display_nickname member
      in if nickname = [] then (px, present)
         else
           (let key = nickname_key nickname
            in case map_of (px_by_nick px) key of
                 Some i \<Rightarrow>
                   (case map_of (px_users px) i of
                      Some p \<Rightarrow>
                        (px\<lparr>px_users := AList.update i (p\<lparr>pr_nick := nickname\<rparr>) (px_users px)\<rparr>,
                         List.insert i present)
                    | None \<Rightarrow> (px, List.insert i present))
               | None \<Rightarrow>
                   (let i = px_next px
                    in (px\<lparr>px_next := i + 1,
                           px_by_nick := AList.update key i (px_by_nick px),
                           px_users := AList.update i
                             \<lparr>pr_key = key, pr_nick = nickname, pr_channels = []\<rparr> (px_users px)\<rparr>,
                        List.insert i present)))))"

definition push_channel :: "rstring \<Rightarrow> user_id \<Rightarrow> (user_id, presence) hmap \<Rightarrow> (user_id, presence) hmap" where
  "push_channel key i users =
     (case map_of users i of
        None \<Rightarrow> users
      | Some p \<Rightarrow>
          (if key \<in> set (pr_channels p) then users
           else AList.update i (p\<lparr>pr_channels := pr_channels p @ [key]\<rparr>) users))"

text \<open>\<open>entry(key).or_default()\<close>.\<close>

definition entry_of :: "presence_index \<Rightarrow> rstring \<Rightarrow> members" where
  "entry_of px ck = (case map_of (px_channels px) ck of Some mb \<Rightarrow> mb | None \<Rightarrow> members_default)"

definition replace_channel :: "rstring \<Rightarrow> rstring list \<Rightarrow> presence_index \<Rightarrow> presence_index" where
  "replace_channel channel roster px =
     (let ck = channel_key px channel;
          (px, present) = fold enter_member roster (px, []);
          entry = entry_of px ck;
          key = (if mb_key entry = [] then ck else mb_key entry);
          gone = filter (\<lambda>i. i \<notin> set present) (mb_users entry);
          px = px\<lparr>px_users := fold (push_channel key) present (px_users px),
                  px_channels := AList.update ck
                    (entry\<lparr>mb_name := channel, mb_key := key, mb_users := present\<rparr>) (px_channels px)\<rparr>
      in fold (leave ck) gone px)"

definition remove_channel :: "rstring \<Rightarrow> presence_index \<Rightarrow> presence_index" where
  "remove_channel channel px =
     (let ck = channel_key px channel
      in case map_of (px_channels px) ck of
           None \<Rightarrow> px
         | Some mb \<Rightarrow>
             fold (leave ck) (mb_users mb) (px\<lparr>px_channels := AList.delete ck (px_channels px)\<rparr>))"

definition presence_rename :: "rstring \<Rightarrow> rstring \<Rightarrow> presence_index \<Rightarrow> presence_index" where
  "presence_rename old new px =
     (case map_of (px_by_nick px) (nickname_key old) of
        None \<Rightarrow> px
      | Some i \<Rightarrow>
          (let px = px\<lparr>px_by_nick := AList.delete (nickname_key old) (px_by_nick px)\<rparr>;
               key = nickname_key new;
               px = (case map_of (px_by_nick px) key of
                       None \<Rightarrow> px
                     | Some stale \<Rightarrow>
                         (let px = px\<lparr>px_by_nick := AList.delete key (px_by_nick px)\<rparr>
                          in if stale \<noteq> i then forget stale px else px));
               px = px\<lparr>px_by_nick := AList.update key i (px_by_nick px)\<rparr>
           in case map_of (px_users px) i of
                None \<Rightarrow> px
              | Some p \<Rightarrow>
                  px\<lparr>px_users := AList.update i (p\<lparr>pr_key := key, pr_nick := new\<rparr>) (px_users px)\<rparr>))"

definition presence_quit :: "rstring \<Rightarrow> presence_index \<Rightarrow> presence_index" where
  "presence_quit nickname px =
     (case presence_user px nickname of None \<Rightarrow> px | Some i \<Rightarrow> forget i px)"

text \<open>The check the code's tests run: both directions agree and nothing is orphaned.\<close>

definition consistent :: "presence_index \<Rightarrow> bool" where
  "consistent px \<longleftrightarrow>
     list_all (\<lambda>(i, p).
       pr_channels p \<noteq> [] \<and> map_of (px_by_nick px) (pr_key p) = Some i
       \<and> list_all (\<lambda>channel.
           case map_of (px_channels px) channel of
             Some mb \<Rightarrow> i \<in> set (mb_users mb) | None \<Rightarrow> False) (pr_channels p)) (px_users px)
     \<and> length (px_by_nick px) = length (px_users px)
     \<and> list_all (\<lambda>(_, mb).
         list_all (\<lambda>i.
           case map_of (px_users px) i of
             Some p \<Rightarrow> list_ex (\<lambda>c. c = channel_key px (mb_name mb)) (pr_channels p)
           | None \<Rightarrow> False) (mb_users mb)) (px_channels px)"

section \<open>The invariant\<close>

text \<open>The channels of a user and the users of a channel, and the relation between nicknames and
  channels the whole index stands for.\<close>

definition channels_of_user :: "presence_index \<Rightarrow> user_id \<Rightarrow> rstring set" where
  "channels_of_user px i =
     (case map_of (px_users px) i of Some p \<Rightarrow> set (pr_channels p) | None \<Rightarrow> {})"

definition users_of_channel :: "presence_index \<Rightarrow> rstring \<Rightarrow> user_id set" where
  "users_of_channel px ck =
     (case map_of (px_channels px) ck of Some mb \<Rightarrow> set (mb_users mb) | None \<Rightarrow> {})"

definition presence_rel :: "presence_index \<Rightarrow> (rstring \<times> rstring) set" where
  "presence_rel px =
     {(n, c). \<exists>i. map_of (px_by_nick px) n = Some i \<and> c \<in> channels_of_user px i}"

definition presence_ok :: "presence_index \<Rightarrow> bool \<Rightarrow> user_id \<Rightarrow> presence \<Rightarrow> bool" where
  "presence_ok px pending i p \<longleftrightarrow>
     distinct (pr_channels p) \<and> (pr_channels p \<noteq> [] \<or> pending)
     \<and> map_of (px_by_nick px) (pr_key p) = Some i
     \<and> pr_key p = nickname_key (pr_nick p) \<and> i < px_next px"

text \<open>The invariant while an operation is under way: \<open>fresh\<close> are the users that may have no channel
  yet, \<open>stale\<close> the pairs a user still lists and the channel no longer has.\<close>

definition core_inv :: "(user_id \<times> rstring) set \<Rightarrow> user_id set \<Rightarrow> presence_index \<Rightarrow> bool" where
  "core_inv stale fresh px \<longleftrightarrow>
     keys_distinct (px_by_nick px) \<and> keys_distinct (px_users px) \<and> keys_distinct (px_channels px)
     \<and> (\<forall>i p. map_of (px_users px) i = Some p \<longrightarrow> presence_ok px (i \<in> fresh) i p)
     \<and> (\<forall>k i. map_of (px_by_nick px) k = Some i \<longrightarrow>
          (\<exists>p. map_of (px_users px) i = Some p \<and> pr_key p = k))
     \<and> (\<forall>ck mb. map_of (px_channels px) ck = Some mb \<longrightarrow>
          mb_key mb = ck \<and> ck = channel_key px (mb_name mb) \<and> distinct (mb_users mb))
     \<and> (\<forall>i ck. ck \<in> channels_of_user px i \<longleftrightarrow> i \<in> users_of_channel px ck \<or> (i, ck) \<in> stale)"

definition presence_inv :: "presence_index \<Rightarrow> bool" where
  "presence_inv px \<longleftrightarrow> core_inv {} {} px"

lemma core_invD:
  assumes "core_inv stale fresh px"
  shows "keys_distinct (px_by_nick px)" "keys_distinct (px_users px)" "keys_distinct (px_channels px)"
    and "map_of (px_users px) i = Some p \<Longrightarrow> presence_ok px (i \<in> fresh) i p"
    and "map_of (px_by_nick px) k = Some i \<Longrightarrow> \<exists>p. map_of (px_users px) i = Some p \<and> pr_key p = k"
    and "map_of (px_channels px) ck = Some mb \<Longrightarrow>
      mb_key mb = ck \<and> ck = channel_key px (mb_name mb) \<and> distinct (mb_users mb)"
    and "ck \<in> channels_of_user px i \<longleftrightarrow> i \<in> users_of_channel px ck \<or> (i, ck) \<in> stale"
  using assms unfolding core_inv_def by blast+

lemma by_nick_inj:
  assumes "core_inv stale fresh px" and "map_of (px_by_nick px) k = Some i"
    and "map_of (px_by_nick px) k' = Some i"
  shows "k = k'"
  using core_invD(5) [OF assms(1,2)] core_invD(5) [OF assms(1,3)] by auto

lemma presence_inv_default: "presence_inv presence_default"
  by (simp add: presence_inv_def core_inv_def presence_default_def channels_of_user_def
      users_of_channel_def)

text \<open>The invariant gives the check of the tests.\<close>

lemma length_by_nick:
  assumes "core_inv stale fresh px"
  shows "length (px_by_nick px) = length (px_users px)"
proof -
  let ?b = "map_of (px_by_nick px)" and ?u = "map_of (px_users px)"
  have "bij_betw (\<lambda>k. the (?b k)) (dom ?b) (dom ?u)"
  proof (rule bij_betwI')
    fix k k' assume "k \<in> dom ?b" "k' \<in> dom ?b"
    then show "(the (?b k) = the (?b k')) = (k = k')"
      using by_nick_inj [OF assms] by auto
  next
    fix k assume "k \<in> dom ?b"
    then obtain i where "?b k = Some i" by auto
    then show "the (?b k) \<in> dom ?u" using core_invD(5) [OF assms, of k i] by auto
  next
    fix i assume "i \<in> dom ?u"
    then obtain p where "?u i = Some p" by auto
    then have "?b (pr_key p) = Some i"
      using core_invD(4) [OF assms, of i p] unfolding presence_ok_def by blast
    then show "\<exists>k\<in>dom ?b. i = the (?b k)" by force
  qed
  then have "card (dom ?b) = card (dom ?u)" by (rule bij_betw_same_card)
  then show ?thesis
    using assms by (simp add: length_eq_card_dom core_invD(1,2))
qed

lemma presence_inv_consistent:
  assumes "presence_inv px"
  shows "consistent px"
proof -
  have inv: "core_inv {} {} px" using assms by (simp add: presence_inv_def)
  have "pr_channels p \<noteq> [] \<and> map_of (px_by_nick px) (pr_key p) = Some i
      \<and> list_all (\<lambda>channel. case map_of (px_channels px) channel of
           Some mb \<Rightarrow> i \<in> set (mb_users mb) | None \<Rightarrow> False) (pr_channels p)"
    if "(i, p) \<in> set (px_users px)" for i p
  proof -
    have p: "map_of (px_users px) i = Some p"
      using that core_invD(2) [OF inv] by (simp add: map_of_in_iff)
    have "i \<in> users_of_channel px c" if "c \<in> set (pr_channels p)" for c
      using core_invD(7) [OF inv, of c i] p that by (simp add: channels_of_user_def)
    then show ?thesis
      using core_invD(4) [OF inv p]
      by (fastforce simp: presence_ok_def list_all_iff users_of_channel_def split: option.splits)
  qed
  moreover have "case map_of (px_users px) i of
        Some p \<Rightarrow> list_ex (\<lambda>c. c = channel_key px (mb_name mb)) (pr_channels p) | None \<Rightarrow> False"
    if "(ck, mb) \<in> set (px_channels px)" "i \<in> set (mb_users mb)" for ck mb i
  proof -
    have mb: "map_of (px_channels px) ck = Some mb"
      using that(1) core_invD(3) [OF inv] by (simp add: map_of_in_iff)
    then have "ck \<in> channels_of_user px i"
      using core_invD(7) [OF inv, of ck i] that(2) by (simp add: users_of_channel_def)
    then show ?thesis
      using core_invD(6) [OF inv mb]
      by (auto simp: channels_of_user_def list_ex_iff split: option.splits)
  qed
  ultimately show ?thesis
    using length_by_nick [OF inv] by (auto simp: consistent_def list_all_iff)
qed

lemma core_inv_shrink:
  assumes inv: "core_inv stale fresh px"
    and "\<And>i p. i \<in> fresh \<Longrightarrow> i \<notin> fresh' \<Longrightarrow> map_of (px_users px) i = Some p \<Longrightarrow> pr_channels p \<noteq> []"
  shows "core_inv stale fresh' px"
proof -
  have "presence_ok px (i \<in> fresh') i p" if "map_of (px_users px) i = Some p" for i p
    using core_invD(4) [OF inv that] assms(2) [OF _ _ that] unfolding presence_ok_def by blast
  then show ?thesis using inv unfolding core_inv_def by blast
qed

section \<open>Forgetting and leaving\<close>

lemma forget_in_keys: "keys_distinct channels \<Longrightarrow> keys_distinct (forget_in i c channels)"
  by (simp add: forget_in_def split: option.splits)

lemma forget_in_map_of:
  "map_of (forget_in i c channels) ck =
     (if ck = c then map_option (\<lambda>mb. mb\<lparr>mb_users := removeAll i (mb_users mb)\<rparr>) (map_of channels ck)
      else map_of channels ck)"
  by (simp add: forget_in_def split: option.splits)

lemma forget_in_fold:
  "keys_distinct channels \<Longrightarrow> keys_distinct (fold (forget_in i) cs channels)
   \<and> map_of (fold (forget_in i) cs channels) ck =
       (if ck \<in> set cs then map_option (\<lambda>mb. mb\<lparr>mb_users := removeAll i (mb_users mb)\<rparr>) (map_of channels ck)
        else map_of channels ck)"
  by (induction cs arbitrary: channels)
     (auto simp: forget_in_keys forget_in_map_of option.map_comp o_def intro: option.map_cong)

lemma forget_core:
  assumes inv: "core_inv stale fresh px" and p: "map_of (px_users px) i = Some p"
  shows "core_inv (stale - {i} \<times> UNIV) (fresh - {i}) (forget i px)"
    and "px_by_nick (forget i px) = AList.delete (pr_key p) (px_by_nick px)"
    and "map_of (px_users (forget i px)) = (map_of (px_users px))(i := None)"
    and "channels_of_user (forget i px) j = (if j = i then {} else channels_of_user px j)"
    and "px_next (forget i px) = px_next px" "px_casemapping (forget i px) = px_casemapping px"
proof -
  let ?f = "forget i px"
  note ok = core_invD(4) [OF inv p, unfolded presence_ok_def]
  show by_nick: "px_by_nick ?f = AList.delete (pr_key p) (px_by_nick px)"
    and users: "map_of (px_users ?f) = (map_of (px_users px))(i := None)"
    and nxt: "px_next ?f = px_next px" and cmp: "px_casemapping ?f = px_casemapping px"
    by (simp_all add: forget_def p)
  show cou: "channels_of_user ?f j = (if j = i then {} else channels_of_user px j)" for j
    by (simp add: channels_of_user_def users)
  have chans: "map_of (px_channels ?f) ck =
      (if ck \<in> set (pr_channels p) then map_option (\<lambda>mb. mb\<lparr>mb_users := removeAll i (mb_users mb)\<rparr>) (map_of (px_channels px) ck)
       else map_of (px_channels px) ck)" for ck
    using forget_in_fold [OF core_invD(3) [OF inv]] by (simp add: forget_def p)
  have uoc: "users_of_channel ?f ck = users_of_channel px ck - {i}" for ck
  proof (cases "ck \<in> set (pr_channels p)")
    case True
    then show ?thesis by (auto simp: users_of_channel_def chans split: option.splits)
  next
    case False
    then have "i \<notin> users_of_channel px ck"
      using core_invD(7) [OF inv, of ck i] p by (simp add: channels_of_user_def)
    with False show ?thesis by (auto simp: users_of_channel_def chans)
  qed
  have "keys_distinct (px_channels ?f)"
    using forget_in_fold [OF core_invD(3) [OF inv]] by (simp add: forget_def p)
  moreover have "presence_ok ?f (j \<in> fresh - {i}) j q" if "map_of (px_users ?f) j = Some q" for j q
  proof -
    have j: "j \<noteq> i" "map_of (px_users px) j = Some q" using that by (auto simp: users split: if_splits)
    have q: "presence_ok px (j \<in> fresh) j q" using core_invD(4) [OF inv j(2)] .
    then have "pr_key q \<noteq> pr_key p" using ok j(1) by (auto simp: presence_ok_def)
    with q j show ?thesis by (auto simp: presence_ok_def by_nick nxt)
  qed
  moreover have "\<exists>q. map_of (px_users ?f) j = Some q \<and> pr_key q = k" if "map_of (px_by_nick ?f) k = Some j" for k j
  proof -
    have k: "k \<noteq> pr_key p" "map_of (px_by_nick px) k = Some j" using that by (auto simp: by_nick split: if_splits)
    obtain q where q: "map_of (px_users px) j = Some q" "pr_key q = k" using core_invD(5) [OF inv k(2)] by blast
    have "j \<noteq> i" using q p k(1) by auto
    with q show ?thesis by (simp add: users)
  qed
  moreover have "mb_key mb = ck \<and> ck = channel_key ?f (mb_name mb) \<and> distinct (mb_users mb)"
    if "map_of (px_channels ?f) ck = Some mb" for ck mb
    using that core_invD(6) [OF inv] by (auto simp: chans channel_key_def cmp split: if_splits)
      (metis distinct_removeAll)+
  moreover have "ck \<in> channels_of_user ?f j \<longleftrightarrow> j \<in> users_of_channel ?f ck \<or> (j, ck) \<in> stale - {i} \<times> UNIV" for j ck
    using core_invD(7) [OF inv, of ck j] by (auto simp: cou uoc)
  ultimately show "core_inv (stale - {i} \<times> UNIV) (fresh - {i}) ?f"
    using core_invD(1,2) [OF inv] unfolding core_inv_def
    by (simp add: by_nick) (simp add: forget_def p)
qed

lemma core_inv_users:
  assumes "core_inv stale fresh px" and "c \<in> channels_of_user px i"
  obtains p where "map_of (px_users px) i = Some p" "c \<in> set (pr_channels p)"
  using assms by (auto simp: channels_of_user_def split: option.splits)

text \<open>A user whose entry loses a channel the channel no longer lists.\<close>

lemma trim_core:
  assumes inv: "core_inv stale fresh px" and p: "map_of (px_users px) i = Some p"
    and gone: "i \<notin> users_of_channel px ck"
    and px': "px' = px\<lparr>px_users := AList.update i
      (p\<lparr>pr_channels := filter (\<lambda>channel. channel \<noteq> ck) (pr_channels p)\<rparr>) (px_users px)\<rparr>"
  shows "core_inv (stale - {(i, ck)}) (fresh \<union> {i}) px'"
    and "channels_of_user px' j = (if j = i then channels_of_user px i - {ck} else channels_of_user px j)"
proof -
  note ok = core_invD(4) [OF inv p, unfolded presence_ok_def]
  show cou: "channels_of_user px' j = (if j = i then channels_of_user px i - {ck} else channels_of_user px j)" for j
    using p by (auto simp: channels_of_user_def px')
  have "presence_ok px' (j \<in> fresh \<union> {i}) j q" if "map_of (px_users px') j = Some q" for j q
    using that core_invD(4) [OF inv, of j] ok by (cases "j = i") (auto simp: px' presence_ok_def)
  moreover have "\<exists>q. map_of (px_users px') j = Some q \<and> pr_key q = k" if "map_of (px_by_nick px') k = Some j" for k j
    using that core_invD(5) [OF inv, of k j] p by (auto simp: px')
  moreover have "c \<in> channels_of_user px' j \<longleftrightarrow> j \<in> users_of_channel px' c \<or> (j, c) \<in> stale - {(i, ck)}" for j c
    using core_invD(7) [OF inv, of c j] gone
    by (cases "j = i \<and> c = ck") (auto simp: cou, auto simp: users_of_channel_def px')
  ultimately show "core_inv (stale - {(i, ck)}) (fresh \<union> {i}) px'"
    using core_invD(1,2,3) [OF inv] core_invD(6) [OF inv] unfolding core_inv_def
    by (auto simp: px' channel_key_def)
qed

lemma leave_core:
  assumes inv: "core_inv stale fresh px" and stale: "(i, ck) \<in> stale"
    and gone: "i \<notin> users_of_channel px ck"
  shows "core_inv (stale - {(i, ck)}) (fresh - {i}) (leave ck i px)"
    and "px_channels (leave ck i px) = px_channels px"
    and "channels_of_user (leave ck i px) j = (if j = i then channels_of_user px i - {ck} else channels_of_user px j)"
    and "map_of (px_by_nick (leave ck i px)) n =
      (if map_of (px_by_nick px) n = Some i \<and> channels_of_user px i \<subseteq> {ck} then None
       else map_of (px_by_nick px) n)"
    and "px_next (leave ck i px) = px_next px" "px_casemapping (leave ck i px) = px_casemapping px"
proof -
  have "ck \<in> channels_of_user px i" using core_invD(7) [OF inv] stale by blast
  then obtain p where p: "map_of (px_users px) i = Some p" by (auto elim: core_inv_users [OF inv])
  let ?kept = "filter (\<lambda>channel. channel \<noteq> ck) (pr_channels p)"
  let ?px = "px\<lparr>px_users := AList.update i (p\<lparr>pr_channels := ?kept\<rparr>) (px_users px)\<rparr>"
  note core = trim_core(1) [OF inv p gone refl] and cou = trim_core(2) [OF inv p gone refl]
  have ch_i: "channels_of_user px i = set (pr_channels p)" by (simp add: channels_of_user_def p)
  have key: "map_of (px_by_nick px) n = Some i \<longleftrightarrow> n = pr_key p" for n
    using core_invD(4) [OF inv p] core_invD(5) [OF inv, of n i] p by (auto simp: presence_ok_def)
  show "core_inv (stale - {(i, ck)}) (fresh - {i}) (leave ck i px)"
    "px_channels (leave ck i px) = px_channels px"
    "channels_of_user (leave ck i px) j = (if j = i then channels_of_user px i - {ck} else channels_of_user px j)"
    "map_of (px_by_nick (leave ck i px)) n =
      (if map_of (px_by_nick px) n = Some i \<and> channels_of_user px i \<subseteq> {ck} then None
       else map_of (px_by_nick px) n)"
    "px_next (leave ck i px) = px_next px" "px_casemapping (leave ck i px) = px_casemapping px"
  proof -
    have eq: "leave ck i px = (if ?kept = [] then forget i ?px else ?px)"
      by (simp add: leave_def p Let_def)
    have sub: "channels_of_user px i \<subseteq> {ck} \<longleftrightarrow> ?kept = []"
      by (auto simp: ch_i filter_empty_conv)
    have p': "map_of (px_users ?px) i = Some (p\<lparr>pr_channels := ?kept\<rparr>)" by simp
    note f = forget_core [OF core p']
    show "px_channels (leave ck i px) = px_channels px"
      by (auto simp: eq forget_def)
    show "channels_of_user (leave ck i px) j = (if j = i then channels_of_user px i - {ck} else channels_of_user px j)"
      using f(4) [of j] cou [of j] cou [of i] sub by (auto simp: eq)
    show "map_of (px_by_nick (leave ck i px)) n =
      (if map_of (px_by_nick px) n = Some i \<and> channels_of_user px i \<subseteq> {ck} then None
       else map_of (px_by_nick px) n)"
      using f(2) by (auto simp: eq sub key)
    show "px_next (leave ck i px) = px_next px" "px_casemapping (leave ck i px) = px_casemapping px"
      using f(5,6) by (auto simp: eq)
    show "core_inv (stale - {(i, ck)}) (fresh - {i}) (leave ck i px)"
    proof (cases "?kept = []")
      case True
      have "(i, c) \<in> stale \<Longrightarrow> c = ck" for c
        using core_invD(7) [OF inv, of c i] True sub by auto
      then have "stale - {(i, ck)} - {i} \<times> UNIV = stale - {(i, ck)}" by auto
      then show ?thesis using f(1) True by (simp add: eq insert_Diff_if)
    next
      case False
      have "core_inv (stale - {(i, ck)}) (fresh - {i}) ?px"
        by (rule core_inv_shrink [OF core]) (use p' False in auto)
      then show ?thesis using False by (simp add: eq)
    qed
  qed
qed

lemma leave_fold:
  assumes "core_inv stale fresh px" and "distinct gone"
    and "\<And>i. i \<in> set gone \<Longrightarrow> (i, ck) \<in> stale \<and> i \<notin> users_of_channel px ck"
  shows "core_inv (stale - set gone \<times> {ck}) (fresh - set gone) (fold (leave ck) gone px)"
    and "px_channels (fold (leave ck) gone px) = px_channels px"
    and "channels_of_user (fold (leave ck) gone px) j =
      (if j \<in> set gone then channels_of_user px j - {ck} else channels_of_user px j)"
    and "map_of (px_by_nick (fold (leave ck) gone px)) n =
      (case map_of (px_by_nick px) n of
         Some i \<Rightarrow> (if i \<in> set gone \<and> channels_of_user px i \<subseteq> {ck} then None else Some i)
       | None \<Rightarrow> None)"
    and "px_next (fold (leave ck) gone px) = px_next px"
    and "px_casemapping (fold (leave ck) gone px) = px_casemapping px"
proof -
  have "core_inv (stale - set gone \<times> {ck}) (fresh - set gone) (fold (leave ck) gone px)
    \<and> px_channels (fold (leave ck) gone px) = px_channels px
    \<and> (\<forall>j. channels_of_user (fold (leave ck) gone px) j =
      (if j \<in> set gone then channels_of_user px j - {ck} else channels_of_user px j))
    \<and> (\<forall>n. map_of (px_by_nick (fold (leave ck) gone px)) n =
      (case map_of (px_by_nick px) n of
         Some i \<Rightarrow> (if i \<in> set gone \<and> channels_of_user px i \<subseteq> {ck} then None else Some i)
       | None \<Rightarrow> None))
    \<and> px_next (fold (leave ck) gone px) = px_next px
    \<and> px_casemapping (fold (leave ck) gone px) = px_casemapping px"
    using assms
  proof (induction gone arbitrary: stale fresh px)
    case Nil
    then show ?case by (auto split: option.splits)
  next
    case (Cons i gone)
    let ?px = "leave ck i px"
    have i: "(i, ck) \<in> stale" "i \<notin> users_of_channel px ck" "i \<notin> set gone" using Cons.prems by auto
    note l = leave_core [OF Cons.prems(1) i(1,2)]
    have uoc: "users_of_channel ?px ck = users_of_channel px ck"
      by (simp add: users_of_channel_def l(2))
    have pre: "\<And>j. j \<in> set gone \<Longrightarrow> (j, ck) \<in> stale - {(i, ck)} \<and> j \<notin> users_of_channel ?px ck"
      using Cons.prems(3) i(3) by (auto simp: uoc)
    have dist: "distinct gone" using Cons.prems(2) by simp
    note IH = Cons.IH [OF l(1) dist pre]
    note IHc = IH [THEN conjunct2, THEN conjunct2, THEN conjunct1, THEN spec]
    note IHn = IH [THEN conjunct2, THEN conjunct2, THEN conjunct2, THEN conjunct1, THEN spec]
    have sets: "stale - {(i, ck)} - set gone \<times> {ck} = stale - set (i # gone) \<times> {ck}"
      "fresh - {i} - set gone = fresh - set (i # gone)" by auto
    have nick: "map_of (px_by_nick (fold (leave ck) gone ?px)) n =
      (case map_of (px_by_nick px) n of
         Some j \<Rightarrow> (if j \<in> set (i # gone) \<and> channels_of_user px j \<subseteq> {ck} then None else Some j)
       | None \<Rightarrow> None)" for n
      using i(3) by (cases "map_of (px_by_nick px) n") (auto simp: IHn l(3,4))
    have chans: "channels_of_user (fold (leave ck) gone ?px) j =
      (if j \<in> set (i # gone) then channels_of_user px j - {ck} else channels_of_user px j)" for j
      using i(3) by (auto simp: IHc l(3))
    show ?case
      using IH sets nick chans l(2,5,6) by simp
  qed
  then show "core_inv (stale - set gone \<times> {ck}) (fresh - set gone) (fold (leave ck) gone px)"
    and "px_channels (fold (leave ck) gone px) = px_channels px"
    and "channels_of_user (fold (leave ck) gone px) j =
      (if j \<in> set gone then channels_of_user px j - {ck} else channels_of_user px j)"
    and "map_of (px_by_nick (fold (leave ck) gone px)) n =
      (case map_of (px_by_nick px) n of
         Some i \<Rightarrow> (if i \<in> set gone \<and> channels_of_user px i \<subseteq> {ck} then None else Some i)
       | None \<Rightarrow> None)"
    and "px_next (fold (leave ck) gone px) = px_next px"
    and "px_casemapping (fold (leave ck) gone px) = px_casemapping px"
    by auto
qed

section \<open>Entering a roster\<close>

definition roster_keys :: "rstring list \<Rightarrow> rstring set" where
  "roster_keys roster = {nickname_key (display_nickname m) | m. m \<in> set roster \<and> display_nickname m \<noteq> []}"

lemma roster_keys_simps [simp]:
  "roster_keys [] = {}"
  "roster_keys (m # ms) =
     (if display_nickname m = [] then {} else {nickname_key (display_nickname m)}) \<union> roster_keys ms"
  by (auto simp: roster_keys_def)

text \<open>What entering members makes of the index: \<open>keys\<close> are the nicknames entered.\<close>

definition entered ::
  "rstring set \<Rightarrow> presence_index \<times> user_id list \<Rightarrow> presence_index \<times> user_id list \<Rightarrow> bool" where
  "entered keys before after \<longleftrightarrow>
     (let (px, present) = before; (px', present') = after
      in core_inv {} (set present') px' \<and> distinct present'
         \<and> px_channels px' = px_channels px \<and> px_casemapping px' = px_casemapping px
         \<and> px_next px \<le> px_next px'
         \<and> (\<forall>j. channels_of_user px' j = channels_of_user px j)
         \<and> (\<forall>n i. map_of (px_by_nick px) n = Some i \<longrightarrow> map_of (px_by_nick px') n = Some i)
         \<and> (\<forall>n i. map_of (px_by_nick px') n = Some i \<longrightarrow>
              map_of (px_by_nick px) n = Some i \<or> n \<in> keys \<and> px_next px \<le> i)
         \<and> (\<forall>n \<in> keys. \<exists>i. map_of (px_by_nick px') n = Some i)
         \<and> set present' = set present \<union> {i. \<exists>n \<in> keys. map_of (px_by_nick px') n = Some i})"

lemma enteredD:
  assumes "entered keys (px, present) (px', present')"
  shows "core_inv {} (set present') px'" "distinct present'"
    and "px_channels px' = px_channels px" "px_casemapping px' = px_casemapping px"
    and "px_next px \<le> px_next px'"
    and "channels_of_user px' j = channels_of_user px j"
    and "map_of (px_by_nick px) n = Some i \<Longrightarrow> map_of (px_by_nick px') n = Some i"
    and "map_of (px_by_nick px') n = Some i \<Longrightarrow>
      map_of (px_by_nick px) n = Some i \<or> n \<in> keys \<and> px_next px \<le> i"
    and "n \<in> keys \<Longrightarrow> \<exists>i. map_of (px_by_nick px') n = Some i"
    and "set present' = set present \<union> {i. \<exists>n \<in> keys. map_of (px_by_nick px') n = Some i}"
  using assms unfolding entered_def by auto

lemma enteredI:
  assumes "core_inv {} (set present') px'" "distinct present'"
    and "px_channels px' = px_channels px" "px_casemapping px' = px_casemapping px"
    and "px_next px \<le> px_next px'"
    and "\<And>j. channels_of_user px' j = channels_of_user px j"
    and "\<And>n i. map_of (px_by_nick px) n = Some i \<Longrightarrow> map_of (px_by_nick px') n = Some i"
    and "\<And>n i. map_of (px_by_nick px') n = Some i \<Longrightarrow>
      map_of (px_by_nick px) n = Some i \<or> n \<in> keys \<and> px_next px \<le> i"
    and "\<And>n. n \<in> keys \<Longrightarrow> \<exists>i. map_of (px_by_nick px') n = Some i"
    and "set present' = set present \<union> {i. \<exists>n \<in> keys. map_of (px_by_nick px') n = Some i}"
  shows "entered keys (px, present) (px', present')"
  unfolding entered_def Let_def prod.case using assms by blast

lemma entered_refl:
  "core_inv {} (set present) px \<Longrightarrow> distinct present \<Longrightarrow> entered {} (px, present) (px, present)"
  by (simp add: entered_def)

lemma entered_trans:
  assumes a: "entered ks (px, present) (px', present')" and b: "entered ks' (px', present') (px'', present'')"
  shows "entered (ks \<union> ks') (px, present) (px'', present'')"
proof -
  have ks: "\<exists>i. map_of (px_by_nick px'') n = Some i" if "n \<in> ks \<union> ks'" for n
    using that enteredD(9) [OF a, of n] enteredD(7) [OF b] enteredD(9) [OF b, of n] by auto
  have bwd: "map_of (px_by_nick px) n = Some i \<or> n \<in> ks \<union> ks' \<and> px_next px \<le> i"
    if "map_of (px_by_nick px'') n = Some i" for n i
    using enteredD(8) [OF b that] enteredD(8) [OF a, of n i] enteredD(5) [OF a] by auto
  have same: "map_of (px_by_nick px'') n = Some i \<longleftrightarrow> map_of (px_by_nick px') n = Some i" if "n \<in> ks" for n i
    using enteredD(9) [OF a that] enteredD(7) [OF b, of n] by auto
  have set: "set present'' = set present \<union> {i. \<exists>n \<in> ks \<union> ks'. map_of (px_by_nick px'') n = Some i}"
    using same by (auto simp: enteredD(10) [OF b] enteredD(10) [OF a])
  show ?thesis
  proof (rule enteredI)
    show "px_channels px'' = px_channels px" "px_casemapping px'' = px_casemapping px"
      "px_next px \<le> px_next px''" "\<And>j. channels_of_user px'' j = channels_of_user px j"
      using enteredD(3,4,5,6) [OF a] enteredD(3,4,5,6) [OF b] by simp_all
    show "\<And>n i. map_of (px_by_nick px) n = Some i \<Longrightarrow> map_of (px_by_nick px'') n = Some i"
      using enteredD(7) [OF b, OF enteredD(7) [OF a]] .
  qed (fact enteredD(1,2) [OF b] ks bwd set)+
qed

lemma enter_known:
  assumes inv: "core_inv {} (set present) px" and dist: "distinct present"
    and i: "map_of (px_by_nick px) (nickname_key nickname) = Some i" and p: "map_of (px_users px) i = Some p"
  shows "entered {nickname_key nickname} (px, present)
    (px\<lparr>px_users := AList.update i (p\<lparr>pr_nick := nickname\<rparr>) (px_users px)\<rparr>, List.insert i present)"
    (is "entered _ _ (?px, _)")
proof -
  have key: "pr_key p = nickname_key nickname" using core_invD(5) [OF inv i] p by auto
  have cou: "channels_of_user ?px j = channels_of_user px j" for j
    using p by (simp add: channels_of_user_def)
  have uoc: "users_of_channel ?px c = users_of_channel px c" for c
    by (simp add: users_of_channel_def)
  have "presence_ok ?px (j \<in> insert i (set present)) j q" if "map_of (px_users ?px) j = Some q" for j q
  proof (cases "j = i")
    case True
    then show ?thesis using that core_invD(4) [OF inv p] key i by (auto simp: presence_ok_def)
  next
    case False
    then show ?thesis using that core_invD(4) [OF inv, of j q] unfolding presence_ok_def by auto
  qed
  moreover have "\<exists>q. map_of (px_users ?px) j = Some q \<and> pr_key q = k" if "map_of (px_by_nick ?px) k = Some j" for k j
    using that core_invD(5) [OF inv, of k j] p by auto
  ultimately have "core_inv {} (insert i (set present)) ?px"
    using core_invD(1,2,3) [OF inv] core_invD(6,7) [OF inv] unfolding core_inv_def cou uoc
    by (simp add: channel_key_def)
  then show ?thesis
    using dist i by (auto simp: entered_def cou)
qed

lemma enter_new:
  assumes inv: "core_inv {} (set present) px" and dist: "distinct present"
    and none: "map_of (px_by_nick px) (nickname_key nickname) = None"
  shows "entered {nickname_key nickname} (px, present)
    (px\<lparr>px_next := px_next px + 1,
        px_by_nick := AList.update (nickname_key nickname) (px_next px) (px_by_nick px),
        px_users := AList.update (px_next px)
          \<lparr>pr_key = nickname_key nickname, pr_nick = nickname, pr_channels = []\<rparr> (px_users px)\<rparr>,
     List.insert (px_next px) present)"
    (is "entered _ _ (?px, _)")
proof -
  let ?i = "px_next px"
  have no_user: "map_of (px_users px) ?i = None"
    using core_invD(4) [OF inv, of ?i] by (cases "map_of (px_users px) ?i") (auto simp: presence_ok_def)
  have cou: "channels_of_user ?px j = channels_of_user px j" for j
    using no_user by (simp add: channels_of_user_def)
  have uoc: "users_of_channel ?px c = users_of_channel px c" for c
    by (simp add: users_of_channel_def)
  have "presence_ok ?px (j \<in> insert ?i (set present)) j q" if "map_of (px_users ?px) j = Some q" for j q
  proof (cases "j = ?i")
    case True
    then show ?thesis using that by (auto simp: presence_ok_def)
  next
    case False
    then have q: "presence_ok px (j \<in> set present) j q" using that core_invD(4) [OF inv, of j q] by simp
    then have "pr_key q \<noteq> nickname_key nickname" using none by (auto simp: presence_ok_def)
    with q False show ?thesis unfolding presence_ok_def by auto
  qed
  moreover have "\<exists>q. map_of (px_users ?px) j = Some q \<and> pr_key q = k" if "map_of (px_by_nick ?px) k = Some j" for k j
    using that core_invD(5) [OF inv, of k j] no_user by (auto split: if_splits)
  ultimately have "core_inv {} (insert ?i (set present)) ?px"
    using core_invD(1,2,3) [OF inv] core_invD(6,7) [OF inv] unfolding core_inv_def cou uoc
    by (simp add: channel_key_def)
  then show ?thesis
    using dist none by (auto simp: entered_def cou [simplified] split: if_splits)
qed

lemma enter_member_entered:
  assumes "core_inv {} (set present) px" and "distinct present"
  shows "entered (roster_keys [member]) (px, present) (enter_member member (px, present))"
proof (cases "display_nickname member = []")
  case True
  then show ?thesis using entered_refl assms by (simp add: enter_member_def)
next
  case False
  show ?thesis
  proof (cases "map_of (px_by_nick px) (nickname_key (display_nickname member))")
    case None
    then show ?thesis
      using False enter_new [OF assms None] by (simp add: enter_member_def Let_def)
  next
    case (Some i)
    then obtain p where "map_of (px_users px) i = Some p" using core_invD(5) [OF assms(1)] by blast
    then show ?thesis
      using False Some enter_known [OF assms Some] by (simp add: enter_member_def Let_def)
  qed
qed

lemma enter_fold:
  assumes "core_inv {} (set present) px" and "distinct present"
  shows "entered (roster_keys roster) (px, present) (fold enter_member roster (px, present))"
  using assms
proof (induction roster arbitrary: px present)
  case Nil
  then show ?case by (simp add: entered_refl)
next
  case (Cons m roster)
  obtain px1 present1 where one: "enter_member m (px, present) = (px1, present1)" by fastforce
  have e: "entered (roster_keys [m]) (px, present) (px1, present1)"
    using enter_member_entered [OF Cons.prems, of m] by (simp add: one)
  obtain px2 present2 where two: "fold enter_member roster (px1, present1) = (px2, present2)" by fastforce
  have "entered (roster_keys roster) (px1, present1) (px2, present2)"
    using Cons.IH [OF enteredD(1,2) [OF e]] by (simp add: two)
  from entered_trans [OF e this] show ?case by (simp add: one two)
qed

section \<open>Replacing and removing channels\<close>

definition push_one :: "rstring \<Rightarrow> presence \<Rightarrow> presence" where
  "push_one key p = (if key \<in> set (pr_channels p) then p else p\<lparr>pr_channels := pr_channels p @ [key]\<rparr>)"

lemma push_one_simps [simp]:
  "push_one key (push_one key p) = push_one key p"
  "set (pr_channels (push_one key p)) = insert key (set (pr_channels p))"
  "pr_channels (push_one key p) \<noteq> []"
  "distinct (pr_channels (push_one key p)) = distinct (pr_channels p)"
  "pr_key (push_one key p) = pr_key p" "pr_nick (push_one key p) = pr_nick p"
  by (auto simp: push_one_def)

lemma push_fold_map_of:
  "map_of (fold (push_channel key) present users) i =
     (if i \<in> set present then map_option (push_one key) (map_of users i) else map_of users i)"
proof (induction present arbitrary: users)
  case (Cons j present)
  have "map_of (push_channel key j users) i =
     (if i = j then map_option (push_one key) (map_of users i) else map_of users i)"
    by (simp add: push_channel_def push_one_def split: option.splits)
  with Cons.IH [of "push_channel key j users"] show ?case
    by (auto simp: option.map_comp o_def)
qed simp

lemma push_fold_keys: "keys_distinct users \<Longrightarrow> keys_distinct (fold (push_channel key) present users)"
  by (induction present arbitrary: users) (auto simp: push_channel_def split: option.splits)

text \<open>The index after the roster is entered and before those gone leave.\<close>

lemma replace_middle:
  assumes inv: "core_inv {} (set present) px" and dist: "distinct present"
    and known: "\<And>i. i \<in> set present \<Longrightarrow> map_of (px_users px) i \<noteq> None"
    and ck: "ck = channel_key px channel"
    and px': "px' = px\<lparr>px_users := fold (push_channel ck) present (px_users px),
                  px_channels := AList.update ck
                    (entry_of px ck\<lparr>mb_name := channel, mb_key := ck, mb_users := present\<rparr>) (px_channels px)\<rparr>"
  shows "core_inv ((users_of_channel px ck - set present) \<times> {ck}) {} px'"
    and "channels_of_user px' j = (if j \<in> set present then insert ck (channels_of_user px j) else channels_of_user px j)"
    and "users_of_channel px' c = (if c = ck then set present else users_of_channel px c)"
proof -
  have users: "map_of (px_users px') i = (if i \<in> set present
      then map_option (push_one ck) (map_of (px_users px) i) else map_of (px_users px) i)" for i
    by (simp add: px' push_fold_map_of)
  show cou: "channels_of_user px' j = (if j \<in> set present then insert ck (channels_of_user px j) else channels_of_user px j)" for j
    using known [of j] by (auto simp: channels_of_user_def users split: option.splits)
  show uoc: "users_of_channel px' c = (if c = ck then set present else users_of_channel px c)" for c
    by (simp add: users_of_channel_def px')
  have "presence_ok px' False j q" if j: "map_of (px_users px') j = Some q" for j q
  proof -
    obtain p where p: "map_of (px_users px) j = Some p"
      and q: "q = (if j \<in> set present then push_one ck p else p)"
      using j by (auto simp: users split: if_splits)
    have "px_by_nick px' = px_by_nick px" "px_next px' = px_next px" by (simp_all add: px')
    then show ?thesis
      using core_invD(4) [OF inv p] unfolding presence_ok_def q by auto
  qed
  moreover have "\<exists>q. map_of (px_users px') j = Some q \<and> pr_key q = k" if "map_of (px_by_nick px') k = Some j" for k j
  proof -
    have "map_of (px_by_nick px) k = Some j" using that by (simp add: px')
    from core_invD(5) [OF inv this] obtain p where "map_of (px_users px) j = Some p" "pr_key p = k" by blast
    then show ?thesis by (simp add: users)
  qed
  moreover have "mb_key mb = c \<and> c = channel_key px' (mb_name mb) \<and> distinct (mb_users mb)"
    if "map_of (px_channels px') c = Some mb" for c mb
    using that core_invD(6) [OF inv, of c mb] dist
    by (auto simp: px' ck channel_key_def split: if_splits)
  moreover have "c \<in> channels_of_user px' j \<longleftrightarrow>
      j \<in> users_of_channel px' c \<or> (j, c) \<in> (users_of_channel px ck - set present) \<times> {ck}" for j c
    using core_invD(7) [OF inv, of c j] by (auto simp: cou uoc)
  moreover have "keys_distinct (px_by_nick px')" "keys_distinct (px_users px')" "keys_distinct (px_channels px')"
    using core_invD(1,2,3) [OF inv] by (simp_all add: px' push_fold_keys)
  ultimately show "core_inv ((users_of_channel px ck - set present) \<times> {ck}) {} px'"
    unfolding core_inv_def by auto
qed

text \<open>Replacing a channel: the invariant, the channels of every user, and the identities.\<close>

lemma replace_channel_spec:
  fixes px :: presence_index and channel :: rstring and roster :: "rstring list"
  assumes pinv: "presence_inv px"
  defines "ck \<equiv> channel_key px channel" and "px' \<equiv> replace_channel channel roster px"
  shows "presence_inv px'"
    and "presence_rel px' = {(n, c) \<in> presence_rel px. c \<noteq> ck} \<union> roster_keys roster \<times> {ck}"
    and "map_of (px_by_nick px') n = Some i \<Longrightarrow> map_of (px_by_nick px) n = Some i \<or> px_next px \<le> i"
    and "n \<in> roster_keys roster \<Longrightarrow> map_of (px_by_nick px) n = Some i \<Longrightarrow> map_of (px_by_nick px') n = Some i"
    and "px_next px \<le> px_next px'" and "px_casemapping px' = px_casemapping px"
proof -
  have inv: "core_inv {} (set []) px" using pinv by (simp add: presence_inv_def)
  obtain px1 present where e: "fold enter_member roster (px, []) = (px1, present)" by fastforce
  have ent: "entered (roster_keys roster) (px, []) (px1, present)"
    using enter_fold [OF inv, of roster] by (simp add: e)
  note inv1 = enteredD(1) [OF ent]
  have ck1: "ck = channel_key px1 channel" by (simp add: ck_def channel_key_def enteredD(4) [OF ent])
  have known: "map_of (px_users px1) i \<noteq> None" if "i \<in> set present" for i
  proof -
    have "\<exists>n. map_of (px_by_nick px1) n = Some i" using that enteredD(10) [OF ent] by auto
    then show ?thesis using core_invD(5) [OF inv1] by blast
  qed
  let ?entry = "entry_of px1 ck"
  let ?gone = "filter (\<lambda>i. i \<notin> set present) (mb_users ?entry)"
  define px2 where "px2 = px1\<lparr>px_users := fold (push_channel ck) present (px_users px1),
      px_channels := AList.update ck
        (?entry\<lparr>mb_name := channel, mb_key := ck, mb_users := present\<rparr>) (px_channels px1)\<rparr>"
  note mid = replace_middle [OF inv1 enteredD(2) [OF ent] known ck1 px2_def]
  have key: "(if mb_key ?entry = [] then ck else mb_key ?entry) = ck"
    using core_invD(6) [OF inv1, of ck] by (auto simp: entry_of_def members_default_def split: option.splits)
  have entry_users: "set (mb_users ?entry) = users_of_channel px1 ck" "distinct (mb_users ?entry)"
    using core_invD(6) [OF inv1, of ck]
    by (auto simp: entry_of_def users_of_channel_def members_default_def split: option.splits)
  have px': "px' = fold (leave ck) ?gone px2"
    by (simp only: px'_def replace_channel_def Let_def ck_def [symmetric] e prod.case key px2_def)
  have gone: "set ?gone = users_of_channel px1 ck - set present" "distinct ?gone"
    using entry_users by auto
  have pre: "(i, ck) \<in> (users_of_channel px1 ck - set present) \<times> {ck} \<and> i \<notin> users_of_channel px2 ck"
    if "i \<in> set ?gone" for i
    using that gone(1) mid(3) [of ck] by auto
  note final = leave_fold [OF mid(1) gone(2) pre, folded px']
  show "presence_inv px'"
    using final(1) unfolding presence_inv_def gone(1) Diff_cancel empty_Diff .
  have nick2: "px_by_nick px2 = px_by_nick px1" by (simp add: px2_def)
  have cou: "channels_of_user px' j = channels_of_user px j - {ck} \<union> (if j \<in> set present then {ck} else {})" for j
    using final(3) [of j] mid(2) [of j] gone(1) enteredD(6) [OF ent, of j] core_invD(7) [OF inv1, of ck j]
    by (auto split: if_splits)
  have nick: "map_of (px_by_nick px') n = Some i \<longleftrightarrow> map_of (px_by_nick px1) n = Some i \<and>
      \<not> (i \<in> set ?gone \<and> channels_of_user px2 i \<subseteq> {ck})" for n i
    using final(4) [of n] by (auto simp: nick2 split: option.splits if_splits)
  show "map_of (px_by_nick px') n = Some i \<Longrightarrow> map_of (px_by_nick px) n = Some i \<or> px_next px \<le> i"
    using nick enteredD(8) [OF ent] by blast
  have present: "i \<in> set present \<longleftrightarrow> (\<exists>n \<in> roster_keys roster. map_of (px_by_nick px1) n = Some i)" for i
    by (simp add: enteredD(10) [OF ent])
  show "n \<in> roster_keys roster \<Longrightarrow> map_of (px_by_nick px) n = Some i \<Longrightarrow> map_of (px_by_nick px') n = Some i"
    using nick enteredD(7) [OF ent, of n i] present [of i] by auto
  show "px_next px \<le> px_next px'" "px_casemapping px' = px_casemapping px"
    using final(5,6) enteredD(4,5) [OF ent] by (simp_all add: px2_def)
  have new: "channels_of_user px i = {}" if "px_next px \<le> i" for i
  proof -
    have "map_of (px_users px) i = None"
      using core_invD(4) [OF inv, of i] that by (cases "map_of (px_users px) i") (auto simp: presence_ok_def)
    then show ?thesis by (simp add: channels_of_user_def)
  qed
  have rel: "(n, c) \<in> presence_rel px' \<longleftrightarrow> (n, c) \<in> presence_rel px \<and> c \<noteq> ck \<or> n \<in> roster_keys roster \<and> c = ck" for n c
  proof -
    have "(n, c) \<in> presence_rel px' \<longleftrightarrow>
        (\<exists>i. map_of (px_by_nick px1) n = Some i \<and> c \<in> channels_of_user px' i)"
    proof
      assume "\<exists>i. map_of (px_by_nick px1) n = Some i \<and> c \<in> channels_of_user px' i"
      then obtain i where i: "map_of (px_by_nick px1) n = Some i" "c \<in> channels_of_user px' i" by blast
      have "\<not> (i \<in> set ?gone \<and> channels_of_user px2 i \<subseteq> {ck})"
        using i(2) final(3) [of i] by (auto split: if_splits)
      with i nick show "(n, c) \<in> presence_rel px'" unfolding presence_rel_def by blast
    qed (use nick in \<open>auto simp: presence_rel_def\<close>)
    also have "\<dots> \<longleftrightarrow> (\<exists>i. map_of (px_by_nick px1) n = Some i
        \<and> (c \<noteq> ck \<and> c \<in> channels_of_user px i \<or> c = ck \<and> i \<in> set present))"
      by (auto simp: cou)
    also have "\<dots> \<longleftrightarrow> (n, c) \<in> presence_rel px \<and> c \<noteq> ck \<or> n \<in> roster_keys roster \<and> c = ck"
    proof -
      have "(\<exists>i. map_of (px_by_nick px1) n = Some i \<and> c \<in> channels_of_user px i) \<longleftrightarrow> (n, c) \<in> presence_rel px"
        using enteredD(7) [OF ent, of n] enteredD(8) [OF ent, of n] new
        by (auto simp: presence_rel_def)
      moreover have "(\<exists>i. map_of (px_by_nick px1) n = Some i \<and> i \<in> set present) \<longleftrightarrow> n \<in> roster_keys roster"
        using by_nick_inj [OF inv1] enteredD(9) [OF ent, of n] unfolding present by blast
      ultimately show ?thesis by blast
    qed
    finally show ?thesis .
  qed
  show "presence_rel px' = {(n, c) \<in> presence_rel px. c \<noteq> ck} \<union> roster_keys roster \<times> {ck}"
    using rel by auto
qed

lemma remove_channel_spec:
  assumes pinv: "presence_inv px"
  shows "presence_inv (remove_channel channel px)"
    and "presence_rel (remove_channel channel px) = {(n, c) \<in> presence_rel px. c \<noteq> channel_key px channel}"
    and "map_of (px_by_nick (remove_channel channel px)) n = Some i \<Longrightarrow> map_of (px_by_nick px) n = Some i"
    and "px_next (remove_channel channel px) = px_next px"
    and "px_casemapping (remove_channel channel px) = px_casemapping px"
proof -
  let ?ck = "channel_key px channel"
  have inv: "core_inv {} {} px" using pinv by (simp add: presence_inv_def)
  have "presence_inv (remove_channel channel px) \<and>
      presence_rel (remove_channel channel px) = {(n, c) \<in> presence_rel px. c \<noteq> ?ck} \<and>
      (map_of (px_by_nick (remove_channel channel px)) n = Some i \<longrightarrow> map_of (px_by_nick px) n = Some i) \<and>
      px_next (remove_channel channel px) = px_next px \<and>
      px_casemapping (remove_channel channel px) = px_casemapping px"
  proof (cases "map_of (px_channels px) ?ck")
    case None
    then have "c \<noteq> ?ck" if "c \<in> channels_of_user px j" for c j
      using core_invD(7) [OF inv, of c j] that by (auto simp: users_of_channel_def)
    then have "presence_rel px = {(n, c) \<in> presence_rel px. c \<noteq> ?ck}"
      by (auto simp: presence_rel_def)
    then show ?thesis
      using None pinv by (simp add: remove_channel_def)
  next
    case (Some mb)
    let ?px = "px\<lparr>px_channels := AList.delete ?ck (px_channels px)\<rparr>"
    have eq: "remove_channel channel px = fold (leave ?ck) (mb_users mb) ?px"
      by (simp add: remove_channel_def Some Let_def)
    have mb: "set (mb_users mb) = users_of_channel px ?ck" "distinct (mb_users mb)"
      using core_invD(6) [OF inv Some] Some by (auto simp: users_of_channel_def)
    have cou: "channels_of_user ?px j = channels_of_user px j" for j by (simp add: channels_of_user_def)
    have uoc: "users_of_channel ?px c = (if c = ?ck then {} else users_of_channel px c)" for c
      by (simp add: users_of_channel_def)
    have "c \<in> channels_of_user ?px j \<longleftrightarrow> j \<in> users_of_channel ?px c \<or> (j, c) \<in> set (mb_users mb) \<times> {?ck}" for j c
      using core_invD(7) [OF inv, of c j] by (auto simp: cou uoc mb(1))
    moreover have "presence_ok ?px False j q" if "map_of (px_users ?px) j = Some q" for j q
      using core_invD(4) [OF inv, of j q] that unfolding presence_ok_def by auto
    ultimately have core: "core_inv (set (mb_users mb) \<times> {?ck}) {} ?px"
      using core_invD(1,2,3) [OF inv] core_invD(5,6) [OF inv] unfolding core_inv_def
      by (auto simp: channel_key_def)
    have pre: "(i, ?ck) \<in> set (mb_users mb) \<times> {?ck} \<and> i \<notin> users_of_channel ?px ?ck" if "i \<in> set (mb_users mb)" for i
      using that by (simp add: uoc)
    note final = leave_fold [OF core mb(2) pre, folded eq]
    have nick: "map_of (px_by_nick (remove_channel channel px)) n = Some i \<longleftrightarrow> map_of (px_by_nick px) n = Some i
        \<and> \<not> (i \<in> set (mb_users mb) \<and> channels_of_user px i \<subseteq> {?ck})" for n i
      using final(4) [of n] by (auto simp: cou split: option.splits if_splits)
    have stale: "?ck \<in> channels_of_user px j \<Longrightarrow> j \<in> set (mb_users mb)" for j
      using core_invD(7) [OF inv, of ?ck j] mb(1) by simp
    have "(n, c) \<in> presence_rel (remove_channel channel px) \<longleftrightarrow> (n, c) \<in> presence_rel px \<and> c \<noteq> ?ck" for n c
      using final(3) stale unfolding presence_rel_def by (auto simp: nick cou split: if_splits)
    then have "presence_rel (remove_channel channel px) = {(n, c) \<in> presence_rel px. c \<noteq> ?ck}" by auto
    then show ?thesis
      using final(1,5,6) nick by (simp add: presence_inv_def)
  qed
  then show "presence_inv (remove_channel channel px)"
    and "presence_rel (remove_channel channel px) = {(n, c) \<in> presence_rel px. c \<noteq> ?ck}"
    and "map_of (px_by_nick (remove_channel channel px)) n = Some i \<Longrightarrow> map_of (px_by_nick px) n = Some i"
    and "px_next (remove_channel channel px) = px_next px"
    and "px_casemapping (remove_channel channel px) = px_casemapping px"
    by blast+
qed

section \<open>Quitting and renaming\<close>

lemma quit_spec:
  assumes pinv: "presence_inv px"
  shows "presence_inv (presence_quit nickname px)"
    and "presence_rel (presence_quit nickname px) = {(n, c) \<in> presence_rel px. n \<noteq> nickname_key nickname}"
    and "presence_user (presence_quit nickname px) nickname = None"
    and "map_of (px_by_nick (presence_quit nickname px)) n = Some i \<Longrightarrow> map_of (px_by_nick px) n = Some i"
    and "px_next (presence_quit nickname px) = px_next px"
    and "px_casemapping (presence_quit nickname px) = px_casemapping px"
proof -
  have inv: "core_inv {} {} px" using pinv by (simp add: presence_inv_def)
  have "presence_inv (presence_quit nickname px) \<and>
    presence_rel (presence_quit nickname px) = {(n, c) \<in> presence_rel px. n \<noteq> nickname_key nickname} \<and>
    presence_user (presence_quit nickname px) nickname = None \<and>
    (map_of (px_by_nick (presence_quit nickname px)) n = Some i \<longrightarrow> map_of (px_by_nick px) n = Some i) \<and>
    px_next (presence_quit nickname px) = px_next px \<and>
    px_casemapping (presence_quit nickname px) = px_casemapping px"
  proof (cases "presence_user px nickname")
    case None
    then show ?thesis
      using pinv by (auto simp: presence_quit_def presence_rel_def presence_user_def)
  next
    case (Some j)
    then have j: "map_of (px_by_nick px) (nickname_key nickname) = Some j" by (simp add: presence_user_def)
    from core_invD(5) [OF inv j] obtain p where p: "map_of (px_users px) j = Some p" "pr_key p = nickname_key nickname"
      by blast
    note f = forget_core [OF inv p(1)]
    have eq: "presence_quit nickname px = forget j px" by (simp add: presence_quit_def Some)
    have "(n, c) \<in> presence_rel (forget j px) \<longleftrightarrow> (n, c) \<in> presence_rel px \<and> n \<noteq> nickname_key nickname" for n c
      using by_nick_inj [OF inv _ j] unfolding presence_rel_def by (auto simp: f(2,4) p(2) j) metis
    then have "presence_rel (forget j px) = {(n, c) \<in> presence_rel px. n \<noteq> nickname_key nickname}" by auto
    then show ?thesis
      using f(1,5,6) by (auto simp: eq presence_inv_def f(2) p(2) presence_user_def)
  qed
  then show "presence_inv (presence_quit nickname px)"
    and "presence_rel (presence_quit nickname px) = {(n, c) \<in> presence_rel px. n \<noteq> nickname_key nickname}"
    and "presence_user (presence_quit nickname px) nickname = None"
    and "map_of (px_by_nick (presence_quit nickname px)) n = Some i \<Longrightarrow> map_of (px_by_nick px) n = Some i"
    and "px_next (presence_quit nickname px) = px_next px"
    and "px_casemapping (presence_quit nickname px) = px_casemapping px"
    by blast+
qed

text \<open>Moving a presence to a key nobody else holds.\<close>

lemma rekey_core:
  assumes inv: "core_inv {} {} px" and i: "map_of (px_by_nick px) old = Some i"
    and p: "map_of (px_users px) i = Some p"
    and free: "key = old \<or> map_of (px_by_nick px) key = None" and key: "key = nickname_key new"
    and nick': "map_of (px_by_nick px') = (map_of (px_by_nick px))(old := None, key := Some i)"
    and keys': "keys_distinct (px_by_nick px')"
    and users': "px_users px' = AList.update i (p\<lparr>pr_key := key, pr_nick := new\<rparr>) (px_users px)"
    and chans': "px_channels px' = px_channels px" and next': "px_next px' = px_next px"
    and cm': "px_casemapping px' = px_casemapping px"
  shows "core_inv {} {} px'"
    and "presence_rel px' = {(n, c) \<in> presence_rel px. n \<noteq> old \<and> n \<noteq> key} \<union> {(key, c) | c. (old, c) \<in> presence_rel px}"
proof -
  have cou: "channels_of_user px' j = channels_of_user px j" for j
    using p by (simp add: channels_of_user_def users')
  have uoc: "users_of_channel px' c = users_of_channel px c" for c
    by (simp add: users_of_channel_def chans')
  have pkey: "pr_key p = old" using core_invD(5) [OF inv i] p by auto
  have "presence_ok px' False j q" if q: "map_of (px_users px') j = Some q" for j q
  proof (cases "j = i")
    case True
    then show ?thesis
      using q core_invD(4) [OF inv p] unfolding presence_ok_def
      by (auto simp: users' nick' next' key)
  next
    case False
    then have q': "map_of (px_users px) j = Some q" using q by (simp add: users')
    have "pr_key q \<noteq> old \<and> pr_key q \<noteq> key"
      using core_invD(4) [OF inv q'] i free False unfolding presence_ok_def by auto
    then show ?thesis
      using core_invD(4) [OF inv q'] unfolding presence_ok_def by (auto simp: nick' next')
  qed
  moreover have "\<exists>q. map_of (px_users px') j = Some q \<and> pr_key q = k" if k: "map_of (px_by_nick px') k = Some j" for k j
  proof (cases "k = key")
    case True
    then show ?thesis using k by (auto simp: nick' users')
  next
    case False
    then have k': "k \<noteq> old" "map_of (px_by_nick px) k = Some j" using k by (auto simp: nick' split: if_splits)
    have "j \<noteq> i" using by_nick_inj [OF inv i] k' by blast
    then show ?thesis using core_invD(5) [OF inv k'(2)] by (simp add: users')
  qed
  moreover have "keys_distinct (px_users px')" using core_invD(2) [OF inv] by (simp add: users')
  ultimately show "core_inv {} {} px'"
    using keys' core_invD(3) [OF inv] core_invD(6,7) [OF inv] unfolding core_inv_def cou uoc
    by (auto simp: chans' channel_key_def cm')
  show "presence_rel px' = {(n, c) \<in> presence_rel px. n \<noteq> old \<and> n \<noteq> key} \<union> {(key, c) | c. (old, c) \<in> presence_rel px}"
    unfolding presence_rel_def cou using i by (auto simp: nick' split: if_splits)
qed

lemma rename_spec:
  assumes pinv: "presence_inv px"
  shows "presence_inv (presence_rename old new px)"
    and "presence_rel (presence_rename old new px) =
      (if presence_user px old = None then presence_rel px
       else {(n, c) \<in> presence_rel px. n \<noteq> nickname_key old \<and> n \<noteq> nickname_key new}
            \<union> {(nickname_key new, c) | c. (nickname_key old, c) \<in> presence_rel px})"
    and "presence_user px old = Some i \<Longrightarrow> presence_user (presence_rename old new px) new = Some i"
    and "map_of (px_by_nick (presence_rename old new px)) n = Some j \<Longrightarrow> \<exists>m. map_of (px_by_nick px) m = Some j"
    and "px_next (presence_rename old new px) = px_next px"
    and "px_casemapping (presence_rename old new px) = px_casemapping px"
proof -
  have inv: "core_inv {} {} px" using pinv by (simp add: presence_inv_def)
  let ?o = "nickname_key old" and ?k = "nickname_key new"
  have "presence_inv (presence_rename old new px) \<and>
    presence_rel (presence_rename old new px) =
      (if presence_user px old = None then presence_rel px
       else {(n, c) \<in> presence_rel px. n \<noteq> ?o \<and> n \<noteq> ?k} \<union> {(?k, c) | c. (?o, c) \<in> presence_rel px}) \<and>
    (presence_user px old = Some i \<longrightarrow> presence_user (presence_rename old new px) new = Some i) \<and>
    (map_of (px_by_nick (presence_rename old new px)) n = Some j \<longrightarrow> (\<exists>m. map_of (px_by_nick px) m = Some j)) \<and>
    px_next (presence_rename old new px) = px_next px \<and>
    px_casemapping (presence_rename old new px) = px_casemapping px"
  proof (cases "map_of (px_by_nick px) ?o")
    case None
    then show ?thesis using pinv by (auto simp: presence_rename_def presence_user_def)
  next
    case (Some i0)
    from core_invD(5) [OF inv Some] obtain p where p: "map_of (px_users px) i0 = Some p" "pr_key p = ?o" by blast
    let ?new = "\<lambda>q. q\<lparr>px_by_nick := AList.update ?k i0 (px_by_nick q),
        px_users := AList.update i0 (p\<lparr>pr_key := ?k, pr_nick := new\<rparr>) (px_users q)\<rparr>"
    show ?thesis
    proof (cases "?k = ?o \<or> map_of (px_by_nick px) ?k = None")
      case True
      have eq: "presence_rename old new px = ?new (px\<lparr>px_by_nick := AList.delete ?o (px_by_nick px)\<rparr>)"
        using True Some p by (auto simp: presence_rename_def Let_def)
      have "core_inv {} {} (presence_rename old new px)"
        and "presence_rel (presence_rename old new px) =
          {(n, c) \<in> presence_rel px. n \<noteq> ?o \<and> n \<noteq> ?k} \<union> {(?k, c) | c. (?o, c) \<in> presence_rel px}"
        by (rule rekey_core [OF inv Some p(1) True refl];
            simp add: eq core_invD(1) [OF inv])+
      then show ?thesis
        using Some by (auto simp: presence_inv_def presence_user_def eq split: if_splits)
    next
      case False
      then obtain st where st: "map_of (px_by_nick px) ?k = Some st" by auto
      have ne: "st \<noteq> i0" using by_nick_inj [OF inv st] Some False by auto
      from core_invD(5) [OF inv st] obtain ps where ps: "map_of (px_users px) st = Some ps" "pr_key ps = ?k" by blast
      let ?f = "forget st px"
      note f = forget_core [OF inv ps(1)]
      have core: "core_inv {} {} ?f" using f(1) by simp
      have o: "map_of (px_by_nick ?f) ?o = Some i0" using Some False by (auto simp: f(2) ps(2))
      have po: "map_of (px_users ?f) i0 = Some p" using ne p(1) by (simp add: f(3))
      have free: "?k = ?o \<or> map_of (px_by_nick ?f) ?k = None" by (simp add: f(2) ps(2))
      let ?b = "AList.delete ?k (AList.delete ?o (px_by_nick px))"
      have drop: "forget st (px\<lparr>px_by_nick := ?b\<rparr>) = ?f\<lparr>px_by_nick := AList.delete ?k ?b\<rparr>"
        using ps by (simp add: forget_def)
      have eq: "presence_rename old new px = ?new (?f\<lparr>px_by_nick := AList.delete ?k ?b\<rparr>)"
        using Some False st ne po drop by (simp add: presence_rename_def Let_def)
      have "core_inv {} {} (presence_rename old new px)"
        and rel: "presence_rel (presence_rename old new px) =
          {(n, c) \<in> presence_rel ?f. n \<noteq> ?o \<and> n \<noteq> ?k} \<union> {(?k, c) | c. (?o, c) \<in> presence_rel ?f}"
        by (rule rekey_core [OF core o po free refl];
            use False in \<open>auto simp: eq core_invD(1) [OF inv] f(2) ps(2) fun_eq_iff\<close>)+
      moreover have "(m, c) \<in> presence_rel ?f \<longleftrightarrow> (m, c) \<in> presence_rel px" if "m \<noteq> ?k" for m c
        using that by_nick_inj [OF inv _ st, of m] unfolding presence_rel_def by (auto simp: f(2,4) ps(2)) metis
      ultimately show ?thesis
        using Some False by (auto simp: presence_inv_def presence_user_def eq f(5,6) split: if_splits)
    qed
  qed
  then show "presence_inv (presence_rename old new px)"
    and "presence_rel (presence_rename old new px) =
      (if presence_user px old = None then presence_rel px
       else {(n, c) \<in> presence_rel px. n \<noteq> nickname_key old \<and> n \<noteq> nickname_key new}
            \<union> {(nickname_key new, c) | c. (nickname_key old, c) \<in> presence_rel px})"
    and "presence_user px old = Some i \<Longrightarrow> presence_user (presence_rename old new px) new = Some i"
    and "map_of (px_by_nick (presence_rename old new px)) n = Some j \<Longrightarrow> \<exists>m. map_of (px_by_nick px) m = Some j"
    and "px_next (presence_rename old new px) = px_next px"
    and "px_casemapping (presence_rename old new px) = px_casemapping px"
    by blast+
qed

section \<open>Another case mapping\<close>

lemma moved_channels_set:
  "set (moved_channels moved kept olds) = set kept \<union> {new. \<exists>old \<in> set olds. map_of moved old = Some new}"
  by (induction moved kept olds rule: moved_channels.induct) (auto split: option.splits)

lemma moved_channels_distinct: "distinct kept \<Longrightarrow> distinct (moved_channels moved kept olds)"
  by (induction moved kept olds rule: moved_channels.induct) (auto split: option.splits)

definition users_in :: "(rstring, members) hmap \<Rightarrow> rstring \<Rightarrow> user_id set" where
  "users_in chans ck = (case map_of chans ck of Some mb \<Rightarrow> set (mb_users mb) | None \<Rightarrow> {})"

text \<open>The loop over the channels: \<open>ds\<close> are those already moved.\<close>

definition rekeyed :: "case_mapping \<Rightarrow> members list \<Rightarrow> (rstring, rstring) hmap \<times> (rstring, members) hmap \<Rightarrow> bool" where
  "rekeyed m ds = (\<lambda>(moved, chans).
     keys_distinct chans
     \<and> (\<forall>ck mb. map_of chans ck = Some mb \<longrightarrow>
          mb_key mb = ck \<and> ck = cm_fold m (mb_name mb) \<and> distinct (mb_users mb))
     \<and> (\<forall>ck. users_in chans ck = (\<Union>mb \<in> {mb \<in> set ds. cm_fold m (mb_name mb) = ck}. set (mb_users mb)))
     \<and> (\<forall>k new. map_of moved k = Some new \<longleftrightarrow> (\<exists>mb \<in> set ds. mb_key mb = k \<and> new = cm_fold m (mb_name mb))))"

lemma rekey_one:
  assumes r: "rekeyed m ds (moved, chans)" and new: "mb_key mb \<notin> mb_key ` set ds" and dist: "distinct (mb_users mb)"
  shows "rekeyed m (mb # ds) (rekey_members m mb (moved, chans))"
proof -
  let ?k = "cm_fold m (mb_name mb)"
  let ?old = "case map_of chans ?k of Some old \<Rightarrow> old | None \<Rightarrow> members_default"
  let ?set = "if mb_key ?old = [] then ?old\<lparr>mb_key := ?k, mb_name := mb_name mb\<rparr> else ?old"
  let ?new = "?set\<lparr>mb_users := List.union (mb_users mb) (mb_users ?set)\<rparr>"
  have entry: "mb_key e = ck \<and> ck = cm_fold m (mb_name e) \<and> distinct (mb_users e)"
    if "map_of chans ck = Some e" for ck e using r that by (auto simp: rekeyed_def)
  have key: "mb_key ?set = ?k \<and> cm_fold m (mb_name ?set) = ?k"
  proof (cases "map_of chans ?k")
    case None
    then show ?thesis by (simp add: members_default_def)
  next
    case (Some e)
    then show ?thesis using entry [OF Some] by auto
  qed
  have users: "set (mb_users ?set) = users_in chans ?k" "distinct (mb_users ?set)"
    using entry [of ?k, THEN conjunct2, THEN conjunct2]
    by (auto simp: users_in_def members_default_def split: option.splits)
  have eq: "rekey_members m mb (moved, chans) =
      (AList.update (mb_key mb) ?k moved, AList.update ?k ?new chans)"
    using key by (simp add: rekey_members_def Let_def List.union_def)
  have "users_in (AList.update ?k ?new chans) ck =
      (\<Union>e \<in> {e \<in> set (mb # ds). cm_fold m (mb_name e) = ck}. set (mb_users e))" for ck
  proof -
    have "users_in (AList.update ?k ?new chans) ck =
        (if ck = ?k then set (mb_users mb) \<union> users_in chans ?k else users_in chans ck)"
      using users(1) by (simp add: users_in_def)
    also have "\<dots> = (\<Union>e \<in> {e \<in> set (mb # ds). cm_fold m (mb_name e) = ck}. set (mb_users e))"
      using r by (auto simp: rekeyed_def)
    finally show ?thesis .
  qed
  moreover have "mb_key e = ck \<and> ck = cm_fold m (mb_name e) \<and> distinct (mb_users e)"
    if "map_of (AList.update ?k ?new chans) ck = Some e" for ck e
  proof (cases "ck = ?k")
    case True
    then have "e = ?new" using that by simp
    then show ?thesis using key users(2) True by simp
  next
    case False
    then show ?thesis using that entry [of ck e] by simp
  qed
  moreover have "map_of (AList.update (mb_key mb) ?k moved) k = Some n \<longleftrightarrow>
      (\<exists>e \<in> set (mb # ds). mb_key e = k \<and> n = cm_fold m (mb_name e))" for k n
    using r new by (auto simp: rekeyed_def image_iff)
  moreover have "keys_distinct (AList.update ?k ?new chans)" using r by (simp add: rekeyed_def)
  ultimately show ?thesis
    unfolding eq rekeyed_def prod.case by (intro conjI allI impI) blast+
qed

lemma rekey_fold:
  assumes "rekeyed m ds acc" and "distinct (map mb_key (rev mbs @ ds))" and "\<And>mb. mb \<in> set mbs \<Longrightarrow> distinct (mb_users mb)"
  shows "rekeyed m (rev mbs @ ds) (fold (rekey_members m) mbs acc)"
  using assms
proof (induction mbs arbitrary: ds acc)
  case (Cons mb mbs)
  obtain moved chans where acc: "acc = (moved, chans)" by (cases acc)
  have "rekeyed m (mb # ds) (rekey_members m mb acc)"
    using Cons.prems unfolding acc by (intro rekey_one) auto
  from Cons.IH [OF this] Cons.prems(2,3) show ?case by simp
qed simp

lemma set_casemapping_spec:
  assumes pinv: "presence_inv px"
  shows "presence_inv (presence_set_casemapping m px)"
    and "(n, c) \<in> presence_rel (presence_set_casemapping m px) \<longleftrightarrow>
      (\<exists>old mb. (n, old) \<in> presence_rel px \<and> map_of (px_channels px) old = Some mb \<and> c = cm_fold m (mb_name mb))"
    and "px_by_nick (presence_set_casemapping m px) = px_by_nick px"
    and "px_next (presence_set_casemapping m px) = px_next px"
    and "px_casemapping (presence_set_casemapping m px) = m"
proof -
  have inv: "core_inv {} {} px" using pinv by (simp add: presence_inv_def)
  have listed: "\<exists>mb. map_of (px_channels px) c = Some mb \<and> i \<in> set (mb_users mb)" if "c \<in> channels_of_user px i" for c i
    using core_invD(7) [OF inv, of c i] that by (auto simp: users_of_channel_def split: option.splits)
  have "presence_inv (presence_set_casemapping m px) \<and>
    (\<forall>i. channels_of_user (presence_set_casemapping m px) i =
      {c. \<exists>old mb. old \<in> channels_of_user px i \<and> map_of (px_channels px) old = Some mb \<and> c = cm_fold m (mb_name mb)}) \<and>
    px_by_nick (presence_set_casemapping m px) = px_by_nick px \<and>
    px_next (presence_set_casemapping m px) = px_next px \<and>
    px_casemapping (presence_set_casemapping m px) = m"
  proof (cases "px_casemapping px = m")
    case True
    have "cm_fold m (mb_name mb) = c" if "map_of (px_channels px) c = Some mb" for c mb
      using core_invD(6) [OF inv that] True by (simp add: channel_key_def)
    then show ?thesis
      using True pinv listed by (auto simp: presence_set_casemapping_def) fastforce+
  next
    case False
    let ?mbs = "map snd (px_channels px)"
    obtain moved chans where f: "fold (rekey_members m) ?mbs ([], []) = (moved, chans)" by fastforce
    have at: "map_of (px_channels px) (mb_key mb) = Some mb \<and> distinct (mb_users mb)" if "mb \<in> set ?mbs" for mb
    proof -
      have "\<exists>k. (k, mb) \<in> set (px_channels px)" using that by auto
      then obtain k where "(k, mb) \<in> set (px_channels px)" by blast
      then have k: "map_of (px_channels px) k = Some mb" using core_invD(3) [OF inv] by (simp add: map_of_in_iff)
      show ?thesis using core_invD(6) [OF inv k] k by simp
    qed
    have mem: "mb \<in> set ?mbs" if "map_of (px_channels px) k = Some mb" for k mb
      using that by (force dest: map_of_SomeD)
    have keys: "map mb_key ?mbs = map fst (px_channels px)"
      using core_invD(3,6) [OF inv] by (auto simp: map_of_in_iff)
    have "distinct (map mb_key ?mbs)" unfolding keys using core_invD(3) [OF inv] by (simp add: keys_distinct_def)
    then have "rekeyed m (rev ?mbs @ []) (moved, chans)"
      unfolding f [symmetric]
      by (intro rekey_fold) (auto simp: rekeyed_def users_in_def rev_map [symmetric] at)
    then have r: "keys_distinct chans"
      "\<And>ck mb. map_of chans ck = Some mb \<Longrightarrow> mb_key mb = ck \<and> ck = cm_fold m (mb_name mb) \<and> distinct (mb_users mb)"
      "\<And>ck. users_in chans ck = (\<Union>mb \<in> {mb \<in> set ?mbs. cm_fold m (mb_name mb) = ck}. set (mb_users mb))"
      "\<And>k new. map_of moved k = Some new \<longleftrightarrow> (\<exists>mb \<in> set ?mbs. mb_key mb = k \<and> new = cm_fold m (mb_name mb))"
      by (auto simp: rekeyed_def)
    let ?g = "\<lambda>p. p\<lparr>pr_channels := moved_channels moved [] (pr_channels p)\<rparr>"
    let ?px = "presence_set_casemapping m px"
    have eq: "?px = px\<lparr>px_casemapping := m, px_channels := chans,
        px_users := map (\<lambda>(i, p). (i, ?g p)) (px_users px)\<rparr>"
      using False by (simp add: presence_set_casemapping_def f)
    have users: "map_of (px_users ?px) i = map_option ?g (map_of (px_users px) i)" for i
      by (simp add: eq map_of_map)
    have moved: "map_of moved k = Some new \<longleftrightarrow> (\<exists>mb. map_of (px_channels px) k = Some mb \<and> new = cm_fold m (mb_name mb))" for k new
    proof
      assume "map_of moved k = Some new"
      then show "\<exists>mb. map_of (px_channels px) k = Some mb \<and> new = cm_fold m (mb_name mb)"
        unfolding r(4) using at by blast
    next
      assume "\<exists>mb. map_of (px_channels px) k = Some mb \<and> new = cm_fold m (mb_name mb)"
      then obtain mb where mb: "map_of (px_channels px) k = Some mb" "new = cm_fold m (mb_name mb)" by blast
      have "mb_key mb = k" using core_invD(6) [OF inv mb(1)] by blast
      then show "map_of moved k = Some new" unfolding r(4) using mem [OF mb(1)] mb(2) by blast
    qed
    have cou: "channels_of_user ?px i =
      {c. \<exists>old mb. old \<in> channels_of_user px i \<and> map_of (px_channels px) old = Some mb \<and> c = cm_fold m (mb_name mb)}" for i
      by (auto simp: channels_of_user_def users moved_channels_set moved split: option.splits)
    have uoc: "users_of_channel ?px c =
      {i. \<exists>old mb. i \<in> users_of_channel px old \<and> map_of (px_channels px) old = Some mb \<and> c = cm_fold m (mb_name mb)}" for c
    proof -
      have "users_of_channel ?px c = users_in chans c" by (simp add: users_of_channel_def users_in_def eq)
      moreover have "(i \<in> users_in chans c) = (\<exists>old mb. i \<in> users_of_channel px old
          \<and> map_of (px_channels px) old = Some mb \<and> c = cm_fold m (mb_name mb))" for i
      proof
        assume "i \<in> users_in chans c"
        then obtain mb where mb: "mb \<in> set ?mbs" "cm_fold m (mb_name mb) = c" "i \<in> set (mb_users mb)"
          unfolding r(3) by blast
        moreover have "i \<in> users_of_channel px (mb_key mb)"
          using at [OF mb(1)] mb(3) by (simp add: users_of_channel_def)
        ultimately show "\<exists>old mb. i \<in> users_of_channel px old
          \<and> map_of (px_channels px) old = Some mb \<and> c = cm_fold m (mb_name mb)"
          using at [OF mb(1)] by blast
      next
        assume "\<exists>old mb. i \<in> users_of_channel px old
          \<and> map_of (px_channels px) old = Some mb \<and> c = cm_fold m (mb_name mb)"
        then obtain old mb where mb: "i \<in> users_of_channel px old" "map_of (px_channels px) old = Some mb"
          "c = cm_fold m (mb_name mb)" by blast
        then show "i \<in> users_in chans c"
          unfolding r(3) using mem [OF mb(2)] by (auto simp: users_of_channel_def)
      qed
      ultimately show ?thesis by blast
    qed
    have "presence_ok ?px False i q" if q: "map_of (px_users ?px) i = Some q" for i q
    proof -
      obtain p where p: "map_of (px_users px) i = Some p" "q = ?g p" using q by (auto simp: users)
      have "pr_channels p \<noteq> []" using core_invD(4) [OF inv p(1)] by (simp add: presence_ok_def)
      then obtain c where "c \<in> set (pr_channels p)" by fastforce
      then have "c \<in> channels_of_user px i" by (simp add: channels_of_user_def p(1))
      with listed have "channels_of_user ?px i \<noteq> {}" by (auto simp: cou) blast
      then have "pr_channels q \<noteq> []" using q by (auto simp: channels_of_user_def)
      then show ?thesis
        using core_invD(4) [OF inv p(1)] p(2) moved_channels_distinct [of "[]"]
        unfolding presence_ok_def by (auto simp: eq)
    qed
    moreover have "\<exists>q. map_of (px_users ?px) j = Some q \<and> pr_key q = k" if "map_of (px_by_nick ?px) k = Some j" for k j
    proof -
      have "map_of (px_by_nick px) k = Some j" using that by (simp add: eq)
      then obtain p where "map_of (px_users px) j = Some p" "pr_key p = k"
        using core_invD(5) [OF inv] by blast
      then show ?thesis by (simp add: users)
    qed
    moreover have "c \<in> channels_of_user ?px i \<longleftrightarrow> i \<in> users_of_channel ?px c" for i c
      using core_invD(7) [OF inv] by (simp add: cou uoc)
    moreover have "keys_distinct (px_users ?px)"
      using core_invD(2) [OF inv] by (simp add: eq keys_distinct_def o_def split_beta)
    ultimately have "core_inv {} {} ?px"
      using core_invD(1) [OF inv] r(1,2) unfolding core_inv_def
      by (auto simp: eq channel_key_def)
    then show ?thesis using cou by (simp add: presence_inv_def eq)
  qed
  then show "presence_inv (presence_set_casemapping m px)"
    and "(n, c) \<in> presence_rel (presence_set_casemapping m px) \<longleftrightarrow>
      (\<exists>old mb. (n, old) \<in> presence_rel px \<and> map_of (px_channels px) old = Some mb \<and> c = cm_fold m (mb_name mb))"
    and "px_by_nick (presence_set_casemapping m px) = px_by_nick px"
    and "px_next (presence_set_casemapping m px) = px_next px"
    and "px_casemapping (presence_set_casemapping m px) = m"
    by (auto simp: presence_rel_def)
qed

section \<open>Queries\<close>

lemma presence_of_key:
  assumes "presence_inv px"
  shows "presence_of px nickname = Some p \<longleftrightarrow>
    (\<exists>i. map_of (px_by_nick px) (nickname_key nickname) = Some i \<and> map_of (px_users px) i = Some p)"
  by (auto simp: presence_of_def presence_user_def Option.bind_eq_Some_conv)

lemma presence_of_rel:
  assumes "presence_inv px"
  shows "(nickname_key nickname, c) \<in> presence_rel px \<longleftrightarrow>
    (\<exists>p. presence_of px nickname = Some p \<and> c \<in> set (pr_channels p))"
  unfolding presence_of_key [OF assms]
  by (auto simp: presence_rel_def channels_of_user_def split: option.splits)

lemma in_channel_rel:
  assumes "presence_inv px"
  shows "in_channel px channel nickname \<longleftrightarrow> (nickname_key nickname, channel_key px channel) \<in> presence_rel px"
proof -
  have inv: "core_inv {} {} px" using assms by (simp add: presence_inv_def)
  have "channel_key px channel \<in> channels_of_user px i \<longleftrightarrow> i \<in> users_of_channel px (channel_key px channel)" for i
    using core_invD(7) [OF inv] by simp
  then show ?thesis
    by (auto simp: in_channel_def presence_rel_def presence_user_def users_of_channel_def split: option.splits)
qed

lemma shares_rel:
  assumes "presence_inv px"
  shows "shares px nickname except \<longleftrightarrow>
    (\<exists>c. (nickname_key nickname, c) \<in> presence_rel px \<and> Some c \<noteq> map_option (channel_key px) except)"
  unfolding presence_of_rel [OF assms] shares_def Let_def by (auto simp: list_ex_iff split: option.splits)

lemma in_map_filter: "y \<in> set (List.map_filter f xs) \<longleftrightarrow> (\<exists>x \<in> set xs. f x = Some y)"
  by (force simp: List.map_filter_def)

lemma only_in_rel:
  assumes pinv: "presence_inv px"
  shows "nickname_key ` set (only_in px channel) =
    {n. (n, channel_key px channel) \<in> presence_rel px
        \<and> (\<forall>c. (n, c) \<in> presence_rel px \<longrightarrow> c = channel_key px channel)}"
proof -
  let ?ck = "channel_key px channel"
  have inv: "core_inv {} {} px" using pinv by (simp add: presence_inv_def)
  have mem: "nick \<in> set (only_in px channel) \<longleftrightarrow>
      (\<exists>i p. i \<in> users_of_channel px ?ck \<and> map_of (px_users px) i = Some p \<and> length (pr_channels p) = 1 \<and> nick = pr_nick p)" for nick
  proof (cases "map_of (px_channels px) ?ck")
    case None
    then show ?thesis by (simp add: only_in_def users_of_channel_def)
  next
    case (Some mb)
    then show ?thesis
      by (simp add: only_in_def users_of_channel_def in_map_filter image_iff) blast
  qed
  have one: "length (pr_channels p) = 1 \<longleftrightarrow> set (pr_channels p) = {c}"
    if "map_of (px_users px) i = Some p" "c \<in> set (pr_channels p)" for i p c
  proof -
    have "distinct (pr_channels p)" using core_invD(4) [OF inv that(1)] by (simp add: presence_ok_def)
    then have "length (pr_channels p) = card (set (pr_channels p))" by (simp add: distinct_card)
    moreover have "card (set (pr_channels p)) = 1 \<longleftrightarrow> set (pr_channels p) = {c}"
    proof
      assume "card (set (pr_channels p)) = 1"
      then obtain x where "set (pr_channels p) = {x}" by (rule card_1_singletonE)
      with that(2) show "set (pr_channels p) = {c}" by simp
    qed simp
    ultimately show ?thesis by simp
  qed
  have owner: "map_of (px_by_nick px) (nickname_key (pr_nick p)) = Some i" if "map_of (px_users px) i = Some p" for i p
    using core_invD(4) [OF inv that] unfolding presence_ok_def by auto
  show ?thesis
  proof (intro set_eqI iffI)
    fix n assume "n \<in> nickname_key ` set (only_in px channel)"
    then obtain i p where ip: "i \<in> users_of_channel px ?ck" "map_of (px_users px) i = Some p"
      "length (pr_channels p) = 1" "n = nickname_key (pr_nick p)" by (auto simp: mem)
    have ck: "?ck \<in> set (pr_channels p)"
      using core_invD(7) [OF inv, of ?ck i] ip(1,2) by (simp add: channels_of_user_def)
    then have "set (pr_channels p) = {?ck}" using one [OF ip(2) ck] ip(3) by blast
    then show "n \<in> {n. (n, ?ck) \<in> presence_rel px \<and> (\<forall>c. (n, c) \<in> presence_rel px \<longrightarrow> c = ?ck)}"
      using owner [OF ip(2)] ip(2,4) by (auto simp: presence_rel_def channels_of_user_def)
  next
    fix n assume n: "n \<in> {n. (n, ?ck) \<in> presence_rel px \<and> (\<forall>c. (n, c) \<in> presence_rel px \<longrightarrow> c = ?ck)}"
    then obtain i where i: "map_of (px_by_nick px) n = Some i" "?ck \<in> channels_of_user px i"
      by (auto simp: presence_rel_def)
    then obtain p where p: "map_of (px_users px) i = Some p" "?ck \<in> set (pr_channels p)"
      by (auto elim: core_inv_users [OF inv])
    have "pr_key p = n" using core_invD(5) [OF inv i(1)] p(1) by auto
    then have nick: "n = nickname_key (pr_nick p)"
      using core_invD(4) [OF inv p(1)] by (simp add: presence_ok_def)
    have "c = ?ck" if c: "c \<in> set (pr_channels p)" for c
    proof -
      have "(n, c) \<in> presence_rel px"
        using i(1) p(1) c by (simp add: presence_rel_def channels_of_user_def)
      then show ?thesis using n by blast
    qed
    then have "set (pr_channels p) = {?ck}" using p(2) by blast
    then have "length (pr_channels p) = 1" using one [OF p] by blast
    then have "pr_nick p \<in> set (only_in px channel)"
      using core_invD(7) [OF inv, of ?ck i] i(2) p(1) by (auto simp: mem)
    then show "n \<in> nickname_key ` set (only_in px channel)" using nick by blast
  qed
qed

section \<open>The machine\<close>

datatype presence_op =
    PxSetMapping case_mapping
  | PxReplace rstring "rstring list"
  | PxRemove rstring
  | PxRename rstring rstring
  | PxQuit rstring

fun presence_step :: "presence_op \<Rightarrow> presence_index \<Rightarrow> presence_index" where
  "presence_step (PxSetMapping m) px = presence_set_casemapping m px"
| "presence_step (PxReplace channel roster) px = replace_channel channel roster px"
| "presence_step (PxRemove channel) px = remove_channel channel px"
| "presence_step (PxRename old new) px = presence_rename old new px"
| "presence_step (PxQuit nickname) px = presence_quit nickname px"

lemma presence_step_inv: "presence_inv px \<Longrightarrow> presence_inv (presence_step op px)"
  by (cases op) (simp_all add: set_casemapping_spec replace_channel_spec remove_channel_spec
      rename_spec quit_spec)

interpretation presence_machine: machine presence_step "\<lambda>px op. True"
  "\<lambda>px. px = presence_default" presence_inv
  by unfold_locales (auto simp: presence_inv_default presence_step_inv)

text \<open>The identities in use, and those handed out by one call.\<close>

definition live_ids :: "presence_index \<Rightarrow> user_id set" where
  "live_ids px = ran (map_of (px_by_nick px))"

lemma live_ids_step:
  assumes "presence_inv px"
  shows "live_ids (presence_step op px) \<subseteq> live_ids px \<union> {px_next px..}
    \<and> px_next px \<le> px_next (presence_step op px)"
proof (cases op)
  case (PxReplace channel roster)
  then show ?thesis
    using replace_channel_spec(3,5) [OF assms, of channel roster] by (auto simp: live_ids_def ran_def)
next
  case (PxRemove channel)
  then show ?thesis
    using remove_channel_spec(3,4) [OF assms, of channel] by (auto simp: live_ids_def ran_def)
next
  case (PxRename old new)
  then show ?thesis
    using rename_spec(4,5) [OF assms, of old new] by (auto simp: live_ids_def ran_def)
next
  case (PxQuit nickname)
  then show ?thesis
    using quit_spec(4,5) [OF assms, of nickname] by (auto simp: live_ids_def ran_def)
next
  case (PxSetMapping m)
  then show ?thesis
    using set_casemapping_spec(3,4) [OF assms, of m] by (simp add: live_ids_def)
qed

lemma live_ids_run:
  assumes "presence_inv px" and "i < px_next px" and "i \<notin> live_ids px"
  shows "i \<notin> live_ids (fold presence_step ops px)"
  using assms
proof (induction ops arbitrary: px)
  case (Cons op ops)
  have "i \<notin> live_ids (presence_step op px) \<and> i < px_next (presence_step op px)"
    using live_ids_step [OF Cons.prems(1), of op] Cons.prems(2,3) by auto
  then show ?case
    using Cons.IH [OF presence_step_inv [OF Cons.prems(1)]] by simp
qed simp

section \<open>Properties\<close>

text \<open>After any sequence of rosters, departures, renames, quits and case mapping changes, the two
  directions of the index agree and nothing is orphaned: the check the code's tests run holds.\<close>
theorem presence_consistent:
  "consistent (fold presence_step ops presence_default)"
  by (intro presence_inv_consistent presence_machine.run_init_inv presence_machine.run_ok_total) simp_all

text \<open>C20. Every operation changes exactly what it says of who is in which channel, as a relation
  between nickname keys and channel keys: a roster replaces the members of its channel, leaving a
  channel and quitting remove theirs, a rename moves the channels to the new name, and another case
  mapping renames the channels.\<close>
theorem presence_refines_relation:
  assumes "presence_machine.reachable px"
  shows "presence_rel (replace_channel channel roster px) =
      {(n, c) \<in> presence_rel px. c \<noteq> channel_key px channel} \<union> roster_keys roster \<times> {channel_key px channel}
    \<and> presence_rel (remove_channel channel px) = {(n, c) \<in> presence_rel px. c \<noteq> channel_key px channel}
    \<and> presence_rel (presence_quit nickname px) = {(n, c) \<in> presence_rel px. n \<noteq> nickname_key nickname}
    \<and> presence_rel (presence_rename old new px) =
        (if presence_user px old = None then presence_rel px
         else {(n, c) \<in> presence_rel px. n \<noteq> nickname_key old \<and> n \<noteq> nickname_key new}
              \<union> {(nickname_key new, c) | c. (nickname_key old, c) \<in> presence_rel px})
    \<and> presence_rel (presence_set_casemapping m px) =
        {(n, cm_fold m (mb_name mb)) | n c mb. (n, c) \<in> presence_rel px \<and> map_of (px_channels px) c = Some mb}
    \<and> (in_channel px channel nickname \<longleftrightarrow>
        (nickname_key nickname, channel_key px channel) \<in> presence_rel px)"
proof -
  have inv: "presence_inv px" using presence_machine.reachable_inv [OF assms] .
  have moved: "presence_rel (presence_set_casemapping m px) =
        {(n, cm_fold m (mb_name mb)) | n c mb. (n, c) \<in> presence_rel px \<and> map_of (px_channels px) c = Some mb}"
    unfolding set_eq_iff split_paired_All set_casemapping_spec(2) [OF inv] by blast
  show ?thesis
    by (intro conjI replace_channel_spec(2) [OF inv] remove_channel_spec(2) [OF inv]
        quit_spec(2) [OF inv] rename_spec(2) [OF inv] moved in_channel_rel [OF inv])
qed

theorem presence_refines_relation_witness:
  "in_channel (replace_channel (lit ''#a'') [lit ''@Bob''] presence_default) (lit ''#A'') (lit ''bob'') \<longleftrightarrow>
     (nickname_key (lit ''bob''), channel_key (replace_channel (lit ''#a'') [lit ''@Bob''] presence_default) (lit ''#A''))
       \<in> presence_rel (replace_channel (lit ''#a'') [lit ''@Bob''] presence_default)"
proof -
  have "presence_machine.reachable (presence_step (PxReplace (lit ''#a'') [lit ''@Bob'']) presence_default)"
    by (blast intro: presence_machine.reachable.start presence_machine.reachable.call)
  then have "presence_machine.reachable (replace_channel (lit ''#a'') [lit ''@Bob''] presence_default)"
    by simp
  from presence_refines_relation [OF this] show ?thesis by blast
qed

text \<open>An identity is one presence: a rename keeps it, a roster keeps it for everybody it knows,
  no two nicknames share it, and once its user has quit or left every shared channel no later
  operation hands it out again.\<close>
theorem presence_identity:
  assumes "presence_machine.reachable px"
  shows "(presence_user px old = Some i \<longrightarrow> presence_user (presence_rename old new px) new = Some i)
    \<and> (presence_user px nickname = Some i \<and> nickname_key nickname \<in> roster_keys roster \<longrightarrow>
         presence_user (replace_channel channel roster px) nickname = Some i)
    \<and> (presence_user px a = Some i \<and> presence_user px b = Some i \<longrightarrow> same_nickname a b)
    \<and> (i < px_next px \<and> i \<notin> live_ids px \<longrightarrow> presence_user (fold presence_step ops px) nickname \<noteq> Some i)"
proof -
  have inv: "presence_inv px" using presence_machine.reachable_inv [OF assms] .
  then have core: "core_inv {} {} px" by (simp add: presence_inv_def)
  have "presence_user (fold presence_step ops px) nickname \<noteq> Some i" if "i < px_next px" "i \<notin> live_ids px"
    using live_ids_run [OF inv that] by (auto simp: live_ids_def presence_user_def ran_def)
  moreover have "same_nickname a b" if "presence_user px a = Some i" "presence_user px b = Some i"
    using by_nick_inj [OF core] that by (simp add: presence_user_def nickname.same_iff)
  ultimately show ?thesis
    using rename_spec(3) [OF inv] replace_channel_spec(4) [OF inv] by (auto simp: presence_user_def)
qed

theorem presence_identity_witness:
  "presence_user (presence_rename (lit ''a'') (lit ''b'')
     (presence_step (PxReplace (lit ''#c'') [lit ''a'']) presence_default)) (lit ''b'') = Some 0"
proof -
  have "presence_machine.reachable (presence_step (PxReplace (lit ''#c'') [lit ''a'']) presence_default)"
    by (blast intro: presence_machine.reachable.start presence_machine.reachable.call)
  moreover have "presence_user (presence_step (PxReplace (lit ''#c'') [lit ''a'']) presence_default) (lit ''a'') = Some 0"
    by code_simp
  ultimately show ?thesis using presence_identity by blast
qed

text \<open>The nicknames reported as departed are those we stop sharing a channel with: when we leave a
  channel, exactly the others whose only shared channel it was, by comparison of the relation
  before and after; when somebody else leaves, that person unless still in another channel.\<close>
theorem departed_exact:
  assumes "presence_machine.reachable px"
  shows "nickname_key ` set (departed_from px (\<lambda>nick. same_nickname nick me) channel leaving) =
    (if same_nickname leaving me
     then Domain (presence_rel px) - Domain (presence_rel (remove_channel channel px)) - {nickname_key me}
     else {nickname_key leaving}
          - Domain {(n, c) \<in> presence_rel px. c \<noteq> channel_key px channel})"
proof -
  have inv: "presence_inv px" using presence_machine.reachable_inv [OF assms] .
  let ?ck = "channel_key px channel"
  have "nickname_key ` set (filter (\<lambda>nick. \<not> same_nickname nick me) (only_in px channel)) =
      nickname_key ` set (only_in px channel) - {nickname_key me}"
    by (auto simp: nickname.same_iff)
  moreover have "nickname_key ` set (only_in px channel) =
      Domain (presence_rel px) - Domain (presence_rel (remove_channel channel px))"
    unfolding only_in_rel [OF inv] remove_channel_spec(2) [OF inv] by auto
  moreover have "shares px leaving (Some channel) \<longleftrightarrow>
      nickname_key leaving \<in> Domain {(n, c) \<in> presence_rel px. c \<noteq> ?ck}"
    unfolding shares_rel [OF inv] by auto
  ultimately show ?thesis by (auto simp: departed_from_def)
qed

theorem departed_exact_witness:
  "nickname_key ` set (departed_from presence_default (\<lambda>nick. same_nickname nick (lit ''me'')) (lit ''#a'') (lit ''bob''))
   = {nickname_key (lit ''bob'')} - Domain {(n, c) \<in> presence_rel presence_default. c \<noteq> channel_key presence_default (lit ''#a'')}"
proof -
  have "presence_machine.reachable presence_default" by (rule presence_machine.reachable.start) simp
  moreover have "\<not> same_nickname (lit ''bob'') (lit ''me'')" by code_simp
  ultimately show ?thesis
    using departed_exact [of presence_default "lit ''me''" "lit ''#a''" "lit ''bob''"] by simp
qed

end
