(* ===== verification/Accounts.thy ===== *)
theory Accounts
  imports Presence
begin

text \<open>
  \<open>crates/irc-core/src/accounts.rs\<close>: the services accounts of the users we share a channel with,
  learned from joins, from account changes and from one \<open>WHOX\<close> query per channel. Every change is
  reported as an event the application mirrors. Sets are lists of distinct members; instants are
  milliseconds.
\<close>

section \<open>State\<close>

definition MAX_USERS :: nat where "MAX_USERS = 4096"
definition MAX_QUEUED_WHO :: nat where "MAX_QUEUED_WHO = 64"
definition MAX_DEPARTED_WHO :: nat where "MAX_DEPARTED_WHO = 4096"
definition WHO_TIMEOUT :: nat where "WHO_TIMEOUT = 15000"
definition MAX_REALNAME_BYTES :: nat where "MAX_REALNAME_BYTES = 256"
definition MAX_ACCOUNT_BYTES :: nat where "MAX_ACCOUNT_BYTES = 128"

record known =
  kn_nickname :: rstring
  kn_account :: "rstring option"
  kn_realname :: "rstring option"
  kn_channels :: "rstring list"

definition known_default :: known where
  "known_default = \<lparr>kn_nickname = [], kn_account = None, kn_realname = None, kn_channels = []\<rparr>"

record who_query =
  wq_channel :: rstring
  wq_token :: rstring
  wq_sent :: nat
  wq_departed :: "rstring list"
  wq_departed_overflowed :: bool

record accounts =
  ac_users :: "(rstring, known) hmap"
  ac_whox :: bool
  ac_queue :: "rstring list"
  ac_outstanding :: "who_query option"
  ac_token :: nat
  ac_casemapping :: case_mapping

definition accounts_default :: accounts where
  "accounts_default =
     \<lparr>ac_users = [], ac_whox = False, ac_queue = [], ac_outstanding = None, ac_token = 0,
      ac_casemapping = default_mapping\<rparr>"

text \<open>The two events of \<open>crates/irc-core/src/lib.rs\<close> this component reports.\<close>

datatype account_event =
    UserAccount rstring "rstring option" "rstring option"
  | UserAccountForgotten rstring

section \<open>Operations\<close>

definition account_value :: "rstring \<Rightarrow> rstring option" where
  "account_value value =
     (if value \<noteq> [] \<and> value \<noteq> lit ''*'' \<and> blen value \<le> MAX_ACCOUNT_BYTES then Some value else None)"

definition realname_value :: "rstring \<Rightarrow> rstring option" where
  "realname_value value =
     (let value = trim value
      in if value = [] then None
         else Some (slice_to value (floor_boundary value (min (blen value) MAX_REALNAME_BYTES))))"

definition accounts_set_casemapping :: "case_mapping \<Rightarrow> accounts \<Rightarrow> accounts" where
  "accounts_set_casemapping mapping s =
     (if ac_casemapping s \<noteq> mapping
      then s\<lparr>ac_casemapping := mapping, ac_users := [], ac_queue := [], ac_outstanding := None\<rparr>
      else s)"

definition accounts_key :: "accounts \<Rightarrow> rstring \<Rightarrow> rstring" where
  "accounts_key s channel = cm_fold (ac_casemapping s) channel"

definition whox_token :: "rstring \<Rightarrow> bool \<Rightarrow> bool" where
  "whox_token token whox =
     (let name = (case split_once 0x3D token of None \<Rightarrow> token | Some (name, _) \<Rightarrow> name)
      in if eq_ignore_ascii_case name (lit ''WHOX'') then True
         else if eq_ignore_ascii_case name (lit ''-WHOX'') then False
         else whox)"

definition accounts_isupport :: "message \<Rightarrow> accounts \<Rightarrow> accounts" where
  "accounts_isupport m s =
     (case m_command m of
        Response code args \<Rightarrow>
          (if code = RPL_ISUPPORT
           then s\<lparr>ac_whox := fold whox_token (isupport_tokens args) (ac_whox s)\<rparr> else s)
      | _ \<Rightarrow> s)"

definition report :: "known \<Rightarrow> account_event" where
  "report kn = UserAccount (kn_nickname kn) (kn_account kn) (kn_realname kn)"

definition accounts_forget :: "rstring \<Rightarrow> accounts \<Rightarrow> accounts \<times> account_event list" where
  "accounts_forget key s =
     (case map_of (ac_users s) key of
        None \<Rightarrow> (s, [])
      | Some kn \<Rightarrow>
          (s\<lparr>ac_users := AList.delete key (ac_users s)\<rparr>, [UserAccountForgotten (kn_nickname kn)]))"

text \<open>The entry after something is learned; \<open>account = None\<close> leaves the account as it is.\<close>

definition learned ::
  "rstring \<Rightarrow> rstring option option \<Rightarrow> rstring option \<Rightarrow> rstring list \<Rightarrow> known \<Rightarrow> known" where
  "learned nickname account realname channels kn =
     \<lparr>kn_nickname = nickname,
      kn_account = (case account of Some a \<Rightarrow> a | None \<Rightarrow> kn_account kn),
      kn_realname = (if realname \<noteq> None then realname else kn_realname kn),
      kn_channels = fold List.insert channels (kn_channels kn)\<rparr>"

definition learn ::
  "rstring \<Rightarrow> rstring option option \<Rightarrow> rstring option \<Rightarrow> rstring list \<Rightarrow> accounts
   \<Rightarrow> accounts \<times> account_event list" where
  "learn nickname account realname channels s =
     (let key = nickname_key nickname
      in if map_of (ac_users s) key = None
            \<and> (channels = [] \<or> MAX_USERS \<le> length (ac_users s)
               \<or> (account = None \<or> account = Some None) \<and> realname = None)
         then (s, [])
         else
           (let old = (case map_of (ac_users s) key of Some kn \<Rightarrow> kn | None \<Rightarrow> known_default);
                fresh = (kn_nickname old = []);
                kn = learned nickname account realname channels old;
                s = s\<lparr>ac_users := AList.update key kn (ac_users s)\<rparr>
            in if kn_account kn = None \<and> kn_realname kn = None
               then (if fresh then (s\<lparr>ac_users := AList.delete key (ac_users s)\<rparr>, [])
                     else accounts_forget key s)
               else (s, if fresh \<or> (kn_account old, kn_realname old) \<noteq> (kn_account kn, kn_realname kn)
                        then [report kn] else [])))"

definition accounts_leave :: "rstring \<Rightarrow> rstring \<Rightarrow> accounts \<Rightarrow> accounts \<times> account_event list" where
  "accounts_leave key channel s =
     (case map_of (ac_users s) key of
        None \<Rightarrow> (s, [])
      | Some kn \<Rightarrow>
          (let kn = kn\<lparr>kn_channels := removeAll channel (kn_channels kn)\<rparr>;
               s = s\<lparr>ac_users := AList.update key kn (ac_users s)\<rparr>
           in if kn_channels kn = [] then accounts_forget key s else (s, [])))"

definition who_departed :: "rstring \<Rightarrow> who_query \<Rightarrow> who_query" where
  "who_departed key q =
     (if key \<in> set (wq_departed q) then q
      else if length (wq_departed q) < MAX_DEPARTED_WHO
      then q\<lparr>wq_departed := List.insert key (wq_departed q)\<rparr>
      else q\<lparr>wq_departed_overflowed := True\<rparr>)"

definition accounts_departed :: "rstring \<Rightarrow> rstring option \<Rightarrow> accounts \<Rightarrow> accounts" where
  "accounts_departed nickname channel s =
     (case ac_outstanding s of
        None \<Rightarrow> s
      | Some q \<Rightarrow>
          (if (case channel of None \<Rightarrow> True | Some c \<Rightarrow> cm_same (ac_casemapping s) c (wq_channel q))
           then s\<lparr>ac_outstanding := Some (who_departed (nickname_key nickname) q)\<rparr>
           else s))"

definition leave_all :: "rstring \<Rightarrow> rstring list \<Rightarrow> accounts \<Rightarrow> accounts \<times> account_event list" where
  "leave_all channel keys s =
     fold (\<lambda>key (s, events). let (s', more) = accounts_leave key channel s in (s', events @ more))
       keys (s, [])"

definition forget_channel :: "rstring \<Rightarrow> accounts \<Rightarrow> accounts \<times> account_event list" where
  "forget_channel channel s =
     (let m = ac_casemapping s;
          s' = s\<lparr>ac_queue := filter (\<lambda>queued. \<not> cm_same m queued channel) (ac_queue s),
                 ac_outstanding :=
                   (case ac_outstanding s of
                      Some q \<Rightarrow> (if cm_same m (wq_channel q) channel then None else Some q)
                    | None \<Rightarrow> None)\<rparr>
      in leave_all (accounts_key s channel) (map fst (ac_users s)) s')"

text \<open>The commands \<open>observe\<close> follows, one definition per arm.\<close>

definition readmit :: "rstring \<Rightarrow> accounts \<Rightarrow> accounts" where
  "readmit key s =
     s\<lparr>ac_outstanding :=
        map_option (\<lambda>q. q\<lparr>wq_departed := removeAll key (wq_departed q)\<rparr>) (ac_outstanding s)\<rparr>"

definition observe_join ::
  "rstring \<Rightarrow> rstring \<Rightarrow> rstring option \<Rightarrow> rstring option \<Rightarrow> accounts \<Rightarrow> accounts \<times> account_event list" where
  "observe_join nickname channel account realname s =
     (let s = (case ac_outstanding s of
                 Some q \<Rightarrow>
                   (if cm_same (ac_casemapping s) channel (wq_channel q)
                    then readmit (nickname_key nickname) s else s)
               | None \<Rightarrow> s);
          (account, realname) =
            (case (account, realname) of
               (Some a, Some r) \<Rightarrow> (Some (account_value a), realname_value r)
             | _ \<Rightarrow> (None, None))
      in if account \<noteq> None \<or> realname \<noteq> None
         then learn nickname account realname [accounts_key s channel] s
         else
           (case map_of (ac_users s) (nickname_key nickname) of
              None \<Rightarrow> (s, [])
            | Some kn \<Rightarrow>
                (s\<lparr>ac_users := AList.update (nickname_key nickname)
                     (kn\<lparr>kn_channels := List.insert (accounts_key s channel) (kn_channels kn)\<rparr>)
                     (ac_users s)\<rparr>, [])))"

definition observe_gone ::
  "rstring \<Rightarrow> rstring \<Rightarrow> rstring \<Rightarrow> accounts \<Rightarrow> accounts \<times> account_event list" where
  "observe_gone nickname channel current_nick s =
     (if same_nickname nickname current_nick then forget_channel channel s
      else accounts_leave (nickname_key nickname) (accounts_key s channel)
             (accounts_departed nickname (Some channel) s))"

definition observe_nick :: "rstring \<Rightarrow> rstring \<Rightarrow> accounts \<Rightarrow> accounts \<times> account_event list" where
  "observe_nick old new_nick s =
     (let s = readmit (nickname_key new_nick) (accounts_departed old None s);
          old_key = nickname_key old;
          key = nickname_key new_nick;
          moved = map_of (ac_users s) old_key;
          s = s\<lparr>ac_users := AList.delete old_key (ac_users s)\<rparr>;
          (s, events) = accounts_forget key s
      in case moved of
           None \<Rightarrow> (s, events)
         | Some kn \<Rightarrow>
             (let kn' = kn\<lparr>kn_nickname := new_nick\<rparr>
              in (s\<lparr>ac_users := AList.update key kn' (ac_users s)\<rparr>,
                  events @ [UserAccountForgotten (kn_nickname kn), report kn'])))"

definition accounts_observe ::
  "message \<Rightarrow> rstring \<Rightarrow> presence_index \<Rightarrow> accounts \<Rightarrow> accounts \<times> account_event list" where
  "accounts_observe m current_nick px s =
     (case m_command m of
        JOIN channel account realname \<Rightarrow>
          (case source_nickname m of
             None \<Rightarrow> (s, []) | Some nickname \<Rightarrow> observe_join nickname channel account realname s)
      | PART channel _ \<Rightarrow>
          (case source_nickname m of
             None \<Rightarrow> (s, []) | Some nickname \<Rightarrow> observe_gone nickname channel current_nick s)
      | KICK channel nickname _ \<Rightarrow> observe_gone nickname channel current_nick s
      | QUIT _ \<Rightarrow>
          (case source_nickname m of
             None \<Rightarrow> (s, [])
           | Some nickname \<Rightarrow> accounts_forget (nickname_key nickname) (accounts_departed nickname None s))
      | NICK new_nick \<Rightarrow>
          (case source_nickname m of None \<Rightarrow> (s, []) | Some old \<Rightarrow> observe_nick old new_nick s)
      | ACCOUNT account \<Rightarrow>
          (case source_nickname m of
             None \<Rightarrow> (s, [])
           | Some nickname \<Rightarrow>
               learn nickname (Some (account_value account)) None (channel_keys_of px nickname) s)
      | _ \<Rightarrow> (s, []))"

definition accounts_names ::
  "rstring \<Rightarrow> rstring list \<Rightarrow> accounts \<Rightarrow> accounts \<times> account_event list" where
  "accounts_names channel users s =
     (let key = accounts_key s channel;
          present = map (\<lambda>user. nickname_key (display_nickname user)) users;
          departed = map fst (filter (\<lambda>(user, kn). user \<notin> set present \<and> key \<in> set (kn_channels kn))
                                (ac_users s));
          s = s\<lparr>ac_users :=
                map (\<lambda>(user, kn).
                  (user, if user \<in> set present then kn\<lparr>kn_channels := List.insert key (kn_channels kn)\<rparr>
                         else kn)) (ac_users s)\<rparr>
      in leave_all key departed s)"

definition accounts_joined :: "rstring \<Rightarrow> accounts \<Rightarrow> accounts" where
  "accounts_joined channel s =
     (if \<not> ac_whox s \<or> MAX_QUEUED_WHO \<le> length (ac_queue s) then s
      else
        (let m = ac_casemapping s;
             busy = (case ac_outstanding s of Some q \<Rightarrow> cm_same m (wq_channel q) channel | None \<Rightarrow> False)
         in if \<not> busy \<and> \<not> list_ex (\<lambda>queued. cm_same m queued channel) (ac_queue s)
            then s\<lparr>ac_queue := ac_queue s @ [channel]\<rparr> else s))"

text \<open>The query that goes out: the parameters of \<open>WHO\<close>.\<close>

definition next_who :: "nat \<Rightarrow> accounts \<Rightarrow> accounts \<times> rstring list option" where
  "next_who now s =
     (let s = (case ac_outstanding s of
                 Some q \<Rightarrow> (if WHO_TIMEOUT \<le> now - wq_sent q then s\<lparr>ac_outstanding := None\<rparr> else s)
               | None \<Rightarrow> s)
      in case ac_outstanding s of
           Some _ \<Rightarrow> (s, None)
         | None \<Rightarrow>
             (case ac_queue s of
                [] \<Rightarrow> (s, None)
              | channel # rest \<Rightarrow>
                  (let token = ac_token s mod 999 + 1; text = decimal token
                   in (s\<lparr>ac_queue := rest, ac_token := token,
                         ac_outstanding := Some \<lparr>wq_channel = channel, wq_token = text, wq_sent = now,
                           wq_departed = [], wq_departed_overflowed = False\<rparr>\<rparr>,
                       Some [channel, lit ''%tnar,'' @ text]))))"

definition observe_who :: "message \<Rightarrow> accounts \<Rightarrow> accounts \<times> account_event list option" where
  "observe_who m s =
     (case (numeric m, ac_outstanding s) of
        (Some (code, args), Some q) \<Rightarrow>
          (if code = 354 \<and> index_checked args 1 = Some (wq_token q)
           then
             (case (index_checked args 2, index_checked args 3) of
                (Some nickname, Some account) \<Rightarrow>
                  (if wq_departed_overflowed q \<or> nickname_key nickname \<in> set (wq_departed q)
                   then (s, Some [])
                   else
                     (let account = (if account \<noteq> lit ''0'' then account_value account else None);
                          realname = Option.bind (index_checked args 4) realname_value;
                          (s, events) = learn nickname (Some account) realname
                                          [cm_fold (ac_casemapping s) (wq_channel q)] s
                      in (s, Some events)))
              | _ \<Rightarrow> (s, Some []))
           else if code = 315
             \<and> (case index_checked args 1 of
                  Some name \<Rightarrow> cm_same (ac_casemapping s) name (wq_channel q) | None \<Rightarrow> False)
           then (s\<lparr>ac_outstanding := None\<rparr>, Some [])
           else (s, None))
      | _ \<Rightarrow> (s, None))"

section \<open>The machine\<close>

datatype accounts_op =
    AcSetMapping case_mapping
  | AcIsupport message
  | AcObserve message rstring presence_index
  | AcNames rstring "rstring list"
  | AcJoined rstring
  | AcNextWho nat
  | AcObserveWho message

fun accounts_call :: "accounts_op \<Rightarrow> accounts \<Rightarrow> accounts \<times> account_event list" where
  "accounts_call (AcSetMapping m) s = (accounts_set_casemapping m s, [])"
| "accounts_call (AcIsupport msg) s = (accounts_isupport msg s, [])"
| "accounts_call (AcObserve msg nick px) s = accounts_observe msg nick px s"
| "accounts_call (AcNames channel users) s = accounts_names channel users s"
| "accounts_call (AcJoined channel) s = (accounts_joined channel s, [])"
| "accounts_call (AcNextWho now) s = (fst (next_who now s), [])"
| "accounts_call (AcObserveWho msg) s =
     (let (s', events) = observe_who msg s in (s', case events of None \<Rightarrow> [] | Some es \<Rightarrow> es))"

definition accounts_step :: "accounts_op \<Rightarrow> accounts \<Rightarrow> accounts" where
  "accounts_step op s = fst (accounts_call op s)"

text \<open>Nicknames on the wire are not empty: an empty one is the mark of a new entry.\<close>

fun accounts_ok :: "accounts \<Rightarrow> accounts_op \<Rightarrow> bool" where
  "accounts_ok s (AcObserve m nick px) \<longleftrightarrow>
     source_nickname m \<noteq> Some [] \<and> (case m_command m of NICK n \<Rightarrow> n \<noteq> [] | _ \<Rightarrow> True)"
| "accounts_ok s (AcObserveWho m) \<longleftrightarrow>
     (case numeric m of Some (_, args) \<Rightarrow> index_checked args 2 \<noteq> Some [] | None \<Rightarrow> True)"
| "accounts_ok s _ \<longleftrightarrow> True"

definition known_ok :: "rstring \<Rightarrow> known \<Rightarrow> bool" where
  "known_ok key kn \<longleftrightarrow>
     key = nickname_key (kn_nickname kn) \<and> kn_nickname kn \<noteq> [] \<and> kn_channels kn \<noteq> []
     \<and> distinct (kn_channels kn) \<and> (kn_account kn \<noteq> None \<or> kn_realname kn \<noteq> None)
     \<and> (\<forall>a. kn_account kn = Some a \<longrightarrow> a \<noteq> [] \<and> a \<noteq> lit ''*'' \<and> blen a \<le> MAX_ACCOUNT_BYTES)
     \<and> (\<forall>r. kn_realname kn = Some r \<longrightarrow> blen r \<le> MAX_REALNAME_BYTES)"

definition users_ok :: "(rstring, known) hmap \<Rightarrow> bool" where
  "users_ok users \<longleftrightarrow>
     keys_distinct users \<and> length users \<le> MAX_USERS
     \<and> (\<forall>key kn. map_of users key = Some kn \<longrightarrow> known_ok key kn)"

definition query_ok :: "nat \<Rightarrow> who_query option \<Rightarrow> bool" where
  "query_ok token q \<longleftrightarrow>
     token \<le> 999
     \<and> (\<forall>w. q = Some w \<longrightarrow> length (wq_departed w) \<le> MAX_DEPARTED_WHO \<and> wq_token w = decimal token)"

definition accounts_inv :: "accounts \<Rightarrow> bool" where
  "accounts_inv s \<longleftrightarrow>
     users_ok (ac_users s) \<and> length (ac_queue s) \<le> MAX_QUEUED_WHO
     \<and> query_ok (ac_token s) (ac_outstanding s)"

text \<open>The application's mirror: what it keeps of the events, by nickname key.\<close>

type_synonym mirror = "rstring \<rightharpoonup> rstring option \<times> rstring option"

fun mirror_event :: "account_event \<Rightarrow> mirror \<Rightarrow> mirror" where
  "mirror_event (UserAccount nick account realname) m = m(nickname_key nick \<mapsto> (account, realname))"
| "mirror_event (UserAccountForgotten nick) m = m(nickname_key nick := None)"

definition known_accounts :: "accounts \<Rightarrow> mirror" where
  "known_accounts s =
     (\<lambda>key. map_option (\<lambda>kn. (kn_account kn, kn_realname kn)) (map_of (ac_users s) key))"

text \<open>A call does well when it keeps the invariant and its events carry the mirror along.\<close>

definition mirrored :: "accounts \<Rightarrow> accounts \<times> account_event list \<Rightarrow> bool" where
  "mirrored s r \<longleftrightarrow>
     accounts_inv (fst r) \<and> fold mirror_event (snd r) (known_accounts s) = known_accounts (fst r)"

section \<open>Lemmas on the entries\<close>

lemma accounts_inv_default: "accounts_inv accounts_default"
  by (simp add: accounts_inv_def accounts_default_def users_ok_def query_ok_def)

lemma mirrored_refl: "accounts_inv s \<Longrightarrow> mirrored s (s, [])"
  by (simp add: mirrored_def)

lemma mirrored_trans:
  "mirrored s (s1, e1) \<Longrightarrow> mirrored s1 (s2, e2) \<Longrightarrow> mirrored s (s2, e1 @ e2)"
  by (simp add: mirrored_def)

lemma mirrored_from: "known_accounts s = known_accounts t \<Longrightarrow> mirrored t r \<Longrightarrow> mirrored s r"
  by (simp add: mirrored_def)

lemma known_accounts_users: "ac_users s = ac_users t \<Longrightarrow> known_accounts s = known_accounts t"
  by (simp add: known_accounts_def)

lemma account_value_ok:
  "account_value v = Some a \<Longrightarrow> a \<noteq> [] \<and> a \<noteq> lit ''*'' \<and> blen a \<le> MAX_ACCOUNT_BYTES"
  by (auto simp: account_value_def split: if_splits)

lemma realname_value_ok: "realname_value v = Some r \<Longrightarrow> blen r \<le> MAX_REALNAME_BYTES"
proof -
  have "blen (slice_to t (floor_boundary t (min (blen t) MAX_REALNAME_BYTES))) \<le> MAX_REALNAME_BYTES" for t
    using blen_slice_to [of t "floor_boundary t (min (blen t) MAX_REALNAME_BYTES)"]
      floor_boundary_le [of t "min (blen t) MAX_REALNAME_BYTES"] by linarith
  then show "realname_value v = Some r \<Longrightarrow> blen r \<le> MAX_REALNAME_BYTES"
    by (auto simp: realname_value_def Let_def split: if_splits)
qed

lemma users_ok_update:
  assumes "users_ok users" and "known_ok key kn" and "map_of users key = None \<Longrightarrow> length users < MAX_USERS"
  shows "users_ok (AList.update key kn users)"
  using assms by (auto simp: users_ok_def length_update Suc_le_eq)

lemma users_ok_delete: "users_ok users \<Longrightarrow> users_ok (AList.delete key users)"
  by (auto simp: users_ok_def intro: order_trans [OF length_delete_le])

lemma users_ok_get: "users_ok users \<Longrightarrow> map_of users key = Some kn \<Longrightarrow> known_ok key kn"
  by (simp add: users_ok_def)

lemma forget_mirrored: "accounts_inv s \<Longrightarrow> mirrored s (accounts_forget key s)"
proof (cases "map_of (ac_users s) key")
  case (Some kn)
  assume inv: "accounts_inv s"
  then have "key = nickname_key (kn_nickname kn)"
    using users_ok_get Some by (auto simp: accounts_inv_def known_ok_def)
  then show ?thesis
    using inv Some
    by (auto simp: accounts_forget_def mirrored_def accounts_inv_def users_ok_delete known_accounts_def)
qed (simp add: accounts_forget_def mirrored_refl)

text \<open>Updating an entry and deleting it, in one step.\<close>

lemma delete_update [simp]: "AList.delete key (AList.update key v m) = AList.delete key m"
  by (induction m) auto

lemma update_forget_mirrored:
  assumes inv: "accounts_inv s" and old: "map_of (ac_users s) key = Some old"
    and same: "nickname_key (kn_nickname kn) = key"
  shows "mirrored s (accounts_forget key (s\<lparr>ac_users := AList.update key kn (ac_users s)\<rparr>))"
proof -
  have "accounts_inv (s\<lparr>ac_users := AList.delete key (ac_users s)\<rparr>)"
    using inv by (simp add: accounts_inv_def users_ok_delete)
  then show ?thesis
    using same by (simp add: accounts_forget_def mirrored_def known_accounts_def fun_eq_iff)
qed

lemma update_mirrored:
  assumes inv: "accounts_inv s" and ok: "known_ok key kn"
    and room: "map_of (ac_users s) key = None \<Longrightarrow> length (ac_users s) < MAX_USERS"
    and events: "fold mirror_event events (known_accounts s)
      = (known_accounts s)(key \<mapsto> (kn_account kn, kn_realname kn))"
  shows "mirrored s (s\<lparr>ac_users := AList.update key kn (ac_users s)\<rparr>, events)"
  using assms by (auto simp: mirrored_def accounts_inv_def users_ok_update known_accounts_def fun_eq_iff)

lemma known_accounts_at: "map_of (ac_users s) key = Some kn \<Longrightarrow> known_accounts s key = Some (kn_account kn, kn_realname kn)"
  by (simp add: known_accounts_def)

lemma set_insert_channels: "set (fold List.insert cs ds) = set cs \<union> set ds"
  using set_union [of cs ds] by (simp add: List.union_def)

lemma distinct_insert_channels: "distinct ds \<Longrightarrow> distinct (fold List.insert cs ds)"
  using distinct_union [of cs ds] by (simp add: List.union_def)

lemma learn_mirrored:
  assumes inv: "accounts_inv s" and nick: "nickname \<noteq> []"
    and account: "\<And>a. account = Some (Some a) \<Longrightarrow> a \<noteq> [] \<and> a \<noteq> lit ''*'' \<and> blen a \<le> MAX_ACCOUNT_BYTES"
    and realname: "\<And>r. realname = Some r \<Longrightarrow> blen r \<le> MAX_REALNAME_BYTES"
  shows "mirrored s (learn nickname account realname channels s)"
proof (cases "map_of (ac_users s) (nickname_key nickname)")
  case None
  let ?key = "nickname_key nickname"
  let ?kn = "learned nickname account realname channels known_default"
  show ?thesis
  proof (cases "channels = [] \<or> MAX_USERS \<le> length (ac_users s) \<or> (account = None \<or> account = Some None) \<and> realname = None")
    case True
    then show ?thesis using None inv by (simp add: learn_def mirrored_refl)
  next
    case False
    then have "known_ok ?key ?kn"
      using nick account realname set_insert_channels [of channels "[]"]
      by (auto simp: known_ok_def learned_def known_default_def distinct_insert_channels
          simp del: set_insert_channels split: option.splits)
    then have "mirrored s (s\<lparr>ac_users := AList.update ?key ?kn (ac_users s)\<rparr>, [report ?kn])"
      using False by (intro update_mirrored [OF inv]) (auto simp: report_def learned_def)
    moreover have "kn_account ?kn \<noteq> None \<or> kn_realname ?kn \<noteq> None"
      using False by (auto simp: learned_def known_default_def split: option.splits)
    ultimately show ?thesis
      using None False by (auto simp: learn_def Let_def known_default_def)
  qed
next
  case (Some old)
  let ?key = "nickname_key nickname"
  let ?kn = "learned nickname account realname channels old"
  have old: "known_ok ?key old" using inv Some users_ok_get by (auto simp: accounts_inv_def)
  then have notfresh: "kn_nickname old \<noteq> []" by (simp add: known_ok_def)
  show ?thesis
  proof (cases "kn_account ?kn = None \<and> kn_realname ?kn = None")
    case True
    have "nickname_key (kn_nickname ?kn) = ?key" by (simp add: learned_def)
    from update_forget_mirrored [OF inv Some this] show ?thesis
      using True Some notfresh by (simp add: learn_def Let_def)
  next
    case False
    have "kn_channels ?kn \<noteq> []" "distinct (kn_channels ?kn)"
      using old set_insert_channels [of channels "kn_channels old"]
      by (auto simp: known_ok_def learned_def distinct_insert_channels)
    moreover have "a \<noteq> [] \<and> a \<noteq> lit ''*'' \<and> blen a \<le> MAX_ACCOUNT_BYTES" if "kn_account ?kn = Some a" for a
      using that old account by (auto simp: known_ok_def learned_def split: option.splits)
    moreover have "blen r \<le> MAX_REALNAME_BYTES" if "kn_realname ?kn = Some r" for r
      using that old realname by (auto simp: known_ok_def learned_def split: if_splits)
    ultimately have ok: "known_ok ?key ?kn"
      using False nick unfolding known_ok_def by (simp add: learned_def)
    let ?changed = "(kn_account old, kn_realname old) \<noteq> (kn_account ?kn, kn_realname ?kn)"
    have "mirrored s (s\<lparr>ac_users := AList.update ?key ?kn (ac_users s)\<rparr>, if ?changed then [report ?kn] else [])"
      using Some known_accounts_at [OF Some]
      by (intro update_mirrored [OF inv ok]) (auto simp: report_def learned_def fun_eq_iff)
    then show ?thesis
      using False Some notfresh by (auto simp: learn_def Let_def)
  qed
qed

lemma leave_mirrored:
  assumes inv: "accounts_inv s"
  shows "mirrored s (accounts_leave key channel s)"
proof (cases "map_of (ac_users s) key")
  case (Some kn)
  let ?kn = "kn\<lparr>kn_channels := removeAll channel (kn_channels kn)\<rparr>"
  have ok: "known_ok key kn" using inv Some users_ok_get by (auto simp: accounts_inv_def)
  show ?thesis
  proof (cases "kn_channels ?kn = []")
    case True
    have "nickname_key (kn_nickname ?kn) = key" using ok by (simp add: known_ok_def)
    from update_forget_mirrored [OF inv Some this] show ?thesis
      using True Some by (simp add: accounts_leave_def Let_def)
  next
    case False
    have "known_ok key ?kn" using ok False by (simp add: known_ok_def distinct_removeAll)
    from update_mirrored [OF inv this, of "[]"] show ?thesis
      using False Some known_accounts_at [OF Some]
      by (auto simp: accounts_leave_def Let_def fun_upd_idem)
  qed
qed (simp add: accounts_leave_def mirrored_refl inv)

lemma leave_all_mirrored:
  assumes "accounts_inv s"
  shows "mirrored s (leave_all channel keys s)"
proof -
  have "mirrored s (fold (\<lambda>key (s, events). let (s', more) = accounts_leave key channel s in (s', events @ more))
      keys (s1, e1))" if "mirrored s (s1, e1)" for s1 e1
    using that
  proof (induction keys arbitrary: s1 e1)
    case (Cons key keys)
    obtain s2 more where l: "accounts_leave key channel s1 = (s2, more)" by fastforce
    have "accounts_inv s1" using Cons.prems by (simp add: mirrored_def)
    from leave_mirrored [OF this, of key channel] have "mirrored s (s2, e1 @ more)"
      using mirrored_trans [OF Cons.prems] by (simp add: l)
    from Cons.IH [OF this] show ?case by (simp add: l)
  qed simp
  then show ?thesis using assms by (simp add: leave_all_def mirrored_refl)
qed

section \<open>Every call is mirrored\<close>

text \<open>Changes beside the table of users.\<close>

lemma inv_beside:
  assumes "accounts_inv s" and "ac_users t = ac_users s" and "length (ac_queue t) \<le> MAX_QUEUED_WHO"
    and "query_ok (ac_token t) (ac_outstanding t)"
  shows "accounts_inv t" and "known_accounts s = known_accounts t"
  using assms by (simp_all add: accounts_inv_def known_accounts_def)

lemma who_departed_bound:
  assumes "length (wq_departed q) \<le> MAX_DEPARTED_WHO"
  shows "length (wq_departed (who_departed key q)) \<le> MAX_DEPARTED_WHO"
    and "wq_token (who_departed key q) = wq_token q"
  using assms by (auto simp: who_departed_def List.insert_def)

lemma departed_beside:
  assumes "accounts_inv s"
  shows "accounts_inv (accounts_departed nickname channel s)"
    and "ac_users (accounts_departed nickname channel s) = ac_users s"
    and "ac_casemapping (accounts_departed nickname channel s) = ac_casemapping s"
proof -
  show users: "ac_users (accounts_departed nickname channel s) = ac_users s"
    and "ac_casemapping (accounts_departed nickname channel s) = ac_casemapping s"
    by (simp_all add: accounts_departed_def split: option.split)
  have "query_ok (ac_token (accounts_departed nickname channel s))
      (ac_outstanding (accounts_departed nickname channel s))"
    using assms who_departed_bound
    by (simp add: accounts_departed_def accounts_inv_def query_ok_def split: option.split)
  moreover have "ac_queue (accounts_departed nickname channel s) = ac_queue s"
    by (simp add: accounts_departed_def split: option.split)
  ultimately show "accounts_inv (accounts_departed nickname channel s)"
    using assms by (simp add: accounts_inv_def users)
qed

lemma readmit_beside:
  assumes "accounts_inv s"
  shows "accounts_inv (readmit key s)"
    and "ac_users (readmit key s) = ac_users s" "ac_casemapping (readmit key s) = ac_casemapping s"
proof -
  have "query_ok (ac_token s) (map_option (\<lambda>q. q\<lparr>wq_departed := removeAll key (wq_departed q)\<rparr>) (ac_outstanding s))"
    using assms by (cases "ac_outstanding s")
      (simp_all add: accounts_inv_def query_ok_def order_trans [OF length_removeAll_less_eq])
  then show "accounts_inv (readmit key s)" using assms by (simp add: accounts_inv_def readmit_def)
qed (simp_all add: readmit_def)

lemma forget_channel_mirrored:
  assumes inv: "accounts_inv s"
  shows "mirrored s (forget_channel channel s)"
proof -
  let ?t = "s\<lparr>ac_queue := filter (\<lambda>queued. \<not> cm_same (ac_casemapping s) queued channel) (ac_queue s),
     ac_outstanding := (case ac_outstanding s of
        Some q \<Rightarrow> (if cm_same (ac_casemapping s) (wq_channel q) channel then None else Some q) | None \<Rightarrow> None)\<rparr>"
  have "accounts_inv ?t"
    using inv by (intro inv_beside(1) [OF inv])
      (auto simp: accounts_inv_def query_ok_def intro: order_trans [OF length_filter_le] split: option.splits)
  from leave_all_mirrored [OF this] show ?thesis
    unfolding forget_channel_def Let_def by (rule mirrored_from [rotated]) (simp add: known_accounts_def)
qed

lemma gone_mirrored:
  assumes inv: "accounts_inv s"
  shows "mirrored s (observe_gone nickname channel current_nick s)"
proof -
  have "mirrored s (accounts_leave key c (accounts_departed nickname (Some channel) s))" for key c
    using leave_mirrored [OF departed_beside(1) [OF inv]] departed_beside(2) [OF inv]
    by (intro mirrored_from [of s "accounts_departed nickname (Some channel) s"]) (simp_all add: known_accounts_def)
  then show ?thesis by (simp add: observe_gone_def forget_channel_mirrored inv)
qed

lemma join_mirrored:
  assumes inv: "accounts_inv s" and nick: "nickname \<noteq> []"
  shows "mirrored s (observe_join nickname channel account realname s)"
proof -
  define t where "t = (case ac_outstanding s of
                 Some q \<Rightarrow>
                   (if cm_same (ac_casemapping s) channel (wq_channel q)
                    then readmit (nickname_key nickname) s else s)
               | None \<Rightarrow> s)"
  have t: "accounts_inv t" "known_accounts s = known_accounts t"
    using inv readmit_beside [OF inv] by (auto simp: t_def known_accounts_def split: option.splits)
  have learn: "mirrored t (learn nickname (Some (account_value a)) (realname_value r) cs t)" for a r cs
    by (rule learn_mirrored [OF t(1) nick]) (auto dest: account_value_ok realname_value_ok)
  have "mirrored t (case map_of (ac_users t) (nickname_key nickname) of
              None \<Rightarrow> (t, [])
            | Some kn \<Rightarrow>
                (t\<lparr>ac_users := AList.update (nickname_key nickname)
                     (kn\<lparr>kn_channels := List.insert c (kn_channels kn)\<rparr>) (ac_users t)\<rparr>, []))" for c
  proof (cases "map_of (ac_users t) (nickname_key nickname)")
    case (Some kn)
    have "known_ok (nickname_key nickname) kn"
      using t(1) Some users_ok_get by (auto simp: accounts_inv_def)
    then have "known_ok (nickname_key nickname) (kn\<lparr>kn_channels := List.insert c (kn_channels kn)\<rparr>)"
      by (auto simp: known_ok_def List.insert_def)
    from update_mirrored [OF t(1) this, of "[]"] show ?thesis
      using Some known_accounts_at [OF Some] by (simp add: fun_upd_idem)
  qed (simp add: mirrored_refl t)
  with learn have "mirrored t (observe_join nickname channel account realname s)"
    unfolding observe_join_def Let_def t_def [symmetric] by (auto split: option.splits)
  then show ?thesis by (rule mirrored_from [OF t(2)])
qed

lemma nick_mirrored:
  assumes inv: "accounts_inv s" and new: "new_nick \<noteq> []"
  shows "mirrored s (observe_nick old new_nick s)"
proof -
  let ?o = "nickname_key old" and ?k = "nickname_key new_nick"
  let ?t = "readmit ?k (accounts_departed old None s)"
  have t: "accounts_inv ?t" "ac_users ?t = ac_users s"
    using departed_beside [OF inv] readmit_beside [OF departed_beside(1) [OF inv]] by simp_all
  let ?d = "?t\<lparr>ac_users := AList.delete ?o (ac_users s)\<rparr>"
  have d: "accounts_inv ?d" using t(1) by (simp add: accounts_inv_def t(2) users_ok_delete)
  obtain u es where f: "accounts_forget ?k ?d = (u, es)" by fastforce
  have fm: "mirrored ?d (u, es)" using forget_mirrored [OF d, of ?k] by (simp add: f)
  then have u: "accounts_inv u" and es: "fold mirror_event es (known_accounts ?d) = known_accounts u"
    by (simp_all add: mirrored_def)
  have uk: "map_of (ac_users u) = (map_of (ac_users ?d))(?k := None)"
    using f by (auto simp: accounts_forget_def fun_eq_iff split: option.splits)
  have lu: "length (ac_users u) \<le> length (ac_users ?d)"
    using f by (auto simp: accounts_forget_def length_delete_le split: option.splits)
  have es': "es = [] \<or> (\<exists>n. es = [UserAccountForgotten n] \<and> nickname_key n = ?k)"
  proof (cases "map_of (ac_users ?d) ?k")
    case (Some kn)
    have "known_ok ?k kn" using d Some users_ok_get by (auto simp: accounts_inv_def)
    then show ?thesis using f Some by (auto simp: accounts_forget_def known_ok_def)
  qed (use f in \<open>auto simp: accounts_forget_def\<close>)
  show ?thesis
  proof (cases "map_of (ac_users s) ?o")
    case None
    have "known_accounts s = known_accounts ?d"
      using None by (simp add: known_accounts_def fun_eq_iff)
    then show ?thesis
      using mirrored_from [OF _ fm] None t(2) f by (simp add: observe_nick_def Let_def)
  next
    case (Some kn)
    let ?kn = "kn\<lparr>kn_nickname := new_nick\<rparr>"
    have ok: "known_ok ?o kn" using inv Some users_ok_get by (auto simp: accounts_inv_def)
    then have ok': "known_ok ?k ?kn" using new by (simp add: known_ok_def)
    have "length (AList.delete ?o (ac_users s)) < length (ac_users s)"
    proof -
      have "?o \<in> fst ` set (ac_users s)" using Some by (metis map_of_eq_None_iff option.distinct(1))
      then show ?thesis by (auto simp: AList.delete_eq intro!: length_filter_less)
    qed
    then have room: "length (ac_users u) < MAX_USERS"
      using lu inv by (simp add: accounts_inv_def users_ok_def)
    let ?r = "(u\<lparr>ac_users := AList.update ?k ?kn (ac_users u)\<rparr>,
        es @ [UserAccountForgotten (kn_nickname kn), report ?kn])"
    have eq: "observe_nick old new_nick s = ?r"
      using Some t(2) f by (simp add: observe_nick_def Let_def)
    have "accounts_inv (fst ?r)"
      using u ok' room by (simp add: accounts_inv_def users_ok_update)
    moreover have "fold mirror_event (snd ?r) (known_accounts s) = known_accounts (fst ?r)"
      using es' ok uk Some by (auto simp: report_def known_ok_def known_accounts_def fun_eq_iff)
    ultimately show ?thesis unfolding mirrored_def eq by blast
  qed
qed

lemma observe_mirrored:
  assumes "accounts_inv s" and "accounts_ok s (AcObserve m nick px)"
  shows "mirrored s (accounts_observe m nick px s)"
proof -
  have quit: "mirrored s (accounts_forget key (accounts_departed nickname None s))" for key nickname
    using forget_mirrored [OF departed_beside(1) [OF assms(1)]] departed_beside(2) [OF assms(1)]
    by (intro mirrored_from [of s "accounts_departed nickname None s"]) (simp_all add: known_accounts_def)
  have acc: "mirrored s (learn nickname (Some (account_value a)) None cs s)" if "nickname \<noteq> []" for nickname a cs
    by (rule learn_mirrored [OF assms(1) that]) (auto dest: account_value_ok)
  show ?thesis
    using assms(2) join_mirrored [OF assms(1)] gone_mirrored [OF assms(1)] nick_mirrored [OF assms(1)] quit acc
      mirrored_refl [OF assms(1)]
    by (cases "m_command m") (auto simp: accounts_observe_def split: option.split)
qed

lemma map_of_map_keyed: "map_of (map (\<lambda>(k, v). (k, g k v)) m) k = map_option (g k) (map_of m k)"
  by (induction m) auto

lemma users_ok_map:
  assumes "users_ok users" and g: "\<And>k kn. known_ok k kn \<Longrightarrow> known_ok k (g k kn)"
  shows "users_ok (map (\<lambda>(k, kn). (k, g k kn)) users)"
proof -
  have "known_ok k kn" if "map_of (map (\<lambda>(k, kn). (k, g k kn)) users) k = Some kn" for k kn
    using that g users_ok_get [OF assms(1), of k] by (auto simp: map_of_map_keyed)
  then show ?thesis using assms(1) by (simp add: users_ok_def keys_distinct_def o_def split_beta)
qed

lemma names_mirrored:
  assumes inv: "accounts_inv s"
  shows "mirrored s (accounts_names channel users s)"
proof -
  define g :: "rstring \<Rightarrow> known \<Rightarrow> known" where "g = (\<lambda>user kn.
    if user \<in> set (map (\<lambda>user. nickname_key (display_nickname user)) users)
    then kn\<lparr>kn_channels := List.insert (accounts_key s channel) (kn_channels kn)\<rparr> else kn)"
  let ?t = "s\<lparr>ac_users := map (\<lambda>(k, kn). (k, g k kn)) (ac_users s)\<rparr>"
  have "known_ok k kn \<Longrightarrow> known_ok k (g k kn)" for k kn
    by (auto simp: g_def known_ok_def List.insert_def)
  then have "users_ok (ac_users ?t)"
    using inv users_ok_map [of "ac_users s" g] by (simp add: accounts_inv_def)
  then have t: "accounts_inv ?t" using inv by (simp add: accounts_inv_def)
  have "kn_account (g k kn) = kn_account kn \<and> kn_realname (g k kn) = kn_realname kn" for k kn
    by (simp add: g_def)
  then have "known_accounts s = known_accounts ?t"
    by (simp add: known_accounts_def map_of_map_keyed option.map_comp o_def)
  with leave_all_mirrored [OF t] show ?thesis
    unfolding accounts_names_def Let_def g_def by (rule mirrored_from [rotated])
qed

text \<open>Every outcome of a reply: nothing learned, the end of the query, or one learned entry.\<close>

inductive who_outcome :: "message \<Rightarrow> accounts \<Rightarrow> accounts \<times> account_event list option \<Rightarrow> bool" where
  ignored: "es = None \<or> es = Some [] \<Longrightarrow> who_outcome m s (s, es)"
| ended: "who_outcome m s (s\<lparr>ac_outstanding := None\<rparr>, Some [])"
| learned: "numeric m = Some (354, args) \<Longrightarrow> index_checked args 2 = Some nickname \<Longrightarrow>
    ac_outstanding s = Some q \<Longrightarrow> \<not> wq_departed_overflowed q \<Longrightarrow>
    nickname_key nickname \<notin> set (wq_departed q) \<Longrightarrow>
    account = None \<or> account = account_value v \<Longrightarrow>
    realname = Option.bind (index_checked args 4) realname_value \<Longrightarrow>
    learn nickname (Some account) realname [cm_fold (ac_casemapping s) (wq_channel q)] s = (t, es) \<Longrightarrow>
    who_outcome m s (t, Some es)"

lemma who_outcome: "who_outcome m s (observe_who m s)"
proof (cases "numeric m")
  case None
  then show ?thesis by (simp add: observe_who_def who_outcome.ignored)
next
  case (Some ca)
  obtain code args where ca: "ca = (code, args)" by fastforce
  show ?thesis
  proof (cases "ac_outstanding s")
    case None
    then show ?thesis using Some by (simp add: observe_who_def who_outcome.ignored)
  next
    case q: (Some q)
    show ?thesis
    proof (cases "code = 354 \<and> index_checked args 1 = Some (wq_token q)")
      case False
      then show ?thesis
        using Some ca q
        by (auto simp: observe_who_def intro: who_outcome.ignored who_outcome.ended split: option.splits)
    next
      case True
      show ?thesis
      proof (cases "index_checked args 2 = None \<or> index_checked args 3 = None")
        case True
        then show ?thesis
          using Some ca q \<open>code = 354 \<and> _\<close>
          by (auto simp: observe_who_def intro: who_outcome.ignored split: option.splits)
      next
        case False
        then obtain nickname account where na: "index_checked args 2 = Some nickname" "index_checked args 3 = Some account"
          by auto
        show ?thesis
        proof (cases "wq_departed_overflowed q \<or> nickname_key nickname \<in> set (wq_departed q)")
          case True
          then show ?thesis
            using Some ca q na \<open>code = 354 \<and> _\<close> by (auto simp: observe_who_def intro: who_outcome.ignored)
        next
          case admitted: False
          let ?a = "if account \<noteq> lit ''0'' then account_value account else None"
          let ?r = "Option.bind (index_checked args 4) realname_value"
          obtain t es where l: "learn nickname (Some ?a) ?r [cm_fold (ac_casemapping s) (wq_channel q)] s = (t, es)"
            by fastforce
          have "observe_who m s = (t, Some es)"
            using Some ca q na \<open>code = 354 \<and> _\<close> admitted l by (simp add: observe_who_def Let_def)
          moreover have "numeric m = Some (354, args)" using Some ca \<open>code = 354 \<and> _\<close> by simp
          ultimately show ?thesis
            using who_outcome.learned [OF _ na(1) q _ _ _ refl l, of m account] admitted by auto
        qed
      qed
    qed
  qed
qed

lemma who_mirrored:
  assumes inv: "accounts_inv s" and ok: "accounts_ok s (AcObserveWho m)"
  shows "mirrored s (accounts_call (AcObserveWho m) s)"
proof -
  have "mirrored s (fst r, case snd r of None \<Rightarrow> [] | Some es \<Rightarrow> es)" if "who_outcome m s r" for r
    using that
  proof cases
    case (ignored es)
    then show ?thesis using mirrored_refl [OF inv] by auto
  next
    case ended
    then show ?thesis using inv by (simp add: mirrored_def accounts_inv_def query_ok_def known_accounts_def)
  next
    case (learned args nickname q account v realname t es)
    have "nickname \<noteq> []" using ok learned by simp
    moreover have "a \<noteq> [] \<and> a \<noteq> lit ''*'' \<and> blen a \<le> MAX_ACCOUNT_BYTES" if "Some account = Some (Some a)" for a
      using that learned(7) account_value_ok [of v a] by auto
    moreover have "blen r' \<le> MAX_REALNAME_BYTES" if "realname = Some r'" for r'
      using that learned(8) realname_value_ok [of _ r'] by (metis bind_eq_Some_conv)
    ultimately have "mirrored s (learn nickname (Some account) realname [cm_fold (ac_casemapping s) (wq_channel q)] s)"
      by (intro learn_mirrored [OF inv])
    then show ?thesis using learned by simp
  qed
  from this [OF who_outcome] show ?thesis by (simp add: split_beta)
qed

lemma next_who_inv:
  assumes "accounts_inv s"
  shows "accounts_inv (fst (next_who now s))" and "ac_users (fst (next_who now s)) = ac_users s"
proof -
  have "ac_token s mod 999 + 1 \<le> 999" by (metis Suc_eq_plus1 Suc_leI mod_less_divisor zero_less_numeral)
  then show "accounts_inv (fst (next_who now s))" "ac_users (fst (next_who now s)) = ac_users s"
    using assms
    by (auto simp: next_who_def Let_def accounts_inv_def query_ok_def split: option.splits list.splits)
qed

lemma set_mapping_inv: "accounts_inv s \<Longrightarrow> accounts_inv (accounts_set_casemapping m s)"
  by (simp add: accounts_set_casemapping_def accounts_inv_def users_ok_def query_ok_def)

lemma call_mirrored:
  assumes inv: "accounts_inv s" and ok: "accounts_ok s op"
    and "\<And>m. op = AcSetMapping m \<Longrightarrow> m = ac_casemapping s \<or> ac_users s = []"
  shows "mirrored s (accounts_call op s)"
proof (cases op)
  case (AcSetMapping m)
  then show ?thesis
    using assms(1,3) set_mapping_inv [of s m]
    by (cases "ac_casemapping s = m") (auto simp: accounts_set_casemapping_def mirrored_def known_accounts_def)
next
  case (AcIsupport m)
  then show ?thesis
    using inv by (auto simp: accounts_isupport_def mirrored_def accounts_inv_def known_accounts_def
        split: command.split)
next
  case (AcJoined channel)
  then show ?thesis
    using inv by (auto simp: accounts_joined_def mirrored_def accounts_inv_def known_accounts_def Let_def)
next
  case (AcNextWho now)
  then show ?thesis
    using next_who_inv [OF inv] by (simp add: mirrored_def known_accounts_def)
next
  case (AcObserveWho m)
  then show ?thesis using who_mirrored inv ok by blast
qed (use inv ok in \<open>auto simp: observe_mirrored names_mirrored\<close>)

lemma accounts_inv_step:
  assumes "accounts_inv s" and "accounts_ok s op"
  shows "accounts_inv (accounts_step op s)"
proof (cases "\<exists>m. op = AcSetMapping m")
  case True
  then show ?thesis
    using assms(1) by (auto simp: accounts_step_def set_mapping_inv)
next
  case False
  then show ?thesis
    using call_mirrored [OF assms] by (auto simp: accounts_step_def mirrored_def)
qed

interpretation accounts_machine: bounded_machine accounts_step accounts_ok
  "\<lambda>s. s = accounts_default" accounts_inv "\<lambda>s. length (ac_users s)" MAX_USERS
proof unfold_locales
  show "accounts_inv s" if "s = accounts_default" for s
    using that by (simp add: accounts_inv_default)
  show "length (ac_users s) \<le> MAX_USERS" if "accounts_inv s" for s
    using that by (simp add: accounts_inv_def users_ok_def)
qed (rule accounts_inv_step)

section \<open>The application's mirror\<close>

definition accounts_run :: "accounts_op list \<Rightarrow> accounts \<Rightarrow> accounts \<times> account_event list" where
  "accounts_run ops s =
     fold (\<lambda>op (s, events). let (s', more) = accounts_call op s in (s', events @ more)) ops (s, [])"

text \<open>The server announces its case mapping before anything is known of its users.\<close>

fun mapping_first :: "accounts_op list \<Rightarrow> accounts \<Rightarrow> bool" where
  "mapping_first [] s = True"
| "mapping_first (op # ops) s =
     ((case op of AcSetMapping m \<Rightarrow> m = ac_casemapping s \<or> ac_users s = [] | _ \<Rightarrow> True)
      \<and> mapping_first ops (accounts_step op s))"

lemma run_mirrored:
  assumes "mirrored s0 (s, es)" and "accounts_machine.run_ok ops s" and "mapping_first ops s"
  shows "mirrored s0 (fold (\<lambda>op (s, events). let (s', more) = accounts_call op s in (s', events @ more)) ops (s, es))"
  using assms
proof (induction ops arbitrary: s es)
  case (Cons op ops)
  obtain s' more where c: "accounts_call op s = (s', more)" by fastforce
  have step: "accounts_step op s = s'" by (simp add: accounts_step_def c)
  have "accounts_inv s" using Cons.prems(1) by (simp add: mirrored_def)
  moreover have "accounts_ok s op" using Cons.prems(2) by simp
  moreover have "m = ac_casemapping s \<or> ac_users s = []" if "op = AcSetMapping m" for m
    using Cons.prems(3) that by simp
  ultimately have "mirrored s (s', more)" using call_mirrored [of s op] by (simp add: c)
  from Cons.IH [OF mirrored_trans [OF Cons.prems(1) this]] Cons.prems(2,3) show ?case
    by (simp add: c step)
qed simp

lemma known_accounts_default: "known_accounts accounts_default = (\<lambda>_. None)"
  by (simp add: known_accounts_def accounts_default_def)

definition sample_line :: "string \<Rightarrow> command \<Rightarrow> message" where
  "sample_line nick c =
     \<lparr>m_tags = None, m_prefix = Some (Nickname (lit nick) (lit ''u'') (lit ''h'')), m_command = c\<rparr>"

definition sample_run :: "accounts_op list" where
  "sample_run =
     [AcObserve (sample_line ''Bob'' (JOIN (lit ''#c'') (Some (lit ''bob'')) (Some (lit '' Bob B '')))) (lit ''me'') presence_default,
      AcObserve (sample_line ''bob'' (NICK (lit ''rob''))) (lit ''me'') presence_default]"

lemma realname_sample: "realname_value (lit '' Bob B '') = Some (lit ''Bob B'')"
proof -
  have "trim (lit '' Bob B '') = lit ''Bob B''" by (simp add: trim_def is_whitespace_def lit_def)
  moreover have "blen (lit ''Bob B'') = 5" by (simp add: lit_def)
  ultimately show ?thesis by (simp add: realname_value_def MAX_REALNAME_BYTES_def Let_def lit_def floor_boundary.simps)
qed

lemma sample_events: "snd (accounts_run sample_run accounts_default)
      = [UserAccount (lit ''Bob'') (Some (lit ''bob'')) (Some (lit ''Bob B'')), UserAccountForgotten (lit ''Bob''),
         UserAccount (lit ''rob'') (Some (lit ''bob'')) (Some (lit ''Bob B''))]"
proof -
  have keys: "nickname_key (lit ''Bob'') = lit ''bob''" "nickname_key (lit ''rob'') = lit ''rob''"
     "nickname_key (lit ''bob'') = lit ''bob''" by code_simp+
  have account: "account_value (lit ''bob'') = Some (lit ''bob'')"
    by (simp add: account_value_def MAX_ACCOUNT_BYTES_def lit_def)
  have ne: "lit ''Bob'' \<noteq> []" "lit ''rob'' \<noteq> lit ''bob''" "lit ''bob'' \<noteq> lit ''rob''" by (simp_all add: lit_def)
  show ?thesis
   by (simp add: accounts_run_def sample_run_def sample_line_def accounts_observe_def source_nickname_def observe_join_def accounts_default_def
     learn_def keys account realname_sample ne MAX_USERS_def learned_def known_default_def observe_nick_def readmit_def accounts_departed_def accounts_forget_def report_def Let_def)
qed

text \<open>C24. The events tell the whole story. Whatever joins, parts, kicks, quits, renames, account
  changes, member lists and query replies arrive, an application that started empty and applied every
  reported event knows for each user exactly the account and the real name the connection knows, as
  long as the case mapping does not change under users already known.\<close>

theorem accounts_mirrored:
  assumes "accounts_machine.run_ok ops accounts_default" and "mapping_first ops accounts_default"
  shows "fold mirror_event (snd (accounts_run ops accounts_default)) (\<lambda>_. None)
       = known_accounts (fst (accounts_run ops accounts_default))"
  using run_mirrored [OF mirrored_refl [OF accounts_inv_default] assms]
  by (simp add: mirrored_def accounts_run_def known_accounts_default)

theorem accounts_mirrored_witness:
  "known_accounts (fst (accounts_run sample_run accounts_default))
   = [lit ''rob'' \<mapsto> (Some (lit ''bob''), Some (lit ''Bob B''))]"
proof -
  have "accounts_machine.run_ok sample_run accounts_default" "mapping_first sample_run accounts_default"
    by (simp_all add: sample_run_def sample_line_def source_nickname_def lit_def)
  moreover have "nickname_key (lit ''Bob'') = lit ''bob''" "nickname_key (lit ''rob'') = lit ''rob''"
    by code_simp+
  ultimately show ?thesis using accounts_mirrored [of sample_run] by (simp add: sample_events fun_eq_iff)
qed

text \<open>On every run the tables stay small and clean: at most 4096 users, each of whom shares a channel
  and has an account or a real name of limited length; at most 64 channels wait for their query, and the
  open query keeps at most 4096 departed nicknames under a token of one to three digits.\<close>

theorem accounts_bounded:
  assumes "accounts_machine.run_ok ops accounts_default"
  shows "let s = fold accounts_step ops accounts_default
         in length (ac_users s) \<le> MAX_USERS \<and> length (ac_queue s) \<le> MAX_QUEUED_WHO
          \<and> (\<forall>(key, kn) \<in> set (ac_users s).
               key = nickname_key (kn_nickname kn) \<and> kn_channels kn \<noteq> []
               \<and> (kn_account kn \<noteq> None \<or> kn_realname kn \<noteq> None)
               \<and> (\<forall>a. kn_account kn = Some a \<longrightarrow> blen a \<le> MAX_ACCOUNT_BYTES)
               \<and> (\<forall>r. kn_realname kn = Some r \<longrightarrow> blen r \<le> MAX_REALNAME_BYTES))
          \<and> (\<forall>q. ac_outstanding s = Some q \<longrightarrow>
               length (wq_departed q) \<le> MAX_DEPARTED_WHO
               \<and> wq_token q = decimal (ac_token s) \<and> ac_token s \<le> 999)"
proof -
  let ?s = "fold accounts_step ops accounts_default"
  have inv: "accounts_inv ?s" using accounts_machine.run_init_inv [OF refl assms] .
  then have "known_ok key kn" if "(key, kn) \<in> set (ac_users ?s)" for key kn
    using that users_ok_get [of "ac_users ?s" key kn]
    by (simp add: accounts_inv_def users_ok_def keys_distinct_def map_of_is_SomeI)
  then have "\<forall>(key, kn) \<in> set (ac_users ?s). known_ok key kn" by blast
  with inv show ?thesis
    unfolding accounts_inv_def users_ok_def query_ok_def Let_def known_ok_def by fast
qed

theorem accounts_bounded_witness:
  "length (ac_users (fold accounts_step sample_run accounts_default)) \<le> 4096"
proof -
  have "accounts_machine.run_ok sample_run accounts_default"
    by (simp add: sample_run_def sample_line_def source_nickname_def lit_def)
  from accounts_bounded [OF this] show ?thesis by (simp add: Let_def MAX_USERS_def)
qed

section \<open>Departures during a query\<close>

text \<open>While a nickname is blocked a reply about it is too old to be believed.\<close>

definition blocked :: "rstring \<Rightarrow> accounts \<Rightarrow> bool" where
  "blocked key s =
     (case ac_outstanding s of
        None \<Rightarrow> True | Some q \<Rightarrow> wq_departed_overflowed q \<or> key \<in> set (wq_departed q))"

text \<open>The line tells that the user is gone from the channel asked about, or is called otherwise.\<close>

definition departure :: "rstring \<Rightarrow> accounts \<Rightarrow> message \<Rightarrow> bool" where
  "departure key s m =
     (let queried = (\<lambda>c. case ac_outstanding s of
            None \<Rightarrow> True | Some q \<Rightarrow> cm_same (ac_casemapping s) c (wq_channel q));
          who = map_option nickname_key (source_nickname m)
      in case m_command m of
           QUIT _ \<Rightarrow> who = Some key
         | PART c _ \<Rightarrow> who = Some key \<and> queried c
         | KICK c nick _ \<Rightarrow> nickname_key nick = key \<and> queried c
         | NICK nick \<Rightarrow> who = Some key \<and> nickname_key nick \<noteq> key
         | _ \<Rightarrow> False)"

text \<open>The calls that lift the block: the user comes back under the name, or a new query goes out.\<close>

fun readmits :: "rstring \<Rightarrow> accounts \<Rightarrow> accounts_op \<Rightarrow> bool" where
  "readmits key s (AcNextWho now) \<longleftrightarrow> snd (next_who now s) \<noteq> None"
| "readmits key s (AcObserve m nick px) \<longleftrightarrow>
     (case m_command m of
        JOIN c _ _ \<Rightarrow>
          map_option nickname_key (source_nickname m) = Some key
          \<and> (case ac_outstanding s of
               None \<Rightarrow> False | Some q \<Rightarrow> cm_same (ac_casemapping s) c (wq_channel q))
      | NICK new_nick \<Rightarrow> nickname_key new_nick = key
      | _ \<Rightarrow> False)"
| "readmits key s _ \<longleftrightarrow> False"

fun stays_away :: "rstring \<Rightarrow> accounts_op list \<Rightarrow> accounts \<Rightarrow> bool" where
  "stays_away key [] s = True"
| "stays_away key (op # ops) s = (\<not> readmits key s op \<and> stays_away key ops (accounts_step op s))"

lemma forget_outstanding [simp]: "ac_outstanding (fst (accounts_forget key s)) = ac_outstanding s"
  by (simp add: accounts_forget_def split: option.split)

lemma leave_outstanding [simp]: "ac_outstanding (fst (accounts_leave key c s)) = ac_outstanding s"
  by (simp add: accounts_leave_def Let_def split: option.split)

lemma leave_all_outstanding [simp]: "ac_outstanding (fst (leave_all c keys s)) = ac_outstanding s"
proof -
  have "ac_outstanding (fst (fold (\<lambda>key (s, events). let (s', more) = accounts_leave key c s in (s', events @ more))
     keys (s, es))) = ac_outstanding s" for es
  proof (induction keys arbitrary: s es)
    case (Cons key keys)
    then show ?case using leave_outstanding [of key c s] by (simp add: split_beta Let_def)
  qed simp
  then show ?thesis by (simp add: leave_all_def)
qed

lemma learn_outstanding [simp]: "ac_outstanding (fst (learn n a r cs s)) = ac_outstanding s"
  by (simp add: learn_def Let_def)

lemma blocked_cong: "ac_outstanding s = ac_outstanding t \<Longrightarrow> blocked key s = blocked key t"
  by (simp add: blocked_def)

lemma blocked_idle [simp]: "ac_outstanding s = None \<Longrightarrow> blocked key s"
  by (simp add: blocked_def)

lemma blocked_departed: "blocked key s \<Longrightarrow> blocked key (accounts_departed n c s)"
  by (auto simp: blocked_def accounts_departed_def who_departed_def split: option.splits)

lemma departed_blocks:
  assumes "\<And>q c. ac_outstanding s = Some q \<Longrightarrow> channel = Some c \<Longrightarrow> cm_same (ac_casemapping s) c (wq_channel q)"
  shows "blocked (nickname_key n) (accounts_departed n channel s)"
  using assms by (auto simp: blocked_def accounts_departed_def who_departed_def split: option.splits)

lemma blocked_readmit: "blocked key s \<Longrightarrow> k \<noteq> key \<Longrightarrow> blocked key (readmit k s)"
  by (auto simp: blocked_def readmit_def split: option.splits)

lemma join_outstanding:
  "ac_outstanding (fst (observe_join n c a r s)) =
     (case ac_outstanding s of
        Some q \<Rightarrow> (if cm_same (ac_casemapping s) c (wq_channel q)
                  then ac_outstanding (readmit (nickname_key n) s) else Some q)
      | None \<Rightarrow> None)"
  by (simp add: observe_join_def Let_def split: option.split prod.split)

lemma forget_channel_outstanding:
  "ac_outstanding (fst (forget_channel c s)) =
     (case ac_outstanding s of
        Some q \<Rightarrow> (if cm_same (ac_casemapping s) (wq_channel q) c then None else Some q) | None \<Rightarrow> None)"
  by (simp add: forget_channel_def Let_def)

lemma nick_outstanding:
  "ac_outstanding (fst (observe_nick old n s))
   = ac_outstanding (readmit (nickname_key n) (accounts_departed old None s))"
proof -
  let ?t = "readmit (nickname_key n) (accounts_departed old None s)"
  obtain u es where f: "accounts_forget (nickname_key n)
      (?t\<lparr>ac_users := AList.delete (nickname_key old) (ac_users ?t)\<rparr>) = (u, es)" by fastforce
  then have "ac_outstanding u = ac_outstanding ?t"
    using forget_outstanding [of "nickname_key n" "?t\<lparr>ac_users := AList.delete (nickname_key old) (ac_users ?t)\<rparr>"]
    by simp
  then show ?thesis
    unfolding observe_nick_def Let_def f prod.case by (simp split: option.split)
qed

lemma gone_blocked: "blocked key s \<Longrightarrow> blocked key (fst (observe_gone n c me s))"
  using blocked_departed [of key s n "Some c"]
  by (auto simp: observe_gone_def blocked_def forget_channel_outstanding split: option.splits if_splits)

lemma observe_blocked:
  assumes "blocked key s" and "\<not> readmits key s (AcObserve m me px)"
  shows "blocked key (fst (accounts_observe m me px s))"
proof (cases "m_command m")
  case (JOIN c a r)
  have "blocked key (fst (observe_join n c a r s))" if "source_nickname m = Some n" for n
    using assms that JOIN blocked_readmit [OF assms(1), of "nickname_key n"]
    by (auto simp: blocked_def join_outstanding split: option.splits)
  then show ?thesis using JOIN assms(1) by (simp add: accounts_observe_def split: option.split)
next
  case (NICK n)
  have "blocked key (fst (observe_nick old n s))" for old
    using assms(2) NICK blocked_readmit [OF blocked_departed [OF assms(1)], of "nickname_key n" old None]
    by (simp add: blocked_cong [OF nick_outstanding])
  then show ?thesis using NICK assms(1) by (simp add: accounts_observe_def split: option.split)
next
  case (QUIT x)
  have "blocked key (fst (accounts_forget k (accounts_departed n None s)))" for k n
    using blocked_departed [OF assms(1)] by (simp add: blocked_cong [OF forget_outstanding])
  then show ?thesis using QUIT assms(1) by (simp add: accounts_observe_def split: option.split)
next
  case (ACCOUNT a)
  have "blocked key (fst (learn n x y z s))" for n x y z
    using assms(1) by (simp add: blocked_cong [OF learn_outstanding])
  then show ?thesis using ACCOUNT assms(1) by (simp add: accounts_observe_def split: option.split)
qed (use assms(1) gone_blocked in \<open>simp_all add: accounts_observe_def split: option.split\<close>)

lemma blocked_step:
  assumes "blocked key s" and "\<not> readmits key s op"
  shows "blocked key (accounts_step op s)"
proof (cases op)
  case (AcSetMapping m)
  then show ?thesis using assms(1) by (simp add: accounts_step_def accounts_set_casemapping_def)
next
  case (AcIsupport m)
  then show ?thesis using assms(1)
    by (auto simp: accounts_step_def accounts_isupport_def blocked_def split: command.split)
next
  case (AcObserve m me px)
  then show ?thesis using observe_blocked [of key s m me px] assms by (simp add: accounts_step_def)
next
  case (AcNames c us)
  have "ac_outstanding (fst (accounts_names c us s)) = ac_outstanding s" by (simp add: accounts_names_def Let_def)
  then show ?thesis using AcNames assms(1) by (simp add: accounts_step_def blocked_def)
next
  case (AcJoined c)
  have "ac_outstanding (accounts_joined c s) = ac_outstanding s" by (simp add: accounts_joined_def Let_def)
  then show ?thesis using AcJoined assms(1) by (simp add: accounts_step_def blocked_def)
next
  case (AcNextWho now)
  then show ?thesis using assms
    by (auto simp: accounts_step_def next_who_def Let_def blocked_def split: option.splits list.splits if_splits)
next
  case (AcObserveWho m)
  have "ac_outstanding (fst r) = ac_outstanding s \<or> ac_outstanding (fst r) = None" if "who_outcome m s r" for r
    using that
  proof cases
    case (learned args n q a v r t es)
    then show ?thesis using learn_outstanding [of n "Some a" r "[cm_fold (ac_casemapping s) (wq_channel q)]" s] by simp
  qed simp_all
  from this [OF who_outcome] show ?thesis
    using AcObserveWho assms(1) by (auto simp: accounts_step_def blocked_def split_beta)
qed

lemma blocked_run: "blocked key s \<Longrightarrow> stays_away key ops s \<Longrightarrow> blocked key (fold accounts_step ops s)"
  by (induction ops arbitrary: s) (simp_all add: blocked_step)

lemma stale_ignored:
  assumes "blocked (nickname_key nickname) s" and "numeric m = Some (354, args)" and "index_checked args 2 = Some nickname"
  shows "accounts_step (AcObserveWho m) s = s"
proof (cases "ac_outstanding s")
  case None
  then show ?thesis using assms(2) by (simp add: accounts_step_def observe_who_def)
next
  case (Some q)
  then have "wq_departed_overflowed q \<or> nickname_key nickname \<in> set (wq_departed q)"
    using assms(1) by (simp add: blocked_def)
  then show ?thesis using Some assms(2,3) by (auto simp: accounts_step_def observe_who_def split: option.split)
qed

text \<open>C25. A reply that was overtaken by a departure teaches nothing. After a line that takes a user away
  from the channel asked about (or renames them), and until they join it again, someone takes the name
  or a new query goes out, a \<open>WHO\<close> reply about the nickname leaves the state as it is, whatever
  calls come between.\<close>

theorem stale_reply:
  assumes "departure key s line"
    and "stays_away key ops (accounts_step (AcObserve line me px) s)"
    and "numeric m = Some (354, args)" and "index_checked args 2 = Some nickname" and "nickname_key nickname = key"
  shows "let t = fold accounts_step ops (accounts_step (AcObserve line me px) s) in accounts_step (AcObserveWho m) t = t"
proof -
  let ?d = "accounts_step (AcObserve line me px) s"
  have gone: "blocked (nickname_key n) (fst (observe_gone n c me s))"
    if "case ac_outstanding s of None \<Rightarrow> True | Some q \<Rightarrow> cm_same (ac_casemapping s) c (wq_channel q)" for n c
  proof -
    have "blocked (nickname_key n) (accounts_departed n (Some c) s)"
      using that by (intro departed_blocks) auto
    moreover have "blocked (nickname_key n) (fst (forget_channel c s))"
      using that cm.same_sym
      by (auto simp: blocked_def forget_channel_outstanding split: option.splits)
    ultimately show ?thesis by (simp add: observe_gone_def blocked_cong [OF leave_outstanding])
  qed
  have "blocked key ?d" 
  proof (cases "m_command line")
    case (QUIT x)
    have "blocked (nickname_key n) (accounts_departed n None s)" for n by (intro departed_blocks) simp
    then show ?thesis using assms(1) QUIT
      by (auto simp: departure_def accounts_step_def accounts_observe_def blocked_cong [OF forget_outstanding])
  next
    case (NICK n)
    have "blocked (nickname_key old) (readmit (nickname_key n) (accounts_departed old None s))"
      if "nickname_key n \<noteq> nickname_key old" for old
      using that by (intro blocked_readmit departed_blocks) simp_all
    then show ?thesis using assms(1) NICK
      by (auto simp: departure_def accounts_step_def accounts_observe_def blocked_cong [OF nick_outstanding])
  qed (use assms(1) gone in \<open>auto simp: departure_def accounts_step_def accounts_observe_def Let_def\<close>)
  then have "blocked key (fold accounts_step ops ?d)" by (rule blocked_run) (rule assms(2))
  then show ?thesis
    using stale_ignored [OF _ assms(3,4)] assms(5) by (simp add: Let_def)
qed

text \<open>Bob leaves while the channel is asked about; the reply then arrives.\<close>

definition asked :: accounts where
  "asked = accounts_default\<lparr>ac_whox := True, ac_token := 1, ac_outstanding := Some \<lparr>wq_channel = lit ''#c'',
     wq_token = lit ''1'', wq_sent = 0, wq_departed = [], wq_departed_overflowed = False\<rparr>\<rparr>"

definition late_reply :: message where
  "late_reply = \<lparr>m_tags = None, m_prefix = None,
     m_command = Response 354 [lit ''me'', lit ''1'', lit ''Bob'', lit ''bob'']\<rparr>"

theorem stale_reply_witness:
  "accounts_step (AcObserveWho late_reply) (accounts_step (AcObserve (sample_line ''bob'' (QUIT None)) [] presence_default) asked)
   = accounts_step (AcObserve (sample_line ''bob'' (QUIT None)) [] presence_default) asked"
proof -
  have "departure (lit ''bob'') asked (sample_line ''bob'' (QUIT None))" by code_simp
  moreover have "numeric late_reply = Some (354, [lit ''me'', lit ''1'', lit ''Bob'', lit ''bob''])"
    by (simp add: late_reply_def numeric_def)
  moreover have "nickname_key (lit ''Bob'') = lit ''bob''" by code_simp
  ultimately show ?thesis
    using stale_reply [of "lit ''bob''" asked "sample_line ''bob'' (QUIT None)" "[]" "[]" presence_default late_reply
      "[lit ''me'', lit ''1'', lit ''Bob'', lit ''bob'']" "lit ''Bob''"]
    by (simp add: index_checked_def Let_def)
qed

text \<open>Calls of \<open>next_who\<close> at the given instants, and the channels asked about.\<close>

fun who_calls :: "nat list \<Rightarrow> accounts \<Rightarrow> accounts \<times> rstring list list" where
  "who_calls [] s = (s, [])"
| "who_calls (now # instants) s =
     (let (s1, sent) = next_who now s; (s2, more) = who_calls instants s1
      in (s2, (case sent of None \<Rightarrow> [] | Some query \<Rightarrow> [query]) @ more))"

definition who_ready :: "nat \<Rightarrow> accounts \<Rightarrow> bool" where
  "who_ready now s \<longleftrightarrow>
     (case ac_outstanding s of None \<Rightarrow> True | Some q \<Rightarrow> wq_sent q + WHO_TIMEOUT \<le> now)"

lemma next_who_ready:
  assumes "who_ready now s" and "ac_queue s = channel # rest"
  shows "next_who now s =
    (s\<lparr>ac_queue := rest, ac_token := ac_token s mod 999 + 1,
       ac_outstanding := Some \<lparr>wq_channel = channel, wq_token = decimal (ac_token s mod 999 + 1), wq_sent = now,
         wq_departed = [], wq_departed_overflowed = False\<rparr>\<rparr>,
     Some [channel, lit ''%tnar,'' @ decimal (ac_token s mod 999 + 1)])"
proof (cases "ac_outstanding s")
  case (Some q)
  then have "WHO_TIMEOUT \<le> now - wq_sent q" using assms(1) by (simp add: who_ready_def)
  then show ?thesis using Some assms(2) by (simp add: next_who_def Let_def)
qed (use assms(2) in \<open>simp add: next_who_def Let_def\<close>)

lemma next_who_busy: "\<not> who_ready now s \<Longrightarrow> next_who now s = (s, None)"
  by (auto simp: next_who_def who_ready_def Let_def WHO_TIMEOUT_def split: option.splits)

text \<open>One query at a time, each with a fresh token: while a query is open and not timed out nothing is
  sent and nothing changes; otherwise the oldest waiting channel is asked about under a token that
  differs from the previous one, and the next query has to wait for the answer or the full timeout.\<close>

theorem next_who_progress:
  assumes "ac_token s \<le> 999"
  shows "(\<not> who_ready now s \<longrightarrow> next_who now s = (s, None))
       \<and> (who_ready now s \<and> ac_queue s \<noteq> [] \<longrightarrow>
            (let (t, sent) = next_who now s
             in sent = Some [hd (ac_queue s), lit ''%tnar,'' @ decimal (ac_token t)]
              \<and> ac_queue t = tl (ac_queue s) \<and> ac_token t \<noteq> ac_token s \<and> 1 \<le> ac_token t \<and> ac_token t \<le> 999
              \<and> \<not> who_ready (now + WHO_TIMEOUT - 1) t))"
proof -
  have "ac_token s mod 999 + 1 \<noteq> ac_token s" using assms by (cases "ac_token s = 999") auto
  moreover have "ac_token s mod 999 + 1 \<le> 999" by (metis Suc_eq_plus1 Suc_leI mod_less_divisor zero_less_numeral)
  ultimately show ?thesis
    by (cases "ac_queue s") (auto simp: next_who_busy next_who_ready who_ready_def WHO_TIMEOUT_def)
qed

theorem next_who_progress_witness:
  "snd (next_who 15000 (asked\<lparr>ac_queue := [lit ''#d'']\<rparr>)) = Some [lit ''#d'', lit ''%tnar,'' @ decimal 2]"
proof -
  have "who_ready 15000 (asked\<lparr>ac_queue := [lit ''#d'']\<rparr>)" by (simp add: who_ready_def asked_def WHO_TIMEOUT_def)
  moreover have "ac_token (fst (next_who 15000 (asked\<lparr>ac_queue := [lit ''#d'']\<rparr>))) = 2"
    by (simp add: next_who_def asked_def WHO_TIMEOUT_def Let_def)
  moreover have "ac_token (asked\<lparr>ac_queue := [lit ''#d'']\<rparr>) \<le> 999" by (simp add: asked_def)
  ultimately show ?thesis
    using next_who_progress [of "asked\<lparr>ac_queue := [lit ''#d'']\<rparr>" 15000] by (simp add: split_beta)
qed

text \<open>No channel waits for ever: when the worker asks at instants at least a timeout apart, the channels
  asked about are the queue from its head on, in order, one per call, even if no answer ever comes.\<close>

theorem next_who_drains:
  assumes "successively (\<lambda>a b. a + WHO_TIMEOUT \<le> b) instants" and "\<And>now. instants \<noteq> [] \<Longrightarrow> who_ready (hd instants) s"
  shows "map hd (snd (who_calls instants s)) = take (length instants) (ac_queue s)"
  using assms
proof (induction instants arbitrary: s)
  case (Cons now instants)
  show ?case
  proof (cases "ac_queue s")
    case Nil
    have "ac_queue t = [] \<Longrightarrow> who_calls ts t = (fst (who_calls ts t), [])" for ts t
    proof (induction ts arbitrary: t)
      case (Cons n ts)
      have "ac_queue (fst (next_who n t)) = [] \<and> snd (next_who n t) = None"
        using Cons.prems by (simp add: next_who_def Let_def split: option.split)
      with Cons.IH [of "fst (next_who n t)"] show ?case by (simp add: split_beta)
    qed simp
    from this [OF Nil, of "now # instants"] Nil show ?thesis by (metis list.simps(8) snd_conv take_Nil)
  next
    case (Cons channel rest)
    let ?t = "fst (next_who now s)"
    have sent: "snd (next_who now s) = Some [channel, lit ''%tnar,'' @ decimal (ac_token s mod 999 + 1)]"
      and rest: "ac_queue ?t = rest"
      using next_who_ready [OF Cons.prems(2) Cons] by simp_all
    have "who_ready (hd instants) ?t" if "instants \<noteq> []"
      using next_who_ready [OF Cons.prems(2) Cons] Cons.prems(1) that
      by (cases instants) (simp_all add: who_ready_def)
    moreover have "successively (\<lambda>a b. a + WHO_TIMEOUT \<le> b) instants"
      using Cons.prems(1) by (cases instants) simp_all
    ultimately have "map hd (snd (who_calls instants ?t)) = take (length instants) rest"
      using Cons.IH [of ?t] rest by blast
    then show ?thesis by (simp add: split_beta sent Cons)
  qed
qed simp

theorem next_who_drains_witness:
  "map hd (snd (who_calls [0, 15000] (accounts_default\<lparr>ac_queue := [lit ''#a'', lit ''#b'']\<rparr>))) = [lit ''#a'', lit ''#b'']"
  using next_who_drains [of "[0, 15000]" "accounts_default\<lparr>ac_queue := [lit ''#a'', lit ''#b'']\<rparr>"]
  by (simp add: WHO_TIMEOUT_def who_ready_def accounts_default_def)

end
