(* ===== verification/Replay.thy ===== *)
theory Replay
  imports Tags Contracts
begin

text \<open>
  \<open>crates/irc-core/src/replay.rs\<close>: which lines are replayed history rather than live traffic. The
  tracker remembers the open batches that carry history; the table is bounded, so it counts what it
  had to drop as history until the connection resets. The abstract tracker below remembers every
  open history batch, without a bound.
\<close>

section \<open>State\<close>

definition MAX_OPEN_BATCHES :: nat where "MAX_OPEN_BATCHES = 64"

definition HISTORY_BATCH_TYPES :: "rstring list" where
  "HISTORY_BATCH_TYPES = [lit ''CHATHISTORY'', lit ''ZNC.IN/PLAYBACK'']"

record replay_tracker =
  rp_history :: "rstring list"
  rp_overflowed :: bool
  rp_live :: "rstring list"

definition replay_default :: replay_tracker where
  "replay_default = \<lparr>rp_history = [], rp_overflowed = False, rp_live = []\<rparr>"

section \<open>Operations\<close>

text \<open>\<open>BatchSubCommand::to_str\<close> of the vendored crate.\<close>

fun batch_sub_str :: "batch_sub \<Rightarrow> rstring" where
  "batch_sub_str NETSPLIT = lit ''NETSPLIT''"
| "batch_sub_str NETJOIN = lit ''NETJOIN''"
| "batch_sub_str (CUSTOM s) = s"

definition replay_forget :: "rstring \<Rightarrow> replay_tracker \<Rightarrow> replay_tracker" where
  "replay_forget reference t =
     t\<lparr>rp_history := filter (\<lambda>entry. entry \<noteq> reference) (rp_history t),
       rp_live := filter (\<lambda>entry. entry \<noteq> reference) (rp_live t)\<rparr>"

definition in_history_batch :: "replay_tracker \<Rightarrow> message \<Rightarrow> bool" where
  "in_history_batch t m \<longleftrightarrow>
     (case tag_value m (lit ''batch'') of
        None \<Rightarrow> False
      | Some reference \<Rightarrow>
          list_ex (\<lambda>entry. entry = reference) (rp_history t)
          \<or> rp_overflowed t \<and> \<not> list_ex (\<lambda>entry. entry = reference) (rp_live t))"

definition history_kind :: "batch_sub option \<Rightarrow> bool" where
  "history_kind kind \<longleftrightarrow>
     (case kind of None \<Rightarrow> False | Some k \<Rightarrow> batch_sub_str k \<in> set HISTORY_BATCH_TYPES)"

text \<open>A new batch enters one of the two tables; the oldest entry makes room.\<close>

definition push_bounded :: "rstring \<Rightarrow> rstring list \<Rightarrow> rstring list" where
  "push_bounded reference table =
     (if MAX_OPEN_BATCHES \<le> length table then drop 1 table else table) @ [reference]"

definition replay_observe :: "message \<Rightarrow> replay_tracker \<Rightarrow> replay_tracker" where
  "replay_observe m t =
     (case m_command m of
        BATCH reference kind _ \<Rightarrow>
          (case strip_prefix (lit ''-'') reference of
             Some reference \<Rightarrow> replay_forget reference t
           | None \<Rightarrow>
               (case strip_prefix (lit ''+'') reference of
                  None \<Rightarrow> t
                | Some reference \<Rightarrow>
                    (if \<not> followed_batch reference then t
                     else
                       (let history = (history_kind kind \<or> in_history_batch t m);
                            t = replay_forget reference t
                        in if history
                           then t\<lparr>rp_overflowed :=
                                    (rp_overflowed t \<or> MAX_OPEN_BATCHES \<le> length (rp_history t)),
                                  rp_history := push_bounded reference (rp_history t)\<rparr>
                           else if rp_overflowed t
                           then t\<lparr>rp_live := push_bounded reference (rp_live t)\<rparr>
                           else t))))
      | _ \<Rightarrow> t)"

definition replay_reset :: "replay_tracker \<Rightarrow> replay_tracker" where
  "replay_reset t = \<lparr>rp_history = [], rp_overflowed = False, rp_live = []\<rparr>"

definition from_user :: "message \<Rightarrow> bool" where
  "from_user m \<longleftrightarrow>
     (case m_prefix m of Some (Nickname _ user host) \<Rightarrow> user \<noteq> [] \<or> host \<noteq> [] | _ \<Rightarrow> False)"

definition replayed_with_history :: "message \<Rightarrow> bool \<Rightarrow> bool" where
  "replayed_with_history m in_history \<longleftrightarrow> \<not> from_user m \<or> in_history"

definition replayed :: "replay_tracker \<Rightarrow> message \<Rightarrow> bool" where
  "replayed t m \<longleftrightarrow> replayed_with_history m (in_history_batch t m)"

section \<open>The machine and its abstract specification\<close>

datatype replay_op = RpObserve message | RpReset

fun replay_step :: "replay_op \<Rightarrow> replay_tracker \<Rightarrow> replay_tracker" where
  "replay_step (RpObserve m) t = replay_observe m t"
| "replay_step RpReset t = replay_reset t"

text \<open>The batches that carry history: announced as such, or opened inside one that does.\<close>

definition inside :: "rstring set \<Rightarrow> message \<Rightarrow> bool" where
  "inside H m \<longleftrightarrow> (case tag_value m (lit ''batch'') of None \<Rightarrow> False | Some reference \<Rightarrow> reference \<in> H)"

fun history_step :: "replay_op \<Rightarrow> rstring set \<Rightarrow> rstring set" where
  "history_step RpReset H = {}"
| "history_step (RpObserve m) H =
     (case m_command m of
        BATCH reference kind _ \<Rightarrow>
          (case strip_prefix (lit ''-'') reference of
             Some reference \<Rightarrow> H - {reference}
           | None \<Rightarrow>
               (case strip_prefix (lit ''+'') reference of
                  None \<Rightarrow> H
                | Some reference \<Rightarrow>
                    (if \<not> followed_batch reference then H
                     else if history_kind kind \<or> inside H m then insert reference H
                     else H - {reference})))
      | _ \<Rightarrow> H)"

definition table_refs_ok :: "rstring list \<Rightarrow> bool" where
  "table_refs_ok table \<longleftrightarrow>
     distinct table \<and> length table \<le> MAX_OPEN_BATCHES \<and> (\<forall>r \<in> set table. followed_batch r)"

definition replay_inv :: "replay_tracker \<Rightarrow> bool" where
  "replay_inv t \<longleftrightarrow>
     table_refs_ok (rp_history t) \<and> table_refs_ok (rp_live t)
     \<and> set (rp_history t) \<inter> set (rp_live t) = {} \<and> (\<not> rp_overflowed t \<longrightarrow> rp_live t = [])"

text \<open>What the tracker takes for history.\<close>

definition taken :: "replay_tracker \<Rightarrow> rstring set" where
  "taken t = {r. r \<in> set (rp_history t) \<or> rp_overflowed t \<and> r \<notin> set (rp_live t)}"

definition tracks :: "replay_tracker \<Rightarrow> rstring set \<Rightarrow> bool" where
  "tracks t H \<longleftrightarrow> H \<subseteq> taken t \<and> (\<not> rp_overflowed t \<longrightarrow> H = set (rp_history t))"

section \<open>Lemmas\<close>

lemma in_history_batch_taken: "in_history_batch t m = inside (taken t) m"
  by (auto simp: in_history_batch_def inside_def taken_def list_ex_iff split: option.split)

lemma inside_mono: "H \<subseteq> K \<Longrightarrow> inside H m \<Longrightarrow> inside K m"
  by (auto simp: inside_def split: option.splits)

lemma set_push: "set (push_bounded r table) \<subseteq> insert r (set table)"
  by (auto simp: push_bounded_def dest: in_set_dropD)

lemma push_mem [simp]: "r \<in> set (push_bounded r table)"
  by (simp add: push_bounded_def)

lemma push_room: "length table < MAX_OPEN_BATCHES \<Longrightarrow> set (push_bounded r table) = insert r (set table)"
  by (auto simp: push_bounded_def)

lemma push_ok:
  assumes "table_refs_ok table" and "r \<notin> set table" and "followed_batch r"
  shows "table_refs_ok (push_bounded r table)"
  using assms
  by (auto simp: table_refs_ok_def push_bounded_def MAX_OPEN_BATCHES_def dest: in_set_dropD)

lemma filter_refs_ok: "table_refs_ok table \<Longrightarrow> table_refs_ok (filter P table)"
  by (auto simp: table_refs_ok_def intro: order_trans [OF length_filter_le])

lemma forget_inv: "replay_inv t \<Longrightarrow> replay_inv (replay_forget r t)"
  by (auto simp: replay_inv_def replay_forget_def filter_refs_ok)

lemma forget_absent: "r \<notin> set (rp_history (replay_forget r t))" "r \<notin> set (rp_live (replay_forget r t))"
  by (simp_all add: replay_forget_def)

text \<open>Opening a batch: what is added, and what the tracker takes for history then.\<close>

definition open_batch :: "rstring \<Rightarrow> bool \<Rightarrow> replay_tracker \<Rightarrow> replay_tracker" where
  "open_batch r history t =
     (if history
      then t\<lparr>rp_overflowed := (rp_overflowed t \<or> MAX_OPEN_BATCHES \<le> length (rp_history t)),
             rp_history := push_bounded r (rp_history t)\<rparr>
      else if rp_overflowed t then t\<lparr>rp_live := push_bounded r (rp_live t)\<rparr> else t)"

lemma replay_observe_open:
  "replay_observe m t =
     (case m_command m of
        BATCH reference kind _ \<Rightarrow>
          (case strip_prefix (lit ''-'') reference of
             Some r \<Rightarrow> replay_forget r t
           | None \<Rightarrow>
               (case strip_prefix (lit ''+'') reference of
                  None \<Rightarrow> t
                | Some r \<Rightarrow>
                    (if \<not> followed_batch r then t
                     else open_batch r (history_kind kind \<or> in_history_batch t m) (replay_forget r t))))
      | _ \<Rightarrow> t)"
  by (simp add: replay_observe_def open_batch_def Let_def split: command.split option.split)

lemma open_inv:
  assumes "replay_inv t" and "r \<notin> set (rp_history t)" and "r \<notin> set (rp_live t)" and "followed_batch r"
  shows "replay_inv (open_batch r history t)"
  using assms set_push [of r "rp_history t"] set_push [of r "rp_live t"]
  by (auto simp: replay_inv_def open_batch_def push_ok)

lemma forget_tracks: "replay_inv t \<Longrightarrow> tracks t H \<Longrightarrow> tracks (replay_forget r t) (H - {r})"
  by (auto simp: tracks_def taken_def replay_forget_def)

lemma open_tracks:
  assumes inv: "replay_inv t" and tr: "tracks t (H - {r})"
    and new: "r \<notin> set (rp_history t)" "r \<notin> set (rp_live t)"
    and history: "spec \<Longrightarrow> history" and exact: "\<not> rp_overflowed t \<Longrightarrow> history = spec"
  shows "tracks (open_batch r history t) (if spec then insert r H else H - {r})"
proof (cases "rp_overflowed t")
  case True
  then show ?thesis
    using tr new history set_push [of r "rp_live t"] inv
    by (cases history) (auto simp: tracks_def taken_def open_batch_def replay_inv_def push_bounded_def)
next
  case False
  with exact tr have "history = spec" "H - {r} = set (rp_history t)" by (simp_all add: tracks_def)
  then show ?thesis
    using False inv new push_room [of "rp_history t" r]
    by (cases spec) (auto simp: tracks_def taken_def open_batch_def replay_inv_def)
qed

lemma step_inv: "replay_inv t \<Longrightarrow> replay_inv (replay_step op t)"
proof (cases op)
  case (RpObserve m)
  assume "replay_inv t"
  then show ?thesis
    unfolding RpObserve replay_step.simps replay_observe_open
    by (auto simp: forget_inv forget_absent intro!: open_inv split: command.split option.split)
qed (simp add: replay_reset_def replay_inv_def table_refs_ok_def)

lemma step_tracks:
  assumes inv: "replay_inv t" and tr: "tracks t H"
  shows "tracks (replay_step op t) (history_step op H)"
proof (cases op)
  case (RpObserve m)
  have "in_history_batch t m" if "inside H m"
    using that tr inside_mono by (auto simp: in_history_batch_taken tracks_def)
  moreover have "in_history_batch t m = inside H m" if "\<not> rp_overflowed t"
    using that tr by (simp add: in_history_batch_taken tracks_def taken_def)
  ultimately have "tracks (open_batch r (k \<or> in_history_batch t m) (replay_forget r t))
      (if k \<or> inside H m then insert r H else H - {r})" for r k
    by (intro open_tracks forget_inv forget_tracks inv tr forget_absent) (auto simp: replay_forget_def)
  then show ?thesis
    using tr forget_tracks [OF inv tr]
    unfolding RpObserve replay_step.simps replay_observe_open history_step.simps
    by (auto split: command.split option.split)
qed (simp add: replay_reset_def tracks_def taken_def)

interpretation replay_machine: bounded_machine replay_step "\<lambda>t op. True"
  "\<lambda>t. t = replay_default" replay_inv "\<lambda>t. length (rp_history t)" MAX_OPEN_BATCHES
  by unfold_locales
    (auto simp: step_inv, auto simp: replay_inv_def replay_default_def table_refs_ok_def)

lemma run_tracks:
  "replay_inv t \<Longrightarrow> tracks t H \<Longrightarrow> tracks (fold replay_step ops t) (fold history_step ops H)"
  by (induction ops arbitrary: t H) (simp_all add: step_inv step_tracks)

lemma default_ok: "replay_inv replay_default" "tracks replay_default {}"
  by (simp_all add: replay_default_def replay_inv_def table_refs_ok_def tracks_def)

section \<open>Properties\<close>

text \<open>C35. The bounded tracker fails closed. After any sequence of lines and resets, a line in a batch that
  an unbounded tracker would still know as history is classified as replayed, even when the table had
  to drop that batch; and as long as the table never overflowed the classification by batch is exactly
  that of the unbounded tracker.\<close>

theorem replay_fails_closed:
  "let t = fold replay_step ops replay_default; H = fold history_step ops {}
   in (inside H m \<longrightarrow> replayed t m) \<and> (\<not> rp_overflowed t \<longrightarrow> in_history_batch t m = inside H m)"
proof -
  let ?t = "fold replay_step ops replay_default" and ?H = "fold history_step ops {}"
  have tr: "tracks ?t ?H" by (rule run_tracks) (fact default_ok)+
  then have "in_history_batch ?t m" if "inside ?H m"
    using that inside_mono by (auto simp: in_history_batch_taken tracks_def)
  moreover have "in_history_batch ?t m = inside ?H m" if "\<not> rp_overflowed ?t"
    using that tr by (simp add: in_history_batch_taken tracks_def taken_def)
  ultimately show ?thesis by (simp add: replayed_def replayed_with_history_def)
qed

definition batch_line :: "string \<Rightarrow> batch_sub option \<Rightarrow> message" where
  "batch_line reference kind =
     \<lparr>m_tags = None, m_prefix = None, m_command = BATCH (lit reference) kind None\<rparr>"

definition tagged_line :: "string \<Rightarrow> message" where
  "tagged_line reference =
     \<lparr>m_tags = Some [Tag (lit ''batch'') (Some (lit reference))],
      m_prefix = Some (Nickname (lit ''a'') (lit ''u'') (lit ''h'')),
      m_command = PRIVMSG (lit ''#c'') (lit ''hi'')\<rparr>"

lemma tagged_value: "tag_value (tagged_line ''h'') (lit ''batch'') = Some (lit ''h'')"
  by (simp add: tag_value_def tagged_line_def tag_bytes_def escaped_len_def MAX_TAG_BYTES_def lit_def)

lemma sample_kind: "history_kind (Some (CUSTOM (lit ''CHATHISTORY'')))"
  by (simp add: history_kind_def HISTORY_BATCH_TYPES_def)

lemma sample_history:
  "history_step (RpObserve (batch_line ''+h'' (Some (CUSTOM (lit ''CHATHISTORY''))))) {} = {lit ''h''}"
  using sample_kind
  by (simp add: batch_line_def strip_prefix_def followed_batch_def MAX_BATCH_REFERENCE_BYTES_def lit_def)

theorem replay_fails_closed_witness:
  "replayed (replay_observe (batch_line ''+h'' (Some (CUSTOM (lit ''CHATHISTORY'')))) replay_default)
     (tagged_line ''h'')"
  using replay_fails_closed
    [of "[RpObserve (batch_line ''+h'' (Some (CUSTOM (lit ''CHATHISTORY''))))]" "tagged_line ''h''"]
  by (simp add: Let_def sample_history inside_def tagged_value del: history_step.simps)

text \<open>At every moment of the run at most 64 history batches are open.\<close>

fun within_bound :: "replay_op list \<Rightarrow> rstring set \<Rightarrow> bool" where
  "within_bound [] H = True"
| "within_bound (op # ops) H \<longleftrightarrow>
     card (history_step op H) \<le> MAX_OPEN_BATCHES \<and> within_bound ops (history_step op H)"

lemma step_within:
  assumes inv: "replay_inv t" and tr: "tracks t H" and no: "\<not> rp_overflowed t"
    and bound: "card (history_step op H) \<le> MAX_OPEN_BATCHES"
  shows "\<not> rp_overflowed (replay_step op t)"
proof (rule ccontr)
  assume over: "\<not> \<not> rp_overflowed (replay_step op t)"
  then obtain m reference kind x r where op: "op = RpObserve m" "m_command m = BATCH reference kind x"
    and r: "strip_prefix (lit ''-'') reference = None" "strip_prefix (lit ''+'') reference = Some r"
      "followed_batch r"
    and history: "history_kind kind \<or> in_history_batch t m"
    and full: "MAX_OPEN_BATCHES \<le> length (rp_history (replay_forget r t))"
    using no by (cases op)
      (auto simp: replay_observe_open open_batch_def replay_reset_def replay_forget_def
        split: command.splits option.splits if_splits)
  have "H = set (rp_history t)" using tr no by (simp add: tracks_def)
  moreover have "in_history_batch t m = inside H m"
    using tr no by (simp add: in_history_batch_taken tracks_def taken_def)
  ultimately have "history_step op H = insert r (set (rp_history (replay_forget r t)))"
    using op r history by (auto simp: replay_forget_def)
  moreover have "card (set (rp_history (replay_forget r t))) = length (rp_history (replay_forget r t))"
    using forget_inv [OF inv, of r] by (simp add: replay_inv_def table_refs_ok_def distinct_card)
  ultimately show False using bound full forget_absent(1) [of r t] by simp
qed

text \<open>No live line is muted while the server behaves. If never more than 64 history batches are open at
  once, the tracker is exact: a line of a user is replayed precisely when its batch is an open history
  batch, and a line in an ended, live or unknown batch is live.\<close>

theorem replay_exact:
  assumes "within_bound ops {}" and "from_user m"
  shows "replayed (fold replay_step ops replay_default) m = inside (fold history_step ops {}) m"
proof -
  have "\<not> rp_overflowed (fold replay_step ops t)"
    if "within_bound ops H" "replay_inv t" "tracks t H" "\<not> rp_overflowed t" for t H
    using that
  proof (induction ops arbitrary: t H)
    case (Cons op ops)
    then show ?case using Cons.IH [of "history_step op H" "replay_step op t"] step_within
      by (simp add: step_inv step_tracks)
  qed simp
  from this [OF assms(1) default_ok] run_tracks [OF default_ok, of ops] show ?thesis
    using assms(2)
    by (simp add: replay_default_def replayed_def replayed_with_history_def in_history_batch_taken tracks_def taken_def)
qed

theorem replay_exact_witness:
  "\<not> replayed (fold replay_step
       [RpObserve (batch_line ''+h'' (Some (CUSTOM (lit ''CHATHISTORY'')))), RpObserve (batch_line ''-h'' None)]
       replay_default) (tagged_line ''h'')"
proof -
  let ?ops = "[RpObserve (batch_line ''+h'' (Some (CUSTOM (lit ''CHATHISTORY'')))), RpObserve (batch_line ''-h'' None)]"
  have closed: "history_step (RpObserve (batch_line ''-h'' None)) {lit ''h''} = {}"
    by (simp add: batch_line_def strip_prefix_def lit_def)
  then have "within_bound ?ops {}"
    by (simp add: sample_history MAX_OPEN_BATCHES_def del: history_step.simps)
  moreover have "from_user (tagged_line ''h'')" by (simp add: from_user_def tagged_line_def lit_def)
  moreover have "\<not> inside (fold history_step ?ops {}) (tagged_line ''h'')"
    using closed by (simp add: sample_history inside_def tagged_value del: history_step.simps)
  ultimately show ?thesis using replay_exact [of ?ops "tagged_line ''h''"] by blast
qed

text \<open>On every run both tables hold at most 64 different references of at most the followed length, no
  reference is in both, live batches are remembered only after an overflow, and a line that no user
  sent is never live.\<close>

theorem replay_bounded:
  "let t = fold replay_step ops replay_default
   in length (rp_history t) \<le> MAX_OPEN_BATCHES \<and> length (rp_live t) \<le> MAX_OPEN_BATCHES
    \<and> distinct (rp_history t @ rp_live t)
    \<and> list_all (\<lambda>r. blen r \<le> MAX_BATCH_REFERENCE_BYTES) (rp_history t @ rp_live t)
    \<and> (rp_overflowed t \<or> rp_live t = []) \<and> (from_user m \<or> replayed t m)"
proof -
  let ?t = "fold replay_step ops replay_default"
  have "replay_inv ?t" by (rule replay_machine.run_init_inv [OF refl]) (simp add: replay_machine.run_ok_total)
  then show ?thesis
    by (auto simp: Let_def replay_inv_def table_refs_ok_def followed_batch_def list_all_iff
        replayed_def replayed_with_history_def)
qed

end
