(* ===== verification/Pacing.thy ===== *)
theory Pacing
  imports Text "HOL-Library.Multiset"
begin

text \<open>
  Pacing of what strangers can make the client do: the \<open>Budget\<close> of \<open>crates/irc-core/src/ctcp.rs\<close>, a
  bounded count of recent events in total and per user. The interface \<open>pacer\<close> states what a budget
  owes its client over the log of everything it admitted; its lemmas bound every window of time, not
  only the windows that end at a call.
\<close>

section \<open>Logs and windows\<close>

text \<open>\<open>now.duration_since(sent) < window\<close>: the difference saturates at zero.\<close>

definition within :: "nat \<Rightarrow> nat \<Rightarrow> nat \<Rightarrow> bool" where
  "within window now sent \<longleftrightarrow> now - sent < window"

text \<open>The entries of a log that fall in the window that starts at an instant.\<close>

definition in_window :: "nat \<Rightarrow> nat \<Rightarrow> nat list \<Rightarrow> nat list" where
  "in_window window start ts = filter (\<lambda>t. start \<le> t \<and> t < start + window) ts"

text \<open>Every entry of a log was made when fewer than \<open>n\<close> earlier ones were recent.\<close>

definition paced :: "nat \<Rightarrow> nat \<Rightarrow> nat list \<Rightarrow> bool" where
  "paced window n ts \<longleftrightarrow>
     (\<forall>i < length ts. length (filter (within window (ts ! i)) (take i ts)) < n)"

lemma paced_Nil [simp]: "paced window n []"
  by (simp add: paced_def)

lemma paced_snoc:
  "paced window n (ts @ [t]) \<longleftrightarrow>
     paced window n ts \<and> length (filter (within window t) ts) < n"
proof
  assume p: "paced window n (ts @ [t])"
  have "length (filter (within window (ts ! i)) (take i ts)) < n" if "i < length ts" for i
    using p that unfolding paced_def by (elim allE [of _ i]) (simp add: nth_append)
  moreover have "length (filter (within window t) ts) < n"
    using p unfolding paced_def by (elim allE [of _ "length ts"]) simp
  ultimately show "paced window n ts \<and> length (filter (within window t) ts) < n"
    by (simp add: paced_def)
next
  assume "paced window n ts \<and> length (filter (within window t) ts) < n"
  then show "paced window n (ts @ [t])"
    by (auto simp: paced_def nth_append less_Suc_eq)
qed

lemma length_filter_mono: "(\<And>x. x \<in> set xs \<Longrightarrow> P x \<Longrightarrow> Q x) \<Longrightarrow> length (filter P xs) \<le> length (filter Q xs)"
  by (induction xs) auto

text \<open>A paced log has at most \<open>n\<close> entries in any window, wherever it starts.\<close>

lemma paced_window: "paced window n ts \<Longrightarrow> length (in_window window start ts) \<le> n"
proof (induction ts rule: rev_induct)
  case (snoc t ts)
  show ?case
  proof (cases "start \<le> t \<and> t < start + window")
    case True
    have "length (in_window window start ts) \<le> length (filter (within window t) ts)"
      unfolding in_window_def by (rule length_filter_mono) (use True in \<open>auto simp: within_def\<close>)
    with snoc.prems True show ?thesis
      by (simp add: paced_snoc in_window_def)
  next
    case False
    with snoc show ?thesis
      by (auto simp: paced_snoc in_window_def)
  qed
qed (simp add: in_window_def)

definition times_of :: "('k \<times> nat) list \<Rightarrow> 'k \<Rightarrow> nat list" where
  "times_of log key = map snd (filter (\<lambda>e. fst e = key) log)"

lemma times_of_simps [simp]:
  "times_of [] key = []"
  "times_of (log @ [(k, t)]) key = (if k = key then times_of log key @ [t] else times_of log key)"
  by (simp_all add: times_of_def)

section \<open>The interface\<close>

datatype admission = Admitted | Refused | Muted

text \<open>
  \<open>tracks b log now\<close> relates a budget to the log of the events it admitted, each with the key of
  its user, when the clock shows \<open>now\<close>. An event is admitted only when the log has room for it, in
  total and for its user.
\<close>

locale pacer =
  fixes admit :: "'u \<Rightarrow> nat \<Rightarrow> 'b \<Rightarrow> admission \<times> 'b"
    and key :: "'u \<Rightarrow> 'k"
    and tracks :: "'b \<Rightarrow> ('k \<times> nat) list \<Rightarrow> nat \<Rightarrow> bool"
    and empty :: 'b
    and window total each :: nat
  assumes tracks_empty: "tracks empty [] 0"
    and tracks_later: "tracks b log t \<Longrightarrow> t \<le> now \<Longrightarrow> tracks b log now"
    and admitted: "tracks b log t \<Longrightarrow> t \<le> now \<Longrightarrow> admit u now b = (Admitted, b') \<Longrightarrow>
      tracks b' (log @ [(key u, now)]) now
      \<and> length (filter (within window now) (map snd log)) < total
      \<and> length (filter (within window now) (times_of log (key u))) < each"
    and turned_away: "tracks b log t \<Longrightarrow> t \<le> now \<Longrightarrow> admit u now b = (a, b') \<Longrightarrow> a \<noteq> Admitted \<Longrightarrow>
      tracks b' log now
      \<and> (total \<le> length (filter (within window now) (map snd log))
         \<or> each \<le> length (filter (within window now) (times_of log (key u))))"
begin

text \<open>What holds of a budget along a run: it tracks its log, and the log is paced.\<close>

definition paces :: "'b \<Rightarrow> ('k \<times> nat) list \<Rightarrow> nat \<Rightarrow> bool" where
  "paces b log now \<longleftrightarrow> tracks b log now \<and> paced window total (map snd log)
     \<and> (\<forall>k. paced window each (times_of log k))"

lemma paces_empty: "paces empty [] 0"
  by (simp add: paces_def tracks_empty)

lemma paces_later: "paces b log t \<Longrightarrow> t \<le> now \<Longrightarrow> paces b log now"
  by (auto simp: paces_def intro: tracks_later)

lemma paces_admitted:
  "paces b log t \<Longrightarrow> t \<le> now \<Longrightarrow> admit u now b = (Admitted, b') \<Longrightarrow>
   paces b' (log @ [(key u, now)]) now"
  using admitted [of b log t now u b'] by (auto simp: paces_def paced_snoc)

lemma paces_turned_away:
  "paces b log t \<Longrightarrow> t \<le> now \<Longrightarrow> admit u now b = (a, b') \<Longrightarrow> a \<noteq> Admitted \<Longrightarrow> paces b' log now"
  using turned_away [of b log t now u a b'] by (auto simp: paces_def)

text \<open>Nobody is turned away while the log has room.\<close>

lemma room_admits:
  assumes "paces b log t" and "t \<le> now"
    and "length (filter (within window now) (map snd log)) < total"
    and "length (filter (within window now) (times_of log (key u))) < each"
  shows "fst (admit u now b) = Admitted"
  using assms turned_away [of b log t now u "fst (admit u now b)" "snd (admit u now b)"]
  by (auto simp: paces_def)

lemma paces_window:
  assumes "paces b log now"
  shows "length (in_window window start (map snd log)) \<le> total"
    and "length (in_window window start (times_of log k)) \<le> each"
  using assms by (auto simp: paces_def intro: paced_window)

end

section \<open>The budget\<close>

definition WINDOW :: nat where "WINDOW = 10000"
definition MAX_PER_WINDOW :: nat where "MAX_PER_WINDOW = 5"
definition MAX_PER_USER :: nat where "MAX_PER_USER = 2"

record budget =
  bu_recent :: "nat list"
  bu_per_user :: "(rstring, nat list) hmap"
  bu_reported :: "nat option"

definition budget_default :: budget where
  "budget_default = \<lparr>bu_recent = [], bu_per_user = [], bu_reported = None\<rparr>"

definition user_times :: "(rstring, nat list) hmap \<Rightarrow> rstring \<Rightarrow> nat list" where
  "user_times m key = (case map_of m key of Some ts \<Rightarrow> ts | None \<Rightarrow> [])"

definition retain_users :: "nat \<Rightarrow> (rstring, nat list) hmap \<Rightarrow> (rstring, nat list) hmap" where
  "retain_users now m =
     filter (\<lambda>(_, ts). ts \<noteq> [])
       (map (\<lambda>(key, ts). (key, filter (within WINDOW now) ts)) m)"

definition budget_admit :: "rstring \<Rightarrow> nat \<Rightarrow> budget \<Rightarrow> admission \<times> budget" where
  "budget_admit sender now b =
     (let b = b\<lparr>bu_recent := dropWhile (\<lambda>sent. \<not> within WINDOW now sent) (bu_recent b),
                bu_per_user := retain_users now (bu_per_user b)\<rparr>;
          key = nickname_key sender;
          used = length (user_times (bu_per_user b) key)
      in if MAX_PER_WINDOW \<le> length (bu_recent b) \<or> MAX_PER_USER \<le> used
         then (case bu_reported b of
                 Some reported \<Rightarrow>
                   (if within WINDOW now reported then (Muted, b)
                    else (Refused, b\<lparr>bu_reported := Some now\<rparr>))
               | None \<Rightarrow> (Refused, b\<lparr>bu_reported := Some now\<rparr>))
         else (Admitted,
               b\<lparr>bu_recent := bu_recent b @ [now],
                 bu_per_user := AList.update key (user_times (bu_per_user b) key @ [now])
                   (bu_per_user b)\<rparr>))"

text \<open>The budget holds, of the log, what can still be recent, oldest first and within its limits.\<close>

definition budget_tracks :: "budget \<Rightarrow> (rstring \<times> nat) list \<Rightarrow> nat \<Rightarrow> bool" where
  "budget_tracks b log now \<longleftrightarrow>
     sorted (bu_recent b) \<and> list_all (\<lambda>t. t \<le> now) (bu_recent b)
     \<and> keys_distinct (bu_per_user b)
     \<and> (\<forall>t \<ge> now. filter (within WINDOW t) (bu_recent b) = filter (within WINDOW t) (map snd log))
     \<and> (\<forall>k. \<forall>t \<ge> now. filter (within WINDOW t) (user_times (bu_per_user b) k)
            = filter (within WINDOW t) (times_of log k))"

lemma within_later: "within W t' s \<Longrightarrow> t \<le> t' \<Longrightarrow> within W t s"
  by (auto simp: within_def)

lemma filter_within_later:
  "t \<le> t' \<Longrightarrow> filter (within W t') (filter (within W t) xs) = filter (within W t') xs"
  by (auto simp: within_later intro!: filter_cong)

lemma dropWhile_within:
  "sorted ts \<Longrightarrow> dropWhile (\<lambda>s. \<not> within W now s) ts = filter (within W now) ts"
proof (induction ts)
  case (Cons s ts)
  have "filter (within W now) ts = ts" if "within W now s"
    using that Cons.prems by (auto simp: within_def intro!: filter_True)
  with Cons show ?case by auto
qed simp

lemma retain_users_simps:
  "retain_users now [] = []"
  "retain_users now ((k, ts) # m) =
     (if filter (within WINDOW now) ts = [] then retain_users now m
      else (k, filter (within WINDOW now) ts) # retain_users now m)"
  by (simp_all add: retain_users_def)

lemma retain_users_keys: "fst ` set (retain_users now m) \<subseteq> fst ` set m"
  by (force simp: retain_users_def)

lemma keys_distinct_retain_users: "keys_distinct m \<Longrightarrow> keys_distinct (retain_users now m)"
proof (induction m)
  case (Cons e m)
  then show ?case
    using retain_users_keys [of now m] by (cases e) (auto simp: keys_distinct_def retain_users_simps)
qed (simp add: retain_users_simps)

lemma retain_users_lookup:
  "keys_distinct m \<Longrightarrow> user_times (retain_users now m) k = filter (within WINDOW now) (user_times m k)"
proof (induction m)
  case (Cons e m)
  obtain k' ts where e: "e = (k', ts)" by (cases e)
  have "k' \<notin> fst ` set m"
    using Cons.prems e by (simp add: keys_distinct_def)
  then have "map_of m k' = None" "map_of (retain_users now m) k' = None"
    using retain_users_keys [of now m] by (auto simp: map_of_eq_None_iff)
  with Cons e show ?case
    by (auto simp: retain_users_simps user_times_def keys_distinct_def)
qed (simp add: retain_users_simps user_times_def)

lemma user_times_update:
  "user_times (AList.update k ts m) k' = (if k = k' then ts else user_times m k')"
  by (simp add: user_times_def)

text \<open>Forgetting what is no longer recent changes nothing that a later call could see.\<close>

definition budget_clean :: "nat \<Rightarrow> budget \<Rightarrow> budget" where
  "budget_clean now b =
     b\<lparr>bu_recent := dropWhile (\<lambda>sent. \<not> within WINDOW now sent) (bu_recent b),
       bu_per_user := retain_users now (bu_per_user b)\<rparr>"

lemma budget_clean_tracks:
  assumes "budget_tracks b log t" and "t \<le> now"
  shows "budget_tracks (budget_clean now b) log now"
    and "bu_recent (budget_clean now b) = filter (within WINDOW now) (map snd log)"
    and "user_times (bu_per_user (budget_clean now b)) k = filter (within WINDOW now) (times_of log k)"
proof -
  have r: "bu_recent (budget_clean now b) = filter (within WINDOW now) (bu_recent b)"
    using assms by (simp add: budget_clean_def budget_tracks_def dropWhile_within)
  have u: "user_times (bu_per_user (budget_clean now b)) k = filter (within WINDOW now) (user_times (bu_per_user b) k)" for k
    using assms by (simp add: budget_clean_def budget_tracks_def retain_users_lookup)
  show "bu_recent (budget_clean now b) = filter (within WINDOW now) (map snd log)"
    and "user_times (bu_per_user (budget_clean now b)) k = filter (within WINDOW now) (times_of log k)"
    using assms r u by (simp_all add: budget_tracks_def)
  have later: "filter (within WINDOW s) (filter (within WINDOW now) ts) = filter (within WINDOW s) ts"
    if "now \<le> s" for s ts
    using that by (rule filter_within_later)
  show "budget_tracks (budget_clean now b) log now"
    unfolding budget_tracks_def r u
  proof (intro conjI allI impI)
    show "sorted (filter (within WINDOW now) (bu_recent b))"
      using assms(1) sorted_filter [of id "bu_recent b"] by (simp add: budget_tracks_def)
    show "list_all (\<lambda>t. t \<le> now) (filter (within WINDOW now) (bu_recent b))"
      using assms unfolding budget_tracks_def list_all_iff by (meson filter_is_subset order_trans subsetD)
    show "keys_distinct (bu_per_user (budget_clean now b))"
      using assms(1) by (simp add: budget_clean_def budget_tracks_def keys_distinct_retain_users)
  next
    fix s assume "now \<le> s"
    then show "filter (within WINDOW s) (filter (within WINDOW now) (bu_recent b))
        = filter (within WINDOW s) (map snd log)"
      unfolding later [OF \<open>now \<le> s\<close>] using assms by (simp add: budget_tracks_def)
  next
    fix k s assume "now \<le> s"
    then show "filter (within WINDOW s) (filter (within WINDOW now) (user_times (bu_per_user b) k))
        = filter (within WINDOW s) (times_of log k)"
      unfolding later [OF \<open>now \<le> s\<close>] using assms by (simp add: budget_tracks_def)
  qed
qed

lemma budget_tracks_snoc:
  assumes "budget_tracks b log now"
  shows "budget_tracks
    (b\<lparr>bu_recent := bu_recent b @ [now],
       bu_per_user := AList.update k (user_times (bu_per_user b) k @ [now]) (bu_per_user b)\<rparr>)
    (log @ [(k, now)]) now"
  using assms by (auto simp: budget_tracks_def user_times_update sorted_append list_all_iff)

lemma budget_tracks_reported: "budget_tracks (b\<lparr>bu_reported := r\<rparr>) log now = budget_tracks b log now"
  by (simp add: budget_tracks_def)

lemma budget_admit_clean:
  "budget_admit sender now b =
     (let b = budget_clean now b; key = nickname_key sender
      in if MAX_PER_WINDOW \<le> length (bu_recent b) \<or> MAX_PER_USER \<le> length (user_times (bu_per_user b) key)
         then (case bu_reported b of
                 Some reported \<Rightarrow>
                   (if within WINDOW now reported then (Muted, b)
                    else (Refused, b\<lparr>bu_reported := Some now\<rparr>))
               | None \<Rightarrow> (Refused, b\<lparr>bu_reported := Some now\<rparr>))
         else (Admitted,
               b\<lparr>bu_recent := bu_recent b @ [now],
                 bu_per_user := AList.update key (user_times (bu_per_user b) key @ [now])
                   (bu_per_user b)\<rparr>))"
  by (simp only: budget_admit_def budget_clean_def Let_def)

interpretation ctcp_budget: pacer budget_admit nickname_key budget_tracks budget_default
  WINDOW MAX_PER_WINDOW MAX_PER_USER
proof
  show "budget_tracks budget_default [] 0"
    by (simp add: budget_tracks_def budget_default_def user_times_def)
next
  fix b log and t now :: nat
  assume "budget_tracks b log t" "t \<le> now"
  then show "budget_tracks b log now"
    by (auto simp: budget_tracks_def list_all_iff)
next
  fix b b' :: budget and log t now u
  assume b: "budget_tracks b log t" "t \<le> now" and "budget_admit u now b = (Admitted, b')"
  then show "budget_tracks b' (log @ [(nickname_key u, now)]) now
      \<and> length (filter (within WINDOW now) (map snd log)) < MAX_PER_WINDOW
      \<and> length (filter (within WINDOW now) (times_of log (nickname_key u))) < MAX_PER_USER"
    using budget_clean_tracks [OF b] budget_tracks_snoc [OF budget_clean_tracks(1) [OF b], of "nickname_key u"]
    by (auto simp: budget_admit_clean Let_def split: if_splits option.splits)
next
  fix b b' :: budget and log t now u a
  assume b: "budget_tracks b log t" "t \<le> now" and "budget_admit u now b = (a, b')" "a \<noteq> Admitted"
  then show "budget_tracks b' log now
      \<and> (MAX_PER_WINDOW \<le> length (filter (within WINDOW now) (map snd log))
         \<or> MAX_PER_USER \<le> length (filter (within WINDOW now) (times_of log (nickname_key u))))"
    using budget_clean_tracks [OF b]
    by (auto simp: budget_admit_clean Let_def budget_tracks_reported split: if_splits option.splits)
qed

section \<open>Memory\<close>

text \<open>The table of users holds the recent events once more and nobody else, so it is as bounded.\<close>

definition budget_ok :: "nat \<Rightarrow> budget \<Rightarrow> bool" where
  "budget_ok now b \<longleftrightarrow> sorted (bu_recent b) \<and> list_all (\<lambda>t. t \<le> now) (bu_recent b)
     \<and> keys_distinct (bu_per_user b)
     \<and> length (bu_recent b) \<le> MAX_PER_WINDOW
     \<and> list_all (\<lambda>(_, ts). ts \<noteq> []) (bu_per_user b)
     \<and> mset (concat (map snd (bu_per_user b))) = mset (bu_recent b)"

lemma concat_retain_users:
  "mset (concat (map snd (retain_users now m)))
   = filter_mset (within WINDOW now) (mset (concat (map snd m)))"
proof (induction m)
  case (Cons e m)
  then show ?case
    by (cases e) (auto simp: retain_users_simps mset_filter [symmetric] simp del: mset_filter)
qed (simp add: retain_users_simps)

lemma concat_update:
  "keys_distinct m \<Longrightarrow>
   mset (concat (map snd (AList.update k (user_times m k @ [t]) m))) = add_mset t (mset (concat (map snd m)))"
proof (induction m)
  case (Cons e m)
  then show ?case
    by (cases e) (auto simp: user_times_def keys_distinct_def)
qed (simp add: user_times_def)

lemma update_nonempty:
  "list_all (\<lambda>(_, ts). ts \<noteq> []) m \<Longrightarrow> list_all (\<lambda>(_, ts). ts \<noteq> []) (AList.update k (ts @ [t]) m)"
  by (induction m) auto

lemma budget_ok_default [simp]: "budget_ok now budget_default"
  by (simp add: budget_ok_def budget_default_def)

lemma budget_ok_later: "budget_ok t b \<Longrightarrow> t \<le> now \<Longrightarrow> budget_ok now b"
  by (auto simp: budget_ok_def list_all_iff)

lemma budget_ok_clean:
  assumes "budget_ok now b"
  shows "budget_ok now (budget_clean now b)"
proof -
  have r: "bu_recent (budget_clean now b) = filter (within WINDOW now) (bu_recent b)"
    using assms by (simp add: budget_clean_def budget_ok_def dropWhile_within)
  moreover have "length (filter (within WINDOW now) (bu_recent b)) \<le> MAX_PER_WINDOW"
    using assms by (auto simp: budget_ok_def intro: order_trans [OF length_filter_le])
  moreover have "list_all (\<lambda>(_, ts). ts \<noteq> []) (retain_users now (bu_per_user b))"
    by (auto simp: retain_users_def list_all_iff)
  ultimately show ?thesis
    using assms sorted_filter [of id "bu_recent b" "within WINDOW now"]
    unfolding budget_ok_def r
    by (simp add: budget_clean_def keys_distinct_retain_users concat_retain_users list_all_iff)
qed

lemma budget_ok_admit:
  assumes "budget_ok now b"
  shows "budget_ok now (snd (budget_admit sender now b))"
  using budget_ok_clean [OF assms]
  by (auto simp: budget_admit_clean Let_def budget_ok_def sorted_append list_all_iff [of "\<lambda>t. t \<le> now"]
      concat_update update_nonempty split: option.splits)

lemma nonempty_lists: "list_all (\<lambda>(_, ts). ts \<noteq> []) m \<Longrightarrow> length m \<le> length (concat (map snd m))"
  by (induction m) (auto simp: Suc_le_eq intro: le_less_trans)

lemma budget_users: "budget_ok now b \<Longrightarrow> length (bu_per_user b) \<le> MAX_PER_WINDOW"
  using nonempty_lists [of "bu_per_user b"]
  by (metis budget_ok_def order_trans size_mset)

end
