(* ===== verification/Ctcp.thy ===== *)
theory Ctcp
  imports Pacing Wire Display Contracts "HOL-Library.Word" "HOL-Library.Sublist"
begin

text \<open>
  \<open>crates/irc-core/src/ctcp.rs\<close>: answers to CTCP queries, the requests the user sends, and the timing
  of CTCP PING. What comes in and what goes out is paced by the budgets of \<open>Pacing\<close>. Instants are
  milliseconds and an argument; so are the local time as text (from \<open>chrono\<close>) and the random nonce.
\<close>

section \<open>State\<close>

definition MAX_PING_BYTES :: nat where "MAX_PING_BYTES = 128"
definition MAX_TAG_CHARS :: nat where "MAX_TAG_CHARS = 32"
definition MAX_SHOWN_CHARS :: nat where "MAX_SHOWN_CHARS = 200"
definition VERSION :: rstring where "VERSION = lit ''CayenChat '' @ lit ''1.1.0''"
definition SOURCE :: rstring where "SOURCE = lit ''https://github.com/koshian/cayenchat''"
definition PING_TIMEOUT :: nat where "PING_TIMEOUT = 30000"
definition MAX_PENDING_PINGS :: nat where "MAX_PENDING_PINGS = 8"
definition MAX_REQUEST_BYTES :: nat where "MAX_REQUEST_BYTES = 200"

record ping =
  pg_nick :: rstring
  pg_token :: rstring
  pg_sent :: nat

record ctcp_replies =
  ct_avatar :: bool
  ct_network :: rstring
  ct_requests :: budget
  ct_replies :: budget
  ct_sent :: budget
  ct_pending :: "ping list"
  ct_nonce :: "64 word"
  ct_counter :: "64 word"
  ct_casemapping :: case_mapping

text \<open>\<open>metadata::Handled\<close>: this component reports lines for the server log and commands to send.\<close>

datatype ctcp_event = CtcpLine rstring

record handled =
  ha_events :: "ctcp_event list"
  ha_send :: "command list"

definition handled_default :: handled where
  "handled_default = \<lparr>ha_events = [], ha_send = []\<rparr>"

section \<open>Text\<close>

definition ascii_upper :: "rstring \<Rightarrow> rstring" where
  "ascii_upper s = map to_ascii_uppercase s"

text \<open>\<open>{:x}\<close> and \<open>{:08x}\<close>.\<close>

definition hex_digit :: "nat \<Rightarrow> rchar" where
  "hex_digit d = (if d < 10 then 0x30 + d else 0x57 + d)"

fun hexadecimal :: "nat \<Rightarrow> rstring" where
  "hexadecimal n = (if n < 16 then [hex_digit n] else hexadecimal (n div 16) @ [hex_digit (n mod 16)])"

declare hexadecimal.simps [simp del]

definition hexadecimal8 :: "nat \<Rightarrow> rstring" where
  "hexadecimal8 n = replicate (8 - length (hexadecimal n)) 0x30 @ hexadecimal n"

definition ctcp_plain :: "rstring \<Rightarrow> rstring" where
  "ctcp_plain text = filter (\<lambda>c. \<not> is_control c) (strip_formatting text)"

definition shown_params :: "rstring \<Rightarrow> rstring" where
  "shown_params params =
     (let plain = trim (ctcp_plain params)
      in if MAX_SHOWN_CHARS < length plain then take MAX_SHOWN_CHARS plain @ [0x2026] else plain)"

definition is_plain_tag :: "rstring \<Rightarrow> bool" where
  "is_plain_tag tag \<longleftrightarrow>
     tag \<noteq> [] \<and> blen tag \<le> MAX_TAG_CHARS
     \<and> list_all (\<lambda>c. is_ascii_alphabetic c \<or> is_ascii_digit c \<or> c \<in> set (lit ''-_./'')) tag"

definition shown_tag :: "rstring \<Rightarrow> rstring" where
  "shown_tag tag = (if is_plain_tag tag then lit ''CTCP '' @ ascii_upper tag else lit ''CTCP'')"

definition echoable :: "rstring \<Rightarrow> bool" where
  "echoable params \<longleftrightarrow> blen params \<le> MAX_PING_BYTES \<and> \<not> list_ex is_control params"

definition ctcp_split :: "rstring \<Rightarrow> (rstring \<times> rstring) option" where
  "ctcp_split text =
     (case strip_prefix [0x01] text of
        None \<Rightarrow> None
      | Some body \<Rightarrow>
          (let body = (case strip_suffix [0x01] body of Some b \<Rightarrow> b | None \<Rightarrow> body)
           in Some (case split_once 0x20 body of Some parts \<Rightarrow> parts | None \<Rightarrow> (body, []))))"

text \<open>\<open>valid_nickname\<close> of the crate's root.\<close>

definition valid_nickname :: "rstring \<Rightarrow> bool" where
  "valid_nickname value \<longleftrightarrow>
     value \<noteq> [] \<and> \<not> starts_with_any (lit ''#&!~@%+'') value
     \<and> \<not> list_ex (\<lambda>c. is_whitespace c \<or> is_control c \<or> c = 0x2C \<or> c = 0x3A) value"

text \<open>What \<open>/ctcp\<close> may send; the error is the text shown to the user.\<close>

definition ctcp_check_request :: "rstring \<Rightarrow> rstring \<Rightarrow> rstring \<Rightarrow> rstring + unit" where
  "ctcp_check_request nick tag args =
     (if \<not> valid_nickname nick then Inl (lit ''Invalid CTCP target; give a nickname.'')
      else if \<not> is_plain_tag tag then Inl (lit ''Invalid CTCP command.'')
      else if ascii_upper tag = lit ''ACTION'' then Inl (lit ''Use /me to send an action.'')
      else if ascii_upper tag = lit ''DCC'' then Inl (lit ''DCC is not supported.'')
      else if ascii_upper tag = lit ''AVATAR''
      then Inl (lit ''CTCP AVATAR follows the peer avatar setting.'')
      else if MAX_REQUEST_BYTES < blen args
      then Inl (lit ''CTCP arguments must be at most '' @ decimal MAX_REQUEST_BYTES @ lit '' bytes.'')
      else if list_ex is_control args
      then Inl (lit ''CTCP arguments must not contain control characters.'')
      else Inr ())"

section \<open>Operations\<close>

definition ctcp_new :: "64 word \<Rightarrow> bool \<Rightarrow> rstring \<Rightarrow> ctcp_replies" where
  "ctcp_new nonce avatar network =
     \<lparr>ct_avatar = avatar, ct_network = ctcp_plain network, ct_requests = budget_default,
      ct_replies = budget_default, ct_sent = budget_default, ct_pending = [], ct_nonce = nonce,
      ct_counter = 0, ct_casemapping = default_mapping\<rparr>"

definition ctcp_set_casemapping :: "case_mapping \<Rightarrow> ctcp_replies \<Rightarrow> ctcp_replies" where
  "ctcp_set_casemapping m s = s\<lparr>ct_casemapping := m\<rparr>"

definition ping_expired :: "nat \<Rightarrow> ping \<Rightarrow> bool" where
  "ping_expired now p \<longleftrightarrow> PING_TIMEOUT \<le> now - pg_sent p"

definition timeout_line :: "rstring \<Rightarrow> ping \<Rightarrow> ctcp_event" where
  "timeout_line network p =
     CtcpLine (lit ''CTCP PING to '' @ ctcp_plain (pg_nick p) @ lit '' on '' @ network
       @ lit '' timed out (no reply in '' @ decimal (PING_TIMEOUT div 1000) @ lit '' seconds)'')"

text \<open>The loop takes pings off the front while they have timed out and reports each.\<close>

definition ctcp_expire :: "nat \<Rightarrow> ctcp_replies \<Rightarrow> ctcp_event list \<times> ctcp_replies" where
  "ctcp_expire now s =
     (map (timeout_line (ct_network s)) (takeWhile (ping_expired now) (ct_pending s)),
      s\<lparr>ct_pending := dropWhile (ping_expired now) (ct_pending s)\<rparr>)"

definition ctcp_tick :: "nat \<Rightarrow> ctcp_replies \<Rightarrow> handled \<times> ctcp_replies" where
  "ctcp_tick now s =
     (let (events, s) = ctcp_expire now s in (handled_default\<lparr>ha_events := events\<rparr>, s))"

definition ctcp_next_deadline :: "ctcp_replies \<Rightarrow> nat option" where
  "ctcp_next_deadline s =
     (case ct_pending s of [] \<Rightarrow> None | p # _ \<Rightarrow> Some (pg_sent p + PING_TIMEOUT))"

definition ping_token :: "64 word \<Rightarrow> 64 word \<Rightarrow> rstring" where
  "ping_token nonce counter =
     hexadecimal8 (unat (ucast nonce :: 32 word)) @ hexadecimal (unat counter)"

definition quoted :: "rstring \<Rightarrow> rstring" where
  "quoted body = [0x01] @ body @ [0x01]"

definition ctcp_request ::
  "rstring \<Rightarrow> rstring \<Rightarrow> rstring \<Rightarrow> nat \<Rightarrow> ctcp_replies \<Rightarrow> handled \<times> ctcp_replies" where
  "ctcp_request nick tag args now s =
     (let tag = ascii_upper tag;
          (expired, s) = ctcp_expire now s;
          refuse = (\<lambda>why. handled_default\<lparr>ha_events := expired @
            [CtcpLine (lit ''CTCP '' @ tag @ lit '' request to '' @ ctcp_plain nick
               @ lit '' not sent: '' @ why)]\<rparr>);
          timed = (tag = lit ''PING'' \<and> args = [])
      in if timed \<and> list_ex (\<lambda>p. cm_same (ct_casemapping s) (pg_nick p) nick) (ct_pending s)
         then (refuse (lit ''still waiting for the previous ping''), s)
         else if timed \<and> MAX_PENDING_PINGS \<le> length (ct_pending s)
         then (refuse (lit ''too many pings are waiting for a reply''), s)
         else
           (let (admission, sent) = budget_admit nick now (ct_sent s);
                s = s\<lparr>ct_sent := sent\<rparr>
            in if admission \<noteq> Admitted
               then (refuse (lit ''too many requests; wait a few seconds''), s)
               else
                 (let counter = (if timed then ct_counter s + 1 else ct_counter s);
                      token = ping_token (ct_nonce s) counter;
                      s = (if timed
                           then s\<lparr>ct_counter := counter,
                                  ct_pending := ct_pending s
                                    @ [\<lparr>pg_nick = nick, pg_token = token, pg_sent = now\<rparr>]\<rparr>
                           else s);
                      body = (if timed then lit ''PING '' @ token
                              else if args = [] then tag else tag @ lit '' '' @ args)
                  in (\<lparr>ha_events = expired @
                         [CtcpLine (lit ''CTCP '' @ tag @ lit '' request sent to '' @ ctcp_plain nick)],
                       ha_send = [PRIVMSG nick (quoted body)]\<rparr>, s))))"

text \<open>The elapsed time is printed as milliseconds with one decimal, here zero.\<close>

definition ctcp_round_trip ::
  "rstring \<Rightarrow> rstring \<Rightarrow> nat \<Rightarrow> ctcp_replies \<Rightarrow> (rstring \<times> ctcp_replies) option" where
  "ctcp_round_trip sender params now s =
     map_option
       (\<lambda>(before, p, after).
          (lit ''CTCP PING reply from '' @ ctcp_plain (pg_nick p) @ lit '' on '' @ ct_network s
             @ lit '': '' @ decimal (now - pg_sent p) @ lit ''.0 ms'',
           s\<lparr>ct_pending := before @ after\<rparr>))
       (List.extract
          (\<lambda>p. pg_token p = params \<and> cm_same (ct_casemapping s) (pg_nick p) sender
               \<and> now - pg_sent p < PING_TIMEOUT)
          (ct_pending s))"

definition client_info :: "ctcp_replies \<Rightarrow> rstring" where
  "client_info s =
     (if ct_avatar s
      then lit ''ACTION AVATAR CLIENTINFO ERRMSG FINGER PING SOURCE TIME USERINFO VERSION''
      else lit ''ACTION CLIENTINFO ERRMSG FINGER PING SOURCE TIME USERINFO VERSION'')"

definition ctcp_answer :: "rstring \<Rightarrow> ctcp_replies \<Rightarrow> rstring \<Rightarrow> rstring \<Rightarrow> rstring option" where
  "ctcp_answer local_time s tag params =
     (let known = ascii_upper tag
      in if known = lit ''PING''
         then (if params = [] then Some (lit ''PING'')
               else if echoable params then Some (lit ''PING '' @ params) else None)
         else if known = lit ''VERSION'' then Some (lit ''VERSION '' @ VERSION)
         else if known = lit ''TIME'' then Some (lit ''TIME '' @ local_time)
         else if known = lit ''CLIENTINFO'' then Some (lit ''CLIENTINFO '' @ client_info s)
         else if known = lit ''USERINFO'' then Some (lit ''USERINFO CayenChat user'')
         else if known = lit ''FINGER'' then Some (lit ''FINGER CayenChat user'')
         else if known = lit ''SOURCE'' then Some (lit ''SOURCE '' @ SOURCE)
         else if known = lit ''ERRMSG''
         then (if \<not> echoable params then None
               else if params = [] then Some (lit ''ERRMSG ERRMSG :No error'')
               else Some (lit ''ERRMSG '' @ params @ lit '' :No error''))
         else if known = lit ''DCC'' \<or> known = lit ''AVATAR'' then None
         else if is_plain_tag tag then Some (lit ''ERRMSG '' @ known @ lit '' :Unknown query'')
         else None)"

definition ctcp_sender :: "message \<Rightarrow> rstring \<times> bool" where
  "ctcp_sender m =
     (case m_prefix m of
        Some (Nickname nick _ _) \<Rightarrow> (nick, True)
      | Some (ServerName name) \<Rightarrow> (name, False)
      | None \<Rightarrow> (lit ''server'', False))"

text \<open>The end of \<open>observe\<close>: a query or an answer to us, paced and shown.\<close>

definition ctcp_paced ::
  "rstring \<Rightarrow> bool \<Rightarrow> rstring \<Rightarrow> bool \<Rightarrow> rstring \<Rightarrow> bool \<Rightarrow> rstring \<Rightarrow> rstring \<Rightarrow> nat \<Rightarrow> ctcp_replies
   \<Rightarrow> handled \<times> ctcp_replies" where
  "ctcp_paced local_time request sender user target to_channel tag params now s =
     (let shown_sender = ctcp_plain sender;
          to = (if to_channel then lit '' to '' @ ctcp_plain target else []);
          (admission, budget) = budget_admit sender now (if request then ct_requests s else ct_replies s);
          s = (if request then s\<lparr>ct_requests := budget\<rparr> else s\<lparr>ct_replies := budget\<rparr>)
      in case admission of
           Muted \<Rightarrow> (handled_default, s)
         | Refused \<Rightarrow>
             (handled_default\<lparr>ha_events :=
                [CtcpLine ((if request then lit ''Too many CTCP requests; ignoring them for now (latest ''
                            else lit ''Too many CTCP replies; hiding them for now (latest '')
                   @ shown_tag tag @ lit '' from '' @ shown_sender @ lit '').'')]\<rparr>, s)
         | Admitted \<Rightarrow>
             (if \<not> request
              then (let params = shown_params params;
                        params = (if params = [] then [] else lit '': '' @ params)
                    in (handled_default\<lparr>ha_events :=
                          [CtcpLine (shown_tag tag @ lit '' reply from '' @ shown_sender @ to @ params)]\<rparr>, s))
              else
                (let answer = (if user \<and> \<not> to_channel \<and> valid_nickname sender
                               then ctcp_answer local_time s tag params else None);
                     line = shown_tag tag @ lit '' request from '' @ shown_sender @ to
                 in case answer of
                      Some answer \<Rightarrow>
                        (\<lparr>ha_events = [CtcpLine line], ha_send = [NOTICE sender (quoted answer)]\<rparr>, s)
                    | None \<Rightarrow>
                        (handled_default\<lparr>ha_events := [CtcpLine (line @ lit '' (not answered)'')]\<rparr>, s))))"

text \<open>\<open>None\<close>: not a CTCP message, the state unchanged.\<close>

definition ctcp_observe ::
  "rstring \<Rightarrow> message \<Rightarrow> rstring \<Rightarrow> bool \<Rightarrow> nat \<Rightarrow> ctcp_replies \<Rightarrow> (handled \<times> ctcp_replies) option" where
  "ctcp_observe local_time m current_nick replayed now s =
     (case (case m_command m of
              PRIVMSG target text \<Rightarrow> Some (target, text, True)
            | NOTICE target text \<Rightarrow> Some (target, text, False)
            | _ \<Rightarrow> None) of
        None \<Rightarrow> None
      | Some (target, text, request) \<Rightarrow>
          (case ctcp_split text of
             None \<Rightarrow> None
           | Some (tag, params) \<Rightarrow>
               (if eq_ignore_ascii_case tag (lit ''ACTION'') then None
                else Some
                  (let (sender, user) = ctcp_sender m;
                       to_channel = valid_channel (trim_start_matches (lit ''~@%+'') target)
                   in if replayed \<or> user \<and> cm_same (ct_casemapping s) sender current_nick
                      then (handled_default, s)
                      else if \<not> to_channel \<and> \<not> cm_same (ct_casemapping s) target current_nick
                      then (handled_default, s)
                      else
                        (case (if \<not> request \<and> user \<and> \<not> to_channel
                                  \<and> eq_ignore_ascii_case tag (lit ''PING'')
                               then ctcp_round_trip sender params now s else None) of
                           Some (line, s) \<Rightarrow> (handled_default\<lparr>ha_events := [CtcpLine line]\<rparr>, s)
                         | None \<Rightarrow>
                             ctcp_paced local_time request sender user target to_channel tag params
                               now s)))))"

section \<open>The machine\<close>

datatype ctcp_op =
    CtRequest rstring rstring rstring
  | CtTick
  | CtObserve rstring message rstring bool
  | CtCasemapping case_mapping

text \<open>One call at an instant: what it reports and sends, and the state after it.\<close>

fun ctcp_call :: "nat \<times> ctcp_op \<Rightarrow> ctcp_replies \<Rightarrow> handled \<times> ctcp_replies" where
  "ctcp_call (now, CtRequest nick tag args) s = ctcp_request nick tag args now s"
| "ctcp_call (now, CtTick) s = ctcp_tick now s"
| "ctcp_call (now, CtObserve local_time m current_nick replayed) s =
     (case ctcp_observe local_time m current_nick replayed now s of
        None \<Rightarrow> (handled_default, s) | Some result \<Rightarrow> result)"
| "ctcp_call (now, CtCasemapping m) s = (handled_default, ctcp_set_casemapping m s)"

definition ctcp_step :: "nat \<times> ctcp_op \<Rightarrow> ctcp_replies \<Rightarrow> ctcp_replies" where
  "ctcp_step op s = snd (ctcp_call op s)"

text \<open>The commands of a run, each with the instant it was sent.\<close>

fun ctcp_trace :: "(nat \<times> ctcp_op) list \<Rightarrow> ctcp_replies \<Rightarrow> (nat \<times> command) list" where
  "ctcp_trace [] s = []"
| "ctcp_trace (op # ops) s =
     map (Pair (fst op)) (ha_send (fst (ctcp_call op s))) @ ctcp_trace ops (ctcp_step op s)"

text \<open>The answers among them, and the requests, each with the key of the other user.\<close>

fun answer_to :: "nat \<times> command \<Rightarrow> (rstring \<times> nat) option" where
  "answer_to (t, NOTICE nick _) = Some (nickname_key nick, t)"
| "answer_to _ = None"

fun request_to :: "nat \<times> command \<Rightarrow> (rstring \<times> nat) option" where
  "request_to (t, PRIVMSG nick _) = Some (nickname_key nick, t)"
| "request_to _ = None"

definition answers :: "(nat \<times> command) list \<Rightarrow> (rstring \<times> nat) list" where
  "answers trace = List.map_filter answer_to trace"

definition requests :: "(nat \<times> command) list \<Rightarrow> (rstring \<times> nat) list" where
  "requests trace = List.map_filter request_to trace"

section \<open>Lemmas on pacing\<close>

lemma answers_append [simp]: "answers (a @ b) = answers a @ answers b"
  by (simp add: answers_def map_filter_def)

lemma requests_append [simp]: "requests (a @ b) = requests a @ requests b"
  by (simp add: requests_def map_filter_def)

lemma no_sends [simp]: "answers [] = []" "requests [] = []"
  by (simp_all add: answers_def requests_def map_filter_def)

lemma one_send [simp]:
  "answers [(t, NOTICE nick text)] = [(nickname_key nick, t)]"
  "requests [(t, PRIVMSG nick text)] = [(nickname_key nick, t)]"
  "answers [(t, PRIVMSG nick text)] = []"
  "requests [(t, NOTICE nick text)] = []"
  by (simp_all add: answers_def requests_def map_filter_def)

text \<open>What was sent so far is part of the logs the two budgets track.\<close>

definition ctcp_paced_inv :: "ctcp_replies \<Rightarrow> (nat \<times> command) list \<Rightarrow> nat \<Rightarrow> bool" where
  "ctcp_paced_inv s trace now \<longleftrightarrow>
     (\<exists>log. ctcp_budget.paces (ct_requests s) log now \<and> subseq (answers trace) log)
     \<and> (\<exists>log. ctcp_budget.paces (ct_sent s) log now \<and> subseq (requests trace) log)"

lemma ctcp_paced_inv_later:
  "ctcp_paced_inv s trace t \<Longrightarrow> t \<le> now \<Longrightarrow> ct_requests s' = ct_requests s \<Longrightarrow> ct_sent s' = ct_sent s
   \<Longrightarrow> ctcp_paced_inv s' trace now"
  by (auto simp: ctcp_paced_inv_def intro: ctcp_budget.paces_later)

lemma expire_budgets [simp]:
  "ct_requests (snd (ctcp_expire now s)) = ct_requests s"
  "ct_replies (snd (ctcp_expire now s)) = ct_replies s"
  "ct_sent (snd (ctcp_expire now s)) = ct_sent s"
  by (simp_all add: ctcp_expire_def)

text \<open>A budget that turns an event away keeps its log; one that admits it appends it.\<close>

lemma paces_call:
  assumes "ctcp_budget.paces b log t" and "t \<le> now"
  obtains log' where "ctcp_budget.paces (snd (budget_admit u now b)) log' now"
    and "log' = (if fst (budget_admit u now b) = Admitted then log @ [(nickname_key u, now)] else log)"
proof (cases "fst (budget_admit u now b) = Admitted")
  case True
  with assms that ctcp_budget.paces_admitted [of b log t now u "snd (budget_admit u now b)"] show thesis
    by (metis prod.collapse)
next
  case False
  with assms that ctcp_budget.paces_turned_away [of b log t now u "fst (budget_admit u now b)"
      "snd (budget_admit u now b)"] show thesis
    by (metis prod.collapse)
qed

lemma request_effect:
  assumes "ctcp_request nick tag args now s = (h, s')"
  shows "ct_requests s' = ct_requests s
    \<and> (ct_sent s' = ct_sent s \<and> ha_send h = []
       \<or> ct_sent s' = snd (budget_admit nick now (ct_sent s))
         \<and> (if fst (budget_admit nick now (ct_sent s)) = Admitted
             then \<exists>text. ha_send h = [PRIVMSG nick text] else ha_send h = []))"
proof -
  obtain expired s1 where e: "ctcp_expire now s = (expired, s1)" by fastforce
  obtain a b where b: "budget_admit nick now (ct_sent s) = (a, b)" by fastforce
  have s1: "ct_requests s1 = ct_requests s" "ct_sent s1 = ct_sent s"
    using e expire_budgets [of now s] by simp_all
  show ?thesis
    using assms s1 b
    by (auto simp: ctcp_request_def Let_def e handled_default_def split: if_splits prod.splits)
qed

lemma round_trip_effect:
  "ctcp_round_trip sender params now s = Some (line, s') \<Longrightarrow> \<exists>ps. s' = s\<lparr>ct_pending := ps\<rparr>"
  by (auto simp: ctcp_round_trip_def)

lemma client_info_same: "client_info (s\<lparr>ct_requests := b\<rparr>) = client_info s"
  by (simp add: client_info_def)

lemma paced_effect:
  assumes "ctcp_paced local_time request sender user target to_channel tag params now s = (h, s')"
  shows "ct_sent s' = ct_sent s \<and> ct_pending s' = ct_pending s
    \<and> (if request
       then ct_requests s' = snd (budget_admit sender now (ct_requests s)) \<and> ct_replies s' = ct_replies s
         \<and> (ha_send h = []
            \<or> fst (budget_admit sender now (ct_requests s)) = Admitted \<and> user \<and> \<not> to_channel
              \<and> valid_nickname sender
              \<and> (\<exists>answer. ctcp_answer local_time s tag params = Some answer
                   \<and> ha_send h = [NOTICE sender (quoted answer)]))
       else ct_requests s' = ct_requests s \<and> ct_replies s' = snd (budget_admit sender now (ct_replies s))
         \<and> ha_send h = [])"
proof (cases request)
  case True
  obtain a b where b: "budget_admit sender now (ct_requests s) = (a, b)" by fastforce
  have answer: "ctcp_answer local_time (s\<lparr>ct_requests := b\<rparr>) tag params = ctcp_answer local_time s tag params"
    by (simp only: ctcp_answer_def client_info_same)
  show ?thesis
    using assms True
    by (auto simp: ctcp_paced_def Let_def b answer handled_default_def
        split: admission.splits if_splits option.splits)
next
  case False
  obtain a b where b: "budget_admit sender now (ct_replies s) = (a, b)" by fastforce
  show ?thesis
    using assms False
    by (auto simp: ctcp_paced_def Let_def b handled_default_def
        split: admission.splits if_splits option.splits)
qed

text \<open>What \<open>observe\<close> does, case by case: nothing to us, one of our pings answered, or paced.\<close>

lemma observe_cases [consumes 1, case_names ignored measured paced]:
  assumes "ctcp_observe local_time m current_nick replayed now s = Some (h, s')"
  obtains "h = handled_default" "s' = s"
  | target said tag params sender user host line where
      "m_command m = NOTICE target said" "ctcp_split said = Some (tag, params)"
      "m_prefix m = Some (Nickname sender user host)" "\<not> replayed"
      "cm_same (ct_casemapping s) target current_nick" "eq_ignore_ascii_case tag (lit ''PING'')"
      "ctcp_round_trip sender params now s = Some (line, s')"
      "h = handled_default\<lparr>ha_events := [CtcpLine line]\<rparr>"
  | target said tag params request sender user to_channel where
      "m_command m = (if request then PRIVMSG target said else NOTICE target said)"
      "ctcp_split said = Some (tag, params)" "ctcp_sender m = (sender, user)" "\<not> replayed"
      "\<not> (user \<and> cm_same (ct_casemapping s) sender current_nick)"
      "to_channel \<or> cm_same (ct_casemapping s) target current_nick"
      "ctcp_paced local_time request sender user target to_channel tag params now s = (h, s')"
proof -
  obtain target said request where c:
      "m_command m = (if request then PRIVMSG target said else NOTICE target said)"
    using assms that [of True] that [of False] unfolding ctcp_observe_def
    by (cases "m_command m") simp_all
  obtain tag params where t: "ctcp_split said = Some (tag, params)" "\<not> eq_ignore_ascii_case tag (lit ''ACTION'')"
    using assms c unfolding ctcp_observe_def by (cases request) (auto split: option.splits if_splits)
  obtain sender user where u: "ctcp_sender m = (sender, user)" by fastforce
  define to_channel where "to_channel = valid_channel (trim_start_matches (lit ''~@%+'') target)"
  let ?ping = "if \<not> request \<and> user \<and> \<not> to_channel \<and> eq_ignore_ascii_case tag (lit ''PING'')
    then ctcp_round_trip sender params now s else None"
  have r: "(if replayed \<or> user \<and> cm_same (ct_casemapping s) sender current_nick then (handled_default, s)
      else if \<not> to_channel \<and> \<not> cm_same (ct_casemapping s) target current_nick then (handled_default, s)
      else (case ?ping of
              Some (line, s) \<Rightarrow> (handled_default\<lparr>ha_events := [CtcpLine line]\<rparr>, s)
            | None \<Rightarrow> ctcp_paced local_time request sender user target to_channel tag params now s)) = (h, s')"
    using assms c t u by (cases request) (simp_all add: ctcp_observe_def to_channel_def Let_def cong: if_cong option.case_cong)
  show thesis
  proof (cases "(replayed \<or> user \<and> cm_same (ct_casemapping s) sender current_nick)
      \<or> (\<not> to_channel \<and> \<not> cm_same (ct_casemapping s) target current_nick)")
    case True
    with r that(1) show thesis by (auto split: if_splits)
  next
    case open_case: False
    show thesis
    proof (cases ?ping)
      case None
      with r open_case
      have "ctcp_paced local_time request sender user target to_channel tag params now s = (h, s')"
        by (simp split: if_split_asm)
      with open_case show thesis
        by (intro that(3) [OF c t(1) u]) auto
    next
      case (Some res)
      then obtain line s1 where l: "?ping = Some (line, s1)" by (cases res) auto
      then have rt: "\<not> request" user "\<not> to_channel" "ctcp_round_trip sender params now s = Some (line, s1)"
          "eq_ignore_ascii_case tag (lit ''PING'')"
        by (auto split: if_splits)
      obtain us hs where "m_prefix m = Some (Nickname sender us hs)"
        using u rt(2) by (auto simp: ctcp_sender_def split: option.splits prefix.splits)
      moreover have "h = handled_default\<lparr>ha_events := [CtcpLine line]\<rparr>" "s1 = s'"
        using r l open_case by (simp_all split: if_split_asm)
      ultimately show thesis
        using c t(1) rt open_case by (intro that(2) [of target said tag params sender us hs line]) auto
    qed
  qed
qed

definition sends :: "nat \<Rightarrow> handled \<Rightarrow> (nat \<times> command) list" where
  "sends now h = map (Pair now) (ha_send h)"

lemma sends_simps [simp]:
  "sends now (handled_default\<lparr>ha_events := es\<rparr>) = []"
  "sends now handled_default = []"
  "ha_send (handled_default\<lparr>ha_events := es\<rparr>) = []"
  "ha_send handled_default = []"
  by (simp_all add: sends_def handled_default_def)

lemma request_keeps_paced:
  assumes "ctcp_request nick tag args now s = (h, s')" "ctcp_paced_inv s trace t" "t \<le> now"
  shows "ctcp_paced_inv s' (trace @ sends now h) now"
proof -
  note e = request_effect [OF assms(1)]
  obtain la lb where l: "ctcp_budget.paces (ct_requests s) la t" "subseq (answers trace) la"
      "ctcp_budget.paces (ct_sent s) lb t" "subseq (requests trace) lb"
    using assms(2) by (auto simp: ctcp_paced_inv_def)
  have "answers (sends now h) = []"
    using e by (auto simp: sends_def split: if_splits)
  then have la: "ctcp_budget.paces (ct_requests s') la now \<and> subseq (answers (trace @ sends now h)) la"
    using l(1,2) e assms(3) by (auto intro: ctcp_budget.paces_later)
  have "\<exists>log. ctcp_budget.paces (ct_sent s') log now \<and> subseq (requests (trace @ sends now h)) log"
  proof (cases "ct_sent s' = ct_sent s \<and> ha_send h = []")
    case True
    then show ?thesis
      using l(3,4) assms(3) by (auto simp: sends_def intro: ctcp_budget.paces_later)
  next
    case False
    obtain log' where log': "ctcp_budget.paces (snd (budget_admit nick now (ct_sent s))) log' now"
        "log' = (if fst (budget_admit nick now (ct_sent s)) = Admitted
                 then lb @ [(nickname_key nick, now)] else lb)"
      by (rule paces_call [OF l(3) assms(3)])
    moreover have "subseq (requests (trace @ sends now h)) log'"
      using False e l(4) log'(2) by (auto simp: sends_def list_emb_append_mono split: if_splits)
    ultimately show ?thesis
      using False e by auto
  qed
  with la show ?thesis
    by (auto simp: ctcp_paced_inv_def)
qed

lemma observe_keeps_paced:
  assumes "ctcp_observe local_time m current_nick replayed now s = Some (h, s')"
    and "ctcp_paced_inv s trace t" "t \<le> now"
  shows "ctcp_paced_inv s' (trace @ sends now h) now"
  using assms(1)
proof (cases rule: observe_cases)
  case ignored
  with assms(2,3) show ?thesis by (auto intro: ctcp_paced_inv_later)
next
  case (measured target said tag params sender user host line)
  with assms(2,3) show ?thesis
    by (auto dest!: round_trip_effect intro: ctcp_paced_inv_later)
next
  case (paced target said tag params request sender user to_channel)
  note e = paced_effect [OF paced(7)]
  obtain la lb where l: "ctcp_budget.paces (ct_requests s) la t" "subseq (answers trace) la"
      "ctcp_budget.paces (ct_sent s) lb t" "subseq (requests trace) lb"
    using assms(2) by (auto simp: ctcp_paced_inv_def)
  have "requests (sends now h) = []"
    using e by (auto simp: sends_def split: if_splits)
  then have lb: "ctcp_budget.paces (ct_sent s') lb now \<and> subseq (requests (trace @ sends now h)) lb"
    using l(3,4) e assms(3) by (auto intro: ctcp_budget.paces_later)
  have "\<exists>log. ctcp_budget.paces (ct_requests s') log now \<and> subseq (answers (trace @ sends now h)) log"
  proof (cases request)
    case False
    then show ?thesis
      using l(1,2) e assms(3) by (auto simp: sends_def intro: ctcp_budget.paces_later)
  next
    case True
    obtain log' where log': "ctcp_budget.paces (snd (budget_admit sender now (ct_requests s))) log' now"
        "log' = (if fst (budget_admit sender now (ct_requests s)) = Admitted
                 then la @ [(nickname_key sender, now)] else la)"
      by (rule paces_call [OF l(1) assms(3)])
    moreover have "subseq (answers (trace @ sends now h)) log'"
      using True e l(2) log'(2)
      by (auto simp: sends_def list_emb_append_mono split: if_splits intro: subseq_order.trans)
    ultimately show ?thesis
      using True e by auto
  qed
  with lb show ?thesis
    by (auto simp: ctcp_paced_inv_def)
qed

lemma ctcp_call_keeps_paced:
  assumes "ctcp_paced_inv s trace t" "t \<le> fst op"
  shows "ctcp_paced_inv (ctcp_step op s) (trace @ sends (fst op) (fst (ctcp_call op s))) (fst op)"
proof -
  obtain now o' where op: "op = (now, o')" by fastforce
  show ?thesis
  proof (cases o')
    case (CtRequest nick tag args)
    with op assms show ?thesis
      by (auto simp: ctcp_step_def
          intro: request_keeps_paced [where h = "fst (ctcp_request nick tag args now s)"])
  next
    case CtTick
    with op assms show ?thesis
      by (auto simp: ctcp_step_def ctcp_tick_def ctcp_expire_def intro: ctcp_paced_inv_later)
  next
    case (CtObserve local_time m nick replayed)
    show ?thesis
    proof (cases "ctcp_observe local_time m nick replayed now s")
      case None
      with op CtObserve assms show ?thesis
        by (auto simp: ctcp_step_def intro: ctcp_paced_inv_later)
    next
      case (Some r)
      with op CtObserve assms observe_keeps_paced [of local_time m nick replayed now s "fst r" "snd r" trace t]
      show ?thesis by (simp add: ctcp_step_def)
    qed
  next
    case (CtCasemapping m)
    with op assms show ?thesis
      by (auto simp: ctcp_step_def ctcp_set_casemapping_def intro: ctcp_paced_inv_later)
  qed
qed

lemma ctcp_trace_paced:
  assumes "ctcp_paced_inv s trace t" "sorted (t # map fst ops)"
  shows "\<exists>t'. ctcp_paced_inv (fold ctcp_step ops s) (trace @ ctcp_trace ops s) t'"
  using assms
proof (induction ops arbitrary: s trace t)
  case (Cons op ops)
  let ?h = "sends (fst op) (fst (ctcp_call op s))"
  have "\<exists>t'. ctcp_paced_inv (fold ctcp_step ops (ctcp_step op s))
      ((trace @ ?h) @ ctcp_trace ops (ctcp_step op s)) t'"
    using Cons.prems ctcp_call_keeps_paced [of s trace t op]
    by (intro Cons.IH [where t = "fst op"]) auto
  then show ?case by (simp add: sends_def)
qed auto

lemma ctcp_paced_inv_new: "ctcp_paced_inv (ctcp_new nonce avatar network) [] 0"
  using ctcp_budget.paces_empty by (auto simp: ctcp_paced_inv_def ctcp_new_def)

lemma subseq_in_window: "subseq xs ys \<Longrightarrow> length (in_window w a xs) \<le> length (in_window w a ys)"
  unfolding in_window_def by (rule list_emb_length [OF subseq_filter])

lemma subseq_window:
  assumes "subseq xs (log :: ('k \<times> nat) list)"
  shows "length (in_window w a (map snd xs)) \<le> length (in_window w a (map snd log))"
    and "length (in_window w a (times_of xs k)) \<le> length (in_window w a (times_of log k))"
  using assms unfolding times_of_def by (auto intro!: subseq_in_window subseq_map subseq_filter)

section \<open>Lemmas on answers\<close>

text \<open>Text that cannot end a CTCP message or a line.\<close>

definition control_free :: "rstring \<Rightarrow> bool" where
  "control_free s \<longleftrightarrow> list_all (\<lambda>c. \<not> is_control c) s"

lemma control_free_append [simp]: "control_free (s @ t) \<longleftrightarrow> control_free s \<and> control_free t"
  by (simp add: control_free_def)

lemma answer_constants:
  "control_free (lit ''PING'') \<and> blen (lit ''PING'') = 4"
  "control_free (lit ''PING '') \<and> blen (lit ''PING '') = 5"
  "control_free (lit ''VERSION '') \<and> blen (lit ''VERSION '') = 8"
  "control_free VERSION \<and> blen VERSION = 15"
  "control_free (lit ''TIME '') \<and> blen (lit ''TIME '') = 5"
  "control_free (lit ''CLIENTINFO '') \<and> blen (lit ''CLIENTINFO '') = 11"
  "control_free (lit ''USERINFO CayenChat user'') \<and> blen (lit ''USERINFO CayenChat user'') = 23"
  "control_free (lit ''FINGER CayenChat user'') \<and> blen (lit ''FINGER CayenChat user'') = 21"
  "control_free (lit ''SOURCE '') \<and> blen (lit ''SOURCE '') = 7"
  "control_free SOURCE \<and> blen SOURCE = 36"
  "control_free (lit ''ERRMSG ERRMSG :No error'') \<and> blen (lit ''ERRMSG ERRMSG :No error'') = 23"
  "control_free (lit ''ERRMSG '') \<and> blen (lit ''ERRMSG '') = 7"
  "control_free (lit '' :No error'') \<and> blen (lit '' :No error'') = 10"
  "control_free (lit '' :Unknown query'') \<and> blen (lit '' :Unknown query'') = 15"
  by code_simp+

lemma client_info_ok: "control_free (client_info s) \<and> blen (client_info s) \<le> 73"
proof -
  have "control_free (lit ''ACTION AVATAR CLIENTINFO ERRMSG FINGER PING SOURCE TIME USERINFO VERSION'')
      \<and> blen (lit ''ACTION AVATAR CLIENTINFO ERRMSG FINGER PING SOURCE TIME USERINFO VERSION'') \<le> 73"
    and "control_free (lit ''ACTION CLIENTINFO ERRMSG FINGER PING SOURCE TIME USERINFO VERSION'')
      \<and> blen (lit ''ACTION CLIENTINFO ERRMSG FINGER PING SOURCE TIME USERINFO VERSION'') \<le> 73"
    by code_simp+
  then show ?thesis by (simp add: client_info_def)
qed

lemma plain_tag_upper:
  assumes "is_plain_tag tag"
  shows "control_free (ascii_upper tag) \<and> blen (ascii_upper tag) \<le> MAX_TAG_CHARS"
proof -
  have "\<not> is_control (to_ascii_uppercase c)"
    if "is_ascii_alphabetic c \<or> is_ascii_digit c \<or> c \<in> set (lit ''-_./'')" for c
    using that by (auto simp: lit_def char_class_defs to_ascii_uppercase_def)
  moreover have "utf8_len (to_ascii_uppercase c) = utf8_len c" for c
    by (auto simp: to_ascii_uppercase_def is_ascii_lower_def utf8_len_def)
  ultimately show ?thesis
    using assms by (auto simp: is_plain_tag_def control_free_def ascii_upper_def list_all_iff blen_map)
qed

lemma echoable_ok: "echoable params \<Longrightarrow> control_free params \<and> blen params \<le> MAX_PING_BYTES"
  by (auto simp: echoable_def control_free_def list_ex_iff list_all_iff)

lemma ctcp_answer_ok:
  assumes "ctcp_answer local_time s tag params = Some answer"
    and "control_free local_time" "blen local_time \<le> MAX_PING_BYTES"
  shows "control_free answer \<and> blen answer \<le> 145"
proof (cases "ascii_upper tag = lit ''PING''")
  case True
  with assms echoable_ok [of params] show ?thesis
    by (auto simp: ctcp_answer_def Let_def True answer_constants MAX_PING_BYTES_def split: if_splits)
next
  case False
  with assms echoable_ok [of params] plain_tag_upper [of tag] client_info_ok [of s] show ?thesis
    by (auto simp: ctcp_answer_def Let_def answer_constants MAX_PING_BYTES_def MAX_TAG_CHARS_def
        split: if_splits)
qed

section \<open>Lemmas on pings\<close>

lemma hex_digit_inj: "a < 16 \<Longrightarrow> b < 16 \<Longrightarrow> hex_digit a = hex_digit b \<Longrightarrow> a = b"
  by (auto simp: hex_digit_def split: if_splits)

lemma hexadecimal_neq_Nil [simp]: "hexadecimal n \<noteq> []"
  by (subst hexadecimal.simps) simp

lemma hexadecimal_inj: "hexadecimal a = hexadecimal b \<Longrightarrow> a = b"
proof (induction a arbitrary: b rule: hexadecimal.induct)
  case (1 a)
  have unfold: "hexadecimal n = (if n < 16 then [] else hexadecimal (n div 16)) @ [hex_digit (n mod 16)]" for n
    by (subst hexadecimal.simps) simp
  have last: "a mod 16 = b mod 16"
    using 1(2) hex_digit_inj [of "a mod 16" "b mod 16"] by (simp add: unfold [of a] unfold [of b])
  have tails: "(if a < 16 then [] else hexadecimal (a div 16)) = (if b < 16 then [] else hexadecimal (b div 16))"
    using 1(2) by (simp add: unfold [of a] unfold [of b])
  then have "a < 16 \<longleftrightarrow> b < 16"
    using hexadecimal_neq_Nil by metis
  with tails 1(1) [of "b div 16"] have "a div 16 = b div 16"
    by (cases "a < 16") simp_all
  with last show ?case by (metis div_mult_mod_eq)
qed

lemma ping_token_inj: "ping_token nonce a = ping_token nonce b \<longleftrightarrow> a = b"
  by (auto simp: ping_token_def word_unat_eq_iff dest: hexadecimal_inj)

text \<open>At most eight pings wait, oldest first, under different tokens handed out before; the budgets
  are within their limits.\<close>

definition ctcp_inv :: "nat \<times> ctcp_replies \<Rightarrow> bool" where
  "ctcp_inv ts =
     (let (now, s) = ts
      in length (ct_pending s) \<le> MAX_PENDING_PINGS \<and> sorted (map pg_sent (ct_pending s))
         \<and> list_all (\<lambda>p. pg_sent p \<le> now \<and> (\<exists>k \<le> ct_counter s. pg_token p = ping_token (ct_nonce s) k))
             (ct_pending s)
         \<and> distinct (map pg_token (ct_pending s))
         \<and> budget_ok now (ct_requests s) \<and> budget_ok now (ct_replies s) \<and> budget_ok now (ct_sent s))"

lemma ctcp_inv_later: "ctcp_inv (t, s) \<Longrightarrow> t \<le> now \<Longrightarrow> ctcp_inv (now, s)"
  by (auto simp: ctcp_inv_def list_all_iff intro: budget_ok_later order_trans)

lemma subseq_keeps:
  assumes "subseq xs ys"
  shows "set xs \<subseteq> set ys" "distinct ys \<Longrightarrow> distinct xs" "sorted_wrt R ys \<Longrightarrow> sorted_wrt R xs"
proof -
  show sub: "set xs \<subseteq> set ys"
    using assms by induction auto
  show "distinct ys \<Longrightarrow> distinct xs"
    using assms by induction (auto dest: list_emb_set)
  show "sorted_wrt R ys \<Longrightarrow> sorted_wrt R xs"
    using assms by induction (auto dest: list_emb_set)
qed

lemma ctcp_inv_pings:
  assumes "ctcp_inv (now, s)" "subseq ps (ct_pending s)"
  shows "ctcp_inv (now, s\<lparr>ct_pending := ps\<rparr>)"
proof -
  have "length ps \<le> length (ct_pending s)"
    using assms(2) by (rule list_emb_length)
  moreover have "subseq (map pg_token ps) (map pg_token (ct_pending s))"
    and "subseq (map pg_sent ps) (map pg_sent (ct_pending s))"
    using assms(2) by (rule subseq_map)+
  ultimately show ?thesis
    using assms(1) subseq_keeps(1) [OF assms(2)]
    by (auto simp: ctcp_inv_def list_all_iff dest: subseq_keeps)
qed

lemma subseq_dropWhile: "subseq (dropWhile P xs) xs"
  by (metis suffix_dropWhile suffix_imp_subseq)

lemma ctcp_inv_expire: "ctcp_inv (now, s) \<Longrightarrow> ctcp_inv (now, snd (ctcp_expire now s))"
  unfolding ctcp_expire_def snd_conv by (intro ctcp_inv_pings subseq_dropWhile)

lemma extract_Some_subseq: "List.extract P xs = Some (ys, x, zs) \<Longrightarrow> subseq (ys @ zs) xs"
  by (auto simp: extract_Some_iff intro: list_emb_append_mono)

lemma ctcp_inv_round_trip:
  "ctcp_inv (now, s) \<Longrightarrow> ctcp_round_trip sender params now s = Some (line, s') \<Longrightarrow> ctcp_inv (now, s')"
  by (auto simp: ctcp_round_trip_def dest!: extract_Some_subseq intro: ctcp_inv_pings)

lemma ctcp_inv_paced:
  assumes "ctcp_inv (now, s)"
    and "ctcp_paced local_time request sender user target to_channel tag params now s = (h, s')"
  shows "ctcp_inv (now, s')"
proof -
  have "s' = (if request then s\<lparr>ct_requests := snd (budget_admit sender now (ct_requests s))\<rparr>
              else s\<lparr>ct_replies := snd (budget_admit sender now (ct_replies s))\<rparr>)"
    using assms(2)
    by (auto simp: ctcp_paced_def Let_def split: admission.splits option.splits prod.splits if_splits)
  with assms(1) show ?thesis
    by (auto simp: ctcp_inv_def budget_ok_admit)
qed

lemma ctcp_inv_observe:
  assumes "ctcp_inv (now, s)" "ctcp_observe local_time m current_nick replayed now s = Some (h, s')"
  shows "ctcp_inv (now, s')"
  using assms(2)
proof (cases rule: observe_cases)
  case (measured target said tag params sender user host line)
  with assms(1) show ?thesis by (auto intro: ctcp_inv_round_trip)
next
  case (paced target said tag params request sender user to_channel)
  with assms(1) show ?thesis by (blast intro: ctcp_inv_paced)
qed (use assms(1) in simp)

lemma ctcp_inv_track:
  assumes "ctcp_inv (now, s)" "length (ct_pending s) < MAX_PENDING_PINGS" "ct_counter s + 1 \<noteq> 0"
  shows "ctcp_inv (now, s\<lparr>ct_counter := ct_counter s + 1, ct_pending := ct_pending s @
    [\<lparr>pg_nick = nick, pg_token = ping_token (ct_nonce s) (ct_counter s + 1), pg_sent = now\<rparr>]\<rparr>)"
proof -
  have less: "ct_counter s < ct_counter s + 1"
    using assms(3) unatSuc [of "ct_counter s"] by (simp add: word_less_nat_alt add.commute)
  show ?thesis
    using assms(1,2) less
    by (auto simp: ctcp_inv_def list_all_iff sorted_append ping_token_inj intro: less_imp_le order_trans)
qed

lemma ctcp_inv_request:
  assumes "ctcp_inv (now, s)" "ctcp_request nick tag args now s = (h, s')" "ct_counter s + 1 \<noteq> 0"
  shows "ctcp_inv (now, s')"
proof -
  obtain expired s1 where e: "ctcp_expire now s = (expired, s1)" by fastforce
  obtain a b where b: "budget_admit nick now (ct_sent s1) = (a, b)" by fastforce
  have s1: "ctcp_inv (now, s1)" "ct_counter s1 + 1 \<noteq> 0"
    using ctcp_inv_expire [OF assms(1)] e assms(3) by (auto simp: ctcp_expire_def)
  have s2: "ctcp_inv (now, s1\<lparr>ct_sent := b\<rparr>)" "ct_counter (s1\<lparr>ct_sent := b\<rparr>) + 1 \<noteq> 0"
    using s1 budget_ok_admit [of now "ct_sent s1" nick] b by (auto simp: ctcp_inv_def)
  have "s' = s1 \<or> s' = s1\<lparr>ct_sent := b\<rparr>
      \<or> length (ct_pending s1) < MAX_PENDING_PINGS
        \<and> s' = (s1\<lparr>ct_sent := b\<rparr>)\<lparr>ct_counter := ct_counter s1 + 1, ct_pending := ct_pending s1 @
            [\<lparr>pg_nick = nick, pg_token = ping_token (ct_nonce s1) (ct_counter s1 + 1), pg_sent = now\<rparr>]\<rparr>"
    using assms(2) by (auto simp: ctcp_request_def Let_def e b split: if_splits)
  with s1 s2 ctcp_inv_track [OF s2(1) _ s2(2), of nick] show ?thesis
    by auto
qed

text \<open>The clock of a machine never goes back, and the counter of pings has a next value.\<close>

definition ctcp_ok :: "nat \<times> ctcp_replies \<Rightarrow> nat \<times> ctcp_op \<Rightarrow> bool" where
  "ctcp_ok ts op \<longleftrightarrow> fst ts \<le> fst op \<and> ct_counter (snd ts) + 1 \<noteq> 0"

definition ctcp_at :: "nat \<times> ctcp_op \<Rightarrow> nat \<times> ctcp_replies \<Rightarrow> nat \<times> ctcp_replies" where
  "ctcp_at op ts = (fst op, ctcp_step op (snd ts))"

lemma ctcp_inv_call:
  assumes "ctcp_inv (t, s)" "ctcp_ok (t, s) (now, op)"
  shows "ctcp_inv (now, snd (ctcp_call (now, op) s))"
proof -
  have s: "ctcp_inv (now, s)" "ct_counter s + 1 \<noteq> 0"
    using assms by (auto simp: ctcp_ok_def intro: ctcp_inv_later)
  show ?thesis
  proof (cases op)
    case (CtRequest nick tag args)
    then show ?thesis
      using ctcp_inv_request [OF s(1) _ s(2)] by (metis ctcp_call.simps(1) prod.collapse)
  next
    case CtTick
    then show ?thesis
      using ctcp_inv_expire [OF s(1)] by (auto simp: ctcp_tick_def split: prod.splits)
  next
    case (CtObserve local_time m nick replayed)
    then show ?thesis
      using s(1) ctcp_inv_observe [OF s(1), of local_time m nick replayed]
      by (auto split: option.splits)
  next
    case (CtCasemapping m)
    then show ?thesis
      using s(1) by (simp add: ctcp_set_casemapping_def ctcp_inv_def)
  qed
qed

definition ctcp_init :: "nat \<times> ctcp_replies \<Rightarrow> bool" where
  "ctcp_init ts \<longleftrightarrow> (\<exists>nonce avatar network. ts = (0, ctcp_new nonce avatar network))"

interpretation ctcp_machine: bounded_machine ctcp_at ctcp_ok ctcp_init ctcp_inv
  "\<lambda>ts. length (ct_pending (snd ts))" MAX_PENDING_PINGS
proof
  show "ctcp_init ts \<Longrightarrow> ctcp_inv ts" for ts
    by (auto simp: ctcp_init_def ctcp_inv_def ctcp_new_def)
  show "ctcp_inv ts \<Longrightarrow> ctcp_ok ts op \<Longrightarrow> ctcp_inv (ctcp_at op ts)" for ts op
    using ctcp_inv_call [of "fst ts" "snd ts" "fst op" "snd op"] by (simp add: ctcp_at_def ctcp_step_def)
  show "ctcp_inv ts \<Longrightarrow> length (ct_pending (snd ts)) \<le> MAX_PENDING_PINGS" for ts
    by (auto simp: ctcp_inv_def)
qed

text \<open>The line of a measured ping.\<close>

definition measured_line :: "rstring \<Rightarrow> nat \<Rightarrow> ping \<Rightarrow> ctcp_event" where
  "measured_line network now p =
     CtcpLine (lit ''CTCP PING reply from '' @ ctcp_plain (pg_nick p) @ lit '' on '' @ network
       @ lit '': '' @ decimal (now - pg_sent p) @ lit ''.0 ms'')"

text \<open>A message answers a ping: a live notice to us, from the nickname pinged, echoing its token.\<close>

definition answers_ping :: "ctcp_replies \<Rightarrow> ctcp_op \<Rightarrow> ping \<Rightarrow> bool" where
  "answers_ping s op p \<longleftrightarrow>
     (\<exists>local_time m current_nick target said tag sender user host.
        op = CtObserve local_time m current_nick False \<and> m_command m = NOTICE target said
        \<and> cm_same (ct_casemapping s) target current_nick
        \<and> m_prefix m = Some (Nickname sender user host)
        \<and> cm_same (ct_casemapping s) (pg_nick p) sender
        \<and> ctcp_split said = Some (tag, pg_token p) \<and> eq_ignore_ascii_case tag (lit ''PING''))"

lemma not_in_dropWhile: "x \<in> set xs \<Longrightarrow> x \<notin> set (dropWhile P xs) \<Longrightarrow> x \<in> set (takeWhile P xs)"
  by (metis Un_iff set_append takeWhile_dropWhile_id)

lemma expire_settles:
  assumes "ctcp_expire now s = (events, s')" "p \<in> set (ct_pending s)" "p \<notin> set (ct_pending s')"
  shows "ping_expired now p \<and> timeout_line (ct_network s) p \<in> set events"
proof -
  have "p \<in> set (takeWhile (ping_expired now) (ct_pending s))"
    using assms by (auto simp: ctcp_expire_def intro: not_in_dropWhile)
  with assms(1) show ?thesis
    by (auto simp: ctcp_expire_def dest: set_takeWhileD)
qed

lemma request_settles:
  assumes "ctcp_request nick tag args now s = (h, s')"
  shows "set (fst (ctcp_expire now s)) \<subseteq> set (ha_events h)
    \<and> set (ct_pending (snd (ctcp_expire now s))) \<subseteq> set (ct_pending s')"
proof -
  obtain expired s1 where e: "ctcp_expire now s = (expired, s1)" by fastforce
  obtain a b where b: "budget_admit nick now (ct_sent s1) = (a, b)" by fastforce
  show ?thesis
    using assms by (auto simp: ctcp_request_def Let_def e b split: if_splits)
qed

lemma round_trip_settles:
  assumes "ctcp_round_trip sender params now s = Some (line, s')"
    and "p \<in> set (ct_pending s)" "p \<notin> set (ct_pending s')"
  shows "pg_token p = params \<and> cm_same (ct_casemapping s) (pg_nick p) sender
    \<and> now - pg_sent p < PING_TIMEOUT \<and> CtcpLine line = measured_line (ct_network s) now p"
proof -
  obtain before q after where x: "ct_pending s = before @ q # after" "ct_pending s' = before @ after"
      "pg_token q = params \<and> cm_same (ct_casemapping s) (pg_nick q) sender \<and> now - pg_sent q < PING_TIMEOUT"
      "CtcpLine line = measured_line (ct_network s) now q"
    using assms(1) by (auto simp: ctcp_round_trip_def extract_Some_iff measured_line_def)
  with assms(2,3) show ?thesis by auto
qed

lemma extract_unique:
  assumes "p \<in> set ps" "P p" "\<And>q. q \<in> set ps \<Longrightarrow> P q \<Longrightarrow> q = p" "distinct ps"
  shows "\<exists>before after. List.extract P ps = Some (before, p, after) \<and> before @ after = remove1 p ps"
proof -
  have "List.extract P ps \<noteq> None"
    using assms(1,2) by (auto simp: extract_None_iff)
  then obtain before q after where x: "List.extract P ps = Some (before, q, after)" by auto
  then have parts: "ps = before @ q # after" "P q"
    by (auto simp: extract_Some_iff)
  moreover have "q = p"
    using parts assms(3) by simp
  ultimately show ?thesis
    using x assms(4) by (auto simp: remove1_append)
qed

lemma round_trip_measures:
  assumes "ctcp_inv (t, s)" "p \<in> set (ct_pending s)"
    and "cm_same (ct_casemapping s) (pg_nick p) sender" "\<not> ping_expired now p"
  shows "\<exists>line. ctcp_round_trip sender (pg_token p) now s
      = Some (line, s\<lparr>ct_pending := remove1 p (ct_pending s)\<rparr>)
    \<and> CtcpLine line = measured_line (ct_network s) now p"
proof -
  let ?P = "\<lambda>q. pg_token q = pg_token p \<and> cm_same (ct_casemapping s) (pg_nick q) sender
    \<and> now - pg_sent q < PING_TIMEOUT"
  have tokens: "distinct (map pg_token (ct_pending s))"
    using assms(1) by (simp add: ctcp_inv_def)
  have "?P p"
    using assms(3,4) by (simp add: ping_expired_def)
  moreover have "q = p" if "q \<in> set (ct_pending s)" "?P q" for q
    using that tokens assms(2) by (auto simp: distinct_map dest: inj_onD)
  ultimately obtain before after where
      "List.extract ?P (ct_pending s) = Some (before, p, after)" "before @ after = remove1 p (ct_pending s)"
    using extract_unique [OF assms(2), of ?P] tokens by (auto simp: distinct_map)
  then show ?thesis
    by (simp add: ctcp_round_trip_def measured_line_def)
qed

section \<open>Properties\<close>

text \<open>A connection on which five strangers and friends have asked for the version.\<close>

definition sample_query :: "string \<Rightarrow> message" where
  "sample_query nick =
     \<lparr>m_tags = None, m_prefix = Some (Nickname (lit nick) (lit ''u'') (lit ''h'')),
      m_command = PRIVMSG (lit ''me'') (quoted (lit ''VERSION''))\<rparr>"

definition sample_queries :: "(nat \<times> ctcp_op) list" where
  "sample_queries =
     [(10, CtObserve (lit ''noon'') (sample_query ''bob'') (lit ''me'') False),
      (11, CtObserve (lit ''noon'') (sample_query ''Bob'') (lit ''me'') False),
      (12, CtObserve (lit ''noon'') (sample_query ''bob'') (lit ''me'') False),
      (13, CtRequest (lit ''bob'') (lit ''ping'') [])]"

definition sample_ctcp :: ctcp_replies where
  "sample_ctcp = ctcp_new 1 False (lit ''net'')"

text \<open>C26. Whatever strangers send and the user types, in every window of ten seconds at most five
  CTCP answers and five requests leave, and at most two of each to one user.\<close>
theorem ctcp_flood_bounded:
  assumes "sorted (map fst ops)" and "sent = ctcp_trace ops (ctcp_new nonce avatar network)"
  shows "length (in_window WINDOW start (map snd (answers sent))) \<le> MAX_PER_WINDOW
    \<and> length (in_window WINDOW start (times_of (answers sent) k)) \<le> MAX_PER_USER
    \<and> length (in_window WINDOW start (map snd (requests sent))) \<le> MAX_PER_WINDOW
    \<and> length (in_window WINDOW start (times_of (requests sent) k)) \<le> MAX_PER_USER"
proof -
  obtain t' where "ctcp_paced_inv (fold ctcp_step ops (ctcp_new nonce avatar network)) ([] @ sent) t'"
    using ctcp_trace_paced [OF ctcp_paced_inv_new] assms by fastforce
  then obtain la lb where
      la: "ctcp_budget.paces (ct_requests (fold ctcp_step ops (ctcp_new nonce avatar network))) la t'"
        "subseq (answers sent) la"
      and lb: "ctcp_budget.paces (ct_sent (fold ctcp_step ops (ctcp_new nonce avatar network))) lb t'"
        "subseq (requests sent) lb"
    by (auto simp: ctcp_paced_inv_def)
  show ?thesis
    using ctcp_budget.paces_window [OF la(1)] subseq_window [OF la(2)]
      ctcp_budget.paces_window [OF lb(1)] subseq_window [OF lb(2)]
    by (meson order_trans)
qed

text \<open>C31. An answer goes out only to a live private query from another user with a valid nickname, by one
  NOTICE to that user; never for a NOTICE, so that two clients cannot answer each other for ever.
  Nothing the other user sends can end the message or start another line.\<close>
theorem ctcp_answer_safe:
  assumes "ctcp_observe local_time m current_nick replayed now s = Some (h, s')" and "ha_send h \<noteq> []"
    and "control_free local_time" "blen local_time \<le> MAX_PING_BYTES"
  shows "\<exists>target said nick user host answer.
    m_command m = PRIVMSG target said \<and> m_prefix m = Some (Nickname nick user host) \<and> \<not> replayed
    \<and> cm_same (ct_casemapping s) target current_nick \<and> \<not> cm_same (ct_casemapping s) nick current_nick
    \<and> valid_nickname nick \<and> ha_send h = [NOTICE nick (quoted answer)]
    \<and> control_free answer \<and> blen answer \<le> 145"
  using assms(1)
proof (cases rule: observe_cases)
  case (paced target said tag params request sender user to_channel)
  note e = paced_effect [OF paced(7)]
  from e assms(2) obtain answer where a: request user "\<not> to_channel" "valid_nickname sender"
      "ctcp_answer local_time s tag params = Some answer" "ha_send h = [NOTICE sender (quoted answer)]"
    by (auto split: if_splits)
  obtain us host where "m_prefix m = Some (Nickname sender us host)"
    using paced(3) a(2) by (auto simp: ctcp_sender_def split: option.splits prefix.splits)
  then show ?thesis
    using paced a ctcp_answer_ok [OF a(5) assms(3,4)] by auto
qed (use assms(2) in auto)

text \<open>C32. A ping waits until it is settled, and it is settled in one of two ways: it times out after
  thirty seconds and says so, or the nickname it was sent to echoes its token in time in a live
  notice, and the line shows the time that took.\<close>
theorem ping_settled:
  assumes "ctcp_call (now, op) s = (h, s')" and "p \<in> set (ct_pending s)" "p \<notin> set (ct_pending s')"
  shows "ping_expired now p \<and> timeout_line (ct_network s) p \<in> set (ha_events h)
    \<or> \<not> ping_expired now p \<and> answers_ping s op p \<and> ha_events h = [measured_line (ct_network s) now p]"
proof (cases op)
  case (CtRequest nick tag args)
  with assms have c: "ctcp_request nick tag args now s = (h, s')" by simp
  obtain events s1 where e: "ctcp_expire now s = (events, s1)" by fastforce
  with request_settles [OF c] assms(2,3) expire_settles [OF e assms(2)] show ?thesis
    by auto
next
  case CtTick
  obtain events s1 where e: "ctcp_expire now s = (events, s1)" by fastforce
  with CtTick assms(1) have "s' = s1" "ha_events h = events"
    by (auto simp: ctcp_tick_def)
  with expire_settles [OF e assms(2)] assms(3) show ?thesis by simp
next
  case (CtObserve local_time m nick replayed)
  with assms have "ctcp_observe local_time m nick replayed now s = Some (h, s')"
    by (auto split: option.splits)
  then show ?thesis
  proof (cases rule: observe_cases)
    case (measured target said tag params sender user host line)
    with round_trip_settles [OF measured(7) assms(2,3)] CtObserve show ?thesis
      by (auto simp: answers_ping_def ping_expired_def)
  next
    case (paced target said tag params request sender user to_channel)
    with paced_effect [OF paced(7)] assms(2,3) show ?thesis by simp
  qed (use assms in simp)
next
  case (CtCasemapping m)
  with assms show ?thesis by (auto simp: ctcp_set_casemapping_def)
qed

text \<open>A notice from the nickname pinged that echoes the token within thirty seconds is measured: the
  line shows the time, and exactly this ping stops waiting.\<close>
theorem ping_measured:
  assumes "ctcp_inv (t, s)" and "p \<in> set (ct_pending s)" and "\<not> ping_expired now p"
    and "m_command m = NOTICE target (quoted (lit ''PING '' @ pg_token p))"
    and "m_prefix m = Some (Nickname sender user host)"
    and "cm_same (ct_casemapping s) (pg_nick p) sender"
    and "cm_same (ct_casemapping s) target current_nick" "\<not> cm_same (ct_casemapping s) sender current_nick"
    and "\<not> valid_channel (trim_start_matches (lit ''~@%+'') target)"
  shows "ctcp_observe local_time m current_nick False now s =
    Some (handled_default\<lparr>ha_events := [measured_line (ct_network s) now p]\<rparr>,
          s\<lparr>ct_pending := remove1 p (ct_pending s)\<rparr>)"
proof -
  have "ctcp_split (quoted (lit ''PING '' @ pg_token p)) = Some (lit ''PING'', pg_token p)"
    by (simp add: ctcp_split_def quoted_def lit_def strip_prefix_def strip_suffix_def)
  moreover have "\<not> eq_ignore_ascii_case (lit ''PING'') (lit ''ACTION'')"
    by code_simp
  moreover obtain line where "ctcp_round_trip sender (pg_token p) now s
      = Some (line, s\<lparr>ct_pending := remove1 p (ct_pending s)\<rparr>)"
      "CtcpLine line = measured_line (ct_network s) now p"
    using round_trip_measures [OF assms(1,2,6,3)] by blast
  ultimately show ?thesis
    using assms by (simp add: ctcp_observe_def ctcp_sender_def)
qed

text \<open>After any calls in the order of the clock, at most eight pings wait, under different tokens, and
  each of the three budgets remembers at most five events of at most five users.\<close>
theorem ctcp_bounded:
  assumes "ctcp_machine.run_ok ops (0, ctcp_new nonce avatar network)"
    and "s = snd (fold ctcp_at ops (0, ctcp_new nonce avatar network))"
    and "b \<in> {ct_requests s, ct_replies s, ct_sent s}"
  shows "length (ct_pending s) \<le> MAX_PENDING_PINGS \<and> distinct (map pg_token (ct_pending s))
    \<and> length (bu_recent b) \<le> MAX_PER_WINDOW \<and> length (bu_per_user b) \<le> MAX_PER_WINDOW"
proof -
  obtain now where "ctcp_inv (now, s)"
    using ctcp_machine.run_init_inv [OF _ assms(1)] assms(2)
    by (metis ctcp_init_def prod.collapse)
  then have "length (ct_pending s) \<le> MAX_PENDING_PINGS" "distinct (map pg_token (ct_pending s))"
    and b: "budget_ok now b"
    using assms(3) by (auto simp: ctcp_inv_def)
  moreover have "length (bu_recent b) \<le> MAX_PER_WINDOW"
    using b by (simp add: budget_ok_def)
  ultimately show ?thesis
    using budget_users [OF b] by simp
qed

section \<open>Witnesses\<close>

lemma sample_facts:
  "ctcp_split (quoted (lit ''VERSION'')) = Some (lit ''VERSION'', [])"
  "eq_ignore_ascii_case (lit ''VERSION'') (lit ''ACTION'') = False"
  "valid_channel (trim_start_matches (lit ''~@%+'') (lit ''me'')) = False"
  "cm_same Rfc1459 (lit ''bob'') (lit ''me'') = False"
  "cm_same Rfc1459 (lit ''me'') (lit ''me'') = True"
  "fst (budget_admit (lit ''bob'') 10 budget_default) = Admitted"
  "ctcp_answer (lit ''noon'') sample_ctcp (lit ''VERSION'') [] = Some (lit ''VERSION CayenChat 1.1.0'')"
  "control_free (lit ''noon'') = True"
  "blen (lit ''noon'') \<le> MAX_PING_BYTES"
  by code_simp+

lemma sample_nickname: "valid_nickname (lit ''bob'') = True"
  by (simp add: valid_nickname_def lit_def starts_with_any_def char_class_defs)

lemma sample_query_answered:
  "\<exists>h s'. ctcp_observe (lit ''noon'') (sample_query ''bob'') (lit ''me'') False 10 sample_ctcp = Some (h, s')
     \<and> ha_send h = [NOTICE (lit ''bob'') (quoted (lit ''VERSION CayenChat 1.1.0''))]"
proof -
  have st: "ct_casemapping sample_ctcp = Rfc1459" "ct_requests sample_ctcp = budget_default"
    by (simp_all add: sample_ctcp_def ctcp_new_def default_mapping_def)
  obtain b where b: "budget_admit (lit ''bob'') 10 budget_default = (Admitted, b)"
    using sample_facts(6) by (metis prod.collapse)
  have a: "ctcp_answer (lit ''noon'') (sample_ctcp\<lparr>ct_requests := b\<rparr>) (lit ''VERSION'') [] = Some (lit ''VERSION CayenChat 1.1.0'')"
    using sample_facts(7) by (simp only: ctcp_answer_def client_info_same)
  show ?thesis
    by (simp add: ctcp_observe_def sample_query_def ctcp_sender_def sample_facts sample_nickname st
        ctcp_paced_def b a)
qed

theorem ctcp_flood_bounded_witness:
  "length (in_window WINDOW 10 (map snd (answers (ctcp_trace sample_queries sample_ctcp)))) \<le> 5
    \<and> length (in_window WINDOW 10 (times_of (answers (ctcp_trace sample_queries sample_ctcp)) (lit ''bob''))) \<le> 2"
proof -
  have "sorted (map fst sample_queries)"
    by (simp add: sample_queries_def)
  from ctcp_flood_bounded [OF this refl, of 10 1 False "lit ''net''" "lit ''bob''"] show ?thesis
    by (simp add: sample_ctcp_def MAX_PER_WINDOW_def MAX_PER_USER_def)
qed

theorem ctcp_answer_safe_witness:
  "\<exists>answer. map_option (\<lambda>r. ha_send (fst r))
      (ctcp_observe (lit ''noon'') (sample_query ''bob'') (lit ''me'') False 10 sample_ctcp)
    = Some [NOTICE (lit ''bob'') (quoted answer)] \<and> control_free answer \<and> blen answer \<le> 145"
proof -
  obtain h s' where q: "ctcp_observe (lit ''noon'') (sample_query ''bob'') (lit ''me'') False 10 sample_ctcp
      = Some (h, s')" "ha_send h = [NOTICE (lit ''bob'') (quoted (lit ''VERSION CayenChat 1.1.0''))]"
    using sample_query_answered by blast
  have "ha_send h \<noteq> []" and l: "control_free (lit ''noon'')"
    using q(2) sample_facts(8) by simp_all
  from ctcp_answer_safe [OF q(1) this(1) l sample_facts(9)] show ?thesis
    using q by (auto simp: sample_query_def)
qed

text \<open>A ping to bob that has waited for two seconds.\<close>

definition sample_ping :: ping where
  "sample_ping = \<lparr>pg_nick = lit ''bob'', pg_token = ping_token 1 1, pg_sent = 1000\<rparr>"

definition sample_waiting :: ctcp_replies where
  "sample_waiting = sample_ctcp\<lparr>ct_counter := 1, ct_pending := [sample_ping]\<rparr>"

definition sample_pong :: message where
  "sample_pong = \<lparr>m_tags = None, m_prefix = Some (Nickname (lit ''Bob'') (lit ''u'') (lit ''h'')),
     m_command = NOTICE (lit ''me'') (quoted (lit ''PING '' @ pg_token sample_ping))\<rparr>"

lemma sample_waiting_inv: "ctcp_inv (1000, sample_waiting)"
  by (auto simp: ctcp_inv_def sample_waiting_def sample_ctcp_def ctcp_new_def sample_ping_def
      MAX_PENDING_PINGS_def)

theorem ping_measured_witness:
  "ctcp_observe (lit ''noon'') sample_pong (lit ''me'') False 3000 sample_waiting =
    Some (handled_default\<lparr>ha_events := [measured_line (ct_network sample_waiting) 3000 sample_ping]\<rparr>,
          sample_waiting\<lparr>ct_pending := []\<rparr>)"
proof -
  have cm: "ct_casemapping sample_waiting = Rfc1459" "pg_nick sample_ping = lit ''bob''"
    by (simp_all add: sample_waiting_def sample_ctcp_def ctcp_new_def default_mapping_def sample_ping_def)
  have names: "cm_same Rfc1459 (lit ''bob'') (lit ''Bob'')" "\<not> cm_same Rfc1459 (lit ''Bob'') (lit ''me'')"
    by code_simp+
  have p: "sample_ping \<in> set (ct_pending sample_waiting)" "\<not> ping_expired 3000 sample_ping"
    and m: "m_command sample_pong = NOTICE (lit ''me'') (quoted (lit ''PING '' @ pg_token sample_ping))"
      "m_prefix sample_pong = Some (Nickname (lit ''Bob'') (lit ''u'') (lit ''h''))"
    by (simp_all add: sample_waiting_def ping_expired_def sample_ping_def PING_TIMEOUT_def sample_pong_def)
  have "remove1 sample_ping (ct_pending sample_waiting) = []"
    by (simp add: sample_waiting_def)
  with ping_measured [OF sample_waiting_inv p m] names sample_facts(3,5) show ?thesis
    by (simp add: cm)
qed

theorem ping_settled_witness:
  "ping_expired 31000 sample_ping
   \<and> timeout_line (ct_network sample_waiting) sample_ping
       \<in> set (ha_events (fst (ctcp_call (31000, CtTick) sample_waiting)))"
proof -
  have e: "ping_expired 31000 sample_ping"
    by (simp add: ping_expired_def sample_ping_def PING_TIMEOUT_def)
  then have "sample_ping \<in> set (ct_pending sample_waiting)"
    and "sample_ping \<notin> set (ct_pending (snd (ctcp_call (31000, CtTick) sample_waiting)))"
    by (simp_all add: sample_waiting_def ctcp_tick_def ctcp_expire_def)
  from ping_settled [OF _ this, of 31000 CtTick "fst (ctcp_call (31000, CtTick) sample_waiting)"]
  show ?thesis using e by simp
qed

theorem ctcp_bounded_witness:
  "length (ct_pending (snd (fold ctcp_at [(5, CtTick), (7, CtCasemapping Ascii)] (0, sample_ctcp)))) \<le> 8"
proof -
  have "ctcp_machine.run_ok [(5, CtTick), (7, CtCasemapping Ascii)] (0, ctcp_new 1 False (lit ''net''))"
    by (simp add: ctcp_ok_def ctcp_at_def ctcp_step_def ctcp_tick_def ctcp_expire_def ctcp_new_def
        ctcp_set_casemapping_def)
  from ctcp_bounded [OF this refl insertI1] show ?thesis
    by (simp add: sample_ctcp_def MAX_PENDING_PINGS_def)
qed

end
