(* ===== verification/ChannelGroups.thy ===== *)
theory ChannelGroups
  imports Domain Contracts "HOL-Library.Multiset"
begin

text \<open>
  The channel tree of the application: \<open>crates/app/src/groups.rs\<close> (channel groups, the tree as shown,
  moving channels between parents) and the part of \<open>crates/app/src/lib.rs\<close> that keeps the order of the
  channels of a server. The state is the part of \<open>AppState\<close> these functions read and write. Group names
  are compared by \<open>str::to_lowercase\<close>, whose Unicode tables are an argument \<open>lower\<close>.
\<close>

section \<open>Lists by index\<close>

fun position :: "('a \<Rightarrow> bool) \<Rightarrow> 'a list \<Rightarrow> nat option" where
  "position P [] = None"
| "position P (x # xs) = (if P x then Some 0 else map_option Suc (position P xs))"

definition insert_at :: "nat \<Rightarrow> 'a \<Rightarrow> 'a list \<Rightarrow> 'a list" where
  "insert_at i x xs = take i xs @ x # drop i xs"

definition remove_at :: "nat \<Rightarrow> 'a list \<Rightarrow> 'a list" where
  "remove_at i xs = take i xs @ drop (Suc i) xs"

text \<open>\<open>rotate_left(1)\<close> and \<open>rotate_right(1)\<close> of the part from one index to another.\<close>

definition rotate_left_range :: "nat \<Rightarrow> nat \<Rightarrow> 'a list \<Rightarrow> 'a list" where
  "rotate_left_range i j xs =
     take i xs @ rotate1 (take (Suc j - i) (drop i xs)) @ drop (Suc j) xs"

definition rotate_right_range :: "nat \<Rightarrow> nat \<Rightarrow> 'a list \<Rightarrow> 'a list" where
  "rotate_right_range i j xs =
     (let part = take (Suc j - i) (drop i xs)
      in take i xs @ (if part = [] then [] else last part # butlast part) @ drop (Suc j) xs)"

definition move_item :: "nat \<Rightarrow> nat \<Rightarrow> 'a list \<Rightarrow> 'a list" where
  "move_item i j xs = (if i < j then rotate_left_range i j xs else rotate_right_range j i xs)"

section \<open>State\<close>

definition MAX_GROUPS :: nat where "MAX_GROUPS = 64"
definition MAX_GROUP_MEMBERS :: nat where "MAX_GROUP_MEMBERS = 2000"
definition MAX_GROUP_NAME_CHARS :: nat where "MAX_GROUP_NAME_CHARS = 64"
definition MAX_ORDER_NAMES :: nat where "MAX_ORDER_NAMES = 2000"

datatype group_id = GroupId (group_number: "32 word")

record heading_marks =
  hm_unread :: bool
  hm_highlighted :: bool

datatype parent = ServerParent network_id | GroupParent group_id

record group_member =
  gm_network :: network_id
  gm_key :: rstring

definition ascii_lower :: "rstring \<Rightarrow> rstring" where
  "ascii_lower s = map to_ascii_lowercase s"

definition member_of :: "conversation \<Rightarrow> group_member" where
  "member_of c = \<lparr>gm_network = conv_network c, gm_key = ascii_lower (conv_name c)\<rparr>"

record channel_group =
  cg_id :: group_id
  cg_name :: rstring
  cg_collapsed :: bool
  cg_members :: "group_member list"

record group_spec =
  gs_name :: rstring
  gs_collapsed :: bool
  gs_members :: "group_member list"

record display_tree =
  dt_groups :: "(group_id \<times> conversation_id list) list"
  dt_servers :: "(network_id \<times> conversation_id list) list"

datatype selection = SelServer network_id | SelChannel conversation_id | SelNone

datatype move_to = MoveUp | MoveDown | MoveFirst | MoveLast | MovePlace conversation_id

record tree_state =
  ts_networks :: "network list"
  ts_conversations :: "conversation list"
  ts_selected :: selection
  ts_unread :: "conversation_id list"
  ts_highlighted :: "conversation_id list"
  ts_orders :: "(network_id, rstring list) hmap"
  ts_ranks :: "(network_id, (rstring, nat) hmap) hmap"
  ts_groups :: "channel_group list"
  ts_next_group :: "32 word"

section \<open>The tree\<close>

definition tree_children :: "display_tree \<Rightarrow> parent \<Rightarrow> conversation_id list" where
  "tree_children tree p =
     (let found = (case p of
          GroupParent g \<Rightarrow> map_option snd (List.find (\<lambda>(h, _). h = g) (dt_groups tree))
        | ServerParent n \<Rightarrow> map_option snd (List.find (\<lambda>(h, _). h = n) (dt_servers tree)))
      in case found of Some children \<Rightarrow> children | None \<Rightarrow> [])"

definition parent_of :: "display_tree \<Rightarrow> conversation_id \<Rightarrow> parent option" where
  "parent_of tree i =
     (case List.find (\<lambda>(_, children). i \<in> set children) (dt_groups tree) of
        Some (g, _) \<Rightarrow> Some (GroupParent g)
      | None \<Rightarrow>
          map_option (\<lambda>(n, _). ServerParent n)
            (List.find (\<lambda>(_, children). i \<in> set children) (dt_servers tree)))"

definition tree_conversations :: "display_tree \<Rightarrow> conversation_id list" where
  "tree_conversations tree = concat (map snd (dt_groups tree)) @ concat (map snd (dt_servers tree))"

definition any_grouped :: "tree_state \<Rightarrow> bool" where
  "any_grouped s \<longleftrightarrow> list_ex (\<lambda>g. cg_members g \<noteq> []) (ts_groups s)"

text \<open>The channels present, by identity; of two with the same identity the later one is found.\<close>

definition channel_index :: "tree_state \<Rightarrow> group_member \<rightharpoonup> conversation_id" where
  "channel_index s =
     map_of (rev (map (\<lambda>c. (member_of c, conv_id c))
       (filter (\<lambda>c. \<not> conversation_is_private c) (ts_conversations s))))"

definition group_present :: "tree_state \<Rightarrow> channel_group \<Rightarrow> conversation_id list" where
  "group_present s g = List.map_filter (channel_index s) (cg_members g)"

definition display_tree_of :: "tree_state \<Rightarrow> display_tree" where
  "display_tree_of s =
     (let groups = (if any_grouped s then map (\<lambda>g. (cg_id g, group_present s g)) (ts_groups s)
                    else map (\<lambda>g. (cg_id g, [])) (ts_groups s));
          grouped = (if any_grouped s then concat (map (group_present s) (ts_groups s)) else [])
      in \<lparr>dt_groups = groups,
          dt_servers = map (\<lambda>n. (nw_id n,
            map conv_id (filter (\<lambda>c. conv_network c = nw_id n \<and> conv_id c \<notin> set grouped)
              (ts_conversations s)))) (ts_networks s)\<rparr>)"

section \<open>Groups\<close>

definition clean_group_name :: "rstring \<Rightarrow> rstring option" where
  "clean_group_name name =
     (let name = trim name
      in if name \<noteq> [] \<and> \<not> list_ex is_control name \<and> length name \<le> MAX_GROUP_NAME_CHARS
         then Some name else None)"

definition find_conversation :: "tree_state \<Rightarrow> conversation_id \<Rightarrow> conversation option" where
  "find_conversation s i = List.find (\<lambda>c. conv_id c = i) (ts_conversations s)"

definition find_group :: "tree_state \<Rightarrow> group_id \<Rightarrow> channel_group option" where
  "find_group s g = List.find (\<lambda>group. cg_id group = g) (ts_groups s)"

definition group_specs :: "tree_state \<Rightarrow> group_spec list" where
  "group_specs s =
     map (\<lambda>g. \<lparr>gs_name = cg_name g, gs_collapsed = cg_collapsed g, gs_members = cg_members g\<rparr>) (ts_groups s)"

definition group_named :: "(rstring \<Rightarrow> rstring) \<Rightarrow> tree_state \<Rightarrow> rstring \<Rightarrow> group_id option" where
  "group_named lower s name =
     map_option cg_id (List.find (\<lambda>g. lower (cg_name g) = lower name) (ts_groups s))"

definition new_group_id :: "tree_state \<Rightarrow> tree_state \<times> group_id" where
  "new_group_id s =
     (let s = s\<lparr>ts_next_group := ts_next_group s + 1\<rparr> in (s, GroupId (ts_next_group s)))"

definition adopt_group :: "(rstring \<Rightarrow> rstring) \<Rightarrow> group_spec \<Rightarrow> tree_state \<Rightarrow> tree_state" where
  "adopt_group lower spec s =
     (if group_named lower s (gs_name spec) \<noteq> None then s
      else
        (let members = filter (\<lambda>m. list_ex (\<lambda>n. nw_id n = gm_network m) (ts_networks s)) (gs_members spec);
             (s, i) = new_group_id s
         in s\<lparr>ts_groups := ts_groups s @
               [\<lparr>cg_id = i, cg_name = gs_name spec, cg_collapsed = gs_collapsed spec, cg_members = members\<rparr>]\<rparr>))"

definition set_groups :: "(rstring \<Rightarrow> rstring) \<Rightarrow> group_spec list \<Rightarrow> tree_state \<Rightarrow> tree_state" where
  "set_groups lower specs s = fold (adopt_group lower) specs (s\<lparr>ts_groups := []\<rparr>)"

definition create_group :: "(rstring \<Rightarrow> rstring) \<Rightarrow> rstring \<Rightarrow> tree_state \<Rightarrow> tree_state \<times> group_id option" where
  "create_group lower name s =
     (case clean_group_name name of
        None \<Rightarrow> (s, None)
      | Some name \<Rightarrow>
          (case group_named lower s name of
             Some existing \<Rightarrow> (s, Some existing)
           | None \<Rightarrow>
               (if MAX_GROUPS \<le> length (ts_groups s) then (s, None)
                else
                  (let (s, i) = new_group_id s
                   in (s\<lparr>ts_groups := ts_groups s @
                        [\<lparr>cg_id = i, cg_name = name, cg_collapsed = False, cg_members = []\<rparr>]\<rparr>, Some i)))))"

text \<open>\<open>iter_mut().find\<close>: the first element with the property is changed.\<close>

fun change_first :: "('a \<Rightarrow> bool) \<Rightarrow> ('a \<Rightarrow> 'a) \<Rightarrow> 'a list \<Rightarrow> 'a list" where
  "change_first P f [] = []"
| "change_first P f (x # xs) = (if P x then f x # xs else x # change_first P f xs)"

definition rename_group ::
  "(rstring \<Rightarrow> rstring) \<Rightarrow> group_id \<Rightarrow> rstring \<Rightarrow> tree_state \<Rightarrow> tree_state \<times> bool" where
  "rename_group lower i name s =
     (case clean_group_name name of
        None \<Rightarrow> (s, False)
      | Some name \<Rightarrow>
          (if (case group_named lower s name of Some other \<Rightarrow> other \<noteq> i | None \<Rightarrow> False) then (s, False)
           else if find_group s i = None then (s, False)
           else (s\<lparr>ts_groups := change_first (\<lambda>g. cg_id g = i) (cg_name_update (\<lambda>_. name)) (ts_groups s)\<rparr>,
                 True)))"

definition delete_group :: "group_id \<Rightarrow> tree_state \<Rightarrow> tree_state \<times> bool" where
  "delete_group i s =
     (let kept = filter (\<lambda>g. cg_id g \<noteq> i) (ts_groups s)
      in (s\<lparr>ts_groups := kept\<rparr>, length kept \<noteq> length (ts_groups s)))"

definition set_group_collapsed :: "group_id \<Rightarrow> bool \<Rightarrow> tree_state \<Rightarrow> tree_state \<times> bool" where
  "set_group_collapsed i collapsed s =
     (case find_group s i of
        Some g \<Rightarrow>
          (if cg_collapsed g \<noteq> collapsed
           then (s\<lparr>ts_groups := change_first (\<lambda>g. cg_id g = i) (cg_collapsed_update (\<lambda>_. collapsed)) (ts_groups s)\<rparr>,
                 True)
           else (s, False))
      | None \<Rightarrow> (s, False))"

section \<open>Channels of a group\<close>

definition group_index_of :: "tree_state \<Rightarrow> conversation \<Rightarrow> nat option" where
  "group_index_of s c = position (\<lambda>g. member_of c \<in> set (cg_members g)) (ts_groups s)"

definition display_parent :: "tree_state \<Rightarrow> conversation_id \<Rightarrow> parent option" where
  "display_parent s i =
     (case find_conversation s i of
        None \<Rightarrow> None
      | Some c \<Rightarrow>
          (case (if conversation_is_private c then None else group_index_of s c) of
             Some at \<Rightarrow> Some (GroupParent (cg_id (ts_groups s ! at)))
           | None \<Rightarrow>
               (if list_ex (\<lambda>n. nw_id n = conv_network c) (ts_networks s)
                then Some (ServerParent (conv_network c)) else None)))"

definition leave_group :: "conversation \<Rightarrow> tree_state \<Rightarrow> tree_state \<times> bool" where
  "leave_group c s =
     (case group_index_of s c of
        None \<Rightarrow> (s, False)
      | Some at \<Rightarrow>
          (let g = ts_groups s ! at
           in (s\<lparr>ts_groups := (ts_groups s)
                [at := g\<lparr>cg_members := filter (\<lambda>m. m \<noteq> member_of c) (cg_members g)\<rparr>]\<rparr>, True)))"

text \<open>The place before the anchor, or the end.\<close>

definition enter_group :: "group_member \<Rightarrow> group_member option \<Rightarrow> channel_group \<Rightarrow> channel_group" where
  "enter_group member anchor g =
     (let at = (case Option.bind anchor (\<lambda>a. position (\<lambda>m. m = a) (cg_members g)) of
                  Some at \<Rightarrow> at | None \<Rightarrow> length (cg_members g))
      in g\<lparr>cg_members := insert_at at member (cg_members g)\<rparr>)"

definition move_to_group ::
  "conversation_id \<Rightarrow> group_id \<Rightarrow> conversation_id option \<Rightarrow> tree_state \<Rightarrow> tree_state \<times> bool" where
  "move_to_group i target before s =
     (case find_conversation s i of
        None \<Rightarrow> (s, False)
      | Some c \<Rightarrow>
          (if conversation_is_private c then (s, False)
           else
             (case find_group s target of
                None \<Rightarrow> (s, False)
              | Some g \<Rightarrow>
                  (let anchor = map_option member_of (Option.bind before (find_conversation s));
                       member = member_of c
                   in if MAX_GROUP_MEMBERS \<le> length (cg_members g) \<and> member \<notin> set (cg_members g)
                      then (s, False)
                      else
                        (let s = fst (leave_group c s)
                         in (s\<lparr>ts_groups := change_first (\<lambda>g. cg_id g = target) (enter_group member anchor)
                               (ts_groups s)\<rparr>, True))))))"

definition return_to_server :: "conversation_id \<Rightarrow> tree_state \<Rightarrow> tree_state \<times> bool" where
  "return_to_server i s =
     (case find_conversation s i of Some c \<Rightarrow> leave_group c s | None \<Rightarrow> (s, False))"

definition is_grouped :: "tree_state \<Rightarrow> conversation_id \<Rightarrow> bool" where
  "is_grouped s i \<longleftrightarrow>
     (case find_conversation s i of Some c \<Rightarrow> group_index_of s c \<noteq> None | None \<Rightarrow> False)"

definition heading_marks_of :: "tree_state \<Rightarrow> conversation_id list \<Rightarrow> heading_marks" where
  "heading_marks_of s children =
     \<lparr>hm_unread = list_ex (\<lambda>c. c \<in> set (ts_unread s)) children,
      hm_highlighted = list_ex (\<lambda>c. c \<in> set (ts_highlighted s)) children\<rparr>"

definition numbered_targets :: "tree_state \<Rightarrow> conversation_id list" where
  "numbered_targets s =
     (let tree = display_tree_of s;
          parent = (case ts_selected s of
                      SelChannel i \<Rightarrow> parent_of tree i
                    | SelServer n \<Rightarrow> Some (ServerParent n)
                    | SelNone \<Rightarrow> None)
      in case parent of Some p \<Rightarrow> tree_children tree p | None \<Rightarrow> [])"

section \<open>The order of a server's channels\<close>

definition merge_step :: "rstring \<Rightarrow> rstring list \<times> rstring option \<Rightarrow> rstring list \<times> rstring option" where
  "merge_step name acc =
     (let (order, previous) = acc
      in if name \<in> set order then (order, Some name)
         else
           (let at = (case Option.bind previous (\<lambda>p. position (\<lambda>n. n = p) order) of
                        Some i \<Rightarrow> i + 1 | None \<Rightarrow> 0)
            in (insert_at at name order, Some name)))"

definition remembered_order :: "tree_state \<Rightarrow> network_id \<Rightarrow> rstring list" where
  "remembered_order s network =
     (case map_of (ts_orders s) network of Some order \<Rightarrow> order | None \<Rightarrow> [])"

definition shown_names :: "tree_state \<Rightarrow> network_id \<Rightarrow> rstring list" where
  "shown_names s network =
     map (\<lambda>c. ascii_lower (conv_name c))
       (filter (\<lambda>c. conv_network c = network \<and> \<not> conversation_is_private c) (ts_conversations s))"

definition merged_channel_order :: "tree_state \<Rightarrow> network_id \<Rightarrow> rstring list" where
  "merged_channel_order s network =
     fst (fold merge_step (remembered_order s network) (shown_names s network, None))"

fun rank_table :: "nat \<Rightarrow> rstring list \<Rightarrow> (rstring, nat) hmap \<Rightarrow> (rstring, nat) hmap" where
  "rank_table n [] ranks = ranks"
| "rank_table n (name # order) ranks =
     rank_table (Suc n) order (if map_of ranks name = None then AList.update name n ranks else ranks)"

definition store_channel_order :: "network_id \<Rightarrow> rstring list \<Rightarrow> tree_state \<Rightarrow> tree_state" where
  "store_channel_order network order s =
     (let order = take MAX_ORDER_NAMES order
      in if order = []
         then s\<lparr>ts_orders := AList.delete network (ts_orders s), ts_ranks := AList.delete network (ts_ranks s)\<rparr>
         else s\<lparr>ts_orders := AList.update network order (ts_orders s),
                ts_ranks := AList.update network (rank_table 0 order []) (ts_ranks s)\<rparr>)"

definition USIZE_MAX :: nat where "USIZE_MAX = 2 ^ 64 - 1"

definition rank_of :: "(rstring, nat) hmap \<Rightarrow> rstring \<Rightarrow> nat" where
  "rank_of ranks name = (case map_of ranks (ascii_lower name) of Some r \<Rightarrow> r | None \<Rightarrow> USIZE_MAX)"

definition apply_channel_order :: "network_id \<Rightarrow> tree_state \<Rightarrow> tree_state" where
  "apply_channel_order network s =
     (case map_of (ts_ranks s) network of
        None \<Rightarrow> s
      | Some ranks \<Rightarrow>
          (let channels = ts_conversations s
           in case position (\<lambda>c. conv_network c = network \<and> \<not> conversation_is_private c) channels of
                None \<Rightarrow> s
              | Some start \<Rightarrow>
                  (let len = (case position (\<lambda>c. conv_network c \<noteq> network \<or> conversation_is_private c)
                                     (drop start channels) of
                                Some i \<Rightarrow> i | None \<Rightarrow> length channels - start)
                   in s\<lparr>ts_conversations :=
                        take start channels
                        @ sort_key (\<lambda>c. rank_of ranks (conv_name c)) (take len (drop start channels))
                        @ drop (start + len) channels\<rparr>)))"

definition channel_order :: "tree_state \<Rightarrow> network_id \<Rightarrow> rstring list" where
  "channel_order s network = remembered_order s network"

definition set_channel_order :: "network_id \<Rightarrow> rstring list \<Rightarrow> tree_state \<Rightarrow> tree_state" where
  "set_channel_order network order s = apply_channel_order network (store_channel_order network order s)"

section \<open>Moving conversations\<close>

text \<open>The range of the conversations that share server and kind with the one given.\<close>

definition group_range :: "tree_state \<Rightarrow> conversation_id \<Rightarrow> (nat \<times> nat) option" where
  "group_range s i =
     (let cs = ts_conversations s
      in case position (\<lambda>c. conv_id c = i) cs of
           None \<Rightarrow> None
         | Some at \<Rightarrow>
             (let same = (\<lambda>c. conv_network c = conv_network (cs ! at)
                           \<and> conversation_is_private c = conversation_is_private (cs ! at));
                  start = (case position (\<lambda>c. \<not> same c) (rev (take at cs)) of Some k \<Rightarrow> at - k | None \<Rightarrow> 0);
                  stop = (case position (\<lambda>c. \<not> same c) (drop at cs) of
                            Some k \<Rightarrow> at + k | None \<Rightarrow> length cs)
              in Some (start, stop)))"

text \<open>The index a move goes to among the shown ones; \<open>find\<close> locates the element of \<open>Place\<close>.\<close>

definition move_target :: "move_to \<Rightarrow> (conversation_id \<Rightarrow> 'a option) \<Rightarrow> nat \<Rightarrow> 'a list \<Rightarrow> 'a option" where
  "move_target to locate from shown =
     (let final = length shown - 1
      in case to of
           MoveUp \<Rightarrow> Some (shown ! (from - 1))
         | MoveDown \<Rightarrow> Some (shown ! min (from + 1) final)
         | MoveFirst \<Rightarrow> Some (shown ! 0)
         | MoveLast \<Rightarrow> Some (shown ! final)
         | MovePlace other \<Rightarrow> locate other)"

definition move_in_group ::
  "display_tree \<Rightarrow> conversation_id \<Rightarrow> move_to \<Rightarrow> tree_state \<Rightarrow> tree_state \<times> bool option" where
  "move_in_group tree i to s =
     (case Option.bind (find_conversation s i) (\<lambda>c. map_option (Pair c) (group_index_of s c)) of
        None \<Rightarrow> (s, None)
      | Some (c, at) \<Rightarrow>
          (let siblings = tree_children tree (GroupParent (cg_id (ts_groups s ! at)))
           in case Option.bind (position (\<lambda>k. k = i) siblings) (\<lambda>from.
                     move_target to (\<lambda>other. List.find (\<lambda>k. k = other) siblings) from siblings) of
                None \<Rightarrow> (s, None)
              | Some target \<Rightarrow>
                  (if target = i then (s, Some False)
                   else
                     (let members = cg_members (ts_groups s ! at)
                      in case (position (\<lambda>m. m = member_of c) members,
                               Option.bind (find_conversation s target)
                                 (\<lambda>t. position (\<lambda>m. m = member_of t) members)) of
                           (Some from, Some to) \<Rightarrow>
                             (s\<lparr>ts_groups := (ts_groups s)
                                [at := (ts_groups s ! at)\<lparr>cg_members := move_item from to members\<rparr>]\<rparr>,
                              Some True)
                         | _ \<Rightarrow> (s, None)))))"

definition relocate ::
  "display_tree \<Rightarrow> conversation_id \<Rightarrow> conversation_id \<Rightarrow> tree_state \<Rightarrow> tree_state \<times> bool" where
  "relocate tree i other s =
     (case (parent_of tree i, parent_of tree other, find_conversation s i, find_conversation s other) of
        (Some from, Some to, Some moved, Some target) \<Rightarrow>
          (if from = to \<or> conversation_is_private moved \<noteq> conversation_is_private target then (s, False)
           else
             (case to of
                GroupParent g \<Rightarrow> move_to_group i g (Some other) s
              | ServerParent network \<Rightarrow>
                  (if conv_network moved \<noteq> network then (s, False)
                   else
                     (let s = fst (return_to_server i s);
                          cs = ts_conversations s
                      in case (position (\<lambda>c. conv_id c = i) cs, position (\<lambda>c. conv_id c = other) cs) of
                           (Some from, Some to) \<Rightarrow>
                             (let at = (if from < to then to - 1 else to);
                                  s = s\<lparr>ts_conversations := insert_at at (cs ! from) (remove_at from cs)\<rparr>;
                                  network = conv_network (ts_conversations s ! at)
                              in (store_channel_order network (merged_channel_order s network) s, True))
                         | _ \<Rightarrow> (s, True)))))
      | _ \<Rightarrow> (s, False))"

text \<open>The move among the conversations a server shows.\<close>

definition shown_indices :: "display_tree \<Rightarrow> network_id \<Rightarrow> nat \<times> nat \<Rightarrow> tree_state \<Rightarrow> nat list" where
  "shown_indices tree network span s =
     filter (\<lambda>k. parent_of tree (conv_id (ts_conversations s ! k)) = Some (ServerParent network))
       [fst span ..< snd span]"

definition move_on_server ::
  "display_tree \<Rightarrow> network_id \<Rightarrow> conversation_id \<Rightarrow> move_to \<Rightarrow> tree_state \<Rightarrow> tree_state \<times> network_id option" where
  "move_on_server tree network i to s =
     (case group_range s i of
        None \<Rightarrow> (s, None)
      | Some span \<Rightarrow>
          (let shown = shown_indices tree network span s;
               at_id = (\<lambda>other k. conv_id (ts_conversations s ! k) = other)
           in case position (at_id i) shown of
                None \<Rightarrow> (s, None)
              | Some from_shown \<Rightarrow>
                  (case move_target to (\<lambda>other. List.find (at_id other) shown) from_shown shown of
                     None \<Rightarrow> (s, None)
                   | Some target \<Rightarrow>
                       (let from = shown ! from_shown
                        in if target = from then (s, None)
                           else
                             (let s = s\<lparr>ts_conversations := move_item from target (ts_conversations s)\<rparr>
                              in case find_conversation s i of
                                   None \<Rightarrow> (s, None)
                                 | Some c \<Rightarrow>
                                     (if conversation_is_private c then (s, Some network)
                                      else (store_channel_order network (merged_channel_order s network) s,
                                            Some network)))))))"

definition move_conversation :: "conversation_id \<Rightarrow> move_to \<Rightarrow> tree_state \<Rightarrow> tree_state \<times> network_id option" where
  "move_conversation i to s =
     (case find_conversation s i of
        None \<Rightarrow> (s, None)
      | Some c \<Rightarrow>
          (let network = conv_network c;
               tree = display_tree_of s;
               told = (\<lambda>(s, moved). (s, if moved then Some network else None));
               stay =
                 (if ts_groups s \<noteq> [] \<and> is_grouped s i
                  then (case move_in_group tree i to s of
                          (s, Some moved) \<Rightarrow> told (s, moved) | (s, None) \<Rightarrow> (s, None))
                  else move_on_server tree network i to s)
           in case to of
                MovePlace other \<Rightarrow>
                  (if ts_groups s = [] then stay
                   else
                     (case (parent_of tree i, parent_of tree other) of
                        (Some p, Some q) \<Rightarrow> (if p \<noteq> q then told (relocate tree i other s) else stay)
                      | _ \<Rightarrow> (s, None)))
              | _ \<Rightarrow> stay))"

definition move_after :: "conversation_id \<Rightarrow> conversation_id \<Rightarrow> tree_state \<Rightarrow> tree_state \<times> network_id option" where
  "move_after i other s =
     (case find_conversation s i of
        None \<Rightarrow> (s, None)
      | Some moved \<Rightarrow>
          (let network = conv_network moved;
               tree = display_tree_of s
           in case (parent_of tree other, parent_of tree i) of
                (Some p, Some own) \<Rightarrow>
                  (if own = p then (s, None)
                   else
                     (let siblings = tree_children tree p
                      in (case position (\<lambda>k. k = other) siblings of
                           None \<Rightarrow> (s, None)
                         | Some at \<Rightarrow>
                             (if at + 1 < length siblings
                              then move_conversation i (MovePlace (siblings ! (at + 1))) s
                              else
                                (case find_conversation s other of
                                   None \<Rightarrow> (s, None)
                                 | Some target \<Rightarrow>
                                     (if conversation_is_private moved \<noteq> conversation_is_private target
                                      then (s, None)
                                      else
                                        (case p of
                                           GroupParent g \<Rightarrow>
                                             (let (s, moved_in) = move_to_group i g None s
                                              in (s, if moved_in then Some network else None))
                                         | ServerParent server \<Rightarrow>
                                             (if conv_network moved \<noteq> server then (s, None)
                                              else
                                                (let (s, was_in) = return_to_server i s
                                                 in if \<not> was_in then (s, None)
                                                    else (fst (move_conversation i MoveLast s), Some network))))))))))
              | _ \<Rightarrow> (s, None)))"

section \<open>The machine\<close>

datatype tree_op =
    SetGroups "group_spec list"
  | CreateGroup rstring
  | RenameGroup group_id rstring
  | DeleteGroup group_id
  | SetCollapsed group_id bool
  | MoveToGroup conversation_id group_id "conversation_id option"
  | ReturnToServer conversation_id
  | MoveConversation conversation_id move_to
  | MoveAfter conversation_id conversation_id
  | SetOrder network_id "rstring list"

fun tree_step :: "(rstring \<Rightarrow> rstring) \<Rightarrow> tree_op \<Rightarrow> tree_state \<Rightarrow> tree_state" where
  "tree_step lower (SetGroups specs) s = set_groups lower specs s"
| "tree_step lower (CreateGroup name) s = fst (create_group lower name s)"
| "tree_step lower (RenameGroup i name) s = fst (rename_group lower i name s)"
| "tree_step lower (DeleteGroup i) s = fst (delete_group i s)"
| "tree_step lower (SetCollapsed i collapsed) s = fst (set_group_collapsed i collapsed s)"
| "tree_step lower (MoveToGroup i g before) s = fst (move_to_group i g before s)"
| "tree_step lower (ReturnToServer i) s = fst (return_to_server i s)"
| "tree_step lower (MoveConversation i to) s = fst (move_conversation i to s)"
| "tree_step lower (MoveAfter i other) s = fst (move_after i other s)"
| "tree_step lower (SetOrder network order) s = set_channel_order network order s"

end
