(* ===== verification/HistoryRequests.thy ===== *)
theory HistoryRequests
  imports Ctcp Replay ChannelGroups
begin

text \<open>
  \<open>crates/irc-core/src/history.rs\<close>: the requests for history of one connection. They wait in one
  queue, one at a time is answered, and every line of its reply is consumed here. Formatting a time
  (crate \<open>chrono\<close>) is the argument \<open>format_time\<close>, the connection's encoding (crate \<open>encoding_rs\<close>) a pair
  of functions in the state. Texts of notes are those of the code.
\<close>

section \<open>Bounds and types\<close>

definition HISTORY_LIMIT :: nat where "HISTORY_LIMIT = 50"
definition MAX_HISTORY_LINES :: nat where "MAX_HISTORY_LINES = 100"
definition MAX_QUEUED :: nat where "MAX_QUEUED = 64"
definition MAX_DISCOVERED :: nat where "MAX_DISCOVERED = 16"
definition MAX_TARGET_ENTRIES :: nat where "MAX_TARGET_ENTRIES = 64"
definition TARGETS_BATCH :: rstring where "TARGETS_BATCH = lit ''DRAFT/CHATHISTORY-TARGETS''"
definition HISTORY_RESPONSE_TIMEOUT :: nat where "HISTORY_RESPONSE_TIMEOUT = 30000"
definition MAX_ABANDONED :: nat where "MAX_ABANDONED = 8"
definition MAX_NESTED :: nat where "MAX_NESTED = 16"
definition MAX_MSGID_BYTES :: nat where "MAX_MSGID_BYTES = 128"
definition END_TAG :: rstring where "END_TAG = lit ''draft/chathistory-end''"
definition MAX_RESUME :: nat where "MAX_RESUME = 1024"
definition RESUME_SKEW :: system_time where "RESUME_SKEW = 5000000000"
definition TARGETS_SKEW :: system_time where "TARGETS_SKEW = 300000000000"
definition ERR_UNKNOWNCOMMAND :: nat where "ERR_UNKNOWNCOMMAND = 421"
definition ERR_NEEDMOREPARAMS :: nat where "ERR_NEEDMOREPARAMS = 461"

record history_message =
  hm_sender :: rstring
  hm_text :: rstring
  hm_notice :: bool
  hm_server_time :: "system_time option"
  hm_msgid :: "rstring option"
  hm_account :: "rstring option"

record message_reference =
  mr_msgid :: "rstring option"
  mr_time :: "system_time option"

record resume_request =
  rq_channel :: rstring
  rq_after :: message_reference

datatype older_status = OlderMore | OlderBeginning | OlderFailed

datatype page = PageLatest | PageResume | PageBefore "64 word" | PageTargets system_time system_time

record history_target =
  ht_name :: rstring
  ht_latest :: system_time

record finished =
  fi_channel :: rstring
  fi_page :: page
  fi_lines :: nat
  fi_targets :: nat
  fi_end :: bool
  fi_incomplete :: bool
  fi_failed :: bool
  fi_note :: "rstring option"

definition finished_failed :: "rstring \<Rightarrow> page \<Rightarrow> rstring option \<Rightarrow> finished" where
  "finished_failed channel page note' =
     \<lparr>fi_channel = channel, fi_page = page, fi_lines = 0, fi_targets = 0, fi_end = False,
      fi_incomplete = False, fi_failed = True, fi_note = note'\<rparr>"

definition failed_older :: "rstring \<Rightarrow> 64 word \<Rightarrow> finished" where
  "failed_older channel request =
     finished_failed channel (PageBefore request)
       (Some (lit ''Older history for '' @ channel @ lit '' is not available on this connection.''))"

definition older_status_of :: "finished \<Rightarrow> older_status" where
  "older_status_of f =
     (if fi_failed f then OlderFailed
      else if fi_end f \<or> fi_lines f = 0 then OlderBeginning
      else OlderMore)"

record streamed =
  st_channel :: rstring
  st_page :: page
  st_message :: history_message

datatype observed = Unrelated | Consumed | StreamedLine streamed | RequestFinished finished

record queued =
  qu_channel :: rstring
  qu_page :: page
  qu_selector :: rstring
  qu_limit :: nat

record outstanding =
  og_channel :: rstring
  og_page :: page
  og_sent :: nat
  og_reference :: "rstring option"
  og_end :: bool
  og_limit :: nat
  og_nested :: "rstring list"
  og_nested_overflowed :: bool
  og_kept :: nat
  og_targets :: "history_target list"
  og_dropped :: nat

record reference_types =
  rt_msgid :: bool
  rt_timestamp :: bool

definition reference_types_default :: reference_types where
  "reference_types_default = \<lparr>rt_msgid = True, rt_timestamp = True\<rparr>"

text \<open>An encoding that is not UTF-8: \<open>encode\<close>, none when a character has no code, and \<open>decode\<close>.\<close>

record wire_encoding =
  we_encode :: "rstring \<Rightarrow> nat list option"
  we_decode :: "nat list \<Rightarrow> rstring"

record history_requests =
  hr_server_limit :: "nat option"
  hr_types :: reference_types
  hr_queue :: "queued list"
  hr_outstanding :: "outstanding option"
  hr_resume :: "resume_request list"
  hr_abandoned :: "rstring list"
  hr_discarding :: "rstring list"
  hr_casemapping :: case_mapping
  hr_wire :: "wire_encoding option"

definition history_default :: history_requests where
  "history_default =
     \<lparr>hr_server_limit = None, hr_types = reference_types_default, hr_queue = [], hr_outstanding = None,
      hr_resume = [], hr_abandoned = [], hr_discarding = [], hr_casemapping = default_mapping,
      hr_wire = None\<rparr>"

definition history_with_resume :: "resume_request list \<Rightarrow> history_requests" where
  "history_with_resume resume = history_default\<lparr>hr_resume := take MAX_RESUME resume\<rparr>"

definition history_set_casemapping :: "case_mapping \<Rightarrow> history_requests \<Rightarrow> history_requests" where
  "history_set_casemapping m s = s\<lparr>hr_casemapping := m\<rparr>"

section \<open>Names and announcements\<close>

definition fold_byte :: "case_mapping \<Rightarrow> nat \<Rightarrow> nat" where
  "fold_byte m b = (if b \<le> 0x7F then cm_fold_char m b else b)"

definition same_on_wire :: "history_requests \<Rightarrow> rstring \<Rightarrow> rstring \<Rightarrow> bool" where
  "same_on_wire s channel target \<longleftrightarrow>
     (case hr_wire s of
        None \<Rightarrow> False
      | Some encoding \<Rightarrow>
          \<not> list_all is_ascii channel
          \<and> (case we_encode encoding channel of
               None \<Rightarrow> False
             | Some bytes \<Rightarrow>
                 list_ex (\<lambda>m. we_decode encoding (map (fold_byte m) bytes) = target)
                   [Ascii, hr_casemapping s]))"

definition history_names :: "history_requests \<Rightarrow> rstring \<Rightarrow> rstring \<Rightarrow> bool" where
  "history_names s channel target \<longleftrightarrow>
     cm_same (hr_casemapping s) channel target \<or> same_on_wire s channel target"

definition listed :: "rstring \<Rightarrow> rstring \<Rightarrow> bool" where
  "listed kind value \<longleftrightarrow> list_ex (\<lambda>item. item = kind) (split_by (\<lambda>c. c = 0x2C) value)"

definition history_token :: "rstring \<Rightarrow> history_requests \<Rightarrow> history_requests" where
  "history_token token s =
     (if eq_ignore_ascii_case token (lit ''-CHATHISTORY'') then s\<lparr>hr_server_limit := None\<rparr>
      else if eq_ignore_ascii_case token (lit ''-MSGREFTYPES'')
      then s\<lparr>hr_types := reference_types_default\<rparr>
      else
        (case split_once 0x3D token of
           None \<Rightarrow> s
         | Some (name, value) \<Rightarrow>
             (if eq_ignore_ascii_case name (lit ''CHATHISTORY'')
              then s\<lparr>hr_server_limit := parse_unsigned (2 ^ 64 - 1) value\<rparr>
              else if eq_ignore_ascii_case name (lit ''MSGREFTYPES'')
              then s\<lparr>hr_types := \<lparr>rt_msgid = listed (lit ''msgid'') value,
                                  rt_timestamp = listed (lit ''timestamp'') value\<rparr>\<rparr>
              else s)))"

definition history_isupport :: "message \<Rightarrow> history_requests \<Rightarrow> history_requests" where
  "history_isupport m s =
     (case m_command m of
        Response code args \<Rightarrow>
          (if code = RPL_ISUPPORT then fold history_token (isupport_tokens args) s else s)
      | _ \<Rightarrow> s)"

definition history_limit :: "history_requests \<Rightarrow> nat" where
  "history_limit s =
     (case hr_server_limit s of
        Some limit \<Rightarrow> (if 0 < limit then min limit HISTORY_LIMIT else HISTORY_LIMIT)
      | None \<Rightarrow> HISTORY_LIMIT)"

definition selector ::
  "(system_time \<Rightarrow> rstring) \<Rightarrow> message_reference \<Rightarrow> history_requests \<Rightarrow> rstring option" where
  "selector format_time reference s =
     (let msgid = (case mr_msgid reference of
                     None \<Rightarrow> None
                   | Some i \<Rightarrow>
                       (if i \<noteq> [] \<and> blen i \<le> MAX_MSGID_BYTES \<and> list_all is_ascii_graphic (utf8 i)
                        then Some i else None))
      in if rt_msgid (hr_types s) \<and> msgid \<noteq> None
         then Some (lit ''msgid='' @ the msgid)
         else if rt_timestamp (hr_types s) \<and> mr_time reference \<noteq> None
         then Some (lit ''timestamp='' @ format_time (the (mr_time reference)))
         else None)"

section \<open>Queueing\<close>

definition swap_remove :: "nat \<Rightarrow> 'a list \<Rightarrow> 'a list" where
  "swap_remove k xs = butlast (xs[k := last xs])"

definition latest_of :: "case_mapping \<Rightarrow> rstring \<Rightarrow> rstring \<Rightarrow> page \<Rightarrow> bool" where
  "latest_of m channel name page \<longleftrightarrow>
     (case page of PageLatest \<Rightarrow> True | PageResume \<Rightarrow> True | _ \<Rightarrow> False) \<and> cm_same m name channel"

definition older_of :: "case_mapping \<Rightarrow> rstring \<Rightarrow> rstring \<Rightarrow> page \<Rightarrow> bool" where
  "older_of m channel name page \<longleftrightarrow>
     (case page of PageBefore _ \<Rightarrow> True | _ \<Rightarrow> False) \<and> cm_same m name channel"

definition waits_or_runs ::
  "(rstring \<Rightarrow> page \<Rightarrow> bool) \<Rightarrow> history_requests \<Rightarrow> bool" where
  "waits_or_runs P s \<longleftrightarrow>
     list_ex (\<lambda>q. P (qu_channel q) (qu_page q)) (hr_queue s)
     \<or> (case hr_outstanding s of None \<Rightarrow> False | Some r \<Rightarrow> P (og_channel r) (og_page r))"

definition MIN_SYSTEM_TIME :: system_time where
  "MIN_SYSTEM_TIME = - (2 ^ 63) * 1000000000"

definition before_skew :: "system_time \<Rightarrow> system_time" where
  "before_skew t = (if t - RESUME_SKEW < MIN_SYSTEM_TIME then 0 else t - RESUME_SKEW)"

definition waiting_note :: "rstring \<Rightarrow> rstring" where
  "waiting_note what =
     what @ lit '' was not requested: '' @ decimal MAX_QUEUED @ lit '' requests are already waiting.''"

definition history_enqueue ::
  "(system_time \<Rightarrow> rstring) \<Rightarrow> rstring \<Rightarrow> history_requests \<Rightarrow> rstring option \<times> history_requests" where
  "history_enqueue format_time channel s =
     (if waits_or_runs (latest_of (hr_casemapping s) channel) s then (None, s)
      else if MAX_QUEUED \<le> length (hr_queue s)
      then (Some (waiting_note (lit ''History for '' @ channel)), s)
      else
        (let at = position (\<lambda>r. cm_same (hr_casemapping s) (rq_channel r) channel) (hr_resume s);
             (resumed, s) =
               (case at of
                  None \<Rightarrow> (None, s)
                | Some k \<Rightarrow>
                    (let after = rq_after (hr_resume s ! k);
                         s = s\<lparr>hr_resume := swap_remove k (hr_resume s)\<rparr>
                     in (selector format_time
                           (after\<lparr>mr_time := map_option before_skew (mr_time after)\<rparr>) s, s)));
             (page, sel) = (case resumed of Some sel \<Rightarrow> (PageResume, sel) | None \<Rightarrow> (PageLatest, lit ''*''))
         in (None,
             s\<lparr>hr_queue := hr_queue s @
                 [\<lparr>qu_channel = channel, qu_page = page, qu_selector = sel, qu_limit = HISTORY_LIMIT\<rparr>]\<rparr>)))"

definition enqueue_targets ::
  "system_time \<Rightarrow> system_time \<Rightarrow> history_requests \<Rightarrow> history_requests" where
  "enqueue_targets since now s =
     (if MAX_QUEUED \<le> length (hr_queue s) then s
      else s\<lparr>hr_queue :=
        \<lparr>qu_channel = lit ''*'', qu_page = PageTargets (min since now) (now + TARGETS_SKEW),
         qu_selector = [], qu_limit = MAX_DISCOVERED\<rparr> # hr_queue s\<rparr>)"

fun collect_peers :: "rstring list \<Rightarrow> history_target list \<Rightarrow> rstring list" where
  "collect_peers names [] = names"
| "collect_peers names (t # ts) =
     (if length names = MAX_DISCOVERED then names
      else collect_peers
        (if list_ex (\<lambda>name. same_nickname name (ht_name t)) names then names else names @ [ht_name t]) ts)"

definition direct_targets :: "history_target list \<Rightarrow> rstring list" where
  "direct_targets targets =
     collect_peers []
       (sort_key (\<lambda>t. - ht_latest t)
         (filter (\<lambda>t. \<not> valid_channel (ht_name t) \<and> valid_nickname (ht_name t)
             \<and> 0x21 \<notin> set (ht_name t) \<and> 0x40 \<notin> set (ht_name t)) targets))"

definition fall_back :: "finished \<Rightarrow> history_requests \<Rightarrow> history_requests" where
  "fall_back f s =
     (if fi_page f = PageResume \<and> length (hr_queue s) < MAX_QUEUED
      then s\<lparr>hr_queue := hr_queue s @
        [\<lparr>qu_channel = fi_channel f, qu_page = PageLatest, qu_selector = lit ''*'', qu_limit = HISTORY_LIMIT\<rparr>]\<rparr>
      else s)"

definition enqueue_older ::
  "(system_time \<Rightarrow> rstring) \<Rightarrow> rstring \<Rightarrow> 64 word \<Rightarrow> message_reference \<Rightarrow> nat
   \<Rightarrow> history_requests \<Rightarrow> finished option \<times> history_requests" where
  "enqueue_older format_time channel request reference limit s =
     (let fail = (\<lambda>note'. (Some (finished_failed channel (PageBefore request) (Some note')), s));
          older = lit ''Older history for '' @ channel
      in case selector format_time reference s of
           None \<Rightarrow> fail (older @ lit '' was not requested: the server accepts no reference this client has.'')
         | Some sel \<Rightarrow>
             (if waits_or_runs (older_of (hr_casemapping s) channel) s
              then fail (older @ lit '' is already being requested.'')
              else if MAX_QUEUED \<le> length (hr_queue s) then fail (waiting_note older)
              else (None,
                s\<lparr>hr_queue :=
                    \<lparr>qu_channel = channel, qu_page = PageBefore request, qu_selector = sel,
                     qu_limit = max limit 1\<rparr> # hr_queue s\<rparr>)))"

definition is_before :: "page \<Rightarrow> bool" where
  "is_before page \<longleftrightarrow> (case page of PageBefore _ \<Rightarrow> True | _ \<Rightarrow> False)"

definition queued_ended :: "queued list \<Rightarrow> finished list" where
  "queued_ended qs =
     map (\<lambda>q. finished_failed (qu_channel q) (qu_page q) None) (filter (\<lambda>q. is_before (qu_page q)) qs)"

definition history_forget :: "rstring \<Rightarrow> history_requests \<Rightarrow> finished list \<times> history_requests" where
  "history_forget channel s =
     (let gone = (\<lambda>q. cm_same (hr_casemapping s) (qu_channel q) channel)
      in (queued_ended (filter gone (hr_queue s)),
          s\<lparr>hr_queue := filter (\<lambda>q. \<not> gone q) (hr_queue s)\<rparr>))"

section \<open>Sending and giving up\<close>

definition request_command ::
  "(system_time \<Rightarrow> rstring) \<Rightarrow> queued \<Rightarrow> nat \<Rightarrow> command" where
  "request_command format_time q limit =
     (case qu_page q of
        PageTargets from to \<Rightarrow>
          Raw (lit ''CHATHISTORY'')
            [lit ''TARGETS'', lit ''timestamp='' @ format_time from, lit ''timestamp='' @ format_time to,
             decimal limit]
      | page \<Rightarrow>
          Raw (lit ''CHATHISTORY'')
            [if is_before page then lit ''BEFORE'' else lit ''LATEST'',
             qu_channel q, qu_selector q, decimal limit])"

definition next_request ::
  "(system_time \<Rightarrow> rstring) \<Rightarrow> nat \<Rightarrow> history_requests
   \<Rightarrow> (rstring \<times> page \<times> command) option \<times> history_requests" where
  "next_request format_time now s =
     (if hr_outstanding s \<noteq> None then (None, s)
      else
        (case hr_queue s of
           [] \<Rightarrow> (None, s)
         | q # rest \<Rightarrow>
             (let limit = min (qu_limit q) (history_limit s)
              in (Some (qu_channel q, qu_page q, request_command format_time q limit),
                  s\<lparr>hr_queue := rest,
                    hr_outstanding := Some
                      \<lparr>og_channel = qu_channel q, og_page = qu_page q, og_sent = now, og_reference = None,
                       og_end = False, og_limit = limit, og_nested = [], og_nested_overflowed = False,
                       og_kept = 0, og_targets = [], og_dropped = 0\<rparr>\<rparr>))))"

definition history_next_deadline :: "history_requests \<Rightarrow> nat option" where
  "history_next_deadline s = map_option (\<lambda>r. og_sent r + HISTORY_RESPONSE_TIMEOUT) (hr_outstanding s)"

definition timeout_note :: "outstanding \<Rightarrow> rstring" where
  "timeout_note r =
     (if 0 < og_kept r
      then lit ''History for '' @ og_channel r @ lit '' did not end within '' @ decimal 30
        @ lit '' s; the '' @ decimal (og_kept r) @ lit '' lines received stay shown.''
      else lit ''History for '' @ og_channel r @ lit '' was not answered within '' @ decimal 30 @ lit '' s.'')"

definition history_tick :: "nat \<Rightarrow> history_requests \<Rightarrow> finished option \<times> history_requests" where
  "history_tick now s =
     (case hr_outstanding s of
        None \<Rightarrow> (None, s)
      | Some r \<Rightarrow>
          (if now < og_sent r + HISTORY_RESPONSE_TIMEOUT then (None, s)
           else
             (let s = s\<lparr>hr_outstanding := None\<rparr>;
                  s = (case og_reference r of
                         Some reference \<Rightarrow>
                           s\<lparr>hr_discarding := hr_discarding s @ [reference] @ og_nested r\<rparr>
                       | None \<Rightarrow>
                           s\<lparr>hr_abandoned :=
                               (if MAX_ABANDONED \<le> length (hr_abandoned s) then drop 1 (hr_abandoned s)
                                else hr_abandoned s) @ [og_channel r]\<rparr>);
                  f = (finished_failed (og_channel r) (og_page r) (Some (timeout_note r)))
                        \<lparr>fi_lines := og_kept r\<rparr>
              in (Some f, fall_back f s))))"

definition history_reset :: "history_requests \<Rightarrow> finished list \<times> history_requests" where
  "history_reset s =
     ((case hr_outstanding s of
         None \<Rightarrow> [] | Some r \<Rightarrow> [finished_failed (og_channel r) (og_page r) None])
        @ queued_ended (hr_queue s),
      history_default\<lparr>hr_server_limit := hr_server_limit s, hr_types := hr_types s,
        hr_casemapping := hr_casemapping s, hr_wire := hr_wire s, hr_resume := hr_resume s\<rparr>)"

section \<open>Lines of a reply\<close>

definition is_secret_service_command :: "rstring \<Rightarrow> bool" where
  "is_secret_service_command cmd \<longleftrightarrow>
     map to_ascii_uppercase cmd \<in> set (map lit
       [''IDENTIFY'', ''ID'', ''LOGIN'', ''AUTH'', ''REGISTER'', ''GHOST'', ''RECOVER'', ''RELEASE'', ''SET'',
        ''NEWPASS'', ''PASS''])"

definition is_credential_service :: "rstring \<Rightarrow> bool" where
  "is_credential_service target \<longleftrightarrow>
     map to_ascii_uppercase (hd (split_by (\<lambda>c. c = 0x40) target)) \<in> set (map lit
       [''NICKSERV'', ''CHANSERV'', ''USERSERV'', ''Q'', ''X'', ''AUTHSERV''])"

definition is_service_secret :: "rstring \<Rightarrow> rstring \<Rightarrow> bool" where
  "is_service_secret target body \<longleftrightarrow>
     is_credential_service target
     \<and> (case split_whitespace body of [] \<Rightarrow> False | w # _ \<Rightarrow> is_secret_service_command w)"

definition echo_text :: "rstring \<Rightarrow> rstring \<Rightarrow> rstring" where
  "echo_text target body = (if is_service_secret target body then lit ''[redacted]'' else body)"

definition target_line :: "message \<Rightarrow> history_target option" where
  "target_line m =
     (case m_command m of
        Raw verb (subcommand # name # latest # _) \<Rightarrow>
          (if \<not> eq_ignore_ascii_case verb (lit ''CHATHISTORY'')
              \<or> \<not> eq_ignore_ascii_case subcommand (lit ''TARGETS'') \<or> name = [] \<or> 64 < blen name
           then None
           else map_option (\<lambda>t. \<lparr>ht_name = name, ht_latest = t\<rparr>) (parse_server_time latest))
      | _ \<Rightarrow> None)"

definition chat_line :: "message \<Rightarrow> (rstring \<times> rstring \<times> bool) option" where
  "chat_line m =
     (case m_command m of
        PRIVMSG target body \<Rightarrow> Some (target, body, False)
      | NOTICE target body \<Rightarrow> Some (target, body, True)
      | _ \<Rightarrow> None)"

definition about :: "message \<Rightarrow> rstring \<Rightarrow> rstring \<Rightarrow> case_mapping \<Rightarrow> bool" where
  "about m target channel mapping \<longleftrightarrow>
     (if valid_channel channel then cm_same mapping target channel
      else (case m_prefix m of Some (Nickname name _ _) \<Rightarrow> same_nickname name channel | _ \<Rightarrow> False)
        \<or> same_nickname target channel)"

definition history_line :: "message \<Rightarrow> rstring \<Rightarrow> case_mapping \<Rightarrow> history_message option" where
  "history_line m channel mapping =
     (case chat_line m of
        None \<Rightarrow> None
      | Some (target, body, notice) \<Rightarrow>
          (if \<not> about m target channel mapping then None
           else if starts_with_any [1] body \<and> action_text body = None then None
           else Some
             \<lparr>hm_sender = (case m_prefix m of
                 Some (Nickname name _ _) \<Rightarrow> name | Some (ServerName name) \<Rightarrow> name | None \<Rightarrow> lit ''server''),
              hm_text = (if valid_channel channel then body else echo_text target body),
              hm_notice = notice,
              hm_server_time = Option.bind (tag_value m (lit ''time'')) parse_server_time,
              hm_msgid = msgid m, hm_account = account_tag m\<rparr>))"

definition arg_at :: "rstring list \<Rightarrow> nat \<Rightarrow> rstring option" where
  "arg_at args k = (if k < length args then Some (args ! k) else None)"

definition is_chathistory :: "rstring option \<Rightarrow> bool" where
  "is_chathistory arg \<longleftrightarrow>
     (case arg of None \<Rightarrow> False | Some a \<Rightarrow> eq_ignore_ascii_case a (lit ''CHATHISTORY''))"

definition history_failure :: "message \<Rightarrow> rstring \<Rightarrow> rstring option" where
  "history_failure m channel =
     (case m_command m of
        Raw verb args \<Rightarrow>
          (if eq_ignore_ascii_case verb (lit ''FAIL'') \<and> is_chathistory (arg_at args 0)
           then Some (lit ''History for '' @ channel @ lit '' is unavailable (''
             @ (case arg_at args 1 of Some code \<Rightarrow> code | None \<Rightarrow> []) @ lit ''): ''
             @ (if args = [] then [] else last args))
           else None)
      | Response code args \<Rightarrow>
          (if (code = ERR_UNKNOWNCOMMAND \<or> code = ERR_NEEDMOREPARAMS) \<and> is_chathistory (arg_at args 1)
           then Some (lit ''History for '' @ channel @ lit '' is unavailable: the server rejected CHATHISTORY (''
             @ (if code = ERR_UNKNOWNCOMMAND then lit ''ERR_UNKNOWNCOMMAND'' else lit ''ERR_NEEDMOREPARAMS'')
             @ lit '').'')
           else None)
      | _ \<Rightarrow> None)"

text \<open>\<open>replacen\<close> with one replacement.\<close>

fun replace_first :: "rstring \<Rightarrow> rstring \<Rightarrow> rstring \<Rightarrow> rstring" where
  "replace_first old new [] = (if old = [] then new else [])"
| "replace_first old new (c # s) =
     (case strip_prefix old (c # s) of
        Some rest \<Rightarrow> new @ rest
      | None \<Rightarrow> c # replace_first old new s)"

section \<open>Observing\<close>

text \<open>The batches of a reply that are followed.\<close>

definition followed_in :: "outstanding \<Rightarrow> rstring \<Rightarrow> bool" where
  "followed_in r reference \<longleftrightarrow> og_reference r = Some reference \<or> reference \<in> set (og_nested r)"

definition is_targets :: "page \<Rightarrow> bool" where
  "is_targets page \<longleftrightarrow> (case page of PageTargets _ _ \<Rightarrow> True | _ \<Rightarrow> False)"

definition dropped_note :: "outstanding \<Rightarrow> rstring option" where
  "dropped_note r =
     (if 0 < og_dropped r
      then Some (lit ''History for '' @ og_channel r @ lit '' had '' @ decimal (og_dropped r)
        @ lit '' more lines than kept ('' @ decimal MAX_HISTORY_LINES @ lit '').'')
      else None)"

fun enqueue_peers ::
  "(system_time \<Rightarrow> rstring) \<Rightarrow> rstring list \<Rightarrow> rstring option \<Rightarrow> history_requests
   \<Rightarrow> rstring option \<times> history_requests" where
  "enqueue_peers format_time [] note' s = (note', s)"
| "enqueue_peers format_time (peer # peers) note' s =
     (case history_enqueue format_time peer s of
        (Some full, s) \<Rightarrow> (Some full, s)
      | (None, s) \<Rightarrow> enqueue_peers format_time peers note' s)"

definition finish_request ::
  "(system_time \<Rightarrow> rstring) \<Rightarrow> outstanding \<Rightarrow> history_requests \<Rightarrow> observed \<times> history_requests" where
  "finish_request format_time r s =
     (let s = s\<lparr>hr_outstanding := None\<rparr>;
          peers = direct_targets (og_targets r);
          (note', s) =
            (if is_targets (og_page r)
             then (case enqueue_peers format_time peers (dropped_note r) s of
                     (Some note', s) \<Rightarrow> (Some note', s)
                   | (None, s) \<Rightarrow>
                       (Some (lit ''History targets: '' @ decimal (length peers)
                          @ lit '' direct-message conversation(s) asked for history.''), s))
             else (dropped_note r, s))
      in (RequestFinished
            \<lparr>fi_channel = og_channel r, fi_page = og_page r, fi_lines = og_kept r,
             fi_targets = length (og_targets r), fi_end = og_end r,
             fi_incomplete = (og_page r = PageResume \<and> \<not> og_end r \<and> og_limit r \<le> og_kept r + og_dropped r),
             fi_failed = False, fi_note = note'\<rparr>, s))"

definition batch_closed ::
  "(system_time \<Rightarrow> rstring) \<Rightarrow> rstring \<Rightarrow> history_requests \<Rightarrow> observed \<times> history_requests" where
  "batch_closed format_time reference s =
     (if reference \<in> set (hr_discarding s)
      then (Consumed, s\<lparr>hr_discarding := remove1 reference (hr_discarding s)\<rparr>)
      else
        (case hr_outstanding s of
           None \<Rightarrow> (Unrelated, s)
         | Some r \<Rightarrow>
             (if reference \<in> set (og_nested r)
              then (Consumed, s\<lparr>hr_outstanding := Some (r\<lparr>og_nested := remove1 reference (og_nested r)\<rparr>)\<rparr>)
              else if og_reference r \<noteq> Some reference then (Unrelated, s)
              else finish_request format_time r s)))"

text \<open>A batch inside a reply, or inside one that is being discarded, belongs to it.\<close>

definition batch_inside ::
  "rstring \<Rightarrow> rstring \<Rightarrow> history_requests \<Rightarrow> (observed \<times> history_requests) option" where
  "batch_inside reference parent s =
     (if parent \<in> set (hr_discarding s)
      then Some (Consumed,
        if length (hr_discarding s) < MAX_NESTED + 1
        then s\<lparr>hr_discarding := hr_discarding s @ [reference]\<rparr> else s)
      else
        (case hr_outstanding s of
           None \<Rightarrow> None
         | Some r \<Rightarrow>
             (if followed_in r parent
              then Some (Consumed,
                s\<lparr>hr_outstanding := Some
                    (if length (og_nested r) < MAX_NESTED then r\<lparr>og_nested := og_nested r @ [reference]\<rparr>
                     else r\<lparr>og_nested_overflowed := True\<rparr>)\<rparr>)
              else None)))"

definition batch_opened ::
  "rstring \<Rightarrow> rstring option \<Rightarrow> rstring list option \<Rightarrow> bool \<Rightarrow> history_requests \<Rightarrow> observed \<times> history_requests"
  where
  "batch_opened reference kind params end_tag s =
     (if kind = Some TARGETS_BATCH
      then
        (case hr_outstanding s of
           Some r \<Rightarrow>
             (if og_reference r = None \<and> is_targets (og_page r)
              then (Consumed, s\<lparr>hr_outstanding := Some (r\<lparr>og_reference := Some reference\<rparr>)\<rparr>)
              else (Unrelated, s))
         | None \<Rightarrow> (Unrelated, s))
      else if kind \<noteq> Some (lit ''CHATHISTORY'') then (Unrelated, s)
      else
        (case params of
           Some (target # _) \<Rightarrow>
             (case (case hr_outstanding s of
                      Some r \<Rightarrow>
                        (if og_reference r = None \<and> history_names s (og_channel r) target then Some r else None)
                    | None \<Rightarrow> None) of
                Some r \<Rightarrow>
                  (Consumed,
                   s\<lparr>hr_outstanding := Some (r\<lparr>og_reference := Some reference, og_end := end_tag\<rparr>)\<rparr>)
              | None \<Rightarrow>
                  (case position (\<lambda>channel. history_names s channel target) (hr_abandoned s) of
                     Some k \<Rightarrow>
                       (Consumed,
                        s\<lparr>hr_abandoned := remove_at k (hr_abandoned s),
                          hr_discarding := hr_discarding s @ [reference]\<rparr>)
                   | None \<Rightarrow> (Unrelated, s)))
         | _ \<Rightarrow> (Unrelated, s)))"

definition history_observe_batch ::
  "(system_time \<Rightarrow> rstring) \<Rightarrow> rstring \<Rightarrow> rstring option \<Rightarrow> rstring list option \<Rightarrow> rstring option \<Rightarrow> bool
   \<Rightarrow> history_requests \<Rightarrow> observed \<times> history_requests" where
  "history_observe_batch format_time reference kind params parent end_tag s =
     (case strip_prefix (lit ''-'') reference of
        Some reference \<Rightarrow> batch_closed format_time reference s
      | None \<Rightarrow>
          (case strip_prefix (lit ''+'') reference of
             None \<Rightarrow> (Unrelated, s)
           | Some reference \<Rightarrow>
               (if \<not> followed_batch reference then (Unrelated, s)
                else
                  (case (case parent of None \<Rightarrow> None | Some parent \<Rightarrow> batch_inside reference parent s) of
                     Some r \<Rightarrow> r
                   | None \<Rightarrow> batch_opened reference kind params end_tag s))))"

text \<open>Past the nesting bound, what hangs off a batch that is not followed is swallowed.\<close>

definition swallowed :: "message \<Rightarrow> history_requests \<Rightarrow> bool" where
  "swallowed m s \<longleftrightarrow>
     (case (hr_outstanding s, tag_value m (lit ''batch'')) of
        (Some r, Some parent) \<Rightarrow>
          og_nested_overflowed r
          \<and> (let closed = (case m_command m of BATCH reference _ _ \<Rightarrow> strip_prefix (lit ''-'') reference | _ \<Rightarrow> None);
                 reference = (case closed of Some c \<Rightarrow> c | None \<Rightarrow> parent)
             in \<not> (followed_in r reference \<or> reference \<in> set (hr_discarding s)))
      | _ \<Rightarrow> False)"

definition reply_line :: "message \<Rightarrow> outstanding \<Rightarrow> history_requests \<Rightarrow> observed \<times> history_requests" where
  "reply_line m r s =
     (if is_targets (og_page r)
      then (Consumed,
        (case target_line m of
           Some t \<Rightarrow>
             (if length (og_targets r) < MAX_TARGET_ENTRIES
              then s\<lparr>hr_outstanding := Some (r\<lparr>og_targets := og_targets r @ [t]\<rparr>)\<rparr> else s)
         | None \<Rightarrow> s))
      else
        (case history_line m (og_channel r) (hr_casemapping s) of
           None \<Rightarrow> (Consumed, s)
         | Some line \<Rightarrow>
             (if og_kept r < MAX_HISTORY_LINES
              then (StreamedLine \<lparr>st_channel = og_channel r, st_page = og_page r, st_message = line\<rparr>,
                    s\<lparr>hr_outstanding := Some (r\<lparr>og_kept := og_kept r + 1\<rparr>)\<rparr>)
              else (Consumed, s\<lparr>hr_outstanding := Some (r\<lparr>og_dropped := og_dropped r + 1\<rparr>)\<rparr>))))"

definition targets_note :: "page \<Rightarrow> rstring \<Rightarrow> rstring" where
  "targets_note page note' =
     (if is_targets page then replace_first (lit ''History for *'') (lit ''History targets'') note' else note')"

definition history_observe ::
  "(system_time \<Rightarrow> rstring) \<Rightarrow> message \<Rightarrow> history_requests \<Rightarrow> observed \<times> history_requests" where
  "history_observe format_time m s =
     (let batch = tag_value m (lit ''batch'')
      in if swallowed m s then (Consumed, s)
         else
           (case m_command m of
              BATCH reference kind params \<Rightarrow>
                history_observe_batch format_time reference (map_option batch_sub_str kind) params batch
                  (has_tag m END_TAG) s
            | _ \<Rightarrow>
                (if (case batch of None \<Rightarrow> False | Some reference \<Rightarrow> reference \<in> set (hr_discarding s))
                 then (Consumed, s)
                 else
                   (case hr_outstanding s of
                      None \<Rightarrow> (Unrelated, s)
                    | Some r \<Rightarrow>
                        (if (case batch of None \<Rightarrow> False | Some reference \<Rightarrow> followed_in r reference)
                         then reply_line m r s
                         else
                           (case (if og_reference r = None then history_failure m (og_channel r) else None) of
                              Some note' \<Rightarrow>
                                (let f = finished_failed (og_channel r) (og_page r)
                                           (Some (targets_note (og_page r) note'))
                                 in (RequestFinished f, fall_back f (s\<lparr>hr_outstanding := None\<rparr>)))
                            | None \<Rightarrow> (Unrelated, s)))))))"

end
