(* ===== verification/HistoryReplies.thy ===== *)
theory HistoryReplies
  imports HistoryRequests "HOL-Library.Multiset"
begin

text \<open>
  What holds of the requests for history: bounds in every reachable state, every line of a reply is
  taken out of the live traffic, every older page asked for ends exactly once, and the queue drains
  even when the server answers nothing.
\<close>

section \<open>The machine\<close>

datatype history_op =
    HrEnqueue rstring
  | HrTargets system_time system_time
  | HrOlder rstring "64 word" message_reference nat
  | HrForget rstring
  | HrNext nat
  | HrTick nat
  | HrReset
  | HrObserve message
  | HrIsupport message
  | HrCasemapping case_mapping

text \<open>What an operation reports as ended, and the next state.\<close>

fun requests_step ::
  "(system_time \<Rightarrow> rstring) \<Rightarrow> history_op \<Rightarrow> history_requests \<Rightarrow> finished list \<times> history_requests" where
  "requests_step fm (HrEnqueue channel) s = ([], snd (history_enqueue fm channel s))"
| "requests_step fm (HrTargets since now) s = ([], enqueue_targets since now s)"
| "requests_step fm (HrOlder channel request reference limit) s =
     (case enqueue_older fm channel request reference limit s of
        (None, s) \<Rightarrow> ([], s) | (Some f, s) \<Rightarrow> ([f], s))"
| "requests_step fm (HrForget channel) s = history_forget channel s"
| "requests_step fm (HrNext now) s = ([], snd (next_request fm now s))"
| "requests_step fm (HrTick now) s =
     (case history_tick now s of (None, s) \<Rightarrow> ([], s) | (Some f, s) \<Rightarrow> ([f], s))"
| "requests_step fm HrReset s = history_reset s"
| "requests_step fm (HrObserve m) s =
     (case history_observe fm m s of (RequestFinished f, s) \<Rightarrow> ([f], s) | (_, s) \<Rightarrow> ([], s))"
| "requests_step fm (HrIsupport m) s = ([], history_isupport m s)"
| "requests_step fm (HrCasemapping m) s = ([], history_set_casemapping m s)"

section \<open>Bounds\<close>

definition outstanding_ok :: "outstanding \<Rightarrow> bool" where
  "outstanding_ok r \<longleftrightarrow>
     1 \<le> og_limit r \<and> og_limit r \<le> HISTORY_LIMIT \<and> length (og_nested r) \<le> MAX_NESTED
     \<and> og_kept r \<le> MAX_HISTORY_LINES \<and> length (og_targets r) \<le> MAX_TARGET_ENTRIES
     \<and> (og_reference r = None \<longrightarrow> og_nested r = [] \<and> \<not> og_nested_overflowed r)"

definition history_inv :: "history_requests \<Rightarrow> bool" where
  "history_inv s \<longleftrightarrow>
     length (hr_queue s) \<le> MAX_QUEUED \<and> (\<forall>q \<in> set (hr_queue s). 1 \<le> qu_limit q)
     \<and> length (hr_resume s) \<le> MAX_RESUME \<and> length (hr_abandoned s) \<le> MAX_ABANDONED
     \<and> (case hr_outstanding s of None \<Rightarrow> True | Some r \<Rightarrow> outstanding_ok r)"

lemma history_limit_bounds: "1 \<le> history_limit s" "history_limit s \<le> HISTORY_LIMIT"
  by (auto simp: history_limit_def HISTORY_LIMIT_def split: option.split)

lemma length_remove_at_le: "length (remove_at k xs) \<le> length xs"
  by (simp add: remove_at_def min_def)

lemma length_swap_remove [simp]: "length (swap_remove k xs) = length xs - 1"
  by (simp add: swap_remove_def)

text \<open>Queueing touches the queue and the resume entries only.\<close>

lemma enqueue_cases:
  obtains (none) note' where "history_enqueue fm channel s = (note', s)"
  | (queued) q resume where
      "history_enqueue fm channel s = (None, s\<lparr>hr_resume := resume, hr_queue := hr_queue s @ [q]\<rparr>)"
      "length (hr_queue s) < MAX_QUEUED" "qu_limit q = HISTORY_LIMIT" "qu_channel q = channel"
      "qu_page q = PageLatest \<or> qu_page q = PageResume" "length resume \<le> length (hr_resume s)"
proof (cases "waits_or_runs (latest_of (hr_casemapping s) channel) s \<or> MAX_QUEUED \<le> length (hr_queue s)")
  case True
  then have "\<exists>note'. history_enqueue fm channel s = (note', s)" by (auto simp: history_enqueue_def)
  then show ?thesis using none by blast
next
  case False
  show ?thesis
  proof (cases "position (\<lambda>r. cm_same (hr_casemapping s) (rq_channel r) channel) (hr_resume s)")
    case None
    have "history_enqueue fm channel s = (None, s\<lparr>hr_resume := hr_resume s, hr_queue := hr_queue s @
        [\<lparr>qu_channel = channel, qu_page = PageLatest, qu_selector = lit ''*'', qu_limit = HISTORY_LIMIT\<rparr>]\<rparr>)"
      using False None by (simp add: history_enqueue_def Let_def)
    then show ?thesis by (rule queued) (use False in simp_all)
  next
    case (Some k)
    have "\<exists>q. history_enqueue fm channel s =
        (None, s\<lparr>hr_resume := swap_remove k (hr_resume s), hr_queue := hr_queue s @ [q]\<rparr>)
        \<and> qu_limit q = HISTORY_LIMIT \<and> qu_channel q = channel \<and> (qu_page q = PageLatest \<or> qu_page q = PageResume)"
      using False Some
      by (auto simp: history_enqueue_def Let_def split: option.split)
    then show ?thesis using False by (auto intro: queued)
  qed
qed

lemma enqueue_inv:
  assumes "history_inv s"
  shows "history_inv (snd (history_enqueue fm channel s))"
  using assms by (cases rule: enqueue_cases [of fm channel s])
    (auto simp: history_inv_def HISTORY_LIMIT_def MAX_QUEUED_def)

lemma fall_back_inv: "history_inv s \<Longrightarrow> history_inv (fall_back f s)"
  by (auto simp: fall_back_def history_inv_def HISTORY_LIMIT_def MAX_QUEUED_def)

lemma enqueue_outstanding: "hr_outstanding (snd (history_enqueue fm channel s)) = hr_outstanding s"
  by (cases rule: enqueue_cases [of fm channel s]) auto

lemma peers_inv: "history_inv s \<Longrightarrow> history_inv (snd (enqueue_peers fm peers note' s))"
proof (induction peers arbitrary: s)
  case (Cons peer peers)
  obtain n t where e: "history_enqueue fm peer s = (n, t)" by (rule prod.exhaust)
  then have "history_inv t" using enqueue_inv [OF Cons.prems, of fm peer] by simp
  then show ?case using Cons.IH e by (cases n) simp_all
qed simp

lemma peers_outstanding: "hr_outstanding (snd (enqueue_peers fm peers note' s)) = hr_outstanding s"
proof (induction peers arbitrary: s)
  case (Cons peer peers)
  obtain n t where e: "history_enqueue fm peer s = (n, t)" by (rule prod.exhaust)
  then have "hr_outstanding t = hr_outstanding s" using enqueue_outstanding [of fm peer s] by simp
  then show ?case using Cons.IH e by (cases n) simp_all
qed simp

lemma finish_request_state:
  "\<exists>ps n. snd (finish_request fm r s) = (if is_targets (og_page r)
     then snd (enqueue_peers fm ps n (s\<lparr>hr_outstanding := None\<rparr>)) else s\<lparr>hr_outstanding := None\<rparr>)"
proof (cases "is_targets (og_page r)")
  case True
  obtain n t where "enqueue_peers fm (direct_targets (og_targets r)) (dropped_note r) (s\<lparr>hr_outstanding := None\<rparr>) = (n, t)"
    by (rule prod.exhaust)
  then show ?thesis
    using True by (cases n)
      (auto simp: finish_request_def Let_def intro!: exI [of _ "direct_targets (og_targets r)"] exI [of _ "dropped_note r"])
qed (simp add: finish_request_def)

lemma no_outstanding_inv: "history_inv s \<Longrightarrow> history_inv (s\<lparr>hr_outstanding := None\<rparr>)"
  by (simp add: history_inv_def)

lemma finish_request_inv: "history_inv s \<Longrightarrow> history_inv (snd (finish_request fm r s))"
  using finish_request_state [of fm r s] peers_inv no_outstanding_inv by auto

lemma outstanding_inv:
  "history_inv s \<Longrightarrow> outstanding_ok r \<Longrightarrow> history_inv (s\<lparr>hr_outstanding := Some r\<rparr>)"
  by (simp add: history_inv_def)

lemma history_inv_outstanding: "history_inv s \<Longrightarrow> hr_outstanding s = Some r \<Longrightarrow> outstanding_ok r"
  by (simp add: history_inv_def)

lemma discarding_inv [simp]: "history_inv (s\<lparr>hr_discarding := d\<rparr>) = history_inv s"
  by (simp add: history_inv_def)

lemma batch_closed_inv:
  assumes "history_inv s"
  shows "history_inv (snd (batch_closed fm reference s))"
proof -
  have "history_inv (s\<lparr>hr_outstanding := Some (r\<lparr>og_nested := remove1 reference (og_nested r)\<rparr>)\<rparr>)"
    if "hr_outstanding s = Some r" for r
    using history_inv_outstanding [OF assms that] length_remove1 [of reference "og_nested r"]
    by (intro outstanding_inv [OF assms]) (auto simp: outstanding_ok_def split: if_splits)
  then show ?thesis
    using assms finish_request_inv by (simp add: batch_closed_def split: option.split)
qed

lemma batch_inside_inv:
  assumes "history_inv s" "batch_inside reference parent s = Some r"
  shows "history_inv (snd r)"
proof -
  have "history_inv (s\<lparr>hr_outstanding := Some
      (if length (og_nested q) < MAX_NESTED then q\<lparr>og_nested := og_nested q @ [reference]\<rparr>
       else q\<lparr>og_nested_overflowed := True\<rparr>)\<rparr>)"
    if "hr_outstanding s = Some q" "followed_in q parent" for q
    using history_inv_outstanding [OF assms(1) that(1)] that(2)
    by (intro outstanding_inv [OF assms(1)]) (auto simp: outstanding_ok_def followed_in_def)
  then show ?thesis
    using assms by (auto simp: batch_inside_def split: if_splits option.splits)
qed

lemma batch_opened_inv:
  assumes "history_inv s"
  shows "history_inv (snd (batch_opened reference kind params end_tag s))"
proof -
  have "history_inv (s\<lparr>hr_outstanding := Some (r\<lparr>og_reference := Some reference\<rparr>)\<rparr>)"
    "history_inv (s\<lparr>hr_outstanding := Some (r\<lparr>og_reference := Some reference, og_end := e\<rparr>)\<rparr>)"
    if "hr_outstanding s = Some r" for r e
    using history_inv_outstanding [OF assms that]
    by (intro outstanding_inv [OF assms]; simp add: outstanding_ok_def)+
  moreover have "history_inv (s\<lparr>hr_abandoned := remove_at k (hr_abandoned s), hr_discarding := d\<rparr>)" for k d
    using assms length_remove_at_le [of k "hr_abandoned s"] by (auto simp: history_inv_def)
  ultimately show ?thesis
    using assms by (auto simp: batch_opened_def split: option.splits list.splits)
qed

lemma reply_line_inv:
  assumes "history_inv s" "hr_outstanding s = Some r"
  shows "history_inv (snd (reply_line m r s))"
  using history_inv_outstanding [OF assms] assms(1)
  by (auto simp: reply_line_def outstanding_ok_def history_inv_def split: option.split)

lemma observe_inv:
  assumes inv: "history_inv s"
  shows "history_inv (snd (history_observe fm m s))"
proof -
  have "history_inv (snd (history_observe_batch fm reference kind params parent e s))" for reference kind params parent e
    using inv batch_closed_inv batch_opened_inv batch_inside_inv
    by (auto simp: history_observe_batch_def split: option.splits)
  moreover have "history_inv (fall_back f (s\<lparr>hr_outstanding := None\<rparr>))" for f
    using inv by (intro fall_back_inv no_outstanding_inv)
  ultimately show ?thesis
    using inv reply_line_inv
    by (auto simp: history_observe_def Let_def split: command.split option.split)
qed

lemma token_frame:
  "(history_token token s)\<lparr>hr_server_limit := l, hr_types := t\<rparr> = s\<lparr>hr_server_limit := l, hr_types := t\<rparr>"
  by (auto simp: history_token_def split: option.split)

text \<open>Announcements change the limit and the reference types only.\<close>

lemma isupport_frame:
  "(history_isupport m s)\<lparr>hr_server_limit := l, hr_types := t\<rparr> = s\<lparr>hr_server_limit := l, hr_types := t\<rparr>"
proof -
  have "(fold history_token tokens s)\<lparr>hr_server_limit := l, hr_types := t\<rparr> = s\<lparr>hr_server_limit := l, hr_types := t\<rparr>"
    for tokens
    by (induction tokens arbitrary: s) (simp_all add: token_frame)
  then show ?thesis by (simp add: history_isupport_def split: command.split)
qed

lemma isupport_fields [simp]:
  "hr_queue (history_isupport m s) = hr_queue s" "hr_outstanding (history_isupport m s) = hr_outstanding s"
  "hr_resume (history_isupport m s) = hr_resume s" "hr_abandoned (history_isupport m s) = hr_abandoned s"
  "hr_discarding (history_isupport m s) = hr_discarding s"
  using arg_cong [OF isupport_frame [where m = m and s = s and l = None and t = reference_types_default], of hr_queue]
    arg_cong [OF isupport_frame [where m = m and s = s and l = None and t = reference_types_default], of hr_outstanding]
    arg_cong [OF isupport_frame [where m = m and s = s and l = None and t = reference_types_default], of hr_resume]
    arg_cong [OF isupport_frame [where m = m and s = s and l = None and t = reference_types_default], of hr_abandoned]
    arg_cong [OF isupport_frame [where m = m and s = s and l = None and t = reference_types_default], of hr_discarding]
  by simp_all

lemma enqueue_older_cases:
  obtains (refused) f where "enqueue_older fm channel request reference limit s = (Some f, s)"
      "fi_channel f = channel" "fi_page f = PageBefore request"
  | (queued) q where "enqueue_older fm channel request reference limit s = (None, s\<lparr>hr_queue := q # hr_queue s\<rparr>)"
      "qu_channel q = channel" "qu_page q = PageBefore request" "1 \<le> qu_limit q" "length (hr_queue s) < MAX_QUEUED"
proof (cases "selector fm reference s = None \<or> waits_or_runs (older_of (hr_casemapping s) channel) s
    \<or> MAX_QUEUED \<le> length (hr_queue s)")
  case True
  then have "\<exists>n. enqueue_older fm channel request reference limit s
      = (Some (finished_failed channel (PageBefore request) (Some n)), s)"
    by (auto simp: enqueue_older_def Let_def split: option.split)
  then show ?thesis using refused by (auto simp: finished_failed_def)
next
  case False
  then obtain sel where sel: "selector fm reference s = Some sel" by auto
  have "enqueue_older fm channel request reference limit s = (None,
      s\<lparr>hr_queue := \<lparr>qu_channel = channel, qu_page = PageBefore request, qu_selector = sel, qu_limit = max limit 1\<rparr>
        # hr_queue s\<rparr>)"
    using False sel by (simp add: enqueue_older_def Let_def)
  then show ?thesis by (rule queued) (use False in auto)
qed

lemma next_cases:
  obtains (none) "next_request fm now s = (None, s)" "hr_outstanding s \<noteq> None \<or> hr_queue s = []"
  | (sent) q rest r where "hr_queue s = q # rest" "hr_outstanding s = None"
      "next_request fm now s =
        (Some (qu_channel q, qu_page q, request_command fm q (og_limit r)),
         s\<lparr>hr_queue := rest, hr_outstanding := Some r\<rparr>)"
      "og_channel r = qu_channel q" "og_page r = qu_page q" "og_sent r = now" "og_reference r = None"
      "og_limit r = min (qu_limit q) (history_limit s)" "og_nested r = []" "\<not> og_nested_overflowed r"
      "og_kept r = 0" "og_targets r = []"
proof (cases "hr_outstanding s \<noteq> None \<or> hr_queue s = []")
  case True
  then show ?thesis by (intro none) (auto simp: next_request_def split: list.split)
next
  case False
  then obtain q rest where "hr_queue s = q # rest" by (cases "hr_queue s") auto
  with False show ?thesis by (intro sent) (auto simp: next_request_def Let_def)
qed

lemma tick_cases:
  obtains (early) "history_tick now s = (None, s)"
      "\<And>r. hr_outstanding s = Some r \<Longrightarrow> now < og_sent r + HISTORY_RESPONSE_TIMEOUT"
  | (expired) r f d a where "hr_outstanding s = Some r" "og_sent r + HISTORY_RESPONSE_TIMEOUT \<le> now"
      "history_tick now s = (Some f, fall_back f (s\<lparr>hr_outstanding := None, hr_discarding := d, hr_abandoned := a\<rparr>))"
      "fi_channel f = og_channel r" "fi_page f = og_page r" "fi_failed f" "fi_lines f = og_kept r"
      "length a \<le> max MAX_ABANDONED (length (hr_abandoned s))"
proof (cases "\<exists>r. hr_outstanding s = Some r \<and> og_sent r + HISTORY_RESPONSE_TIMEOUT \<le> now")
  case True
  then obtain r where r: "hr_outstanding s = Some r" "og_sent r + HISTORY_RESPONSE_TIMEOUT \<le> now" by blast
  let ?f = "(finished_failed (og_channel r) (og_page r) (Some (timeout_note r)))\<lparr>fi_lines := og_kept r\<rparr>"
  have "\<exists>d a. history_tick now s = (Some ?f, fall_back ?f (s\<lparr>hr_outstanding := None, hr_discarding := d, hr_abandoned := a\<rparr>))
      \<and> length a \<le> max MAX_ABANDONED (length (hr_abandoned s))"
  proof (cases "og_reference r")
    case None
    let ?a = "(if MAX_ABANDONED \<le> length (hr_abandoned s) then drop 1 (hr_abandoned s) else hr_abandoned s) @ [og_channel r]"
    have "history_tick now s = (Some ?f, fall_back ?f (s\<lparr>hr_outstanding := None, hr_discarding := hr_discarding s, hr_abandoned := ?a\<rparr>))"
      using r None by (simp add: history_tick_def Let_def)
    moreover have "length ?a \<le> max MAX_ABANDONED (length (hr_abandoned s))"
      by (auto simp: MAX_ABANDONED_def)
    ultimately show ?thesis by blast
  next
    case (Some x)
    then have "history_tick now s = (Some ?f, fall_back ?f (s\<lparr>hr_outstanding := None,
        hr_discarding := hr_discarding s @ [x] @ og_nested r, hr_abandoned := hr_abandoned s\<rparr>))"
      using r by (simp add: history_tick_def Let_def)
    then show ?thesis by (metis max.cobounded2)
  qed
  then show ?thesis using r by (auto intro: expired simp: finished_failed_def)
next
  case False
  then have "history_tick now s = (None, s)" by (auto simp: history_tick_def not_le split: option.split)
  then show ?thesis using False by (intro early) (auto simp: not_le)
qed

lemma requests_step_inv:
  assumes inv: "history_inv s"
  shows "history_inv (snd (requests_step fm op s))"
proof (cases op)
  case (HrOlder channel request reference limit)
  then show ?thesis
    using inv by (cases rule: enqueue_older_cases [of fm channel request reference limit s])
      (simp_all add: history_inv_def MAX_QUEUED_def)
next
  case (HrNext now)
  show ?thesis
  proof (cases rule: next_cases [of fm now s])
    case (sent q rest r)
    then show ?thesis
      using inv HrNext history_limit_bounds [of s]
      by (simp add: history_inv_def outstanding_ok_def MAX_QUEUED_def)
  qed (use inv HrNext in simp)
next
  case (HrTick now)
  show ?thesis
  proof (cases rule: tick_cases [of now s])
    case (expired r f d a)
    then have "history_inv (s\<lparr>hr_outstanding := None, hr_discarding := d, hr_abandoned := a\<rparr>)"
      using inv by (auto simp: history_inv_def)
    then show ?thesis using HrTick expired(3) fall_back_inv by simp
  qed (use inv HrTick in simp)
next
  case HrReset
  then show ?thesis
    using inv by (simp add: history_reset_def history_inv_def history_default_def MAX_QUEUED_def MAX_ABANDONED_def)
next
  case (HrObserve m)
  obtain out t where o: "history_observe fm m s = (out, t)" by (rule prod.exhaust)
  then show ?thesis using observe_inv [OF inv, of fm m] HrObserve by (cases out) simp_all
next
  case (HrIsupport m)
  then show ?thesis using inv by (simp add: history_inv_def)
next
  case (HrForget channel)
  have "length (filter P (hr_queue s)) \<le> MAX_QUEUED" for P
    by (rule order_trans [OF length_filter_le]) (use inv in \<open>simp add: history_inv_def\<close>)
  then show ?thesis using inv HrForget by (simp add: history_forget_def history_inv_def Let_def)
next
  case (HrTargets since now)
  then show ?thesis using inv by (auto simp: enqueue_targets_def history_inv_def MAX_QUEUED_def MAX_DISCOVERED_def)
next
  case (HrEnqueue channel)
  then show ?thesis using enqueue_inv inv by simp
next
  case (HrCasemapping m)
  then show ?thesis using inv by (simp add: history_set_casemapping_def history_inv_def)
qed

section \<open>The batches of the reply\<close>

text \<open>The open batches a reply is made of, without a bound: its own, and every batch opened inside one of
  them by a reference that can be followed. A reference that is still being discarded names the
  discarded reply.\<close>

definition inside_reply :: "history_requests \<Rightarrow> rstring set \<Rightarrow> message \<Rightarrow> bool" where
  "inside_reply s H m \<longleftrightarrow>
     (case tag_value m (lit ''batch'') of
        None \<Rightarrow> False | Some parent \<Rightarrow> parent \<in> H \<and> parent \<notin> set (hr_discarding s))"

definition reply_root :: "history_requests \<Rightarrow> rstring option" where
  "reply_root s = Option.bind (hr_outstanding s) og_reference"

definition reply_after ::
  "history_requests \<Rightarrow> message \<Rightarrow> history_requests \<Rightarrow> rstring set \<Rightarrow> rstring set" where
  "reply_after s m t H =
     (case reply_root t of
        None \<Rightarrow> {}
      | Some root \<Rightarrow>
          (if reply_root s = None then {root}
           else
             (case m_command m of
                BATCH reference _ _ \<Rightarrow>
                  (case strip_prefix (lit ''-'') reference of
                     Some x \<Rightarrow> (if x = root then {} else H - {x})
                   | None \<Rightarrow>
                       (case strip_prefix (lit ''+'') reference of
                          Some x \<Rightarrow> (if followed_batch x \<and> inside_reply s H m then insert x H else H)
                        | None \<Rightarrow> H))
              | _ \<Rightarrow> H)))"

fun tracked_step ::
  "(system_time \<Rightarrow> rstring) \<Rightarrow> history_op \<Rightarrow> history_requests \<times> rstring set \<Rightarrow> history_requests \<times> rstring set"
  where
  "tracked_step fm op (s, H) =
     (let t = snd (requests_step fm op s)
      in (t, case op of
               HrObserve m \<Rightarrow> reply_after s m t H
             | _ \<Rightarrow> (if reply_root t = None then {} else H)))"

definition covers :: "outstanding \<Rightarrow> rstring set \<Rightarrow> bool" where
  "covers r H \<longleftrightarrow> og_nested_overflowed r \<or> (\<forall>x \<in> H. followed_in r x)"

definition reply_tracked :: "history_requests \<Rightarrow> rstring set \<Rightarrow> bool" where
  "reply_tracked s H \<longleftrightarrow>
     (case hr_outstanding s of
        None \<Rightarrow> H = {}
      | Some r \<Rightarrow> (if og_reference r = None then H = {} else covers r H))"

lemma reply_tracked_root: "reply_tracked s H \<Longrightarrow> reply_root s = None \<Longrightarrow> H = {}"
  by (auto simp: reply_tracked_def reply_root_def split: option.splits)

lemma finish_request_outstanding: "hr_outstanding (snd (finish_request fm r s)) = None"
  using finish_request_state [of fm r s] peers_outstanding by auto

lemma fall_back_outstanding [simp]:
  "hr_outstanding (fall_back f s) = hr_outstanding s" "hr_discarding (fall_back f s) = hr_discarding s"
  by (simp_all add: fall_back_def)

lemma covers_subset: "covers r H \<Longrightarrow> H' \<subseteq> H \<Longrightarrow> covers r H'"
  by (auto simp: covers_def)

lemma reply_trackedI:
  "hr_outstanding t = Some r \<Longrightarrow> og_reference r = Some root \<Longrightarrow> covers r H \<Longrightarrow> reply_tracked t H"
  by (simp add: reply_tracked_def)

lemma reply_tracked_over: "hr_outstanding t = None \<Longrightarrow> reply_tracked t (reply_after s m t H)"
  by (simp add: reply_tracked_def reply_after_def reply_root_def)

text \<open>A reply whose batch is \<open>root\<close> and whose open batches are all known.\<close>

definition replying :: "history_requests \<Rightarrow> outstanding \<Rightarrow> rstring \<Rightarrow> rstring set \<Rightarrow> bool" where
  "replying s r root H \<longleftrightarrow> hr_outstanding s = Some r \<and> og_reference r = Some root \<and> covers r H"

lemma replying_root: "replying s r root H \<Longrightarrow> reply_root s = Some root"
  by (simp add: replying_def reply_root_def)

lemma replying_after:
  assumes "replying s r root H" "hr_outstanding t = Some r'" "og_reference r' = Some root"
  shows "reply_after s m t H =
    (case m_command m of
       BATCH reference _ _ \<Rightarrow>
         (case strip_prefix (lit ''-'') reference of
            Some x \<Rightarrow> (if x = root then {} else H - {x})
          | None \<Rightarrow>
              (case strip_prefix (lit ''+'') reference of
                 Some x \<Rightarrow> (if followed_batch x \<and> inside_reply s H m then insert x H else H)
               | None \<Rightarrow> H))
     | _ \<Rightarrow> H)"
proof -
  have "reply_root t = Some root" using assms(2,3) by (simp add: reply_root_def)
  then show ?thesis using replying_root [OF assms(1)] by (simp add: reply_after_def cong: command.case_cong option.case_cong)
qed

lemma replying_unchanged:
  assumes "replying s r root H" "hr_outstanding t = Some r'" "og_reference r' = Some root"
    "og_nested r' = og_nested r" "og_nested_overflowed r' = og_nested_overflowed r"
    "reply_after s m t H \<subseteq> H \<or> og_nested_overflowed r"
  shows "reply_tracked t (reply_after s m t H)"
proof (rule reply_trackedI [OF assms(2,3)])
  have "covers r (reply_after s m t H)"
    using assms(1,6) covers_subset [of r H] by (auto simp: covers_def replying_def)
  then show "covers r' (reply_after s m t H)"
    using assms by (simp add: covers_def followed_in_def replying_def)
qed

lemma replying_closed:
  assumes s: "replying s r root H"
    and m: "m_command m = BATCH reference kind params" and x: "strip_prefix (lit ''-'') reference = Some x"
  shows "reply_tracked (snd (batch_closed fm x s)) (reply_after s m (snd (batch_closed fm x s)) H)"
proof -
  let ?t = "snd (batch_closed fm x s)" and ?H = "if x = root then {} else H - {x}"
  have sub: "covers r ?H" by (rule covers_subset [of r H]) (use s in \<open>auto simp: replying_def\<close>)
  have after: "reply_after s m t H = ?H" if "hr_outstanding t = Some r'" "og_reference r' = Some root" for t r'
    using replying_after [OF s that, of m] m x by simp
  have root: "og_reference r = Some root" and o: "hr_outstanding s = Some r" using s by (auto simp: replying_def)
  consider "x \<in> set (hr_discarding s) \<or> (x \<notin> set (og_nested r) \<and> x \<noteq> root)"
    | "x \<notin> set (hr_discarding s)" "x \<in> set (og_nested r)"
    | "x \<notin> set (hr_discarding s)" "x \<notin> set (og_nested r)" "x = root" by blast
  then show ?thesis
  proof cases
    case 1
    then have t: "hr_outstanding ?t = Some r"
      using o root by (auto simp: batch_closed_def)
    show ?thesis unfolding after [OF t root] by (rule reply_trackedI [OF t root sub])
  next
    case 2
    let ?r = "r\<lparr>og_nested := remove1 x (og_nested r)\<rparr>"
    have t: "hr_outstanding ?t = Some ?r" using 2 o by (simp add: batch_closed_def)
    have root': "og_reference ?r = Some root" using root by simp
    have "y \<in> set (remove1 x (og_nested r))" if "y \<noteq> x" "y \<in> set (og_nested r)" for y
      using that by simp
    then have "covers ?r ?H" using sub by (auto simp: covers_def followed_in_def)
    then show ?thesis unfolding after [OF t root'] by (rule reply_trackedI [OF t root'])
  next
    case 3
    then have "hr_outstanding ?t = None"
      using o root finish_request_outstanding by (simp add: batch_closed_def)
    then show ?thesis by (rule reply_tracked_over)
  qed
qed

lemma replying_opened:
  assumes s: "replying s r root H" and m: "m_command m = BATCH reference kind params"
    and x: "strip_prefix (lit ''-'') reference = None" "strip_prefix (lit ''+'') reference = Some x"
    and t: "t = snd (history_observe_batch fm reference k ps (tag_value m (lit ''batch'')) e s)"
  shows "reply_tracked t (reply_after s m t H)"
proof -
  have after: "reply_after s m t H = (if followed_batch x \<and> inside_reply s H m then insert x H else H)"
    if "hr_outstanding t = Some r'" "og_reference r' = Some root" for t r'
    using replying_after [OF s that, of m] m x by simp
  have root: "og_reference r = Some root" and o: "hr_outstanding s = Some r" and cov: "covers r H"
    using s by (auto simp: replying_def)
  have opened: "hr_outstanding (snd (batch_opened x k ps e s)) = Some r"
    using o root by (auto simp: batch_opened_def split: option.splits list.splits)
  have unchanged: "reply_tracked t (reply_after s m t H)"
    if "hr_outstanding t = Some r" "\<not> followed_batch x \<or> \<not> inside_reply s H m \<or> og_nested_overflowed r"
    by (rule replying_unchanged [OF s that(1) root refl refl]) (use that(2) after [OF that(1) root] in auto)
  show ?thesis
  proof (cases "followed_batch x")
    case False
    then have "t = s" using x t by (simp add: history_observe_batch_def)
    then show ?thesis using unchanged o False by blast
  next
    case True
    show ?thesis
    proof (cases "tag_value m (lit ''batch'')")
      case None
      then have "hr_outstanding t = Some r" using x True opened t by (simp add: history_observe_batch_def)
      then show ?thesis using unchanged None by (simp add: inside_reply_def)
    next
      case (Some p)
      consider "p \<in> set (hr_discarding s)" | "p \<notin> set (hr_discarding s)" "followed_in r p"
        | "p \<notin> set (hr_discarding s)" "\<not> followed_in r p" by blast
      then show ?thesis
      proof cases
        case 1
        then have "hr_outstanding t = Some r"
          using x True Some o t by (simp add: history_observe_batch_def batch_inside_def)
        then show ?thesis using unchanged Some 1 by (simp add: inside_reply_def)
      next
        case 2
        let ?r = "if length (og_nested r) < MAX_NESTED then r\<lparr>og_nested := og_nested r @ [x]\<rparr>
          else r\<lparr>og_nested_overflowed := True\<rparr>"
        have t': "hr_outstanding t = Some ?r"
          using x True Some o 2 t by (simp add: history_observe_batch_def batch_inside_def)
        have ref: "og_reference ?r = Some root" using root by simp
        have "covers ?r (insert x H)" using cov by (auto simp: covers_def followed_in_def)
        then have "covers ?r (reply_after s m t H)" unfolding after [OF t' ref] by (rule covers_subset) auto
        then show ?thesis by (rule reply_trackedI [OF t' ref])
      next
        case 3
        then have "hr_outstanding t = Some r"
          using x True Some o opened t by (simp add: history_observe_batch_def batch_inside_def)
        moreover have "\<not> inside_reply s H m \<or> og_nested_overflowed r"
          using cov 3 Some by (auto simp: covers_def inside_reply_def)
        ultimately show ?thesis using unchanged by blast
      qed
    qed
  qed
qed


lemma observe_fresh:
  assumes "reply_root s = None" "reply_tracked s H"
  shows "reply_tracked t (reply_after s m t H)"
  using assms
  by (auto simp: reply_tracked_def reply_after_def reply_root_def covers_def followed_in_def split: option.split)

lemma reply_line_fields:
  assumes "hr_outstanding s = Some r"
  shows "\<exists>r'. hr_outstanding (snd (reply_line m r s)) = Some r' \<and> og_reference r' = og_reference r
    \<and> og_nested r' = og_nested r \<and> og_nested_overflowed r' = og_nested_overflowed r"
  using assms
  by (cases "is_targets (og_page r)"; cases "target_line m"; cases "history_line m (og_channel r) (hr_casemapping s)")
    (simp_all add: reply_line_def)

lemma observe_line_tracked:
  assumes s: "replying s r root H" and m: "\<And>a b c. m_command m \<noteq> BATCH a b c"
    and t: "t = snd (history_observe fm m s)"
  shows "reply_tracked t (reply_after s m t H)"
proof -
  have root: "og_reference r = Some root" and o: "hr_outstanding s = Some r"
    using s by (auto simp: replying_def)
  have "\<exists>r'. hr_outstanding t = Some r' \<and> og_reference r' = og_reference r
      \<and> og_nested r' = og_nested r \<and> og_nested_overflowed r' = og_nested_overflowed r"
  proof -
    have "t = s \<or> t = snd (reply_line m r s)"
      using m root o unfolding t history_observe_def Let_def
      by (cases "m_command m") (auto split: option.splits)
    then show ?thesis using o reply_line_fields [OF o, of m] by auto
  qed
  then obtain r' where r': "hr_outstanding t = Some r'" "og_reference r' = Some root"
      "og_nested r' = og_nested r" "og_nested_overflowed r' = og_nested_overflowed r"
    using root by auto
  have "reply_after s m t H = H"
    using replying_after [OF s r'(1,2), of m] m by (simp split: command.split)
  then show ?thesis by (intro replying_unchanged [OF s r']) simp
qed

lemma observe_tracked:
  assumes "reply_tracked s H" and t: "t = snd (history_observe fm m s)"
  shows "reply_tracked t (reply_after s m t H)"
proof (cases "reply_root s")
  case None
  then show ?thesis using assms(1) by (rule observe_fresh)
next
  case (Some root)
  then obtain r where r: "replying s r root H"
    using assms(1) by (auto simp: reply_root_def reply_tracked_def replying_def split: option.splits)
  then have root: "og_reference r = Some root" and o: "hr_outstanding s = Some r"
    by (auto simp: replying_def)
  show ?thesis
  proof (cases "swallowed m s")
    case True
    then have "t = s" "og_nested_overflowed r"
      using t o by (auto simp: history_observe_def swallowed_def split: option.splits)
    then show ?thesis using replying_unchanged [OF r o root] by simp
  next
    case False
    show ?thesis
    proof (cases "\<exists>a b c. m_command m = BATCH a b c")
      case True
      then obtain reference kind params where m: "m_command m = BATCH reference kind params" by auto
      have t': "t = snd (history_observe_batch fm reference (map_option batch_sub_str kind) params
          (tag_value m (lit ''batch'')) (has_tag m END_TAG) s)"
        using t False m by (simp add: history_observe_def)
      show ?thesis
      proof (cases "strip_prefix (lit ''-'') reference")
        case (Some x)
        then show ?thesis using replying_closed [OF r m Some] t' by (simp add: history_observe_batch_def)
      next
        case minus: None
        show ?thesis
        proof (cases "strip_prefix (lit ''+'') reference")
          case None
          then have "t = s" using t' minus by (simp add: history_observe_batch_def)
          moreover have "reply_after s m s H = H" using replying_after [OF r o root, of m] m minus None by simp
          ultimately show ?thesis using assms(1) by simp
        next
          case (Some x)
          then show ?thesis by (rule replying_opened [OF r m minus _ t'])
        qed
      qed
    next
      case False
      then show ?thesis by (intro observe_line_tracked [OF r _ t]) blast
    qed
  qed
qed

lemma tracked_same: "reply_tracked s H \<Longrightarrow> hr_outstanding t = hr_outstanding s
    \<Longrightarrow> reply_tracked t (if reply_root t = None then {} else H)"
  by (auto simp: reply_tracked_def reply_root_def split: option.splits)

lemma tracked_none: "reply_root t = None \<Longrightarrow> reply_tracked t {}"
  by (auto simp: reply_tracked_def reply_root_def split: option.splits)

lemma quiet_outstanding:
  assumes "\<And>m. op \<noteq> HrObserve m" "t = snd (requests_step fm op s)"
  shows "hr_outstanding t = hr_outstanding s \<or> reply_root t = None"
proof (cases op)
  case (HrOlder channel request reference limit)
  then show ?thesis
    using assms by (cases rule: enqueue_older_cases [of fm channel request reference limit s]) simp_all
next
  case (HrNext now)
  then show ?thesis
    using assms by (cases rule: next_cases [of fm now s]) (simp_all add: reply_root_def)
next
  case (HrTick now)
  then show ?thesis
    using assms by (cases rule: tick_cases [of now s]) (simp_all add: reply_root_def)
qed (use assms in \<open>simp_all add: enqueue_outstanding enqueue_targets_def history_forget_def Let_def reply_root_def
    history_reset_def history_default_def history_set_casemapping_def\<close>)

lemma tracked_step_inv:
  assumes "history_inv s \<and> reply_tracked s H"
  shows "case tracked_step fm op (s, H) of (t, H') \<Rightarrow> history_inv t \<and> reply_tracked t H'"
proof -
  let ?t = "snd (requests_step fm op s)"
  have "history_inv ?t" using assms requests_step_inv by blast
  moreover have "reply_tracked ?t (case op of HrObserve m \<Rightarrow> reply_after s m ?t H
      | _ \<Rightarrow> (if reply_root ?t = None then {} else H))"
  proof (cases "\<exists>m. op = HrObserve m")
    case True
    then obtain m where op: "op = HrObserve m" by auto
    have "?t = snd (history_observe fm m s)"
      using op by (simp split: prod.split observed.split)
    then show ?thesis using observe_tracked assms op by simp
  next
    case False
    then have "hr_outstanding ?t = hr_outstanding s \<or> reply_root ?t = None"
      by (intro quiet_outstanding) auto
    then have "reply_tracked ?t (if reply_root ?t = None then {} else H)"
    proof
      assume "hr_outstanding ?t = hr_outstanding s"
      then show ?thesis using assms tracked_same by blast
    next
      assume "reply_root ?t = None"
      then show ?thesis using tracked_none by simp
    qed
    then show ?thesis using False by (cases op) simp_all
  qed
  ultimately show ?thesis by (simp add: Let_def)
qed

interpretation replies: machine "tracked_step fm" "\<lambda>_ _. True"
  "\<lambda>(s, H). \<exists>resume encoding. s = (history_with_resume resume)\<lparr>hr_wire := encoding\<rparr> \<and> H = {}"
  "\<lambda>(s, H). history_inv s \<and> reply_tracked s H"
proof unfold_locales
  fix x :: "history_requests \<times> rstring set"
  assume "case x of (s, H) \<Rightarrow> \<exists>resume encoding. s = (history_with_resume resume)\<lparr>hr_wire := encoding\<rparr> \<and> H = {}"
  then show "case x of (s, H) \<Rightarrow> history_inv s \<and> reply_tracked s H"
    by (auto simp: history_inv_def reply_tracked_def history_with_resume_def history_default_def)
next
  fix x :: "history_requests \<times> rstring set" and op
  assume "case x of (s, H) \<Rightarrow> history_inv s \<and> reply_tracked s H"
  then show "case tracked_step fm op x of (s, H) \<Rightarrow> history_inv s \<and> reply_tracked s H"
    using tracked_step_inv by (cases x) auto
qed


section \<open>Runs\<close>

text \<open>A run from a new connection, with what ended on the way.\<close>

fun requests_run ::
  "(system_time \<Rightarrow> rstring) \<Rightarrow> history_op list \<Rightarrow> history_requests \<Rightarrow> finished list \<times> history_requests" where
  "requests_run fm [] s = ([], s)"
| "requests_run fm (op # ops) s =
     (case requests_step fm op s of
        (ended, s) \<Rightarrow> (case requests_run fm ops s of (later, s) \<Rightarrow> (ended @ later, s)))"

definition history_new :: "resume_request list \<Rightarrow> wire_encoding option \<Rightarrow> history_requests" where
  "history_new resume encoding = (history_with_resume resume)\<lparr>hr_wire := encoding\<rparr>"

lemma new_inv: "history_inv (history_new resume encoding)" "reply_tracked (history_new resume encoding) {}"
  by (simp_all add: history_new_def history_inv_def reply_tracked_def history_with_resume_def history_default_def)

lemma tracked_run_fst: "fst (fold (tracked_step fm) ops (s, H)) = snd (requests_run fm ops s)"
proof (induction ops arbitrary: s H)
  case (Cons op ops)
  then show ?case by (simp add: Let_def split: prod.split)
qed simp

lemma tracked_run_inv:
  assumes "fold (tracked_step fm) ops (history_new resume encoding, {}) = (s, H)"
  shows "history_inv s" "reply_tracked s H"
proof -
  have "history_inv (history_new resume encoding) \<and> reply_tracked (history_new resume encoding) {}"
    using new_inv by simp
  then have "case fold (tracked_step fm) ops (history_new resume encoding, {}) of
      (s, H) \<Rightarrow> history_inv s \<and> reply_tracked s H"
    using replies.run_inv [where s = "(history_new resume encoding, {})" and ops = ops and fm = fm]
      replies.run_ok_total by auto
  then show "history_inv s" "reply_tracked s H" using assms by simp_all
qed

lemma run_history_inv: "history_inv s \<Longrightarrow> history_inv (snd (requests_run fm ops s))"
proof (induction ops arbitrary: s)
  case (Cons op ops)
  then show ?case using requests_step_inv [OF Cons.prems, of fm op] by (simp add: case_prod_beta)
qed simp

text \<open>A line that belongs to an open reply: it is tagged with one of its batches, and where it opens or closes
  a batch, that one can be followed or belongs to the reply too.\<close>

definition line_of_reply :: "rstring set \<Rightarrow> message \<Rightarrow> bool" where
  "line_of_reply H m \<longleftrightarrow>
     (case tag_value m (lit ''batch'') of None \<Rightarrow> False | Some parent \<Rightarrow> parent \<in> H)
     \<and> (case m_command m of
          BATCH reference _ _ \<Rightarrow>
            (case strip_prefix (lit ''-'') reference of
               Some x \<Rightarrow> x \<in> H
             | None \<Rightarrow>
                 (case strip_prefix (lit ''+'') reference of Some x \<Rightarrow> followed_batch x | None \<Rightarrow> False))
        | _ \<Rightarrow> True)"

lemma reply_line_related: "fst (reply_line m r s) \<noteq> Unrelated"
  by (simp add: reply_line_def split: option.split)

lemma known_or_swallowed:
  assumes s: "replying s r root H" and parent: "tag_value m (lit ''batch'') = Some p" "p \<in> H"
    and live: "\<not> swallowed m s" and m: "\<And>a b c. m_command m \<noteq> BATCH a b c"
  shows "followed_in r p \<or> p \<in> set (hr_discarding s)"
  using assms by (cases "m_command m") (auto simp: replying_def covers_def swallowed_def)

lemma close_known:
  assumes s: "replying s r root H" and parent: "tag_value m (lit ''batch'') = Some p"
    and live: "\<not> swallowed m s" and m: "m_command m = BATCH reference kind params"
    and x: "strip_prefix (lit ''-'') reference = Some x" "x \<in> H"
  shows "followed_in r x \<or> x \<in> set (hr_discarding s)"
  using assms by (auto simp: replying_def covers_def swallowed_def)

lemma open_known:
  assumes s: "replying s r root H" and parent: "tag_value m (lit ''batch'') = Some p" "p \<in> H"
    and live: "\<not> swallowed m s" and m: "m_command m = BATCH reference kind params"
    and x: "strip_prefix (lit ''-'') reference = None"
  shows "followed_in r p \<or> p \<in> set (hr_discarding s)"
  using assms by (auto simp: replying_def covers_def swallowed_def)

lemma closed_related:
  assumes "hr_outstanding s = Some r" "followed_in r x \<or> x \<in> set (hr_discarding s)"
  shows "fst (batch_closed fm x s) \<noteq> Unrelated"
  using assms
  by (auto simp: batch_closed_def followed_in_def finish_request_def Let_def split: prod.split option.split)

lemma opened_related:
  assumes "hr_outstanding s = Some r" "followed_in r p \<or> p \<in> set (hr_discarding s)"
  shows "\<exists>t. batch_inside x p s = Some (Consumed, t)"
  using assms by (auto simp: batch_inside_def)

lemma tracked_line_related:
  assumes tracked: "reply_tracked s H" and line: "line_of_reply H m"
  shows "fst (history_observe fm m s) \<noteq> Unrelated"
proof (cases "swallowed m s")
  case True
  then show ?thesis by (simp add: history_observe_def)
next
  case live: False
  obtain p where p: "tag_value m (lit ''batch'') = Some p" "p \<in> H"
    using line by (auto simp: line_of_reply_def split: option.splits)
  then obtain r root where s: "replying s r root H"
    using tracked by (auto simp: reply_tracked_def replying_def split: option.splits if_splits)
  then have o: "hr_outstanding s = Some r" by (simp add: replying_def)
  show ?thesis
  proof (cases "\<exists>a b c. m_command m = BATCH a b c")
    case True
    then obtain reference kind params where m: "m_command m = BATCH reference kind params" by auto
    show ?thesis
    proof (cases "strip_prefix (lit ''-'') reference")
      case (Some x)
      then have "x \<in> H" using line m by (simp add: line_of_reply_def p)
      then show ?thesis
        using closed_related [OF o close_known [OF s p(1) live m Some]] live m Some
        by (simp add: history_observe_def history_observe_batch_def)
    next
      case None
      obtain x where x: "strip_prefix (lit ''+'') reference = Some x" "followed_batch x"
        using line m None by (auto simp: line_of_reply_def p split: option.splits)
      obtain t where "batch_inside x p s = Some (Consumed, t)"
        using opened_related [OF o open_known [OF s p live m None]] by blast
      then show ?thesis using live m None x p by (simp add: history_observe_def history_observe_batch_def)
    qed
  next
    case False
    then have "followed_in r p \<or> p \<in> set (hr_discarding s)"
      using known_or_swallowed [OF s p live] by blast
    then show ?thesis
      using live False p o reply_line_related [of m r s]
      by (cases "m_command m") (auto simp: history_observe_def)
  qed
qed

text \<open>C7. No line of a reply is taken for live traffic: in every state a connection can reach, a line tagged
  with a batch of the open reply, of any depth, is streamed or consumed, even past the bound on nested
  batches, where the program keeps no references.\<close>

theorem reply_never_live:
  assumes "fold (tracked_step fm) ops (history_new resume encoding, {}) = (s, H)"
    and "line_of_reply H m"
  shows "fst (history_observe fm m s) \<noteq> Unrelated"
  by (rule tracked_line_related [OF tracked_run_inv(2) [OF assms(1)] assms(2)])

text \<open>A run that opens a reply.\<close>

definition sample_open :: message where
  "sample_open =
     \<lparr>m_tags = None, m_prefix = None,
      m_command = BATCH (lit ''+h'') (Some (CUSTOM (lit ''CHATHISTORY''))) (Some [lit ''#c''])\<rparr>"

definition sample_request :: "page \<Rightarrow> outstanding" where
  "sample_request page =
     \<lparr>og_channel = lit ''#c'', og_page = page, og_sent = 0, og_reference = None, og_end = False,
      og_limit = HISTORY_LIMIT, og_nested = [], og_nested_overflowed = False, og_kept = 0, og_targets = [],
      og_dropped = 0\<rparr>"

lemma sample_sent:
  "snd (requests_run fm [HrEnqueue (lit ''#c''), HrNext 0] (history_new [] None)) =
     (history_new [] None)\<lparr>hr_outstanding := Some (sample_request PageLatest)\<rparr>"
  by (simp add: history_enqueue_def history_new_def history_with_resume_def history_default_def waits_or_runs_def
      MAX_QUEUED_def next_request_def history_limit_def sample_request_def Let_def)

lemma sample_opened:
  "history_observe fm sample_open ((history_new [] None)\<lparr>hr_outstanding := Some (sample_request PageLatest)\<rparr>) =
     (Consumed, (history_new [] None)
        \<lparr>hr_outstanding := Some ((sample_request PageLatest)\<lparr>og_reference := Some (lit ''h'')\<rparr>)\<rparr>)"
  by (simp add: history_observe_def swallowed_def sample_open_def tag_value_def history_observe_batch_def strip_prefix_def
      followed_batch_def MAX_BATCH_REFERENCE_BYTES_def lit_def batch_opened_def TARGETS_BATCH_def sample_request_def
      history_names_def cm_same_def has_tag_def)

lemma sample_tracked:
  "fold (tracked_step fm) [HrEnqueue (lit ''#c''), HrNext 0, HrObserve sample_open] (history_new [] None, {}) =
     ((history_new [] None)\<lparr>hr_outstanding := Some ((sample_request PageLatest)\<lparr>og_reference := Some (lit ''h'')\<rparr>)\<rparr>,
      {lit ''h''})"
proof -
  let ?s = "(history_new [] None)\<lparr>hr_outstanding := Some (sample_request PageLatest)\<rparr>"
  have "fst (fold (tracked_step fm) [HrEnqueue (lit ''#c''), HrNext 0] (history_new [] None, {})) = ?s"
    using tracked_run_fst sample_sent by simp
  moreover have "snd (fold (tracked_step fm) [HrEnqueue (lit ''#c''), HrNext 0] (history_new [] None, {})) = {}"
    by (simp add: Let_def)
  ultimately have sent: "fold (tracked_step fm) [HrEnqueue (lit ''#c''), HrNext 0] (history_new [] None, {}) = (?s, {})"
    by (simp add: prod_eq_iff)
  have "reply_root ?s = None" by (simp add: reply_root_def sample_request_def)
  then have "tracked_step fm (HrObserve sample_open) (?s, {}) =
      ((history_new [] None)\<lparr>hr_outstanding := Some ((sample_request PageLatest)\<lparr>og_reference := Some (lit ''h'')\<rparr>)\<rparr>,
       {lit ''h''})"
    by (simp add: sample_opened reply_after_def Let_def) (simp add: reply_root_def)
  then show ?thesis using sent by simp
qed

theorem reply_never_live_witness:
  "fst (history_observe (\<lambda>_. []) (tagged_line ''h'')
     ((history_new [] None)\<lparr>hr_outstanding := Some ((sample_request PageLatest)\<lparr>og_reference := Some (lit ''h'')\<rparr>)\<rparr>))
   \<noteq> Unrelated"
proof -
  have "line_of_reply {lit ''h''} (tagged_line ''h'')"
    by (simp add: line_of_reply_def tagged_value) (simp add: tagged_line_def)
  then show ?thesis using reply_never_live [OF sample_tracked] by blast
qed

text \<open>The batches that are being discarded have no bound of their own. What may still enter their list without
  a new request: the abandoned requests, and the batches of the running one.\<close>

definition discard_room :: "history_requests \<Rightarrow> nat" where
  "discard_room s =
     length (hr_abandoned s) + (case hr_outstanding s of None \<Rightarrow> 0 | Some _ \<Rightarrow> MAX_NESTED + 1)"

definition discards :: "history_requests \<Rightarrow> history_requests \<Rightarrow> bool" where
  "discards s t \<longleftrightarrow> discard_room t \<le> discard_room s
     \<and> (length (hr_discarding t) + discard_room t \<le> length (hr_discarding s) + discard_room s
        \<or> length (hr_discarding t) \<le> MAX_NESTED + 1)"

definition sends_request :: "history_op \<Rightarrow> bool" where
  "sends_request op \<longleftrightarrow> (case op of HrNext _ \<Rightarrow> True | _ \<Rightarrow> False)"

lemma discards_same:
  assumes "hr_discarding t = hr_discarding s" "hr_abandoned t = hr_abandoned s"
    and "hr_outstanding s = None \<Longrightarrow> hr_outstanding t = None"
  shows "discards s t"
  using assms by (cases "hr_outstanding s") (auto simp: discards_def discard_room_def split: option.split)

lemma fall_back_abandoned [simp]: "hr_abandoned (fall_back f s) = hr_abandoned s"
  by (simp add: fall_back_def)

lemma enqueue_replies:
  "hr_discarding (snd (history_enqueue fm channel s)) = hr_discarding s
   \<and> hr_abandoned (snd (history_enqueue fm channel s)) = hr_abandoned s"
  by (cases rule: enqueue_cases [of fm channel s]) auto

lemma peers_replies:
  "hr_discarding (snd (enqueue_peers fm peers note' s)) = hr_discarding s
   \<and> hr_abandoned (snd (enqueue_peers fm peers note' s)) = hr_abandoned s"
proof (induction peers arbitrary: s)
  case (Cons peer peers)
  obtain n t where e: "history_enqueue fm peer s = (n, t)" by (rule prod.exhaust)
  then have "hr_discarding t = hr_discarding s \<and> hr_abandoned t = hr_abandoned s"
    using enqueue_replies [of fm peer s] by simp
  then show ?case using Cons.IH e by (cases n) simp_all
qed simp

lemma finish_request_discards: "hr_outstanding s \<noteq> None \<Longrightarrow> discards s (snd (finish_request fm r s))"
  using finish_request_state [of fm r s] peers_replies peers_outstanding
  by (intro discards_same) auto

lemma batch_closed_discards: "discards s (snd (batch_closed fm reference s))"
proof (cases "reference \<in> set (hr_discarding s)")
  case True
  have "length (remove1 reference (hr_discarding s)) \<le> length (hr_discarding s)" by (simp add: length_remove1)
  then show ?thesis using True by (simp add: batch_closed_def discards_def discard_room_def)
next
  case False
  have "discards s (s\<lparr>hr_outstanding := Some q\<rparr>)" if "hr_outstanding s = Some r" for q r
    using that by (intro discards_same) simp_all
  moreover have "discards s s" by (rule discards_same) simp_all
  ultimately show ?thesis
    using False finish_request_discards by (auto simp: batch_closed_def split: option.split)
qed

lemma batch_inside_discards: "batch_inside reference parent s = Some r \<Longrightarrow> discards s (snd r)"
  by (auto simp: batch_inside_def discards_def discard_room_def split: if_splits option.splits)

lemma position_length: "position P xs = Some k \<Longrightarrow> k < length xs"
  by (induction xs arbitrary: k) (auto split: if_splits)

lemma batch_opened_discards: "discards s (snd (batch_opened reference kind params end_tag s))"
proof -
  have "discards s (s\<lparr>hr_outstanding := Some q\<rparr>)" if "hr_outstanding s = Some r" for q r
    using that by (intro discards_same) simp_all
  moreover have "discards s s" by (rule discards_same) simp_all
  moreover have "discards s (s\<lparr>hr_abandoned := remove_at k (hr_abandoned s), hr_discarding := hr_discarding s @ [reference]\<rparr>)"
    if "position P (hr_abandoned s) = Some k" for P k
    using position_length [OF that] by (auto simp: discards_def discard_room_def remove_at_def)
  ultimately show ?thesis
    by (auto simp: batch_opened_def split: option.splits list.splits)
qed

lemma observe_discards: "discards s (snd (history_observe fm m s))"
proof -
  have "discards s (snd (history_observe_batch fm reference kind params parent e s))" for reference kind params parent e
    using batch_closed_discards batch_opened_discards batch_inside_discards discards_same [of s s]
    by (auto simp: history_observe_batch_def split: option.splits)
  moreover have "discards s (fall_back f (s\<lparr>hr_outstanding := None\<rparr>))" for f
    by (rule discards_same) simp_all
  moreover have "discards s (snd (reply_line m r s))" if "hr_outstanding s = Some r" for r
    using that by (intro discards_same) (auto simp: reply_line_def split: option.split)
  moreover have "discards s s" by (rule discards_same) simp_all
  ultimately show ?thesis
    by (auto simp: history_observe_def Let_def split: command.split option.split)
qed

lemma tick_discards:
  assumes "history_inv s"
  shows "discards s (snd (history_tick now s))"
proof (cases "hr_outstanding s")
  case (Some r)
  have "length (og_nested r) \<le> MAX_NESTED"
    using history_inv_outstanding [OF assms Some] by (simp add: outstanding_ok_def)
  then show ?thesis
    using Some by (auto simp: history_tick_def Let_def discards_def discard_room_def split: option.split)
qed (use discards_same [of s s] in \<open>simp add: history_tick_def\<close>)

lemma requests_step_discards:
  assumes "history_inv s"
  shows "if sends_request op
    then hr_discarding (snd (requests_step fm op s)) = hr_discarding s
      \<and> discard_room (snd (requests_step fm op s)) \<le> discard_room s + (MAX_NESTED + 1)
    else discards s (snd (requests_step fm op s))"
proof (cases op)
  case (HrOlder channel request reference limit)
  then show ?thesis
    by (cases rule: enqueue_older_cases [of fm channel request reference limit s])
      (simp_all add: sends_request_def discards_same)
next
  case (HrNext now)
  then show ?thesis
    by (cases rule: next_cases [of fm now s]) (simp_all add: sends_request_def discard_room_def)
next
  case (HrTick now)
  have "snd (requests_step fm op s) = snd (history_tick now s)" using HrTick by (simp split: prod.split option.split)
  then show ?thesis using tick_discards [OF assms] HrTick by (simp add: sends_request_def)
next
  case HrReset
  then show ?thesis by (simp add: sends_request_def history_reset_def history_default_def discards_def discard_room_def)
next
  case (HrObserve m)
  have "snd (requests_step fm op s) = snd (history_observe fm m s)"
    using HrObserve by (simp split: prod.split observed.split)
  then show ?thesis using observe_discards HrObserve by (simp add: sends_request_def)
next
  case (HrForget channel)
  then show ?thesis by (simp add: sends_request_def history_forget_def Let_def discards_same)
next
  case (HrTargets since now)
  then show ?thesis by (simp add: sends_request_def enqueue_targets_def discards_same)
next
  case (HrEnqueue channel)
  then show ?thesis
    using enqueue_replies [of fm channel s] enqueue_outstanding [of fm channel s]
    by (simp add: sends_request_def discards_same)
next
  case (HrCasemapping m)
  then show ?thesis by (simp add: sends_request_def history_set_casemapping_def discards_same)
next
  case (HrIsupport m)
  then show ?thesis by (simp add: sends_request_def discards_same)
qed

lemma run_discards:
  assumes "history_inv s" "discard_room s \<le> k" "length (hr_discarding s) + discard_room s \<le> k + (MAX_NESTED + 1)"
  shows "length (hr_discarding (snd (requests_run fm ops s)))
    \<le> k + (MAX_NESTED + 1) * (1 + length (filter sends_request ops))"
  using assms
proof (induction ops arbitrary: s k)
  case (Cons op ops)
  obtain ended t where t: "requests_step fm op s = (ended, t)" by (rule prod.exhaust)
  have inv: "history_inv t" using requests_step_inv [OF Cons.prems(1), of fm op] t by simp
  have run: "snd (requests_run fm (op # ops) s) = snd (requests_run fm ops t)" by (simp add: t case_prod_beta)
  note step = requests_step_discards [OF Cons.prems(1), of op fm, unfolded t snd_conv]
  show ?case
  proof (cases "sends_request op")
    case True
    then show ?thesis
      unfolding run using Cons.IH [OF inv, of "k + (MAX_NESTED + 1)"] step Cons.prems(2,3) by simp
  next
    case False
    then show ?thesis
      unfolding run using Cons.IH [OF inv, of k] step Cons.prems(2,3) by (auto simp: discards_def)
  qed
qed simp

text \<open>C10. In every state a connection can reach the requests are well formed: the queue, the resume entries,
  the abandoned requests, the nested batches, the kept lines and the targets are bounded, the limit of the
  running request is between one and fifty, and batches are nested only inside a reply that has begun.
  Only the list of batches being discarded has no fixed bound: it grows with the requests sent, by at most
  seventeen entries for each.\<close>

theorem requests_wellformed:
  "history_inv (snd (requests_run fm ops (history_new resume encoding)))
   \<and> length (hr_discarding (snd (requests_run fm ops (history_new resume encoding))))
       \<le> 17 * (1 + length (filter sends_request ops))"
proof (rule conjI)
  let ?s = "history_new resume encoding"
  show "history_inv (snd (requests_run fm ops ?s))" by (rule run_history_inv) (rule new_inv(1))
  have "hr_discarding ?s = []" "discard_room ?s = 0"
    by (simp_all add: history_new_def history_with_resume_def history_default_def discard_room_def)
  then show "length (hr_discarding (snd (requests_run fm ops ?s))) \<le> 17 * (1 + length (filter sends_request ops))"
    using run_discards [OF new_inv(1), of resume encoding 0 fm ops] by (simp add: MAX_NESTED_def)
qed

section \<open>Older pages\<close>

text \<open>The requests for older pages among pages, those that wait or run, and those an operation asks for.\<close>

fun older_ids :: "page list \<Rightarrow> 64 word multiset" where
  "older_ids [] = {#}"
| "older_ids (PageBefore request # pages) = add_mset request (older_ids pages)"
| "older_ids (_ # pages) = older_ids pages"

definition older_pending :: "history_requests \<Rightarrow> 64 word multiset" where
  "older_pending s = older_ids (map qu_page (hr_queue s))
     + (case hr_outstanding s of None \<Rightarrow> {#} | Some r \<Rightarrow> older_ids [og_page r])"

definition older_asked :: "history_op \<Rightarrow> 64 word multiset" where
  "older_asked op = (case op of HrOlder _ request _ _ \<Rightarrow> {#request#} | _ \<Rightarrow> {#})"

definition older_ended :: "finished list \<Rightarrow> 64 word multiset" where
  "older_ended fs = older_ids (map fi_page fs)"

lemma older_ids_append [simp]: "older_ids (ps @ qs) = older_ids ps + older_ids qs"
  by (induction ps rule: older_ids.induct) simp_all

lemma older_ids_cons: "older_ids (p # ps) = older_ids [p] + older_ids ps"
  by (cases p) simp_all

lemma older_ended_simps [simp]:
  "older_ended [] = {#}" "older_ended [f] = older_ids [fi_page f]" "older_ended (fs @ gs) = older_ended fs + older_ended gs"
  by (simp_all add: older_ended_def)

lemma older_ended_queued:
  "older_ended (queued_ended qs) = older_ids (map qu_page qs)"
proof (induction qs)
  case (Cons q qs)
  then show ?case
    by (cases "qu_page q") (simp_all add: queued_ended_def older_ended_def is_before_def finished_failed_def)
qed (simp add: queued_ended_def)

lemma older_split:
  "older_ids (map qu_page (filter (\<lambda>q. \<not> P q) qs)) + older_ids (map qu_page (filter P qs)) = older_ids (map qu_page qs)"
proof (induction qs)
  case (Cons q qs)
  then show ?case by (cases "qu_page q") auto
qed simp

lemma older_discarding [simp]: "older_pending (s\<lparr>hr_discarding := d\<rparr>) = older_pending s"
  by (simp add: older_pending_def)

lemma older_same_page:
  "hr_outstanding s = Some r \<Longrightarrow> og_page r' = og_page r
   \<Longrightarrow> older_pending (s\<lparr>hr_outstanding := Some r'\<rparr>) = older_pending s"
  by (simp add: older_pending_def)

lemma older_enqueue [simp]: "older_pending (snd (history_enqueue fm channel s)) = older_pending s"
  by (cases rule: enqueue_cases [of fm channel s]) (auto simp: older_pending_def)

lemma older_fall_back [simp]: "older_pending (fall_back f s) = older_pending s"
  by (simp add: fall_back_def older_pending_def)

lemma older_peers: "older_pending (snd (enqueue_peers fm peers note' s)) = older_pending s"
proof (induction peers arbitrary: s)
  case (Cons peer peers)
  obtain n t where e: "history_enqueue fm peer s = (n, t)" by (rule prod.exhaust)
  then have "older_pending t = older_pending s" using older_enqueue [of fm peer s] by simp
  then show ?case using Cons.IH e by (cases n) simp_all
qed simp

lemma older_finish_request:
  assumes "hr_outstanding s = Some r"
  shows "older_pending (snd (finish_request fm r s)) + older_ids [og_page r] = older_pending s"
proof -
  have "older_pending (s\<lparr>hr_outstanding := None\<rparr>) + older_ids [og_page r] = older_pending s"
    using assms by (simp add: older_pending_def)
  then show ?thesis using finish_request_state [of fm r s] older_peers by (auto split: if_splits)
qed

text \<open>What an observation reports as ended.\<close>

definition observed_ended :: "observed \<Rightarrow> finished list" where
  "observed_ended out = (case out of RequestFinished f \<Rightarrow> [f] | _ \<Rightarrow> [])"

lemma finish_request_ended:
  "\<exists>f t. finish_request fm r s = (RequestFinished f, t) \<and> fi_page f = og_page r"
  by (simp add: finish_request_def Let_def split: prod.split option.split)

lemma older_closed:
  "older_pending (snd (batch_closed fm x s)) + older_ended (observed_ended (fst (batch_closed fm x s))) = older_pending s"
proof (cases "x \<in> set (hr_discarding s)")
  case True
  then show ?thesis by (simp add: batch_closed_def observed_ended_def)
next
  case False
  show ?thesis
  proof (cases "hr_outstanding s")
    case None
    then show ?thesis using False by (simp add: batch_closed_def observed_ended_def)
  next
    case (Some r)
    obtain f t where f: "finish_request fm r s = (RequestFinished f, t)" "fi_page f = og_page r"
      using finish_request_ended by blast
    then have "older_pending t + older_ids [og_page r] = older_pending s"
      using older_finish_request [OF Some, of fm] by simp
    then show ?thesis
      using False Some f by (simp add: batch_closed_def observed_ended_def older_same_page [OF Some])
  qed
qed

lemma older_opened:
  "older_pending (snd (batch_opened x kind params e s)) = older_pending s
   \<and> observed_ended (fst (batch_opened x kind params e s)) = []"
  by (auto simp: batch_opened_def observed_ended_def older_pending_def split: option.splits list.splits)

lemma older_inside:
  assumes "batch_inside x p s = Some (out, t)"
  shows "older_pending t = older_pending s" "observed_ended out = []"
  using assms by (auto simp: batch_inside_def observed_ended_def older_pending_def split: option.splits if_splits)

lemma older_batch:
  "older_pending (snd (history_observe_batch fm reference kind params parent e s))
     + older_ended (observed_ended (fst (history_observe_batch fm reference kind params parent e s))) = older_pending s"
proof (cases "strip_prefix (lit ''-'') reference")
  case (Some x)
  then show ?thesis by (simp add: history_observe_batch_def older_closed)
next
  case minus: None
  show ?thesis
  proof (cases "strip_prefix (lit ''+'') reference")
    case None
    then show ?thesis by (simp add: history_observe_batch_def minus observed_ended_def)
  next
    case (Some x)
    show ?thesis
    proof (cases "case parent of None \<Rightarrow> None | Some parent \<Rightarrow> batch_inside x parent s")
      case None
      then show ?thesis using Some minus older_opened by (simp add: history_observe_batch_def observed_ended_def)
    next
      case inside: (Some ot)
      obtain out t where ot: "ot = (out, t)" by (rule prod.exhaust)
      then obtain p where "parent = Some p" "batch_inside x p s = Some (out, t)"
        using inside by (auto split: option.splits)
      then show ?thesis using Some minus older_inside [of x p s out t] by (simp add: history_observe_batch_def observed_ended_def)
    qed
  qed
qed

lemma older_line:
  assumes "hr_outstanding s = Some r"
  shows "older_pending (snd (reply_line m r s)) = older_pending s \<and> observed_ended (fst (reply_line m r s)) = []"
  using assms
  by (cases "is_targets (og_page r)"; cases "target_line m"; cases "history_line m (og_channel r) (hr_casemapping s)")
    (simp_all add: reply_line_def observed_ended_def older_pending_def)

lemma older_observe:
  "older_pending (snd (history_observe fm m s)) + older_ended (observed_ended (fst (history_observe fm m s)))
     = older_pending s"
proof -
  have none: "older_ended (observed_ended Consumed) = {#}" "older_ended (observed_ended Unrelated) = {#}"
    by (simp_all add: observed_ended_def)
  consider "swallowed m s" | a b c where "\<not> swallowed m s" "m_command m = BATCH a b c"
    | "\<not> swallowed m s" "\<And>a b c. m_command m \<noteq> BATCH a b c" by blast
  then show ?thesis
  proof cases
    case 1
    then show ?thesis by (simp add: history_observe_def none)
  next
    case 2
    then show ?thesis using older_batch by (simp add: history_observe_def)
  next
    case 3
    then have "history_observe fm m s = (Consumed, s) \<or> history_observe fm m s = (Unrelated, s)
      \<or> (\<exists>r. hr_outstanding s = Some r \<and> history_observe fm m s = reply_line m r s)
      \<or> (\<exists>r f. hr_outstanding s = Some r \<and> fi_page f = og_page r
           \<and> history_observe fm m s = (RequestFinished f, fall_back f (s\<lparr>hr_outstanding := None\<rparr>)))"
      unfolding history_observe_def Let_def
      by (cases "m_command m") (auto simp: finished_failed_def split: option.splits)
    then show ?thesis
    proof (elim disjE exE conjE)
      fix r assume "hr_outstanding s = Some r" "history_observe fm m s = reply_line m r s"
      then show ?thesis using older_line [of s r m] by simp
    next
      fix r f
      assume "hr_outstanding s = Some r" "fi_page f = og_page r"
        "history_observe fm m s = (RequestFinished f, fall_back f (s\<lparr>hr_outstanding := None\<rparr>))"
      then show ?thesis by (simp add: observed_ended_def older_pending_def [of s] older_pending_def [of "s\<lparr>hr_outstanding := None\<rparr>"])
    qed (simp_all add: none)
  qed
qed


lemma older_step:
  "older_pending (snd (requests_step fm op s)) + older_ended (fst (requests_step fm op s))
     = older_pending s + older_asked op"
proof (cases op)
  case (HrOlder channel request reference limit)
  then show ?thesis
    by (cases rule: enqueue_older_cases [of fm channel request reference limit s])
      (simp_all add: older_asked_def older_pending_def)
next
  case (HrNext now)
  show ?thesis
  proof (cases rule: next_cases [of fm now s])
    case (sent q rest r)
    have "older_ids (map qu_page (hr_queue s)) = older_ids [qu_page q] + older_ids (map qu_page rest)"
      unfolding sent by (simp add: older_ids_cons [of "qu_page q" "map qu_page rest"])
    then show ?thesis using sent HrNext by (simp add: older_asked_def older_pending_def)
  qed (use HrNext in \<open>simp add: older_asked_def\<close>)
next
  case (HrTick now)
  show ?thesis
  proof (cases rule: tick_cases [of now s])
    case (expired r f d a)
    then show ?thesis using HrTick by (simp add: older_asked_def older_pending_def [of s] older_pending_def [of "s\<lparr>hr_outstanding := None, hr_discarding := d, hr_abandoned := a\<rparr>"])
  qed (use HrTick in \<open>simp add: older_asked_def\<close>)
next
  case HrReset
  have "older_ended (case hr_outstanding s of None \<Rightarrow> [] | Some r \<Rightarrow> [finished_failed (og_channel r) (og_page r) None])
      = (case hr_outstanding s of None \<Rightarrow> {#} | Some r \<Rightarrow> older_ids [og_page r])"
    by (simp add: finished_failed_def split: option.split)
  then show ?thesis
    using HrReset by (simp add: older_asked_def history_reset_def history_default_def older_ended_queued older_pending_def)
next
  case (HrForget channel)
  then show ?thesis
    using older_split [of "\<lambda>q. cm_same (hr_casemapping s) (qu_channel q) channel" "hr_queue s"]
    by (simp add: older_asked_def history_forget_def Let_def older_ended_queued older_pending_def)
next
  case (HrObserve m)
  obtain out t where o: "history_observe fm m s = (out, t)" by (rule prod.exhaust)
  then show ?thesis using HrObserve older_observe [of fm m s]
    by (cases out) (simp_all add: older_asked_def observed_ended_def)
next
  case (HrTargets since now)
  then show ?thesis by (simp add: older_asked_def enqueue_targets_def older_pending_def)
next
  case (HrEnqueue channel)
  then show ?thesis by (simp add: older_asked_def)
qed (simp_all add: older_asked_def older_pending_def history_set_casemapping_def)

lemma older_run:
  "older_pending (snd (requests_run fm ops s)) + older_ended (fst (requests_run fm ops s))
     = older_pending s + (\<Sum>op\<leftarrow>ops. older_asked op)"
proof (induction ops arbitrary: s)
  case (Cons op ops)
  obtain fs t where st: "requests_step fm op s = (fs, t)" by (rule prod.exhaust)
  obtain gs u where run: "requests_run fm ops t = (gs, u)" by (rule prod.exhaust)
  show ?case
    using older_step [of fm op s] Cons.IH [of t] st run
    by (simp add: ac_simps)
qed simp

text \<open>C8. Every older page that is asked for ends exactly once: on every run the requests that waited or were
  asked for are those that have been reported as ended and those that still wait or run, each as often as it
  was asked for. None is lost when a channel is left, the reply times out, the capability goes away or the
  queue is full.\<close>

theorem older_requests_accounted:
  "older_ended (fst (requests_run fm ops (history_new resume encoding)))
     + older_pending (snd (requests_run fm ops (history_new resume encoding))) = (\<Sum>op\<leftarrow>ops. older_asked op)"
proof -
  have "older_pending (history_new resume encoding) = {#}"
    by (simp add: older_pending_def history_new_def history_with_resume_def history_default_def)
  then show ?thesis using older_run [of fm ops "history_new resume encoding"] by (simp add: ac_simps)
qed

section \<open>Draining\<close>

text \<open>A server that answers nothing: the next request is sent, and given up when it times out.\<close>

fun silent_rounds ::
  "(system_time \<Rightarrow> rstring) \<Rightarrow> nat \<Rightarrow> nat \<Rightarrow> history_requests \<Rightarrow> history_requests" where
  "silent_rounds fm now 0 s = s"
| "silent_rounds fm now (Suc n) s =
     (let later = now + HISTORY_RESPONSE_TIMEOUT
      in silent_rounds fm later n (snd (history_tick later (snd (next_request fm now s)))))"

text \<open>A request for missed lines is asked for a second time, without a reference, when it fails.\<close>

definition queue_work :: "queued list \<Rightarrow> nat" where
  "queue_work qs = (\<Sum>q\<leftarrow>qs. if qu_page q = PageResume then 2 else 1)"

lemma queue_work_bound: "queue_work qs \<le> 2 * length qs"
  by (induction qs) (simp_all add: queue_work_def)

lemma silent_round:
  assumes "hr_outstanding s = None" "hr_queue s \<noteq> []"
  shows "hr_outstanding (snd (history_tick (now + HISTORY_RESPONSE_TIMEOUT) (snd (next_request fm now s)))) = None"
    "queue_work (hr_queue (snd (history_tick (now + HISTORY_RESPONSE_TIMEOUT) (snd (next_request fm now s)))))
       < queue_work (hr_queue s)"
proof -
  have "hr_outstanding (snd (history_tick (now + HISTORY_RESPONSE_TIMEOUT) (snd (next_request fm now s)))) = None
    \<and> queue_work (hr_queue (snd (history_tick (now + HISTORY_RESPONSE_TIMEOUT) (snd (next_request fm now s)))))
       < queue_work (hr_queue s)"
  proof (cases rule: next_cases [of fm now s])
    case (sent q rest r)
    then have o: "hr_outstanding (snd (next_request fm now s)) = Some r" by simp
    show ?thesis
    proof (cases rule: tick_cases [of "now + HISTORY_RESPONSE_TIMEOUT" "snd (next_request fm now s)"])
      case early
      then show ?thesis using o sent by fastforce
    next
      case (expired r' f d a)
      then have "fi_page f = qu_page q" using o sent by simp
      then show ?thesis using expired sent by (simp add: fall_back_def queue_work_def)
    qed
  qed (use assms in auto)
  then show "hr_outstanding (snd (history_tick (now + HISTORY_RESPONSE_TIMEOUT) (snd (next_request fm now s)))) = None"
    "queue_work (hr_queue (snd (history_tick (now + HISTORY_RESPONSE_TIMEOUT) (snd (next_request fm now s)))))
       < queue_work (hr_queue s)" by simp_all
qed

lemma silent_idle:
  "hr_outstanding s = None \<Longrightarrow> queue_work (hr_queue s) \<le> n
   \<Longrightarrow> hr_queue (silent_rounds fm now n s) = [] \<and> hr_outstanding (silent_rounds fm now n s) = None"
proof (induction n arbitrary: s now)
  case 0
  then show ?case by (cases "hr_queue s") (simp_all add: queue_work_def split: if_splits)
next
  case (Suc n)
  show ?case
  proof (cases "hr_queue s = []")
    case True
    then have "snd (history_tick later (snd (next_request fm now s))) = s" for later
      using Suc.prems by (simp add: next_request_def history_tick_def)
    then show ?thesis using Suc.IH [of s] Suc.prems True by (simp add: Let_def queue_work_def)
  next
    case False
    show ?thesis
      using Suc.IH [OF silent_round(1) [OF Suc.prems(1) False]] silent_round(2) [OF Suc.prems(1) False, of now fm] Suc.prems
      by (simp add: Let_def)
  qed
qed

text \<open>C9. The queue drains even when the server answers nothing: from every state a connection can reach, at
  most 129 rounds of sending the next request and giving it up after thirty seconds leave nothing waiting and
  nothing running, although a failed request for missed lines is asked for once more.\<close>

theorem requests_drain:
  assumes "s = snd (requests_run fm ops (history_new resume encoding))"
    "case hr_outstanding s of None \<Rightarrow> True | Some r \<Rightarrow> og_sent r \<le> now"
  shows "hr_queue (silent_rounds fm now (2 * MAX_QUEUED + 1) s) = []
    \<and> hr_outstanding (silent_rounds fm now (2 * MAX_QUEUED + 1) s) = None"
proof -
  have inv: "history_inv s" using new_inv(1) by (simp add: assms(1) run_history_inv)
  let ?later = "now + HISTORY_RESPONSE_TIMEOUT"
  let ?t = "snd (history_tick ?later (snd (next_request fm now s)))"
  have t: "?t = snd (requests_step fm (HrTick ?later) (snd (requests_step fm (HrNext now) s)))"
    by (simp split: prod.split option.split)
  have "history_inv ?t" unfolding t by (intro requests_step_inv inv)
  then have "queue_work (hr_queue ?t) \<le> 2 * MAX_QUEUED"
    using queue_work_bound [of "hr_queue ?t"] by (simp add: history_inv_def)
  moreover have "hr_outstanding ?t = None"
  proof (cases "hr_outstanding s")
    case None
    then show ?thesis
      using silent_round(1) [of s now fm]
      by (cases "hr_queue s = []") (simp_all add: next_request_def history_tick_def)
  next
    case (Some r)
    then have "snd (next_request fm now s) = s" by (simp add: next_request_def)
    then show ?thesis
      using Some assms(2) by (cases rule: tick_cases [of ?later s]) auto
  qed
  ultimately show ?thesis using silent_idle [of ?t "2 * MAX_QUEUED" fm ?later] by (simp add: Let_def)
qed


theorem requests_drain_witness:
  "hr_queue (silent_rounds (\<lambda>_. []) 0 (2 * MAX_QUEUED + 1)
     (snd (requests_run (\<lambda>_. []) [HrTargets 0 0] (history_new [] None)))) = []"
proof -
  have "case hr_outstanding (snd (requests_run (\<lambda>_. []) [HrTargets 0 0] (history_new [] None))) of
      None \<Rightarrow> True | Some r \<Rightarrow> og_sent r \<le> 0"
    by (simp add: history_new_def history_with_resume_def history_default_def enqueue_targets_def)
  then show ?thesis using requests_drain [OF refl] by blast
qed


section \<open>A reply that was given up\<close>

text \<open>The bound on nested batches is forgotten when a reply is given up: what hangs off a batch past the bound
  is no longer taken out of the live traffic, although the rest of the reply is.\<close>

lemma given_up_reply_leaks:
  assumes "hr_outstanding s = Some r" "og_reference r = Some root" "og_sent r + HISTORY_RESPONSE_TIMEOUT \<le> now"
    and "tag_value m (lit ''batch'') = Some p" "p \<notin> set (root # og_nested r @ hr_discarding s)"
    and "\<And>a b c. m_command m \<noteq> BATCH a b c"
  shows "fst (history_observe fm m (snd (history_tick now s))) = Unrelated"
proof -
  have "hr_outstanding (snd (history_tick now s)) = None"
    "hr_discarding (snd (history_tick now s)) = hr_discarding s @ [root] @ og_nested r"
    using assms(1-3) by (simp_all add: history_tick_def Let_def)
  then show ?thesis
    using assms(4-6) by (cases "m_command m") (auto simp: history_observe_def swallowed_def)
qed

end
