(* ===== verification/Utf8.thy ===== *)
theory Utf8
  imports Prelude "HOL-Library.Word"
begin

text \<open>
  \<open>std::str::from_utf8\<close> and \<open>String::from_utf8_lossy\<close> of the Rust standard library: the checked reading
  of bytes, one character or one maximal invalid part at a time, and the proof that it reads back what
  \<open>as_bytes\<close> gives.
\<close>

type_synonym byte = "8 word"

definition as_bytes :: "rstring \<Rightarrow> byte list" where
  "as_bytes s = map of_nat (utf8 s)"

section \<open>Reading one character\<close>

definition continuation :: "nat \<Rightarrow> bool" where
  "continuation b \<longleftrightarrow> 0x80 \<le> b \<and> b \<le> 0xBF"

text \<open>The second byte a three byte and a four byte sequence may have.\<close>

definition second_of_three :: "nat \<Rightarrow> nat \<Rightarrow> bool" where
  "second_of_three a b \<longleftrightarrow>
     (if a = 0xE0 then 0xA0 \<le> b \<and> b \<le> 0xBF else if a = 0xED then 0x80 \<le> b \<and> b \<le> 0x9F else continuation b)"

definition second_of_four :: "nat \<Rightarrow> nat \<Rightarrow> bool" where
  "second_of_four a b \<longleftrightarrow>
     (if a = 0xF0 then 0x90 \<le> b \<and> b \<le> 0xBF else if a = 0xF4 then 0x80 \<le> b \<and> b \<le> 0x8F else continuation b)"

text \<open>The character, none for an invalid part, and how many bytes it takes.\<close>

definition read_char :: "nat list \<Rightarrow> rchar option \<times> nat" where
  "read_char bs =
     (let at = (\<lambda>k. if k < length bs then bs ! k else 0); a = at 0 in
      if a < 0x80 then (Some a, 1)
      else if 0xC2 \<le> a \<and> a \<le> 0xDF
      then (if continuation (at 1) then (Some ((a - 0xC0) * 0x40 + (at 1 - 0x80)), 2) else (None, 1))
      else if 0xE0 \<le> a \<and> a \<le> 0xEF
      then
        (if \<not> second_of_three a (at 1) then (None, 1)
         else if \<not> continuation (at 2) then (None, 2)
         else (Some ((a - 0xE0) * 0x1000 + (at 1 - 0x80) * 0x40 + (at 2 - 0x80)), 3))
      else if 0xF0 \<le> a \<and> a \<le> 0xF4
      then
        (if \<not> second_of_four a (at 1) then (None, 1)
         else if \<not> continuation (at 2) then (None, 2)
         else if \<not> continuation (at 3) then (None, 3)
         else (Some ((a - 0xF0) * 0x40000 + (at 1 - 0x80) * 0x1000 + (at 2 - 0x80) * 0x40 + (at 3 - 0x80)), 4))
      else (None, 1))"

lemma read_char_progress: "1 \<le> snd (read_char bs)"
  by (simp add: read_char_def Let_def)

section \<open>Reading a text\<close>

lemma read_char_pair: "(c, n) = read_char bs \<Longrightarrow> 0 < n"
  using read_char_progress [of bs] by (metis less_eq_Suc_le One_nat_def snd_conv)

function read_utf8 :: "nat list \<Rightarrow> rchar option list" where
  "read_utf8 [] = []"
| "read_utf8 (b # bs) =
     (case read_char (b # bs) of (c, n) \<Rightarrow> c # read_utf8 (drop n (b # bs)))"
  by pat_completeness auto

termination by (relation "measure length") (auto dest: read_char_pair)

definition from_utf8 :: "byte list \<Rightarrow> rstring option" where
  "from_utf8 bs =
     (let cs = read_utf8 (map unat bs) in if None \<in> set cs then None else Some (map the cs))"

text \<open>An invalid part becomes the replacement character.\<close>

definition from_utf8_lossy :: "byte list \<Rightarrow> rstring" where
  "from_utf8_lossy bs = map (\<lambda>c. case c of Some c \<Rightarrow> c | None \<Rightarrow> 0xFFFD) (read_utf8 (map unat bs))"

section \<open>Reading back\<close>

text \<open>A Unicode scalar value: no surrogate.\<close>

definition is_scalar :: "rchar \<Rightarrow> bool" where
  "is_scalar c \<longleftrightarrow> c < 0xD800 \<or> (0xE000 \<le> c \<and> c \<le> 0x10FFFF)"

text \<open>A character by its digits in base 64.\<close>

lemma base_64:
  fixes c :: nat
  obtains w x y z where "c = w * 262144 + x * 4096 + y * 64 + z" "x < 64" "y < 64" "z < 64"
    "c div 0x40 = w * 4096 + x * 64 + y" "c div 0x1000 = w * 64 + x" "c div 0x40000 = w"
    "c mod 0x40 = z" "c div 0x40 mod 0x40 = y" "c div 0x1000 mod 0x40 = x"
proof -
  define p q where "p = c div 0x40" and "q = p div 0x40"
  have e: "c div 0x1000 = q" "c div 0x40000 = q div 64"
    by (simp_all add: p_def q_def flip: div_mult2_eq)
  have s: "c = p * 64 + c mod 64" "p = q * 64 + p mod 64" "q = q div 64 * 64 + q mod 64"
    by (simp_all add: p_def q_def)
  have "c = q div 64 * 262144 + (q mod 64) * 4096 + (p mod 64) * 64 + c mod 64"
    "p = q div 64 * 4096 + q mod 64 * 64 + p mod 64" using s by linarith+
  moreover have "q mod 64 < 64" "p mod 64 < 64" "c mod 64 < 64" by simp_all
  moreover have "c div 0x40 = p" by (simp add: p_def)
  ultimately show ?thesis
    using that [of "q div 64" "q mod 64" "p mod 64" "c mod 64"] s(3) e by metis
qed

lemma read_two: "2 \<le> y \<Longrightarrow> y < 0x20 \<Longrightarrow> z < 64 \<Longrightarrow> read_char ((0xC0 + y) # (0x80 + z) # bs) = (Some (y * 64 + z), 2)"
  by (simp add: read_char_def continuation_def Let_def)

lemma read_three:
  assumes "x < 16" "y < 64" "z < 64" "x = 0 \<Longrightarrow> 0x20 \<le> y" "x = 0xD \<Longrightarrow> y < 0x20"
  shows "read_char ((0xE0 + x) # (0x80 + y) # (0x80 + z) # bs) = (Some (x * 4096 + y * 64 + z), 3)"
proof -
  have "second_of_three (0xE0 + x) (0x80 + y)"
    using assms by (auto simp: second_of_three_def continuation_def)
  then show ?thesis using assms(1-3) by (simp add: read_char_def continuation_def Let_def)
qed

lemma read_four:
  assumes "w < 5" "x < 64" "y < 64" "z < 64" "w = 0 \<Longrightarrow> 0x10 \<le> x" "w = 4 \<Longrightarrow> x < 0x10"
  shows "read_char ((0xF0 + w) # (0x80 + x) # (0x80 + y) # (0x80 + z) # bs)
    = (Some (w * 262144 + x * 4096 + y * 64 + z), 4)"
proof -
  have "second_of_four (0xF0 + w) (0x80 + x)"
    using assms by (auto simp: second_of_four_def continuation_def)
  then show ?thesis using assms(1-4) by (simp add: read_char_def continuation_def Let_def)
qed

lemma read_char_utf8:
  assumes "is_scalar c"
  shows "read_char (utf8_char c @ bs) = (Some c, length (utf8_char c))"
proof -
  obtain w x y z where c: "c = w * 262144 + x * 4096 + y * 64 + z" and lt: "x < 64" "y < 64" "z < 64"
    and d: "c div 0x40 = w * 4096 + x * 64 + y" "c div 0x1000 = w * 64 + x" "c div 0x40000 = w"
      "c mod 0x40 = z" "c div 0x40 mod 0x40 = y" "c div 0x1000 mod 0x40 = x"
    by (rule base_64)
  consider "c < 0x80" | "0x80 \<le> c" "c < 0x800" | "0x800 \<le> c" "c < 0x10000" | "0x10000 \<le> c" "c \<le> 0x10FFFF"
    using assms by (fastforce simp: is_scalar_def)
  then show ?thesis
  proof cases
    case 1
    then show ?thesis by (simp add: utf8_char_def read_char_def)
  next
    case 2
    have w: "w = 0" "x = 0" using 2 c by (cases w; cases x; simp)+
    have y: "2 \<le> y" "y < 0x20" using 2 c lt w by linarith+
    have "utf8_char c = [0xC0 + y, 0x80 + z]" using 2 d w by (simp add: utf8_char_def)
    then show ?thesis using read_two [OF y lt(3), of bs] c w by simp
  next
    case 3
    have w: "w = 0" using 3 c by (cases w) simp_all
    have x: "x < 16" using 3 c w lt by linarith
    have y: "0x20 \<le> y" if "x = 0" using that 3 c w lt by linarith
    have y': "y < 0x20" if "x = 0xD" using that assms c w lt unfolding is_scalar_def by linarith
    have "utf8_char c = [0xE0 + x, 0x80 + y, 0x80 + z]" using 3 d w by (simp add: utf8_char_def)
    then show ?thesis using read_three [OF x lt(2,3) y y', of bs] c w by simp
  next
    case 4
    have w: "w < 5" using 4 c lt by linarith
    have x: "0x10 \<le> x" if "w = 0" using that 4 c lt by linarith
    have x': "x < 0x10" if "w = 4" using that 4 c lt by linarith
    have "utf8_char c = [0xF0 + w, 0x80 + x, 0x80 + y, 0x80 + z]" using 4 d by (simp add: utf8_char_def)
    then show ?thesis using read_four [OF w lt x x', of bs] c by simp
  qed
qed

lemma utf8_char_neq_Nil: "utf8_char c \<noteq> []"
  by (simp add: utf8_char_def)

lemma read_utf8_utf8: "list_all is_scalar s \<Longrightarrow> read_utf8 (utf8 s) = map Some s"
proof (induction s)
  case (Cons c s)
  obtain b bs where b: "utf8 (c # s) = b # bs"
    using utf8_char_neq_Nil [of c] by (cases "utf8 (c # s)") (auto simp: utf8_def)
  then have e: "b # bs = utf8_char c @ utf8 s" by (simp add: utf8_def)
  have "read_char (b # bs) = (Some c, length (utf8_char c))"
    unfolding e using read_char_utf8 [of c "utf8 s"] Cons.prems by simp
  moreover have "drop (length (utf8_char c)) (b # bs) = utf8 s" unfolding e by simp
  ultimately show ?case using b Cons by simp
qed (simp add: utf8_def)

lemma unat_utf8:
  assumes "list_all is_scalar s"
  shows "map unat (as_bytes s) = utf8 s"
proof -
  have "b < 256" if "is_scalar c" "b \<in> set (utf8_char c)" for b c
  proof -
    have "c div 0x40000 < 5 \<or> c < 0x10000" using that(1) unfolding is_scalar_def by linarith
    then show ?thesis using that by (auto simp: utf8_char_def split: if_splits)
  qed
  then have "\<forall>b \<in> set (utf8 s). b < 256"
    using assms by (auto simp: utf8_def list_all_iff)
  then show ?thesis by (simp add: as_bytes_def map_idI unat_of_nat)
qed

lemma from_utf8_as_bytes: "list_all is_scalar s \<Longrightarrow> from_utf8 (as_bytes s) = Some s"
  by (auto simp: from_utf8_def unat_utf8 read_utf8_utf8 comp_def)

lemma ascii_scalar: "list_all (\<lambda>c. c < 0x80) s \<Longrightarrow> list_all is_scalar s"
  by (auto simp: list_all_iff is_scalar_def)

end
