(* ===== verification/Charsets.thy ===== *)
theory Charsets
  imports Wire Text Utf8 Contracts
begin

text \<open>
  \<open>vendor/irc-proto/src/charsets.rs\<close> (writing) and \<open>crates/irc-core/src/charsets.rs\<close>: the encoding of a line,
  the encodings some channels use for the text of their messages, and the encodings fixed for queued lines. The
  tables of encodings are those of the \<open>encoding_rs\<close> crate, the argument \<open>codec\<close>. A line is split by
  its ASCII structure alone, so the places in it are counted in characters. Each call is one step: the locks
  and counters of the code keep calls apart, and waiting for a refusal is not modelled.
\<close>

section \<open>Encodings\<close>

datatype encoding = Encoding (enc_name: rstring)

text \<open>\<open>Encoding::for_label\<close>, whether its encoder writes the same encoding, \<open>encode\<close> (the bytes, and whether a
  character was lost), \<open>decode_without_bom_handling\<close> and two constants.\<close>

record codec =
  co_for_label :: "rstring \<Rightarrow> encoding option"
  co_writes :: "encoding \<Rightarrow> bool"
  co_encode :: "encoding \<Rightarrow> rstring \<Rightarrow> byte list \<times> bool"
  co_iso_2022_jp :: encoding
  co_utf8 :: encoding

definition LEGACY_KEEP_KANA_LABEL :: rstring where "LEGACY_KEEP_KANA_LABEL = lit ''7bit-jis''"

definition charset_for_label :: "codec \<Rightarrow> rstring \<Rightarrow> encoding option" where
  "charset_for_label co label =
     (if eq_ignore_ascii_case (trim label) LEGACY_KEEP_KANA_LABEL then Some (co_iso_2022_jp co)
      else
        (case co_for_label co label of
           Some e \<Rightarrow> (if co_writes co e then Some e else None)
         | None \<Rightarrow> None))"

definition resolve_label :: "codec \<Rightarrow> rstring \<Rightarrow> rstring + encoding" where
  "resolve_label co label =
     (case charset_for_label co label of
        Some e \<Rightarrow> Inr e | None \<Rightarrow> Inl (lit ''Unsupported character encoding: '' @ label))"

section \<open>The text of a line\<close>

definition skip_spaces :: "rstring \<Rightarrow> nat \<Rightarrow> nat" where
  "skip_spaces line at = at + length (takeWhile (\<lambda>c. c = 0x20) (drop at line))"

definition word_end :: "rstring \<Rightarrow> nat \<Rightarrow> nat" where
  "word_end line at = at + length (takeWhile (\<lambda>c. c \<noteq> 0x20 \<and> c \<noteq> 0x0D \<and> c \<noteq> 0x0A) (drop at line))"

text \<open>Tags, then the prefix, each one word.\<close>

definition skip_marked :: "rstring \<Rightarrow> rchar \<Rightarrow> nat \<Rightarrow> nat" where
  "skip_marked line marker at =
     (if at < length line \<and> line ! at = marker then skip_spaces line (word_end line at) else at)"

text \<open>Where the target begins and ends and where the text begins.\<close>

definition text_span :: "rstring \<Rightarrow> (nat \<times> nat \<times> nat) option" where
  "text_span line =
     (let at = skip_marked line 0x3A (skip_marked line 0x40 0);
          command_end = word_end line at;
          command = take (command_end - at) (drop at line)
      in if \<not> (eq_ignore_ascii_case command (lit ''PRIVMSG'') \<or> eq_ignore_ascii_case command (lit ''NOTICE''))
         then None
         else
           (let target_start = skip_spaces line command_end;
                target_end = word_end line target_start
            in if target_start = target_end \<or> \<not> (target_end < length line \<and> line ! target_end = 0x20) then None
               else Some (target_start, target_end, skip_spaces line target_end)))"

section \<open>Writing\<close>

definition is_kana :: "rchar \<Rightarrow> bool" where
  "is_kana c \<longleftrightarrow> 0xFF61 \<le> c \<and> c \<le> 0xFF9F"

definition TO_KATAKANA :: "byte list" where "TO_KATAKANA = [0x1B, 0x28, 0x49]"
definition TO_ASCII :: "byte list" where "TO_ASCII = [0x1B, 0x28, 0x42]"

text \<open>One run of half-width katakana or of other characters.\<close>

definition encode_run :: "codec \<Rightarrow> encoding \<Rightarrow> bool \<Rightarrow> rstring \<Rightarrow> byte list \<times> bool" where
  "encode_run co e kana run =
     (if kana then (TO_KATAKANA @ map (\<lambda>c. of_nat (c - 0xFF61 + 0x21)) run @ TO_ASCII, False)
      else co_encode co e run)"

text \<open>Two switches with nothing between them become one.\<close>

definition join_run :: "byte list \<Rightarrow> byte list \<Rightarrow> byte list" where
  "join_run bytes chunk =
     (if chunk \<noteq> [] \<and> hd chunk = 0x1B \<and> strip_suffix TO_ASCII bytes \<noteq> None
      then take (length bytes - 3) bytes else bytes) @ chunk"

function encode_runs :: "codec \<Rightarrow> encoding \<Rightarrow> rstring \<Rightarrow> byte list \<times> bool \<Rightarrow> byte list \<times> bool" where
  "encode_runs co e [] (bytes, lost) = (bytes, lost)"
| "encode_runs co e (c # rest) (bytes, lost) =
     (let kana = is_kana c;
          run = takeWhile (\<lambda>d. is_kana d = kana) (c # rest);
          (chunk, run_lost) = encode_run co e kana run
      in encode_runs co e (drop (length run) (c # rest)) (join_run bytes chunk, lost \<or> run_lost))"
  by pat_completeness auto
termination by (relation "measure (\<lambda>(_, _, s, _). length s)") auto

definition encode_text :: "codec \<Rightarrow> rstring \<Rightarrow> encoding \<Rightarrow> byte list \<times> bool" where
  "encode_text co s e =
     (if \<not> (e = co_iso_2022_jp co \<and> list_ex is_kana s) then co_encode co e s
      else encode_runs co e s ([], False))"

text \<open>The interface through which the codec asks for the encoding of a target.\<close>

record body_charsets =
  bc_empty :: bool
  bc_encoder :: "rstring \<Rightarrow> encoding option"

text \<open>\<open>Fixed\<close>: one encoding for every target.\<close>

definition fixed_charsets :: "encoding option \<Rightarrow> body_charsets" where
  "fixed_charsets e = \<lparr>bc_empty = False, bc_encoder = (\<lambda>_. e)\<rparr>"

definition encode_body ::
  "codec \<Rightarrow> rstring \<Rightarrow> encoding \<Rightarrow> body_charsets option \<Rightarrow> byte list \<times> encoding option" where
  "encode_body co line connection charsets =
     (let charsets = (case charsets of Some b \<Rightarrow> (if bc_empty b then None else Some b) | None \<Rightarrow> None);
          iso = (connection = co_iso_2022_jp co);
          own = (\<lambda>span. case charsets of
                   None \<Rightarrow> None
                 | Some b \<Rightarrow> (case span of (start, end', _) \<Rightarrow> bc_encoder b (take (end' - start) (drop start line))));
          whole = (case co_encode co connection line of
                     (bytes, lost) \<Rightarrow> (bytes, if lost then Some connection else None))
      in case (if iso \<or> charsets \<noteq> None then text_span line else None) of
           None \<Rightarrow> whole
         | Some span \<Rightarrow>
             (if own span = None \<and> \<not> iso then whole
              else
                (let e = (case own span of Some e \<Rightarrow> e | None \<Rightarrow> connection);
                     k = snd (snd span);
                     (head, head_lost) = co_encode co connection (take k line);
                     (body, body_lost) = encode_text co (drop k line) e
                 in (head @ body,
                     if head_lost then Some connection else if body_lost then Some e else None))))"

definition encode_line ::
  "codec \<Rightarrow> rstring \<Rightarrow> encoding \<Rightarrow> body_charsets option \<Rightarrow> byte list \<times> encoding option" where
  "encode_line co line connection charsets =
     (case strip_suffix [0x0D, 0x0A] line of
        Some body \<Rightarrow> apfst (\<lambda>bytes. bytes @ [0x0D, 0x0A]) (encode_body co body connection charsets)
      | None \<Rightarrow> encode_body co line connection charsets)"

section \<open>Character references\<close>

definition with_char_refs :: "codec \<Rightarrow> rstring \<Rightarrow> rstring" where
  "with_char_refs co s =
     (let lost = (\<lambda>s. snd (co_encode co (co_iso_2022_jp co) s))
      in if \<not> lost s then s
         else concat (map (\<lambda>c. if lost [c] then lit ''&#'' @ decimal c @ lit '';'' else [c]) s))"

text \<open>The text to send and the text shown for it.\<close>

definition apply_char_refs :: "codec \<Rightarrow> rstring \<Rightarrow> rstring \<Rightarrow> rstring \<times> rstring" where
  "apply_char_refs co text' shown =
     (case action_text text' of
        Some action \<Rightarrow>
          (let converted = with_char_refs co action in
           if converted = action then (text', shown)
           else
             ([1] @ lit ''ACTION '' @ converted @ (if strip_suffix [1] text' \<noteq> None then [1] else []),
              if strip_prefix (lit ''* '') shown = Some action then lit ''* '' @ converted else shown))
      | None \<Rightarrow>
          (if strip_prefix [1] text' = None \<and> snd (co_encode co (co_iso_2022_jp co) text')
           then (with_char_refs co text', if shown = text' then with_char_refs co text' else shown)
           else (text', shown)))"

section \<open>The encodings of channels\<close>

datatype char_ref_mode = RefAuto | RefIso2022Jp | RefOff

record channel_encoding =
  ce_channel :: rstring
  ce_decode :: "rstring option"
  ce_encode :: "rstring option"
  ce_char_refs :: "char_ref_mode option"

record charset_entry =
  en_channel :: rstring
  en_decode :: "encoding option"
  en_encode :: "encoding option"
  en_char_refs :: "char_ref_mode option"

record channel_charsets =
  cc_mapping :: case_mapping
  cc_entries :: "charset_entry list"
  cc_utf8_only :: bool
  cc_any :: bool
  cc_pins :: "(rstring, encoding option list) hmap"
  cc_pinned :: nat
  cc_skipped :: nat
  cc_refused :: nat

definition charset_find :: "rstring \<Rightarrow> channel_charsets \<Rightarrow> charset_entry option" where
  "charset_find channel s = List.find (\<lambda>e. cm_same (cc_mapping s) (en_channel e) channel) (cc_entries s)"

definition allowed_encoding :: "codec \<Rightarrow> channel_charsets \<Rightarrow> encoding option \<Rightarrow> encoding option" where
  "allowed_encoding co s e =
     (case e of None \<Rightarrow> None | Some e \<Rightarrow> (if \<not> cc_utf8_only s \<or> e = co_utf8 co then Some e else None))"

text \<open>\<open>as_deref().map(resolve).transpose()\<close>.\<close>

definition resolve_option :: "codec \<Rightarrow> rstring option \<Rightarrow> rstring + encoding option" where
  "resolve_option co label =
     (case label of None \<Rightarrow> Inr None | Some l \<Rightarrow> map_sum (\<lambda>e. e) Some (resolve_label co l))"

definition keeps_entry :: "charset_entry \<Rightarrow> bool" where
  "keeps_entry e \<longleftrightarrow> en_decode e \<noteq> None \<or> en_encode e \<noteq> None \<or> en_char_refs e \<noteq> None"

fun configured_entries ::
  "codec \<Rightarrow> channel_encoding list \<Rightarrow> charset_entry list \<Rightarrow> rstring + charset_entry list" where
  "configured_entries co [] kept = Inr kept"
| "configured_entries co (c # cs) kept =
     (if \<not> valid_channel (ce_channel c) then Inl (lit ''Invalid channel name: '' @ ce_channel c)
      else
        (case resolve_option co (ce_decode c) of
           Inl error \<Rightarrow> Inl error
         | Inr decode \<Rightarrow>
             (case resolve_option co (ce_encode c) of
                Inl error \<Rightarrow> Inl error
              | Inr encode \<Rightarrow>
                  (let e = \<lparr>en_channel = ce_channel c, en_decode = decode, en_encode = encode,
                            en_char_refs = ce_char_refs c\<rparr>;
                       kept = filter (\<lambda>other. en_channel other \<noteq> ce_channel c) kept
                   in configured_entries co cs (if keeps_entry e then kept @ [e] else kept)))))"

definition charsets_new :: "codec \<Rightarrow> channel_encoding list \<Rightarrow> rstring + channel_charsets" where
  "charsets_new co entries =
     map_sum (\<lambda>e. e)
       (\<lambda>kept. \<lparr>cc_mapping = default_mapping, cc_entries = kept, cc_utf8_only = False, cc_any = (kept \<noteq> []),
                cc_pins = [], cc_pinned = 0, cc_skipped = 0, cc_refused = 0\<rparr>)
       (configured_entries co entries [])"

definition charsets_set ::
  "codec \<Rightarrow> rstring \<Rightarrow> rstring option \<Rightarrow> rstring option \<Rightarrow> char_ref_mode option \<Rightarrow> channel_charsets
    \<Rightarrow> rstring option \<times> channel_charsets" where
  "charsets_set co channel decode encode refs s =
     (if \<not> valid_channel channel then (Some (lit ''Invalid channel name: '' @ channel), s)
      else
        (case resolve_option co decode of
           Inl error \<Rightarrow> (Some error, s)
         | Inr decode \<Rightarrow>
             (case resolve_option co encode of
                Inl error \<Rightarrow> (Some error, s)
              | Inr encode \<Rightarrow>
                  (if cc_utf8_only s \<and> (decode \<notin> {None, Some (co_utf8 co)} \<or> encode \<notin> {None, Some (co_utf8 co)})
                   then (Some (lit ''The server requires UTF-8 (UTF8ONLY); only UTF-8 can be set for a channel.''), s)
                   else
                     (let e = \<lparr>en_channel = channel, en_decode = decode, en_encode = encode, en_char_refs = refs\<rparr>;
                          kept = filter (\<lambda>other. \<not> cm_same (cc_mapping s) (en_channel other) channel) (cc_entries s);
                          kept = (if keeps_entry e then kept @ [e] else kept)
                      in (None, s\<lparr>cc_entries := kept, cc_any := (kept \<noteq> [])\<rparr>))))))"

definition channel_char_refs :: "rstring \<Rightarrow> channel_charsets \<Rightarrow> char_ref_mode option" where
  "channel_char_refs channel s =
     (if \<not> cc_any s then None else Option.bind (charset_find channel s) en_char_refs)"

definition charsets_set_casemapping :: "case_mapping \<Rightarrow> channel_charsets \<Rightarrow> channel_charsets" where
  "charsets_set_casemapping m s = s\<lparr>cc_mapping := m\<rparr>"

definition other_than_utf8 :: "codec \<Rightarrow> encoding option \<Rightarrow> bool" where
  "other_than_utf8 co e \<longleftrightarrow> (case e of None \<Rightarrow> False | Some e \<Rightarrow> e \<noteq> co_utf8 co)"

definition set_utf8_only :: "codec \<Rightarrow> channel_charsets \<Rightarrow> bool \<times> channel_charsets" where
  "set_utf8_only co s =
     (\<not> cc_utf8_only s
        \<and> list_ex (\<lambda>e. other_than_utf8 co (en_decode e) \<or> other_than_utf8 co (en_encode e)) (cc_entries s),
      s\<lparr>cc_utf8_only := True\<rparr>)"

definition unsent_for_utf8_only :: "codec \<Rightarrow> channel_charsets \<Rightarrow> nat" where
  "unsent_for_utf8_only co s =
     length (filter (other_than_utf8 co) (concat (map snd (cc_pins s)))) + cc_skipped s"

definition charset_decoder :: "codec \<Rightarrow> rstring \<Rightarrow> channel_charsets \<Rightarrow> encoding option" where
  "charset_decoder co target s =
     (case charset_find target s of None \<Rightarrow> None | Some e \<Rightarrow> allowed_encoding co s (en_decode e))"

definition charset_encoder :: "codec \<Rightarrow> rstring \<Rightarrow> channel_charsets \<Rightarrow> encoding option" where
  "charset_encoder co target s =
     (case charset_find target s of None \<Rightarrow> None | Some e \<Rightarrow> allowed_encoding co s (en_encode e))"

text \<open>What the codec of a connection is given.\<close>

definition charsets_of :: "codec \<Rightarrow> channel_charsets \<Rightarrow> body_charsets" where
  "charsets_of co s =
     \<lparr>bc_empty = (\<not> cc_any s \<and> cc_pinned s = 0), bc_encoder = (\<lambda>target. charset_encoder co target s)\<rparr>"

definition refused_line :: "channel_charsets \<Rightarrow> channel_charsets" where
  "refused_line s = s\<lparr>cc_refused := cc_refused s + 1\<rparr>"

definition take_refused :: "channel_charsets \<Rightarrow> nat \<times> channel_charsets" where
  "take_refused s = (cc_refused s, s\<lparr>cc_refused := 0\<rparr>)"

section \<open>Fixed encodings\<close>

definition charsets_pin :: "rstring \<Rightarrow> encoding option \<Rightarrow> channel_charsets \<Rightarrow> channel_charsets" where
  "charsets_pin line e s =
     s\<lparr>cc_pins := AList.update line ((case map_of (cc_pins s) line of Some q \<Rightarrow> q | None \<Rightarrow> []) @ [e]) (cc_pins s),
       cc_pinned := cc_pinned s + 1\<rparr>"

text \<open>The oldest pin of a line, or the newest.\<close>

definition charsets_take :: "rstring \<Rightarrow> bool \<Rightarrow> channel_charsets \<Rightarrow> encoding option option \<times> channel_charsets" where
  "charsets_take line newest s =
     (case map_of (cc_pins s) line of
        None \<Rightarrow> (None, s)
      | Some q \<Rightarrow>
          (let pin = (if q = [] then None else Some (if newest then last q else hd q));
               q = (if newest then butlast q else tl q)
           in (pin,
               s\<lparr>cc_pins := (if q = [] then AList.delete line (cc_pins s) else AList.update line q (cc_pins s)),
                 cc_pinned := cc_pinned s - 1\<rparr>)))"

definition charsets_unpin :: "rstring \<Rightarrow> channel_charsets \<Rightarrow> channel_charsets" where
  "charsets_unpin line s = snd (charsets_take line True s)"

datatype pin = PinEncoding "encoding option" | PinSkip

definition take_pin :: "codec \<Rightarrow> rstring \<Rightarrow> channel_charsets \<Rightarrow> pin option \<times> channel_charsets" where
  "take_pin co line s =
     (if cc_pinned s = 0 then (None, s)
      else
        (case charsets_take line False s of
           (None, s) \<Rightarrow> (None, s)
         | (Some e, s) \<Rightarrow>
             (if cc_utf8_only s \<and> other_than_utf8 co e then (Some PinSkip, s\<lparr>cc_skipped := cc_skipped s + 1\<rparr>)
              else (Some (PinEncoding e), s))))"

section \<open>Runs\<close>

datatype charset_op =
    CsPin rstring "encoding option"
  | CsUnpin rstring
  | CsTakePin rstring
  | CsSet rstring "rstring option" "rstring option" "char_ref_mode option"
  | CsCasemapping case_mapping
  | CsUtf8Only
  | CsRefused
  | CsTakeRefused

fun charset_step :: "codec \<Rightarrow> charset_op \<Rightarrow> channel_charsets \<Rightarrow> channel_charsets" where
  "charset_step co (CsPin line e) s = charsets_pin line e s"
| "charset_step co (CsUnpin line) s = charsets_unpin line s"
| "charset_step co (CsTakePin line) s = snd (take_pin co line s)"
| "charset_step co (CsSet channel decode encode refs) s = snd (charsets_set co channel decode encode refs s)"
| "charset_step co (CsCasemapping m) s = charsets_set_casemapping m s"
| "charset_step co CsUtf8Only s = snd (set_utf8_only co s)"
| "charset_step co CsRefused s = refused_line s"
| "charset_step co CsTakeRefused s = snd (take_refused s)"

text \<open>The counter counts the pins, no queue is empty, and the flag says whether there is an entry.\<close>

definition pins_held :: "(rstring \<times> encoding option list) list \<Rightarrow> nat" where
  "pins_held pins = sum_list (map (\<lambda>(_, q). length q) pins)"

definition charsets_inv :: "channel_charsets \<Rightarrow> bool" where
  "charsets_inv s \<longleftrightarrow>
     keys_distinct (cc_pins s) \<and> list_all (\<lambda>(_, q). q \<noteq> []) (cc_pins s) \<and> cc_pinned s = pins_held (cc_pins s)
     \<and> (cc_any s \<longleftrightarrow> cc_entries s \<noteq> [])"

lemma pins_update:
  "keys_distinct pins \<Longrightarrow>
     pins_held (AList.update line q pins) + (case map_of pins line of Some r \<Rightarrow> length r | None \<Rightarrow> 0)
       = pins_held pins + length q"
  by (induction pins) (auto simp: pins_held_def keys_distinct_def split: option.splits dest: map_of_SomeD)

lemma pins_delete:
  "keys_distinct pins \<Longrightarrow>
     pins_held (AList.delete line pins) + (case map_of pins line of Some r \<Rightarrow> length r | None \<Rightarrow> 0) = pins_held pins"
proof (induction pins)
  case (Cons p pins)
  have "AList.delete (fst p) pins = pins" using Cons.prems by (simp add: keys_distinct_def delete_id)
  then show ?case using Cons by (auto simp: pins_held_def keys_distinct_def AList.delete_eq split: option.splits)
qed (simp add: pins_held_def)

lemma queues_update:
  "list_all (\<lambda>(_, q). q \<noteq> []) pins \<Longrightarrow> q \<noteq> [] \<Longrightarrow> list_all (\<lambda>(_, q). q \<noteq> []) (AList.update line q pins)"
  using set_update_subset [of line q pins] by (fastforce simp: list_all_iff)

lemma pin_inv: "charsets_inv s \<Longrightarrow> charsets_inv (charsets_pin line e s)"
  using pins_update [of "cc_pins s" line "(case map_of (cc_pins s) line of Some q \<Rightarrow> q | None \<Rightarrow> []) @ [e]"]
  by (auto simp: charsets_inv_def charsets_pin_def queues_update split: option.splits)

lemma take_inv:
  assumes "charsets_inv s"
  shows "charsets_inv (snd (charsets_take line newest s))"
proof (cases "map_of (cc_pins s) line")
  case (Some q)
  let ?q = "if newest then butlast q else tl q"
  have "q \<noteq> []" using assms Some by (auto simp: charsets_inv_def list_all_iff dest!: map_of_SomeD)
  then have len: "length q = Suc (length ?q)" by simp
  have k: "keys_distinct (cc_pins s)" "cc_pinned s = pins_held (cc_pins s)" "list_all (\<lambda>(_, q). q \<noteq> []) (cc_pins s)"
    using assms by (simp_all add: charsets_inv_def)
  have "pins_held (if ?q = [] then AList.delete line (cc_pins s) else AList.update line ?q (cc_pins s)) + 1 = pins_held (cc_pins s)"
    using pins_update [OF k(1), of line ?q] pins_delete [OF k(1), of line] Some len
    by (auto simp del: butlast.simps length_butlast length_tl)
  moreover have "list_all (\<lambda>(_, q). q \<noteq> []) (AList.delete line (cc_pins s))"
    using k(3) by (auto simp: list_all_iff AList.delete_eq)
  ultimately show ?thesis
    using assms Some k queues_update [OF k(3), of ?q line]
    by (auto simp: charsets_inv_def charsets_take_def Let_def)
qed (use assms in \<open>simp add: charsets_take_def\<close>)

lemma take_pin_state:
  "\<exists>k. snd (take_pin co line s) = (if cc_pinned s = 0 then s else snd (charsets_take line False s))\<lparr>cc_skipped := k\<rparr>"
proof -
  have "\<exists>k. t = t\<lparr>cc_skipped := k\<rparr>" for t :: channel_charsets by (rule exI [of _ "cc_skipped t"]) simp
  then show ?thesis by (auto simp: take_pin_def split: prod.split option.split)
qed

lemma skipped_inv [simp]: "charsets_inv (s\<lparr>cc_skipped := k\<rparr>) = charsets_inv s"
  by (simp add: charsets_inv_def)

lemma charset_step_inv: "charsets_inv s \<Longrightarrow> charsets_inv (charset_step co op s)"
proof (cases op)
  case (CsSet channel decode encode refs)
  assume "charsets_inv s"
  then show ?thesis
    using CsSet by (auto simp: charsets_set_def charsets_inv_def Let_def split: sum.split)
next
  case (CsTakePin line)
  assume "charsets_inv s"
  then show ?thesis using take_pin_state [of co line s] take_inv CsTakePin by auto
qed (auto simp: pin_inv take_inv charsets_unpin_def charsets_set_casemapping_def set_utf8_only_def refused_line_def
      take_refused_def charsets_inv_def [of "_\<lparr>cc_mapping := _\<rparr>"] charsets_inv_def [of "_\<lparr>cc_utf8_only := _\<rparr>"]
      charsets_inv_def [of "_\<lparr>cc_refused := _\<rparr>"] charsets_inv_def [of s])

lemma charsets_new_inv: "charsets_new co entries = Inr s \<Longrightarrow> charsets_inv s"
  by (cases "configured_entries co entries []")
    (auto simp: charsets_new_def charsets_inv_def keys_distinct_def pins_held_def)

interpretation charset_machine: machine "charset_step co" "\<lambda>_ _. True" "\<lambda>s. \<exists>entries. charsets_new co entries = Inr s"
  charsets_inv
  by unfold_locales (auto intro: charset_step_inv charsets_new_inv)

text \<open>Once the server allows UTF-8 only, nothing is written or read in another encoding: not by the entries of
  channels, and not by a pin, however early it was set.\<close>

lemma utf8_only_stays: "cc_utf8_only s \<Longrightarrow> cc_utf8_only (charset_step co op s)"
proof (cases op)
  case (CsTakePin line)
  assume "cc_utf8_only s"
  then have "cc_utf8_only (snd (charsets_take line False s))"
    by (simp add: charsets_take_def Let_def split: option.split)
  then show ?thesis using \<open>cc_utf8_only s\<close> take_pin_state [of co line s] CsTakePin by auto
qed (auto simp: charsets_pin_def charsets_unpin_def charsets_take_def charsets_set_def charsets_set_casemapping_def
      set_utf8_only_def refused_line_def take_refused_def Let_def split: option.split sum.split)

lemma utf8_only_kept:
  assumes "cc_utf8_only s"
  shows "\<not> other_than_utf8 co (charset_encoder co target s)" "\<not> other_than_utf8 co (charset_decoder co target s)"
    and "fst (take_pin co line s) = Some (PinEncoding e) \<Longrightarrow> \<not> other_than_utf8 co e"
proof -
  show "\<not> other_than_utf8 co (charset_encoder co target s)" "\<not> other_than_utf8 co (charset_decoder co target s)"
    using assms
    by (auto simp: charset_encoder_def charset_decoder_def allowed_encoding_def other_than_utf8_def split: option.splits)
  have "cc_utf8_only (snd (charsets_take line False s))"
    using assms by (simp add: charsets_take_def Let_def split: option.split)
  then show "fst (take_pin co line s) = Some (PinEncoding e) \<Longrightarrow> \<not> other_than_utf8 co e"
    by (auto simp: take_pin_def split: if_splits prod.splits option.splits)
qed

text \<open>The pins of one line are taken in the order they were set.\<close>

lemma pins_in_order:
  assumes "charsets_inv s"
  shows "fst (charsets_take line False (charsets_pin line e s)) =
      Some (case map_of (cc_pins s) line of Some q \<Rightarrow> hd q | None \<Rightarrow> e)"
    and "fst (charsets_take line True (charsets_pin line e s)) = Some e"
  using assms
  by (auto simp: charsets_take_def charsets_pin_def charsets_inv_def list_all_iff Let_def split: option.split
      dest!: map_of_SomeD)

section \<open>UTF-8 connections\<close>

text \<open>A connection in UTF-8 without encodings of its own for channels writes the bytes of its lines.\<close>

lemma encode_line_utf8:
  assumes "\<And>s. co_encode co (co_utf8 co) s = (as_bytes s, False)" "co_utf8 co \<noteq> co_iso_2022_jp co"
  shows "encode_line co line (co_utf8 co) None = (as_bytes line, None)"
proof -
  have body: "encode_body co s (co_utf8 co) None = (as_bytes s, None)" for s
    using assms by (simp add: encode_body_def)
  have "as_bytes (s @ [0x0D, 0x0A]) = as_bytes s @ [0x0D, 0x0A]" for s
    by (simp add: as_bytes_def utf8_def utf8_char_def)
  then show ?thesis
    by (auto simp: encode_line_def body strip_suffix_Some split: option.split)
qed

end
