(* ===== verification/Relay.thy ===== *)
theory Relay
  imports Charsets
begin

text \<open>
  \<open>crates/irc-core/src/relay.rs\<close> and the length check of \<open>crates/irc-core/src/lib.rs\<close> that reads its
  result: how much of a 512-byte line the server takes when it relays our message, and which messages
  are refused because their end would be cut off. Lines are written by \<open>Charsets\<close>, whose argument
  \<open>codec\<close> stands for the \<open>encoding_rs\<close> crate.
\<close>

section \<open>Our own mask\<close>

definition ASSUMED_USER_BYTES :: nat where "ASSUMED_USER_BYTES = 10"
definition ASSUMED_HOST_BYTES :: nat where "ASSUMED_HOST_BYTES = 63"
definition MAX_MASK_PART_BYTES :: nat where "MAX_MASK_PART_BYTES = 255"
definition RPL_WELCOME :: nat where "RPL_WELCOME = 1"
definition RPL_HOSTHIDDEN :: nat where "RPL_HOSTHIDDEN = 396"

record own_mask =
  om_user :: "rstring option"
  om_host :: "rstring option"

definition own_mask_default :: own_mask where
  "own_mask_default = \<lparr>om_user = None, om_host = None\<rparr>"

definition plausible :: "rstring \<Rightarrow> bool" where
  "plausible part \<longleftrightarrow>
     part \<noteq> [] \<and> blen part \<le> MAX_MASK_PART_BYTES
     \<and> \<not> list_ex (\<lambda>c. is_whitespace c \<or> is_control c \<or> c = 0x21 \<or> c = 0x40) part"

definition set_mask :: "rstring \<Rightarrow> rstring \<Rightarrow> own_mask \<Rightarrow> own_mask \<times> bool" where
  "set_mask user host s =
     (if \<not> (plausible user \<and> plausible host) then (s, False)
      else
        (let changed = (om_user s \<noteq> Some user \<or> om_host s \<noteq> Some host)
         in (if changed then \<lparr>om_user = Some user, om_host = Some host\<rparr> else s, changed)))"

definition set_host :: "rstring \<Rightarrow> own_mask \<Rightarrow> own_mask \<times> bool" where
  "set_host host s =
     (if \<not> plausible host \<or> om_host s = Some host then (s, False)
      else (s\<lparr>om_host := Some host\<rparr>, True))"

text \<open>The mask at the end of the welcome text, when it is about the nickname of the first argument.\<close>

definition welcome_mask :: "rstring list \<Rightarrow> (rstring \<times> rstring) option" where
  "welcome_mask args =
     (let word = (if args = [] then None
                  else (let words = split_whitespace (last args)
                        in if words = [] then None else Some (last words)));
          mask = Option.bind word (split_once 0x21)
      in case mask of
           Some (nick, user_host) \<Rightarrow>
             (if index_checked args 0 = Some nick then split_once 0x40 user_host else None)
         | None \<Rightarrow> None)"

definition mask_of_prefix :: "message \<Rightarrow> rstring \<Rightarrow> own_mask \<Rightarrow> own_mask \<times> bool" where
  "mask_of_prefix m current_nick s =
     (case m_prefix m of
        Some (Nickname nick user host) \<Rightarrow>
          (if nick = current_nick then set_mask user host s else (s, False))
      | _ \<Rightarrow> (s, False))"

definition relay_observe :: "message \<Rightarrow> rstring \<Rightarrow> own_mask \<Rightarrow> own_mask \<times> bool" where
  "relay_observe m current_nick s =
     (let own = (source_nickname m = Some current_nick)
      in case m_command m of
           CHGHOST user host \<Rightarrow>
             (if own then set_mask user host s else mask_of_prefix m current_nick s)
         | Response code args \<Rightarrow>
             (if code = RPL_WELCOME
              then (case welcome_mask args of Some (user, host) \<Rightarrow> set_mask user host s | None \<Rightarrow> (s, False))
              else if code = RPL_HOSTHIDDEN
              then (case (index_checked args 0, index_checked args 1) of
                      (Some nick, Some host) \<Rightarrow>
                        (if nick = current_nick then set_host host s else (s, False))
                    | _ \<Rightarrow> (s, False))
              else mask_of_prefix m current_nick s)
         | _ \<Rightarrow> mask_of_prefix m current_nick s)"

section \<open>Writing a line\<close>

text \<open>How lines are written: the label of the connection's encoding, and the encodings of channels if any.\<close>

record line_wire =
  lw_label :: rstring
  lw_charsets :: "body_charsets option"

definition plain_wire :: "rstring \<Rightarrow> line_wire" where
  "plain_wire label = \<lparr>lw_label = label, lw_charsets = None\<rparr>"

definition encode_strict :: "codec \<Rightarrow> rstring \<Rightarrow> line_wire \<Rightarrow> rstring + byte list" where
  "encode_strict co s wire =
     (case resolve_label co (lw_label wire) of
        Inl error \<Rightarrow> Inl error
      | Inr charset \<Rightarrow>
          (case encode_line co s charset (lw_charsets wire) of
             (bytes, None) \<Rightarrow> Inr bytes
           | (_, Some failed) \<Rightarrow>
               Inl (lit ''Text contains a character that cannot be encoded as ''
                 @ (if failed = charset then lw_label wire else enc_name failed) @ lit ''.'')))"

section \<open>The size of the prefix\<close>

definition wire_len :: "codec \<Rightarrow> rstring \<Rightarrow> rstring \<Rightarrow> nat" where
  "wire_len co s label =
     (case encode_strict co s (plain_wire label) of Inr bytes \<Rightarrow> length bytes | Inl _ \<Rightarrow> blen s)"

definition prefix_bytes :: "codec \<Rightarrow> rstring \<Rightarrow> rstring \<Rightarrow> own_mask \<Rightarrow> nat" where
  "prefix_bytes co nick label s =
     (let user = (case om_user s of Some u \<Rightarrow> wire_len co u label | None \<Rightarrow> ASSUMED_USER_BYTES);
          host = (case om_host s of Some h \<Rightarrow> wire_len co h label | None \<Rightarrow> ASSUMED_HOST_BYTES)
      in 4 + wire_len co nick label + user + host)"

section \<open>The length check\<close>

definition validate_wire :: "codec \<Rightarrow> rstring \<Rightarrow> line_wire \<Rightarrow> rstring + unit" where
  "validate_wire co wire encoding' =
     (case encode_strict co wire encoding' of
        Inl error \<Rightarrow> Inl error
      | Inr bytes \<Rightarrow>
          (if 512 < length bytes then Inl (lit ''IRC command exceeds the 512-byte wire limit.'') else Inr ()))"

text \<open>The third part of \<open>splitn(3, ' ')\<close> of the line without its end.\<close>

definition third_part :: "rstring \<Rightarrow> rstring option" where
  "third_part wire =
     Option.bind (split_once 0x20 (rev (dropWhile (\<lambda>c. c = 0x0D \<or> c = 0x0A) (rev wire))))
       (\<lambda>(_, rest). map_option snd (split_once 0x20 rest))"

definition relayed_colon :: "rstring \<Rightarrow> bool" where
  "relayed_colon wire \<longleftrightarrow>
     (case third_part wire of Some text \<Rightarrow> \<not> (text \<noteq> [] \<and> hd text = 0x3A) | None \<Rightarrow> False)"

definition validate_relayed_wire :: "codec \<Rightarrow> rstring \<Rightarrow> line_wire \<Rightarrow> nat \<Rightarrow> rstring + unit" where
  "validate_relayed_wire co wire encoding' before =
     (case validate_wire co wire encoding' of
        Inl error \<Rightarrow> Inl error
      | Inr _ \<Rightarrow>
          (case encode_strict co wire encoding' of
             Inl error \<Rightarrow> Inl error
           | Inr bytes \<Rightarrow>
               (let needed = length bytes + (if relayed_colon wire then 1 else 0)
                in if 512 < needed + before
                   then Inl (lit ''Message is too long: '' @ decimal (512 - before)
                     @ lit '' bytes of the 512-byte line remain for the command and text once the server adds your nick!user@host, but it needs ''
                     @ decimal needed @ lit ''.'')
                   else Inr ())))"

section \<open>The machine\<close>

type_synonym relay_op = "message \<times> rstring"

definition relay_step :: "relay_op \<Rightarrow> own_mask \<Rightarrow> own_mask" where
  "relay_step op s = fst (relay_observe (fst op) (snd op) s)"

definition mask_ok :: "rstring option \<Rightarrow> bool" where
  "mask_ok part \<longleftrightarrow> (\<forall>p. part = Some p \<longrightarrow> plausible p)"

definition relay_inv :: "own_mask \<Rightarrow> bool" where
  "relay_inv s \<longleftrightarrow> mask_ok (om_user s) \<and> mask_ok (om_host s) \<and> (om_user s \<noteq> None \<longrightarrow> om_host s \<noteq> None)"

text \<open>What a call may do: nothing, both parts, or the host.\<close>

inductive relay_change :: "own_mask \<Rightarrow> own_mask \<times> bool \<Rightarrow> bool" where
  kept: "relay_change s (s, False)"
| both: "plausible user \<Longrightarrow> plausible host \<Longrightarrow> (om_user s, om_host s) \<noteq> (Some user, Some host) \<Longrightarrow>
    relay_change s (\<lparr>om_user = Some user, om_host = Some host\<rparr>, True)"
| host: "plausible host \<Longrightarrow> om_host s \<noteq> Some host \<Longrightarrow> relay_change s (s\<lparr>om_host := Some host\<rparr>, True)"

lemma set_mask_change: "relay_change s (set_mask user host s)"
  by (auto simp: set_mask_def Let_def intro: relay_change.intros)

lemma set_host_change: "relay_change s (set_host host s)"
  by (auto simp: set_host_def intro: relay_change.intros)

lemma prefix_change: "relay_change s (mask_of_prefix m nick s)"
  by (auto simp: mask_of_prefix_def intro: set_mask_change relay_change.kept split: option.split prefix.split)

lemma observe_change: "relay_change s (relay_observe m nick s)"
  using set_mask_change set_host_change prefix_change relay_change.kept
  by (auto simp: relay_observe_def Let_def split: command.split option.split prod.split)

lemma relay_inv_step: "relay_inv s \<Longrightarrow> relay_inv (relay_step op s)"
  using observe_change [of s "fst op" "snd op"]
  by cases (auto simp: relay_step_def relay_inv_def mask_ok_def)

lemma wire_len_utf8:
  assumes "resolve_label co label = Inr (co_utf8 co)" "co_utf8 co \<noteq> co_iso_2022_jp co"
    and "\<And>s. co_encode co (co_utf8 co) s = (as_bytes s, False)"
  shows "wire_len co s label = blen s"
  using assms encode_line_utf8 [of co s]
  by (simp add: wire_len_def encode_strict_def plain_wire_def as_bytes_def)

lemma plausible_len: "plausible p \<Longrightarrow> blen p \<le> MAX_MASK_PART_BYTES"
  by (simp add: plausible_def)

interpretation relay_machine: machine relay_step "\<lambda>s op. True" "\<lambda>s. s = own_mask_default" relay_inv
  by unfold_locales (auto simp: relay_inv_step, auto simp: relay_inv_def mask_ok_def own_mask_default_def)

section \<open>The relayed line\<close>

text \<open>The line of \<open>PRIVMSG\<close> or \<open>NOTICE\<close> as sent; the server writes a colon before the text unless there is one.\<close>

definition sent_line :: "rstring \<Rightarrow> rstring \<Rightarrow> rstring \<Rightarrow> rstring" where
  "sent_line cmd target message = cmd @ [0x20] @ target @ [0x20] @ message"

lemma split_once_first: "c \<notin> set s \<Longrightarrow> split_once c (s @ c # t) = Some (s, t)"
  by (induction s) auto

definition trim_line :: "rstring \<Rightarrow> rstring" where
  "trim_line s = rev (dropWhile (\<lambda>c. c = 0x0D \<or> c = 0x0A) (rev s))"

lemma trim_line_append: "trim_line (s @ [0x20] @ t) = s @ [0x20] @ trim_line t"
  by (simp add: trim_line_def dropWhile_append)

lemma hd_trim_line: "trim_line t \<noteq> [] \<Longrightarrow> t \<noteq> [] \<and> hd (trim_line t) = hd t"
proof -
  have "\<exists>r. t = trim_line t @ r"
    unfolding trim_line_def by (metis rev_append rev_rev_ident takeWhile_dropWhile_id)
  then show "trim_line t \<noteq> [] \<Longrightarrow> t \<noteq> [] \<and> hd (trim_line t) = hd t" by (metis append_is_Nil_conv hd_append)
qed

lemma relayed_colon_sent:
  assumes "0x20 \<notin> set cmd" and "0x20 \<notin> set target"
  shows "relayed_colon (sent_line cmd target message) \<or> message \<noteq> [] \<and> hd message = 0x3A"
proof -
  have "third_part (sent_line cmd target message) = Some (trim_line message)"
  proof -
    have "trim_line (sent_line cmd target message) = cmd @ 0x20 # (target @ 0x20 # trim_line message)"
      using trim_line_append [of "cmd @ [0x20] @ target" message] by (simp add: sent_line_def)
    then show ?thesis
      using split_once_first [OF assms(1)] split_once_first [OF assms(2)]
      by (simp add: third_part_def trim_line_def [symmetric])
  qed
  then show ?thesis using hd_trim_line [of message] by (auto simp: relayed_colon_def)
qed

text \<open>An accepted message leaves room for what the server puts in front of it and for the colon.\<close>

lemma accepted_fits:
  assumes "validate_relayed_wire co (sent_line cmd target message) wire before = Inr ()"
    and "0x20 \<notin> set cmd" "0x20 \<notin> set target"
  obtains bytes where "encode_strict co (sent_line cmd target message) wire = Inr bytes"
    "before + length bytes + (if message \<noteq> [] \<and> hd message = 0x3A then 0 else 1) \<le> 512"
proof (cases "encode_strict co (sent_line cmd target message) wire")
  case (Inl error)
  then show ?thesis using assms(1) by (simp add: validate_relayed_wire_def validate_wire_def)
next
  case (Inr bytes)
  define line where "line = sent_line cmd target message"
  have line: "encode_strict co line wire = Inr bytes" using Inr by (simp add: line_def)
  have "\<not> 512 < length bytes + (if relayed_colon line then 1 else 0) + before"
  proof
    assume "512 < length bytes + (if relayed_colon line then 1 else 0) + before"
    then have "validate_relayed_wire co line wire before \<noteq> Inr ()"
      by (simp add: validate_relayed_wire_def validate_wire_def line Let_def)
    then show False using assms(1) by (simp add: line_def)
  qed
  moreover have "relayed_colon line \<or> message \<noteq> [] \<and> hd message = 0x3A"
    unfolding line_def by (rule relayed_colon_sent [OF assms(2,3)])
  ultimately show ?thesis using that [OF Inr] by (auto split: if_splits)
qed

text \<open>Whatever lines arrive, only believable masks are kept (non-empty, at most 255 bytes, no spaces,
  controls or mask separators), the user is never known without the host, and the reported flag says
  exactly whether the mask changed.\<close>

theorem relay_mask_ok:
  "let s = fold relay_step ops own_mask_default
   in relay_inv s \<and> (snd (relay_observe m nick s) \<longleftrightarrow> fst (relay_observe m nick s) \<noteq> s)"
proof -
  have "relay_inv (fold relay_step ops own_mask_default)"
    by (rule relay_machine.run_init_inv [OF refl]) (simp add: relay_machine.run_ok_total)
  moreover have "snd (relay_observe m nick s) \<longleftrightarrow> fst (relay_observe m nick s) \<noteq> s" for s
    using observe_change [of s m nick]
  proof cases
    case (host host)
    then have "om_host (fst (relay_observe m nick s)) \<noteq> om_host s" by simp
    then have "fst (relay_observe m nick s) \<noteq> s" by metis
    then show ?thesis using host(1) by simp
  qed auto
  ultimately show ?thesis by (simp add: Let_def)
qed

end
