(* ===== verification/ChannelTree.thy ===== *)
theory ChannelTree
  imports ChannelGroups
begin

text \<open>
  What the channel tree of \<open>ChannelGroups\<close> keeps: every conversation is shown once, the direct answer where a
  conversation is shown agrees with the tree, groups stay well formed under every operation, and moving
  loses nothing.
\<close>

section \<open>Lists by index\<close>

lemma position_Some:
  "position P xs = Some i \<longleftrightarrow> i < length xs \<and> P (xs ! i) \<and> (\<forall>j < i. \<not> P (xs ! j))"
proof (induction xs arbitrary: i)
  case (Cons x xs)
  show ?case
    by (cases i) (auto simp: Cons less_Suc_eq_0_disj)
qed simp

lemma position_None: "position P xs = None \<longleftrightarrow> (\<forall>x \<in> set xs. \<not> P x)"
  by (induction xs) auto

lemma mset_insert_at [simp]: "mset (insert_at i x xs) = add_mset x (mset xs)"
  unfolding insert_at_def by (metis append_take_drop_id mset.simps(2) mset_append union_mset_add_mset_right)

lemma mset_remove_at: "i < length xs \<Longrightarrow> mset xs = add_mset (xs ! i) (mset (remove_at i xs))"
  unfolding remove_at_def
  by (metis Cons_nth_drop_Suc append_take_drop_id mset.simps(2) mset_append union_mset_add_mset_right)

lemma mset_parts:
  assumes "i \<le> Suc j"
  shows "mset (take i xs) + mset (take (Suc j - i) (drop i xs)) + mset (drop (Suc j) xs) = mset xs"
proof -
  have "xs = take i xs @ take (Suc j - i) (drop i xs) @ drop (Suc j) xs"
    using assms by (metis append.assoc append_take_drop_id le_add_diff_inverse take_add)
  then show ?thesis by (metis mset_append union_assoc)
qed

lemma mset_move_item [simp]: "mset (move_item i j xs) = mset xs"
proof (cases "i < j")
  case True
  have "mset (rotate1 ys) = mset ys" for ys :: "'a list" by (cases ys) simp_all
  then show ?thesis
    using mset_parts [of i j xs] True by (simp add: move_item_def rotate_left_range_def add.assoc)
next
  case False
  have "mset (if ys = [] then [] else last ys # butlast ys) = mset ys" for ys :: "'a list"
    by (cases ys rule: rev_cases) simp_all
  then show ?thesis
    using mset_parts [of j i xs] False
    by (simp only: move_item_def rotate_right_range_def Let_def if_False mset_append) (simp add: add.assoc)
qed

section \<open>Every conversation is shown once\<close>

definition conv_ids :: "tree_state \<Rightarrow> conversation_id list" where
  "conv_ids s = map conv_id (ts_conversations s)"

definition group_members :: "tree_state \<Rightarrow> group_member list" where
  "group_members s = concat (map cg_members (ts_groups s))"

text \<open>The lists the application state is made of: identifiers are never reused, every conversation
  belongs to a configured server, no channel is in two groups or twice in one.\<close>

definition lists_ok :: "tree_state \<Rightarrow> bool" where
  "lists_ok s \<longleftrightarrow>
     distinct (conv_ids s) \<and> distinct (map nw_id (ts_networks s))
     \<and> (\<forall>c \<in> set (ts_conversations s). conv_network c \<in> nw_id ` set (ts_networks s))"

definition groups_ok :: "tree_state \<Rightarrow> bool" where
  "groups_ok s \<longleftrightarrow> distinct (map cg_id (ts_groups s)) \<and> distinct (group_members s)"

definition all_grouped :: "tree_state \<Rightarrow> conversation_id list" where
  "all_grouped s = concat (map (group_present s) (ts_groups s))"

definition on_server :: "tree_state \<Rightarrow> network_id \<Rightarrow> conversation_id list" where
  "on_server s n =
     map conv_id (filter (\<lambda>c. conv_network c = n \<and> conv_id c \<notin> set (all_grouped s)) (ts_conversations s))"

lemma map_filter_Nil_concat: "concat (map (\<lambda>x. []) xs) = []"
  by (induction xs) auto

lemma display_tree_simps [simp]:
  "dt_groups (display_tree_of s) = map (\<lambda>g. (cg_id g, group_present s g)) (ts_groups s)"
  "dt_servers (display_tree_of s) = map (\<lambda>n. (nw_id n, on_server s (nw_id n))) (ts_networks s)"
proof -
  have empty: "group_present s g = []" if "\<not> any_grouped s" "g \<in> set (ts_groups s)" for g
    using that by (simp add: any_grouped_def group_present_def list_ex_iff List.map_filter_def)
  then show "dt_groups (display_tree_of s) = map (\<lambda>g. (cg_id g, group_present s g)) (ts_groups s)"
    by (simp add: display_tree_of_def Let_def)
  have "all_grouped s = []" if "\<not> any_grouped s"
    using empty [OF that] by (simp add: all_grouped_def)
  then have "(if any_grouped s then concat (map (group_present s) (ts_groups s)) else []) = all_grouped s"
    by (simp add: all_grouped_def)
  then show "dt_servers (display_tree_of s) = map (\<lambda>n. (nw_id n, on_server s (nw_id n))) (ts_networks s)"
    by (simp only: display_tree_of_def Let_def on_server_def display_tree.simps)
qed

lemma channel_index_Some:
  assumes "channel_index s m = Some i"
  shows "\<exists>c \<in> set (ts_conversations s). \<not> conversation_is_private c \<and> member_of c = m \<and> conv_id c = i"
  using map_of_SomeD [OF assms [unfolded channel_index_def]] by auto

lemma conv_unique:
  "lists_ok s \<Longrightarrow> c \<in> set (ts_conversations s) \<Longrightarrow> d \<in> set (ts_conversations s) \<Longrightarrow> conv_id c = conv_id d \<Longrightarrow> c = d"
  by (auto simp: lists_ok_def conv_ids_def distinct_map dest: inj_onD)

lemma channel_index_inj:
  "lists_ok s \<Longrightarrow> channel_index s m = Some i \<Longrightarrow> channel_index s m' = Some i \<Longrightarrow> m = m'"
  using channel_index_Some conv_unique by metis

lemma all_grouped_members: "all_grouped s = List.map_filter (channel_index s) (group_members s)"
proof -
  have "concat (map (\<lambda>g. List.map_filter f (h g)) gs) = List.map_filter f (concat (map h gs))"
    for f :: "group_member \<rightharpoonup> conversation_id" and h :: "channel_group \<Rightarrow> group_member list" and gs
    by (induction gs) (simp_all add: List.map_filter_def)
  moreover have "group_present s = (\<lambda>g. List.map_filter (channel_index s) (cg_members g))"
    by (simp add: group_present_def fun_eq_iff)
  ultimately show ?thesis by (simp add: all_grouped_def group_members_def)
qed

lemma distinct_map_filter_inj:
  assumes "distinct xs" and "\<And>x y i. f x = Some i \<Longrightarrow> f y = Some i \<Longrightarrow> x = y"
  shows "distinct (List.map_filter f xs)"
  using assms(1)
proof (induction xs)
  case (Cons x xs)
  have "i \<notin> set (List.map_filter f xs)" if "f x = Some i" for i
  proof
    assume "i \<in> set (List.map_filter f xs)"
    then obtain y where "y \<in> set xs" "f y = Some i" by (auto simp: List.map_filter_def)
    with assms(2) that Cons.prems show False by fastforce
  qed
  then show ?case using Cons by (auto simp: map_filter_simps split: option.split)
qed (simp add: map_filter_simps)

lemma distinct_all_grouped: "lists_ok s \<Longrightarrow> groups_ok s \<Longrightarrow> distinct (all_grouped s)"
  using channel_index_inj by (auto simp: all_grouped_members groups_ok_def intro!: distinct_map_filter_inj)

lemma all_grouped_ids: "set (all_grouped s) \<subseteq> set (conv_ids s)"
  using channel_index_Some by (fastforce simp: all_grouped_members List.map_filter_def conv_ids_def)

lemma distinct_on_servers:
  assumes "lists_ok s"
  shows "distinct (concat (map (\<lambda>n. on_server s (nw_id n)) (ts_networks s)))"
proof -
  have one: "distinct (on_server s n)" for n
    using assms by (simp add: on_server_def lists_ok_def conv_ids_def distinct_map inj_on_def)
  have apart: "set (on_server s m) \<inter> set (on_server s n) = {}" if "m \<noteq> n" for m n
    using that conv_unique [OF assms] by (auto simp: on_server_def)
  have "distinct (map nw_id ns) \<Longrightarrow> distinct (concat (map (\<lambda>n. on_server s (nw_id n)) ns))" for ns
  proof (induction ns)
    case (Cons n ns)
    then have "set (on_server s (nw_id n)) \<inter> set (on_server s (nw_id k)) = {}" if "k \<in> set ns" for k
      using that apart by (metis distinct.simps(2) image_eqI list.set_map list.simps(9))
    then show ?case using Cons one by auto
  qed simp
  from this [of "ts_networks s"] assms show ?thesis unfolding lists_ok_def by blast
qed

lemma shows_each_once_core:
  assumes "lists_ok s" and "groups_ok s"
  shows "mset (tree_conversations (display_tree_of s)) = mset (conv_ids s)"
proof -
  let ?servers = "concat (map (\<lambda>n. on_server s (nw_id n)) (ts_networks s))"
  have tree: "tree_conversations (display_tree_of s) = all_grouped s @ ?servers"
    by (simp add: tree_conversations_def all_grouped_def o_def)
  have servers: "set ?servers = set (conv_ids s) - set (all_grouped s)"
    using assms(1) by (fastforce simp: on_server_def conv_ids_def lists_ok_def)
  have "distinct (all_grouped s @ ?servers)"
    using distinct_all_grouped [OF assms] distinct_on_servers [OF assms(1)] servers by auto
  moreover have "set (all_grouped s @ ?servers) = set (conv_ids s)"
    unfolding set_append servers using all_grouped_ids [of s] by blast
  moreover have "distinct (conv_ids s)" using assms(1) by (simp add: lists_ok_def)
  ultimately show ?thesis unfolding tree by (metis set_eq_iff_mset_eq_distinct)
qed

section \<open>Where a conversation is shown\<close>

text \<open>No two channels of a server have the same name up to ASCII case: every case mapping folds at least
  that, and the application finds a channel by its folded name.\<close>

definition channels_unique :: "tree_state \<Rightarrow> bool" where
  "channels_unique s \<longleftrightarrow>
     distinct (map member_of (filter (\<lambda>c. \<not> conversation_is_private c) (ts_conversations s)))"

lemma find_map_eq: "List.find P (map f xs) = map_option f (List.find (\<lambda>x. P (f x)) xs)"
  by (induction xs) auto

lemma find_position: "List.find P xs = map_option ((!) xs) (position P xs)"
  by (induction xs) (auto simp: option.map_comp o_def)

lemma find_cong_set: "(\<And>x. x \<in> set xs \<Longrightarrow> P x = Q x) \<Longrightarrow> List.find P xs = List.find Q xs"
  by (induction xs) auto

lemma find_conversation_Some:
  "find_conversation s i = Some c \<Longrightarrow> c \<in> set (ts_conversations s) \<and> conv_id c = i"
  by (auto simp: find_conversation_def find_Some_iff)

lemma find_conversation_None: "find_conversation s i = None \<longleftrightarrow> i \<notin> set (conv_ids s)"
  by (auto simp: find_conversation_def find_None_iff conv_ids_def)

lemma find_conversation_in:
  assumes "lists_ok s" and "c \<in> set (ts_conversations s)"
  shows "find_conversation s (conv_id c) = Some c"
  using assms find_conversation_Some find_conversation_None conv_unique
  by (cases "find_conversation s (conv_id c)") (fastforce simp: conv_ids_def)+

lemma channel_index_of:
  assumes "channels_unique s" and "c \<in> set (ts_conversations s)" and "\<not> conversation_is_private c"
  shows "channel_index s (member_of c) = Some (conv_id c)"
proof -
  let ?cs = "filter (\<lambda>c. \<not> conversation_is_private c) (ts_conversations s)"
  have "distinct (map fst (rev (map (\<lambda>c. (member_of c, conv_id c)) ?cs)))"
    using assms(1) by (simp add: channels_unique_def rev_map [symmetric] o_def)
  moreover have "(member_of c, conv_id c) \<in> set (rev (map (\<lambda>c. (member_of c, conv_id c)) ?cs))"
    using assms(2,3) by auto
  ultimately show ?thesis unfolding channel_index_def by (rule map_of_is_SomeI)
qed

lemma in_group_present:
  assumes "lists_ok s" and "channels_unique s" and "c \<in> set (ts_conversations s)"
  shows "conv_id c \<in> set (group_present s g) \<longleftrightarrow> \<not> conversation_is_private c \<and> member_of c \<in> set (cg_members g)"
proof
  assume "conv_id c \<in> set (group_present s g)"
  then obtain m where m: "m \<in> set (cg_members g)" "channel_index s m = Some (conv_id c)"
    by (auto simp: group_present_def List.map_filter_def)
  then show "\<not> conversation_is_private c \<and> member_of c \<in> set (cg_members g)"
    using channel_index_Some [OF m(2)] conv_unique [OF assms(1) _ assms(3)] by metis
next
  assume "\<not> conversation_is_private c \<and> member_of c \<in> set (cg_members g)"
  then show "conv_id c \<in> set (group_present s g)"
    using channel_index_of [OF assms(2,3)] by (force simp: group_present_def List.map_filter_def)
qed

lemma parent_of_display_tree:
  "parent_of (display_tree_of s) i =
     (case List.find (\<lambda>g. i \<in> set (group_present s g)) (ts_groups s) of
        Some g \<Rightarrow> Some (GroupParent (cg_id g))
      | None \<Rightarrow> map_option (\<lambda>n. ServerParent (nw_id n))
                  (List.find (\<lambda>n. i \<in> set (on_server s (nw_id n))) (ts_networks s)))"
  by (simp add: parent_of_def find_map_eq option.map_comp o_def split: option.split)

lemma on_server_iff:
  assumes "lists_ok s" and "c \<in> set (ts_conversations s)"
  shows "conv_id c \<in> set (on_server s n) \<longleftrightarrow> n = conv_network c \<and> conv_id c \<notin> set (all_grouped s)"
proof
  assume "conv_id c \<in> set (on_server s n)"
  then obtain d where "d \<in> set (ts_conversations s)" "conv_id d = conv_id c" "conv_network d = n"
    "conv_id c \<notin> set (all_grouped s)" by (auto simp: on_server_def)
  then show "n = conv_network c \<and> conv_id c \<notin> set (all_grouped s)"
    using conv_unique [OF assms(1)] assms(2) by metis
qed (use assms(2) in \<open>auto simp: on_server_def\<close>)

lemma display_parent_core:
  assumes "lists_ok s" and "channels_unique s"
  shows "display_parent s i = parent_of (display_tree_of s) i"
proof (cases "find_conversation s i")
  case None
  then have "i \<notin> set (all_grouped s)" "\<And>n. i \<notin> set (on_server s n)"
    using all_grouped_ids [of s] by (auto simp: find_conversation_None on_server_def conv_ids_def)
  then show ?thesis
    using None by (simp add: display_parent_def parent_of_display_tree find_None_iff all_grouped_def
        split: option.split)
next
  case (Some c)
  then have c: "c \<in> set (ts_conversations s)" "conv_id c = i" using find_conversation_Some by auto
  let ?P = "\<lambda>g. \<not> conversation_is_private c \<and> member_of c \<in> set (cg_members g)"
  have grouped: "List.find (\<lambda>g. i \<in> set (group_present s g)) (ts_groups s) = List.find ?P (ts_groups s)"
    using in_group_present [OF assms c(1)] c(2) by simp
  show ?thesis
  proof (cases "List.find ?P (ts_groups s)")
    case (Some g)
    then have "\<not> conversation_is_private c" by (auto simp: find_Some_iff)
    then have "map_option ((!) (ts_groups s)) (group_index_of s c) = Some g"
      using Some by (simp add: group_index_of_def find_position)
    then show ?thesis
      using \<open>find_conversation s i = Some c\<close> \<open>\<not> conversation_is_private c\<close> Some
      by (auto simp: display_parent_def parent_of_display_tree grouped)
  next
    case None
    have "(if conversation_is_private c then None else group_index_of s c) = None"
      using None by (auto simp: group_index_of_def position_None find_None_iff)
    moreover have "i \<notin> set (all_grouped s)"
      using None in_group_present [OF assms c(1)] c(2) by (auto simp: find_None_iff all_grouped_def)
    then have "i \<in> set (on_server s n) \<longleftrightarrow> n = conv_network c" for n
      using on_server_iff [OF assms(1) c(1)] c(2) by simp
    then have "List.find (\<lambda>n. i \<in> set (on_server s (nw_id n))) (ts_networks s)
        = List.find (\<lambda>n. nw_id n = conv_network c) (ts_networks s)" by simp
    moreover have "map_option (\<lambda>n. ServerParent (nw_id n)) (List.find (\<lambda>n. nw_id n = conv_network c) ns)
        = (if list_ex (\<lambda>n. nw_id n = conv_network c) ns then Some (ServerParent (conv_network c)) else None)"
      for ns :: "network list"
      by (induction ns) auto
    ultimately show ?thesis
      using \<open>find_conversation s i = Some c\<close> None by (simp add: display_parent_def parent_of_display_tree grouped)
  qed
qed

text \<open>C37. While no two channels of a server have names that are equal up to ASCII case, the direct answer where a
  conversation is shown is the one the tree gives, for every conversation, grouped or not, and for an
  identifier nothing has: the function that avoids building the tree is equivalent to building it and
  searching it. Identifiers of networks and conversations are distinct. Configured channels may break
  the condition (\<open>twin_channels_disagree\<close> below).\<close>

theorem display_parent_is_tree:
  assumes "lists_ok s" and "channels_unique s"
  shows "display_parent s i = parent_of (display_tree_of s) i"
  using assms by (rule display_parent_core)

section \<open>Groups stay well formed\<close>

text \<open>What a group shows besides its members.\<close>

definition headings :: "tree_state \<Rightarrow> (group_id \<times> rstring \<times> bool) list" where
  "headings s = map (\<lambda>g. (cg_id g, cg_name g, cg_collapsed g)) (ts_groups s)"

definition members_ok :: "tree_state \<Rightarrow> bool" where
  "members_ok s \<longleftrightarrow>
     distinct (group_members s) \<and> (\<forall>g \<in> set (ts_groups s). length (cg_members g) \<le> MAX_GROUP_MEMBERS)"

definition headings_ok :: "(rstring \<Rightarrow> rstring) \<Rightarrow> tree_state \<Rightarrow> bool" where
  "headings_ok lower s \<longleftrightarrow>
     distinct (map cg_id (ts_groups s)) \<and> list_all (\<lambda>i. group_number i \<le> ts_next_group s) (map cg_id (ts_groups s))
     \<and> distinct (map (\<lambda>g. lower (cg_name g)) (ts_groups s)) \<and> length (ts_groups s) \<le> MAX_GROUPS"

definition same_lists :: "tree_state \<Rightarrow> tree_state \<Rightarrow> bool" where
  "same_lists s t \<longleftrightarrow>
     ts_networks t = ts_networks s \<and> mset (ts_conversations t) = mset (ts_conversations s)"

text \<open>A move: the lists are the same up to order, the headings the same, the members well formed.\<close>

definition moves :: "tree_state \<Rightarrow> tree_state \<Rightarrow> bool" where
  "moves s t \<longleftrightarrow>
     same_lists s t \<and> headings t = headings s \<and> ts_next_group t = ts_next_group s
     \<and> (members_ok s \<longrightarrow> members_ok t)"

lemma moves_refl [simp]: "moves s s"
  by (simp add: moves_def same_lists_def)

lemma moves_trans: "moves s t \<Longrightarrow> moves t u \<Longrightarrow> moves s u"
  by (simp add: moves_def same_lists_def)

lemma map_headings:
  "map cg_id (ts_groups s) = map fst (headings s)"
  "map (\<lambda>g. f (cg_name g)) (ts_groups s) = map (\<lambda>(_, name, _). f name) (headings s)"
  "length (ts_groups s) = length (headings s)"
  by (simp_all add: headings_def)

lemma moves_headings_ok: "moves s t \<Longrightarrow> headings_ok lower t = headings_ok lower s"
  unfolding headings_ok_def moves_def by (simp only: map_headings)

lemma concat_apart:
  assumes "distinct (concat xss)" and "i \<noteq> j" and "i < length xss" and "j < length xss"
  shows "set (xss ! i) \<inter> set (xss ! j) = {}"
proof -
  have "distinct (concat xss) \<Longrightarrow> i < j \<Longrightarrow> j < length xss \<Longrightarrow> set (xss ! i) \<inter> set (xss ! j) = {}" for i j
  proof (induction xss arbitrary: i j)
    case (Cons xs xss)
    obtain k where k: "j = Suc k" "k < length xss" using Cons.prems by (cases j) auto
    show ?case
    proof (cases i)
      case 0
      have "set (xss ! k) \<subseteq> set (concat xss)" using k(2) by (auto dest: nth_mem)
      then show ?thesis using 0 k Cons.prems(1) by auto
    next
      case (Suc l)
      then show ?thesis using Cons.IH [of l k] Cons.prems k by simp
    qed
  qed simp
  from this [of i j] this [of j i] assms show ?thesis by (cases "i < j") auto
qed

lemma leave_group_groups:
  assumes "distinct (group_members s)"
  shows "ts_groups (fst (leave_group c s))
    = map (\<lambda>g. g\<lparr>cg_members := filter (\<lambda>m. m \<noteq> member_of c) (cg_members g)\<rparr>) (ts_groups s)"
proof -
  have absent: "g\<lparr>cg_members := filter (\<lambda>m. m \<noteq> member_of c) (cg_members g)\<rparr> = g"
    if "member_of c \<notin> set (cg_members g)" for g :: channel_group
  proof -
    have "filter (\<lambda>m. m \<noteq> member_of c) (cg_members g) = cg_members g"
      using that by (auto intro: filter_True)
    then show ?thesis by simp
  qed
  show ?thesis
  proof (cases "group_index_of s c")
    case None
    then have "member_of c \<notin> set (cg_members g)" if "g \<in> set (ts_groups s)" for g
      using that by (simp add: group_index_of_def position_None)
    then have "map (\<lambda>g. g\<lparr>cg_members := filter (\<lambda>m. m \<noteq> member_of c) (cg_members g)\<rparr>) (ts_groups s) = ts_groups s"
      by (intro map_idI absent)
    then show ?thesis using None by (simp add: leave_group_def)
  next
    case (Some at)
    then have at: "at < length (ts_groups s)" "member_of c \<in> set (cg_members (ts_groups s ! at))"
      by (simp_all add: group_index_of_def position_Some)
    have "member_of c \<notin> set (cg_members (ts_groups s ! k))" if "k < length (ts_groups s)" "k \<noteq> at" for k
      using concat_apart [of "map cg_members (ts_groups s)" at k] assms at that by (auto simp: group_members_def)
    then show ?thesis
      using Some at(1) by (auto simp: leave_group_def Let_def absent nth_list_update intro!: nth_equalityI)
  qed
qed

lemma members_ok_filter:
  assumes "members_ok s"
  shows "members_ok (s\<lparr>ts_groups :=
    map (\<lambda>g. g\<lparr>cg_members := filter P (cg_members g)\<rparr>) (ts_groups s)\<rparr>)"
proof -
  have "concat (map (\<lambda>g. filter P (cg_members g)) gs) = filter P (concat (map cg_members gs))"
    for gs :: "channel_group list"
    by (induction gs) auto
  then show ?thesis
    using assms by (auto simp: members_ok_def group_members_def o_def intro: order_trans [OF length_filter_le])
qed

lemma leave_group_lists:
  "ts_conversations (fst (leave_group c s)) = ts_conversations s"
  "ts_networks (fst (leave_group c s)) = ts_networks s"
  "ts_next_group (fst (leave_group c s)) = ts_next_group s"
  "ts_orders (fst (leave_group c s)) = ts_orders s"
  by (simp_all add: leave_group_def Let_def split: option.split)

lemma map_list_update_same: "i < length xs \<Longrightarrow> f y = f (xs ! i) \<Longrightarrow> map f (xs[i := y]) = map f xs"
  by (metis list_update_id map_update)

lemma leave_group_headings: "headings (fst (leave_group c s)) = headings s"
  by (auto simp: leave_group_def headings_def Let_def group_index_of_def position_Some
      intro!: map_list_update_same split: option.split)

lemma leave_group_members_ok:
  assumes "members_ok s"
  shows "members_ok (fst (leave_group c s))"
    and "member_of c \<notin> set (group_members (fst (leave_group c s)))"
proof -
  have g: "ts_groups (fst (leave_group c s))
      = map (\<lambda>g. g\<lparr>cg_members := filter (\<lambda>m. m \<noteq> member_of c) (cg_members g)\<rparr>) (ts_groups s)"
    using assms leave_group_groups by (simp add: members_ok_def)
  show "members_ok (fst (leave_group c s))"
    using members_ok_filter [OF assms, of "\<lambda>m. m \<noteq> member_of c"] by (simp add: members_ok_def group_members_def g)
  show "member_of c \<notin> set (group_members (fst (leave_group c s)))"
    by (auto simp: group_members_def g)
qed

lemma leave_moves: "moves s (fst (leave_group c s))"
  using leave_group_members_ok(1)
  by (auto simp: moves_def same_lists_def leave_group_lists leave_group_headings)

lemma change_first_split:
  assumes "List.find P xs = Some x"
  shows "\<exists>us vs. xs = us @ x # vs \<and> (\<forall>u \<in> set us. \<not> P u) \<and> P x \<and> change_first P f xs = us @ f x # vs"
  using assms
proof (induction xs)
  case (Cons y ys)
  show ?case
  proof (cases "P y")
    case False
    with Cons obtain us vs where "ys = us @ x # vs" "\<forall>u \<in> set us. \<not> P u" "P x"
      "change_first P f ys = us @ f x # vs" by auto
    then show ?thesis using False by (intro exI [of _ "y # us"] exI [of _ vs]) simp
  next
    case True
    then show ?thesis using Cons.prems by (intro exI [of _ "[]"] exI [of _ ys]) simp
  qed
qed simp

lemma change_first_map: "(\<And>x. h (f x) = h x) \<Longrightarrow> map h (change_first P f xs) = map h xs"
  by (induction xs) auto

lemma set_insert_at [simp]: "set (insert_at i x xs) = insert x (set xs)"
  by (metis mset_insert_at set_mset_add_mset_insert set_mset_mset)

lemma length_insert_at [simp]: "length (insert_at i x xs) = Suc (length xs)"
  by (metis mset_insert_at size_add_mset size_mset)

lemma distinct_insert_at [simp]: "distinct (insert_at i x xs) \<longleftrightarrow> x \<notin> set xs \<and> distinct xs"
  by (metis distinct.simps(2) mset.simps(2) mset_eq_imp_distinct_iff mset_insert_at)

lemma enter_members: "\<exists>i. cg_members (enter_group m anchor g) = insert_at i m (cg_members g)"
  by (auto simp: enter_group_def Let_def)

lemma enter_members_ok:
  assumes ok: "members_ok s" and found: "List.find P (ts_groups s) = Some g"
    and new: "m \<notin> set (group_members s)" and room: "length (cg_members g) < MAX_GROUP_MEMBERS"
  shows "members_ok (s\<lparr>ts_groups := change_first P (enter_group m anchor) (ts_groups s)\<rparr>)"
proof -
  define gs where "gs = change_first P (enter_group m anchor) (ts_groups s)"
  obtain us vs where split: "ts_groups s = us @ g # vs" "gs = us @ enter_group m anchor g # vs"
    using change_first_split [OF found, of "enter_group m anchor"] unfolding gs_def by blast
  obtain i where i: "cg_members (enter_group m anchor g) = insert_at i m (cg_members g)"
    using enter_members by blast
  show ?thesis
    using ok new room unfolding gs_def [symmetric] by (auto simp: members_ok_def group_members_def split i)
qed

lemma enter_headings: "headings (s\<lparr>ts_groups := change_first P (enter_group m anchor) gs\<rparr>)
  = headings (s\<lparr>ts_groups := gs\<rparr>)"
  by (simp add: headings_def enter_group_def Let_def change_first_map)

lemma find_group_leave:
  assumes "find_group s i = Some g" and "members_ok s"
  shows "find_group (fst (leave_group c s)) i
    = Some (g\<lparr>cg_members := filter (\<lambda>m. m \<noteq> member_of c) (cg_members g)\<rparr>)"
  using assms leave_group_groups [of s c] by (simp add: find_group_def members_ok_def find_map_eq)

lemma move_to_group_moves: "moves s (fst (move_to_group i target before s))"
proof -
  have "moves s ((fst (leave_group c s))\<lparr>ts_groups := change_first (\<lambda>g. cg_id g = target)
      (enter_group (member_of c) anchor) (ts_groups (fst (leave_group c s)))\<rparr>)"
    (is "moves s ?t")
    if g: "find_group s target = Some g"
      and room: "\<not> (MAX_GROUP_MEMBERS \<le> length (cg_members g) \<and> member_of c \<notin> set (cg_members g))"
    for c anchor g
  proof -
    have "members_ok ?t" if ok: "members_ok s"
    proof (rule enter_members_ok)
      let ?g = "g\<lparr>cg_members := filter (\<lambda>m. m \<noteq> member_of c) (cg_members g)\<rparr>"
      show "List.find (\<lambda>g. cg_id g = target) (ts_groups (fst (leave_group c s))) = Some ?g"
        using find_group_leave [OF g ok] by (simp add: find_group_def)
      have "g \<in> set (ts_groups s)" using g by (auto simp: find_group_def find_Some_iff)
      then have len: "length (cg_members g) \<le> MAX_GROUP_MEMBERS" using ok by (simp add: members_ok_def)
      show "length (cg_members ?g) < MAX_GROUP_MEMBERS"
      proof (cases "member_of c \<in> set (cg_members g)")
        case True
        then have "length (filter (\<lambda>m. m \<noteq> member_of c) (cg_members g)) < length (cg_members g)"
          by (intro length_filter_less) auto
        then show ?thesis using len by simp
      next
        case False
        then have "length (cg_members g) < MAX_GROUP_MEMBERS" using room by simp
        then show ?thesis by (simp add: le_less_trans [OF length_filter_le])
      qed
    qed (fact leave_group_members_ok [OF ok])+
    then show ?thesis
      using leave_moves [of s c] by (simp add: moves_def same_lists_def enter_headings)
  qed
  then show ?thesis
    by (simp add: move_to_group_def Let_def split: option.split)
qed

lemma return_moves: "moves s (fst (return_to_server i s))"
  by (simp add: return_to_server_def leave_moves split: option.split)

lemma store_moves: "moves s (store_channel_order n order s)"
  by (simp add: moves_def same_lists_def store_channel_order_def Let_def headings_def members_ok_def group_members_def)

lemma conversations_moves:
  assumes "mset cs = mset (ts_conversations s)"
  shows "moves s (s\<lparr>ts_conversations := cs\<rparr>)"
  using assms by (simp add: moves_def same_lists_def headings_def members_ok_def group_members_def)

lemma reordered_moves: "mset cs = mset (ts_conversations s) \<Longrightarrow>
    moves s (store_channel_order n order (s\<lparr>ts_conversations := cs\<rparr>))"
  using moves_trans [OF conversations_moves store_moves] .

lemma permuted_members_ok:
  assumes ok: "members_ok s" and at: "at < length (ts_groups s)"
    and perm: "mset ms = mset (cg_members (ts_groups s ! at))"
  shows "members_ok (s\<lparr>ts_groups := (ts_groups s)[at := (ts_groups s ! at)\<lparr>cg_members := ms\<rparr>]\<rparr>)"
proof -
  let ?gs = "ts_groups s" and ?g = "(ts_groups s ! at)\<lparr>cg_members := ms\<rparr>"
  have before: "?gs = take at ?gs @ ?gs ! at # drop (Suc at) ?gs" using at by (rule id_take_nth_drop)
  have after: "?gs[at := ?g] = take at ?gs @ ?g # drop (Suc at) ?gs" using at by (rule upd_conv_take_nth_drop)
  have "mset (concat (map cg_members (?gs[at := ?g]))) = mset (concat (map cg_members ?gs))"
    unfolding after by (subst (3) before) (simp add: perm)
  then have "distinct (concat (map cg_members (?gs[at := ?g])))"
    using ok mset_eq_imp_distinct_iff unfolding members_ok_def group_members_def by blast
  moreover have "length ms \<le> MAX_GROUP_MEMBERS"
    using ok at mset_eq_length [OF perm] by (simp add: members_ok_def)
  ultimately show ?thesis
    using ok by (auto simp: members_ok_def group_members_def dest!: set_update_subset_insert [THEN subsetD])
qed

lemma move_in_group_moves: "moves s (fst (move_in_group tree i to s))"
proof -
  have "moves s (s\<lparr>ts_groups := (ts_groups s)[at := (ts_groups s ! at)\<lparr>cg_members :=
      move_item f t (cg_members (ts_groups s ! at))\<rparr>]\<rparr>)"
    if "group_index_of s c = Some at" for c at f t
  proof -
    have at: "at < length (ts_groups s)" using that by (simp add: group_index_of_def position_Some)
    show ?thesis
      using permuted_members_ok [OF _ at, of "move_item f t (cg_members (ts_groups s ! at))"]
      by (simp add: moves_def same_lists_def headings_def map_list_update_same at)
  qed
  then show ?thesis
    by (auto simp: move_in_group_def Let_def bind_eq_Some_conv split: option.split)
qed

lemma move_on_server_moves: "moves s (fst (move_on_server tree n i to s))"
  by (auto simp: move_on_server_def Let_def intro: reordered_moves conversations_moves
      split: option.split)

lemma mset_taken_out: "i < length xs \<Longrightarrow> mset (insert_at k (xs ! i) (remove_at i xs)) = mset xs"
  by (simp add: mset_remove_at)

lemma relocate_moves: "moves s (fst (relocate tree i other s))"
proof -
  have "moves s (store_channel_order n order ((fst (return_to_server i s))\<lparr>ts_conversations :=
      insert_at k (cs ! f) (remove_at f cs)\<rparr>))"
    if "position P cs = Some f" "cs = ts_conversations (fst (return_to_server i s))" for n order k cs f P
    using that mset_taken_out [of f cs k] moves_trans [OF return_moves reordered_moves]
    by (simp add: position_Some)
  then show ?thesis
    using return_moves move_to_group_moves
    by (auto simp: relocate_def Let_def split: option.split parent.split)
qed

lemma move_conversation_moves: "moves s (fst (move_conversation i to s))"
proof -
  have stay: "moves s (fst (if ts_groups s \<noteq> [] \<and> is_grouped s i
      then (case move_in_group tree i to s of
              (s, Some moved) \<Rightarrow> (s, if moved then Some n else None) | (s, None) \<Rightarrow> (s, None))
      else move_on_server tree n i to s))" for tree n
    using move_in_group_moves [of s tree i to] move_on_server_moves
    by (auto split: prod.split option.split)
  have told: "fst (case p of (s, moved) \<Rightarrow> (s, if moved then Some n else None)) = fst p"
    for p :: "tree_state \<times> bool" and n :: network_id
    by (simp add: split_beta)
  show ?thesis
  proof (cases "find_conversation s i")
    case (Some c)
    note stays = stay [where tree = "display_tree_of s" and n = "conv_network c"]
    show ?thesis
    proof (cases "\<exists>other. to = MovePlace other \<and> ts_groups s \<noteq> []")
      case True
      then obtain other where "to = MovePlace other" "ts_groups s \<noteq> []" by blast
      then show ?thesis
        using stays relocate_moves [of s "display_tree_of s" i other]
        by (cases "is_grouped s i") (simp_all add: move_conversation_def Some Let_def told split: option.split)
    next
      case False
      then have "fst (move_conversation i to s) = fst (if ts_groups s \<noteq> [] \<and> is_grouped s i
          then (case move_in_group (display_tree_of s) i to s of
                  (s, Some moved) \<Rightarrow> (s, if moved then Some (conv_network c) else None) | (s, None) \<Rightarrow> (s, None))
          else move_on_server (display_tree_of s) (conv_network c) i to s)"
        by (cases to) (simp_all add: move_conversation_def Some Let_def)
      then show ?thesis using stays by simp
    qed
  qed (simp add: move_conversation_def)
qed

lemma move_after_moves: "moves s (fst (move_after i other s))"
proof -
  have "moves s (fst (move_conversation i MoveLast (fst (return_to_server i s))))"
    by (rule moves_trans [OF return_moves move_conversation_moves])
  then show ?thesis
    using move_conversation_moves move_to_group_moves return_moves
    by (auto simp: move_after_def Let_def split_beta split: option.split parent.split)
qed

lemma apply_order_moves: "moves s (apply_channel_order n s)"
proof -
  have "mset (take start cs @ sort_key f (take k (drop start cs)) @ drop (start + k) cs) = mset cs"
    for start k :: nat and cs and f :: "conversation \<Rightarrow> nat"
    by (metis append_take_drop_id drop_drop add.commute mset_append mset_sort)
  moreover have "mset (take start cs) + mset (drop start cs) = mset cs" for start and cs :: "conversation list"
    by (metis append_take_drop_id mset_append)
  ultimately show ?thesis
    by (auto simp: apply_channel_order_def Let_def intro!: conversations_moves split: option.split)
qed

lemma set_order_moves: "moves s (set_channel_order n order s)"
  unfolding set_channel_order_def by (rule moves_trans [OF store_moves apply_order_moves])

text \<open>A new group gets a number above all others.\<close>

definition names_ok :: "(rstring \<Rightarrow> rstring) \<Rightarrow> tree_state \<Rightarrow> bool" where
  "names_ok lower s \<longleftrightarrow>
     distinct (map cg_id (ts_groups s)) \<and> list_all (\<lambda>i. group_number i \<le> ts_next_group s) (map cg_id (ts_groups s))
     \<and> distinct (map (\<lambda>g. lower (cg_name g)) (ts_groups s))"

lemma headings_ok_iff: "headings_ok lower s \<longleftrightarrow> names_ok lower s \<and> length (ts_groups s) \<le> MAX_GROUPS"
  by (auto simp: headings_ok_def names_ok_def)

definition push_group :: "rstring \<Rightarrow> bool \<Rightarrow> group_member list \<Rightarrow> tree_state \<Rightarrow> tree_state" where
  "push_group name collapsed members s =
     s\<lparr>ts_next_group := ts_next_group s + 1,
       ts_groups := ts_groups s @ [\<lparr>cg_id = GroupId (ts_next_group s + 1), cg_name = name,
         cg_collapsed = collapsed, cg_members = members\<rparr>]\<rparr>"

lemma unat_max: "unat (- 1 :: 32 word) = 4294967295"
  by (simp add: unsigned_minus_1_eq_mask mask_eq_exp_minus_1)

lemma unat_inc: "x \<noteq> - 1 \<Longrightarrow> unat ((x :: 32 word) + 1) = Suc (unat x)"
  using unatSuc [of x] by (metis add.commute eq_neg_iff_add_eq_0)

lemma word_less_inc: "x < (x :: 32 word) + 1" if "x \<noteq> - 1"
  using unat_inc [OF that] by (simp add: word_less_nat_alt)

lemma group_named_None: "group_named lower s name = None \<longleftrightarrow> lower name \<notin> (\<lambda>g. lower (cg_name g)) ` set (ts_groups s)"
  unfolding group_named_def by (simp add: find_None_iff image_iff) metis

lemma distinct_kept: "distinct (a @ b @ c) \<Longrightarrow> distinct ((a @ filter P b) @ c) \<and> distinct (a @ c)"
  by auto

lemma push_names_ok:
  assumes ok: "names_ok lower s" and room: "ts_next_group s \<noteq> - 1" and new: "group_named lower s name = None"
  shows "names_ok lower (push_group name collapsed members s)"
proof -
  have less: "ts_next_group s < ts_next_group s + 1" using word_less_inc [OF room] .
  have ids: "group_number (cg_id g) \<le> ts_next_group s" if "g \<in> set (ts_groups s)" for g
    using ok that by (simp add: names_ok_def list_all_iff)
  have "GroupId (ts_next_group s + 1) \<noteq> cg_id g" if "g \<in> set (ts_groups s)" for g
    using ids [OF that] less by (cases "cg_id g") auto
  moreover have "group_number (cg_id g) \<le> ts_next_group s + 1" if "g \<in> set (ts_groups s)" for g
    using ids [OF that] less by simp
  moreover have "\<forall>g \<in> set (ts_groups s). lower (cg_name g) \<noteq> lower name"
    using new unfolding group_named_None by (metis imageI)
  ultimately show ?thesis
    using ok by (auto simp: names_ok_def push_group_def list_all_iff)
qed

lemma adopt_group_push:
  "adopt_group lower spec s =
     (if group_named lower s (gs_name spec) \<noteq> None then s
      else push_group (gs_name spec) (gs_collapsed spec)
             (filter (\<lambda>m. list_ex (\<lambda>n. nw_id n = gm_network m) (ts_networks s)) (gs_members spec)) s)"
  by (simp add: adopt_group_def push_group_def new_group_id_def Let_def)

lemma adopt_all_ok:
  assumes "names_ok lower s" and "unat (ts_next_group s) + length specs < 2 ^ 32"
    and "distinct (group_members s @ concat (map gs_members specs))"
    and "\<forall>g \<in> set (ts_groups s). length (cg_members g) \<le> MAX_GROUP_MEMBERS"
    and "\<forall>spec \<in> set specs. length (gs_members spec) \<le> MAX_GROUP_MEMBERS"
  shows "names_ok lower (fold (adopt_group lower) specs s) \<and> members_ok (fold (adopt_group lower) specs s)
    \<and> length (ts_groups (fold (adopt_group lower) specs s)) \<le> length (ts_groups s) + length specs
    \<and> same_lists s (fold (adopt_group lower) specs s)"
  using assms
proof (induction specs arbitrary: s)
  case Nil
  then show ?case by (simp add: members_ok_def same_lists_def)
next
  case (Cons spec specs)
  let ?t = "adopt_group lower spec s"
  have max: "ts_next_group s \<noteq> - 1"
  proof
    assume "ts_next_group s = - 1"
    then show False using Cons.prems(2) by (simp add: unat_max)
  qed
  then have next_t: "unat (ts_next_group ?t) \<le> Suc (unat (ts_next_group s))"
    using unat_inc [OF max] by (simp add: adopt_group_push push_group_def)
  have names: "names_ok lower ?t"
    using push_names_ok [OF Cons.prems(1) max] Cons.prems(1) by (simp add: adopt_group_push)
  have members: "group_members ?t = group_members s \<or> (\<exists>P. group_members ?t = group_members s @ filter P (gs_members spec))"
    by (auto simp: adopt_group_push push_group_def group_members_def)
  have "distinct (group_members ?t @ concat (map gs_members specs))"
  proof -
    have "distinct (group_members s @ gs_members spec @ concat (map gs_members specs))"
      using Cons.prems(3) by simp
    from distinct_kept [OF this] members show ?thesis by metis
  qed
  moreover have "\<forall>g \<in> set (ts_groups ?t). length (cg_members g) \<le> MAX_GROUP_MEMBERS"
    using Cons.prems(4,5)
    by (auto simp: adopt_group_push push_group_def intro: order_trans [OF length_filter_le])
  moreover have "length (ts_groups ?t) \<le> Suc (length (ts_groups s))" "same_lists s ?t"
    by (simp_all add: adopt_group_push push_group_def same_lists_def)
  ultimately show ?case
    using Cons.IH [OF names] Cons.prems(2,5) next_t by (auto simp: same_lists_def)
qed

definition tree_inv :: "(rstring \<Rightarrow> rstring) \<Rightarrow> tree_state \<Rightarrow> bool" where
  "tree_inv lower s \<longleftrightarrow> lists_ok s \<and> channels_unique s \<and> headings_ok lower s \<and> members_ok s"

text \<open>Saved groups come from a file whose sizes were checked; group numbers do not run out.\<close>

fun tree_ok :: "tree_state \<Rightarrow> tree_op \<Rightarrow> bool" where
  "tree_ok s (SetGroups specs) \<longleftrightarrow>
     unat (ts_next_group s) + length specs < 2 ^ 32 \<and> length specs \<le> MAX_GROUPS
     \<and> distinct (concat (map gs_members specs))
     \<and> (\<forall>spec \<in> set specs. length (gs_members spec) \<le> MAX_GROUP_MEMBERS)"
| "tree_ok s (CreateGroup name) \<longleftrightarrow> ts_next_group s \<noteq> - 1"
| "tree_ok s _ \<longleftrightarrow> True"

lemma same_lists_ok:
  assumes "same_lists s t"
  shows "lists_ok t = lists_ok s" and "channels_unique t = channels_unique s"
proof -
  have ms: "mset (ts_conversations t) = mset (ts_conversations s)" and nw: "ts_networks t = ts_networks s"
    using assms by (simp_all add: same_lists_def)
  then have "mset (conv_ids t) = mset (conv_ids s)" by (simp add: conv_ids_def)
  then show "lists_ok t = lists_ok s"
    using mset_eq_setD [OF ms] mset_eq_imp_distinct_iff nw unfolding lists_ok_def by metis
  have "mset (map member_of (filter P (ts_conversations t))) = mset (map member_of (filter P (ts_conversations s)))" for P
    using ms by (simp add: mset_filter)
  then show "channels_unique t = channels_unique s"
    unfolding channels_unique_def by (metis mset_eq_imp_distinct_iff)
qed

lemma moves_inv: "moves s t \<Longrightarrow> tree_inv lower s \<Longrightarrow> tree_inv lower t"
  using moves_headings_ok same_lists_ok by (auto simp: tree_inv_def moves_def)

lemma set_groups_inv:
  assumes inv: "tree_inv lower s" and ok: "tree_ok s (SetGroups specs)"
  shows "tree_inv lower (set_groups lower specs s)"
proof -
  let ?e = "s\<lparr>ts_groups := []\<rparr>"
  have "names_ok lower ?e" "group_members ?e = []" "same_lists s ?e"
    by (simp_all add: names_ok_def group_members_def same_lists_def)
  then have "names_ok lower (set_groups lower specs s) \<and> members_ok (set_groups lower specs s)
      \<and> length (ts_groups (set_groups lower specs s)) \<le> length specs \<and> same_lists ?e (set_groups lower specs s)"
    using adopt_all_ok [of lower ?e specs] ok by (simp add: set_groups_def)
  then show ?thesis
    using inv ok same_lists_ok [of ?e "set_groups lower specs s"] same_lists_ok [OF \<open>same_lists s ?e\<close>]
    by (auto simp: tree_inv_def headings_ok_iff)
qed

lemma create_group_inv:
  assumes inv: "tree_inv lower s" and ok: "ts_next_group s \<noteq> - 1"
  shows "tree_inv lower (fst (create_group lower name s))"
proof -
  have "tree_inv lower (push_group n False [] s)"
    if "group_named lower s n = None" "\<not> MAX_GROUPS \<le> length (ts_groups s)" for n
  proof -
    have "same_lists s (push_group n False [] s)" by (simp add: same_lists_def push_group_def)
    moreover have "members_ok (push_group n False [] s)"
      using inv by (auto simp: tree_inv_def members_ok_def group_members_def push_group_def)
    moreover have "names_ok lower (push_group n False [] s)"
      using push_names_ok [OF _ ok that(1)] inv by (simp add: tree_inv_def headings_ok_iff)
    moreover have "length (ts_groups (push_group n False [] s)) \<le> MAX_GROUPS"
      using that(2) by (simp add: push_group_def)
    ultimately show ?thesis
      using inv same_lists_ok [of s] by (simp add: tree_inv_def headings_ok_iff)
  qed
  then show ?thesis
    using inv by (auto simp: create_group_def new_group_id_def push_group_def Let_def split: option.split)
qed

lemma change_heading_inv:
  assumes inv: "tree_inv lower s" and h: "headings_ok lower (s\<lparr>ts_groups := gs\<rparr>)"
    and m: "map cg_members gs = map cg_members (ts_groups s)"
  shows "tree_inv lower (s\<lparr>ts_groups := gs\<rparr>)"
proof -
  have "(\<forall>g \<in> set gs. length (cg_members g) \<le> n) = list_all (\<lambda>ms. length ms \<le> n) (map cg_members gs)"
    for n and gs :: "channel_group list"
    by (simp add: list_all_iff)
  then have "members_ok (s\<lparr>ts_groups := gs\<rparr>)"
    using inv m by (simp add: tree_inv_def members_ok_def group_members_def)
  moreover have "same_lists s (s\<lparr>ts_groups := gs\<rparr>)" by (simp add: same_lists_def)
  ultimately show ?thesis using inv h same_lists_ok [of s] by (simp add: tree_inv_def)
qed

lemma find_group_split:
  assumes "find_group s i = Some g" and "names_ok lower s"
  obtains us vs where "ts_groups s = us @ g # vs" "cg_id g = i"
    "\<And>f. change_first (\<lambda>g. cg_id g = i) f (ts_groups s) = us @ f g # vs"
proof -
  obtain us vs where 1: "ts_groups s = us @ g # vs" "cg_id g = i" "\<forall>u \<in> set us. cg_id u \<noteq> i"
    using change_first_split [OF assms(1) [unfolded find_group_def]] by blast
  have "change_first (\<lambda>g. cg_id g = i) f (us @ g # vs) = us @ f g # vs" for f
    using 1(2,3) by (induction us) auto
  then show ?thesis using that 1 by simp
qed

lemma rename_group_inv:
  assumes inv: "tree_inv lower s"
  shows "tree_inv lower (fst (rename_group lower i name s))"
proof -
  have "tree_inv lower (s\<lparr>ts_groups := change_first (\<lambda>g. cg_id g = i) (cg_name_update (\<lambda>_. n)) (ts_groups s)\<rparr>)"
    if free: "\<not> (case group_named lower s n of Some other \<Rightarrow> other \<noteq> i | None \<Rightarrow> False)"
      and g: "find_group s i = Some g" for n g
  proof -
    have names: "names_ok lower s" using inv by (simp add: tree_inv_def headings_ok_iff)
    obtain us vs where gs: "ts_groups s = us @ g # vs" "cg_id g = i"
      and ch: "\<And>f. change_first (\<lambda>g. cg_id g = i) f (ts_groups s) = us @ f g # vs"
      using find_group_split [OF g names] by blast
    have other: "lower (cg_name h) \<noteq> lower n" if h: "h \<in> set us \<union> set vs" for h
    proof
      assume eq: "lower (cg_name h) = lower n"
      then obtain f where f: "List.find (\<lambda>g. lower (cg_name g) = lower n) (ts_groups s) = Some f"
        using h gs(1) by (cases "List.find (\<lambda>g. lower (cg_name g) = lower n) (ts_groups s)")
          (auto simp: find_None_iff)
      then have "f \<in> set (ts_groups s)" "lower (cg_name f) = lower n" by (auto simp: find_Some_iff)
      moreover have "cg_id f = i" using free f by (simp add: group_named_def)
      moreover have "inj_on cg_id (set (ts_groups s))" using names by (simp add: names_ok_def distinct_map)
      ultimately have "f = g" using gs by (metis in_set_conv_decomp inj_onD)
      then have "lower (cg_name g) = lower (cg_name h)" using \<open>lower (cg_name f) = lower n\<close> eq by simp
      then show False using h names by (auto simp: names_ok_def gs(1))
    qed
    show ?thesis
    proof (rule change_heading_inv [OF inv])
      have "lower n \<notin> (\<lambda>g. lower (cg_name g)) ` set us" "lower n \<notin> (\<lambda>g. lower (cg_name g)) ` set vs"
        using other [THEN not_sym] by blast+
      then show "headings_ok lower (s\<lparr>ts_groups := change_first (\<lambda>g. cg_id g = i) (cg_name_update (\<lambda>_. n)) (ts_groups s)\<rparr>)"
        using inv unfolding ch by (simp add: tree_inv_def headings_ok_def gs)
    qed (simp add: change_first_map)
  qed
  then show ?thesis
    using inv by (auto simp: rename_group_def split: option.split)
qed

lemma delete_group_inv:
  assumes inv: "tree_inv lower s"
  shows "tree_inv lower (fst (delete_group i s))"
proof -
  have "distinct (concat (map cg_members (filter P gs)))" if "distinct (concat (map cg_members gs))" for P gs
    using that by (induction gs) auto
  then have "headings_ok lower (fst (delete_group i s))" "members_ok (fst (delete_group i s))"
    using inv
    by (auto simp: distinct_map_filter tree_inv_def headings_ok_def members_ok_def group_members_def delete_group_def Let_def list_all_iff
        intro: order_trans [OF length_filter_le])
  moreover have "same_lists s (fst (delete_group i s))" by (simp add: same_lists_def delete_group_def Let_def)
  ultimately show ?thesis using inv same_lists_ok by (simp add: tree_inv_def)
qed

lemma collapse_group_inv:
  assumes inv: "tree_inv lower s"
  shows "tree_inv lower (fst (set_group_collapsed i collapsed s))"
proof -
  have "tree_inv lower (s\<lparr>ts_groups := change_first P (cg_collapsed_update (\<lambda>_. collapsed)) (ts_groups s)\<rparr>)" for P
  proof (rule change_heading_inv [OF inv])
    have "length (change_first P f gs) = length gs" for f and gs :: "channel_group list"
      by (induction gs) auto
    then show "headings_ok lower (s\<lparr>ts_groups := change_first P (cg_collapsed_update (\<lambda>_. collapsed)) (ts_groups s)\<rparr>)"
      using inv by (simp add: tree_inv_def headings_ok_def change_first_map)
  qed (simp add: change_first_map)
  then show ?thesis using inv by (simp add: set_group_collapsed_def split: option.split)
qed

lemma tree_inv_step: "tree_inv lower s \<Longrightarrow> tree_ok s op \<Longrightarrow> tree_inv lower (tree_step lower op s)"
proof (cases op)
  case (SetGroups specs)
  then show "tree_inv lower s \<Longrightarrow> tree_ok s op \<Longrightarrow> ?thesis" using set_groups_inv by simp
qed (simp_all add: create_group_inv rename_group_inv delete_group_inv collapse_group_inv
    moves_inv [OF move_to_group_moves] moves_inv [OF return_moves] moves_inv [OF move_conversation_moves]
    moves_inv [OF move_after_moves] moves_inv [OF set_order_moves])

text \<open>The state as it starts: any servers and conversations, no groups.\<close>

definition tree_init :: "tree_state \<Rightarrow> bool" where
  "tree_init s \<longleftrightarrow> lists_ok s \<and> channels_unique s \<and> ts_groups s = []"

interpretation tree_machine: bounded_machine "tree_step lower" tree_ok tree_init "tree_inv lower"
  "\<lambda>s. length (ts_groups s)" MAX_GROUPS for lower
proof unfold_locales
  show "tree_inv lower s" if "tree_init s" for s
    using that by (simp add: tree_init_def tree_inv_def headings_ok_def members_ok_def group_members_def)
  show "tree_inv lower (tree_step lower op s)" if "tree_inv lower s" "tree_ok s op" for s op
    using that by (rule tree_inv_step)
  show "length (ts_groups s) \<le> MAX_GROUPS" if "tree_inv lower s" for s
    using that by (simp add: tree_inv_def headings_ok_def)
qed

lemma tree_inv_groups: "tree_inv lower s \<Longrightarrow> groups_ok s"
  by (simp add: tree_inv_def groups_ok_def headings_ok_def members_ok_def)

text \<open>C36. Nothing the user does to the tree breaks it. Starting without groups, after any sequence of
  creating, renaming, collapsing, deleting and adopting groups and of moving channels between groups and
  servers, group numbers and names (up to case) are unique, there are at most 64 groups of at most 2000
  channels, no channel is in two places, and the tree shows exactly the conversations there were, each
  once, and answers where each is shown.\<close>

theorem tree_always_whole:
  assumes "tree_init s" and "tree_machine.run_ok lower ops s"
  shows "let t = fold (tree_step lower) ops s
         in tree_inv lower t
          \<and> mset (tree_conversations (display_tree_of t)) = mset (conv_ids t)
          \<and> (\<forall>i. display_parent t i = parent_of (display_tree_of t) i)"
proof -
  have "tree_inv lower (fold (tree_step lower) ops s)" (is "tree_inv lower ?t")
    by (rule tree_machine.run_init_inv [OF assms])
  moreover from this have "mset (tree_conversations (display_tree_of ?t)) = mset (conv_ids ?t)"
    "\<forall>i. display_parent ?t i = parent_of (display_tree_of ?t) i"
    using shows_each_once_core display_parent_core tree_inv_groups by (auto simp: tree_inv_def)
  ultimately show ?thesis by (simp add: Let_def)
qed

section \<open>Moving a channel into a group\<close>

text \<open>The members of the group after the move: the channel is taken out wherever it was and put before
  the anchor, or at the end.\<close>

definition placed :: "group_member \<Rightarrow> group_member option \<Rightarrow> group_member list \<Rightarrow> group_member list" where
  "placed m anchor ms =
     (let rest = filter (\<lambda>k. k \<noteq> m) ms
      in case anchor of
           Some a \<Rightarrow> takeWhile (\<lambda>k. k \<noteq> a) rest @ m # dropWhile (\<lambda>k. k \<noteq> a) rest
         | None \<Rightarrow> rest @ [m])"

lemma position_takeWhile:
  "(case position (\<lambda>k. k = a) ms of Some i \<Rightarrow> i | None \<Rightarrow> length ms) = length (takeWhile (\<lambda>k. k \<noteq> a) ms)"
  by (induction ms) (auto split: option.split)

lemma enter_placed:
  "cg_members (enter_group m anchor (g\<lparr>cg_members := filter (\<lambda>k. k \<noteq> m) (cg_members g)\<rparr>))
   = placed m anchor (cg_members g)"
proof (cases anchor)
  case (Some a)
  have "take (length (takeWhile P xs)) xs = takeWhile P xs" "drop (length (takeWhile P xs)) xs = dropWhile P xs"
    for P and xs :: "group_member list"
    by (simp_all add: takeWhile_eq_take [symmetric] dropWhile_eq_drop [symmetric])
  then show ?thesis
    using Some position_takeWhile [where a = a and ms = "filter (\<lambda>k. k \<noteq> m) (cg_members g)"]
    by (simp add: enter_group_def placed_def insert_at_def Let_def cong: option.case_cong)
qed (simp add: enter_group_def placed_def insert_at_def Let_def)

lemma position_map: "position P (map f xs) = position (\<lambda>x. P (f x)) xs"
  by (induction xs) auto

lemma position_cong: "(\<And>x. x \<in> set xs \<Longrightarrow> P x = Q x) \<Longrightarrow> position P xs = position Q xs"
  by (induction xs) auto

lemma change_first_unique:
  "distinct (map cg_id gs) \<Longrightarrow>
     change_first (\<lambda>g. cg_id g = i) f gs = map (\<lambda>g. if cg_id g = i then f g else g) gs"
proof (induction gs)
  case (Cons g gs)
  then show ?case by (auto intro!: map_idI [symmetric]) (metis image_eqI)
qed simp

text \<open>The groups after the move.\<close>

definition regrouped :: "group_member \<Rightarrow> group_id \<Rightarrow> group_member option \<Rightarrow> channel_group \<Rightarrow> channel_group" where
  "regrouped m target anchor g =
     g\<lparr>cg_members := (if cg_id g = target then placed m anchor (cg_members g)
                     else filter (\<lambda>k. k \<noteq> m) (cg_members g))\<rparr>"

lemma move_to_group_groups:
  assumes inv: "tree_inv lower s" and c: "find_conversation s i = Some c" "\<not> conversation_is_private c"
    and g: "find_group s target = Some g"
    and room: "length (cg_members g) < MAX_GROUP_MEMBERS \<or> member_of c \<in> set (cg_members g)"
  shows "move_to_group i target before s =
    (s\<lparr>ts_groups := map (regrouped (member_of c) target (map_option member_of (Option.bind before (find_conversation s))))
        (ts_groups s)\<rparr>, True)"
proof -
  let ?anchor = "map_option member_of (Option.bind before (find_conversation s))"
  let ?out = "\<lambda>g. g\<lparr>cg_members := filter (\<lambda>k. k \<noteq> member_of c) (cg_members g)\<rparr>"
  have l: "ts_groups (fst (leave_group c s)) = map ?out (ts_groups s)"
    using inv leave_group_groups [of s c] by (simp add: tree_inv_def members_ok_def)
  have ids: "distinct (map cg_id (map ?out (ts_groups s)))"
    using inv by (simp add: tree_inv_def headings_ok_def o_def)
  have "(if cg_id (?out h) = target then enter_group (member_of c) ?anchor (?out h) else ?out h)
      = regrouped (member_of c) target ?anchor h" for h
    using enter_placed [of "member_of c" ?anchor h] by (simp add: regrouped_def enter_group_def Let_def)
  then have "change_first (\<lambda>g. cg_id g = target) (enter_group (member_of c) ?anchor) (map ?out (ts_groups s))
      = map (regrouped (member_of c) target ?anchor) (ts_groups s)"
    by (simp add: change_first_unique [OF ids] o_def)
  moreover have "(fst (leave_group c s))\<lparr>ts_groups := gs\<rparr> = s\<lparr>ts_groups := gs\<rparr>" for gs
    by (simp add: leave_group_def Let_def split: option.split)
  ultimately show ?thesis
    using c g room by (simp add: move_to_group_def Let_def l not_le)
qed

lemma placed_mem [simp]: "k \<in> set (placed m anchor ms) \<longleftrightarrow> k = m \<or> k \<in> set ms"
proof -
  have "set (takeWhile P xs) \<union> set (dropWhile P xs) = set xs" for P and xs :: "group_member list"
    by (metis set_append takeWhile_dropWhile_id)
  from this [of "\<lambda>k. k \<noteq> a" "filter (\<lambda>k. k \<noteq> m) ms" for a] show ?thesis
    by (auto simp: placed_def Let_def split: option.split)
qed

text \<open>C38. Moving a channel into a group does that and no more: the move succeeds, the group holds the
  channel directly before the anchor (or at the end), no other group holds it, it is shown in that
  group, and every other conversation is shown where it was.\<close>

theorem move_to_group_effect:
  assumes inv: "tree_inv lower s" and c: "find_conversation s i = Some c" "\<not> conversation_is_private c"
    and g: "find_group s target = Some g"
    and room: "length (cg_members g) < MAX_GROUP_MEMBERS \<or> member_of c \<in> set (cg_members g)"
  shows "let (t, moved) = move_to_group i target before s;
             anchor = map_option member_of (Option.bind before (find_conversation s))
         in moved \<and> ts_groups t = map (regrouped (member_of c) target anchor) (ts_groups s)
          \<and> display_parent t i = Some (GroupParent target)
          \<and> (\<forall>j. j \<noteq> i \<longrightarrow> display_parent t j = display_parent s j)"
proof -
  let ?anchor = "map_option member_of (Option.bind before (find_conversation s))"
  let ?gs = "map (regrouped (member_of c) target ?anchor) (ts_groups s)"
  let ?t = "s\<lparr>ts_groups := ?gs\<rparr>"
  have own: "member_of c \<in> set (cg_members (regrouped (member_of c) target ?anchor h)) \<longleftrightarrow> cg_id h = target" for h
    by (simp add: regrouped_def)
  have same: "find_conversation ?t j = find_conversation s j" for j by (simp add: find_conversation_def)
  have id: "cg_id (regrouped (member_of c) target ?anchor h) = cg_id h" for h by (simp add: regrouped_def)
  have "\<exists>h \<in> set (ts_groups s). cg_id h = target" using g by (auto simp: find_group_def find_Some_iff)
  then obtain at where at: "group_index_of ?t c = Some at"
    by (cases "group_index_of ?t c") (auto simp: group_index_of_def position_None own)
  then have "position (\<lambda>g. member_of c \<in> set (cg_members g)) ?gs = Some at"
    by (simp add: group_index_of_def)
  then have "at < length ?gs \<and> member_of c \<in> set (cg_members (?gs ! at))"
    unfolding position_Some by blast
  then have "at < length (ts_groups s)" "cg_id (ts_groups s ! at) = target"
    by (auto simp: own)
  then have "display_parent ?t i = Some (GroupParent target)"
    using c at by (simp add: display_parent_def same id)
  moreover have "display_parent ?t j = display_parent s j" if j: "j \<noteq> i" for j
  proof (cases "find_conversation s j")
    case (Some d)
    have "group_index_of ?t d = group_index_of s d" if d: "\<not> conversation_is_private d"
    proof -
      have "c \<in> set (ts_conversations s)" "d \<in> set (ts_conversations s)" "d \<noteq> c"
        using find_conversation_Some [OF c(1)] find_conversation_Some [OF Some] j by auto
      then have "member_of d \<noteq> member_of c"
        using inv c(2) d by (auto simp: tree_inv_def channels_unique_def distinct_map dest: inj_onD)
      then have "member_of d \<in> set (cg_members (regrouped (member_of c) target ?anchor h))
          \<longleftrightarrow> member_of d \<in> set (cg_members h)" for h
        by (simp add: regrouped_def)
      then show ?thesis by (simp add: group_index_of_def position_map)
    qed
    moreover have "cg_id (?gs ! k) = cg_id (ts_groups s ! k)" if "group_index_of s d = Some k" for k
      using that by (simp add: group_index_of_def position_Some id)
    ultimately show ?thesis
      using Some by (simp add: display_parent_def same split: option.split)
  qed (simp add: display_parent_def same)
  ultimately show ?thesis
    unfolding move_to_group_groups [OF assms] by simp
qed

section \<open>The remembered order\<close>

lemma position_eq_index:
  "distinct xs \<Longrightarrow> i < length xs \<Longrightarrow> position (\<lambda>x. x = xs ! i) xs = Some i"
  by (auto simp: position_Some nth_eq_iff_index_eq)

lemma position_present: "x \<in> set xs \<Longrightarrow> \<exists>i. position (\<lambda>y. y = x) xs = Some i \<and> i < length xs \<and> xs ! i = x"
  by (cases "position (\<lambda>y. y = x) xs") (auto simp: position_None position_Some)

text \<open>Where a name goes that is not in the order: after the previous one, or to the front.\<close>

lemma merge_step_split:
  "(\<exists>us vs. order = us @ vs \<and> fst (merge_step x (order, previous)) = us @ x # vs \<and> x \<notin> set order
      \<and> (us = [] \<or> previous = Some (last us)))
   \<or> x \<in> set order \<and> fst (merge_step x (order, previous)) = order"
proof (cases "x \<in> set order")
  case False
  show ?thesis
  proof (cases "Option.bind previous (\<lambda>p. position (\<lambda>n. n = p) order)")
    case None
    then have "fst (merge_step x (order, previous)) = [] @ x # order"
      using False by (simp add: merge_step_def insert_at_def)
    then show ?thesis using False by blast
  next
    case (Some i)
    then obtain p where p: "previous = Some p" "i < length order" "order ! i = p"
      by (auto simp: bind_eq_Some_conv position_Some)
    have "fst (merge_step x (order, previous)) = take (Suc i) order @ x # drop (Suc i) order"
      using False Some by (simp add: merge_step_def insert_at_def)
    moreover have "last (take (Suc i) order) = p" using p by (simp add: take_Suc_conv_app_nth)
    ultimately show ?thesis
      using False p(1) by (intro disjI1 exI [of _ "take (Suc i) order"] exI [of _ "drop (Suc i) order"]) simp
  qed
qed (simp add: merge_step_def)

lemma merge_step_previous [simp]: "snd (merge_step x acc) = Some x"
  by (cases acc) (simp add: merge_step_def Let_def)

lemma merge_step_facts:
  assumes "distinct order"
  shows "distinct (fst (merge_step x (order, previous)))"
    and "set (fst (merge_step x (order, previous))) = insert x (set order)"
    and "S \<subseteq> set order \<Longrightarrow> filter (\<lambda>n. n \<in> S) (fst (merge_step x (order, previous))) = filter (\<lambda>n. n \<in> S) order"
    and "order = as @ p # n # bs \<Longrightarrow> previous \<noteq> Some p \<Longrightarrow> \<exists>as bs. fst (merge_step x (order, previous)) = as @ p # n # bs"
    and "order \<noteq> [] \<Longrightarrow> previous = Some q \<Longrightarrow> q \<in> set order \<Longrightarrow> hd (fst (merge_step x (order, previous))) = hd order"
proof -
  note split = merge_step_split [of order x previous]
  show "distinct (fst (merge_step x (order, previous)))"
    "set (fst (merge_step x (order, previous))) = insert x (set order)"
    using split assms by auto
  show "filter (\<lambda>n. n \<in> S) (fst (merge_step x (order, previous))) = filter (\<lambda>n. n \<in> S) order"
    if "S \<subseteq> set order"
    using split that by auto
  show "\<exists>as bs. fst (merge_step x (order, previous)) = as @ p # n # bs"
    if order: "order = as @ p # n # bs" and q: "previous \<noteq> Some p"
  proof (cases "x \<in> set order")
    case True
    then show ?thesis using split order by blast
  next
    case False
    then obtain us vs where s: "order = us @ vs" "fst (merge_step x (order, previous)) = us @ x # vs"
      and "us = [] \<or> previous = Some (last us)"
      using split by blast
    then have us: "us \<noteq> as @ [p]" using q by auto
    have "us @ vs = as @ p # n # bs" using s(1) order by simp
    then consider ws where "as = us @ ws" "vs = ws @ p # n # bs" | ws where "us = as @ p # n # ws" "bs = ws @ vs"
      using us by (auto simp: append_eq_append_conv2 Cons_eq_append_conv append_eq_Cons_conv)
    then show ?thesis
    proof cases
      case 1
      then have "fst (merge_step x (order, previous)) = (us @ x # ws) @ p # n # bs" by (simp add: s(2))
      then show ?thesis by blast
    next
      case 2
      then have "fst (merge_step x (order, previous)) = as @ p # n # (ws @ x # vs)" by (simp add: s(2))
      then show ?thesis by blast
    qed
  qed
  show "hd (fst (merge_step x (order, previous))) = hd order"
    if "order \<noteq> []" "previous = Some q" "q \<in> set order"
  proof (cases "x \<in> set order")
    case False
    from position_present [OF that(3)] obtain i where "position (\<lambda>y. y = q) order = Some i" "i < length order"
      by blast
    then show ?thesis using that False by (cases order) (simp_all add: merge_step_def insert_at_def)
  qed (simp add: merge_step_def)
qed

lemma merge_facts:
  assumes "distinct order"
  shows "distinct (fst (fold merge_step xs (order, previous)))
    \<and> set (fst (fold merge_step xs (order, previous))) = set order \<union> set xs
    \<and> (S \<subseteq> set order \<longrightarrow> filter (\<lambda>n. n \<in> S) (fst (fold merge_step xs (order, previous))) = filter (\<lambda>n. n \<in> S) order)
    \<and> (order = as @ p # n # bs \<longrightarrow> previous \<noteq> Some p \<longrightarrow> p \<notin> set xs \<longrightarrow>
         (\<exists>as bs. fst (fold merge_step xs (order, previous)) = as @ p # n # bs))
    \<and> (order \<noteq> [] \<longrightarrow> previous = Some q \<longrightarrow> q \<in> set order \<longrightarrow>
         hd (fst (fold merge_step xs (order, previous))) = hd order)"
  using assms
proof (induction xs arbitrary: order previous as bs q)
  case Nil
  then show ?case by auto
next
  case (Cons x xs)
  note f = merge_step_facts [OF Cons.prems, where x = x and previous = previous]
  obtain order' where m: "merge_step x (order, previous) = (order', Some x)"
    by (metis merge_step_previous prod.collapse)
  have IH: "distinct (fst (fold merge_step xs (order', Some x)))"
    "set (fst (fold merge_step xs (order', Some x))) = set order' \<union> set xs"
    "S \<subseteq> set order' \<Longrightarrow> filter (\<lambda>n. n \<in> S) (fst (fold merge_step xs (order', Some x))) = filter (\<lambda>n. n \<in> S) order'"
    "order' = as @ p # n # bs \<Longrightarrow> x \<noteq> p \<Longrightarrow> p \<notin> set xs \<Longrightarrow> \<exists>as bs. fst (fold merge_step xs (order', Some x)) = as @ p # n # bs"
    "order' \<noteq> [] \<Longrightarrow> x \<in> set order' \<Longrightarrow> hd (fst (fold merge_step xs (order', Some x))) = hd order'" for as bs
    using Cons.IH [where order = order' and previous = "Some x" and as = as and bs = bs and q = x] f(1) m by auto
  have "\<exists>as bs. fst (fold merge_step xs (order', Some x)) = as @ p # n # bs"
    if a: "order = as @ p # n # bs" "previous \<noteq> Some p" "p \<notin> set (x # xs)"
  proof -
    obtain as' bs' where "order' = as' @ p # n # bs'" using f(4) [OF a(1,2)] m by auto
    then show ?thesis using IH(4) a(3) by auto
  qed
  moreover have "hd (fst (fold merge_step xs (order', Some x))) = hd order"
    if "order \<noteq> []" "previous = Some q" "q \<in> set order"
  proof -
    have "order' \<noteq> []" "x \<in> set order'" using f(2) m by (cases order'; auto)+
    then show ?thesis using f(5) [OF that] IH(5) m by simp
  qed
  moreover have "filter (\<lambda>n. n \<in> S) (fst (fold merge_step xs (order', Some x))) = filter (\<lambda>n. n \<in> S) order"
    if "S \<subseteq> set order"
    using f(3) [OF that] f(2) IH(3) that m by auto
  moreover have "set (fst (fold merge_step xs (order', Some x))) = set order \<union> set (x # xs)"
    using IH(2) f(2) m by auto
  moreover have eq: "fold merge_step (x # xs) (order, previous) = fold merge_step xs (order', Some x)"
    by (simp add: m)
  ultimately show ?case using IH(1) unfolding eq by blast
qed

lemma merge_fixpoint:
  assumes "distinct (ps @ qs)" and "set order = set ps \<union> (S \<inter> set qs)"
    and "order = ps @ filter (\<lambda>n. n \<in> S) qs" and "ps \<noteq> [] \<Longrightarrow> previous = Some (last ps)"
    and "ps = [] \<Longrightarrow> previous = None"
  shows "fst (fold merge_step qs (order, previous)) = ps @ qs"
  using assms
proof (induction qs arbitrary: ps order previous)
  case (Cons q qs)
  have "fst (merge_step q (order, previous)) = ps @ q # filter (\<lambda>n. n \<in> S) qs"
  proof (cases "q \<in> S")
    case True
    then show ?thesis using Cons.prems(3) by (simp add: merge_step_def)
  next
    case False
    then have new: "q \<notin> set order" using Cons.prems(1,3) by auto
    show ?thesis
    proof (cases "ps = []")
      case True
      then show ?thesis using False new Cons.prems(3,5) by (simp add: merge_step_def insert_at_def)
    next
      case nonempty: False
      then obtain k where k: "length ps = Suc k" by (cases "length ps") auto
      have d: "distinct order" using Cons.prems(1,3) by auto
      have "order ! k = last ps" "k < length order"
        using k nonempty Cons.prems(3) by (simp_all add: nth_append last_conv_nth)
      then have "position (\<lambda>n. n = last ps) order = Some k" using position_eq_index [OF d, of k] by simp
      then show ?thesis
        using False new nonempty k Cons.prems(3,4) by (simp add: merge_step_def insert_at_def)
    qed
  qed
  then obtain order' where m: "merge_step q (order, previous) = (order', Some q)"
    and order': "order' = (ps @ [q]) @ filter (\<lambda>n. n \<in> S) qs"
    by (metis append.assoc append_Cons append_Nil merge_step_previous prod.collapse)
  have "fst (fold merge_step qs (order', Some q)) = (ps @ [q]) @ qs"
    using Cons.prems(1) order' by (intro Cons.IH) auto
  then show ?case by (simp add: m)
qed simp

lemma shown_names_distinct:
  assumes "channels_unique s"
  shows "distinct (shown_names s n)"
proof -
  let ?cs = "filter (\<lambda>c. \<not> conversation_is_private c) (ts_conversations s)"
  have "filter (\<lambda>c. conv_network c = n \<and> \<not> conversation_is_private c) (ts_conversations s)
      = filter (\<lambda>c. conv_network c = n) ?cs"
    unfolding filter_filter by (rule filter_cong) auto
  moreover have "inj_on (\<lambda>c. ascii_lower (conv_name c)) {c \<in> set ?cs. conv_network c = n}"
    using assms by (auto simp: channels_unique_def distinct_map member_of_def inj_on_def)
  moreover have "distinct ?cs" using assms by (simp add: channels_unique_def distinct_map)
  then have "distinct (filter (\<lambda>c. conv_network c = n) ?cs)" by (rule distinct_filter)
  ultimately show ?thesis by (simp add: shown_names_def distinct_map)
qed

text \<open>The order remembered for a server keeps everything: it lists each shown channel and each
  remembered name once, shown channels in the order shown, and a remembered channel that is not
  present directly after the name it was remembered after (or at the front when it was first), so that
  it returns to its place; and remembering the same display again changes nothing.\<close>

theorem merged_order_keeps:
  assumes "channels_unique s" and "distinct (remembered_order s n)"
  shows "let M = merged_channel_order s n; R = remembered_order s n; shown = shown_names s n
         in distinct M \<and> set M = set shown \<union> set R
          \<and> filter (\<lambda>name. name \<in> set shown) M = shown
          \<and> (\<forall>us p name vs. R = us @ p # name # vs \<longrightarrow> name \<notin> set shown \<longrightarrow> (\<exists>as bs. M = as @ p # name # bs))
          \<and> (\<forall>name vs. R = name # vs \<longrightarrow> name \<notin> set shown \<longrightarrow> hd M = name)
          \<and> fst (fold merge_step M (shown, None)) = M"
proof -
  let ?M = "merged_channel_order s n" and ?R = "remembered_order s n" and ?shown = "shown_names s n"
  have d: "distinct ?shown" using shown_names_distinct [OF assms(1)] .
  have M: "?M = fst (fold merge_step ?R (?shown, None))" by (simp add: merged_channel_order_def)
  note facts = merge_facts [OF d, of ?R None, folded M]
  have kept: "distinct ?M" "set ?M = set ?shown \<union> set ?R" "filter (\<lambda>name. name \<in> set ?shown) ?M = ?shown"
    using facts [of "set ?shown"] by auto
  have after: "\<exists>as bs. ?M = as @ p # name # bs" if R: "?R = us @ p # name # vs" and new: "name \<notin> set ?shown"
    for us p name vs
  proof -
    obtain order where o: "fold merge_step (us @ [p]) (?shown, None) = (order, Some p)"
      by (metis fold_append comp_apply fold_simps merge_step_previous prod.collapse)
    have order: "distinct order" "set order = set ?shown \<union> set (us @ [p])"
      using merge_facts [OF d, of "us @ [p]" None] o by auto
    have name: "name \<notin> set order" using order(2) new assms(2) R by auto
    obtain i where i: "position (\<lambda>y. y = p) order = Some i" "i < length order" "order ! i = p"
      using position_present [of p order] order(2) by auto
    have "merge_step name (order, Some p) = (take i order @ p # name # drop (Suc i) order, Some name)"
      using name i by (simp add: merge_step_def insert_at_def take_Suc_conv_app_nth)
    then have "?M = fst (fold merge_step vs (take i order @ p # name # drop (Suc i) order, Some name))"
      using o by (simp add: M R)
    moreover have "distinct (take i order @ p # name # drop (Suc i) order)"
      using merge_step_facts(1) [OF order(1), of name "Some p"]
        \<open>merge_step name (order, Some p) = _\<close> by simp
    moreover have "p \<notin> set vs" "name \<noteq> p" using assms(2) R by auto
    ultimately show ?thesis using merge_facts by (metis option.inject)
  qed
  have front: "hd ?M = name" if R: "?R = name # vs" and new: "name \<notin> set ?shown" for name vs
  proof -
    have "merge_step name (?shown, None) = (name # ?shown, Some name)"
      using new by (simp add: merge_step_def insert_at_def)
    then have "?M = fst (fold merge_step vs (name # ?shown, Some name))" by (simp add: M R)
    then show ?thesis using merge_facts [of "name # ?shown" vs "Some name"] d new by auto
  qed
  have "fst (fold merge_step ?M (?shown, None)) = [] @ ?M"
    using kept by (intro merge_fixpoint [where S = "set ?shown"]) auto
  then have again: "fst (fold merge_step ?M (?shown, None)) = ?M" by simp
  show ?thesis unfolding Let_def using kept after front again by blast
qed

section \<open>Arranging the channels of a server\<close>

lemma rank_table_get:
  "map_of (rank_table k order ranks) name =
     (case map_of ranks name of Some r \<Rightarrow> Some r | None \<Rightarrow> map_option (\<lambda>i. i + k) (position (\<lambda>x. x = name) order))"
  by (induction order arbitrary: k ranks) (auto simp: option.map_comp o_def split: option.split)

text \<open>The channels of a server stand together in the list.\<close>

definition together :: "network_id \<Rightarrow> tree_state \<Rightarrow> bool" where
  "together n s \<longleftrightarrow>
     (\<exists>as bs cs. ts_conversations s = as @ bs @ cs
        \<and> (\<forall>c \<in> set bs. conv_network c = n \<and> \<not> conversation_is_private c)
        \<and> (\<forall>c \<in> set as \<union> set cs. \<not> (conv_network c = n \<and> \<not> conversation_is_private c)))"

lemma position_append:
  "\<forall>x \<in> set as. \<not> P x \<Longrightarrow> position P (as @ bs) = map_option (\<lambda>i. i + length as) (position P bs)"
  by (induction as) (auto simp: option.map_comp o_def option.map_ident)

text \<open>The rank of a channel: its place in the order, or after every other.\<close>

definition order_rank :: "rstring list \<Rightarrow> conversation \<Rightarrow> nat" where
  "order_rank order c =
     (case position (\<lambda>x. x = ascii_lower (conv_name c)) order of Some i \<Rightarrow> i | None \<Rightarrow> USIZE_MAX)"

definition channels_of :: "network_id \<Rightarrow> tree_state \<Rightarrow> conversation list" where
  "channels_of n s = filter (\<lambda>c. conv_network c = n \<and> \<not> conversation_is_private c) (ts_conversations s)"

lemma apply_order_together:
  assumes ranks: "map_of (ts_ranks s) n = Some ranks" and t: "together n s"
  shows "channels_of n (apply_channel_order n s) = sort_key (\<lambda>c. rank_of ranks (conv_name c)) (channels_of n s)"
    and "filter (\<lambda>c. \<not> (conv_network c = n \<and> \<not> conversation_is_private c)) (ts_conversations (apply_channel_order n s))
       = filter (\<lambda>c. \<not> (conv_network c = n \<and> \<not> conversation_is_private c)) (ts_conversations s)"
proof -
  let ?P = "\<lambda>c. conv_network c = n \<and> \<not> conversation_is_private c"
  let ?Q = "\<lambda>c. conv_network c \<noteq> n \<or> conversation_is_private c"
  let ?key = "\<lambda>c. rank_of ranks (conv_name c)"
  obtain as bs cs where cut: "ts_conversations s = as @ bs @ cs"
    and inside: "\<forall>c \<in> set bs. ?P c" and outside: "\<forall>c \<in> set as. \<not> ?P c" "\<forall>c \<in> set cs. \<not> ?P c"
    using t unfolding together_def by blast
  have filters: "filter ?P bs = bs" "filter ?P as = []" "filter ?P cs = []"
    using inside outside by (auto simp: filter_id_conv filter_empty_conv)
  have result: "ts_conversations (apply_channel_order n s) = as @ sort_key ?key bs @ cs"
  proof (cases bs)
    case Nil
    then have "position ?P (ts_conversations s) = None" using cut outside by (auto simp: position_None)
    then show ?thesis using ranks Nil cut by (simp add: apply_channel_order_def)
  next
    case (Cons b bs')
    then have start: "position ?P (ts_conversations s) = Some (length as)"
      using position_append [of as ?P "bs @ cs"] outside inside cut by simp
    have "position ?Q (bs @ cs) = map_option (\<lambda>i. i + length bs) (position ?Q cs)"
      using inside by (intro position_append) auto
    moreover have "position ?Q cs = (if cs = [] then None else Some 0)"
      using outside(2) by (cases cs) auto
    ultimately have "(case position ?Q (drop (length as) (ts_conversations s)) of
        Some i \<Rightarrow> i | None \<Rightarrow> length (ts_conversations s) - length as) = length bs"
      using cut by (simp cong: option.case_cong)
    then show ?thesis
      using start ranks cut by (simp add: apply_channel_order_def Let_def cong: option.case_cong)
  qed
  have "filter ?P (sort_key ?key bs) = sort_key ?key bs" using inside by (simp add: filter_id_conv)
  then show "channels_of n (apply_channel_order n s) = sort_key ?key (channels_of n s)"
    unfolding channels_of_def result cut by (simp add: filters)
  have "filter (\<lambda>c. \<not> ?P c) bs = []" "filter (\<lambda>c. \<not> ?P c) (sort_key ?key bs) = []"
    using inside by (auto simp: filter_empty_conv)
  then show "filter (\<lambda>c. \<not> ?P c) (ts_conversations (apply_channel_order n s)) = filter (\<lambda>c. \<not> ?P c) (ts_conversations s)"
    unfolding result cut by (simp del: de_Morgan_conj)
qed

text \<open>Adopting a saved order arranges the channels of that server by it: they come out sorted by their
  place in the (bounded) order, channels it does not list last and otherwise in the order they had, no
  channel is lost, and all other conversations stay as they were.\<close>

theorem set_channel_order_arranges:
  assumes "together n s" and "take MAX_ORDER_NAMES order \<noteq> []"
  shows "let t = set_channel_order n order s
         in channels_of n t = sort_key (order_rank (take MAX_ORDER_NAMES order)) (channels_of n s)
          \<and> filter (\<lambda>c. \<not> (conv_network c = n \<and> \<not> conversation_is_private c)) (ts_conversations t)
            = filter (\<lambda>c. \<not> (conv_network c = n \<and> \<not> conversation_is_private c)) (ts_conversations s)"
proof -
  let ?o = "take MAX_ORDER_NAMES order" and ?t = "store_channel_order n order s"
  have same: "ts_conversations ?t = ts_conversations s" by (simp add: store_channel_order_def Let_def)
  have ranks: "map_of (ts_ranks ?t) n = Some (rank_table 0 ?o [])"
    using assms(2) by (simp add: store_channel_order_def Let_def)
  have "(\<lambda>c. rank_of (rank_table 0 ?o []) (conv_name c)) = order_rank ?o"
    by (simp add: fun_eq_iff rank_of_def order_rank_def rank_table_get option.map_ident split: option.split)
  moreover have "together n ?t" "channels_of n ?t = channels_of n s"
    using assms(1) same by (simp_all add: together_def channels_of_def)
  ultimately show ?thesis
    using apply_order_together [OF ranks] same by (simp add: set_channel_order_def Let_def)
qed

section \<open>A small tree\<close>

definition sample_conv :: "nat \<Rightarrow> string \<Rightarrow> conversation" where
  "sample_conv i name =
     \<lparr>conv_id = ConversationId (of_nat i), conv_network = NetworkId 1, conv_kind = Channel,
      conv_name = lit name, conv_topic = [], conv_messages = [], conv_members = [], conv_modes = None\<rparr>"

definition sample_tree :: tree_state where
  "sample_tree =
     \<lparr>ts_networks = [\<lparr>nw_id = NetworkId 1, nw_name = []\<rparr>],
      ts_conversations = [sample_conv 1 ''#a'', sample_conv 2 ''#B''], ts_selected = SelNone, ts_unread = [],
      ts_highlighted = [], ts_orders = [(NetworkId 1, [lit ''#gone'', lit ''#a''])], ts_ranks = [],
      ts_groups = [], ts_next_group = 0\<rparr>"

definition sample_grouped :: tree_state where
  "sample_grouped = sample_tree\<lparr>ts_groups := [\<lparr>cg_id = GroupId 1, cg_name = lit ''g'', cg_collapsed = False,
     cg_members = []\<rparr>], ts_next_group := 1\<rparr>"

lemma sample_lists: "lists_ok sample_tree" "channels_unique sample_tree"
  by (simp_all add: lists_ok_def channels_unique_def sample_tree_def sample_conv_def conv_ids_def member_of_def
      conversation_is_private_def ascii_lower_def to_ascii_lowercase_def is_ascii_upper_def lit_def)

text \<open>Two channels whose names differ in case only, as \<open>ensure_configured_channel\<close> adds them, and a group that
  holds the one identity of both: the tree shows the later one there, and the first one under its server.\<close>

definition twin_tree :: tree_state where
  "twin_tree = sample_tree\<lparr>ts_conversations := [sample_conv 1 ''#a'', sample_conv 2 ''#A''],
     ts_groups := [\<lparr>cg_id = GroupId 1, cg_name = lit ''g'', cg_collapsed = False,
       cg_members = [\<lparr>gm_network = NetworkId 1, gm_key = lit ''#a''\<rparr>]\<rparr>], ts_next_group := 1\<rparr>"

lemma twin_channels_disagree:
  "lists_ok twin_tree \<and> \<not> channels_unique twin_tree
   \<and> display_parent twin_tree (ConversationId 1) = Some (GroupParent (GroupId 1))
   \<and> parent_of (display_tree_of twin_tree) (ConversationId 1) = Some (ServerParent (NetworkId 1))"
  by (simp add: twin_tree_def sample_tree_def sample_conv_def lists_ok_def channels_unique_def conv_ids_def member_of_def
      conversation_is_private_def ascii_lower_def to_ascii_lowercase_def is_ascii_upper_def lit_def display_parent_def
      find_conversation_def group_index_of_def display_tree_of_def any_grouped_def group_present_def channel_index_def
      parent_of_def List.map_filter_def Let_def)

lemma sample_grouped_inv: "tree_inv id sample_grouped"
proof -
  have "same_lists sample_tree sample_grouped" by (simp add: same_lists_def sample_grouped_def)
  then have "lists_ok sample_grouped" "channels_unique sample_grouped"
    using same_lists_ok sample_lists by blast+
  then show ?thesis
    by (simp add: tree_inv_def headings_ok_def members_ok_def group_members_def sample_grouped_def MAX_GROUPS_def
        MAX_GROUP_MEMBERS_def)
qed

theorem display_parent_is_tree_witness:
  "parent_of (display_tree_of sample_tree) (ConversationId 2) = Some (ServerParent (NetworkId 1))"
  using display_parent_is_tree [OF sample_lists, of "ConversationId 2"]
  by (simp add: display_parent_def find_conversation_def sample_tree_def sample_conv_def group_index_of_def
      conversation_is_private_def)

theorem tree_always_whole_witness:
  "mset (tree_conversations (display_tree_of (fst (create_group id (lit ''g'') sample_tree)))) = mset (conv_ids sample_tree)"
proof -
  have "tree_init sample_tree" using sample_lists by (simp add: tree_init_def sample_tree_def)
  moreover have "tree_machine.run_ok id [CreateGroup (lit ''g'')] sample_tree" by (simp add: sample_tree_def)
  ultimately show ?thesis
    using tree_always_whole [of sample_tree id "[CreateGroup (lit ''g'')]"]
    by (auto simp: Let_def conv_ids_def create_group_def new_group_id_def split: option.splits)
qed

theorem move_to_group_effect_witness:
  "display_parent (fst (move_to_group (ConversationId 2) (GroupId 1) None sample_grouped)) (ConversationId 2)
   = Some (GroupParent (GroupId 1))"
proof -
  let ?c = "sample_conv 2 ''#B''"
  have "find_conversation sample_grouped (ConversationId 2) = Some ?c"
    by (simp add: find_conversation_def sample_grouped_def sample_tree_def sample_conv_def)
  moreover have "\<not> conversation_is_private ?c" by (simp add: conversation_is_private_def sample_conv_def)
  moreover have "find_group sample_grouped (GroupId 1)
      = Some \<lparr>cg_id = GroupId 1, cg_name = lit ''g'', cg_collapsed = False, cg_members = []\<rparr>"
    by (simp add: find_group_def sample_grouped_def)
  ultimately show ?thesis
    using move_to_group_effect [OF sample_grouped_inv, of "ConversationId 2" ?c "GroupId 1" _ None]
    by (simp add: MAX_GROUP_MEMBERS_def split_beta Let_def)
qed

theorem merged_order_keeps_witness:
  "hd (merged_channel_order sample_tree (NetworkId 1)) = lit ''#gone''"
proof -
  have r: "remembered_order sample_tree (NetworkId 1) = [lit ''#gone'', lit ''#a'']"
    by (simp add: remembered_order_def sample_tree_def)
  moreover have "lit ''#gone'' \<notin> set (shown_names sample_tree (NetworkId 1))"
    by (simp add: shown_names_def sample_tree_def sample_conv_def conversation_is_private_def ascii_lower_def
        to_ascii_lowercase_def is_ascii_upper_def lit_def)
  moreover have "distinct (remembered_order sample_tree (NetworkId 1))" by (simp add: r lit_def)
  ultimately show ?thesis
    using merged_order_keeps [OF sample_lists(2), of "NetworkId 1"] by (simp add: Let_def)
qed

theorem set_channel_order_arranges_witness:
  "map conv_id (channels_of (NetworkId 1) (set_channel_order (NetworkId 1) [lit ''#b'', lit ''#a''] sample_tree))
   = [ConversationId 2, ConversationId 1]"
proof -
  let ?o = "[lit ''#b'', lit ''#a'']"
  have cs: "ts_conversations sample_tree = [sample_conv 1 ''#a'', sample_conv 2 ''#B'']"
    by (simp add: sample_tree_def)
  have n: "conv_network (sample_conv i x) = NetworkId 1" "\<not> conversation_is_private (sample_conv i x)" for i x
    by (simp_all add: sample_conv_def conversation_is_private_def)
  have t: "together (NetworkId 1) sample_tree"
    unfolding together_def cs
    by (intro exI [of _ "[]"] exI [of _ "[sample_conv 1 ''#a'', sample_conv 2 ''#B'']"]) (simp add: n)
  have o: "take MAX_ORDER_NAMES ?o = ?o" by (simp add: MAX_ORDER_NAMES_def)
  have "order_rank ?o (sample_conv 1 ''#a'') = 1" "order_rank ?o (sample_conv 2 ''#B'') = 0"
    by (simp_all add: order_rank_def sample_conv_def ascii_lower_def to_ascii_lowercase_def is_ascii_upper_def lit_def)
  then have "sort_key (order_rank ?o) (channels_of (NetworkId 1) sample_tree)
      = [sample_conv 2 ''#B'', sample_conv 1 ''#a'']"
    by (simp add: channels_of_def cs n)
  then show ?thesis
    using set_channel_order_arranges [OF t, of ?o] unfolding o by (simp add: Let_def sample_conv_def)
qed

end
