(* ===== verification/Policy.thy ===== *)
theory Policy
  imports Prelude "HOL-Library.Word"
begin

text \<open>
  \<open>crates/media/src/policy.rs\<close>: which links are previewed, which URLs may be published as an avatar
  and which hosts may be contacted. A \<open>url::Url\<close> is the record of what its accessors return; parsing
  one and decoding a form are functions of the \<open>url\<close> crate and arguments of the definitions.
\<close>

unbundle bit_operations_syntax

section \<open>Addresses\<close>

text \<open>\<open>Ipv4Addr\<close> by its octets and \<open>Ipv6Addr\<close> by its segments, as the code reads them.\<close>

datatype ipv4 = V4 "8 word" "8 word" "8 word" "8 word"

datatype ipv6 =
  V6 "16 word" "16 word" "16 word" "16 word" "16 word" "16 word" "16 word" "16 word"

datatype ip_addr = IpV4 ipv4 | IpV6 ipv6

definition LOCALHOST :: ipv4 where "LOCALHOST = V4 127 0 0 1"

fun is_public_v4 :: "ipv4 \<Rightarrow> bool" where
  "is_public_v4 (V4 a b c _) \<longleftrightarrow>
     \<not> (a = 0
        \<or> a = 10
        \<or> a = 127
        \<or> (a = 100 \<and> 64 \<le> b \<and> b < 128)
        \<or> (a = 169 \<and> b = 254)
        \<or> (a = 172 \<and> 16 \<le> b \<and> b < 32)
        \<or> (a = 192 \<and> b = 0 \<and> c = 0)
        \<or> (a = 192 \<and> b = 0 \<and> c = 2)
        \<or> (a = 192 \<and> b = 88 \<and> c = 99)
        \<or> (a = 192 \<and> b = 168)
        \<or> (a = 198 \<and> 18 \<le> b \<and> b < 20)
        \<or> (a = 198 \<and> b = 51 \<and> c = 100)
        \<or> (a = 203 \<and> b = 0 \<and> c = 113)
        \<or> 224 \<le> a)"

text \<open>\<open>to_be_bytes\<close>.\<close>

definition high_byte :: "16 word \<Rightarrow> 8 word" where
  "high_byte w = ucast (drop_bit 8 w)"

definition low_byte :: "16 word \<Rightarrow> 8 word" where
  "low_byte w = ucast w"

definition embedded_v4 :: "16 word \<Rightarrow> 16 word \<Rightarrow> ipv4" where
  "embedded_v4 high low = V4 (high_byte high) (low_byte high) (high_byte low) (low_byte low)"

fun is_public_v6 :: "ipv6 \<Rightarrow> bool" where
  "is_public_v6 (V6 s0 s1 s2 s3 s4 s5 s6 s7) \<longleftrightarrow>
     (if [s0, s1, s2, s3, s4] = [0, 0, 0, 0, 0] \<and> s5 = 0xFFFF
         \<or> [s0, s1, s2, s3, s4, s5] = [0x64, 0xFF9B, 0, 0, 0, 0]
      then is_public_v4 (embedded_v4 s6 s7)
      else if s0 = 0x2002 then is_public_v4 (embedded_v4 s1 s2)
      else s0 AND 0xE000 = 0x2000
           \<and> [s0, s1] \<noteq> [0x2001, 0]
           \<and> \<not> (s0 = 0x2001 \<and> 0x10 \<le> s1 \<and> s1 < 0x40)
           \<and> [s0, s1] \<noteq> [0x2001, 0xDB8]
           \<and> s0 \<noteq> 0x3FFF)"

fun is_public_ip :: "ip_addr \<Rightarrow> bool" where
  "is_public_ip (IpV4 ip) = is_public_v4 ip"
| "is_public_ip (IpV6 ip) = is_public_v6 ip"

section \<open>Requests\<close>

datatype host = HostDomain rstring | HostIpv4 ipv4 | HostIpv6 ipv6

record url =
  u_scheme :: rstring
  u_username :: rstring
  u_password :: "rstring option"
  u_host :: "host option"
  u_port :: "16 word option"
  u_path_segments :: "rstring list option"
  u_query_pairs :: "(rstring \<times> rstring) list"
  u_fragment :: "rstring option"

record rules = loopback_fixture :: bool

definition rules_default :: rules where "rules_default = \<lparr>loopback_fixture = False\<rparr>"

datatype load_error =
  Blocked | Network | Status "16 word" | TooManyRedirects | NotImage | Unsupported | TooLarge
  | Malformed | Cancelled

datatype media_ref = Link url

definition MAX_URL_LEN :: nat where "MAX_URL_LEN = 2048"

definition IMAGE_EXTENSIONS :: "rstring list" where
  "IMAGE_EXTENSIONS = [lit ''png'', lit ''jpg'', lit ''jpeg'', lit ''gif'', lit ''webp'']"

definition trim_end_char :: "rchar \<Rightarrow> rstring \<Rightarrow> rstring" where
  "trim_end_char c s = rev (dropWhile (\<lambda>d. d = c) (rev s))"

definition check_request :: "url \<Rightarrow> url option \<Rightarrow> rules \<Rightarrow> load_error + unit" where
  "check_request url previous rules =
     (let secure_before = (case previous of None \<Rightarrow> False | Some p \<Rightarrow> u_scheme p = lit ''https'');
          allowed_scheme =
            (if u_scheme url = lit ''https'' then True
             else if u_scheme url = lit ''http'' then \<not> secure_before
             else False)
      in if \<not> allowed_scheme \<or> u_username url \<noteq> [] \<or> u_password url \<noteq> None then Inl Blocked
         else
           (let fixture = (\<lambda>ip. loopback_fixture rules \<and> ip = IpV4 LOCALHOST);
                host_ok =
                  (case u_host url of
                     Some (HostDomain domain) \<Rightarrow>
                       (let domain = map to_ascii_lowercase (trim_end_char 0x2E domain)
                        in u_port url = None \<and> 0x2E \<in> set domain \<and> domain \<noteq> lit ''localhost''
                           \<and> strip_suffix (lit ''.localhost'') domain = None)
                   | Some (HostIpv4 ip) \<Rightarrow>
                       fixture (IpV4 ip) \<or> u_port url = None \<and> is_public_ip (IpV4 ip)
                   | Some (HostIpv6 ip) \<Rightarrow> u_port url = None \<and> is_public_ip (IpV6 ip)
                   | None \<Rightarrow> False)
            in if host_ok then Inr () else Inl Blocked))"

section \<open>Links and avatars\<close>

text \<open>\<open>rsplit_once\<close>.\<close>

definition rsplit_once :: "'a \<Rightarrow> 'a list \<Rightarrow> ('a list \<times> 'a list) option" where
  "rsplit_once d s = map_option (\<lambda>(a, b). (rev b, rev a)) (split_once d (rev s))"

definition image_link :: "(rstring \<Rightarrow> url option) \<Rightarrow> rstring \<Rightarrow> media_ref option" where
  "image_link parse s =
     (if MAX_URL_LEN < blen s then None
      else
        (case parse s of
           None \<Rightarrow> None
         | Some url \<Rightarrow>
             (if check_request url None rules_default \<noteq> Inr () then None
              else
                (case u_path_segments url of
                   None \<Rightarrow> None
                 | Some [] \<Rightarrow> None
                 | Some segments \<Rightarrow>
                     (case rsplit_once 0x2E (last segments) of
                        None \<Rightarrow> None
                      | Some (_, extension) \<Rightarrow>
                          (if list_ex (eq_ignore_ascii_case extension) IMAGE_EXTENSIONS
                           then Some (Link url) else None))))))"

definition AVATAR_SIZE_PLACEHOLDER :: rstring where "AVATAR_SIZE_PLACEHOLDER = lit ''{size}''"

text \<open>\<open>str::replace\<close>: every occurrence, from the left, for a pattern that is not empty.\<close>

function replace_all :: "rstring \<Rightarrow> rstring \<Rightarrow> rstring \<Rightarrow> rstring" where
  "replace_all pat new [] = []"
| "replace_all pat new (c # s) =
     (if pat \<noteq> [] \<and> take (length pat) (c # s) = pat
      then new @ replace_all pat new (drop (length pat) (c # s))
      else c # replace_all pat new s)"
  by pat_completeness auto
termination
  by (relation "measure (\<lambda>(pat, new, s). length s)") auto

definition avatar_url :: "(rstring \<Rightarrow> url option) \<Rightarrow> rstring \<Rightarrow> nat \<Rightarrow> media_ref option" where
  "avatar_url parse template pixels =
     (if MAX_URL_LEN < blen template then None
      else
        (let s = replace_all AVATAR_SIZE_PLACEHOLDER (decimal pixels) template
         in if MAX_URL_LEN < blen s then None
            else
              (case parse s of
                 None \<Rightarrow> None
               | Some url \<Rightarrow>
                   (if check_request url None rules_default \<noteq> Inr () then None else Some (Link url)))))"

datatype publish_problem = PublishInvalid | PublishCredentials | PublishBlocked

definition SECRET_PARAMETERS :: "rstring list" where
  "SECRET_PARAMETERS =
     [lit ''access_token'', lit ''api_key'', lit ''apikey'', lit ''auth'', lit ''code'', lit ''jwt'',
      lit ''key'', lit ''pass'', lit ''passwd'', lit ''password'', lit ''secret'', lit ''session'',
      lit ''sid'', lit ''sig'', lit ''signature'', lit ''token'', lit ''x_amz_credential'']"

definition secret_name :: "rstring \<Rightarrow> bool" where
  "secret_name name \<longleftrightarrow>
     map (\<lambda>c. if c = 0x2D then 0x5F else c) (map to_ascii_lowercase name) \<in> set SECRET_PARAMETERS"

definition publishable_url ::
  "(rstring \<Rightarrow> url option) \<Rightarrow> (rstring \<Rightarrow> (rstring \<times> rstring) list) \<Rightarrow> rstring
   \<Rightarrow> publish_problem + unit" where
  "publishable_url parse form s =
     (if s = [] \<or> MAX_URL_LEN < blen s \<or> list_ex (\<lambda>c. is_control c \<or> is_whitespace c) s
      then Inl PublishInvalid
      else
        (case parse s of
           None \<Rightarrow> Inl PublishInvalid
         | Some url \<Rightarrow>
             (let fragment_pairs = (case u_fragment url of None \<Rightarrow> [] | Some f \<Rightarrow> form f)
              in if u_username url \<noteq> [] \<or> u_password url \<noteq> None
                    \<or> list_ex (\<lambda>(name, _). secret_name name) (u_query_pairs url @ fragment_pairs)
                 then Inl PublishCredentials
                 else (case check_request url None rules_default of
                         Inl _ \<Rightarrow> Inl PublishBlocked | Inr u \<Rightarrow> Inr u))))"

definition publishable_avatar_url ::
  "(rstring \<Rightarrow> url option) \<Rightarrow> (rstring \<Rightarrow> (rstring \<times> rstring) list) \<Rightarrow> rstring
   \<Rightarrow> publish_problem + unit" where
  "publishable_avatar_url parse form template =
     (if MAX_URL_LEN < blen template then Inl PublishInvalid
      else publishable_url parse form (replace_all AVATAR_SIZE_PLACEHOLDER (lit ''32'') template))"

section \<open>Blocks of addresses\<close>

text \<open>The reference: an address is a number, a block the numbers that share its first bits.\<close>

definition in_block :: "nat \<Rightarrow> nat \<Rightarrow> nat \<Rightarrow> nat \<Rightarrow> bool" where
  "in_block bits base len value \<longleftrightarrow> value div 2 ^ (bits - len) = base div 2 ^ (bits - len)"

fun v4_value :: "ipv4 \<Rightarrow> nat" where
  "v4_value (V4 a b c d) = ((unat a * 256 + unat b) * 256 + unat c) * 256 + unat d"

fun v6_value :: "ipv6 \<Rightarrow> nat" where
  "v6_value (V6 s0 s1 s2 s3 s4 s5 s6 s7) =
     ((((((unat s0 * 65536 + unat s1) * 65536 + unat s2) * 65536 + unat s3) * 65536 + unat s4) * 65536
       + unat s5) * 65536 + unat s6) * 65536 + unat s7"

text \<open>Addresses that are not globally routable unicast, with the length of their prefix.\<close>

definition special_v4 :: "(ipv4 \<times> nat) list" where
  "special_v4 =
     [(V4 0 0 0 0, 8), (V4 10 0 0 0, 8), (V4 127 0 0 0, 8), (V4 100 64 0 0, 10),
      (V4 169 254 0 0, 16), (V4 172 16 0 0, 12), (V4 192 0 0 0, 24), (V4 192 0 2 0, 24),
      (V4 192 88 99 0, 24), (V4 192 168 0 0, 16), (V4 198 18 0 0, 15), (V4 198 51 100 0, 24),
      (V4 203 0 113 0, 24), (V4 224 0 0 0, 3)]"

definition routable_v4 :: "nat \<Rightarrow> bool" where
  "routable_v4 value \<longleftrightarrow> \<not> list_ex (\<lambda>(base, len). in_block 32 (v4_value base) len value) special_v4"

definition mapped_v6 :: "ipv6 list" where
  "mapped_v6 = [V6 0 0 0 0 0 0xFFFF 0 0, V6 0x64 0xFF9B 0 0 0 0 0 0]"

definition special_v6 :: "(ipv6 \<times> nat) list" where
  "special_v6 =
     [(V6 0x2001 0 0 0 0 0 0 0, 32), (V6 0x2001 0x10 0 0 0 0 0 0, 28),
      (V6 0x2001 0x20 0 0 0 0 0 0, 27), (V6 0x2001 0xDB8 0 0 0 0 0 0, 32),
      (V6 0x3FFF 0 0 0 0 0 0 0, 16)]"

definition routable_v6 :: "nat \<Rightarrow> bool" where
  "routable_v6 value \<longleftrightarrow>
     (if list_ex (\<lambda>base. in_block 128 (v6_value base) 96 value) mapped_v6
      then routable_v4 (value mod 2 ^ 32)
      else if in_block 128 (v6_value (V6 0x2002 0 0 0 0 0 0 0)) 16 value
      then routable_v4 (value div 2 ^ 80 mod 2 ^ 32)
      else in_block 128 (v6_value (V6 0x2000 0 0 0 0 0 0 0)) 3 value
           \<and> \<not> list_ex (\<lambda>(base, len). in_block 128 (v6_value base) len value) special_v6)"

text \<open>A number in base 256 or 65536 without its last digits.\<close>

lemma drop_digit: "(d::nat) < m \<Longrightarrow> (x * m + d) div m = x"
  by simp

lemma drop_digits: "(d::nat) < m \<Longrightarrow> (x * m + d) div (m * k) = x div k"
  by (simp add: div_mult2_eq)

lemma cut_digit: "0 < k \<Longrightarrow> ((x::nat) * (m * k) + y) div k = x * m + y div k"
  by (simp add: mult.assoc [symmetric] add.commute)

lemma octet: "unat (a :: 8 word) < 256"
  using unsigned_less [of a] by simp

lemma segment: "unat (a :: 16 word) < 65536"
  using unsigned_less [of a] by simp

lemma v4_prefixes:
  fixes a b c d :: "8 word"
  defines "v \<equiv> v4_value (V4 a b c d)"
  shows "v div 2 ^ 8 = (unat a * 256 + unat b) * 256 + unat c"
    and "v div 2 ^ 16 = unat a * 256 + unat b"
    and "v div 2 ^ 24 = unat a"
    and "v div 2 ^ 22 = unat a * 4 + unat b div 64"
    and "v div 2 ^ 20 = unat a * 16 + unat b div 16"
    and "v div 2 ^ 17 = unat a * 128 + unat b div 2"
    and "v div 2 ^ 29 = unat a div 32"
proof -
  have split: "v div (m * k) = v div m div k" for m k :: nat
    by (rule div_mult2_eq)
  show v8: "v div 2 ^ 8 = (unat a * 256 + unat b) * 256 + unat c"
    unfolding v_def using drop_digit [OF octet [of d], of "(unat a * 256 + unat b) * 256 + unat c"] by simp
  have "v div 2 ^ 16 = v div (2 ^ 8 * 2 ^ 8)" by simp
  then show v16: "v div 2 ^ 16 = unat a * 256 + unat b"
    unfolding split v8 using drop_digit [OF octet [of c], of "unat a * 256 + unat b"] by simp
  have "v div 2 ^ 24 = v div (2 ^ 16 * 2 ^ 8)" by simp
  then show v24: "v div 2 ^ 24 = unat a"
    unfolding split v16 using drop_digit [OF octet [of b], of "unat a"] by simp
  have "v div 2 ^ 22 = v div (2 ^ 16 * 2 ^ 6)" by simp
  then show "v div 2 ^ 22 = unat a * 4 + unat b div 64"
    unfolding split v16 using cut_digit [of 64 "unat a" 4 "unat b"] by simp
  have "v div 2 ^ 20 = v div (2 ^ 16 * 2 ^ 4)" by simp
  then show "v div 2 ^ 20 = unat a * 16 + unat b div 16"
    unfolding split v16 using cut_digit [of 16 "unat a" 16 "unat b"] by simp
  have "v div 2 ^ 17 = v div (2 ^ 16 * 2 ^ 1)" by simp
  then show "v div 2 ^ 17 = unat a * 128 + unat b div 2"
    unfolding split v16 using cut_digit [of 2 "unat a" 128 "unat b"] by simp
  have "v div 2 ^ 29 = v div (2 ^ 24 * 2 ^ 5)" by simp
  then show "v div 2 ^ 29 = unat a div 32"
    unfolding split v24 by simp
qed

lemma digits_eq: "y < m \<Longrightarrow> n < m \<Longrightarrow> (x::nat) * m + y = k * m + n \<longleftrightarrow> x = k \<and> y = n"
  by (metis add_left_cancel drop_digit)

lemma div_eq: "0 < k \<Longrightarrow> (y::nat) div k = q \<longleftrightarrow> q * k \<le> y \<and> y < Suc q * k"
proof -
  assume k: "0 < k"
  have "y div k = q \<longleftrightarrow> q \<le> y div k \<and> y div k < Suc q" by auto
  then show ?thesis
    using k by (simp only: less_eq_div_iff_mult_less_eq div_less_iff_less_mult)
qed

lemma octet_parts: "unat (b :: 8 word) div 64 < 4" "unat b div 16 < 16" "unat b div 2 < 128"
  using octet [of b] by (simp_all add: div_less_iff_less_mult)

text \<open>Two addresses share their first bits when they share their first octets.\<close>

lemma v4_blocks:
  "in_block 32 (v4_value (V4 a' b' c' d')) 8 (v4_value (V4 a b c d)) \<longleftrightarrow> a = a'"
  "in_block 32 (v4_value (V4 a' b' c' d')) 16 (v4_value (V4 a b c d)) \<longleftrightarrow> a = a' \<and> b = b'"
  "in_block 32 (v4_value (V4 a' b' c' d')) 24 (v4_value (V4 a b c d)) \<longleftrightarrow> a = a' \<and> b = b' \<and> c = c'"
  "in_block 32 (v4_value (V4 a' b' c' d')) 10 (v4_value (V4 a b c d))
   \<longleftrightarrow> a = a' \<and> unat b div 64 = unat b' div 64"
  "in_block 32 (v4_value (V4 a' b' c' d')) 12 (v4_value (V4 a b c d))
   \<longleftrightarrow> a = a' \<and> unat b div 16 = unat b' div 16"
  "in_block 32 (v4_value (V4 a' b' c' d')) 15 (v4_value (V4 a b c d))
   \<longleftrightarrow> a = a' \<and> unat b div 2 = unat b' div 2"
  "in_block 32 (v4_value (V4 a' b' c' d')) 3 (v4_value (V4 a b c d)) \<longleftrightarrow> unat a div 32 = unat a' div 32"
proof -
  note p = v4_prefixes [of a b c d] v4_prefixes [of a' b' c' d']
  note word = word_unat_eq_iff
  show "in_block 32 (v4_value (V4 a' b' c' d')) 8 (v4_value (V4 a b c d)) \<longleftrightarrow> a = a'"
    unfolding in_block_def word using p(3,10) by simp
  show "in_block 32 (v4_value (V4 a' b' c' d')) 16 (v4_value (V4 a b c d)) \<longleftrightarrow> a = a' \<and> b = b'"
    unfolding in_block_def word using p(2,9) digits_eq [OF octet [of b] octet [of b']] by simp
  show "in_block 32 (v4_value (V4 a' b' c' d')) 24 (v4_value (V4 a b c d)) \<longleftrightarrow> a = a' \<and> b = b' \<and> c = c'"
  proof -
    have "(32::nat) - 24 = 8" by simp
    then show ?thesis
      unfolding in_block_def word
      by (simp only: p(1,8) digits_eq [OF octet [of c] octet [of c']]
          digits_eq [OF octet [of b] octet [of b']] conj_assoc)
  qed
  show "in_block 32 (v4_value (V4 a' b' c' d')) 10 (v4_value (V4 a b c d))
      \<longleftrightarrow> a = a' \<and> unat b div 64 = unat b' div 64"
    unfolding in_block_def word using p(4,11) digits_eq [OF octet_parts(1) [of b] octet_parts(1) [of b']] by simp
  show "in_block 32 (v4_value (V4 a' b' c' d')) 12 (v4_value (V4 a b c d))
      \<longleftrightarrow> a = a' \<and> unat b div 16 = unat b' div 16"
    unfolding in_block_def word using p(5,12) digits_eq [OF octet_parts(2) [of b] octet_parts(2) [of b']] by simp
  show "in_block 32 (v4_value (V4 a' b' c' d')) 15 (v4_value (V4 a b c d))
      \<longleftrightarrow> a = a' \<and> unat b div 2 = unat b' div 2"
    unfolding in_block_def word using p(6,13) digits_eq [OF octet_parts(3) [of b] octet_parts(3) [of b']] by simp
  show "in_block 32 (v4_value (V4 a' b' c' d')) 3 (v4_value (V4 a b c d)) \<longleftrightarrow> unat a div 32 = unat a' div 32"
    unfolding in_block_def using p(7,14) by simp
qed

lemma public_v4_iff: "is_public_v4 ip \<longleftrightarrow> routable_v4 (v4_value ip)"
proof (cases ip)
  case (V4 a b c d)
  have parts: "unat b div 64 = unat (64 :: 8 word) div 64 \<longleftrightarrow> 64 \<le> b \<and> b < 128"
    "unat b div 16 = unat (16 :: 8 word) div 16 \<longleftrightarrow> 16 \<le> b \<and> b < 32"
    "unat b div 2 = unat (18 :: 8 word) div 2 \<longleftrightarrow> 18 \<le> b \<and> b < 20"
    "unat a div 32 = unat (224 :: 8 word) div 32 \<longleftrightarrow> 224 \<le> a"
    using octet [of a] by (simp_all add: div_eq word_le_nat_alt word_less_nat_alt)
  show ?thesis
    by (simp only: V4 routable_v4_def special_v4_def list_ex_Nil_iff list_ex_Cons_iff prod.case
        v4_blocks is_public_v4.simps parts simp_thms)
qed

text \<open>The same for sixteen-bit segments.\<close>

lemma v6_prefixes:
  fixes s0 s1 s2 s3 s4 s5 s6 s7 :: "16 word"
  defines "v \<equiv> v6_value (V6 s0 s1 s2 s3 s4 s5 s6 s7)"
  defines "v1 \<equiv> unat s0 * 65536 + unat s1"
  defines "v5 \<equiv> (((v1 * 65536 + unat s2) * 65536 + unat s3) * 65536 + unat s4) * 65536 + unat s5"
  shows "v = (v5 * 65536 + unat s6) * 65536 + unat s7"
    and "v div 2 ^ 32 = v5" and "v div 2 ^ 80 = v1 * 65536 + unat s2"
    and "v div 2 ^ 96 = v1" and "v div 2 ^ 112 = unat s0"
proof -
  have split: "x div (m * k) = x div m div k" for x m k :: nat
    by (rule div_mult2_eq)
  show v: "v = (v5 * 65536 + unat s6) * 65536 + unat s7"
    by (simp only: v_def v5_def v1_def v6_value.simps)
  have "v div 2 ^ 32 = v div (65536 * 65536)" by simp
  then show v32: "v div 2 ^ 32 = v5"
    unfolding split v drop_digit [OF segment] .
  have "v div 2 ^ 80 = v div 2 ^ 32 div 65536 div 65536 div 65536"
    unfolding split [symmetric] by simp
  then show v80: "v div 2 ^ 80 = v1 * 65536 + unat s2"
    unfolding v32 v5_def drop_digit [OF segment] .
  have "v div 2 ^ 96 = v div 2 ^ 80 div 65536"
    unfolding split [symmetric] by simp
  then show v96: "v div 2 ^ 96 = v1"
    unfolding v80 drop_digit [OF segment] .
  have "v div 2 ^ 112 = v div 2 ^ 96 div 65536"
    unfolding split [symmetric] by simp
  then show "v div 2 ^ 112 = unat s0"
    unfolding v96 v1_def drop_digit [OF segment] .
qed

lemma embedded_value: "v4_value (embedded_v4 high low) = unat high * 65536 + unat low"
proof -
  have b: "unat (high_byte w) * 256 + unat (low_byte w) = unat w" for w
  proof -
    have d: "unat (drop_bit 8 w) = unat w div 256"
      unfolding unat_drop_bit_eq by (simp add: drop_bit_eq_div)
    have "unat w div 256 < 256"
      using segment [of w] by (simp add: div_less_iff_less_mult)
    then have "unat (high_byte w) = unat w div 256"
      unfolding high_byte_def unsigned_ucast_eq d by (simp add: take_bit_eq_mod)
    moreover have "unat (low_byte w) = unat w mod 256"
      by (simp add: low_byte_def unsigned_ucast_eq take_bit_eq_mod)
    ultimately show ?thesis by simp
  qed
  have "v4_value (embedded_v4 high low)
      = (unat (high_byte high) * 256 + unat (low_byte high)) * 65536
        + (unat (high_byte low) * 256 + unat (low_byte low))"
    by (simp add: embedded_v4_def algebra_simps)
  then show ?thesis by (simp only: b)
qed

lemma top_three_bits: "w AND 0xE000 = 0x2000 \<longleftrightarrow> unat (w :: 16 word) div 8192 = 1"
proof -
  have mask: "(0xE000 :: 16 word) = NOT (mask 13)" by code_simp
  have push: "w AND 0xE000 = push_bit 13 (drop_bit 13 w)"
    and drop: "drop_bit 13 (w AND 0xE000) = drop_bit 13 w"
    unfolding mask by (rule bit_word_eqI, auto simp: bit_simps dest: bit_imp_le_length)+
  have "drop_bit 13 (0x2000 :: 16 word) = 1" "push_bit 13 (1 :: 16 word) = 0x2000"
    by code_simp+
  then have "w AND 0xE000 = 0x2000 \<longleftrightarrow> drop_bit 13 w = 1"
    using push drop by metis
  moreover have "unat (drop_bit 13 w) = unat w div 8192"
    unfolding unat_drop_bit_eq by (simp add: drop_bit_eq_div)
  ultimately show ?thesis
    by (simp only: word_unat_eq_iff unat_1)
qed

lemma segment_parts: "unat (s :: 16 word) div 16 < 4096" "unat s div 32 < 2048"
  using segment [of s] by (simp_all add: div_less_iff_less_mult)

lemma v6_blocks:
  fixes s0 s1 s2 s3 s4 s5 s6 s7 t0 t1 t2 t3 t4 t5 t6 t7 :: "16 word"
  defines "v \<equiv> v6_value (V6 s0 s1 s2 s3 s4 s5 s6 s7)" and "b \<equiv> v6_value (V6 t0 t1 t2 t3 t4 t5 t6 t7)"
  shows "in_block 128 b 96 v \<longleftrightarrow> [s0, s1, s2, s3, s4, s5] = [t0, t1, t2, t3, t4, t5]"
    and "in_block 128 b 32 v \<longleftrightarrow> [s0, s1] = [t0, t1]"
    and "in_block 128 b 16 v \<longleftrightarrow> s0 = t0"
    and "in_block 128 b 28 v \<longleftrightarrow> s0 = t0 \<and> unat s1 div 16 = unat t1 div 16"
    and "in_block 128 b 27 v \<longleftrightarrow> s0 = t0 \<and> unat s1 div 32 = unat t1 div 32"
    and "in_block 128 b 3 v \<longleftrightarrow> unat s0 div 8192 = unat t0 div 8192"
proof -
  note p = v6_prefixes [of s0 s1 s2 s3 s4 s5 s6 s7, folded v_def]
    v6_prefixes [of t0 t1 t2 t3 t4 t5 t6 t7, folded b_def]
  note word = word_unat_eq_iff
  have split: "x div (m * k) = x div m div k" for x m k :: nat
    by (rule div_mult2_eq)
  note d = digits_eq [OF segment [of s1] segment [of t1]] digits_eq [OF segment [of s2] segment [of t2]]
    digits_eq [OF segment [of s3] segment [of t3]] digits_eq [OF segment [of s4] segment [of t4]]
    digits_eq [OF segment [of s5] segment [of t5]]
  have e: "(128::nat) - 96 = 32" "(128::nat) - 32 = 96" "(128::nat) - 16 = 112" by simp_all
  show "in_block 128 b 96 v \<longleftrightarrow> [s0, s1, s2, s3, s4, s5] = [t0, t1, t2, t3, t4, t5]"
    unfolding in_block_def word by (simp only: e p(2,7) d list.inject word conj_assoc simp_thms)
  show "in_block 128 b 32 v \<longleftrightarrow> [s0, s1] = [t0, t1]"
    unfolding in_block_def word by (simp only: e p(4,9) d list.inject word conj_assoc simp_thms)
  show "in_block 128 b 16 v \<longleftrightarrow> s0 = t0"
    unfolding in_block_def word by (simp only: e p(5,10))
  have "x div 2 ^ (128 - 28) = x div 2 ^ 96 div 16" "x div 2 ^ (128 - 27) = x div 2 ^ 96 div 32"
    "x div 2 ^ (128 - 3) = x div 2 ^ 112 div 8192" for x :: nat
    unfolding split [symmetric] by simp_all
  note f = this
  have c: "(unat s0 * 65536 + unat s1) div 16 = unat s0 * 4096 + unat s1 div 16"
    "(unat s0 * 65536 + unat s1) div 32 = unat s0 * 2048 + unat s1 div 32"
    "(unat t0 * 65536 + unat t1) div 16 = unat t0 * 4096 + unat t1 div 16"
    "(unat t0 * 65536 + unat t1) div 32 = unat t0 * 2048 + unat t1 div 32"
    using cut_digit [of 16 "unat s0" 4096 "unat s1"] cut_digit [of 32 "unat s0" 2048 "unat s1"]
      cut_digit [of 16 "unat t0" 4096 "unat t1"] cut_digit [of 32 "unat t0" 2048 "unat t1"] by simp_all
  show "in_block 128 b 28 v \<longleftrightarrow> s0 = t0 \<and> unat s1 div 16 = unat t1 div 16"
    unfolding in_block_def word f p(4,9) c
    using digits_eq [OF segment_parts(1) [of s1] segment_parts(1) [of t1]] by simp
  show "in_block 128 b 27 v \<longleftrightarrow> s0 = t0 \<and> unat s1 div 32 = unat t1 div 32"
    unfolding in_block_def word f p(4,9) c
    using digits_eq [OF segment_parts(2) [of s1] segment_parts(2) [of t1]] by simp
  show "in_block 128 b 3 v \<longleftrightarrow> unat s0 div 8192 = unat t0 div 8192"
    unfolding in_block_def f p(5,10) ..
qed

section \<open>Properties\<close>

text \<open>C28. The comparisons of octets refuse exactly the IPv4 addresses of the listed blocks, and the
  comparisons of segments agree with the reference on numbers: an IPv6 address that embeds an IPv4
  address (mapped, NAT64, 6to4) is judged by that address, any other must be global unicast outside
  the listed blocks.\<close>
theorem public_ip_blocks:
  "is_public_ip (IpV4 ip4) = routable_v4 (v4_value ip4) \<and> is_public_ip (IpV6 ip6) = routable_v6 (v6_value ip6)"
proof
  show "is_public_ip (IpV4 ip4) = routable_v4 (v4_value ip4)"
    by (simp add: public_v4_iff)
  obtain s0 s1 s2 s3 s4 s5 s6 s7 where ip: "ip6 = V6 s0 s1 s2 s3 s4 s5 s6 s7"
    by (cases ip6)
  define v where "v = v6_value ip6"
  note p = v6_prefixes [of s0 s1 s2 s3 s4 s5 s6 s7, folded ip, folded v_def]
  have tail: "v mod 2 ^ 32 = v4_value (embedded_v4 s6 s7)"
  proof -
    have "unat s6 * 65536 + unat s7 < 2 ^ 32"
      using segment [of s6] segment [of s7] by simp
    moreover have "v = (v div 2 ^ 32) * 2 ^ 32 + (unat s6 * 65536 + unat s7)"
      unfolding p(2) unfolding p(1) by simp
    ultimately show ?thesis
      by (metis embedded_value mod_mult_self3 mod_less)
  qed
  have middle: "v div 2 ^ 80 mod 2 ^ 32 = v4_value (embedded_v4 s1 s2)"
  proof -
    have "unat s1 * 65536 + unat s2 < 2 ^ 32"
      using segment [of s1] segment [of s2] by simp
    moreover have "v div 2 ^ 80 = unat s0 * 2 ^ 32 + (unat s1 * 65536 + unat s2)"
      unfolding p(3) by simp
    ultimately show ?thesis
      by (metis embedded_value mod_mult_self3 mod_less)
  qed
  have parts: "unat s1 div 16 = unat (0x10 :: 16 word) div 16 \<or> unat s1 div 32 = unat (0x20 :: 16 word) div 32
      \<longleftrightarrow> 0x10 \<le> s1 \<and> s1 < 0x40"
    by (auto simp: div_eq word_le_nat_alt word_less_nat_alt)
  have top: "unat s0 div 8192 = unat (0x2000 :: 16 word) div 8192 \<longleftrightarrow> s0 AND 0xE000 = 0x2000"
    by (simp add: top_three_bits)
  show "is_public_ip (IpV6 ip6) = routable_v6 (v6_value ip6)"
    unfolding routable_v6_def v_def [symmetric] tail middle public_v4_iff [symmetric]
    unfolding v_def ip mapped_v6_def special_v6_def list_ex_Nil_iff list_ex_Cons_iff prod.case v6_blocks top
      is_public_ip.simps is_public_v6.simps
    using parts by auto
qed

end
