(* ===== verification/Fetch.thy ===== *)
theory Fetch
  imports Policy
begin

text \<open>
  \<open>crates/media/src/fetch.rs\<close>: loading a preview. Redirects are followed by hand, so that every target is
  checked by \<open>Policy\<close>; the response is read in bounded time and bytes. The network is an argument: what
  one request meets is a \<open>call\<close>, with the reads of the body as they come.
\<close>

section \<open>The network\<close>

text \<open>One pass of the reading loop: the flag is set, the deadline has passed, the read fails at the
  limit of the body or otherwise, or it returns bytes (none at the end).\<close>

datatype read =
  ReadCancelled | ReadLate | ReadLimit | ReadFailed | ReadBytes "8 word list"

record response =
  rs_status :: "16 word"
  rs_location :: "rstring option"
  rs_mime_type :: "rstring option"
  rs_content_length :: "64 word option"
  rs_reads :: "read list"

text \<open>No time is left, the request fails in the resolver or elsewhere, or there is a response.\<close>

datatype call = CallExpired | CallRefused | CallFailed | CallResponse response

record limits =
  max_response_bytes :: nat
  max_redirects :: "8 word"

datatype step = Redirect url | Body "8 word list"

section \<open>Definitions\<close>

fun is_transient :: "load_error \<Rightarrow> bool" where
  "is_transient Network = True"
| "is_transient (Status status) \<longleftrightarrow> status = 408 \<or> status = 429 \<or> (500 \<le> status \<and> status \<le> 599)"
| "is_transient _ = False"

definition contains :: "rstring \<Rightarrow> rstring \<Rightarrow> bool" where
  "contains pat s \<longleftrightarrow> list_ex (\<lambda>i. take (length pat) (drop i s) = pat) [0..<Suc (length s)]"

fun read_body :: "nat \<Rightarrow> 8 word list \<Rightarrow> read list \<Rightarrow> load_error + 8 word list" where
  "read_body most bytes [] = Inr bytes"
| "read_body most bytes (r # rs) =
     (case r of
        ReadCancelled \<Rightarrow> Inl Cancelled
      | ReadLate \<Rightarrow> Inl Network
      | ReadLimit \<Rightarrow> Inl TooLarge
      | ReadFailed \<Rightarrow> Inl Network
      | ReadBytes chunk \<Rightarrow>
          (if chunk = [] then Inr bytes
           else if most < length bytes + length chunk then Inl TooLarge
           else read_body most (bytes @ chunk) rs))"

text \<open>One hop: its outcome, and how often \<open>confirmed\<close> was called.\<close>

definition fetch_get ::
  "(url \<Rightarrow> rstring \<Rightarrow> url option) \<Rightarrow> limits \<Rightarrow> url \<Rightarrow> call \<Rightarrow> (load_error + step) \<times> nat" where
  "fetch_get join limits url call =
     (case call of
        CallExpired \<Rightarrow> (Inl Network, 0)
      | CallRefused \<Rightarrow> (Inl Blocked, 0)
      | CallFailed \<Rightarrow> (Inl Network, 0)
      | CallResponse response \<Rightarrow>
          (let status = rs_status response
           in if status \<in> {301, 302, 303, 307, 308}
              then (case rs_location response of
                      None \<Rightarrow> (Inl (Status status), 0)
                    | Some location \<Rightarrow>
                        (case join url location of
                           None \<Rightarrow> (Inl Blocked, 0) | Some next_url \<Rightarrow> (Inr (Redirect next_url), 0)))
              else if status \<noteq> 200 then (Inl (Status status), 0)
              else
                (let declared = map to_ascii_lowercase
                       (case rs_mime_type response of None \<Rightarrow> [] | Some m \<Rightarrow> m)
                 in if strip_prefix (lit ''image/'') declared = None \<or> contains (lit ''svg'') declared
                    then (Inl NotImage, 0)
                    else
                      (let most = max_response_bytes limits
                       in if (case rs_content_length response of
                                None \<Rightarrow> False | Some n \<Rightarrow> most < unat n)
                          then (Inl TooLarge, 0)
                          else
                            (case read_body most [] (rs_reads response) of
                               Inl e \<Rightarrow> (Inl e, 1) | Inr bytes \<Rightarrow> (Inr (Body bytes), 1))))))"

text \<open>The loop over the hops that are left. \<open>network\<close> is what the request of each hop meets,
  \<open>cancelled\<close> the flag as the hop starts. The URLs requested are returned too.\<close>

fun fetch_hops ::
  "(url \<Rightarrow> rstring \<Rightarrow> url option) \<Rightarrow> rules \<Rightarrow> limits \<Rightarrow> (nat \<Rightarrow> bool) \<Rightarrow> (nat \<Rightarrow> url \<Rightarrow> call)
   \<Rightarrow> nat \<Rightarrow> nat \<Rightarrow> url \<Rightarrow> url option \<Rightarrow> (load_error + 8 word list) \<times> url list \<times> nat" where
  "fetch_hops join rules limits cancelled network 0 hop url previous =
     (Inl TooManyRedirects, [], 0)"
| "fetch_hops join rules limits cancelled network (Suc left) hop url previous =
     (if cancelled hop then (Inl Cancelled, [], 0)
      else
        (case check_request url previous rules of
           Inl e \<Rightarrow> (Inl e, [], 0)
         | Inr _ \<Rightarrow>
             (case fetch_get join limits url (network hop url) of
                (Inl e, confirmed) \<Rightarrow> (Inl e, [url], confirmed)
              | (Inr (Body bytes), confirmed) \<Rightarrow> (Inr bytes, [url], confirmed)
              | (Inr (Redirect next_url), confirmed) \<Rightarrow>
                  (let (result, requested, later) =
                         fetch_hops join rules limits cancelled network left (Suc hop) next_url (Some url)
                   in (result, url # requested, confirmed + later)))))"

definition fetch_confirmed ::
  "(url \<Rightarrow> rstring \<Rightarrow> url option) \<Rightarrow> rules \<Rightarrow> limits \<Rightarrow> (nat \<Rightarrow> bool) \<Rightarrow> (nat \<Rightarrow> url \<Rightarrow> call)
   \<Rightarrow> media_ref \<Rightarrow> (load_error + 8 word list) \<times> url list \<times> nat" where
  "fetch_confirmed join rules limits cancelled network source =
     (case source of Link link \<Rightarrow>
        fetch_hops join rules limits cancelled network (Suc (unat (max_redirects limits))) 0 link None)"

text \<open>The resolver in front of every connection; \<open>None\<close>: no address may be contacted.\<close>

definition permits :: "rules \<Rightarrow> ip_addr \<Rightarrow> bool" where
  "permits rules ip \<longleftrightarrow> is_public_ip ip \<or> loopback_fixture rules \<and> ip = IpV4 LOCALHOST"

definition checked_resolve :: "rules \<Rightarrow> ip_addr list \<Rightarrow> ip_addr list option" where
  "checked_resolve rules resolved =
     (let allowed = filter (permits rules) resolved
      in if allowed = [] then None else Some allowed)"

section \<open>Lemmas\<close>

lemma read_body_bound: "length bytes \<le> most \<Longrightarrow> read_body most bytes rs = Inr out \<Longrightarrow> length out \<le> most"
  by (induction most bytes rs rule: read_body.induct) (auto split: read.splits if_splits)

text \<open>A response that may be shown: final, declared an image other than SVG, within the limit.\<close>

definition image_response :: "limits \<Rightarrow> response \<Rightarrow> bool" where
  "image_response limits response \<longleftrightarrow>
     rs_status response = 200
     \<and> (case rs_mime_type response of
          None \<Rightarrow> False
        | Some m \<Rightarrow>
            strip_prefix (lit ''image/'') (map to_ascii_lowercase m) \<noteq> None
            \<and> \<not> contains (lit ''svg'') (map to_ascii_lowercase m))"

lemma no_type_no_image: "strip_prefix (lit ''image/'') [] = None"
  by (simp add: strip_prefix_def lit_def)

lemma fetch_get_confirmed:
  assumes "fetch_get join limits url call = (result, confirmed)"
  shows "confirmed \<le> 1"
    and "confirmed = 1 \<Longrightarrow> \<exists>response. call = CallResponse response \<and> image_response limits response"
    and "result = Inr (Body bytes) \<Longrightarrow> confirmed = 1 \<and> length bytes \<le> max_response_bytes limits"
    and "result = Inr (Redirect u) \<Longrightarrow> confirmed = 0"
  using assms read_body_bound [of "[]" "max_response_bytes limits"]
  by (auto simp: fetch_get_def Let_def image_response_def no_type_no_image
      split: call.splits option.splits if_splits sum.splits)

text \<open>A URL that may be requested after another one.\<close>

definition may_follow :: "rules \<Rightarrow> url option \<Rightarrow> url \<Rightarrow> bool" where
  "may_follow rules previous url \<longleftrightarrow> check_request url previous rules = Inr ()"

fun requests_checked :: "rules \<Rightarrow> url option \<Rightarrow> url list \<Rightarrow> bool" where
  "requests_checked rules previous [] = True"
| "requests_checked rules previous (u # us) \<longleftrightarrow>
     may_follow rules previous u \<and> requests_checked rules (Some u) us"

lemma fetch_hops_checked:
  "fetch_hops join rules limits cancelled network left hop url previous = (result, requested, confirmed)
   \<Longrightarrow> requests_checked rules previous requested \<and> length requested \<le> left
       \<and> (\<forall>u us. requested = u # us \<longrightarrow> u = url)"
proof (induction left arbitrary: hop url previous result requested confirmed)
  case (Suc left)
  then show ?case
    by (fastforce simp: may_follow_def split: if_splits sum.splits prod.splits step.splits)
qed simp

lemma fetch_hops_confirmed:
  "fetch_hops join rules limits cancelled network left hop url previous = (result, requested, confirmed)
   \<Longrightarrow> confirmed \<le> 1 \<and> (confirmed = 1 \<longrightarrow> requested \<noteq> [] \<and> (\<exists>response k.
           network k (last requested) = CallResponse response \<and> image_response limits response))
       \<and> (\<forall>bytes. result = Inr bytes \<longrightarrow> confirmed = 1 \<and> length bytes \<le> max_response_bytes limits)"
proof (induction left arbitrary: hop url previous result requested confirmed)
  case (Suc left)
  obtain g k where g: "fetch_get join limits url (network hop url) = (g, k)" by fastforce
  note c = fetch_get_confirmed [OF g]
  show ?case
  proof (cases "cancelled hop \<or> check_request url previous rules \<noteq> Inr ()")
    case True
    with Suc.prems show ?thesis
      by (auto split: if_splits sum.splits)
  next
    case False
    show ?thesis
    proof (cases g)
      case (Inl e)
      with False Suc.prems g c(1,2) show ?thesis by fastforce
    next
      case (Inr st)
      show ?thesis
      proof (cases st)
        case (Redirect next_url)
        obtain r q l where h:
            "fetch_hops join rules limits cancelled network left (Suc hop) next_url (Some url) = (r, q, l)"
          by (metis prod_cases3)
        with False Inr Redirect Suc.prems g c(4)
        have "result = r" "requested = url # q" "confirmed = l" by auto
        with Suc.IH [OF h] show ?thesis by auto
      next
        case (Body bytes)
        with False Inr Suc.prems g c(2,3) show ?thesis by fastforce
      qed
    qed
  qed
qed simp

text \<open>What the policy lets through: a name of two labels or more of which the last is not \<open>localhost\<close>, or a
  public address, at the port of its scheme; and the loopback address where tests ask for it.\<close>

definition public_name :: "rstring \<Rightarrow> bool" where
  "public_name domain \<longleftrightarrow>
     (let labels = split_by (\<lambda>c. c = 0x2E) (map to_ascii_lowercase (trim_end_char 0x2E domain))
      in 2 \<le> length labels \<and> last labels \<noteq> lit ''localhost'')"

definition contactable :: "rules \<Rightarrow> url \<Rightarrow> bool" where
  "contactable rules url \<longleftrightarrow>
     (u_scheme url = lit ''http'' \<or> u_scheme url = lit ''https'')
     \<and> u_username url = [] \<and> u_password url = None
     \<and> (u_port url = None \<and>
          (case u_host url of
             None \<Rightarrow> False
           | Some (HostDomain domain) \<Rightarrow> public_name domain
           | Some (HostIpv4 ip) \<Rightarrow> is_public_ip (IpV4 ip)
           | Some (HostIpv6 ip) \<Rightarrow> is_public_ip (IpV6 ip))
        \<or> loopback_fixture rules \<and> u_host url = Some (HostIpv4 LOCALHOST))"

lemma split_last: "last (split_by (\<lambda>c. c = d) s) = x \<Longrightarrow> s = x \<or> (\<exists>p. s = p @ d # x)"
proof (induction s)
  case (Cons c s)
  obtain w ws where w: "split_by (\<lambda>c. c = d) s = w # ws" by (cases "split_by (\<lambda>c. c = d) s") auto
  show ?case
  proof (cases "c = d \<or> ws \<noteq> []")
    case True
    then have "last (split_by (\<lambda>c. c = d) s) = x" using Cons.prems w by (auto split: if_splits)
    then consider "s = x" | p where "s = p @ d # x" using Cons.IH by blast
    then show ?thesis
    proof cases
      case 1
      then show ?thesis
      proof (cases "c = d")
        case False
        then have "length (split_by (\<lambda>c. c = d) x) \<noteq> 1" using True w 1 by simp
        moreover have "d \<notin> set x"
          using split_by_free [of "last (split_by (\<lambda>c. c = d) s)" "\<lambda>c. c = d" s d]
            \<open>last (split_by (\<lambda>c. c = d) s) = x\<close> by (metis last_in_set split_by_neq_Nil)
        moreover have "d \<notin> set y \<Longrightarrow> length (split_by (\<lambda>c. c = d) y) = 1" for y
          by (induction y) (auto split: list.split)
        ultimately show ?thesis by blast
      qed (use 1 in auto)
    next
      case 2
      then show ?thesis by (intro disjI2 exI [of _ "c # p"]) simp
    qed
  next
    case False
    then have x: "x = c # w" using Cons.prems w by (auto split: if_splits)
    have "last (split_by (\<lambda>c. c = d) s) = w" using False w by simp
    moreover have "length (split_by (\<lambda>c. c = d) s) = 1" using False w by simp
    moreover have "length (split_by (\<lambda>c. c = d) y) = 1 \<Longrightarrow> split_by (\<lambda>c. c = d) y = [y]" for y
      by (induction y) (auto split: list.splits if_splits)
    ultimately have "w = s" by (metis last.simps)
    then show ?thesis using x by simp
  qed
qed simp

lemma split_two: "d \<in> set s \<Longrightarrow> 2 \<le> length (split_by (\<lambda>c. c = d) s)"
proof (induction s)
  case (Cons c s)
  obtain w ws where "split_by (\<lambda>c. c = d) s = w # ws" by (cases "split_by (\<lambda>c. c = d) s") auto
  then show ?case using Cons by auto
qed simp

lemma public_nameI:
  assumes "name = map to_ascii_lowercase (trim_end_char 0x2E domain)" "0x2E \<in> set name"
    "name \<noteq> lit ''localhost''" "strip_suffix (lit ''.localhost'') name = None"
  shows "public_name domain"
proof -
  have "last (split_by (\<lambda>c. c = 0x2E) name) \<noteq> lit ''localhost''"
  proof
    assume "last (split_by (\<lambda>c. c = 0x2E) name) = lit ''localhost''"
    from split_last [OF this] obtain p where p: "name = p @ 0x2E # lit ''localhost''" using assms(3) by blast
    have "lit ''.localhost'' = 0x2E # lit ''localhost''" by (simp add: lit_def)
    then have "strip_suffix (lit ''.localhost'') name = Some p" unfolding strip_suffix_Some p by simp
    then show False unfolding assms(4) by simp
  qed
  then show ?thesis using split_two [OF assms(2)] assms(1) by (simp add: public_name_def Let_def)
qed

lemma may_follow_contactable:
  assumes "may_follow rules previous url"
  shows "contactable rules url"
    and "previous = Some p \<Longrightarrow> u_scheme p = lit ''https'' \<Longrightarrow> u_scheme url = lit ''https''"
proof -
  have "public_name d"
    if "0x2E \<in> to_ascii_lowercase ` set (trim_end_char 0x2E d)"
      "map to_ascii_lowercase (trim_end_char 0x2E d) \<noteq> lit ''localhost''"
      "strip_suffix (lit ''.localhost'') (map to_ascii_lowercase (trim_end_char 0x2E d)) = None" for d
    by (rule public_nameI [OF refl]) (use that in simp_all)
  with assms show "contactable rules url"
    by (auto simp: may_follow_def check_request_def Let_def contactable_def
        split: if_splits option.splits host.splits)
  show "previous = Some p \<Longrightarrow> u_scheme p = lit ''https'' \<Longrightarrow> u_scheme url = lit ''https''"
    using assms by (auto simp: may_follow_def check_request_def Let_def split: if_splits)
qed

lemma requests_checked_all:
  "requests_checked rules previous us \<Longrightarrow> list_all (contactable rules) us"
  by (induction us arbitrary: previous) (auto intro: may_follow_contactable)

lemma requests_stay_secure:
  "requests_checked rules previous us \<Longrightarrow> (\<exists>p. previous = Some p \<and> u_scheme p = lit ''https'')
   \<Longrightarrow> list_all (\<lambda>u. u_scheme u = lit ''https'') us"
  by (induction us arbitrary: previous) (auto dest: may_follow_contactable(2))

lemma requests_secure_suffix:
  "requests_checked rules previous (before @ u # after) \<Longrightarrow> u_scheme u = lit ''https''
   \<Longrightarrow> list_all (\<lambda>v. u_scheme v = lit ''https'') after"
  by (induction before arbitrary: previous) (auto intro: requests_stay_secure)

lemma checked_resolve_permits:
  "checked_resolve rules resolved = Some allowed \<Longrightarrow> allowed \<noteq> [] \<and> list_all (permits rules) allowed"
  by (auto simp: checked_resolve_def Let_def list_all_iff split: if_splits)

section \<open>Properties\<close>

text \<open>C27. Whatever the network answers, a load requests at most as many URLs as redirects are allowed and
  one, each of them without credentials, over HTTP or HTTPS at the port of the scheme, and from a public host: a
  public address, or a name of at least two labels whose last is not \<open>localhost\<close> (only rules made for
  tests add the loopback address, at any port); once one was secure, all later ones are. The addresses a
  name resolves to are checked where it is resolved (\<open>checked_resolve\<close>).\<close>
theorem fetch_requests_safe:
  assumes "fetch_confirmed join rules limits cancelled network (Link link) = (result, requested, confirmed)"
  shows "length requested \<le> Suc (unat (max_redirects limits))
    \<and> list_all (contactable rules) requested
    \<and> (requested = before @ u # after \<and> u_scheme u = lit ''https''
       \<longrightarrow> list_all (\<lambda>v. u_scheme v = lit ''https'') after)"
proof -
  have c: "requests_checked rules None requested" "length requested \<le> Suc (unat (max_redirects limits))"
    using assms fetch_hops_checked [of join rules limits cancelled network "Suc (unat (max_redirects limits))"
        0 link None result requested confirmed]
    by (simp_all add: fetch_confirmed_def)
  then show ?thesis
    using requests_checked_all requests_secure_suffix by blast
qed

text \<open>C33. A load confirms an image at most once, and only when the last URL answered with status 200 and an
  image type other than SVG; bytes are returned only after that and within the limit.\<close>
theorem fetch_result_image:
  assumes "fetch_confirmed join rules limits cancelled network (Link link) = (result, requested, confirmed)"
    and "result = Inr bytes \<or> confirmed \<noteq> 0"
  shows "confirmed = 1 \<and> (result = Inr bytes \<longrightarrow> length bytes \<le> max_response_bytes limits)
    \<and> requested \<noteq> []
    \<and> (\<exists>response k. network k (last requested) = CallResponse response \<and> image_response limits response)"
  using fetch_hops_confirmed [of join rules limits cancelled network "Suc (unat (max_redirects limits))"
        0 link None result requested confirmed] assms
  by (auto simp: fetch_confirmed_def)

text \<open>An avatar template that may be published can be loaded by the rules others apply to it, and the
  expanded address carries no credential.\<close>
theorem publishable_avatar_loads:
  assumes "publishable_avatar_url parse form template = Inr ()"
  shows "\<exists>u. avatar_url parse template 32 = Some (Link u) \<and> contactable rules_default u
    \<and> list_all (\<lambda>(name, _). \<not> secret_name name) (u_query_pairs u)
    \<and> (\<forall>f. u_fragment u = Some f \<longrightarrow> list_all (\<lambda>(name, _). \<not> secret_name name) (form f))"
proof -
  have d: "decimal 32 = lit ''32''"
    by (simp add: decimal.simps lit_def)
  from assms obtain u where u: "parse (replace_all AVATAR_SIZE_PLACEHOLDER (lit ''32'') template) = Some u"
      "check_request u None rules_default = Inr ()"
      "\<not> list_ex (\<lambda>(name, _). secret_name name)
         (u_query_pairs u @ (case u_fragment u of None \<Rightarrow> [] | Some f \<Rightarrow> form f))"
    and l: "\<not> MAX_URL_LEN < blen template"
      "\<not> MAX_URL_LEN < blen (replace_all AVATAR_SIZE_PLACEHOLDER (lit ''32'') template)"
    by (auto simp: publishable_avatar_url_def publishable_url_def Let_def
        split: if_splits option.splits sum.splits)
  have "avatar_url parse template 32 = Some (Link u)"
    using u l by (simp add: avatar_url_def d)
  moreover have "contactable rules_default u"
    using u(2) by (intro may_follow_contactable(1)) (simp add: may_follow_def)
  ultimately show ?thesis
    using u(3) by (auto simp: list_all_iff list_ex_iff split: option.splits)
qed

section \<open>Witnesses\<close>

definition sample_url :: "string \<Rightarrow> url" where
  "sample_url scheme =
     \<lparr>u_scheme = lit scheme, u_username = [], u_password = None,
      u_host = Some (HostDomain (lit ''a.example'')), u_port = None,
      u_path_segments = Some [lit ''b.png''], u_query_pairs = [(lit ''w'', lit ''8'')], u_fragment = None\<rparr>"

definition sample_limits :: limits where
  "sample_limits = \<lparr>max_response_bytes = 100, max_redirects = 3\<rparr>"

text \<open>The first request is redirected to HTTPS, the second returns a small image.\<close>

definition sample_network :: "nat \<Rightarrow> url \<Rightarrow> call" where
  "sample_network hop u =
     CallResponse
       (if hop = 0
        then \<lparr>rs_status = 301, rs_location = Some [], rs_mime_type = None, rs_content_length = None,
              rs_reads = []\<rparr>
        else \<lparr>rs_status = 200, rs_location = None, rs_mime_type = Some (lit ''image/png''),
              rs_content_length = Some 3, rs_reads = [ReadBytes [1, 2], ReadBytes [3]]\<rparr>)"

lemma sample_checked:
  "check_request (sample_url ''http'') None rules_default = Inr ()"
  "check_request (sample_url ''https'') (Some (sample_url ''http'')) rules_default = Inr ()"
  by (simp_all add: check_request_def sample_url_def lit_def trim_end_char_def strip_suffix_def
      to_ascii_lowercase_def is_ascii_upper_def)

lemma sample_image:
  "strip_prefix (lit ''image/'') (map to_ascii_lowercase (lit ''image/png'')) \<noteq> None"
  "contains (lit ''svg'') (map to_ascii_lowercase (lit ''image/png'')) = False"
  by code_simp+

lemma sample_fetch:
  "fetch_confirmed (\<lambda>_ _. Some (sample_url ''https'')) rules_default sample_limits (\<lambda>_. False)
     sample_network (Link (sample_url ''http''))
   = (Inr [1, 2, 3], [sample_url ''http'', sample_url ''https''], 1)"
proof -
  have limits: "Suc (unat (max_redirects sample_limits)) = Suc (Suc 2)"
    "max_response_bytes sample_limits = 100"
    by (simp_all add: sample_limits_def)
  have "fetch_hops (\<lambda>_ _. Some (sample_url ''https'')) rules_default sample_limits (\<lambda>_. False)
      sample_network (Suc (Suc left)) 0 (sample_url ''http'') None
    = (Inr [1, 2, 3], [sample_url ''http'', sample_url ''https''], 1)" for left
    using sample_image by (simp add: limits(2) sample_checked fetch_get_def sample_network_def)
  then show ?thesis
    unfolding fetch_confirmed_def media_ref.case limits(1) .
qed

theorem fetch_requests_safe_witness:
  "list_all (contactable rules_default) [sample_url ''http'', sample_url ''https'']"
  using fetch_requests_safe [OF sample_fetch] by blast

theorem fetch_result_image_witness:
  "\<exists>response k. sample_network k (sample_url ''https'') = CallResponse response
     \<and> image_response sample_limits response"
  using fetch_result_image [OF sample_fetch, of "[]"] by simp

theorem publishable_avatar_loads_witness:
  "\<exists>u. avatar_url (\<lambda>_. Some (sample_url ''https'')) (lit ''https://a.example/{size}'') 32 = Some (Link u)"
proof -
  have "check_request (sample_url ''https'') None rules_default = Inr ()"
    by (simp add: check_request_def sample_url_def lit_def trim_end_char_def strip_suffix_def
        to_ascii_lowercase_def is_ascii_upper_def)
  moreover have "\<not> secret_name (lit ''w'')"
    by code_simp
  moreover have "\<not> MAX_URL_LEN < blen (lit ''https://a.example/{size}'')"
    "\<not> MAX_URL_LEN < blen (lit ''https://a.example/32'')"
    by (simp_all add: lit_def MAX_URL_LEN_def)
  moreover have "replace_all AVATAR_SIZE_PLACEHOLDER (lit ''32'') (lit ''https://a.example/{size}'')
      = lit ''https://a.example/32''"
    by (simp add: lit_def AVATAR_SIZE_PLACEHOLDER_def)
  moreover have "\<not> list_ex (\<lambda>c. is_control c \<or> is_whitespace c) (lit ''https://a.example/32'')"
    "lit ''https://a.example/32'' \<noteq> []"
    by (simp_all add: lit_def char_class_defs)
  ultimately have "publishable_avatar_url (\<lambda>_. Some (sample_url ''https'')) (\<lambda>_. [])
      (lit ''https://a.example/{size}'') = Inr ()"
    by (simp add: publishable_avatar_url_def publishable_url_def sample_url_def)
  from publishable_avatar_loads [OF this] show ?thesis by blast
qed

end
