(* ===== verification/Timeline.thy ===== *)
theory Timeline
  imports Domain Display
begin

text \<open>
  \<open>crates/app/src/timeline.rs\<close>: what a source supplies with a line, and the bounded duplicate filter
  that lets deliveries of history overlap. The keys of a filter's \<open>RandomState\<close> are a function from
  what is hashed to 64 bits.
\<close>

section \<open>Lines and their metadata\<close>

definition DUPLICATE_KEYS_PER_CONVERSATION :: nat where "DUPLICATE_KEYS_PER_CONVERSATION = 512"
definition FINGERPRINT_TEXT_BYTES :: nat where "FINGERPRINT_TEXT_BYTES = 512"

datatype line_kind = KindMessage | KindNotice | KindAction

definition kind_from_notice :: "bool \<Rightarrow> line_kind" where
  "kind_from_notice notice = (if notice then KindNotice else KindMessage)"

record message_meta =
  mm_server_time :: "system_time option"
  mm_native_id :: "native_message_id option"
  mm_account :: "services_account option"
  mm_provenance :: provenance
  mm_highlights :: "(nat \<times> nat) list"

definition meta_live :: message_meta where
  "meta_live = \<lparr>mm_server_time = None, mm_native_id = None, mm_account = None, mm_provenance = Live,
     mm_highlights = []\<rparr>"

definition meta_with_provenance :: "provenance \<Rightarrow> message_meta" where
  "meta_with_provenance p = meta_live\<lparr>mm_provenance := p\<rparr>"

definition meta_at :: "system_time option \<Rightarrow> message_meta" where
  "meta_at t = meta_live\<lparr>mm_server_time := t\<rparr>"

definition after_prefix :: "nat \<Rightarrow> message_meta \<Rightarrow> message_meta" where
  "after_prefix len meta =
     meta\<lparr>mm_highlights := map (\<lambda>(a, b). (a + len, b + len)) (mm_highlights meta)\<rparr>"

record timeline_line =
  tl_sender :: rstring
  tl_text :: rstring
  tl_notice :: bool
  tl_action :: bool
  tl_attention :: bool
  tl_meta :: message_meta

section \<open>The duplicate filter\<close>

text \<open>What the two key functions hash.\<close>

datatype hash_input =
    HashNative rstring
  | HashLine timestamp bool bool rstring nat "nat list"

record duplicate_filter =
  df_order :: "64 word list"
  df_seen :: "64 word list"
  df_hasher :: "hash_input \<Rightarrow> 64 word"

definition duplicate_filter_new :: "(hash_input \<Rightarrow> 64 word) \<Rightarrow> duplicate_filter" where
  "duplicate_filter_new hasher = \<lparr>df_order = [], df_seen = [], df_hasher = hasher\<rparr>"

definition native_key :: "duplicate_filter \<Rightarrow> native_message_id \<Rightarrow> 64 word" where
  "native_key f i = df_hasher f (HashNative (native_id_str i))"

definition fingerprint :: "duplicate_filter \<Rightarrow> timestamp \<Rightarrow> chat_message \<Rightarrow> 64 word" where
  "fingerprint f t m =
     df_hasher f
       (HashLine t (msg_activity m) (msg_action m) (msg_sender m) (blen (msg_text m))
          (take FINGERPRINT_TEXT_BYTES (utf8 (msg_text m))))"

definition duplicate_key :: "duplicate_filter \<Rightarrow> chat_message \<Rightarrow> (64 word \<times> bool) option" where
  "duplicate_key f m =
     (case (msg_native_id m, msg_timestamp m) of
        (Some i, _) \<Rightarrow> Some (native_key f i, True)
      | (None, Some t) \<Rightarrow> Some (fingerprint f t m, message_is_history m)
      | (None, None) \<Rightarrow> None)"

definition filter_admit :: "chat_message \<Rightarrow> duplicate_filter \<Rightarrow> bool \<times> duplicate_filter" where
  "filter_admit m f =
     (case duplicate_key f m of
        None \<Rightarrow> (True, f)
      | Some (key, suppress) \<Rightarrow>
          (if key \<in> set (df_seen f) then (\<not> suppress, f)
           else
             (let f = (if DUPLICATE_KEYS_PER_CONVERSATION \<le> length (df_order f)
                       then (case df_order f of
                               [] \<Rightarrow> f
                             | oldest # rest \<Rightarrow>
                                 f\<lparr>df_order := rest, df_seen := removeAll oldest (df_seen f)\<rparr>)
                       else f)
              in (True, f\<lparr>df_order := df_order f @ [key], df_seen := List.insert key (df_seen f)\<rparr>))))"

definition filter_contains :: "duplicate_filter \<Rightarrow> chat_message \<Rightarrow> bool" where
  "filter_contains f m =
     (case duplicate_key f m of
        None \<Rightarrow> False | Some (key, suppress) \<Rightarrow> suppress \<and> key \<in> set (df_seen f))"

section \<open>Lemmas\<close>

text \<open>The set repeats the queue, which holds the last keys recorded, each once.\<close>

definition filter_inv :: "duplicate_filter \<Rightarrow> bool" where
  "filter_inv f \<longleftrightarrow> set (df_seen f) = set (df_order f) \<and> distinct (df_order f)
     \<and> length (df_order f) \<le> DUPLICATE_KEYS_PER_CONVERSATION"

lemma filter_inv_new [simp]: "filter_inv (duplicate_filter_new hasher)"
  by (simp add: filter_inv_def duplicate_filter_new_def)

lemma duplicate_key_hasher:
  "df_hasher g = df_hasher f \<Longrightarrow> duplicate_key g m = duplicate_key f m"
  by (simp add: duplicate_key_def native_key_def fingerprint_def split: option.splits)

text \<open>The keys recorded after this message: at most the last 512.\<close>

definition last_keys :: "64 word list \<Rightarrow> 64 word list" where
  "last_keys keys = drop (length keys - DUPLICATE_KEYS_PER_CONVERSATION) keys"

definition admitted_keys :: "duplicate_filter \<Rightarrow> chat_message \<Rightarrow> 64 word list" where
  "admitted_keys f m =
     (case duplicate_key f m of
        Some (key, _) \<Rightarrow> (if key \<in> set (df_order f) then df_order f else last_keys (df_order f @ [key]))
      | None \<Rightarrow> df_order f)"

lemma filter_admit_effect:
  assumes "filter_inv f"
  shows "df_order (snd (filter_admit m f)) = admitted_keys f m"
    and "df_hasher (snd (filter_admit m f)) = df_hasher f"
    and "filter_inv (snd (filter_admit m f))"
    and "fst (filter_admit m f) \<longleftrightarrow> \<not> filter_contains f m"
proof -
  have s: "set (df_seen f) = set (df_order f)" and d: "distinct (df_order f)"
    and l: "length (df_order f) \<le> DUPLICATE_KEYS_PER_CONVERSATION"
    using assms by (auto simp: filter_inv_def)
  show "df_hasher (snd (filter_admit m f)) = df_hasher f"
    by (auto simp: filter_admit_def Let_def split: option.splits list.splits)
  show "fst (filter_admit m f) \<longleftrightarrow> \<not> filter_contains f m"
    by (auto simp: filter_admit_def filter_contains_def Let_def split: option.splits)
  show "df_order (snd (filter_admit m f)) = admitted_keys f m"
    using l by (cases "df_order f")
      (auto simp: filter_admit_def admitted_keys_def last_keys_def s Let_def
        DUPLICATE_KEYS_PER_CONVERSATION_def split: option.splits)
  show "filter_inv (snd (filter_admit m f))"
    using s d l by (cases "df_order f")
      (auto simp: filter_admit_def filter_inv_def Let_def DUPLICATE_KEYS_PER_CONVERSATION_def
        split: option.splits)
qed

text \<open>The abstract filter: every key recorded so far, newest last, of which the last 512 count.\<close>

fun recorded_keys :: "(hash_input \<Rightarrow> 64 word) \<Rightarrow> chat_message list \<Rightarrow> 64 word list \<Rightarrow> 64 word list" where
  "recorded_keys hasher [] keys = keys"
| "recorded_keys hasher (m # ms) keys =
     recorded_keys hasher ms
       (case duplicate_key (duplicate_filter_new hasher) m of
          Some (key, _) \<Rightarrow> (if key \<in> set (last_keys keys) then keys else keys @ [key])
        | None \<Rightarrow> keys)"

lemma last_keys_snoc: "last_keys (last_keys keys @ [k]) = last_keys (keys @ [k])"
proof (cases "length keys < 512")
  case False
  then have "Suc (length keys - 512) = length keys - 511" by simp
  with False show ?thesis by (simp add: last_keys_def DUPLICATE_KEYS_PER_CONVERSATION_def)
qed (simp add: last_keys_def DUPLICATE_KEYS_PER_CONVERSATION_def)

lemma filter_run:
  assumes "filter_inv f" "df_order f = last_keys keys" "df_hasher f = hasher"
  shows "filter_inv (fold (\<lambda>m f. snd (filter_admit m f)) ms f)
    \<and> df_order (fold (\<lambda>m f. snd (filter_admit m f)) ms f) = last_keys (recorded_keys hasher ms keys)
    \<and> df_hasher (fold (\<lambda>m f. snd (filter_admit m f)) ms f) = hasher"
  using assms
proof (induction ms arbitrary: f keys)
  case (Cons m ms)
  have k: "duplicate_key (duplicate_filter_new hasher) m = duplicate_key f m"
    using Cons.prems(3) by (intro duplicate_key_hasher) (simp add: duplicate_filter_new_def)
  have "df_order (snd (filter_admit m f))
      = last_keys (case duplicate_key (duplicate_filter_new hasher) m of
          Some (key, _) \<Rightarrow> (if key \<in> set (last_keys keys) then keys else keys @ [key])
        | None \<Rightarrow> keys)"
    using Cons.prems(2)
    by (auto simp: filter_admit_effect(1) [OF Cons.prems(1)] admitted_keys_def k last_keys_snoc
        split: option.splits)
  then show ?case
    using Cons.IH [of "snd (filter_admit m f)"] filter_admit_effect(2,3) [OF Cons.prems(1)] Cons.prems(3)
    by simp
qed simp

abbreviation admit_all :: "chat_message list \<Rightarrow> duplicate_filter \<Rightarrow> duplicate_filter" where
  "admit_all ms f \<equiv> fold (\<lambda>m f. snd (filter_admit m f)) ms f"

lemma admit_all_new:
  "filter_inv (admit_all ms (duplicate_filter_new hasher))"
  "df_order (admit_all ms (duplicate_filter_new hasher)) = last_keys (recorded_keys hasher ms [])"
  "df_hasher (admit_all ms (duplicate_filter_new hasher)) = hasher"
proof -
  have "df_order (duplicate_filter_new hasher) = last_keys []" "df_hasher (duplicate_filter_new hasher) = hasher"
    by (simp_all add: duplicate_filter_new_def last_keys_def)
  note run = filter_run [OF filter_inv_new this, of ms]
  show "filter_inv (admit_all ms (duplicate_filter_new hasher))"
    and "df_order (admit_all ms (duplicate_filter_new hasher)) = last_keys (recorded_keys hasher ms [])"
    and "df_hasher (admit_all ms (duplicate_filter_new hasher)) = hasher"
    using run by blast+
qed

lemma recorded_keys_append:
  "recorded_keys hasher (xs @ ys) zs = recorded_keys hasher ys (recorded_keys hasher xs zs)"
  by (induction xs arbitrary: zs) auto

text \<open>A key recorded stays among the last 512 while fewer than 512 messages follow it.\<close>

lemma recorded_keys_suffix:
  "\<exists>more. recorded_keys hasher ms keys = keys @ more \<and> length more \<le> length ms"
proof (induction ms arbitrary: keys)
  case (Cons m ms)
  let ?k = "duplicate_key (duplicate_filter_new hasher) m"
  let ?next = "case ?k of
      Some (key, _) \<Rightarrow> (if key \<in> set (last_keys keys) then keys else keys @ [key]) | None \<Rightarrow> keys"
  have "\<exists>one. ?next = keys @ one \<and> length one \<le> 1"
    by (cases ?k) auto
  then obtain one more where "?next = keys @ one" "length one \<le> 1"
      "recorded_keys hasher ms ?next = ?next @ more" "length more \<le> length ms"
    using Cons.IH [of ?next] by blast
  then show ?case
    by (intro exI [of _ "one @ more"]) simp
qed simp

lemma last_keys_position:
  "key \<in> set (last_keys keys) \<longleftrightarrow>
     (\<exists>before after. keys = before @ key # after \<and> length after < DUPLICATE_KEYS_PER_CONVERSATION)"
proof
  assume "key \<in> set (last_keys keys)"
  then obtain u v where uv: "last_keys keys = u @ key # v"
    by (meson split_list)
  then have "keys = take (length keys - DUPLICATE_KEYS_PER_CONVERSATION) keys @ u @ key # v"
    by (metis append_take_drop_id last_keys_def)
  moreover have "length (last_keys keys) \<le> DUPLICATE_KEYS_PER_CONVERSATION"
    by (simp add: last_keys_def)
  ultimately show "\<exists>before after. keys = before @ key # after
      \<and> length after < DUPLICATE_KEYS_PER_CONVERSATION"
    using uv by (intro exI [of _ "take (length keys - DUPLICATE_KEYS_PER_CONVERSATION) keys @ u"] exI [of _ v])
      simp
next
  assume "\<exists>before after. keys = before @ key # after \<and> length after < DUPLICATE_KEYS_PER_CONVERSATION"
  then show "key \<in> set (last_keys keys)"
    by (auto simp: last_keys_def)
qed

section \<open>Properties\<close>

text \<open>A message with an identifier that was shown is recognised when it is delivered again with fewer
  than 512 messages in between, whatever they are; a live line without one is never taken for a
  duplicate, and the filter never remembers more than 512 keys.\<close>
theorem repeated_recognised:
  assumes "msg_native_id m = Some i" and "msg_native_id m' = Some i"
    and "fst (filter_admit m (admit_all before (duplicate_filter_new hasher)))"
    and "length between < DUPLICATE_KEYS_PER_CONVERSATION"
    and "msg_native_id live = None" and "\<not> message_is_history live"
  shows "\<not> fst (filter_admit m' (admit_all (before @ m # between) (duplicate_filter_new hasher)))
    \<and> fst (filter_admit live (admit_all ms (duplicate_filter_new hasher)))
    \<and> length (df_order (admit_all ms (duplicate_filter_new hasher))) \<le> DUPLICATE_KEYS_PER_CONVERSATION"
proof -
  let ?new = "duplicate_filter_new hasher"
  define key where "key = hasher (HashNative (native_id_str i))"
  have k: "duplicate_key g x = Some (key, True)" if "df_hasher g = hasher" "msg_native_id x = Some i" for g x
    using that by (simp add: duplicate_key_def native_key_def key_def)
  have seen: "set (df_seen (admit_all xs ?new)) = set (last_keys (recorded_keys hasher xs []))" for xs
    using admit_all_new [of xs hasher] by (simp add: filter_inv_def)
  define keys where "keys = recorded_keys hasher before []"
  have "key \<notin> set (last_keys keys)"
    using assms(3) k [OF admit_all_new(3) assms(1), of before]
    unfolding filter_admit_effect(4) [OF admit_all_new(1)] filter_contains_def seen keys_def by simp
  then have "recorded_keys hasher (before @ m # between) [] = recorded_keys hasher between (keys @ [key])"
    using k [OF _ assms(1), of ?new]
    by (simp add: recorded_keys_append keys_def duplicate_filter_new_def)
  moreover obtain more where "recorded_keys hasher between (keys @ [key]) = (keys @ [key]) @ more"
      "length more \<le> length between"
    using recorded_keys_suffix by blast
  ultimately have "key \<in> set (last_keys (recorded_keys hasher (before @ m # between) []))"
    unfolding last_keys_position using assms(4) by (intro exI [of _ keys] exI [of _ more]) simp
  then have "\<not> fst (filter_admit m' (admit_all (before @ m # between) ?new))"
    using k [OF admit_all_new(3) assms(2), of "before @ m # between"]
    unfolding filter_admit_effect(4) [OF admit_all_new(1)] filter_contains_def seen by simp
  moreover have "fst (filter_admit live (admit_all ms ?new))"
    unfolding filter_admit_effect(4) [OF admit_all_new(1)] filter_contains_def duplicate_key_def
    using assms(5,6) by (simp split: option.splits)
  ultimately show ?thesis
    using admit_all_new(1) [of ms hasher] by (simp add: filter_inv_def)
qed

definition sample_line :: chat_message where
  "sample_line =
     \<lparr>msg_time = TimeOfDay 0, msg_sequence = 0, msg_timestamp = None,
      msg_native_id = Some (NativeMessageId (lit ''id'')), msg_account = None, msg_sender = lit ''bob'',
      msg_text = lit ''hi'', msg_highlights = Spans None, msg_links = Spans None, msg_activity = False,
      msg_alert = False, msg_notice = False, msg_action = False, msg_provenance = Live,
      msg_delivery_failed = False\<rparr>"

theorem repeated_recognised_witness:
  "\<not> fst (filter_admit sample_line
      (admit_all ([] @ sample_line # [sample_line\<lparr>msg_native_id := None\<rparr>]) (duplicate_filter_new (\<lambda>_. 7))))"
proof -
  have "msg_native_id sample_line = Some (NativeMessageId (lit ''id''))"
    and n: "msg_native_id (sample_line\<lparr>msg_native_id := None\<rparr>) = None"
    and h: "\<not> message_is_history (sample_line\<lparr>msg_native_id := None\<rparr>)"
    by (simp_all add: sample_line_def message_is_history_def provenance_is_history_def)
  moreover have "fst (filter_admit sample_line (admit_all [] (duplicate_filter_new (\<lambda>_. 7))))"
    by (simp add: filter_admit_def duplicate_key_def sample_line_def duplicate_filter_new_def Let_def)
  moreover have "length [sample_line\<lparr>msg_native_id := None\<rparr>] < DUPLICATE_KEYS_PER_CONVERSATION"
    by (simp add: DUPLICATE_KEYS_PER_CONVERSATION_def)
  ultimately show ?thesis
    using repeated_recognised [OF _ _ _ _ n h] by blast
qed

end
