(* ===== verification/AppState.thy ===== *)
theory AppState
  imports ChannelGroups Timeline Names
begin

text \<open>
  The state of the application, \<open>AppState\<close> of \<open>crates/app/src/lib.rs\<close>: the record of \<open>ChannelGroups\<close>
  extended by the other fields, and the lookups every operation shares. The avatar directory is the
  only field left out. Local time, the links found in a text and the keys of a hash table come from
  outside and are arguments.
\<close>

section \<open>Bounds\<close>

definition MAX_CONVERSATIONS_PER_NETWORK :: nat where "MAX_CONVERSATIONS_PER_NETWORK = 1000"
definition MAX_PRIVATE_CONVERSATIONS_PER_NETWORK :: nat where
  "MAX_PRIVATE_CONVERSATIONS_PER_NETWORK = 100"
definition HISTORY_RESERVE :: nat where "HISTORY_RESERVE = 256"
definition MAX_RETAINED :: nat where "MAX_RETAINED = 2000"
definition MAX_SYSTEM_MESSAGES :: nat where "MAX_SYSTEM_MESSAGES = 200"
definition MAX_ATTENTION :: nat where "MAX_ATTENTION = 200"
definition OLDER_PAGE_LIMIT :: nat where "OLDER_PAGE_LIMIT = 50"
definition OLDER_PAGE_OVERLAP_WINDOW :: nat where "OLDER_PAGE_OVERLAP_WINDOW = HISTORY_RESERVE"
definition RESUME_SCAN_WINDOW :: nat where "RESUME_SCAN_WINDOW = 256"
definition SEQUENCE_ORIGIN :: "64 word" where "SEQUENCE_ORIGIN = 0x4000000000000000"
definition DIAGNOSTIC_SENDER :: rstring where "DIAGNOSTIC_SENDER = lit ''diagnostic''"

section \<open>State\<close>

datatype unread = MarkUnread | LeaveUnread

datatype missing = CreateMissing | IgnoreMissing

datatype line_type = LineText | LineActivity | LineAlert

datatype connection_status =
  Connecting | TransportConnected | Registered | Disconnected rstring

datatype channel_filter = FilterAll | FilterActive | FilterUnread

record resume_point =
  pt_native_id :: "native_message_id option"
  pt_timestamp :: "timestamp option"

record history_resume =
  hr_conversation :: conversation_id
  hr_name :: rstring
  hr_native_id :: "native_message_id option"
  hr_timestamp :: "timestamp option"

record history_block =
  hb_start :: "64 word"
  hb_next :: "64 word"
  hb_request :: "64 word"
  hb_room :: nat
  hb_near_top :: duplicate_filter

record older_history =
  oh_in_flight :: "64 word option"
  oh_finished :: bool

definition older_history_default :: older_history where
  "older_history_default = \<lparr>oh_in_flight = None, oh_finished = False\<rparr>"

record older_history_request =
  or_request :: "64 word"
  or_native_id :: "native_message_id option"
  or_timestamp :: "timestamp option"
  or_limit :: nat

record network_config =
  nc_id :: network_id
  nc_name :: rstring
  nc_channels :: "rstring list"

record app_state = tree_state +
  as_channel_ids :: "(network_id \<times> rstring, conversation_id) hmap"
  as_casemappings :: "(network_id, case_mapping) hmap"
  as_previous :: "conversation_id option"
  as_attention :: "(conversation_id \<times> 64 word) list"
  as_reveal :: "(conversation_id \<times> 64 word) option"
  as_active_channels :: "conversation_id list"
  as_active_servers :: "network_id list"
  as_statuses :: "(network_id, connection_status) hmap"
  as_server_messages :: "(network_id, chat_message list) hmap"
  as_system_messages :: "(network_id \<times> chat_message) list"
  as_next_sequence :: "64 word"
  as_revision :: "64 word"
  as_next_conversation :: "32 word"
  as_duplicates :: "(conversation_id, duplicate_filter) hmap"
  as_pending_history :: "(conversation_id, (chat_message \<times> bool) list) hmap"
  as_history_blocks :: "(conversation_id, history_block) hmap"
  as_history_paging :: "network_id list"
  as_older :: "(conversation_id, older_history) hmap"
  as_next_request :: "64 word"
  as_floor :: "64 word"
  as_resume :: "(conversation_id, resume_point) hmap"

text \<open>What an operation meets outside: the clock and the time zone, the finder of links
  (\<open>crates/app/src/links.rs\<close>) and the keys of a new hash table.\<close>

record outside =
  ou_display_time :: "system_time option \<Rightarrow> time_of_day"
  ou_links :: "rstring \<Rightarrow> ((nat \<times> nat) \<times> rstring) list"
  ou_hasher :: "hash_input \<Rightarrow> 64 word"

section \<open>Lookups\<close>

definition conversation_at :: "app_state \<Rightarrow> conversation_id \<Rightarrow> conversation option" where
  "conversation_at s i = List.find (\<lambda>c. conv_id c = i) (ts_conversations s)"

definition conversation_mut ::
  "conversation_id \<Rightarrow> (conversation \<Rightarrow> conversation) \<Rightarrow> app_state \<Rightarrow> app_state" where
  "conversation_mut i f s =
     s\<lparr>as_revision := as_revision s + 1,
       ts_conversations := change_first (\<lambda>c. conv_id c = i) f (ts_conversations s)\<rparr>"

definition known_network :: "app_state \<Rightarrow> network_id \<Rightarrow> bool" where
  "known_network s n \<longleftrightarrow> list_ex (\<lambda>w. nw_id w = n) (ts_networks s)"

definition casemapping_of :: "app_state \<Rightarrow> network_id \<Rightarrow> case_mapping" where
  "casemapping_of s n =
     (case map_of (as_casemappings s) n of Some m \<Rightarrow> m | None \<Rightarrow> default_mapping)"

definition channel_id :: "app_state \<Rightarrow> network_id \<Rightarrow> rstring \<Rightarrow> conversation_id option" where
  "channel_id s n name = map_of (as_channel_ids s) (n, cm_fold (casemapping_of s n) name)"

definition private_id :: "app_state \<Rightarrow> network_id \<Rightarrow> rstring \<Rightarrow> conversation_id option" where
  "private_id s n peer_key =
     map_option conv_id
       (List.find (\<lambda>c. conv_network c = n \<and> conversation_peer_key c = Some peer_key)
          (ts_conversations s))"

definition status_of :: "app_state \<Rightarrow> network_id \<Rightarrow> connection_status option" where
  "status_of s n = map_of (as_statuses s) n"

section \<open>Selection and marks\<close>

definition select_channel :: "conversation_id \<Rightarrow> app_state \<Rightarrow> app_state" where
  "select_channel i s =
     (if conversation_at s i = None then s
      else
        s\<lparr>as_previous :=
            (case ts_selected s of
               SelChannel current \<Rightarrow> (if current \<noteq> i then Some current else as_previous s)
             | _ \<Rightarrow> as_previous s),
          ts_selected := SelChannel i,
          ts_unread := removeAll i (ts_unread s),
          ts_highlighted := removeAll i (ts_highlighted s)\<rparr>)"

definition select_server :: "network_id \<Rightarrow> app_state \<Rightarrow> app_state" where
  "select_server n s =
     (if \<not> known_network s n then s
      else
        s\<lparr>as_previous :=
            (case ts_selected s of SelChannel current \<Rightarrow> Some current | _ \<Rightarrow> as_previous s),
          ts_selected := SelServer n\<rparr>)"

definition mark_unread :: "conversation_id \<Rightarrow> app_state \<Rightarrow> app_state" where
  "mark_unread i s =
     (if conversation_at s i \<noteq> None \<and> ts_selected s \<noteq> SelChannel i
      then s\<lparr>ts_unread := List.insert i (ts_unread s)\<rparr> else s)"

definition highlight :: "conversation_id \<Rightarrow> app_state \<Rightarrow> app_state" where
  "highlight i s =
     (if ts_selected s \<noteq> SelChannel i \<and> conversation_at s i \<noteq> None
      then s\<lparr>ts_highlighted := List.insert i (ts_highlighted s)\<rparr> else s)"

definition mark_highlighted :: "network_id \<Rightarrow> rstring \<Rightarrow> app_state \<Rightarrow> app_state" where
  "mark_highlighted n name s =
     (case channel_id s n name of
        Some i \<Rightarrow>
          (if ts_selected s \<noteq> SelChannel i
           then s\<lparr>ts_highlighted := List.insert i (ts_highlighted s)\<rparr> else s)
      | None \<Rightarrow> s)"

section \<open>Lemmas\<close>

lemma conversation_at_id: "conversation_at s i = Some c \<Longrightarrow> conv_id c = i \<and> c \<in> set (ts_conversations s)"
  by (auto simp: conversation_at_def find_Some_iff)

lemma conversation_at_None: "conversation_at s i = None \<longleftrightarrow> i \<notin> conv_id ` set (ts_conversations s)"
  by (auto simp: conversation_at_def find_None_iff)

lemma find_change_first:
  "(\<And>c. P c \<Longrightarrow> P (f c)) \<Longrightarrow> List.find P (change_first P f cs) = map_option f (List.find P cs)"
  by (induction cs) auto

lemma find_change_other:
  "(\<And>c. P c \<Longrightarrow> \<not> Q c \<and> \<not> Q (f c)) \<Longrightarrow> List.find Q (change_first P f cs) = List.find Q cs"
  by (induction cs) auto

lemma map_change_first: "(\<And>c. g (f c) = g c) \<Longrightarrow> map g (change_first P f cs) = map g cs"
  by (induction cs) auto

end
