(* ===== verification/MessageLog.thy ===== *)
theory MessageLog
  imports AppState
begin

text \<open>
  The conversation logs of \<open>crates/app/src/lib.rs\<close>: appending and confirming lines, the lines the user
  was notified about, recovered history and older pages. Logs are in ascending order of sequence,
  so the binary searches of the code are modelled by the search for the sequence.
\<close>

section \<open>Lines\<close>

definition new_message ::
  "outside \<Rightarrow> rstring \<Rightarrow> rstring \<Rightarrow> line_type \<Rightarrow> message_meta \<Rightarrow> chat_message" where
  "new_message o' sender body line meta =
     (let body = neutralize_bidi_owned body
      in \<lparr>msg_time = ou_display_time o' (mm_server_time meta),
          msg_sequence = 0,
          msg_timestamp =
            (case mm_server_time meta of None \<Rightarrow> None | Some t \<Rightarrow> timestamp_from_system_time t),
          msg_native_id = mm_native_id meta,
          msg_account = mm_account meta,
          msg_sender = sender,
          msg_text = body,
          msg_highlights = spans_new (mm_highlights meta),
          msg_links = spans_new (ou_links o' body),
          msg_activity = (line \<noteq> LineText),
          msg_alert = (line = LineAlert),
          msg_notice = False,
          msg_action = False,
          msg_provenance = mm_provenance meta,
          msg_delivery_failed = False\<rparr>)"

definition NOTICE_MARKER :: rstring where "NOTICE_MARKER = lit ''[NOTICE] ''"

definition notice_marked :: "rstring \<Rightarrow> line_kind \<Rightarrow> message_meta \<Rightarrow> rstring \<times> message_meta" where
  "notice_marked body kind meta =
     (if kind = KindNotice then (NOTICE_MARKER @ body, after_prefix (blen NOTICE_MARKER) meta)
      else (body, meta))"

definition requested_message :: "outside \<Rightarrow> timeline_line \<Rightarrow> chat_message" where
  "requested_message o' line =
     (new_message o' (tl_sender line) (tl_text line) LineText
        ((tl_meta line)\<lparr>mm_provenance := Requested\<rparr>))
     \<lparr>msg_notice := tl_notice line, msg_action := tl_action line\<rparr>"

text \<open>A line without a time counts as having its predecessor's.\<close>

fun inherited_times :: "timestamp option \<Rightarrow> timestamp option list \<Rightarrow> timestamp option list" where
  "inherited_times t [] = []"
| "inherited_times t (own # rest) =
     (let t = (case own of None \<Rightarrow> t | Some _ \<Rightarrow> own) in t # inherited_times t rest)"

text \<open>The order of \<open>Option<Timestamp>\<close>: nothing first, then by milliseconds.\<close>

definition time_rank :: "timestamp option \<Rightarrow> nat" where
  "time_rank t = (case t of None \<Rightarrow> 0 | Some t \<Rightarrow> Suc (unat (as_millis t)))"

definition server_time_order :: "timestamp option list \<Rightarrow> nat list" where
  "server_time_order timestamps =
     (let ts = inherited_times None timestamps
      in sort_key (\<lambda>i. time_rank (ts ! i)) [0..<length ts])"

section \<open>Logs\<close>

function trim_loop :: "chat_message list \<Rightarrow> chat_message list" where
  "trim_loop ms = (if MAX_RETAINED < length ms then trim_loop (drop 1000 ms) else ms)"
  by pat_completeness auto
termination
  by (relation "measure length") (auto simp: MAX_RETAINED_def)

declare trim_loop.simps [simp del]

definition trim_retained :: "chat_message list \<Rightarrow> chat_message list \<times> bool" where
  "trim_retained ms = (trim_loop ms, MAX_RETAINED < length ms)"

definition push_bounded_log :: "chat_message list \<Rightarrow> chat_message \<Rightarrow> chat_message list \<times> bool" where
  "push_bounded_log ms m = trim_retained (ms @ [m])"

text \<open>\<open>binary_search_by_key\<close> and \<open>partition_point\<close> on a log in ascending order.\<close>

definition search_sequence :: "64 word \<Rightarrow> chat_message list \<Rightarrow> nat option" where
  "search_sequence q ms = position (\<lambda>m. msg_sequence m = q) ms"

definition partition_below :: "64 word \<Rightarrow> chat_message list \<Rightarrow> nat" where
  "partition_below q ms = length (takeWhile (\<lambda>m. msg_sequence m < q) ms)"

definition set_messages ::
  "conversation_id \<Rightarrow> chat_message list \<Rightarrow> app_state \<Rightarrow> app_state" where
  "set_messages i ms s =
     s\<lparr>ts_conversations :=
         change_first (\<lambda>c. conv_id c = i) (\<lambda>c. c\<lparr>conv_messages := ms\<rparr>) (ts_conversations s)\<rparr>"

definition messages_of :: "app_state \<Rightarrow> conversation_id \<Rightarrow> chat_message list" where
  "messages_of s i = (case conversation_at s i of Some c \<Rightarrow> conv_messages c | None \<Rightarrow> [])"

section \<open>Notified lines\<close>

definition is_history_line :: "app_state \<Rightarrow> conversation_id \<Rightarrow> 64 word \<Rightarrow> bool" where
  "is_history_line s i q \<longleftrightarrow>
     (case conversation_at s i of
        None \<Rightarrow> False
      | Some c \<Rightarrow>
          (case search_sequence q (conv_messages c) of
             None \<Rightarrow> False | Some k \<Rightarrow> message_is_history (conv_messages c ! k)))"

definition attention_room ::
  "app_state \<Rightarrow> conversation_id \<Rightarrow> 64 word \<Rightarrow> (conversation_id \<times> 64 word) list option" where
  "attention_room s i q =
     (if MAX_ATTENTION \<le> length (as_attention s)
      then (case position (\<lambda>(other, seen). is_history_line s other seen) (as_attention s) of
              Some k \<Rightarrow> Some (remove_at k (as_attention s))
            | None \<Rightarrow> (if is_history_line s i q then None else Some (drop 1 (as_attention s))))
      else Some (as_attention s))"

definition note_attention_at :: "conversation_id \<Rightarrow> 64 word \<Rightarrow> app_state \<Rightarrow> app_state" where
  "note_attention_at i q s =
     (if (i, q) \<in> set (as_attention s) then s
      else
        (case attention_room s i q of
           None \<Rightarrow> s
         | Some queue \<Rightarrow>
             (let k = (case position (\<lambda>(other, newer). other = i \<and> q < newer) queue of
                         Some k \<Rightarrow> k | None \<Rightarrow> length queue)
              in s\<lparr>as_attention := insert_at k (i, q) queue\<rparr>)))"

definition note_attention :: "conversation_id \<Rightarrow> app_state \<Rightarrow> app_state" where
  "note_attention i s =
     (case conversation_at s i of
        None \<Rightarrow> s
      | Some c \<Rightarrow>
          (if conv_messages c = [] then s
           else note_attention_at i (msg_sequence (last (conv_messages c))) s))"

definition first_held :: "app_state \<Rightarrow> conversation_id \<Rightarrow> 64 word option" where
  "first_held s i = (case messages_of s i of [] \<Rightarrow> None | m # _ \<Rightarrow> Some (msg_sequence m))"

definition prune_attention :: "conversation_id \<Rightarrow> app_state \<Rightarrow> app_state" where
  "prune_attention i s =
     s\<lparr>as_attention :=
         filter (\<lambda>(c, q). c \<noteq> i \<or> (case first_held s i of None \<Rightarrow> True | Some f \<Rightarrow> f \<le> q))
           (as_attention s)\<rparr>"

definition line_held :: "app_state \<Rightarrow> conversation_id \<Rightarrow> 64 word \<Rightarrow> bool" where
  "line_held s i q \<longleftrightarrow>
     (case conversation_at s i of
        None \<Rightarrow> False | Some c \<Rightarrow> search_sequence q (conv_messages c) \<noteq> None)"

fun visit_loop :: "(conversation_id \<times> 64 word) list \<Rightarrow> app_state \<Rightarrow> app_state" where
  "visit_loop [] s = s\<lparr>as_attention := []\<rparr>"
| "visit_loop ((i, q) # rest) s =
     (if line_held s i q
      then (select_channel i (s\<lparr>as_attention := rest\<rparr>))\<lparr>as_reveal := Some (i, q)\<rparr>
      else visit_loop rest s)"

definition visit_attention :: "app_state \<Rightarrow> app_state" where
  "visit_attention s = visit_loop (as_attention s) s"

definition has_attention :: "app_state \<Rightarrow> bool" where
  "has_attention s \<longleftrightarrow> as_attention s \<noteq> []"

definition take_reveal :: "app_state \<Rightarrow> (conversation_id \<times> 64 word) option \<times> app_state" where
  "take_reveal s = (as_reveal s, s\<lparr>as_reveal := None\<rparr>)"

section \<open>Appending\<close>

definition next_sequence :: "app_state \<Rightarrow> 64 word \<times> app_state" where
  "next_sequence s = (as_next_sequence s + 1, s\<lparr>as_next_sequence := as_next_sequence s + 1\<rparr>)"

text \<open>\<open>entry(id).or_default().admit(message)\<close>.\<close>

definition admit_in :: "outside \<Rightarrow> conversation_id \<Rightarrow> chat_message \<Rightarrow> app_state \<Rightarrow> bool \<times> app_state" where
  "admit_in o' i m s =
     (let f = (case map_of (as_duplicates s) i of
                 Some f \<Rightarrow> f | None \<Rightarrow> duplicate_filter_new (ou_hasher o'));
          (new, f) = filter_admit m f
      in (new, s\<lparr>as_duplicates := AList.update i f (as_duplicates s)\<rparr>))"

definition identified :: "chat_message \<Rightarrow> bool" where
  "identified m \<longleftrightarrow> msg_native_id m \<noteq> None \<or> msg_timestamp m \<noteq> None"

definition append_to_conversation ::
  "outside \<Rightarrow> conversation_id \<Rightarrow> chat_message \<Rightarrow> app_state \<Rightarrow> bool \<times> app_state" where
  "append_to_conversation o' i m s =
     (case conversation_at s i of
        None \<Rightarrow> (False, s)
      | Some _ \<Rightarrow>
          (let (new, s) = (if identified m then admit_in o' i m s else (True, s))
           in if \<not> new then (False, s)
              else
                (let (q, s) = next_sequence s;
                     m = m\<lparr>msg_sequence := q\<rparr>;
                     s = s\<lparr>as_revision := as_revision s + 1\<rparr>;
                     (ms, trimmed) = push_bounded_log (messages_of s i) m;
                     s = set_messages i ms s
                 in (True, if trimmed then prune_attention i s else s))))"

definition kind_marked :: "line_kind \<Rightarrow> chat_message \<Rightarrow> chat_message" where
  "kind_marked kind m = m\<lparr>msg_notice := (kind = KindNotice), msg_action := (kind = KindAction)\<rparr>"

definition append_conversation_message ::
  "outside \<Rightarrow> conversation_id \<Rightarrow> rstring \<Rightarrow> rstring \<Rightarrow> line_kind \<Rightarrow> message_meta \<Rightarrow> unread
   \<Rightarrow> app_state \<Rightarrow> bool \<times> app_state" where
  "append_conversation_message o' i sender body kind meta unread s =
     (let (body, meta) = notice_marked body kind meta;
          m = kind_marked kind (new_message o' sender body LineText meta);
          (added, s) = append_to_conversation o' i m s
      in if \<not> added then (False, s)
         else (True, if unread = MarkUnread then mark_unread i s else s))"

definition append_conversation_activity ::
  "outside \<Rightarrow> conversation_id \<Rightarrow> rstring \<Rightarrow> app_state \<Rightarrow> app_state" where
  "append_conversation_activity o' i body s =
     snd (append_to_conversation o' i (new_message o' [] body LineActivity meta_live) s)"

definition append_network_activity ::
  "outside \<Rightarrow> network_id \<Rightarrow> rstring \<Rightarrow> app_state \<Rightarrow> app_state" where
  "append_network_activity o' n body s =
     fold (\<lambda>i. append_conversation_activity o' i body)
       (map conv_id (filter (\<lambda>c. conv_network c = n) (ts_conversations s))) s"

definition push_server_message ::
  "network_id \<Rightarrow> chat_message \<Rightarrow> app_state \<Rightarrow> app_state" where
  "push_server_message n m s =
     (let ms = (case map_of (as_server_messages s) n of Some ms \<Rightarrow> ms | None \<Rightarrow> [])
      in s\<lparr>as_server_messages :=
             AList.update n (fst (push_bounded_log ms m)) (as_server_messages s)\<rparr>)"

definition append_server_message_at ::
  "outside \<Rightarrow> network_id \<Rightarrow> rstring \<Rightarrow> message_meta \<Rightarrow> app_state \<Rightarrow> app_state" where
  "append_server_message_at o' n body meta s =
     (if \<not> known_network s n then s
      else
        (let m = new_message o' (lit ''server'') body LineText meta;
             (q, s) = next_sequence s
         in push_server_message n (m\<lparr>msg_sequence := q\<rparr>) s))"

definition append_server_message :: "outside \<Rightarrow> network_id \<Rightarrow> rstring \<Rightarrow> app_state \<Rightarrow> app_state" where
  "append_server_message o' n body s = append_server_message_at o' n body meta_live s"

definition append_system_message :: "outside \<Rightarrow> network_id \<Rightarrow> rstring \<Rightarrow> app_state \<Rightarrow> app_state" where
  "append_system_message o' n body s =
     (if \<not> known_network s n then s
      else
        (let m = new_message o' (lit ''server'') body LineActivity meta_live;
             (q, s) = next_sequence s;
             m = m\<lparr>msg_sequence := q\<rparr>;
             system = as_system_messages s @ [(n, m)];
             system = (if MAX_SYSTEM_MESSAGES < length system then drop 1 system else system)
         in push_server_message n m (s\<lparr>as_system_messages := system\<rparr>)))"

definition append_diagnostic_message ::
  "outside \<Rightarrow> network_id \<Rightarrow> rstring \<Rightarrow> app_state \<Rightarrow> app_state" where
  "append_diagnostic_message o' n body s =
     (if \<not> known_network s n then s
      else
        (let m = new_message o' DIAGNOSTIC_SENDER body LineActivity meta_live;
             (q, s) = next_sequence s
         in push_server_message n (m\<lparr>msg_sequence := q\<rparr>) s))"

definition append_channel_message_at ::
  "outside \<Rightarrow> network_id \<Rightarrow> rstring \<Rightarrow> rstring \<Rightarrow> rstring \<Rightarrow> line_kind \<Rightarrow> message_meta \<Rightarrow> app_state
   \<Rightarrow> bool \<times> app_state" where
  "append_channel_message_at o' n name sender body kind meta s =
     (let (body, meta) = notice_marked body kind meta
      in case channel_id s n name of
           None \<Rightarrow>
             (let before = (if kind = KindAction then name @ lit '' * '' @ sender @ lit '' ''
                            else name @ lit '' <'' @ sender @ lit ''> '')
              in (True, append_server_message_at o' n (before @ body) (after_prefix (blen before) meta) s))
         | Some i \<Rightarrow>
             (let m = kind_marked kind (new_message o' sender body LineText meta);
                  (added, s) = append_to_conversation o' i m s
              in if \<not> added then (False, s)
                 else (True, if kind \<noteq> KindNotice then mark_unread i s else s)))"

definition append_channel_message ::
  "outside \<Rightarrow> network_id \<Rightarrow> rstring \<Rightarrow> rstring \<Rightarrow> rstring \<Rightarrow> line_kind \<Rightarrow> provenance \<Rightarrow> app_state
   \<Rightarrow> app_state" where
  "append_channel_message o' n name sender body kind p s =
     snd (append_channel_message_at o' n name sender body kind (meta_with_provenance p) s)"

definition append_channel_line_at ::
  "line_type \<Rightarrow> outside \<Rightarrow> network_id \<Rightarrow> rstring \<Rightarrow> rstring \<Rightarrow> message_meta \<Rightarrow> app_state \<Rightarrow> app_state" where
  "append_channel_line_at line o' n name body meta s =
     (case channel_id s n name of
        None \<Rightarrow> s
      | Some i \<Rightarrow> snd (append_to_conversation o' i (new_message o' [] body line meta) s))"

definition append_channel_activity_at ::
  "outside \<Rightarrow> network_id \<Rightarrow> rstring \<Rightarrow> rstring \<Rightarrow> message_meta \<Rightarrow> app_state \<Rightarrow> app_state" where
  "append_channel_activity_at = append_channel_line_at LineActivity"

definition append_channel_alert_at ::
  "outside \<Rightarrow> network_id \<Rightarrow> rstring \<Rightarrow> rstring \<Rightarrow> message_meta \<Rightarrow> app_state \<Rightarrow> app_state" where
  "append_channel_alert_at = append_channel_line_at LineAlert"

end
