(* ===== verification/History.thy ===== *)
theory History
  imports MessageLog
begin

text \<open>
  Confirming our own lines, recovered history and older pages: the rest of the logs of
  \<open>crates/app/src/lib.rs\<close>. An older page is shown as its lines arrive, in a block of sequences set aside
  below everything else, and put in server-time order when it ends.
\<close>

section \<open>Our own lines\<close>

definition confirm_message ::
  "outside \<Rightarrow> conversation_id \<Rightarrow> 64 word \<Rightarrow> rstring option \<Rightarrow> line_kind \<Rightarrow> message_meta \<Rightarrow> app_state
   \<Rightarrow> bool \<times> app_state" where
  "confirm_message o' i q body kind meta s =
     (let found = conversation_at s i;
          s = conversation_mut i id s
      in case found of
           None \<Rightarrow> (False, s)
         | Some c \<Rightarrow>
             (case search_sequence q (conv_messages c) of
                None \<Rightarrow> (False, s)
              | Some k \<Rightarrow>
                  (let m = conv_messages c ! k;
                       m = (case body of
                              None \<Rightarrow> m
                            | Some body \<Rightarrow>
                                (let body = neutralize_bidi_owned body;
                                     body = (if kind = KindNotice then NOTICE_MARKER @ body else body)
                                 in m\<lparr>msg_text := body, msg_links := spans_new (ou_links o' body)\<rparr>));
                       m = (kind_marked kind m)\<lparr>msg_delivery_failed := False\<rparr>;
                       m = (if mm_native_id meta \<noteq> None then m\<lparr>msg_native_id := mm_native_id meta\<rparr> else m);
                       m = (case mm_server_time meta of
                              None \<Rightarrow> m
                            | Some t \<Rightarrow>
                                m\<lparr>msg_timestamp := timestamp_from_system_time t,
                                  msg_time := ou_display_time o' (Some t)\<rparr>);
                       s = set_messages i ((conv_messages c)[k := m]) s
                   in (True, if identified m then snd (admit_in o' i m s) else s))))"

definition fail_message :: "conversation_id \<Rightarrow> 64 word \<Rightarrow> app_state \<Rightarrow> app_state" where
  "fail_message i q s =
     (let found = conversation_at s i;
          s = conversation_mut i id s
      in case found of
           None \<Rightarrow> s
         | Some c \<Rightarrow>
             (case search_sequence q (conv_messages c) of
                None \<Rightarrow> s
              | Some k \<Rightarrow>
                  set_messages i
                    ((conv_messages c)[k := (conv_messages c ! k)\<lparr>msg_delivery_failed := True\<rparr>]) s))"

section \<open>Recovered history\<close>

definition history_requested_for :: "conversation_id \<Rightarrow> app_state \<Rightarrow> app_state" where
  "history_requested_for i s =
     s\<lparr>as_resume := AList.delete i (as_resume s),
       as_pending_history := AList.update i [] (as_pending_history s)\<rparr>"

definition history_requested :: "network_id \<Rightarrow> rstring \<Rightarrow> app_state \<Rightarrow> app_state" where
  "history_requested n name s =
     (case channel_id s n name of None \<Rightarrow> s | Some i \<Rightarrow> history_requested_for i s)"

definition history_resumed :: "network_id \<Rightarrow> rstring \<Rightarrow> app_state \<Rightarrow> app_state" where
  "history_resumed n name s =
     (case channel_id s n name of
        None \<Rightarrow> s
      | Some i \<Rightarrow> s\<lparr>as_pending_history := AList.update i [] (as_pending_history s)\<rparr>)"

definition push_history_line ::
  "outside \<Rightarrow> conversation_id \<Rightarrow> timeline_line \<Rightarrow> app_state \<Rightarrow> bool \<times> app_state" where
  "push_history_line o' i line s =
     (case map_of (as_pending_history s) i of
        None \<Rightarrow> (False, s)
      | Some lines \<Rightarrow>
          (True,
           s\<lparr>as_pending_history :=
               AList.update i (lines @ [(requested_message o' line, tl_attention line)])
                 (as_pending_history s)\<rparr>))"

text \<open>One line of the reply, in its turn: how many lines were added so far, and the state.\<close>

definition append_recovered ::
  "outside \<Rightarrow> conversation_id \<Rightarrow> chat_message \<times> bool \<Rightarrow> nat \<times> app_state \<Rightarrow> nat \<times> app_state" where
  "append_recovered o' i line acc =
     (let (added, s) = append_to_conversation o' i (fst line) (snd acc)
      in if added then (fst acc + 1, if snd line then note_attention i s else s)
         else (fst acc, s))"

definition finish_history_for ::
  "outside \<Rightarrow> conversation_id \<Rightarrow> rstring option \<Rightarrow> app_state \<Rightarrow> nat \<times> app_state" where
  "finish_history_for o' i gap_note s =
     (case map_of (as_pending_history s) i of
        None \<Rightarrow> (0, s)
      | Some lines \<Rightarrow>
          (let s = s\<lparr>as_pending_history := AList.delete i (as_pending_history s),
                     as_resume := AList.delete i (as_resume s)\<rparr>
           in if conversation_at s i = None then (0, s)
              else
                (let (added, s) =
                       (case gap_note of
                          None \<Rightarrow> (0, s)
                        | Some body \<Rightarrow>
                            (let (a, s) = append_to_conversation o' i
                                   (new_message o' [] body LineActivity (meta_with_provenance Requested)) s
                             in (of_bool a, s)));
                     order = server_time_order (map (\<lambda>(m, _). msg_timestamp m) lines)
                 in fold (append_recovered o' i) (map (\<lambda>k. lines ! k) order) (added, s))))"

definition insert_history_for ::
  "outside \<Rightarrow> conversation_id \<Rightarrow> timeline_line list \<Rightarrow> rstring option \<Rightarrow> app_state \<Rightarrow> nat \<times> app_state"
  where
  "insert_history_for o' i lines gap_note s =
     (if map_of (as_pending_history s) i = None then (0, s)
      else finish_history_for o' i gap_note
             (fold (\<lambda>line s. snd (push_history_line o' i line s)) lines s))"

definition insert_resumed_history ::
  "outside \<Rightarrow> network_id \<Rightarrow> rstring \<Rightarrow> timeline_line list \<Rightarrow> rstring option \<Rightarrow> app_state
   \<Rightarrow> nat \<times> app_state" where
  "insert_resumed_history o' n name lines gap_note s =
     (case channel_id s n name of
        None \<Rightarrow> (0, s) | Some i \<Rightarrow> insert_history_for o' i lines gap_note s)"

definition insert_channel_history ::
  "outside \<Rightarrow> network_id \<Rightarrow> rstring \<Rightarrow> timeline_line list \<Rightarrow> app_state \<Rightarrow> nat \<times> app_state" where
  "insert_channel_history o' n name lines s = insert_resumed_history o' n name lines None s"

text \<open>\<open>max_by_key\<close> gives the last of several greatest elements, \<open>min_by_key\<close> the first of several least.\<close>

definition max_by_key :: "('a \<Rightarrow> nat) \<Rightarrow> 'a list \<Rightarrow> 'a option" where
  "max_by_key f xs =
     fold (\<lambda>x best. case best of None \<Rightarrow> Some x | Some b \<Rightarrow> Some (if f b \<le> f x then x else b)) xs None"

definition min_by_key :: "('a \<Rightarrow> nat) \<Rightarrow> 'a list \<Rightarrow> 'a option" where
  "min_by_key f xs =
     fold (\<lambda>x best. case best of None \<Rightarrow> Some x | Some b \<Rightarrow> Some (if f x < f b then x else b)) xs None"

definition resume_line :: "chat_message list \<Rightarrow> chat_message option" where
  "resume_line ms =
     (let tail = drop (length ms - RESUME_SCAN_WINDOW) ms
      in case max_by_key (\<lambda>m. time_rank (msg_timestamp m)) (filter (\<lambda>m. msg_timestamp m \<noteq> None) tail) of
           Some m \<Rightarrow> Some m
         | None \<Rightarrow> List.find (\<lambda>m. msg_native_id m \<noteq> None) (rev tail))"

definition cut_off_channel ::
  "network_id \<Rightarrow> bool \<Rightarrow> conversation \<Rightarrow> app_state \<Rightarrow> app_state" where
  "cut_off_channel n could_page c s =
     (if conv_network c \<noteq> n \<or> conversation_is_private c
         \<or> conv_id c \<notin> set (as_active_channels s) then s
      else if \<not> could_page then s\<lparr>as_resume := AList.delete (conv_id c) (as_resume s)\<rparr>
      else if map_of (as_resume s) (conv_id c) \<noteq> None then s
      else
        (case resume_line (conv_messages c) of
           None \<Rightarrow> s
         | Some m \<Rightarrow>
             s\<lparr>as_resume := AList.update (conv_id c)
                 \<lparr>pt_native_id = msg_native_id m, pt_timestamp = msg_timestamp m\<rparr> (as_resume s)\<rparr>))"

definition cut_off_channels :: "network_id \<Rightarrow> bool \<Rightarrow> app_state \<Rightarrow> app_state" where
  "cut_off_channels n could_page s = fold (cut_off_channel n could_page) (ts_conversations s) s"

definition history_resume_of :: "app_state \<Rightarrow> network_id \<Rightarrow> history_resume list" where
  "history_resume_of s n =
     List.map_filter
       (\<lambda>c. map_option
          (\<lambda>p. \<lparr>hr_conversation = conv_id c, hr_name = conv_name c, hr_native_id = pt_native_id p,
                hr_timestamp = pt_timestamp p\<rparr>)
          (map_of (as_resume s) (conv_id c)))
       (filter (\<lambda>c. conv_network c = n) (ts_conversations s))"

section \<open>Older pages\<close>

definition set_history_paging :: "network_id \<Rightarrow> bool \<Rightarrow> app_state \<Rightarrow> app_state" where
  "set_history_paging n available s =
     (if available \<and> known_network s n
      then s\<lparr>as_history_paging := List.insert n (as_history_paging s)\<rparr>
      else s\<lparr>as_history_paging := removeAll n (as_history_paging s)\<rparr>)"

definition older_state :: "app_state \<Rightarrow> conversation_id \<Rightarrow> older_history" where
  "older_state s i =
     (case map_of (as_older s) i of Some h \<Rightarrow> h | None \<Rightarrow> older_history_default)"

definition request_older_history ::
  "conversation_id \<Rightarrow> app_state \<Rightarrow> older_history_request option \<times> app_state" where
  "request_older_history i s =
     (case conversation_at s i of
        None \<Rightarrow> (None, s)
      | Some c \<Rightarrow>
          (let state = older_state s i
           in if conv_network c \<notin> set (as_history_paging s) \<or> conversation_is_private c
                 \<or> i \<notin> set (as_active_channels s)
                 \<or> map_of (as_pending_history s) i \<noteq> None
                 \<or> oh_in_flight state \<noteq> None
                 \<or> oh_finished state
                 \<or> MAX_RETAINED \<le> length (conv_messages c)
              then (None, s)
              else
                (let head = take OLDER_PAGE_OVERLAP_WINDOW (conv_messages c)
                 in case (case min_by_key (\<lambda>m. time_rank (msg_timestamp m))
                                 (filter (\<lambda>m. msg_timestamp m \<noteq> None) head) of
                            Some m \<Rightarrow> Some m
                          | None \<Rightarrow> List.find (\<lambda>m. msg_native_id m \<noteq> None) head) of
                      None \<Rightarrow> (None, s)
                    | Some oldest \<Rightarrow>
                        (let request = as_next_request s + 1
                         in (Some \<lparr>or_request = request, or_native_id = msg_native_id oldest,
                                   or_timestamp = msg_timestamp oldest,
                                   or_limit = min OLDER_PAGE_LIMIT (MAX_RETAINED - length (conv_messages c))\<rparr>,
                             s\<lparr>as_next_request := request,
                               as_older := AList.update i
                                 \<lparr>oh_in_flight = Some request, oh_finished = False\<rparr> (as_older s)\<rparr>)))))"

definition older_history_in_flight :: "app_state \<Rightarrow> conversation_id \<Rightarrow> 64 word option" where
  "older_history_in_flight s i =
     (case map_of (as_older s) i of None \<Rightarrow> None | Some h \<Rightarrow> oh_in_flight h)"

definition place_streamed :: "conversation_id \<Rightarrow> chat_message \<Rightarrow> bool \<Rightarrow> app_state \<Rightarrow> app_state" where
  "place_streamed i m attention s =
     (let q = msg_sequence m;
          s = s\<lparr>as_revision := as_revision s + 1\<rparr>;
          ms = messages_of s i;
          (ms, trimmed) = trim_retained (insert_at (partition_below q ms) m ms);
          s = set_messages i ms s;
          s = (if attention then note_attention_at i q s else s)
      in if trimmed then prune_attention i s else s)"

text \<open>The first line of a page sets the block aside: its overlap window and its room.\<close>

definition open_block :: "outside \<Rightarrow> conversation_id \<Rightarrow> 64 word \<Rightarrow> app_state \<Rightarrow> app_state" where
  "open_block o' i request s =
     (if (case map_of (as_history_blocks s) i of None \<Rightarrow> False | Some b \<Rightarrow> hb_request b = request) then s
      else
        (let ms = messages_of s i;
             near_top = fold (\<lambda>m f. snd (filter_admit m f))
               (rev (take OLDER_PAGE_OVERLAP_WINDOW ms)) (duplicate_filter_new (ou_hasher o'));
             start = as_floor s - of_nat HISTORY_RESERVE
         in s\<lparr>as_floor := start,
              as_history_blocks := AList.update i
                \<lparr>hb_start = start, hb_next = start, hb_request = request,
                 hb_room = min (MAX_RETAINED - length ms) HISTORY_RESERVE, hb_near_top = near_top\<rparr>
                (as_history_blocks s)\<rparr>))"

definition push_older_history_line ::
  "outside \<Rightarrow> conversation_id \<Rightarrow> 64 word \<Rightarrow> timeline_line \<Rightarrow> app_state \<Rightarrow> bool \<times> app_state" where
  "push_older_history_line o' i request line s =
     (if older_history_in_flight s i \<noteq> Some request then (False, s)
      else if conversation_at s i = None then (False, s)
      else
        (let s = open_block o' i request s
         in case map_of (as_history_blocks s) i of
              None \<Rightarrow> (False, s)
            | Some block \<Rightarrow>
                (if hb_room block \<le> unat (hb_next block - hb_start block) then (False, s)
                 else
                   (let m = requested_message o' line;
                        known = (case map_of (as_duplicates s) i of
                                   None \<Rightarrow> False | Some f \<Rightarrow> filter_contains f m);
                        (new, near_top) = (if known then (False, hb_near_top block)
                                           else filter_admit m (hb_near_top block));
                        block = block\<lparr>hb_near_top := near_top\<rparr>
                    in if known \<or> \<not> new
                       then (False, s\<lparr>as_history_blocks := AList.update i block (as_history_blocks s)\<rparr>)
                       else
                         (let m = m\<lparr>msg_sequence := hb_next block\<rparr>;
                              block = block\<lparr>hb_next := hb_next block + 1\<rparr>;
                              s = s\<lparr>as_history_blocks := AList.update i block (as_history_blocks s)\<rparr>
                          in (True, place_streamed i m (tl_attention line) s))))))"

text \<open>Where each arrived line went, for the notified lines.\<close>

definition moved_to ::
  "64 word \<Rightarrow> chat_message list \<Rightarrow> nat list \<Rightarrow> nat \<Rightarrow> nat \<Rightarrow> (64 word \<times> 64 word option) list" where
  "moved_to first arrived order shift added =
     rev (map (\<lambda>(k, from). (msg_sequence (arrived ! from),
                if k + shift < added then Some (first + of_nat (k + shift)) else None))
       (enumerate 0 order))"

definition settle_attention ::
  "conversation_id \<Rightarrow> 64 word \<Rightarrow> 64 word \<Rightarrow> (64 word \<times> 64 word option) list
   \<Rightarrow> (conversation_id \<times> 64 word) list \<Rightarrow> (conversation_id \<times> 64 word) list" where
  "settle_attention i first until moved queue =
     List.map_filter
       (\<lambda>(c, q).
          if c \<noteq> i \<or> \<not> (first \<le> q \<and> q < until) then Some (c, q)
          else (case map_of moved q of
                  Some (Some t) \<Rightarrow> Some (c, t)
                | Some None \<Rightarrow> None
                | None \<Rightarrow> Some (c, q)))
       queue"

definition settle_block ::
  "conversation_id \<Rightarrow> 64 word \<Rightarrow> 64 word \<Rightarrow> chat_message option \<Rightarrow> app_state \<Rightarrow> nat \<times> app_state" where
  "settle_block i first until note_line s =
     (let ms = messages_of s i;
          low = partition_below first ms;
          high = partition_below until ms;
          arrived = take (high - low) (drop low ms);
          order = server_time_order (map msg_timestamp arrived);
          shift = (case note_line of None \<Rightarrow> 0 | Some _ \<Rightarrow> 1);
          reordered = (shift = 1 \<or> order \<noteq> [0..<length order]);
          block = take (unat (until - first))
            ((case note_line of None \<Rightarrow> [] | Some m \<Rightarrow> [m]) @ map (\<lambda>k. arrived ! k) order);
          block = map (\<lambda>(k, m). m\<lparr>msg_sequence := first + of_nat k\<rparr>) (enumerate 0 block);
          added = length block;
          s = (if reordered
               then s\<lparr>as_attention :=
                        settle_attention i first until (moved_to first arrived order shift added)
                          (as_attention s),
                      as_revision := as_revision s + 1\<rparr>
               else s)
      in (added, set_messages i (take low ms @ block @ drop high ms) s))"

definition finish_older_history ::
  "conversation_id \<Rightarrow> 64 word \<Rightarrow> bool \<Rightarrow> app_state \<Rightarrow> nat \<times> app_state" where
  "finish_older_history i request beginning s =
     (case map_of (as_older s) i of
        None \<Rightarrow> (0, s)
      | Some state \<Rightarrow>
          (if oh_in_flight state \<noteq> Some request then (0, s)
           else
             (let s = s\<lparr>as_older := AList.update i (state\<lparr>oh_in_flight := None\<rparr>) (as_older s)\<rparr>;
                  removed = map_of (as_history_blocks s) i;
                  s = s\<lparr>as_history_blocks := AList.delete i (as_history_blocks s)\<rparr>;
                  (added, s) =
                    (case removed of
                       None \<Rightarrow> (0, s)
                     | Some block \<Rightarrow>
                         (if hb_request block = request \<and> conversation_at s i \<noteq> None
                          then settle_block i (hb_start block)
                                 (hb_start block + of_nat HISTORY_RESERVE) None s
                          else (0, s)))
              in (added,
                  if beginning \<or> added = 0
                  then s\<lparr>as_older := AList.update i \<lparr>oh_in_flight = None, oh_finished = True\<rparr>
                           (as_older s)\<rparr>
                  else s))))"

definition insert_older_history ::
  "outside \<Rightarrow> conversation_id \<Rightarrow> 64 word \<Rightarrow> timeline_line list \<Rightarrow> bool \<Rightarrow> app_state \<Rightarrow> nat \<times> app_state"
  where
  "insert_older_history o' i request lines beginning s =
     finish_older_history i request beginning
       (fold (\<lambda>line s. snd (push_older_history_line o' i request line s)) lines s)"

definition older_history_failed :: "conversation_id \<Rightarrow> 64 word \<Rightarrow> app_state \<Rightarrow> app_state" where
  "older_history_failed i request s = snd (finish_older_history i request True s)"

end
