(* ===== verification/Session.thy ===== *)
theory Session
  imports MessageLog History "HOL-Library.List_Lexorder" "HOL-Library.Product_Lexorder"
begin

text \<open>
  The networks and conversations of \<open>crates/app/src/lib.rs\<close>: configuration, connection status, joining
  and leaving channels, private conversations, members and topics. A list keeps each network's
  conversations together, in network order, channels before private conversations. \<open>lower\<close> is
  \<open>str::to_lowercase\<close>. Of \<open>Option\<close> results of functions that contain \<open>expect\<close> the value \<open>None\<close> of the
  outer option is the panic.
\<close>

section \<open>Looking up\<close>

definition NOT_CONNECTED :: connection_status where
  "NOT_CONNECTED = Disconnected (lit ''Not connected.'')"

definition server_messages :: "app_state \<Rightarrow> network_id \<Rightarrow> chat_message list" where
  "server_messages s n = (case map_of (as_server_messages s) n of Some ms \<Rightarrow> ms | None \<Rightarrow> [])"

definition is_registered :: "app_state \<Rightarrow> network_id \<Rightarrow> bool" where
  "is_registered s n \<longleftrightarrow> n \<in> set (as_active_servers s)"

definition selected_channel :: "app_state \<Rightarrow> conversation option" where
  "selected_channel s =
     (case ts_selected s of SelChannel i \<Rightarrow> conversation_at s i | _ \<Rightarrow> None)"

definition selected_network :: "app_state \<Rightarrow> network option option" where
  "selected_network s =
     (let found = (\<lambda>n. map_option Some (List.find (\<lambda>w. nw_id w = n) (ts_networks s)))
      in case ts_selected s of
           SelServer n \<Rightarrow> found n
         | SelChannel i \<Rightarrow> Option.bind (conversation_at s i) (\<lambda>c. found (conv_network c))
         | SelNone \<Rightarrow> Some None)"

section \<open>The list of conversations\<close>

definition network_place :: "app_state \<Rightarrow> network_id \<Rightarrow> nat" where
  "network_place s n =
     (case position (\<lambda>w. nw_id w = n) (ts_networks s) of Some k \<Rightarrow> k | None \<Rightarrow> USIZE_MAX)"

definition sort_conversations :: "app_state \<Rightarrow> app_state" where
  "sort_conversations s =
     s\<lparr>ts_conversations := sort_key (\<lambda>c. network_place s (conv_network c)) (ts_conversations s)\<rparr>"

text \<open>\<open>rposition\<close>: the place of the last element with the property.\<close>

definition last_position :: "('a \<Rightarrow> bool) \<Rightarrow> 'a list \<Rightarrow> nat option" where
  "last_position P xs = map_option (\<lambda>k. length xs - 1 - k) (position P (rev xs))"

text \<open>\<open>partition_point\<close> is a binary search; on a list in order it counts the elements up to the rank.\<close>

definition channel_slot :: "app_state \<Rightarrow> network_id \<Rightarrow> rstring \<Rightarrow> nat \<Rightarrow> nat \<Rightarrow> nat" where
  "channel_slot s n name start until =
     (case map_of (ts_ranks s) n of
        None \<Rightarrow> until
      | Some ranks \<Rightarrow>
          start + length (takeWhile (\<lambda>c. rank_of ranks (conv_name c) \<le> rank_of ranks name)
            (take (until - start) (drop start (ts_conversations s)))))"

definition conversation_slot :: "app_state \<Rightarrow> network_id \<Rightarrow> bool \<Rightarrow> nat" where
  "conversation_slot s n private =
     (let cs = ts_conversations s
      in case last_position (\<lambda>c. conv_network c = n \<and> (private \<or> \<not> conversation_is_private c)) cs of
           Some k \<Rightarrow> k + 1
         | None \<Rightarrow>
             (case position (\<lambda>c. conv_network c = n) cs of
                Some k \<Rightarrow> k
              | None \<Rightarrow>
                  (case position (\<lambda>c. network_place s n < network_place s (conv_network c)) cs of
                     Some k \<Rightarrow> k | None \<Rightarrow> length cs)))"

definition count_in :: "app_state \<Rightarrow> network_id \<Rightarrow> nat" where
  "count_in s n = length (filter (\<lambda>c. conv_network c = n) (ts_conversations s))"

definition new_conversation ::
  "conversation_id \<Rightarrow> network_id \<Rightarrow> conversation_kind \<Rightarrow> rstring \<Rightarrow> conversation" where
  "new_conversation i n kind name =
     \<lparr>conv_id = i, conv_network = n, conv_kind = kind, conv_name = name, conv_topic = [],
      conv_messages = [], conv_members = [], conv_modes = None\<rparr>"

definition add_conversation ::
  "network_id \<Rightarrow> conversation_kind \<Rightarrow> rstring \<Rightarrow> app_state \<Rightarrow> conversation_id option \<times> app_state" where
  "add_conversation n kind name s =
     (if \<not> known_network s n \<or> MAX_CONVERSATIONS_PER_NETWORK \<le> count_in s n then (None, s)
      else
        (let i = ConversationId (as_next_conversation s);
             s = s\<lparr>as_next_conversation := as_next_conversation s + 1\<rparr>;
             private = (kind \<noteq> Channel);
             key = (n, cm_fold (casemapping_of s n) name);
             s = (if \<not> private \<and> map_of (as_channel_ids s) key = None
                  then s\<lparr>as_channel_ids := AList.update key i (as_channel_ids s)\<rparr> else s);
             index = conversation_slot s n private;
             index = (case position (\<lambda>c. conv_network c = n \<and> \<not> conversation_is_private c)
                             (ts_conversations s) of
                        Some start \<Rightarrow> (if private then index else channel_slot s n name start index)
                      | None \<Rightarrow> index)
         in (Some i,
             s\<lparr>ts_conversations :=
                 insert_at index (new_conversation i n kind name) (ts_conversations s)\<rparr>)))"

definition ensure_configured_channel ::
  "network_id \<Rightarrow> rstring \<Rightarrow> app_state \<Rightarrow> conversation_id option \<times> app_state" where
  "ensure_configured_channel n name s =
     (case List.find (\<lambda>c. conv_network c = n \<and> conv_kind c = Channel \<and> conv_name c = name)
             (ts_conversations s) of
        Some c \<Rightarrow> (Some (conv_id c), s)
      | None \<Rightarrow> add_conversation n Channel name s)"

definition ensure_channel ::
  "network_id \<Rightarrow> rstring \<Rightarrow> app_state \<Rightarrow> conversation_id option \<times> app_state" where
  "ensure_channel n name s =
     (case channel_id s n name of
        Some i \<Rightarrow> (Some i, s) | None \<Rightarrow> add_conversation n Channel name s)"

definition repair_selection :: "app_state \<Rightarrow> app_state" where
  "repair_selection s =
     (let valid = (case ts_selected s of
                     SelServer n \<Rightarrow> known_network s n
                   | SelChannel i \<Rightarrow> conversation_at s i \<noteq> None
                   | SelNone \<Rightarrow> ts_networks s = [])
      in if valid then s
         else s\<lparr>ts_selected := (case ts_networks s of [] \<Rightarrow> SelNone | w # _ \<Rightarrow> SelServer (nw_id w))\<rparr>)"

text \<open>What goes with one conversation; \<open>n\<close> is its network.\<close>

definition forget_conversation :: "network_id \<Rightarrow> conversation_id \<Rightarrow> app_state \<Rightarrow> app_state" where
  "forget_conversation n i s =
     s\<lparr>as_duplicates := AList.delete i (as_duplicates s),
       as_pending_history := AList.delete i (as_pending_history s),
       as_history_blocks := AList.delete i (as_history_blocks s),
       as_older := AList.delete i (as_older s),
       as_resume := AList.delete i (as_resume s),
       ts_unread := removeAll i (ts_unread s),
       ts_highlighted := removeAll i (ts_highlighted s),
       as_active_channels := removeAll i (as_active_channels s),
       as_previous := (if as_previous s = Some i then None else as_previous s),
       ts_selected := (if ts_selected s = SelChannel i then SelServer n else ts_selected s)\<rparr>"

definition remove_conversations :: "network_id \<Rightarrow> app_state \<Rightarrow> conversation_id list \<times> app_state" where
  "remove_conversations n s =
     (let removed = map conv_id (filter (\<lambda>c. conv_network c = n) (ts_conversations s))
      in (removed,
          fold (forget_conversation n) removed
            (s\<lparr>ts_conversations := filter (\<lambda>c. conv_network c \<noteq> n) (ts_conversations s),
               as_channel_ids := filter (\<lambda>((w, _), _). w \<noteq> n) (as_channel_ids s),
               as_casemappings := AList.delete n (as_casemappings s),
               as_attention := filter (\<lambda>(i, _). i \<notin> set removed) (as_attention s)\<rparr>)))"

section \<open>Configuration\<close>

definition app_new :: "network_config list \<Rightarrow> app_state" where
  "app_new configs =
     \<lparr>ts_networks = [], ts_conversations = [],
      ts_selected = (case configs of [] \<Rightarrow> SelNone | w # _ \<Rightarrow> SelServer (nc_id w)),
      ts_unread = [], ts_highlighted = [], ts_orders = [], ts_ranks = [], ts_groups = [],
      ts_next_group = 0,
      as_channel_ids = [], as_casemappings = [], as_previous = None, as_attention = [],
      as_reveal = None, as_active_channels = [], as_active_servers = [], as_statuses = [],
      as_server_messages = [], as_system_messages = [], as_next_sequence = SEQUENCE_ORIGIN,
      as_revision = 0, as_next_conversation = 1, as_duplicates = [], as_pending_history = [],
      as_history_blocks = [], as_history_paging = [], as_older = [], as_next_request = 0,
      as_floor = SEQUENCE_ORIGIN, as_resume = []\<rparr>"

definition ensure_channels :: "network_id \<Rightarrow> rstring list \<Rightarrow> app_state \<Rightarrow> app_state" where
  "ensure_channels n names s = fold (\<lambda>name s. snd (ensure_configured_channel n name s)) names s"

definition add_network :: "network_config \<Rightarrow> app_state \<Rightarrow> app_state" where
  "add_network config s =
     ensure_channels (nc_id config) (nc_channels config)
       (s\<lparr>ts_networks := ts_networks s @ [\<lparr>nw_id = nc_id config, nw_name = nc_name config\<rparr>],
          as_statuses := AList.update (nc_id config) NOT_CONNECTED (as_statuses s)\<rparr>)"

definition with_networks :: "network_config list \<Rightarrow> app_state" where
  "with_networks configs =
     (let s = fold add_network configs (app_new configs)
      in case ts_conversations s of [] \<Rightarrow> s | c # _ \<Rightarrow> s\<lparr>ts_selected := SelChannel (conv_id c)\<rparr>)"

definition drop_network ::
  "network_id \<Rightarrow> conversation_id list \<times> app_state \<Rightarrow> conversation_id list \<times> app_state" where
  "drop_network n acc =
     (let (removed, s) = remove_conversations n (snd acc)
      in (fst acc @ removed,
          s\<lparr>as_statuses := AList.delete n (as_statuses s),
            as_server_messages := AList.delete n (as_server_messages s),
            as_system_messages := filter (\<lambda>(w, _). w \<noteq> n) (as_system_messages s),
            as_active_servers := removeAll n (as_active_servers s),
            ts_orders := AList.delete n (ts_orders s),
            ts_ranks := AList.delete n (ts_ranks s),
            ts_groups :=
              map (\<lambda>g. g\<lparr>cg_members := filter (\<lambda>m. gm_network m \<noteq> n) (cg_members g)\<rparr>) (ts_groups s)\<rparr>))"

definition default_status :: "network_config \<Rightarrow> app_state \<Rightarrow> app_state" where
  "default_status config s =
     (if map_of (as_statuses s) (nc_id config) = None
      then s\<lparr>as_statuses := AList.update (nc_id config) NOT_CONNECTED (as_statuses s)\<rparr> else s)"

definition sync_networks ::
  "network_config list \<Rightarrow> app_state \<Rightarrow> conversation_id list \<times> app_state" where
  "sync_networks configs s =
     (let gone = filter (\<lambda>n. \<not> list_ex (\<lambda>k. nc_id k = n) configs) (map nw_id (ts_networks s));
          added = filter (\<lambda>k. \<not> known_network s (nc_id k)) configs;
          (removed, s) = fold drop_network gone ([], s);
          s = s\<lparr>ts_networks := map (\<lambda>k. \<lparr>nw_id = nc_id k, nw_name = nc_name k\<rparr>) configs\<rparr>;
          s = fold default_status configs s;
          s = sort_conversations s;
          s = fold (\<lambda>k. ensure_channels (nc_id k) (nc_channels k)) added s
      in (removed, repair_selection s))"

text \<open>The first of the configured channels that could be opened.\<close>

definition open_configured ::
  "network_id \<Rightarrow> rstring \<Rightarrow> conversation_id option \<times> app_state \<Rightarrow> conversation_id option \<times> app_state"
  where
  "open_configured n name acc =
     (let (i, s) = ensure_configured_channel n name (snd acc)
      in (case fst acc of None \<Rightarrow> i | Some k \<Rightarrow> Some k, s))"

definition reset_network ::
  "network_id \<Rightarrow> rstring list \<Rightarrow> app_state \<Rightarrow> (conversation_id list \<times> app_state) option" where
  "reset_network n channels s =
     (if \<not> known_network s n then Some ([], s)
      else
        (case selected_network s of
           None \<Rightarrow> None
         | Some sel \<Rightarrow>
             (let here = (map_option nw_id sel = Some n);
                  (removed, s) = remove_conversations n s;
                  s = s\<lparr>as_server_messages := AList.delete n (as_server_messages s),
                        as_system_messages := filter (\<lambda>(w, _). w \<noteq> n) (as_system_messages s),
                        as_active_servers := removeAll n (as_active_servers s),
                        as_statuses := AList.update n Connecting (as_statuses s)\<rparr>;
                  (found, s) = fold (open_configured n) channels (None, s);
                  s = (if here
                       then s\<lparr>ts_selected := (case found of Some i \<Rightarrow> SelChannel i | None \<Rightarrow> SelServer n)\<rparr>
                       else s)
              in Some (removed, repair_selection s))))"

section \<open>Connection status\<close>

definition usable_private :: "network_id \<Rightarrow> conversation \<Rightarrow> conversation_id list \<Rightarrow> conversation_id list" where
  "usable_private n c active =
     (if conv_network c = n \<and> conversation_is_private c then List.insert (conv_id c) active else active)"

definition end_session :: "network_id \<Rightarrow> conversation \<Rightarrow> app_state \<Rightarrow> app_state" where
  "end_session n c s =
     (if conv_network c = n
      then s\<lparr>as_active_channels := removeAll (conv_id c) (as_active_channels s),
             as_pending_history := AList.delete (conv_id c) (as_pending_history s),
             as_older := AList.delete (conv_id c) (as_older s)\<rparr>
      else s)"

definition set_status :: "network_id \<Rightarrow> connection_status \<Rightarrow> app_state \<Rightarrow> app_state" where
  "set_status n status s =
     (if \<not> known_network s n then s
      else
        (let s = (case status of
                    Registered \<Rightarrow>
                      s\<lparr>as_active_servers := List.insert n (as_active_servers s),
                        as_active_channels :=
                          fold (usable_private n) (ts_conversations s) (as_active_channels s)\<rparr>
                  | Disconnected _ \<Rightarrow>
                      (let could_page = (n \<in> set (as_history_paging s));
                           s = s\<lparr>as_active_servers := removeAll n (as_active_servers s),
                                 as_history_paging := removeAll n (as_history_paging s)\<rparr>;
                           s = cut_off_channels n could_page s;
                           s = fold (end_session n) (ts_conversations s) s
                       in s\<lparr>ts_conversations :=
                              map (\<lambda>c. if conv_network c = n then c\<lparr>conv_members := [], conv_modes := None\<rparr>
                                       else c) (ts_conversations s)\<rparr>)
                  | _ \<Rightarrow> s)
         in s\<lparr>as_statuses := AList.update n status (as_statuses s)\<rparr>))"

text \<open>The channels of a network are keyed again, the first one of each folded name.\<close>

definition index_channel :: "network_id \<Rightarrow> case_mapping \<Rightarrow> conversation \<Rightarrow>
    (network_id \<times> rstring, conversation_id) hmap \<Rightarrow> (network_id \<times> rstring, conversation_id) hmap" where
  "index_channel n mapping c ids =
     (let key = (n, cm_fold mapping (conv_name c))
      in if conv_network c = n \<and> conv_kind c = Channel \<and> map_of ids key = None
         then AList.update key (conv_id c) ids else ids)"

definition set_casemapping :: "network_id \<Rightarrow> case_mapping \<Rightarrow> app_state \<Rightarrow> app_state" where
  "set_casemapping n mapping s =
     s\<lparr>as_casemappings :=
         (if mapping = default_mapping then AList.delete n (as_casemappings s)
          else AList.update n mapping (as_casemappings s)),
       as_channel_ids :=
         fold (index_channel n mapping) (ts_conversations s)
           (filter (\<lambda>((w, _), _). w \<noteq> n) (as_channel_ids s))\<rparr>"

section \<open>Private conversations\<close>

definition private_count :: "app_state \<Rightarrow> network_id \<Rightarrow> nat" where
  "private_count s n =
     length (filter (\<lambda>c. conv_network c = n \<and> conversation_is_private c) (ts_conversations s))"

definition private_conversation ::
  "network_id \<Rightarrow> rstring \<Rightarrow> rstring \<Rightarrow> missing \<Rightarrow> app_state \<Rightarrow> conversation_id option \<times> app_state" where
  "private_conversation n peer_key name missing s =
     (case private_id s n peer_key of
        Some i \<Rightarrow>
          (Some i,
           conversation_mut i (\<lambda>c. if conv_name c \<noteq> name then c\<lparr>conv_name := name\<rparr> else c) s)
      | None \<Rightarrow>
          (if missing = IgnoreMissing \<or> MAX_PRIVATE_CONVERSATIONS_PER_NETWORK \<le> private_count s n
           then (None, s)
           else
             (let (added, s) = add_conversation n (Private peer_key) name s
              in case added of
                   None \<Rightarrow> (None, s)
                 | Some i \<Rightarrow>
                     (Some i,
                      if status_of s n = Some Registered
                      then s\<lparr>as_active_channels := List.insert i (as_active_channels s)\<rparr> else s))))"

definition rename_private ::
  "network_id \<Rightarrow> rstring \<Rightarrow> rstring \<Rightarrow> rstring \<Rightarrow> app_state \<Rightarrow> conversation_id option \<times> app_state" where
  "rename_private n from_key to_key to_name s =
     (case private_id s n from_key of
        None \<Rightarrow> (None, s)
      | Some i \<Rightarrow>
          (if from_key \<noteq> to_key \<and> private_id s n to_key \<noteq> None then (None, s)
           else
             (Some i,
              conversation_mut i (\<lambda>c. c\<lparr>conv_kind := Private to_key, conv_name := to_name\<rparr>) s)))"

definition close_private :: "conversation_id \<Rightarrow> app_state \<Rightarrow> bool \<times> app_state" where
  "close_private i s =
     (case position (\<lambda>c. conv_id c = i \<and> conversation_is_private c) (ts_conversations s) of
        None \<Rightarrow> (False, s)
      | Some k \<Rightarrow>
          (let n = conv_network (ts_conversations s ! k);
               s = s\<lparr>ts_conversations := remove_at k (ts_conversations s),
                     as_attention := filter (\<lambda>(c, _). c \<noteq> i) (as_attention s)\<rparr>
           in (True, forget_conversation n i s)))"

section \<open>Channels\<close>

definition app_joined_channel :: "network_id \<Rightarrow> rstring \<Rightarrow> app_state \<Rightarrow> app_state" where
  "app_joined_channel n name s =
     (let (found, s) = ensure_channel n name s
      in case found of
           None \<Rightarrow> s
         | Some i \<Rightarrow>
             conversation_mut i (\<lambda>c. c\<lparr>conv_modes := None\<rparr>)
               (s\<lparr>as_active_channels := List.insert i (as_active_channels s)\<rparr>))"

definition set_channel_modes :: "network_id \<Rightarrow> rstring \<Rightarrow> rstring \<Rightarrow> app_state \<Rightarrow> app_state" where
  "set_channel_modes n name modes s =
     (case channel_id s n name of
        None \<Rightarrow> s
      | Some i \<Rightarrow>
          (if i \<in> set (as_active_channels s)
           then conversation_mut i (\<lambda>c. c\<lparr>conv_modes := Some modes\<rparr>) s else s))"

definition parted_channel :: "network_id \<Rightarrow> rstring \<Rightarrow> app_state \<Rightarrow> app_state" where
  "parted_channel n name s =
     (case channel_id s n name of
        None \<Rightarrow> s
      | Some i \<Rightarrow>
          conversation_mut i (\<lambda>c. c\<lparr>conv_members := [], conv_modes := None\<rparr>)
            (s\<lparr>as_active_channels := removeAll i (as_active_channels s),
               as_older := AList.delete i (as_older s),
               as_resume := AList.delete i (as_resume s)\<rparr>))"

definition MEMBER_PREFIXES :: rstring where "MEMBER_PREFIXES = lit ''~&@%+''"
definition OPERATOR_PREFIXES :: rstring where "OPERATOR_PREFIXES = lit ''~&@%''"

definition member_key :: "(rstring \<Rightarrow> rstring) \<Rightarrow> rstring \<Rightarrow> bool \<times> rstring \<times> rstring" where
  "member_key lower member =
     (let nickname = trim_start_matches MEMBER_PREFIXES member
      in (\<not> starts_with_any OPERATOR_PREFIXES member, lower nickname, nickname))"

definition sorted_members :: "(rstring \<Rightarrow> rstring) \<Rightarrow> rstring list \<Rightarrow> rstring list" where
  "sorted_members lower members =
     sort_key (member_key lower)
       (filter (\<lambda>m. trim_start_matches MEMBER_PREFIXES m \<noteq> []) members)"

definition set_members ::
  "(rstring \<Rightarrow> rstring) \<Rightarrow> network_id \<Rightarrow> rstring \<Rightarrow> rstring list \<Rightarrow> app_state \<Rightarrow> app_state" where
  "set_members lower n name members s =
     (case channel_id s n name of
        None \<Rightarrow> s
      | Some i \<Rightarrow> conversation_mut i (\<lambda>c. c\<lparr>conv_members := sorted_members lower members\<rparr>) s)"

definition set_topic :: "network_id \<Rightarrow> rstring \<Rightarrow> rstring \<Rightarrow> app_state \<Rightarrow> app_state" where
  "set_topic n name topic s =
     (case channel_id s n name of
        None \<Rightarrow> s
      | Some i \<Rightarrow> conversation_mut i (\<lambda>c. c\<lparr>conv_topic := neutralize_bidi topic\<rparr>) s)"

definition append_requested_join_alert_at ::
  "outside \<Rightarrow> network_id \<Rightarrow> rstring \<Rightarrow> rstring \<Rightarrow> message_meta \<Rightarrow> app_state \<Rightarrow> app_state" where
  "append_requested_join_alert_at o' n name body meta s =
     (let (found, s) = ensure_channel n name s
      in if found \<noteq> None then append_channel_alert_at o' n name body meta s else s)"

end
