(* ===== verification/Arrangement.thy ===== *)
theory Arrangement
  imports Session ChannelTree
begin

text \<open>
  The list of conversations of \<open>Session\<close>: identifiers are unique and never reused, every conversation
  belongs to a known network, each network's conversations stand together in network order with
  channels before private conversations, and the index by folded name is that of the list.
\<close>

section \<open>Stable sorting\<close>

lemma sort_key_stable_wrt:
  assumes "sorted_wrt P xs"
  shows "sorted_wrt (\<lambda>x y. f x < f y \<or> f x = f y \<and> P x y) (sort_key f xs)"
  using assms
proof (induction xs)
  case (Cons x xs)
  let ?R = "\<lambda>x y. f x < f y \<or> f x = f y \<and> P x y"
  have "sorted_wrt ?R (insort_key f x ys)" if "sorted_wrt ?R ys" "\<forall>y \<in> set ys. P x y" for ys
    using that by (induction ys) (auto simp: set_insort_key)
  moreover have "\<forall>y \<in> set (sort_key f xs). P x y" using Cons.prems by simp
  ultimately show ?case using Cons by simp
qed simp

text \<open>Inserting where everything before is at most, and everything after at least, the new key.\<close>

lemma sorted_insert_at:
  assumes "sorted (map f xs)" and "\<forall>x \<in> set (take k xs). f x \<le> f y" and "\<forall>x \<in> set (drop k xs). f y \<le> f x"
  shows "sorted (map f (insert_at k y xs))"
proof -
  have "sorted (map f (take k xs) @ map f (drop k xs))" using assms(1) by (simp flip: map_append)
  then show ?thesis using assms(2,3) unfolding insert_at_def by (auto simp: sorted_append)
qed

lemma sorted_take_drop:
  assumes "sorted (map f xs)" "k < length xs"
  shows "\<forall>x \<in> set (take k xs). f x \<le> f (xs ! k)" "\<forall>x \<in> set (drop k xs). f (xs ! k) \<le> f x"
proof -
  have split: "xs = take k xs @ xs ! k # drop (Suc k) xs" using assms(2) by (rule id_take_nth_drop)
  then have s: "sorted (map f (take k xs @ xs ! k # drop (Suc k) xs))" using assms(1) by simp
  then show "\<forall>x \<in> set (take k xs). f x \<le> f (xs ! k)" unfolding map_append sorted_append by auto
  have "drop k xs = xs ! k # drop (Suc k) xs" using assms(2) by (simp add: Cons_nth_drop_Suc)
  then show "\<forall>x \<in> set (drop k xs). f (xs ! k) \<le> f x" using s unfolding map_append sorted_append by auto
qed

lemma last_position_Some:
  "last_position P xs = Some k \<Longrightarrow>
     k < length xs \<and> P (xs ! k) \<and> (\<forall>x \<in> set (drop (Suc k) xs). \<not> P x)"
proof -
  assume "last_position P xs = Some k"
  then obtain j where j: "position P (rev xs) = Some j" "k = length xs - 1 - j"
    by (auto simp: last_position_def)
  have p: "j < length xs" "P (rev xs ! j)" "\<forall>i < j. \<not> P (rev xs ! i)"
    using j(1) by (auto simp: position_Some)
  have "\<not> P (xs ! i)" if "Suc k \<le> i" "i < length xs" for i
    using p(3) [THEN spec, of "length xs - 1 - i"] that p(1) j(2) by (simp add: rev_nth)
  then have "\<forall>x \<in> set (drop (Suc k) xs). \<not> P x"
    by (auto simp: in_set_conv_nth)
  then show ?thesis using p(1,2) j(2) by (simp add: rev_nth)
qed

lemma last_position_None: "last_position P xs = None \<longleftrightarrow> (\<forall>x \<in> set xs. \<not> P x)"
  by (simp add: last_position_def position_None)

section \<open>The invariant\<close>

definition places :: "network list \<Rightarrow> network_id \<Rightarrow> nat" where
  "places nets n = (case position (\<lambda>w. nw_id w = n) nets of Some k \<Rightarrow> k | None \<Rightarrow> USIZE_MAX)"

definition slot_key :: "network list \<Rightarrow> conversation \<Rightarrow> nat" where
  "slot_key nets c = 2 * places nets (conv_network c) + (if conversation_is_private c then 1 else 0)"

definition conversation_number :: "conversation_id \<Rightarrow> nat" where
  "conversation_number i = (case i of ConversationId k \<Rightarrow> unat k)"

definition list_ok :: "network list \<Rightarrow> 32 word \<Rightarrow> conversation list \<Rightarrow> bool" where
  "list_ok nets upcoming cs \<longleftrightarrow>
     distinct (map conv_id cs) \<and> (\<forall>c \<in> set cs. conversation_number (conv_id c) < unat upcoming)
     \<and> (\<forall>c \<in> set cs. conv_network c \<in> nw_id ` set nets)
     \<and> sorted (map (slot_key nets) cs)
     \<and> (\<forall>n. length (filter (\<lambda>c. conv_network c = n) cs) \<le> MAX_CONVERSATIONS_PER_NETWORK)
     \<and> (\<forall>n. length (filter (\<lambda>c. conv_network c = n \<and> conversation_is_private c) cs)
            \<le> MAX_PRIVATE_CONVERSATIONS_PER_NETWORK)"

definition mapping_of :: "(network_id, case_mapping) hmap \<Rightarrow> network_id \<Rightarrow> case_mapping" where
  "mapping_of cms n = (case map_of cms n of Some m \<Rightarrow> m | None \<Rightarrow> default_mapping)"

definition index_ok ::
  "(network_id, case_mapping) hmap \<Rightarrow> (network_id \<times> rstring, conversation_id) hmap \<Rightarrow> conversation list \<Rightarrow> bool"
  where
  "index_ok cms ids cs \<longleftrightarrow>
     (\<forall>n k i. map_of ids (n, k) = Some i \<longrightarrow>
        (\<exists>c \<in> set cs. conv_id c = i \<and> conv_network c = n \<and> conv_kind c = Channel
           \<and> cm_fold (mapping_of cms n) (conv_name c) = k))
     \<and> (\<forall>c \<in> set cs. conv_kind c = Channel \<longrightarrow>
          map_of ids (conv_network c, cm_fold (mapping_of cms (conv_network c)) (conv_name c)) \<noteq> None)"

definition selection_ok :: "network list \<Rightarrow> conversation list \<Rightarrow> selection \<Rightarrow> bool" where
  "selection_ok nets cs sel \<longleftrightarrow>
     (case sel of SelServer n \<Rightarrow> n \<in> nw_id ` set nets
      | SelChannel i \<Rightarrow> i \<in> conv_id ` set cs
      | SelNone \<Rightarrow> nets = [])"

definition marks_ok :: "conversation list \<Rightarrow> conversation_id set \<Rightarrow> bool" where
  "marks_ok cs marks \<longleftrightarrow> marks \<subseteq> conv_id ` set cs"

definition marks :: "app_state \<Rightarrow> conversation_id set" where
  "marks s = set (ts_unread s) \<union> set (ts_highlighted s) \<union> set (as_active_channels s)
     \<union> fst ` set (as_attention s)"

text \<open>A conversation without its contents.\<close>

definition head :: "conversation \<Rightarrow> conversation" where
  "head c = new_conversation (conv_id c) (conv_network c) (conv_kind c) (conv_name c)"

lemma head_simps [simp]:
  "conv_id (head c) = conv_id c" "conv_network (head c) = conv_network c"
  "conv_kind (head c) = conv_kind c" "conv_name (head c) = conv_name c"
  "conversation_is_private (head c) = conversation_is_private c"
  by (simp_all add: head_def new_conversation_def conversation_is_private_def)

definition heads :: "app_state \<Rightarrow> conversation list" where
  "heads s = map head (ts_conversations s)"

definition list_inv :: "app_state \<Rightarrow> bool" where
  "list_inv s \<longleftrightarrow>
     distinct (map nw_id (ts_networks s))
     \<and> list_ok (ts_networks s) (as_next_conversation s) (heads s)
     \<and> index_ok (as_casemappings s) (as_channel_ids s) (heads s)
     \<and> marks_ok (heads s) (marks s)"

definition app_inv :: "app_state \<Rightarrow> bool" where
  "app_inv s \<longleftrightarrow> list_inv s \<and> selection_ok (ts_networks s) (heads s) (ts_selected s)"

lemma list_ok_head [simp]: "list_ok nets k (map head cs) = list_ok nets k cs"
  by (simp add: list_ok_def o_def filter_map slot_key_def [abs_def])

lemma index_ok_head [simp]: "index_ok cms ids (map head cs) = index_ok cms ids cs"
  by (simp add: index_ok_def)

lemma selection_ok_head [simp]: "selection_ok nets (map head cs) sel = selection_ok nets cs sel"
  by (simp add: selection_ok_def image_image split: selection.split)

lemma marks_ok_head [simp]: "marks_ok (map head cs) m = marks_ok cs m"
  by (simp add: marks_ok_def image_image)

lemma list_inv_iff:
  "list_inv s \<longleftrightarrow>
     distinct (map nw_id (ts_networks s))
     \<and> list_ok (ts_networks s) (as_next_conversation s) (ts_conversations s)
     \<and> index_ok (as_casemappings s) (as_channel_ids s) (ts_conversations s)
     \<and> marks_ok (ts_conversations s) (marks s)"
  by (simp add: list_inv_def heads_def)

text \<open>What only changes contents, or removes marks, keeps the invariant.\<close>

lemma list_inv_same:
  assumes "list_inv s" "heads t = heads s" "ts_networks t = ts_networks s"
    "as_next_conversation t = as_next_conversation s" "as_casemappings t = as_casemappings s"
    "as_channel_ids t = as_channel_ids s" "marks t \<subseteq> conv_id ` set (heads s)"
  shows "list_inv t"
  using assms unfolding list_inv_def by (simp add: marks_ok_def)

lemma app_inv_same:
  assumes "app_inv s" "heads t = heads s" "ts_networks t = ts_networks s"
    "as_next_conversation t = as_next_conversation s" "as_casemappings t = as_casemappings s"
    "as_channel_ids t = as_channel_ids s" "marks t \<subseteq> conv_id ` set (heads s)"
    "selection_ok (ts_networks s) (heads s) (ts_selected t)"
  shows "app_inv t"
  using assms list_inv_same [of s t] unfolding app_inv_def by simp

lemma known_network_iff: "known_network s n \<longleftrightarrow> n \<in> nw_id ` set (ts_networks s)"
  by (auto simp: known_network_def list_ex_iff)

lemma network_place_places: "network_place s n = places (ts_networks s) n"
  by (simp add: network_place_def places_def)

lemma casemapping_of_mapping: "casemapping_of s n = mapping_of (as_casemappings s) n"
  by (simp add: casemapping_of_def mapping_of_def)

lemma places_inj:
  assumes "distinct (map nw_id nets)" "n \<in> nw_id ` set nets" "m \<in> nw_id ` set nets" "places nets n = places nets m"
  shows "n = m"
proof -
  obtain j where j: "position (\<lambda>w. nw_id w = n) nets = Some j"
    using assms(2) position_None [of "\<lambda>w. nw_id w = n" nets] by (cases "position (\<lambda>w. nw_id w = n) nets") auto
  obtain k where k: "position (\<lambda>w. nw_id w = m) nets = Some k"
    using assms(3) position_None [of "\<lambda>w. nw_id w = m" nets] by (cases "position (\<lambda>w. nw_id w = m) nets") auto
  have "j = k" using assms(4) j k by (simp add: places_def)
  then show ?thesis using j k by (auto simp: position_Some)
qed


section \<open>Adding a conversation\<close>

definition key_at :: "network list \<Rightarrow> network_id \<Rightarrow> bool \<Rightarrow> nat" where
  "key_at nets n private = 2 * places nets n + (if private then 1 else 0)"

lemma slot_key_at: "slot_key nets c = key_at nets (conv_network c) (conversation_is_private c)"
  by (simp add: slot_key_def key_at_def)

lemma key_order:
  assumes "distinct (map nw_id nets)" "n \<in> nw_id ` set nets" "conv_network c \<in> nw_id ` set nets"
    and "conv_network c \<noteq> n"
  shows "slot_key nets c < 2 * places nets n \<or> 2 * places nets n + 1 < slot_key nets c"
proof -
  have "places nets (conv_network c) \<noteq> places nets n" using places_inj [OF assms(1,3,2)] assms(4) by blast
  then show ?thesis by (auto simp: slot_key_def)
qed

lemma conversation_slot_between:
  assumes nets: "distinct (map nw_id (ts_networks s))" and ok: "list_ok (ts_networks s) k (ts_conversations s)"
    and n: "n \<in> nw_id ` set (ts_networks s)"
  shows "\<forall>c \<in> set (take (conversation_slot s n private) (ts_conversations s)).
      slot_key (ts_networks s) c \<le> key_at (ts_networks s) n private"
    and "\<forall>c \<in> set (drop (conversation_slot s n private) (ts_conversations s)).
      key_at (ts_networks s) n private \<le> slot_key (ts_networks s) c"
proof -
  let ?cs = "ts_conversations s" and ?nets = "ts_networks s" and ?K = "key_at (ts_networks s) n private"
  let ?key = "slot_key ?nets" and ?p = "places ?nets n"
  let ?P = "\<lambda>c. conv_network c = n \<and> (private \<or> \<not> conversation_is_private c)"
  have sorted: "sorted (map ?key ?cs)" and known: "\<And>c. c \<in> set ?cs \<Longrightarrow> conv_network c \<in> nw_id ` set ?nets"
    using ok by (auto simp: list_ok_def)
  have order: "?key c < 2 * ?p \<or> 2 * ?p + 1 < ?key c" if "c \<in> set ?cs" "conv_network c \<noteq> n" for c
    using key_order [OF nets n known [OF that(1)] that(2)] .
  have K: "2 * ?p \<le> ?K" "?K \<le> 2 * ?p + 1" by (simp_all add: key_at_def)
  have between: "(\<forall>c \<in> set (take (conversation_slot s n private) ?cs). ?key c \<le> ?K)
    \<and> (\<forall>c \<in> set (drop (conversation_slot s n private) ?cs). ?K \<le> ?key c)"
  proof (cases "last_position ?P ?cs")
    case (Some j)
    then have slot: "conversation_slot s n private = Suc j" by (simp add: conversation_slot_def Let_def)
    from last_position_Some [OF Some] have j: "j < length ?cs" "?P (?cs ! j)"
      "\<forall>x \<in> set (drop (Suc j) ?cs). \<not> ?P x" by auto
    have kj: "?key (?cs ! j) \<le> ?K" "2 * ?p \<le> ?key (?cs ! j)" "\<not> private \<Longrightarrow> ?key (?cs ! j) = ?K"
      using j(2) by (auto simp: slot_key_def key_at_def)
    have "?key c \<le> ?K" if "c \<in> set (take (Suc j) ?cs)" for c
      using that sorted_take_drop(1) [OF sorted j(1)] kj(1) j(1) by (auto simp: take_Suc_conv_app_nth)
    moreover have "?K \<le> ?key c" if c: "c \<in> set (drop (Suc j) ?cs)" for c
    proof -
      have "c \<in> set (drop j ?cs)" using c set_drop_subset_set_drop [of j "Suc j" ?cs] by auto
      then have ge: "?key (?cs ! j) \<le> ?key c" using sorted_take_drop(2) [OF sorted j(1)] by blast
      show ?thesis
      proof (cases "private")
        case True
        then have "conv_network c \<noteq> n" using j(3) c by auto
        then show ?thesis using order [of c] in_set_dropD [OF c] ge kj K by linarith
      qed (use ge kj(3) in simp)
    qed
    ultimately show ?thesis unfolding slot by blast
  next
    case None
    then have none: "\<forall>c \<in> set ?cs. \<not> ?P c" by (simp add: last_position_None)
    show ?thesis
    proof (cases "position (\<lambda>c. conv_network c = n) ?cs")
      case (Some j)
      then have slot: "conversation_slot s n private = j" using None by (simp add: conversation_slot_def Let_def)
      have j: "j < length ?cs" "conv_network (?cs ! j) = n" "\<forall>i < j. conv_network (?cs ! i) \<noteq> n"
        using Some by (auto simp: position_Some)
      have kj: "?key (?cs ! j) = 2 * ?p + 1" using none j by (auto simp: slot_key_def)
      have "?key c \<le> ?K" if c: "c \<in> set (take j ?cs)" for c
      proof -
        have "conv_network c \<noteq> n" using c j(3) by (auto simp: in_set_conv_nth)
        then show ?thesis
          using order [of c] in_set_takeD [OF c] sorted_take_drop(1) [OF sorted j(1)] c kj K by fastforce
      qed
      then show ?thesis unfolding slot using sorted_take_drop(2) [OF sorted j(1)] kj K by fastforce
    next
      case no: None
      then have other: "\<And>c. c \<in> set ?cs \<Longrightarrow> conv_network c \<noteq> n" by (auto simp: position_None)
      let ?after = "\<lambda>c. network_place s n < network_place s (conv_network c)"
      have less: "?key c \<le> ?K" if "c \<in> set ?cs" "\<not> ?after c" for c
      proof -
        have "?key c \<le> 2 * ?p + 1" using that(2) by (auto simp: network_place_places slot_key_def)
        then show ?thesis using order [OF that(1) other [OF that(1)]] K by linarith
      qed
      show ?thesis
      proof (cases "position ?after ?cs")
        case (Some j)
        then have slot: "conversation_slot s n private = j" using None no by (simp add: conversation_slot_def Let_def)
        have j: "j < length ?cs" "?after (?cs ! j)" "\<forall>i < j. \<not> ?after (?cs ! i)"
          using Some by (auto simp: position_Some)
        have "?K \<le> ?key (?cs ! j)" using j(2) K by (auto simp: network_place_places slot_key_def)
        moreover have "?key c \<le> ?K" if "c \<in> set (take j ?cs)" for c
          using less [of c] in_set_takeD [OF that] that j(3) by (auto simp: in_set_conv_nth)
        ultimately show ?thesis unfolding slot using sorted_take_drop(2) [OF sorted j(1)] by fastforce
      next
        case last: None
        then have "conversation_slot s n private = length ?cs"
          using None no by (simp add: conversation_slot_def Let_def)
        then show ?thesis using less last by (auto simp: position_None)
      qed
    qed
  qed
  show "\<forall>c \<in> set (take (conversation_slot s n private) ?cs). ?key c \<le> ?K"
    and "\<forall>c \<in> set (drop (conversation_slot s n private) ?cs). ?K \<le> ?key c"
    using between by blast+
qed


definition insertion_slot :: "app_state \<Rightarrow> network_id \<Rightarrow> bool \<Rightarrow> rstring \<Rightarrow> nat" where
  "insertion_slot s n private name =
     (let index = conversation_slot s n private
      in case position (\<lambda>c. conv_network c = n \<and> \<not> conversation_is_private c) (ts_conversations s) of
           Some start \<Rightarrow> (if private then index else channel_slot s n name start index)
         | None \<Rightarrow> index)"

lemma channel_slot_range:
  assumes "start \<le> until"
  shows "start \<le> channel_slot s n name start until \<and> channel_slot s n name start until \<le> until"
proof -
  have "length (takeWhile P (take (until - start) xs)) \<le> until - start" for P and xs :: "conversation list"
    using length_takeWhile_le [of P "take (until - start) xs"] by simp
  then have "start + length (takeWhile P (take (until - start) xs)) \<le> until" for P and xs :: "conversation list"
    using assms by (simp add: le_diff_conv2 add.commute)
  then show ?thesis using assms by (cases "map_of (ts_ranks s) n") (simp_all add: channel_slot_def)
qed

lemma insertion_slot_between:
  assumes nets: "distinct (map nw_id (ts_networks s))" and ok: "list_ok (ts_networks s) k (ts_conversations s)"
    and n: "n \<in> nw_id ` set (ts_networks s)"
  shows "\<forall>c \<in> set (take (insertion_slot s n private name) (ts_conversations s)).
      slot_key (ts_networks s) c \<le> key_at (ts_networks s) n private"
    and "\<forall>c \<in> set (drop (insertion_slot s n private name) (ts_conversations s)).
      key_at (ts_networks s) n private \<le> slot_key (ts_networks s) c"
proof -
  let ?cs = "ts_conversations s" and ?K = "key_at (ts_networks s) n private" and ?key = "slot_key (ts_networks s)"
  let ?Q = "\<lambda>c. conv_network c = n \<and> \<not> conversation_is_private c"
  let ?index = "conversation_slot s n private"
  note base = conversation_slot_between [OF nets ok n, of "private"]
  have "(\<forall>c \<in> set (take (insertion_slot s n private name) ?cs). ?key c \<le> ?K)
    \<and> (\<forall>c \<in> set (drop (insertion_slot s n private name) ?cs). ?K \<le> ?key c)"
  proof (cases "position ?Q ?cs")
    case None
    then show ?thesis using base by (simp add: insertion_slot_def Let_def)
  next
    case (Some start)
    show ?thesis
    proof (cases "private")
      case True
      then show ?thesis using base Some by (simp add: insertion_slot_def Let_def)
    next
      case False
      then have slot: "insertion_slot s n private name = channel_slot s n name start ?index"
        using Some by (simp add: insertion_slot_def Let_def)
      have start: "start < length ?cs" "?Q (?cs ! start)" using Some by (auto simp: position_Some)
      then have key: "?key (?cs ! start) = ?K" using False by (simp add: slot_key_def key_at_def)
      have "last_position ?Q ?cs \<noteq> None" using start by (auto simp: last_position_None)
      then obtain j where j: "last_position ?Q ?cs = Some j" by blast
      then have index: "?index = Suc j" using False by (simp add: conversation_slot_def Let_def)
      have "start \<le> j"
      proof (rule ccontr)
        assume "\<not> start \<le> j"
        then have "?cs ! start \<in> set (drop (Suc j) ?cs)"
          using start(1) by (auto simp: in_set_conv_nth intro!: exI [of _ "start - Suc j"])
        then show False using last_position_Some [OF j] start(2) by auto
      qed
      then have range: "start \<le> insertion_slot s n private name" "insertion_slot s n private name \<le> ?index"
        using channel_slot_range [of start ?index s n name] index slot by simp_all
      have "?key c \<le> ?K" if "c \<in> set (take (insertion_slot s n private name) ?cs)" for c
        using base(1) subsetD [OF set_take_subset_set_take [OF range(2)] that] by blast
      moreover have "?K \<le> ?key c" if "c \<in> set (drop (insertion_slot s n private name) ?cs)" for c
      proof -
        have "c \<in> set (drop start ?cs)" using subsetD [OF set_drop_subset_set_drop [OF range(1)] that] .
        moreover have "sorted (map ?key ?cs)" using ok by (simp add: list_ok_def)
        ultimately show ?thesis using sorted_take_drop(2) [of ?key ?cs start] start(1) key by fastforce
      qed
      ultimately show ?thesis by blast
    qed
  qed
  then show "\<forall>c \<in> set (take (insertion_slot s n private name) ?cs). ?key c \<le> ?K"
    and "\<forall>c \<in> set (drop (insertion_slot s n private name) ?cs). ?K \<le> ?key c" by blast+
qed

text \<open>What adding does, in one step.\<close>

definition added_state :: "network_id \<Rightarrow> conversation_kind \<Rightarrow> rstring \<Rightarrow> app_state \<Rightarrow> app_state" where
  "added_state n kind name s =
     (let i = ConversationId (as_next_conversation s);
          key = (n, cm_fold (casemapping_of s n) name)
      in s\<lparr>as_next_conversation := as_next_conversation s + 1,
           as_channel_ids :=
             (if kind = Channel \<and> map_of (as_channel_ids s) key = None
              then AList.update key i (as_channel_ids s) else as_channel_ids s),
           ts_conversations :=
             insert_at (insertion_slot s n (kind \<noteq> Channel) name) (new_conversation i n kind name)
               (ts_conversations s)\<rparr>)"

lemma add_cases:
  obtains (full) "add_conversation n kind name s = (None, s)"
      "\<not> known_network s n \<or> MAX_CONVERSATIONS_PER_NETWORK \<le> count_in s n"
  | (added) "add_conversation n kind name s = (Some (ConversationId (as_next_conversation s)), added_state n kind name s)"
      "n \<in> nw_id ` set (ts_networks s)" "count_in s n < MAX_CONVERSATIONS_PER_NETWORK"
proof (cases "\<not> known_network s n \<or> MAX_CONVERSATIONS_PER_NETWORK \<le> count_in s n")
  case True
  then show ?thesis using full by (auto simp: add_conversation_def)
next
  case False
  have conv: "conversation_slot (s\<lparr>as_next_conversation := k, as_channel_ids := ids\<rparr>) n p = conversation_slot s n p"
    "conversation_slot (s\<lparr>as_next_conversation := k\<rparr>) n p = conversation_slot s n p"
    "channel_slot (s\<lparr>as_next_conversation := k, as_channel_ids := ids\<rparr>) n = channel_slot s n"
    "channel_slot (s\<lparr>as_next_conversation := k\<rparr>) n = channel_slot s n"
    "casemapping_of (s\<lparr>as_next_conversation := k\<rparr>) n = casemapping_of s n" for k ids p
    by (simp_all add: conversation_slot_def network_place_def channel_slot_def casemapping_of_def fun_eq_iff
        Let_def cong: option.case_cong)
  have "add_conversation n kind name s = (Some (ConversationId (as_next_conversation s)), added_state n kind name s)"
    unfolding add_conversation_def if_not_P [OF False]
    by (cases "position (\<lambda>c. conv_network c = n \<and> \<not> conversation_is_private c) (ts_conversations s)";
        cases "kind = Channel";
        cases "map_of (as_channel_ids s) (n, cm_fold (casemapping_of s n) name)")
      (simp_all add: added_state_def insertion_slot_def Let_def conv)
  then show ?thesis using added False by (auto simp: known_network_iff)
qed


text \<open>Adding conversations: networks and selection stay, identifiers only grow.\<close>

definition grows :: "nat \<Rightarrow> app_state \<Rightarrow> app_state \<Rightarrow> bool" where
  "grows k s t \<longleftrightarrow> list_inv t \<and> ts_networks t = ts_networks s \<and> ts_selected t = ts_selected s
     \<and> conv_id ` set (ts_conversations s) \<subseteq> conv_id ` set (ts_conversations t)
     \<and> unat (as_next_conversation t) \<le> unat (as_next_conversation s) + k"

lemma grows_refl: "list_inv s \<Longrightarrow> grows k s s"
  by (simp add: grows_def)

lemma grows_trans: "grows j s t \<Longrightarrow> grows k t u \<Longrightarrow> grows (j + k) s u"
  unfolding grows_def by (auto intro: order_trans)

lemma unat_inc32: "k \<noteq> - 1 \<Longrightarrow> unat ((k :: 32 word) + 1) = Suc (unat k)"
  by (rule unat_inc)

lemma room_for_one: "unat (k :: 32 word) + 1 < 2 ^ 32 \<Longrightarrow> k \<noteq> - 1"
  by (auto simp: unat_max)

lemma sorted_slot_head: "sorted (map (slot_key nets) (map head cs)) = sorted (map (slot_key nets) cs)"
  by (simp add: o_def slot_key_def [abs_def])

lemma length_filter_insert:
  "length (filter P (insert_at k x xs)) = length (filter P xs) + (if P x then 1 else 0)"
proof -
  have "filter P xs = filter P (take k xs) @ filter P (drop k xs)"
    by (metis append_take_drop_id filter_append)
  then show ?thesis by (simp add: insert_at_def)
qed

lemma distinct_map_insert: "distinct (map f (insert_at k x xs)) \<longleftrightarrow> f x \<notin> f ` set xs \<and> distinct (map f xs)"
proof -
  have "mset (map f (insert_at k x xs)) = mset (f x # map f xs)" by simp
  then have "distinct (map f (insert_at k x xs)) = distinct (f x # map f xs)"
    using mset_eq_imp_distinct_iff by blast
  then show ?thesis by simp
qed

lemma list_ok_insert:
  assumes ok: "list_ok nets k cs" and n: "n \<in> nw_id ` set nets" and k: "k \<noteq> - 1"
    and room: "length (filter (\<lambda>c. conv_network c = n) cs) < MAX_CONVERSATIONS_PER_NETWORK"
    and private_room: "kind = Channel
      \<or> length (filter (\<lambda>c. conv_network c = n \<and> conversation_is_private c) cs) < MAX_PRIVATE_CONVERSATIONS_PER_NETWORK"
    and slot: "\<forall>c \<in> set (take at' cs). slot_key nets c \<le> key_at nets n (kind \<noteq> Channel)"
      "\<forall>c \<in> set (drop at' cs). key_at nets n (kind \<noteq> Channel) \<le> slot_key nets c"
  shows "list_ok nets (k + 1) (insert_at at' (new_conversation (ConversationId k) n kind name) cs)"
proof -
  let ?c = "new_conversation (ConversationId k) n kind name"
  have priv: "conversation_is_private ?c \<longleftrightarrow> kind \<noteq> Channel"
    by (cases kind) (simp_all add: new_conversation_def conversation_is_private_def)
  have c: "conv_id ?c = ConversationId k" "conv_network ?c = n" by (simp_all add: new_conversation_def)
  have key: "slot_key nets ?c = key_at nets n (kind \<noteq> Channel)" by (simp add: slot_key_at c priv)
  have num: "conversation_number (ConversationId k) = unat k" by (simp add: conversation_number_def)
  have old: "distinct (map conv_id cs)" "\<forall>c \<in> set cs. conversation_number (conv_id c) < unat k"
    "\<forall>c \<in> set cs. conv_network c \<in> nw_id ` set nets" "sorted (map (slot_key nets) cs)"
    "\<forall>n. length (filter (\<lambda>c. conv_network c = n) cs) \<le> MAX_CONVERSATIONS_PER_NETWORK"
    "\<forall>n. length (filter (\<lambda>c. conv_network c = n \<and> conversation_is_private c) cs)
            \<le> MAX_PRIVATE_CONVERSATIONS_PER_NETWORK"
    using ok by (auto simp: list_ok_def)
  have "ConversationId k \<notin> conv_id ` set cs" using old(2) num by fastforce
  moreover have "sorted (map (slot_key nets) (insert_at at' ?c cs))"
    using slot by (intro sorted_insert_at [OF old(4)]) (auto simp: key)
  moreover have "\<forall>c \<in> set cs. conversation_number (conv_id c) < unat (k + 1)" "unat k < unat (k + 1)"
    using old(2) unat_inc32 [OF k] by (auto intro: less_SucI)
  moreover have "length (filter (\<lambda>c. conv_network c = m) cs) + (if n = m then 1 else 0) \<le> MAX_CONVERSATIONS_PER_NETWORK" for m
    using old(5) room by (cases "n = m") auto
  moreover have "length (filter (\<lambda>c. conv_network c = m \<and> conversation_is_private c) cs)
      + (if n = m \<and> kind \<noteq> Channel then 1 else 0) \<le> MAX_PRIVATE_CONVERSATIONS_PER_NETWORK" for m
    using old(6) private_room by (cases "n = m") auto
  ultimately show ?thesis
    using old(1,3) n by (simp add: list_ok_def distinct_map_insert length_filter_insert c priv num)
qed

lemma index_ok_insert:
  assumes ok: "index_ok cms ids cs" and new: "conv_id c = i" "conv_network c = n" "conv_kind c = kind" "conv_name c = name"
  shows "index_ok cms (if kind = Channel \<and> map_of ids (n, cm_fold (mapping_of cms n) name) = None
      then AList.update (n, cm_fold (mapping_of cms n) name) i ids else ids) (insert_at k c cs)"
  using ok unfolding index_ok_def
  by (auto simp: new update_conv' split: if_splits)

lemma add_inv:
  assumes inv: "list_inv s" and room: "unat (as_next_conversation s) + 1 < 2 ^ 32"
    and private_room: "kind = Channel \<or> private_count s n < MAX_PRIVATE_CONVERSATIONS_PER_NETWORK"
  shows "grows 1 s (snd (add_conversation n kind name s))"
    and "fst (add_conversation n kind name s) = Some i \<Longrightarrow>
      i \<in> conv_id ` set (ts_conversations (snd (add_conversation n kind name s)))"
proof -
  let ?t = "added_state n kind name s" and ?i = "ConversationId (as_next_conversation s)"
  note i = inv [unfolded list_inv_iff]
  have k: "as_next_conversation s \<noteq> - 1" using room by (rule room_for_one)
  have set_t: "set (ts_conversations ?t) = insert (new_conversation ?i n kind name) (set (ts_conversations s))"
    by (simp add: added_state_def Let_def)
  have "grows 1 s ?t" if n: "n \<in> nw_id ` set (ts_networks s)" "count_in s n < MAX_CONVERSATIONS_PER_NETWORK"
  proof -
    have "list_ok (ts_networks ?t) (as_next_conversation ?t) (ts_conversations ?t)"
      using i n k private_room insertion_slot_between [of s, OF _ _ n(1), of _ "kind \<noteq> Channel" name]
      by (auto simp: added_state_def Let_def count_in_def private_count_def intro!: list_ok_insert)
    moreover have "index_ok (as_casemappings ?t) (as_channel_ids ?t) (ts_conversations ?t)"
      using index_ok_insert [of "as_casemappings s" "as_channel_ids s" "ts_conversations s"
          "new_conversation ?i n kind name" ?i n kind name] i
      by (simp add: added_state_def Let_def new_conversation_def casemapping_of_mapping)
    moreover have "marks ?t = marks s" by (simp add: marks_def added_state_def Let_def)
    then have "marks_ok (ts_conversations ?t) (marks ?t)" using i set_t by (auto simp: marks_ok_def)
    ultimately have "list_inv ?t" using i by (simp add: list_inv_iff added_state_def Let_def)
    then show ?thesis
      using set_t unat_inc32 [OF k] by (auto simp: grows_def) (simp_all add: added_state_def Let_def)
  qed
  then show "grows 1 s (snd (add_conversation n kind name s))"
    by (cases rule: add_cases [of n kind name s]) (auto simp: grows_refl [OF inv])
  show "i \<in> conv_id ` set (ts_conversations (snd (add_conversation n kind name s)))"
    if "fst (add_conversation n kind name s) = Some i"
    using that set_t by (cases rule: add_cases [of n kind name s]) (auto simp: new_conversation_def)
qed

end
