(* ===== verification/SessionInv.thy ===== *)
theory SessionInv
  imports Arrangement
begin

text \<open>Every operation of \<open>Session\<close> keeps the invariant of \<open>Arrangement\<close>.\<close>

section \<open>Opening channels\<close>

lemma ensure_configured_inv:
  assumes inv: "list_inv s" and room: "unat (as_next_conversation s) + 1 < 2 ^ 32"
  shows "grows 1 s (snd (ensure_configured_channel n name s))"
    and "fst (ensure_configured_channel n name s) = Some i \<Longrightarrow>
      i \<in> conv_id ` set (ts_conversations (snd (ensure_configured_channel n name s)))"
proof -
  let ?P = "\<lambda>c. conv_network c = n \<and> conv_kind c = Channel \<and> conv_name c = name"
  note add = add_inv [OF inv room, of Channel n name]
  show "grows 1 s (snd (ensure_configured_channel n name s))"
    using add(1) grows_refl [OF inv] by (simp add: ensure_configured_channel_def split: option.split)
  show "i \<in> conv_id ` set (ts_conversations (snd (ensure_configured_channel n name s)))"
    if i: "fst (ensure_configured_channel n name s) = Some i"
  proof (cases "List.find ?P (ts_conversations s)")
    case None
    then show ?thesis using add(2) i by (simp add: ensure_configured_channel_def)
  next
    case (Some c)
    then have "c \<in> set (ts_conversations s)" by (auto simp: find_Some_iff)
    then show ?thesis using Some i by (auto simp: ensure_configured_channel_def)
  qed
qed

lemma channel_id_present:
  assumes "list_inv s" "channel_id s n name = Some i"
  shows "\<exists>c \<in> set (ts_conversations s). conv_id c = i \<and> conv_network c = n \<and> conv_kind c = Channel
    \<and> cm_fold (casemapping_of s n) (conv_name c) = cm_fold (casemapping_of s n) name"
proof -
  have "map_of (as_channel_ids s) (n, cm_fold (mapping_of (as_casemappings s) n) name) = Some i"
    using assms(2) by (simp add: channel_id_def casemapping_of_mapping)
  then show ?thesis
    using assms(1) by (auto simp: list_inv_iff index_ok_def casemapping_of_mapping)
qed

lemma ensure_channel_inv:
  assumes inv: "list_inv s" and room: "unat (as_next_conversation s) + 1 < 2 ^ 32"
  shows "grows 1 s (snd (ensure_channel n name s))"
    and "fst (ensure_channel n name s) = Some i \<Longrightarrow>
      i \<in> conv_id ` set (ts_conversations (snd (ensure_channel n name s)))"
proof -
  note add = add_inv [OF inv room, of Channel n name]
  show "grows 1 s (snd (ensure_channel n name s))"
    using add(1) grows_refl [OF inv] by (simp add: ensure_channel_def split: option.split)
  show "i \<in> conv_id ` set (ts_conversations (snd (ensure_channel n name s)))"
    if i: "fst (ensure_channel n name s) = Some i"
  proof (cases "channel_id s n name")
    case None
    then show ?thesis using add(2) i by (simp add: ensure_channel_def)
  next
    case (Some j)
    then show ?thesis using channel_id_present [OF inv Some] i by (auto simp: ensure_channel_def)
  qed
qed

lemma fold_grows:
  assumes step: "\<And>x t. x \<in> set xs \<Longrightarrow> list_inv t \<Longrightarrow> unat (as_next_conversation t) + w x < 2 ^ 32 \<Longrightarrow> grows (w x) t (f x t)"
    and "list_inv s" "unat (as_next_conversation s) + sum_list (map w xs) < 2 ^ 32"
  shows "grows (sum_list (map w xs)) s (fold f xs s)"
  using assms
proof (induction xs arbitrary: s)
  case (Cons x xs)
  have g: "grows (w x) s (f x s)" using Cons.prems by simp
  then have "list_inv (f x s)" and "unat (as_next_conversation (f x s)) \<le> unat (as_next_conversation s) + w x"
    by (simp_all add: grows_def)
  then have "grows (sum_list (map w xs)) (f x s) (fold f xs (f x s))"
    using Cons.prems by (intro Cons.IH) auto
  then show ?case using grows_trans [OF g] by simp
qed (simp add: grows_refl)

lemma ensure_channels_inv:
  assumes "list_inv s" "unat (as_next_conversation s) + length names < 2 ^ 32"
  shows "grows (length names) s (ensure_channels n names s)"
  unfolding ensure_channels_def
  using fold_grows [of names "\<lambda>_. 1" "\<lambda>name s. snd (ensure_configured_channel n name s)" s]
    ensure_configured_inv(1) assms by (auto simp: sum_list_triv)

section \<open>Removing conversations\<close>

lemma forget_fold:
  "ts_conversations (fold (forget_conversation n) ids s) = ts_conversations s"
  "ts_networks (fold (forget_conversation n) ids s) = ts_networks s"
  "as_next_conversation (fold (forget_conversation n) ids s) = as_next_conversation s"
  "as_casemappings (fold (forget_conversation n) ids s) = as_casemappings s"
  "as_channel_ids (fold (forget_conversation n) ids s) = as_channel_ids s"
  "as_attention (fold (forget_conversation n) ids s) = as_attention s"
  "ts_unread (fold (forget_conversation n) ids s) = filter (\<lambda>i. i \<notin> set ids) (ts_unread s)"
  "ts_highlighted (fold (forget_conversation n) ids s) = filter (\<lambda>i. i \<notin> set ids) (ts_highlighted s)"
  "as_active_channels (fold (forget_conversation n) ids s) = filter (\<lambda>i. i \<notin> set ids) (as_active_channels s)"
  "ts_selected (fold (forget_conversation n) ids s) =
     (case ts_selected s of SelChannel i \<Rightarrow> if i \<in> set ids then SelServer n else SelChannel i | x \<Rightarrow> x)"
  by (induction ids arbitrary: s)
    (auto simp: forget_conversation_def removeAll_filter_not_eq intro!: filter_cong split: selection.split)

lemma map_of_filter_network:
  "map_of (filter (\<lambda>((w, _), _). w \<noteq> n) ids) (m, k) = (if m = n then None else map_of ids (m, k))"
  by (induction ids) auto

lemma list_ok_filter:
  assumes "list_ok nets k cs"
  shows "list_ok nets k (filter P cs)"
proof -
  have le: "length (filter Q (filter P cs)) \<le> length (filter Q cs)" for Q
    by (induction cs) auto
  show ?thesis using assms
    unfolding list_ok_def
    by (auto simp del: filter_filter intro: distinct_map_filter sorted_filter order_trans [OF le])
qed

lemma remove_inv:
  assumes inv: "list_inv s"
  shows "list_inv (snd (remove_conversations n s))"
    and "ts_networks (snd (remove_conversations n s)) = ts_networks s"
    and "ts_conversations (snd (remove_conversations n s)) = filter (\<lambda>c. conv_network c \<noteq> n) (ts_conversations s)"
    and "as_next_conversation (snd (remove_conversations n s)) = as_next_conversation s"
    and "fst (remove_conversations n s) = map conv_id (filter (\<lambda>c. conv_network c = n) (ts_conversations s))"
    and "selection_ok (ts_networks s) (ts_conversations s) (ts_selected s) \<Longrightarrow> n \<in> nw_id ` set (ts_networks s) \<Longrightarrow>
      selection_ok (ts_networks s) (filter (\<lambda>c. conv_network c \<noteq> n) (ts_conversations s))
        (ts_selected (snd (remove_conversations n s)))"
proof -
  let ?t = "snd (remove_conversations n s)" and ?cs = "filter (\<lambda>c. conv_network c \<noteq> n) (ts_conversations s)"
  let ?gone = "map conv_id (filter (\<lambda>c. conv_network c = n) (ts_conversations s))"
  note i = inv [unfolded list_inv_iff]
  show nets: "ts_networks ?t = ts_networks s" and convs: "ts_conversations ?t = ?cs"
    and upcoming: "as_next_conversation ?t = as_next_conversation s" and "fst (remove_conversations n s) = ?gone"
    by (simp_all add: remove_conversations_def Let_def forget_fold)
  have "index_ok (as_casemappings ?t) (as_channel_ids ?t) ?cs"
    using i unfolding index_ok_def
    by (auto simp: remove_conversations_def Let_def forget_fold map_of_filter_network mapping_of_def
        delete_conv' split: if_splits) fastforce+
  moreover have "marks_ok ?cs (marks ?t)"
  proof -
    have "marks ?t \<subseteq> marks s - set ?gone"
      by (auto simp: marks_def remove_conversations_def Let_def forget_fold)
    then show ?thesis using i by (auto simp: marks_ok_def) blast
  qed
  ultimately show "list_inv ?t"
    using i list_ok_filter by (simp add: list_inv_iff nets convs upcoming)
  show "selection_ok (ts_networks s) ?cs (ts_selected ?t)"
    if "selection_ok (ts_networks s) (ts_conversations s) (ts_selected s)" "n \<in> nw_id ` set (ts_networks s)"
    using that by (auto simp: selection_ok_def remove_conversations_def Let_def forget_fold split: selection.splits)
qed


section \<open>Selection\<close>

lemma repair_inv:
  assumes "list_inv s"
  shows "app_inv (repair_selection s)"
    and "list_inv (repair_selection s)"
proof -
  have keep: "list_inv (s\<lparr>ts_selected := x\<rparr>) = list_inv s" for x
    by (simp add: list_inv_iff marks_def)
  then show l: "list_inv (repair_selection s)" using assms by (simp add: repair_selection_def Let_def)
  have "selection_ok (ts_networks (repair_selection s)) (ts_conversations (repair_selection s)) (ts_selected (repair_selection s))"
    by (auto simp: repair_selection_def Let_def selection_ok_def known_network_iff conversation_at_None
        split: selection.splits list.splits if_splits)
  then show "app_inv (repair_selection s)" using l by (simp add: app_inv_def heads_def)
qed

section \<open>Permuting conversations\<close>

lemma list_ok_perm:
  assumes ok: "list_ok nets k cs" and perm: "mset ds = mset cs"
    and known: "\<forall>c \<in> set ds. conv_network c \<in> nw_id ` set nets'" and sorted: "sorted (map (slot_key nets') ds)"
  shows "list_ok nets' k ds"
proof -
  have "length (filter P ds) = length (filter P cs)" for P
    by (metis mset_filter perm size_mset)
  moreover have "mset (map conv_id ds) = mset (map conv_id cs)" using perm by simp
  then have "distinct (map conv_id ds) = distinct (map conv_id cs)" using mset_eq_imp_distinct_iff by blast
  moreover have "set ds = set cs" using perm by (rule mset_eq_setD)
  ultimately show ?thesis using ok known sorted by (simp add: list_ok_def)
qed

lemma index_ok_set: "set ds = set cs \<Longrightarrow> index_ok cms ids ds = index_ok cms ids cs"
  by (simp add: index_ok_def)

lemma list_inv_perm:
  assumes inv: "list_inv s" and perm: "mset ds = mset (ts_conversations s)"
    and sorted: "sorted (map (slot_key (ts_networks s)) ds)"
  shows "list_inv (s\<lparr>ts_conversations := ds\<rparr>)"
proof -
  note i = inv [unfolded list_inv_iff]
  have s: "set ds = set (ts_conversations s)" using perm by (rule mset_eq_setD)
  then have "list_ok (ts_networks s) (as_next_conversation s) ds"
    using i sorted by (intro list_ok_perm [OF _ perm]) (auto simp: list_ok_def)
  then show ?thesis using i index_ok_set [OF s] s by (simp add: list_inv_iff marks_ok_def marks_def)
qed

lemma sort_list_ok:
  assumes ok: "list_ok nets k cs" and nets: "distinct (map nw_id nets')"
    and known: "\<forall>c \<in> set cs. conv_network c \<in> nw_id ` set nets'"
  shows "list_ok nets' k (sort_key (\<lambda>c. places nets' (conv_network c)) cs)"
proof -
  let ?ds = "sort_key (\<lambda>c. places nets' (conv_network c)) cs"
  let ?P = "\<lambda>x y. conv_network x = conv_network y \<and> conversation_is_private x \<longrightarrow> conversation_is_private y"
  have "sorted_wrt (\<lambda>x y. slot_key nets x \<le> slot_key nets y) cs"
    using ok by (simp add: list_ok_def sorted_wrt_map)
  then have "sorted_wrt ?P cs"
    by (rule sorted_wrt_mono_rel [rotated]) (auto simp: slot_key_def split: if_splits)
  from sort_key_stable_wrt [OF this, of "\<lambda>c. places nets' (conv_network c)"]
  have "sorted_wrt (\<lambda>x y. slot_key nets' x \<le> slot_key nets' y) ?ds"
  proof (rule sorted_wrt_mono_rel [rotated])
    fix x y assume xy: "x \<in> set ?ds" "y \<in> set ?ds"
      and r: "places nets' (conv_network x) < places nets' (conv_network y)
        \<or> places nets' (conv_network x) = places nets' (conv_network y) \<and> ?P x y"
    from r show "slot_key nets' x \<le> slot_key nets' y"
    proof
      assume e: "places nets' (conv_network x) = places nets' (conv_network y) \<and> ?P x y"
      then have "conv_network x = conv_network y"
        using places_inj [OF nets, of "conv_network x" "conv_network y"] known xy by auto
      then show ?thesis using e by (auto simp: slot_key_def)
    qed (auto simp: slot_key_def)
  qed
  then have "sorted (map (slot_key nets') ?ds)" by (simp add: sorted_wrt_map)
  then show ?thesis using known by (intro list_ok_perm [OF ok]) auto
qed

section \<open>Configuration\<close>

lemma drop_network_inv:
  assumes inv: "list_inv (snd acc)"
  shows "list_inv (snd (drop_network n acc))"
    and "ts_networks (snd (drop_network n acc)) = ts_networks (snd acc)"
    and "ts_conversations (snd (drop_network n acc)) = filter (\<lambda>c. conv_network c \<noteq> n) (ts_conversations (snd acc))"
    and "as_next_conversation (snd (drop_network n acc)) = as_next_conversation (snd acc)"
proof -
  obtain removed t where r: "remove_conversations n (snd acc) = (removed, t)" by (rule prod.exhaust)
  note t = remove_inv [OF inv, of n, unfolded r, simplified]
  have "list_inv (snd (drop_network n acc)) = list_inv t"
    by (simp add: drop_network_def r list_inv_iff marks_def)
  then show "list_inv (snd (drop_network n acc))" using t(1) by simp
  show "ts_networks (snd (drop_network n acc)) = ts_networks (snd acc)"
    "ts_conversations (snd (drop_network n acc)) = filter (\<lambda>c. conv_network c \<noteq> n) (ts_conversations (snd acc))"
    "as_next_conversation (snd (drop_network n acc)) = as_next_conversation (snd acc)"
    using t by (simp_all add: drop_network_def r)
qed

lemma drop_all_inv:
  assumes "list_inv (snd acc)"
  shows "list_inv (snd (fold drop_network ns acc))
    \<and> ts_networks (snd (fold drop_network ns acc)) = ts_networks (snd acc)
    \<and> ts_conversations (snd (fold drop_network ns acc)) = filter (\<lambda>c. conv_network c \<notin> set ns) (ts_conversations (snd acc))
    \<and> as_next_conversation (snd (fold drop_network ns acc)) = as_next_conversation (snd acc)"
  using assms
proof (induction ns arbitrary: acc)
  case (Cons n ns)
  show ?case using Cons.IH [of "drop_network n acc"] drop_network_inv [OF Cons.prems, of n]
    by (auto intro: filter_cong)
qed simp

lemma default_status_fold:
  "list_inv (fold default_status configs s) = list_inv s"
  "ts_networks (fold default_status configs s) = ts_networks s"
  "ts_conversations (fold default_status configs s) = ts_conversations s"
  "as_next_conversation (fold default_status configs s) = as_next_conversation s"
  "as_casemappings (fold default_status configs s) = as_casemappings s"
  "as_channel_ids (fold default_status configs s) = as_channel_ids s"
  "marks (fold default_status configs s) = marks s"
proof (induction configs arbitrary: s)
  case (Cons k configs)
  {
    case 1
    show ?case using Cons by (simp add: default_status_def list_inv_iff marks_def)
  next
    case 2
    show ?case using Cons by (simp add: default_status_def)
  next
    case 3
    show ?case using Cons by (simp add: default_status_def)
  next
    case 4
    show ?case using Cons by (simp add: default_status_def)
  next
    case 5
    show ?case using Cons by (simp add: default_status_def)
  next
    case 6
    show ?case using Cons by (simp add: default_status_def)
  next
    case 7
    show ?case using Cons by (simp add: default_status_def marks_def)
  }
qed simp_all


lemma sort_conversations_inv:
  assumes "list_ok nets (as_next_conversation s) (ts_conversations s)" "distinct (map nw_id (ts_networks s))"
    and "\<forall>c \<in> set (ts_conversations s). conv_network c \<in> nw_id ` set (ts_networks s)"
    and "index_ok (as_casemappings s) (as_channel_ids s) (ts_conversations s)"
    and "marks_ok (ts_conversations s) (marks s)"
  shows "list_inv (sort_conversations s)"
proof -
  have convs: "ts_conversations (sort_conversations s) =
      sort_key (\<lambda>c. places (ts_networks s) (conv_network c)) (ts_conversations s)"
    unfolding sort_conversations_def network_place_places by simp
  show ?thesis
    unfolding list_inv_iff convs
    using sort_list_ok [OF assms(1-3)] assms(2,4,5)
      index_ok_set [of "sort_key (\<lambda>c. places (ts_networks s) (conv_network c)) (ts_conversations s)" "ts_conversations s"]
    by (simp add: sort_conversations_def marks_ok_def marks_def)
qed

definition configured_channels :: "network_config list \<Rightarrow> nat" where
  "configured_channels configs = sum_list (map (\<lambda>k. length (nc_channels k)) configs)"

lemma configured_filter: "configured_channels (filter P configs) \<le> configured_channels configs"
  by (induction configs) (auto simp: configured_channels_def)

lemma ensure_all_inv:
  assumes "list_inv s" "unat (as_next_conversation s) + configured_channels configs < 2 ^ 32"
  shows "grows (configured_channels configs) s (fold (\<lambda>k. ensure_channels (nc_id k) (nc_channels k)) configs s)"
  unfolding configured_channels_def
  using assms by (intro fold_grows) (auto simp: configured_channels_def intro!: ensure_channels_inv)

lemma sync_inv:
  assumes inv: "list_inv s" and configs: "distinct (map nc_id configs)"
    and room: "unat (as_next_conversation s) + configured_channels configs < 2 ^ 32"
  shows "app_inv (snd (sync_networks configs s))"
    and "map nw_id (ts_networks (snd (sync_networks configs s))) = map nc_id configs"
proof -
  let ?gone = "filter (\<lambda>n. \<not> list_ex (\<lambda>k. nc_id k = n) configs) (map nw_id (ts_networks s))"
  let ?added = "filter (\<lambda>k. \<not> known_network s (nc_id k)) configs"
  let ?nets = "map (\<lambda>k. \<lparr>nw_id = nc_id k, nw_name = nc_name k\<rparr>) configs"
  obtain removed t where r: "fold drop_network ?gone ([], s) = (removed, t)" by (rule prod.exhaust)
  have t: "list_inv t" "ts_networks t = ts_networks s" "as_next_conversation t = as_next_conversation s"
    "ts_conversations t = filter (\<lambda>c. conv_network c \<notin> set ?gone) (ts_conversations s)"
    using drop_all_inv [of "([], s)" ?gone] inv r by auto
  define u where "u = fold default_status configs (t\<lparr>ts_networks := ?nets\<rparr>)"
  have u: "ts_networks u = ?nets" "ts_conversations u = ts_conversations t"
    "as_next_conversation u = as_next_conversation t" "as_casemappings u = as_casemappings t"
    "as_channel_ids u = as_channel_ids t" "marks u = marks t"
    by (simp_all add: u_def default_status_fold) (simp add: marks_def)
  have ids: "map nw_id ?nets = map nc_id configs" by simp
  have "conv_network c \<in> nw_id ` set ?nets" if "c \<in> set (ts_conversations t)" for c
  proof -
    have "conv_network c \<in> nw_id ` set (ts_networks s)" "conv_network c \<notin> set ?gone"
      using that t(4) inv by (auto simp: list_inv_iff list_ok_def)
    then have "list_ex (\<lambda>k. nc_id k = conv_network c) configs" by auto
    then show ?thesis by (force simp: list_ex_iff)
  qed
  then have sorted: "list_inv (sort_conversations u)"
    using t(1) configs u ids
    by (intro sort_conversations_inv [of "ts_networks t"]) (auto simp: list_inv_iff simp del: map_map)
  define v where "v = fold (\<lambda>k. ensure_channels (nc_id k) (nc_channels k)) ?added (sort_conversations u)"
  have "unat (as_next_conversation (sort_conversations u)) + configured_channels ?added < 2 ^ 32"
    using room configured_filter [of _ configs] u(3) t(3)
    by (simp add: sort_conversations_def) (metis (no_types) add_le_cancel_left le_less_trans)
  then have v: "grows (configured_channels ?added) (sort_conversations u) v"
    unfolding v_def by (rule ensure_all_inv [OF sorted])
  have sync: "sync_networks configs s = (removed, repair_selection v)"
    by (simp add: sync_networks_def Let_def r v_def u_def)
  show "app_inv (snd (sync_networks configs s))"
    using repair_inv(1) [of v] v sync by (simp add: grows_def)
  have "ts_networks (repair_selection v) = ?nets"
    using v u by (simp add: grows_def repair_selection_def Let_def sort_conversations_def)
  then show "map nw_id (ts_networks (snd (sync_networks configs s))) = map nc_id configs"
    using sync by simp
qed

section \<open>The start\<close>

lemma places_append: "n \<in> nw_id ` set nets \<Longrightarrow> places (nets @ rest) n = places nets n"
proof -
  assume "n \<in> nw_id ` set nets"
  then obtain k where k: "position (\<lambda>w. nw_id w = n) nets = Some k"
    using position_None [of "\<lambda>w. nw_id w = n" nets] by (cases "position (\<lambda>w. nw_id w = n) nets") auto
  have "position P (xs @ ys) = Some k" if "position P xs = Some k" for P k and xs ys :: "network list"
    using that by (induction xs arbitrary: k) (auto split: if_splits)
  then show ?thesis using k by (simp add: places_def)
qed

lemma add_network_inv:
  assumes inv: "list_inv s" and new: "nc_id config \<notin> nw_id ` set (ts_networks s)"
    and room: "unat (as_next_conversation s) + length (nc_channels config) < 2 ^ 32"
  shows "list_inv (add_network config s)"
    and "ts_networks (add_network config s) = ts_networks s @ [\<lparr>nw_id = nc_id config, nw_name = nc_name config\<rparr>]"
    and "ts_selected (add_network config s) = ts_selected s"
    and "unat (as_next_conversation (add_network config s)) \<le> unat (as_next_conversation s) + length (nc_channels config)"
proof -
  define t where "t = s\<lparr>ts_networks := ts_networks s @ [\<lparr>nw_id = nc_id config, nw_name = nc_name config\<rparr>],
          as_statuses := AList.update (nc_id config) NOT_CONNECTED (as_statuses s)\<rparr>"
  have keys: "map (slot_key (ts_networks t)) (ts_conversations s) = map (slot_key (ts_networks s)) (ts_conversations s)"
    using inv by (auto simp: t_def slot_key_def places_append list_inv_iff list_ok_def)
  have "sorted (map (slot_key (ts_networks t)) (ts_conversations s))"
    unfolding keys using inv by (simp add: list_inv_iff list_ok_def)
  then have "list_ok (ts_networks t) (as_next_conversation t) (ts_conversations t)"
    using inv by (auto simp: list_inv_iff list_ok_def t_def)
  then have "list_inv t" using inv new by (auto simp: list_inv_iff t_def marks_def)
  then have g: "grows (length (nc_channels config)) t (add_network config s)"
    unfolding add_network_def t_def [symmetric] using room by (intro ensure_channels_inv) (simp_all add: t_def)
  then show "list_inv (add_network config s)"
    and "ts_networks (add_network config s) = ts_networks s @ [\<lparr>nw_id = nc_id config, nw_name = nc_name config\<rparr>]"
    and "ts_selected (add_network config s) = ts_selected s"
    and "unat (as_next_conversation (add_network config s)) \<le> unat (as_next_conversation s) + length (nc_channels config)"
    by (auto simp: grows_def t_def)
qed

lemma add_networks_inv:
  assumes "list_inv s" "distinct (map nc_id configs)" "set (map nc_id configs) \<inter> nw_id ` set (ts_networks s) = {}"
    and "unat (as_next_conversation s) + configured_channels configs < 2 ^ 32"
  shows "list_inv (fold add_network configs s)
    \<and> map nw_id (ts_networks (fold add_network configs s)) = map nw_id (ts_networks s) @ map nc_id configs
    \<and> ts_selected (fold add_network configs s) = ts_selected s"
  using assms
proof (induction configs arbitrary: s)
  case (Cons k configs)
  have room: "unat (as_next_conversation s) + length (nc_channels k) < 2 ^ 32"
    using Cons.prems(4) by (simp add: configured_channels_def)
  have "nc_id k \<notin> nw_id ` set (ts_networks s)" using Cons.prems(3) by auto
  note add = add_network_inv [OF Cons.prems(1) this room]
  have "unat (as_next_conversation (add_network k s)) + configured_channels configs < 2 ^ 32"
    using add(4) Cons.prems(4) by (simp add: configured_channels_def)
  then show ?case
    using Cons.IH [OF add(1)] add(2,3) Cons.prems(2,3) by auto
qed simp

lemma app_new_inv: "list_inv (app_new configs)"
  by (simp add: list_inv_iff app_new_def list_ok_def index_ok_def marks_ok_def marks_def)

lemma with_networks_inv:
  assumes configs: "distinct (map nc_id configs)" and room: "configured_channels configs < 2 ^ 32 - 1"
  shows "app_inv (with_networks configs)"
    and "map nw_id (ts_networks (with_networks configs)) = map nc_id configs"
proof -
  let ?s = "fold add_network configs (app_new configs)"
  have s: "list_inv ?s" "map nw_id (ts_networks ?s) = map nc_id configs"
    "ts_selected ?s = (case configs of [] \<Rightarrow> SelNone | w # _ \<Rightarrow> SelServer (nc_id w))"
    using add_networks_inv [OF app_new_inv configs, of configs] room
    by (auto simp: app_new_def)
  have ids: "nw_id ` set (ts_networks ?s) = nc_id ` set configs"
    using arg_cong [OF s(2), of set] by simp
  have sel: "list_inv (?s\<lparr>ts_selected := x\<rparr>)" for x using s(1) by (simp add: list_inv_iff marks_def)
  show "app_inv (with_networks configs)"
  proof (cases "ts_conversations ?s")
    case Nil
    have "ts_networks ?s = [] \<longleftrightarrow> configs = []" using s(2) by (metis map_is_Nil_conv)
    then have "selection_ok (ts_networks ?s) (ts_conversations ?s) (ts_selected ?s)"
      using s(3) ids by (auto simp: selection_ok_def split: list.splits)
    then show ?thesis using s(1) Nil by (simp add: with_networks_def Let_def app_inv_def heads_def)
  next
    case (Cons c cs)
    then show ?thesis using sel by (simp add: with_networks_def Let_def app_inv_def heads_def selection_ok_def)
  qed
  show "map nw_id (ts_networks (with_networks configs)) = map nc_id configs"
    using s(2) by (simp add: with_networks_def Let_def split: list.split)
qed


section \<open>Contents and marks\<close>

lemma app_inv_iff:
  "app_inv s \<longleftrightarrow> list_inv s \<and> selection_ok (ts_networks s) (ts_conversations s) (ts_selected s)"
  by (simp add: app_inv_def heads_def)

lemma app_inv_marks:
  assumes "app_inv s" "heads t = heads s" "ts_networks t = ts_networks s" "ts_selected t = ts_selected s"
    "as_next_conversation t = as_next_conversation s" "as_casemappings t = as_casemappings s"
    "as_channel_ids t = as_channel_ids s" "marks t \<subseteq> marks s \<union> conv_id ` set (ts_conversations s)"
  shows "app_inv t"
proof (rule app_inv_same [OF assms(1-3) assms(5-7)])
  show "marks t \<subseteq> conv_id ` set (heads s)"
    using assms(1,8) by (auto simp: app_inv_iff list_inv_iff marks_ok_def heads_def image_image)
  show "selection_ok (ts_networks s) (heads s) (ts_selected t)"
    using assms(1,4) by (simp add: app_inv_def)
qed

lemma heads_mut:
  "(\<And>c. head (f c) = head c) \<Longrightarrow> heads (conversation_mut i f s) = heads s"
  by (simp add: heads_def conversation_mut_def map_change_first)

lemma mut_frame [simp]:
  "ts_networks (conversation_mut i f s) = ts_networks s"
  "ts_selected (conversation_mut i f s) = ts_selected s"
  "as_next_conversation (conversation_mut i f s) = as_next_conversation s"
  "as_casemappings (conversation_mut i f s) = as_casemappings s"
  "as_channel_ids (conversation_mut i f s) = as_channel_ids s"
  "marks (conversation_mut i f s) = marks s"
  by (simp_all add: conversation_mut_def marks_def)

lemma mut_contents_inv:
  assumes "app_inv s" "\<And>c. head (f c) = head c"
  shows "app_inv (conversation_mut i f s)"
  by (rule app_inv_marks [OF assms(1)]) (simp_all add: heads_mut assms(2))

lemma head_contents [simp]:
  "head (c\<lparr>conv_modes := m\<rparr>) = head c" "head (c\<lparr>conv_members := ms\<rparr>) = head c"
  "head (c\<lparr>conv_topic := x\<rparr>) = head c" "head (c\<lparr>conv_messages := ls\<rparr>) = head c"
  by (simp_all add: head_def)

lemma active_inv:
  assumes "app_inv s" "set a \<subseteq> set (as_active_channels s) \<union> conv_id ` set (ts_conversations s)"
  shows "app_inv (s\<lparr>as_active_channels := a\<rparr>)"
  using assms(2) by (intro app_inv_marks [OF assms(1)]) (auto simp: heads_def marks_def)

lemma frame_inv [simp]:
  "app_inv (s\<lparr>as_older := h\<rparr>) = app_inv s"
  "app_inv (s\<lparr>as_resume := r\<rparr>) = app_inv s"
  "app_inv (s\<lparr>as_statuses := st\<rparr>) = app_inv s"
  "app_inv (s\<lparr>as_active_servers := a\<rparr>) = app_inv s"
  "app_inv (s\<lparr>as_history_paging := a\<rparr>) = app_inv s"
  "app_inv (s\<lparr>as_pending_history := q\<rparr>) = app_inv s"
  "app_inv (s\<lparr>as_reveal := v\<rparr>) = app_inv s"
  "app_inv (s\<lparr>as_previous := x\<rparr>) = app_inv s"
  by (simp_all add: app_inv_iff list_inv_iff marks_def)

lemma grows_app_inv:
  assumes "app_inv s" "grows k s t"
  shows "app_inv t"
  using assms by (auto simp: app_inv_iff grows_def selection_ok_def split: selection.splits)

section \<open>Channels\<close>

lemma joined_inv:
  assumes inv: "app_inv s" and room: "unat (as_next_conversation s) + 1 < 2 ^ 32"
  shows "app_inv (app_joined_channel n name s)"
proof -
  have l: "list_inv s" using inv by (simp add: app_inv_iff)
  obtain found t where e: "ensure_channel n name s = (found, t)" by (rule prod.exhaust)
  have t: "app_inv t" using grows_app_inv [OF inv ensure_channel_inv(1) [OF l room, of n name]] e by simp
  show ?thesis
  proof (cases found)
    case (Some i)
    then have "i \<in> conv_id ` set (ts_conversations t)" using ensure_channel_inv(2) [OF l room, of n name i] e by simp
    then have "app_inv (t\<lparr>as_active_channels := List.insert i (as_active_channels t)\<rparr>)"
      using t by (intro active_inv) auto
    then show ?thesis using Some e by (simp add: app_joined_channel_def mut_contents_inv)
  qed (use t e in \<open>simp add: app_joined_channel_def\<close>)
qed

lemma set_modes_inv: "app_inv s \<Longrightarrow> app_inv (set_channel_modes n name modes s)"
  by (simp add: set_channel_modes_def mut_contents_inv split: option.split)

lemma set_members_inv: "app_inv s \<Longrightarrow> app_inv (set_members lower n name members s)"
  by (simp add: set_members_def mut_contents_inv split: option.split)

lemma set_topic_inv: "app_inv s \<Longrightarrow> app_inv (set_topic n name topic s)"
  by (simp add: set_topic_def mut_contents_inv split: option.split)

lemma parted_inv: "app_inv s \<Longrightarrow> app_inv (parted_channel n name s)"
proof -
  assume inv: "app_inv s"
  have a: "app_inv (s\<lparr>as_active_channels := removeAll i (as_active_channels s)\<rparr>)" for i
    using inv by (rule active_inv) auto
  have "app_inv ((s\<lparr>as_active_channels := removeAll i (as_active_channels s)\<rparr>)\<lparr>as_older := h, as_resume := r\<rparr>)" for i h r
    unfolding frame_inv by (rule a)
  then have "app_inv (s\<lparr>as_active_channels := removeAll i (as_active_channels s), as_older := h, as_resume := r\<rparr>)" for i h r
    by simp
  then show ?thesis using inv by (simp add: parted_channel_def mut_contents_inv split: option.split)
qed

section \<open>The index\<close>

text \<open>A network is keyed again: of the channels that fold alike the first is reached.\<close>

lemma index_channels:
  "map_of (fold (index_channel n mapping) cs ids) (m, k) =
     (case map_of ids (m, k) of
        Some i \<Rightarrow> Some i
      | None \<Rightarrow>
          (if m = n
           then map_option conv_id
             (List.find (\<lambda>c. conv_network c = n \<and> conv_kind c = Channel \<and> cm_fold mapping (conv_name c) = k) cs)
           else None))"
proof (induction cs arbitrary: ids)
  case (Cons c cs)
  show ?case
    unfolding fold_simps comp_apply Cons.IH
    by (auto simp: index_channel_def Let_def update_conv' split: option.splits)
qed (simp split: option.split)

definition first_channel ::
  "app_state \<Rightarrow> network_id \<Rightarrow> case_mapping \<Rightarrow> rstring \<Rightarrow> conversation_id option" where
  "first_channel s n mapping name =
     map_option conv_id
       (List.find (\<lambda>c. conv_network c = n \<and> conv_kind c = Channel
            \<and> cm_fold mapping (conv_name c) = cm_fold mapping name) (ts_conversations s))"

lemma mapping_after:
  "mapping_of (as_casemappings (set_casemapping n mapping s)) m =
     (if m = n then mapping else mapping_of (as_casemappings s) m)"
  by (auto simp: set_casemapping_def mapping_of_def delete_conv' update_conv')

lemma index_after:
  "map_of (as_channel_ids (set_casemapping n mapping s)) (m, k) =
     (if m = n
      then map_option conv_id
        (List.find (\<lambda>c. conv_network c = n \<and> conv_kind c = Channel \<and> cm_fold mapping (conv_name c) = k)
          (ts_conversations s))
      else map_of (as_channel_ids s) (m, k))"
  by (simp add: set_casemapping_def index_channels map_of_filter_network split: option.split)

lemma channel_id_after:
  "channel_id (set_casemapping n mapping s) m name =
     (if m = n then first_channel s n mapping name else channel_id s m name)"
  by (simp add: channel_id_def casemapping_of_mapping mapping_after index_after first_channel_def)

lemma set_casemapping_inv:
  assumes inv: "app_inv s"
  shows "app_inv (set_casemapping n mapping s)"
proof -
  let ?t = "set_casemapping n mapping s"
  have i: "index_ok (as_casemappings s) (as_channel_ids s) (ts_conversations s)"
    using inv by (simp add: app_inv_iff list_inv_iff)
  have convs: "ts_conversations ?t = ts_conversations s" "ts_networks ?t = ts_networks s"
    "as_next_conversation ?t = as_next_conversation s" "ts_selected ?t = ts_selected s" "marks ?t = marks s"
    by (simp_all add: set_casemapping_def marks_def)
  have "index_ok (as_casemappings ?t) (as_channel_ids ?t) (ts_conversations s)"
    unfolding index_ok_def
  proof (intro conjI allI impI ballI)
    fix m k i assume m: "map_of (as_channel_ids ?t) (m, k) = Some i"
    show "\<exists>c \<in> set (ts_conversations s). conv_id c = i \<and> conv_network c = m \<and> conv_kind c = Channel
        \<and> cm_fold (mapping_of (as_casemappings ?t) m) (conv_name c) = k"
    proof (cases "m = n")
      case True
      then obtain c where "List.find (\<lambda>c. conv_network c = n \<and> conv_kind c = Channel \<and> cm_fold mapping (conv_name c) = k)
          (ts_conversations s) = Some c" "conv_id c = i"
        using m by (auto simp: index_after)
      then show ?thesis using True by (auto simp: find_Some_iff mapping_after)
    next
      case False
      then show ?thesis using m i by (simp add: index_after mapping_after index_ok_def)
    qed
  next
    fix c assume c: "c \<in> set (ts_conversations s)" "conv_kind c = Channel"
    have "List.find (\<lambda>d. conv_network d = n \<and> conv_kind d = Channel \<and> cm_fold mapping (conv_name d) = cm_fold mapping (conv_name c))
        (ts_conversations s) \<noteq> None" if "conv_network c = n"
      using c that by (auto simp: find_None_iff simp del: not_None_eq)
    then show "map_of (as_channel_ids ?t) (conv_network c, cm_fold (mapping_of (as_casemappings ?t) (conv_network c)) (conv_name c)) \<noteq> None"
      using c i by (simp add: index_after mapping_after index_ok_def del: not_None_eq)
  qed
  then show ?thesis using inv by (simp add: app_inv_iff list_inv_iff convs)
qed


section \<open>Private conversations\<close>

lemma is_private_iff: "conversation_is_private c \<longleftrightarrow> conv_kind c \<noteq> Channel"
  by (cases "conv_kind c") (simp_all add: conversation_is_private_def)

lemma index_ok_channels:
  assumes "filter (\<lambda>c. conv_kind c = Channel) ds = filter (\<lambda>c. conv_kind c = Channel) cs"
  shows "index_ok cms ids ds = index_ok cms ids cs"
proof -
  have "c \<in> set ds \<and> conv_kind c = Channel \<longleftrightarrow> c \<in> set cs \<and> conv_kind c = Channel" for c
    using arg_cong [OF assms, of set] by auto
  then show ?thesis unfolding index_ok_def by blast
qed

lemma list_ok_keys:
  assumes "map (\<lambda>c. (conv_id c, conv_network c, conversation_is_private c)) ds
      = map (\<lambda>c. (conv_id c, conv_network c, conversation_is_private c)) cs"
  shows "list_ok nets k ds = list_ok nets k cs"
proof -
  let ?key = "\<lambda>c. (conv_id c, conv_network c, conversation_is_private c)"
  have image: "map (\<lambda>c. f (?key c)) ds = map (\<lambda>c. f (?key c)) cs" for f :: "_ \<Rightarrow> 'b"
    using arg_cong [OF assms, of "map f"] by (simp add: o_def)
  have count: "length (filter (\<lambda>c. P (?key c)) ds) = length (filter (\<lambda>c. P (?key c)) cs)" for P
  proof -
    have "length (filter P (map ?key ds)) = length (filter P (map ?key cs))" using assms by simp
    then show ?thesis by (simp add: filter_map o_def)
  qed
  have ids: "map conv_id ds = map conv_id cs" using image [of fst] by simp
  have nets: "map conv_network ds = map conv_network cs" using image [of "\<lambda>(_, n, _). n"] by simp
  have keys: "map (slot_key nets) ds = map (slot_key nets) cs"
    using image [of "\<lambda>(_, n, p). 2 * places nets n + (if p then 1 else 0)"] by (simp add: slot_key_def [abs_def])
  have "(\<forall>c \<in> set ds. conversation_number (conv_id c) < unat k) = (\<forall>c \<in> set cs. conversation_number (conv_id c) < unat k)"
    using arg_cong [OF ids, of "list_all (\<lambda>i. conversation_number i < unat k)"] by (simp add: list_all_iff)
  moreover have "(\<forall>c \<in> set ds. conv_network c \<in> N) = (\<forall>c \<in> set cs. conv_network c \<in> N)" for N
    using arg_cong [OF nets, of "list_all (\<lambda>n. n \<in> N)"] by (simp add: list_all_iff)
  ultimately show ?thesis
    using count [of "\<lambda>(_, m, _). m = n" for n] count [of "\<lambda>(_, m, p). m = n \<and> p" for n] ids keys
    unfolding list_ok_def by simp
qed

lemma change_first_keys:
  assumes "distinct (map conv_id cs)" "c \<in> set cs" "conv_id c = i" "conversation_is_private c"
    and f: "\<And>c. conversation_is_private c \<Longrightarrow>
      conv_id (f c) = conv_id c \<and> conv_network (f c) = conv_network c \<and> conversation_is_private (f c)"
  shows "map (\<lambda>c. (conv_id c, conv_network c, conversation_is_private c)) (change_first (\<lambda>c. conv_id c = i) f cs)
      = map (\<lambda>c. (conv_id c, conv_network c, conversation_is_private c)) cs
    \<and> filter (\<lambda>c. conv_kind c = Channel) (change_first (\<lambda>c. conv_id c = i) f cs) = filter (\<lambda>c. conv_kind c = Channel) cs"
  using assms(1-4)
proof (induction cs)
  case (Cons d cs)
  show ?case
  proof (cases "conv_id d = i")
    case True
    then have "c \<notin> set cs" using Cons.prems(1,3) by (metis distinct.simps(2) image_eqI list.map(2) set_map)
    then have "d = c" using Cons.prems(2) by simp
    then show ?thesis using True Cons.prems(4) f [of d] by (auto simp: is_private_iff)
  qed (use Cons in auto)
qed simp

lemma mut_private_inv:
  assumes inv: "app_inv s" and c: "c \<in> set (ts_conversations s)" "conv_id c = i" "conversation_is_private c"
    and f: "\<And>c. conversation_is_private c \<Longrightarrow>
      conv_id (f c) = conv_id c \<and> conv_network (f c) = conv_network c \<and> conversation_is_private (f c)"
  shows "app_inv (conversation_mut i f s)"
proof -
  let ?ds = "change_first (\<lambda>c. conv_id c = i) f (ts_conversations s)"
  have i: "list_inv s" using inv by (simp add: app_inv_iff)
  have "distinct (map conv_id (ts_conversations s))" using i by (simp add: list_inv_iff list_ok_def)
  note keys = change_first_keys [OF this c f]
  have "map conv_id ?ds = map conv_id (ts_conversations s)"
    using arg_cong [OF conjunct1 [OF keys], of "map fst"] by (simp add: o_def)
  then have ids: "conv_id ` set ?ds = conv_id ` set (ts_conversations s)" by (metis set_map)
  have "list_ok nets k ?ds = list_ok nets k (ts_conversations s)" for nets k
    using list_ok_keys keys by blast
  moreover have "index_ok cms x ?ds = index_ok cms x (ts_conversations s)" for cms x
    using index_ok_channels keys by blast
  ultimately show ?thesis
    using inv ids
    by (simp add: app_inv_iff list_inv_iff conversation_mut_def marks_ok_def marks_def selection_ok_def
        split: selection.splits)
qed

lemma private_id_found:
  assumes "private_id s n key = Some i"
  shows "\<exists>c \<in> set (ts_conversations s). conv_id c = i \<and> conv_network c = n \<and> conv_kind c = Private key"
proof -
  obtain c where "List.find (\<lambda>c. conv_network c = n \<and> conversation_peer_key c = Some key) (ts_conversations s) = Some c"
      and i: "conv_id c = i"
    using assms by (auto simp: private_id_def)
  then have "c \<in> set (ts_conversations s)" "conv_network c = n" "conversation_peer_key c = Some key"
    by (auto simp: find_Some_iff)
  then show ?thesis using i
    by (cases "conv_kind c") (auto simp: conversation_peer_key_def)
qed

lemma private_inv:
  assumes inv: "app_inv s" and room: "unat (as_next_conversation s) + 1 < 2 ^ 32"
  shows "app_inv (snd (private_conversation n key name missing s))"
proof (cases "private_id s n key")
  case (Some i)
  then obtain c where "c \<in> set (ts_conversations s)" "conv_id c = i" "conversation_is_private c"
    using private_id_found [OF Some] by (auto simp: is_private_iff)
  then have "app_inv (conversation_mut i (\<lambda>c. if conv_name c \<noteq> name then c\<lparr>conv_name := name\<rparr> else c) s)"
    by (rule mut_private_inv [OF inv]) (simp add: is_private_iff)
  then show ?thesis using Some by (simp add: private_conversation_def)
next
  case None
  show ?thesis
  proof (cases "missing = IgnoreMissing \<or> MAX_PRIVATE_CONVERSATIONS_PER_NETWORK \<le> private_count s n")
    case True
    then show ?thesis using None inv by (auto simp: private_conversation_def)
  next
    case False
    have l: "list_inv s" using inv by (simp add: app_inv_iff)
    obtain added t where a: "add_conversation n (Private key) name s = (added, t)" by (rule prod.exhaust)
    note add = add_inv [OF l room, of "Private key" n name, unfolded a]
    have t: "app_inv t" using grows_app_inv [OF inv] add(1) False by auto
    show ?thesis
    proof (cases added)
      case (Some i)
      then have "app_inv (t\<lparr>as_active_channels := List.insert i (as_active_channels t)\<rparr>)"
        using add(2) False t by (intro active_inv) auto
      then show ?thesis using None False a Some t by (simp add: private_conversation_def)
    qed (use None False a t in \<open>simp add: private_conversation_def\<close>)
  qed
qed

lemma rename_private_inv:
  assumes inv: "app_inv s"
  shows "app_inv (snd (rename_private n from_key to_key to_name s))"
proof (cases "private_id s n from_key")
  case (Some i)
  then obtain c where "c \<in> set (ts_conversations s)" "conv_id c = i" "conversation_is_private c"
    using private_id_found [OF Some] by (auto simp: is_private_iff)
  then have "app_inv (conversation_mut i (\<lambda>c. c\<lparr>conv_kind := Private to_key, conv_name := to_name\<rparr>) s)"
    by (rule mut_private_inv [OF inv]) (simp add: is_private_iff)
  then show ?thesis using Some inv by (simp add: rename_private_def)
qed (use inv in \<open>simp add: rename_private_def\<close>)

lemma remove_at_filter:
  assumes "distinct (map f xs)" "k < length xs"
  shows "remove_at k xs = filter (\<lambda>x. f x \<noteq> f (xs ! k)) xs"
proof -
  have split: "xs = take k xs @ xs ! k # drop (Suc k) xs" using assms(2) by (rule id_take_nth_drop)
  then have "distinct (map f (take k xs @ xs ! k # drop (Suc k) xs))" using assms(1) by simp
  then have "f (xs ! k) \<notin> f ` set (take k xs)" "f (xs ! k) \<notin> f ` set (drop (Suc k) xs)" by auto
  then have "filter (\<lambda>x. f x \<noteq> f (xs ! k)) (take k xs) = take k xs"
    "filter (\<lambda>x. f x \<noteq> f (xs ! k)) (drop (Suc k) xs) = drop (Suc k) xs"
    by (auto simp: filter_id_conv image_iff)
  then show ?thesis unfolding remove_at_def
    by (subst (3) split) simp
qed

lemma close_inv:
  assumes inv: "app_inv s"
  shows "app_inv (snd (close_private i s))"
proof (cases "position (\<lambda>c. conv_id c = i \<and> conversation_is_private c) (ts_conversations s)")
  case (Some k)
  let ?cs = "ts_conversations s" and ?t = "snd (close_private i s)"
  have k: "k < length ?cs" "conv_id (?cs ! k) = i" "conversation_is_private (?cs ! k)"
    using Some by (auto simp: position_Some)
  have l: "list_inv s" using inv by (simp add: app_inv_iff)
  note li = l [unfolded list_inv_iff]
  have d: "distinct (map conv_id ?cs)" using li by (simp add: list_ok_def)
  have t: "ts_conversations ?t = filter (\<lambda>c. conv_id c \<noteq> i) ?cs"
    using Some remove_at_filter [OF d k(1)] k(2)
    by (simp add: close_private_def Let_def forget_conversation_def)
  have f: "ts_networks ?t = ts_networks s" "as_next_conversation ?t = as_next_conversation s"
    "as_casemappings ?t = as_casemappings s" "as_channel_ids ?t = as_channel_ids s"
    "ts_selected ?t = (if ts_selected s = SelChannel i then SelServer (conv_network (?cs ! k)) else ts_selected s)"
    using Some by (simp_all add: close_private_def Let_def forget_conversation_def)
  have "marks ?t \<subseteq> marks s - {i}"
    using Some by (auto simp: close_private_def Let_def forget_conversation_def marks_def)
  then have "marks_ok (ts_conversations ?t) (marks ?t)" using li t by (auto simp: marks_ok_def)
  moreover have "c = ?cs ! k" if "c \<in> set ?cs" "conv_id c = i" for c
    using d that k by (metis distinct_map inj_on_contraD nth_mem)
  then have "filter (\<lambda>c. conv_kind c = Channel) (ts_conversations ?t) = filter (\<lambda>c. conv_kind c = Channel) ?cs"
    using k(3) unfolding t filter_filter by (intro filter_cong) (auto simp: is_private_iff)
  then have "index_ok (as_casemappings ?t) (as_channel_ids ?t) (ts_conversations ?t)"
    using li f index_ok_channels by metis
  moreover have "conv_network (?cs ! k) \<in> nw_id ` set (ts_networks s)"
    using li k(1) by (simp add: list_ok_def)
  then have "selection_ok (ts_networks ?t) (ts_conversations ?t) (ts_selected ?t)"
    using inv f(5) t by (auto simp: app_inv_iff selection_ok_def f split: selection.splits)
  ultimately show ?thesis using li list_ok_filter t f by (simp add: app_inv_iff list_inv_iff)
qed (use inv in \<open>simp add: close_private_def\<close>)


section \<open>Status\<close>

lemma cut_off_only: "\<exists>r. cut_off_channel n p c s = s\<lparr>as_resume := r\<rparr>"
proof -
  have "\<exists>r. s = s\<lparr>as_resume := r\<rparr>" by (rule exI [of _ "as_resume s"]) simp
  then show ?thesis by (auto simp: cut_off_channel_def split: option.split)
qed

lemma cut_off_all_only: "\<exists>r. cut_off_channels n p s = s\<lparr>as_resume := r\<rparr>"
proof -
  have "\<exists>r. fold (cut_off_channel n p) cs s = s\<lparr>as_resume := r\<rparr>" for cs
  proof (induction cs arbitrary: s)
    case Nil
    show ?case by (rule exI [of _ "as_resume s"]) simp
  next
    case (Cons c cs)
    obtain r where "cut_off_channel n p c s = s\<lparr>as_resume := r\<rparr>" using cut_off_only by blast
    moreover obtain r' where "fold (cut_off_channel n p) cs (s\<lparr>as_resume := r\<rparr>) = (s\<lparr>as_resume := r\<rparr>)\<lparr>as_resume := r'\<rparr>"
      using Cons.IH by blast
    ultimately show ?case by auto
  qed
  then show ?thesis by (simp add: cut_off_channels_def)
qed

lemma end_session_fold:
  "ts_conversations (fold (end_session n) cs s) = ts_conversations s"
  "ts_networks (fold (end_session n) cs s) = ts_networks s"
  "ts_selected (fold (end_session n) cs s) = ts_selected s"
  "as_next_conversation (fold (end_session n) cs s) = as_next_conversation s"
  "as_casemappings (fold (end_session n) cs s) = as_casemappings s"
  "as_channel_ids (fold (end_session n) cs s) = as_channel_ids s"
  "marks (fold (end_session n) cs s) \<subseteq> marks s"
  "as_active_channels (fold (end_session n) cs s) =
     filter (\<lambda>i. i \<notin> conv_id ` set (filter (\<lambda>c. conv_network c = n) cs)) (as_active_channels s)"
proof (induction cs arbitrary: s)
  case (Cons c cs)
  {
    case 7
    have "marks (end_session n c s) \<subseteq> marks s" by (auto simp: end_session_def marks_def)
    then show ?case using Cons(7) [of "end_session n c s"] by simp
  next
    case 8
    show ?case using Cons(8) [of "end_session n c s"]
      by (auto simp: end_session_def removeAll_filter_not_eq intro: filter_cong)
  }
qed (simp_all add: end_session_def)

lemma usable_fold: "set (fold (usable_private n) cs active) =
    set active \<union> conv_id ` set (filter (\<lambda>c. conv_network c = n \<and> conversation_is_private c) cs)"
  by (induction cs arbitrary: active) (auto simp: usable_private_def)

lemma set_status_inv:
  assumes inv: "app_inv s"
  shows "app_inv (set_status n status s)"
proof (cases "known_network s n")
  case True
  show ?thesis
  proof (cases status)
    case Registered
    have "app_inv (s\<lparr>as_active_servers := List.insert n (as_active_servers s)\<rparr>)" using inv by simp
    then have "app_inv ((s\<lparr>as_active_servers := List.insert n (as_active_servers s)\<rparr>)
        \<lparr>as_active_channels := fold (usable_private n) (ts_conversations s) (as_active_channels s)\<rparr>)"
      by (rule active_inv) (auto simp: usable_fold)
    then show ?thesis using True Registered by (simp add: set_status_def)
  next
    case (Disconnected reason)
    let ?s = "s\<lparr>as_active_servers := removeAll n (as_active_servers s), as_history_paging := removeAll n (as_history_paging s)\<rparr>"
    obtain r where r: "cut_off_channels n (n \<in> set (as_history_paging s)) ?s = ?s\<lparr>as_resume := r\<rparr>"
      using cut_off_all_only by blast
    let ?u = "fold (end_session n) (ts_conversations s) (?s\<lparr>as_resume := r\<rparr>)"
    let ?f = "\<lambda>c. if conv_network c = n then c\<lparr>conv_members := [], conv_modes := None\<rparr> else c"
    have t: "set_status n status s = ?u\<lparr>ts_conversations := map ?f (ts_conversations s),
        as_statuses := AList.update n status (as_statuses ?u)\<rparr>"
      using True Disconnected r by (simp add: set_status_def Let_def end_session_fold)
    have "head (?f c) = head c" for c by (simp add: head_def)
    then have "heads (set_status n status s) = heads s" unfolding t by (simp add: heads_def)
    moreover have "marks (set_status n status s) \<subseteq> marks s"
    proof -
      have "marks (set_status n status s) = marks ?u" unfolding t by (simp add: marks_def)
      also have "\<dots> \<subseteq> marks (?s\<lparr>as_resume := r\<rparr>)" by (rule end_session_fold)
      finally show ?thesis by (simp add: marks_def)
    qed
    ultimately show ?thesis
      by (intro app_inv_marks [OF inv]) (auto simp: t end_session_fold)
  qed (use True inv in \<open>simp_all add: set_status_def\<close>)
qed (use inv in \<open>simp add: set_status_def\<close>)

section \<open>A fresh session\<close>

lemma selected_network_known:
  assumes "app_inv s"
  shows "selected_network s \<noteq> None"
proof -
  have find: "List.find (\<lambda>w. nw_id w = n) (ts_networks s) \<noteq> None" if "n \<in> nw_id ` set (ts_networks s)" for n
    using that by (auto simp: find_None_iff simp del: not_None_eq)
  show ?thesis
  proof (cases "ts_selected s")
    case (SelServer n)
    then have "n \<in> nw_id ` set (ts_networks s)" using assms by (simp add: app_inv_iff selection_ok_def)
    then show ?thesis using SelServer find by (simp add: selected_network_def)
  next
    case (SelChannel i)
    then have "conversation_at s i \<noteq> None"
      using assms by (simp add: app_inv_iff selection_ok_def conversation_at_None del: not_None_eq)
    then obtain c where c: "conversation_at s i = Some c" by blast
    then have "c \<in> set (ts_conversations s)" using conversation_at_id by blast
    then have "conv_network c \<in> nw_id ` set (ts_networks s)"
      using assms by (auto simp: app_inv_iff list_inv_iff list_ok_def)
    then show ?thesis using SelChannel c find by (simp add: selected_network_def)
  qed (simp add: selected_network_def)
qed

lemma open_all_inv:
  assumes "list_inv (snd acc)" "unat (as_next_conversation (snd acc)) + length names < 2 ^ 32"
    and "\<And>i. fst acc = Some i \<Longrightarrow> i \<in> conv_id ` set (ts_conversations (snd acc))"
  shows "grows (length names) (snd acc) (snd (fold (open_configured n) names acc))
    \<and> (\<forall>i. fst (fold (open_configured n) names acc) = Some i \<longrightarrow>
        i \<in> conv_id ` set (ts_conversations (snd (fold (open_configured n) names acc))))"
  using assms
proof (induction names arbitrary: acc)
  case (Cons name names)
  have room: "unat (as_next_conversation (snd acc)) + 1 < 2 ^ 32" using Cons.prems(2) by simp
  note e = ensure_configured_inv [OF Cons.prems(1) room, of n name]
  let ?acc = "open_configured n name acc"
  have acc: "snd ?acc = snd (ensure_configured_channel n name (snd acc))"
    by (simp add: open_configured_def case_prod_beta)
  have g: "grows 1 (snd acc) (snd ?acc)" using e(1) acc by simp
  have "i \<in> conv_id ` set (ts_conversations (snd ?acc))" if i: "fst ?acc = Some i" for i
  proof (cases "fst acc")
    case None
    then have "fst (ensure_configured_channel n name (snd acc)) = Some i"
      using i by (simp add: open_configured_def case_prod_beta)
    then show ?thesis using e(2) acc by simp
  next
    case (Some j)
    then have "j = i" using i by (simp add: open_configured_def case_prod_beta)
    then show ?thesis using Cons.prems(3) [OF Some] g by (auto simp: grows_def)
  qed
  moreover have "list_inv (snd ?acc)" "unat (as_next_conversation (snd ?acc)) + length names < 2 ^ 32"
    using g Cons.prems(2) by (simp_all add: grows_def)
  ultimately show ?case using Cons.IH [of ?acc] grows_trans [OF g] by auto
qed (simp add: grows_refl)

lemma reset_inv:
  assumes inv: "app_inv s" and room: "unat (as_next_conversation s) + length channels < 2 ^ 32"
  shows "\<exists>removed t. reset_network n channels s = Some (removed, t) \<and> app_inv t \<and> ts_networks t = ts_networks s"
proof (cases "known_network s n")
  case True
  have l: "list_inv s" using inv by (simp add: app_inv_iff)
  obtain sel where sel: "selected_network s = Some sel" using selected_network_known [OF inv] by blast
  obtain removed t where r: "remove_conversations n s = (removed, t)" by (rule prod.exhaust)
  note t = remove_inv [OF l, of n, unfolded r, simplified]
  let ?u = "t\<lparr>as_server_messages := AList.delete n (as_server_messages t),
                        as_system_messages := filter (\<lambda>(w, _). w \<noteq> n) (as_system_messages t),
                        as_active_servers := removeAll n (as_active_servers t),
                        as_statuses := AList.update n Connecting (as_statuses t)\<rparr>"
  have u: "list_inv ?u" using t(1) by (simp add: list_inv_iff marks_def)
  obtain found v where v: "fold (open_configured n) channels (None, ?u) = (found, v)" by (rule prod.exhaust)
  have g: "grows (length channels) ?u v"
    using open_all_inv [of "(None, ?u)" channels n] u v t(4) room by simp
  let ?w = "if map_option nw_id sel = Some n
            then v\<lparr>ts_selected := (case found of Some i \<Rightarrow> SelChannel i | None \<Rightarrow> SelServer n)\<rparr> else v"
  have "reset_network n channels s = Some (removed, repair_selection ?w)"
    using True by (simp add: reset_network_def sel r v Let_def)
  moreover have "list_inv (v\<lparr>ts_selected := x\<rparr>) = list_inv v" for x by (simp add: list_inv_iff marks_def)
  then have "list_inv ?w" using g by (simp add: grows_def)
  then have "app_inv (repair_selection ?w)" by (rule repair_inv)
  moreover have "ts_networks (repair_selection ?w) = ts_networks s"
    using g t(2) by (simp add: grows_def repair_selection_def Let_def)
  ultimately show ?thesis by blast
qed (use inv in \<open>simp add: reset_network_def\<close>)

end
