(* ===== verification/Logs.thy ===== *)
theory Logs
  imports History ChannelTree "HOL-Library.Multiset"
begin

text \<open>
  What the logs of \<open>MessageLog\<close> and \<open>History\<close> keep: every log in ascending order of sequence and within
  its bound, an older page inside the block of sequences set aside for it.
\<close>

section \<open>Logs in order\<close>

definition log_sorted :: "chat_message list \<Rightarrow> bool" where
  "log_sorted ms \<longleftrightarrow> sorted_wrt (<) (map msg_sequence ms)"

lemma log_sorted_simps [simp]:
  "log_sorted []"
  "log_sorted (m # ms) \<longleftrightarrow> (\<forall>x \<in> set ms. msg_sequence m < msg_sequence x) \<and> log_sorted ms"
  "log_sorted (xs @ ys) \<longleftrightarrow>
     log_sorted xs \<and> log_sorted ys \<and> (\<forall>x \<in> set xs. \<forall>y \<in> set ys. msg_sequence x < msg_sequence y)"
  by (auto simp: log_sorted_def sorted_wrt_append)

lemma log_sorted_drop: "log_sorted ms \<Longrightarrow> log_sorted (drop k ms)"
  by (metis append_take_drop_id log_sorted_simps(3))

lemma log_sorted_take: "log_sorted ms \<Longrightarrow> log_sorted (take k ms)"
  by (metis append_take_drop_id log_sorted_simps(3))

lemma log_sorted_cong: "map msg_sequence ns = map msg_sequence ms \<Longrightarrow> log_sorted ns = log_sorted ms"
  by (simp add: log_sorted_def)

lemma trim_loop_drop: "\<exists>k. trim_loop ms = drop k ms \<and> (MAX_RETAINED < length ms \<or> k = 0)"
proof (induction ms rule: trim_loop.induct)
  case (1 ms)
  show ?case
  proof (cases "MAX_RETAINED < length ms")
    case True
    then obtain k where "trim_loop (drop 1000 ms) = drop k (drop 1000 ms)" using 1 by blast
    with True show ?thesis by (intro exI [of _ "k + 1000"]) (simp add: trim_loop.simps [of ms])
  qed (simp add: trim_loop.simps exI [of _ 0])
qed

lemma trim_loop_length: "length (trim_loop ms) \<le> MAX_RETAINED"
  by (induction ms rule: trim_loop.induct) (subst trim_loop.simps, simp)

lemma trim_loop_keeps: "length ms \<le> MAX_RETAINED \<Longrightarrow> trim_loop ms = ms"
  by (simp add: trim_loop.simps)

lemma set_trim_loop: "set (trim_loop ms) \<subseteq> set ms"
  using trim_loop_drop [of ms] set_drop_subset by metis

lemma log_sorted_trim: "log_sorted ms \<Longrightarrow> log_sorted (trim_loop ms)"
  using trim_loop_drop [of ms] log_sorted_drop by metis

text \<open>The search by sequence, on a log in order.\<close>

lemma partition_below_split:
  assumes "log_sorted ms"
  shows "take (partition_below q ms) ms = filter (\<lambda>m. msg_sequence m < q) ms"
    and "drop (partition_below q ms) ms = filter (\<lambda>m. \<not> msg_sequence m < q) ms"
proof -
  let ?P = "\<lambda>m. msg_sequence m < q"
  have "sorted (map msg_sequence ms)"
    using assms by (auto simp: log_sorted_def intro: sorted_wrt_mono_rel [of _ "(<)"])
  then have *: "takeWhile ?P ms = filter ?P ms \<and> dropWhile ?P ms = filter (\<lambda>m. \<not> ?P m) ms"
  proof (induction ms)
    case (Cons m ms)
    show ?case
    proof (cases "?P m")
      case False
      then have "\<forall>x \<in> set ms. \<not> ?P x" using Cons.prems by (auto simp: not_less)
      then show ?thesis using False by (simp add: filter_False filter_True)
    qed (use Cons in auto)
  qed simp
  show "take (partition_below q ms) ms = filter ?P ms"
    using * takeWhile_eq_take [of ?P ms] by (simp add: partition_below_def)
  show "drop (partition_below q ms) ms = filter (\<lambda>m. \<not> ?P m) ms"
    using * dropWhile_eq_drop [of ?P ms] unfolding partition_below_def by argo
qed

lemma search_sequence_Some:
  "search_sequence q ms = Some k \<Longrightarrow> k < length ms \<and> msg_sequence (ms ! k) = q"
  using position_Some [of "\<lambda>m. msg_sequence m = q" ms k] by (auto simp: search_sequence_def)

section \<open>The invariant\<close>

definition logs :: "app_state \<Rightarrow> (conversation_id \<times> chat_message list) set" where
  "logs s = (\<lambda>c. (conv_id c, conv_messages c)) ` set (ts_conversations s)"

definition log_ok :: "app_state \<Rightarrow> chat_message list \<Rightarrow> bool" where
  "log_ok s ms \<longleftrightarrow> log_sorted ms \<and> length ms \<le> MAX_RETAINED
     \<and> (\<forall>m \<in> set ms. as_floor s \<le> msg_sequence m \<and> msg_sequence m \<le> as_next_sequence s)"

text \<open>A block lies between the floor and the first ordinary sequence, and is filled from its start.\<close>

definition block_ok :: "app_state \<Rightarrow> history_block \<Rightarrow> bool" where
  "block_ok s b \<longleftrightarrow> as_floor s \<le> hb_start b
     \<and> unat (hb_start b) + HISTORY_RESERVE \<le> unat SEQUENCE_ORIGIN
     \<and> hb_start b \<le> hb_next b \<and> unat (hb_next b) \<le> unat (hb_start b) + hb_room b
     \<and> hb_room b \<le> HISTORY_RESERVE"

definition above_block :: "history_block \<Rightarrow> chat_message list \<Rightarrow> bool" where
  "above_block b ms \<longleftrightarrow>
     (\<forall>m \<in> set ms. hb_start b \<le> msg_sequence m
        \<and> (msg_sequence m < hb_next b
           \<or> unat (hb_start b) + HISTORY_RESERVE \<le> unat (msg_sequence m)))"

definition log_inv :: "app_state \<Rightarrow> bool" where
  "log_inv s \<longleftrightarrow>
     as_floor s \<le> SEQUENCE_ORIGIN \<and> SEQUENCE_ORIGIN \<le> as_next_sequence s
     \<and> (\<forall>i ms. (i, ms) \<in> logs s \<longrightarrow> log_ok s ms)
     \<and> (\<forall>i b. map_of (as_history_blocks s) i = Some b \<longrightarrow>
          block_ok s b \<and> (\<forall>ms. (i, ms) \<in> logs s \<longrightarrow> above_block b ms))"

lemma log_invD:
  assumes "log_inv s"
  shows "as_floor s \<le> SEQUENCE_ORIGIN" "SEQUENCE_ORIGIN \<le> as_next_sequence s"
    "(i, ms) \<in> logs s \<Longrightarrow> log_ok s ms"
    "map_of (as_history_blocks s) i = Some b \<Longrightarrow> block_ok s b"
    "map_of (as_history_blocks s) i = Some b \<Longrightarrow> (i, ms) \<in> logs s \<Longrightarrow> above_block b ms"
  using assms unfolding log_inv_def by blast+

text \<open>Fewer logs, emptied ones and fewer blocks: what most operations do at most.\<close>

lemma log_inv_less:
  assumes "log_inv s" and "logs t \<subseteq> logs s \<union> UNIV \<times> {[]}"
    and "as_floor t = as_floor s" "as_next_sequence s \<le> as_next_sequence t"
    and "\<And>i b. map_of (as_history_blocks t) i = Some b \<Longrightarrow> map_of (as_history_blocks s) i = Some b"
  shows "log_inv t"
  unfolding log_inv_def
proof (intro conjI allI impI)
  show "as_floor t \<le> SEQUENCE_ORIGIN" using log_invD(1) [OF assms(1)] assms(3) by simp
  show "SEQUENCE_ORIGIN \<le> as_next_sequence t" using log_invD(2) [OF assms(1)] assms(4) by order
next
  fix i ms assume "(i, ms) \<in> logs t"
  then consider "(i, ms) \<in> logs s" | "ms = []" using assms(2) by blast
  then show "log_ok t ms"
  proof cases
    case 1
    then have "log_ok s ms" using log_invD(3) [OF assms(1)] by blast
    then show ?thesis using assms(3,4) by (auto simp: log_ok_def intro: order_trans)
  qed (simp add: log_ok_def)
next
  fix i b assume b: "map_of (as_history_blocks t) i = Some b"
  note b' = assms(5) [OF b]
  show "block_ok t b" using log_invD(4) [OF assms(1) b'] assms(3) by (simp add: block_ok_def)
  fix ms assume "(i, ms) \<in> logs t"
  then consider "(i, ms) \<in> logs s" | "ms = []" using assms(2) by blast
  then show "above_block b ms"
    by cases (use log_invD(5) [OF assms(1) b'] in \<open>auto simp: above_block_def\<close>)
qed

corollary log_inv_same:
  assumes "log_inv s" "logs t = logs s" "as_floor t = as_floor s"
    "as_next_sequence t = as_next_sequence s" "as_history_blocks t = as_history_blocks s"
  shows "log_inv t"
  using assms by (intro log_inv_less [of s t]) auto

lemma logs_update [simp]:
  "logs (s\<lparr>as_attention := a\<rparr>) = logs s"
  "logs (s\<lparr>as_revision := r\<rparr>) = logs s"
  "logs (s\<lparr>as_next_sequence := q\<rparr>) = logs s"
  "logs (s\<lparr>as_duplicates := d\<rparr>) = logs s"
  "logs (s\<lparr>as_history_blocks := b\<rparr>) = logs s"
  "logs (s\<lparr>as_floor := q\<rparr>) = logs s"
  by (simp_all add: logs_def)

lemma logs_set_messages: "logs (set_messages i ms s) \<subseteq> insert (i, ms) (logs s)"
proof -
  have "(\<lambda>c. (conv_id c, conv_messages c)) ` set (change_first (\<lambda>c. conv_id c = i) (\<lambda>c. c\<lparr>conv_messages := ms\<rparr>) cs)
      \<subseteq> insert (i, ms) ((\<lambda>c. (conv_id c, conv_messages c)) ` set cs)" for cs
    by (induction cs) auto
  then show ?thesis by (simp add: logs_def set_messages_def)
qed

lemma messages_of_logs: "conversation_at s i \<noteq> None \<Longrightarrow> (i, messages_of s i) \<in> logs s"
  using conversation_at_id [of s i] by (force simp: messages_of_def logs_def)

lemma messages_of_conversation: "conversation_at s i = Some c \<Longrightarrow> messages_of s i = conv_messages c"
  by (simp add: messages_of_def)

text \<open>One log is replaced.\<close>

lemma log_inv_set_messages:
  assumes "log_inv s" and "log_ok s ms"
    and "\<And>b. map_of (as_history_blocks s) i = Some b \<Longrightarrow> above_block b ms"
  shows "log_inv (set_messages i ms s)"
proof -
  have f: "as_floor (set_messages i ms s) = as_floor s"
    "as_next_sequence (set_messages i ms s) = as_next_sequence s"
    "as_history_blocks (set_messages i ms s) = as_history_blocks s"
    by (simp_all add: set_messages_def)
  have sub: "(j, ns) \<in> logs (set_messages i ms s) \<Longrightarrow> (j, ns) \<in> logs s \<or> (j = i \<and> ns = ms)" for j ns
    using logs_set_messages [of i ms s] by blast
  have ok: "log_ok (set_messages i ms s) = log_ok s" "block_ok (set_messages i ms s) = block_ok s"
    by (simp_all add: fun_eq_iff log_ok_def block_ok_def f)
  show ?thesis
    unfolding log_inv_def ok f
    using log_invD [OF assms(1)] assms(2,3) sub by blast
qed


section \<open>Appending\<close>

text \<open>What an append does, in one step.\<close>

definition appended ::
  "conversation_id \<Rightarrow> chat_message \<Rightarrow> (conversation_id, duplicate_filter) hmap \<Rightarrow> app_state \<Rightarrow> app_state"
  where
  "appended i m d s =
     (let ms = messages_of s i @ [m\<lparr>msg_sequence := as_next_sequence s + 1\<rparr>];
          t = set_messages i (trim_loop ms)
                (s\<lparr>as_duplicates := d, as_next_sequence := as_next_sequence s + 1,
                   as_revision := as_revision s + 1\<rparr>)
      in if MAX_RETAINED < length ms then prune_attention i t else t)"

lemma messages_of_update [simp]:
  "messages_of (s\<lparr>as_attention := a\<rparr>) i = messages_of s i"
  "messages_of (s\<lparr>as_revision := r\<rparr>) i = messages_of s i"
  "messages_of (s\<lparr>as_next_sequence := q\<rparr>) i = messages_of s i"
  "messages_of (s\<lparr>as_duplicates := d\<rparr>) i = messages_of s i"
  "messages_of (s\<lparr>as_history_blocks := b\<rparr>) i = messages_of s i"
  "messages_of (s\<lparr>as_floor := q\<rparr>) i = messages_of s i"
  "messages_of (s\<lparr>as_older := h\<rparr>) i = messages_of s i"
  by (simp_all add: messages_of_def conversation_at_def)

lemma conversation_at_update [simp]:
  "conversation_at (s\<lparr>as_attention := a\<rparr>) i = conversation_at s i"
  "conversation_at (s\<lparr>as_revision := r\<rparr>) i = conversation_at s i"
  "conversation_at (s\<lparr>as_next_sequence := q\<rparr>) i = conversation_at s i"
  "conversation_at (s\<lparr>as_duplicates := d\<rparr>) i = conversation_at s i"
  "conversation_at (s\<lparr>as_history_blocks := b\<rparr>) i = conversation_at s i"
  "conversation_at (s\<lparr>as_floor := q\<rparr>) i = conversation_at s i"
  "conversation_at (s\<lparr>as_older := h\<rparr>) i = conversation_at s i"
  by (simp_all add: conversation_at_def)

lemma append_cases:
  obtains (missing) "conversation_at s i = None" "append_to_conversation o' i m s = (False, s)"
  | (duplicate) d where "conversation_at s i \<noteq> None"
      "append_to_conversation o' i m s = (False, s\<lparr>as_duplicates := d\<rparr>)"
  | (added) d where "conversation_at s i \<noteq> None"
      "append_to_conversation o' i m s = (True, appended i m d s)"
proof (cases "conversation_at s i")
  case None
  then show ?thesis using missing by (simp add: append_to_conversation_def)
next
  case (Some c)
  show ?thesis
  proof (cases "identified m")
    case False
    then have "append_to_conversation o' i m s = (True, appended i m (as_duplicates s) s)"
      using Some
      by (simp add: append_to_conversation_def Let_def next_sequence_def push_bounded_log_def trim_retained_def
          appended_def)
    then show ?thesis using added Some by blast
  next
    case True
    obtain new f where a: "filter_admit m (case map_of (as_duplicates s) i of
        Some f \<Rightarrow> f | None \<Rightarrow> duplicate_filter_new (ou_hasher o')) = (new, f)"
      by (rule prod.exhaust)
    let ?d = "AList.update i f (as_duplicates s)"
    have admit: "admit_in o' i m s = (new, s\<lparr>as_duplicates := ?d\<rparr>)"
      unfolding admit_in_def Let_def a by simp
    show ?thesis
    proof (cases new)
      case False
      then have "append_to_conversation o' i m s = (False, s\<lparr>as_duplicates := ?d\<rparr>)"
        using Some True admit by (simp add: append_to_conversation_def)
      then show ?thesis using duplicate Some by blast
    next
      case [simp]: True
      have "append_to_conversation o' i m s = (True, appended i m ?d s)"
        unfolding append_to_conversation_def Some admit
        using \<open>identified m\<close>
        by (simp add: Let_def next_sequence_def push_bounded_log_def trim_retained_def appended_def)
      then show ?thesis using added Some by blast
    qed
  qed
qed

lemma unat_succ: "q \<noteq> - 1 \<Longrightarrow> unat ((q :: 64 word) + 1) = Suc (unat q)"
  using unatSuc [of q] by (metis add.commute eq_neg_iff_add_eq_0)

lemma word_succ_less: "(q :: 64 word) \<noteq> - 1 \<Longrightarrow> q < q + 1"
  by (simp add: word_less_nat_alt unat_succ)

lemma appended_fields [simp]:
  "as_floor (appended i m d s) = as_floor s"
  "as_next_sequence (appended i m d s) = as_next_sequence s + 1"
  "as_history_blocks (appended i m d s) = as_history_blocks s"
  by (simp_all add: appended_def Let_def prune_attention_def set_messages_def)

lemma logs_prune [simp]: "logs (prune_attention i s) = logs s"
  by (simp add: prune_attention_def)

lemma log_inv_attention [simp]: "log_inv (s\<lparr>as_attention := a\<rparr>) = log_inv s"
  by (simp add: log_inv_def log_ok_def block_ok_def)

lemma log_inv_prune [simp]: "log_inv (prune_attention i s) = log_inv s"
  by (simp add: prune_attention_def)

lemma log_inv_appended:
  assumes inv: "log_inv s" and room: "as_next_sequence s \<noteq> - 1" and c: "conversation_at s i \<noteq> None"
  shows "log_inv (appended i m d s)"
proof -
  let ?q = "as_next_sequence s"
  define t where "t = s\<lparr>as_duplicates := d, as_next_sequence := ?q + 1, as_revision := as_revision s + 1\<rparr>"
  define ms where "ms = messages_of s i @ [m\<lparr>msg_sequence := ?q + 1\<rparr>]"
  have less: "?q < ?q + 1" using room by (rule word_succ_less)
  then have t: "log_inv t" using inv by (intro log_inv_less [of s t]) (auto simp: t_def)
  note old = log_invD [OF inv]
  have in_logs: "(i, messages_of s i) \<in> logs s" using c by (rule messages_of_logs)
  have ok: "log_ok s (messages_of s i)" using old(3) [OF in_logs] .
  have ms_ok: "log_sorted ms \<and> (\<forall>m \<in> set ms. as_floor s \<le> msg_sequence m \<and> msg_sequence m \<le> ?q + 1)"
    using ok less old(1,2) by (fastforce simp: ms_def log_ok_def)
  then have "log_ok t (trim_loop ms)"
    using set_trim_loop [of ms] trim_loop_length [of ms] log_sorted_trim [of ms]
    by (auto simp: log_ok_def t_def)
  moreover have "above_block b (trim_loop ms)" if b: "map_of (as_history_blocks t) i = Some b" for b
  proof -
    have b': "map_of (as_history_blocks s) i = Some b" using b by (simp add: t_def)
    have ge: "unat (hb_start b) + HISTORY_RESERVE \<le> unat (?q + 1)"
      using old(2) old(4) [OF b'] less by (auto simp: block_ok_def word_le_nat_alt word_less_nat_alt)
    then have "hb_start b \<le> ?q + 1" by (simp add: word_le_nat_alt)
    with ge have "above_block b ms" using old(5) [OF b' in_logs] by (auto simp: above_block_def ms_def)
    then show ?thesis using set_trim_loop [of ms] by (auto simp: above_block_def)
  qed
  ultimately have "log_inv (set_messages i (trim_loop ms) t)" using t by (intro log_inv_set_messages)
  then show ?thesis by (simp add: appended_def Let_def ms_def t_def)
qed

lemma log_inv_duplicates [simp]: "log_inv (s\<lparr>as_duplicates := d\<rparr>) = log_inv s"
  by (simp add: log_inv_def log_ok_def block_ok_def)


section \<open>Older pages\<close>

lemma log_sorted_insert:
  assumes "log_sorted ms" and "msg_sequence m \<notin> msg_sequence ` set ms"
  shows "log_sorted (insert_at (partition_below (msg_sequence m) ms) m ms)"
proof -
  have "msg_sequence x < msg_sequence m" if "x \<in> set ms" "\<not> msg_sequence m < msg_sequence x" for x
    using that assms(2) by (metis imageI linorder_less_linear)
  then show ?thesis
    unfolding insert_at_def partition_below_split [OF assms(1)]
    using log_sorted_take [OF assms(1), of "partition_below (msg_sequence m) ms"]
      log_sorted_drop [OF assms(1), of "partition_below (msg_sequence m) ms"]
    by (auto simp: partition_below_split [OF assms(1)] intro: less_trans)
qed

lemma same_attention: "\<exists>a. s = s\<lparr>as_attention := a\<rparr>" for s :: app_state
  by (rule exI [of _ "as_attention s"]) simp

lemma note_attention_at_only: "\<exists>a. note_attention_at i q s = s\<lparr>as_attention := a\<rparr>"
proof (cases "(i, q) \<in> set (as_attention s)")
  case False
  then show ?thesis
    by (cases "attention_room s i q") (auto simp: note_attention_at_def Let_def same_attention)
qed (simp add: note_attention_at_def same_attention)

lemma note_attention_only: "\<exists>a. note_attention i s = s\<lparr>as_attention := a\<rparr>"
  using note_attention_at_only
  by (simp add: note_attention_def same_attention split: option.split)

definition place_line :: "conversation_id \<Rightarrow> chat_message \<Rightarrow> app_state \<Rightarrow> app_state" where
  "place_line i m s =
     set_messages i
       (trim_loop (insert_at (partition_below (msg_sequence m) (messages_of s i)) m (messages_of s i)))
       (s\<lparr>as_revision := as_revision s + 1\<rparr>)"

lemma place_streamed_line: "\<exists>a. place_streamed i m attention s = (place_line i m s)\<lparr>as_attention := a\<rparr>"
proof -
  let ?t = "place_line i m s"
  obtain a where a: "note_attention_at i (msg_sequence m) ?t = ?t\<lparr>as_attention := a\<rparr>"
    using note_attention_at_only by blast
  have b: "\<exists>b. ?t = ?t\<lparr>as_attention := b\<rparr>" by (rule exI [of _ "as_attention ?t"]) simp
  have "place_streamed i m attention s =
      (let u = (if attention then note_attention_at i (msg_sequence m) ?t else ?t)
       in if MAX_RETAINED < length (insert_at (partition_below (msg_sequence m) (messages_of s i)) m (messages_of s i))
          then prune_attention i u else u)"
    by (simp add: place_streamed_def Let_def trim_retained_def place_line_def)
  then show ?thesis using a b by (auto simp: Let_def prune_attention_def)
qed

lemma log_inv_place_line:
  assumes inv: "log_inv s" and c: "conversation_at s i \<noteq> None"
    and fresh: "msg_sequence m \<notin> msg_sequence ` set (messages_of s i)"
    and range: "as_floor s \<le> msg_sequence m" "msg_sequence m \<le> as_next_sequence s"
    and inside: "\<And>b. map_of (as_history_blocks s) i = Some b \<Longrightarrow>
      hb_start b \<le> msg_sequence m \<and> msg_sequence m < hb_next b"
  shows "log_inv (place_line i m s)"
proof -
  let ?ms = "messages_of s i"
  let ?t = "s\<lparr>as_revision := as_revision s + 1\<rparr>"
  let ?new = "insert_at (partition_below (msg_sequence m) ?ms) m ?ms"
  have in_logs: "(i, ?ms) \<in> logs s" using c by (rule messages_of_logs)
  have t: "log_inv ?t" using inv by (rule log_inv_same) simp_all
  have ok: "log_ok s ?ms" using log_invD(3) [OF inv in_logs] .
  have "log_sorted (trim_loop ?new)"
    using ok fresh by (intro log_sorted_trim log_sorted_insert) (auto simp: log_ok_def)
  then have "log_ok ?t (trim_loop ?new)"
    using set_trim_loop [of ?new] trim_loop_length [of ?new] ok range by (auto simp: log_ok_def)
  moreover have "above_block b (trim_loop ?new)" if "map_of (as_history_blocks ?t) i = Some b" for b
    using set_trim_loop [of ?new] inside [of b] log_invD(5) [OF inv _ in_logs, of b] that
    by (auto simp: above_block_def)
  ultimately show ?thesis unfolding place_line_def using t by (intro log_inv_set_messages)
qed

lemma log_inv_block:
  assumes "log_inv s" "block_ok s b" "\<And>ms. (i, ms) \<in> logs s \<Longrightarrow> above_block b ms"
  shows "log_inv (s\<lparr>as_history_blocks := AList.update i b (as_history_blocks s)\<rparr>)"
  using assms unfolding log_inv_def
  by (auto simp: log_ok_def block_ok_def update_conv' split: if_splits)

text \<open>Opening a block moves the floor below every line.\<close>

lemma log_inv_floor:
  assumes "log_inv s" "f \<le> as_floor s"
  shows "log_inv (s\<lparr>as_floor := f\<rparr>)"
  using assms unfolding log_inv_def log_ok_def block_ok_def
  by (auto intro: order_trans)

lemma open_block_cases:
  obtains (same) b where "map_of (as_history_blocks s) i = Some b" "hb_request b = request"
      "open_block o' i request s = s"
  | (fresh) near where
      "open_block o' i request s =
         s\<lparr>as_floor := as_floor s - 256,
           as_history_blocks := AList.update i
             \<lparr>hb_start = as_floor s - 256, hb_next = as_floor s - 256, hb_request = request,
              hb_room = min (MAX_RETAINED - length (messages_of s i)) HISTORY_RESERVE, hb_near_top = near\<rparr>
             (as_history_blocks s)\<rparr>"
proof (cases "\<exists>b. map_of (as_history_blocks s) i = Some b \<and> hb_request b = request")
  case False
  then have "\<not> (case map_of (as_history_blocks s) i of None \<Rightarrow> False | Some b \<Rightarrow> hb_request b = request)"
    by (auto split: option.splits)
  then show ?thesis
    using fresh [of "fold (\<lambda>m f. snd (filter_admit m f))
        (rev (take OLDER_PAGE_OVERLAP_WINDOW (messages_of s i))) (duplicate_filter_new (ou_hasher o'))"]
    by (simp add: open_block_def Let_def HISTORY_RESERVE_def)
next
  case True
  then obtain b where b: "map_of (as_history_blocks s) i = Some b" "hb_request b = request" by blast
  then have "open_block o' i request s = s" by (simp add: open_block_def)
  with b show ?thesis using same by blast
qed

lemma unat_floor_minus:
  assumes "HISTORY_RESERVE \<le> unat (f :: 64 word)"
  shows "unat (f - 256) = unat f - 256" "f - 256 \<le> f"
proof -
  have "(256 :: 64 word) \<le> f" using assms by (simp add: word_le_nat_alt HISTORY_RESERVE_def)
  then show "unat (f - 256) = unat f - 256" by (simp add: unat_sub)
  then show "f - 256 \<le> f" by (simp add: word_le_nat_alt)
qed

lemma log_inv_open_block:
  assumes inv: "log_inv s" and low: "HISTORY_RESERVE \<le> unat (as_floor s)"
  shows "log_inv (open_block o' i request s)"
proof (cases rule: open_block_cases [of s i request o'])
  case (fresh near)
  let ?f = "as_floor s - 256"
  define b where "b = \<lparr>hb_start = ?f, hb_next = ?f, hb_request = request,
              hb_room = min (MAX_RETAINED - length (messages_of s i)) HISTORY_RESERVE, hb_near_top = near\<rparr>"
  note f = unat_floor_minus [OF low]
  have s': "log_inv (s\<lparr>as_floor := ?f\<rparr>)" using inv f(2) by (rule log_inv_floor)
  have "unat (as_floor s) \<le> unat SEQUENCE_ORIGIN" using log_invD(1) [OF inv] by (simp add: word_le_nat_alt)
  then have "block_ok (s\<lparr>as_floor := ?f\<rparr>) b"
    using f(1) low by (simp add: block_ok_def b_def HISTORY_RESERVE_def)
  moreover have "above_block b ms" if "(j, ms) \<in> logs s" for j ms
  proof -
    have "as_floor s \<le> msg_sequence m" if "m \<in> set ms" for m
      using log_invD(3) [OF inv \<open>(j, ms) \<in> logs s\<close>] that by (simp add: log_ok_def)
    then have "unat (as_floor s) \<le> unat (msg_sequence m)" if "m \<in> set ms" for m
      using that by (simp add: word_le_nat_alt)
    then show ?thesis
      using f(1) low by (fastforce simp: above_block_def b_def HISTORY_RESERVE_def word_le_nat_alt)
  qed
  ultimately have "log_inv ((s\<lparr>as_floor := ?f\<rparr>)\<lparr>as_history_blocks := AList.update i b (as_history_blocks s)\<rparr>)"
    using log_inv_block [OF s', of b i] by simp
  then show ?thesis using fresh by (simp add: b_def)
qed (use inv in simp)


text \<open>A page's line is put in the block of its request, or changes nothing but the filter.\<close>

lemma push_cases:
  obtains (stale) "push_older_history_line o' i request line s = (False, s)"
      "older_history_in_flight s i \<noteq> Some request \<or> conversation_at s i = None"
  | (full) "push_older_history_line o' i request line s = (False, open_block o' i request s)"
  | (dropped) b near where "map_of (as_history_blocks (open_block o' i request s)) i = Some b"
      "push_older_history_line o' i request line s =
         (False, (open_block o' i request s)\<lparr>as_history_blocks :=
            AList.update i (b\<lparr>hb_near_top := near\<rparr>) (as_history_blocks (open_block o' i request s))\<rparr>)"
  | (shown) b near where "older_history_in_flight s i = Some request" "conversation_at s i \<noteq> None"
      "map_of (as_history_blocks (open_block o' i request s)) i = Some b"
      "unat (hb_next b - hb_start b) < hb_room b"
      "push_older_history_line o' i request line s =
         (True, place_streamed i ((requested_message o' line)\<lparr>msg_sequence := hb_next b\<rparr>) (tl_attention line)
            ((open_block o' i request s)\<lparr>as_history_blocks :=
               AList.update i (b\<lparr>hb_near_top := near, hb_next := hb_next b + 1\<rparr>)
                 (as_history_blocks (open_block o' i request s))\<rparr>))"
proof (cases "older_history_in_flight s i \<noteq> Some request \<or> conversation_at s i = None")
  case True
  then have "push_older_history_line o' i request line s = (False, s)"
    by (auto simp: push_older_history_line_def)
  with True show ?thesis using stale by blast
next
  case False
  let ?s = "open_block o' i request s" and ?m = "requested_message o' line"
  have push: "push_older_history_line o' i request line s =
      (case map_of (as_history_blocks ?s) i of
         None \<Rightarrow> (False, ?s)
       | Some block \<Rightarrow>
           (if hb_room block \<le> unat (hb_next block - hb_start block) then (False, ?s)
            else
              (let known = (case map_of (as_duplicates ?s) i of
                              None \<Rightarrow> False | Some f \<Rightarrow> filter_contains f ?m);
                   (new, near_top) = (if known then (False, hb_near_top block)
                                      else filter_admit ?m (hb_near_top block));
                   block = block\<lparr>hb_near_top := near_top\<rparr>
               in if known \<or> \<not> new
                  then (False, ?s\<lparr>as_history_blocks := AList.update i block (as_history_blocks ?s)\<rparr>)
                  else
                    (let m = ?m\<lparr>msg_sequence := hb_next block\<rparr>;
                         block = block\<lparr>hb_next := hb_next block + 1\<rparr>;
                         s = ?s\<lparr>as_history_blocks := AList.update i block (as_history_blocks ?s)\<rparr>
                     in (True, place_streamed i m (tl_attention line) s)))))"
  proof -
    have "(older_history_in_flight s i \<noteq> Some request) = False" "(conversation_at s i = None) = False"
      using False by auto
    then show ?thesis unfolding push_older_history_line_def by (simp only: Let_def if_False)
  qed
  show ?thesis
  proof (cases "map_of (as_history_blocks ?s) i")
    case None
    then show ?thesis using full push by simp
  next
    case (Some b)
    show ?thesis
    proof (cases "hb_room b \<le> unat (hb_next b - hb_start b)")
      case True
      then show ?thesis using full push Some by simp
    next
      case room: False
      define known where "known = (case map_of (as_duplicates ?s) i of
                              None \<Rightarrow> False | Some f \<Rightarrow> filter_contains f ?m)"
      obtain new near where nn: "(if known then (False, hb_near_top b) else filter_admit ?m (hb_near_top b)) = (new, near)"
        by (rule prod.exhaust)
      note p = push [unfolded Some option.case if_not_P [OF room] Let_def, folded known_def, unfolded nn prod.case]
      show ?thesis
      proof (cases "known \<or> \<not> new")
        case True
        then show ?thesis using dropped [OF Some] p by simp
      next
        case new: False
        show ?thesis
          using shown [OF _ _ Some, of near] False room p new by (simp add: not_le)
      qed
    qed
  qed
qed

lemma open_block_frame [simp]:
  "ts_conversations (open_block o' i request s) = ts_conversations s"
  "as_next_sequence (open_block o' i request s) = as_next_sequence s"
  "as_attention (open_block o' i request s) = as_attention s"
  by (cases rule: open_block_cases [of s i request o']; simp)+

lemma open_block_logs [simp]:
  "logs (open_block o' i request s) = logs s"
  "conversation_at (open_block o' i request s) i = conversation_at s i"
  "messages_of (open_block o' i request s) i = messages_of s i"
  by (simp_all add: logs_def conversation_at_def messages_of_def)

lemma block_next:
  assumes "block_ok s b" and room: "unat (hb_next b - hb_start b) < hb_room b"
  shows "unat (hb_next b) < unat (hb_start b) + HISTORY_RESERVE"
    and "unat (hb_next b + 1) = Suc (unat (hb_next b))"
    and "block_ok s (b\<lparr>hb_near_top := near, hb_next := hb_next b + 1\<rparr>)"
proof -
  have b: "hb_start b \<le> hb_next b" "hb_room b \<le> HISTORY_RESERVE"
    "unat (hb_start b) + HISTORY_RESERVE \<le> unat SEQUENCE_ORIGIN"
    using assms(1) by (auto simp: block_ok_def)
  have sub: "unat (hb_next b - hb_start b) = unat (hb_next b) - unat (hb_start b)"
    using b(1) by (simp add: unat_sub)
  have le: "unat (hb_start b) \<le> unat (hb_next b)" using b(1) by (simp add: word_le_nat_alt)
  show less: "unat (hb_next b) < unat (hb_start b) + HISTORY_RESERVE" using room sub le b(2) by linarith
  then have "unat (hb_next b) < unat SEQUENCE_ORIGIN" using b(3) by linarith
  then have "hb_next b \<noteq> - 1"
    by (auto simp: SEQUENCE_ORIGIN_def unsigned_minus_1_eq_mask mask_eq_exp_minus_1)
  then show step: "unat (hb_next b + 1) = Suc (unat (hb_next b))" by (rule unat_succ)
  show "block_ok s (b\<lparr>hb_near_top := near, hb_next := hb_next b + 1\<rparr>)"
    using assms(1) step le sub room by (auto simp: block_ok_def word_le_nat_alt)
qed

lemma log_inv_push:
  assumes inv: "log_inv s" and low: "HISTORY_RESERVE \<le> unat (as_floor s)"
  shows "log_inv (snd (push_older_history_line o' i request line s))"
proof (cases rule: push_cases [of o' i request line s])
  case stale
  then show ?thesis using inv by simp
next
  case full
  then show ?thesis using log_inv_open_block [OF inv low] by simp
next
  case (dropped b near)
  let ?s = "open_block o' i request s"
  note s = log_inv_open_block [OF inv low, of o' i request]
  have "log_inv (?s\<lparr>as_history_blocks := AList.update i (b\<lparr>hb_near_top := near\<rparr>) (as_history_blocks ?s)\<rparr>)"
    using log_invD(4,5) [OF s dropped(1)] by (intro log_inv_block [OF s]) (auto simp: block_ok_def above_block_def)
  then show ?thesis using dropped by simp
next
  case (shown b near)
  let ?s = "open_block o' i request s" and ?b = "b\<lparr>hb_near_top := near, hb_next := hb_next b + 1\<rparr>"
    and ?m = "(requested_message o' line)\<lparr>msg_sequence := hb_next b\<rparr>"
  let ?t = "?s\<lparr>as_history_blocks := AList.update i ?b (as_history_blocks ?s)\<rparr>"
  note s = log_inv_open_block [OF inv low, of o' i request]
  note ok = log_invD(4) [OF s shown(3)]
  note step = block_next [OF ok shown(4)]
  have less: "hb_next b < hb_next b + 1" using step(2) by (simp add: word_less_nat_alt)
  have above: "above_block b ms" if "(i, ms) \<in> logs ?s" for ms
    using log_invD(5) [OF s shown(3) that] .
  have "above_block ?b ms" if "(i, ms) \<in> logs ?s" for ms
    using above [OF that] less by (auto simp: above_block_def)
  then have t: "log_inv ?t" using log_inv_block [OF s step(3)] by blast
  have in_logs: "(i, messages_of s i) \<in> logs ?s" using messages_of_logs [OF shown(2)] by simp
  have "log_inv (place_line i ?m ?t)"
  proof (rule log_inv_place_line [OF t])
    show "conversation_at ?t i \<noteq> None" using shown(2) by simp
    show "msg_sequence ?m \<notin> msg_sequence ` set (messages_of ?t i)"
      using above [OF in_logs] step(1) by (auto simp: above_block_def)
    have "hb_next b \<le> SEQUENCE_ORIGIN"
      using step(1) ok by (auto simp: block_ok_def word_le_nat_alt)
    moreover have "SEQUENCE_ORIGIN \<le> as_next_sequence ?t" using log_invD(2) [OF t] .
    ultimately show "msg_sequence ?m \<le> as_next_sequence ?t" by simp
    show "as_floor ?t \<le> msg_sequence ?m" using ok by (auto simp: block_ok_def)
    show "hb_start b' \<le> msg_sequence ?m \<and> msg_sequence ?m < hb_next b'"
      if "map_of (as_history_blocks ?t) i = Some b'" for b'
      using that ok less by (auto simp: block_ok_def update_conv')
  qed
  then show ?thesis using shown(5) place_streamed_line [of i ?m "tl_attention line" ?t] by auto
qed


section \<open>Server-time order\<close>

text \<open>By time, and lines of equal time in the order they arrived.\<close>

definition time_before :: "timestamp option list \<Rightarrow> nat \<Rightarrow> nat \<Rightarrow> bool" where
  "time_before ts i j \<longleftrightarrow>
     time_rank (inherited_times None ts ! i) < time_rank (inherited_times None ts ! j)
     \<or> (time_rank (inherited_times None ts ! i) = time_rank (inherited_times None ts ! j) \<and> i < j)"

lemma length_inherited [simp]: "length (inherited_times t ts) = length ts"
  by (induction ts arbitrary: t) (simp_all add: Let_def)

lemma inherited_all_timed: "None \<notin> set ts \<Longrightarrow> inherited_times t ts = ts"
  by (induction ts arbitrary: t) (auto simp: Let_def split: option.split)

lemma sort_key_stable_order:
  fixes f :: "nat \<Rightarrow> nat"
  assumes "sorted_wrt (<) xs"
  shows "sorted_wrt (\<lambda>i j. f i < f j \<or> f i = f j \<and> i < j) (sort_key f xs)"
  using assms
proof (induction xs)
  case (Cons x xs)
  let ?R = "\<lambda>i j. f i < f j \<or> f i = f j \<and> i < j"
  have "sorted_wrt ?R (insort_key f x ys)" if "sorted_wrt ?R ys" "\<forall>y \<in> set ys. x < y" for ys
    using that by (induction ys) (auto simp: set_insort_key)
  moreover have "\<forall>y \<in> set (sort_key f xs). x < y" using Cons.prems by simp
  ultimately show ?case using Cons by simp
qed simp

lemma server_time_order_facts:
  "mset (server_time_order ts) = mset [0..<length ts]"
  "length (server_time_order ts) = length ts"
  "distinct (server_time_order ts)"
  "set (server_time_order ts) = {..<length ts}"
  "sorted_wrt (time_before ts) (server_time_order ts)"
proof -
  have u: "sorted_wrt (<) [0..<length ts]" by simp
  show "sorted_wrt (time_before ts) (server_time_order ts)"
    using sort_key_stable_order [OF u, of "\<lambda>i. time_rank (inherited_times None ts ! i)"]
    by (simp add: server_time_order_def Let_def time_before_def [abs_def])
qed (auto simp: server_time_order_def Let_def)

section \<open>Settling a page\<close>

definition renumber :: "64 word \<Rightarrow> chat_message list \<Rightarrow> chat_message list" where
  "renumber first ms = map (\<lambda>(k, m). m\<lparr>msg_sequence := first + of_nat k\<rparr>) (enumerate 0 ms)"

definition in_time_order :: "chat_message list \<Rightarrow> chat_message list" where
  "in_time_order ms = map (\<lambda>k. ms ! k) (server_time_order (map msg_timestamp ms))"

lemma length_renumber [simp]: "length (renumber first ms) = length ms"
  by (simp add: renumber_def)

lemma nth_renumber: "k < length ms \<Longrightarrow> renumber first ms ! k = (ms ! k)\<lparr>msg_sequence := first + of_nat k\<rparr>"
  by (simp add: renumber_def nth_enumerate_eq)

lemma length_in_time_order [simp]: "length (in_time_order ms) = length ms"
  by (simp add: in_time_order_def server_time_order_facts)

lemma mset_in_time_order: "mset (in_time_order ms) = mset ms"
proof -
  have "mset (in_time_order ms) = image_mset ((!) ms) (mset [0..<length ms])"
    by (simp only: in_time_order_def mset_map server_time_order_facts length_map)
  also have "\<dots> = mset (map ((!) ms) [0..<length ms])" by (simp only: mset_map)
  finally show ?thesis by (simp only: map_nth)
qed

lemma unat_plus_nat:
  assumes "unat (first :: 64 word) + k < 2 ^ 64"
  shows "unat (first + of_nat k) = unat first + k"
proof -
  have "unat (of_nat k :: 64 word) = k" using assms by (simp add: unsigned_of_nat take_bit_nat_eq_self)
  then show ?thesis using assms by (simp add: unat_word_ariths(1))
qed

lemma renumber_sequences:
  assumes "unat first + length ms < 2 ^ 64" and "m \<in> set (renumber first ms)"
  shows "\<exists>k < length ms. msg_sequence m = first + of_nat k \<and> unat (msg_sequence m) = unat first + k"
proof -
  obtain k where "k < length ms" "m = renumber first ms ! k"
    using assms(2) by (auto simp: in_set_conv_nth)
  then show ?thesis using assms(1) by (intro exI [of _ k]) (simp add: nth_renumber unat_plus_nat)
qed

lemma log_sorted_renumber:
  assumes "unat first + length ms < 2 ^ 64"
  shows "log_sorted (renumber first ms)"
  using assms
  by (auto simp: log_sorted_def sorted_wrt_iff_nth_less nth_renumber word_less_nat_alt unat_plus_nat)

text \<open>The lines of a page are at most as many as its block has sequences.\<close>

lemma length_in_range:
  assumes "log_sorted ms" and "\<forall>m \<in> set ms. first \<le> msg_sequence m \<and> unat (msg_sequence m) < unat first + n"
  shows "length ms \<le> n"
proof -
  have "distinct (map msg_sequence ms)"
    using assms(1) by (simp add: log_sorted_def strict_sorted_iff)
  then have "distinct (map (\<lambda>m. unat (msg_sequence m)) ms)"
    by (auto simp: distinct_map inj_on_def word_unat_eq_iff)
  then have "length ms = card (set (map (\<lambda>m. unat (msg_sequence m)) ms))"
    using distinct_card by fastforce
  also have "\<dots> \<le> card {unat first ..< unat first + n}"
    using assms(2) by (intro card_mono) (auto simp: word_le_nat_alt)
  finally show ?thesis by simp
qed

definition block_lines :: "64 word \<Rightarrow> chat_message list \<Rightarrow> chat_message list" where
  "block_lines first ms =
     filter (\<lambda>m. first \<le> msg_sequence m \<and> msg_sequence m < first + of_nat HISTORY_RESERVE) ms"

lemma filter_twice_conj: "filter P (filter Q xs) = filter (\<lambda>x. Q x \<and> P x) xs"
  by (simp add: conj_commute)

lemma block_end:
  assumes "unat (first :: 64 word) + HISTORY_RESERVE \<le> unat SEQUENCE_ORIGIN"
  shows "unat (first + of_nat HISTORY_RESERVE) = unat first + HISTORY_RESERVE"
    "unat (first + of_nat HISTORY_RESERVE - first) = HISTORY_RESERVE"
proof -
  have "unat first + 256 < 2 ^ 64" using assms by (simp add: HISTORY_RESERVE_def SEQUENCE_ORIGIN_def)
  then have "unat (first + of_nat 256) = unat first + 256" by (rule unat_plus_nat)
  then show "unat (first + of_nat HISTORY_RESERVE) = unat first + HISTORY_RESERVE"
    by (simp add: HISTORY_RESERVE_def)
  show "unat (first + of_nat HISTORY_RESERVE - first) = HISTORY_RESERVE"
    by (simp add: HISTORY_RESERVE_def)
qed

text \<open>Settling, on a log in order whose lines are all in or above the block.\<close>

lemma settle_messages:
  assumes sorted: "log_sorted ms" and above: "\<forall>m \<in> set ms. first \<le> msg_sequence m"
    and top: "unat first + HISTORY_RESERVE \<le> unat SEQUENCE_ORIGIN"
  defines "until \<equiv> first + of_nat HISTORY_RESERVE"
  defines "low \<equiv> partition_below first ms" and "high \<equiv> partition_below until ms"
  shows "take low ms = []" "low = 0"
    and "take (high - low) (drop low ms) = block_lines first ms"
    and "drop high ms = filter (\<lambda>m. until \<le> msg_sequence m) ms"
    and "length (block_lines first ms) \<le> HISTORY_RESERVE"
proof -
  have none: "filter (\<lambda>m. msg_sequence m < first) ms = []"
    using above by (auto simp: filter_empty_conv not_less)
  show low: "take low ms = []" unfolding low_def using partition_below_split(1) [OF sorted] none by simp
  then have "low = 0 \<or> ms = []" by simp
  then show z: "low = 0" by (auto simp: low_def partition_below_def)
  have "take high ms = filter (\<lambda>m. msg_sequence m < until) ms"
    unfolding high_def by (rule partition_below_split(1) [OF sorted])
  also have "\<dots> = block_lines first ms"
    unfolding block_lines_def until_def using above by (intro filter_cong) auto
  finally show lines: "take (high - low) (drop low ms) = block_lines first ms" by (simp add: z)
  show "drop high ms = filter (\<lambda>m. until \<le> msg_sequence m) ms"
    unfolding high_def by (simp add: partition_below_split(2) [OF sorted] not_less)
  have "log_sorted (block_lines first ms)" using log_sorted_take [OF sorted, of high] lines z by simp
  moreover have "\<forall>m \<in> set (block_lines first ms).
      first \<le> msg_sequence m \<and> unat (msg_sequence m) < unat first + HISTORY_RESERVE"
    using block_end(1) [OF top] by (auto simp: block_lines_def word_less_nat_alt)
  ultimately show "length (block_lines first ms) \<le> HISTORY_RESERVE" by (rule length_in_range)
qed


definition settled_log :: "64 word \<Rightarrow> chat_message list \<Rightarrow> chat_message list" where
  "settled_log first ms =
     renumber first (in_time_order (block_lines first ms))
     @ filter (\<lambda>m. first + of_nat HISTORY_RESERVE \<le> msg_sequence m) ms"

definition page_order :: "64 word \<Rightarrow> chat_message list \<Rightarrow> nat list" where
  "page_order first ms = server_time_order (map msg_timestamp (block_lines first ms))"

definition settled_attention ::
  "conversation_id \<Rightarrow> 64 word \<Rightarrow> chat_message list \<Rightarrow> (conversation_id \<times> 64 word) list
   \<Rightarrow> (conversation_id \<times> 64 word) list" where
  "settled_attention i first ms queue =
     (let lines = block_lines first ms; order = page_order first ms
      in if order = [0..<length order] then queue
         else settle_attention i first (first + of_nat HISTORY_RESERVE)
           (moved_to first lines order 0 (length lines)) queue)"

lemma settle_block_effect:
  assumes sorted: "log_sorted (messages_of s i)" and above: "\<forall>m \<in> set (messages_of s i). first \<le> msg_sequence m"
    and top: "unat first + HISTORY_RESERVE \<le> unat SEQUENCE_ORIGIN"
  shows "\<exists>r. settle_block i first (first + of_nat HISTORY_RESERVE) None s =
    (length (block_lines first (messages_of s i)),
     set_messages i (settled_log first (messages_of s i))
       (s\<lparr>as_attention := settled_attention i first (messages_of s i) (as_attention s), as_revision := r\<rparr>))"
proof -
  let ?ms = "messages_of s i"
  note cut = settle_messages [OF sorted above top]
  let ?B = "block_lines first ?ms" and ?o = "page_order first ?ms"
  have order: "server_time_order (map msg_timestamp ?B) = ?o" by (simp add: page_order_def)
  have len: "length ?o = length ?B" by (simp add: page_order_def server_time_order_facts)
  have block: "map (\<lambda>(k, m). m\<lparr>msg_sequence := first + of_nat k\<rparr>)
      (enumerate 0 (take (unat (first + of_nat HISTORY_RESERVE - first)) ([] @ map ((!) ?B) ?o)))
      = renumber first (in_time_order ?B)"
    using cut(5) len by (simp only: block_end(2) [OF top]) (simp add: renumber_def in_time_order_def order)
  have settle: "settle_block i first (first + of_nat HISTORY_RESERVE) None s =
      (length (renumber first (in_time_order ?B)),
       set_messages i (settled_log first ?ms)
         (if ?o \<noteq> [0..<length ?o]
          then s\<lparr>as_attention := settle_attention i first (first + of_nat HISTORY_RESERVE)
                   (moved_to first ?B ?o 0 (length (renumber first (in_time_order ?B)))) (as_attention s),
                 as_revision := as_revision s + 1\<rparr>
          else s))"
    unfolding settle_block_def Let_def cut(3,4) cut(1) order option.case block
    by (simp add: settled_log_def)
  show ?thesis
  proof (cases "?o = [0..<length ?o]")
    case True
    then have "s = s\<lparr>as_attention := settled_attention i first ?ms (as_attention s), as_revision := as_revision s\<rparr>"
      by (simp add: settled_attention_def Let_def)
    then show ?thesis using settle True by (intro exI [of _ "as_revision s"]) simp
  next
    case False
    then show ?thesis using settle
      by (intro exI [of _ "as_revision s + 1"]) (simp add: settled_attention_def Let_def)
  qed
qed

lemma log_ok_settled:
  assumes inv: "log_inv s" and ok: "log_ok s ms" and floor: "as_floor s \<le> first"
    and above: "\<forall>m \<in> set ms. first \<le> msg_sequence m"
    and top: "unat first + HISTORY_RESERVE \<le> unat SEQUENCE_ORIGIN"
  shows "log_ok s (settled_log first ms)"
proof -
  let ?B = "block_lines first ms" and ?until = "first + of_nat HISTORY_RESERVE"
  let ?R = "renumber first (in_time_order ?B)" and ?H = "filter (\<lambda>m. ?until \<le> msg_sequence m) ms"
  have sorted: "log_sorted ms" using ok by (simp add: log_ok_def)
  note cut = settle_messages [OF sorted above top]
  have origin: "unat SEQUENCE_ORIGIN < 2 ^ 64" by (simp add: SEQUENCE_ORIGIN_def)
  have small: "unat first + length (in_time_order ?B) < 2 ^ 64"
    using cut(5) top origin by simp
  have R: "first \<le> msg_sequence m \<and> unat (msg_sequence m) < unat ?until" if "m \<in> set ?R" for m
    using renumber_sequences [OF small that] cut(5) block_end(1) [OF top] by (auto simp: word_le_nat_alt)
  have "log_sorted ?R" using small by (rule log_sorted_renumber)
  moreover have "log_sorted ?H" using log_sorted_drop [OF sorted] cut(4) by metis
  moreover have "\<forall>x \<in> set ?R. \<forall>y \<in> set ?H. msg_sequence x < msg_sequence y"
    using R by (fastforce simp: word_less_nat_alt word_le_nat_alt)
  ultimately have "log_sorted (settled_log first ms)" by (simp add: settled_log_def)
  moreover have "length (settled_log first ms) \<le> length ms"
  proof -
    have "length (settled_log first ms) = length ?B + length ?H" by (simp add: settled_log_def)
    also have "\<dots> \<le> length ms"
      unfolding cut(3,4) [symmetric] by simp
    finally show ?thesis .
  qed
  moreover have "as_floor s \<le> msg_sequence m \<and> msg_sequence m \<le> as_next_sequence s" if "m \<in> set ?R" for m
  proof -
    have "unat (msg_sequence m) \<le> unat SEQUENCE_ORIGIN" using R [OF that] block_end(1) [OF top] top by linarith
    then show ?thesis
      using R [OF that] floor log_invD(2) [OF inv] by (auto simp: word_le_nat_alt)
  qed
  ultimately show ?thesis using ok by (auto simp: log_ok_def settled_log_def)
qed


lemma log_inv_blocks_delete:
  assumes "log_inv s"
  shows "log_inv (s\<lparr>as_older := h, as_history_blocks := AList.delete i (as_history_blocks s)\<rparr>)"
  by (rule log_inv_less [OF assms]) (auto simp: delete_conv' logs_def restrict_map_def split: if_splits)

lemma log_inv_revision [simp]: "log_inv (s\<lparr>as_revision := r\<rparr>) = log_inv s"
  by (simp add: log_inv_def log_ok_def block_ok_def)

lemma log_inv_older [simp]: "log_inv (s\<lparr>as_older := r\<rparr>) = log_inv s"
  by (simp add: log_inv_def log_ok_def block_ok_def logs_def)

text \<open>The end of a page, in one step.\<close>

definition page_over :: "conversation_id \<Rightarrow> older_history \<Rightarrow> app_state \<Rightarrow> app_state" where
  "page_over i h s =
     s\<lparr>as_older := AList.update i (h\<lparr>oh_in_flight := None\<rparr>) (as_older s),
       as_history_blocks := AList.delete i (as_history_blocks s)\<rparr>"

definition finished_page ::
  "conversation_id \<Rightarrow> older_history \<Rightarrow> 64 word \<Rightarrow> app_state \<Rightarrow> nat \<times> app_state" where
  "finished_page i h request s =
     (case map_of (as_history_blocks s) i of
        None \<Rightarrow> (0, page_over i h s)
      | Some block \<Rightarrow>
          (if hb_request block = request \<and> conversation_at s i \<noteq> None
           then settle_block i (hb_start block) (hb_start block + of_nat HISTORY_RESERVE) None (page_over i h s)
           else (0, page_over i h s)))"

lemma page_over_frame [simp]:
  "messages_of (page_over i h s) j = messages_of s j"
  "conversation_at (page_over i h s) j = conversation_at s j"
  "as_attention (page_over i h s) = as_attention s"
  "as_floor (page_over i h s) = as_floor s"
  "ts_conversations (page_over i h s) = ts_conversations s"
  by (simp_all add: page_over_def messages_of_def conversation_at_def)

lemma finish_cases:
  obtains (stale) "older_history_in_flight s i \<noteq> Some request"
      "finish_older_history i request beginning s = (0, s)"
  | (over) h where "map_of (as_older s) i = Some h" "oh_in_flight h = Some request"
      "finish_older_history i request beginning s =
         (let (added, t) = finished_page i h request s
          in (added, if beginning \<or> added = 0
                     then t\<lparr>as_older := AList.update i \<lparr>oh_in_flight = None, oh_finished = True\<rparr> (as_older t)\<rparr>
                     else t))"
proof (cases "map_of (as_older s) i")
  case None
  then show ?thesis using stale by (simp add: older_history_in_flight_def finish_older_history_def)
next
  case (Some h)
  show ?thesis
  proof (cases "oh_in_flight h = Some request")
    case False
    then show ?thesis using stale Some by (simp add: older_history_in_flight_def finish_older_history_def)
  next
    case True
    have "finish_older_history i request beginning s =
         (let (added, t) = finished_page i h request s
          in (added, if beginning \<or> added = 0
                     then t\<lparr>as_older := AList.update i \<lparr>oh_in_flight = None, oh_finished = True\<rparr> (as_older t)\<rparr>
                     else t))"
      using Some True
      by (cases "map_of (as_history_blocks s) i"; cases "conversation_at s i")
        (simp_all add: finish_older_history_def finished_page_def page_over_def Let_def)
    with Some True show ?thesis using over by blast
  qed
qed

lemma log_inv_finished_page:
  assumes inv: "log_inv s"
  shows "log_inv (snd (finished_page i h request s))"
proof -
  have over: "log_inv (page_over i h s)" unfolding page_over_def by (rule log_inv_blocks_delete [OF inv])
  show ?thesis
  proof (cases "map_of (as_history_blocks s) i")
    case (Some b)
    show ?thesis
    proof (cases "hb_request b = request \<and> conversation_at s i \<noteq> None")
      case True
      let ?ms = "messages_of s i"
      have in_logs: "(i, ?ms) \<in> logs s" using True messages_of_logs by blast
      have ok: "block_ok s b" and above: "above_block b ?ms" and log: "log_ok s ?ms"
        using log_invD [OF inv] Some in_logs by blast+
      have a: "\<forall>m \<in> set ?ms. hb_start b \<le> msg_sequence m" using above by (simp add: above_block_def)
      have top: "unat (hb_start b) + HISTORY_RESERVE \<le> unat SEQUENCE_ORIGIN" "as_floor s \<le> hb_start b"
        using ok by (simp_all add: block_ok_def)
      obtain r where settle: "settle_block i (hb_start b) (hb_start b + of_nat HISTORY_RESERVE) None (page_over i h s) =
          (length (block_lines (hb_start b) ?ms),
           set_messages i (settled_log (hb_start b) ?ms)
             ((page_over i h s)\<lparr>as_attention := settled_attention i (hb_start b) ?ms (as_attention s), as_revision := r\<rparr>))"
        using settle_block_effect [of "page_over i h s" i "hb_start b"] log a top(1) by (auto simp: log_ok_def)
      have "log_ok s (settled_log (hb_start b) ?ms)" using inv log top(2) a top(1) by (rule log_ok_settled)
      then have "log_inv (set_messages i (settled_log (hb_start b) ?ms)
          ((page_over i h s)\<lparr>as_attention := settled_attention i (hb_start b) ?ms (as_attention s), as_revision := r\<rparr>))"
        using over by (intro log_inv_set_messages) (auto simp: log_ok_def page_over_def delete_conv')
      then show ?thesis using Some True settle by (simp add: finished_page_def)
    qed (use over Some in \<open>auto simp: finished_page_def\<close>)
  qed (use over in \<open>simp add: finished_page_def\<close>)
qed

lemma log_inv_finish:
  assumes "log_inv s"
  shows "log_inv (snd (finish_older_history i request beginning s))"
proof (cases rule: finish_cases [of s i request beginning])
  case (over h)
  obtain added t where at: "finished_page i h request s = (added, t)" by (rule prod.exhaust)
  then have "log_inv t" using log_inv_finished_page [OF assms, of i h request] by simp
  then show ?thesis using over(3) at by simp
qed (use assms in simp)

end
