(* ===== verification/Navigation.thy ===== *)
theory Navigation
  imports Session ChannelTree
begin

text \<open>
  Moving between conversations: \<open>cycle_channel\<close>, \<open>cycle_server\<close> and \<open>dispatch\<close> of
  \<open>crates/app/src/lib.rs\<close>, in the order the tree shows. \<open>None\<close> is a panic.
\<close>

datatype command =
    SelectChannel conversation_id
  | SelectServer network_id
  | NextUnreadChannel
  | PreviousUnreadChannel
  | NextNotifiedMessage
  | PreviousSelectedChannel
  | NextActiveChannel
  | PreviousActiveChannel
  | NextChannel
  | PreviousChannel
  | NextActiveServer
  | PreviousActiveServer
  | NextServer
  | PreviousServer
  | SelectChannelAt nat
  | SelectServerAt nat

definition tree_of :: "app_state \<Rightarrow> tree_state" where
  "tree_of s = tree_state.truncate s"

text \<open>The indices visited from \<open>current\<close>, the current one last.\<close>

definition cycle_order :: "bool \<Rightarrow> nat \<Rightarrow> nat \<Rightarrow> nat list" where
  "cycle_order forward len current =
     map (\<lambda>step. if forward then (current + step) mod len else (current + len - step) mod len)
       [1..<len + 1]"

definition first_of :: "'a list \<Rightarrow> 'a option" where
  "first_of xs = (case xs of [] \<Rightarrow> None | x # _ \<Rightarrow> Some x)"

definition last_of :: "'a list \<Rightarrow> 'a option" where
  "last_of xs = first_of (rev xs)"

definition channel_matches :: "app_state \<Rightarrow> channel_filter \<Rightarrow> conversation_id \<Rightarrow> bool" where
  "channel_matches s filt i =
     (case filt of
        FilterAll \<Rightarrow> True
      | FilterActive \<Rightarrow> i \<in> set (as_active_channels s)
      | FilterUnread \<Rightarrow> i \<in> set (ts_unread s))"

text \<open>Where the cycle starts.\<close>

definition cycle_start :: "app_state \<Rightarrow> bool \<Rightarrow> nat option" where
  "cycle_start s forward =
     (let tree = display_tree_of (tree_of s);
          order = tree_conversations tree;
          len = length order
      in case ts_selected s of
           SelChannel i \<Rightarrow> position (\<lambda>c. c = i) order
         | SelServer n \<Rightarrow>
             (let own = tree_children tree (ServerParent n)
              in if forward
                 then Some (case position (\<lambda>c. first_of own = Some c) order of
                              Some k \<Rightarrow> (k + len - 1) mod len | None \<Rightarrow> len - 1)
                 else Some (case last_position (\<lambda>c. last_of own = Some c) order of
                              Some k \<Rightarrow> (k + 1) mod len | None \<Rightarrow> 0))
         | SelNone \<Rightarrow> Some (if forward then len - 1 else 0))"

definition cycle_channel :: "bool \<Rightarrow> channel_filter \<Rightarrow> app_state \<Rightarrow> app_state option" where
  "cycle_channel forward filt s =
     (let order = tree_conversations (display_tree_of (tree_of s));
          len = length order
      in if len = 0 then Some s
         else
           (case cycle_start s forward of
              None \<Rightarrow> None
            | Some current \<Rightarrow>
                (case List.find (channel_matches s filt)
                        (map (\<lambda>k. order ! k) (cycle_order forward len current)) of
                   Some i \<Rightarrow> Some (select_channel i s)
                 | None \<Rightarrow> Some s)))"

text \<open>What a heading of the tree stands for when the cycle stops there.\<close>

datatype stop = StopServer network_id | StopChannel conversation_id

definition heading_stop :: "app_state \<Rightarrow> display_tree \<Rightarrow> bool \<Rightarrow> parent \<Rightarrow> stop option" where
  "heading_stop s tree active_only p =
     (case p of
        ServerParent n \<Rightarrow>
          (if \<not> active_only \<or> n \<in> set (as_active_servers s) then Some (StopServer n) else None)
      | GroupParent g \<Rightarrow>
          map_option StopChannel
            (List.find (\<lambda>c. \<not> active_only \<or> c \<in> set (as_active_channels s))
              (tree_children tree (GroupParent g))))"

definition tree_headings :: "display_tree \<Rightarrow> parent list" where
  "tree_headings tree =
     map (\<lambda>(g, _). GroupParent g) (filter (\<lambda>(_, children). children \<noteq> []) (dt_groups tree))
     @ map (\<lambda>(n, _). ServerParent n) (dt_servers tree)"

definition apply_stop :: "stop \<Rightarrow> app_state \<Rightarrow> app_state" where
  "apply_stop stop s =
     (case stop of StopServer n \<Rightarrow> select_server n s | StopChannel i \<Rightarrow> select_channel i s)"

definition cycle_server :: "bool \<Rightarrow> bool \<Rightarrow> app_state \<Rightarrow> app_state" where
  "cycle_server forward active_only s =
     (let tree = display_tree_of (tree_of s);
          headings = tree_headings tree;
          len = length headings
      in if len = 0 then s
         else
           (let parent = (case ts_selected s of
                            SelServer n \<Rightarrow> Some (ServerParent n)
                          | SelChannel i \<Rightarrow> parent_of tree i
                          | SelNone \<Rightarrow> None)
            in case Option.bind parent (\<lambda>p. position (\<lambda>h. h = p) headings) of
                 None \<Rightarrow>
                   (case ts_networks s of [] \<Rightarrow> s | w # _ \<Rightarrow> select_server (nw_id w) s)
               | Some current \<Rightarrow>
                   (case List.map_filter (\<lambda>k. heading_stop s tree active_only (headings ! k))
                           (cycle_order forward len current) of
                      [] \<Rightarrow> s
                    | stop # _ \<Rightarrow> apply_stop stop s)))"

definition nth_of :: "'a list \<Rightarrow> nat \<Rightarrow> 'a option" where
  "nth_of xs k = (if k < length xs then Some (xs ! k) else None)"

definition dispatch :: "command \<Rightarrow> app_state \<Rightarrow> app_state option" where
  "dispatch command s =
     (case command of
        SelectChannel i \<Rightarrow> Some (select_channel i s)
      | SelectServer n \<Rightarrow> Some (select_server n s)
      | NextUnreadChannel \<Rightarrow> cycle_channel True FilterUnread s
      | PreviousUnreadChannel \<Rightarrow> cycle_channel False FilterUnread s
      | NextNotifiedMessage \<Rightarrow> Some (visit_attention s)
      | PreviousSelectedChannel \<Rightarrow>
          Some (case as_previous s of Some i \<Rightarrow> select_channel i s | None \<Rightarrow> s)
      | NextActiveChannel \<Rightarrow> cycle_channel True FilterActive s
      | PreviousActiveChannel \<Rightarrow> cycle_channel False FilterActive s
      | NextChannel \<Rightarrow> cycle_channel True FilterAll s
      | PreviousChannel \<Rightarrow> cycle_channel False FilterAll s
      | NextActiveServer \<Rightarrow> Some (cycle_server True True s)
      | PreviousActiveServer \<Rightarrow> Some (cycle_server False True s)
      | NextServer \<Rightarrow> Some (cycle_server True False s)
      | PreviousServer \<Rightarrow> Some (cycle_server False False s)
      | SelectChannelAt k \<Rightarrow>
          Some (case nth_of (numbered_targets (tree_of s)) k of
                  Some i \<Rightarrow> select_channel i s | None \<Rightarrow> s)
      | SelectServerAt k \<Rightarrow>
          Some (case nth_of (ts_networks s) k of
                  Some w \<Rightarrow> select_server (nw_id w) s | None \<Rightarrow> s))"

end
