(* ===== verification/AppLogs.thy ===== *)
theory AppLogs
  imports SessionInv Logs Navigation
begin

text \<open>
  The operations on the list of conversations leave every log as it is or drop it, and the operations
  on the logs leave the list as it is.
\<close>

section \<open>Operations that leave logs alone\<close>

definition log_less :: "app_state \<Rightarrow> app_state \<Rightarrow> bool" where
  "log_less s t \<longleftrightarrow> logs t \<subseteq> logs s \<union> UNIV \<times> {[]} \<and> as_floor t = as_floor s
     \<and> as_next_sequence t = as_next_sequence s
     \<and> (\<forall>i b. map_of (as_history_blocks t) i = Some b \<longrightarrow> map_of (as_history_blocks s) i = Some b)"

lemma log_less_refl [simp]: "log_less s s"
  by (simp add: log_less_def)

lemma log_less_trans: "log_less s t \<Longrightarrow> log_less t u \<Longrightarrow> log_less s u"
  unfolding log_less_def by (auto dest: subsetD)

lemma log_less_inv: "log_inv s \<Longrightarrow> log_less s t \<Longrightarrow> log_inv t"
  by (rule log_inv_less [of s]) (auto simp: log_less_def)

lemma log_less_same:
  assumes "ts_conversations t = ts_conversations s" "as_floor t = as_floor s"
    "as_next_sequence t = as_next_sequence s" "as_history_blocks t = as_history_blocks s"
  shows "log_less s t"
  using assms by (simp add: log_less_def logs_def)

lemma log_less_fold: "(\<And>x t. log_less t (f x t)) \<Longrightarrow> log_less s (fold f xs s)"
  by (induction xs arbitrary: s) (auto intro: log_less_trans)

lemma logs_mut:
  assumes "\<And>c. conv_id (f c) = conv_id c \<and> conv_messages (f c) = conv_messages c"
  shows "log_less s (conversation_mut i f s)"
proof -
  let ?g = "\<lambda>c. (conv_id c, conv_messages c)"
  have "map ?g (change_first (\<lambda>c. conv_id c = i) f (ts_conversations s)) = map ?g (ts_conversations s)"
    by (rule map_change_first) (simp add: assms)
  then have "logs (conversation_mut i f s) = logs s"
    unfolding logs_def conversation_mut_def by (simp flip: set_map)
  then show ?thesis by (simp add: log_less_def conversation_mut_def)
qed

lemma add_log_less: "log_less s (snd (add_conversation n kind name s))"
  by (cases rule: add_cases [of n kind name s])
    (auto simp: log_less_def logs_def added_state_def Let_def new_conversation_def)

lemma ensure_log_less:
  "log_less s (snd (ensure_configured_channel n name s))"
  "log_less s (snd (ensure_channel n name s))"
  by (simp_all add: ensure_configured_channel_def ensure_channel_def add_log_less split: option.split)

lemma forget_log_less: "log_less s (forget_conversation n i s)"
  by (auto simp: log_less_def forget_conversation_def logs_def delete_conv' split: if_splits)

lemma remove_log_less: "log_less s (snd (remove_conversations n s))"
proof -
  have "log_less s (s\<lparr>ts_conversations := filter (\<lambda>c. conv_network c \<noteq> n) (ts_conversations s),
       as_channel_ids := ids, as_casemappings := cms, as_attention := a\<rparr>)" for ids cms a
    by (auto simp: log_less_def logs_def)
  then show ?thesis
    unfolding remove_conversations_def Let_def snd_conv
    by (rule log_less_trans) (rule log_less_fold, rule forget_log_less)
qed

lemma repair_log_less: "log_less s (repair_selection s)"
  by (rule log_less_same) (simp_all add: repair_selection_def Let_def)

lemma sort_log_less: "log_less s (sort_conversations s)"
  by (simp add: log_less_def logs_def sort_conversations_def)

lemma drop_log_less: "log_less (snd acc) (snd (drop_network n acc))"
proof -
  obtain removed t where r: "remove_conversations n (snd acc) = (removed, t)" by (rule prod.exhaust)
  have "log_less (snd acc) t" using remove_log_less [of "snd acc" n] r by simp
  moreover have "log_less t (snd (drop_network n acc))"
    by (rule log_less_same) (simp_all add: drop_network_def r)
  ultimately show ?thesis by (rule log_less_trans)
qed

lemma sync_log_less: "log_less s (snd (sync_networks configs s))"
proof -
  have drops: "log_less (snd acc) (snd (fold drop_network ns acc))" for ns acc
  proof (induction ns arbitrary: acc)
    case (Cons n ns)
    show ?case using log_less_trans [OF drop_log_less Cons.IH] by simp
  qed simp
  let ?gone = "filter (\<lambda>n. \<not> list_ex (\<lambda>k. nc_id k = n) configs) (map nw_id (ts_networks s))"
  obtain removed t where t: "fold drop_network ?gone ([], s) = (removed, t)" by (rule prod.exhaust)
  let ?u = "sort_conversations (fold default_status configs
      (t\<lparr>ts_networks := map (\<lambda>k. \<lparr>nw_id = nc_id k, nw_name = nc_name k\<rparr>) configs\<rparr>))"
  have "log_less s t" using drops [of "([], s)" ?gone] t by simp
  moreover have "log_less t (t\<lparr>ts_networks := map (\<lambda>k. \<lparr>nw_id = nc_id k, nw_name = nc_name k\<rparr>) configs\<rparr>)"
    by (rule log_less_same) simp_all
  moreover have "log_less v (default_status k v)" for k v
    by (rule log_less_same) (simp_all add: default_status_def)
  then have "log_less v (fold default_status configs v)" for v
    by (rule log_less_fold)
  ultimately have u: "log_less s ?u"
    by (intro log_less_trans [OF log_less_trans [OF log_less_trans] sort_log_less])
  have "log_less v (ensure_channels n names v)" for n names v
    unfolding ensure_channels_def by (rule log_less_fold) (rule ensure_log_less)
  then have "log_less v (fold (\<lambda>k. ensure_channels (nc_id k) (nc_channels k)) ks v)" for ks v
    by (rule log_less_fold)
  then show ?thesis
    unfolding sync_networks_def Let_def t prod.case snd_conv
    by (rule log_less_trans [OF log_less_trans [OF u] repair_log_less])
qed

lemma reset_log_less:
  assumes "reset_network n channels s = Some (removed, t)"
  shows "log_less s t"
proof (cases "known_network s n")
  case True
  obtain sel where sel: "selected_network s = Some sel"
    using assms True by (cases "selected_network s") (auto simp: reset_network_def)
  obtain gone u where r: "remove_conversations n s = (gone, u)" by (rule prod.exhaust)
  let ?v = "u\<lparr>as_server_messages := AList.delete n (as_server_messages u),
                        as_system_messages := filter (\<lambda>(w, _). w \<noteq> n) (as_system_messages u),
                        as_active_servers := removeAll n (as_active_servers u),
                        as_statuses := AList.update n Connecting (as_statuses u)\<rparr>"
  obtain found w where w: "fold (open_configured n) channels (None, ?v) = (found, w)" by (rule prod.exhaust)
  have opens: "log_less (snd acc) (snd (fold (open_configured n) names acc))" for names acc
  proof (induction names arbitrary: acc)
    case (Cons name names)
    have "log_less (snd acc) (snd (open_configured n name acc))"
      using ensure_log_less(1) [of "snd acc" n name] by (simp add: open_configured_def case_prod_beta)
    then show ?case using log_less_trans [OF _ Cons.IH] by simp
  qed simp
  let ?x = "if map_option nw_id sel = Some n
            then w\<lparr>ts_selected := (case found of Some i \<Rightarrow> SelChannel i | None \<Rightarrow> SelServer n)\<rparr> else w"
  have t: "t = repair_selection ?x"
    using assms True by (simp add: reset_network_def sel r w Let_def)
  have "log_less s u" using remove_log_less [of s n] r by simp
  moreover have "log_less u ?v" by (rule log_less_same) simp_all
  moreover have "log_less ?v w" using opens [of "(None, ?v)" channels] w by simp
  moreover have "log_less w ?x" by (rule log_less_same) simp_all
  ultimately show ?thesis unfolding t by (meson log_less_trans repair_log_less)
qed (use assms in \<open>simp add: reset_network_def\<close>)

lemma status_log_less: "log_less s (set_status n status s)"
proof (cases "known_network s n")
  case True
  show ?thesis
  proof (cases status)
    case (Disconnected reason)
    let ?s = "s\<lparr>as_active_servers := removeAll n (as_active_servers s), as_history_paging := removeAll n (as_history_paging s)\<rparr>"
    obtain r where r: "cut_off_channels n (n \<in> set (as_history_paging s)) ?s = ?s\<lparr>as_resume := r\<rparr>"
      using cut_off_all_only by blast
    let ?u = "fold (end_session n) (ts_conversations s) (?s\<lparr>as_resume := r\<rparr>)"
    have e: "log_less v (end_session n c v)" for c v
      by (rule log_less_same) (simp_all add: end_session_def)
    have "log_less s (?s\<lparr>as_resume := r\<rparr>)" by (rule log_less_same) simp_all
    then have "log_less s ?u" by (rule log_less_trans) (rule log_less_fold, rule e)
    moreover have "ts_conversations (set_status n status s) =
        map (\<lambda>c. if conv_network c = n then c\<lparr>conv_members := [], conv_modes := None\<rparr> else c) (ts_conversations s)"
      using True Disconnected r by (simp add: set_status_def Let_def end_session_fold)
    then have "logs (set_status n status s) = logs ?u"
      unfolding logs_def by (simp only: set_map image_image end_session_fold) (rule image_cong, simp_all)
    ultimately show ?thesis
      using True Disconnected r by (simp add: log_less_def set_status_def Let_def end_session_fold)
  qed (rule log_less_same; use True in \<open>simp add: set_status_def\<close>)+
qed (simp add: set_status_def)

lemma session_log_less:
  "log_less s (set_casemapping n mapping s)"
  "log_less s (snd (private_conversation n key name missing s))"
  "log_less s (snd (rename_private n key to_key name s))"
  "log_less s (snd (close_private i s))"
  "log_less s (app_joined_channel n name s)"
  "log_less s (set_channel_modes n name modes s)"
  "log_less s (parted_channel n name s)"
  "log_less s (set_members lower n name members s)"
  "log_less s (set_topic n name topic s)"
proof -
  have upd: "log_less t (t\<lparr>as_active_channels := a\<rparr>)" "log_less t (t\<lparr>as_active_channels := a, as_older := h, as_resume := r\<rparr>)"
    for a h r t by (rule log_less_same; simp)+
  show "log_less s (set_casemapping n mapping s)"
    by (rule log_less_same) (simp_all add: set_casemapping_def)
  show "log_less s (snd (private_conversation n key name missing s))"
    using add_log_less [of s n "Private key" name] logs_mut log_less_trans [OF add_log_less [of s n "Private key" name] upd(1)]
    by (auto simp: private_conversation_def case_prod_beta split: option.split)
  show "log_less s (snd (rename_private n key to_key name s))"
    by (auto simp: rename_private_def intro!: logs_mut split: option.split)
  show "log_less s (snd (close_private i s))"
  proof (cases "position (\<lambda>c. conv_id c = i \<and> conversation_is_private c) (ts_conversations s)")
    case (Some k)
    have "set (remove_at k xs) \<subseteq> set xs" for xs :: "conversation list"
      by (auto simp: remove_at_def dest: in_set_takeD in_set_dropD)
    then have "log_less s (s\<lparr>ts_conversations := remove_at k (ts_conversations s), as_attention := a\<rparr>)" for a
      by (auto simp: log_less_def logs_def)
    then show ?thesis
      using Some forget_log_less log_less_trans by (simp add: close_private_def Let_def) blast
  qed (simp add: close_private_def)
  show "log_less s (app_joined_channel n name s)"
  proof -
    obtain found t where e: "ensure_channel n name s = (found, t)" by (rule prod.exhaust)
    then have t: "log_less s t" using ensure_log_less(2) [of s n name] by simp
    show ?thesis
    proof (cases found)
      case (Some i)
      have "log_less (t\<lparr>as_active_channels := List.insert i (as_active_channels t)\<rparr>) (app_joined_channel n name s)"
        using Some e by (simp add: app_joined_channel_def logs_mut)
      then show ?thesis using t upd(1) log_less_trans by blast
    qed (use t e in \<open>simp add: app_joined_channel_def\<close>)
  qed
  show "log_less s (set_channel_modes n name modes s)"
    by (auto simp: set_channel_modes_def intro!: logs_mut split: option.split)
  show "log_less s (parted_channel n name s)"
  proof (cases "channel_id s n name")
    case (Some i)
    have "log_less (s\<lparr>as_active_channels := removeAll i (as_active_channels s),
               as_older := AList.delete i (as_older s), as_resume := AList.delete i (as_resume s)\<rparr>) (parted_channel n name s)"
      using Some by (simp add: parted_channel_def logs_mut)
    then show ?thesis using upd(2) log_less_trans by blast
  qed (simp add: parted_channel_def)
  show "log_less s (set_members lower n name members s)"
    by (auto simp: set_members_def intro!: logs_mut split: option.split)
  show "log_less s (set_topic n name topic s)"
    by (auto simp: set_topic_def intro!: logs_mut split: option.split)
qed

end
