(* ===== verification/LogSteps.thy ===== *)
theory LogSteps
  imports AppLogs
begin

text \<open>
  Every operation that adds, replaces or moves lines keeps the invariant of the logs, takes the sequences
  it says, and leaves the list of conversations, the index of channels and the selection alone.
\<close>

section \<open>Operations on logs leave the list alone\<close>

definition log_frame :: "app_state \<Rightarrow> app_state \<Rightarrow> bool" where
  "log_frame s t \<longleftrightarrow> heads t = heads s \<and> ts_networks t = ts_networks s \<and> ts_selected t = ts_selected s
     \<and> as_next_conversation t = as_next_conversation s \<and> as_casemappings t = as_casemappings s
     \<and> as_channel_ids t = as_channel_ids s \<and> marks t \<subseteq> marks s \<union> conv_id ` set (heads s)"

lemma heads_ids: "conv_id ` set (heads s) = conv_id ` set (ts_conversations s)"
  by (simp add: heads_def image_image)

lemma log_frame_refl [simp]: "log_frame s s"
  by (simp add: log_frame_def)

lemma log_frame_trans: "log_frame s t \<Longrightarrow> log_frame t u \<Longrightarrow> log_frame s u"
  unfolding log_frame_def by auto

lemma log_frame_inv: "app_inv s \<Longrightarrow> log_frame s t \<Longrightarrow> app_inv t"
  by (rule app_inv_marks [of s]) (auto simp: log_frame_def heads_ids)

lemma log_frame_same:
  assumes "ts_conversations t = ts_conversations s" "ts_networks t = ts_networks s"
    "ts_selected t = ts_selected s" "as_next_conversation t = as_next_conversation s"
    "as_casemappings t = as_casemappings s" "as_channel_ids t = as_channel_ids s"
    "marks t \<subseteq> marks s \<union> conv_id ` set (ts_conversations s)"
  shows "log_frame s t"
  using assms by (simp add: log_frame_def heads_def image_image)

lemma log_frame_messages: "log_frame s (set_messages i ms s)"
  by (simp add: log_frame_def heads_def set_messages_def map_change_first marks_def)

lemma log_frame_prune: "log_frame s (prune_attention i s)"
  by (rule log_frame_same) (auto simp: prune_attention_def marks_def)

lemma present_id: "conversation_at s i \<noteq> None \<Longrightarrow> i \<in> conv_id ` set (ts_conversations s)"
  using conversation_at_None [of s i] by argo

lemma log_frame_note_at:
  assumes "conversation_at s i \<noteq> None"
  shows "log_frame s (note_attention_at i q s)"
proof (cases "(i, q) \<in> set (as_attention s) \<or> attention_room s i q = None")
  case True
  then show ?thesis by (auto simp: note_attention_at_def)
next
  case False
  then obtain queue where q: "attention_room s i q = Some queue" by blast
  have "set queue \<subseteq> set (as_attention s)"
    using q set_drop_subset [of 1 "as_attention s"]
    by (auto simp: attention_room_def remove_at_def split: if_splits option.splits
        dest: in_set_takeD in_set_dropD)
  then show ?thesis
    using present_id [OF assms] False q
    by (intro log_frame_same) (auto simp: note_attention_at_def Let_def marks_def)
qed

lemma log_frame_note: "log_frame s (note_attention i s)"
  by (auto simp: note_attention_def intro!: log_frame_note_at split: option.split)

lemma log_frame_appended: "log_frame s (appended i m d s)"
proof -
  let ?t = "s\<lparr>as_duplicates := d, as_next_sequence := as_next_sequence s + 1, as_revision := as_revision s + 1\<rparr>"
  have "log_frame s ?t" by (rule log_frame_same) (simp_all add: marks_def)
  then have "log_frame s (set_messages i ms ?t)" for ms
    using log_frame_messages log_frame_trans by blast
  then show ?thesis
    using log_frame_prune log_frame_trans by (simp add: appended_def Let_def) blast
qed

lemma log_frame_append: "log_frame s (snd (append_to_conversation o' i m s))"
proof (cases rule: append_cases [of s i o' m])
  case (duplicate d)
  have "log_frame s (s\<lparr>as_duplicates := d\<rparr>)" by (rule log_frame_same) (simp_all add: marks_def)
  with duplicate show ?thesis by simp
qed (simp_all add: log_frame_appended)

lemma log_frame_mark_unread: "log_frame s (mark_unread i s)"
  using present_id [of s i] by (intro log_frame_same) (auto simp: mark_unread_def marks_def)

lemma log_frame_highlight: "log_frame s (highlight i s)"
  using present_id [of s i] by (intro log_frame_same) (auto simp: highlight_def marks_def)

lemma mark_highlighted_inv:
  assumes "app_inv s"
  shows "app_inv (mark_highlighted n name s)"
proof (cases "channel_id s n name")
  case (Some i)
  have "list_inv s" using assms by (simp add: app_inv_iff)
  from channel_id_present [OF this Some] have "i \<in> conv_id ` set (ts_conversations s)" by auto
  then have "log_frame s (mark_highlighted n name s)"
    using Some by (intro log_frame_same) (auto simp: mark_highlighted_def marks_def)
  then show ?thesis using log_frame_inv assms by blast
qed (use assms in \<open>simp add: mark_highlighted_def\<close>)

lemma log_frame_mut_same: "log_frame s (conversation_mut i id s)"
proof -
  have "change_first P id cs = cs" for P and cs :: "conversation list" by (induction cs) auto
  then show ?thesis by (intro log_frame_same) (simp_all add: conversation_mut_def marks_def)
qed

section \<open>The same operations keep the logs in order\<close>

definition log_step :: "nat \<Rightarrow> app_state \<Rightarrow> app_state \<Rightarrow> bool" where
  "log_step k s t \<longleftrightarrow> log_inv t \<and> log_frame s t \<and> as_floor t = as_floor s
     \<and> unat (as_next_sequence t) \<le> unat (as_next_sequence s) + k"

lemma log_step_refl: "log_inv s \<Longrightarrow> log_step k s s"
  by (simp add: log_step_def)

lemma log_step_trans: "log_step j s t \<Longrightarrow> log_step k t u \<Longrightarrow> log_step (j + k) s u"
  unfolding log_step_def using log_frame_trans by fastforce

lemma log_stepD:
  assumes "log_step k s t"
  shows "log_inv t" "log_frame s t" "as_floor t = as_floor s"
    "unat (as_next_sequence t) \<le> unat (as_next_sequence s) + k"
  using assms by (simp_all add: log_step_def)

lemma log_step_mono: "log_step j s t \<Longrightarrow> j \<le> k \<Longrightarrow> log_step k s t"
  by (simp add: log_step_def)

lemma room_for_line: "unat (q :: 64 word) + 1 < 2 ^ 64 \<Longrightarrow> q \<noteq> - 1"
  by (auto simp: unsigned_minus_1_eq_mask mask_eq_exp_minus_1)

lemma append_step:
  assumes "log_inv s" "unat (as_next_sequence s) + 1 < 2 ^ 64"
  shows "log_step 1 s (snd (append_to_conversation o' i m s))"
proof -
  have room: "as_next_sequence s \<noteq> - 1" using assms(2) by (rule room_for_line)
  show ?thesis
    using log_frame_append [of s o' i m]
    by (cases rule: append_cases [of s i o' m])
      (simp_all add: log_step_def assms(1) log_inv_appended [OF assms(1) room] unat_succ [OF room])
qed

lemma log_step_after:
  assumes "log_step k s t" "log_less t u" "log_frame t u"
  shows "log_step k s u"
  using assms log_less_inv log_frame_trans unfolding log_step_def by (auto simp: log_less_def)

lemma mark_unread_less: "log_less s (mark_unread i s)"
  by (rule log_less_same) (simp_all add: mark_unread_def)

lemma message_step:
  assumes "log_inv s" "unat (as_next_sequence s) + 1 < 2 ^ 64"
  shows "log_step 1 s (snd (append_conversation_message o' i sender body kind meta unread s))"
proof -
  obtain b m where n: "notice_marked body kind meta = (b, m)" by (rule prod.exhaust)
  obtain added t where a: "append_to_conversation o' i (kind_marked kind (new_message o' sender b LineText m)) s = (added, t)"
    by (rule prod.exhaust)
  have "log_step 1 s t" using append_step [OF assms] a by (metis snd_conv)
  then show ?thesis
    using log_step_after [OF _ mark_unread_less log_frame_mark_unread]
    by (simp add: append_conversation_message_def n a)
qed

lemma activity_step:
  assumes "log_inv s" "unat (as_next_sequence s) + 1 < 2 ^ 64"
  shows "log_step 1 s (append_conversation_activity o' i body s)"
  using append_step [OF assms] by (simp add: append_conversation_activity_def)

lemma fold_step:
  assumes "\<And>x t. log_inv t \<Longrightarrow> unat (as_next_sequence t) + 1 < 2 ^ 64 \<Longrightarrow> log_step 1 t (f x t)"
    and "log_inv s" "unat (as_next_sequence s) + length xs < 2 ^ 64"
  shows "log_step (length xs) s (fold f xs s)"
  using assms(2,3)
proof (induction xs arbitrary: s)
  case (Cons x xs)
  then have g: "log_step 1 s (f x s)" by (intro assms(1)) auto
  then have "log_step (length xs) (f x s) (fold f xs (f x s))"
    using Cons.prems by (intro Cons.IH) (auto simp: log_step_def)
  then show ?case using log_step_trans [OF g] by simp
qed (simp add: log_step_refl)

lemma network_activity_step:
  assumes "log_inv s" "unat (as_next_sequence s) + length (ts_conversations s) < 2 ^ 64"
  shows "log_step (length (ts_conversations s)) s (append_network_activity o' n body s)"
proof -
  let ?ids = "map conv_id (filter (\<lambda>c. conv_network c = n) (ts_conversations s))"
  have l: "length ?ids \<le> length (ts_conversations s)" by simp
  then have "unat (as_next_sequence s) + length ?ids < 2 ^ 64" using assms(2) by linarith
  then have "log_step (length ?ids) s (append_network_activity o' n body s)"
    unfolding append_network_activity_def using assms(1) by (intro fold_step activity_step)
  then show ?thesis by (rule log_step_mono [OF _ l])
qed

text \<open>Server lines take a sequence and nothing else.\<close>

lemma server_line_step:
  assumes "log_inv s" "unat (as_next_sequence s) + 1 < 2 ^ 64"
    and t: "ts_conversations t = ts_conversations s" "as_floor t = as_floor s" "as_history_blocks t = as_history_blocks s"
    "as_next_sequence t = as_next_sequence s + 1" "log_frame s t"
  shows "log_step 1 s t"
proof -
  have q: "as_next_sequence s \<noteq> - 1" using assms(2) by (rule room_for_line)
  have "log_inv t"
    using t word_succ_less [OF q] by (intro log_inv_less [OF assms(1)]) (auto simp: logs_def)
  then show ?thesis using t unat_succ [OF q] by (simp add: log_step_def)
qed

lemma server_steps:
  assumes inv: "log_inv s" and room: "unat (as_next_sequence s) + 1 < 2 ^ 64"
  shows "log_step 1 s (append_server_message_at o' n body meta s)"
    and "log_step 1 s (append_system_message o' n body s)"
    and "log_step 1 s (append_diagnostic_message o' n body s)"
proof -
  show "log_step 1 s (append_server_message_at o' n body meta s)"
  proof (cases "known_network s n")
    case True
    show ?thesis
      by (rule server_line_step [OF inv room])
        (simp_all add: True append_server_message_at_def Let_def next_sequence_def push_server_message_def
          log_frame_def heads_def marks_def)
  qed (simp add: append_server_message_at_def log_step_refl inv)
  show "log_step 1 s (append_system_message o' n body s)"
  proof (cases "known_network s n")
    case True
    show ?thesis
      by (rule server_line_step [OF inv room])
        (simp_all add: True append_system_message_def Let_def next_sequence_def push_server_message_def
          log_frame_def heads_def marks_def)
  qed (simp add: append_system_message_def log_step_refl inv)
  show "log_step 1 s (append_diagnostic_message o' n body s)"
  proof (cases "known_network s n")
    case True
    show ?thesis
      by (rule server_line_step [OF inv room])
        (simp_all add: True append_diagnostic_message_def Let_def next_sequence_def push_server_message_def
          log_frame_def heads_def marks_def)
  qed (simp add: append_diagnostic_message_def log_step_refl inv)
qed

lemma channel_message_step:
  assumes "log_inv s" "unat (as_next_sequence s) + 1 < 2 ^ 64"
  shows "log_step 1 s (snd (append_channel_message_at o' n name sender body kind meta s))"
proof -
  obtain b m where nm: "notice_marked body kind meta = (b, m)" by (rule prod.exhaust)
  show ?thesis
  proof (cases "channel_id s n name")
    case None
    then show ?thesis using server_steps(1) [OF assms] by (simp add: append_channel_message_at_def nm Let_def)
  next
    case (Some i)
    obtain added t where a: "append_to_conversation o' i (kind_marked kind (new_message o' sender b LineText m)) s = (added, t)"
      by (rule prod.exhaust)
    have "log_step 1 s t" using append_step [OF assms] a by (metis snd_conv)
    then show ?thesis
      using log_step_after [OF _ mark_unread_less log_frame_mark_unread] Some
      by (simp add: append_channel_message_at_def nm a Let_def)
  qed
qed

lemma channel_line_step:
  assumes "log_inv s" "unat (as_next_sequence s) + 1 < 2 ^ 64"
  shows "log_step 1 s (append_channel_line_at line o' n name body meta s)"
  using append_step [OF assms] log_step_refl [OF assms(1)]
  by (simp add: append_channel_line_at_def split: option.split)


section \<open>Confirmation and history\<close>

lemma messages_update_step:
  assumes inv: "log_inv s" and c: "conversation_at s i \<noteq> None"
    and same: "map msg_sequence ms = map msg_sequence (messages_of s i)"
  shows "log_step 0 s (set_messages i ms s)"
proof -
  have in_logs: "(i, messages_of s i) \<in> logs s" using c by (rule messages_of_logs)
  have len: "length ms = length (messages_of s i)" using arg_cong [OF same, of length] by simp
  have seqs: "msg_sequence ` set ms = msg_sequence ` set (messages_of s i)"
    using arg_cong [OF same, of set] by simp
  have all: "(\<forall>m \<in> set ms. P (msg_sequence m)) = (\<forall>m \<in> set (messages_of s i). P (msg_sequence m))" for P
    using arg_cong [OF same, of "list_all P"] by (simp add: list_all_iff)
  have "log_ok s ms"
    using log_invD(3) [OF inv in_logs] log_sorted_cong [OF same] len
      all [of "\<lambda>q. as_floor s \<le> q \<and> q \<le> as_next_sequence s"] by (simp add: log_ok_def)
  moreover have "above_block b ms" if "map_of (as_history_blocks s) i = Some b" for b
    using log_invD(5) [OF inv that in_logs]
      all [of "\<lambda>q. hb_start b \<le> q \<and> (q < hb_next b \<or> unat (hb_start b) + HISTORY_RESERVE \<le> unat q)"]
    by (simp add: above_block_def)
  ultimately have "log_inv (set_messages i ms s)" using inv by (intro log_inv_set_messages)
  then show ?thesis using log_frame_messages by (simp add: log_step_def) (simp add: set_messages_def)
qed

lemma admit_in_only: "\<exists>d. snd (admit_in o' i m s) = s\<lparr>as_duplicates := d\<rparr>"
  by (auto simp: admit_in_def Let_def case_prod_beta)

lemma duplicates_step: "log_step k s t \<Longrightarrow> log_step k s (t\<lparr>as_duplicates := d\<rparr>)"
  by (rule log_step_after) (auto intro!: log_less_same log_frame_same simp: marks_def)

lemma mut_same_step: "log_inv s \<Longrightarrow> log_step 0 s (conversation_mut i id s)"
  using log_step_after [OF log_step_refl logs_mut log_frame_mut_same] by simp

lemma mut_same_at:
  "conversation_at (conversation_mut i id s) j = conversation_at s j"
  "messages_of (conversation_mut i id s) j = messages_of s j"
proof -
  have "change_first P id cs = cs" for P and cs :: "conversation list" by (induction cs) auto
  then show "conversation_at (conversation_mut i id s) j = conversation_at s j"
    "messages_of (conversation_mut i id s) j = messages_of s j"
    by (simp_all add: conversation_mut_def conversation_at_def messages_of_def)
qed

lemma replaced_step:
  assumes inv: "log_inv s" and c: "conversation_at s i = Some c" and k: "search_sequence q (conv_messages c) = Some k"
    and m: "msg_sequence m = msg_sequence (conv_messages c ! k)"
  shows "log_step 0 s (set_messages i ((conv_messages c)[k := m]) (conversation_mut i id s))"
proof -
  have "map msg_sequence ((conv_messages c)[k := m]) = map msg_sequence (conv_messages c)"
    using m search_sequence_Some [OF k] by (simp add: map_list_update_same)
  then have "log_step 0 (conversation_mut i id s)
      (set_messages i ((conv_messages c)[k := m]) (conversation_mut i id s))"
    using mut_same_step [OF inv, of i] c
    by (intro messages_update_step) (simp_all add: log_step_def mut_same_at messages_of_def)
  from log_step_trans [OF mut_same_step [OF inv] this] show ?thesis by simp
qed

lemma confirm_step:
  assumes inv: "log_inv s"
  shows "log_step 0 s (snd (confirm_message o' i q body kind meta s))"
proof (cases "conversation_at s i")
  case None
  then show ?thesis using mut_same_step [OF inv] by (simp add: confirm_message_def Let_def)
next
  case (Some c)
  show ?thesis
  proof (cases "search_sequence q (conv_messages c)")
    case None
    then show ?thesis using mut_same_step [OF inv] Some by (simp add: confirm_message_def Let_def)
  next
    case k: (Some k)
    have "\<exists>m. msg_sequence m = msg_sequence (conv_messages c ! k)
      \<and> snd (confirm_message o' i q body kind meta s) =
        (let t = set_messages i ((conv_messages c)[k := m]) (conversation_mut i id s)
         in if identified m then snd (admit_in o' i m t) else t)"
      unfolding confirm_message_def Let_def Some k option.case snd_conv
      by (rule exI, rule conjI [rotated], rule refl) (simp add: kind_marked_def Let_def split: option.split)
    then obtain m where m: "msg_sequence m = msg_sequence (conv_messages c ! k)"
      and e: "snd (confirm_message o' i q body kind meta s) =
        (let t = set_messages i ((conv_messages c)[k := m]) (conversation_mut i id s)
         in if identified m then snd (admit_in o' i m t) else t)"
      by blast
    let ?t = "set_messages i ((conv_messages c)[k := m]) (conversation_mut i id s)"
    have t: "log_step 0 s ?t" by (rule replaced_step [OF inv Some k m])
    obtain d where "snd (admit_in o' i m ?t) = ?t\<lparr>as_duplicates := d\<rparr>" using admit_in_only by blast
    then show ?thesis using e t duplicates_step [OF t] by (simp add: Let_def)
  qed
qed

lemma fail_step:
  assumes inv: "log_inv s"
  shows "log_step 0 s (fail_message i q s)"
  using mut_same_step [OF inv] replaced_step [OF inv]
  by (auto simp: fail_message_def Let_def split: option.split)

lemma note_step: "log_step k s t \<Longrightarrow> log_step k s (note_attention i t)"
proof (rule log_step_after)
  obtain a where "note_attention i t = t\<lparr>as_attention := a\<rparr>" using note_attention_only by blast
  then show "log_less t (note_attention i t)" by (simp add: log_less_same)
  show "log_frame t (note_attention i t)" by (rule log_frame_note)
qed

lemma outside_logs:
  assumes "log_step k s t" "ts_conversations u = ts_conversations t" "ts_networks u = ts_networks t"
    "ts_selected u = ts_selected t" "as_next_conversation u = as_next_conversation t"
    "as_casemappings u = as_casemappings t" "as_channel_ids u = as_channel_ids t" "marks u \<subseteq> marks t"
    "as_floor u = as_floor t" "as_next_sequence u = as_next_sequence t" "as_history_blocks u = as_history_blocks t"
  shows "log_step k s u"
  by (rule log_step_after [OF assms(1)]) (use assms in \<open>auto intro!: log_less_same log_frame_same\<close>)

lemma pending_step:
  assumes "log_step k s t"
  shows "log_step k s (t\<lparr>as_pending_history := p\<rparr>)"
    and "log_step k s (t\<lparr>as_pending_history := p, as_resume := r\<rparr>)"
    and "log_step k s (t\<lparr>as_resume := r\<rparr>)"
    and "log_step k s (t\<lparr>as_history_paging := g\<rparr>)"
    and "log_step k s (t\<lparr>as_next_request := x, as_older := h\<rparr>)"
    and "log_step k s (t\<lparr>as_reveal := v\<rparr>)"
  by (rule outside_logs [OF assms]; simp add: marks_def)+

lemma recovered_step:
  assumes "log_inv (snd acc)" "unat (as_next_sequence (snd acc)) + 1 < 2 ^ 64"
  shows "log_step 1 (snd acc) (snd (append_recovered o' i line acc))"
  using append_step [OF assms, of o' i "fst line"] note_step
  by (auto simp: append_recovered_def Let_def case_prod_beta)

lemma recovered_all:
  assumes "log_inv (snd acc)" "unat (as_next_sequence (snd acc)) + length lines < 2 ^ 64"
  shows "log_step (length lines) (snd acc) (snd (fold (append_recovered o' i) lines acc))"
  using assms
proof (induction lines arbitrary: acc)
  case (Cons line lines)
  have g: "log_step 1 (snd acc) (snd (append_recovered o' i line acc))"
    using Cons.prems by (intro recovered_step) auto
  have "log_step (length lines) (snd (append_recovered o' i line acc))
      (snd (fold (append_recovered o' i) lines (append_recovered o' i line acc)))"
    using g Cons.prems by (intro Cons.IH) (auto simp: log_step_def)
  then show ?case using log_step_trans [OF g] by simp
qed (simp add: log_step_refl)

definition pending_lines :: "app_state \<Rightarrow> conversation_id \<Rightarrow> nat" where
  "pending_lines s i = (case map_of (as_pending_history s) i of None \<Rightarrow> 0 | Some lines \<Rightarrow> length lines)"

lemma finish_history_step:
  assumes inv: "log_inv s" and room: "unat (as_next_sequence s) + 1 + pending_lines s i < 2 ^ 64"
  shows "log_step (1 + pending_lines s i) s (snd (finish_history_for o' i gap_note s))"
proof (cases "map_of (as_pending_history s) i")
  case None
  then show ?thesis using inv by (simp add: finish_history_for_def log_step_refl)
next
  case (Some lines)
  then have n: "pending_lines s i = length lines" by (simp add: pending_lines_def)
  let ?t = "s\<lparr>as_pending_history := AList.delete i (as_pending_history s), as_resume := AList.delete i (as_resume s)\<rparr>"
  have t: "log_step 0 s ?t" by (rule pending_step(2)) (rule log_step_refl [OF inv])
  show ?thesis
  proof (cases "conversation_at s i = None")
    case True
    then have "conversation_at ?t i = None" by (simp add: conversation_at_def)
    then show ?thesis using Some log_step_mono [OF t, of "1 + pending_lines s i"] by (simp add: finish_history_for_def Let_def)
  next
    case False
    then obtain c where c: "conversation_at ?t i = Some c" by (auto simp: conversation_at_def)
    let ?note = "\<lambda>body. append_to_conversation o' i
        (new_message o' [] body LineActivity (meta_with_provenance Requested)) ?t"
    let ?acc = "case gap_note of None \<Rightarrow> (0 :: nat, ?t) | Some body \<Rightarrow> (of_bool (fst (?note body)), snd (?note body))"
    let ?lines = "map (\<lambda>k. lines ! k) (server_time_order (map (\<lambda>(m, _). msg_timestamp m) lines))"
    have len: "length ?lines = length lines" by (simp add: server_time_order_facts)
    have fin: "finish_history_for o' i gap_note s = fold (append_recovered o' i) ?lines ?acc"
      using Some c by (cases gap_note) (simp_all add: finish_history_for_def Let_def case_prod_beta del: of_bool_eq_iff split del: if_split)
    have tt: "log_inv ?t" "unat (as_next_sequence ?t) + 1 < 2 ^ 64" using t room n by (auto simp: log_step_def)
    have acc: "log_step 1 s (snd ?acc)"
    proof (cases gap_note)
      case None
      then show ?thesis using log_step_mono [OF t] by simp
    next
      case gap: (Some body)
      then show ?thesis using log_step_trans [OF t append_step [OF tt]] by (simp add: case_prod_beta)
    qed
    define acc :: "nat \<times> app_state" where "acc = ?acc"
    have fold: "log_step (length ?lines) (snd acc) (snd (fold (append_recovered o' i) ?lines acc))"
      using log_stepD(1,4) [OF acc [folded acc_def]] room n len by (intro recovered_all) linarith+
    show ?thesis
      using log_step_trans [OF acc [folded acc_def] fold] unfolding fin n len acc_def .
  qed
qed

section \<open>Older pages\<close>

lemma log_frame_page_lines:
  "log_frame s (s\<lparr>as_history_blocks := h\<rparr>)" "log_frame s (s\<lparr>as_floor := f, as_history_blocks := h\<rparr>)"
  "log_frame s (s\<lparr>as_older := x\<rparr>)" "log_frame s (s\<lparr>as_older := x, as_history_blocks := h\<rparr>)"
  by (rule log_frame_same; simp add: marks_def)+

lemma log_frame_open: "log_frame s (open_block o' i request s)"
  by (cases rule: open_block_cases [of s i request o']) (simp_all add: log_frame_page_lines)

lemma log_frame_at: "log_frame s t \<Longrightarrow> conversation_at t i = None \<longleftrightarrow> conversation_at s i = None"
proof -
  assume "log_frame s t"
  then have "conv_id ` set (ts_conversations t) = conv_id ` set (ts_conversations s)"
    by (simp add: log_frame_def flip: heads_ids)
  then show ?thesis unfolding conversation_at_None by simp
qed

lemma log_frame_place:
  assumes c: "conversation_at s i \<noteq> None"
  shows "log_frame s (place_streamed i m attention s)"
proof -
  let ?s = "s\<lparr>as_revision := as_revision s + 1\<rparr>"
  have r: "log_frame s ?s" by (rule log_frame_same) (simp_all add: marks_def)
  have m: "log_frame s (set_messages i ms ?s)" for ms
    using log_frame_trans [OF r log_frame_messages] .
  have n: "log_frame s (if b then note_attention_at i q t else t)" if t: "log_frame s t" for b q t
    using log_frame_trans [OF t log_frame_note_at [of t i q]] log_frame_at [OF t, of i] c t by simp
  have p: "log_frame s (if b then prune_attention i t else t)" if "log_frame s t" for b t
    using log_frame_trans [OF that log_frame_prune] that by simp
  show ?thesis
    unfolding place_streamed_def Let_def case_prod_beta by (intro p n m)
qed

lemma log_frame_push:
  "log_frame s (snd (push_older_history_line o' i request line s))"
proof (cases rule: push_cases [of o' i request line s])
  case (dropped b near)
  then show ?thesis using log_frame_trans [OF log_frame_open log_frame_page_lines(1)] by simp
next
  case (shown b near)
  then show ?thesis
    using log_frame_trans [OF log_frame_trans [OF log_frame_open log_frame_page_lines(1)] log_frame_place] by simp
qed (simp_all add: log_frame_open)

lemma map_filter_keys:
  assumes "\<And>x y. f x = Some y \<Longrightarrow> fst y = fst x"
  shows "fst ` set (List.map_filter f xs) \<subseteq> fst ` set xs"
proof
  fix z assume "z \<in> fst ` set (List.map_filter f xs)"
  then obtain x y where "x \<in> set xs" "f x = Some y" "z = fst y" by (auto simp: List.map_filter_def)
  then show "z \<in> fst ` set xs" using assms by (intro image_eqI [of _ _ x]) simp_all
qed

lemma settle_attention_ids: "fst ` set (settle_attention i first until moved queue) \<subseteq> fst ` set queue"
  unfolding settle_attention_def
  by (rule map_filter_keys) (auto split: prod.splits if_splits option.splits)

lemma log_frame_settle: "log_frame s (snd (settle_block i first until note_line s))"
proof -
  have a: "log_frame s (s\<lparr>as_attention := settle_attention i first until moved (as_attention s), as_revision := r\<rparr>)"
    for moved r
    using settle_attention_ids [of i first until moved "as_attention s"]
    by (intro log_frame_same) (auto simp: marks_def simp del: set_map)
  have b: "log_frame s (if b then s\<lparr>as_attention := settle_attention i first until moved (as_attention s), as_revision := r\<rparr> else s)"
    for b moved r
    using a log_frame_refl by presburger
  show ?thesis
    unfolding settle_block_def Let_def snd_conv by (rule log_frame_trans [OF b log_frame_messages])
qed

lemma log_frame_finish: "log_frame s (snd (finish_older_history i request beginning s))"
proof (cases rule: finish_cases [of s i request beginning])
  case (over h)
  have "log_frame s (page_over i h s)" unfolding page_over_def by (rule log_frame_page_lines)
  then have "log_frame s (snd (finished_page i h request s))"
    using log_frame_trans [OF _ log_frame_settle] by (simp add: finished_page_def split: option.split)
  then show ?thesis
    using over(3) log_frame_trans log_frame_page_lines(3) by (simp add: case_prod_beta)
qed simp

lemma page_steps:
  assumes "app_inv s \<and> log_inv s"
  shows "HISTORY_RESERVE \<le> unat (as_floor s) \<Longrightarrow>
      app_inv (snd (push_older_history_line o' i request line s))
      \<and> log_inv (snd (push_older_history_line o' i request line s))"
    and "app_inv (snd (finish_older_history i request beginning s))
      \<and> log_inv (snd (finish_older_history i request beginning s))"
  using assms log_frame_inv log_frame_push log_frame_finish log_inv_push log_inv_finish by blast+

end
