(* ===== verification/TreeArrangement.thy ===== *)
theory TreeArrangement
  imports Arrangement
begin

text \<open>
  The moves of \<open>ChannelGroups\<close> keep the arrangement of the list: a conversation is only moved among
  those of its network and kind.
\<close>

definition arranged :: "tree_state \<Rightarrow> bool" where
  "arranged s \<longleftrightarrow> distinct (map nw_id (ts_networks s)) \<and> distinct (map conv_id (ts_conversations s))
     \<and> (\<forall>c \<in> set (ts_conversations s). conv_network c \<in> nw_id ` set (ts_networks s))
     \<and> sorted (map (slot_key (ts_networks s)) (ts_conversations s))"

definition keeps :: "tree_state \<Rightarrow> tree_state \<Rightarrow> bool" where
  "keeps s t \<longleftrightarrow> ts_networks t = ts_networks s \<and> ts_selected t = ts_selected s
     \<and> ts_unread t = ts_unread s \<and> ts_highlighted t = ts_highlighted s
     \<and> mset (ts_conversations t) = mset (ts_conversations s)
     \<and> (arranged s \<longrightarrow> sorted (map (slot_key (ts_networks s)) (ts_conversations t)))"

lemma keeps_same:
  assumes "ts_networks t = ts_networks s" "ts_selected t = ts_selected s" "ts_unread t = ts_unread s"
    "ts_highlighted t = ts_highlighted s" "ts_conversations t = ts_conversations s"
  shows "keeps s t"
  using assms by (simp add: keeps_def arranged_def)

lemma keeps_refl [simp]: "keeps s s"
  by (rule keeps_same) simp_all

lemma keeps_trans:
  assumes "keeps s t" "keeps t u"
  shows "keeps s u"
proof -
  note st = assms(1) [unfolded keeps_def] and tu = assms(2) [unfolded keeps_def]
  have "set (ts_conversations t) = set (ts_conversations s)" using st mset_eq_setD by blast
  moreover have "mset (map conv_id (ts_conversations t)) = mset (map conv_id (ts_conversations s))" using st by simp
  then have "distinct (map conv_id (ts_conversations t)) = distinct (map conv_id (ts_conversations s))"
    using mset_eq_imp_distinct_iff by blast
  ultimately have "arranged t" if "arranged s" using st that unfolding arranged_def by metis
  then have "arranged s \<longrightarrow> sorted (map (slot_key (ts_networks s)) (ts_conversations u))"
    using st tu by metis
  moreover have "mset (ts_conversations u) = mset (ts_conversations s)" using st tu by metis
  moreover have "ts_networks u = ts_networks s" "ts_selected u = ts_selected s" "ts_unread u = ts_unread s"
    "ts_highlighted u = ts_highlighted s"
    using st tu by argo+
  ultimately show ?thesis unfolding keeps_def by blast
qed

section \<open>Groups\<close>

lemma leave_keeps: "keeps s (fst (leave_group c s))"
  by (rule keeps_same) (simp_all add: leave_group_def Let_def split: option.split)

lemma move_to_group_keeps: "keeps s (fst (move_to_group i target before s))"
proof -
  have "keeps s ((fst (leave_group c s))\<lparr>ts_groups := gs\<rparr>)" for c gs
    by (rule keeps_trans [OF leave_keeps]) (rule keeps_same, simp_all)
  then show ?thesis by (simp add: move_to_group_def Let_def split: option.split)
qed

lemma return_keeps: "keeps s (fst (return_to_server i s))"
  by (simp add: return_to_server_def leave_keeps split: option.split)

lemma store_keeps: "keeps s (store_channel_order n order s)"
  by (rule keeps_same) (simp_all add: store_channel_order_def Let_def)

lemma adopt_keeps: "keeps s (adopt_group lower spec s)"
  by (rule keeps_same) (simp_all add: adopt_group_def Let_def new_group_id_def split: option.split)

lemma set_groups_keeps: "keeps s (set_groups lower specs s)"
proof -
  have "keeps t (fold (adopt_group lower) specs t)" for t
    by (induction specs arbitrary: t) (auto intro: keeps_trans adopt_keeps)
  then show ?thesis
    unfolding set_groups_def by (rule keeps_trans [rotated]) (rule keeps_same, simp_all)
qed

lemma group_ops_keep:
  "keeps s (fst (create_group lower name s))"
  "keeps s (fst (rename_group lower g name s))"
  "keeps s (fst (delete_group g s))"
  "keeps s (fst (set_group_collapsed g collapsed s))"
  "keeps s (fst (move_in_group tree i to s))"
  by (rule keeps_same;
      simp add: create_group_def rename_group_def delete_group_def set_group_collapsed_def move_in_group_def
        new_group_id_def Let_def split: option.split)+

section \<open>Moving in the list\<close>

lemma move_item_insert:
  assumes "i < length xs" "j < length xs"
  shows "move_item i j xs = insert_at j (xs ! i) (remove_at i xs)"
proof (cases "i < j")
  case True
  have part: "take (Suc j - i) (drop i xs) = xs ! i # take (j - i) (drop (Suc i) xs)"
    using True assms by (simp add: Suc_diff_le take_Suc_conv_app_nth flip: Cons_nth_drop_Suc)
  have "take j (remove_at i xs) = take i xs @ take (j - i) (drop (Suc i) xs)"
    using True assms by (simp add: remove_at_def)
  moreover have "drop j (remove_at i xs) = drop (Suc j) xs"
    using True assms by (simp add: remove_at_def)
  ultimately show ?thesis
    using True by (simp add: move_item_def rotate_left_range_def insert_at_def part)
next
  case False
  let ?part = "take (Suc i - j) (drop j xs)"
  have last: "?part = take (i - j) (drop j xs) @ [xs ! i]"
    using False assms by (simp add: Suc_diff_le take_Suc_conv_app_nth)
  have "take j (remove_at i xs) = take j xs"
    using False assms by (simp add: remove_at_def min_def)
  moreover have "drop j (remove_at i xs) = take (i - j) (drop j xs) @ drop (Suc i) xs"
    using False assms by (simp add: remove_at_def drop_take)
  ultimately show ?thesis
    using False by (simp add: move_item_def rotate_right_range_def insert_at_def last Let_def)
qed

text \<open>Moving an element to the place of one with the same key keeps the list sorted.\<close>

lemma sorted_remove_at: "sorted (map f xs) \<Longrightarrow> sorted (map f (remove_at i xs))"
proof -
  assume "sorted (map f xs)"
  then have "sorted (map f (take i xs) @ map f (drop i xs))" by (simp flip: map_append)
  then show ?thesis
    using set_drop_subset_set_drop [of i "Suc i" xs] sorted_wrt_drop [of "(\<le>)" "map f (drop i xs)" 1]
    by (auto simp: remove_at_def sorted_append drop_map)
qed

lemma sorted_taken_out:
  assumes s: "sorted (map f xs)" and i: "i < length xs" and j: "j < length xs" and eq: "f (xs ! i) = f (xs ! j)"
    and k: "k = (if i < j then j - 1 else j) \<or> k = j"
  shows "sorted (map f (insert_at k (xs ! i) (remove_at i xs)))"
proof (rule sorted_insert_at)
  show "sorted (map f (remove_at i xs))" using s by (rule sorted_remove_at)
  have mono: "a \<le> b \<Longrightarrow> b < length xs \<Longrightarrow> f (xs ! a) \<le> f (xs ! b)" for a b
    using s by (auto simp: sorted_iff_nth_mono)
  have nth: "remove_at i xs ! a = (if a < i then xs ! a else xs ! Suc a)" if "a < length xs - 1" for a
    using that i by (simp add: remove_at_def nth_append)
  have len: "length (remove_at i xs) = length xs - 1" using i by (simp add: remove_at_def)
  show "\<forall>x \<in> set (take k (remove_at i xs)). f x \<le> f (xs ! i)"
  proof
    fix x assume "x \<in> set (take k (remove_at i xs))"
    then obtain a where a: "a < k" "a < length xs - 1" "x = remove_at i xs ! a"
      by (auto simp: in_set_conv_nth len)
    have "(if a < i then a else Suc a) \<le> j" using a(1) k j by (auto split: if_splits)
    then have "f x \<le> f (xs ! j)" using mono [of "if a < i then a else Suc a" j] j a(2,3) nth by (simp split: if_splits)
    then show "f x \<le> f (xs ! i)" using eq by simp
  qed
  show "\<forall>x \<in> set (drop k (remove_at i xs)). f (xs ! i) \<le> f x"
  proof
    fix x assume "x \<in> set (drop k (remove_at i xs))"
    then obtain a where a: "k \<le> a" "a < length xs - 1" "x = remove_at i xs ! a"
    proof -
      obtain b where "b < length (drop k (remove_at i xs))" "x = drop k (remove_at i xs) ! b"
        using \<open>x \<in> set (drop k (remove_at i xs))\<close> by (auto simp: in_set_conv_nth)
      then show ?thesis using that [of "k + b"] by (simp add: len)
    qed
    have "j \<le> (if a < i then a else Suc a)" using a(1) k by (auto split: if_splits)
    then have "f (xs ! j) \<le> f x" using mono [of j "if a < i then a else Suc a"] a(2,3) nth by (simp split: if_splits)
    then show "f (xs ! i) \<le> f x" using eq by simp
  qed
qed

text \<open>The range a conversation moves in.\<close>

lemma group_range_same:
  assumes "group_range s i = Some (a, b)" and "a \<le> k" "k < b" and at: "position (\<lambda>c. conv_id c = i) (ts_conversations s) = Some p"
  shows "k < length (ts_conversations s)
    \<and> conv_network (ts_conversations s ! k) = conv_network (ts_conversations s ! p)
    \<and> conversation_is_private (ts_conversations s ! k) = conversation_is_private (ts_conversations s ! p)"
proof -
  let ?cs = "ts_conversations s"
  define other where "other = (\<lambda>c. \<not> (conv_network c = conv_network (?cs ! p)
    \<and> conversation_is_private c = conversation_is_private (?cs ! p)))"
  have p: "p < length ?cs" using at by (simp add: position_Some)
  have ab: "a = (case position other (rev (take p ?cs)) of Some k \<Rightarrow> p - k | None \<Rightarrow> 0)"
    "b = (case position other (drop p ?cs) of Some k \<Rightarrow> p + k | None \<Rightarrow> length ?cs)"
    using assms(1) at by (simp_all add: group_range_def Let_def other_def)
  have b: "b \<le> length ?cs" using ab(2) p by (auto simp: position_Some split: option.splits)
  have "\<not> other (?cs ! k)"
  proof (cases "k < p")
    case True
    then have r: "rev (take p ?cs) ! (p - Suc k) = ?cs ! k" using p by (simp add: rev_nth)
    show ?thesis
    proof (cases "position other (rev (take p ?cs))")
      case None
      moreover have "?cs ! k \<in> set (take p ?cs)" using True p nth_mem [of k "take p ?cs"] by simp
      ultimately show ?thesis by (simp add: position_None)
    next
      case (Some j)
      have "j < length (rev (take p ?cs))" using Some by (simp add: position_Some)
      then have "p - Suc k < j" using Some ab(1) assms(2) True by simp
      then show ?thesis using Some r by (auto simp: position_Some)
    qed
  next
    case False
    show ?thesis
    proof (cases "position other (drop p ?cs)")
      case None
      have "?cs ! k = drop p ?cs ! (k - p)" "k - p < length (drop p ?cs)" using False b assms(3) p by auto
      then show ?thesis using None by (metis (no_types, lifting) nth_mem position_None)
    next
      case (Some j)
      then have "k - p < j" using ab(2) assms(3) False by auto
      moreover have "?cs ! k = drop p ?cs ! (k - p)" using False b assms(3) p by simp
      ultimately show ?thesis using Some by (auto simp: position_Some)
    qed
  qed
  then show ?thesis using b assms(3) by (simp add: other_def)
qed


lemma slot_key_same:
  "conv_network c = conv_network d \<Longrightarrow> conversation_is_private c = conversation_is_private d \<Longrightarrow>
     slot_key nets c = slot_key nets d"
  by (simp add: slot_key_def)

text \<open>Taking a conversation to the place of another of its network and kind.\<close>

lemma taken_out_keeps:
  assumes "i < length (ts_conversations s)" "j < length (ts_conversations s)"
    and "conv_network (ts_conversations s ! i) = conv_network (ts_conversations s ! j)"
    and "conversation_is_private (ts_conversations s ! i) = conversation_is_private (ts_conversations s ! j)"
    and "k = (if i < j then j - 1 else j) \<or> k = j"
  shows "keeps s (s\<lparr>ts_conversations := insert_at k (ts_conversations s ! i) (remove_at i (ts_conversations s))\<rparr>)"
  using mset_taken_out [OF assms(1), of k]
    sorted_taken_out [where f = "slot_key (ts_networks s)", OF _ assms(1,2) slot_key_same [OF assms(3,4)] assms(5)]
  by (simp add: keeps_def arranged_def)

lemma move_on_server_keeps: "keeps s (fst (move_on_server tree n i to s))"
proof (cases "move_on_server tree n i to s = (s, None)")
  case False
  let ?cs = "ts_conversations s"
  obtain span where span: "group_range s i = Some span"
    using False by (cases "group_range s i") (auto simp: move_on_server_def)
  let ?shown = "shown_indices tree n span s" and ?at = "\<lambda>other k. conv_id (?cs ! k) = other"
  obtain f where f: "position (?at i) ?shown = Some f"
    using False span by (cases "position (?at i) ?shown") (auto simp: move_on_server_def Let_def)
  obtain target where target: "move_target to (\<lambda>other. List.find (?at other) ?shown) f ?shown = Some target"
    using False span f
    by (cases "move_target to (\<lambda>other. List.find (?at other) ?shown) f ?shown") (auto simp: move_on_server_def Let_def)
  have flen: "f < length ?shown" using f by (simp add: position_Some)
  have "?shown ! (f - 1) \<in> set ?shown" "?shown ! 0 \<in> set ?shown"
    "?shown ! (length ?shown - 1) \<in> set ?shown" "?shown ! min (f + 1) (length ?shown - 1) \<in> set ?shown"
  proof -
    have "0 < length ?shown" using flen by linarith
    then show "?shown ! 0 \<in> set ?shown" by (rule nth_mem)
  qed (use flen in auto)
  then have "target \<in> set ?shown"
    using target by (auto simp: move_target_def Let_def find_Some_iff split: move_to.splits)
  moreover have "?shown ! f \<in> set ?shown" using flen by simp
  moreover have inside: "fst span \<le> k \<and> k < snd span" if "k \<in> set ?shown" for k
    using that by (auto simp: shown_indices_def)
  obtain p where p: "position (\<lambda>c. conv_id c = i) ?cs = Some p"
    using span by (cases "position (\<lambda>c. conv_id c = i) ?cs") (auto simp: group_range_def Let_def)
  have range: "k < length ?cs \<and> conv_network (?cs ! k) = conv_network (?cs ! p)
      \<and> conversation_is_private (?cs ! k) = conversation_is_private (?cs ! p)" if "k \<in> set ?shown" for k
    using group_range_same [of s i "fst span" "snd span" k p] span p inside [OF that] by simp
  ultimately have "keeps s (s\<lparr>ts_conversations := move_item (?shown ! f) target ?cs\<rparr>)"
    using taken_out_keeps [of "?shown ! f" s target target] by (simp add: move_item_insert)
  then have "keeps s (store_channel_order n order (s\<lparr>ts_conversations := move_item (?shown ! f) target ?cs\<rparr>))"
    and "keeps s (s\<lparr>ts_conversations := move_item (?shown ! f) target ?cs\<rparr>)" for order
    using keeps_trans store_keeps by blast+
  then show ?thesis
    using span f target by (auto simp: move_on_server_def Let_def split: option.split)
qed simp

lemma tree_parent_network:
  assumes "parent_of (display_tree_of s) i = Some (ServerParent n)"
  shows "\<exists>c \<in> set (ts_conversations s). conv_id c = i \<and> conv_network c = n"
proof -
  have none: "List.find (\<lambda>(_, children). i \<in> set children) (dt_groups (display_tree_of s)) = None"
    using assms by (auto simp: parent_of_def split: option.splits)
  then obtain x where x: "List.find (\<lambda>(_, children). i \<in> set children) (dt_servers (display_tree_of s)) = Some x"
      "fst x = n"
    using assms by (auto simp: parent_of_def)
  then have "x \<in> set (dt_servers (display_tree_of s))" "i \<in> set (snd x)"
    by (auto simp: find_Some_iff)
  then show ?thesis using x(2) by (auto simp: display_tree_of_def Let_def)
qed


lemma find_conversation_position:
  "find_conversation s i = Some c \<Longrightarrow> position (\<lambda>c. conv_id c = i) (ts_conversations s) = Some k \<Longrightarrow>
     k < length (ts_conversations s) \<and> ts_conversations s ! k = c"
  by (auto simp: find_conversation_def find_position position_Some)

lemma keeps_if_arranged:
  assumes "moves s t" "ts_selected t = ts_selected s" "ts_unread t = ts_unread s" "ts_highlighted t = ts_highlighted s"
    and "arranged s \<Longrightarrow> keeps s t"
  shows "keeps s t"
  using assms unfolding keeps_def moves_def same_lists_def by blast

lemma relocate_frame:
  "ts_selected (fst (relocate tree i other s)) = ts_selected s"
  "ts_unread (fst (relocate tree i other s)) = ts_unread s"
  "ts_highlighted (fst (relocate tree i other s)) = ts_highlighted s"
  by (simp_all add: relocate_def Let_def store_channel_order_def return_to_server_def leave_group_def
      move_to_group_def split: option.split parent.split)

lemma relocate_keeps: "keeps s (fst (relocate (display_tree_of s) i other s))"
proof (rule keeps_if_arranged [OF relocate_moves relocate_frame])
  let ?tree = "display_tree_of s" and ?r = "fst (return_to_server i s)"
  assume arr: "arranged s"
  show "keeps s (fst (relocate ?tree i other s))"
  proof (cases "\<exists>p n c d. parent_of ?tree i = Some p \<and> parent_of ?tree other = Some (ServerParent n)
      \<and> find_conversation s i = Some c \<and> find_conversation s other = Some d \<and> p \<noteq> ServerParent n
      \<and> conversation_is_private c = conversation_is_private d \<and> conv_network c = n")
    case True
    then obtain p n c d where h: "parent_of ?tree i = Some p" "parent_of ?tree other = Some (ServerParent n)"
      "find_conversation s i = Some c" "find_conversation s other = Some d" "p \<noteq> ServerParent n"
      "conversation_is_private c = conversation_is_private d" "conv_network c = n" by blast
    have r: "ts_conversations ?r = ts_conversations s"
      by (simp add: return_to_server_def leave_group_lists split: option.split)
    obtain e where "e \<in> set (ts_conversations s)" "conv_id e = other" "conv_network e = n"
      using tree_parent_network [OF h(2)] by blast
    moreover have "d \<in> set (ts_conversations s)" "conv_id d = other"
      using h(4) by (auto simp: find_conversation_def find_Some_iff)
    ultimately have d: "conv_network d = n"
      using arr by (metis arranged_def distinct_map inj_on_contraD)
    have store: "keeps s (store_channel_order m order (?r\<lparr>ts_conversations :=
        insert_at (if f < t then t - 1 else t) (ts_conversations s ! f) (remove_at f (ts_conversations s))\<rparr>))"
      if "position (\<lambda>c. conv_id c = i) (ts_conversations s) = Some f"
        "position (\<lambda>c. conv_id c = other) (ts_conversations s) = Some t" for f t m order
    proof -
      have f: "f < length (ts_conversations s)" "ts_conversations s ! f = c"
        using find_conversation_position [OF h(3) that(1)] by auto
      have t: "t < length (ts_conversations s)" "ts_conversations s ! t = d"
        using find_conversation_position [OF h(4) that(2)] by auto
      have "keeps ?r (?r\<lparr>ts_conversations :=
          insert_at (if f < t then t - 1 else t) (ts_conversations ?r ! f) (remove_at f (ts_conversations ?r))\<rparr>)"
        using f t h d by (intro taken_out_keeps [where j = t]) (simp_all add: r)
      then show ?thesis using keeps_trans [OF return_keeps keeps_trans [OF _ store_keeps]] r by simp
    qed
    then show ?thesis
      using h return_keeps [of s i] r
      by (auto simp: relocate_def Let_def split: option.split)
  next
    case False
    have "fst (relocate ?tree i other s) = s \<or>
        (\<exists>g. fst (relocate ?tree i other s) = fst (move_to_group i g (Some other) s))"
      using False by (auto simp: relocate_def Let_def split: option.split parent.split)
    then show ?thesis using move_to_group_keeps by auto
  qed
qed

lemma move_conversation_keeps: "keeps s (fst (move_conversation i to s))"
proof -
  let ?tree = "display_tree_of s"
  have stay: "keeps s (fst (if ts_groups s \<noteq> [] \<and> is_grouped s i
      then (case move_in_group ?tree i to s of
              (s, Some moved) \<Rightarrow> (s, if moved then Some n else None) | (s, None) \<Rightarrow> (s, None))
      else move_on_server ?tree n i to s))" for n
    using group_ops_keep(5) [of s ?tree i to] move_on_server_keeps
    by (auto split: prod.split option.split)
  have told: "fst (case p of (s, moved) \<Rightarrow> (s, if moved then Some n else None)) = fst p"
    for p :: "tree_state \<times> bool" and n :: network_id
    by (simp add: split_beta)
  show ?thesis
  proof (cases "find_conversation s i")
    case (Some c)
    note stays = stay [of "conv_network c"]
    show ?thesis
    proof (cases "\<exists>other. to = MovePlace other \<and> ts_groups s \<noteq> []")
      case True
      then obtain other where "to = MovePlace other" "ts_groups s \<noteq> []" by blast
      then show ?thesis
        using stays relocate_keeps [of s i other]
        by (cases "is_grouped s i") (simp_all add: move_conversation_def Some Let_def told split: option.split)
    next
      case False
      then have "fst (move_conversation i to s) = fst (if ts_groups s \<noteq> [] \<and> is_grouped s i
          then (case move_in_group ?tree i to s of
                  (s, Some moved) \<Rightarrow> (s, if moved then Some (conv_network c) else None) | (s, None) \<Rightarrow> (s, None))
          else move_on_server ?tree (conv_network c) i to s)"
        by (cases to) (simp_all add: move_conversation_def Some Let_def)
      then show ?thesis using stays by simp
    qed
  qed (simp add: move_conversation_def)
qed

lemma move_after_keeps: "keeps s (fst (move_after i other s))"
proof -
  have "keeps s (fst (move_conversation i MoveLast (fst (return_to_server i s))))"
    by (rule keeps_trans [OF return_keeps move_conversation_keeps])
  then show ?thesis
    using move_conversation_keeps move_to_group_keeps return_keeps
    by (auto simp: move_after_def Let_def split_beta split: option.split parent.split)
qed

lemma sorted_run:
  assumes "sorted (map f (as @ bs @ cs))" "mset ds = mset bs" "\<forall>b \<in> set bs. f b = v"
  shows "sorted (map f (as @ ds @ cs))"
proof -
  have "set ds = set bs" using assms(2) by (rule mset_eq_setD)
  then have "map f ds = replicate (length ds) v" "map f bs = replicate (length bs) v"
    using assms(3) by (auto intro!: replicate_eqI)
  moreover have "length ds = length bs" using assms(2) by (rule mset_eq_length)
  ultimately show ?thesis using assms(1) by simp
qed

lemma apply_order_keeps: "keeps s (apply_channel_order n s)"
proof (rule keeps_if_arranged [OF apply_order_moves])
  let ?cs = "ts_conversations s"
  let ?P = "\<lambda>c. conv_network c = n \<and> \<not> conversation_is_private c"
  let ?Q = "\<lambda>c. conv_network c \<noteq> n \<or> conversation_is_private c"
  assume arr: "arranged s"
  show "keeps s (apply_channel_order n s)"
  proof (cases "map_of (ts_ranks s) n = None \<or> position ?P ?cs = None")
    case True
    then show ?thesis by (auto simp: apply_channel_order_def Let_def split: option.splits)
  next
    case False
    then obtain ranks start where h: "map_of (ts_ranks s) n = Some ranks" "position ?P ?cs = Some start" by auto
    define len where "len = (case position ?Q (drop start ?cs) of Some i \<Rightarrow> i | None \<Rightarrow> length ?cs - start)"
    let ?mid = "take len (drop start ?cs)"
    have "?P c" if c: "c \<in> set ?mid" for c
    proof (cases "position ?Q (drop start ?cs)")
      case None
      have "c \<in> set (drop start ?cs)" using c by (rule in_set_takeD)
      then show ?thesis using None unfolding position_None by auto
    next
      case (Some j)
      then have "c \<in> set (take j (drop start ?cs))" using c by (simp add: len_def)
      then show ?thesis using Some by (auto simp: position_Some in_set_conv_nth)
    qed
    then have key: "\<forall>c \<in> set ?mid. slot_key (ts_networks s) c = 2 * places (ts_networks s) n"
      by (simp add: slot_key_def)
    have split: "take start ?cs @ ?mid @ drop (start + len) ?cs = ?cs"
      by (metis append_take_drop_id drop_drop add.commute)
    let ?ds = "take start ?cs @ sort_key (\<lambda>c. rank_of ranks (conv_name c)) ?mid @ drop (start + len) ?cs"
    have "apply_channel_order n s = s\<lparr>ts_conversations := ?ds\<rparr>"
      using h by (simp add: apply_channel_order_def Let_def len_def)
    moreover have "sorted (map (slot_key (ts_networks s)) (take start ?cs @ ?mid @ drop (start + len) ?cs))"
      unfolding split using arr by (simp add: arranged_def)
    then have "sorted (map (slot_key (ts_networks s)) ?ds)"
      by (rule sorted_run [OF _ _ key]) simp
    moreover have "mset ?ds = mset (take start ?cs @ ?mid @ drop (start + len) ?cs)" by simp
    then have "mset ?ds = mset ?cs" unfolding split .
    ultimately show ?thesis by (simp add: keeps_def)
  qed
qed (simp_all add: apply_channel_order_def Let_def split: option.split)

lemma tree_step_keeps: "keeps s (tree_step lower op s)"
  by (cases op)
    (simp_all add: set_groups_keeps group_ops_keep move_to_group_keeps return_keeps move_conversation_keeps
      move_after_keeps set_channel_order_def keeps_trans [OF store_keeps apply_order_keeps])

end
