(* ===== verification/AppMachine.thy ===== *)
theory AppMachine
  imports LogSteps TreeArrangement Navigation Contracts
begin

text \<open>
  The application as a state machine over the operations of \<open>AppState\<close>
  (\<open>crates/app/src/lib.rs\<close>): every operation is defined on every state a run reaches, no panic of the
  selection, of the navigation or of the reset of a server among them, and keeps the list of
  conversations, the index of channels, the selection, the marks and the logs consistent.
\<close>

section \<open>What every operation keeps\<close>

definition app_good :: "app_state \<Rightarrow> bool" where
  "app_good s \<longleftrightarrow> app_inv s \<and> log_inv s"

lemma good_step: "app_good s \<Longrightarrow> log_step k s t \<Longrightarrow> app_good t"
  using log_frame_inv log_stepD unfolding app_good_def by blast

lemma good_less: "app_good s \<Longrightarrow> app_inv t \<Longrightarrow> log_less s t \<Longrightarrow> app_good t"
  using log_less_inv unfolding app_good_def by blast

section \<open>Selection\<close>

lemma select_channel_inv:
  assumes inv: "app_inv s"
  shows "app_inv (select_channel i s)"
proof (cases "conversation_at s i = None")
  case False
  have m: "marks s \<subseteq> conv_id ` set (heads s)" using inv by (simp add: app_inv_def list_inv_def marks_ok_def)
  show ?thesis
  proof (rule app_inv_same [OF inv])
    show "marks (select_channel i s) \<subseteq> conv_id ` set (heads s)"
      using m False by (auto simp: marks_def select_channel_def)
    show "selection_ok (ts_networks s) (heads s) (ts_selected (select_channel i s))"
      using False present_id [OF False] by (auto simp: select_channel_def selection_ok_def heads_ids)
  qed (simp_all add: select_channel_def heads_def)
qed (use inv in \<open>simp add: select_channel_def\<close>)

lemma select_server_inv:
  assumes inv: "app_inv s"
  shows "app_inv (select_server n s)"
proof (cases "known_network s n")
  case True
  have m: "marks s \<subseteq> conv_id ` set (heads s)" using inv by (simp add: app_inv_def list_inv_def marks_ok_def)
  show ?thesis
  proof (rule app_inv_same [OF inv])
    show "marks (select_server n s) \<subseteq> conv_id ` set (heads s)" using m by (simp add: marks_def select_server_def)
    show "selection_ok (ts_networks s) (heads s) (ts_selected (select_server n s))"
      using True by (simp add: select_server_def selection_ok_def known_network_iff)
  qed (simp_all add: select_server_def heads_def)
qed (use inv in \<open>simp add: select_server_def\<close>)

lemma select_log_less: "log_less s (select_channel i s)" "log_less s (select_server n s)"
  by (rule log_less_same; simp add: select_channel_def select_server_def)+

lemma select_good:
  "app_good s \<Longrightarrow> app_good (select_channel i s)" "app_good s \<Longrightarrow> app_good (select_server n s)"
  using good_less select_channel_inv select_server_inv select_log_less unfolding app_good_def by blast+

lemma attention_good:
  assumes "app_good s" "fst ` set a \<subseteq> conv_id ` set (ts_conversations s)"
  shows "app_good (s\<lparr>as_attention := a\<rparr>)"
proof (rule good_step [OF assms(1)])
  have "log_inv s" using assms(1) by (simp add: app_good_def)
  then show "log_step 0 s (s\<lparr>as_attention := a\<rparr>)"
  proof (rule log_step_after [OF log_step_refl])
    show "log_less s (s\<lparr>as_attention := a\<rparr>)" by (rule log_less_same) simp_all
    have "marks (s\<lparr>as_attention := a\<rparr>) \<subseteq> marks s \<union> fst ` set a" by (auto simp: marks_def image_iff)
    then show "log_frame s (s\<lparr>as_attention := a\<rparr>)"
      using assms(2) by (intro log_frame_same) (simp_all, blast)
  qed
qed

lemma reveal_good: "app_good s \<Longrightarrow> app_good (s\<lparr>as_reveal := v\<rparr>)"
  using good_step pending_step(6) log_step_refl unfolding app_good_def by blast

lemma visit_loop_good:
  assumes "app_good s" "fst ` set queue \<subseteq> conv_id ` set (ts_conversations s)"
  shows "app_good (visit_loop queue s)"
  using assms
proof (induction queue s rule: visit_loop.induct)
  case (1 s)
  then show ?case using attention_good [of s "[]"] by simp
next
  case (2 i q rest s)
  then show ?case using reveal_good select_good(1) attention_good [of s rest] by simp
qed

lemma visit_good:
  assumes "app_good s"
  shows "app_good (visit_attention s)"
proof -
  have "marks_ok (ts_conversations s) (marks s)" using assms by (simp add: app_good_def app_inv_iff list_inv_iff)
  then have "fst ` set (as_attention s) \<subseteq> conv_id ` set (ts_conversations s)"
    by (auto simp: marks_ok_def marks_def)
  then show ?thesis unfolding visit_attention_def by (rule visit_loop_good [OF assms])
qed

section \<open>Navigation\<close>

lemma tree_of_lists [simp]:
  "ts_networks (tree_of s) = ts_networks s" "ts_conversations (tree_of s) = ts_conversations s"
  by (simp_all add: tree_of_def tree_state.defs)

lemma shown_in_tree:
  assumes "c \<in> set (ts_conversations s)" "conv_network c \<in> nw_id ` set (ts_networks s)"
  shows "conv_id c \<in> set (tree_conversations (display_tree_of (tree_of s)))"
proof (cases "conv_id c \<in> set (all_grouped (tree_of s))")
  case True
  then show ?thesis by (auto simp: tree_conversations_def all_grouped_def)
next
  case False
  then have "conv_id c \<in> set (on_server (tree_of s) (conv_network c))"
    using assms(1) by (auto simp: on_server_def)
  then show ?thesis using assms(2) by (auto simp: tree_conversations_def)
qed

lemma selected_shown:
  assumes "app_inv s" "ts_selected s = SelChannel i"
  shows "i \<in> set (tree_conversations (display_tree_of (tree_of s)))"
proof -
  obtain c where "c \<in> set (ts_conversations s)" "conv_id c = i"
    using assms by (auto simp: app_inv_iff selection_ok_def)
  moreover from this have "conv_network c \<in> nw_id ` set (ts_networks s)"
    using assms(1) by (auto simp: app_inv_iff list_inv_iff list_ok_def)
  ultimately show ?thesis using shown_in_tree by blast
qed

lemma cycle_start_known:
  assumes "app_inv s"
  shows "cycle_start s forward \<noteq> None"
proof (cases "ts_selected s")
  case (SelChannel i)
  have "position (\<lambda>c. c = i) (tree_conversations (display_tree_of (tree_of s))) \<noteq> None"
    unfolding position_None using selected_shown [OF assms SelChannel] by blast
  then show ?thesis using SelChannel by (simp add: cycle_start_def Let_def)
qed (simp_all add: cycle_start_def Let_def)

lemma cycle_channel_good:
  assumes "app_good s"
  shows "\<exists>t. cycle_channel forward filt s = Some t \<and> app_good t"
proof -
  obtain k where "cycle_start s forward = Some k"
    using cycle_start_known assms unfolding app_good_def by blast
  then show ?thesis
    using assms select_good(1) by (simp add: cycle_channel_def Let_def split: option.split)
qed

lemma cycle_server_good:
  assumes "app_good s"
  shows "app_good (cycle_server forward active_only s)"
  using assms select_good
  by (simp add: cycle_server_def Let_def apply_stop_def split: option.split list.split stop.split)

lemma dispatch_good:
  assumes "app_good s"
  shows "\<exists>t. dispatch command s = Some t \<and> app_good t"
  using assms cycle_channel_good [OF assms] cycle_server_good [OF assms] select_good [OF assms] visit_good [OF assms]
  by (cases command) (simp_all add: dispatch_def split: option.split)

section \<open>The tree\<close>

text \<open>The operations of the tree, on the part of the state they are about.\<close>

definition lift_tree :: "(tree_state \<Rightarrow> tree_state) \<Rightarrow> app_state \<Rightarrow> app_state" where
  "lift_tree f s = tree_state.extend (f (tree_of s)) (tree_state.more s)"

lemma lift_tree_simps [simp]:
  "ts_networks (lift_tree f s) = ts_networks (f (tree_of s))"
  "ts_conversations (lift_tree f s) = ts_conversations (f (tree_of s))"
  "ts_selected (lift_tree f s) = ts_selected (f (tree_of s))"
  "ts_unread (lift_tree f s) = ts_unread (f (tree_of s))"
  "ts_highlighted (lift_tree f s) = ts_highlighted (f (tree_of s))"
  "as_next_conversation (lift_tree f s) = as_next_conversation s"
  "as_casemappings (lift_tree f s) = as_casemappings s" "as_channel_ids (lift_tree f s) = as_channel_ids s"
  "as_active_channels (lift_tree f s) = as_active_channels s" "as_attention (lift_tree f s) = as_attention s"
  "as_floor (lift_tree f s) = as_floor s" "as_next_sequence (lift_tree f s) = as_next_sequence s"
  "as_history_blocks (lift_tree f s) = as_history_blocks s"
  by (cases s; simp add: lift_tree_def tree_state.defs)+

lemma tree_of_marks [simp]:
  "ts_selected (tree_of s) = ts_selected s" "ts_unread (tree_of s) = ts_unread s"
  "ts_highlighted (tree_of s) = ts_highlighted s"
  by (simp_all add: tree_of_def tree_state.defs)

lemma list_ok_permuted:
  assumes ok: "list_ok nets k cs" and perm: "mset ds = mset cs" and sorted: "sorted (map (slot_key nets) ds)"
  shows "list_ok nets k ds"
proof -
  have set: "set ds = set cs" using perm by (rule mset_eq_setD)
  have "mset (map conv_id ds) = mset (map conv_id cs)" using perm by simp
  then have "distinct (map conv_id ds) = distinct (map conv_id cs)" by (rule mset_eq_imp_distinct_iff)
  moreover have "length (filter P ds) = length (filter P cs)" for P
    using perm by (metis mset_filter size_mset)
  ultimately show ?thesis using ok set sorted by (simp add: list_ok_def)
qed

lemma lift_tree_good:
  assumes good: "app_good s" and keeps: "keeps (tree_of s) (f (tree_of s))"
  shows "app_good (lift_tree f s)"
proof (rule good_less [OF good])
  let ?t = "lift_tree f s"
  note k = keeps [unfolded keeps_def, simplified]
  have li: "list_inv s" "selection_ok (ts_networks s) (ts_conversations s) (ts_selected s)"
    using good by (simp_all add: app_good_def app_inv_iff)
  note l = li(1) [unfolded list_inv_iff]
  have set: "set (ts_conversations ?t) = set (ts_conversations s)"
    using k mset_eq_setD [of "ts_conversations (f (tree_of s))" "ts_conversations s"] by simp
  have "arranged (tree_of s)" using l by (auto simp: arranged_def list_ok_def)
  then have sorted: "sorted (map (slot_key (ts_networks s)) (ts_conversations ?t))" using k by simp
  have ok: "list_ok (ts_networks s) (as_next_conversation s) (ts_conversations ?t)"
    by (rule list_ok_permuted [OF _ _ sorted]) (use l k in \<open>blast, simp\<close>)
  have marks: "marks ?t = marks s" and frame: "ts_networks ?t = ts_networks s" "ts_selected ?t = ts_selected s"
    using k by (simp_all add: marks_def)
  have index: "index_ok (as_casemappings s) (as_channel_ids s) (ts_conversations ?t)"
    using l unfolding index_ok_def set by blast
  have "selection_ok (ts_networks s) (ts_conversations ?t) (ts_selected s)"
    using li(2) unfolding selection_ok_def set .
  then show "app_inv ?t"
    using l ok index unfolding app_inv_iff list_inv_iff marks frame marks_ok_def set by simp
  show "log_less s ?t" using set by (auto simp: log_less_def logs_def)
qed

section \<open>Operations\<close>

text \<open>The public operations that change the state, each with the arguments of its call. The three
  \<open>insert_\<close> operations of history are these in a row, and \<open>insert_older_history\<close> too.\<close>

datatype app_op =
    OpSync "network_config list"
  | OpReset network_id "rstring list"
  | OpStatus network_id connection_status
  | OpMapping network_id case_mapping
  | OpJoined network_id rstring
  | OpParted network_id rstring
  | OpModes network_id rstring rstring
  | OpMembers network_id rstring "rstring list"
  | OpTopic network_id rstring rstring
  | OpPrivate network_id rstring rstring missing
  | OpRename network_id rstring rstring rstring
  | OpClose conversation_id
  | OpDispatch command
  | OpTree tree_op
  | OpHighlight conversation_id
  | OpMarkHighlighted network_id rstring
  | OpMarkUnread conversation_id
  | OpNote conversation_id
  | OpTakeReveal
  | OpChannelMessage network_id rstring rstring rstring line_kind message_meta
  | OpChannelLine line_type network_id rstring rstring message_meta
  | OpJoinAlert network_id rstring rstring message_meta
  | OpMessage conversation_id rstring rstring line_kind message_meta unread
  | OpActivity conversation_id rstring
  | OpNetworkActivity network_id rstring
  | OpServerMessage network_id rstring message_meta
  | OpSystemMessage network_id rstring
  | OpDiagnostic network_id rstring
  | OpConfirm conversation_id "64 word" "rstring option" line_kind message_meta
  | OpFail conversation_id "64 word"
  | OpRequested conversation_id
  | OpResumed network_id rstring
  | OpHistoryLine conversation_id timeline_line
  | OpHistoryEnd conversation_id "rstring option"
  | OpPaging network_id bool
  | OpRequestOlder conversation_id
  | OpOlderLine conversation_id "64 word" timeline_line
  | OpOlderEnd conversation_id "64 word" bool

text \<open>\<open>None\<close> is a panic. Lowercasing and what an operation meets outside are arguments.\<close>

fun app_step :: "(rstring \<Rightarrow> rstring) \<Rightarrow> outside \<Rightarrow> app_op \<Rightarrow> app_state \<Rightarrow> app_state option" where
  "app_step lower o' (OpSync configs) s = Some (snd (sync_networks configs s))"
| "app_step lower o' (OpReset n channels) s = map_option snd (reset_network n channels s)"
| "app_step lower o' (OpStatus n status) s = Some (set_status n status s)"
| "app_step lower o' (OpMapping n mapping) s = Some (set_casemapping n mapping s)"
| "app_step lower o' (OpJoined n name) s = Some (app_joined_channel n name s)"
| "app_step lower o' (OpParted n name) s = Some (parted_channel n name s)"
| "app_step lower o' (OpModes n name modes) s = Some (set_channel_modes n name modes s)"
| "app_step lower o' (OpMembers n name members) s = Some (set_members lower n name members s)"
| "app_step lower o' (OpTopic n name topic) s = Some (set_topic n name topic s)"
| "app_step lower o' (OpPrivate n key name missing) s = Some (snd (private_conversation n key name missing s))"
| "app_step lower o' (OpRename n key to_key name) s = Some (snd (rename_private n key to_key name s))"
| "app_step lower o' (OpClose i) s = Some (snd (close_private i s))"
| "app_step lower o' (OpDispatch command) s = dispatch command s"
| "app_step lower o' (OpTree op) s = Some (lift_tree (tree_step lower op) s)"
| "app_step lower o' (OpHighlight i) s = Some (highlight i s)"
| "app_step lower o' (OpMarkHighlighted n name) s = Some (mark_highlighted n name s)"
| "app_step lower o' (OpMarkUnread i) s = Some (mark_unread i s)"
| "app_step lower o' (OpNote i) s = Some (note_attention i s)"
| "app_step lower o' OpTakeReveal s = Some (snd (take_reveal s))"
| "app_step lower o' (OpChannelMessage n name sender body kind meta) s =
     Some (snd (append_channel_message_at o' n name sender body kind meta s))"
| "app_step lower o' (OpChannelLine line n name body meta) s = Some (append_channel_line_at line o' n name body meta s)"
| "app_step lower o' (OpJoinAlert n name body meta) s = Some (append_requested_join_alert_at o' n name body meta s)"
| "app_step lower o' (OpMessage i sender body kind meta unread) s =
     Some (snd (append_conversation_message o' i sender body kind meta unread s))"
| "app_step lower o' (OpActivity i body) s = Some (append_conversation_activity o' i body s)"
| "app_step lower o' (OpNetworkActivity n body) s = Some (append_network_activity o' n body s)"
| "app_step lower o' (OpServerMessage n body meta) s = Some (append_server_message_at o' n body meta s)"
| "app_step lower o' (OpSystemMessage n body) s = Some (append_system_message o' n body s)"
| "app_step lower o' (OpDiagnostic n body) s = Some (append_diagnostic_message o' n body s)"
| "app_step lower o' (OpConfirm i q body kind meta) s = Some (snd (confirm_message o' i q body kind meta s))"
| "app_step lower o' (OpFail i q) s = Some (fail_message i q s)"
| "app_step lower o' (OpRequested i) s = Some (history_requested_for i s)"
| "app_step lower o' (OpResumed n name) s = Some (history_resumed n name s)"
| "app_step lower o' (OpHistoryLine i line) s = Some (snd (push_history_line o' i line s))"
| "app_step lower o' (OpHistoryEnd i gap_note) s = Some (snd (finish_history_for o' i gap_note s))"
| "app_step lower o' (OpPaging n available) s = Some (set_history_paging n available s)"
| "app_step lower o' (OpRequestOlder i) s = Some (snd (request_older_history i s))"
| "app_step lower o' (OpOlderLine i request line) s = Some (snd (push_older_history_line o' i request line s))"
| "app_step lower o' (OpOlderEnd i request beginning) s = Some (snd (finish_older_history i request beginning s))"

text \<open>The room an operation needs: sequences for its lines, numbers for its conversations, and for the
  first line of an older page a block below the floor. The configuration names each server once.\<close>

fun op_lines :: "app_op \<Rightarrow> app_state \<Rightarrow> nat" where
  "op_lines (OpNetworkActivity n body) s = length (ts_conversations s)"
| "op_lines (OpHistoryEnd i gap_note) s = 1 + pending_lines s i"
| "op_lines _ s = 1"

fun op_conversations :: "app_op \<Rightarrow> nat" where
  "op_conversations (OpSync configs) = configured_channels configs"
| "op_conversations (OpReset n channels) = length channels"
| "op_conversations _ = 1"

definition app_ok :: "app_state \<Rightarrow> app_op \<Rightarrow> bool" where
  "app_ok s op \<longleftrightarrow>
     unat (as_next_sequence s) + op_lines op s < 2 ^ 64
     \<and> unat (as_next_conversation s) + op_conversations op < 2 ^ 32
     \<and> (case op of
          OpSync configs \<Rightarrow> distinct (map nc_id configs)
        | OpOlderLine i request line \<Rightarrow> HISTORY_RESERVE \<le> unat (as_floor s)
        | _ \<Rightarrow> True)"

section \<open>Every operation keeps the invariant\<close>

lemma outside_steps:
  assumes "log_inv s"
  shows "log_step 0 s (history_requested_for i s)" "log_step 0 s (history_resumed n name s)"
    and "log_step 0 s (snd (push_history_line o' i line s))" "log_step 0 s (set_history_paging n available s)"
    and "log_step 0 s (snd (request_older_history i s))" "log_step 0 s (snd (take_reveal s))"
proof -
  show "log_step 0 s (history_requested_for i s)"
    by (rule outside_logs [OF log_step_refl [OF assms]]) (simp_all add: history_requested_for_def marks_def)
qed (use pending_step [OF log_step_refl [OF assms]] log_step_refl [OF assms] in
    \<open>simp_all add: history_resumed_def push_history_line_def set_history_paging_def
      request_older_history_def take_reveal_def Let_def split: option.split\<close>)

lemma mark_steps:
  assumes "log_inv s"
  shows "log_step 0 s (highlight i s)" "log_step 0 s (mark_unread i s)" "log_step 0 s (note_attention i s)"
proof -
  have "log_less s (highlight i s)" by (rule log_less_same) (simp_all add: highlight_def)
  then show "log_step 0 s (highlight i s)" by (rule log_step_after [OF log_step_refl [OF assms] _ log_frame_highlight])
  show "log_step 0 s (mark_unread i s)"
    by (rule log_step_after [OF log_step_refl [OF assms] mark_unread_less log_frame_mark_unread])
  show "log_step 0 s (note_attention i s)" by (rule note_step [OF log_step_refl [OF assms]])
qed

lemma mark_highlighted_good: "app_good s \<Longrightarrow> app_good (mark_highlighted n name s)"
proof -
  assume good: "app_good s"
  have "log_less s (mark_highlighted n name s)"
    by (rule log_less_same) (simp_all add: mark_highlighted_def split: option.split)
  then show ?thesis using good_less [OF good mark_highlighted_inv] good by (simp add: app_good_def)
qed

lemma join_alert_good:
  assumes good: "app_good s" and room: "unat (as_next_sequence s) + 1 < 2 ^ 64"
    and numbers: "unat (as_next_conversation s) + 1 < 2 ^ 32"
  shows "app_good (append_requested_join_alert_at o' n name body meta s)"
proof -
  obtain found t where e: "ensure_channel n name s = (found, t)" by (rule prod.exhaust)
  have inv: "app_inv s" "list_inv s" using good by (simp_all add: app_good_def app_inv_iff)
  have t: "app_inv t" using grows_app_inv [OF inv(1) ensure_channel_inv(1) [OF inv(2) numbers, of n name]] e by simp
  have l: "log_less s t" using ensure_log_less(2) [of s n name] e by simp
  have gt: "app_good t" using good_less [OF good t l] .
  moreover have "log_step 1 t (append_channel_alert_at o' n name body meta t)"
    unfolding append_channel_alert_at_def using gt room l by (intro channel_line_step) (simp_all add: app_good_def log_less_def)
  ultimately show ?thesis using good_step by (simp add: append_requested_join_alert_at_def e)
qed

lemma session_good:
  assumes good: "app_good s" and room: "unat (as_next_conversation s) + 1 < 2 ^ 32"
  shows "app_good (set_status n status s)" "app_good (set_casemapping n mapping s)"
    and "app_good (app_joined_channel n name s)" "app_good (parted_channel n name s)"
    and "app_good (set_channel_modes n name modes s)" "app_good (set_members lower n name members s)"
    and "app_good (set_topic n name modes s)"
    and "app_good (snd (private_conversation n key name missing s))"
    and "app_good (snd (rename_private n key to_key name s))" "app_good (snd (close_private i s))"
proof -
  have inv: "app_inv s" using good by (simp add: app_good_def)
  note g = good_less [OF good]
  show "app_good (set_status n status s)" by (rule g [OF set_status_inv [OF inv] status_log_less])
  show "app_good (set_casemapping n mapping s)" by (rule g [OF set_casemapping_inv [OF inv] session_log_less(1)])
  show "app_good (app_joined_channel n name s)" by (rule g [OF joined_inv [OF inv room] session_log_less(5)])
  show "app_good (parted_channel n name s)" by (rule g [OF parted_inv [OF inv] session_log_less(7)])
  show "app_good (set_channel_modes n name modes s)" by (rule g [OF set_modes_inv [OF inv] session_log_less(6)])
  show "app_good (set_members lower n name members s)" by (rule g [OF set_members_inv [OF inv] session_log_less(8)])
  show "app_good (set_topic n name modes s)" by (rule g [OF set_topic_inv [OF inv] session_log_less(9)])
  show "app_good (snd (private_conversation n key name missing s))"
    by (rule g [OF private_inv [OF inv room] session_log_less(2)])
  show "app_good (snd (rename_private n key to_key name s))"
    by (rule g [OF rename_private_inv [OF inv] session_log_less(3)])
  show "app_good (snd (close_private i s))" by (rule g [OF close_inv [OF inv] session_log_less(4)])
qed

lemma networks_good:
  assumes good: "app_good s"
  shows "distinct (map nc_id configs) \<Longrightarrow> unat (as_next_conversation s) + configured_channels configs < 2 ^ 32
      \<Longrightarrow> app_good (snd (sync_networks configs s))"
    and "unat (as_next_conversation s) + length channels < 2 ^ 32
      \<Longrightarrow> \<exists>removed t. reset_network n channels s = Some (removed, t) \<and> app_good t"
proof -
  have inv: "app_inv s" "list_inv s" using good by (simp_all add: app_good_def app_inv_iff)
  show "app_good (snd (sync_networks configs s))"
    if "distinct (map nc_id configs)" "unat (as_next_conversation s) + configured_channels configs < 2 ^ 32"
    using good_less [OF good sync_inv(1) [OF inv(2) that] sync_log_less] .
  show "\<exists>removed t. reset_network n channels s = Some (removed, t) \<and> app_good t"
    if "unat (as_next_conversation s) + length channels < 2 ^ 32"
    using reset_inv [OF inv(1) that, of n] good_less [OF good] reset_log_less by blast
qed

lemma line_steps:
  assumes "log_inv s" "unat (as_next_sequence s) + 1 < 2 ^ 64"
  shows "log_step 1 s (snd (append_channel_message_at o' n name sender body kind meta s))"
    and "log_step 1 s (append_channel_line_at line o' n name body meta s)"
    and "log_step 1 s (snd (append_conversation_message o' i sender body kind meta unread s))"
    and "log_step 1 s (append_conversation_activity o' i body s)"
    and "log_step 1 s (append_server_message_at o' n body meta s)"
    and "log_step 1 s (append_system_message o' n body s)"
    and "log_step 1 s (append_diagnostic_message o' n body s)"
    and "log_step 0 s (snd (confirm_message o' i q text' kind meta s))"
    and "log_step 0 s (fail_message i q s)"
  by (rule channel_message_step [OF assms] channel_line_step [OF assms] message_step [OF assms]
      activity_step [OF assms] server_steps [OF assms] confirm_step [OF assms(1)] fail_step [OF assms(1)])+

lemma app_step_good:
  assumes good: "app_good s" and ok: "app_ok s op"
  shows "\<exists>t. app_step lower o' op s = Some t \<and> app_good t"
proof -
  have inv: "log_inv s" using good by (simp add: app_good_def)
  have room: "unat (as_next_sequence s) + op_lines op s < 2 ^ 64"
    "unat (as_next_conversation s) + op_conversations op < 2 ^ 32"
    using ok by (simp_all add: app_ok_def)
  have session: "app_good (set_status n status s)" "app_good (set_casemapping n mapping s)"
    "app_good (app_joined_channel n name s)" "app_good (parted_channel n name s)"
    "app_good (set_channel_modes n name modes s)" "app_good (set_members lower n name members s)"
    "app_good (set_topic n name modes s)" "app_good (snd (private_conversation n key name missing s))"
    "app_good (snd (rename_private n key to_key name s))" "app_good (snd (close_private i s))"
    if "op_conversations op = 1" for n status mapping name modes members key missing to_key i
    using session_good [OF good] room(2) that by simp_all
  note lines = line_steps [OF inv, THEN good_step [OF good]]
  note out = outside_steps [OF inv, THEN good_step [OF good]] mark_steps [OF inv, THEN good_step [OF good]]
  have tree: "app_good (lift_tree (tree_step lower top) s)" for top
    by (rule lift_tree_good [where f = "tree_step lower top", OF good tree_step_keeps])
  show ?thesis
  proof (cases op)
    case (OpSync configs)
    then show ?thesis using networks_good(1) [OF good, of configs] room ok by (simp add: app_ok_def)
  next
    case (OpReset n channels)
    then show ?thesis using networks_good(2) [OF good, of channels n] room by auto
  next
    case (OpDispatch command)
    then show ?thesis using dispatch_good [OF good] by simp
  next
    case (OpTree top)
    then show ?thesis using tree by simp
  next
    case (OpMarkHighlighted n name)
    then show ?thesis using mark_highlighted_good [OF good] by simp
  next
    case (OpJoinAlert n name body meta)
    then show ?thesis using join_alert_good [OF good] room by simp
  next
    case (OpNetworkActivity n body)
    then show ?thesis using good_step [OF good network_activity_step [OF inv]] room by simp
  next
    case (OpHistoryEnd i gap_note)
    then show ?thesis using good_step [OF good finish_history_step [OF inv]] room by simp
  next
    case (OpOlderLine i request line)
    then show ?thesis using page_steps(1) good ok by (simp add: app_good_def app_ok_def)
  next
    case (OpOlderEnd i request beginning)
    then show ?thesis using page_steps(2) good by (simp add: app_good_def)
  qed (use session lines out room in \<open>simp_all\<close>)
qed

section \<open>Runs\<close>

fun app_run :: "(rstring \<Rightarrow> rstring) \<Rightarrow> outside \<Rightarrow> app_op list \<Rightarrow> app_state \<Rightarrow> app_state option" where
  "app_run lower o' [] s = Some s"
| "app_run lower o' (op # ops) s = Option.bind (app_step lower o' op s) (app_run lower o' ops)"

text \<open>Each operation of the run has its room. A panic is not excluded here.\<close>

fun app_fits :: "(rstring \<Rightarrow> rstring) \<Rightarrow> outside \<Rightarrow> app_op list \<Rightarrow> app_state \<Rightarrow> bool" where
  "app_fits lower o' [] s \<longleftrightarrow> True"
| "app_fits lower o' (op # ops) s \<longleftrightarrow>
     app_ok s op \<and> (case app_step lower o' op s of None \<Rightarrow> True | Some t \<Rightarrow> app_fits lower o' ops t)"

definition config_ok :: "network_config list \<Rightarrow> bool" where
  "config_ok configs \<longleftrightarrow> distinct (map nc_id configs) \<and> configured_channels configs < 2 ^ 32 - 1"

lemma with_networks_log: "log_inv (with_networks configs)"
proof -
  have ensure: "log_less v (ensure_channels n names v)" for n names v
    unfolding ensure_channels_def by (rule log_less_fold) (rule ensure_log_less)
  have "log_less v (add_network k v)" for k v
    unfolding add_network_def by (rule log_less_trans [OF log_less_same ensure]) simp_all
  then have "log_less (app_new configs) (fold add_network configs (app_new configs))" by (rule log_less_fold)
  moreover have "log_less v (v\<lparr>ts_selected := x\<rparr>)" for v :: app_state and x by (rule log_less_same) simp_all
  ultimately have "log_less (app_new configs) (with_networks configs)"
    unfolding with_networks_def Let_def using log_less_trans by (simp split: list.split)
  moreover have "log_inv (app_new configs)" by (simp add: log_inv_def app_new_def logs_def)
  ultimately show ?thesis using log_less_inv by blast
qed

definition some_step :: "(rstring \<Rightarrow> rstring) \<Rightarrow> outside \<Rightarrow> app_op \<Rightarrow> app_state option \<Rightarrow> app_state option" where
  "some_step lower o' op s = Option.bind s (app_step lower o' op)"

lemma some_step_simps [simp]:
  "some_step lower o' op None = None" "some_step lower o' op (Some s) = app_step lower o' op s"
  by (simp_all add: some_step_def)

definition some_ok :: "app_state option \<Rightarrow> app_op \<Rightarrow> bool" where
  "some_ok s op \<longleftrightarrow> (case s of None \<Rightarrow> True | Some s \<Rightarrow> app_ok s op)"

lemma some_ok_simps [simp]: "some_ok None op" "some_ok (Some s) op = app_ok s op"
  by (simp_all add: some_ok_def)

interpretation app_machine: machine "some_step lower o'" some_ok
  "\<lambda>s. \<exists>configs. config_ok configs \<and> s = Some (with_networks configs)" "\<lambda>s. \<exists>t. s = Some t \<and> app_good t" for lower o'
proof unfold_locales
  show "\<exists>t. s = Some t \<and> app_good t" if "\<exists>configs. config_ok configs \<and> s = Some (with_networks configs)" for s
    using that with_networks_inv(1) with_networks_log by (auto simp: config_ok_def app_good_def)
  show "\<exists>t. some_step lower o' op s = Some t \<and> app_good t"
    if "\<exists>t. s = Some t \<and> app_good t" "some_ok s op" for s op
    using that app_step_good by auto
qed

lemma app_run_fold: "app_run lower o' ops s = fold (some_step lower o') ops (Some s)"
proof -
  have "fold (some_step lower o') ops None = None" for ops by (induction ops) simp_all
  then have "fold (some_step lower o') ops s = Option.bind s (app_run lower o' ops)" for s
    by (induction ops arbitrary: s) (auto split: Option.bind_split)
  then show ?thesis by simp
qed

lemma app_fits_ok: "app_fits lower o' ops s \<Longrightarrow> app_machine.run_ok lower o' ops (Some s)"
proof -
  have none: "app_machine.run_ok lower o' ops None" for ops by (induction ops) simp_all
  show "app_fits lower o' ops s \<Longrightarrow> app_machine.run_ok lower o' ops (Some s)"
    by (induction ops arbitrary: s) (auto simp: none split: option.splits)
qed

lemma run_good:
  assumes "config_ok configs" "app_fits lower o' ops (with_networks configs)"
  shows "\<exists>t. app_run lower o' ops (with_networks configs) = Some t \<and> app_good t"
  unfolding app_run_fold
  using assms app_fits_ok by (intro app_machine.run_inv app_machine.init_inv) auto

section \<open>What the invariant says\<close>

lemma good_selection:
  assumes "app_good s"
  shows "case ts_selected s of SelServer n \<Rightarrow> known_network s n
    | SelChannel i \<Rightarrow> conversation_at s i \<noteq> None | SelNone \<Rightarrow> ts_networks s = []"
  using assms by (auto simp: app_good_def app_inv_iff selection_ok_def known_network_iff conversation_at_None
      simp del: not_None_eq split: selection.splits)

lemma good_channel:
  assumes "app_good s" "c \<in> set (ts_conversations s)" "conv_kind c = Channel"
  shows "\<exists>d \<in> set (ts_conversations s). channel_id s (conv_network c) (conv_name c) = Some (conv_id d)
    \<and> conv_network d = conv_network c \<and> conv_kind d = Channel
    \<and> cm_fold (casemapping_of s (conv_network c)) (conv_name d) = cm_fold (casemapping_of s (conv_network c)) (conv_name c)"
proof -
  let ?key = "(conv_network c, cm_fold (casemapping_of s (conv_network c)) (conv_name c))"
  have ok: "index_ok (as_casemappings s) (as_channel_ids s) (ts_conversations s)"
    using assms(1) by (simp add: app_good_def app_inv_iff list_inv_iff)
  obtain i where i: "map_of (as_channel_ids s) ?key = Some i"
    using ok assms(2,3) unfolding index_ok_def casemapping_of_mapping by blast
  then obtain d where "d \<in> set (ts_conversations s)" "conv_id d = i" "conv_network d = conv_network c" "conv_kind d = Channel"
      "cm_fold (casemapping_of s (conv_network c)) (conv_name d) = snd ?key"
    using ok i unfolding index_ok_def casemapping_of_mapping snd_conv by blast
  then show ?thesis using i by (auto simp: channel_id_def)
qed

lemma good_lists:
  assumes "app_good s"
  shows "distinct (map conv_id (ts_conversations s))"
    and "c \<in> set (ts_conversations s) \<Longrightarrow> known_network s (conv_network c)"
    and "count_in s n \<le> MAX_CONVERSATIONS_PER_NETWORK" "private_count s n \<le> MAX_PRIVATE_CONVERSATIONS_PER_NETWORK"
    and "i \<in> set (ts_unread s) \<union> set (ts_highlighted s) \<union> set (as_active_channels s) \<union> fst ` set (as_attention s)
      \<Longrightarrow> conversation_at s i \<noteq> None"
proof -
  have l: "list_ok (ts_networks s) (as_next_conversation s) (ts_conversations s)"
    "marks_ok (ts_conversations s) (marks s)"
    using assms by (simp_all add: app_good_def app_inv_iff list_inv_iff)
  then show "distinct (map conv_id (ts_conversations s))"
    and "c \<in> set (ts_conversations s) \<Longrightarrow> known_network s (conv_network c)"
    and "count_in s n \<le> MAX_CONVERSATIONS_PER_NETWORK" "private_count s n \<le> MAX_PRIVATE_CONVERSATIONS_PER_NETWORK"
    by (simp_all add: list_ok_def known_network_iff count_in_def private_count_def)
  show "conversation_at s i \<noteq> None"
    if "i \<in> set (ts_unread s) \<union> set (ts_highlighted s) \<union> set (as_active_channels s) \<union> fst ` set (as_attention s)"
    using l(2) that unfolding marks_ok_def marks_def conversation_at_None by blast
qed

end
