(* ===== verification/Paging.thy ===== *)
theory Paging
  imports Logs Session
begin

text \<open>
  What a page of older history does to a log when it ends, and to the lines the user was notified
  about.
\<close>

section \<open>One log replaced\<close>

lemma conversation_at_set_messages:
  "conversation_at (set_messages i ms s) j =
     (if j = i then map_option (\<lambda>c. c\<lparr>conv_messages := ms\<rparr>) (conversation_at s i) else conversation_at s j)"
proof (cases "j = i")
  case False
  have "List.find (\<lambda>c. conv_id c = j) (change_first (\<lambda>c. conv_id c = i) (\<lambda>c. c\<lparr>conv_messages := ms\<rparr>) cs)
      = List.find (\<lambda>c. conv_id c = j) cs" for cs
    by (rule find_change_other) (use False in auto)
  then show ?thesis using False by (simp add: conversation_at_def set_messages_def)
qed (simp add: conversation_at_def set_messages_def find_change_first)

lemma messages_of_set_messages [simp]:
  "conversation_at s i \<noteq> None \<Longrightarrow> messages_of (set_messages i ms s) i = ms"
  "j \<noteq> i \<Longrightarrow> messages_of (set_messages i ms s) j = messages_of s j"
  by (auto simp: messages_of_def conversation_at_set_messages)

section \<open>The notified lines of a page\<close>

lemma map_of_moved:
  assumes d: "distinct (map (\<lambda>j. msg_sequence (lines ! j)) order)" and k: "k < length order"
    and len: "length order = length lines"
  shows "map_of (moved_to first lines order 0 (length lines)) (msg_sequence (lines ! (order ! k)))
    = Some (Some (first + of_nat k))"
proof -
  let ?e = "map (\<lambda>(k, from). (msg_sequence (lines ! from),
      if k + 0 < length lines then Some (first + of_nat (k + 0)) else None)) (enumerate 0 order)"
  have keys: "map fst ?e = map (\<lambda>j. msg_sequence (lines ! j)) order"
    by (rule nth_equalityI) (simp_all add: nth_enumerate_eq)
  have at: "?e ! k = (msg_sequence (lines ! (order ! k)), Some (first + of_nat k))"
    using k len by (simp add: nth_enumerate_eq)
  have "k < length ?e" using k by simp
  then have "?e ! k \<in> set ?e" by (rule nth_mem)
  then have mem: "(msg_sequence (lines ! (order ! k)), Some (first + of_nat k)) \<in> set (rev ?e)"
    unfolding at set_rev .
  have "distinct (map fst (rev ?e))" unfolding rev_map [symmetric] distinct_rev keys by (rule d)
  from map_of_is_SomeI [OF this mem] show ?thesis unfolding moved_to_def .
qed

lemma map_filter_mem: "x \<in> set (List.map_filter f xs) \<longleftrightarrow> (\<exists>y \<in> set xs. f y = Some x)"
  by (induction xs) (auto simp: List.map_filter_simps split: option.split)

lemma settle_attention_mem:
  "x \<in> set (settle_attention i first until moved queue) \<longleftrightarrow>
     (\<exists>(c, q) \<in> set queue.
        (if c \<noteq> i \<or> \<not> (first \<le> q \<and> q < until) then Some (c, q)
         else (case map_of moved q of
                 Some (Some t) \<Rightarrow> Some (c, t) | Some None \<Rightarrow> None | None \<Rightarrow> Some (c, q))) = Some x)"
  unfolding settle_attention_def map_filter_mem by (simp add: case_prod_beta)

text \<open>When no line of the page is missing, the entry of a line goes with it.\<close>

lemma settled_attention_follows:
  assumes whole: "map msg_sequence (block_lines first ms) = map (\<lambda>k. first + of_nat k) [0..<length (block_lines first ms)]"
    and top: "unat first + HISTORY_RESERVE \<le> unat SEQUENCE_ORIGIN"
    and few: "length (block_lines first ms) \<le> HISTORY_RESERVE"
    and k: "k < length (block_lines first ms)"
  shows "(i, first + of_nat k) \<in> set (settled_attention i first ms queue)
    \<longleftrightarrow> (i, msg_sequence (block_lines first ms ! (page_order first ms ! k))) \<in> set queue"
proof -
  let ?B = "block_lines first ms" and ?o = "page_order first ms" and ?until = "first + of_nat HISTORY_RESERVE"
  let ?n = "length ?B"
  have seq: "msg_sequence (?B ! j) = first + of_nat j" if "j < ?n" for j
    using arg_cong [OF whole, of "\<lambda>xs. xs ! j"] that by simp
  have inj: "j = l" if "first + of_nat j = first + (of_nat l :: 64 word)" "j < ?n" "l < ?n" for j l
  proof -
    have "unat first + j < 2 ^ 64" "unat first + l < 2 ^ 64"
      using that few top by (simp_all add: HISTORY_RESERVE_def SEQUENCE_ORIGIN_def)
    then show ?thesis using unat_plus_nat that(1) by (metis add_left_cancel)
  qed
  have len: "length ?o = ?n" and d: "distinct ?o" and s: "set ?o = {..<?n}"
    by (simp_all add: page_order_def server_time_order_facts)
  have o: "?o ! k < ?n" using k len s nth_mem [of k ?o] by simp
  show ?thesis
  proof (cases "?o = [0..<length ?o]")
    case True
    then have "?o ! k = k" using k len by (metis add_0 nth_upt)
    then show ?thesis using True seq [OF k] by (simp add: settled_attention_def Let_def)
  next
    case False
    have keys: "distinct (map (\<lambda>j. msg_sequence (?B ! j)) ?o)"
      using d s seq inj by (auto simp: distinct_map inj_on_def)
    note moved = map_of_moved [OF keys _ len, of _ first]
    let ?m = "moved_to first ?B ?o 0 ?n"
    have inside: "first \<le> first + of_nat j \<and> first + of_nat j < ?until" if "j < ?n" for j
    proof -
      have "unat (first + of_nat j) = unat first + j"
        using that few top by (intro unat_plus_nat) (simp add: HISTORY_RESERVE_def SEQUENCE_ORIGIN_def)
      then show ?thesis using that few block_end(1) [OF top] by (simp add: word_le_nat_alt word_less_nat_alt)
    qed
    have image: "map_of ?m (first + of_nat (?o ! l)) = Some (Some (first + of_nat l))" if "l < ?n" for l
      using moved [of l] that len s seq [of "?o ! l"] nth_mem [of l ?o] by simp
    have "(i, first + of_nat k) \<in> set (settle_attention i first ?until ?m queue)
        \<longleftrightarrow> (i, first + of_nat (?o ! k)) \<in> set queue" (is "?new \<longleftrightarrow> ?old")
    proof
      assume ?old
      then show ?new unfolding settle_attention_mem
        using inside [OF o] image [OF k] by (intro bexI [of _ "(i, first + of_nat (?o ! k))"]) auto
    next
      assume ?new
      then obtain c q where cq: "(c, q) \<in> set queue"
          and "(if c \<noteq> i \<or> \<not> (first \<le> q \<and> q < ?until) then Some (c, q)
         else (case map_of ?m q of Some (Some t) \<Rightarrow> Some (c, t) | Some None \<Rightarrow> None
           | None \<Rightarrow> Some (c, q))) = Some (i, first + of_nat k)"
        unfolding settle_attention_mem by blast
      moreover obtain l where l: "l < ?n" "?o ! l = k"
        using k s len by (metis in_set_conv_nth lessThan_iff)
      ultimately have "c = i" and m: "map_of ?m q = Some (Some (first + of_nat k))"
        using inside [OF k] image [OF l(1)]
        by (auto split: if_splits option.splits)
      have "q \<in> fst ` set ?m" using m by (metis domI dom_map_of_conv_image_fst)
      then obtain j where j: "j < ?n" "q = msg_sequence (?B ! (?o ! j))"
        using len by (auto simp: moved_to_def in_set_enumerate_eq)
      then have "first + of_nat j = first + (of_nat k :: 64 word)"
        using moved [of j] m len by simp
      then have "j = k" using inj j(1) k by blast
      then show ?old using cq j(2) seq [OF o] \<open>c = i\<close> by simp
    qed
    then show ?thesis using False seq [OF o] by (simp add: settled_attention_def Let_def)
  qed
qed


section \<open>The end of a page\<close>

definition page_settled ::
  "conversation_id \<Rightarrow> 64 word \<Rightarrow> older_history \<Rightarrow> 64 word \<Rightarrow> app_state \<Rightarrow> app_state" where
  "page_settled i first h r s =
     set_messages i (settled_log first (messages_of s i))
       ((page_over i h s)\<lparr>as_attention := settled_attention i first (messages_of s i) (as_attention s),
          as_revision := r\<rparr>)"

lemma finish_page:
  assumes inv: "log_inv s" and flight: "older_history_in_flight s i = Some request"
    and b: "map_of (as_history_blocks s) i = Some b" "hb_request b = request"
    and c: "conversation_at s i \<noteq> None"
  obtains h r where "map_of (as_older s) i = Some h"
    "finish_older_history i request beginning s =
       (length (block_lines (hb_start b) (messages_of s i)),
        if beginning \<or> block_lines (hb_start b) (messages_of s i) = []
        then (page_settled i (hb_start b) h r s)\<lparr>as_older :=
               AList.update i \<lparr>oh_in_flight = None, oh_finished = True\<rparr>
                 (as_older (page_settled i (hb_start b) h r s))\<rparr>
        else page_settled i (hb_start b) h r s)"
proof -
  obtain h where h: "map_of (as_older s) i = Some h"
      and fin: "finish_older_history i request beginning s =
         (let (added, t) = finished_page i h request s
          in (added, if beginning \<or> added = 0
                     then t\<lparr>as_older := AList.update i \<lparr>oh_in_flight = None, oh_finished = True\<rparr> (as_older t)\<rparr>
                     else t))"
    using flight by (cases rule: finish_cases [of s i request beginning]) auto
  have in_logs: "(i, messages_of s i) \<in> logs s" using c by (rule messages_of_logs)
  have "block_ok s b" "above_block b (messages_of s i)" "log_ok s (messages_of s i)"
    using log_invD [OF inv] b in_logs by blast+
  then obtain r where "finished_page i h request s =
      (length (block_lines (hb_start b) (messages_of s i)), page_settled i (hb_start b) h r s)"
    using settle_block_effect [of "page_over i h s" i "hb_start b"] b c
    by (auto simp: finished_page_def page_settled_def log_ok_def above_block_def block_ok_def)
  then show thesis using that [OF h, of r] fin by simp
qed

lemma finish_page_open:
  assumes "log_inv s" "older_history_in_flight s i = Some request"
    and "map_of (as_history_blocks s) i = Some b" "hb_request b = request"
    and "conversation_at s i \<noteq> None" and page: "block_lines (hb_start b) (messages_of s i) \<noteq> []"
  shows "\<exists>h r. finish_older_history i request False s =
    (length (block_lines (hb_start b) (messages_of s i)), page_settled i (hb_start b) h r s)"
  by (rule finish_page [OF assms(1-5), of False]) (auto simp: page)

lemma page_settled_fields [simp]:
  "as_attention (page_settled i first h r s) = settled_attention i first (messages_of s i) (as_attention s)"
  "map_of (as_older (page_settled i first h r s)) i = Some (h\<lparr>oh_in_flight := None\<rparr>)"
  "conversation_at s i \<noteq> None \<Longrightarrow> messages_of (page_settled i first h r s) i = settled_log first (messages_of s i)"
  "j \<noteq> i \<Longrightarrow> messages_of (page_settled i first h r s) j = messages_of s j"
  by (simp_all add: page_settled_def) (simp_all add: set_messages_def page_over_def)

lemma messages_of_older [simp]: "messages_of (s\<lparr>as_older := h\<rparr>) j = messages_of s j"
  by (simp add: messages_of_def conversation_at_def)

section \<open>Properties\<close>

text \<open>Recovered lines and the lines of an older page are put in server-time order: every line comes
  exactly once, ordered by its time (a line without a time has its predecessor's, one at the start
  comes before every timed line), and lines of equal time stay in the order they arrived. When every
  line has a time, the times are in order.\<close>

theorem server_time_order_stable:
  "distinct (server_time_order ts) \<and> set (server_time_order ts) = {..<length ts}
   \<and> sorted_wrt (time_before ts) (server_time_order ts)
   \<and> (None \<notin> set ts \<longrightarrow> sorted (map (\<lambda>k. time_rank (ts ! k)) (server_time_order ts)))"
proof -
  note s = server_time_order_facts(5) [of ts]
  have "sorted_wrt (\<lambda>i j. time_rank (ts ! i) \<le> time_rank (ts ! j)) (server_time_order ts)" if "None \<notin> set ts"
    by (rule sorted_wrt_mono_rel [OF _ s]) (use that in \<open>auto simp: time_before_def inherited_all_timed\<close>)
  then show ?thesis using s by (simp add: server_time_order_facts sorted_wrt_map)
qed

theorem server_time_order_stable_witness:
  "sorted (map (\<lambda>k. time_rank ([Some (Timestamp 2), Some (Timestamp 1)] ! k))
     (server_time_order [Some (Timestamp 2), Some (Timestamp 1)]))"
  using server_time_order_stable [of "[Some (Timestamp 2), Some (Timestamp 1)]"] by simp

text \<open>C5. The end of a page of older history orders the lines that arrived for it by server time inside the
  block of sequences set aside for it. No line is lost or added, nothing outside the page moves, no
  other conversation changes, the logs stay in order, and paging ends only where the source said so or
  nothing was added. When no line of the page was dropped in the meantime, the entries of the lines
  the user was notified about follow their lines.\<close>

theorem older_page_settled:
  assumes inv: "log_inv s" and flight: "older_history_in_flight s i = Some request"
    and b: "map_of (as_history_blocks s) i = Some b" "hb_request b = request"
    and c: "conversation_at s i \<noteq> None"
  shows "let (added, t) = finish_older_history i request beginning s;
             first = hb_start b; page = block_lines first (messages_of s i)
         in added = length page
          \<and> messages_of t i = renumber first (in_time_order page) @ filter (\<lambda>m. m \<notin> set page) (messages_of s i)
          \<and> (\<forall>j. j \<noteq> i \<longrightarrow> messages_of t j = messages_of s j)
          \<and> log_inv t \<and> older_history_in_flight t i = None
          \<and> (oh_finished (older_state t i) \<longleftrightarrow> oh_finished (older_state s i) \<or> beginning \<or> page = [])
          \<and> (map msg_sequence page = map (\<lambda>k. first + of_nat k) [0..<length page] \<longrightarrow>
               (\<forall>k < length page. (i, first + of_nat k) \<in> set (as_attention t)
                  \<longleftrightarrow> (i, msg_sequence (page ! (page_order first (messages_of s i) ! k))) \<in> set (as_attention s)))"
proof -
  let ?ms = "messages_of s i" and ?f = "hb_start b"
  let ?page = "block_lines ?f ?ms"
  have in_logs: "(i, ?ms) \<in> logs s" using c by (rule messages_of_logs)
  have ok: "block_ok s b" and above: "above_block b ?ms" and log: "log_ok s ?ms"
    using log_invD [OF inv] b in_logs by blast+
  have a: "\<forall>m \<in> set ?ms. ?f \<le> msg_sequence m" using above by (simp add: above_block_def)
  have top: "unat ?f + HISTORY_RESERVE \<le> unat SEQUENCE_ORIGIN" using ok by (simp add: block_ok_def)
  have sorted: "log_sorted ?ms" using log by (simp add: log_ok_def)
  obtain h r where h: "map_of (as_older s) i = Some h"
      and fin: "finish_older_history i request beginning s =
        (length ?page,
         if beginning \<or> ?page = []
         then (page_settled i ?f h r s)\<lparr>as_older :=
                AList.update i \<lparr>oh_in_flight = None, oh_finished = True\<rparr> (as_older (page_settled i ?f h r s))\<rparr>
         else page_settled i ?f h r s)"
    by (rule finish_page [OF inv flight b c, of beginning])
  obtain added t where at: "finish_older_history i request beginning s = (added, t)" by (rule prod.exhaust)
  have inv_t: "log_inv t" using log_inv_finish [OF inv, of i request beginning] at by simp
  have t: "as_attention t = settled_attention i ?f ?ms (as_attention s)"
    "messages_of t i = settled_log ?f ?ms" "\<And>j. j \<noteq> i \<Longrightarrow> messages_of t j = messages_of s j" "added = length ?page"
    using fin at c by (auto split: if_splits)
  have rest: "filter (\<lambda>m. ?f + of_nat HISTORY_RESERVE \<le> msg_sequence m) ?ms = filter (\<lambda>m. m \<notin> set ?page) ?ms"
    using a by (intro filter_cong) (auto simp: block_lines_def not_less)
  have few: "length ?page \<le> HISTORY_RESERVE" using settle_messages(5) [OF sorted a top] .
  have "messages_of t i = renumber ?f (in_time_order ?page) @ filter (\<lambda>m. m \<notin> set ?page) ?ms"
    using t(2) rest by (simp add: settled_log_def)
  moreover have "older_history_in_flight t i = None"
    "oh_finished (older_state t i) \<longleftrightarrow> oh_finished (older_state s i) \<or> beginning \<or> ?page = []"
    using fin at h by (auto simp: older_history_in_flight_def older_state_def split: if_splits)
  moreover have "\<forall>k < length ?page. (i, ?f + of_nat k) \<in> set (as_attention t)
        \<longleftrightarrow> (i, msg_sequence (?page ! (page_order ?f ?ms ! k))) \<in> set (as_attention s)"
    if "map msg_sequence ?page = map (\<lambda>k. ?f + of_nat k) [0..<length ?page]"
    unfolding t(1) using settled_attention_follows [OF that top few] by blast
  ultimately show ?thesis
    using at t(3,4) inv_t by (simp add: Let_def)
qed

text \<open>Two lines of a page, the later one first, both notified about.\<close>

definition page_line :: "64 word \<Rightarrow> 64 word \<Rightarrow> chat_message" where
  "page_line q t = sample_line\<lparr>msg_sequence := q, msg_timestamp := Some (Timestamp t), msg_native_id := None\<rparr>"

definition page_state :: "chat_message list \<Rightarrow> 64 word \<Rightarrow> (conversation_id \<times> 64 word) list \<Rightarrow> app_state" where
  "page_state ms filled queue =
     (app_new [])\<lparr>
       ts_conversations :=
         [(new_conversation (ConversationId 1) (NetworkId 1) Channel (lit ''#a''))\<lparr>conv_messages := ms\<rparr>],
       as_attention := queue,
       as_floor := SEQUENCE_ORIGIN - 256,
       as_older := [(ConversationId 1, \<lparr>oh_in_flight = Some 1, oh_finished = False\<rparr>)],
       as_history_blocks := [(ConversationId 1,
         \<lparr>hb_start = SEQUENCE_ORIGIN - 256, hb_next = SEQUENCE_ORIGIN - 256 + filled, hb_request = 1,
          hb_room = 50, hb_near_top = duplicate_filter_new (\<lambda>_. 0)\<rparr>)]\<rparr>"

lemma page_state_inv:
  assumes "log_sorted ms" "length ms \<le> 50" "unat filled \<le> 50"
    and "\<forall>m \<in> set ms. SEQUENCE_ORIGIN - 256 \<le> msg_sequence m \<and> msg_sequence m < SEQUENCE_ORIGIN - 256 + filled"
  shows "log_inv (page_state ms filled queue)"
proof -
  have o: "unat (SEQUENCE_ORIGIN - 256) = 4611686018427387648" "unat SEQUENCE_ORIGIN = 4611686018427387904"
    by (simp_all add: SEQUENCE_ORIGIN_def)
  have u: "unat (SEQUENCE_ORIGIN - 256 + filled) = 4611686018427387648 + unat filled"
    using assms(3) o(1) by (simp add: unat_word_ariths(1))
  have logs: "logs (page_state ms filled queue) = {(ConversationId 1, ms)}"
    by (simp add: logs_def page_state_def app_new_def new_conversation_def)
  have f: "as_floor (page_state ms filled queue) = SEQUENCE_ORIGIN - 256"
    "as_next_sequence (page_state ms filled queue) = SEQUENCE_ORIGIN"
    "as_history_blocks (page_state ms filled queue) = [(ConversationId 1,
         \<lparr>hb_start = SEQUENCE_ORIGIN - 256, hb_next = SEQUENCE_ORIGIN - 256 + filled, hb_request = 1,
          hb_room = 50, hb_near_top = duplicate_filter_new (\<lambda>_. 0)\<rparr>)]"
    by (simp_all add: page_state_def app_new_def)
  have le: "unat (msg_sequence m) \<le> unat SEQUENCE_ORIGIN \<and> unat (SEQUENCE_ORIGIN - 256) \<le> unat (msg_sequence m)"
    if "m \<in> set ms" for m
    using assms(3,4) that o u by (fastforce simp: word_le_nat_alt word_less_nat_alt)
  show ?thesis
    unfolding log_inv_def logs f
    using assms le o u
    by (auto simp: log_ok_def block_ok_def above_block_def f word_le_nat_alt HISTORY_RESERVE_def MAX_RETAINED_def
        split: if_splits)
qed


definition page_start :: "64 word" where "page_start = SEQUENCE_ORIGIN - 256"

definition late_lines :: "chat_message list" where
  "late_lines = [page_line page_start 20, page_line (page_start + 1) 10]"

definition late_page :: app_state where
  "late_page = page_state late_lines 2
     [(ConversationId 1, page_start), (ConversationId 1, page_start + 1)]"

lemma page_line_simps [simp]:
  "msg_sequence (page_line q t) = q" "msg_timestamp (page_line q t) = Some (Timestamp t)"
  by (simp_all add: page_line_def)

lemma page_start_value: "page_start = 4611686018427387648"
  by (simp add: page_start_def SEQUENCE_ORIGIN_def)

lemma page_state_simps [simp]:
  "conversation_at (page_state ms n a) (ConversationId 1) \<noteq> None"
  "messages_of (page_state ms n a) (ConversationId 1) = ms"
  "older_history_in_flight (page_state ms n a) (ConversationId 1) = Some 1"
  "map_of (as_history_blocks (page_state ms n a)) (ConversationId 1) =
     Some \<lparr>hb_start = page_start, hb_next = page_start + n, hb_request = 1, hb_room = 50,
       hb_near_top = duplicate_filter_new (\<lambda>_. 0)\<rparr>"
  "as_attention (page_state ms n a) = a"
  by (simp_all add: page_state_def app_new_def new_conversation_def conversation_at_def messages_of_def
      older_history_in_flight_def page_start_def)

lemma late_page_inv: "log_inv late_page"
  unfolding late_page_def
  by (rule page_state_inv)
    (simp_all add: late_lines_def page_start_value SEQUENCE_ORIGIN_def)

lemma late_block: "block_lines page_start late_lines = late_lines"
  by (simp add: block_lines_def late_lines_def page_start_value HISTORY_RESERVE_def)

lemma late_length: "length late_lines = 2" "late_lines \<noteq> []"
  by (simp_all add: late_lines_def)

lemma late_order: "page_order page_start late_lines = [1, 0]"
  by (simp add: page_order_def late_block)
    (simp add: late_lines_def server_time_order_def time_rank_def Let_def upt_rec)

theorem older_page_settled_witness:
  "fst (finish_older_history (ConversationId 1) 1 False late_page) = 2
   \<and> (ConversationId 1, page_start) \<in> set (as_attention (snd (finish_older_history (ConversationId 1) 1 False late_page)))"
proof -
  have seqs: "map msg_sequence late_lines = map (\<lambda>k. page_start + of_nat k) [0..<length late_lines]"
    by (simp add: late_lines_def upt_rec)
  have c: "conversation_at late_page (ConversationId 1) \<noteq> None"
    "older_history_in_flight late_page (ConversationId 1) = Some 1"
    "messages_of late_page (ConversationId 1) = late_lines"
    "as_attention late_page = [(ConversationId 1, page_start), (ConversationId 1, page_start + 1)]"
    unfolding late_page_def by simp_all
  have b: "map_of (as_history_blocks late_page) (ConversationId 1) =
     Some \<lparr>hb_start = page_start, hb_next = page_start + 2, hb_request = 1, hb_room = 50,
       hb_near_top = duplicate_filter_new (\<lambda>_. 0)\<rparr>"
    unfolding late_page_def by simp
  have n: "length late_lines = 2" by (simp add: late_lines_def)
  obtain added t where at: "finish_older_history (ConversationId 1) 1 False late_page = (added, t)"
    by (rule prod.exhaust)
  have "added = 2" and follow: "\<forall>k < 2. (ConversationId 1, page_start + of_nat k) \<in> set (as_attention t)
      \<longleftrightarrow> (ConversationId 1, msg_sequence (late_lines ! ([1, 0] ! k))) \<in> set (as_attention late_page)"
    using older_page_settled [OF late_page_inv c(2) b _ c(1), of False] seqs
    by (simp_all add: at c(3) late_block late_order n Let_def)
  have "(ConversationId 1, page_start) \<in> set (as_attention t)"
    using follow [THEN spec, of 0] by (simp add: c(4) late_lines_def)
  then show ?thesis using at \<open>added = 2\<close> by simp
qed


text \<open>Two ways in which the entries of notified lines do not do what their documentation says. When the
  first lines of a page were dropped by the bound of the log, the others are given new sequences
  although their order is kept: the entry of a line then names nothing.\<close>

definition trimmed_page :: app_state where
  "trimmed_page = page_state [page_line (page_start + 1) 20] 2 [(ConversationId 1, page_start + 1)]"

theorem dropped_page_loses_entry:
  "let t = snd (finish_older_history (ConversationId 1) 1 False trimmed_page)
   in log_inv trimmed_page \<and> line_held trimmed_page (ConversationId 1) (page_start + 1)
    \<and> as_attention t = [(ConversationId 1, page_start + 1)]
    \<and> messages_of t (ConversationId 1) = [page_line page_start 20]"
proof -
  let ?i = "ConversationId 1" and ?ms = "[page_line (page_start + 1) 20]"
  have inv: "log_inv trimmed_page"
    unfolding trimmed_page_def by (rule page_state_inv) (simp_all add: page_start_value SEQUENCE_ORIGIN_def)
  have s: "conversation_at trimmed_page ?i \<noteq> None" "messages_of trimmed_page ?i = ?ms"
    "older_history_in_flight trimmed_page ?i = Some 1"
    "as_attention trimmed_page = [(?i, page_start + 1)]"
    unfolding trimmed_page_def by simp_all
  have b: "map_of (as_history_blocks trimmed_page) ?i =
     Some \<lparr>hb_start = page_start, hb_next = page_start + 2, hb_request = 1, hb_room = 50,
       hb_near_top = duplicate_filter_new (\<lambda>_. 0)\<rparr>"
    unfolding trimmed_page_def by simp
  have held: "line_held trimmed_page ?i (page_start + 1)"
    unfolding trimmed_page_def page_state_def
    by (simp add: line_held_def conversation_at_def search_sequence_def app_new_def new_conversation_def)
  have page: "block_lines page_start ?ms = ?ms"
    by (simp add: block_lines_def page_start_value HISTORY_RESERVE_def)
  have times: "server_time_order (map msg_timestamp ?ms) = [0]"
    by (simp add: server_time_order_def Let_def upt_rec)
  then have order: "page_order page_start ?ms = [0]" by (simp only: page_order_def page)
  have "in_time_order ?ms = ?ms" by (simp only: in_time_order_def times) simp
  then have line: "renumber page_start (in_time_order ?ms) = [page_line page_start 20]"
    by (simp add: renumber_def page_line_def)
  obtain h r where "finish_older_history ?i 1 False trimmed_page = (1, page_settled ?i page_start h r trimmed_page)"
    using finish_page_open [OF inv s(3) b _ s(1)] by (auto simp: s(2) page)
  moreover have "settled_log page_start ?ms = [page_line page_start 20]"
    by (simp only: settled_log_def page line) (simp add: page_start_value HISTORY_RESERVE_def)
  ultimately show ?thesis
    using inv held s by (simp add: Let_def settled_attention_def order)
qed


text \<open>And entries follow their lines but keep their places in the queue: after a page that arrived out of
  order, the later of two notified lines is visited first.\<close>

theorem late_page_entries_out_of_order:
  "log_inv late_page
   \<and> as_attention late_page = [(ConversationId 1, page_start), (ConversationId 1, page_start + 1)]
   \<and> as_attention (snd (finish_older_history (ConversationId 1) 1 False late_page))
     = [(ConversationId 1, page_start + 1), (ConversationId 1, page_start)]"
proof -
  let ?i = "ConversationId 1"
  have s: "conversation_at late_page ?i \<noteq> None" "messages_of late_page ?i = late_lines"
    "older_history_in_flight late_page ?i = Some 1"
    "as_attention late_page = [(?i, page_start), (?i, page_start + 1)]"
    unfolding late_page_def by simp_all
  have b: "map_of (as_history_blocks late_page) ?i =
     Some \<lparr>hb_start = page_start, hb_next = page_start + 2, hb_request = 1, hb_room = 50,
       hb_near_top = duplicate_filter_new (\<lambda>_. 0)\<rparr>"
    unfolding late_page_def by simp
  obtain h r where "finish_older_history ?i 1 False late_page = (2, page_settled ?i page_start h r late_page)"
    using finish_page_open [OF late_page_inv s(3) b _ s(1)]
    by (auto simp: s(2) late_block late_length)
  moreover have "settled_attention ?i page_start late_lines (as_attention late_page)
      = [(?i, page_start + 1), (?i, page_start)]"
    unfolding settled_attention_def Let_def late_order late_block s(4)
    by (simp add: moved_to_def settle_attention_def late_lines_def upt_rec List.map_filter_simps
        page_start_value HISTORY_RESERVE_def)
  ultimately show ?thesis using late_page_inv s by simp
qed

end
