(* ===== verification/AppProperties.thy ===== *)
theory AppProperties
  imports AppMachine Paging
begin

text \<open>
  What holds of the application after any run of its operations, and how its navigation behaves.
\<close>

section \<open>A run on one server with one configured channel\<close>

definition sample_config :: "network_config list" where
  "sample_config = [\<lparr>nc_id = NetworkId 1, nc_name = lit ''net'', nc_channels = [lit ''#a'']\<rparr>]"

definition sample_ops :: "app_op list" where
  "sample_ops = [OpStatus (NetworkId 1) Registered, OpJoined (NetworkId 1) (lit ''#B''),
     OpChannelLine LineActivity (NetworkId 1) (lit ''#b'') (lit ''hi'') meta_live,
     OpHighlight (ConversationId 2), OpDispatch (SelectChannel (ConversationId 2))]"

definition sample_outside :: outside where
  "sample_outside = \<lparr>ou_display_time = (\<lambda>_. TimeOfDay 0), ou_links = (\<lambda>_. []), ou_hasher = (\<lambda>_. 0)\<rparr>"

lemma sample_names: "(cm_fold default_mapping (lit ''#b'') = cm_fold default_mapping (lit ''#a'')) = False"
  "(cm_fold default_mapping (lit ''#a'') = cm_fold default_mapping (lit ''#b'')) = False"
  "cm_fold default_mapping (lit ''#B'') = cm_fold default_mapping (lit ''#b'')"
  by code_simp+

lemmas building = with_networks_def app_new_def add_network_def ensure_channels_def ensure_configured_channel_def
    add_conversation_def channel_id_def casemapping_of_def Let_def known_network_def count_in_def MAX_CONVERSATIONS_PER_NETWORK_def
    new_conversation_def conversation_slot_def last_position_def insert_at_def network_place_def SEQUENCE_ORIGIN_def NOT_CONNECTED_def

definition sample_start :: app_state where
  "sample_start = \<lparr>ts_networks = [\<lparr>nw_id = NetworkId 1, nw_name = lit ''net''\<rparr>],
         ts_conversations =
           [\<lparr>conv_id = ConversationId 1, conv_network = NetworkId 1,
               conv_kind = Channel, conv_name = lit ''#a'', conv_topic = [],
               conv_messages = [], conv_members = [], conv_modes = None\<rparr>],
         ts_selected = SelChannel (ConversationId 1), ts_unread = [],
         ts_highlighted = [], ts_orders = [], ts_ranks = [], ts_groups = [],
         ts_next_group = 0,
         as_channel_ids =
           [((NetworkId 1, cm_fold default_mapping (lit ''#a'')),
             ConversationId 1)],
         as_casemappings = [], as_previous = None, as_attention = [],
         as_reveal = None, as_active_channels = [], as_active_servers = [],
         as_statuses = [(NetworkId 1, Disconnected (lit ''Not connected.''))],
         as_server_messages = [], as_system_messages = [],
         as_next_sequence = 4611686018427387904, as_revision = 0,
         as_next_conversation = 2, as_duplicates = [],
         as_pending_history = [], as_history_blocks = [],
         as_history_paging = [], as_older = [], as_next_request = 0,
         as_floor = 4611686018427387904, as_resume = []\<rparr>"

lemma sample_config_ok: "config_ok sample_config"
  by (simp add: config_ok_def sample_config_def configured_channels_def)

lemma sample_started: "with_networks sample_config = sample_start"
  by (simp add: building sample_config_def sample_start_def)

lemma sample_fits: "app_fits id sample_outside sample_ops (with_networks sample_config)"
  unfolding sample_started by (simp add: sample_ops_def sample_start_def app_ok_def building sample_names set_status_def usable_private_def conversation_is_private_def
   app_joined_channel_def ensure_channel_def channel_slot_def conversation_mut_def append_channel_line_at_def
   append_to_conversation_def conversation_at_def admit_in_def identified_def meta_live_def new_message_def push_bounded_log_def trim_retained_def trim_loop.simps
   MAX_RETAINED_def set_messages_def highlight_def next_sequence_def messages_of_def dispatch_def select_channel_def)

section \<open>After any run\<close>

text \<open>C3. From the start on a configuration that names each server once, after any run of the operations of the
  application that has room for the numbers it takes: no operation panicked, no identifier is used
  twice, every conversation belongs to a server there is, the bounds on conversations hold, looking a
  channel up by its name finds a channel of that server with the same name under the server's case
  mapping, the selection, the marks and the notified lines name what there is, and the current server
  is known.\<close>

theorem app_always_consistent:
  assumes "config_ok configs" and "app_fits lower o' ops (with_networks configs)"
  shows "\<exists>t. app_run lower o' ops (with_networks configs) = Some t
    \<and> distinct (map conv_id (ts_conversations t))
    \<and> list_all (\<lambda>c. known_network t (conv_network c)) (ts_conversations t)
    \<and> (\<forall>n. count_in t n \<le> MAX_CONVERSATIONS_PER_NETWORK \<and> private_count t n \<le> MAX_PRIVATE_CONVERSATIONS_PER_NETWORK)
    \<and> list_all (\<lambda>c. conv_kind c \<noteq> Channel
          \<or> list_ex (\<lambda>d. channel_id t (conv_network c) (conv_name c) = Some (conv_id d)
                \<and> conv_network d = conv_network c \<and> conv_kind d = Channel
                \<and> cm_fold (casemapping_of t (conv_network c)) (conv_name d)
                  = cm_fold (casemapping_of t (conv_network c)) (conv_name c)) (ts_conversations t)) (ts_conversations t)
    \<and> (case ts_selected t of SelServer n \<Rightarrow> known_network t n
         | SelChannel i \<Rightarrow> conversation_at t i \<noteq> None | SelNone \<Rightarrow> ts_networks t = [])
    \<and> list_all (\<lambda>i. conversation_at t i \<noteq> None)
        (ts_unread t @ ts_highlighted t @ as_active_channels t @ map fst (as_attention t))
    \<and> selected_network t \<noteq> None"
proof -
  obtain t where t: "app_run lower o' ops (with_networks configs) = Some t" "app_good t"
    using run_good [OF assms] by blast
  have "list_all (\<lambda>i. conversation_at t i \<noteq> None)
      (ts_unread t @ ts_highlighted t @ as_active_channels t @ map fst (as_attention t))"
    unfolding list_all_iff using good_lists(5) [OF t(2)] by simp
  then show ?thesis
    using t good_lists(1-4) [OF t(2)] good_selection [OF t(2)] good_channel [OF t(2)] selected_network_known [of t]
    by (intro exI [of _ t]) (simp add: list_all_iff list_ex_iff app_good_def)
qed

theorem app_always_consistent_witness:
  "\<exists>t. app_run id sample_outside sample_ops (with_networks sample_config) = Some t
     \<and> distinct (map conv_id (ts_conversations t)) \<and> selected_network t \<noteq> None"
  using app_always_consistent [OF sample_config_ok sample_fits] by blast

text \<open>C4. After any such run the log of every conversation is in strictly increasing order of its sequences, holds
  at most two thousand lines, and none of its lines has a sequence that was not given out yet; and where an older
  page is arriving, its lines take the sequences set aside for it from the first one on, and every other line of
  the log has a later one.\<close>

theorem app_logs_ordered:
  assumes "config_ok configs" and "app_fits lower o' ops (with_networks configs)"
  shows "\<exists>t. app_run lower o' ops (with_networks configs) = Some t
    \<and> (\<forall>i. sorted_wrt (<) (map msg_sequence (messages_of t i))
         \<and> length (messages_of t i) \<le> MAX_RETAINED
         \<and> list_all (\<lambda>m. as_floor t \<le> msg_sequence m \<and> msg_sequence m \<le> as_next_sequence t) (messages_of t i))
    \<and> (\<forall>i b. conversation_at t i = None \<or> map_of (as_history_blocks t) i \<noteq> Some b
         \<or> list_all (\<lambda>m. hb_start b \<le> msg_sequence m
               \<and> (msg_sequence m < hb_next b \<or> unat (hb_start b) + HISTORY_RESERVE \<le> unat (msg_sequence m)))
             (messages_of t i))"
proof -
  obtain t where t: "app_run lower o' ops (with_networks configs) = Some t" "app_good t"
    using run_good [OF assms] by blast
  have inv: "log_inv t" using t(2) by (simp add: app_good_def)
  have one: "log_ok t (messages_of t i)" for i
  proof (cases "conversation_at t i = None")
    case True
    then show ?thesis by (simp add: messages_of_def log_ok_def)
  next
    case False
    show ?thesis using log_invD(3) [OF inv messages_of_logs [OF False]] .
  qed
  have block: "conversation_at t i = None \<or> map_of (as_history_blocks t) i \<noteq> Some b
      \<or> above_block b (messages_of t i)" for i b
    using log_invD(5) [OF inv _ messages_of_logs] by blast
  show ?thesis
    using t(1) one block
    by (intro exI [of _ t]) (simp add: log_ok_def log_sorted_def above_block_def list_all_iff)
qed

theorem app_logs_ordered_witness:
  "\<exists>t. app_run id sample_outside sample_ops (with_networks sample_config) = Some t
     \<and> sorted_wrt (<) (map msg_sequence (messages_of t (ConversationId 2)))"
  using app_logs_ordered [OF sample_config_ok sample_fits] by blast

section \<open>Navigation\<close>

lemma select_tree [simp]:
  "display_tree_of (tree_of (select_channel i s)) = display_tree_of (tree_of s)"
proof -
  have g: "ts_groups (tree_of (select_channel i s)) = ts_groups (tree_of s)"
    "ts_conversations (select_channel i s) = ts_conversations s" "ts_networks (select_channel i s) = ts_networks s"
    by (simp_all add: tree_of_def tree_state.defs select_channel_def)
  have "channel_index (tree_of (select_channel i s)) = channel_index (tree_of s)"
    by (simp add: channel_index_def g)
  then have p: "group_present (tree_of (select_channel i s)) = group_present (tree_of s)"
    by (intro ext) (simp only: group_present_def)
  have "on_server (tree_of (select_channel i s)) = on_server (tree_of s)"
    by (simp add: on_server_def all_grouped_def fun_eq_iff g p)
  then show ?thesis
    by (intro display_tree.equality) (simp_all add: g p)
qed

lemma cycle_order_step:
  assumes "k < len"
  shows "\<exists>rest. cycle_order forward len k = (if forward then (k + 1) mod len else (k + len - 1) mod len) # rest"
proof -
  have "[1..<len + 1] = 1 # [2..<len + 1]" using assms by (simp add: upt_conv_Cons numeral_2_eq_2 del: upt_Suc)
  then show ?thesis by (simp add: cycle_order_def del: upt_Suc)
qed

lemma cycle_start_selected:
  assumes "distinct (tree_conversations (display_tree_of (tree_of s)))"
    and "k < length (tree_conversations (display_tree_of (tree_of s)))"
    and "ts_selected s = SelChannel (tree_conversations (display_tree_of (tree_of s)) ! k)"
  shows "cycle_start s forward = Some k"
proof -
  let ?order = "tree_conversations (display_tree_of (tree_of s))"
  have "position (\<lambda>c. c = ?order ! k) ?order = Some k"
    unfolding position_Some using assms(1,2) by (auto simp: nth_eq_iff_index_eq)
  then show ?thesis using assms(3) by (simp add: cycle_start_def Let_def)
qed

lemma cycle_all_step:
  assumes "distinct (tree_conversations (display_tree_of (tree_of s)))"
    and k: "k < length (tree_conversations (display_tree_of (tree_of s)))"
    and "ts_selected s = SelChannel (tree_conversations (display_tree_of (tree_of s)) ! k)"
  shows "cycle_channel forward FilterAll s =
    Some (select_channel (tree_conversations (display_tree_of (tree_of s)) !
      (let len = length (tree_conversations (display_tree_of (tree_of s)))
       in if forward then (k + 1) mod len else (k + len - 1) mod len)) s)"
  using cycle_order_step [OF k, of forward] cycle_start_selected [OF assms, of forward] k
  by (auto simp: cycle_channel_def Let_def channel_matches_def)

lemma select_selects:
  "conversation_at s i \<noteq> None \<Longrightarrow> ts_selected (select_channel i s) = SelChannel i"
  by (auto simp: select_channel_def)

text \<open>Everything the tree shows is there.\<close>

lemma shown_present:
  assumes "i \<in> set (tree_conversations (display_tree_of (tree_of s)))"
  shows "conversation_at s i \<noteq> None"
proof -
  have "j \<in> conv_id ` set (ts_conversations s)" if "channel_index (tree_of s) m = Some j" for m j
    using map_of_SomeD [OF that [unfolded channel_index_def]] by auto
  then have "set (group_present (tree_of s) g) \<subseteq> conv_id ` set (ts_conversations s)" for g
    by (auto simp: group_present_def List.map_filter_def)
  then have "i \<in> conv_id ` set (ts_conversations s)"
    using assms by (auto simp: tree_conversations_def on_server_def)
  then show ?thesis by (simp add: conversation_at_None del: not_None_eq)
qed

lemma tour_steps:
  fixes m :: nat
  defines "order s \<equiv> tree_conversations (display_tree_of (tree_of s))"
  assumes "distinct (order s)" and "k < length (order s)" and "ts_selected s = SelChannel (order s ! k)"
  shows "\<exists>t. app_run lower o' (replicate m (OpDispatch (if forward then NextChannel else PreviousChannel))) s = Some t
    \<and> order t = order s
    \<and> ts_selected t = SelChannel (order s ! ((if forward then k + m else k + m * (length (order s) - 1)) mod length (order s)))"
  using assms(2-)
proof (induction m arbitrary: s k)
  case 0
  then show ?case by simp
next
  case (Suc m)
  let ?len = "length (order s)"
  let ?k = "if forward then (k + 1) mod ?len else (k + ?len - 1) mod ?len"
  let ?t = "select_channel (order s ! ?k) s"
  have k: "?k < ?len" using Suc.prems(2) by (auto intro: mod_less_divisor)
  have step: "app_step lower o' (OpDispatch (if forward then NextChannel else PreviousChannel)) s = Some ?t"
    using cycle_all_step [of s k forward] Suc.prems unfolding order_def
    by (cases forward) (simp_all add: dispatch_def Let_def)
  have same: "order ?t = order s" by (simp add: order_def)
  have sel: "ts_selected ?t = SelChannel (order s ! ?k)"
    using k by (intro select_selects shown_present) (simp add: order_def)
  have "(?k + m) mod ?len = (k + Suc m) mod ?len" if forward using that by (simp add: mod_simps)
  moreover have "(?k + m * (?len - 1)) mod ?len = (k + Suc m * (?len - 1)) mod ?len" if "\<not> forward"
    using that Suc.prems(2) mod_add_left_eq [of "k + ?len - 1" ?len "m * (?len - 1)"]
    by (simp add: add.assoc [symmetric])
  ultimately show ?case
    using Suc.IH [of ?t ?k] same sel k Suc.prems(1) step by (cases forward) simp_all
qed

text \<open>C30. Going to the next conversation \<open>m\<close> times and back \<open>m\<close> times, from any conversation the tree
  shows, ends where it began; on the way every conversation comes in the order the tree shows, around
  the end, and the order never changes. No such step panics.\<close>

theorem channel_tour:
  assumes "distinct (tree_conversations (display_tree_of (tree_of s)))"
    and "k < length (tree_conversations (display_tree_of (tree_of s)))"
    and "ts_selected s = SelChannel (tree_conversations (display_tree_of (tree_of s)) ! k)"
  shows "let order = tree_conversations (display_tree_of (tree_of s))
    in \<exists>t u. app_run lower o' (replicate m (OpDispatch NextChannel)) s = Some t
      \<and> ts_selected t = SelChannel (order ! ((k + m) mod length order))
      \<and> app_run lower o' (replicate m (OpDispatch PreviousChannel)) t = Some u
      \<and> ts_selected u = ts_selected s \<and> tree_conversations (display_tree_of (tree_of u)) = order"
proof -
  let ?order = "tree_conversations (display_tree_of (tree_of s))"
  let ?len = "length ?order" and ?k = "(k + m) mod length ?order"
  obtain t where t: "app_run lower o' (replicate m (OpDispatch NextChannel)) s = Some t"
      "tree_conversations (display_tree_of (tree_of t)) = ?order" "ts_selected t = SelChannel (?order ! ?k)"
    using tour_steps [OF assms, of lower o' m True] by auto
  have k: "?k < ?len" using assms(2) by (intro mod_less_divisor) linarith
  obtain u where u: "app_run lower o' (replicate m (OpDispatch PreviousChannel)) t = Some u"
      "tree_conversations (display_tree_of (tree_of u)) = ?order"
      "ts_selected u = SelChannel (?order ! ((?k + m * (?len - 1)) mod ?len))"
    using tour_steps [of t ?k lower o' m False] assms(1) t k by auto
  have "(?k + m * (?len - 1)) mod ?len = (k + m + m * (?len - 1)) mod ?len" by (rule mod_add_left_eq)
  also have "k + m + m * (?len - 1) = k + m * ?len"
    using assms(2) by (cases ?len) simp_all
  finally have "(?k + m * (?len - 1)) mod ?len = k" using assms(2) by simp
  then show ?thesis using t u assms(3) by (auto simp: Let_def)
qed

theorem channel_tour_witness:
  "\<exists>t u. app_run id sample_outside (replicate 3 (OpDispatch NextChannel)) sample_start = Some t
     \<and> app_run id sample_outside (replicate 3 (OpDispatch PreviousChannel)) t = Some u
     \<and> ts_selected u = SelChannel (ConversationId 1)"
proof -
  have order: "tree_conversations (display_tree_of (tree_of sample_start)) = [ConversationId 1]"
    by (simp add: tree_conversations_def on_server_def all_grouped_def sample_start_def tree_of_def tree_state.defs)
  have "distinct (tree_conversations (display_tree_of (tree_of sample_start)))"
    "0 < length (tree_conversations (display_tree_of (tree_of sample_start)))"
    "ts_selected sample_start = SelChannel (tree_conversations (display_tree_of (tree_of sample_start)) ! 0)"
    unfolding order by (simp_all add: sample_start_def)
  from channel_tour [OF this, of id sample_outside 3] show ?thesis
    by (auto simp: Let_def sample_start_def)
qed

lemma cycle_order_covers:
  assumes "j < len"
  shows "j \<in> set (cycle_order forward len k)"
proof -
  define r where "r = (j + len - k mod len) mod len"
  have r: "r < len" using assms by (simp add: r_def)
  have "(k + r) mod len = (k mod len + (j + len - k mod len)) mod len" by (simp add: r_def mod_simps)
  also have "k mod len + (j + len - k mod len) = j + len"
    using assms mod_less_divisor [of len k] by linarith
  finally have at: "(k + r) mod len = j" using assms by simp
  show ?thesis
  proof (cases forward)
    case True
    have "j = (k + (if r = 0 then len else r)) mod len" using at by auto
    then show ?thesis using True r assms by (auto simp: cycle_order_def simp del: upt_Suc)
  next
    case False
    have "j = (k + len - (len - r)) mod len" using at r by simp
    moreover have "len - r \<in> set [1..<len + 1]" using r by auto
    ultimately show ?thesis using False unfolding cycle_order_def by (simp del: upt_Suc)
  qed
qed

lemma next_unread:
  assumes inv: "app_inv s" and unread: "ts_unread s \<noteq> []"
  shows "\<exists>i \<in> set (ts_unread s). cycle_channel forward FilterUnread s = Some (select_channel i s)"
proof -
  let ?order = "tree_conversations (display_tree_of (tree_of s))"
  obtain k where k: "cycle_start s forward = Some k" using cycle_start_known [OF inv] by blast
  let ?visits = "map (\<lambda>k. ?order ! k) (cycle_order forward (length ?order) k)"
  obtain i where i: "i \<in> set (ts_unread s)" using unread by (cases "ts_unread s") auto
  then obtain c where c: "c \<in> set (ts_conversations s)" "conv_id c = i"
    using inv by (auto simp: app_inv_iff list_inv_iff marks_ok_def marks_def)
  have "conv_network c \<in> nw_id ` set (ts_networks s)"
    using inv c(1) by (auto simp: app_inv_iff list_inv_iff list_ok_def)
  then have "i \<in> set ?order" using shown_in_tree [OF c(1)] c(2) by simp
  then obtain j where j: "j < length ?order" "?order ! j = i" by (auto simp: in_set_conv_nth)
  then have "i \<in> set ?visits" using cycle_order_covers [OF j(1), of forward k] by auto
  then obtain x where x: "List.find (channel_matches s FilterUnread) ?visits = Some x"
    using i by (cases "List.find (channel_matches s FilterUnread) ?visits")
      (auto simp: find_None_iff channel_matches_def)
  then have "x \<in> set (ts_unread s)" by (auto simp: find_Some_iff channel_matches_def)
  moreover have "length ?order \<noteq> 0" using j by auto
  ultimately show ?thesis using k x by (auto simp: cycle_channel_def Let_def)
qed

lemma select_unread:
  "conversation_at s i \<noteq> None \<Longrightarrow> ts_unread (select_channel i s) = removeAll i (ts_unread s)"
  by (auto simp: select_channel_def)

lemma unread_runs:
  assumes "app_good s" and "card (set (ts_unread s)) = m"
  shows "\<exists>t. app_run lower o' (replicate m (OpDispatch (if forward then NextUnreadChannel else PreviousUnreadChannel))) s = Some t
    \<and> ts_unread t = []"
  using assms
proof (induction m arbitrary: s)
  case 0
  then show ?case by simp
next
  case (Suc m)
  then have inv: "app_inv s" and some: "ts_unread s \<noteq> []" by (auto simp: app_good_def)
  obtain i where i: "i \<in> set (ts_unread s)" "cycle_channel forward FilterUnread s = Some (select_channel i s)"
    using next_unread [OF inv some] by blast
  have "conversation_at s i \<noteq> None" using good_lists(5) [OF Suc.prems(1)] i(1) by blast
  then have "set (ts_unread (select_channel i s)) = set (ts_unread s) - {i}" by (simp add: select_unread)
  then have "card (set (ts_unread (select_channel i s))) = m" using Suc.prems(2) i(1) by simp
  then show ?case
    using Suc.IH [of "select_channel i s"] select_good(1) [OF Suc.prems(1)] i(2) by (cases forward) (simp_all add: dispatch_def)
qed

text \<open>C29. Whatever happened so far, going to the next unread conversation as often as there are unread ones
  (or to the previous one) reads them all: every step reaches one that is unread, and none is missed.\<close>

theorem unread_all_reached:
  assumes "config_ok configs" and "app_fits lower o' ops (with_networks configs)"
    and "app_run lower o' ops (with_networks configs) = Some s"
    and "command = NextUnreadChannel \<or> command = PreviousUnreadChannel"
  shows "\<exists>t. app_run lower o' (replicate (card (set (ts_unread s))) (OpDispatch command)) s = Some t \<and> ts_unread t = []"
proof -
  have "app_good s" using run_good [OF assms(1,2)] assms(3) by auto
  then show ?thesis
    using unread_runs [of s _ lower o' True] unread_runs [of s _ lower o' False] assms(4) by auto
qed

theorem unread_all_reached_witness:
  "\<exists>s t. app_run id sample_outside sample_ops (with_networks sample_config) = Some s
     \<and> app_run id sample_outside (replicate (card (set (ts_unread s))) (OpDispatch NextUnreadChannel)) s = Some t
     \<and> ts_unread t = []"
proof -
  obtain s where s: "app_run id sample_outside sample_ops (with_networks sample_config) = Some s"
    using run_good [OF sample_config_ok sample_fits] by blast
  from unread_all_reached [OF sample_config_ok sample_fits s disjI1 [OF refl]] show ?thesis using s by blast
qed

section \<open>Names of channels\<close>

text \<open>When a server announces another case mapping, a name reaches the first channel of that server whose
  name is the same under the new mapping, and the names of every other server reach what they reached.\<close>

theorem casemapping_reaches:
  "channel_id (set_casemapping n mapping s) m name = (if m = n then first_channel s n mapping name else channel_id s m name)"
  by (rule channel_id_after)

end
