(* ===== verification/Recovery.thy ===== *)
theory Recovery
  imports Paging LogSteps "HOL-Library.Sublist"
begin

text \<open>
  Recovered history: what the end of a reply (\<open>finish_history_for\<close> of \<open>crates/app/src/lib.rs\<close>)
  does to the log of its conversation, and to everything else.
\<close>

section \<open>What a log takes\<close>

text \<open>The filter of a conversation, a new one before its first line, and the lines it lets pass: a line is left
  out when its key is one of the last recorded and it was not said live; every other key is recorded.\<close>

definition filter_of :: "outside \<Rightarrow> app_state \<Rightarrow> conversation_id \<Rightarrow> duplicate_filter" where
  "filter_of o' s i =
     (case map_of (as_duplicates s) i of Some f \<Rightarrow> f | None \<Rightarrow> duplicate_filter_new (ou_hasher o'))"

fun fresh_lines ::
  "(hash_input \<Rightarrow> 64 word) \<Rightarrow> 64 word list \<Rightarrow> chat_message list \<Rightarrow> chat_message list" where
  "fresh_lines hasher keys [] = []"
| "fresh_lines hasher keys (m # ms) =
     (case duplicate_key (duplicate_filter_new hasher) m of
        None \<Rightarrow> m # fresh_lines hasher keys ms
      | Some (key, suppress) \<Rightarrow>
          (if key \<notin> set (last_keys keys) then m # fresh_lines hasher (keys @ [key]) ms
           else if suppress then fresh_lines hasher keys ms
           else m # fresh_lines hasher keys ms))"

lemma fresh_lines_append:
  "fresh_lines hasher keys (xs @ ys) = fresh_lines hasher keys xs @ fresh_lines hasher (recorded_keys hasher xs keys) ys"
  by (induction xs arbitrary: keys) (auto split: option.splits)

lemma last_keys_last [simp]: "last_keys (last_keys keys) = last_keys keys"
  by (simp add: last_keys_def)

lemma fresh_lines_last:
  "last_keys keys = last_keys keys' \<Longrightarrow> fresh_lines hasher keys ms = fresh_lines hasher keys' ms"
proof (induction ms arbitrary: keys keys')
  case (Cons m ms)
  have "last_keys (keys @ [k]) = last_keys (keys' @ [k])" for k
    using last_keys_snoc [of keys k] last_keys_snoc [of keys' k] Cons.prems by simp
  then have "fresh_lines hasher (keys @ [k]) ms = fresh_lines hasher (keys' @ [k]) ms" for k by (rule Cons.IH)
  then show ?case using Cons.IH [OF Cons.prems] Cons.prems by (auto split: option.splits)
qed simp

lemma recorded_keys_last:
  "last_keys keys = last_keys keys' \<Longrightarrow>
     last_keys (recorded_keys hasher ms keys) = last_keys (recorded_keys hasher ms keys')"
proof (induction ms arbitrary: keys keys')
  case (Cons m ms)
  have "last_keys (keys @ [k]) = last_keys (keys' @ [k])" for k
    using last_keys_snoc [of keys k] last_keys_snoc [of keys' k] Cons.prems by simp
  then have "last_keys (recorded_keys hasher ms (keys @ [k])) = last_keys (recorded_keys hasher ms (keys' @ [k]))" for k
    by (rule Cons.IH)
  then show ?case using Cons.IH [OF Cons.prems] Cons.prems by (auto split: option.splits)
qed simp

text \<open>A log over its bound loses thousands of lines from its start.\<close>

lemma trim_loop_append: "trim_loop (trim_loop xs @ ys) = trim_loop (xs @ ys)"
proof (induction xs rule: trim_loop.induct)
  case (1 xs)
  show ?case
  proof (cases "MAX_RETAINED < length xs")
    case True
    then have "trim_loop xs = trim_loop (drop 1000 xs)" "trim_loop (xs @ ys) = trim_loop (drop 1000 xs @ ys)"
      by (subst trim_loop.simps, simp add: MAX_RETAINED_def)+
    then show ?thesis using 1 [OF True] by simp
  qed (simp add: trim_loop.simps [of xs])
qed

lemma trim_loop_exact: "trim_loop xs = drop (1000 * ((length xs - 1001) div 1000)) xs"
proof (induction xs rule: trim_loop.induct)
  case (1 xs)
  show ?case
  proof (cases "MAX_RETAINED < length xs")
    case True
    then have "(length xs - 1001) div 1000 = Suc ((length xs - 2001) div 1000)"
      using div_add_self1 [of 1000 "length xs - 2001"] by (simp add: MAX_RETAINED_def)
    then show ?thesis using 1 [OF True] True by (simp add: trim_loop.simps [of xs] add.commute)
  next
    case False
    then have "(length xs - 1001) div 1000 = 0" by (simp add: MAX_RETAINED_def)
    then show ?thesis using False by (simp add: trim_loop.simps [of xs])
  qed
qed

lemma renumber_append:
  "renumber q (xs @ ys) = renumber q xs @ renumber (q + of_nat (length xs)) ys"
  by (rule nth_equalityI)
    (auto simp: renumber_def nth_append nth_enumerate_eq of_nat_diff add.assoc)

text \<open>What the lines offered to a log do to the state.\<close>

definition log_joined ::
  "conversation_id \<Rightarrow> chat_message list \<Rightarrow> (conversation_id, duplicate_filter) hmap
    \<Rightarrow> (conversation_id \<times> 64 word) list \<Rightarrow> app_state \<Rightarrow> app_state" where
  "log_joined i ms d a s =
     (set_messages i (trim_loop (messages_of s i @ renumber (as_next_sequence s + 1) ms)) s)
       \<lparr>as_duplicates := d, as_attention := a,
        as_next_sequence := as_next_sequence s + of_nat (length ms),
        as_revision := as_revision s + of_nat (length ms)\<rparr>"

definition joined ::
  "outside \<Rightarrow> conversation_id \<Rightarrow> app_state \<Rightarrow> app_state \<Rightarrow> chat_message list \<Rightarrow> chat_message list \<Rightarrow> bool" where
  "joined o' i s t offered ms \<longleftrightarrow>
     ms = fresh_lines (df_hasher (filter_of o' s i)) (df_order (filter_of o' s i)) offered
     \<and> filter_inv (filter_of o' t i) \<and> df_hasher (filter_of o' t i) = df_hasher (filter_of o' s i)
     \<and> df_order (filter_of o' t i) =
         last_keys (recorded_keys (df_hasher (filter_of o' s i)) offered (df_order (filter_of o' s i)))
     \<and> (\<forall>j. j \<noteq> i \<longrightarrow> map_of (as_duplicates t) j = map_of (as_duplicates s) j)
     \<and> set (as_attention t) \<subseteq>
         set (as_attention s) \<union> Pair i ` msg_sequence ` set (renumber (as_next_sequence s + 1) ms)
     \<and> t = log_joined i ms (as_duplicates t) (as_attention t) s"

lemma filter_of_simps [simp]:
  "filter_of o' (s\<lparr>as_attention := a\<rparr>) i = filter_of o' s i"
  "filter_of o' (s\<lparr>as_next_sequence := q\<rparr>) i = filter_of o' s i"
  "filter_of o' (s\<lparr>as_revision := r\<rparr>) i = filter_of o' s i"
  "filter_of o' (s\<lparr>as_pending_history := p\<rparr>) i = filter_of o' s i"
  "filter_of o' (s\<lparr>as_resume := w\<rparr>) i = filter_of o' s i"
  "filter_of o' (s\<lparr>as_duplicates := AList.update i f d\<rparr>) i = f"
  by (simp_all add: filter_of_def update_conv')

lemma change_first_again:
  "change_first (\<lambda>c. conv_id c = i) (conv_messages_update f) (change_first (\<lambda>c. conv_id c = i) (conv_messages_update g) cs)
    = change_first (\<lambda>c. conv_id c = i) (conv_messages_update (f o g)) cs"
  by (induction cs) auto

lemma change_first_same:
  "List.find (\<lambda>c. conv_id c = i) cs = Some c \<Longrightarrow>
     change_first (\<lambda>c. conv_id c = i) (conv_messages_update (\<lambda>_. conv_messages c)) cs = cs"
  by (induction cs) (auto split: if_splits)

lemma set_messages_again: "set_messages i ms (set_messages i ns s) = set_messages i ms s"
  by (simp add: set_messages_def change_first_again comp_def)

lemma set_messages_same: "conversation_at s i \<noteq> None \<Longrightarrow> set_messages i (messages_of s i) s = s"
  by (auto simp: set_messages_def messages_of_def conversation_at_def change_first_same)

lemma log_joined_simps [simp]:
  "as_duplicates (log_joined i ms d a s) = d" "as_attention (log_joined i ms d a s) = a"
  "as_next_sequence (log_joined i ms d a s) = as_next_sequence s + of_nat (length ms)"
  "as_revision (log_joined i ms d a s) = as_revision s + of_nat (length ms)"
  "conversation_at (log_joined i ms d a s) i = None \<longleftrightarrow> conversation_at s i = None"
  by (simp_all add: log_joined_def conversation_at_set_messages)

lemma log_joined_messages:
  assumes "conversation_at s i \<noteq> None"
  shows "messages_of (log_joined i ms d a s) i = trim_loop (messages_of s i @ renumber (as_next_sequence s + 1) ms)"
  by (simp add: log_joined_def messages_of_set_messages(1) [OF assms])

lemma set_messages_fields:
  "set_messages i ms (s\<lparr>as_duplicates := d\<rparr>) = (set_messages i ms s)\<lparr>as_duplicates := d\<rparr>"
  "set_messages i ms (s\<lparr>as_attention := a\<rparr>) = (set_messages i ms s)\<lparr>as_attention := a\<rparr>"
  "set_messages i ms (s\<lparr>as_next_sequence := q\<rparr>) = (set_messages i ms s)\<lparr>as_next_sequence := q\<rparr>"
  "set_messages i ms (s\<lparr>as_revision := r\<rparr>) = (set_messages i ms s)\<lparr>as_revision := r\<rparr>"
  by (simp_all add: set_messages_def)

lemma log_joined_twice:
  assumes "conversation_at s i \<noteq> None"
  shows "log_joined i ns d b (log_joined i ms c a s) = log_joined i (ms @ ns) d b s"
proof -
  have r: "renumber (as_next_sequence s + 1) (ms @ ns) =
      renumber (as_next_sequence s + 1) ms @ renumber (as_next_sequence s + of_nat (length ms) + 1) ns"
    by (simp add: renumber_append add.commute add.left_commute)
  have t: "trim_loop (messages_of (log_joined i ms c a s) i @ renumber (as_next_sequence (log_joined i ms c a s) + 1) ns)
      = trim_loop (messages_of s i @ renumber (as_next_sequence s + 1) (ms @ ns))"
    unfolding log_joined_messages [OF assms] trim_loop_append r by simp
  have "log_joined i ns d b (log_joined i ms c a s) =
      (set_messages i (trim_loop (messages_of s i @ renumber (as_next_sequence s + 1) (ms @ ns))) (log_joined i ms c a s))
       \<lparr>as_duplicates := d, as_attention := b,
        as_next_sequence := as_next_sequence s + of_nat (length (ms @ ns)),
        as_revision := as_revision s + of_nat (length (ms @ ns))\<rparr>"
    unfolding log_joined_def [of i ns] t by (simp add: add.assoc)
  also have "\<dots> = log_joined i (ms @ ns) d b s"
    by (simp add: log_joined_def set_messages_fields set_messages_again)
  finally show ?thesis .
qed

lemma log_joined_over:
  "log_joined i ms d a (s\<lparr>as_pending_history := p, as_resume := r\<rparr>) =
     (set_messages i (trim_loop (messages_of s i @ renumber (as_next_sequence s + 1) ms)) s)
       \<lparr>as_pending_history := p, as_resume := r, as_next_sequence := as_next_sequence s + of_nat (length ms),
        as_revision := as_revision s + of_nat (length ms), as_duplicates := d, as_attention := a\<rparr>"
  by (rule app_state.equality)
    (simp_all add: log_joined_def set_messages_def messages_of_def conversation_at_def)

lemma joined_nothing:
  assumes "conversation_at s i \<noteq> None" "filter_inv (filter_of o' s i)" "length (messages_of s i) \<le> MAX_RETAINED"
  shows "joined o' i s s [] []"
  using assms set_messages_same [OF assms(1)]
  by (simp add: joined_def log_joined_def renumber_def trim_loop_keeps filter_inv_def last_keys_def)

lemma joined_there: "joined o' i s t offered ms \<Longrightarrow> conversation_at t i = None \<longleftrightarrow> conversation_at s i = None"
  by (metis joined_def log_joined_simps(5))

lemma joined_trans:
  assumes "joined o' i s t offered ms" "joined o' i t u offered' ms'" "conversation_at s i \<noteq> None"
  shows "joined o' i s u (offered @ offered') (ms @ ms')"
proof -
  let ?h = "df_hasher (filter_of o' s i)" and ?k = "df_order (filter_of o' s i)"
  note one = assms(1) [unfolded joined_def] and two = assms(2) [unfolded joined_def]
  have t: "t = log_joined i ms (as_duplicates t) (as_attention t) s" using one by blast
  have q: "as_next_sequence t = as_next_sequence s + of_nat (length ms)" by (subst t, simp)
  have k: "last_keys (df_order (filter_of o' t i)) = last_keys (recorded_keys ?h offered ?k)" using one by simp
  have ms': "ms' = fresh_lines ?h (recorded_keys ?h offered ?k) offered'"
    using one two fresh_lines_last [OF k] by simp
  have u: "u = log_joined i (ms @ ms') (as_duplicates u) (as_attention u) s"
    using two log_joined_twice [OF assms(3), of ms' _ _ ms "as_duplicates t" "as_attention t"] t by metis
  have r: "renumber (as_next_sequence s + 1) (ms @ ms') =
      renumber (as_next_sequence s + 1) ms @ renumber (as_next_sequence t + 1) ms'"
    by (simp add: q renumber_append add.commute add.left_commute)
  have att: "set (as_attention u) \<subseteq>
         set (as_attention s) \<union> Pair i ` msg_sequence ` set (renumber (as_next_sequence s + 1) (ms @ ms'))"
    using one two unfolding r set_append image_Un by blast
  show ?thesis
    unfolding joined_def
  proof (intro conjI)
    show "ms @ ms' = fresh_lines ?h ?k (offered @ offered')" using one ms' by (simp add: fresh_lines_append)
    show "df_order (filter_of o' u i) = last_keys (recorded_keys ?h (offered @ offered') ?k)"
      using one two recorded_keys_last [OF k] by (simp add: recorded_keys_append)
  qed (use one two u att in simp_all)
qed

lemma appended_joined:
  "\<exists>a. set a \<subseteq> set (as_attention s) \<and> appended i m d s = log_joined i [m] d a s"
proof -
  have r: "renumber (as_next_sequence s + 1) [m] = [m\<lparr>msg_sequence := as_next_sequence s + 1\<rparr>]"
    by (simp add: renumber_def)
  have log: "log_joined i [m] d a s = (set_messages i (trim_loop (messages_of s i @ [m\<lparr>msg_sequence := as_next_sequence s + 1\<rparr>]))
      (s\<lparr>as_duplicates := d, as_next_sequence := as_next_sequence s + 1, as_revision := as_revision s + 1\<rparr>))
       \<lparr>as_attention := a\<rparr>" for a
    by (simp add: log_joined_def r set_messages_fields)
  let ?t = "set_messages i (trim_loop (messages_of s i @ [m\<lparr>msg_sequence := as_next_sequence s + 1\<rparr>]))
      (s\<lparr>as_duplicates := d, as_next_sequence := as_next_sequence s + 1, as_revision := as_revision s + 1\<rparr>)"
  have att: "as_attention ?t = as_attention s" by (simp add: set_messages_def)
  show ?thesis
  proof (cases "MAX_RETAINED < length (messages_of s i @ [m\<lparr>msg_sequence := as_next_sequence s + 1\<rparr>])")
    case True
    then have "appended i m d s = prune_attention i ?t" by (simp add: appended_def Let_def)
    moreover have "set (as_attention (prune_attention i ?t)) \<subseteq> set (as_attention s)"
      by (auto simp: prune_attention_def att)
    ultimately show ?thesis
      unfolding log by (intro exI [of _ "as_attention (prune_attention i ?t)"]) (simp add: prune_attention_def)
  next
    case False
    then have "appended i m d s = ?t" by (simp add: appended_def Let_def)
    then show ?thesis
      unfolding log by (intro exI [of _ "as_attention s"]) (simp add: att [symmetric])
  qed
qed

lemma filter_inv_keys: "filter_inv f \<Longrightarrow> last_keys (df_order f) = df_order f"
  by (simp add: filter_inv_def last_keys_def)

lemma fresh_line:
  assumes "filter_inv f"
  shows "fresh_lines (df_hasher f) (df_order f) [m] = (if fst (filter_admit m f) then [m] else [])"
    and "last_keys (recorded_keys (df_hasher f) [m] (df_order f)) = df_order (snd (filter_admit m f))"
proof -
  have k: "duplicate_key (duplicate_filter_new (df_hasher f)) m = duplicate_key f m"
    by (intro duplicate_key_hasher) (simp add: duplicate_filter_new_def)
  have "set (df_seen f) = set (df_order f)" using assms by (simp add: filter_inv_def)
  then show "fresh_lines (df_hasher f) (df_order f) [m] = (if fst (filter_admit m f) then [m] else [])"
    by (auto simp: filter_admit_effect(4) [OF assms] filter_contains_def k filter_inv_keys [OF assms] split: option.splits)
  show "last_keys (recorded_keys (df_hasher f) [m] (df_order f)) = df_order (snd (filter_admit m f))"
    by (auto simp: filter_admit_effect(1) [OF assms] admitted_keys_def k filter_inv_keys [OF assms] split: option.splits)
qed

lemma append_effect:
  assumes "conversation_at s i \<noteq> None" "filter_inv (filter_of o' s i)"
  obtains d where
    "append_to_conversation o' i m s =
      (let new = fst (filter_admit m (filter_of o' s i))
       in (new, if new then appended i m d s else s\<lparr>as_duplicates := d\<rparr>))"
    "filter_of o' (s\<lparr>as_duplicates := d\<rparr>) i = snd (filter_admit m (filter_of o' s i))"
    "\<And>j. j \<noteq> i \<Longrightarrow> map_of d j = map_of (as_duplicates s) j"
proof (cases "identified m")
  case False
  then have a: "filter_admit m f = (True, f)" for f
    by (auto simp: filter_admit_def identified_def duplicate_key_def split: option.splits)
  have "append_to_conversation o' i m s = (True, appended i m (as_duplicates s) s)"
    using assms(1) False
    by (auto simp: append_to_conversation_def Let_def next_sequence_def push_bounded_log_def trim_retained_def
        appended_def)
  then show ?thesis using that [of "as_duplicates s"] by (simp add: a)
next
  case True
  obtain new f where a: "filter_admit m (filter_of o' s i) = (new, f)" by (rule prod.exhaust)
  let ?d = "AList.update i f (as_duplicates s)"
  have admit: "admit_in o' i m s = (new, s\<lparr>as_duplicates := ?d\<rparr>)"
    unfolding admit_in_def Let_def using a by (simp add: filter_of_def)
  have "append_to_conversation o' i m s = (new, if new then appended i m ?d s else s\<lparr>as_duplicates := ?d\<rparr>)"
    using assms(1) True admit
    by (cases new) (auto simp: append_to_conversation_def Let_def next_sequence_def push_bounded_log_def trim_retained_def
        appended_def)
  then show ?thesis using that [of ?d] by (simp add: a update_conv')
qed

lemma joined_one:
  assumes c: "conversation_at s i \<noteq> None" and f: "filter_inv (filter_of o' s i)"
    and l: "length (messages_of s i) \<le> MAX_RETAINED"
  shows "\<exists>ms. joined o' i s (snd (append_to_conversation o' i m s)) [m] ms
    \<and> ms = (if fst (append_to_conversation o' i m s) then [m] else [])"
proof -
  let ?f = "filter_of o' s i"
  obtain d where app: "append_to_conversation o' i m s =
      (let new = fst (filter_admit m ?f) in (new, if new then appended i m d s else s\<lparr>as_duplicates := d\<rparr>))"
    and d: "filter_of o' (s\<lparr>as_duplicates := d\<rparr>) i = snd (filter_admit m ?f)"
      "\<And>j. j \<noteq> i \<Longrightarrow> map_of d j = map_of (as_duplicates s) j"
    using append_effect [OF c f] by blast
  define new where "new = fst (filter_admit m ?f)"
  define ms where "ms = (if new then [m] else [])"
  have "joined o' i s t [m] ms"
    if t: "t = log_joined i ms d a s" and a: "set a \<subseteq> set (as_attention s)" for t a
  proof -
    have "filter_of o' t i = snd (filter_admit m ?f)" using d(1) by (simp add: t filter_of_def)
    then show ?thesis
      using fresh_line [OF f, of m] filter_admit_effect(2,3) [OF f, of m] d(2) a
      unfolding joined_def ms_def new_def by (auto simp: t ms_def new_def)
  qed
  note joins = this
  show ?thesis
  proof (cases new)
    case True
    obtain a where "set a \<subseteq> set (as_attention s)" "appended i m d s = log_joined i [m] d a s"
      using appended_joined by blast
    then show ?thesis using joins [of "appended i m d s" a] True app by (simp add: ms_def new_def Let_def)
  next
    case False
    have "s\<lparr>as_duplicates := d\<rparr> = log_joined i [] d (as_attention s) s"
      by (simp add: log_joined_def renumber_def trim_loop_keeps [OF l] set_messages_same [OF c])
    then show ?thesis using joins [of "s\<lparr>as_duplicates := d\<rparr>" "as_attention s"] False app by (simp add: ms_def new_def Let_def)
  qed
qed

section \<open>The lines of a reply\<close>

lemma note_attention_set:
  assumes "conversation_at t i \<noteq> None" "messages_of t i \<noteq> []"
  shows "set (as_attention (note_attention i t)) \<subseteq> insert (i, msg_sequence (last (messages_of t i))) (set (as_attention t))"
proof -
  have room: "set queue \<subseteq> set (as_attention t)" if "attention_room t i q = Some queue" for q queue
    using that set_drop_subset [of 1 "as_attention t"]
    by (auto simp: attention_room_def remove_at_def split: if_splits option.splits dest: in_set_takeD in_set_dropD)
  have ins: "set (insert_at k x queue) \<subseteq> insert x (set queue)" for k x and queue :: "(conversation_id \<times> 64 word) list"
    by (auto simp: insert_at_def dest: in_set_takeD in_set_dropD)
  have "set (as_attention (note_attention_at i q t)) \<subseteq> insert (i, q) (set (as_attention t))" for q
  proof (cases "(i, q) \<in> set (as_attention t) \<or> attention_room t i q = None")
    case False
    then obtain queue where q: "attention_room t i q = Some queue" by blast
    then show ?thesis using False ins [of _ "(i, q)" queue] room [OF q] by (auto simp: note_attention_at_def Let_def)
  qed (auto simp: note_attention_at_def)
  then have at: "set (as_attention (note_attention_at i (msg_sequence (last (messages_of t i))) t))
      \<subseteq> insert (i, msg_sequence (last (messages_of t i))) (set (as_attention t))" .
  have "note_attention i t = note_attention_at i (msg_sequence (last (messages_of t i))) t"
    using assms by (auto simp: note_attention_def messages_of_def)
  then show ?thesis using at by simp
qed

lemma last_trim: "ms \<noteq> [] \<Longrightarrow> trim_loop ms \<noteq> [] \<and> last (trim_loop ms) = last ms"
proof -
  assume "ms \<noteq> []"
  then have "1000 * ((length ms - 1001) div 1000) < length ms"
    using div_times_less_eq_dividend [of "length ms - 1001" 1000] by (cases ms) auto
  then show ?thesis unfolding trim_loop_exact by simp
qed

lemma joined_note:
  assumes "joined o' i s t offered ms" "ms \<noteq> []" "conversation_at s i \<noteq> None"
  shows "joined o' i s (note_attention i t) offered ms"
proof -
  let ?new = "renumber (as_next_sequence s + 1) ms"
  have "length ?new = length ms" by (simp add: renumber_def)
  then have new: "?new \<noteq> []" using assms(2) by (metis length_0_conv)
  have t: "t = log_joined i ms (as_duplicates t) (as_attention t) s" using assms(1) unfolding joined_def by blast
  have "messages_of t i = trim_loop (messages_of s i @ ?new)"
    by (subst t, rule log_joined_messages [OF assms(3)])
  then have last: "messages_of t i \<noteq> []" "last (messages_of t i) \<in> set ?new"
    using last_trim [of "messages_of s i @ ?new"] new by simp_all
  obtain a where a: "note_attention i t = t\<lparr>as_attention := a\<rparr>" using note_attention_only by blast
  have there: "conversation_at t i \<noteq> None" using joined_there [OF assms(1)] assms(3) by simp
  have "set a \<subseteq> insert (i, msg_sequence (last (messages_of t i))) (set (as_attention t))"
    using note_attention_set [OF there last(1)] a by simp
  then have "set a \<subseteq> set (as_attention s) \<union> Pair i ` msg_sequence ` set ?new"
    using last(2) assms(1) unfolding joined_def by blast
  moreover have "t\<lparr>as_attention := a\<rparr> = log_joined i ms (as_duplicates t) a s"
    by (subst t, simp add: log_joined_def)
  moreover have eqs: "filter_of o' (t\<lparr>as_attention := a\<rparr>) i = filter_of o' t i"
    "as_duplicates (t\<lparr>as_attention := a\<rparr>) = as_duplicates t" "as_attention (t\<lparr>as_attention := a\<rparr>) = a" by simp_all
  ultimately show ?thesis using assms(1) unfolding a joined_def eqs by blast
qed

lemma joined_keeps:
  assumes "joined o' i s t offered ms" "conversation_at s i \<noteq> None"
  shows "conversation_at t i \<noteq> None" "filter_inv (filter_of o' t i)" "length (messages_of t i) \<le> MAX_RETAINED"
proof -
  show "conversation_at t i \<noteq> None" using joined_there [OF assms(1)] assms(2) by simp
  show "filter_inv (filter_of o' t i)" using assms(1) unfolding joined_def by blast
  have "t = log_joined i ms (as_duplicates t) (as_attention t) s" using assms(1) unfolding joined_def by blast
  then show "length (messages_of t i) \<le> MAX_RETAINED"
    using log_joined_messages [OF assms(2), of ms "as_duplicates t" "as_attention t"] trim_loop_length by metis
qed

lemma recovered_one:
  assumes "conversation_at (snd acc) i \<noteq> None" "filter_inv (filter_of o' (snd acc) i)"
    "length (messages_of (snd acc) i) \<le> MAX_RETAINED"
  shows "\<exists>ms. joined o' i (snd acc) (snd (append_recovered o' i line acc)) [fst line] ms
    \<and> fst (append_recovered o' i line acc) = fst acc + length ms"
proof -
  obtain added t where a: "append_to_conversation o' i (fst line) (snd acc) = (added, t)" by (rule prod.exhaust)
  define ms where "ms = (if added then [fst line] else [])"
  have t: "joined o' i (snd acc) t [fst line] ms"
    using joined_one [OF assms, of "fst line"] a by (simp add: ms_def)
  then have "joined o' i (snd acc) (snd (append_recovered o' i line acc)) [fst line] ms"
    using a t joined_note [OF t _ assms(1)] by (cases added) (simp_all add: append_recovered_def ms_def)
  moreover have "fst (append_recovered o' i line acc) = fst acc + length ms"
    using a by (simp add: append_recovered_def ms_def)
  ultimately show ?thesis by blast
qed

lemma recovered_lines:
  assumes "conversation_at (snd acc) i \<noteq> None" "filter_inv (filter_of o' (snd acc) i)"
    "length (messages_of (snd acc) i) \<le> MAX_RETAINED"
  shows "\<exists>ms. joined o' i (snd acc) (snd (fold (append_recovered o' i) lines acc)) (map fst lines) ms
    \<and> fst (fold (append_recovered o' i) lines acc) = fst acc + length ms"
  using assms
proof (induction lines arbitrary: acc)
  case Nil
  then show ?case using joined_nothing by force
next
  case (Cons line lines)
  let ?acc = "append_recovered o' i line acc"
  obtain ms where ms: "joined o' i (snd acc) (snd ?acc) [fst line] ms" "fst ?acc = fst acc + length ms"
    using recovered_one [OF Cons.prems] by blast
  obtain ns where ns: "joined o' i (snd ?acc) (snd (fold (append_recovered o' i) lines ?acc)) (map fst lines) ns"
      "fst (fold (append_recovered o' i) lines ?acc) = fst ?acc + length ns"
    using Cons.IH [OF joined_keeps [OF ms(1) Cons.prems(1)]] by blast
  show ?case using joined_trans [OF ms(1) ns(1) Cons.prems(1)] ms(2) ns(2) by (intro exI [of _ "ms @ ns"]) simp
qed

section \<open>The end of a reply\<close>

definition gap_line :: "outside \<Rightarrow> rstring option \<Rightarrow> chat_message list" where
  "gap_line o' note' =
     (case note' of None \<Rightarrow> []
      | Some body \<Rightarrow> [new_message o' [] body LineActivity (meta_with_provenance Requested)])"

lemma ordered_lines:
  "map fst (map (\<lambda>k. lines ! k) (server_time_order (map (\<lambda>(m, _). msg_timestamp m) lines)))
    = in_time_order (map fst lines)"
proof -
  have times: "map (\<lambda>(m, _). msg_timestamp m) lines = map msg_timestamp (map fst lines)"
    by (simp add: case_prod_beta)
  show ?thesis
    unfolding times in_time_order_def by (simp add: server_time_order_facts)
qed

text \<open>C6. When the reply to a request for history ends, exactly its fresh lines, those the duplicate filter of
  the conversation lets pass, join the end of the log in server-time order, after the note of a gap if
  there is one, with the next sequences; the log keeps all but the thousands of oldest lines beyond
  its bound. The number returned is the number of lines added, the filter records the keys of the
  lines, the reply is over and the cut answered. Beyond that only the sequence, the revision and the
  queue of notified lines change, and the queue gains only lines added here.\<close>

theorem recovered_history_joins:
  assumes "conversation_at s i \<noteq> None" and "map_of (as_pending_history s) i = Some lines"
    and "length (messages_of s i) \<le> MAX_RETAINED" and "filter_inv (filter_of o' s i)"
  shows "let (added, t) = finish_history_for o' i gap_note s;
      offered = gap_line o' gap_note @ in_time_order (map fst lines);
      hasher = df_hasher (filter_of o' s i);
      keys = df_order (filter_of o' s i);
      joining = fresh_lines hasher keys offered;
      new = renumber (as_next_sequence s + 1) joining;
      log = messages_of s i @ new
    in added = length joining
      \<and> messages_of t i = drop (1000 * ((length log - 1001) div 1000)) log
      \<and> df_order (filter_of o' t i) = last_keys (recorded_keys hasher offered keys)
      \<and> (\<forall>j. j = i \<or> map_of (as_duplicates t) j = map_of (as_duplicates s) j)
      \<and> set (as_attention t) \<subseteq> set (as_attention s) \<union> Pair i ` msg_sequence ` set new
      \<and> t = (set_messages i (messages_of t i) s)
            \<lparr>as_pending_history := AList.delete i (as_pending_history s),
             as_resume := AList.delete i (as_resume s),
             as_next_sequence := as_next_sequence s + of_nat added,
             as_revision := as_revision s + of_nat added,
             as_duplicates := as_duplicates t, as_attention := as_attention t\<rparr>"
proof -
  let ?t = "s\<lparr>as_pending_history := AList.delete i (as_pending_history s), as_resume := AList.delete i (as_resume s)\<rparr>"
  let ?lines = "map (\<lambda>k. lines ! k) (server_time_order (map (\<lambda>(m, _). msg_timestamp m) lines))"
  obtain c where c: "conversation_at ?t i = Some c" using assms(1) by (auto simp: conversation_at_def)
  then have there: "conversation_at ?t i \<noteq> None" by simp
  have same: "messages_of ?t i = messages_of s i" by (simp add: messages_of_def conversation_at_def)
  have len: "length (messages_of ?t i) \<le> MAX_RETAINED" and inv: "filter_inv (filter_of o' ?t i)"
    using assms(3,4) same by simp_all
  obtain n u ns where start: "finish_history_for o' i gap_note s = fold (append_recovered o' i) ?lines (n, u)"
      and ns: "joined o' i ?t u (gap_line o' gap_note) ns" "n = length ns"
  proof (cases gap_note)
    case None
    have "finish_history_for o' i gap_note s = fold (append_recovered o' i) ?lines (0, ?t)"
      using assms(2) c None by (simp add: finish_history_for_def Let_def)
    then show ?thesis using that [of 0 ?t "[]"] joined_nothing [OF there inv len] None by (simp add: gap_line_def)
  next
    case (Some body)
    let ?note = "new_message o' [] body LineActivity (meta_with_provenance Requested)"
    obtain a v where a: "append_to_conversation o' i ?note ?t = (a, v)" by (rule prod.exhaust)
    have "finish_history_for o' i gap_note s = fold (append_recovered o' i) ?lines (of_bool a, v)"
      using assms(2) c Some a by (simp add: finish_history_for_def Let_def del: of_bool_eq_iff)
    then show ?thesis
      using that [of "of_bool a" v] joined_one [OF there inv len, of ?note] a Some
      by (cases a) (simp_all add: gap_line_def)
  qed
  obtain ms where ms: "joined o' i u (snd (finish_history_for o' i gap_note s)) (map fst ?lines) ms"
      "fst (finish_history_for o' i gap_note s) = n + length ms"
    using recovered_lines [of "(n, u)" i o' ?lines] joined_keeps [OF ns(1) there] unfolding start by auto
  obtain added t where f: "finish_history_for o' i gap_note s = (added, t)" by (rule prod.exhaust)
  have j: "joined o' i ?t t (gap_line o' gap_note @ in_time_order (map fst lines)) (ns @ ms)"
    using joined_trans [OF ns(1) ms(1) there] f unfolding ordered_lines by simp
  have added: "added = length (ns @ ms)" using ms(2) ns(2) f by simp
  have t: "t = log_joined i (ns @ ms) (as_duplicates t) (as_attention t) ?t" using j unfolding joined_def by blast
  have log: "messages_of t i = trim_loop (messages_of s i @ renumber (as_next_sequence s + 1) (ns @ ms))"
    using log_joined_messages [OF there, of "ns @ ms" "as_duplicates t" "as_attention t"] t same by simp
  have whole: "t = (set_messages i (messages_of t i) s)
            \<lparr>as_pending_history := AList.delete i (as_pending_history s),
             as_resume := AList.delete i (as_resume s),
             as_next_sequence := as_next_sequence s + of_nat added,
             as_revision := as_revision s + of_nat added,
             as_duplicates := as_duplicates t, as_attention := as_attention t\<rparr>"
    unfolding log added by (subst t, rule log_joined_over)
  have eqs: "filter_of o' ?t i = filter_of o' s i" "as_duplicates ?t = as_duplicates s"
    "as_attention ?t = as_attention s" "as_next_sequence ?t = as_next_sequence s" by simp_all
  note facts = j [unfolded joined_def eqs]
  have joining: "fresh_lines (df_hasher (filter_of o' s i)) (df_order (filter_of o' s i))
      (gap_line o' gap_note @ in_time_order (map fst lines)) = ns @ ms" using facts by argo
  show ?thesis
    unfolding f Let_def prod.case joining
    using facts whole added log unfolding trim_loop_exact by (intro conjI) blast+
qed

text \<open>A reply of three lines, the later one first and repeated at its end.\<close>

definition sample_reply_outside :: outside where
  "sample_reply_outside = \<lparr>ou_display_time = (\<lambda>_. TimeOfDay 0), ou_links = (\<lambda>_. []),
     ou_hasher = (\<lambda>h. case h of HashLine t _ _ _ _ _ \<Rightarrow> as_millis t | HashNative _ \<Rightarrow> 0)\<rparr>"

definition reply_line :: "64 word \<Rightarrow> 64 word \<Rightarrow> chat_message" where
  "reply_line q t = (page_line q t)\<lparr>msg_provenance := Requested\<rparr>"

definition reply_state :: app_state where
  "reply_state = late_page\<lparr>as_pending_history :=
     [(ConversationId 1, [(reply_line 0 20, False), (reply_line 0 10, True), (reply_line 0 20, False)])]\<rparr>"

theorem recovered_history_joins_witness:
  "fst (finish_history_for sample_reply_outside (ConversationId 1) None reply_state) = 2
    \<and> messages_of (snd (finish_history_for sample_reply_outside (ConversationId 1) None reply_state)) (ConversationId 1)
      = late_lines @ [reply_line (SEQUENCE_ORIGIN + 1) 10, reply_line (SEQUENCE_ORIGIN + 2) 20]"
proof -
  let ?i = "ConversationId 1" and ?lines = "[(reply_line 0 20, False), (reply_line 0 10, True), (reply_line 0 20, False)]"
  have c: "conversation_at late_page ?i \<noteq> None" "messages_of late_page ?i = late_lines"
    unfolding late_page_def by simp_all
  have at: "conversation_at reply_state ?i \<noteq> None"
    and p: "map_of (as_pending_history reply_state) ?i = Some ?lines"
    and m: "messages_of reply_state ?i = late_lines"
    using c by (simp_all add: reply_state_def conversation_at_def messages_of_def)
  have q: "as_next_sequence reply_state = SEQUENCE_ORIGIN"
    by (simp add: reply_state_def late_page_def page_state_def app_new_def)
  have "as_duplicates reply_state = []" by (simp add: reply_state_def late_page_def page_state_def app_new_def)
  then have f: "filter_of sample_reply_outside reply_state ?i = duplicate_filter_new (ou_hasher sample_reply_outside)"
    by (simp add: filter_of_def)
  have parts: "df_order (duplicate_filter_new h) = []" "df_hasher (duplicate_filter_new h) = h" for h
    by (simp_all add: duplicate_filter_new_def)
  have order: "in_time_order (map fst ?lines) = [reply_line 0 10, reply_line 0 20, reply_line 0 20]"
    by (simp add: in_time_order_def reply_line_def server_time_order_def time_rank_def Let_def upt_rec)
  have key: "duplicate_key (duplicate_filter_new (ou_hasher sample_reply_outside)) (reply_line 0 t) = Some (t, True)" for t
    by (simp add: duplicate_key_def fingerprint_def duplicate_filter_new_def sample_reply_outside_def reply_line_def
        page_line_def message_is_history_def provenance_is_history_def)
  have fresh: "fresh_lines (ou_hasher sample_reply_outside) [] [reply_line 0 10, reply_line 0 20, reply_line 0 20]
      = [reply_line 0 10, reply_line 0 20]"
    by (simp add: key last_keys_def DUPLICATE_KEYS_PER_CONVERSATION_def)
  have new: "renumber (SEQUENCE_ORIGIN + 1) [reply_line 0 10, reply_line 0 20]
      = [reply_line (SEQUENCE_ORIGIN + 1) 10, reply_line (SEQUENCE_ORIGIN + 2) 20]"
    by (simp add: renumber_def reply_line_def page_line_def)
  have "length (messages_of reply_state ?i) \<le> MAX_RETAINED" by (simp add: m late_lines_def MAX_RETAINED_def)
  moreover have "filter_inv (filter_of sample_reply_outside reply_state ?i)" by (simp add: f)
  ultimately show ?thesis
    using recovered_history_joins [OF at p, of sample_reply_outside None]
    unfolding order f m q parts Let_def case_prod_beta gap_line_def option.case append_Nil fresh new
    by (simp add: late_length)
qed

end
