(* ===== verification/Scram.thy ===== *)
theory Scram
  imports Wire Utf8
begin

text \<open>
  \<open>crates/irc-core/src/scram.rs\<close> and the keys of \<open>ecdsa.rs\<close>: SCRAM without channel binding as the client of
  a SASL exchange. The crates behind it are the argument \<open>cr\<close>: base64, SASLprep, PBKDF2, HMAC and the digest
  of each hash, and the signing keys of P-256. The random bytes of a nonce are an argument of \<open>scram_new\<close>.
\<close>

section \<open>The crates\<close>

datatype scram_hash = Sha1 | Sha256 | Sha512

record crypto =
  cr_encode :: "byte list \<Rightarrow> rstring"
  cr_decode :: "rstring \<Rightarrow> byte list option"
  cr_saslprep :: "rstring \<Rightarrow> rstring option"
  cr_pbkdf2 :: "scram_hash \<Rightarrow> byte list \<Rightarrow> byte list \<Rightarrow> nat \<Rightarrow> byte list"
  cr_hmac :: "scram_hash \<Rightarrow> byte list \<Rightarrow> byte list \<Rightarrow> byte list"
  cr_digest :: "scram_hash \<Rightarrow> byte list \<Rightarrow> byte list"
  cr_key_valid :: "byte list \<Rightarrow> bool"
  cr_sign_prehash :: "byte list \<Rightarrow> byte list \<Rightarrow> byte list option"

section \<open>State\<close>

definition REJECTED :: rstring where "REJECTED = lit ''The server rejected the SCRAM exchange.''"
definition MIN_ITERATIONS :: nat where "MIN_ITERATIONS = 4096"
definition MAX_ITERATIONS :: nat where "MAX_ITERATIONS = 1000000"
definition MAX_SALT_BYTES :: nat where "MAX_SALT_BYTES = 1024"
definition GS2_HEADER_B64 :: rstring where "GS2_HEADER_B64 = lit ''biws''"

record job =
  jo_hash :: scram_hash
  jo_password :: rstring
  jo_salt :: "byte list"
  jo_iterations :: nat
  jo_auth_message :: rstring

record derived =
  de_proof :: "byte list"
  de_server_signature :: "byte list"

datatype scram_phase = ScFirst | ScFinal | ScVerified

record scram =
  sc_hash :: scram_hash
  sc_password :: "rstring option"
  sc_nonce :: rstring
  sc_first_bare :: rstring
  sc_final_without_proof :: rstring
  sc_server_signature :: "byte list"
  sc_phase :: scram_phase
  sc_iterations :: nat

section \<open>The exchange\<close>

text \<open>\<open>str::replace\<close> of a character.\<close>

definition replace_char :: "rchar \<Rightarrow> rstring \<Rightarrow> rstring \<Rightarrow> rstring" where
  "replace_char c new s = concat (map (\<lambda>d. if d = c then new else [d]) s)"

definition scram_new ::
  "crypto \<Rightarrow> byte list option \<Rightarrow> scram_hash \<Rightarrow> rstring \<Rightarrow> rstring \<Rightarrow> rstring + scram" where
  "scram_new cr raw hash username password =
     (case cr_saslprep cr password of
        None \<Rightarrow> Inl (lit ''The SASL password cannot be normalized with SASLprep.'')
      | Some password \<Rightarrow>
          (case raw of
             None \<Rightarrow> Inl (lit ''No random number source for SCRAM.'')
           | Some raw \<Rightarrow>
               (let nonce = cr_encode cr raw;
                    username = replace_char 0x2C (lit ''=2C'') (replace_char 0x3D (lit ''=3D'') username)
                in Inr \<lparr>sc_hash = hash, sc_password = Some password, sc_nonce = nonce,
                        sc_first_bare = lit ''n='' @ username @ lit '',r='' @ nonce,
                        sc_final_without_proof = [], sc_server_signature = [], sc_phase = ScFirst,
                        sc_iterations = 0\<rparr>)))"

definition scram_first :: "scram \<Rightarrow> rstring" where
  "scram_first sc = lit ''n,,'' @ sc_first_bare sc"

text \<open>The attributes of the server's first message: nonce, salt and iterations, the last of each.\<close>

fun first_attributes ::
  "rstring list \<Rightarrow> rstring option \<times> rstring option \<times> rstring option
   \<Rightarrow> rstring + (rstring option \<times> rstring option \<times> rstring option)" where
  "first_attributes [] found = Inr found"
| "first_attributes (part # parts) (nonce, salt, iterations) =
     (case split_once 0x3D part of
        Some (name, value) \<Rightarrow>
          (if name = lit ''r'' then first_attributes parts (Some value, salt, iterations)
           else if name = lit ''s'' then first_attributes parts (nonce, Some value, iterations)
           else if name = lit ''i'' then first_attributes parts (nonce, salt, Some value)
           else if name = lit ''m'' then Inl (lit ''Unsupported SCRAM extension.'')
           else first_attributes parts (nonce, salt, iterations))
      | None \<Rightarrow> first_attributes parts (nonce, salt, iterations))"

definition accepted_salt :: "crypto \<Rightarrow> rstring \<Rightarrow> byte list option" where
  "accepted_salt cr salt =
     (case cr_decode cr salt of
        None \<Rightarrow> None
      | Some bytes \<Rightarrow> (if bytes \<noteq> [] \<and> length bytes \<le> MAX_SALT_BYTES then Some bytes else None))"

definition accepted_iterations :: "rstring \<Rightarrow> nat option" where
  "accepted_iterations iterations =
     (if list_all is_ascii_digit iterations
      then
        (case parse_unsigned (2 ^ 32 - 1) iterations of
           None \<Rightarrow> None
         | Some count \<Rightarrow> (if MIN_ITERATIONS \<le> count \<and> count \<le> MAX_ITERATIONS then Some count else None))
      else None)"

definition server_first :: "crypto \<Rightarrow> byte list \<Rightarrow> scram \<Rightarrow> (rstring + job) \<times> scram" where
  "server_first cr data sc =
     (case from_utf8 data of
        None \<Rightarrow> (Inl (lit ''SCRAM server-first is not UTF-8.''), sc)
      | Some text' \<Rightarrow>
          (if strip_prefix (lit ''e='') text' \<noteq> None then (Inl REJECTED, sc)
           else
             (case first_attributes (split_by (\<lambda>c. c = 0x2C) text') (None, None, None) of
                Inl error \<Rightarrow> (Inl error, sc)
              | Inr (Some nonce, Some salt, Some iterations) \<Rightarrow>
                  (if strip_prefix (sc_nonce sc) nonce = None \<or> blen nonce = blen (sc_nonce sc)
                   then (Inl (lit ''The SCRAM server nonce does not extend ours.''), sc)
                   else
                     (case accepted_salt cr salt of
                        None \<Rightarrow> (Inl (lit ''The SCRAM salt is invalid.''), sc)
                      | Some salt \<Rightarrow>
                          (case accepted_iterations iterations of
                             None \<Rightarrow> (Inl (lit ''The SCRAM iteration count is out of range.''), sc)
                           | Some iterations \<Rightarrow>
                               (let sc = sc\<lparr>sc_iterations := iterations,
                                            sc_final_without_proof :=
                                              lit ''c='' @ GS2_HEADER_B64 @ lit '',r='' @ nonce\<rparr>
                                in case sc_password sc of
                                     None \<Rightarrow> (Inl (lit ''Unexpected SCRAM state.''), sc)
                                   | Some password \<Rightarrow>
                                       (Inr \<lparr>jo_hash = sc_hash sc, jo_password = password, jo_salt = salt,
                                             jo_iterations = iterations,
                                             jo_auth_message = sc_first_bare sc @ lit '','' @ text' @ lit '',''
                                               @ sc_final_without_proof sc\<rparr>,
                                        sc\<lparr>sc_password := None\<rparr>)))))
              | Inr _ \<Rightarrow> (Inl (lit ''Malformed SCRAM server-first.''), sc))))"

definition scram_derived :: "crypto \<Rightarrow> derived \<Rightarrow> scram \<Rightarrow> rstring \<times> scram" where
  "scram_derived cr d sc =
     (sc_final_without_proof sc @ lit '',p='' @ cr_encode cr (de_proof d),
      sc\<lparr>sc_server_signature := de_server_signature d, sc_phase := ScFinal\<rparr>)"

definition constant_time_eq :: "byte list \<Rightarrow> byte list \<Rightarrow> bool" where
  "constant_time_eq left right \<longleftrightarrow>
     length left = length right
     \<and> foldl (\<lambda>difference (a, b). or difference (xor a b)) 0 (zip left right) = 0"

definition server_final :: "crypto \<Rightarrow> byte list \<Rightarrow> scram \<Rightarrow> rstring option \<times> scram" where
  "server_final cr data sc =
     (if sc_phase sc \<noteq> ScFinal then (Some (lit ''Unexpected SCRAM server-final.''), sc)
      else
        (case from_utf8 data of
           None \<Rightarrow> (Some (lit ''SCRAM server-final is not UTF-8.''), sc)
         | Some text' \<Rightarrow>
             (let first = hd (split_by (\<lambda>c. c = 0x2C) text') in
              if strip_prefix (lit ''e='') first \<noteq> None then (Some REJECTED, sc)
              else
                (case Option.bind (strip_prefix (lit ''v='') first) (cr_decode cr) of
                   None \<Rightarrow> (Some (lit ''Malformed SCRAM server-final.''), sc)
                 | Some signature \<Rightarrow>
                     (if \<not> constant_time_eq signature (sc_server_signature sc)
                      then (Some (lit ''The SCRAM server signature does not match.''), sc)
                      else (None, sc\<lparr>sc_server_signature := [], sc_phase := ScVerified\<rparr>))))))"

text \<open>The derivation, the macro \<open>derive!\<close> of the code.\<close>

definition job_run :: "crypto \<Rightarrow> job \<Rightarrow> derived" where
  "job_run cr j =
     (let salted = cr_pbkdf2 cr (jo_hash j) (as_bytes (jo_password j)) (jo_salt j) (jo_iterations j);
          mac = cr_hmac cr (jo_hash j);
          auth = as_bytes (jo_auth_message j);
          client_key = mac salted (as_bytes (lit ''Client Key''));
          stored_key = cr_digest cr (jo_hash j) client_key;
          signature = mac stored_key auth;
          proof' = map2 xor client_key signature;
          server_key = mac salted (as_bytes (lit ''Server Key''))
      in \<lparr>de_proof = proof', de_server_signature = mac server_key auth\<rparr>)"

section \<open>Keys of ECDSA\<close>

definition CHALLENGE_BYTES :: nat where "CHALLENGE_BYTES = 32"

definition KEY_STORED :: rstring where "KEY_STORED = lit ''The stored key is not a valid P-256 key.''"

definition signing_key :: "crypto \<Rightarrow> rstring \<Rightarrow> rstring + byte list" where
  "signing_key cr secret =
     (case cr_decode cr secret of
        None \<Rightarrow> Inl KEY_STORED
      | Some bytes \<Rightarrow> (if length bytes \<noteq> 32 \<or> \<not> cr_key_valid cr bytes then Inl KEY_STORED else Inr bytes))"

definition ecdsa_is_valid :: "crypto \<Rightarrow> rstring \<Rightarrow> bool" where
  "ecdsa_is_valid cr secret \<longleftrightarrow> (case signing_key cr secret of Inl _ \<Rightarrow> False | Inr _ \<Rightarrow> True)"

definition ecdsa_sign :: "crypto \<Rightarrow> rstring \<Rightarrow> byte list \<Rightarrow> rstring + byte list" where
  "ecdsa_sign cr secret challenge =
     (case signing_key cr secret of
        Inl error \<Rightarrow> Inl error
      | Inr key \<Rightarrow>
          (case cr_sign_prehash cr key challenge of None \<Rightarrow> Inl KEY_STORED | Some signature \<Rightarrow> Inr signature))"

section \<open>Comparing signatures\<close>

lemma or_eq_0: "or a b = 0 \<longleftrightarrow> a = 0 \<and> b = (0 :: 'a::len word)"
  by (metis or.right_neutral or.left_neutral word_bw_same(2) or.assoc)

lemma foldl_or_eq_0:
  "foldl (\<lambda>difference (a, b). or difference (xor a b)) d ps = (0 :: byte)
   \<longleftrightarrow> d = 0 \<and> (\<forall>(a, b) \<in> set ps. xor a b = 0)"
  by (induction ps arbitrary: d) (auto simp: or_eq_0)

lemma xor_eq_0: "xor a b = 0 \<longleftrightarrow> a = (b :: byte)"
  by (metis xor.right_neutral xor_self_eq xor.left_neutral xor.assoc)

lemma constant_time_eq_iff: "constant_time_eq left right \<longleftrightarrow> left = right"
proof
  assume c: "constant_time_eq left right"
  then have "length left = length right" by (simp add: constant_time_eq_def)
  moreover have "left ! k = right ! k" if "k < length left" for k
  proof -
    have "(left ! k, right ! k) \<in> set (zip left right)"
      using that calculation by (auto simp: set_zip)
    then show ?thesis using c unfolding constant_time_eq_def foldl_or_eq_0 xor_eq_0 by auto
  qed
  ultimately show "left = right" by (rule nth_equalityI)
next
  assume "left = right"
  then show "constant_time_eq left right"
    by (auto simp: constant_time_eq_def foldl_or_eq_0 set_zip)
qed

end
