(* ===== verification/Sasl.thy ===== *)
theory Sasl
  imports Scram Text
begin

text \<open>
  \<open>crates/irc-core/src/sasl.rs\<close>: the SASL exchange after the capability \<open>sasl\<close> is acknowledged, one
  handshake for PLAIN, SCRAM and ECDSA. \<open>Err\<close> is \<open>Inl\<close> with its text; what a failing step recorded stays
  in the state. Text that is zeroed becomes empty.
\<close>

section \<open>Types\<close>

datatype sasl_mechanism = SaslPlain | SaslScramSha1 | SaslScramSha256 | SaslScramSha512 | SaslEcdsa

fun mechanism_name :: "sasl_mechanism \<Rightarrow> rstring" where
  "mechanism_name SaslPlain = lit ''PLAIN''"
| "mechanism_name SaslScramSha1 = lit ''SCRAM-SHA-1''"
| "mechanism_name SaslScramSha256 = lit ''SCRAM-SHA-256''"
| "mechanism_name SaslScramSha512 = lit ''SCRAM-SHA-512''"
| "mechanism_name SaslEcdsa = lit ''ECDSA-NIST256P-CHALLENGE''"

fun mechanism_hash :: "sasl_mechanism \<Rightarrow> scram_hash option" where
  "mechanism_hash SaslPlain = None"
| "mechanism_hash SaslEcdsa = None"
| "mechanism_hash SaslScramSha1 = Some Sha1"
| "mechanism_hash SaslScramSha256 = Some Sha256"
| "mechanism_hash SaslScramSha512 = Some Sha512"

record sasl_credentials =
  cd_mechanism :: sasl_mechanism
  cd_username :: rstring
  cd_password :: rstring

definition AUTH_CHUNK :: nat where "AUTH_CHUNK = 400"
definition MAX_INCOMING :: nat where "MAX_INCOMING = 8192"
definition ECDSA_KEY_UNREADABLE :: rstring where
  "ECDSA_KEY_UNREADABLE = lit ''The SASL private key is missing or unreadable; set a key for this server.''"
definition SASL_FAILED :: rstring where "SASL_FAILED = lit ''SASL authentication failed.''"
definition SASL_KEY_REFUSED :: rstring where
  "SASL_KEY_REFUSED =
     lit ''SASL authentication failed: the server refused the key. Check that the key is registered for this account.''"

datatype sasl_phase =
  SpIdle | SpStarting | SpScramFirst | SpDeriving | SpScramFinal | SpEcdsaChallenge | SpWaiting | SpComplete

record sasl_out =
  ou_send :: "command list"
  ou_notes :: "rstring list"
  ou_derive :: "job option"

definition out_default :: sasl_out where
  "out_default = \<lparr>ou_send = [], ou_notes = [], ou_derive = None\<rparr>"

definition noted :: "rstring \<Rightarrow> sasl_out \<Rightarrow> sasl_out" where
  "noted note' out = out\<lparr>ou_notes := ou_notes out @ [note']\<rparr>"

definition sending :: "command list \<Rightarrow> sasl_out \<Rightarrow> sasl_out" where
  "sending lines out = out\<lparr>ou_send := ou_send out @ lines\<rparr>"

record sasl_handshake =
  sh_mechanism :: sasl_mechanism
  sh_username :: rstring
  sh_password :: rstring
  sh_phase :: sasl_phase
  sh_scram :: "scram option"
  sh_incoming :: rstring
  sh_failure_notes :: "rstring list"

definition sasl_new :: "sasl_credentials \<Rightarrow> sasl_handshake" where
  "sasl_new c =
     \<lparr>sh_mechanism = cd_mechanism c, sh_username = cd_username c, sh_password = cd_password c,
      sh_phase = SpIdle, sh_scram = None, sh_incoming = [], sh_failure_notes = []\<rparr>"

definition sasl_complete :: "sasl_handshake \<Rightarrow> bool" where
  "sasl_complete h \<longleftrightarrow> sh_phase h = SpComplete"

fun phase_stage :: "sasl_phase \<Rightarrow> rstring" where
  "phase_stage SpIdle = lit ''waiting for the sasl capability''"
| "phase_stage SpStarting = lit ''waiting for the server's AUTHENTICATE + (before client-first)''"
| "phase_stage SpScramFirst = lit ''waiting for the SCRAM server-first message (client-first sent)''"
| "phase_stage SpDeriving = lit ''deriving the SCRAM keys (server-first accepted)''"
| "phase_stage SpScramFinal = lit ''waiting for the SCRAM server-final message (client-final sent)''"
| "phase_stage SpEcdsaChallenge = lit ''waiting for the ECDSA challenge (account name sent)''"
| "phase_stage SpWaiting = lit ''waiting for the SASL result''"
| "phase_stage SpComplete = lit ''complete''"

definition sasl_stage :: "sasl_handshake \<Rightarrow> rstring" where
  "sasl_stage h = phase_stage (sh_phase h)"

section \<open>Lines\<close>

text \<open>\<open>chunks\<close> of a slice.\<close>

function chunks :: "nat \<Rightarrow> 'a list \<Rightarrow> 'a list list" where
  "chunks n xs = (if xs = [] \<or> n = 0 then [] else take n xs # chunks n (drop n xs))"
  by pat_completeness auto

termination by (relation "measure (\<lambda>(n, xs). length xs)") (auto simp: not_less)

declare chunks.simps [simp del]

definition authenticate_lines :: "crypto \<Rightarrow> byte list \<Rightarrow> command list" where
  "authenticate_lines cr payload =
     (let encoded = cr_encode cr payload
      in map AUTHENTICATE (chunks AUTH_CHUNK encoded)
         @ (if AUTH_CHUNK dvd blen encoded then [AUTHENTICATE (lit ''+'')] else []))"

definition finish_incoming :: "crypto \<Rightarrow> sasl_handshake \<Rightarrow> (rstring + byte list) \<times> sasl_handshake" where
  "finish_incoming cr h =
     ((case cr_decode cr (sh_incoming h) of
         None \<Rightarrow> Inl (lit ''The SASL challenge from the server is not base64.'')
       | Some bytes \<Rightarrow> Inr bytes),
      h\<lparr>sh_incoming := []\<rparr>)"

definition sasl_receive ::
  "crypto \<Rightarrow> rstring \<Rightarrow> sasl_handshake \<Rightarrow> (rstring + byte list option) \<times> sasl_handshake" where
  "sasl_receive cr chunk h =
     (if sh_phase h = SpIdle \<or> sh_phase h = SpComplete then (Inr None, h)
      else if chunk = lit ''+'' then apfst (map_sum (\<lambda>e. e) Some) (finish_incoming cr h)
      else if AUTH_CHUNK < blen chunk \<or> MAX_INCOMING < blen (sh_incoming h) + blen chunk
      then (Inl (lit ''The SASL challenge from the server is too long.''), h\<lparr>sh_incoming := []\<rparr>)
      else
        (let h = h\<lparr>sh_incoming := sh_incoming h @ chunk\<rparr>
         in if blen chunk = AUTH_CHUNK then (Inr None, h)
            else apfst (map_sum (\<lambda>e. e) Some) (finish_incoming cr h)))"

section \<open>Diagnostics\<close>

definition safe_text :: "rstring \<Rightarrow> rstring" where
  "safe_text s =
     (let s = take 120 (filter (\<lambda>c. \<not> is_control c) s) in if s = [] then lit ''none given'' else s)"

definition KNOWN_ERRORS :: "rstring list" where
  "KNOWN_ERRORS = map lit
     [''invalid-encoding'', ''extensions-not-supported'', ''invalid-proof'', ''channel-bindings-dont-match'',
      ''server-does-not-support-channel-binding'', ''channel-binding-not-supported'',
      ''unsupported-channel-binding-type'', ''unknown-user'', ''invalid-username-encoding'', ''no-resources'',
      ''other-error'']"

definition server_error_value :: "byte list \<Rightarrow> rstring" where
  "server_error_value payload =
     (let parts = split_by (\<lambda>c. c = 0x2C) (from_utf8_lossy payload);
          value = (case List.map_filter (strip_prefix (lit ''e='')) parts of [] \<Rightarrow> [] | v # _ \<Rightarrow> v)
      in case List.find (\<lambda>known. known = value) KNOWN_ERRORS of
           Some known \<Rightarrow> known | None \<Rightarrow> lit ''unrecognized value (not shown)'')"

definition client_error :: "rstring \<Rightarrow> rstring \<Rightarrow> sasl_handshake \<Rightarrow> rstring \<times> sasl_handshake" where
  "client_error stage error h =
     (error,
      h\<lparr>sh_failure_notes := sh_failure_notes h @
          [lit ''SASL: '' @ mechanism_name (sh_mechanism h) @ lit '' stopped by a client-side check while ''
             @ stage @ lit '': '' @ error]\<rparr>)"

section \<open>Steps\<close>

definition sasl_begin ::
  "crypto \<Rightarrow> byte list option \<Rightarrow> sasl_handshake \<Rightarrow> (rstring + sasl_out) \<times> sasl_handshake" where
  "sasl_begin cr raw h =
     (let ecdsa = sh_mechanism h = SaslEcdsa;
          readable = ecdsa_is_valid cr (sh_password h);
          out = (if ecdsa
                 then noted (lit ''SASL ECDSA: the private key ''
                   @ (if readable then lit ''was read'' else lit ''is missing or unreadable'') @ lit ''.'') out_default
                 else out_default)
      in if ecdsa \<and> \<not> readable
         then (Inl ECDSA_KEY_UNREADABLE, h\<lparr>sh_failure_notes := sh_failure_notes h @ ou_notes out\<rparr>)
         else
           (case (case mechanism_hash (sh_mechanism h) of
                    Some hash \<Rightarrow> map_sum (\<lambda>e. e) Some (scram_new cr raw hash (sh_username h) (sh_password h))
                  | None \<Rightarrow> Inr None) of
              Inl error \<Rightarrow> (Inl error, h)
            | Inr scram \<Rightarrow>
                (Inr (sending [AUTHENTICATE (mechanism_name (sh_mechanism h))]
                   (noted (lit ''SASL: starting '' @ mechanism_name (sh_mechanism h)
                      @ lit '' (TLS-protected exchange).'') out)),
                 h\<lparr>sh_scram := scram, sh_phase := SpStarting\<rparr>)))"

text \<open>The response to the server's empty first message.\<close>

definition initial_response ::
  "crypto \<Rightarrow> byte list \<Rightarrow> sasl_out \<Rightarrow> sasl_handshake \<Rightarrow> sasl_out \<times> sasl_handshake" where
  "initial_response cr response out h =
     (sending (authenticate_lines cr response)
        (noted (lit ''SASL: sending the '' @ mechanism_name (sh_mechanism h) @ lit '' initial response (''
           @ decimal (length response) @ lit '' bytes).'') out),
      h\<lparr>sh_password := []\<rparr>)"

definition handle_starting ::
  "crypto \<Rightarrow> byte list \<Rightarrow> sasl_out \<Rightarrow> sasl_handshake \<Rightarrow> rstring option \<times> sasl_out \<times> sasl_handshake" where
  "handle_starting cr payload out h =
     (if payload \<noteq> [] then (Some (lit ''The server's first SASL challenge was not empty.''), out, h)
      else
        (case sh_scram h of
           Some sc \<Rightarrow>
             (None, initial_response cr (as_bytes (scram_first sc)) out (h\<lparr>sh_phase := SpScramFirst\<rparr>))
         | None \<Rightarrow>
             (if sh_mechanism h = SaslEcdsa
              then (None,
                sending (authenticate_lines cr (as_bytes (sh_username h)))
                  (noted (lit ''SASL ECDSA: sending the account name ('' @ decimal (blen (sh_username h))
                     @ lit '' bytes).'') out),
                h\<lparr>sh_phase := SpEcdsaChallenge\<rparr>)
              else
                (None, initial_response cr (as_bytes ([0] @ sh_username h @ [0] @ sh_password h)) out
                   (h\<lparr>sh_phase := SpWaiting\<rparr>)))))"

definition handle_challenge ::
  "crypto \<Rightarrow> byte list \<Rightarrow> sasl_out \<Rightarrow> sasl_handshake \<Rightarrow> rstring option \<times> sasl_out \<times> sasl_handshake" where
  "handle_challenge cr payload out h =
     (if length payload \<noteq> CHALLENGE_BYTES
      then (Some (lit ''The ECDSA challenge from the server is '' @ decimal (length payload) @ lit '' bytes, not ''
             @ decimal CHALLENGE_BYTES @ lit ''.''), out, h)
      else
        (let out = noted (lit ''SASL ECDSA: challenge received ('' @ decimal (length payload) @ lit '' bytes).'') out
         in case ecdsa_sign cr (sh_password h) payload of
              Inl error \<Rightarrow> (Some (lit ''The ECDSA challenge could not be signed: '' @ error), out, h)
            | Inr signature \<Rightarrow>
                (None,
                 sending (authenticate_lines cr signature)
                   (noted (lit ''SASL ECDSA: challenge signed; sending the signature ('' @ decimal (length signature)
                      @ lit '' bytes).'') out),
                 h\<lparr>sh_password := [], sh_phase := SpWaiting\<rparr>)))"

definition handle_scram_first ::
  "crypto \<Rightarrow> byte list \<Rightarrow> sasl_out \<Rightarrow> sasl_handshake \<Rightarrow> rstring option \<times> sasl_out \<times> sasl_handshake" where
  "handle_scram_first cr payload out h =
     (case sh_scram h of
        None \<Rightarrow> (Some (lit ''Unexpected SASL state.''), out, h)
      | Some sc \<Rightarrow>
          (case server_first cr payload sc of
             (Inl error, sc) \<Rightarrow> (Some error, out, h\<lparr>sh_scram := Some sc\<rparr>)
           | (Inr job, sc) \<Rightarrow>
               (None,
                (noted (lit ''SASL SCRAM: server-first accepted ('' @ decimal (length payload) @ lit '' bytes, ''
                   @ decimal (sc_iterations sc) @ lit '' iterations).'') out)\<lparr>ou_derive := Some job\<rparr>,
                h\<lparr>sh_scram := Some sc, sh_phase := SpDeriving\<rparr>)))"

definition handle_scram_final ::
  "crypto \<Rightarrow> byte list \<Rightarrow> sasl_out \<Rightarrow> sasl_handshake \<Rightarrow> rstring option \<times> sasl_out \<times> sasl_handshake" where
  "handle_scram_final cr payload out h =
     (case sh_scram h of
        None \<Rightarrow> (Some (lit ''Unexpected SASL state.''), out, h)
      | Some sc \<Rightarrow>
          (case server_final cr payload sc of
             (Some error, sc) \<Rightarrow> (Some error, out, h\<lparr>sh_scram := Some sc\<rparr>)
           | (None, _) \<Rightarrow>
               (None,
                sending [AUTHENTICATE (lit ''+'')] (noted (lit ''SASL SCRAM: server signature verified.'') out),
                h\<lparr>sh_scram := None, sh_phase := SpWaiting\<rparr>)))"

definition sasl_handle ::
  "crypto \<Rightarrow> byte list \<Rightarrow> sasl_out \<Rightarrow> sasl_handshake \<Rightarrow> rstring option \<times> sasl_out \<times> sasl_handshake" where
  "sasl_handle cr payload out h =
     (case sh_phase h of
        SpStarting \<Rightarrow> handle_starting cr payload out h
      | SpEcdsaChallenge \<Rightarrow> handle_challenge cr payload out h
      | SpScramFirst \<Rightarrow> handle_scram_first cr payload out h
      | SpScramFinal \<Rightarrow> handle_scram_final cr payload out h
      | _ \<Rightarrow> (Some (lit ''Unexpected SASL challenge while '' @ sasl_stage h @ lit ''.''), out, h))"

definition observe_authenticate ::
  "crypto \<Rightarrow> rstring \<Rightarrow> sasl_handshake \<Rightarrow> (rstring + sasl_out) \<times> sasl_handshake" where
  "observe_authenticate cr chunk h =
     (let stage = sasl_stage h in
      case sasl_receive cr chunk h of
        (Inl error, h) \<Rightarrow> apfst Inl (client_error stage error h)
      | (Inr None, h) \<Rightarrow> (Inr out_default, h)
      | (Inr (Some payload), h) \<Rightarrow>
          (case sasl_handle cr payload out_default h of
             (None, out, h) \<Rightarrow> (Inr out, h)
           | (Some error, out, h) \<Rightarrow>
               (let h = h\<lparr>sh_failure_notes := sh_failure_notes h @ ou_notes out\<rparr>
                in if error \<noteq> REJECTED then apfst Inl (client_error stage error h)
                   else
                     (Inl SASL_FAILED,
                      h\<lparr>sh_failure_notes := sh_failure_notes h @
                          [lit ''SASL: the server rejected '' @ mechanism_name (sh_mechanism h) @ lit '' while '' @ stage
                             @ lit '' (SCRAM error: '' @ server_error_value payload @ lit '').'']\<rparr>))))"

definition sasl_failures :: "nat list" where "sasl_failures = [902, 904, 905, 906, 907]"

text \<open>\<open>numeric\<close> shows the number of such a reply.\<close>

definition sasl_observe ::
  "crypto \<Rightarrow> message \<Rightarrow> sasl_handshake \<Rightarrow> (rstring + sasl_out) \<times> sasl_handshake" where
  "sasl_observe cr m h =
     (case m_command m of
        AUTHENTICATE chunk \<Rightarrow> observe_authenticate cr chunk h
      | Response code args \<Rightarrow>
          (if code = 903
           then
             (case sh_phase h of
                SpWaiting \<Rightarrow>
                  (Inr (noted (lit ''SASL: authentication succeeded (903).'') out_default),
                   h\<lparr>sh_phase := SpComplete\<rparr>)
              | SpIdle \<Rightarrow> (Inr out_default, h)
              | SpComplete \<Rightarrow> (Inr out_default, h)
              | _ \<Rightarrow> (Inl (lit ''The server reported SASL success while '' @ sasl_stage h @ lit ''.''), h))
           else if code = 908 \<and> sh_phase h \<noteq> SpIdle
           then (Inr (noted (lit ''SASL: the server lists mechanisms (908): ''
                   @ safe_text (if 1 < length args then args ! 1 else []) @ lit ''.'') out_default), h)
           else if code \<in> set sasl_failures
           then
             (Inl (if sh_mechanism h = SaslEcdsa then SASL_KEY_REFUSED else SASL_FAILED),
              h\<lparr>sh_failure_notes := sh_failure_notes h @
                  [lit ''SASL: the server refused '' @ mechanism_name (sh_mechanism h) @ lit '' with '' @ decimal code
                     @ lit '' while '' @ sasl_stage h @ lit '' (reason: ''
                     @ safe_text (if args = [] then [] else last args) @ lit '').'']\<rparr>)
           else (Inr out_default, h))
      | _ \<Rightarrow> (Inr out_default, h))"

definition take_failure_notes :: "sasl_handshake \<Rightarrow> rstring list \<times> sasl_handshake" where
  "take_failure_notes h = (sh_failure_notes h, h\<lparr>sh_failure_notes := []\<rparr>)"

definition sasl_derived ::
  "crypto \<Rightarrow> derived \<Rightarrow> sasl_handshake \<Rightarrow> (rstring + sasl_out) \<times> sasl_handshake" where
  "sasl_derived cr d h =
     (case sh_scram h of
        None \<Rightarrow> (Inl (lit ''Unexpected SASL state.''), h)
      | Some sc \<Rightarrow>
          (if sh_phase h \<noteq> SpDeriving then (Inl (lit ''Unexpected SCRAM derivation result.''), h)
           else
             (case scram_derived cr d sc of
                (response, sc) \<Rightarrow>
                  (Inr (sending (authenticate_lines cr (as_bytes response))
                     (noted (lit ''SASL SCRAM: client proof computed; sending client-final (''
                        @ decimal (blen response) @ lit '' bytes).'') out_default)),
                   h\<lparr>sh_scram := Some sc, sh_phase := SpScramFinal\<rparr>))))"

end
