(* ===== verification/Capabilities.thy ===== *)
theory Capabilities
  imports Sasl
begin

text \<open>
  \<open>crates/irc-core/src/cap.rs\<close>: the negotiation of IRCv3 capabilities on one connection, with the SASL
  handshake inside. Each step returns what to send and to note; \<open>Err\<close> is \<open>Inl\<close>, after which the worker gives
  the connection up. The set of enabled capabilities is a list without duplicates.
\<close>

section \<open>Names and options\<close>

definition SASL :: rstring where "SASL = lit ''sasl''"
definition MESSAGE_TAGS :: rstring where "MESSAGE_TAGS = lit ''message-tags''"
definition SERVER_TIME :: rstring where "SERVER_TIME = lit ''server-time''"
definition CAP_BATCH :: rstring where "CAP_BATCH = lit ''batch''"
definition ECHO_MESSAGE :: rstring where "ECHO_MESSAGE = lit ''echo-message''"
definition LABELED_RESPONSE :: rstring where "LABELED_RESPONSE = lit ''labeled-response''"
definition ACCOUNT_NOTIFY :: rstring where "ACCOUNT_NOTIFY = lit ''account-notify''"
definition EXTENDED_JOIN :: rstring where "EXTENDED_JOIN = lit ''extended-join''"
definition ACCOUNT_TAG :: rstring where "ACCOUNT_TAG = lit ''account-tag''"
definition SETNAME :: rstring where "SETNAME = lit ''setname''"
definition METADATA :: rstring where "METADATA = lit ''draft/metadata-2''"
definition CHATHISTORY :: rstring where "CHATHISTORY = lit ''draft/chathistory''"
definition MAX_OFFERED :: nat where "MAX_OFFERED = 256"
definition MAX_CAP_VALUE_BYTES :: nat where "MAX_CAP_VALUE_BYTES = 512"

lemmas cap_names = SASL_def MESSAGE_TAGS_def SERVER_TIME_def CAP_BATCH_def ECHO_MESSAGE_def LABELED_RESPONSE_def
  ACCOUNT_NOTIFY_def EXTENDED_JOIN_def ACCOUNT_TAG_def SETNAME_def METADATA_def CHATHISTORY_def

record ircv3_options =
  io_message_tags :: bool
  io_server_time :: bool
  io_batch :: bool
  io_metadata :: bool
  io_peer_avatars :: bool
  io_chathistory :: bool
  io_confirmed_sending :: bool
  io_accounts :: bool

section \<open>State\<close>

datatype cap_phase = CpInactive | CpListing | CpRequesting | CpEnded

record cap_step =
  cs_send :: "command list"
  cs_notes :: "rstring list"
  cs_derive :: "job option"

definition step_default :: cap_step where
  "step_default = \<lparr>cs_send = [], cs_notes = [], cs_derive = None\<rparr>"

definition step_send :: "command \<Rightarrow> cap_step \<Rightarrow> cap_step" where
  "step_send c st = st\<lparr>cs_send := cs_send st @ [c]\<rparr>"

definition step_note :: "rstring \<Rightarrow> cap_step \<Rightarrow> cap_step" where
  "step_note n st = st\<lparr>cs_notes := cs_notes st @ [n]\<rparr>"

definition step_take :: "sasl_out \<Rightarrow> cap_step \<Rightarrow> cap_step" where
  "step_take out st =
     \<lparr>cs_send = cs_send st @ ou_send out, cs_notes = cs_notes st @ ou_notes out,
      cs_derive = (case ou_derive out of Some j \<Rightarrow> Some j | None \<Rightarrow> cs_derive st)\<rparr>"

record cap_negotiation =
  cn_phase :: cap_phase
  cn_optional :: "rstring list"
  cn_explicit :: "rstring list"
  cn_sasl :: "sasl_handshake option"
  cn_offered :: "(rstring \<times> rstring option) list"
  cn_enabled :: "rstring list"
  cn_pending :: "rstring list"
  cn_ack_lines :: "rstring list"

definition wanted :: "bool \<Rightarrow> rstring \<Rightarrow> rstring list" where
  "wanted b name = (if b then [name] else [])"

text \<open>The capabilities a set of options asks for, in the order they are requested.\<close>

definition optional_of :: "ircv3_options \<Rightarrow> bool \<Rightarrow> rstring list" where
  "optional_of o' utf8' =
     wanted ((io_message_tags o' \<or> io_chathistory o' \<or> io_confirmed_sending o') \<and> utf8') MESSAGE_TAGS
     @ wanted (io_server_time o' \<or> io_chathistory o' \<or> io_confirmed_sending o') SERVER_TIME
     @ wanted (io_batch o' \<or> io_metadata o' \<or> io_chathistory o' \<or> (io_confirmed_sending o' \<and> utf8')) CAP_BATCH
     @ wanted (io_metadata o') METADATA
     @ wanted (io_confirmed_sending o') ECHO_MESSAGE
     @ wanted (io_confirmed_sending o' \<and> utf8') LABELED_RESPONSE
     @ wanted (io_accounts o') ACCOUNT_NOTIFY @ wanted (io_accounts o') EXTENDED_JOIN
     @ wanted (io_chathistory o') CHATHISTORY"

definition explicit_of :: "ircv3_options \<Rightarrow> bool \<Rightarrow> rstring list" where
  "explicit_of o' utf8' =
     wanted (io_message_tags o' \<and> utf8') MESSAGE_TAGS @ wanted (io_server_time o') SERVER_TIME
     @ wanted (io_batch o') CAP_BATCH @ wanted (io_metadata o') METADATA
     @ wanted (io_confirmed_sending o') ECHO_MESSAGE
     @ wanted (io_confirmed_sending o' \<and> utf8') LABELED_RESPONSE
     @ wanted (io_accounts o') ACCOUNT_NOTIFY @ wanted (io_accounts o') EXTENDED_JOIN
     @ wanted (io_chathistory o') CHATHISTORY"

definition cap_new :: "ircv3_options \<Rightarrow> sasl_credentials option \<Rightarrow> bool \<Rightarrow> cap_negotiation" where
  "cap_new o' sasl utf8' =
     (let optional = optional_of o' utf8';
          more' = (if sasl \<noteq> None \<or> optional \<noteq> [] then wanted utf8' ACCOUNT_TAG @ [SETNAME] else [])
      in \<lparr>cn_phase = CpInactive, cn_optional = optional @ more', cn_explicit = explicit_of o' utf8' @ more',
          cn_sasl = map_option sasl_new sasl, cn_offered = [], cn_enabled = [], cn_pending = [],
          cn_ack_lines = []\<rparr>)"

section \<open>Replies\<close>

definition cap_end :: command where "cap_end = CAP None CapEND None None"

definition cap_request :: "rstring \<Rightarrow> command" where
  "cap_request name = CAP None CapREQ None (Some name)"

definition cap_start :: "cap_negotiation \<Rightarrow> command \<times> cap_negotiation" where
  "cap_start n =
     (if cn_sasl n \<noteq> None \<or> cn_optional n \<noteq> []
      then (CAP None CapLS (Some (lit ''302'')) None, n\<lparr>cn_phase := CpListing\<rparr>)
      else (cap_end, n))"

definition cap_negotiating :: "cap_negotiation \<Rightarrow> bool" where
  "cap_negotiating n \<longleftrightarrow> cn_phase n = CpListing \<or> cn_phase n = CpRequesting"

definition cap_enabled :: "rstring \<Rightarrow> cap_negotiation \<Rightarrow> bool" where
  "cap_enabled name n \<longleftrightarrow> name \<in> set (cn_enabled n)"

definition cap_registered :: "cap_negotiation \<Rightarrow> (rstring + unit) \<times> cap_negotiation" where
  "cap_registered n =
     (if (case cn_sasl n of None \<Rightarrow> False | Some h \<Rightarrow> \<not> sasl_complete h)
      then (Inl (lit ''SASL authentication did not complete before registration.''), n)
      else (Inr (), n\<lparr>cn_sasl := None, cn_phase := (if cn_phase n \<noteq> CpInactive then CpEnded else CpInactive)\<rparr>))"

text \<open>A reply as subcommand, whether more lines follow, and the list of capabilities.\<close>

definition cap_reply :: "command \<Rightarrow> (rstring \<times> bool \<times> rstring) option" where
  "cap_reply c =
     (case c of
        CAP first sub third fourth \<Rightarrow>
          (let args = (case first of None \<Rightarrow> [] | Some a \<Rightarrow> [a]) @ [cap_sub_str sub]
                 @ (case third of None \<Rightarrow> [] | Some a \<Rightarrow> [a]) @ (case fourth of None \<Rightarrow> [] | Some a \<Rightarrow> [a])
           in case args of
                [_, sub] \<Rightarrow> Some (map to_ascii_uppercase sub, False, [])
              | [_, sub, list'] \<Rightarrow> Some (map to_ascii_uppercase sub, False, list')
              | [_, sub, star, list'] \<Rightarrow>
                  (if star = lit ''*'' then Some (map to_ascii_uppercase sub, True, list') else None)
              | _ \<Rightarrow> None)
      | _ \<Rightarrow> None)"

section \<open>Requests\<close>

text \<open>Extensions whose replies only make sense inside batches, and those that make another one wanted.\<close>

definition needs_batch :: "rstring \<Rightarrow> bool" where
  "needs_batch name \<longleftrightarrow> name = METADATA \<or> name = CHATHISTORY \<or> name = LABELED_RESPONSE"

definition dependents :: "rstring \<Rightarrow> rstring list" where
  "dependents name =
     (if name = CAP_BATCH then [METADATA, CHATHISTORY, LABELED_RESPONSE]
      else if name = MESSAGE_TAGS then [CHATHISTORY, ECHO_MESSAGE, LABELED_RESPONSE]
      else if name = SERVER_TIME then [CHATHISTORY, ECHO_MESSAGE]
      else [])"

definition is_offered :: "rstring \<Rightarrow> cap_negotiation \<Rightarrow> bool" where
  "is_offered name n \<longleftrightarrow> map_of (cn_offered n) name \<noteq> None"

definition may_request :: "rstring \<Rightarrow> cap_negotiation \<Rightarrow> bool" where
  "may_request name n \<longleftrightarrow>
     is_offered name n \<and> \<not> cap_enabled name n \<and> name \<notin> set (cn_pending n)
     \<and> (\<not> needs_batch name \<or> cap_enabled CAP_BATCH n)
     \<and> (name \<noteq> LABELED_RESPONSE \<or> cap_enabled MESSAGE_TAGS n)
     \<and> (name \<in> set (cn_explicit n)
        \<or> list_ex (\<lambda>d. d \<in> set (cn_optional n) \<and> is_offered d n) (dependents name))"

definition request_one :: "rstring \<Rightarrow> cap_step \<times> cap_negotiation \<Rightarrow> cap_step \<times> cap_negotiation" where
  "request_one name = (\<lambda>(st, n).
     (if may_request name n
      then (step_send (cap_request name) st, n\<lparr>cn_pending := cn_pending n @ [name]\<rparr>)
      else (st, n)))"

definition request_optional :: "cap_step \<Rightarrow> cap_negotiation \<Rightarrow> cap_step \<times> cap_negotiation" where
  "request_optional st n = fold request_one (cn_optional n) (st, n)"

definition remember_offer :: "rstring \<Rightarrow> cap_negotiation \<Rightarrow> cap_negotiation" where
  "remember_offer token n =
     (let (name, value) = (case split_once 0x3D token of
                             Some (name, value) \<Rightarrow> (name, Some value) | None \<Rightarrow> (token, None));
          wanted = (name = SASL \<or> name \<in> set (cn_optional n))
      in if name = [] \<or> (\<not> wanted \<and> \<not> is_offered name n \<and> MAX_OFFERED \<le> length (cn_offered n)) then n
         else
           n\<lparr>cn_offered := AList.update name
               (case value of
                  Some v \<Rightarrow> (if blen v \<le> MAX_CAP_VALUE_BYTES then Some v else if name = SASL then Some [] else None)
                | None \<Rightarrow> None) (cn_offered n)\<rparr>)"

definition remember_offers :: "rstring \<Rightarrow> cap_negotiation \<Rightarrow> cap_negotiation" where
  "remember_offers list' n = fold remember_offer (split_whitespace list') n"

definition request_after_listing ::
  "cap_step \<Rightarrow> cap_negotiation \<Rightarrow> (rstring + cap_step) \<times> cap_negotiation" where
  "request_after_listing st n =
     (let n = n\<lparr>cn_phase := CpRequesting\<rparr> in
      case cn_sasl n of
        None \<Rightarrow> apfst Inr (request_optional st n)
      | Some h \<Rightarrow>
          (let name = mechanism_name (sh_mechanism h);
               offered = (case map_of (cn_offered n) SASL of
                            None \<Rightarrow> False
                          | Some None \<Rightarrow> True
                          | Some (Some mechanisms) \<Rightarrow>
                              list_ex (\<lambda>m. eq_ignore_ascii_case m name) (split_by (\<lambda>c. c = 0x2C) mechanisms))
           in if \<not> offered then (Inl (lit ''Server does not offer SASL '' @ name @ lit ''.''), n)
              else apfst Inr (request_optional
                (step_send (cap_request SASL) (step_note (lit ''SASL '' @ name @ lit '' is offered; requesting sasl.'') st))
                (n\<lparr>cn_pending := cn_pending n @ [SASL]\<rparr>))))"

section \<open>Answers\<close>

definition append_ack_token :: "rstring \<Rightarrow> cap_negotiation \<Rightarrow> cap_negotiation" where
  "append_ack_token token n =
     (let relevant = (case strip_prefix (lit ''-'') token of
                        Some name \<Rightarrow> cap_enabled name n | None \<Rightarrow> token \<in> set (cn_pending n))
      in if relevant \<and> token \<notin> set (cn_ack_lines n) then n\<lparr>cn_ack_lines := cn_ack_lines n @ [token]\<rparr> else n)"

definition append_ack :: "rstring \<Rightarrow> cap_negotiation \<Rightarrow> cap_negotiation" where
  "append_ack list' n = fold append_ack_token (split_whitespace list') n"

text \<open>\<open>HashSet::insert\<close>.\<close>

definition enable :: "rstring \<Rightarrow> cap_negotiation \<Rightarrow> cap_negotiation" where
  "enable name n = (if cap_enabled name n then n else n\<lparr>cn_enabled := cn_enabled n @ [name]\<rparr>)"

definition acknowledge_one ::
  "crypto \<Rightarrow> byte list option \<Rightarrow> rstring \<Rightarrow> cap_step \<Rightarrow> cap_negotiation \<Rightarrow> (rstring + cap_step) \<times> cap_negotiation"
  where
  "acknowledge_one cr raw token st n =
     (case strip_prefix (lit ''-'') token of
        Some name \<Rightarrow> (Inr st, n\<lparr>cn_enabled := removeAll name (cn_enabled n)\<rparr>)
      | None \<Rightarrow>
          (if token \<notin> set (cn_pending n) then (Inr st, n)
           else
             (let n = enable token (n\<lparr>cn_pending := remove1 token (cn_pending n)\<rparr>) in
              if token = SASL
              then
                (let st = step_note (lit ''Capability sasl enabled.'') st in
                 case cn_sasl n of
                   None \<Rightarrow> (Inr st, n)
                 | Some h \<Rightarrow>
                     (case sasl_begin cr raw h of
                        (Inl error, h) \<Rightarrow> (Inl error, n\<lparr>cn_sasl := Some h\<rparr>)
                      | (Inr out, h) \<Rightarrow> (Inr (step_take out st), n\<lparr>cn_sasl := Some h\<rparr>)))
              else
                (let st = step_note (lit ''Capability '' @ token @ lit '' enabled.'') st
                 in apfst Inr (if token = CAP_BATCH \<or> token = MESSAGE_TAGS then request_optional st n else (st, n))))))"

fun acknowledge ::
  "crypto \<Rightarrow> byte list option \<Rightarrow> rstring list \<Rightarrow> cap_step \<Rightarrow> cap_negotiation \<Rightarrow> (rstring + cap_step) \<times> cap_negotiation"
  where
  "acknowledge cr raw [] st n = (Inr st, n)"
| "acknowledge cr raw (token # tokens) st n =
     (case acknowledge_one cr raw token st n of
        (Inl error, n) \<Rightarrow> (Inl error, n)
      | (Inr st, n) \<Rightarrow> acknowledge cr raw tokens st n)"

fun decline :: "rstring list \<Rightarrow> cap_step \<Rightarrow> cap_negotiation \<Rightarrow> (rstring + cap_step) \<times> cap_negotiation" where
  "decline [] st n = (Inr st, n)"
| "decline (name # names) st n =
     (if name \<notin> set (cn_pending n) then decline names st n
      else
        (let n = n\<lparr>cn_pending := remove1 name (cn_pending n)\<rparr> in
         if name = SASL then (Inl (lit ''Server rejected SASL capability.''), n)
         else decline names
           (step_note (lit ''Server declined optional capability '' @ name @ lit ''; continuing without it.'') st) n))"

definition withdraw_one :: "rstring \<Rightarrow> cap_step \<times> cap_negotiation \<Rightarrow> cap_step \<times> cap_negotiation" where
  "withdraw_one name = (\<lambda>(st, n).
     (let was = cap_enabled name n;
          n = n\<lparr>cn_offered := AList.delete name (cn_offered n), cn_pending := removeAll name (cn_pending n),
                cn_enabled := removeAll name (cn_enabled n)\<rparr>
      in (if was then step_note (lit ''Server withdrew capability '' @ name @ lit ''.'') st else st, n)))"

definition enforce_one :: "rstring \<Rightarrow> cap_step \<times> cap_negotiation \<Rightarrow> cap_step \<times> cap_negotiation" where
  "enforce_one name = (\<lambda>(st, n).
     (let gone = (cap_enabled name n \<or> name \<in> set (cn_pending n));
          n = n\<lparr>cn_enabled := removeAll name (cn_enabled n)\<rparr>
      in if gone
         then (step_note (lit ''Capability '' @ CAP_BATCH @ lit '' is gone; disabling '' @ name @ lit '', which requires it.'')
                 (step_send (cap_request (lit ''-'' @ name)) st),
               n\<lparr>cn_pending := removeAll name (cn_pending n)\<rparr>)
         else (st, n)))"

definition enforce_dependencies :: "cap_step \<Rightarrow> cap_negotiation \<Rightarrow> cap_step \<times> cap_negotiation" where
  "enforce_dependencies st n =
     (if cap_enabled CAP_BATCH n then (st, n)
      else fold enforce_one [METADATA, CHATHISTORY, LABELED_RESPONSE] (st, n))"

definition sasl_done :: "cap_negotiation \<Rightarrow> bool" where
  "sasl_done n \<longleftrightarrow> (case cn_sasl n of None \<Rightarrow> True | Some h \<Rightarrow> sasl_complete h)"

definition end_if_settled :: "cap_step \<Rightarrow> cap_negotiation \<Rightarrow> cap_step \<times> cap_negotiation" where
  "end_if_settled st n =
     (if cn_phase n = CpRequesting \<and> cn_pending n = [] \<and> sasl_done n
      then (step_send cap_end st, n\<lparr>cn_phase := CpEnded\<rparr>)
      else (st, n))"

section \<open>Observing\<close>

definition observe_cap ::
  "crypto \<Rightarrow> byte list option \<Rightarrow> rstring \<Rightarrow> bool \<Rightarrow> rstring \<Rightarrow> cap_negotiation \<Rightarrow> (rstring + cap_step) \<times> cap_negotiation"
  where
  "observe_cap cr raw sub continued list' n =
     (let st = step_default in
      if sub = lit ''LS'' \<and> cn_phase n = CpListing
      then (let n = remember_offers list' n in if continued then (Inr st, n) else request_after_listing st n)
      else if sub = lit ''ACK''
      then
        (let n = append_ack list' n
         in if continued then (Inr st, n) else acknowledge cr raw (cn_ack_lines n) st (n\<lparr>cn_ack_lines := []\<rparr>))
      else if sub = lit ''NAK'' then decline (split_whitespace list') st n
      else if sub = lit ''NEW''
      then
        (let n = remember_offers list' n
         in if cn_phase n \<noteq> CpListing then apfst Inr (request_optional st n) else (Inr st, n))
      else if sub = lit ''DEL'' then apfst Inr (fold withdraw_one (split_whitespace list') (st, n))
      else (Inr st, n))"

text \<open>A reply about capabilities, or a line for the handshake.\<close>

definition cap_dispatch ::
  "crypto \<Rightarrow> byte list option \<Rightarrow> message \<Rightarrow> cap_negotiation \<Rightarrow> (rstring + cap_step) \<times> cap_negotiation" where
  "cap_dispatch cr raw m n =
     (case cap_reply (m_command m) of
        Some (sub, continued, list') \<Rightarrow> observe_cap cr raw sub continued list' n
      | None \<Rightarrow>
          (case cn_sasl n of
             None \<Rightarrow> (Inr step_default, n)
           | Some h \<Rightarrow>
               (case sasl_observe cr m h of
                  (Inl error, h) \<Rightarrow> (Inl error, n\<lparr>cn_sasl := Some h\<rparr>)
                | (Inr out, h) \<Rightarrow> (Inr (step_take out step_default), n\<lparr>cn_sasl := Some h\<rparr>))))"

definition cap_observe ::
  "crypto \<Rightarrow> byte list option \<Rightarrow> message \<Rightarrow> cap_negotiation \<Rightarrow> (rstring + cap_step) \<times> cap_negotiation" where
  "cap_observe cr raw m n =
     (if cn_phase n = CpInactive then (Inr step_default, n)
      else
        (case cap_dispatch cr raw m n of
           (Inl error, n) \<Rightarrow> (Inl error, n)
         | (Inr st, n) \<Rightarrow>
             (case enforce_dependencies st n of (st, n) \<Rightarrow> apfst Inr (end_if_settled st n))))"

definition cap_derived :: "crypto \<Rightarrow> derived \<Rightarrow> cap_negotiation \<Rightarrow> (rstring + cap_step) \<times> cap_negotiation" where
  "cap_derived cr d n =
     (case cn_sasl n of
        None \<Rightarrow> (Inl (lit ''Unexpected SCRAM result.''), n)
      | Some h \<Rightarrow>
          (case sasl_derived cr d h of
             (Inl error, h) \<Rightarrow> (Inl error, n\<lparr>cn_sasl := Some h\<rparr>)
           | (Inr out, h) \<Rightarrow> (Inr (step_take out step_default), n\<lparr>cn_sasl := Some h\<rparr>)))"

definition take_sasl_failure_notes :: "cap_negotiation \<Rightarrow> rstring list \<times> cap_negotiation" where
  "take_sasl_failure_notes n =
     (case cn_sasl n of
        None \<Rightarrow> ([], n)
      | Some h \<Rightarrow> (case take_failure_notes h of (notes, h) \<Rightarrow> (notes, n\<lparr>cn_sasl := Some h\<rparr>)))"

definition sasl_stage_of :: "cap_negotiation \<Rightarrow> rstring option" where
  "sasl_stage_of n =
     map_option (\<lambda>h. mechanism_name (sh_mechanism h) @ lit '', '' @ sasl_stage h) (cn_sasl n)"

end
