(* ===== verification/SaslRuns.thy ===== *)
theory SaslRuns
  imports Sasl Contracts
begin

text \<open>
  What holds of a SASL exchange: a SCRAM exchange completes only when the server proved that it knows the
  password, no line before the derivation tells anything of it, what is sent in lines is read back, and
  an honest server is accepted.
\<close>

section \<open>Runs\<close>

datatype sasl_op = SoObserve message | SoDerived derived

fun sasl_step :: "crypto \<Rightarrow> sasl_op \<Rightarrow> sasl_handshake \<Rightarrow> (rstring + sasl_out) \<times> sasl_handshake" where
  "sasl_step cr (SoObserve m) h = sasl_observe cr m h"
| "sasl_step cr (SoDerived d) h = sasl_derived cr d h"

definition sasl_run :: "crypto \<Rightarrow> sasl_op list \<Rightarrow> sasl_handshake \<Rightarrow> sasl_handshake" where
  "sasl_run cr ops h = fold (\<lambda>op h. snd (sasl_step cr op h)) ops h"

lemma sasl_run_simps [simp]:
  "sasl_run cr [] h = h" "sasl_run cr (ops @ [op]) h = snd (sasl_step cr op (sasl_run cr ops h))"
  by (simp_all add: sasl_run_def)

section \<open>Frames\<close>

lemma receive_frame: "\<exists>i. snd (sasl_receive cr chunk h) = h\<lparr>sh_incoming := i\<rparr>"
proof -
  have "\<exists>i. h = h\<lparr>sh_incoming := i\<rparr>" by (rule exI [of _ "sh_incoming h"]) simp
  then show ?thesis by (auto simp: sasl_receive_def finish_incoming_def Let_def)
qed

text \<open>What one server message does: nothing to the phase, or one of the steps of the exchange.\<close>

lemma authenticate_cases:
  obtains (kept) i n where "snd (observe_authenticate cr chunk h) = h\<lparr>sh_incoming := i, sh_failure_notes := n\<rparr>"
  | (failed) i n sc sc' payload where
      "snd (observe_authenticate cr chunk h) = h\<lparr>sh_incoming := i, sh_failure_notes := n, sh_scram := Some sc'\<rparr>"
      "sh_scram h = Some sc"
      "(\<exists>e. server_first cr payload sc = (Inl e, sc')) \<or> (\<exists>e. server_final cr payload sc = (Some e, sc'))"
  | (handled) i payload out h' where "fst (sasl_receive cr chunk h) = Inr (Some payload)"
      "sasl_handle cr payload out_default (h\<lparr>sh_incoming := i\<rparr>) = (None, out, h')"
      "observe_authenticate cr chunk h = (Inr out, h')"
proof -
  obtain r h1 where r: "sasl_receive cr chunk h = (r, h1)" by (rule prod.exhaust)
  then obtain i where h1: "h1 = h\<lparr>sh_incoming := i\<rparr>" using receive_frame [of cr chunk h] by auto
  show ?thesis
  proof (cases r)
    case (Inl e)
    have "snd (observe_authenticate cr chunk h) = h1\<lparr>sh_failure_notes := sh_failure_notes (snd (client_error (sasl_stage h) e h1))\<rparr>"
      using r Inl by (simp add: observe_authenticate_def client_error_def)
    then show ?thesis using kept h1 by simp
  next
    case (Inr p)
    show ?thesis
    proof (cases p)
      case None
      then have "snd (observe_authenticate cr chunk h) = h1\<lparr>sh_failure_notes := sh_failure_notes h1\<rparr>"
        using r Inr None by (simp add: observe_authenticate_def)
      then show ?thesis using kept [where i = i and n = "sh_failure_notes h"] h1 by simp
    next
      case (Some payload)
      obtain e out h2 where e: "sasl_handle cr payload out_default h1 = (e, out, h2)" by (rule prod_cases3)
      show ?thesis
      proof (cases e)
        case None
        then have "observe_authenticate cr chunk h = (Inr out, h2)"
          using r Inr Some e by (simp add: observe_authenticate_def)
        then show ?thesis using handled r Inr Some e None h1 by simp
      next
        case error: (Some e')
        have "\<exists>n. snd (observe_authenticate cr chunk h) = h2\<lparr>sh_failure_notes := n\<rparr>"
          using r Inr Some e error by (auto simp: observe_authenticate_def client_error_def Let_def)
        then obtain n where n: "snd (observe_authenticate cr chunk h) = h2\<lparr>sh_failure_notes := n\<rparr>" by blast
        have "h2 = h1 \<or> (\<exists>sc sc'. sh_scram h = Some sc \<and> h2 = h1\<lparr>sh_scram := Some sc'\<rparr>
            \<and> ((\<exists>e. server_first cr payload sc = (Inl e, sc')) \<or> (\<exists>e. server_final cr payload sc = (Some e, sc'))))"
          using e error h1
          by (cases "sh_phase h")
            (auto simp: sasl_handle_def handle_starting_def handle_challenge_def handle_scram_first_def
              handle_scram_final_def initial_response_def Let_def split: if_splits option.splits prod.splits sum.splits)
        then show ?thesis
        proof (elim disjE exE conjE)
          assume "h2 = h1"
          then show ?thesis using kept n h1 by simp
        next
          fix sc sc' f assume "sh_scram h = Some sc" "h2 = h1\<lparr>sh_scram := Some sc'\<rparr>" "server_first cr payload sc = (Inl f, sc')"
          then show ?thesis using failed [where i = i and n = n and sc = sc and sc' = sc' and payload = payload] n h1 by simp
        next
          fix sc sc' f assume "sh_scram h = Some sc" "h2 = h1\<lparr>sh_scram := Some sc'\<rparr>" "server_final cr payload sc = (Some f, sc')"
          then show ?thesis using failed [where i = i and n = n and sc = sc and sc' = sc' and payload = payload] n h1 by simp
        qed
      qed
    qed
  qed
qed


section \<open>Mutual authentication\<close>

text \<open>A message whose payload carries the signature that was derived: the server knows the password.\<close>

definition server_proof :: "crypto \<Rightarrow> message \<Rightarrow> sasl_handshake \<Rightarrow> byte list \<Rightarrow> bool" where
  "server_proof cr m h signature \<longleftrightarrow>
     (case m_command m of
        AUTHENTICATE chunk \<Rightarrow>
          (case fst (sasl_receive cr chunk h) of
             Inr (Some payload) \<Rightarrow>
               (case from_utf8 payload of
                  None \<Rightarrow> False
                | Some reply \<Rightarrow>
                    Option.bind (strip_prefix (lit ''v='') (hd (split_by (\<lambda>c. c = 0x2C) reply))) (cr_decode cr)
                      = Some signature)
           | _ \<Rightarrow> False)
      | _ \<Rightarrow> False)"

definition proved :: "crypto \<Rightarrow> sasl_op list \<Rightarrow> sasl_handshake \<Rightarrow> bool" where
  "proved cr ops h \<longleftrightarrow>
     (\<exists>pre m post d. ops = pre @ SoObserve m # post \<and> SoDerived d \<in> set pre
        \<and> server_proof cr m (sasl_run cr pre h) (de_server_signature d))"

lemma proved_append: "proved cr ops h \<Longrightarrow> proved cr (ops @ ops') h"
  unfolding proved_def by (metis append.assoc append_Cons)

text \<open>A handshake of SCRAM on the way: its scram is there, its signature is that of a derivation the client
  was given, and it waits for the result only when the server has proved itself.\<close>

definition scram_way :: "derived set \<Rightarrow> bool \<Rightarrow> sasl_handshake \<Rightarrow> bool" where
  "scram_way given known h \<longleftrightarrow>
     mechanism_hash (sh_mechanism h) \<noteq> None
     \<and> (sh_phase h = SpStarting \<longrightarrow> sh_scram h \<noteq> None)
     \<and> (case sh_scram h of
          None \<Rightarrow> True
        | Some sc \<Rightarrow> sc_phase sc = ScFinal \<longrightarrow> (\<exists>d \<in> given. sc_server_signature sc = de_server_signature d))
     \<and> (sh_phase h \<in> {SpWaiting, SpComplete} \<longrightarrow> known)
     \<and> sh_phase h \<notin> {SpIdle, SpEcdsaChallenge}"

text \<open>What a step adds to what was given, and whether it proves the server.\<close>

definition newly_given :: "sasl_op \<Rightarrow> derived set" where
  "newly_given op = (case op of SoDerived d \<Rightarrow> {d} | _ \<Rightarrow> {})"

definition proves :: "crypto \<Rightarrow> derived set \<Rightarrow> sasl_handshake \<Rightarrow> sasl_op \<Rightarrow> bool" where
  "proves cr given h op \<longleftrightarrow>
     (case op of SoObserve m \<Rightarrow> (\<exists>d \<in> given. server_proof cr m h (de_server_signature d)) | _ \<Rightarrow> False)"

lemma scram_way_mono: "scram_way given known h \<Longrightarrow> given \<subseteq> given' \<Longrightarrow> (known \<longrightarrow> known') \<Longrightarrow> scram_way given' known' h"
  by (auto simp: scram_way_def split: option.splits)

lemma server_first_frame:
  assumes "server_first cr payload sc = (r, sc')"
  shows "sc_phase sc' = sc_phase sc" "sc_server_signature sc' = sc_server_signature sc"
  using assms
  by (auto simp: server_first_def Let_def split: option.splits sum.splits prod.splits if_splits)

lemma server_final_frame: "server_final cr payload sc = (Some e, sc') \<Longrightarrow> sc' = sc"
  by (auto simp: server_final_def Let_def split: option.splits if_splits)

lemma server_final_signature:
  assumes "server_final cr payload sc = (None, sc')"
  shows "sc_phase sc = ScFinal" "\<exists>reply. from_utf8 payload = Some reply
    \<and> Option.bind (strip_prefix (lit ''v='') (hd (split_by (\<lambda>c. c = 0x2C) reply))) (cr_decode cr)
      = Some (sc_server_signature sc)"
  using assms
  by (auto simp: server_final_def Let_def constant_time_eq_iff split: option.splits if_splits)

lemma scram_way_kept:
  assumes "scram_way given known h" "sh_mechanism h' = sh_mechanism h" "sh_phase h' = sh_phase h"
    "sh_scram h' = sh_scram h"
  shows "scram_way given known h'"
  using assms by (simp add: scram_way_def)

lemma scram_way_authenticate:
  assumes inv: "scram_way given known h" and m: "m_command m = AUTHENTICATE chunk"
  shows "scram_way given (known \<or> proves cr given h (SoObserve m)) (snd (observe_authenticate cr chunk h))"
proof (cases rule: authenticate_cases [of cr chunk h])
  case (kept i n)
  then have "scram_way given known (snd (observe_authenticate cr chunk h))"
    by (intro scram_way_kept [OF inv]) simp_all
  then show ?thesis by (rule scram_way_mono) simp_all
next
  case (failed i n sc sc' payload)
  then have "sc_phase sc' = sc_phase sc" "sc_server_signature sc' = sc_server_signature sc"
    using server_first_frame server_final_frame by metis+
  then show ?thesis using failed inv by (auto simp: scram_way_def)
next
  case (handled i payload out h')
  show ?thesis
  proof (cases "sh_phase h")
    case SpStarting
    then obtain sc where sc: "sh_scram h = Some sc" using inv by (auto simp: scram_way_def)
    then have "h' = h\<lparr>sh_incoming := i, sh_phase := SpScramFirst, sh_password := []\<rparr>"
      using handled(2) SpStarting by (auto simp: sasl_handle_def handle_starting_def initial_response_def split: if_splits)
    then show ?thesis using inv handled(3) SpStarting sc by (auto simp: scram_way_def)
  next
    case SpScramFirst
    then obtain sc job sc' where "sh_scram h = Some sc" "server_first cr payload sc = (Inr job, sc')"
      "h' = h\<lparr>sh_incoming := i, sh_scram := Some sc', sh_phase := SpDeriving\<rparr>"
      using handled(2) by (auto simp: sasl_handle_def handle_scram_first_def split: option.splits prod.splits sum.splits)
    then show ?thesis using inv handled(3) server_first_frame [of cr payload sc] by (auto simp: scram_way_def)
  next
    case SpScramFinal
    then obtain sc sc' where sc: "sh_scram h = Some sc" "server_final cr payload sc = (None, sc')"
      "h' = h\<lparr>sh_incoming := i, sh_scram := None, sh_phase := SpWaiting\<rparr>"
      using handled(2) by (auto simp: sasl_handle_def handle_scram_final_def split: option.splits prod.splits)
    obtain d where d: "d \<in> given" "sc_server_signature sc = de_server_signature d"
      using inv server_final_signature(1) [OF sc(2)] sc(1) by (auto simp: scram_way_def)
    have "server_proof cr m h (de_server_signature d)"
      using server_final_signature(2) [OF sc(2)] handled(1) m d(2) by (auto simp: server_proof_def)
    then have "proves cr given h (SoObserve m)" using d(1) by (auto simp: proves_def)
    then show ?thesis using inv handled(3) sc by (simp add: scram_way_def)
  qed (use handled(2) inv in \<open>auto simp: sasl_handle_def scram_way_def\<close>)
qed

lemma scram_way_step:
  assumes inv: "scram_way given known h"
  shows "scram_way (given \<union> newly_given op) (known \<or> proves cr given h op) (snd (sasl_step cr op h))"
proof -
  have stays: "scram_way (given \<union> newly_given op) (known \<or> proves cr given h op) h'"
    if "scram_way given known h'" for h'
    using that by (rule scram_way_mono) simp_all
  show ?thesis
  proof (cases op)
    case (SoObserve m)
    show ?thesis
    proof (cases "m_command m")
      case (AUTHENTICATE chunk)
      then show ?thesis
        using scram_way_authenticate [OF inv AUTHENTICATE, of cr] SoObserve
        by (simp add: sasl_observe_def newly_given_def)
    next
      case (Response code args)
      show ?thesis
      proof (cases "code = 903 \<and> sh_phase h = SpWaiting")
        case True
        then have "snd (sasl_step cr op h) = h\<lparr>sh_phase := SpComplete\<rparr>"
          using SoObserve Response by (simp add: sasl_observe_def)
        moreover have "scram_way given known (h\<lparr>sh_phase := SpComplete\<rparr>)"
          using inv True by (auto simp: scram_way_def)
        ultimately show ?thesis using stays by simp
      next
        case False
        then have "\<exists>n. snd (sasl_step cr op h) = h\<lparr>sh_failure_notes := n\<rparr>"
          using SoObserve Response by (auto simp: sasl_observe_def intro: exI [of _ "sh_failure_notes h"] split: sasl_phase.split)
        then obtain n where "snd (sasl_step cr op h) = h\<lparr>sh_failure_notes := n\<rparr>" by blast
        moreover have "scram_way given known (h\<lparr>sh_failure_notes := n\<rparr>)" by (rule scram_way_kept [OF inv]) simp_all
        ultimately show ?thesis using stays by simp
      qed
    qed (use SoObserve stays [OF inv] in \<open>simp_all add: sasl_observe_def\<close>)
  next
    case (SoDerived d)
    show ?thesis
    proof (cases "sh_scram h \<noteq> None \<and> sh_phase h = SpDeriving")
      case True
      then obtain sc where "sh_scram h = Some sc" by blast
      then show ?thesis
        using True SoDerived inv by (auto simp: scram_way_def sasl_derived_def scram_derived_def newly_given_def)
    next
      case False
      then have "snd (sasl_step cr op h) = h" using SoDerived by (auto simp: sasl_derived_def split: option.split)
      then show ?thesis using stays [OF inv] by simp
    qed
  qed
qed

lemma scram_way_begin:
  assumes "mechanism_hash (cd_mechanism c) \<noteq> None"
    "sasl_begin cr raw ((sasl_new c)\<lparr>sh_failure_notes := n\<rparr>) = (Inr out, h)"
  shows "scram_way {} False h"
proof -
  obtain hash where hash: "mechanism_hash (cd_mechanism c) = Some hash" using assms(1) by blast
  then have "cd_mechanism c \<noteq> SaslEcdsa" by (cases "cd_mechanism c") auto
  then obtain sc where "scram_new cr raw hash (cd_username c) (cd_password c) = Inr sc"
    "h = (sasl_new c)\<lparr>sh_failure_notes := n, sh_scram := Some sc, sh_phase := SpStarting\<rparr>"
    using assms(2) hash
    by (cases "scram_new cr raw hash (cd_username c) (cd_password c)")
      (auto simp: sasl_begin_def Let_def sasl_new_def)
  then show ?thesis
    using hash by (auto simp: scram_way_def sasl_new_def scram_new_def Let_def split: option.splits)
qed

text \<open>Along a run: what has been given, and whether the server has proved itself.\<close>

definition scram_inv :: "crypto \<Rightarrow> sasl_handshake \<Rightarrow> sasl_op list \<Rightarrow> sasl_handshake \<Rightarrow> bool" where
  "scram_inv cr start ops h \<longleftrightarrow> scram_way {d. SoDerived d \<in> set ops} (proved cr ops start) h"

lemma scram_inv_step:
  assumes inv: "scram_inv cr start ops h" and h: "h = sasl_run cr ops start"
  shows "scram_inv cr start (ops @ [op]) (snd (sasl_step cr op h))"
  unfolding scram_inv_def
proof (rule scram_way_mono [OF scram_way_step [OF inv [unfolded scram_inv_def], of op cr]])
  show "{d. SoDerived d \<in> set ops} \<union> newly_given op \<subseteq> {d. SoDerived d \<in> set (ops @ [op])}"
    by (auto simp: newly_given_def split: sasl_op.splits)
  have "proved cr (ops @ [op]) start" if "proves cr {d. SoDerived d \<in> set ops} h op"
    using that unfolding proved_def proves_def h by (cases op) auto
  then show "proved cr ops start \<or> proves cr {d. SoDerived d \<in> set ops} h op \<longrightarrow> proved cr (ops @ [op]) start"
    using proved_append by blast
qed

lemma scram_inv_begin:
  assumes "mechanism_hash (cd_mechanism c) \<noteq> None" "sasl_begin cr raw (sasl_new c) = (Inr out, h)"
  shows "scram_inv cr h [] h"
proof -
  have "sasl_new c = (sasl_new c)\<lparr>sh_failure_notes := []\<rparr>" by (simp add: sasl_new_def)
  then have "scram_way {} False h" using scram_way_begin [OF assms(1), of cr raw "[]" out h] assms(2) by simp
  then show ?thesis unfolding scram_inv_def by (rule scram_way_mono) simp_all
qed

lemma scram_inv_run: "scram_inv cr h [] h \<Longrightarrow> scram_inv cr h ops (sasl_run cr ops h)"
proof (induction ops rule: rev_induct)
  case (snoc op ops)
  then show ?case using scram_inv_step [OF snoc.IH [OF snoc.prems] refl] by simp
qed simp

text \<open>C13. A SCRAM exchange completes only when the server proved that it knows the password: whatever the server
  sends, if the handshake is complete, some message carried exactly the server signature of a derivation the
  client had run before. A server that only answers that the login succeeded is never believed.\<close>

theorem scram_server_authenticated:
  assumes "mechanism_hash (cd_mechanism c) \<noteq> None" "sasl_begin cr raw (sasl_new c) = (Inr out, h)"
    and "sasl_complete (sasl_run cr ops h)"
  shows "\<exists>pre m post d. ops = pre @ SoObserve m # post \<and> SoDerived d \<in> set pre
    \<and> server_proof cr m (sasl_run cr pre h) (de_server_signature d)"
  using scram_inv_run [OF scram_inv_begin [OF assms(1,2)], of ops] assms(3)
  by (auto simp: scram_inv_def scram_way_def sasl_complete_def proved_def)


section \<open>The password\<close>

text \<open>A handshake without its password: what anybody else may see of it.\<close>

definition blank_scram :: "scram \<Rightarrow> scram" where
  "blank_scram sc = sc\<lparr>sc_password := map_option (\<lambda>_. []) (sc_password sc)\<rparr>"

definition blank :: "sasl_handshake \<Rightarrow> sasl_handshake" where
  "blank h = h\<lparr>sh_password := [], sh_scram := map_option blank_scram (sh_scram h)\<rparr>"

definition blank_out :: "sasl_out \<Rightarrow> sasl_out" where
  "blank_out out = out\<lparr>ou_derive := map_option (\<lambda>j. j\<lparr>jo_password := []\<rparr>) (ou_derive out)\<rparr>"

lemma blank_fields [simp]:
  "sh_mechanism (blank h) = sh_mechanism h" "sh_phase (blank h) = sh_phase h" "sh_incoming (blank h) = sh_incoming h"
  "sh_failure_notes (blank h) = sh_failure_notes h" "sh_scram (blank h) = map_option blank_scram (sh_scram h)"
  "blank (h\<lparr>sh_incoming := i\<rparr>) = (blank h)\<lparr>sh_incoming := i\<rparr>"
  "blank (h\<lparr>sh_failure_notes := n\<rparr>) = (blank h)\<lparr>sh_failure_notes := n\<rparr>"
  "blank (h\<lparr>sh_phase := p\<rparr>) = (blank h)\<lparr>sh_phase := p\<rparr>"
  "blank (h\<lparr>sh_scram := sc\<rparr>) = (blank h)\<lparr>sh_scram := map_option blank_scram sc\<rparr>"
  "(blank h)\<lparr>sh_password := []\<rparr> = blank h" "(blank h)\<lparr>sh_phase := p, sh_password := []\<rparr> = (blank h)\<lparr>sh_phase := p\<rparr>"
  "blank (h\<lparr>sh_password := p'\<rparr>) = blank h" "sasl_stage (blank h) = sasl_stage h"
  by (simp_all add: blank_def sasl_stage_def)

lemma blank_scram_fields [simp]:
  "sc_phase (blank_scram sc) = sc_phase sc" "sc_nonce (blank_scram sc) = sc_nonce sc"
  "sc_first_bare (blank_scram sc) = sc_first_bare sc" "sc_hash (blank_scram sc) = sc_hash sc"
  "sc_final_without_proof (blank_scram sc) = sc_final_without_proof sc"
  "sc_server_signature (blank_scram sc) = sc_server_signature sc" "sc_iterations (blank_scram sc) = sc_iterations sc"
  "scram_first (blank_scram sc) = scram_first sc"
  by (simp_all add: blank_scram_def scram_first_def)

lemma blank_out_simps [simp]:
  "blank_out out_default = out_default" "blank_out (noted n out) = noted n (blank_out out)"
  "blank_out (sending ls out) = sending ls (blank_out out)" "ou_notes (blank_out out) = ou_notes out"
  "ou_send (blank_out out) = ou_send out"
  by (simp_all add: blank_out_def out_default_def noted_def sending_def)

lemma server_first_blank:
  "server_first cr payload (blank_scram sc) =
     map_prod (map_sum (\<lambda>e. e) (\<lambda>j. j\<lparr>jo_password := []\<rparr>)) blank_scram (server_first cr payload sc)"
  by (auto simp: server_first_def Let_def blank_scram_def split: option.split sum.split)

lemma server_final_blank:
  "server_final cr payload (blank_scram sc) = apsnd blank_scram (server_final cr payload sc)"
  by (simp add: server_final_def Let_def split: option.split) (simp add: blank_scram_def)

lemma scram_derived_blank: "scram_derived cr d (blank_scram sc) = apsnd blank_scram (scram_derived cr d sc)"
  by (simp add: scram_derived_def) (simp add: blank_scram_def)

lemma receive_blank: "sasl_receive cr chunk (blank h) = apsnd blank (sasl_receive cr chunk h)"
  by (simp add: sasl_receive_def finish_incoming_def Let_def)

lemma handle_blank:
  assumes "mechanism_hash (sh_mechanism h) \<noteq> None" "sh_phase h = SpStarting \<longrightarrow> sh_scram h \<noteq> None"
    "sh_phase h \<noteq> SpEcdsaChallenge"
  shows "sasl_handle cr payload out_default (blank h) =
    map_prod (\<lambda>e. e) (map_prod blank_out blank) (sasl_handle cr payload out_default h)"
proof (cases "sh_phase h")
  case SpStarting
  then show ?thesis using assms
    by (auto simp: sasl_handle_def handle_starting_def initial_response_def)
next
  case SpScramFirst
  then show ?thesis
    by (cases "sh_scram h")
      (auto simp: sasl_handle_def handle_scram_first_def server_first_blank blank_out_def noted_def out_default_def
        split: prod.split sum.split)
next
  case SpScramFinal
  then show ?thesis
    by (cases "sh_scram h") (auto simp: sasl_handle_def handle_scram_final_def server_final_blank split: prod.split option.split)
qed (use assms in \<open>simp_all add: sasl_handle_def\<close>)


lemma authenticate_blank:
  assumes "mechanism_hash (sh_mechanism h) \<noteq> None" "sh_phase h = SpStarting \<longrightarrow> sh_scram h \<noteq> None"
    "sh_phase h \<noteq> SpEcdsaChallenge"
  shows "observe_authenticate cr chunk (blank h) =
    map_prod (map_sum (\<lambda>e. e) blank_out) blank (observe_authenticate cr chunk h)"
proof -
  obtain r h1 where r: "sasl_receive cr chunk h = (r, h1)" by (rule prod.exhaust)
  then obtain i where "h1 = h\<lparr>sh_incoming := i\<rparr>" using receive_frame [of cr chunk h] by auto
  then have b: "sasl_handle cr payload out_default (blank h1) =
      map_prod (\<lambda>e. e) (map_prod blank_out blank) (sasl_handle cr payload out_default h1)" for payload
    using assms by (intro handle_blank) simp_all
  show ?thesis
    by (auto simp: observe_authenticate_def receive_blank r b client_error_def Let_def
        split: sum.split option.split prod.split)
qed

lemma step_blank:
  assumes "mechanism_hash (sh_mechanism h) \<noteq> None" "sh_phase h = SpStarting \<longrightarrow> sh_scram h \<noteq> None"
    "sh_phase h \<noteq> SpEcdsaChallenge"
  shows "sasl_step cr op (blank h) = map_prod (map_sum (\<lambda>e. e) blank_out) blank (sasl_step cr op h)"
proof (cases op)
  case (SoObserve m)
  show ?thesis
  proof (cases "m_command m")
    case (AUTHENTICATE chunk)
    then show ?thesis using SoObserve authenticate_blank [OF assms] by (simp add: sasl_observe_def)
  next
    case (Response code args)
    then show ?thesis using SoObserve by (simp add: sasl_observe_def split: sasl_phase.split)
  qed (use SoObserve in \<open>simp_all add: sasl_observe_def\<close>)
next
  case (SoDerived d)
  then show ?thesis
    by (cases "sh_scram h") (auto simp: sasl_derived_def scram_derived_blank split: prod.split)
qed

text \<open>What a run shows: the lines sent, the notes and the error of every step, and the failure notes that
  \<open>take_failure_notes\<close> finds, before it and after every step.\<close>

fun sasl_trace ::
  "crypto \<Rightarrow> sasl_op list \<Rightarrow> sasl_handshake
    \<Rightarrow> rstring list \<times> ((rstring + command list \<times> rstring list) \<times> rstring list) list" where
  "sasl_trace cr [] h = (fst (take_failure_notes h), [])"
| "sasl_trace cr (op # ops) h =
     (case sasl_step cr op h of
        (shown, next') \<Rightarrow>
          (case sasl_trace cr ops next' of
             (failures, shows') \<Rightarrow>
               (fst (take_failure_notes h),
                (map_sum (\<lambda>e. e) (\<lambda>out. (ou_send out, ou_notes out)) shown, failures) # shows')))"

lemma trace_blank:
  assumes "scram_inv cr start past h" "h = sasl_run cr past start"
  shows "sasl_trace cr ops (blank h) = sasl_trace cr ops h"
  using assms
proof (induction ops arbitrary: past h)
  case (Cons op ops)
  have b: "sasl_step cr op (blank h) = map_prod (map_sum (\<lambda>e. e) blank_out) blank (sasl_step cr op h)"
    using Cons.prems(1) by (intro step_blank) (auto simp: scram_inv_def scram_way_def)
  have "scram_inv cr start (past @ [op]) (snd (sasl_step cr op h))"
    by (rule scram_inv_step [OF Cons.prems])
  then have "sasl_trace cr ops (blank (snd (sasl_step cr op h))) = sasl_trace cr ops (snd (sasl_step cr op h))"
    by (rule Cons.IH [of "past @ [op]"]) (simp_all add: Cons.prems(2) sasl_run_def)
  moreover obtain r t where "sasl_step cr op h = (r, t)" by (rule prod.exhaust)
  ultimately show ?case using b by (cases r) (simp_all add: take_failure_notes_def)
qed (simp add: take_failure_notes_def)

lemma begin_blank:
  assumes "mechanism_hash mech = Some hash"
    and "sasl_begin cr raw (sasl_new \<lparr>cd_mechanism = mech, cd_username = user, cd_password = p\<rparr>) = (Inr out, h)"
  shows "\<exists>sc. scram_new (cr\<lparr>cr_saslprep := \<lambda>_. Some []\<rparr>) raw hash user [] = Inr sc
    \<and> blank h = (sasl_new \<lparr>cd_mechanism = mech, cd_username = user, cd_password = []\<rparr>)
        \<lparr>sh_scram := Some sc, sh_phase := SpStarting\<rparr>
    \<and> out = sending [AUTHENTICATE (mechanism_name mech)]
        (noted (lit ''SASL: starting '' @ mechanism_name mech @ lit '' (TLS-protected exchange).'') out_default)"
proof -
  have "mech \<noteq> SaslEcdsa" using assms(1) by (cases mech) auto
  then obtain sc where sc: "scram_new cr raw hash user p = Inr sc"
    and h: "h = (sasl_new \<lparr>cd_mechanism = mech, cd_username = user, cd_password = p\<rparr>)
      \<lparr>sh_scram := Some sc, sh_phase := SpStarting\<rparr>"
    and out: "out = sending [AUTHENTICATE (mechanism_name mech)]
      (noted (lit ''SASL: starting '' @ mechanism_name mech @ lit '' (TLS-protected exchange).'') out_default)"
    using assms by (cases "scram_new cr raw hash user p") (auto simp: sasl_begin_def Let_def sasl_new_def)
  have "scram_new (cr\<lparr>cr_saslprep := \<lambda>_. Some []\<rparr>) raw hash user [] = Inr (blank_scram sc)"
    using sc by (auto simp: scram_new_def blank_scram_def Let_def split: option.splits)
  moreover have "blank h = (sasl_new \<lparr>cd_mechanism = mech, cd_username = user, cd_password = []\<rparr>)
      \<lparr>sh_scram := Some (blank_scram sc), sh_phase := SpStarting\<rparr>"
    unfolding h by (simp add: blank_def sasl_new_def)
  ultimately show ?thesis using out by blast
qed

text \<open>C14. The password of a SCRAM login is never shown: two exchanges that begin and differ only in the password
  send the same lines, record the same notes, leave the same failure notes to be taken and end with the same
  errors, step by step, as long as the derivations they are given agree. Nothing but the derived proof can
  tell the passwords apart.\<close>

theorem scram_password_secret:
  assumes "mechanism_hash mech \<noteq> None"
    and "sasl_begin cr raw (sasl_new \<lparr>cd_mechanism = mech, cd_username = user, cd_password = p\<rparr>) = (Inr out, h)"
    and "sasl_begin cr raw (sasl_new \<lparr>cd_mechanism = mech, cd_username = user, cd_password = p'\<rparr>) = (Inr out', h')"
  shows "ou_send out = ou_send out' \<and> ou_notes out = ou_notes out' \<and> sasl_trace cr ops h = sasl_trace cr ops h'"
proof -
  obtain hash where hash: "mechanism_hash mech = Some hash" using assms(1) by blast
  have same: "out = out'" "blank h = blank h'"
    using begin_blank [OF hash assms(2)] begin_blank [OF hash assms(3)] by auto
  have "scram_inv cr h [] h" "scram_inv cr h' [] h'"
    using scram_inv_begin [OF _ assms(2)] scram_inv_begin [OF _ assms(3)] assms(1) by simp_all
  then have "sasl_trace cr ops h = sasl_trace cr ops (blank h)" "sasl_trace cr ops h' = sasl_trace cr ops (blank h')"
    using trace_blank [of cr h "[]" h ops] trace_blank [of cr h' "[]" h' ops] by simp_all
  then show ?thesis using same by simp
qed

section \<open>Lines read back\<close>

text \<open>Reading the lines of a message one after the other.\<close>

fun sasl_feed ::
  "crypto \<Rightarrow> command list \<Rightarrow> sasl_handshake \<Rightarrow> (rstring + byte list option) list \<times> sasl_handshake" where
  "sasl_feed cr [] h = ([], h)"
| "sasl_feed cr (AUTHENTICATE chunk # rest) h =
     (case sasl_receive cr chunk h of (r, h) \<Rightarrow> apfst ((#) r) (sasl_feed cr rest h))"
| "sasl_feed cr (_ # rest) h = sasl_feed cr rest h"

lemma feed_chunks:
  assumes "sh_phase h \<notin> {SpIdle, SpComplete}" "list_all (\<lambda>c. c < 0x80) (sh_incoming h @ encoded)"
    and "length (sh_incoming h) + length encoded \<le> MAX_INCOMING" "4 dvd length encoded"
    and "cr_decode cr (sh_incoming h @ encoded) = Some payload"
  shows "\<exists>n. sasl_feed cr (map AUTHENTICATE (chunks AUTH_CHUNK encoded)
      @ (if AUTH_CHUNK dvd length encoded then [AUTHENTICATE (lit ''+'')] else [])) h
    = (replicate n (Inr None) @ [Inr (Some payload)], h\<lparr>sh_incoming := []\<rparr>)"
  using assms
proof (induction "length encoded" arbitrary: encoded h rule: less_induct)
  case less
  show ?case
  proof (cases "encoded = []")
    case True
    then show ?thesis
      using less.prems by (intro exI [of _ 0]) (simp add: chunks.simps sasl_receive_def finish_incoming_def)
  next
    case False
    let ?c = "take AUTH_CHUNK encoded" and ?rest = "drop AUTH_CHUNK encoded"
    have ascii: "blen s = length s" if "list_all (\<lambda>c. c < 0x80) s" for s
      using that by (simp add: blen_ascii list_all_iff)
    have c1: "blen ?c = length ?c"
      using less.prems(2) by (intro ascii) (auto simp: list_all_iff dest: in_set_takeD)
    have c2: "blen (sh_incoming h) = length (sh_incoming h)"
      using less.prems(2) by (intro ascii) simp
    note c = c1 c2
    have "4 dvd length ?c" using less.prems(4) by (simp add: AUTH_CHUNK_def min_def)
    then have plus: "?c \<noteq> lit ''+''" by (auto simp: lit_def dest: arg_cong [of _ _ length])
    have chunks: "chunks AUTH_CHUNK encoded = ?c # chunks AUTH_CHUNK ?rest"
      using False by (simp add: chunks.simps [of _ encoded] AUTH_CHUNK_def)
    show ?thesis
    proof (cases "AUTH_CHUNK \<le> length encoded")
      case True
      let ?h = "h\<lparr>sh_incoming := sh_incoming h @ ?c\<rparr>"
      have "sasl_receive cr ?c h = (Inr None, ?h)"
        using less.prems(1,3) plus c True by (simp add: sasl_receive_def Let_def)
      moreover have "AUTH_CHUNK dvd length ?rest \<longleftrightarrow> AUTH_CHUNK dvd length encoded"
        using True by (simp add: dvd_minus_self)
      moreover have "\<exists>n. sasl_feed cr (map AUTHENTICATE (chunks AUTH_CHUNK ?rest)
          @ (if AUTH_CHUNK dvd length ?rest then [AUTHENTICATE (lit ''+'')] else [])) ?h
        = (replicate n (Inr None) @ [Inr (Some payload)], ?h\<lparr>sh_incoming := []\<rparr>)"
      proof (rule less.hyps)
        show "length ?rest < length encoded" using True by (simp add: AUTH_CHUNK_def)
        show "4 dvd length ?rest" using less.prems(4) by (simp add: AUTH_CHUNK_def)
      qed (use less.prems True in simp_all)
      then obtain n where "sasl_feed cr (map AUTHENTICATE (chunks AUTH_CHUNK ?rest)
          @ (if AUTH_CHUNK dvd length ?rest then [AUTHENTICATE (lit ''+'')] else [])) ?h
        = (replicate n (Inr None) @ [Inr (Some payload)], ?h\<lparr>sh_incoming := []\<rparr>)" by blast
      ultimately show ?thesis by (intro exI [of _ "Suc n"]) (simp add: chunks)
    next
      case short: False
      then have "sasl_receive cr ?c h = (Inr (Some payload), h\<lparr>sh_incoming := []\<rparr>)"
        using less.prems plus c by (simp add: sasl_receive_def finish_incoming_def Let_def)
      moreover have "\<not> AUTH_CHUNK dvd length encoded"
        using short False by (auto dest: dvd_imp_le)
      moreover have "chunks AUTH_CHUNK ?rest = []" using short by (simp add: chunks.simps)
      ultimately show ?thesis by (intro exI [of _ 0]) (simp add: chunks)
    qed
  qed
qed

text \<open>C15. What is sent in \<open>AUTHENTICATE\<close> lines is read back whole, for every message whose base64 text is within
  the 8192 characters the reader takes (\<open>MAX_INCOMING\<close>): of its lines every one but the last is kept waiting
  and the last gives exactly the payload, also when it fills its last line or is empty. Base64 is assumed to
  read back what it writes, in ASCII and in groups of four.\<close>

theorem authenticate_roundtrip:
  assumes "cr_decode cr (cr_encode cr payload) = Some payload"
    and "list_all (\<lambda>c. c < 0x80) (cr_encode cr payload)" "4 dvd length (cr_encode cr payload)"
    and "length (cr_encode cr payload) \<le> MAX_INCOMING"
    and "sh_phase h \<notin> {SpIdle, SpComplete}" "sh_incoming h = []"
  shows "\<exists>n. sasl_feed cr (authenticate_lines cr payload) h = (replicate n (Inr None) @ [Inr (Some payload)], h)"
proof -
  have len: "blen (cr_encode cr payload) = length (cr_encode cr payload)"
    using assms(2) by (simp add: blen_ascii list_all_iff)
  have h: "h\<lparr>sh_incoming := []\<rparr> = h" using assms(6) by (cases h) simp
  have "\<exists>n. sasl_feed cr (map AUTHENTICATE (chunks AUTH_CHUNK (cr_encode cr payload))
      @ (if AUTH_CHUNK dvd length (cr_encode cr payload) then [AUTHENTICATE (lit ''+'')] else [])) h
    = (replicate n (Inr None) @ [Inr (Some payload)], h\<lparr>sh_incoming := []\<rparr>)"
    using assms by (intro feed_chunks) simp_all
  then show ?thesis unfolding h by (simp only: authenticate_lines_def Let_def len)
qed


section \<open>An honest server\<close>

text \<open>What the code relies on of its crates: base64 reads back what it writes, in ASCII without a comma, and the
  codes of one hash all have the same length.\<close>

definition crypto_ok :: "crypto \<Rightarrow> bool" where
  "crypto_ok cr \<longleftrightarrow>
     (\<forall>b. cr_decode cr (cr_encode cr b) = Some b) \<and> (\<forall>b. \<forall>c \<in> set (cr_encode cr b). c < 0x80 \<and> c \<noteq> 0x2C)
     \<and> (\<forall>hash k d k' d'. length (cr_hmac cr hash k d) = length (cr_hmac cr hash k' d'))"

text \<open>A server that keeps, for an account, a salt, a number of iterations and two keys of the salted password.\<close>

record scram_account =
  ac_hash :: scram_hash
  ac_salt :: "byte list"
  ac_iterations :: nat
  ac_stored_key :: "byte list"
  ac_server_key :: "byte list"

definition register :: "crypto \<Rightarrow> scram_hash \<Rightarrow> rstring \<Rightarrow> byte list \<Rightarrow> nat \<Rightarrow> scram_account" where
  "register cr hash password salt iterations =
     (let salted = cr_pbkdf2 cr hash (as_bytes password) salt iterations
      in \<lparr>ac_hash = hash, ac_salt = salt, ac_iterations = iterations,
          ac_stored_key = cr_digest cr hash (cr_hmac cr hash salted (as_bytes (lit ''Client Key''))),
          ac_server_key = cr_hmac cr hash salted (as_bytes (lit ''Server Key''))\<rparr>)"

definition challenge :: "crypto \<Rightarrow> scram_account \<Rightarrow> rstring \<Rightarrow> rstring" where
  "challenge cr ac nonce =
     lit ''r='' @ nonce @ lit '',s='' @ cr_encode cr (ac_salt ac) @ lit '',i='' @ decimal (ac_iterations ac)"

definition server_auth :: "crypto \<Rightarrow> scram_account \<Rightarrow> rstring \<Rightarrow> rstring \<Rightarrow> byte list" where
  "server_auth cr ac first_bare nonce =
     as_bytes (first_bare @ lit '','' @ challenge cr ac nonce @ lit '',c=biws,r='' @ nonce)"

text \<open>The server accepts a proof that gives its stored key.\<close>

definition server_accepts :: "crypto \<Rightarrow> scram_account \<Rightarrow> byte list \<Rightarrow> byte list \<Rightarrow> bool" where
  "server_accepts cr ac auth proof' \<longleftrightarrow>
     cr_digest cr (ac_hash ac) (map2 xor proof' (cr_hmac cr (ac_hash ac) (ac_stored_key ac) auth)) = ac_stored_key ac"

definition server_verifier :: "crypto \<Rightarrow> scram_account \<Rightarrow> byte list \<Rightarrow> rstring" where
  "server_verifier cr ac auth = lit ''v='' @ cr_encode cr (cr_hmac cr (ac_hash ac) (ac_server_key ac) auth)"

lemma split_by_plain: "(\<And>c. c \<in> set a \<Longrightarrow> \<not> P c) \<Longrightarrow> split_by P a = [a]"
  by (induction a) simp_all

lemma split_by_append: "(\<And>c. c \<in> set a \<Longrightarrow> \<not> P c) \<Longrightarrow> P x \<Longrightarrow> split_by P (a @ x # b) = a # split_by P b"
  by (induction a) (simp_all split: list.split)

lemma split_once_key: "x \<noteq> 0x3D \<Longrightarrow> split_once 0x3D (x # 0x3D # v) = Some ([x], v)"
  by simp

lemma xor_back:
  assumes "length k = length s"
  shows "map2 xor (map2 xor k s) s = (k :: byte list)"
  using assms by (induction k s rule: list_induct2) (simp_all add: xor.assoc)

lemma decimal_plain: "c \<in> set (decimal n) \<Longrightarrow> c < 0x80 \<and> c \<noteq> 0x2C"
  using decimal_digits [of n] by (auto simp: list_all_iff is_ascii_digit_def)

text \<open>The client reads the three attributes of the challenge.\<close>

lemma challenge_attributes:
  assumes ok: "crypto_ok cr" and n: "\<And>c. c \<in> set nonce \<Longrightarrow> c \<noteq> 0x2C"
  shows "first_attributes (split_by (\<lambda>c. c = 0x2C) (challenge cr ac nonce)) (None, None, None)
    = Inr (Some nonce, Some (cr_encode cr (ac_salt ac)), Some (decimal (ac_iterations ac)))"
proof -
  let ?r = "lit ''r='' @ nonce" and ?s = "lit ''s='' @ cr_encode cr (ac_salt ac)"
  let ?i = "lit ''i='' @ decimal (ac_iterations ac)"
  have e: "challenge cr ac nonce = ?r @ 0x2C # ?s @ 0x2C # ?i"
    by (simp add: challenge_def lit_def)
  have "split_by (\<lambda>c. c = 0x2C) (challenge cr ac nonce) = ?r # ?s # [?i]"
    unfolding e using n ok decimal_plain [of _ "ac_iterations ac"]
    by (subst split_by_append; (subst split_by_append)?; (subst split_by_plain)?)
      (auto simp: lit_def crypto_ok_def)
  then show ?thesis by (simp add: lit_def)
qed

lemma accepted_decimal:
  assumes "MIN_ITERATIONS \<le> n" "n \<le> MAX_ITERATIONS"
  shows "accepted_iterations (decimal n) = Some n"
proof -
  have "parse_unsigned (2 ^ 32 - 1) (decimal n) = Some n"
    using assms by (intro parse_decimal) (simp add: MAX_ITERATIONS_def)
  then show ?thesis using assms decimal_digits [of n] by (simp add: accepted_iterations_def)
qed

lemma challenge_scalar:
  assumes "crypto_ok cr" "list_all (\<lambda>c. c < 0x80) nonce"
  shows "from_utf8 (as_bytes (challenge cr ac nonce)) = Some (challenge cr ac nonce)"
proof -
  have "list_all (\<lambda>c. c < 0x80) (challenge cr ac nonce)"
    using assms decimal_plain by (auto simp: challenge_def crypto_ok_def lit_def list_all_iff)
  then show ?thesis by (intro from_utf8_as_bytes ascii_scalar)
qed

lemma challenge_accepted:
  assumes ok: "crypto_ok cr" and ac: "ac = register cr hash password salt iterations"
    and salt: "salt \<noteq> []" "length salt \<le> MAX_SALT_BYTES"
    and it: "MIN_ITERATIONS \<le> iterations" "iterations \<le> MAX_ITERATIONS"
    and sc: "sc_hash sc = hash" "sc_password sc = Some password" "sc_phase sc = ScFirst"
    and nonce: "nonce = sc_nonce sc @ more'" "more' \<noteq> []" "list_all (\<lambda>c. c < 0x80 \<and> c \<noteq> 0x2C) nonce"
  shows "server_first cr (as_bytes (challenge cr ac nonce)) sc =
    (Inr \<lparr>jo_hash = hash, jo_password = password, jo_salt = salt, jo_iterations = iterations,
       jo_auth_message = sc_first_bare sc @ lit '','' @ challenge cr ac nonce @ lit '',c=biws,r='' @ nonce\<rparr>,
     sc\<lparr>sc_iterations := iterations, sc_final_without_proof := lit ''c=biws,r='' @ nonce, sc_password := None\<rparr>)"
proof -
  have fields: "ac_salt ac = salt" "ac_iterations ac = iterations" by (simp_all add: ac register_def Let_def)
  have "strip_prefix (lit ''e='') (challenge cr ac nonce) = None"
    by (simp add: strip_prefix_def challenge_def lit_def)
  moreover have "from_utf8 (as_bytes (challenge cr ac nonce)) = Some (challenge cr ac nonce)"
    using nonce(3) by (intro challenge_scalar ok) (simp add: list_all_iff)
  moreover have "first_attributes (split_by (\<lambda>c. c = 0x2C) (challenge cr ac nonce)) (None, None, None)
      = Inr (Some nonce, Some (cr_encode cr salt), Some (decimal iterations))"
    using challenge_attributes [OF ok, of nonce ac] nonce(3) by (simp add: fields list_all_iff)
  moreover have "strip_prefix (sc_nonce sc) nonce \<noteq> None" using nonce(1) strip_prefix_Some by blast
  moreover have "blen nonce \<noteq> blen (sc_nonce sc)"
    using nonce(1,2) by (simp add: blen_eq_0_iff)
  moreover have "accepted_salt cr (cr_encode cr salt) = Some salt"
    using ok salt by (simp add: accepted_salt_def crypto_ok_def)
  moreover have "accepted_iterations (decimal iterations) = Some iterations" by (rule accepted_decimal [OF it])
  ultimately show ?thesis
    using sc by (simp add: server_first_def Let_def GS2_HEADER_B64_def lit_def)
qed

lemma verifier_accepted:
  assumes ok: "crypto_ok cr" and sc: "sc_phase sc = ScFinal"
    and sig: "sc_server_signature sc = cr_hmac cr (ac_hash ac) (ac_server_key ac) auth"
  shows "server_final cr (as_bytes (server_verifier cr ac auth)) sc =
    (None, sc\<lparr>sc_server_signature := [], sc_phase := ScVerified\<rparr>)"
proof -
  let ?v = "server_verifier cr ac auth"
  have "list_all (\<lambda>c. c < 0x80 \<and> c \<noteq> 0x2C) ?v"
    using ok by (auto simp: server_verifier_def crypto_ok_def lit_def list_all_iff)
  then have "from_utf8 (as_bytes ?v) = Some ?v" "split_by (\<lambda>c. c = 0x2C) ?v = [?v]"
    by (auto intro!: from_utf8_as_bytes ascii_scalar split_by_plain simp: list_all_iff)
  moreover have "strip_prefix (lit ''e='') ?v = None" by (simp add: strip_prefix_def server_verifier_def lit_def)
  moreover have "strip_prefix (lit ''v='') ?v = Some (cr_encode cr (sc_server_signature sc))"
    by (simp add: strip_prefix_Some server_verifier_def sig)
  ultimately show ?thesis
    using ok sc by (simp add: server_final_def Let_def crypto_ok_def constant_time_eq_iff)
qed

text \<open>C16. With the right password an honest server and the client accept each other: for every account registered
  with the password, the client reads the challenge, the server accepts the proof the client derives, and the
  client accepts the verifier the server answers with.\<close>

theorem scram_honest_server:
  assumes "crypto_ok cr" and "scram_new cr (Some raw) hash user password = Inr sc"
    and "cr_saslprep cr password = Some prepared" and "salt \<noteq> []" "length salt \<le> MAX_SALT_BYTES"
    and "MIN_ITERATIONS \<le> iterations" "iterations \<le> MAX_ITERATIONS"
    and "more' \<noteq> []" "list_all (\<lambda>c. c < 0x80 \<and> c \<noteq> 0x2C) more'"
  shows "let ac = register cr hash prepared salt iterations; nonce = sc_nonce sc @ more';
             auth = server_auth cr ac (sc_first_bare sc) nonce
         in \<exists>job sc1. server_first cr (as_bytes (challenge cr ac nonce)) sc = (Inr job, sc1)
              \<and> server_accepts cr ac auth (de_proof (job_run cr job))
              \<and> fst (server_final cr (as_bytes (server_verifier cr ac auth))
                   (snd (scram_derived cr (job_run cr job) sc1))) = None"
proof -
  let ?ac = "register cr hash prepared salt iterations" and ?nonce = "sc_nonce sc @ more'"
  let ?auth = "server_auth cr ?ac (sc_first_bare sc) ?nonce"
  have sc: "sc_hash sc = hash" "sc_password sc = Some prepared" "sc_phase sc = ScFirst" "sc_nonce sc = cr_encode cr raw"
    using assms(2,3) by (auto simp: scram_new_def Let_def)
  have nonce: "list_all (\<lambda>c. c < 0x80 \<and> c \<noteq> 0x2C) ?nonce"
    using assms(1,9) sc(4) by (auto simp: crypto_ok_def list_all_iff)
  let ?job = "\<lparr>jo_hash = hash, jo_password = prepared, jo_salt = salt, jo_iterations = iterations,
    jo_auth_message = sc_first_bare sc @ lit '','' @ challenge cr ?ac ?nonce @ lit '',c=biws,r='' @ ?nonce\<rparr>"
  obtain sc1 where first: "server_first cr (as_bytes (challenge cr ?ac ?nonce)) sc = (Inr ?job, sc1)"
    using challenge_accepted [OF assms(1) refl assms(4-7) sc(1-3) refl assms(8) nonce] by blast
  have run: "de_server_signature (job_run cr ?job) = cr_hmac cr (ac_hash ?ac) (ac_server_key ?ac) ?auth"
    by (simp add: job_run_def register_def server_auth_def Let_def)
  have "server_accepts cr ?ac ?auth (de_proof (job_run cr ?job))"
    using assms(1) by (simp add: server_accepts_def job_run_def register_def server_auth_def Let_def xor_back crypto_ok_def)
  moreover have "fst (server_final cr (as_bytes (server_verifier cr ?ac ?auth))
      (snd (scram_derived cr (job_run cr ?job) sc1))) = None"
    by (subst verifier_accepted [OF assms(1)]) (simp_all add: scram_derived_def run)
  ultimately show ?thesis using first by (simp only: Let_def) blast
qed

section \<open>Concrete exchanges\<close>

text \<open>Bytes as two letters each, and codes that are empty.\<close>

fun letters :: "byte list \<Rightarrow> rstring" where
  "letters [] = []"
| "letters (b # bs) = (0x41 + unat b div 16) # (0x41 + unat b mod 16) # letters bs"

fun of_letters :: "rstring \<Rightarrow> byte list" where
  "of_letters (a # b # s) = of_nat ((a - 0x41) * 16 + (b - 0x41)) # of_letters s"
| "of_letters _ = []"

definition letter_crypto :: crypto where
  "letter_crypto =
     \<lparr>cr_encode = letters, cr_decode = (\<lambda>s. Some (of_letters s)), cr_saslprep = Some,
      cr_pbkdf2 = (\<lambda>_ _ _ _. []), cr_hmac = (\<lambda>_ _ _. []), cr_digest = (\<lambda>_ d. d),
      cr_key_valid = (\<lambda>_. True), cr_sign_prehash = (\<lambda>_ _. None)\<rparr>"

lemma nibble: "unat (b :: byte) div 16 < 16"
proof -
  have "unat b < 2 ^ 8" using unsigned_less [of b] by simp
  then show ?thesis by (simp add: less_mult_imp_div_less)
qed

lemma of_letters_letters: "of_letters (letters bs) = bs"
  by (induction bs) simp_all

lemma letters_range: "c \<in> set (letters bs) \<Longrightarrow> 0x41 \<le> c \<and> c < 0x51"
proof (induction bs)
  case (Cons b bs)
  have "unat b mod 16 < 16" by simp
  then show ?case using Cons nibble [of b] by auto
qed simp

lemma letter_crypto_ok: "crypto_ok letter_crypto"
  using letters_range by (fastforce simp: crypto_ok_def letter_crypto_def of_letters_letters)

theorem authenticate_roundtrip_witness:
  "\<exists>n. sasl_feed letter_crypto (authenticate_lines letter_crypto [1, 2])
     ((sasl_new \<lparr>cd_mechanism = SaslPlain, cd_username = [], cd_password = []\<rparr>)\<lparr>sh_phase := SpStarting\<rparr>)
   = (replicate n (Inr None) @ [Inr (Some [1, 2])],
      (sasl_new \<lparr>cd_mechanism = SaslPlain, cd_username = [], cd_password = []\<rparr>)\<lparr>sh_phase := SpStarting\<rparr>)"
proof (rule authenticate_roundtrip)
  show "4 dvd length (cr_encode letter_crypto [1, 2])" by (simp add: letter_crypto_def) presburger
qed (simp_all add: letter_crypto_def sasl_new_def MAX_INCOMING_def)

definition sample_login :: "rstring \<Rightarrow> sasl_credentials" where
  "sample_login p = \<lparr>cd_mechanism = SaslScramSha256, cd_username = lit ''u'', cd_password = p\<rparr>"

definition sample_start :: "rstring \<Rightarrow> sasl_handshake" where
  "sample_start p = snd (sasl_begin letter_crypto (Some []) (sasl_new (sample_login p)))"

definition sample_scram :: "rstring \<Rightarrow> scram" where
  "sample_scram p =
     \<lparr>sc_hash = Sha256, sc_password = Some p, sc_nonce = [], sc_first_bare = lit ''n=u,r='',
      sc_final_without_proof = [], sc_server_signature = [], sc_phase = ScFirst, sc_iterations = 0\<rparr>"

lemma sample_new: "scram_new letter_crypto (Some []) Sha256 (lit ''u'') p = Inr (sample_scram p)"
  by (simp add: scram_new_def letter_crypto_def sample_scram_def replace_char_def lit_def)

lemma sample_begin:
  "\<exists>out. sasl_begin letter_crypto (Some []) (sasl_new (sample_login p)) = (Inr out, sample_start p)"
  "sample_start p = (sasl_new (sample_login p))\<lparr>sh_scram := Some (sample_scram p), sh_phase := SpStarting\<rparr>"
  by (simp_all add: sample_start_def sasl_begin_def sasl_new_def sample_login_def sample_new Let_def)

text \<open>The server's messages, as the lines that carry them.\<close>

definition sample_line :: "rstring \<Rightarrow> sasl_op" where
  "sample_line s =
     SoObserve \<lparr>m_tags = None, m_prefix = None, m_command = AUTHENTICATE (if s = [] then lit ''+'' else letters (as_bytes s))\<rparr>"

definition sample_ops :: "sasl_op list" where
  "sample_ops =
     [sample_line [], sample_line (lit ''r=x,s=BB,i=4096''), SoDerived \<lparr>de_proof = [], de_server_signature = []\<rparr>,
      sample_line (lit ''v=''), SoObserve \<lparr>m_tags = None, m_prefix = None, m_command = Response 903 []\<rparr>]"

theorem scram_honest_server_witness:
  "\<exists>job sc1. server_first letter_crypto (as_bytes (challenge letter_crypto
       (register letter_crypto Sha256 (lit ''p'') [7] 4096) (lit ''x''))) (sample_scram (lit ''p'')) = (Inr job, sc1)"
proof -
  have "list_all (\<lambda>c. c < 0x80 \<and> c \<noteq> 0x2C) (lit ''x'')" by (simp add: lit_def)
  moreover have "lit ''x'' \<noteq> []" by (simp add: lit_def)
  moreover have "cr_saslprep letter_crypto (lit ''p'') = Some (lit ''p'')" by (simp add: letter_crypto_def)
  ultimately show ?thesis
    using scram_honest_server [OF letter_crypto_ok sample_new, of "lit ''p''" "lit ''p''" "[7]" 4096 "lit ''x''"]
    by (auto simp: Let_def MAX_SALT_BYTES_def MIN_ITERATIONS_def MAX_ITERATIONS_def sample_scram_def)
qed

theorem scram_password_secret_witness:
  "sasl_trace letter_crypto sample_ops (sample_start (lit ''p'')) = sasl_trace letter_crypto sample_ops (sample_start (lit ''q''))"
proof -
  obtain out out' where "sasl_begin letter_crypto (Some []) (sasl_new (sample_login (lit ''p''))) = (Inr out, sample_start (lit ''p''))"
    "sasl_begin letter_crypto (Some []) (sasl_new (sample_login (lit ''q''))) = (Inr out', sample_start (lit ''q''))"
    using sample_begin(1) by blast
  then show ?thesis
    using scram_password_secret [of SaslScramSha256 letter_crypto "Some []" "lit ''u''" "lit ''p''" out _ "lit ''q''" out' _ sample_ops]
    by (simp add: sample_login_def)
qed


text \<open>The exchange of the sample: every message is read, and the login completes.\<close>

lemma length_letters [simp]: "length (letters bs) = 2 * length bs"
  by (induction bs) simp_all

lemma sample_received:
  assumes "sh_phase h \<notin> {SpIdle, SpComplete}" "sh_incoming h = []" "length bs < 200"
  shows "sasl_receive letter_crypto (if bs = [] then lit ''+'' else letters bs) h = (Inr (Some bs), h)"
proof -
  have h: "h\<lparr>sh_incoming := []\<rparr> = h" using assms(2) by (cases h) simp
  have blen: "blen (letters bs) = 2 * length bs" using letters_range by (subst blen_ascii) fastforce+
  have "letters bs \<noteq> lit ''+''"
  proof
    assume "letters bs = lit ''+''"
    then have "2 * length bs = length (lit ''+'')" by (metis length_letters)
    then show False by (simp add: lit_def)
  qed
  then show ?thesis
    using assms blen h
    by (simp add: sasl_receive_def finish_incoming_def Let_def letter_crypto_def of_letters_letters AUTH_CHUNK_def
        MAX_INCOMING_def)
qed

lemma sample_observe:
  assumes "sh_phase h \<notin> {SpIdle, SpComplete}" "sh_incoming h = []" "blen s < 200"
    and "sasl_handle letter_crypto (as_bytes s) out_default h = (None, out, h')"
  shows "sasl_step letter_crypto (sample_line s) h = (Inr out, h')"
proof -
  have len: "length (as_bytes s) = blen s" by (simp add: as_bytes_def)
  then have "(s = []) = (as_bytes s = [])" by (metis blen_eq_0_iff length_0_conv)
  note this len
  then have "sasl_receive letter_crypto (if s = [] then lit ''+'' else letters (as_bytes s)) h = (Inr (Some (as_bytes s)), h)"
    using sample_received [of h "as_bytes s"] assms(1-3) by simp
  then show ?thesis using assms(4) by (simp add: sample_line_def sasl_observe_def observe_authenticate_def)
qed

lemma ascii_text: "list_all (\<lambda>c. c < 0x80) s \<Longrightarrow> from_utf8 (as_bytes s) = Some s"
  by (intro from_utf8_as_bytes ascii_scalar)

lemma sample_server_first:
  "\<exists>job. server_first letter_crypto (as_bytes (lit ''r=x,s=BB,i=4096'')) (sample_scram p) =
     (Inr job, (sample_scram p)\<lparr>sc_iterations := 4096, sc_final_without_proof := lit ''c=biws,r=x'', sc_password := None\<rparr>)"
proof -
  have "from_utf8 (as_bytes (lit ''r=x,s=BB,i=4096'')) = Some (lit ''r=x,s=BB,i=4096'')"
    by (rule ascii_text) (simp add: lit_def)
  moreover have "strip_prefix (lit ''e='') (lit ''r=x,s=BB,i=4096'') = None" by (simp add: strip_prefix_def lit_def)
  moreover have "first_attributes (split_by (\<lambda>c. c = 0x2C) (lit ''r=x,s=BB,i=4096'')) (None, None, None)
      = Inr (Some (lit ''x''), Some (lit ''BB''), Some (lit ''4096''))"
    by (simp add: lit_def)
  moreover have "accepted_salt letter_crypto (lit ''BB'') = Some [17]"
    by (simp add: accepted_salt_def letter_crypto_def lit_def MAX_SALT_BYTES_def)
  moreover have "accepted_iterations (lit ''4096'') = Some 4096"
    by (simp add: accepted_iterations_def parse_unsigned_def lit_def is_ascii_digit_def MIN_ITERATIONS_def
        MAX_ITERATIONS_def Let_def)
  moreover have "strip_prefix (sc_nonce (sample_scram p)) (lit ''x'') \<noteq> None" "blen (lit ''x'') \<noteq> blen (sc_nonce (sample_scram p))"
    by (simp_all add: strip_prefix_def sample_scram_def lit_def)
  ultimately show ?thesis
    by (simp add: server_first_def Let_def sample_scram_def GS2_HEADER_B64_def) (simp add: lit_def)
qed

lemma sample_completes: "sasl_complete (sasl_run letter_crypto sample_ops (sample_start p))"
proof -
  let ?h = "sample_start p"
  obtain job where first: "server_first letter_crypto (as_bytes (lit ''r=x,s=BB,i=4096'')) (sample_scram p) =
     (Inr job, (sample_scram p)\<lparr>sc_iterations := 4096, sc_final_without_proof := lit ''c=biws,r=x'', sc_password := None\<rparr>)"
    (is "_ = (_, ?sc)") using sample_server_first by blast
  let ?h1 = "?h\<lparr>sh_phase := SpScramFirst, sh_password := []\<rparr>"
  let ?h2 = "?h1\<lparr>sh_scram := Some ?sc, sh_phase := SpDeriving\<rparr>"
  let ?sc' = "?sc\<lparr>sc_server_signature := [], sc_phase := ScFinal\<rparr>"
  let ?h3 = "?h2\<lparr>sh_scram := Some ?sc', sh_phase := SpScramFinal\<rparr>"
  let ?h4 = "?h3\<lparr>sh_scram := None, sh_phase := SpWaiting\<rparr>"
  have s1: "snd (sasl_step letter_crypto (sample_line []) ?h) = ?h1"
    by (subst sample_observe)
      (simp_all add: sample_begin(2) sasl_new_def sasl_handle_def handle_starting_def initial_response_def as_bytes_def utf8_def)
  have s2: "snd (sasl_step letter_crypto (sample_line (lit ''r=x,s=BB,i=4096'')) ?h1) = ?h2"
    by (subst sample_observe)
      (simp_all add: sample_begin(2) sasl_new_def sasl_handle_def handle_scram_first_def first, simp add: lit_def)
  have s3: "snd (sasl_step letter_crypto (SoDerived \<lparr>de_proof = [], de_server_signature = []\<rparr>) ?h2) = ?h3"
    by (simp add: sasl_derived_def scram_derived_def)
  have v: "from_utf8 (as_bytes (lit ''v='')) = Some (lit ''v='')" by (rule ascii_text) (simp add: lit_def)
  have "server_final letter_crypto (as_bytes (lit ''v='')) ?sc' = (None, ?sc'\<lparr>sc_phase := ScVerified\<rparr>)"
    by (simp add: server_final_def v) (simp add: lit_def strip_prefix_def letter_crypto_def constant_time_eq_iff)
  then have s4: "snd (sasl_step letter_crypto (sample_line (lit ''v='')) ?h3) = ?h4"
    by (subst sample_observe)
      (simp_all add: sample_begin(2) sasl_new_def sasl_handle_def handle_scram_final_def, simp add: lit_def)
  show ?thesis
    using s1 s2 s3 s4 by (simp add: sasl_run_def sample_ops_def sasl_observe_def sasl_complete_def)
qed

theorem scram_server_authenticated_witness:
  "\<exists>pre m post d. sample_ops = pre @ SoObserve m # post \<and> SoDerived d \<in> set pre
    \<and> server_proof letter_crypto m (sasl_run letter_crypto pre (sample_start (lit ''p''))) (de_server_signature d)"
proof -
  obtain out where "sasl_begin letter_crypto (Some []) (sasl_new (sample_login (lit ''p''))) = (Inr out, sample_start (lit ''p''))"
    using sample_begin(1) by blast
  then show ?thesis
    using scram_server_authenticated [of "sample_login (lit ''p'')" letter_crypto "Some []" out "sample_start (lit ''p'')" sample_ops]
      sample_completes by (simp add: sample_login_def)
qed

end
