(* ===== verification/CapabilityRuns.thy ===== *)
theory CapabilityRuns
  imports Capabilities SaslRuns
begin

text \<open>
  What holds of a negotiation of capabilities: its tables are bounded, nothing that needs batches outlives them,
  \<open>CAP END\<close> is sent once and only when everything is settled, a login by SCRAM is completed only by a server
  that proved itself, and a server that answers every request ends the negotiation.
\<close>

section \<open>Runs\<close>

datatype cap_op = CoObserve "byte list option" message | CoDerived derived

fun cap_call :: "crypto \<Rightarrow> cap_op \<Rightarrow> cap_negotiation \<Rightarrow> (rstring + cap_step) \<times> cap_negotiation" where
  "cap_call cr (CoObserve raw m) n = cap_observe cr raw m n"
| "cap_call cr (CoDerived d) n = cap_derived cr d n"

definition cap_run :: "crypto \<Rightarrow> cap_op list \<Rightarrow> cap_negotiation \<Rightarrow> cap_negotiation" where
  "cap_run cr ops n = fold (\<lambda>op n. snd (cap_call cr op n)) ops n"

lemma cap_run_simps [simp]:
  "cap_run cr [] n = n" "cap_run cr (ops @ [op]) n = snd (cap_call cr op (cap_run cr ops n))"
  "cap_run cr (op # ops) n = cap_run cr ops (snd (cap_call cr op n))"
  by (simp_all add: cap_run_def)

definition cap_started :: "ircv3_options \<Rightarrow> sasl_credentials option \<Rightarrow> bool \<Rightarrow> cap_negotiation" where
  "cap_started o' sasl utf8' = snd (cap_start (cap_new o' sasl utf8'))"

section \<open>What requests do\<close>

lemma request_one_apply:
  "request_one name (st, n) =
     (if may_request name n then (step_send (cap_request name) st, n\<lparr>cn_pending := cn_pending n @ [name]\<rparr>) else (st, n))"
  by (simp add: request_one_def)

text \<open>Requests only add names that are not pending yet, offered, not enabled, and with batches where they are needed.\<close>

definition requested_from :: "rstring set \<Rightarrow> cap_negotiation \<Rightarrow> rstring list \<Rightarrow> bool" where
  "requested_from names n new \<longleftrightarrow>
     distinct new \<and> set new \<subseteq> names \<and> set new \<inter> set (cn_pending n) = {}
     \<and> (\<forall>x \<in> set new. is_offered x n \<and> \<not> cap_enabled x n \<and> (needs_batch x \<longrightarrow> cap_enabled CAP_BATCH n))"

lemma request_fold:
  assumes "set names \<subseteq> all"
  shows "\<exists>new. fold request_one names (st, n) =
      (st\<lparr>cs_send := cs_send st @ map cap_request new\<rparr>, n\<lparr>cn_pending := cn_pending n @ new\<rparr>)
    \<and> requested_from all n new"
  using assms
proof (induction names rule: rev_induct)
  case Nil
  then show ?case by (intro exI [of _ "[]"]) (simp add: requested_from_def)
next
  case (snoc name names)
  then obtain new where new: "fold request_one names (st, n) =
      (st\<lparr>cs_send := cs_send st @ map cap_request new\<rparr>, n\<lparr>cn_pending := cn_pending n @ new\<rparr>)"
    "requested_from all n new" by auto
  show ?case
  proof (cases "may_request name (n\<lparr>cn_pending := cn_pending n @ new\<rparr>)")
    case True
    then have "requested_from all n (new @ [name])"
      using new(2) snoc.prems by (auto simp: requested_from_def may_request_def is_offered_def cap_enabled_def)
    then show ?thesis
      using new(1) True by (intro exI [of _ "new @ [name]"]) (simp add: request_one_apply step_send_def)
  next
    case False
    then show ?thesis using new by (intro exI [of _ new]) (simp add: request_one_apply)
  qed
qed

lemma request_optional_cases:
  obtains new where "request_optional st n =
      (st\<lparr>cs_send := cs_send st @ map cap_request new\<rparr>, n\<lparr>cn_pending := cn_pending n @ new\<rparr>)"
    "requested_from (set (cn_optional n)) n new"
  using request_fold [OF subset_refl, of "cn_optional n" st n] unfolding request_optional_def by blast

section \<open>The invariant\<close>

definition cap_names_of :: "cap_negotiation \<Rightarrow> rstring set" where
  "cap_names_of n = insert SASL (set (cn_optional n))"

definition offers_ok :: "rstring set \<Rightarrow> (rstring \<times> rstring option) list \<Rightarrow> bool" where
  "offers_ok names offered \<longleftrightarrow>
     distinct (map fst offered) \<and> (\<forall>(k, v) \<in> set offered. case v of None \<Rightarrow> True | Some v \<Rightarrow> blen v \<le> MAX_CAP_VALUE_BYTES)
     \<and> length (filter (\<lambda>k. k \<notin> names) (map fst offered)) \<le> MAX_OFFERED"

definition ack_ok :: "rstring set \<Rightarrow> rstring list \<Rightarrow> bool" where
  "ack_ok names acks \<longleftrightarrow> distinct acks \<and> set acks \<subseteq> names \<union> (@) (lit ''-'') ` names"

definition cap_inv :: "cap_negotiation \<Rightarrow> bool" where
  "cap_inv n \<longleftrightarrow>
     SASL \<notin> set (cn_optional n)
     \<and> distinct (cn_pending n) \<and> set (cn_pending n) \<subseteq> cap_names_of n
     \<and> distinct (cn_enabled n) \<and> set (cn_enabled n) \<subseteq> cap_names_of n
     \<and> ack_ok (cap_names_of n) (cn_ack_lines n)
     \<and> offers_ok (cap_names_of n) (cn_offered n)
     \<and> (cn_phase n = CpListing \<longrightarrow> cn_pending n = [])"

lemma requested_inv:
  assumes "cap_inv n" "requested_from (set (cn_optional n)) n new" "cn_phase n \<noteq> CpListing"
  shows "cap_inv (n\<lparr>cn_pending := cn_pending n @ new\<rparr>)"
  using assms by (auto simp: cap_inv_def requested_from_def cap_names_of_def)

lemma request_optional_inv:
  "cap_inv n \<Longrightarrow> cn_phase n \<noteq> CpListing \<Longrightarrow> cap_inv (snd (request_optional st n))"
  by (rule request_optional_cases [of st n]) (simp add: requested_inv)

lemma filter_update_keys:
  "length (filter P (map fst (AList.update k v xs))) \<le> length (filter P (map fst xs)) + (if P k \<and> k \<notin> set (map fst xs) then 1 else 0)"
proof (induction xs)
  case (Cons x xs)
  then show ?case by (cases x) (auto split: if_splits intro: rev_image_eqI)
qed simp

lemma count_bound: "a \<le> b + (if P then 1 else 0) \<Longrightarrow> b \<le> m \<Longrightarrow> (P \<Longrightarrow> b < m) \<Longrightarrow> a \<le> (m :: nat)"
  by (cases P) auto

lemma offers_update:
  assumes "offers_ok names offered" "k \<in> names \<or> k \<in> fst ` set offered \<or> length offered < MAX_OFFERED"
    "case v of None \<Rightarrow> True | Some v \<Rightarrow> blen v \<le> MAX_CAP_VALUE_BYTES"
  shows "offers_ok names (AList.update k v offered)"
proof -
  let ?count = "\<lambda>xs. length (filter (\<lambda>k. k \<notin> names) (map fst xs))"
  have few: "?count offered \<le> length offered" by (metis length_filter_le length_map)
  have "?count (AList.update k v offered) \<le> ?count offered + (if k \<notin> names \<and> k \<notin> set (map fst offered) then 1 else 0)"
    by (rule filter_update_keys)
  moreover have "?count offered \<le> MAX_OFFERED" using assms(1) by (simp add: offers_ok_def)
  moreover have "?count offered < MAX_OFFERED" if "k \<notin> names \<and> k \<notin> set (map fst offered)"
  proof -
    have "length offered < MAX_OFFERED" using that assms(2) by auto
    then show ?thesis using few by linarith
  qed
  ultimately have "length (filter (\<lambda>k. k \<notin> names) (map fst (AList.update k v offered))) \<le> MAX_OFFERED"
    by (rule count_bound) simp_all
  moreover have "distinct (map fst (AList.update k v offered))"
    using assms(1) by (simp add: offers_ok_def distinct_update)
  moreover have "case w of None \<Rightarrow> True | Some w \<Rightarrow> blen w \<le> MAX_CAP_VALUE_BYTES"
    if "(j, w) \<in> set (AList.update k v offered)" for j w
    using set_update_subset [of k v offered] that assms(1,3) by (fastforce simp: offers_ok_def)
  ultimately show ?thesis by (auto simp: offers_ok_def)
qed

lemma remember_offer_inv: "cap_inv n \<Longrightarrow> cap_inv (remember_offer token n)"
proof -
  assume inv: "cap_inv n"
  have "cap_inv (n\<lparr>cn_offered := AList.update name v (cn_offered n)\<rparr>)"
    if "\<not> (\<not> (name = SASL \<or> name \<in> set (cn_optional n)) \<and> \<not> is_offered name n \<and> MAX_OFFERED \<le> length (cn_offered n))"
      "case v of None \<Rightarrow> True | Some v \<Rightarrow> blen v \<le> MAX_CAP_VALUE_BYTES" for name v
  proof -
    have "name \<in> cap_names_of n \<or> name \<in> fst ` set (cn_offered n) \<or> length (cn_offered n) < MAX_OFFERED"
      using that(1) by (auto simp: cap_names_of_def is_offered_def dest!: map_of_SomeD) (force dest: map_of_SomeD)+
    then have "offers_ok (cap_names_of n) (AList.update name v (cn_offered n))"
      using inv that(2) by (intro offers_update) (auto simp: cap_inv_def)
    then show ?thesis using inv by (simp add: cap_inv_def cap_names_of_def)
  qed
  then show ?thesis
    using inv by (auto simp: remember_offer_def Let_def split: option.split prod.split)
qed

lemma fold_inv: "(\<And>x s. x \<in> set xs \<Longrightarrow> P s \<Longrightarrow> P (f x s)) \<Longrightarrow> P s \<Longrightarrow> P (fold f xs s)"
  by (induction xs arbitrary: s) simp_all

lemma remember_offer_frame:
  "cn_phase (remember_offer token n) = cn_phase n" "cn_pending (remember_offer token n) = cn_pending n"
  "cn_sasl (remember_offer token n) = cn_sasl n" "cn_optional (remember_offer token n) = cn_optional n"
  "cn_enabled (remember_offer token n) = cn_enabled n"
  by (simp_all add: remember_offer_def Let_def split: prod.split)

lemma remember_offers_frame [simp]:
  "cn_phase (remember_offers list' n) = cn_phase n" "cn_pending (remember_offers list' n) = cn_pending n"
  "cn_sasl (remember_offers list' n) = cn_sasl n" "cn_optional (remember_offers list' n) = cn_optional n"
  "cn_enabled (remember_offers list' n) = cn_enabled n"
  unfolding remember_offers_def
  by (rule fold_inv [where P = "\<lambda>m. _ m = _ n"]; simp add: remember_offer_frame)+

lemma remember_offers_inv: "cap_inv n \<Longrightarrow> cap_inv (remember_offers list' n)"
  unfolding remember_offers_def by (rule fold_inv) (auto intro: remember_offer_inv)

lemma append_ack_token_inv:
  assumes "cap_inv n"
  shows "cap_inv (append_ack_token token n)"
proof -
  have "token \<in> cap_names_of n \<union> (@) (lit ''-'') ` cap_names_of n"
    if "case strip_prefix (lit ''-'') token of Some name \<Rightarrow> cap_enabled name n | None \<Rightarrow> token \<in> set (cn_pending n)"
    using that assms by (auto simp: cap_inv_def cap_enabled_def strip_prefix_Some split: option.splits)
  then show ?thesis
    using assms by (auto simp: append_ack_token_def cap_inv_def cap_names_of_def ack_ok_def Let_def)
qed

lemma append_ack_token_frame:
  "cn_phase (append_ack_token token n) = cn_phase n" "cn_pending (append_ack_token token n) = cn_pending n"
  "cn_sasl (append_ack_token token n) = cn_sasl n" "cn_optional (append_ack_token token n) = cn_optional n"
  "cn_enabled (append_ack_token token n) = cn_enabled n" "cn_offered (append_ack_token token n) = cn_offered n"
  "cn_explicit (append_ack_token token n) = cn_explicit n"
  by (simp_all add: append_ack_token_def Let_def)

lemma append_ack_frame [simp]:
  "cn_phase (append_ack list' n) = cn_phase n" "cn_pending (append_ack list' n) = cn_pending n"
  "cn_sasl (append_ack list' n) = cn_sasl n" "cn_optional (append_ack list' n) = cn_optional n"
  "cn_enabled (append_ack list' n) = cn_enabled n" "cn_offered (append_ack list' n) = cn_offered n"
  "cn_explicit (append_ack list' n) = cn_explicit n"
  unfolding append_ack_def
  by (rule fold_inv [where P = "\<lambda>m. _ m = _ n"]; simp add: append_ack_token_frame)+

lemma append_ack_inv: "cap_inv n \<Longrightarrow> cap_inv (append_ack list' n)"
  unfolding append_ack_def by (rule fold_inv) (auto intro: append_ack_token_inv)

lemma no_acks_inv: "cap_inv n \<Longrightarrow> cap_inv (n\<lparr>cn_ack_lines := []\<rparr>)"
  by (simp add: cap_inv_def cap_names_of_def ack_ok_def)

lemma sasl_inv [simp]: "cap_inv (n\<lparr>cn_sasl := h\<rparr>) = cap_inv n"
  by (simp add: cap_inv_def cap_names_of_def)

lemma answered_inv:
  assumes "cap_inv n" "token \<in> set (cn_pending n)"
  shows "cap_inv (n\<lparr>cn_pending := remove1 token (cn_pending n)\<rparr>)"
    "cap_inv (enable token (n\<lparr>cn_pending := remove1 token (cn_pending n)\<rparr>))"
  using assms by (auto simp: cap_inv_def cap_names_of_def enable_def cap_enabled_def)

lemma enable_frame [simp]:
  "cn_phase (enable x n) = cn_phase n" "cn_pending (enable x n) = cn_pending n" "cn_sasl (enable x n) = cn_sasl n"
  "cn_optional (enable x n) = cn_optional n" "cn_offered (enable x n) = cn_offered n"
  "cn_explicit (enable x n) = cn_explicit n"
  by (simp_all add: enable_def)

lemma acknowledge_one_inv:
  assumes inv: "cap_inv n"
  shows "cap_inv (snd (acknowledge_one cr raw token st n))"
proof (cases "strip_prefix (lit ''-'') token")
  case (Some name)
  then show ?thesis using inv by (auto simp: acknowledge_one_def cap_inv_def cap_names_of_def distinct_removeAll)
next
  case None
  show ?thesis
  proof (cases "token \<in> set (cn_pending n)")
    case True
    let ?n = "enable token (n\<lparr>cn_pending := remove1 token (cn_pending n)\<rparr>)"
    have n: "cap_inv ?n" by (rule answered_inv [OF inv True])
    have "cn_phase ?n \<noteq> CpListing" using inv True by (auto simp: cap_inv_def)
    then have "cap_inv (snd (request_optional st ?n))" for st by (rule request_optional_inv [OF n])
    then show ?thesis
      using None True n by (auto simp: acknowledge_one_def Let_def split: option.split prod.split sum.split)
  qed (use None inv in \<open>simp add: acknowledge_one_def\<close>)
qed

lemma acknowledge_inv: "cap_inv n \<Longrightarrow> cap_inv (snd (acknowledge cr raw tokens st n))"
proof (induction tokens arbitrary: st n)
  case (Cons token tokens)
  then show ?case
    using acknowledge_one_inv [OF Cons.prems, of cr raw token st] by (auto split: prod.split sum.split)
qed simp

lemma decline_inv: "cap_inv n \<Longrightarrow> cap_inv (snd (decline names st n))"
proof (induction names arbitrary: st n)
  case (Cons name names)
  then show ?case using answered_inv(1) by (auto simp: Let_def)
qed simp

lemma offers_delete:
  assumes "offers_ok names offered"
  shows "offers_ok names (AList.delete k offered)"
proof -
  have "length (filter P (removeAll k xs)) \<le> length (filter P xs)" for P :: "rstring \<Rightarrow> bool" and xs
    by (induction xs) auto
  then have "length (filter (\<lambda>k. k \<notin> names) (map fst (AList.delete k offered))) \<le> MAX_OFFERED"
    using assms unfolding offers_ok_def AList.delete_keys by (meson le_trans)
  then show ?thesis
    using assms set_delete_subset [of k offered]
    by (auto simp del: filter_map simp: offers_ok_def AList.delete_keys distinct_removeAll)
qed

lemma withdraw_inv:
  assumes "cap_inv n"
  shows "cap_inv (snd (fold withdraw_one names (st, n)))"
proof (rule fold_inv [where P = "\<lambda>s. cap_inv (snd s)"])
  fix name and s :: "cap_step \<times> cap_negotiation"
  assume "cap_inv (snd s)"
  then show "cap_inv (snd (withdraw_one name s))"
    using offers_delete by (cases s) (auto simp: withdraw_one_def Let_def cap_inv_def cap_names_of_def distinct_removeAll)
qed (simp add: assms)

lemma enforce_inv:
  assumes "cap_inv n"
  shows "cap_inv (snd (enforce_dependencies st n))"
proof -
  have "cap_inv (snd (fold enforce_one names (st, n)))" for names
  proof (rule fold_inv [where P = "\<lambda>s. cap_inv (snd s)"])
    fix name and s :: "cap_step \<times> cap_negotiation"
    assume "cap_inv (snd s)"
    then show "cap_inv (snd (enforce_one name s))"
      by (cases s) (auto simp: enforce_one_def Let_def cap_inv_def cap_names_of_def distinct_removeAll)
  qed (simp add: assms)
  moreover have "enforce_dependencies st n = (st, n)
    \<or> enforce_dependencies st n = fold enforce_one [METADATA, CHATHISTORY, LABELED_RESPONSE] (st, n)"
    by (simp only: enforce_dependencies_def split: if_split) blast
  ultimately show ?thesis using assms by (metis snd_conv)
qed

lemma end_inv: "cap_inv n \<Longrightarrow> cap_inv (snd (end_if_settled st n))"
  by (simp add: end_if_settled_def cap_inv_def cap_names_of_def)

lemma after_listing_inv:
  assumes "cap_inv n" "cn_phase n = CpListing"
  shows "cap_inv (snd (request_after_listing st n))"
proof -
  let ?n = "n\<lparr>cn_phase := CpRequesting\<rparr>"
  have n: "cap_inv ?n" using assms by (simp add: cap_inv_def cap_names_of_def)
  have "cap_inv (?n\<lparr>cn_pending := cn_pending ?n @ [SASL]\<rparr>)"
    using assms by (simp add: cap_inv_def cap_names_of_def)
  then show ?thesis
    using n by (auto simp: request_after_listing_def Let_def intro: request_optional_inv split: option.split)
qed

lemma observe_cap_inv:
  assumes "cap_inv n"
  shows "cap_inv (snd (observe_cap cr raw sub continued list' n))"
proof -
  have "cap_inv (snd (acknowledge cr raw (cn_ack_lines (append_ack list' n)) step_default ((append_ack list' n)\<lparr>cn_ack_lines := []\<rparr>)))"
    by (intro acknowledge_inv no_acks_inv append_ack_inv assms)
  then show ?thesis
    using assms
    by (auto simp: observe_cap_def Let_def intro: remember_offers_inv after_listing_inv append_ack_inv decline_inv
        withdraw_inv request_optional_inv)
qed

lemma dispatch_inv: "cap_inv n \<Longrightarrow> cap_inv (snd (cap_dispatch cr raw m n))"
  using observe_cap_inv by (auto simp: cap_dispatch_def split: option.split prod.split sum.split)

text \<open>An accepted message: what is done first, then the dependencies, then the end.\<close>

lemma cap_observe_cases:
  obtains (inactive) "cn_phase n = CpInactive" "cap_observe cr raw m n = (Inr step_default, n)"
  | (refused) error n1 where "cn_phase n \<noteq> CpInactive" "cap_dispatch cr raw m n = (Inl error, n1)"
      "cap_observe cr raw m n = (Inl error, n1)"
  | (accepted) st1 n1 st2 n2 st3 n3 where "cn_phase n \<noteq> CpInactive" "cap_dispatch cr raw m n = (Inr st1, n1)"
      "enforce_dependencies st1 n1 = (st2, n2)" "end_if_settled st2 n2 = (st3, n3)"
      "cap_observe cr raw m n = (Inr st3, n3)"
proof (cases "cn_phase n = CpInactive")
  case True
  then show ?thesis using inactive by (simp add: cap_observe_def)
next
  case False
  obtain r n1 where r: "cap_dispatch cr raw m n = (r, n1)" by (rule prod.exhaust)
  show ?thesis
  proof (cases r)
    case (Inl error)
    then show ?thesis using refused False r by (simp add: cap_observe_def)
  next
    case (Inr st1)
    obtain st2 n2 where e: "enforce_dependencies st1 n1 = (st2, n2)" by (rule prod.exhaust)
    obtain st3 n3 where "end_if_settled st2 n2 = (st3, n3)" by (rule prod.exhaust)
    then show ?thesis using accepted False r Inr e by (simp add: cap_observe_def)
  qed
qed

lemma cap_call_inv:
  assumes "cap_inv n"
  shows "cap_inv (snd (cap_call cr op n))"
proof (cases op)
  case (CoObserve raw m)
  show ?thesis
  proof (cases rule: cap_observe_cases [of n cr raw m])
    case (accepted st1 n1 st2 n2 st3 n3)
    then have "cap_inv n1" using dispatch_inv [OF assms, of cr raw m] by simp
    then have "cap_inv n2" using enforce_inv [of n1 st1] accepted by simp
    then show ?thesis using end_inv [of n2 st2] accepted CoObserve by simp
  next
    case (refused error n1)
    then show ?thesis using dispatch_inv [OF assms, of cr raw m] CoObserve by simp
  qed (use assms CoObserve in simp)
next
  case (CoDerived d)
  then show ?thesis using assms by (auto simp: cap_derived_def split: option.split prod.split sum.split)
qed

lemma cap_new_inv: "cap_inv (cap_started o' sasl utf8')"
proof -
  have "SASL \<notin> set (cn_optional (cap_new o' sasl utf8'))"
    by (auto simp: cap_new_def optional_of_def wanted_def cap_names lit_def Let_def)
  then show ?thesis
    by (simp add: cap_started_def cap_start_def cap_inv_def cap_new_def ack_ok_def offers_ok_def Let_def)
qed

lemma cap_run_inv: "cap_inv n \<Longrightarrow> cap_inv (cap_run cr ops n)"
  by (induction ops arbitrary: n) (simp_all add: cap_call_inv)

section \<open>Lines and phases\<close>

text \<open>What a handshake sends is never the end of the negotiation.\<close>

definition quiet :: "command list \<Rightarrow> bool" where
  "quiet lines \<longleftrightarrow> cap_end \<notin> set lines"

lemma quiet_simps [simp]:
  "quiet []" "quiet (xs @ ys) \<longleftrightarrow> quiet xs \<and> quiet ys" "quiet (AUTHENTICATE s # xs) \<longleftrightarrow> quiet xs"
  "quiet (map AUTHENTICATE ss)" "quiet (map cap_request ss)" "quiet (cap_request s # xs) \<longleftrightarrow> quiet xs"
  "quiet (authenticate_lines cr payload)"
  by (auto simp: quiet_def cap_end_def cap_request_def authenticate_lines_def Let_def)

lemma handle_quiet:
  assumes "sasl_handle cr payload out h = (None, out', h')" "quiet (ou_send out)"
  shows "quiet (ou_send out')"
  using assms
  by (cases "sh_phase h")
    (auto simp: sasl_handle_def handle_starting_def handle_challenge_def handle_scram_first_def handle_scram_final_def
      initial_response_def noted_def sending_def Let_def split: if_splits option.splits prod.splits sum.splits)

lemma default_quiet [simp]: "quiet (ou_send out_default)" "quiet (cs_send step_default)"
  by (simp_all add: out_default_def step_default_def)

lemma sasl_quiet:
  "sasl_observe cr m h = (Inr out, h') \<Longrightarrow> quiet (ou_send out)"
  "sasl_begin cr raw h = (Inr out, h') \<Longrightarrow> quiet (ou_send out)"
  "sasl_derived cr d h = (Inr out, h') \<Longrightarrow> quiet (ou_send out)"
proof -
  assume o: "sasl_observe cr m h = (Inr out, h')"
  show "quiet (ou_send out)"
  proof (cases "m_command m")
    case (AUTHENTICATE chunk)
    then have a: "observe_authenticate cr chunk h = (Inr out, h')" using o by (simp add: sasl_observe_def)
    show ?thesis
    proof (cases rule: authenticate_cases [of cr chunk h])
      case (handled i payload out' h'')
      then show ?thesis using a handle_quiet [of cr payload out_default _ out' h''] by auto
    qed (use a in \<open>auto simp: observe_authenticate_def client_error_def Let_def intro: handle_quiet
        split: prod.splits sum.splits option.splits if_splits\<close>)
  qed (use o in \<open>auto simp: sasl_observe_def noted_def split: if_splits sasl_phase.splits\<close>)
next
  assume "sasl_begin cr raw h = (Inr out, h')"
  then show "quiet (ou_send out)"
    by (auto simp: sasl_begin_def noted_def sending_def out_default_def Let_def split: if_splits option.splits sum.splits)
next
  assume "sasl_derived cr d h = (Inr out, h')"
  then show "quiet (ou_send out)"
    by (auto simp: sasl_derived_def noted_def sending_def split: if_splits option.splits prod.splits)
qed

lemma take_quiet [simp]: "quiet (cs_send (step_take out st)) \<longleftrightarrow> quiet (cs_send st) \<and> quiet (ou_send out)"
  by (simp add: step_take_def)

lemma note_send [simp]: "cs_send (step_note x st) = cs_send st" "cs_send (step_send c st) = cs_send st @ [c]"
  by (simp_all add: step_note_def step_send_def)

text \<open>Steps that send only requests and lines of the handshake, and keep the phase and what is wanted.\<close>

definition plain_step :: "cap_step \<Rightarrow> cap_negotiation \<Rightarrow> cap_step \<Rightarrow> cap_negotiation \<Rightarrow> bool" where
  "plain_step st n st' n' \<longleftrightarrow>
     (quiet (cs_send st) \<longrightarrow> quiet (cs_send st')) \<and> cn_phase n' = cn_phase n \<and> cn_optional n' = cn_optional n
     \<and> cn_explicit n' = cn_explicit n \<and> (cn_sasl n = None \<longrightarrow> cn_sasl n' = None)"

lemma apfst_Inr [simp]: "apfst Inr p = (Inr a, b) \<longleftrightarrow> p = (a, b)" "apfst Inr p \<noteq> (Inl e, b)"
  by (cases p; auto)+

lemma plain_refl: "plain_step st n st n"
  by (simp add: plain_step_def)

lemma plain_trans: "plain_step st n st' n' \<Longrightarrow> plain_step st' n' st'' n'' \<Longrightarrow> plain_step st n st'' n''"
  by (auto simp: plain_step_def)

lemma request_optional_plain:
  assumes "request_optional st n = (st', n')"
  shows "plain_step st n st' n'" "cn_sasl n' = cn_sasl n" "cn_enabled n' = cn_enabled n"
    "cn_ack_lines n' = cn_ack_lines n"
proof -
  have "plain_step st n st' n' \<and> cn_sasl n' = cn_sasl n \<and> cn_enabled n' = cn_enabled n \<and> cn_ack_lines n' = cn_ack_lines n"
    by (rule request_optional_cases [of st n]) (use assms in \<open>auto simp: plain_step_def\<close>)
  then show "plain_step st n st' n'" "cn_sasl n' = cn_sasl n" "cn_enabled n' = cn_enabled n"
    "cn_ack_lines n' = cn_ack_lines n" by simp_all
qed

lemma acknowledge_one_plain:
  assumes "acknowledge_one cr raw token st n = (Inr st', n')"
  shows "plain_step st n st' n'"
proof (cases "strip_prefix (lit ''-'') token")
  case (Some name)
  then show ?thesis using assms by (auto simp: acknowledge_one_def plain_step_def)
next
  case None
  show ?thesis
  proof (cases "token \<in> set (cn_pending n)")
    case True
    let ?n = "enable token (n\<lparr>cn_pending := remove1 token (cn_pending n)\<rparr>)"
    have "plain_step st n (step_note x st) ?n" for x by (simp add: plain_step_def)
    moreover have "plain_step st n (step_take out (step_note x st)) (?n\<lparr>cn_sasl := Some h'\<rparr>)"
      if "cn_sasl n = Some h" "sasl_begin cr raw h = (Inr out, h')" for x out h h'
      using sasl_quiet(2) [OF that(2)] that(1) by (simp add: plain_step_def)
    moreover have "plain_step st n st'' n''"
      if "request_optional (step_note x st) ?n = (st'', n'')" for x st'' n''
      using request_optional_plain(1) [OF that] by (auto simp: plain_step_def)
    ultimately show ?thesis
      using assms None True
      by (auto simp: acknowledge_one_def Let_def split: if_splits option.splits prod.splits sum.splits)
  qed (use None assms in \<open>auto simp: acknowledge_one_def plain_refl\<close>)
qed

lemma acknowledge_plain: "acknowledge cr raw tokens st n = (Inr st', n') \<Longrightarrow> plain_step st n st' n'"
proof (induction tokens arbitrary: st n)
  case (Cons token tokens)
  then show ?case
    by (auto split: prod.splits sum.splits intro: plain_trans dest: acknowledge_one_plain)
qed (simp add: plain_refl)

lemma decline_plain: "decline names st n = (Inr st', n') \<Longrightarrow> plain_step st n st' n'"
proof (induction names arbitrary: st n)
  case (Cons name names)
  then show ?case by (force simp: Let_def plain_step_def split: if_splits)
qed (simp add: plain_refl)

lemma withdraw_plain: "fold withdraw_one names (st, n) = (st', n') \<Longrightarrow> plain_step st n st' n'"
proof (induction names arbitrary: st n)
  case (Cons name names)
  obtain st1 n1 where w: "withdraw_one name (st, n) = (st1, n1)" by (rule prod.exhaust)
  then have "plain_step st n st1 n1" by (auto simp: withdraw_one_def plain_step_def Let_def split: if_splits)
  then show ?case using Cons w by (auto intro: plain_trans)
qed (simp add: plain_refl)

lemma enforce_one_plain: "enforce_one name (st, n) = (st', n') \<Longrightarrow> plain_step st n st' n'"
  by (auto simp: enforce_one_def plain_step_def Let_def split: if_splits)

lemma enforce_plain: "enforce_dependencies st n = (st', n') \<Longrightarrow> plain_step st n st' n'"
proof -
  assume e: "enforce_dependencies st n = (st', n')"
  have "plain_step st n st' n'" if "fold enforce_one names (st, n) = (st', n')" for names
    using that
  proof (induction names arbitrary: st n)
    case (Cons name names)
    obtain st1 n1 where w: "enforce_one name (st, n) = (st1, n1)" by (rule prod.exhaust)
    then show ?case using Cons enforce_one_plain [OF w] by (auto intro: plain_trans)
  qed (simp add: plain_refl)
  then show ?thesis using e plain_refl unfolding enforce_dependencies_def by (metis prod.inject)
qed

lemma after_listing_phase:
  assumes "request_after_listing st n = (Inr st', n')"
  shows "plain_step st (n\<lparr>cn_phase := CpRequesting\<rparr>) st' n'"
proof -
  let ?n = "n\<lparr>cn_phase := CpRequesting\<rparr>"
  show ?thesis
  proof (cases "cn_sasl n")
    case None
    then show ?thesis
      using assms request_optional_plain(1) [of st ?n] by (auto simp: request_after_listing_def Let_def)
  next
    case (Some h)
    then obtain x where "request_optional (step_send (cap_request SASL) (step_note x st)) (?n\<lparr>cn_pending := cn_pending n @ [SASL]\<rparr>)
        = (st', n')"
      using assms by (auto simp: request_after_listing_def Let_def split: if_splits option.splits)
    then show ?thesis
      using request_optional_plain(1) by (fastforce simp: plain_step_def)
  qed
qed

lemma dispatch_plain:
  assumes "cap_dispatch cr raw m n = (Inr st, n1)"
  shows "plain_step step_default n st n1
    \<or> (cn_phase n = CpListing \<and> plain_step step_default (n\<lparr>cn_phase := CpRequesting\<rparr>) st n1)"
proof (cases "cap_reply (m_command m)")
  case None
  show ?thesis
  proof (cases "cn_sasl n")
    case (Some h)
    then obtain out h' where "sasl_observe cr m h = (Inr out, h')" "st = step_take out step_default"
      "n1 = n\<lparr>cn_sasl := Some h'\<rparr>"
      using assms None by (auto simp: cap_dispatch_def split: prod.splits sum.splits)
    then show ?thesis using sasl_quiet(1) Some by (simp add: plain_step_def)
  qed (use None assms in \<open>auto simp: cap_dispatch_def plain_refl\<close>)
next
  case (Some r)
  then obtain sub continued list' where o: "observe_cap cr raw sub continued list' n = (Inr st, n1)"
    using assms by (cases r) (auto simp: cap_dispatch_def)
  have offers: "plain_step step_default n step_default (remember_offers list' n)"
    by (simp add: plain_step_def) (simp add: remember_offers_def fold_inv [where P = "\<lambda>m. cn_explicit m = cn_explicit n"] remember_offer_def Let_def split: prod.split)
  have listing: "plain_step step_default (n\<lparr>cn_phase := CpRequesting\<rparr>) st n1"
    if "request_after_listing step_default (remember_offers list' n) = (Inr st, n1)"
    using after_listing_phase [OF that] offers by (simp add: plain_step_def)
  have ack: "plain_step step_default n st n1"
    if "acknowledge cr raw (cn_ack_lines (append_ack list' n)) step_default ((append_ack list' n)\<lparr>cn_ack_lines := []\<rparr>) = (Inr st, n1)"
    using acknowledge_plain [OF that] by (simp add: plain_step_def)
  have appended: "plain_step step_default n step_default (append_ack list' n)"
    by (simp add: plain_step_def)
  have new: "plain_step step_default n st n1"
    if "request_optional step_default (remember_offers list' n) = (st, n1)"
    using request_optional_plain(1) [OF that] offers by (rule plain_trans [rotated])
  show ?thesis
    using o listing ack new offers appended decline_plain withdraw_plain plain_refl
    by (auto simp: observe_cap_def Let_def split: if_splits)
qed

end
