(* ===== verification/CapabilityProperties.thy ===== *)
theory CapabilityProperties
  imports CapabilityRuns
begin

text \<open>
  The properties of the negotiation of capabilities, over every run of \<open>CapabilityRuns\<close>: bounds, dependencies,
  the end of the negotiation, the login, and that a server which answers ends it.
\<close>

interpretation capabilities: machine "\<lambda>op n. snd (cap_call cr op n)" "\<lambda>_ _. True"
  "\<lambda>n. \<exists>o' sasl utf8'. n = cap_started o' sasl utf8'" cap_inv
  by unfold_locales (auto intro: cap_new_inv cap_call_inv)

section \<open>Bounds\<close>

lemma started_optional:
  "cn_optional (cap_started o' sasl utf8') = cn_optional (cap_new o' sasl utf8')"
  "length (cn_optional (cap_new o' sasl utf8')) \<le> 11"
  by (auto simp: cap_started_def cap_start_def cap_new_def optional_of_def wanted_def Let_def)

lemma fold_keeps: "(\<And>x s. g (f x s) = g s) \<Longrightarrow> g (fold f xs s) = g s"
  by (induction xs arbitrary: s) simp_all

text \<open>What is wanted never changes, accepted or not.\<close>

lemma optional_requests [simp]: "cn_optional (snd (request_optional st n)) = cn_optional n"
  by (rule request_optional_cases [of st n]) simp

lemma optional_acknowledge [simp]: "cn_optional (snd (acknowledge cr raw tokens st n)) = cn_optional n"
proof (induction tokens arbitrary: st n)
  case (Cons token tokens)
  have "cn_optional (snd (acknowledge_one cr raw token st n)) = cn_optional n"
    by (auto simp: acknowledge_one_def Let_def split: option.split prod.split sum.split)
  then show ?case using Cons by (auto split: prod.split sum.split)
qed simp

lemma optional_decline [simp]: "cn_optional (snd (decline names st n)) = cn_optional n"
  by (induction names arbitrary: st n) (auto simp: Let_def)

lemma optional_withdraw [simp]: "cn_optional (snd (fold withdraw_one names s)) = cn_optional (snd s)"
  by (rule fold_keeps) (auto simp: withdraw_one_def Let_def split: prod.split)

lemma optional_enforce [simp]: "cn_optional (snd (enforce_dependencies st n)) = cn_optional n"
proof -
  have "cn_optional (snd (enforce_one name s)) = cn_optional (snd s)" for name s
    by (auto simp: enforce_one_def Let_def split: prod.split)
  then show ?thesis by (simp add: enforce_dependencies_def)
qed

lemma optional_listing [simp]: "cn_optional (snd (request_after_listing st n)) = cn_optional n"
  by (simp add: request_after_listing_def Let_def split: option.split)

lemma optional_dispatch: "cn_optional (snd (cap_dispatch cr raw m n)) = cn_optional n"
  by (auto simp: cap_dispatch_def observe_cap_def Let_def split: option.split prod.split sum.split)

lemma optional_constant: "cn_optional (snd (cap_call cr op n)) = cn_optional n"
proof (cases op)
  case (CoObserve raw m)
  show ?thesis
  proof (cases rule: cap_observe_cases [of n cr raw m])
    case (accepted st1 n1 st2 n2 st3 n3)
    then have "cn_optional n3 = cn_optional n2" by (auto simp: end_if_settled_def split: if_splits)
    then show ?thesis
      using accepted CoObserve optional_dispatch [of cr raw m n] optional_enforce [of st1 n1] by simp
  next
    case (refused error n1)
    then show ?thesis using CoObserve optional_dispatch [of cr raw m n] by simp
  qed (use CoObserve in simp)
next
  case (CoDerived d)
  then show ?thesis by (auto simp: cap_derived_def split: option.split prod.split sum.split)
qed

lemma optional_run [simp]: "cn_optional (cap_run cr ops n) = cn_optional n"
  by (induction ops arbitrary: n) (simp_all add: optional_constant)

lemma offers_bound:
  assumes "offers_ok names offered" "finite names"
  shows "length offered \<le> MAX_OFFERED + card names"
proof -
  let ?keys = "map fst offered"
  have "length (filter (\<lambda>k. k \<in> names) ?keys) = card (set (filter (\<lambda>k. k \<in> names) ?keys))"
    using assms(1) by (intro distinct_card [symmetric] distinct_filter) (simp add: offers_ok_def)
  also have "\<dots> \<le> card names" using assms(2) by (intro card_mono) auto
  finally have "length (filter (\<lambda>k. k \<in> names) ?keys) \<le> card names" .
  moreover have "length ?keys = length (filter (\<lambda>k. k \<in> names) ?keys) + length (filter (\<lambda>k. k \<notin> names) ?keys)"
    by (rule sum_length_filter_compl [symmetric])
  moreover have "length (filter (\<lambda>k. k \<notin> names) ?keys) \<le> MAX_OFFERED" using assms(1) by (simp add: offers_ok_def)
  ultimately have "length ?keys \<le> MAX_OFFERED + card names" by linarith
  then show ?thesis by simp
qed

text \<open>C17. Whatever a server sends, the tables of a negotiation stay bounded: at most twelve requests wait and twelve
  capabilities are enabled, each once and each one this client may ask for, the parts of a long acknowledgement
  kept are at most twenty-four, at most 268 offers are remembered, and none of their values is over 512 bytes.\<close>

theorem capabilities_bounded:
  "let n = cap_run cr ops (cap_started o' sasl utf8')
   in length (cn_pending n) \<le> 12 \<and> length (cn_enabled n) \<le> 12 \<and> distinct (cn_pending n) \<and> distinct (cn_enabled n)
      \<and> set (cn_pending n) \<union> set (cn_enabled n) \<subseteq> cap_names_of n
      \<and> length (cn_ack_lines n) \<le> 24 \<and> length (cn_offered n) \<le> MAX_OFFERED + 12
      \<and> list_all (\<lambda>(k, v). case v of None \<Rightarrow> True | Some v \<Rightarrow> blen v \<le> MAX_CAP_VALUE_BYTES) (cn_offered n)"
proof -
  let ?n = "cap_run cr ops (cap_started o' sasl utf8')"
  have inv: "cap_inv ?n" by (intro cap_run_inv cap_new_inv)
  have names: "card (cap_names_of ?n) \<le> 12" "finite (cap_names_of ?n)"
    using started_optional [of o' sasl utf8'] card_length [of "cn_optional (cap_started o' sasl utf8')"]
    by (auto simp: cap_names_of_def card_insert_if)
  have few: "length xs \<le> 12" if "distinct xs" "set xs \<subseteq> cap_names_of ?n" for xs
    using card_mono [OF names(2) that(2)] distinct_card [OF that(1)] names(1) by linarith
  have "length (cn_ack_lines ?n) = card (set (cn_ack_lines ?n))"
    using inv by (intro distinct_card [symmetric]) (simp add: cap_inv_def ack_ok_def)
  also have "\<dots> \<le> card (cap_names_of ?n \<union> (@) (lit ''-'') ` cap_names_of ?n)"
    using inv names(2) by (intro card_mono) (auto simp: cap_inv_def ack_ok_def)
  also have "\<dots> \<le> card (cap_names_of ?n) + card ((@) (lit ''-'') ` cap_names_of ?n)" by (rule card_Un_le)
  also have "\<dots> \<le> 12 + 12" using names card_image_le [OF names(2), of "(@) (lit ''-'')"] by linarith
  finally have acks: "length (cn_ack_lines ?n) \<le> 24" by simp
  have "length (cn_offered ?n) \<le> MAX_OFFERED + 12"
    using offers_bound [of "cap_names_of ?n" "cn_offered ?n"] names inv by (simp add: cap_inv_def)
  then show ?thesis
    using inv few acks by (simp add: Let_def cap_inv_def offers_ok_def list_all_iff)
qed

section \<open>Dependencies\<close>

text \<open>Nothing that needs batches is enabled or asked for without them.\<close>

definition batches_held :: "cap_negotiation \<Rightarrow> bool" where
  "batches_held n \<longleftrightarrow>
     (\<forall>x. needs_batch x \<and> (cap_enabled x n \<or> x \<in> set (cn_pending n)) \<longrightarrow> cap_enabled CAP_BATCH n)"

lemma enforce_one_effect:
  assumes "enforce_one name (st, n) = (st', n')"
  shows "set (cn_enabled n') = set (cn_enabled n) - {name}" "set (cn_pending n') = set (cn_pending n) - {name}"
  using assms by (auto simp: enforce_one_def Let_def cap_enabled_def split: if_splits)

lemma enforce_held:
  assumes "enforce_dependencies st n = (st', n')"
  shows "batches_held n'"
proof (cases "cap_enabled CAP_BATCH n")
  case True
  then show ?thesis using assms by (simp add: enforce_dependencies_def batches_held_def)
next
  case False
  obtain st1 n1 where e1: "enforce_one METADATA (st, n) = (st1, n1)" by (rule prod.exhaust)
  obtain st2 n2 where e2: "enforce_one CHATHISTORY (st1, n1) = (st2, n2)" by (rule prod.exhaust)
  have e3: "enforce_one LABELED_RESPONSE (st2, n2) = (st', n')"
    using assms False e1 e2 by (simp add: enforce_dependencies_def)
  show ?thesis
    using enforce_one_effect [OF e1] enforce_one_effect [OF e2] enforce_one_effect [OF e3]
    by (auto simp: batches_held_def needs_batch_def cap_enabled_def)
qed

lemma end_frame:
  assumes "end_if_settled st n = (st', n')"
  shows "cn_enabled n' = cn_enabled n" "cn_pending n' = cn_pending n" "cn_sasl n' = cn_sasl n"
    "cn_ack_lines n' = cn_ack_lines n" "cn_optional n' = cn_optional n"
  using assms by (auto simp: end_if_settled_def split: if_splits)

lemma derived_frame:
  assumes "cap_derived cr d n = (r, n')"
  shows "cn_enabled n' = cn_enabled n" "cn_pending n' = cn_pending n" "cn_phase n' = cn_phase n"
    "cn_ack_lines n' = cn_ack_lines n" "cn_optional n' = cn_optional n"
  using assms by (auto simp: cap_derived_def split: option.splits prod.splits sum.splits)

text \<open>A run in which no message was an error.\<close>

fun cap_accepts :: "crypto \<Rightarrow> cap_op list \<Rightarrow> cap_negotiation \<Rightarrow> bool" where
  "cap_accepts cr [] n = True"
| "cap_accepts cr (op # ops) n \<longleftrightarrow> \<not> isl (fst (cap_call cr op n)) \<and> cap_accepts cr ops (snd (cap_call cr op n))"

lemma accepted_run_inv:
  assumes "P n" "\<And>op n st n'. P n \<Longrightarrow> cap_call cr op n = (Inr st, n') \<Longrightarrow> P n'" "cap_accepts cr ops n"
  shows "P (cap_run cr ops n)"
  using assms(1,3)
proof (induction ops arbitrary: n)
  case (Cons op ops)
  obtain r n' where r: "cap_call cr op n = (r, n')" by (rule prod.exhaust)
  then obtain st where "r = Inr st" using Cons.prems by (cases r) auto
  then have "P n'" using assms(2) Cons.prems(1) r by blast
  then show ?case using Cons.IH [of n'] Cons.prems(2) r by simp
qed simp

lemma held_call:
  assumes "batches_held n" "cap_call cr op n = (Inr st, n')"
  shows "batches_held n'"
proof (cases op)
  case (CoObserve raw m)
  show ?thesis
  proof (cases rule: cap_observe_cases [of n cr raw m])
    case (accepted st1 n1 st2 n2 st3 n3)
    then show ?thesis
      using enforce_held [of st1 n1 st2 n2] end_frame [of st2 n2 st3 n3] assms(2) CoObserve
      by (auto simp: batches_held_def cap_enabled_def)
  qed (use assms CoObserve in auto)
next
  case (CoDerived d)
  then have "cap_derived cr d n = (Inr st, n')" using assms(2) by simp
  from derived_frame [OF this] show ?thesis using assms(1) by (simp add: batches_held_def cap_enabled_def)
qed

text \<open>The extensions that need batches and that some lines ask for.\<close>

definition asked :: "command list \<Rightarrow> rstring list" where
  "asked lines = filter (\<lambda>x. cap_request x \<in> set lines) [METADATA, CHATHISTORY, LABELED_RESPONSE]"

text \<open>A message that completes the acknowledgement of batches, with the parts of it kept so far.\<close>

definition acks_batch :: "cap_op \<Rightarrow> cap_negotiation \<Rightarrow> bool" where
  "acks_batch op n \<longleftrightarrow>
     (case op of
        CoDerived _ \<Rightarrow> False
      | CoObserve _ m \<Rightarrow>
          (case cap_reply (m_command m) of
             Some (sub, continued, names) \<Rightarrow>
               sub = lit ''ACK'' \<and> \<not> continued \<and> CAP_BATCH \<in> set (cn_ack_lines (append_ack names n))
           | None \<Rightarrow> False))"

lemma asked_iff: "x \<in> set (asked lines) \<longleftrightarrow> needs_batch x \<and> cap_request x \<in> set lines"
  by (auto simp: asked_def needs_batch_def)

lemma asked_none: "asked lines = [] \<longleftrightarrow> (\<forall>x. needs_batch x \<longrightarrow> cap_request x \<notin> set lines)"
  by (auto simp: asked_def filter_empty_conv needs_batch_def)

lemma asked_simps [simp]:
  "asked [] = []" "asked (xs @ ys) = [] \<longleftrightarrow> asked xs = [] \<and> asked ys = []"
  "asked (AUTHENTICATE s # xs) = [] \<longleftrightarrow> asked xs = []" "asked (map AUTHENTICATE ss) = []"
  "asked (authenticate_lines cr payload) = []" "asked (cap_end # xs) = [] \<longleftrightarrow> asked xs = []"
  "asked (map cap_request new) = [] \<longleftrightarrow> (\<forall>x \<in> set new. \<not> needs_batch x)"
  "asked (cap_request x # xs) = [] \<longleftrightarrow> \<not> needs_batch x \<and> asked xs = []"
  "asked (ou_send out_default) = []" "asked (cs_send step_default) = []"
  by (auto simp: asked_none cap_request_def cap_end_def authenticate_lines_def out_default_def step_default_def Let_def)

lemma withdrawn_names: "\<not> needs_batch (lit ''-'' @ METADATA)" "\<not> needs_batch (lit ''-'' @ CHATHISTORY)"
  "\<not> needs_batch (lit ''-'' @ LABELED_RESPONSE)" "\<not> needs_batch SASL"
  by (simp_all add: needs_batch_def cap_names lit_def)

text \<open>A handshake asks for nothing.\<close>

lemma handle_asked:
  assumes "sasl_handle cr payload out h = (None, out', h')" "asked (ou_send out) = []"
  shows "asked (ou_send out') = []"
  using assms
  by (cases "sh_phase h")
    (auto simp: sasl_handle_def handle_starting_def handle_challenge_def handle_scram_first_def handle_scram_final_def
      initial_response_def noted_def sending_def Let_def split: if_splits option.splits prod.splits sum.splits)

lemma sasl_asked:
  "sasl_observe cr m h = (Inr out, h') \<Longrightarrow> asked (ou_send out) = []"
  "sasl_begin cr raw h = (Inr out, h') \<Longrightarrow> asked (ou_send out) = []"
  "sasl_derived cr d h = (Inr out, h') \<Longrightarrow> asked (ou_send out) = []"
proof -
  assume o: "sasl_observe cr m h = (Inr out, h')"
  show "asked (ou_send out) = []"
  proof (cases "m_command m")
    case (AUTHENTICATE chunk)
    then have a: "observe_authenticate cr chunk h = (Inr out, h')" using o by (simp add: sasl_observe_def)
    show ?thesis
    proof (cases rule: authenticate_cases [of cr chunk h])
      case (handled i payload out' h'')
      then show ?thesis using a handle_asked [of cr payload out_default _ out' h''] by auto
    qed (use a in \<open>auto simp: observe_authenticate_def client_error_def Let_def intro: handle_asked
        split: prod.splits sum.splits option.splits if_splits\<close>)
  qed (use o in \<open>auto simp: sasl_observe_def noted_def split: if_splits sasl_phase.splits\<close>)
next
  assume "sasl_begin cr raw h = (Inr out, h')"
  then show "asked (ou_send out) = []"
    by (auto simp: sasl_begin_def noted_def sending_def out_default_def Let_def split: if_splits option.splits sum.splits)
next
  assume "sasl_derived cr d h = (Inr out, h')"
  then show "asked (ou_send out) = []"
    by (auto simp: sasl_derived_def noted_def sending_def split: if_splits option.splits prod.splits)
qed

lemma take_asked [simp]: "asked (cs_send (step_take out st)) = [] \<longleftrightarrow> asked (cs_send st) = [] \<and> asked (ou_send out) = []"
  by (simp add: step_take_def)

text \<open>Requests ask for what needs batches only where they are enabled.\<close>

lemma request_asked:
  assumes "request_optional st n = (st', n')" "asked (cs_send st) = []" "\<not> cap_enabled CAP_BATCH n"
  shows "asked (cs_send st') = [] \<and> cn_enabled n' = cn_enabled n"
  by (rule request_optional_cases [of st n]) (use assms in \<open>auto simp: requested_from_def\<close>)

lemma acknowledge_one_asked:
  assumes a: "acknowledge_one cr raw token st n = (Inr st', n')" and "token \<noteq> CAP_BATCH"
    and "asked (cs_send st) = []" "\<not> cap_enabled CAP_BATCH n"
  shows "asked (cs_send st') = [] \<and> \<not> cap_enabled CAP_BATCH n'"
proof (cases "strip_prefix (lit ''-'') token")
  case (Some name)
  then show ?thesis using assms by (auto simp: acknowledge_one_def cap_enabled_def)
next
  case None
  show ?thesis
  proof (cases "token \<in> set (cn_pending n)")
    case True
    define n1 where "n1 = enable token (n\<lparr>cn_pending := remove1 token (cn_pending n)\<rparr>)"
    have n1: "\<not> cap_enabled CAP_BATCH n1" using assms(2,4) by (auto simp: n1_def enable_def cap_enabled_def)
    show ?thesis
    proof (cases "token = SASL")
      case True
      show ?thesis
      proof (cases "cn_sasl n1")
        case unused: None
        then have "cn_sasl n = None" by (simp add: n1_def enable_def split: if_splits)
        then have "st' = step_note (lit ''Capability sasl enabled.'') st \<and> n' = n1"
          using a None True \<open>token \<in> set (cn_pending n)\<close> unused
          by (simp add: acknowledge_one_def n1_def Let_def)
        then show ?thesis using n1 assms(3) by simp
      next
        case (Some h)
        then have "cn_sasl n = Some h" by (simp add: n1_def enable_def split: if_splits)
        then obtain out h' where b: "sasl_begin cr raw h = (Inr out, h')"
            and st': "st' = step_take out (step_note (lit ''Capability sasl enabled.'') st)"
            and n': "n' = n1\<lparr>cn_sasl := Some h'\<rparr>"
          using a None True \<open>token \<in> set (cn_pending n)\<close>
          by (auto simp: acknowledge_one_def n1_def Let_def split: prod.splits sum.splits)
        have "cap_enabled CAP_BATCH n' = cap_enabled CAP_BATCH n1" by (simp add: n' cap_enabled_def)
        then show ?thesis using sasl_asked(2) [OF b] n1 assms(3) by (simp add: st')
      qed
    next
      case False
      let ?st = "step_note (lit ''Capability '' @ token @ lit '' enabled.'') st"
      have r: "(if token = CAP_BATCH \<or> token = MESSAGE_TAGS then request_optional ?st n1 else (?st, n1)) = (st', n')"
        using a None True False unfolding n1_def
        by (simp add: acknowledge_one_def Let_def split del: if_split)
      show ?thesis
      proof (cases "token = MESSAGE_TAGS")
        case True
        then have "request_optional ?st n1 = (st', n')" using r by simp
        then show ?thesis using request_asked [of ?st n1 st' n'] n1 assms(3) by (simp add: cap_enabled_def)
      next
        case other: False
        then have "st' = ?st \<and> n' = n1" using r assms(2) by simp
        then show ?thesis using n1 assms(3) by simp
      qed
    qed
  qed (use None assms in \<open>auto simp: acknowledge_one_def\<close>)
qed

lemma acknowledge_asked:
  "acknowledge cr raw tokens st n = (Inr st', n') \<Longrightarrow> CAP_BATCH \<notin> set tokens \<Longrightarrow> asked (cs_send st) = []
    \<Longrightarrow> \<not> cap_enabled CAP_BATCH n \<Longrightarrow> asked (cs_send st') = []"
proof (induction tokens arbitrary: st n)
  case (Cons token tokens)
  obtain st1 n1 where one: "acknowledge_one cr raw token st n = (Inr st1, n1)"
      and rest: "acknowledge cr raw tokens st1 n1 = (Inr st', n')"
    using Cons.prems(1) by (auto split: prod.splits sum.splits)
  have "asked (cs_send st1) = [] \<and> \<not> cap_enabled CAP_BATCH n1"
    using acknowledge_one_asked [OF one] Cons.prems(2-4) by auto
  then show ?case using Cons.IH [OF rest] Cons.prems(2) by simp
qed simp

lemma decline_send: "decline names st n = (Inr st', n') \<Longrightarrow> cs_send st' = cs_send st"
  by (induction names arbitrary: st n) (fastforce simp: Let_def split: if_splits)+

lemma withdraw_send: "fold withdraw_one names (st, n) = (st', n') \<Longrightarrow> cs_send st' = cs_send st"
proof (induction names arbitrary: st n)
  case (Cons name names)
  obtain st1 n1 where w: "withdraw_one name (st, n) = (st1, n1)" by (rule prod.exhaust)
  then have "cs_send st1 = cs_send st" by (auto simp: withdraw_one_def Let_def split: if_splits)
  then show ?case using Cons w by auto
qed simp

lemma listing_asked:
  assumes "request_after_listing st n = (Inr st', n')" "asked (cs_send st) = []" "\<not> cap_enabled CAP_BATCH n"
  shows "asked (cs_send st') = []"
proof -
  have off: "\<not> cap_enabled CAP_BATCH (n\<lparr>cn_phase := p, cn_pending := q\<rparr>)" "\<not> cap_enabled CAP_BATCH (n\<lparr>cn_phase := p\<rparr>)"
    for p q using assms(3) by (simp_all add: cap_enabled_def)
  show ?thesis
    using assms(1,2) off request_asked
    by (auto simp: request_after_listing_def Let_def withdrawn_names split: if_splits option.splits
        dest!: request_asked)
qed

lemma dispatch_asked:
  assumes d: "cap_dispatch cr raw m n = (Inr st, n')" and off: "\<not> cap_enabled CAP_BATCH n"
    and no: "\<not> acks_batch (CoObserve raw' m) n"
  shows "asked (cs_send st) = []"
proof (cases "cap_reply (m_command m)")
  case None
  then show ?thesis
    using d sasl_asked(1) by (auto simp: cap_dispatch_def split: option.splits prod.splits sum.splits)
next
  case (Some reply)
  obtain sub continued names where r: "reply = (sub, continued, names)" by (metis prod_cases3)
  have o: "observe_cap cr raw sub continued names n = (Inr st, n')"
    using d Some r by (simp add: cap_dispatch_def)
  have off1: "\<not> cap_enabled CAP_BATCH (remember_offers names n)" using off by (simp add: cap_enabled_def)
  have off2: "\<not> cap_enabled CAP_BATCH ((append_ack names n)\<lparr>cn_ack_lines := []\<rparr>)" using off by (simp add: cap_enabled_def)
  consider (listed) "sub = lit ''LS''" "cn_phase n = CpListing" | (ack) "sub = lit ''ACK''" | (nak) "sub = lit ''NAK''"
    | (new) "sub = lit ''NEW''" | (del) "sub = lit ''DEL''"
    | (other) "sub \<notin> {lit ''ACK'', lit ''NAK'', lit ''NEW'', lit ''DEL''}" "\<not> (sub = lit ''LS'' \<and> cn_phase n = CpListing)"
    by blast
  then show ?thesis
  proof cases
    case listed
    then show ?thesis
      using o listing_asked [of step_default "remember_offers names n" st n'] off1
      by (auto simp: observe_cap_def Let_def split: if_splits)
  next
    case ack
    then show ?thesis
      using o no Some r acknowledge_asked [of cr raw "cn_ack_lines (append_ack names n)" step_default
          "(append_ack names n)\<lparr>cn_ack_lines := []\<rparr>" st n'] off2
      by (auto simp: observe_cap_def acks_batch_def lit_def Let_def split: if_splits)
  next
    case nak
    then have "decline (split_whitespace names) step_default n = (Inr st, n')"
      using o by (simp add: observe_cap_def lit_def)
    then show ?thesis using decline_send by fastforce
  next
    case new
    then show ?thesis
      using o request_asked [of step_default "remember_offers names n" st n'] off1
      by (auto simp: observe_cap_def lit_def Let_def split: if_splits)
  next
    case del
    then have "fold withdraw_one (split_whitespace names) (step_default, n) = (st, n')"
      using o by (simp add: observe_cap_def lit_def)
    then show ?thesis using withdraw_send by fastforce
  next
    case other
    then show ?thesis using o by (auto simp: observe_cap_def Let_def split: if_splits)
  qed
qed

lemma enforce_asked:
  assumes "enforce_dependencies st n = (st', n')"
  shows "asked (cs_send st') = [] \<longleftrightarrow> asked (cs_send st) = []"
  using assms by (auto simp: enforce_dependencies_def enforce_one_def withdrawn_names Let_def split: if_splits)

lemma end_asked: "end_if_settled st n = (st', n') \<Longrightarrow> asked (cs_send st') = [] \<longleftrightarrow> asked (cs_send st) = []"
  by (auto simp: end_if_settled_def split: if_splits)

lemma asked_call:
  assumes c: "cap_call cr op n = (Inr st, n')"
  shows "asked (cs_send st) = [] \<or> cap_enabled CAP_BATCH n \<or> acks_batch op n"
proof (cases op)
  case (CoObserve raw m)
  show ?thesis
  proof (cases rule: cap_observe_cases [of n cr raw m])
    case (accepted st1 n1 st2 n2 st3 n3)
    then show ?thesis
      using dispatch_asked [OF accepted(2)] enforce_asked [OF accepted(3)] end_asked [OF accepted(4)] c CoObserve
      by auto
  qed (use c CoObserve in auto)
next
  case (CoDerived d)
  then show ?thesis
    using c sasl_asked(3) by (auto simp: cap_derived_def split: option.splits prod.splits sum.splits)
qed

text \<open>C18. Metadata, chat history and labeled responses are held to batches at every message that is accepted. Before
  and after it they are neither enabled nor waiting for an answer unless batches are enabled: whichever of
  them a server acknowledges, declines, offers or withdraws, in any order. And the lines sent for it ask for
  one of them only if batches were enabled before, or are acknowledged by that very message.\<close>

theorem batches_held_always:
  assumes "cap_accepts cr (ops @ [op]) (cap_started o' sasl utf8')"
  shows "let n = cap_run cr ops (cap_started o' sasl utf8'); (r, n') = cap_call cr op n
    in batches_held n \<and> batches_held n'
     \<and> (case r of
          Inl _ \<Rightarrow> False
        | Inr st \<Rightarrow> asked (cs_send st) = [] \<or> cap_enabled CAP_BATCH n \<or> acks_batch op n)"
proof -
  let ?s = "cap_started o' sasl utf8'"
  have split: "cap_accepts cr (ops @ [op]) s \<longleftrightarrow> cap_accepts cr ops s \<and> \<not> isl (fst (cap_call cr op (cap_run cr ops s)))" for s
    by (induction ops arbitrary: s) simp_all
  have "batches_held ?s"
    by (simp add: batches_held_def cap_started_def cap_start_def cap_new_def cap_enabled_def Let_def)
  then have held: "batches_held (cap_run cr ops ?s)"
    by (rule accepted_run_inv [where P = batches_held]) (use held_call assms split in blast)+
  obtain r n' where r: "cap_call cr op (cap_run cr ops ?s) = (r, n')" by (rule prod.exhaust)
  then obtain st where "r = Inr st" using assms unfolding split by (cases r) auto
  then show ?thesis using held held_call [OF held] asked_call [of cr op "cap_run cr ops ?s"] r by (simp add: Let_def)
qed

section \<open>The end\<close>

text \<open>The lines sent along a run.\<close>

fun cap_sent :: "crypto \<Rightarrow> cap_op list \<Rightarrow> cap_negotiation \<Rightarrow> command list" where
  "cap_sent cr [] n = []"
| "cap_sent cr (op # ops) n =
     (case cap_call cr op n of (r, n) \<Rightarrow> (case r of Inl _ \<Rightarrow> [] | Inr st \<Rightarrow> cs_send st) @ cap_sent cr ops n)"

text \<open>A step sends the end only when it settles everything, and once.\<close>

lemma observe_end:
  assumes "cap_observe cr raw m n = (Inr st, n')"
  shows "quiet (cs_send st) \<and> (cn_phase n = CpEnded \<longrightarrow> cn_phase n' = CpEnded)
      \<and> (cn_phase n = CpInactive \<longrightarrow> cn_phase n' = CpInactive \<and> n' = n)
    \<or> (cn_phase n \<in> {CpListing, CpRequesting} \<and> cn_phase n' = CpEnded \<and> cn_pending n' = [] \<and> sasl_done n'
        \<and> count_list (cs_send st) cap_end = 1)"
proof (cases rule: cap_observe_cases [of n cr raw m])
  case (accepted st1 n1 st2 n2 st3 n3)
  have st: "st = st3" "n' = n3" using accepted assms by simp_all
  have q1: "quiet (cs_send st1)" and p1: "cn_phase n1 = cn_phase n \<or> (cn_phase n = CpListing \<and> cn_phase n1 = CpRequesting)"
    using dispatch_plain [OF accepted(2)] by (auto simp: plain_step_def)
  have q2: "quiet (cs_send st2)" and p2: "cn_phase n2 = cn_phase n1"
    using enforce_plain [OF accepted(3)] q1 by (auto simp: plain_step_def)
  show ?thesis
  proof (cases "cn_phase n2 = CpRequesting \<and> cn_pending n2 = [] \<and> sasl_done n2")
    case True
    then have "st = step_send cap_end st2" "n' = n2\<lparr>cn_phase := CpEnded\<rparr>"
      using accepted(4) st by (auto simp: end_if_settled_def)
    moreover have "count_list (cs_send st2) cap_end = 0" using q2 by (simp add: quiet_def count_list_0_iff)
    ultimately show ?thesis using True p1 p2 by (auto simp: sasl_done_def)
  next
    case False
    then have "st = st2" "n' = n2" using accepted(4) st by (auto simp: end_if_settled_def)
    then show ?thesis using q2 p1 p2 accepted(1) by auto
  qed
qed (use assms in auto)

lemma derived_end:
  assumes "cap_derived cr d n = (Inr st, n')"
  shows "quiet (cs_send st)" "cn_phase n' = cn_phase n" "cn_sasl n \<noteq> None"
  using assms sasl_quiet(3)
  by (auto simp: cap_derived_def split: option.splits prod.splits sum.splits)


text \<open>No end is sent any more, and at most one before that.\<close>

definition ends_left :: "cap_negotiation \<Rightarrow> nat" where
  "ends_left n = (if cap_negotiating n then 1 else 0)"

lemma quiet_count: "quiet lines \<Longrightarrow> count_list lines cap_end = 0"
  by (simp add: quiet_def count_list_0_iff)

lemma call_ends:
  assumes "cap_call cr op n = (Inr st, n')"
  shows "count_list (cs_send st) cap_end + ends_left n' \<le> ends_left n"
proof (cases op)
  case (CoObserve raw m)
  then have o: "cap_observe cr raw m n = (Inr st, n')" using assms by simp
  then show ?thesis
  proof (cases rule: cap_observe_cases [of n cr raw m])
    case (accepted st1 n1 st2 n2 st3 n3)
    show ?thesis
      using observe_end [OF o] quiet_count [of "cs_send st"]
      by (cases "cn_phase n") (auto simp: ends_left_def cap_negotiating_def)
  qed (use o in \<open>auto simp: step_default_def\<close>)
next
  case (CoDerived d)
  then have "cap_derived cr d n = (Inr st, n')" using assms by simp
  then show ?thesis using derived_end [of cr d n st n'] quiet_count [of "cs_send st"]
    by (simp add: ends_left_def cap_negotiating_def)
qed

lemma sent_ends: "cap_accepts cr ops n \<Longrightarrow> count_list (cap_sent cr ops n) cap_end \<le> ends_left n"
proof (induction ops arbitrary: n)
  case (Cons op ops)
  obtain r n' where r: "cap_call cr op n = (r, n')" by (rule prod.exhaust)
  then obtain st where st: "r = Inr st" using Cons.prems by (cases r) auto
  have "count_list (cap_sent cr ops n') cap_end \<le> ends_left n'"
    using Cons.IH [of n'] Cons.prems r by simp
  then show ?case using call_ends [of cr op n st n'] r st by simp
qed simp

lemma accepts_append: "cap_accepts cr (pre @ post) n \<longleftrightarrow> cap_accepts cr pre n \<and> cap_accepts cr post (cap_run cr pre n)"
  by (induction pre arbitrary: n) simp_all

text \<open>C19. The negotiation is ended once and only when everything is settled: along every accepted run at most one
  \<open>CAP END\<close> is sent, that of the start included, and when it is sent no request waits for an answer and the
  login, if there is one, has completed.\<close>

theorem cap_end_once_settled:
  assumes "cap_accepts cr ops (cap_started o' sasl utf8')"
  shows "count_list (fst (cap_start (cap_new o' sasl utf8')) # cap_sent cr ops (cap_started o' sasl utf8')) cap_end \<le> 1
    \<and> (\<forall>pre op post st n'. ops = pre @ op # post
        \<longrightarrow> cap_call cr op (cap_run cr pre (cap_started o' sasl utf8')) = (Inr st, n') \<longrightarrow> cap_end \<in> set (cs_send st)
        \<longrightarrow> cn_pending n' = [] \<and> sasl_done n')"
proof -
  let ?n = "cap_started o' sasl utf8'"
  have "count_list [fst (cap_start (cap_new o' sasl utf8'))] cap_end + ends_left ?n \<le> 1"
    by (auto simp: cap_started_def cap_start_def cap_end_def ends_left_def cap_negotiating_def cap_new_def Let_def)
  moreover have "count_list (cap_sent cr ops ?n) cap_end \<le> ends_left ?n" by (rule sent_ends [OF assms])
  ultimately have "count_list (fst (cap_start (cap_new o' sasl utf8')) # cap_sent cr ops ?n) cap_end \<le> 1"
    by (simp split: if_splits)
  moreover have "cn_pending n' = [] \<and> sasl_done n'"
    if c: "cap_call cr op n = (Inr st, n')" and e: "cap_end \<in> set (cs_send st)" for op n st n'
  proof (cases op)
    case (CoObserve raw m)
    then show ?thesis using observe_end [of cr raw m n st n'] c e by (auto simp: quiet_def)
  next
    case (CoDerived d)
    then show ?thesis using derived_end(1) [of cr d n st n'] c e by (simp add: quiet_def)
  qed
  ultimately show ?thesis by blast
qed

section \<open>The login\<close>

text \<open>A handshake that has not begun.\<close>

definition fresh_login :: "sasl_credentials \<Rightarrow> sasl_handshake \<Rightarrow> bool" where
  "fresh_login c h \<longleftrightarrow> (\<exists>n. h = (sasl_new c)\<lparr>sh_failure_notes := n\<rparr>)"

lemma fresh_step:
  assumes "fresh_login c h"
  shows "fresh_login c (snd (sasl_step cr op h))"
proof (cases op)
  case (SoObserve m)
  have "sh_phase h = SpIdle" and noted: "fresh_login c (h\<lparr>sh_failure_notes := n\<rparr>)" for n
    using assms by (auto simp: fresh_login_def sasl_new_def)
  then show ?thesis
    using assms SoObserve
    by (cases "m_command m") (auto simp: sasl_observe_def observe_authenticate_def sasl_receive_def Let_def)
next
  case (SoDerived d)
  have "sh_scram h = None" using assms by (auto simp: fresh_login_def sasl_new_def)
  then show ?thesis using assms SoDerived by (simp add: sasl_derived_def)
qed

text \<open>The login of a connection: not begun, or on its way; and it begins at most once.\<close>

definition login_inv :: "sasl_credentials \<Rightarrow> derived set \<Rightarrow> bool \<Rightarrow> cap_negotiation \<Rightarrow> bool" where
  "login_inv c given known n \<longleftrightarrow>
     (case cn_sasl n of
        None \<Rightarrow> False
      | Some h \<Rightarrow>
          (SASL \<in> set (cn_pending n) \<or> cn_phase n = CpListing \<longrightarrow> fresh_login c h)
          \<and> (fresh_login c h \<or> scram_way given known h))"

lemma login_mono: "login_inv c given known n \<Longrightarrow> given \<subseteq> given' \<Longrightarrow> (known \<longrightarrow> known') \<Longrightarrow> login_inv c given' known' n"
  by (auto simp: login_inv_def split: option.splits intro: scram_way_mono)

lemma login_less:
  assumes "login_inv c given known n" "cn_sasl n' = cn_sasl n"
    "SASL \<in> set (cn_pending n') \<Longrightarrow> SASL \<in> set (cn_pending n) \<or> cn_phase n = CpListing"
    "cn_phase n' = CpListing \<Longrightarrow> cn_phase n = CpListing"
  shows "login_inv c given known n'"
  using assms by (auto simp: login_inv_def split: option.splits)

lemma login_request:
  assumes "login_inv c given known n" "SASL \<notin> set (cn_optional n)"
  shows "login_inv c given known (snd (request_optional st n))"
  by (rule request_optional_cases [of st n])
    (use assms in \<open>auto intro!: login_less [OF assms(1)] simp: requested_from_def\<close>)

lemma login_begin:
  assumes mech: "mechanism_hash (cd_mechanism c) \<noteq> None"
    and l: "login_inv c given known n" "cn_sasl n = Some h" "SASL \<in> set (cn_pending n)" "cap_inv n"
    and b: "sasl_begin cr raw h = (r, h')"
  shows "login_inv c given known ((enable SASL (n\<lparr>cn_pending := remove1 SASL (cn_pending n)\<rparr>))\<lparr>cn_sasl := Some h'\<rparr>)"
proof -
  obtain k where h: "h = (sasl_new c)\<lparr>sh_failure_notes := k\<rparr>"
    using l by (auto simp: login_inv_def fresh_login_def)
  have "fresh_login c h' \<or> scram_way given known h'"
  proof (cases r)
    case (Inl e)
    have "cd_mechanism c \<noteq> SaslEcdsa" using mech by auto
    then have "h' = h"
      using b Inl h by (auto simp: sasl_begin_def Let_def sasl_new_def split: sum.splits option.splits)
    then show ?thesis using h by (auto simp: fresh_login_def)
  next
    case (Inr out)
    then have "scram_way {} False h'" using scram_way_begin [OF mech] b h by blast
    then show ?thesis using scram_way_mono by blast
  qed
  moreover have "SASL \<notin> set (remove1 SASL (cn_pending n))" "cn_phase n \<noteq> CpListing" using l(3,4) by (auto simp: cap_inv_def)
  ultimately show ?thesis by (simp add: login_inv_def)
qed


lemma login_acknowledge_one:
  assumes mech: "mechanism_hash (cd_mechanism c) \<noteq> None" and l: "login_inv c given known n" and inv: "cap_inv n"
  shows "login_inv c given known (snd (acknowledge_one cr raw token st n))"
proof (cases "strip_prefix (lit ''-'') token")
  case (Some name)
  then show ?thesis by (auto intro: login_less [OF l] simp: acknowledge_one_def)
next
  case None
  show ?thesis
  proof (cases "token \<in> set (cn_pending n)")
    case True
    let ?n = "enable token (n\<lparr>cn_pending := remove1 token (cn_pending n)\<rparr>)"
    have n: "login_inv c given known ?n"
      by (rule login_less [OF l]) (auto dest: set_mp [OF set_remove1_subset])
    show ?thesis
    proof (cases "token = SASL")
      case sasl: True
      obtain h where h: "cn_sasl n = Some h" using l by (auto simp: login_inv_def split: option.splits)
      obtain r h' where b: "sasl_begin cr raw h = (r, h')" by (rule prod.exhaust)
      then have "snd (acknowledge_one cr raw token st n) = ?n\<lparr>cn_sasl := Some h'\<rparr>"
        using None True sasl h by (cases r) (simp_all add: acknowledge_one_def Let_def)
      then show ?thesis using login_begin [OF mech l h _ inv b] True sasl by simp
    next
      case False
      have "SASL \<notin> set (cn_optional ?n)" using inv by (simp add: cap_inv_def)
      then have "login_inv c given known (snd (request_optional st ?n))" for st by (rule login_request [OF n])
      then show ?thesis using None True False n by (simp add: acknowledge_one_def Let_def)
    qed
  qed (use None l in \<open>simp add: acknowledge_one_def\<close>)
qed

lemma login_acknowledge:
  assumes mech: "mechanism_hash (cd_mechanism c) \<noteq> None"
  shows "login_inv c given known n \<Longrightarrow> cap_inv n \<Longrightarrow> login_inv c given known (snd (acknowledge cr raw tokens st n))"
proof (induction tokens arbitrary: st n)
  case (Cons token tokens)
  obtain r n' where a: "acknowledge_one cr raw token st n = (r, n')" by (rule prod.exhaust)
  then have "login_inv c given known n'" "cap_inv n'"
    using login_acknowledge_one [OF mech Cons.prems, of cr raw token st] acknowledge_one_inv [OF Cons.prems(2), of cr raw token st]
    by simp_all
  then show ?case using Cons.IH a by (cases r) simp_all
qed simp

lemma login_decline: "login_inv c given known n \<Longrightarrow> login_inv c given known (snd (decline names st n))"
proof (induction names arbitrary: st n)
  case (Cons name names)
  have less: "login_inv c given known (n\<lparr>cn_pending := remove1 p (cn_pending n)\<rparr>)" for p
    by (rule login_less [OF Cons.prems]) (auto dest: set_mp [OF set_remove1_subset])
  show ?case using Cons less by (auto simp: Let_def)
qed simp

lemma login_withdraw:
  assumes "login_inv c given known n"
  shows "login_inv c given known (snd (fold withdraw_one names (st, n)))"
proof (rule fold_inv [where P = "\<lambda>s. login_inv c given known (snd s)"])
  fix name and s :: "cap_step \<times> cap_negotiation"
  assume "login_inv c given known (snd s)"
  then show "login_inv c given known (snd (withdraw_one name s))"
    by (cases s) (auto simp: withdraw_one_def Let_def elim!: login_less)
qed (simp add: assms)

lemma login_enforce:
  assumes "login_inv c given known n"
  shows "login_inv c given known (snd (enforce_dependencies st n))"
proof -
  have "login_inv c given known (snd (enforce_one name s))" if "login_inv c given known (snd s)" for name s
    using that by (cases s) (auto simp: enforce_one_def Let_def elim!: login_less)
  then show ?thesis using assms by (simp add: enforce_dependencies_def)
qed

lemma login_end: "login_inv c given known n \<Longrightarrow> login_inv c given known (snd (end_if_settled st n))"
  by (auto simp: end_if_settled_def elim!: login_less)

lemma login_listing:
  assumes l: "login_inv c given known n" and "cap_inv n" "cn_phase n = CpListing"
  shows "login_inv c given known (snd (request_after_listing st n))"
proof -
  let ?n = "n\<lparr>cn_phase := CpRequesting\<rparr>"
  have n: "login_inv c given known (?n\<lparr>cn_pending := p\<rparr>)" "login_inv c given known ?n" for p
    by (rule login_less [OF l]; use assms(3) in simp)+
  have "SASL \<notin> set (cn_optional n)" using assms(2) by (simp add: cap_inv_def)
  then have "login_inv c given known (snd (request_optional st' (?n\<lparr>cn_pending := p\<rparr>)))" for st' p
    by (intro login_request n) simp
  then show ?thesis using n l by (auto simp: request_after_listing_def Let_def login_inv_def [of c given known n] split: option.splits)
qed

text \<open>A message that proves the server within a negotiation.\<close>

definition cap_proves :: "crypto \<Rightarrow> derived set \<Rightarrow> cap_negotiation \<Rightarrow> cap_op \<Rightarrow> bool" where
  "cap_proves cr given n op \<longleftrightarrow>
     (case op of
        CoObserve raw m \<Rightarrow>
          (case cn_sasl n of None \<Rightarrow> False | Some h \<Rightarrow> \<exists>d \<in> given. server_proof cr m h (de_server_signature d))
      | _ \<Rightarrow> False)"

definition cap_given :: "cap_op \<Rightarrow> derived set" where
  "cap_given op = (case op of CoDerived d \<Rightarrow> {d} | _ \<Rightarrow> {})"

lemma login_sasl_step:
  assumes l: "login_inv c given known n" "cn_sasl n = Some h"
  shows "login_inv c (given \<union> newly_given op) (known \<or> proves cr given h op) (n\<lparr>cn_sasl := Some (snd (sasl_step cr op h))\<rparr>)"
  using l fresh_step [of c h cr op] scram_way_step [of given known h op cr] by (auto simp: login_inv_def)

lemma login_dispatch:
  assumes mech: "mechanism_hash (cd_mechanism c) \<noteq> None" and l: "login_inv c given known n" and inv: "cap_inv n"
  shows "login_inv c given (known \<or> cap_proves cr given n (CoObserve raw m)) (snd (cap_dispatch cr raw m n))"
proof (cases "cap_reply (m_command m)")
  case None
  obtain h where h: "cn_sasl n = Some h" using l by (auto simp: login_inv_def split: option.splits)
  have "snd (cap_dispatch cr raw m n) = n\<lparr>cn_sasl := Some (snd (sasl_step cr (SoObserve m) h))\<rparr>"
    using None h by (auto simp: cap_dispatch_def split: prod.split sum.split)
  then show ?thesis
    using login_sasl_step [OF l h, of "SoObserve m" cr] h by (simp add: newly_given_def proves_def cap_proves_def)
next
  case (Some r)
  obtain sub continued list' where r: "r = (sub, continued, list')" by (rule prod_cases3)
  have offers: "login_inv c given known (remember_offers list' n)" "cap_inv (remember_offers list' n)"
    using l remember_offers_inv [OF inv] by (auto elim!: login_less)
  have acks: "login_inv c given known ((append_ack list' n)\<lparr>cn_ack_lines := a\<rparr>)" "login_inv c given known (append_ack list' n)"
    "cap_inv ((append_ack list' n)\<lparr>cn_ack_lines := []\<rparr>)" for a
    using l no_acks_inv [OF append_ack_inv [OF inv]] by (auto elim!: login_less)
  have "login_inv c given known (snd (observe_cap cr raw sub continued list' n))"
    using l inv offers acks login_acknowledge [OF mech] login_decline login_withdraw login_listing
    by (auto simp: observe_cap_def Let_def cap_inv_def intro!: login_request)
  then show ?thesis using Some r by (auto simp: cap_dispatch_def intro: login_mono)
qed

lemma login_call:
  assumes mech: "mechanism_hash (cd_mechanism c) \<noteq> None" and l: "login_inv c given known n" and inv: "cap_inv n"
  shows "login_inv c (given \<union> cap_given op) (known \<or> cap_proves cr given n op) (snd (cap_call cr op n))"
proof (cases op)
  case (CoObserve raw m)
  have d: "login_inv c given (known \<or> cap_proves cr given n op) (snd (cap_dispatch cr raw m n))"
    using login_dispatch [OF mech l inv] CoObserve by simp
  have "login_inv c given (known \<or> cap_proves cr given n op) (snd (cap_call cr op n))"
  proof (cases rule: cap_observe_cases [of n cr raw m])
    case (accepted st1 n1 st2 n2 st3 n3)
    then show ?thesis
      using d CoObserve login_enforce [of c given _ n1 st1] login_end [of c given _ n2 st2] by simp
  next
    case inactive
    then show ?thesis using l CoObserve by (auto intro: login_mono)
  qed (use d CoObserve in simp)
  then show ?thesis using CoObserve by (simp add: cap_given_def)
next
  case (CoDerived d)
  obtain h where h: "cn_sasl n = Some h" using l by (auto simp: login_inv_def split: option.splits)
  have "snd (cap_call cr op n) = n\<lparr>cn_sasl := Some (snd (sasl_step cr (SoDerived d) h))\<rparr>"
    using CoDerived h by (auto simp: cap_derived_def split: prod.split sum.split)
  then show ?thesis
    using login_sasl_step [OF l h, of "SoDerived d" cr] CoDerived
    by (simp add: newly_given_def proves_def cap_proves_def cap_given_def)
qed

text \<open>Some message along a run proved the server.\<close>

definition login_proved :: "crypto \<Rightarrow> cap_op list \<Rightarrow> cap_negotiation \<Rightarrow> bool" where
  "login_proved cr ops n \<longleftrightarrow>
     (\<exists>pre raw m post d h. ops = pre @ CoObserve raw m # post \<and> CoDerived d \<in> set pre
        \<and> cn_sasl (cap_run cr pre n) = Some h \<and> server_proof cr m h (de_server_signature d))"

lemma login_run:
  assumes mech: "mechanism_hash (cd_mechanism c) \<noteq> None" and start: "login_inv c {} False n" "cap_inv n"
  shows "login_inv c {d. CoDerived d \<in> set ops} (login_proved cr ops n) (cap_run cr ops n)"
proof (induction ops rule: rev_induct)
  case Nil
  show ?case using start(1) by (auto intro: login_mono)
next
  case (snoc op ops)
  let ?given = "{d. CoDerived d \<in> set ops}" and ?n = "cap_run cr ops n"
  have before: "login_proved cr (ops @ [op]) n" if "login_proved cr ops n"
    using that unfolding login_proved_def by (metis append.assoc append_Cons)
  have now: "login_proved cr (ops @ [op]) n" if "cap_proves cr ?given ?n op"
    using that unfolding login_proved_def cap_proves_def
    by (cases op) (auto split: option.splits intro!: exI [of _ ops])
  have "login_inv c (?given \<union> cap_given op) (login_proved cr ops n \<or> cap_proves cr ?given ?n op) (snd (cap_call cr op ?n))"
    by (intro login_call mech snoc.IH cap_run_inv start(2))
  then have "login_inv c {d. CoDerived d \<in> set (ops @ [op])} (login_proved cr (ops @ [op]) n) (snd (cap_call cr op ?n))"
    by (rule login_mono) (use before now in \<open>auto simp: cap_given_def split: cap_op.splits\<close>)
  then show ?case by simp
qed

text \<open>C11. A connection that logs in by SCRAM registers only with a server that proved that it knows the password: if
  the negotiation lets the registration complete, some message before it carried the server signature of a
  derivation the client had run, whatever capabilities the server offered, acknowledged, declined or withdrew,
  and in whatever order.\<close>

theorem login_authenticated:
  assumes "mechanism_hash (cd_mechanism c) \<noteq> None"
    and "fst (cap_registered (cap_run cr ops (cap_started o' (Some c) utf8'))) = Inr ()"
  shows "login_proved cr ops (cap_started o' (Some c) utf8')"
proof -
  let ?n = "cap_started o' (Some c) utf8'"
  have "fresh_login c (sasl_new c)"
    unfolding fresh_login_def by (rule exI [of _ "[]"]) (simp add: sasl_new_def)
  then have "login_inv c {} False ?n"
    by (simp add: login_inv_def cap_started_def cap_start_def cap_new_def Let_def)
  then have l: "login_inv c {d. CoDerived d \<in> set ops} (login_proved cr ops ?n) (cap_run cr ops ?n)"
    by (rule login_run [OF assms(1) _ cap_new_inv])
  then obtain h where h: "cn_sasl (cap_run cr ops ?n) = Some h" by (auto simp: login_inv_def split: option.splits)
  then have "sasl_complete h" using assms(2) by (auto simp: cap_registered_def split: if_splits)
  then show ?thesis
    using l h by (auto simp: login_inv_def fresh_login_def sasl_new_def sasl_complete_def scram_way_def)
qed

section \<open>A login, run\<close>

text \<open>The lines of a login, as a negotiation gets them.\<close>

fun cap_of_sasl :: "sasl_op \<Rightarrow> cap_op" where
  "cap_of_sasl (SoObserve m) = CoObserve None m"
| "cap_of_sasl (SoDerived d) = CoDerived d"

lemma kept_login [simp]:
  "cn_sasl (snd (enforce_dependencies st n)) = cn_sasl n" "cn_sasl (snd (end_if_settled st n)) = cn_sasl n"
  "cn_phase (snd (enforce_dependencies st n)) = cn_phase n"
  "cn_phase (snd (end_if_settled st n)) = CpInactive \<longleftrightarrow> cn_phase n = CpInactive"
  by (auto simp: enforce_dependencies_def enforce_one_def Let_def end_if_settled_def split: prod.split)

lemma sasl_within_step:
  assumes "cn_phase n \<noteq> CpInactive" "cn_sasl n = Some h" "\<And>m. op = SoObserve m \<Longrightarrow> cap_reply (m_command m) = None"
  shows "cn_sasl (snd (cap_call cr (cap_of_sasl op) n)) = Some (snd (sasl_step cr op h))"
    "cn_phase (snd (cap_call cr (cap_of_sasl op) n)) \<noteq> CpInactive"
  using assms
  by (cases op; auto simp: cap_observe_def cap_dispatch_def cap_derived_def apfst_def map_prod_def split_beta
      split: sum.split prod.split)+

lemma sasl_within:
  assumes "cn_phase n \<noteq> CpInactive" "cn_sasl n = Some h" "\<And>m. SoObserve m \<in> set ops \<Longrightarrow> cap_reply (m_command m) = None"
  shows "cn_sasl (cap_run cr (map cap_of_sasl ops) n) = Some (sasl_run cr ops h)"
  using assms
proof (induction ops arbitrary: n h)
  case (Cons op ops)
  then show ?case using sasl_within_step [OF Cons.prems(1,2), of op cr] by (simp add: sasl_run_def)
qed (simp add: sasl_run_def)

text \<open>A server that offers and acknowledges \<open>sasl\<close>, then the exchange of \<open>sample_ops\<close>.\<close>

definition no_options :: ircv3_options where
  "no_options = \<lparr>io_message_tags = False, io_server_time = False, io_batch = False, io_metadata = False,
     io_peer_avatars = False, io_chathistory = False, io_confirmed_sending = False, io_accounts = False\<rparr>"

definition cap_line :: "cap_sub \<Rightarrow> char list \<Rightarrow> cap_op" where
  "cap_line sub names =
     CoObserve (Some []) \<lparr>m_tags = None, m_prefix = None, m_command = CAP (Some (lit ''*'')) sub None (Some (lit names))\<rparr>"

definition sample_negotiation :: "cap_op list" where
  "sample_negotiation = cap_line CapLS ''sasl'' # cap_line CapACK ''sasl'' # map cap_of_sasl sample_ops"

lemma cap_line_call:
  "snd (cap_call cr (cap_line sub names) n) =
     (if cn_phase n = CpInactive then n else
        case observe_cap cr (Some []) (map to_ascii_uppercase (cap_sub_str sub)) False (lit names) n of
          (Inl _, n) \<Rightarrow> n | (Inr st, n) \<Rightarrow> snd (case enforce_dependencies st n of (st, n) \<Rightarrow> end_if_settled st n))"
  by (simp add: cap_line_def cap_observe_def cap_dispatch_def cap_reply_def apfst_def map_prod_def split_beta split: sum.split prod.split)

lemma sasl_alone: "split_whitespace (lit ''sasl'') = [SASL]"
  by (simp add: split_whitespace_def SASL_def lit_def is_whitespace_def)

lemma cap_subs:
  "map to_ascii_uppercase (lit ''LS'') = lit ''LS''" "map to_ascii_uppercase (lit ''ACK'') = lit ''ACK''"
  "lit ''ACK'' \<noteq> lit ''LS''"
  by (simp_all add: lit_def to_ascii_uppercase_def is_ascii_lower_def)

lemma sasl_name:
  "split_once 0x3D SASL = None" "strip_prefix (lit ''-'') SASL = None" "SASL \<noteq> []" "SASL \<noteq> SETNAME" "SETNAME \<noteq> SASL"
  "SASL \<noteq> CAP_BATCH" "\<not> needs_batch SASL" "\<not> needs_batch SETNAME" "dependents SETNAME = []"
  "METADATA \<noteq> SASL" "CHATHISTORY \<noteq> SASL" "LABELED_RESPONSE \<noteq> SASL" "SETNAME \<noteq> LABELED_RESPONSE"
  by (simp_all add: cap_names lit_def strip_prefix_def needs_batch_def dependents_def)

lemma sample_agreed:
  fixes p :: rstring
  defines "n \<equiv> cap_run letter_crypto [cap_line CapLS ''sasl'', cap_line CapACK ''sasl''] (cap_started no_options (Some (sample_login p)) False)"
  shows "cn_sasl n = Some (sample_start p)" "cn_phase n \<noteq> CpInactive"
proof -
  have first: "cap_started no_options (Some (sample_login p)) False =
      \<lparr>cn_phase = CpListing, cn_optional = [SETNAME], cn_explicit = [SETNAME], cn_sasl = Some (sasl_new (sample_login p)),
       cn_offered = [], cn_enabled = [], cn_pending = [], cn_ack_lines = []\<rparr>" (is "_ = ?n0")
    by (simp add: cap_started_def cap_start_def cap_new_def no_options_def optional_of_def explicit_of_def wanted_def Let_def)
  have "snd (cap_call letter_crypto (cap_line CapLS ''sasl'') ?n0) =
      ?n0\<lparr>cn_phase := CpRequesting, cn_offered := [(SASL, None)], cn_pending := [SASL]\<rparr>" (is "_ = ?n1")
    by (simp add: cap_line_call cap_subs observe_cap_def remember_offers_def sasl_alone remember_offer_def sasl_name
        request_after_listing_def request_optional_def request_one_apply may_request_def is_offered_def apfst_def
        enforce_dependencies_def enforce_one_def cap_enabled_def end_if_settled_def Let_def)
  moreover have "cn_sasl (snd (cap_call letter_crypto (cap_line CapACK ''sasl'') ?n1)) = Some (sample_start p)
      \<and> cn_phase (snd (cap_call letter_crypto (cap_line CapACK ''sasl'') ?n1)) \<noteq> CpInactive"
    using sample_begin(1) [of p]
    by (auto simp: cap_line_call cap_subs observe_cap_def append_ack_def append_ack_token_def sasl_alone sasl_name acknowledge_one_def
        enable_def cap_enabled_def split_beta)
  ultimately show "cn_sasl n = Some (sample_start p)" "cn_phase n \<noteq> CpInactive" by (simp_all add: n_def first)
qed

lemma sample_accepted:
  "cap_accepts cr [cap_line CapLS ''sasl''] (cap_started no_options (Some (sample_login p)) False)"
  by (simp add: cap_line_def cap_observe_def cap_dispatch_def cap_reply_def cap_started_def cap_start_def cap_new_def
      no_options_def optional_of_def explicit_of_def wanted_def observe_cap_def remember_offers_def cap_subs sasl_alone
      remember_offer_def sasl_name request_after_listing_def request_optional_def request_one_apply may_request_def
      is_offered_def apfst_def split_beta Let_def)

theorem batches_held_always_witness:
  "batches_held (snd (cap_call letter_crypto (cap_line CapLS ''sasl'') (cap_started no_options (Some (sample_login [])) False)))"
proof -
  have "cap_accepts letter_crypto ([] @ [cap_line CapLS ''sasl'']) (cap_started no_options (Some (sample_login [])) False)"
    using sample_accepted by simp
  from batches_held_always [OF this] show ?thesis by (simp add: Let_def case_prod_beta)
qed

theorem cap_end_once_settled_witness:
  "count_list (fst (cap_start (cap_new no_options (Some (sample_login [])) False))
      # cap_sent letter_crypto [cap_line CapLS ''sasl''] (cap_started no_options (Some (sample_login [])) False)) cap_end \<le> 1"
  using cap_end_once_settled [OF sample_accepted] by blast

theorem login_authenticated_witness:
  "login_proved letter_crypto sample_negotiation (cap_started no_options (Some (sample_login (lit ''p''))) False)"
proof -
  let ?n = "cap_started no_options (Some (sample_login (lit ''p''))) False"
  let ?m = "cap_run letter_crypto [cap_line CapLS ''sasl'', cap_line CapACK ''sasl''] ?n"
  have "cap_reply (m_command m) = None" if "SoObserve m \<in> set sample_ops" for m
    using that by (auto simp: sample_ops_def sample_line_def cap_reply_def)
  then have "cn_sasl (cap_run letter_crypto sample_negotiation ?n)
      = Some (sasl_run letter_crypto sample_ops (sample_start (lit ''p'')))"
    using sample_agreed [of "lit ''p''"] sasl_within [of ?m "sample_start (lit ''p'')" sample_ops letter_crypto]
    by (simp add: sample_negotiation_def)
  then show ?thesis
    using login_authenticated [of "sample_login (lit ''p'')" letter_crypto sample_negotiation no_options False] sample_completes
    by (simp add: cap_registered_def sample_login_def)
qed

end
