(* ===== verification/CapabilityEnds.thy ===== *)
theory CapabilityEnds
  imports CapabilityRuns
begin

text \<open>
  A negotiation without a login ends: whatever a server more_lists, and in whatever order it acknowledges or declines
  what it is asked for, only so many rounds are left until \<open>CAP END\<close>. Acknowledging \<open>batch\<close> or \<open>message-tags\<close> asks
  for more, but each of them only once.
\<close>

section \<open>The server\<close>

definition server_line :: "cap_sub \<Rightarrow> bool \<Rightarrow> rstring \<Rightarrow> message" where
  "server_line sub continued names =
     \<lparr>m_tags = None, m_prefix = None,
      m_command = CAP (Some (lit ''*'')) sub (if continued then Some (lit ''*'') else None) (Some names)\<rparr>"

text \<open>A round answers one pending request, acknowledging or declining it.\<close>

definition answer_round :: "crypto \<Rightarrow> nat \<times> bool \<Rightarrow> cap_negotiation \<Rightarrow> cap_negotiation" where
  "answer_round cr a n =
     (if cn_pending n = [] then n
      else
        let name = cn_pending n ! (fst a mod length (cn_pending n))
        in snd (cap_observe cr None (server_line (if snd a then CapACK else CapNAK) False name) n))"

definition listed :: "crypto \<Rightarrow> rstring list \<Rightarrow> rstring \<Rightarrow> cap_negotiation \<Rightarrow> cap_negotiation" where
  "listed cr more_lists final n =
     cap_run cr (map (\<lambda>l. CoObserve None (server_line CapLS True l)) more_lists @ [CoObserve None (server_line CapLS False final)]) n"

section \<open>Names as tokens\<close>

definition known_names :: "rstring list" where
  "known_names =
     [MESSAGE_TAGS, SERVER_TIME, CAP_BATCH, ECHO_MESSAGE, LABELED_RESPONSE, ACCOUNT_NOTIFY, EXTENDED_JOIN, ACCOUNT_TAG,
      SETNAME, METADATA, CHATHISTORY]"

lemma known_token:
  assumes "name \<in> set known_names"
  shows "split_whitespace name = [name]" "strip_prefix (lit ''-'') name = None" "name \<noteq> SASL"
proof -
  have "list_all (\<lambda>c. \<not> is_whitespace c) name"
    using assms by (auto simp: known_names_def cap_names lit_def is_whitespace_def)
  moreover have "name \<noteq> []" using assms by (auto simp: known_names_def cap_names lit_def)
  moreover have "list_all (\<lambda>c. \<not> P c) w \<Longrightarrow> split_by P w = [w]" for P and w :: rstring
    by (induction w) auto
  ultimately show "split_whitespace name = [name]" by (simp add: split_whitespace_def)
qed (use assms in \<open>auto simp: known_names_def cap_names lit_def strip_prefix_def\<close>)

lemma server_line_reply:
  "cap_reply (m_command (server_line sub continued names)) = Some (map to_ascii_uppercase (cap_sub_str sub), continued, names)"
  by (simp add: server_line_def cap_reply_def)

lemma reply_words:
  "map to_ascii_uppercase (lit ''LS'') = lit ''LS''" "map to_ascii_uppercase (lit ''ACK'') = lit ''ACK''"
  "map to_ascii_uppercase (lit ''NAK'') = lit ''NAK''" "lit ''ACK'' \<noteq> lit ''LS''" "lit ''NAK'' \<noteq> lit ''LS''" "lit ''NAK'' \<noteq> lit ''ACK''"
  by (simp_all add: lit_def to_ascii_uppercase_def is_ascii_lower_def)

section \<open>The measure\<close>

text \<open>The capabilities whose acknowledgement asks for more, and are not enabled yet.\<close>

definition unlocks :: "cap_negotiation \<Rightarrow> nat" where
  "unlocks n = (if cap_enabled CAP_BATCH n then 0 else 1) + (if cap_enabled MESSAGE_TAGS n then 0 else 1)"

definition rounds_left :: "cap_negotiation \<Rightarrow> nat" where
  "rounds_left n = unlocks n * 12 + length (cn_pending n)"

text \<open>A negotiation without a login that waits for answers.\<close>

definition settling :: "cap_negotiation \<Rightarrow> bool" where
  "settling n \<longleftrightarrow>
     cn_sasl n = None \<and> cn_ack_lines n = [] \<and> cn_phase n = CpRequesting
     \<and> set (cn_optional n) \<subseteq> set known_names \<and> set (cn_pending n) \<subseteq> set (cn_optional n)
     \<and> distinct (cn_pending n) \<and> set (cn_pending n) \<inter> set (cn_enabled n) = {}"

lemma settling_few: "settling n \<Longrightarrow> length (cn_pending n) \<le> 11"
proof -
  assume "settling n"
  then have "distinct (cn_pending n)" "set (cn_pending n) \<subseteq> set known_names" by (auto simp: settling_def)
  then have "length (cn_pending n) \<le> length known_names" by (metis card_mono card_length distinct_card finite_set le_trans)
  then show ?thesis by (simp add: known_names_def)
qed

lemma settling_request: "settling n \<Longrightarrow> settling (snd (request_optional st n))"
  by (rule request_optional_cases [of st n])
    (auto simp: settling_def requested_from_def cap_enabled_def)

lemma unlocks_request [simp]: "unlocks (snd (request_optional st n)) = unlocks n"
  by (rule request_optional_cases [of st n]) (simp add: unlocks_def cap_enabled_def)

lemma length_remove1_less: "x \<in> set xs \<Longrightarrow> Suc (length (remove1 x xs)) = length xs"
  by (induction xs) auto

text \<open>An answer leaves fewer rounds.\<close>

lemma declined_fewer:
  assumes "settling n" "name \<in> set (cn_pending n)" "decline [name] st n = (r, n')"
  shows "\<not> isl r" "settling n'" "rounds_left n' < rounds_left n"
proof -
  have "name \<noteq> SASL" using assms(1,2) known_token(3) by (auto simp: settling_def)
  then have n': "\<not> isl r" "n' = n\<lparr>cn_pending := remove1 name (cn_pending n)\<rparr>"
    using assms(2,3) by (auto simp: Let_def)
  then show "\<not> isl r" "settling n'"
    using assms(1) by (auto simp: settling_def dest: set_mp [OF set_remove1_subset])
  show "rounds_left n' < rounds_left n"
    using length_remove1_less [OF assms(2)] n' by (simp add: rounds_left_def unlocks_def cap_enabled_def)
qed

lemma acknowledged_fewer:
  assumes "settling n" "name \<in> set (cn_pending n)" "acknowledge cr raw [name] st n = (r, n')"
  shows "\<not> isl r" "settling n'" "rounds_left n' < rounds_left n"
proof -
  let ?n = "enable name (n\<lparr>cn_pending := remove1 name (cn_pending n)\<rparr>)"
  have known: "name \<in> set known_names" using assms(1,2) by (auto simp: settling_def)
  have fresh: "\<not> cap_enabled name n" using assms(1,2) by (auto simp: settling_def cap_enabled_def)
  then have en: "?n = n\<lparr>cn_pending := remove1 name (cn_pending n), cn_enabled := cn_enabled n @ [name]\<rparr>"
    by (simp add: enable_def cap_enabled_def)
  have s: "settling ?n" using assms(1) fresh unfolding en
    by (auto simp: settling_def dest: set_mp [OF set_remove1_subset])
  have len: "Suc (length (cn_pending ?n)) = length (cn_pending n)"
    using length_remove1_less [OF assms(2)] by simp
  let ?st = "step_note (lit ''Capability '' @ name @ lit '' enabled.'') st"
  have r: "(r, n') = apfst Inr (if name = CAP_BATCH \<or> name = MESSAGE_TAGS then request_optional ?st ?n else (?st, ?n))"
    using assms(2,3) known_token [OF known]
    by (auto simp: acknowledge_one_def Let_def apfst_def map_prod_def split: prod.splits if_splits)
  then show "\<not> isl r" by (auto simp: apfst_def map_prod_def split: prod.splits)
  have n': "n' = (if name = CAP_BATCH \<or> name = MESSAGE_TAGS then snd (request_optional ?st ?n) else ?n)"
    using arg_cong [OF r, of snd] by (simp split: if_splits)
  show t: "settling n'" unfolding n' using s settling_request [OF s, of ?st] by simp
  show "rounds_left n' < rounds_left n"
  proof (cases "name = CAP_BATCH \<or> name = MESSAGE_TAGS")
    case True
    then have "unlocks n' = unlocks ?n" by (simp add: n')
    moreover have "CAP_BATCH \<noteq> MESSAGE_TAGS" by (simp add: cap_names lit_def)
    then have "Suc (unlocks ?n) = unlocks n"
      using True fresh unfolding en by (auto simp: unlocks_def cap_enabled_def)
    moreover have "length (cn_pending n') \<le> 11" by (rule settling_few [OF t])
    ultimately show ?thesis by (simp add: rounds_left_def)
  next
    case False
    then have "n' = ?n" by (simp add: n')
    moreover have "unlocks ?n = unlocks n" using False unfolding en by (auto simp: unlocks_def cap_enabled_def)
    ultimately show ?thesis using len by (simp add: rounds_left_def)
  qed
qed

section \<open>Rounds\<close>

lemma fold_snoc: "fold f (xs @ [x]) s = f x (fold f xs s)"
  by simp

lemma enforced_fewer:
  assumes "settling n" "enforce_dependencies st n = (st', n')"
  shows "settling n'" "rounds_left n' \<le> rounds_left n"
proof -
  have one: "settling (snd (enforce_one name s)) \<and> rounds_left (snd (enforce_one name s)) \<le> rounds_left (snd s)"
    if "settling (snd s)" "name \<in> {METADATA, CHATHISTORY, LABELED_RESPONSE}" for name s
  proof -
    have "name \<noteq> CAP_BATCH" "name \<noteq> MESSAGE_TAGS" using that(2) by (auto simp: cap_names lit_def)
    then show ?thesis
      using that(1) length_removeAll_less_eq
      by (cases s) (auto simp: enforce_one_def Let_def settling_def rounds_left_def unlocks_def cap_enabled_def distinct_removeAll)
  qed
  then have "settling (snd (fold enforce_one xs (st, n))) \<and> rounds_left (snd (fold enforce_one xs (st, n))) \<le> rounds_left n"
    if "set xs \<subseteq> {METADATA, CHATHISTORY, LABELED_RESPONSE}" for xs
    using that
  proof (induction xs rule: rev_induct)
    case Nil
    then show ?case using assms(1) by simp
  next
    case (snoc x xs)
    then have x: "x \<in> {METADATA, CHATHISTORY, LABELED_RESPONSE}" by simp
    let ?s = "fold enforce_one xs (st, n)"
    have ih: "settling (snd ?s) \<and> rounds_left (snd ?s) \<le> rounds_left n" using snoc.IH snoc.prems by auto
    then have "settling (snd (enforce_one x ?s)) \<and> rounds_left (snd (enforce_one x ?s)) \<le> rounds_left (snd ?s)"
      using one [OF _ x] by blast
    then show ?case unfolding fold_snoc using ih le_trans by blast
  qed
  from this [of "[METADATA, CHATHISTORY, LABELED_RESPONSE]"] show "settling n'" "rounds_left n' \<le> rounds_left n"
    using assms by (auto simp: enforce_dependencies_def split: if_splits)
qed

lemma append_ack_pending:
  assumes "settling n" "name \<in> set (cn_pending n)"
  shows "cn_ack_lines (append_ack name n) = [name]" "(append_ack name n)\<lparr>cn_ack_lines := []\<rparr> = n"
proof -
  have "name \<in> set known_names" using assms by (auto simp: settling_def)
  then have "append_ack name n = n\<lparr>cn_ack_lines := [name]\<rparr>"
    using assms known_token [of name] by (simp add: append_ack_def append_ack_token_def settling_def)
  then show "cn_ack_lines (append_ack name n) = [name]" "(append_ack name n)\<lparr>cn_ack_lines := []\<rparr> = n"
    using assms(1) by (simp_all add: settling_def)
qed

text \<open>What is settled has ended.\<close>

lemma ended_or_settling:
  assumes "settling n2" "end_if_settled st2 n2 = (st3, n3)"
  shows "cn_phase n3 = CpEnded \<and> cn_pending n3 = [] \<or> settling n3 \<and> cn_pending n3 \<noteq> [] \<and> n3 = n2"
  using assms by (auto simp: end_if_settled_def settling_def sasl_done_def split: if_splits)

lemma answer_round_fewer:
  assumes "settling n" "cn_pending n \<noteq> []"
  shows "let n' = answer_round cr a n in
    cn_phase n' = CpEnded \<and> cn_pending n' = [] \<or> settling n' \<and> cn_pending n' \<noteq> [] \<and> rounds_left n' < rounds_left n"
proof -
  let ?name = "cn_pending n ! (fst a mod length (cn_pending n))"
  let ?m = "server_line (if snd a then CapACK else CapNAK) False ?name"
  have name: "?name \<in> set (cn_pending n)" using assms(2) by simp
  then have token: "split_whitespace ?name = [?name]" using assms(1) known_token(1) by (auto simp: settling_def)
  have d: "cap_dispatch cr None ?m n =
      (if snd a then acknowledge cr None [?name] step_default n else decline [?name] step_default n)"
    using append_ack_pending [OF assms(1) name] token
    by (simp add: cap_dispatch_def server_line_reply observe_cap_def reply_words Let_def)
  obtain r n1 where r: "cap_dispatch cr None ?m n = (r, n1)" by (rule prod.exhaust)
  have fewer: "\<not> isl r" "settling n1" "rounds_left n1 < rounds_left n"
    using r d acknowledged_fewer [OF assms(1) name] declined_fewer [OF assms(1) name] by (auto split: if_splits)
  then obtain st1 where "r = Inr st1" by (cases r) auto
  moreover obtain st2 n2 where e: "enforce_dependencies st1 n1 = (st2, n2)" by (rule prod.exhaust)
  moreover obtain st3 n3 where s: "end_if_settled st2 n2 = (st3, n3)" by (rule prod.exhaust)
  moreover have "cn_phase n \<noteq> CpInactive" using assms(1) by (simp add: settling_def)
  ultimately have "answer_round cr a n = n3" using r assms(2) by (simp add: answer_round_def cap_observe_def Let_def)
  then show ?thesis
    using ended_or_settling [OF enforced_fewer(1) [OF fewer(2) e] s] enforced_fewer(2) [OF fewer(2) e] fewer(3)
    by (auto simp: Let_def)
qed

lemma rounds_end:
  assumes "settling n \<and> cn_pending n \<noteq> [] \<and> rounds_left n \<le> length answers \<or> \<not> cap_negotiating n \<and> cn_pending n = []"
  shows "\<not> cap_negotiating (fold (answer_round cr) answers n)"
  using assms
proof (induction answers arbitrary: n)
  case Nil
  then show ?case by (auto simp: rounds_left_def)
next
  case (Cons a answers)
  have "settling (answer_round cr a n) \<and> cn_pending (answer_round cr a n) \<noteq> [] \<and> rounds_left (answer_round cr a n) \<le> length answers
      \<or> \<not> cap_negotiating (answer_round cr a n) \<and> cn_pending (answer_round cr a n) = []"
    using Cons.prems answer_round_fewer [of n cr a]
    by (cases "cn_pending n = []") (auto simp: Let_def cap_negotiating_def answer_round_def)
  then show ?case using Cons.IH by simp
qed

section \<open>The listing\<close>

definition listing :: "cap_negotiation \<Rightarrow> bool" where
  "listing n \<longleftrightarrow>
     cn_sasl n = None \<and> cn_ack_lines n = [] \<and> cn_phase n = CpListing \<and> cn_pending n = [] \<and> cn_enabled n = []
     \<and> set (cn_optional n) \<subseteq> set known_names"

lemma remember_offers_acks [simp]: "cn_ack_lines (remember_offers list' n) = cn_ack_lines n"
  unfolding remember_offers_def
  by (rule fold_inv [where P = "\<lambda>m. cn_ack_lines m = cn_ack_lines n"]) (simp_all add: remember_offer_def Let_def split: prod.split)

lemma listing_more:
  assumes "listing n"
  shows "listing (snd (cap_observe cr None (server_line CapLS True l) n))"
proof -
  have offers: "listing (remember_offers l n)" using assms by (simp add: listing_def)
  then have "enforce_dependencies step_default (remember_offers l n) = (step_default, remember_offers l n)"
    by (cases "remember_offers l n") (simp add: listing_def enforce_dependencies_def enforce_one_def cap_enabled_def Let_def)
  then show ?thesis
    using assms offers by (simp add: cap_observe_def cap_dispatch_def server_line_reply observe_cap_def reply_words
        end_if_settled_def listing_def apfst_def Let_def)
qed

lemma listing_final:
  assumes "listing n"
  shows "let n' = snd (cap_observe cr None (server_line CapLS False l) n) in
    cn_phase n' = CpEnded \<and> cn_pending n' = [] \<or> settling n' \<and> cn_pending n' \<noteq> []"
proof -
  let ?n = "(remember_offers l n)\<lparr>cn_phase := CpRequesting\<rparr>"
  have "settling ?n" using assms by (simp add: listing_def settling_def)
  then have s: "settling (snd (request_optional step_default ?n))" by (rule settling_request)
  obtain st1 n1 where r: "request_optional step_default ?n = (st1, n1)" by (rule prod.exhaust)
  obtain st2 n2 where e: "enforce_dependencies st1 n1 = (st2, n2)" by (rule prod.exhaust)
  obtain st3 n3 where f: "end_if_settled st2 n2 = (st3, n3)" by (rule prod.exhaust)
  have "snd (cap_observe cr None (server_line CapLS False l) n) = n3"
    using assms r e f by (simp add: cap_observe_def cap_dispatch_def server_line_reply observe_cap_def reply_words
        request_after_listing_def listing_def apfst_def Let_def)
  then show ?thesis using ended_or_settling [OF enforced_fewer(1) [OF _ e] f] s r by (auto simp: Let_def)
qed

lemma started_optional_known: "set (cn_optional (cap_new o' sasl utf8')) \<subseteq> set known_names"
  by (auto simp: cap_new_def optional_of_def wanted_def known_names_def Let_def split: if_splits)

text \<open>C12. A negotiation without a login ends: once the server's list of capabilities is complete, in one line or
  several, thirty-five answers end it at the latest, whatever the list offers, whichever pending request each of
  them answers and whether it acknowledges or declines it.\<close>

theorem negotiation_ends:
  assumes "35 \<le> length answers"
  shows "\<not> cap_negotiating (fold (answer_round cr) answers (listed cr more_lists final (cap_started o' None utf8')))"
proof -
  let ?n = "cap_started o' None utf8'"
  let ?lines = "map (\<lambda>l. CoObserve None (server_line CapLS True l)) more_lists"
  let ?m = "listed cr more_lists final ?n"
  have m: "?m = snd (cap_observe cr None (server_line CapLS False final) (cap_run cr ?lines ?n))" by (simp add: listed_def)
  have idle: "snd (cap_observe cr raw m ?n) = ?n" if "cn_phase ?n = CpInactive" for raw m using that by (simp add: cap_observe_def)
  have "cn_phase ?n = CpInactive \<and> cn_pending ?n = [] \<or> listing ?n"
    using started_optional_known [of o' None utf8']
    by (auto simp: cap_started_def cap_start_def listing_def cap_new_def Let_def split: if_split)
  then consider "cn_phase ?n = CpInactive" "cn_pending ?n = []" | "listing ?n" by blast
  then have "\<not> cap_negotiating ?m \<and> cn_pending ?m = [] \<or> settling ?m \<and> cn_pending ?m \<noteq> []"
  proof cases
    case 1
    then have "cap_run cr ?lines ?n = ?n" by (induction more_lists) (simp_all add: idle)
    then show ?thesis using 1 m idle by (simp add: cap_negotiating_def)
  next
    case 2
    then have "listing (cap_run cr (map (\<lambda>l. CoObserve None (server_line CapLS True l)) more_lists) n)" if "listing n" for n
      using that by (induction more_lists arbitrary: n) (simp_all add: listing_more)
    from listing_final [OF this [OF 2], of cr final] show ?thesis unfolding m [symmetric] by (auto simp: Let_def cap_negotiating_def)
  qed
  moreover have "rounds_left ?m \<le> 35" if "settling ?m"
    using settling_few [OF that] by (simp add: rounds_left_def unlocks_def)
  ultimately show ?thesis using assms by (intro rounds_end) auto
qed

theorem negotiation_ends_witness:
  "\<not> cap_negotiating (fold (answer_round letter_crypto) (replicate 35 (0, True))
      (listed letter_crypto [] (lit ''batch setname'') (cap_started \<lparr>io_message_tags = True, io_server_time = True, io_batch = True,
        io_metadata = True, io_peer_avatars = False, io_chathistory = True, io_confirmed_sending = True, io_accounts = True\<rparr>
        None True)))"
  by (rule negotiation_ends) simp

end
