(* ===== verification/Search.thy ===== *)
theory Search
  imports Prelude "HOL-Library.Sublist"
begin

text \<open>
  The search term of \<open>crates/app/src/search.rs\<close>, \<open>Query\<close>: a case-insensitive search by Knuth, Morris and
  Pratt over the lowercase forms of a text, read once, and the proof that it finds what reading the text from
  every position finds. \<open>char::to_lowercase\<close> (Unicode tables) is the argument \<open>lower\<close>; a loop that did not end
  or an index out of range would be \<open>None\<close>.
\<close>

section \<open>The term\<close>

record search_query =
  sq_folded :: rstring
  sq_fallback :: "nat list"

definition folded_by :: "(rchar \<Rightarrow> rstring) \<Rightarrow> rstring \<Rightarrow> rstring" where
  "folded_by lower s = concat (map lower s)"

text \<open>The loop both passes share: \<open>while matched > 0 && bad\<close>, going back over the table.\<close>

partial_function (option) retreat :: "(nat \<Rightarrow> bool) \<Rightarrow> nat list \<Rightarrow> nat \<Rightarrow> nat option" where
  "retreat bad fallback matched =
     (if 0 < matched \<and> bad matched
      then (if matched - 1 < length fallback then retreat bad fallback (fallback ! (matched - 1)) else None)
      else Some matched)"

fun build_fallback :: "rstring \<Rightarrow> nat list \<Rightarrow> nat list \<times> nat \<Rightarrow> nat list option" where
  "build_fallback folded [] (fallback, matched) = Some fallback"
| "build_fallback folded (index # rest) (fallback, matched) =
     (case retreat (\<lambda>m. folded ! index \<noteq> folded ! m) fallback matched of
        None \<Rightarrow> None
      | Some m \<Rightarrow>
          (let m = (if folded ! index = folded ! m then m + 1 else m)
           in build_fallback folded rest (fallback[index := m], m)))"

definition query_new :: "(rchar \<Rightarrow> rstring) \<Rightarrow> rstring \<Rightarrow> search_query option option" where
  "query_new lower term' =
     (let folded = folded_by lower term' in
      if folded = [] then Some None
      else
        map_option (\<lambda>fallback. Some \<lparr>sq_folded = folded, sq_fallback = fallback\<rparr>)
          (build_fallback folded [1..<length folded] (replicate (length folded) 0, 0)))"

section \<open>Reading a text\<close>

text \<open>The state of a pass: where the last folded characters came from, how many there were, how many match.\<close>

type_synonym pass = "(nat \<times> bool) list \<times> nat \<times> nat"

text \<open>One folded character from the character at byte \<open>at\<close>, its first or not.\<close>

definition feed :: "search_query \<Rightarrow> nat \<Rightarrow> bool \<Rightarrow> rchar \<Rightarrow> pass \<Rightarrow> pass option" where
  "feed q at first c = (\<lambda>(origins, count, matched).
     (let folded = sq_folded q; n = length folded
      in case retreat (\<lambda>m. m = n \<or> folded ! m \<noteq> c) (sq_fallback q) matched of
           None \<Rightarrow> None
         | Some m \<Rightarrow> Some (origins[count mod n := (at, first)], count + 1, if folded ! m = c then m + 1 else m)))"

text \<open>The folded characters of one character, which ends at byte \<open>end'\<close>; a match ends with the last of them.\<close>

fun find_in_char ::
  "search_query \<Rightarrow> nat \<Rightarrow> nat \<Rightarrow> bool \<Rightarrow> rstring \<Rightarrow> pass \<Rightarrow> ((nat \<times> nat) option \<times> pass) option" where
  "find_in_char q at end' first [] s = Some (None, s)"
| "find_in_char q at end' first (c # cs) s =
     (case feed q at first c s of
        None \<Rightarrow> None
      | Some (origins, count, matched) \<Rightarrow>
          (if matched = length (sq_folded q) \<and> cs = [] \<and> snd (origins ! (count mod length (sq_folded q)))
           then Some (Some (fst (origins ! (count mod length (sq_folded q))), end'), (origins, count, matched))
           else find_in_char q at end' False cs (origins, count, matched)))"

fun find_in_text ::
  "(rchar \<Rightarrow> rstring) \<Rightarrow> search_query \<Rightarrow> nat \<Rightarrow> rstring \<Rightarrow> pass \<Rightarrow> (nat \<times> nat) option option" where
  "find_in_text lower q at [] s = Some None"
| "find_in_text lower q at (c # text') s =
     (case find_in_char q at (at + utf8_len c) True (lower c) s of
        None \<Rightarrow> None
      | Some (Some range', _) \<Rightarrow> Some (Some range')
      | Some (None, s) \<Rightarrow> find_in_text lower q (at + utf8_len c) text' s)"

definition find_from ::
  "(rchar \<Rightarrow> rstring) \<Rightarrow> search_query \<Rightarrow> rstring \<Rightarrow> nat \<Rightarrow> (nat \<times> nat) option option" where
  "find_from lower q text' from =
     (let wanted = length (sq_folded q); tail = slice_from text' from
      in if blen tail * 3 < wanted then Some None
         else find_in_text lower q from tail (replicate wanted (0, False), 0, 0))"

definition is_match :: "(rchar \<Rightarrow> rstring) \<Rightarrow> search_query \<Rightarrow> rstring \<Rightarrow> bool option" where
  "is_match lower q text' = map_option (\<lambda>found. found \<noteq> None) (find_from lower q text' 0)"

partial_function (option) ranges_from ::
  "(rchar \<Rightarrow> rstring) \<Rightarrow> search_query \<Rightarrow> rstring \<Rightarrow> nat \<Rightarrow> (nat \<times> nat) list option" where
  "ranges_from lower q text' from =
     (case find_from lower q text' from of
        None \<Rightarrow> None
      | Some None \<Rightarrow> Some []
      | Some (Some (a, b)) \<Rightarrow> Option.bind (ranges_from lower q text' b) (\<lambda>found. Some ((a, b) # found)))"

definition search_ranges :: "(rchar \<Rightarrow> rstring) \<Rightarrow> search_query \<Rightarrow> rstring \<Rightarrow> (nat \<times> nat) list option" where
  "search_ranges lower q text' = ranges_from lower q text' 0"

section \<open>Borders\<close>

text \<open>How much of a term a text ends with: the longest prefix of the term, the whole term included.\<close>

definition ends_with :: "'a list \<Rightarrow> 'a list \<Rightarrow> nat \<Rightarrow> bool" where
  "ends_with p t k \<longleftrightarrow> k \<le> length p \<and> suffix (take k p) t"

definition longest_end :: "'a list \<Rightarrow> 'a list \<Rightarrow> nat \<Rightarrow> bool" where
  "longest_end p t k \<longleftrightarrow> ends_with p t k \<and> (\<forall>j. ends_with p t j \<longrightarrow> j \<le> k)"

text \<open>A proper border of the first \<open>k\<close> characters: what they end with, less the first of them.\<close>

definition table_ok :: "'a list \<Rightarrow> nat list \<Rightarrow> nat \<Rightarrow> bool" where
  "table_ok p fallback n \<longleftrightarrow>
     n \<le> length fallback \<and> (\<forall>k. 0 < k \<and> k \<le> n \<longrightarrow> longest_end p (drop 1 (take k p)) (fallback ! (k - 1)))"

lemma ends_with_0 [simp]: "ends_with p t 0"
  by (simp add: ends_with_def)

lemma ends_with_length: "ends_with p t k \<Longrightarrow> k \<le> length t"
  using suffix_length_le by (fastforce simp: ends_with_def)

lemma ends_with_snoc: "ends_with p (t @ [c]) (Suc k) \<longleftrightarrow> ends_with p t k \<and> k < length p \<and> p ! k = c"
  by (auto simp: ends_with_def take_Suc_conv_app_nth)

text \<open>Within the first \<open>k\<close> characters, what the text ends with as well is a proper border.\<close>

lemma border_of:
  assumes "ends_with p t k" "j < k"
  shows "ends_with p t j \<longleftrightarrow> ends_with p (drop 1 (take k p)) j"
proof -
  have "length (take j p) \<le> length (drop 1 (take k p))" using assms by (simp add: ends_with_def)
  moreover have "suffix (drop 1 (take k p)) t"
    using assms(1) suffix_drop suffix_order.trans by (metis ends_with_def)
  ultimately show ?thesis
    using suffix_length_suffix [of "take j p" t "drop 1 (take k p)"] suffix_order.trans [of "take j p" "drop 1 (take k p)" t]
    by (auto simp: ends_with_def)
qed

lemma border_less: "0 < k \<Longrightarrow> k \<le> length p \<Longrightarrow> longest_end p (drop 1 (take k p)) b \<Longrightarrow> b < k"
  using ends_with_length [of p "drop 1 (take k p)" b] by (simp add: longest_end_def)

text \<open>The loop stops at the longest prefix that the next character continues.\<close>

lemma retreat_stops:
  assumes "table_ok p fallback n" "ends_with p t k" "k \<le> n"
    and "\<And>j. ends_with p t j \<Longrightarrow> k < j \<Longrightarrow> bad j"
  shows "\<exists>r. retreat bad fallback k = Some r \<and> ends_with p t r \<and> r \<le> k \<and> (r = 0 \<or> \<not> bad r)
    \<and> (\<forall>j. ends_with p t j \<and> r < j \<longrightarrow> bad j)"
  using assms(2-)
proof (induction k rule: less_induct)
  case (less k)
  show ?case
  proof (cases "0 < k \<and> bad k")
    case False
    then show ?thesis using less.prems by (subst retreat.simps) auto
  next
    case True
    let ?b = "fallback ! (k - 1)"
    have b: "longest_end p (drop 1 (take k p)) ?b" using assms(1) True less.prems(2) by (simp add: table_ok_def)
    have "k \<le> length p" using less.prems(1) by (simp add: ends_with_def)
    then have small: "?b < k" using border_less [OF _ _ b] True by simp
    then have "ends_with p t ?b" using b border_of [OF less.prems(1)] by (simp add: longest_end_def)
    moreover have "bad j" if "ends_with p t j" "?b < j" for j
    proof (cases "j < k")
      case in_border: True
      then have "j \<le> ?b" using b that(1) border_of [OF less.prems(1)] by (simp add: longest_end_def)
      then show ?thesis using that(2) by simp
    next
      case False
      then show ?thesis using less.prems(3) [OF that(1)] True by (cases "j = k") auto
    qed
    ultimately obtain r where "retreat bad fallback ?b = Some r" "ends_with p t r" "r \<le> ?b" "r = 0 \<or> \<not> bad r"
      "\<forall>j. ends_with p t j \<and> r < j \<longrightarrow> bad j"
      using less.IH [OF small] less.prems(2) small by force
    moreover have "k - 1 < length fallback" using assms(1) True less.prems(2) by (auto simp: table_ok_def)
    ultimately show ?thesis using True small by (subst retreat.simps) auto
  qed
qed

text \<open>One more character.\<close>

lemma longest_snoc:
  assumes "table_ok p fallback n" "longest_end p t k" "k \<le> n" "p \<noteq> []"
    and "\<And>j. ends_with p t j \<Longrightarrow> bad j \<longleftrightarrow> j = length p \<or> p ! j \<noteq> c"
  shows "\<exists>r. retreat bad fallback k = Some r \<and> r \<le> k \<and> r < length p
    \<and> longest_end p (t @ [c]) (if p ! r = c then r + 1 else r)"
proof -
  have k: "ends_with p t k" "\<And>j. ends_with p t j \<Longrightarrow> j \<le> k" using assms(2) by (auto simp: longest_end_def)
  obtain r where r: "retreat bad fallback k = Some r" "ends_with p t r" "r \<le> k" "r = 0 \<or> \<not> bad r"
    "\<And>j. ends_with p t j \<Longrightarrow> r < j \<Longrightarrow> bad j"
    using retreat_stops [OF assms(1) k(1) assms(3), of bad] k(2) by (meson leD)
  have less: "r < length p" using r(2,4) assms(4) assms(5) [OF r(2)] by (auto simp: ends_with_def)
  have "longest_end p (t @ [c]) (if p ! r = c then r + 1 else r)"
    unfolding longest_end_def
  proof (intro conjI allI impI)
    show "ends_with p (t @ [c]) (if p ! r = c then r + 1 else r)"
      using r(2,4) less assms(5) [OF r(2)] by (auto simp: ends_with_snoc)
    fix j
    assume j: "ends_with p (t @ [c]) j"
    show "j \<le> (if p ! r = c then r + 1 else r)"
    proof (cases j)
      case (Suc i)
      then have i: "ends_with p t i" "i < length p" "p ! i = c" using j by (auto simp: ends_with_snoc)
      then have "\<not> bad i" using assms(5) by simp
      then have "i \<le> r" using r(5) [OF i(1)] by (meson not_le)
      then show ?thesis using i Suc by (auto simp: le_less)
    qed simp
  qed
  then show ?thesis using r(1,3) less by blast
qed

section \<open>The table\<close>

lemma table_grows:
  assumes "table_ok p fallback n" "n < length fallback" "n < length p" "longest_end p (drop 1 (take (Suc n) p)) m"
  shows "table_ok p (fallback[n := m]) (Suc n)"
  unfolding table_ok_def
proof (intro conjI allI impI)
  fix k
  assume "0 < k \<and> k \<le> Suc n"
  then show "longest_end p (drop 1 (take k p)) (fallback[n := m] ! (k - 1))"
    using assms by (cases "k = Suc n") (auto simp: table_ok_def)
qed (use assms in simp)

lemma build_table:
  assumes "0 < n" "n \<le> length p" "length fallback = length p" "table_ok p fallback n"
    "longest_end p (drop 1 (take n p)) m"
  shows "\<exists>table. build_fallback p [n..<length p] (fallback, m) = Some table \<and> length table = length p
    \<and> table_ok p table (length p)"
  using assms
proof (induction "length p - n" arbitrary: n fallback m)
  case 0
  then show ?case by simp
next
  case (Suc d)
  then have n: "n < length p" by simp
  then have upt: "[n..<length p] = n # [Suc n..<length p]" by (rule upt_conv_Cons)
  have t: "drop 1 (take n p) @ [p ! n] = drop 1 (take (Suc n) p)"
    using n Suc.prems(1) by (simp add: take_Suc_conv_app_nth)
  have "m < n" using border_less [OF Suc.prems(1,2,5)] .
  moreover have "p ! n \<noteq> p ! j \<longleftrightarrow> j = length p \<or> p ! j \<noteq> p ! n" if "ends_with p (drop 1 (take n p)) j" for j
    using ends_with_length [OF that] n Suc.prems(1) by auto
  ultimately obtain r where r: "retreat (\<lambda>m. p ! n \<noteq> p ! m) fallback m = Some r"
    "longest_end p (drop 1 (take (Suc n) p)) (if p ! r = p ! n then r + 1 else r)"
    using longest_snoc [OF Suc.prems(4,5), of "\<lambda>m. p ! n \<noteq> p ! m" "p ! n"] n unfolding t by force
  let ?m = "if p ! n = p ! r then r + 1 else r"
  have m: "longest_end p (drop 1 (take (Suc n) p)) ?m" using r(2) by (simp add: eq_commute)
  have "table_ok p (fallback[n := ?m]) (Suc n)"
    using table_grows [OF Suc.prems(4) _ n m] n Suc.prems(3) by simp
  moreover have "d = length p - Suc n" using Suc.hyps(2) by simp
  ultimately have "\<exists>table. build_fallback p [Suc n..<length p] (fallback[n := ?m], ?m) = Some table \<and> length table = length p
      \<and> table_ok p table (length p)"
    using n m Suc.prems(3) by (intro Suc.hyps(1)) simp_all
  then show ?case using r(1) by (simp add: upt Let_def)
qed

definition query_ok :: "search_query \<Rightarrow> bool" where
  "query_ok q \<longleftrightarrow> sq_folded q \<noteq> [] \<and> table_ok (sq_folded q) (sq_fallback q) (length (sq_folded q))"

lemma query_new_ok:
  assumes "folded_by lower term' \<noteq> []"
  obtains q where "query_new lower term' = Some (Some q)" "query_ok q" "sq_folded q = folded_by lower term'"
proof -
  let ?p = "folded_by lower term'"
  have one: "longest_end ?p (drop 1 (take 1 ?p)) 0"
    using ends_with_length [of ?p "[]"] by (auto simp: longest_end_def)
  then have "table_ok ?p (replicate (length ?p) 0) 1"
    using assms by (auto simp: table_ok_def Suc_le_eq intro!: le_antisym)
  moreover have "1 \<le> length ?p" using assms by (simp add: Suc_le_eq)
  ultimately obtain table where "build_fallback ?p [1..<length ?p] (replicate (length ?p) 0, 0) = Some table"
    "table_ok ?p table (length ?p)"
    using build_table [of 1 ?p "replicate (length ?p) 0" 0] one by auto
  then show thesis
    using that [of "\<lparr>sq_folded = ?p, sq_fallback = table\<rparr>"] assms by (simp add: query_new_def query_ok_def Let_def)
qed

section \<open>The pass\<close>

text \<open>What a pass remembers after the folded characters \<open>t\<close>, which came from \<open>os\<close>.\<close>

definition tracks :: "search_query \<Rightarrow> rstring \<Rightarrow> (nat \<times> bool) list \<Rightarrow> pass \<Rightarrow> bool" where
  "tracks q t os = (\<lambda>(origins, count, matched).
     length t = count \<and> length os = count \<and> length origins = length (sq_folded q) \<and> longest_end (sq_folded q) t matched
     \<and> (\<forall>i. i < count \<and> count \<le> i + length (sq_folded q) \<longrightarrow> origins ! (i mod length (sq_folded q)) = os ! i))"

lemma mod_near:
  fixes i k n :: nat
  assumes "i mod n = k mod n" "i < k" "k < i + n"
  shows False
proof -
  have "n dvd k - i" using assms(1,2) by (metis mod_eq_dvd_iff_nat less_imp_le)
  then show False using assms(2,3) by (auto dest: dvd_imp_le)
qed

lemma feed_tracks:
  assumes "query_ok q" "tracks q t os s"
  shows "\<exists>s'. feed q at first c s = Some s' \<and> tracks q (t @ [c]) (os @ [(at, first)]) s'"
proof -
  obtain origins count matched where s: "s = (origins, count, matched)" by (rule prod_cases3)
  let ?p = "sq_folded q"
  have len: "0 < length ?p" "matched \<le> length ?p" "?p \<noteq> []"
    using assms s by (auto simp: query_ok_def tracks_def longest_end_def ends_with_def)
  obtain r where r: "retreat (\<lambda>m. m = length ?p \<or> ?p ! m \<noteq> c) (sq_fallback q) matched = Some r"
    "longest_end ?p (t @ [c]) (if ?p ! r = c then r + 1 else r)"
    using longest_snoc [of ?p "sq_fallback q" "length ?p" t matched "\<lambda>m. m = length ?p \<or> ?p ! m \<noteq> c" c] assms len s
    by (auto simp: query_ok_def tracks_def)
  have "(origins[count mod length ?p := (at, first)]) ! (i mod length ?p) = (os @ [(at, first)]) ! i"
    if "i < Suc count" "Suc count \<le> i + length ?p" for i
  proof (cases "i = count")
    case True
    then show ?thesis using assms(2) s len by (auto simp: tracks_def nth_append)
  next
    case False
    then have "i mod length ?p \<noteq> count mod length ?p" using that mod_near [of i "length ?p" count] by auto
    then show ?thesis using assms(2) s that False by (auto simp: tracks_def nth_append)
  qed
  then show ?thesis
    using r assms(2) s by (auto simp: feed_def tracks_def Let_def)
qed

lemma tracks_matched: "tracks q t os (origins, count, matched) \<Longrightarrow> matched = length (sq_folded q) \<longleftrightarrow> suffix (sq_folded q) t"
  by (auto simp: tracks_def longest_end_def ends_with_def intro!: le_antisym)

text \<open>Where the term would begin if the text ended with it.\<close>

lemma tracks_begin:
  assumes "query_ok q" "tracks q t os (origins, count, matched)" "suffix (sq_folded q) t"
  shows "origins ! (count mod length (sq_folded q)) = os ! (length t - length (sq_folded q))"
proof -
  let ?n = "length (sq_folded q)"
  have "?n \<le> length t" by (rule suffix_length_le [OF assms(3)])
  moreover have "0 < ?n" using assms(1) by (simp add: query_ok_def)
  moreover have "length t = count" using assms(2) by (simp add: tracks_def)
  ultimately have "count mod ?n = (count - ?n) mod ?n" "count - ?n < count" "count \<le> (count - ?n) + ?n"
    by (simp add: le_mod_geq, linarith, linarith)
  then show ?thesis using assms(2) by (simp add: tracks_def)
qed

text \<open>One character of the text, with its folded characters.\<close>

definition char_origins :: "nat \<Rightarrow> bool \<Rightarrow> nat \<Rightarrow> (nat \<times> bool) list" where
  "char_origins at first n = (if n = 0 then [] else (at, first) # replicate (n - 1) (at, False))"

lemma char_origins_Suc: "char_origins at first (Suc n) = (at, first) # char_origins at False n"
  by (cases n) (simp_all add: char_origins_def)

lemma char_origins_later: "Suc i < n \<Longrightarrow> \<not> snd (char_origins at first n ! Suc i)"
  by (simp add: char_origins_def)

lemma find_in_char_result:
  assumes "query_ok q" "tracks q t os s" "cs \<noteq> []"
  shows "let t' = t @ cs; os' = os @ char_origins at first (length cs); start = os' ! (length t' - length (sq_folded q)) in
    \<exists>s'. find_in_char q at end' first cs s =
        Some (if suffix (sq_folded q) t' \<and> snd start then Some (fst start, end') else None, s') \<and> tracks q t' os' s'"
  using assms(2,3)
proof (induction cs arbitrary: t os s first)
  case (Cons c cs)
  obtain s' where s': "feed q at first c s = Some s'" "tracks q (t @ [c]) (os @ [(at, first)]) s'"
    using feed_tracks [OF assms(1) Cons.prems(1)] by blast
  obtain origins count matched where p: "s' = (origins, count, matched)" by (rule prod_cases3)
  show ?case
  proof (cases "cs = []")
    case True
    then show ?thesis
      using s' p tracks_matched [of q "t @ [c]" _ origins count matched] tracks_begin [OF assms(1), of "t @ [c]" _ origins count matched]
      by (auto simp: char_origins_def Let_def)
  next
    case False
    then show ?thesis
      using Cons.IH [OF s'(2) False, of False] s'(1) p by (simp add: char_origins_Suc Let_def)
  qed
qed simp

text \<open>The whole text.\<close>

fun text_origins :: "(rchar \<Rightarrow> rstring) \<Rightarrow> nat \<Rightarrow> rstring \<Rightarrow> (nat \<times> bool) list" where
  "text_origins lower at [] = []"
| "text_origins lower at (c # s) = char_origins at True (length (lower c)) @ text_origins lower (at + utf8_len c) s"

text \<open>\<open>char::to_lowercase\<close> gives one to three characters.\<close>

definition lowering :: "(rchar \<Rightarrow> rstring) \<Rightarrow> bool" where
  "lowering lower \<longleftrightarrow> (\<forall>c. lower c \<noteq> [] \<and> length (lower c) \<le> 3)"

lemma folded_by_simps [simp]:
  "folded_by lower [] = []" "folded_by lower (c # s) = lower c @ folded_by lower s"
  "folded_by lower (s @ t) = folded_by lower s @ folded_by lower t"
  by (simp_all add: folded_by_def)

lemma folded_by_Nil_iff: "lowering lower \<Longrightarrow> folded_by lower s = [] \<longleftrightarrow> s = []"
  by (cases s) (simp_all add: lowering_def)

lemma length_folded_by: "lowering lower \<Longrightarrow> length (folded_by lower s) \<le> 3 * length s"
proof (induction s)
  case (Cons c s)
  then have "length (lower c) \<le> 3" "length (folded_by lower s) \<le> 3 * length s" by (simp_all add: lowering_def)
  then show ?case by simp
qed simp

lemma length_char_origins [simp]: "length (char_origins at first n) = n"
  by (simp add: char_origins_def)

lemma length_text_origins [simp]: "length (text_origins lower at s) = length (folded_by lower s)"
  by (induction s arbitrary: at) simp_all

lemma text_origins_snoc:
  "text_origins lower at (s @ [c]) = text_origins lower at s @ char_origins (at + blen s) True (length (lower c))"
  by (induction s arbitrary: at) (simp_all add: add.assoc)

text \<open>The first folded characters are the places where characters begin.\<close>

lemma text_origins_at:
  "lowering lower \<Longrightarrow> w \<noteq> [] \<Longrightarrow> text_origins lower at (u @ w) ! length (folded_by lower u) = (at + blen u, True)"
proof (induction u arbitrary: at)
  case Nil
  then obtain c w' where "w = c # w'" "lower c \<noteq> []" by (cases w) (auto simp: lowering_def)
  then show ?case by (simp add: nth_append char_origins_def)
next
  case (Cons c u)
  then show ?case by (simp add: nth_append add.assoc)
qed

lemma text_origins_first:
  assumes "i < length (folded_by lower s)" "snd (text_origins lower at s ! i)"
  shows "\<exists>u w. s = u @ w \<and> length (folded_by lower u) = i"
  using assms
proof (induction s arbitrary: at i)
  case (Cons c s)
  show ?case
  proof (cases "i < length (lower c)")
    case True
    then have "i = 0" using Cons.prems(2) char_origins_later [of _ "length (lower c)" at True] by (cases i) (auto simp: nth_append)
    then show ?thesis by (intro exI [of _ "[]"] exI [of _ "c # s"]) simp
  next
    case False
    moreover have "i - length (lower c) < length (folded_by lower s)" using False Cons.prems(1) by auto
    ultimately obtain u w where "s = u @ w" "length (folded_by lower u) = i - length (lower c)"
      using Cons.IH [of "i - length (lower c)" "at + utf8_len c"] Cons.prems(2) by (auto simp: nth_append)
    then show ?thesis using False by (intro exI [of _ "c # u"] exI [of _ w]) auto
  qed
qed simp

text \<open>An occurrence of the term: whole characters whose lowercase forms are those of the term.\<close>

definition occurs :: "(rchar \<Rightarrow> rstring) \<Rightarrow> rstring \<Rightarrow> rstring \<Rightarrow> rstring \<Rightarrow> rstring \<Rightarrow> bool" where
  "occurs lower p s u w \<longleftrightarrow> (\<exists>v. s = u @ w @ v) \<and> folded_by lower w = p"

lemma found_at_end:
  assumes "lowering lower" "p \<noteq> []" "suffix p (folded_by lower s)"
  shows "snd (text_origins lower at s ! (length (folded_by lower s) - length p)) \<longleftrightarrow> (\<exists>u w. s = u @ w \<and> folded_by lower w = p)"
    "s = u @ w \<Longrightarrow> folded_by lower w = p \<Longrightarrow>
      text_origins lower at s ! (length (folded_by lower s) - length p) = (at + blen u, True)"
proof -
  let ?i = "length (folded_by lower s) - length p"
  have len: "length p \<le> length (folded_by lower s)" "0 < length p" using suffix_length_le [OF assms(3)] assms(2) by simp_all
  show found: "text_origins lower at s ! ?i = (at + blen u, True)" if "s = u @ w" "folded_by lower w = p" for u w
    using text_origins_at [OF assms(1), of w at u] that assms(1,2) by (auto simp: folded_by_Nil_iff)
  show "snd (text_origins lower at s ! ?i) \<longleftrightarrow> (\<exists>u w. s = u @ w \<and> folded_by lower w = p)"
  proof
    assume "snd (text_origins lower at s ! ?i)"
    moreover have "?i < length (folded_by lower s)" using len by linarith
    ultimately obtain u w where u: "s = u @ w" "length (folded_by lower u) = ?i"
      using text_origins_first [of ?i lower s at] by blast
    obtain x where x: "folded_by lower s = x @ p" using assms(3) by (auto simp: suffix_def)
    then have "length x = length (folded_by lower u)" unfolding u(2) by simp
    moreover have "x @ p = folded_by lower u @ folded_by lower w" using x by (simp add: u(1))
    ultimately have "folded_by lower w = p" by (metis append_eq_append_conv)
    then show "\<exists>u w. s = u @ w \<and> folded_by lower w = p" using u(1) by blast
  next
    assume "\<exists>u w. s = u @ w \<and> folded_by lower w = p"
    then show "snd (text_origins lower at s ! ?i)" using found by auto
  qed
qed

text \<open>The answer of reading on after \<open>n\<close> characters of \<open>s\<close>: the occurrence that ends first, if there is one.\<close>

definition answer_ok ::
  "(rchar \<Rightarrow> rstring) \<Rightarrow> rstring \<Rightarrow> nat \<Rightarrow> nat \<Rightarrow> rstring \<Rightarrow> (nat \<times> nat) option \<Rightarrow> bool" where
  "answer_ok lower p base n s found \<longleftrightarrow>
     (case found of
        None \<Rightarrow> \<forall>u w. occurs lower p s u w \<longrightarrow> length (u @ w) \<le> n
      | Some (a, b) \<Rightarrow> \<exists>u w. occurs lower p s u w \<and> a = base + blen u \<and> b = base + blen (u @ w)
          \<and> (\<forall>u' w'. occurs lower p s u' w' \<and> n < length (u' @ w') \<longrightarrow> length (u @ w) \<le> length (u' @ w')))"

lemma answer_okI:
  assumes "occurs lower p s u w"
    and "\<And>u' w'. occurs lower p s u' w' \<Longrightarrow> n < length (u' @ w') \<Longrightarrow> length (u @ w) \<le> length (u' @ w')"
  shows "answer_ok lower p base n s (Some (base + blen u, base + blen (u @ w)))"
  unfolding answer_ok_def option.case prod.case using assms by blast

lemma answer_ok_skip:
  assumes "answer_ok lower p base (Suc n) s found"
    and "\<And>u w. occurs lower p s u w \<Longrightarrow> length (u @ w) \<noteq> Suc n"
  shows "answer_ok lower p base n s found"
proof -
  have "Suc n < length (u @ w)" if "occurs lower p s u w" "n < length (u @ w)" for u w
    using assms(2) [OF that(1)] that(2) by simp
  note later = this
  show ?thesis
  proof (cases found)
    case None
    have "length (u @ w) \<le> n" if o: "occurs lower p s u w" for u w
    proof (rule ccontr)
      assume "\<not> length (u @ w) \<le> n"
      then have "Suc n < length (u @ w)" using later [OF o] by linarith
      moreover have "length (u @ w) \<le> Suc n" using assms(1) o None by (simp add: answer_ok_def)
      ultimately show False by simp
    qed
    then show ?thesis using None by (simp add: answer_ok_def)
  next
    case (Some r)
    obtain a b where r: "r = (a, b)" by (rule prod.exhaust)
    obtain u w where "occurs lower p s u w" "a = base + blen u" "b = base + blen (u @ w)"
      "\<And>u' w'. occurs lower p s u' w' \<Longrightarrow> Suc n < length (u' @ w') \<Longrightarrow> length (u @ w) \<le> length (u' @ w')"
      using assms(1) unfolding answer_ok_def Some r by auto
    then show ?thesis using later unfolding answer_ok_def Some r option.case prod.case by blast
  qed
qed

lemma find_in_text_result:
  assumes "query_ok q" "lowering lower"
    and "tracks q (folded_by lower d) (text_origins lower base d) s"
  shows "\<exists>found. find_in_text lower q (base + blen d) rest s = Some found
    \<and> answer_ok lower (sq_folded q) base (length d) (d @ rest) found"
  using assms(3)
proof (induction rest arbitrary: d s)
  case Nil
  then show ?case by (auto simp: answer_ok_def occurs_def)
next
  case (Cons c rest)
  let ?p = "sq_folded q" and ?d = "d @ [c]"
  let ?start = "text_origins lower base ?d ! (length (folded_by lower ?d) - length ?p)"
  have c: "lower c \<noteq> []" using assms(2) by (simp add: lowering_def)
  have p: "?p \<noteq> []" using assms(1) by (simp add: query_ok_def)
  have at: "base + blen d + utf8_len c = base + blen ?d" by simp
  obtain s' where s': "find_in_char q (base + blen d) (base + blen ?d) True (lower c) s =
      Some (if suffix ?p (folded_by lower ?d) \<and> snd ?start then Some (fst ?start, base + blen ?d) else None, s')"
    "tracks q (folded_by lower ?d) (text_origins lower base ?d) s'"
    using find_in_char_result [OF assms(1) Cons.prems c, of "base + blen d" True "base + blen ?d"]
    by (auto simp: text_origins_snoc Let_def)
  have ends: "suffix ?p (folded_by lower ?d)" if "?d = u @ w" "folded_by lower w = ?p" for u w
    unfolding that(1) by (simp add: that(2) suffix_def)
  have whole: "suffix ?p (folded_by lower ?d) \<and> snd ?start \<longleftrightarrow> (\<exists>u w. ?d = u @ w \<and> folded_by lower w = ?p)"
    using found_at_end(1) [OF assms(2) p, of ?d base] ends by blast
  show ?case
  proof (cases "\<exists>u w. ?d = u @ w \<and> folded_by lower w = ?p")
    case True
    then obtain u w where uw: "?d = u @ w" "folded_by lower w = ?p" by blast
    have start: "?start = (base + blen u, True)" by (rule found_at_end(2) [OF assms(2) p ends [OF uw] uw])
    have "find_in_char q (base + blen d) (base + blen ?d) True (lower c) s = Some (Some (base + blen u, base + blen ?d), s')"
      using s'(1) unfolding if_P [OF iffD2 [OF whole True]] by (simp only: start fst_conv)
    then have "find_in_text lower q (base + blen d) (c # rest) s = Some (Some (base + blen u, base + blen ?d))"
      unfolding find_in_text.simps at by simp
    moreover have o: "occurs lower ?p (d @ c # rest) u w" using uw by (metis occurs_def append.assoc append_Cons append_Nil)
    have "length (u @ w) = Suc (length d)" using arg_cong [OF uw(1), of length] by simp
    then have "answer_ok lower ?p base (length d) (d @ c # rest) (Some (base + blen u, base + blen ?d))"
      unfolding uw(1) by (intro answer_okI [OF o]) simp
    ultimately show ?thesis by blast
  next
    case False
    have "length (u @ w) \<noteq> Suc (length d)" if o: "occurs lower ?p (d @ c # rest) u w" for u w
    proof
      assume "length (u @ w) = Suc (length d)"
      moreover obtain v where "?d @ rest = (u @ w) @ v" using o by (auto simp: occurs_def)
      ultimately have "?d = u @ w" by (metis append_eq_append_conv length_append_singleton)
      then show False using False o by (auto simp: occurs_def)
    qed
    moreover have no: "\<not> (suffix ?p (folded_by lower ?d) \<and> snd ?start)" using whole False by blast
    have "find_in_char q (base + blen d) (base + blen ?d) True (lower c) s = Some (None, s')"
      using s'(1) by (simp only: if_not_P [OF no])
    then have "find_in_text lower q (base + blen d) (c # rest) s = find_in_text lower q (base + blen ?d) rest s'"
      unfolding find_in_text.simps at by simp
    moreover obtain found where "find_in_text lower q (base + blen ?d) rest s' = Some found"
      "answer_ok lower ?p base (Suc (length d)) (d @ c # rest) found"
      using Cons.IH [OF s'(2)] by auto
    ultimately show ?thesis by (auto intro: answer_ok_skip)
  qed
qed

section \<open>Reading from every position\<close>

text \<open>The plain search: does the text begin with whole characters that fold to the term, and how many of them.\<close>

fun whole_match :: "(rchar \<Rightarrow> rstring) \<Rightarrow> rstring \<Rightarrow> rstring \<Rightarrow> nat option" where
  "whole_match lower p [] = (if p = [] then Some 0 else None)"
| "whole_match lower p (c # s) =
     (if p = [] then Some 0
      else
        (case strip_prefix (lower c) p of
           None \<Rightarrow> None
         | Some rest \<Rightarrow> map_option Suc (whole_match lower rest s)))"

text \<open>Occurrences from left to right, each after the end of the one before.\<close>

function occurrences :: "(rchar \<Rightarrow> rstring) \<Rightarrow> rstring \<Rightarrow> nat \<Rightarrow> rstring \<Rightarrow> (nat \<times> nat) list" where
  "occurrences lower p at [] = []"
| "occurrences lower p at (c # s) =
     (case whole_match lower p (c # s) of
        Some (Suc k) \<Rightarrow>
          (at, at + blen (c # take k s)) # occurrences lower p (at + blen (c # take k s)) (drop k s)
      | _ \<Rightarrow> occurrences lower p (at + utf8_len c) s)"
  by pat_completeness auto

termination by (relation "measure (\<lambda>(lower, p, at, s). length s)") auto

lemma strip_prefix_append [simp]: "strip_prefix p (p @ s) = Some s"
  by (simp add: strip_prefix_def)

lemma whole_match_iff:
  "lowering lower \<Longrightarrow> whole_match lower p s = Some k \<longleftrightarrow> k \<le> length s \<and> folded_by lower (take k s) = p"
proof (induction s arbitrary: p k)
  case (Cons c s)
  have c: "lower c \<noteq> []" using Cons.prems by (simp add: lowering_def)
  show ?case
  proof (cases k)
    case 0
    then show ?thesis using c by (auto simp: strip_prefix_Some split: option.splits)
  next
    case (Suc i)
    have "whole_match lower p (c # s) = Some (Suc i) \<longleftrightarrow> (\<exists>rest. p = lower c @ rest \<and> whole_match lower rest s = Some i)"
      using c by (auto simp: strip_prefix_Some split: option.splits)
    then show ?thesis using Cons.IH [OF Cons.prems] Suc by auto
  qed
qed (auto simp: lowering_def)

lemma occurrences_none:
  assumes "lowering lower" "p \<noteq> []" "\<And>u w. \<not> occurs lower p s u w"
  shows "occurrences lower p at s = []"
  using assms(3)
proof (induction s arbitrary: at)
  case (Cons c s)
  have "whole_match lower p (c # s) = None"
  proof (rule ccontr)
    assume "whole_match lower p (c # s) \<noteq> None"
    then obtain k where "whole_match lower p (c # s) = Some k" by blast
    then have "folded_by lower (take k (c # s)) = p" using whole_match_iff [OF assms(1)] by blast
    moreover have "c # s = [] @ take k (c # s) @ drop k (c # s)" by simp
    ultimately show False using Cons.prems unfolding occurs_def by blast
  qed
  moreover have "\<not> occurs lower p s u w" for u w
    using Cons.prems [of "c # u" w] by (auto simp: occurs_def)
  ultimately show ?case using Cons.IH by simp
qed simp

lemma occurrences_first:
  assumes "lowering lower" "p \<noteq> []" "folded_by lower w = p"
    and "\<And>u' w'. occurs lower p (u @ w @ v) u' w' \<Longrightarrow> length u \<le> length u'"
  shows "occurrences lower p at (u @ w @ v) = (at + blen u, at + blen (u @ w)) # occurrences lower p (at + blen (u @ w)) v"
  using assms(4)
proof (induction u arbitrary: at)
  case Nil
  obtain c w' where w: "w = c # w'" using assms(2,3) by (cases w) auto
  have "whole_match lower p (w @ v) = Some (length w)" using assms(1,3) by (simp add: whole_match_iff)
  then show ?case by (simp add: w)
next
  case (Cons c u)
  have "whole_match lower p (c # u @ w @ v) = None"
  proof (rule ccontr)
    assume "whole_match lower p (c # u @ w @ v) \<noteq> None"
    then obtain k where "whole_match lower p (c # u @ w @ v) = Some k" by blast
    then have k: "folded_by lower (take k (c # u @ w @ v)) = p" using whole_match_iff [OF assms(1)] by blast
    have "occurs lower p ((c # u) @ w @ v) [] (take k (c # u @ w @ v))"
      unfolding occurs_def using k by (metis append_Cons append_Nil append_take_drop_id)
    then show False using Cons.prems [of "[]"] by fastforce
  qed
  moreover have "length u \<le> length u'" if "occurs lower p (u @ w @ v) u' w'" for u' w'
    using Cons.prems [of "c # u'" w'] that by (auto simp: occurs_def)
  ultimately show ?case using Cons.IH [of "at + utf8_len c"] by (simp add: add.assoc)
qed

text \<open>The occurrence that ends first also begins first.\<close>

lemma first_end_first_begin:
  assumes "lowering lower" "occurs lower p s u w" "occurs lower p s u' w'" "length (u @ w) \<le> length (u' @ w')"
  shows "length u \<le> length u'"
proof -
  obtain v where "s = u @ w @ v" "folded_by lower w = p" using assms(2) by (auto simp: occurs_def)
  moreover obtain v' where "s = u' @ w' @ v'" "folded_by lower w' = p" using assms(3) by (auto simp: occurs_def)
  ultimately have v: "s = u @ w @ v" "s = u' @ w' @ v'" "folded_by lower w = folded_by lower w'" by simp_all
  have "prefix (u @ w) (u' @ w')"
    using v(1,2) assms(4) by (metis append.assoc prefixI prefix_length_prefix)
  then obtain z where z: "u' @ w' = (u @ w) @ z" by (auto simp: prefix_def)
  have "length (folded_by lower (u @ w)) \<le> length (folded_by lower (u' @ w'))" unfolding z by simp
  then have le: "length (folded_by lower u) \<le> length (folded_by lower u')" using v(3) by simp
  show ?thesis
  proof (rule ccontr)
    assume "\<not> length u \<le> length u'"
    then have "prefix u' u" using v(1,2) by (metis nle_le prefixI prefix_length_prefix)
    then obtain x where "u = u' @ x" by (auto simp: prefix_def)
    then show False using le folded_by_Nil_iff [OF assms(1), of x] \<open>\<not> length u \<le> length u'\<close> by auto
  qed
qed

lemma find_from_occurrences:
  assumes "lowering lower" "query_ok q"
  shows "\<exists>found. find_from lower q (pre @ s) (blen pre) = Some found
    \<and> (case found of
        None \<Rightarrow> occurrences lower (sq_folded q) (blen pre) s = []
      | Some (a, b) \<Rightarrow> \<exists>u v. s = u @ v \<and> u \<noteq> [] \<and> b = blen (pre @ u)
          \<and> occurrences lower (sq_folded q) (blen pre) s = (a, b) # occurrences lower (sq_folded q) b v)"
proof -
  let ?p = "sq_folded q"
  have p: "?p \<noteq> []" using assms(2) by (simp add: query_ok_def)
  show ?thesis
  proof (cases "blen s * 3 < length ?p")
    case True
    have "\<not> occurs lower ?p s u w" for u w
    proof
      assume "occurs lower ?p s u w"
      then obtain v where "s = u @ w @ v" "folded_by lower w = ?p" by (auto simp: occurs_def)
      then have "length ?p \<le> 3 * length w" "blen w \<le> blen s" using length_folded_by [OF assms(1), of w] by auto
      then show False using True length_le_blen [of w] by linarith
    qed
    then show ?thesis
      using occurrences_none [OF assms(1) p] True by (simp add: find_from_def slice_from_blen)
  next
    case False
    have "tracks q (folded_by lower []) (text_origins lower (blen pre) []) (replicate (length ?p) (0, False), 0, 0)"
      using ends_with_length [of ?p "[]"] by (auto simp: tracks_def longest_end_def)
    from find_in_text_result [OF assms(2,1) this, of s]
    obtain found where f: "find_from lower q (pre @ s) (blen pre) = Some found" "answer_ok lower ?p (blen pre) 0 s found"
      using False by (auto simp: find_from_def slice_from_blen)
    have some: "0 < length (u @ w)" if "occurs lower ?p s u w" for u w
      using that p by (auto simp: occurs_def)
    show ?thesis
    proof (cases found)
      case None
      then have "\<not> occurs lower ?p s u w" for u w using f(2) some [of u w] by (auto simp: answer_ok_def)
      then show ?thesis using f(1) None occurrences_none [OF assms(1) p] by simp
    next
      case (Some r)
      obtain a b where r: "r = (a, b)" by (rule prod.exhaust)
      obtain u w where o: "occurs lower ?p s u w" "a = blen pre + blen u" "b = blen pre + blen (u @ w)"
        "\<And>u' w'. occurs lower ?p s u' w' \<Longrightarrow> 0 < length (u' @ w') \<Longrightarrow> length (u @ w) \<le> length (u' @ w')"
        using f(2) unfolding answer_ok_def Some r by auto
      obtain v where v: "s = u @ w @ v" "folded_by lower w = ?p" using o(1) by (auto simp: occurs_def)
      have "length u \<le> length u'" if "occurs lower ?p s u' w'" for u' w'
        using first_end_first_begin [OF assms(1) o(1) that] o(4) [OF that some [OF that]] by blast
      then have "occurrences lower ?p (blen pre) s = (a, b) # occurrences lower ?p b v"
        using occurrences_first [OF assms(1) p v(2), of u v "blen pre"] v(1) o(2,3) by simp
      moreover have "u @ w \<noteq> []" using some [OF o(1)] by auto
      moreover have "s = (u @ w) @ v" "b = blen (pre @ u @ w)" using v(1) o(3) by simp_all
      ultimately have "\<exists>x y. s = x @ y \<and> x \<noteq> [] \<and> b = blen (pre @ x)
          \<and> occurrences lower ?p (blen pre) s = (a, b) # occurrences lower ?p b y" by blast
      then show ?thesis using f(1) unfolding Some r by simp
    qed
  qed
qed

lemma ranges_from_occurrences:
  assumes "lowering lower" "query_ok q"
  shows "ranges_from lower q (pre @ s) (blen pre) = Some (occurrences lower (sq_folded q) (blen pre) s)"
proof (induction "length s" arbitrary: pre s rule: less_induct)
  case less
  obtain found where f: "find_from lower q (pre @ s) (blen pre) = Some found"
    "case found of
        None \<Rightarrow> occurrences lower (sq_folded q) (blen pre) s = []
      | Some (a, b) \<Rightarrow> \<exists>u v. s = u @ v \<and> u \<noteq> [] \<and> b = blen (pre @ u)
          \<and> occurrences lower (sq_folded q) (blen pre) s = (a, b) # occurrences lower (sq_folded q) b v"
    using find_from_occurrences [OF assms] by blast
  show ?case
  proof (cases found)
    case None
    then show ?thesis using f by (subst ranges_from.simps) simp
  next
    case (Some r)
    obtain a b where r: "r = (a, b)" by (rule prod.exhaust)
    obtain u v where u: "s = u @ v" "u \<noteq> []" "b = blen (pre @ u)"
      "occurrences lower (sq_folded q) (blen pre) s = (a, b) # occurrences lower (sq_folded q) b v"
      using f(2) unfolding Some r by auto
    have "ranges_from lower q ((pre @ u) @ v) (blen (pre @ u)) = Some (occurrences lower (sq_folded q) (blen (pre @ u)) v)"
      using u(1,2) by (intro less) simp
    then show ?thesis using f(1) Some r u by (subst ranges_from.simps) simp
  qed
qed

lemma is_match_occurrences:
  assumes "lowering lower" "query_ok q"
  shows "is_match lower q s = Some (occurrences lower (sq_folded q) 0 s \<noteq> [])"
  using find_from_occurrences [OF assms, of "[]" s] by (auto simp: is_match_def split: option.splits)

text \<open>C34. The search of a term by Knuth, Morris and Pratt is the plain search: for every term and text the one pass over
  the folded characters with its table and its ring of origins ends, stays within its tables, and finds exactly
  the occurrences that reading the text from every position finds, leftmost first and without overlap, also where
  a character folds to several and an occurrence must not begin or end inside them. A term that folds to nothing
  searches nothing.\<close>

theorem search_is_plain:
  assumes "lowering lower"
  shows "case query_new lower term' of
      None \<Rightarrow> False
    | Some None \<Rightarrow> term' = []
    | Some (Some q) \<Rightarrow>
        search_ranges lower q text' = Some (occurrences lower (folded_by lower term') 0 text')
        \<and> is_match lower q text' = Some (occurrences lower (folded_by lower term') 0 text' \<noteq> [])"
proof (cases "folded_by lower term' = []")
  case True
  then show ?thesis using folded_by_Nil_iff [OF assms] by (simp add: query_new_def)
next
  case False
  then obtain q where q: "query_new lower term' = Some (Some q)" "query_ok q" "sq_folded q = folded_by lower term'"
    by (rule query_new_ok)
  then show ?thesis
    using ranges_from_occurrences [OF assms q(2), of "[]" text'] is_match_occurrences [OF assms q(2), of text']
    by (simp add: search_ranges_def)
qed

theorem search_is_plain_witness:
  "\<exists>q. query_new (\<lambda>c. [to_ascii_lowercase c]) (lit ''aab'') = Some (Some q)
    \<and> search_ranges (\<lambda>c. [to_ascii_lowercase c]) q (lit ''aAAab AaB'') = Some [(2, 5), (6, 9)]"
proof -
  let ?l = "\<lambda>c. [to_ascii_lowercase c]"
  have "lowering ?l" by (simp add: lowering_def)
  moreover have "folded_by ?l (lit ''aab'') = lit ''aab''"
    by (simp add: folded_by_def lit_def to_ascii_lowercase_def is_ascii_upper_def)
  moreover have "occurrences ?l (lit ''aab'') 0 (lit ''aAAab AaB'') = [(2, 5), (6, 9)]"
    by (simp add: lit_def to_ascii_lowercase_def is_ascii_upper_def strip_prefix_def)
  moreover have "lit ''aab'' \<noteq> []" by (simp add: lit_def)
  ultimately show ?thesis
    using search_is_plain [of ?l "lit ''aab''" "lit ''aAAab AaB''"] by (auto split: option.splits)
qed

end
