(* ===== verification/SearchScan.thy ===== *)
theory SearchScan
  imports Search Session
begin

text \<open>
  The scan of \<open>crates/app/src/search.rs\<close>: a search over the logs in memory, advanced in slices of a bounded cost,
  and the walk over its hits. The sort of hits is by sequence alone, every key being of one kind. What a slice
  leaves open is where the next one begins, so the slicing does not show in the result.
\<close>

section \<open>What is searched\<close>

definition MAX_HITS :: nat where "MAX_HITS = 10000"

datatype search_source = SourceConversation conversation_id | SourceServer network_id

record search_hit =
  ht_source :: search_source
  ht_sequence :: "64 word"

datatype search_scope = ScopeSelected | ScopeAll

fun source_messages :: "app_state \<Rightarrow> search_source \<Rightarrow> chat_message list" where
  "source_messages s (SourceConversation i) =
     (case conversation_at s i of None \<Rightarrow> [] | Some c \<Rightarrow> conv_messages c)"
| "source_messages s (SourceServer n) = server_messages s n"

definition hit_message :: "app_state \<Rightarrow> search_hit \<Rightarrow> chat_message option" where
  "hit_message s h =
     (let ms = source_messages s (ht_source h)
      in map_option (\<lambda>k. ms ! k) (search_sequence (ht_sequence h) ms))"

definition hit_exists :: "app_state \<Rightarrow> search_hit \<Rightarrow> bool" where
  "hit_exists s h \<longleftrightarrow> hit_message s h \<noteq> None"

definition selected_source :: "app_state \<Rightarrow> search_source option" where
  "selected_source s =
     (case ts_selected s of
        SelChannel i \<Rightarrow> Some (SourceConversation i) | SelServer n \<Rightarrow> Some (SourceServer n) | SelNone \<Rightarrow> None)"

definition search_revision :: "app_state \<Rightarrow> search_scope \<Rightarrow> 64 word \<times> 64 word \<times> nat" where
  "search_revision s scope =
     (if scope = ScopeSelected
      then
        (let ms = (case selected_source s of None \<Rightarrow> [] | Some src \<Rightarrow> source_messages s src)
         in ((case ms of [] \<Rightarrow> 0 | m # _ \<Rightarrow> msg_sequence m), (if ms = [] then 0 else msg_sequence (last ms)), length ms))
      else
        (0, as_next_sequence s,
         sum_list (map (\<lambda>c. length (conv_messages c)) (ts_conversations s))
         + sum_list (map (\<lambda>w. length (server_messages s (nw_id w))) (ts_networks s))))"

section \<open>The scan\<close>

record search_scan =
  sn_query :: search_query
  sn_sources :: "search_source list"
  sn_cursor :: nat
  sn_next :: "64 word"
  sn_hits :: "search_hit list"
  sn_truncated :: bool

definition scan_sources :: "app_state \<Rightarrow> search_scope \<Rightarrow> search_source list" where
  "scan_sources s scope =
     (case scope of
        ScopeSelected \<Rightarrow> (case selected_source s of None \<Rightarrow> [] | Some src \<Rightarrow> [src])
      | ScopeAll \<Rightarrow> map (\<lambda>c. SourceConversation (conv_id c)) (ts_conversations s)
          @ map (\<lambda>w. SourceServer (nw_id w)) (ts_networks s))"

definition scan_new :: "app_state \<Rightarrow> search_scope \<Rightarrow> search_query \<Rightarrow> search_scan" where
  "scan_new s scope q =
     \<lparr>sn_query = q, sn_sources = scan_sources s scope, sn_cursor = 0, sn_next = 0, sn_hits = [], sn_truncated = False\<rparr>"

definition scan_is_done :: "search_scan \<Rightarrow> bool" where
  "scan_is_done sc \<longleftrightarrow> length (sn_sources sc) \<le> sn_cursor sc"

definition text_cost :: "rstring \<Rightarrow> nat" where
  "text_cost text' = 1 + blen text' div 64"

text \<open>Reads lines while the budget lasts: where it stopped, none when the source was read to its end.\<close>

fun scan_read ::
  "(rchar \<Rightarrow> rstring) \<Rightarrow> search_query \<Rightarrow> search_source \<Rightarrow> chat_message list \<Rightarrow> nat \<Rightarrow> search_hit list
   \<Rightarrow> (64 word option \<times> nat \<times> search_hit list) option" where
  "scan_read lower q src [] budget hits = Some (None, budget, hits)"
| "scan_read lower q src (m # ms) budget hits =
     (if budget = 0 then Some (Some (msg_sequence m), budget, hits)
      else
        (case is_match lower q (msg_text m) of
           None \<Rightarrow> None
         | Some found \<Rightarrow>
             scan_read lower q src ms (budget - text_cost (msg_text m))
               (if found then hits @ [\<lparr>ht_source = src, ht_sequence = msg_sequence m\<rparr>] else hits)))"

text \<open>The loop of a step over the sources from the cursor on; a source left before its end ends it, as nothing of the
  budget is left then.\<close>

fun scan_loop ::
  "(rchar \<Rightarrow> rstring) \<Rightarrow> app_state \<Rightarrow> search_query \<Rightarrow> search_source list \<Rightarrow> nat \<Rightarrow> 64 word \<Rightarrow> nat \<Rightarrow> search_hit list
   \<Rightarrow> (nat \<times> 64 word \<times> search_hit list) option" where
  "scan_loop lower s q [] cursor next' budget hits = Some (cursor, next', hits)"
| "scan_loop lower s q (src # rest) cursor next' budget hits =
     (if budget = 0 then Some (cursor, next', hits)
      else
        (let ms = source_messages s src
         in case scan_read lower q src (drop (partition_below next' ms) ms) budget hits of
              None \<Rightarrow> None
            | Some (Some stop, _, hits) \<Rightarrow> Some (cursor, stop, hits)
            | Some (None, budget, hits) \<Rightarrow> scan_loop lower s q rest (cursor + 1) 0 budget hits))"

definition scan_step ::
  "(rchar \<Rightarrow> rstring) \<Rightarrow> app_state \<Rightarrow> nat \<Rightarrow> search_scan \<Rightarrow> (bool \<times> search_scan) option" where
  "scan_step lower s budget sc =
     (case scan_loop lower s (sn_query sc) (drop (sn_cursor sc) (sn_sources sc)) (sn_cursor sc) (sn_next sc) budget
             (sn_hits sc) of
        None \<Rightarrow> None
      | Some (cursor, next', hits) \<Rightarrow>
          (let hits = (if 1 < length (sn_sources sc) \<and> length hits \<noteq> length (sn_hits sc)
                       then sort_key ht_sequence hits else hits);
               over = MAX_HITS < length hits;
               sc = sc\<lparr>sn_cursor := cursor, sn_next := next', sn_truncated := (sn_truncated sc \<or> over),
                       sn_hits := (if over then drop (length hits - MAX_HITS) hits else hits)\<rparr>
           in Some (scan_is_done sc, sc)))"

section \<open>Walking the hits\<close>

definition hit_position :: "search_hit list \<Rightarrow> search_hit \<Rightarrow> nat option" where
  "hit_position hits current = map_option Suc (position (\<lambda>h. ht_sequence h = ht_sequence current) hits)"

definition hits_before :: "(search_hit \<Rightarrow> bool) \<Rightarrow> search_hit list \<Rightarrow> nat" where
  "hits_before P hits = length (takeWhile P hits)"

definition hit_at :: "search_hit list \<Rightarrow> nat \<Rightarrow> search_hit option" where
  "hit_at hits k = (if k < length hits then Some (hits ! k) else None)"

definition next_hit :: "search_hit list \<Rightarrow> search_hit option \<Rightarrow> search_hit option" where
  "next_hit hits current =
     (let after = (case current of
                     Some c \<Rightarrow> hits_before (\<lambda>h. ht_sequence h \<le> ht_sequence c) hits | None \<Rightarrow> 0)
      in case hit_at hits after of Some h \<Rightarrow> Some h | None \<Rightarrow> hit_at hits 0)"

definition previous_hit :: "search_hit list \<Rightarrow> search_hit option \<Rightarrow> search_hit option" where
  "previous_hit hits current =
     (let before = (case current of
                      Some c \<Rightarrow> hits_before (\<lambda>h. ht_sequence h < ht_sequence c) hits | None \<Rightarrow> length hits);
          last' = (if hits = [] then None else Some (last hits))
      in if before = 0 then last'
         else (case hit_at hits (before - 1) of Some h \<Rightarrow> Some h | None \<Rightarrow> last'))"

definition initial_hit :: "search_hit list \<Rightarrow> search_hit option \<Rightarrow> search_hit option" where
  "initial_hit hits previous =
     (let last' = (if hits = [] then None else Some (last hits))
      in case previous of
           None \<Rightarrow> last'
         | Some p \<Rightarrow>
             (case hit_at hits (hits_before (\<lambda>h. ht_sequence h < ht_sequence p) hits) of
                Some h \<Rightarrow> Some h | None \<Rightarrow> last'))"

end
