(* ===== verification/ScanResults.thy ===== *)
theory ScanResults
  imports SearchScan Contracts
begin

text \<open>
  What a scan finds: over logs in order, however the budgets cut it, the newest \<open>MAX_HITS\<close> of all matching lines,
  and it ends. The walk over hits goes round.
\<close>

section \<open>The newest of a list\<close>

definition newest :: "nat \<Rightarrow> search_hit list \<Rightarrow> search_hit list" where
  "newest n hits = drop (length hits - n) (sort_key ht_sequence hits)"

definition hits_ok :: "search_hit list \<Rightarrow> bool" where
  "hits_ok hits \<longleftrightarrow> distinct (map ht_sequence hits)"

lemma newest_length [simp]: "length (newest n hits) = min n (length hits)"
  by (simp add: newest_def)

lemma newest_subset: "set (newest n hits) \<subseteq> set hits"
  unfolding newest_def by (metis set_drop_subset set_sort)

lemma sorted_newest: "sorted (map ht_sequence (newest n hits))"
  by (simp add: newest_def drop_map [symmetric] sorted_wrt_drop)

lemma distinct_sub: "hits_ok hits \<Longrightarrow> distinct hits"
  by (simp add: hits_ok_def distinct_map)

lemma distinct_newest: "hits_ok hits \<Longrightarrow> distinct (map ht_sequence (newest n hits))"
  unfolding hits_ok_def newest_def drop_map [symmetric]
  by (metis distinct_drop distinct_map distinct_sort set_sort inj_on_subset subset_refl)

text \<open>A hit is among the newest when few enough are later.\<close>

lemma newest_iff:
  assumes "hits_ok hits" "x \<in> set hits"
  shows "x \<in> set (newest n hits) \<longleftrightarrow> card {y \<in> set hits. ht_sequence x < ht_sequence y} < n"
proof -
  let ?s = "sort_key ht_sequence hits"
  have s: "sorted (map ht_sequence ?s)" "distinct (map ht_sequence ?s)" "set ?s = set hits" "length ?s = length hits"
    using assms(1) by (simp_all add: hits_ok_def distinct_map)
  obtain k where k: "k < length ?s" "?s ! k = x" using assms(2) s(3) by (metis in_set_conv_nth)
  have d: "distinct ?s" using s(2) by (simp add: distinct_map)
  have split: "?s = take k ?s @ x # drop (Suc k) ?s" using id_take_nth_drop [OF k(1)] k(2) by simp
  have "sorted_wrt (<) (map ht_sequence ?s)" using s(1,2) by (simp add: strict_sorted_iff)
  then have "sorted_wrt (<) (map ht_sequence (take k ?s @ x # drop (Suc k) ?s))" by (simp only: split [symmetric])
  then have "\<forall>y \<in> set (take k ?s). ht_sequence y < ht_sequence x" "\<forall>y \<in> set (drop (Suc k) ?s). ht_sequence x < ht_sequence y"
    by (auto simp: sorted_wrt_append sorted_wrt_map)
  moreover have "set hits = set (take k ?s) \<union> {x} \<union> set (drop (Suc k) ?s)" using arg_cong [OF split, of set] s(3) by simp
  ultimately have "{y \<in> set hits. ht_sequence x < ht_sequence y} = set (drop (Suc k) ?s)" by (auto dest: order_less_asym)
  then have "card {y \<in> set hits. ht_sequence x < ht_sequence y} = length hits - Suc k"
    using d s(4) by (simp add: distinct_card)
  moreover have "x \<in> set (newest n hits) \<longleftrightarrow> length hits - n \<le> k"
  proof
    assume "x \<in> set (newest n hits)"
    then obtain i where i: "i < length (newest n hits)" "newest n hits ! i = x" by (metis in_set_conv_nth)
    then have "length hits - n + i < length ?s" by simp linarith
    moreover have "?s ! (length hits - n + i) = x" using i by (simp add: newest_def)
    ultimately have "length hits - n + i < length ?s" "?s ! (length hits - n + i) = x" by simp_all
    then have "length hits - n + i = k" using d k nth_eq_iff_index_eq by blast
    then show "length hits - n \<le> k" by simp
  next
    assume "length hits - n \<le> k"
    then have "newest n hits ! (k - (length hits - n)) = x" "k - (length hits - n) < length (newest n hits)"
      using k by (auto simp: newest_def)
    then show "x \<in> set (newest n hits)" using nth_mem by blast
  qed
  ultimately show ?thesis using k(1) by auto
qed

lemma sorted_hits_eq:
  assumes "sorted (map ht_sequence xs)" "distinct (map ht_sequence xs)" "sorted (map ht_sequence ys)"
    "distinct (map ht_sequence ys)" "set xs = set ys"
  shows "xs = ys"
proof -
  have "map ht_sequence xs = map ht_sequence ys"
    using assms by (intro sorted_distinct_set_unique) simp_all
  moreover have "inj_on ht_sequence (set xs)" using assms(2) by (simp add: distinct_map)
  ultimately show ?thesis using assms(5) by (metis inj_on_map_eq_map Un_absorb)
qed

text \<open>Keeping only the newest in between loses nothing.\<close>

lemma newest_append:
  assumes "hits_ok (xs @ ys)"
  shows "newest n (newest n xs @ ys) = newest n (xs @ ys)"
proof -
  have xs: "hits_ok xs" using assms by (simp add: hits_ok_def)
  have zs: "hits_ok (newest n xs @ ys)"
    using assms distinct_newest [OF xs, of n] newest_subset [of n xs] by (fastforce simp: hits_ok_def)
  have sub: "set (newest n xs @ ys) \<subseteq> set (xs @ ys)" using newest_subset by auto
  have "x \<in> set (newest n (newest n xs @ ys)) \<longleftrightarrow> x \<in> set (newest n (xs @ ys))" for x
  proof (cases "x \<in> set (newest n xs @ ys)")
    case True
    let ?few = "{y \<in> set (newest n xs @ ys). ht_sequence x < ht_sequence y}" and ?all = "{y \<in> set (xs @ ys). ht_sequence x < ht_sequence y}"
    have "card ?few < n \<longleftrightarrow> card ?all < n"
    proof (cases "?few = ?all")
      case False
      then obtain y where y: "y \<in> set xs" "y \<notin> set (newest n xs)" "ht_sequence x < ht_sequence y" using sub by auto
      then have "n \<le> card {z \<in> set xs. ht_sequence y < ht_sequence z}" using newest_iff [OF xs y(1)] by (meson not_le)
      moreover have "{z \<in> set xs. ht_sequence y < ht_sequence z} \<subseteq> ?all" using y(3) by auto
      then have "card {z \<in> set xs. ht_sequence y < ht_sequence z} \<le> card ?all" by (intro card_mono) auto
      moreover have "n \<le> card (set (newest n xs))"
      proof -
        have "card {z \<in> set xs. ht_sequence y < ht_sequence z} \<le> card (set xs)" by (intro card_mono) auto
        then have "n \<le> length xs" using calculation(1) card_length [of xs] by linarith
        moreover have "distinct (newest n xs)" using distinct_newest [OF xs] by (simp add: distinct_map)
        ultimately show ?thesis by (simp add: distinct_card)
      qed
      moreover have "set (newest n xs) \<subseteq> ?few"
      proof
        fix z
        assume z: "z \<in> set (newest n xs)"
        then have zx: "z \<in> set xs" using newest_subset by blast
        have "ht_sequence y < ht_sequence z"
        proof (rule ccontr)
          assume "\<not> ht_sequence y < ht_sequence z"
          then have "{w \<in> set xs. ht_sequence y < ht_sequence w} \<subseteq> {w \<in> set xs. ht_sequence z < ht_sequence w}" by auto
          then have "card {w \<in> set xs. ht_sequence y < ht_sequence w} \<le> card {w \<in> set xs. ht_sequence z < ht_sequence w}"
            by (intro card_mono) auto
          then show False using z newest_iff [OF xs zx, of n] newest_iff [OF xs y(1), of n] y(2) by linarith
        qed
        then show "z \<in> ?few" using z y(3) by auto
      qed
      then have "card (set (newest n xs)) \<le> card ?few" by (intro card_mono) auto
      ultimately show ?thesis by linarith
    qed simp
    then show ?thesis using newest_iff [OF zs True, of n] newest_iff [OF assms, of x n] True sub by blast
  next
    case False
    have "x \<notin> set (newest n (xs @ ys))"
    proof
      assume n: "x \<in> set (newest n (xs @ ys))"
      then have x: "x \<in> set xs" "x \<notin> set (newest n xs)" using False newest_subset by fastforce+
      have "card {y \<in> set (xs @ ys). ht_sequence x < ht_sequence y} < n" using n newest_iff [OF assms, of x n] x(1) by simp
      moreover have "card {y \<in> set xs. ht_sequence x < ht_sequence y} \<le> card {y \<in> set (xs @ ys). ht_sequence x < ht_sequence y}"
        by (intro card_mono) auto
      ultimately show False using newest_iff [OF xs x(1), of n] x(2) by linarith
    qed
    then show ?thesis using False newest_subset [of n "newest n xs @ ys"] by blast
  qed
  then show ?thesis
    using sorted_newest distinct_newest [OF zs] distinct_newest [OF assms] by (intro sorted_hits_eq) blast+
qed

section \<open>What is there to find\<close>

definition hits_in :: "(rchar \<Rightarrow> rstring) \<Rightarrow> rstring \<Rightarrow> search_source \<Rightarrow> chat_message list \<Rightarrow> search_hit list" where
  "hits_in lower p src ms =
     map (\<lambda>m. \<lparr>ht_source = src, ht_sequence = msg_sequence m\<rparr>) (filter (\<lambda>m. occurrences lower p 0 (msg_text m) \<noteq> []) ms)"

definition all_hits :: "(rchar \<Rightarrow> rstring) \<Rightarrow> rstring \<Rightarrow> app_state \<Rightarrow> search_source list \<Rightarrow> search_hit list" where
  "all_hits lower p s srcs = concat (map (\<lambda>src. hits_in lower p src (source_messages s src)) srcs)"

text \<open>What is left from a place on, and how many lines and ends of sources.\<close>

fun left_hits :: "(rchar \<Rightarrow> rstring) \<Rightarrow> rstring \<Rightarrow> app_state \<Rightarrow> search_source list \<Rightarrow> 64 word \<Rightarrow> search_hit list" where
  "left_hits lower p s [] next' = []"
| "left_hits lower p s (src # rest) next' =
     (let ms = source_messages s src in hits_in lower p src (drop (partition_below next' ms) ms) @ all_hits lower p s rest)"

fun left_lines :: "app_state \<Rightarrow> search_source list \<Rightarrow> 64 word \<Rightarrow> nat" where
  "left_lines s [] next' = 0"
| "left_lines s (src # rest) next' =
     1 + (length (source_messages s src) - partition_below next' (source_messages s src))
     + sum_list (map (\<lambda>src. 1 + length (source_messages s src)) rest)"

definition logs_ordered :: "app_state \<Rightarrow> search_source list \<Rightarrow> bool" where
  "logs_ordered s srcs \<longleftrightarrow> list_all (\<lambda>src. sorted_wrt (<) (map msg_sequence (source_messages s src))) srcs"

lemma hits_in_append [simp]: "hits_in lower p src (xs @ ys) = hits_in lower p src xs @ hits_in lower p src ys"
  by (simp add: hits_in_def)

lemma hits_in_simps [simp]: "hits_in lower p src [] = []"
  by (simp add: hits_in_def)

lemma hits_in_split: "hits_in lower p src (take k ms) @ hits_in lower p src (drop k ms) = hits_in lower p src ms"
  by (simp flip: hits_in_append)

lemma partition_zero [simp]: "partition_below 0 ms = 0"
  by (cases ms) (simp_all add: partition_below_def)

lemma partition_le: "partition_below q ms \<le> length ms"
  by (simp add: partition_below_def length_takeWhile_le)

lemma partition_nth:
  assumes "sorted_wrt (<) (map msg_sequence ms)" "k < length ms"
  shows "partition_below (msg_sequence (ms ! k)) ms = k"
  using assms
proof (induction ms arbitrary: k)
  case (Cons m ms)
  show ?case
  proof (cases k)
    case (Suc j)
    then have "msg_sequence m < msg_sequence (ms ! j)" using Cons.prems by (auto simp: sorted_wrt_map)
    then show ?thesis using Cons.IH [of j] Cons.prems Suc by (simp add: partition_below_def)
  qed (simp add: partition_below_def)
qed simp

lemma left_start [simp]: "left_hits lower p s srcs 0 = all_hits lower p s srcs"
  by (cases srcs) (simp_all add: all_hits_def Let_def)

lemma left_lines_start: "left_lines s srcs 0 = sum_list (map (\<lambda>src. 1 + length (source_messages s src)) srcs)"
  by (cases srcs) simp_all

section \<open>One step\<close>

lemma scan_read_result:
  assumes "lowering lower" "query_ok q"
  shows "\<exists>k stop budget'. k \<le> length ms
    \<and> scan_read lower q src ms budget hits = Some (stop, budget', hits @ hits_in lower (sq_folded q) src (take k ms))
    \<and> (case stop of None \<Rightarrow> k = length ms | Some n \<Rightarrow> k < length ms \<and> n = msg_sequence (ms ! k))
    \<and> (0 < budget \<and> ms \<noteq> [] \<longrightarrow> 0 < k)"
proof (induction ms arbitrary: budget hits)
  case Nil
  show ?case by (intro exI [of _ 0]) simp
next
  case (Cons m ms)
  show ?case
  proof (cases "budget = 0")
    case True
    then show ?thesis by (intro exI [of _ 0]) simp
  next
    case False
    let ?found = "occurrences lower (sq_folded q) 0 (msg_text m) \<noteq> []"
    let ?hits = "if ?found then hits @ [\<lparr>ht_source = src, ht_sequence = msg_sequence m\<rparr>] else hits"
    have "?hits = hits @ hits_in lower (sq_folded q) src [m]" by (simp add: hits_in_def)
    moreover obtain k stop budget' where k: "k \<le> length ms"
      "scan_read lower q src ms (budget - text_cost (msg_text m)) ?hits = Some (stop, budget', ?hits @ hits_in lower (sq_folded q) src (take k ms))"
      "case stop of None \<Rightarrow> k = length ms | Some n \<Rightarrow> k < length ms \<and> n = msg_sequence (ms ! k)"
      using Cons.IH by blast
    ultimately have "scan_read lower q src (m # ms) budget hits
        = Some (stop, budget', hits @ hits_in lower (sq_folded q) src (take (Suc k) (m # ms)))"
      using False is_match_occurrences [OF assms, of "msg_text m"] hits_in_append [of lower "sq_folded q" src "[m]" "take k ms"]
      by simp
    then show ?thesis using k(1,3) by (intro exI [of _ "Suc k"] exI [of _ stop] exI [of _ budget']) (auto split: option.splits)
  qed
qed

lemma scan_loop_result:
  assumes "lowering lower" "query_ok q" "logs_ordered s srcs"
  shows "\<exists>n next2 new. n \<le> length srcs \<and> scan_loop lower s q srcs cursor next1 budget hits = Some (cursor + n, next2, hits @ new)
    \<and> new @ left_hits lower (sq_folded q) s (drop n srcs) next2 = left_hits lower (sq_folded q) s srcs next1
    \<and> left_lines s (drop n srcs) next2 \<le> left_lines s srcs next1
    \<and> (0 < budget \<and> srcs \<noteq> [] \<longrightarrow> left_lines s (drop n srcs) next2 < left_lines s srcs next1)"
  using assms(3)
proof (induction srcs arbitrary: cursor next1 budget hits)
  case Nil
  show ?case by (intro exI [of _ 0] exI [of _ next1] exI [of _ "[]"]) simp
next
  case (Cons src rest)
  let ?ms = "source_messages s src"
  let ?start = "partition_below next1 ?ms"
  let ?p = "sq_folded q"
  show ?case
  proof (cases "budget = 0")
    case True
    then show ?thesis by (intro exI [of _ 0] exI [of _ next1] exI [of _ "[]"]) simp
  next
    case False
    have sorted: "sorted_wrt (<) (map msg_sequence ?ms)" "logs_ordered s rest" using Cons.prems by (simp_all add: logs_ordered_def)
    obtain k stop budget' where k: "k \<le> length (drop ?start ?ms)"
      "scan_read lower q src (drop ?start ?ms) budget hits = Some (stop, budget', hits @ hits_in lower ?p src (take k (drop ?start ?ms)))"
      "case stop of None \<Rightarrow> k = length (drop ?start ?ms) | Some n \<Rightarrow> k < length (drop ?start ?ms) \<and> n = msg_sequence (drop ?start ?ms ! k)"
      "drop ?start ?ms \<noteq> [] \<longrightarrow> 0 < k"
      using scan_read_result [OF assms(1,2), of "drop ?start ?ms" src budget hits] False by blast
    let ?new = "hits_in lower ?p src (take k (drop ?start ?ms))"
    show ?thesis
    proof (cases stop)
      case (Some n)
      then have n: "?start + k < length ?ms" "n = msg_sequence (?ms ! (?start + k))" using k(3) by auto
      then have part: "partition_below n ?ms = ?start + k" using partition_nth [OF sorted(1) n(1)] by simp
      have "?new @ left_hits lower ?p s (src # rest) n = left_hits lower ?p s (src # rest) next1"
        using hits_in_split [of lower ?p src k "drop ?start ?ms"] by (simp add: part Let_def add.commute)
      moreover have "left_lines s (src # rest) n < left_lines s (src # rest) next1" using k(4) n(1) part by simp
      ultimately show ?thesis
        using False k(2) Some by (intro exI [of _ "0 :: nat"] exI [of _ n] exI [of _ ?new]) (simp add: Let_def del: left_lines.simps left_hits.simps)
    next
      case None
      then have all: "?new = hits_in lower ?p src (drop ?start ?ms)" using k(3) by simp
      obtain n next2 new where r: "n \<le> length rest"
        "scan_loop lower s q rest (cursor + 1) 0 budget' (hits @ ?new) = Some (cursor + 1 + n, next2, (hits @ ?new) @ new)"
        "new @ left_hits lower ?p s (drop n rest) next2 = left_hits lower ?p s rest 0"
        "left_lines s (drop n rest) next2 \<le> left_lines s rest 0"
        using Cons.IH [OF sorted(2)] by blast
      have "(?new @ new) @ left_hits lower ?p s (drop (Suc n) (src # rest)) next2 = left_hits lower ?p s (src # rest) next1"
        using r(3) all by (simp add: Let_def)
      moreover have "left_lines s (drop (Suc n) (src # rest)) next2 < left_lines s (src # rest) next1"
        using r(4) by (simp add: left_lines_start)
      ultimately show ?thesis
        using False k(2) None r(1,2) by (intro exI [of _ "Suc n"] exI [of _ next2] exI [of _ "?new @ new"]) (simp add: Let_def)
    qed
  qed
qed

text \<open>A scan between two steps: the newest of what it has read, and whether that was more than it keeps.\<close>

definition scan_inv :: "(rchar \<Rightarrow> rstring) \<Rightarrow> app_state \<Rightarrow> search_scan \<Rightarrow> bool" where
  "scan_inv lower s sc \<longleftrightarrow>
     sn_cursor sc \<le> length (sn_sources sc)
     \<and> (\<exists>read. read @ left_hits lower (sq_folded (sn_query sc)) s (drop (sn_cursor sc) (sn_sources sc)) (sn_next sc)
            = all_hits lower (sq_folded (sn_query sc)) s (sn_sources sc)
          \<and> sn_hits sc = newest MAX_HITS read \<and> (sn_truncated sc \<longleftrightarrow> MAX_HITS < length read))"

definition scan_left :: "app_state \<Rightarrow> search_scan \<Rightarrow> nat" where
  "scan_left s sc = left_lines s (drop (sn_cursor sc) (sn_sources sc)) (sn_next sc)"

lemma scan_left_done: "scan_left s sc = 0 \<longleftrightarrow> scan_is_done sc"
  by (cases "drop (sn_cursor sc) (sn_sources sc)") (auto simp: scan_left_def scan_is_done_def)

text \<open>One log is read in order.\<close>

lemma one_log_sorted:
  assumes "logs_ordered s srcs" "length srcs \<le> 1"
  shows "sorted (map ht_sequence (all_hits lower p s srcs))"
proof (cases srcs)
  case (Cons src rest)
  then have "sorted_wrt (<) (map msg_sequence (source_messages s src))" "rest = []" using assms by (auto simp: logs_ordered_def)
  then have "sorted_wrt (<) (map msg_sequence (filter P (source_messages s src)))" for P
    by (simp add: sorted_wrt_map sorted_wrt_filter)
  then have "sorted (map msg_sequence (filter P (source_messages s src)))" for P using strict_sorted_iff by blast
  then show ?thesis using Cons \<open>rest = []\<close> by (simp add: all_hits_def hits_in_def comp_def)
qed (simp add: all_hits_def)

lemma newest_sorted: "sorted (map ht_sequence xs) \<Longrightarrow> newest n xs = drop (length xs - n) xs"
  by (simp add: newest_def sorted_sort_id sort_key_id_if_sorted)

lemma drop_newest:
  assumes "h = drop (length xs - n) xs"
  shows "drop (length (h @ ys) - n) (h @ ys) = drop (length (xs @ ys) - n) (xs @ ys)"
proof (cases "length xs \<le> n")
  case False
  then have "h @ ys = drop (length xs - n) (xs @ ys)" "length h = n" using assms by simp_all
  then show ?thesis using False by (simp add: add.commute)
qed (use assms in simp)

lemma over_drop: "(if n < length xs then drop (length xs - n) xs else xs) = drop (length xs - n) xs"
  by simp

lemma scan_step_inv:
  assumes "lowering lower" "query_ok (sn_query sc)" "logs_ordered s (sn_sources sc)" "scan_inv lower s sc"
    "hits_ok (all_hits lower (sq_folded (sn_query sc)) s (sn_sources sc))"
  shows "\<exists>sc'. scan_step lower s budget sc = Some (scan_is_done sc', sc') \<and> scan_inv lower s sc'
    \<and> sn_query sc' = sn_query sc \<and> sn_sources sc' = sn_sources sc \<and> scan_left s sc' \<le> scan_left s sc
    \<and> (0 < budget \<and> \<not> scan_is_done sc \<longrightarrow> scan_left s sc' < scan_left s sc)"
proof -
  let ?p = "sq_folded (sn_query sc)" and ?srcs = "drop (sn_cursor sc) (sn_sources sc)"
  have "logs_ordered s ?srcs" using assms(3) by (auto simp: logs_ordered_def list_all_iff dest: in_set_dropD)
  then obtain n next2 new where l: "n \<le> length ?srcs"
    "scan_loop lower s (sn_query sc) ?srcs (sn_cursor sc) (sn_next sc) budget (sn_hits sc)
      = Some (sn_cursor sc + n, next2, sn_hits sc @ new)"
    "new @ left_hits lower ?p s (drop n ?srcs) next2 = left_hits lower ?p s ?srcs (sn_next sc)"
    "left_lines s (drop n ?srcs) next2 \<le> left_lines s ?srcs (sn_next sc)"
    "0 < budget \<and> ?srcs \<noteq> [] \<longrightarrow> left_lines s (drop n ?srcs) next2 < left_lines s ?srcs (sn_next sc)"
    using scan_loop_result [OF assms(1,2)] by blast
  obtain read where r: "read @ left_hits lower ?p s ?srcs (sn_next sc) = all_hits lower ?p s (sn_sources sc)"
    "sn_hits sc = newest MAX_HITS read" "sn_truncated sc \<longleftrightarrow> MAX_HITS < length read"
    using assms(4) by (auto simp: scan_inv_def)
  have all: "(read @ new) @ left_hits lower ?p s (drop n ?srcs) next2 = all_hits lower ?p s (sn_sources sc)"
    using r(1) l(3) by simp
  then have ok: "hits_ok (read @ new)" using assms(5) by (metis hits_ok_def map_append distinct_append)
  let ?hits = "if 1 < length (sn_sources sc) \<and> length (sn_hits sc @ new) \<noteq> length (sn_hits sc)
    then sort_key ht_sequence (sn_hits sc @ new) else sn_hits sc @ new"
  have len: "length ?hits = length (sn_hits sc @ new)" by simp
  have newest: "drop (length ?hits - MAX_HITS) ?hits = newest MAX_HITS (read @ new)"
  proof (cases "1 < length (sn_sources sc) \<and> new \<noteq> []")
    case True
    then have "?hits = sort_key ht_sequence (sn_hits sc @ new)" by simp
    then have "drop (length ?hits - MAX_HITS) ?hits = newest MAX_HITS (sn_hits sc @ new)" by (simp only: newest_def length_sort)
    then show ?thesis using newest_append [OF ok, of MAX_HITS] by (simp only: r(2))
  next
    case False
    then consider "new = []" | "length (sn_sources sc) \<le> 1" by linarith
    then show ?thesis
    proof cases
      case 1
      then show ?thesis using r(2) by simp
    next
      case 2
      have "sorted (map ht_sequence (all_hits lower ?p s (sn_sources sc)))" by (rule one_log_sorted [OF assms(3) 2])
      then have sorted: "sorted (map ht_sequence (read @ new))" "sorted (map ht_sequence read)"
        unfolding all [symmetric] by (simp_all add: sorted_append)
      have "drop (length (sn_hits sc @ new) - MAX_HITS) (sn_hits sc @ new) = drop (length (read @ new) - MAX_HITS) (read @ new)"
        by (rule drop_newest) (simp add: r(2) newest_sorted [OF sorted(2)])
      then show ?thesis using 2 newest_sorted [OF sorted(1)] by simp
    qed
  qed
  let ?sc = "sc\<lparr>sn_cursor := sn_cursor sc + n, sn_next := next2, sn_truncated := (sn_truncated sc \<or> MAX_HITS < length ?hits),
    sn_hits := drop (length ?hits - MAX_HITS) ?hits\<rparr>"
  have step: "scan_step lower s budget sc = Some (scan_is_done ?sc, ?sc)"
    unfolding scan_step_def l(2) option.case prod.case Let_def over_drop by (rule refl)
  have cut: "sn_truncated sc \<or> MAX_HITS < length ?hits \<longleftrightarrow> MAX_HITS < length (read @ new)"
    unfolding len r(2,3) by auto
  have "sn_cursor sc \<le> length (sn_sources sc)" using assms(4) by (simp add: scan_inv_def)
  then have "scan_inv lower s ?sc"
    unfolding scan_inv_def
    using l(1) all newest cut by (auto simp: drop_drop add.commute intro!: exI [of _ "read @ new"])
  moreover have "scan_left s ?sc \<le> scan_left s sc" using l(4) by (simp add: scan_left_def drop_drop add.commute)
  moreover have "scan_left s ?sc < scan_left s sc" if "0 < budget \<and> \<not> scan_is_done sc"
    using l(5) that by (simp add: scan_left_def drop_drop add.commute scan_is_done_def)
  ultimately show ?thesis using step by (intro exI [of _ ?sc]) simp
qed

section \<open>Whole scans\<close>

fun scan_run :: "(rchar \<Rightarrow> rstring) \<Rightarrow> app_state \<Rightarrow> nat list \<Rightarrow> search_scan \<Rightarrow> search_scan option" where
  "scan_run lower s [] sc = Some sc"
| "scan_run lower s (budget # budgets) sc =
     (case scan_step lower s budget sc of None \<Rightarrow> None | Some (_, sc) \<Rightarrow> scan_run lower s budgets sc)"

lemma scan_run_inv:
  assumes "lowering lower" "query_ok (sn_query sc)" "logs_ordered s (sn_sources sc)" "scan_inv lower s sc"
    "hits_ok (all_hits lower (sq_folded (sn_query sc)) s (sn_sources sc))" "list_all (\<lambda>b. 0 < b) budgets"
  shows "\<exists>sc'. scan_run lower s budgets sc = Some sc' \<and> scan_inv lower s sc' \<and> sn_query sc' = sn_query sc
    \<and> sn_sources sc' = sn_sources sc \<and> scan_left s sc' \<le> scan_left s sc - length budgets"
  using assms(2-)
proof (induction budgets arbitrary: sc)
  case (Cons budget budgets)
  obtain sc1 where step: "scan_step lower s budget sc = Some (scan_is_done sc1, sc1)" "scan_inv lower s sc1"
    "sn_query sc1 = sn_query sc" "sn_sources sc1 = sn_sources sc" "scan_left s sc1 \<le> scan_left s sc"
    "0 < budget \<and> \<not> scan_is_done sc \<longrightarrow> scan_left s sc1 < scan_left s sc"
    using scan_step_inv [OF assms(1) Cons.prems(1-4), of budget] by blast
  obtain sc2 where run: "scan_run lower s budgets sc1 = Some sc2" "scan_inv lower s sc2" "sn_query sc2 = sn_query sc1"
    "sn_sources sc2 = sn_sources sc1" "scan_left s sc2 \<le> scan_left s sc1 - length budgets"
    using Cons.IH [of sc1] Cons.prems step(2-4) by auto
  have "scan_left s sc1 \<le> scan_left s sc - 1"
    using step(5,6) Cons.prems(5) scan_left_done [of s sc] by (cases "scan_is_done sc") auto
  then show ?case using step run by (intro exI [of _ sc2]) simp
qed simp

lemma scan_new_inv: "scan_inv lower s (scan_new s scope q)"
  by (simp add: scan_inv_def scan_new_def newest_def)

text \<open>A search finds every line there is to find, however it is sliced: over logs in the order of their sequences,
  steps of any budgets end after at most one for each line and each log, and then the hits are the newest ten
  thousand of all lines in which the term occurs, in order, and the scan says whether there were more.\<close>

theorem scan_finds_newest:
  assumes "lowering lower" and "query_new lower term' = Some (Some q)"
    and "logs_ordered s (scan_sources s scope)"
    and "hits_ok (all_hits lower (folded_by lower term') s (scan_sources s scope))"
    and "list_all (\<lambda>budget. 0 < budget) budgets"
    and "sum_list (map (\<lambda>src. 1 + length (source_messages s src)) (scan_sources s scope)) \<le> length budgets"
  shows "\<exists>sc. scan_run lower s budgets (scan_new s scope q) = Some sc \<and> scan_is_done sc
    \<and> sn_hits sc = newest MAX_HITS (all_hits lower (folded_by lower term') s (scan_sources s scope))
    \<and> (sn_truncated sc \<longleftrightarrow> MAX_HITS < length (all_hits lower (folded_by lower term') s (scan_sources s scope)))"
proof -
  let ?sc = "scan_new s scope q"
  have new: "sn_query ?sc = q" "sn_sources ?sc = scan_sources s scope" by (simp_all add: scan_new_def)
  have "folded_by lower term' \<noteq> []" using assms(2) by (auto simp: query_new_def Let_def split: if_splits)
  then have q: "query_ok q" "sq_folded q = folded_by lower term'" using query_new_ok assms(2) by (metis option.inject)+
  obtain sc where run: "scan_run lower s budgets ?sc = Some sc" "scan_inv lower s sc" "sn_query sc = q"
    "sn_sources sc = scan_sources s scope" "scan_left s sc \<le> scan_left s ?sc - length budgets"
    using scan_run_inv [OF assms(1), of ?sc s budgets] q assms(3-5) scan_new_inv new by auto
  have "scan_left s ?sc \<le> length budgets" using assms(6) by (simp add: scan_left_def left_lines_start scan_new_def)
  then have is_done: "scan_is_done sc" using run(5) scan_left_done [of s sc] by simp
  then have "drop (sn_cursor sc) (sn_sources sc) = []" by (simp add: scan_is_done_def)
  then show ?thesis using run is_done q(2) by (auto simp: scan_inv_def)
qed

text \<open>The walk goes round: the next of the last hit is the first, and going back undoes going on.\<close>

lemma hits_before_at:
  assumes "sorted_wrt (<) (map ht_sequence hits)" "k < length hits"
  shows "hits_before (\<lambda>h. ht_sequence h < ht_sequence (hits ! k)) hits = k"
    "hits_before (\<lambda>h. ht_sequence h \<le> ht_sequence (hits ! k)) hits = Suc k"
  using assms
proof (induction hits arbitrary: k)
  case (Cons h hits)
  {
    case 1
    show ?case
    proof (cases k)
      case (Suc j)
      then have "ht_sequence h < ht_sequence (hits ! j)" using 1 by (auto simp: sorted_wrt_map)
      then show ?thesis using Cons(1) [of j] 1 Suc by (simp add: hits_before_def)
    qed (simp add: hits_before_def)
  next
    case 2
    show ?case
    proof (cases k)
      case 0
      then show ?thesis using 2 by (cases hits) (auto simp: hits_before_def)
    next
      case (Suc j)
      then have "ht_sequence h \<le> ht_sequence (hits ! j)" using 2 by (auto simp: sorted_wrt_map intro: less_imp_le)
      then show ?thesis using Cons(2) [of j] 2 Suc by (simp add: hits_before_def)
    qed
  }
qed simp_all

lemma hits_go_round:
  assumes "sorted_wrt (<) (map ht_sequence hits)" "k < length hits"
  shows "next_hit hits (Some (hits ! k)) = Some (hits ! (Suc k mod length hits))"
    "previous_hit hits (Some (hits ! (Suc k mod length hits))) = Some (hits ! k)"
proof -
  show "next_hit hits (Some (hits ! k)) = Some (hits ! (Suc k mod length hits))"
    using hits_before_at(2) [OF assms] assms(2) by (auto simp: next_hit_def hit_at_def mod_Suc Let_def)
  show "previous_hit hits (Some (hits ! (Suc k mod length hits))) = Some (hits ! k)"
  proof (cases "Suc k = length hits")
    case True
    then have "hits \<noteq> []" "k = length hits - 1" "Suc k mod length hits = 0" by auto
    then show ?thesis
      using hits_before_at(1) [OF assms(1), of 0] by (simp add: previous_hit_def last_conv_nth)
  next
    case False
    then show ?thesis
      using hits_before_at(1) [OF assms(1), of "Suc k"] assms(2) by (auto simp: previous_hit_def hit_at_def Let_def)
  qed
qed

text \<open>A server's log with three lines, two of which say \<open>hi\<close>.\<close>

definition sample_log :: app_state where
  "sample_log =
     (app_new [])\<lparr>ts_selected := SelServer (NetworkId 1),
       as_server_messages :=
         [(NetworkId 1, [sample_line\<lparr>msg_sequence := 3\<rparr>, sample_line\<lparr>msg_sequence := 5, msg_text := lit ''no''\<rparr>,
            sample_line\<lparr>msg_sequence := 8, msg_text := lit ''oh HI''\<rparr>])]\<rparr>"

theorem scan_finds_newest_witness:
  "\<exists>q sc. query_new (\<lambda>c. [to_ascii_lowercase c]) (lit ''Hi'') = Some (Some q)
    \<and> scan_run (\<lambda>c. [to_ascii_lowercase c]) sample_log [1, 1, 1, 1] (scan_new sample_log ScopeSelected q) = Some sc
    \<and> sn_hits sc = map (\<lambda>k. \<lparr>ht_source = SourceServer (NetworkId 1), ht_sequence = k\<rparr>) [3, 8]"
proof -
  let ?l = "\<lambda>c. [to_ascii_lowercase c]" and ?hit = "\<lambda>k. \<lparr>ht_source = SourceServer (NetworkId 1), ht_sequence = k\<rparr>"
  have l: "lowering ?l" by (simp add: lowering_def)
  have f: "folded_by ?l (lit ''Hi'') = lit ''hi''"
    by (simp add: folded_by_def lit_def to_ascii_lowercase_def is_ascii_upper_def)
  moreover have "lit ''hi'' \<noteq> []" by (simp add: lit_def)
  ultimately obtain q where q: "query_new ?l (lit ''Hi'') = Some (Some q)" using query_new_ok by metis
  have srcs: "scan_sources sample_log ScopeSelected = [SourceServer (NetworkId 1)]"
    by (simp add: scan_sources_def selected_source_def sample_log_def)
  have log: "server_messages sample_log (NetworkId 1) =
      [sample_line\<lparr>msg_sequence := 3\<rparr>, sample_line\<lparr>msg_sequence := 5, msg_text := lit ''no''\<rparr>,
       sample_line\<lparr>msg_sequence := 8, msg_text := lit ''oh HI''\<rparr>]"
    by (simp add: server_messages_def sample_log_def)
  have t: "msg_text sample_line = lit ''hi''" by (simp add: sample_line_def)
  have "occurrences ?l (lit ''hi'') 0 (lit ''hi'') \<noteq> []" "occurrences ?l (lit ''hi'') 0 (lit ''no'') = []"
    "occurrences ?l (lit ''hi'') 0 (lit ''oh HI'') \<noteq> []"
    by (simp_all add: lit_def to_ascii_lowercase_def is_ascii_upper_def strip_prefix_def)
  then have all: "all_hits ?l (lit ''hi'') sample_log [SourceServer (NetworkId 1)] = map ?hit [3, 8]"
    unfolding all_hits_def hits_in_def by (simp add: log t)
  have "logs_ordered sample_log [SourceServer (NetworkId 1)]" by (simp add: logs_ordered_def log)
  moreover have "hits_ok (map ?hit [3, 8])" by (simp add: hits_ok_def)
  moreover have "newest MAX_HITS (map ?hit [3, 8]) = map ?hit [3, 8]" by (simp add: newest_def MAX_HITS_def)
  moreover have "sum_list (map (\<lambda>src. 1 + length (source_messages sample_log src)) [SourceServer (NetworkId 1)]) \<le> 4"
    by (simp add: log)
  ultimately obtain sc where "scan_run ?l sample_log [1, 1, 1, 1] (scan_new sample_log ScopeSelected q) = Some sc"
    "sn_hits sc = map ?hit [3, 8]"
    using scan_finds_newest [OF l q, of sample_log ScopeSelected "[1, 1, 1, 1]"] unfolding srcs f all by auto
  then show ?thesis using q by blast
qed

end
