(* ===== verification/Spec2Isabelle.thy ===== *)
theory Spec2Isabelle
  imports Names Display Domain Attachment Text Wire Tags Modes ChanModes Echo Regain Presence Accounts Replay HistoryReplies Relay ChannelTree Ctcp Fetch AppProperties Recovery CapabilityProperties CapabilityEnds ScanResults
begin

text \<open>
  A verification library of CayenChat, an IRC client written in Rust.

  \<^bold>\<open>The program.\<close> \<open>crates/model\<close> holds the domain types and the pure text functions, \<open>crates/irc-core\<close>
  the protocol engine: one worker per connection that parses lines with the vendored \<open>irc-proto\<close>
  crate and feeds small state machines, each bounded, deterministic and free of I/O, which say what
  to send and what to report. \<open>crates/app\<close> holds the state the windows show, \<open>AppState\<close>: servers,
  conversations and their logs, the selection, marks, groups, and history that arrives late. This
  library models the pure functions, the state machines and the application state; the workers,
  sockets, files and windows around them are not modelled.

  \<^bold>\<open>Theories.\<close>
  \<^item> \<open>Prelude\<close>: characters, strings with byte offsets, hash maps, instants; the shared lemmas.
  \<^item> \<open>Contracts\<close>: the interfaces as locales. \<open>folding\<close> (names compared by key) is interpreted on the
    case mappings and on nicknames; \<open>sink_gate\<close> on the text gates; \<open>machine\<close> and \<open>bounded_machine\<close>
    on every state machine, and give reachability, invariants and bounds along runs.
  \<^item> \<open>Names\<close>, \<open>Display\<close>, \<open>Domain\<close>, \<open>Attachment\<close>: \<open>crates/model/src/names.rs\<close>, \<open>display.rs\<close>, \<open>lib.rs\<close>
    and \<open>attachment.rs\<close>.
  \<^item> \<open>Text\<close>, \<open>Tags\<close>, \<open>Modes\<close>: the pure parts of \<open>crates/irc-core/src/text.rs\<close>, \<open>tags.rs\<close>, \<open>modes.rs\<close>.
  \<^item> \<open>Wire\<close>: parsed messages of \<open>vendor/irc-proto\<close> and the readers several components share.
  \<^item> \<open>ChanModes\<close>: \<open>chanmodes.rs\<close>, the flags of joined channels and the queue of \<open>MODE\<close> queries.
  \<^item> \<open>Echo\<close>: \<open>echo.rs\<close>, server-confirmed sending: which line settles which sent message.
  \<^item> \<open>Regain\<close>: \<open>regain.rs\<close>, getting operator status back by parting and joining again.
  \<^item> \<open>Presence\<close>: \<open>presence.rs\<close>, who is in which channel, indexed both ways.
  \<^item> \<open>Accounts\<close>: \<open>accounts.rs\<close>, the services accounts of the users around us; it asks the presence
    index for the channels of a user and reports events an application mirrors.
  \<^item> \<open>Replay\<close>: \<open>replay.rs\<close>, which lines of a bouncer's playback are old and which are live.
  \<^item> \<open>HistoryRequests\<close>, \<open>HistoryReplies\<close>: \<open>history.rs\<close>, the queue of requests for history, the one being
    answered and the batches of its reply; the second theory holds the runs of these operations, their bounds,
    and what holds of every reply. Texts that give a password to a service are recognised by functions
    of \<open>lib.rs\<close> modelled there too.
  \<^item> \<open>Utf8\<close>, \<open>Scram\<close>, \<open>Sasl\<close>: the checked reading of bytes of the standard library, \<open>scram.rs\<close> with the keys of
    \<open>ecdsa.rs\<close>, and \<open>sasl.rs\<close>, one login. The crates of cryptography and base64 are the argument \<open>cr\<close>.
    \<open>SaslRuns\<close>: what holds of every exchange, that the server proved itself, that the password stays secret, that
    lines are read back and that an honest server is accepted.
  \<^item> \<open>Capabilities\<close>: \<open>cap.rs\<close>, the negotiation of capabilities with the login inside. \<open>CapabilityRuns\<close>: its runs and
    invariant; \<open>CapabilityProperties\<close>: bounds, dependencies, the single end and the login on every run;
    \<open>CapabilityEnds\<close>: a measure that every answer of the server decreases.
  \<^item> \<open>Charsets\<close>: \<open>crates/irc-core/src/charsets.rs\<close> and the writing half of \<open>charsets.rs\<close> in the vendored \<open>irc-proto\<close>,
    the encoding of a line, the channels with encodings of their own and the encodings fixed for queued lines.
    The crate \<open>encoding_rs\<close> is the argument \<open>co\<close>.
  \<^item> \<open>Relay\<close>: \<open>relay.rs\<close>, the mask the server puts in front of our messages, and the strict encoding and the
    length checks of \<open>crates/irc-core/src/lib.rs\<close>, which leave room for it.
  \<^item> \<open>Pacing\<close>, \<open>Ctcp\<close>: \<open>ctcp.rs\<close>, what strangers can make the client send. The first theory holds the
    interface \<open>pacer\<close> of a budget over time and its interpretation on the code's \<open>Budget\<close>, the second
    the answers, requests and timed pings.
  \<^item> \<open>Policy\<close>, \<open>Fetch\<close>: \<open>policy.rs\<close> and \<open>fetch.rs\<close> of \<open>crates/media\<close>, which hosts a preview may contact and
    the loop over redirects. Parsing a URL (crate \<open>url\<close>) and the network are arguments.
  \<^item> \<open>ChannelGroups\<close>, \<open>ChannelTree\<close>: the channel list's groups of \<open>crates/app/src/groups.rs\<close> and the order
    and move operations of \<open>crates/app/src/lib.rs\<close>; the first theory holds the operations, the second
    their invariant and effects. \<open>str::to_lowercase\<close> (Unicode tables) is the parameter \<open>lower\<close>.
  \<^item> \<open>Timeline\<close>: the lines and the duplicate filter of \<open>crates/app/src/timeline.rs\<close>.
  \<^item> \<open>AppState\<close>, \<open>MessageLog\<close>, \<open>History\<close>, \<open>Session\<close>, \<open>Navigation\<close>: \<open>AppState\<close> of
    \<open>crates/app/src/lib.rs\<close>, in this order its fields and lookups, what appends lines, what confirms them
    and brings old ones, what servers and conversations do, and the commands that move the selection.
  \<^item> \<open>Search\<close>, \<open>SearchScan\<close>, \<open>ScanResults\<close>: \<open>crates/app/src/search.rs\<close>, the search of a term in one pass, the scan
    over the logs in slices of a bounded cost and the walk over its hits, and what a scan finds.
    \<open>char::to_lowercase\<close> is the parameter \<open>lower\<close>.
  \<^item> \<open>Logs\<close>: the invariant of the logs and of the block an older page fills. \<open>Paging\<close> and \<open>Recovery\<close>: what the
    end of an older page and of a recovered reply do. \<open>Arrangement\<close>, \<open>SessionInv\<close>, \<open>TreeArrangement\<close>: the
    invariant of the list of conversations, of the index of channels, of the selection and marks, kept by the
    operations on servers and conversations and by those on the tree. \<open>AppLogs\<close>, \<open>LogSteps\<close>: which operations
    only drop lines, and which add them.
  \<^item> \<open>AppMachine\<close>, \<open>AppProperties\<close>: the application as an interpretation of \<open>machine\<close> over all its operations,
    and what holds after any run: no panic, a consistent list, ordered logs, and where navigation leads.

  \<^bold>\<open>Correspondence.\<close> A struct is a record, an enum a datatype, a method a definition that takes the
  state last and returns it with the result. Strings are lists of code points with their UTF-8
  lengths; \<open>Option\<close> and panics are \<open>option\<close>. Instants and durations are milliseconds; a call that
  reads the clock takes the instant as an argument. A \<open>HashMap\<close> is an association list whose order
  is the iteration order, and since the theorems quantify over every list they hold for every order.

  \<^bold>\<open>What the lemmas show.\<close> For every state machine an invariant that each operation keeps, hence bounds
  in every reachable state; for each operation its effect (a run of the application is one of
  \<open>app_run\<close>, and \<open>app_fits\<close> says that counters of 32 and 64 bits do not wrap along it); for the indexes a refinement of an
  abstract relation; for the codecs round trips; for the search the plain one it equals.

  \<^bold>\<open>Bounds.\<close> All recursion is structural or has a termination proof, except two loops of the search over its
  own tables (\<open>partial_function (option)\<close>), which \<open>search_is_plain\<close> shows to end; no fuel is used. A negotiation ends
  within thirty-five answers: two capabilities unlock others, and at most eleven requests wait at a time.

  \<^bold>\<open>Not modelled.\<close> The asynchronous workers, sockets, TLS, files, windows and images (I/O), floating
  point formatting, the \<open>chrono\<close> calls and the vendored GUI crates. Of the application, the directory of
  avatars, and writes of the windows through \<open>conversation_mut\<close>. Of the protocol engine, the two exchanges of
  avatars (\<open>metadata.rs\<close>, of which only \<open>numeric\<close> is here, and the experimental \<open>peer_avatar.rs\<close> with
  \<open>avatar_mask.rs\<close>), the reading half of the encodings (\<open>decode_line\<close>), and the creation and import of keys, which
  are calls of a crate. Of the application, notifications and links. \<open>crates/storage\<close> and \<open>crates/upload\<close> are files, SQLite
  and HTTP; \<open>crates/ui\<close> is windows; the segmenter of \<open>phrase.rs\<close> is a table of weights.
\<close>

end
